(* ===== verification/Prelude.thy ===== *)
theory Prelude
  imports Main "HOL-Library.Word"
begin

text \<open>
  Shared vocabulary of the development: the machine-integer types of the C sources, the Linux
  error numbers of \<^verbatim>\<open>include/linux_compat/errno.h\<close>, the RendezvOS error codes the kernel core
  hands back, C strings as character lists, and the generic list lemmas the components share.

  Conventions used in every theory:
  \<^item> a NUL-terminated C string is a \<^typ>\<open>string\<close> (the bytes before the terminator);
  \<^item> an \<^verbatim>\<open>i64\<close> system-call style result is an \<^typ>\<open>int\<close>, negative values being \<^verbatim>\<open>-LINUX_E...\<close>;
  \<^item> a \<^verbatim>\<open>bool\<close> function that fills an out-parameter on success returns an \<open>option\<close>;
  \<^item> guards against NULL pointer arguments are not modelled: arguments are values.
\<close>

unbundle bit_operations_syntax

type_synonym u8 = "8 word"
type_synonym u16 = "16 word"
type_synonym u32 = "32 word"
type_synonym u64 = "64 word"

named_theorems vfs_simps \<open>rewrite rules about the VFS server components\<close>
named_theorems sig_simps \<open>rewrite rules about the signal components\<close>

subsection \<open>Linux error numbers\<close>

abbreviation LINUX_EPERM :: int where "LINUX_EPERM \<equiv> 1"
abbreviation LINUX_ENOENT :: int where "LINUX_ENOENT \<equiv> 2"
abbreviation LINUX_ESRCH :: int where "LINUX_ESRCH \<equiv> 3"
abbreviation LINUX_EINTR :: int where "LINUX_EINTR \<equiv> 4"
abbreviation LINUX_EIO :: int where "LINUX_EIO \<equiv> 5"
abbreviation LINUX_ENXIO :: int where "LINUX_ENXIO \<equiv> 6"
abbreviation LINUX_EBADF :: int where "LINUX_EBADF \<equiv> 9"
abbreviation LINUX_ECHILD :: int where "LINUX_ECHILD \<equiv> 10"
abbreviation LINUX_EAGAIN :: int where "LINUX_EAGAIN \<equiv> 11"
abbreviation LINUX_ENOMEM :: int where "LINUX_ENOMEM \<equiv> 12"
abbreviation LINUX_EACCES :: int where "LINUX_EACCES \<equiv> 13"
abbreviation LINUX_EFAULT :: int where "LINUX_EFAULT \<equiv> 14"
abbreviation LINUX_EBUSY :: int where "LINUX_EBUSY \<equiv> 16"
abbreviation LINUX_EEXIST :: int where "LINUX_EEXIST \<equiv> 17"
abbreviation LINUX_EXDEV :: int where "LINUX_EXDEV \<equiv> 18"
abbreviation LINUX_ENODEV :: int where "LINUX_ENODEV \<equiv> 19"
abbreviation LINUX_ENOTDIR :: int where "LINUX_ENOTDIR \<equiv> 20"
abbreviation LINUX_EISDIR :: int where "LINUX_EISDIR \<equiv> 21"
abbreviation LINUX_EINVAL :: int where "LINUX_EINVAL \<equiv> 22"
abbreviation LINUX_EMFILE :: int where "LINUX_EMFILE \<equiv> 24"
abbreviation LINUX_EROFS :: int where "LINUX_EROFS \<equiv> 30"
abbreviation LINUX_EPIPE :: int where "LINUX_EPIPE \<equiv> 32"
abbreviation LINUX_ENAMETOOLONG :: int where "LINUX_ENAMETOOLONG \<equiv> 36"
abbreviation LINUX_ENOSYS :: int where "LINUX_ENOSYS \<equiv> 38"

abbreviation LINUX_E2BIG :: int where "LINUX_E2BIG \<equiv> 7"
abbreviation LINUX_ENOEXEC :: int where "LINUX_ENOEXEC \<equiv> 8"
abbreviation LINUX_EFBIG :: int where "LINUX_EFBIG \<equiv> 27"

text \<open>The bytes of a 64-bit value in memory, lowest first.\<close>

definition le_bytes :: "u64 \<Rightarrow> u8 list" where
  "le_bytes w = map (\<lambda>i. ucast (drop_bit (8 * i) w)) [0..<8]"

subsection \<open>RendezvOS error codes\<close>

text \<open>
  The numeric values of the \<^verbatim>\<open>E_...\<close> codes are defined in the kernel core, which is not part of
  this repository; only their names and their distinctness are used.
\<close>

datatype rend_error = E_IN_PARAM | E_RENDEZVOS | E_REND_NO_MEM

text \<open>A function of C type \<^verbatim>\<open>error_t\<close> that updates state: the new state with the code.\<close>

datatype error_t = REND_SUCCESS | REND_ERR rend_error

subsection \<open>The bounded string comparison of the core\<close>

text \<open>
  \<^verbatim>\<open>strcmp_s(a, b, n)\<close> comes from the core's \<^verbatim>\<open><common/string.h>\<close>. It is a parameter of every
  definition that calls it. The locale states what the callers rely on: it compares at most
  \<open>n\<close> characters, the result is zero exactly on equality of those, and its sign is a total
  order.
\<close>

locale strcmp_api =
  fixes scmp :: "string \<Rightarrow> string \<Rightarrow> nat \<Rightarrow> int"
  assumes scmp_zero: "scmp a b n = 0 \<longleftrightarrow> take n a = take n b"
    and scmp_flip: "0 < scmp a b n \<longleftrightarrow> scmp b a n < 0"
    and scmp_trans: "scmp a b n < 0 \<Longrightarrow> scmp b c n < 0 \<Longrightarrow> scmp a c n < 0"
begin

lemma scmp_refl [simp]: "scmp a a n = 0"
  by (simp add: scmp_zero)

lemma scmp_zero_short:
  assumes "length a \<le> n" and "length b \<le> n"
  shows "scmp a b n = 0 \<longleftrightarrow> a = b"
  using assms by (simp add: scmp_zero)

end

text \<open>
  The standard C \<^verbatim>\<open>strncmp\<close> (byte-wise, at most \<open>n\<close> characters) satisfies the interface, so the
  hypotheses of the locale are consistent.
\<close>

fun strncmp :: "string \<Rightarrow> string \<Rightarrow> nat \<Rightarrow> int" where
  "strncmp a b 0 = 0"
| "strncmp [] [] (Suc n) = 0"
| "strncmp [] (b # bs) (Suc n) = -1"
| "strncmp (a # as) [] (Suc n) = 1"
| "strncmp (a # as) (b # bs) (Suc n) =
     (if a = b then strncmp as bs n
      else if (of_char a :: nat) < of_char b then -1 else 1)"

lemma strncmp_zero: "strncmp a b n = 0 \<longleftrightarrow> take n a = take n b"
  by (induction a b n rule: strncmp.induct) auto

lemma of_char_nat_inject: "(of_char a :: nat) = of_char b \<longleftrightarrow> a = b"
  by (rule of_char_eq_iff)

lemma strncmp_flip: "0 < strncmp a b n \<longleftrightarrow> strncmp b a n < 0"
  by (induction a b n rule: strncmp.induct)
    (auto simp: not_less order.strict_iff_order dest: of_char_nat_inject [THEN iffD1])

lemma strncmp_trans: "strncmp a b n < 0 \<Longrightarrow> strncmp b c n < 0 \<Longrightarrow> strncmp a c n < 0"
proof (induction a b n arbitrary: c rule: strncmp.induct)
  case (3 b bs n)
  then show ?case by (cases c) auto
next
  case (5 x xs y ys n)
  then show ?case
    by (cases c) (auto split: if_splits)
qed auto

interpretation strncmp: strcmp_api strncmp
  by unfold_locales (auto simp: strncmp_zero strncmp_flip intro: strncmp_trans)

subsection \<open>Generic lemmas\<close>

lemma takeWhile_append_stop:
  assumes "\<forall>x \<in> set xs. P x" and "\<not> P y"
  shows "takeWhile P (xs @ y # ys) = xs"
  using assms by (induction xs) auto

lemma takeWhile_all: "\<forall>x \<in> set xs. P x \<Longrightarrow> takeWhile P xs = xs"
  by (induction xs) auto

text \<open>The C idiom \<^verbatim>\<open>end = off + len; if (end < off) fail\<close> detects wrap-around.\<close>

lemma no_wrap_add:
  fixes off len m :: nat
  assumes "len < m" "off \<le> (off + len) mod m"
  shows "(off + len) mod m = off + len"
proof (rule ccontr)
  assume "(off + len) mod m \<noteq> off + len"
  then have ge: "m \<le> off + len" by (metis mod_less not_less)
  have "off < m" using assms by (metis le_less_trans mod_less_divisor not_less_zero zero_less_iff_neq_zero)
  have "(off + len) mod m = (off + len - m) mod m" using ge by (simp add: le_mod_geq)
  also have "\<dots> \<le> off + len - m" by (rule mod_less_eq_dividend)
  also have "\<dots> < off" using \<open>off < m\<close> assms(1) ge by linarith
  finally show False using assms(2) by simp
qed

end
