(* ===== verification/Vfs_Path.thy ===== *)
theory Vfs_Path
  imports Prelude
begin

text \<open>
  Path normalisation shared by the VFS server and the Linux layer
  (\<^verbatim>\<open>linux_layer/fs/vfs_path.c\<close>). The C code keeps the components of a path as
  \<^verbatim>\<open>(offset, length)\<close> pairs into the caller's scratch buffer; the model keeps the component
  strings these pairs denote. An output buffer of capacity \<open>cap\<close> holds a string together with its
  terminator, so a result \<open>r\<close> fits when \<open>length r < cap\<close>.

  The lemmas give the canonical form of a normalised path, that normalisation is idempotent, that
  inside the limits it agrees with a reference resolver on component lists, and how parent,
  base name, join and the direct-child test relate to it.
\<close>

section \<open>Definitions\<close>

abbreviation VFS_PATH_MAX :: nat where "VFS_PATH_MAX \<equiv> 256"
abbreviation VFS_PATH_MAX_COMPONENTS :: nat where "VFS_PATH_MAX_COMPONENTS \<equiv> 32"
abbreviation VFS_PATH_MAX_COMPONENT_LEN :: nat where "VFS_PATH_MAX_COMPONENT_LEN \<equiv> 64"

abbreviation slash :: char where "slash \<equiv> CHR ''/''"

definition vfs_path_is_root_norm :: "string \<Rightarrow> bool" where
  "vfs_path_is_root_norm norm \<longleftrightarrow> norm = ''/''"

text \<open>One pass of the component loop on a component of the source string.\<close>

definition collapse_push :: "string list \<Rightarrow> string \<Rightarrow> string list" where
  "collapse_push comps name =
     (if name = [] then comps
      else if name = ''.'' then comps
      else if name = ''..'' then butlast comps
      else comps @ [take (VFS_PATH_MAX_COMPONENT_LEN - 1) name])"

definition skip_slash :: "string \<Rightarrow> string" where
  "skip_slash src = (case src of [] \<Rightarrow> [] | c # cs \<Rightarrow> if c = slash then cs else src)"

function collapse_loop :: "string \<Rightarrow> string list \<Rightarrow> string list" where
  "collapse_loop src comps =
     (if src = [] \<or> VFS_PATH_MAX_COMPONENTS \<le> length comps then comps
      else collapse_loop (skip_slash (dropWhile (\<lambda>c. c \<noteq> slash) src))
             (collapse_push comps (takeWhile (\<lambda>c. c \<noteq> slash) src)))"
  by pat_completeness auto

lemma skip_slash_Nil [simp]: "skip_slash [] = []"
  by (simp add: skip_slash_def)

lemma length_skip_slash: "length (skip_slash s) \<le> length s"
  by (simp add: skip_slash_def split: list.split)

lemma skip_slash_dropWhile_less:
  assumes "src \<noteq> []"
  shows "length (skip_slash (dropWhile (\<lambda>c. c \<noteq> slash) src)) < length src"
proof -
  obtain c cs where src: "src = c # cs"
    using assms by (cases src) simp_all
  show ?thesis
  proof (cases "c = slash")
    case True
    then show ?thesis by (simp add: src skip_slash_def)
  next
    case False
    then have "dropWhile (\<lambda>c. c \<noteq> slash) src = dropWhile (\<lambda>c. c \<noteq> slash) cs"
      by (simp add: src)
    moreover have "length (dropWhile (\<lambda>c. c \<noteq> slash) cs) \<le> length cs"
      by (rule length_dropWhile_le)
    ultimately show ?thesis
      using length_skip_slash [of "dropWhile (\<lambda>c. c \<noteq> slash) src"] by (simp add: src)
  qed
qed

termination collapse_loop
  by (relation "measure (\<lambda>(src, comps). length src)") (simp_all add: skip_slash_dropWhile_less)

declare collapse_loop.simps [simp del]

lemma collapse_loop_stop [simp]:
  "src = [] \<or> VFS_PATH_MAX_COMPONENTS \<le> length comps \<Longrightarrow> collapse_loop src comps = comps"
  by (subst collapse_loop.simps) simp

lemma collapse_loop_step:
  "src \<noteq> [] \<Longrightarrow> length comps < VFS_PATH_MAX_COMPONENTS \<Longrightarrow>
   collapse_loop src comps =
     collapse_loop (skip_slash (dropWhile (\<lambda>c. c \<noteq> slash) src))
       (collapse_push comps (takeWhile (\<lambda>c. c \<noteq> slash) src))"
  by (subst collapse_loop.simps) simp

text \<open>The copy loops that write the components to the output buffer; \<open>out\<close> is what is written.\<close>

fun emit_comp :: "nat \<Rightarrow> string \<Rightarrow> string \<Rightarrow> string" where
  "emit_comp cap out [] = out"
| "emit_comp cap out (c # cs) =
     (if length out + 1 < cap then emit_comp cap (out @ [c]) cs else out)"

fun emit_comps :: "nat \<Rightarrow> string \<Rightarrow> string list \<Rightarrow> string" where
  "emit_comps cap out [] = out"
| "emit_comps cap out [c] = emit_comp cap out c"
| "emit_comps cap out (c # d # ds) =
     (let out1 = emit_comp cap out c in
      emit_comps cap (if length out1 + 1 < cap then out1 @ ''/'' else out1) (d # ds))"

definition vfs_path_collapse :: "string \<Rightarrow> nat \<Rightarrow> string" where
  "vfs_path_collapse raw out_cap =
     (let comps = collapse_loop (skip_slash raw) [] in
      if comps = [] then ''/'' else emit_comps out_cap ''/'' comps)"

definition strip_dot_slash :: "string \<Rightarrow> string" where
  "strip_dot_slash src = (if take 2 src = ''./'' then drop 2 src else src)"

definition vfs_path_normalize :: "string \<Rightarrow> nat \<Rightarrow> string" where
  "vfs_path_normalize inp out_cap =
     (if inp = ''.'' then vfs_path_collapse ''/'' out_cap
      else vfs_path_collapse
             (slash # take (VFS_PATH_MAX - 2) (skip_slash (strip_dot_slash inp))) out_cap)"

definition vfs_path_is_root :: "string \<Rightarrow> bool" where
  "vfs_path_is_root path = vfs_path_is_root_norm (vfs_path_normalize path VFS_PATH_MAX)"

text \<open>
  The backward scan of \<^verbatim>\<open>vfs_path_basename\<close> and \<^verbatim>\<open>vfs_path_parent\<close>:
  \<^verbatim>\<open>while (i > 1 && norm[i - 1] != '/') i--;\<close>
\<close>

fun scan_back :: "string \<Rightarrow> nat \<Rightarrow> nat" where
  "scan_back norm 0 = 0"
| "scan_back norm (Suc i) =
     (if 1 < Suc i \<and> norm ! i \<noteq> slash then scan_back norm i else Suc i)"

definition vfs_path_basename :: "string \<Rightarrow> nat \<Rightarrow> string option" where
  "vfs_path_basename path out_cap =
     (if out_cap = 0 then None
      else let norm = vfs_path_normalize path VFS_PATH_MAX in
        if vfs_path_is_root_norm norm then None
        else let out = take (out_cap - 1) (drop (scan_back norm (length norm)) norm) in
          if out = [] then None else Some out)"

definition vfs_path_direct_child_name :: "string \<Rightarrow> string \<Rightarrow> nat \<Rightarrow> string option" where
  "vfs_path_direct_child_name parent full name_cap =
     (if name_cap = 0 then None
      else let parent_norm = vfs_path_normalize parent VFS_PATH_MAX;
               full_norm = vfs_path_normalize full VFS_PATH_MAX;
               rest = drop (length parent_norm) full_norm in
        if take (length parent_norm) full_norm \<noteq> parent_norm then None
        else if rest \<noteq> [] \<and> hd rest \<noteq> slash then None
        else if rest = [] then None
        else let suffix = skip_slash rest in
          if suffix = [] then None
          else if slash \<in> set suffix then None
          else if name_cap \<le> length suffix + 1 then None
          else Some suffix)"

definition vfs_path_parent :: "string \<Rightarrow> nat \<Rightarrow> string option" where
  "vfs_path_parent path out_cap =
     (if out_cap = 0 then None
      else let norm = vfs_path_normalize path VFS_PATH_MAX in
        if vfs_path_is_root_norm norm then None
        else let i = scan_back norm (length norm) in
          if i \<le> 1 then Some ''/''
          else if out_cap \<le> i then None
          else Some (take i norm))"

fun append_chars :: "nat \<Rightarrow> string \<Rightarrow> string \<Rightarrow> string option" where
  "append_chars cap scratch [] = Some scratch"
| "append_chars cap scratch (c # cs) =
     (if cap \<le> length scratch + 1 then None else append_chars cap (scratch @ [c]) cs)"

definition vfs_path_append_to_scratch :: "string \<Rightarrow> nat \<Rightarrow> string \<Rightarrow> string option" where
  "vfs_path_append_to_scratch scratch scratch_cap suffix =
     (if scratch \<noteq> [] \<and> last scratch \<noteq> slash then
        (if scratch_cap \<le> length scratch + 1 then None
         else append_chars scratch_cap (scratch @ ''/'') suffix)
      else append_chars scratch_cap scratch suffix)"

definition join_plain :: "string \<Rightarrow> string \<Rightarrow> nat \<Rightarrow> string option" where
  "join_plain base_norm r out_cap =
     (let s0 = take (VFS_PATH_MAX - 1) base_norm in
      if s0 = [] then None
      else let s1 = (if last s0 \<noteq> slash \<and> length s0 + 1 < VFS_PATH_MAX then s0 @ ''/'' else s0);
               s2 = s1 @ take (VFS_PATH_MAX - 1 - length s1) r in
        Some (vfs_path_normalize s2 out_cap))"

definition vfs_path_join :: "string \<Rightarrow> string \<Rightarrow> nat \<Rightarrow> string option" where
  "vfs_path_join base rel out_cap =
     (if out_cap = 0 then None
      else if take 1 rel = ''/'' then Some (vfs_path_normalize rel out_cap)
      else let base_norm = vfs_path_normalize base VFS_PATH_MAX in
        if take 2 rel = ''./'' then join_plain base_norm (drop 2 rel) out_cap
        else if rel = ''.'' then Some (take (out_cap - 1) base_norm)
        else if rel = ''..'' \<or> take 3 rel = ''../'' then
          (let scratch = (case vfs_path_parent base_norm VFS_PATH_MAX of
                            Some p \<Rightarrow> p
                          | None \<Rightarrow> take (VFS_PATH_MAX - 1) base_norm) in
           if rel = ''..'' then Some (vfs_path_normalize scratch out_cap)
           else case vfs_path_append_to_scratch scratch VFS_PATH_MAX (drop 3 rel) of
                  None \<Rightarrow> None
                | Some s \<Rightarrow> Some (vfs_path_normalize s out_cap))
        else join_plain base_norm rel out_cap)"

definition vfs_path_equal :: "(string \<Rightarrow> string \<Rightarrow> nat \<Rightarrow> int) \<Rightarrow> string \<Rightarrow> string \<Rightarrow> bool" where
  "vfs_path_equal strcmp_s a b \<longleftrightarrow>
     strcmp_s (vfs_path_normalize a VFS_PATH_MAX) (vfs_path_normalize b VFS_PATH_MAX)
       VFS_PATH_MAX = 0"

section \<open>Reference semantics\<close>

text \<open>Paths as component lists: splitting at slashes, resolution of dot entries, printing.\<close>

fun split_slash :: "string \<Rightarrow> string list" where
  "split_slash [] = [[]]"
| "split_slash (c # cs) =
     (if c = slash then [] # split_slash cs
      else case split_slash cs of s # ss \<Rightarrow> (c # s) # ss | [] \<Rightarrow> [[c]])"

definition walk_comp :: "string list \<Rightarrow> string \<Rightarrow> string list" where
  "walk_comp here name =
     (if name = [] \<or> name = ''.'' then here
      else if name = ''..'' then butlast here else here @ [name])"

definition walk :: "string list \<Rightarrow> string \<Rightarrow> string list" where
  "walk here path = foldl walk_comp here (split_slash path)"

fun slash_join :: "string list \<Rightarrow> string" where
  "slash_join [] = []"
| "slash_join [c] = c"
| "slash_join (c # d # ds) = c @ slash # slash_join (d # ds)"

definition render :: "string list \<Rightarrow> string" where
  "render comps = slash # slash_join comps"

definition canon_comp :: "string \<Rightarrow> bool" where
  "canon_comp c \<longleftrightarrow> c \<noteq> [] \<and> slash \<notin> set c \<and> c \<noteq> ''.'' \<and> c \<noteq> ''..''
     \<and> length c < VFS_PATH_MAX_COMPONENT_LEN"

definition canon :: "string list \<Rightarrow> bool" where
  "canon comps \<longleftrightarrow> list_all canon_comp comps \<and> length comps \<le> VFS_PATH_MAX_COMPONENTS"

text \<open>The components the normaliser finds in a path.\<close>

definition norm_comps :: "string \<Rightarrow> string list" where
  "norm_comps p =
     (if p = ''.'' then []
      else collapse_loop (take (VFS_PATH_MAX - 2) (skip_slash (strip_dot_slash p))) [])"

section \<open>Output and canonical form\<close>

lemma emit_comp_take: "length out < cap \<Longrightarrow> emit_comp cap out c = take (cap - 1) (out @ c)"
  by (induction cap out c rule: emit_comp.induct) (auto simp: not_less)

lemma emit_comps_take:
  "length out < cap \<Longrightarrow> emit_comps cap out cs = take (cap - 1) (out @ slash_join cs)"
proof (induction cap out cs rule: emit_comps.induct)
  case (3 cap out c d ds)
  let ?o = "take (cap - 1) (out @ c)"
  show ?case
  proof (cases "length (out @ c) < cap - 1")
    case True
    then have "Suc (length out + length c) < cap" by simp
    moreover obtain k where "cap - Suc (length out + length c) = Suc k"
      using True by (cases "cap - Suc (length out + length c)") simp_all
    ultimately show ?thesis using 3 by (simp add: emit_comp_take Let_def)
  next
    case False
    then have "length ?o = cap - 1" by simp
    moreover from False have "take (cap - 1) (out @ c @ xs) = ?o" for xs
      by (auto simp: take_append)
    ultimately show ?thesis using 3 by (simp add: emit_comp_take Let_def)
  qed
qed (simp_all add: emit_comp_take)

lemma collapse_render:
  "2 \<le> cap \<Longrightarrow> vfs_path_collapse raw cap = take (cap - 1) (render (collapse_loop (skip_slash raw) []))"
  by (auto simp: vfs_path_collapse_def render_def emit_comps_take Let_def)

lemma skip_slash_Cons [simp]: "skip_slash (slash # s) = s"
  by (simp add: skip_slash_def)

lemma normalize_render:
  "2 \<le> cap \<Longrightarrow> vfs_path_normalize p cap = take (cap - 1) (render (norm_comps p))"
  by (simp add: vfs_path_normalize_def norm_comps_def collapse_render)

text \<open>Canonical components, and the room they take.\<close>

lemma canon_Nil [simp]: "canon []"
  by (simp add: canon_def)

lemma canon_butlast: "canon cs \<Longrightarrow> canon (butlast cs)"
  by (auto simp: canon_def list_all_iff dest: in_set_butlastD)

lemma canon_collapse_push:
  assumes "canon cs" "length cs < VFS_PATH_MAX_COMPONENTS" "slash \<notin> set name"
  shows "canon (collapse_push cs name)"
proof -
  have "canon_comp (take 63 name)" if "name \<noteq> []" "name \<noteq> ''.''" "name \<noteq> ''..''"
  proof (cases "length name \<le> 63")
    case True
    then show ?thesis using that assms(3) by (simp add: canon_comp_def)
  next
    case False
    then have "length (take 63 name) = 63" by simp
    then have "take 63 name \<noteq> ''.''" "take 63 name \<noteq> ''..''"
      by (auto dest!: arg_cong [where f = length])
    then show ?thesis using that assms(3) by (auto simp: canon_comp_def dest: in_set_takeD)
  qed
  then show ?thesis
    using assms canon_butlast [of cs] by (auto simp: collapse_push_def canon_def)
qed

lemma split_at_slash:
  assumes "slash \<notin> set c"
  shows "takeWhile (\<lambda>c. c \<noteq> slash) (c @ slash # r) = c"
    and "dropWhile (\<lambda>c. c \<noteq> slash) (c @ slash # r) = slash # r"
    and "takeWhile (\<lambda>c. c \<noteq> slash) c = c"
    and "dropWhile (\<lambda>c. c \<noteq> slash) c = []"
  using assms by (induction c) auto

lemma path_induct [case_names last more]:
  assumes last: "\<And>src. slash \<notin> set src \<Longrightarrow> P src"
    and more: "\<And>c r. slash \<notin> set c \<Longrightarrow> P r \<Longrightarrow> P (c @ slash # r)"
  shows "P src"
proof (induction src rule: length_induct)
  case (1 src)
  show ?case
  proof (cases "slash \<in> set src")
    case True
    then obtain c r where "src = c @ slash # r" "slash \<notin> set c"
      by (meson split_list_first)
    then show ?thesis using 1 more by simp
  qed (rule last)
qed

lemma collapse_loop_last:
  "slash \<notin> set src \<Longrightarrow> length comps < VFS_PATH_MAX_COMPONENTS \<Longrightarrow>
   collapse_loop src comps = collapse_push comps src"
  by (cases "src = []") (simp_all add: collapse_loop_step split_at_slash collapse_push_def)

lemma collapse_loop_more:
  "slash \<notin> set c \<Longrightarrow> length comps < VFS_PATH_MAX_COMPONENTS \<Longrightarrow>
   collapse_loop (c @ slash # r) comps = collapse_loop r (collapse_push comps c)"
  by (simp add: collapse_loop_step split_at_slash)

lemma canon_collapse_loop: "canon comps \<Longrightarrow> canon (collapse_loop src comps)"
proof (induction src arbitrary: comps rule: path_induct)
  case (last src)
  then show ?case
    by (cases "length comps < 32") (simp_all add: collapse_loop_last canon_collapse_push)
next
  case (more c r)
  then show ?case
    by (cases "length comps < 32") (simp_all add: collapse_loop_more canon_collapse_push)
qed

definition weight :: "string list \<Rightarrow> nat" where
  "weight cs = sum_list (map (\<lambda>c. Suc (length c)) cs)"

lemma length_slash_join: "length (slash_join cs) = weight cs - 1"
  by (induction cs rule: slash_join.induct) (simp_all add: weight_def)

lemma weight_butlast: "weight (butlast cs) \<le> weight cs"
  by (cases cs rule: rev_cases) (simp_all add: weight_def)

lemma weight_collapse_push: "weight (collapse_push cs name) \<le> weight cs + (if name = [] then 0 else Suc (length name))"
  using weight_butlast [of cs] by (auto simp: collapse_push_def) (auto simp: weight_def)

lemma weight_collapse_loop:
  "weight (collapse_loop src comps) \<le> weight comps + (if src = [] then 0 else Suc (length src))"
proof (induction src arbitrary: comps rule: path_induct)
  case (last src)
  then show ?case using weight_collapse_push [of comps src]
    by (cases "length comps < 32") (simp_all add: collapse_loop_last)
next
  case (more c r)
  show ?case
  proof (cases "length comps < 32")
    case True
    then show ?thesis
      using more(1) more(2) [of "collapse_push comps c"] weight_collapse_push [of comps c]
      by (simp add: collapse_loop_more split: if_splits)
  qed simp
qed

lemma canon_norm_comps: "canon (norm_comps p)"
  by (simp add: norm_comps_def canon_collapse_loop)

lemma weight_norm_comps: "weight (norm_comps p) \<le> VFS_PATH_MAX - 1"
  using weight_collapse_loop [of "take 254 (skip_slash (strip_dot_slash p))" "[]"]
  by (auto simp: norm_comps_def weight_def split: if_splits)

lemma length_render: "length (render cs) = (if cs = [] then 1 else weight cs)"
  by (cases cs) (simp_all add: render_def length_slash_join weight_def)

lemma length_render_norm: "length (render (norm_comps p)) < VFS_PATH_MAX"
  using weight_norm_comps [of p] by (simp add: length_render)

lemma normalize_256: "vfs_path_normalize p VFS_PATH_MAX = render (norm_comps p)"
  using length_render_norm [of p] by (simp add: normalize_render)

lemma length_normalize: "2 \<le> cap \<Longrightarrow> length (vfs_path_normalize p cap) < cap"
  by (simp add: normalize_render)

section \<open>Re-reading a canonical path\<close>

lemma canon_append: "canon (xs @ ys) \<Longrightarrow> canon xs \<and> canon ys"
  by (simp add: canon_def)

lemma collapse_push_canon: "canon_comp c \<Longrightarrow> collapse_push cs c = cs @ [c]"
  by (simp add: canon_comp_def collapse_push_def)

lemma collapse_loop_join: "canon (acc @ cs) \<Longrightarrow> collapse_loop (slash_join cs) acc = acc @ cs"
proof (induction cs arbitrary: acc rule: slash_join.induct)
  case (2 c)
  then have "canon_comp c" "length acc < 32" "c \<noteq> []" "slash \<notin> set c"
    by (simp_all add: canon_def canon_comp_def)
  then show ?case by (simp add: collapse_loop_last collapse_loop_more collapse_push_canon)
next
  case (3 c d ds)
  then have "canon_comp c" "length acc < 32" "c \<noteq> []" "slash \<notin> set c"
    by (simp_all add: canon_def canon_comp_def)
  then show ?case using 3
    by (simp add: collapse_loop_last collapse_loop_more collapse_push_canon)
qed simp

lemma strip_dot_slash_slash [simp]: "strip_dot_slash (slash # s) = slash # s"
  by (simp add: strip_dot_slash_def numeral_2_eq_2)

lemma norm_comps_render:
  assumes "canon cs" and "length (render cs) < VFS_PATH_MAX"
  shows "norm_comps (render cs) = cs"
proof -
  have "length (slash_join cs) \<le> 254" using assms(2) by (simp add: render_def)
  then show ?thesis
    using collapse_loop_join [of "[]" cs] assms(1) by (simp add: norm_comps_def render_def)
qed

lemma norm_comps_render_norm [simp]: "norm_comps (render (norm_comps p)) = norm_comps p"
  by (simp add: norm_comps_render canon_norm_comps length_render_norm)

lemma render_inject:
  assumes "canon xs" "canon ys" "length (render xs) < 256" "length (render ys) < 256"
  shows "render xs = render ys \<longleftrightarrow> xs = ys"
  using norm_comps_render [of xs] norm_comps_render [of ys] assms by metis

lemma render_norm_inject: "render (norm_comps p) = render (norm_comps q) \<longleftrightarrow> norm_comps p = norm_comps q"
  by (simp add: render_inject canon_norm_comps length_render_norm)

lemma render_eq_root: "canon cs \<Longrightarrow> render cs = ''/'' \<longleftrightarrow> cs = []"
  by (cases cs rule: slash_join.cases) (auto simp: render_def canon_def canon_comp_def)

lemma is_root_norm_render: "vfs_path_is_root_norm (render (norm_comps p)) \<longleftrightarrow> norm_comps p = []"
  by (simp add: vfs_path_is_root_norm_def render_eq_root canon_norm_comps)

section \<open>Agreement with the reference resolver\<close>

lemma split_slash_nonempty [simp]: "split_slash s \<noteq> []"
  by (induction s) (auto split: list.split)

lemma split_slash_append:
  assumes "slash \<notin> set c"
  shows "split_slash (c @ slash # r) = c # split_slash r" and "split_slash c = [c]"
  using assms by (induction c) auto

lemma foldl_walk_empty: "list_all (\<lambda>s. s = []) ss \<Longrightarrow> foldl walk_comp here ss = here"
  by (induction ss) (simp_all add: walk_comp_def)

lemma collapse_push_walk:
  "length name < VFS_PATH_MAX_COMPONENT_LEN \<Longrightarrow> collapse_push cs name = walk_comp cs name"
  by (simp add: collapse_push_def walk_comp_def)

text \<open>Within the limits of the C buffers nothing is cut off.\<close>

definition seg_ok :: "nat \<Rightarrow> string list \<Rightarrow> bool" where
  "seg_ok depth segs \<longleftrightarrow> list_all (\<lambda>s. length s < VFS_PATH_MAX_COMPONENT_LEN) segs
     \<and> depth + length (filter (\<lambda>s. s \<noteq> []) segs) \<le> VFS_PATH_MAX_COMPONENTS"

lemma length_walk_comp: "length (walk_comp here n) \<le> length here + (if n = [] then 0 else 1)"
  by (auto simp: walk_comp_def)

lemma seg_ok_full:
  "seg_ok depth segs \<Longrightarrow> VFS_PATH_MAX_COMPONENTS \<le> depth \<Longrightarrow> foldl walk_comp here segs = here"
proof (rule foldl_walk_empty)
  assume "seg_ok depth segs" "VFS_PATH_MAX_COMPONENTS \<le> depth"
  then have "length (filter (\<lambda>s. s \<noteq> []) segs) = 0"
    unfolding seg_ok_def by linarith
  then show "list_all (\<lambda>s. s = []) segs"
    by (simp add: list_all_iff filter_empty_conv)
qed

lemma collapse_loop_walk:
  "seg_ok (length comps) (split_slash src) \<Longrightarrow> collapse_loop src comps = walk comps src"
proof (induction src arbitrary: comps rule: path_induct)
  case (last src)
  then show ?case
    using seg_ok_full [of "length comps" "[src]" comps]
    by (cases "length comps < 32")
      (simp_all add: collapse_loop_last walk_def split_slash_append collapse_push_walk seg_ok_def)
next
  case (more c r)
  show ?case
  proof (cases "length comps < 32")
    case True
    have "collapse_push comps c = walk_comp comps c"
      using more by (simp add: seg_ok_def split_slash_append collapse_push_walk)
    moreover have "seg_ok (length (walk_comp comps c)) (split_slash r)"
      using more length_walk_comp [of comps c]
      by (auto simp: seg_ok_def split_slash_append split: if_splits)
    ultimately show ?thesis
      using more True by (simp add: collapse_loop_more walk_def split_slash_append)
  next
    case False
    then show ?thesis using more by (simp add: walk_def seg_ok_full)
  qed
qed

section \<open>Parent, base name, join\<close>

text \<open>A directory path with its trailing slash, as \<^verbatim>\<open>vfs_path_parent\<close> returns it.\<close>

definition render_dir :: "string list \<Rightarrow> string" where
  "render_dir cs = (if cs = [] then ''/'' else render cs @ ''/'')"

lemma slash_join_snoc: "cs \<noteq> [] \<Longrightarrow> slash_join (cs @ [c]) = slash_join cs @ slash # c"
  by (induction cs rule: slash_join.induct) simp_all

lemma render_snoc: "render (cs @ [c]) = render_dir cs @ c"
  by (simp add: render_dir_def render_def slash_join_snoc)

lemma render_dir_props [simp]: "render_dir cs \<noteq> []" "last (render_dir cs) = slash"
  by (simp_all add: render_dir_def)

lemma scan_back_stop:
  assumes "pre \<noteq> []" "last pre = slash" "slash \<notin> set c" "k \<le> length c"
  shows "scan_back (pre @ c) (length pre + k) = length pre"
  using assms(4)
proof (induction k)
  case 0
  obtain ps where "pre = ps @ [slash]"
    using assms(1,2) by (metis append_butlast_last_id)
  then show ?case by simp
next
  case (Suc k)
  then have "(pre @ c) ! (length pre + k) \<noteq> slash"
    using assms(3) by (metis Suc_le_lessD nth_append_length_plus nth_mem)
  then show ?case using Suc assms(1) by (cases pre) simp_all
qed

lemma scan_back_render:
  "slash \<notin> set c \<Longrightarrow> scan_back (render (cs @ [c])) (length (render (cs @ [c]))) = length (render_dir cs)"
  using scan_back_stop [of "render_dir cs" c "length c"] by (simp add: render_snoc)

lemma canon_norm_snoc:
  assumes "norm_comps p = cs @ [c]"
  shows "canon_comp c" "canon cs" "length (render_dir cs) < 255"
proof -
  show "canon_comp c" "canon cs"
    using canon_norm_comps [of p] assms by (auto simp: canon_def)
  then show "length (render_dir cs) < 255"
    using length_render_norm [of p] assms by (cases c) (auto simp: render_snoc canon_comp_def)
qed

lemma parent_norm:
  assumes "norm_comps p = cs @ [c]"
  shows "vfs_path_parent p VFS_PATH_MAX = Some (render_dir cs)"
proof -
  note sn = canon_norm_snoc [OF assms]
  then have "scan_back (render (norm_comps p)) (length (render (norm_comps p))) = length (render_dir cs)"
    by (simp add: assms scan_back_render canon_comp_def)
  moreover have "length (render_dir cs) \<le> 1 \<longleftrightarrow> cs = []"
    by (cases cs rule: slash_join.cases) (auto simp: render_dir_def render_def)
  moreover have "take (length (render_dir cs)) (render (norm_comps p)) = render_dir cs"
    by (simp add: assms render_snoc)
  ultimately show ?thesis
    using sn assms is_root_norm_render [of p]
    by (simp add: vfs_path_parent_def normalize_256 Let_def) (simp add: render_dir_def)
qed

lemma parent_root: "norm_comps p = [] \<Longrightarrow> vfs_path_parent p cap = None"
  using is_root_norm_render [of p] by (simp add: vfs_path_parent_def normalize_256 Let_def)

lemma basename_norm:
  assumes "norm_comps p = cs @ [c]" and "2 \<le> cap"
  shows "vfs_path_basename p cap = Some (take (cap - 1) c)"
  using canon_norm_snoc [OF assms(1)] assms is_root_norm_render [of p] scan_back_render [of c cs]
  by (auto simp: vfs_path_basename_def normalize_256 Let_def canon_comp_def) (simp_all add: render_snoc)

lemma collapse_loop_join_more:
  "canon (acc @ cs) \<Longrightarrow> cs \<noteq> [] \<Longrightarrow>
   collapse_loop (slash_join cs @ slash # r) acc = collapse_loop r (acc @ cs)"
proof (induction cs arbitrary: acc rule: slash_join.induct)
  case (2 c)
  then have "canon_comp c" "length acc < 32" "slash \<notin> set c"
    by (simp_all add: canon_def canon_comp_def)
  then show ?case by (simp add: collapse_loop_more collapse_push_canon)
next
  case (3 c d ds)
  then have "canon_comp c" "length acc < 32" "slash \<notin> set c"
    by (simp_all add: canon_def canon_comp_def)
  then show ?case using 3 by (simp add: collapse_loop_more collapse_push_canon)
qed simp

lemma norm_comps_dir_append:
  assumes "canon cs" "length (render_dir cs @ r) < VFS_PATH_MAX" "seg_ok (length cs) (split_slash r)"
  shows "norm_comps (render_dir cs @ r) = walk cs r"
proof (cases "cs = []")
  case True
  then show ?thesis
    using assms by (simp add: norm_comps_def render_dir_def collapse_loop_walk)
next
  case False
  then have "norm_comps (render_dir cs @ r) = collapse_loop (slash_join cs @ slash # r) []"
    using assms by (simp add: norm_comps_def render_dir_def render_def)
  then show ?thesis
    using False assms by (simp add: collapse_loop_join_more collapse_loop_walk)
qed

lemma walk_Nil [simp]: "walk cs [] = cs"
  by (simp add: walk_def walk_comp_def)

lemma seg_ok_Nil: "canon cs \<Longrightarrow> seg_ok (length cs) (split_slash [])"
  by (simp add: seg_ok_def canon_def)

lemma norm_comps_dir: "canon cs \<Longrightarrow> length (render_dir cs) < VFS_PATH_MAX \<Longrightarrow> norm_comps (render_dir cs) = cs"
  using norm_comps_dir_append [of cs "[]"] seg_ok_Nil [of cs] by simp

lemma append_chars_eq:
  "append_chars cap scratch s = (if s = [] \<or> length scratch + length s < cap then Some (scratch @ s) else None)"
  by (induction cap scratch s rule: append_chars.induct) auto

lemma last_render_canon:
  assumes "canon cs" shows "last (render cs) = slash \<longleftrightarrow> cs = []"
proof (cases cs rule: rev_cases)
  case (snoc ds c)
  then have "c \<noteq> []" "slash \<notin> set c" using assms by (simp_all add: canon_def canon_comp_def)
  then have "last c \<noteq> slash" by (metis last_in_set)
  with \<open>c \<noteq> []\<close> show ?thesis by (simp add: snoc render_snoc)
qed (simp add: render_def)

text \<open>Appending a relative path to a canonical directory, and re-normalising.\<close>

lemma join_plain_walk:
  assumes "canon cs" "length (render_dir cs @ r) < VFS_PATH_MAX" "seg_ok (length cs) (split_slash r)"
  shows "join_plain (render cs) r VFS_PATH_MAX = Some (render (walk cs r))"
proof -
  have len: "length (render cs) \<le> length (render_dir cs)" by (simp add: render_dir_def render_def)
  then have s0: "take 255 (render cs) = render cs" using assms(2) by simp
  have ne: "render cs \<noteq> []" by (simp add: render_def)
  have s1: "(if last (render cs) \<noteq> slash \<and> length (render cs) + 1 < 256 then render cs @ ''/'' else render cs) = render_dir cs"
    using assms(1,2) last_render_canon [OF assms(1)] by (auto simp: render_dir_def render_def)
  have r: "take (255 - length (render_dir cs)) r = r" using assms(2) by simp
  show ?thesis
    using s0 s1 ne r norm_comps_dir_append [OF assms] by (simp add: join_plain_def Let_def normalize_256)
qed

lemma split_slash_dot: "split_slash (CHR ''.'' # slash # r) = ''.'' # split_slash r"
    and split_slash_dotdot: "split_slash (CHR ''.'' # CHR ''.'' # slash # r) = ''..'' # split_slash r"
  by simp_all

lemma take_eqD: "take n s = t \<Longrightarrow> s = t @ drop n s"
  by (metis append_take_drop_id)

lemma walk_dots:
  "walk cs (''./'' @ r) = walk cs r" "walk cs (''../'' @ r) = walk (butlast cs) r"
  "walk cs ''.'' = cs" "walk cs ''..'' = butlast cs"
  by (simp_all add: walk_def split_slash_dot split_slash_dotdot walk_comp_def)

lemma seg_ok_dots:
  "seg_ok n (split_slash (''./'' @ r)) \<Longrightarrow> seg_ok n (split_slash r)"
  "seg_ok n (split_slash (''../'' @ r)) \<Longrightarrow> seg_ok (n - Suc 0) (split_slash r)"
  by (simp add: seg_ok_def split_slash_dot) (auto simp: seg_ok_def split_slash_dotdot)

lemma parent_or_self:
  assumes "norm_comps p = cs"
  shows "(case vfs_path_parent p VFS_PATH_MAX of Some d \<Rightarrow> d | None \<Rightarrow> take (VFS_PATH_MAX - 1) (render cs)) = render_dir (butlast cs)"
proof (cases cs rule: rev_cases)
  case Nil
  then show ?thesis using parent_root [of p] assms by (simp add: render_dir_def render_def)
next
  case (snoc ds c)
  then show ?thesis using parent_norm [of p] assms by simp
qed

lemma length_render_dir_butlast: "length (render_dir (butlast cs)) \<le> length (render_dir cs)"
proof (cases cs rule: rev_cases)
  case (snoc ds c)
  then show ?thesis by (simp add: render_dir_def [of "ds @ [c]"] render_snoc)
qed simp

section \<open>Properties\<close>

lemma render_dir_butlast_walk:
  assumes "canon cs" "length (render_dir cs) + length r < VFS_PATH_MAX"
    "seg_ok (length cs - Suc 0) (split_slash r)"
  shows "norm_comps (render_dir (butlast cs) @ r) = walk (butlast cs) r"
  using assms length_render_dir_butlast [of cs]
  by (intro norm_comps_dir_append) (simp_all add: canon_butlast)

lemma canon_walk_butlast: "canon cs \<Longrightarrow> seg_ok (length (butlast cs)) (split_slash [])"
  by (rule seg_ok_Nil) (rule canon_butlast)

text \<open>C21. Inside the limits of the C buffers (254 bytes, components shorter than 64 bytes, at most
  32 of them) \<^verbatim>\<open>vfs_path_normalize\<close> computes the absolute path obtained by walking the
  components of its input from the root: empty and dot components are skipped, dot-dot goes up.\<close>

theorem normalize_resolves:
  assumes "length p < VFS_PATH_MAX - 1" and "seg_ok 0 (split_slash p)"
  shows "vfs_path_normalize p VFS_PATH_MAX = render (walk [] p)"
proof -
  have skip: "walk [] (skip_slash s) = walk [] s \<and> seg_ok 0 (split_slash (skip_slash s))"
    if "seg_ok 0 (split_slash s)" for s
    using that by (cases s) (auto simp: skip_slash_def walk_def walk_comp_def seg_ok_def)
  have strip: "walk [] (strip_dot_slash p) = walk [] p \<and> seg_ok 0 (split_slash (strip_dot_slash p))"
  proof (cases "take 2 p = ''./''")
    case True
    then have p: "p = ''./'' @ drop 2 p" by (rule take_eqD)
    have "walk [] (drop 2 p) = walk [] p" by (subst (2) p) (simp only: walk_dots)
    moreover have "seg_ok 0 (split_slash (drop 2 p))"
      using assms(2) by (subst (asm) p) (rule seg_ok_dots)
    ultimately show ?thesis using True by (simp add: strip_dot_slash_def)
  qed (simp add: strip_dot_slash_def assms)
  have "length (skip_slash (strip_dot_slash p)) \<le> 254"
    using assms(1) length_skip_slash [of "strip_dot_slash p"]
    by (auto simp: strip_dot_slash_def split: if_splits)
  then have "norm_comps p = walk [] p"
    using skip [of "strip_dot_slash p"] strip
    by (auto simp: norm_comps_def collapse_loop_walk walk_dots)
  then show ?thesis by (simp add: normalize_256)
qed

theorem normalize_resolves_witness:
  "vfs_path_normalize ''./a//b/../c/.'' VFS_PATH_MAX = ''/a/c''"
proof -
  have "seg_ok 0 (split_slash ''./a//b/../c/.'')" by (simp add: seg_ok_def)
  from normalize_resolves [OF _ this] show ?thesis
    by (simp add: walk_def walk_comp_def render_def)
qed

text \<open>Whatever the input, also beyond the limits, the normalised path is canonical: a slash
  followed by at most 32 components joined by single slashes, none of them empty, dot or dot-dot
  or longer than 63 bytes, and it fits the 256-byte buffer with its terminator; normalising it
  again changes nothing.\<close>

lemma normalize_canonical:
  "\<exists>cs. canon cs \<and> vfs_path_normalize p VFS_PATH_MAX = render cs \<and> length (render cs) < VFS_PATH_MAX
     \<and> vfs_path_normalize (render cs) VFS_PATH_MAX = render cs"
  using canon_norm_comps [of p] length_render_norm [of p]
  by (intro exI [of _ "norm_comps p"]) (simp add: normalize_256)

text \<open>\<^verbatim>\<open>vfs_path_join\<close> on a relative path resolves it component by component from the
  normalised base directory, on each of its branches (plain, leading dot-slash, dot, leading
  dot-dot), whenever base and relative path together stay inside the limits; it never fails then.\<close>

lemma join_resolves:
  assumes base: "vfs_path_normalize base VFS_PATH_MAX = render cs" and "canon cs"
    and rel: "take 1 rel \<noteq> ''/''"
    and len: "length (render_dir cs @ rel) < VFS_PATH_MAX"
    and segs: "seg_ok (length cs) (split_slash rel)"
  shows "vfs_path_join base rel VFS_PATH_MAX = Some (render (walk cs rel))"
proof -
  have rlen: "length (render cs) < 256" using len by (auto simp: render_dir_def render_def split: if_splits)
  have cs: "norm_comps (render cs) = cs" using rlen \<open>canon cs\<close> by (rule norm_comps_render [rotated])
  consider (dotslash) r where "rel = ''./'' @ r" | (dot) "rel = ''.''" | (up) "rel = ''..''"
    | (upslash) r where "rel = ''../'' @ r"
    | (plain) "take 2 rel \<noteq> ''./''" "rel \<noteq> ''.''" "rel \<noteq> ''..''" "take 3 rel \<noteq> ''../''"
    by (metis take_eqD)
  then show ?thesis
  proof cases
    case dotslash
    then show ?thesis using assms join_plain_walk [OF \<open>canon cs\<close>, of r]
      seg_ok_dots(1) [of "length cs" r] walk_dots(1) [of cs r]
      by (simp add: vfs_path_join_def del: split_slash.simps)
  next
    case dot
    then show ?thesis using base rlen by (simp add: vfs_path_join_def walk_dots)
  next
    case up
    then show ?thesis
      using base parent_or_self [OF cs] render_dir_butlast_walk [OF \<open>canon cs\<close>, of "[]"]
        len canon_walk_butlast [OF \<open>canon cs\<close>]
      by (simp add: vfs_path_join_def walk_dots normalize_256 Let_def)
  next
    case upslash
    then show ?thesis
      using base parent_or_self [OF cs] render_dir_butlast_walk [OF \<open>canon cs\<close>, of r]
        len segs seg_ok_dots(2) [of "length cs" r] length_render_dir_butlast [of cs]
        walk_dots(2) [of cs r]
      by (simp add: vfs_path_join_def normalize_256 Let_def vfs_path_append_to_scratch_def
          append_chars_eq del: split_slash.simps)
  next
    case plain
    then show ?thesis using assms join_plain_walk [OF \<open>canon cs\<close> len segs]
      by (simp add: vfs_path_join_def)
  qed
qed

text \<open>Round trip of parent, base name and join: a path that does not normalise to the root has
  a parent and a base name, and joining the two gives the normalised path back.\<close>

lemma parent_basename_join:
  assumes "vfs_path_normalize p VFS_PATH_MAX \<noteq> ''/''"
  shows "\<exists>d b. vfs_path_parent p VFS_PATH_MAX = Some d \<and> vfs_path_basename p VFS_PATH_MAX = Some b
    \<and> vfs_path_join d b VFS_PATH_MAX = Some (vfs_path_normalize p VFS_PATH_MAX)"
proof -
  obtain cs c where csc: "norm_comps p = cs @ [c]"
    using assms by (cases "norm_comps p" rule: rev_cases) (simp_all add: normalize_256 render_def)
  note sn = canon_norm_snoc [OF csc]
  have c: "canon_comp c" "slash \<notin> set c" "take 255 c = c" "length cs < 32"
    using sn(1) canon_norm_comps [of p] by (simp_all add: canon_comp_def csc canon_def)
  have walk: "walk cs c = norm_comps p"
    using c by (simp add: walk_def split_slash_append walk_comp_def csc canon_comp_def)
  have "vfs_path_normalize (render_dir cs) VFS_PATH_MAX = render cs"
    using sn by (simp add: normalize_256 norm_comps_dir)
  moreover have "length (render_dir cs @ c) < VFS_PATH_MAX"
    using length_render_norm [of p] by (simp add: csc render_snoc)
  moreover have "seg_ok (length cs) (split_slash c)"
    using c by (simp add: seg_ok_def split_slash_append canon_comp_def)
  moreover have "take 1 c \<noteq> ''/''" "take 2 c \<noteq> ''./''" "take 3 c \<noteq> ''../''" "c \<noteq> ''.''" "c \<noteq> ''..''"
    using c in_set_takeD [of slash 1 c] in_set_takeD [of slash 2 c] in_set_takeD [of slash 3 c]
    by (auto simp: canon_comp_def)
  ultimately have "vfs_path_join (render_dir cs) c VFS_PATH_MAX = Some (render (walk cs c))"
    using join_plain_walk [OF sn(2), of c] by (simp add: vfs_path_join_def)
  then show ?thesis
    using parent_norm [OF csc] basename_norm [OF csc, of 256] c by (simp add: walk normalize_256)
qed

lemma split_last_unique:
  assumes "xs \<noteq> []" "last xs = slash" "ys \<noteq> []" "last ys = slash" "slash \<notin> set c" "slash \<notin> set d"
    and eq: "xs @ c = ys @ d"
  shows "xs = ys \<and> c = d"
  using scan_back_stop [of xs c "length c"] scan_back_stop [of ys d "length d"] assms
  by (metis append_eq_append_conv length_append order_refl)

lemma child_suffix:
  assumes "canon fs" "canon ps" "ps \<noteq> []" "length (render fs) < 256" "n \<noteq> []" "slash \<notin> set n"
    and eq: "render fs = render ps @ slash # n"
  shows "fs = ps @ [n]"
proof -
  have "length (render fs) \<noteq> 1" using eq assms(5) by (simp add: render_def)
  then have "fs \<noteq> []" by (auto simp: length_render)
  then obtain gs c where fs: "fs = gs @ [c]" by (cases fs rule: rev_cases) simp_all
  then have "slash \<notin> set c" "canon gs" using assms(1) by (simp_all add: canon_def canon_comp_def)
  moreover have "render_dir gs @ c = render_dir ps @ n"
    using eq assms(3) by (simp add: fs render_snoc) (simp add: render_dir_def)
  ultimately have "render_dir gs = render_dir ps" "c = n"
    using split_last_unique [of "render_dir gs" "render_dir ps" c n] assms(6) by auto
  moreover have "length (render_dir gs) < 256" using assms(4) by (simp add: fs render_snoc)
  ultimately have "gs = ps" "c = n"
    using norm_comps_dir [of gs] norm_comps_dir [of ps] assms(2) \<open>canon gs\<close> by metis+
  then show ?thesis by (simp only: fs)
qed

text \<open>\<^verbatim>\<open>vfs_path_direct_child_name\<close> on a parent other than the root succeeds exactly on the
  direct children of the parent, with the last component as the name, when the name fits; on the
  root it never succeeds, since the normalised root already ends in the slash it looks for.\<close>

lemma direct_child_name_iff:
  assumes "vfs_path_normalize parent VFS_PATH_MAX = render ps" "canon ps"
    and "vfs_path_normalize full VFS_PATH_MAX = render fs" "canon fs"
  shows "vfs_path_direct_child_name parent full cap = Some n
     \<longleftrightarrow> ps \<noteq> [] \<and> fs = ps @ [n] \<and> length n + 1 < cap"
proof (cases "ps = []")
  case True
  have "fs = [] \<or> (\<exists>a r. render fs = slash # a # r \<and> a \<noteq> slash)"
    using assms(4)
    by (cases fs rule: slash_join.cases)
      (auto simp: render_def canon_def canon_comp_def neq_Nil_conv)
  with True assms show ?thesis
    by (auto simp: vfs_path_direct_child_name_def Let_def render_def)
next
  case False
  have len: "length (render fs) < 256" using length_normalize [of 256 full] assms(3) by simp
  have "vfs_path_direct_child_name parent full cap = Some n" if "fs = ps @ [n]" "length n + 1 < cap"
  proof -
    have "slash \<notin> set n" "n \<noteq> []" using that assms(4) by (simp_all add: canon_def canon_comp_def)
    then show ?thesis using assms that False
      by (simp add: vfs_path_direct_child_name_def render_snoc) (simp add: render_dir_def)
  qed
  moreover have "fs = ps @ [n] \<and> length n + 1 < cap"
    if h: "vfs_path_direct_child_name parent full cap = Some n"
  proof -
    define rest where "rest = drop (length (render ps)) (render fs)"
    have "take (length (render ps)) (render fs) = render ps"
      and "rest \<noteq> [] \<and> hd rest = slash \<and> skip_slash rest = n \<and> n \<noteq> [] \<and> slash \<notin> set n \<and> length n + 1 < cap"
      using h assms(1,3) unfolding vfs_path_direct_child_name_def Let_def rest_def [symmetric]
      by (simp_all add: rest_def [symmetric] split: if_splits) (metis Suc_eq_plus1 not_less)?
    then have "render fs = render ps @ rest" "rest = slash # n" "n \<noteq> []" "slash \<notin> set n" "length n + 1 < cap"
      by (metis append_take_drop_id rest_def, (cases rest; simp), simp_all)
    then show ?thesis using child_suffix [OF assms(4,2) False len] by simp
  qed
  ultimately show ?thesis using False by blast
qed

text \<open>\<^verbatim>\<open>vfs_path_parent\<close> of a path of at least two components keeps the slash in front of the
  last component, so its result is not a normalised path.\<close>

lemma parent_trailing_slash:
  assumes "vfs_path_normalize p VFS_PATH_MAX = render (cs @ [c])" "canon (cs @ [c])" "cs \<noteq> []"
  shows "vfs_path_parent p VFS_PATH_MAX = Some (render cs @ ''/'')
    \<and> vfs_path_normalize (render cs @ ''/'') VFS_PATH_MAX = render cs"
proof -
  have "length (render (cs @ [c])) < 256" using length_normalize [of 256 p] assms(1) by simp
  then have "norm_comps p = cs @ [c]"
    using assms norm_comps_render [of "cs @ [c]"] normalize_256 [of p] by (metis norm_comps_render_norm)
  then show ?thesis
    using parent_norm [of p cs c] canon_norm_snoc [of p cs c] norm_comps_dir [of cs] assms(3)
    by (simp add: render_dir_def normalize_256)
qed

end
