(* ===== verification/Slice_Table.thy ===== *)
theory Slice_Table
  imports Prelude
begin

text \<open>
  The growable record table of the VFS server (\<^verbatim>\<open>servers/fs/vfs_slice_table.c\<close>). Records are packed
  into pages so that none straddles a page boundary; growth only adds pages.

  The page slice itself (\<^verbatim>\<open>page_slice_...\<close>), the size macros and the page allocator belong to the
  kernel core. They are arguments of the definitions: the record \<open>page_slice_ops\<close> and the function
  \<open>m_alloc\<close>, which gives the address of the page allocated for a page offset, or \<open>None\<close> when memory
  is exhausted. The locale \<open>page_slice_api\<close> states what the table relies on. Memory is a map from
  addresses to bytes.

  The lemmas show that the record slots are disjoint, that growth reaches the requested capacity
  with its intermediate values inside 32 bits, and that pushing and popping refine appending to
  and dropping from a list of records, with every earlier record keeping its address and content.
\<close>

section \<open>Definitions\<close>

type_synonym vaddr = nat
type_synonym memory = "nat \<Rightarrow> u8"

definition memset0 :: "memory \<Rightarrow> vaddr \<Rightarrow> nat \<Rightarrow> memory" where
  "memset0 mem p n = (\<lambda>a. if p \<le> a \<and> a < p + n then 0 else mem a)"

record 'ps page_slice_ops =
  PAGE_SIZE :: nat
  SIZE_TO_PAGE_COUNT :: "nat \<Rightarrow> nat"
  BYTE_TO_PGOFF :: "nat \<Rightarrow> nat"
  IN_PAGE_OFF :: "nat \<Rightarrow> nat"
  page_slice_create :: "nat \<Rightarrow> 'ps option"
  page_slice_lookup :: "'ps \<Rightarrow> nat \<Rightarrow> vaddr option"
  page_slice_insert_page :: "'ps \<Rightarrow> nat \<Rightarrow> vaddr \<Rightarrow> error_t \<times> 'ps"
  page_slice_get_size :: "'ps \<Rightarrow> nat"
  page_slice_set_size :: "'ps \<Rightarrow> nat \<Rightarrow> error_t \<times> 'ps"

abbreviation VFS_SLICE_TABLE_SOFT_MAX :: nat where "VFS_SLICE_TABLE_SOFT_MAX \<equiv> 1048576"

record 'ps vfs_slice_table =
  slice :: "'ps option"
  elem_size :: nat
  per_page :: nat
  count :: nat
  capacity :: nat
  soft_max :: nat

definition table_zero :: "'ps vfs_slice_table" where
  "table_zero = \<lparr>slice = None, elem_size = 0, per_page = 0, count = 0, capacity = 0, soft_max = 0\<rparr>"

definition vfs_st_byte_off :: "'ps page_slice_ops \<Rightarrow> 'ps vfs_slice_table \<Rightarrow> nat \<Rightarrow> nat" where
  "vfs_st_byte_off ops t index =
     (index div per_page t) * PAGE_SIZE ops + (index mod per_page t) * elem_size t"

definition vfs_st_bytes_for_cap :: "'ps page_slice_ops \<Rightarrow> 'ps vfs_slice_table \<Rightarrow> nat \<Rightarrow> nat" where
  "vfs_st_bytes_for_cap ops t cap =
     (if cap = 0 then 0 else ((cap + per_page t - 1) div per_page t) * PAGE_SIZE ops)"

definition vfs_st_ensure_pgoff ::
  "'ps page_slice_ops \<Rightarrow> (nat \<Rightarrow> vaddr option) \<Rightarrow> 'ps \<Rightarrow> memory \<Rightarrow> nat \<Rightarrow> error_t \<times> 'ps \<times> memory" where
  "vfs_st_ensure_pgoff ops m_alloc ps mem pgoff =
     (case page_slice_lookup ops ps pgoff of
        Some entry \<Rightarrow> (REND_SUCCESS, ps, mem)
      | None \<Rightarrow>
          (case m_alloc pgoff of
             None \<Rightarrow> (REND_ERR E_REND_NO_MEM, ps, mem)
           | Some page \<Rightarrow>
               (let mem1 = memset0 mem page (PAGE_SIZE ops);
                    (err, ps1) = page_slice_insert_page ops ps pgoff page in
                (err, ps1, mem1))))"

text \<open>The loops over new page offsets: stop at the first error.\<close>

fun ensure_pages ::
  "'ps page_slice_ops \<Rightarrow> (nat \<Rightarrow> vaddr option) \<Rightarrow> 'ps \<Rightarrow> memory \<Rightarrow> nat list \<Rightarrow> error_t \<times> 'ps \<times> memory" where
  "ensure_pages ops m_alloc ps mem [] = (REND_SUCCESS, ps, mem)"
| "ensure_pages ops m_alloc ps mem (pgoff # rest) =
     (case vfs_st_ensure_pgoff ops m_alloc ps mem pgoff of
        (REND_SUCCESS, ps1, mem1) \<Rightarrow> ensure_pages ops m_alloc ps1 mem1 rest
      | (REND_ERR e, ps1, mem1) \<Rightarrow> (REND_ERR e, ps1, mem1))"

definition round_up_cap :: "nat \<Rightarrow> nat \<Rightarrow> nat" where
  "round_up_cap cap pp = ((cap + pp - 1) div pp) * pp"

definition vfs_slice_table_init ::
  "'ps page_slice_ops \<Rightarrow> (nat \<Rightarrow> vaddr option) \<Rightarrow> memory \<Rightarrow> nat \<Rightarrow> nat \<Rightarrow> error_t \<times> 'ps vfs_slice_table \<times> memory" where
  "vfs_slice_table_init ops m_alloc mem esize initial_cap =
     (if esize = 0 \<or> PAGE_SIZE ops < esize then (REND_ERR E_IN_PARAM, table_zero, mem)
      else
        let t = table_zero\<lparr>elem_size := esize, per_page := PAGE_SIZE ops div esize,
                  soft_max := VFS_SLICE_TABLE_SOFT_MAX\<rparr> in
        if per_page t = 0 then (REND_ERR E_IN_PARAM, t, mem)
        else
          let cap0 = (if initial_cap = 0 then per_page t else initial_cap) in
          if soft_max t < cap0 then (REND_ERR E_IN_PARAM, t, mem)
          else
            let cap = round_up_cap cap0 (per_page t);
                bytes = vfs_st_bytes_for_cap ops t cap in
            case page_slice_create ops bytes of
              None \<Rightarrow> (REND_ERR E_REND_NO_MEM, t, mem)
            | Some ps \<Rightarrow>
                (case ensure_pages ops m_alloc ps mem [0..<SIZE_TO_PAGE_COUNT ops bytes] of
                   (REND_SUCCESS, ps1, mem1) \<Rightarrow>
                     (REND_SUCCESS, t\<lparr>slice := Some ps1, capacity := cap, count := 0\<rparr>, mem1)
                 | (REND_ERR e, ps1, mem1) \<Rightarrow> (REND_ERR e, table_zero, mem1)))"

definition vfs_slice_table_destroy :: "'ps vfs_slice_table \<Rightarrow> 'ps vfs_slice_table" where
  "vfs_slice_table_destroy t = table_zero"

text \<open>
  The doubling loop of \<^verbatim>\<open>vfs_slice_table_ensure_cap\<close>. It starts from a positive capacity
  (\<^verbatim>\<open>per_page\<close> is positive in an initialised table); at zero the C loop would not advance, and the
  model returns at once.
\<close>

function grow_cap :: "nat \<Rightarrow> nat \<Rightarrow> nat \<Rightarrow> nat" where
  "grow_cap smax need new_cap =
     (if new_cap = 0 then 0
      else if need \<le> new_cap then new_cap
      else if smax div 2 < new_cap then smax
      else grow_cap smax need (new_cap * 2))"
  by pat_completeness auto

termination grow_cap
  by (relation "measure (\<lambda>(smax, need, c). need - c)") auto

declare grow_cap.simps [simp del]

definition ensure_cap_target :: "'ps vfs_slice_table \<Rightarrow> nat \<Rightarrow> nat" where
  "ensure_cap_target t need =
     (let c0 = (if capacity t \<noteq> 0 then capacity t else per_page t);
          c1 = grow_cap (soft_max t) need c0;
          c2 = round_up_cap c1 (per_page t) in
      if soft_max t < c2 then (soft_max t div per_page t) * per_page t else c2)"

definition vfs_slice_table_ensure_cap ::
  "'ps page_slice_ops \<Rightarrow> (nat \<Rightarrow> vaddr option) \<Rightarrow> memory \<Rightarrow> 'ps vfs_slice_table \<Rightarrow> nat
     \<Rightarrow> error_t \<times> 'ps vfs_slice_table \<times> memory" where
  "vfs_slice_table_ensure_cap ops m_alloc mem t need =
     (case slice t of
        None \<Rightarrow> (REND_ERR E_IN_PARAM, t, mem)
      | Some ps \<Rightarrow>
          if need \<le> capacity t then (REND_SUCCESS, t, mem)
          else if soft_max t < need then (REND_ERR E_REND_NO_MEM, t, mem)
          else let new_cap = ensure_cap_target t need in
            if new_cap < need then (REND_ERR E_REND_NO_MEM, t, mem)
            else
              let old_size = page_slice_get_size ops ps;
                  new_size = vfs_st_bytes_for_cap ops t new_cap in
              case page_slice_set_size ops ps new_size of
                (REND_ERR e, ps1) \<Rightarrow> (REND_ERR e, t\<lparr>slice := Some ps1\<rparr>, mem)
              | (REND_SUCCESS, ps1) \<Rightarrow>
                  (case ensure_pages ops m_alloc ps1 mem
                      [SIZE_TO_PAGE_COUNT ops old_size..<SIZE_TO_PAGE_COUNT ops new_size] of
                     (REND_SUCCESS, ps2, mem2) \<Rightarrow>
                       (REND_SUCCESS, t\<lparr>slice := Some ps2, capacity := new_cap\<rparr>, mem2)
                   | (REND_ERR e, ps2, mem2) \<Rightarrow>
                       (REND_ERR e, t\<lparr>slice := Some (snd (page_slice_set_size ops ps2 old_size))\<rparr>, mem2)))"

definition vfs_slice_table_ptr :: "'ps page_slice_ops \<Rightarrow> 'ps vfs_slice_table \<Rightarrow> nat \<Rightarrow> vaddr option" where
  "vfs_slice_table_ptr ops t index =
     (case slice t of
        None \<Rightarrow> None
      | Some ps \<Rightarrow>
          if capacity t \<le> index then None
          else let off = vfs_st_byte_off ops t index in
            map_option (\<lambda>kva. kva + IN_PAGE_OFF ops off)
              (page_slice_lookup ops ps (BYTE_TO_PGOFF ops off)))"

definition vfs_slice_table_push_zero ::
  "'ps page_slice_ops \<Rightarrow> (nat \<Rightarrow> vaddr option) \<Rightarrow> memory \<Rightarrow> 'ps vfs_slice_table
     \<Rightarrow> (error_t \<times> nat) \<times> 'ps vfs_slice_table \<times> memory" where
  "vfs_slice_table_push_zero ops m_alloc mem t =
     (case vfs_slice_table_ensure_cap ops m_alloc mem t (count t + 1) of
        (REND_ERR e, t1, mem1) \<Rightarrow> ((REND_ERR e, 0), t1, mem1)
      | (REND_SUCCESS, t1, mem1) \<Rightarrow>
          (case vfs_slice_table_ptr ops t1 (count t1) of
             None \<Rightarrow> ((REND_ERR E_RENDEZVOS, 0), t1, mem1)
           | Some p \<Rightarrow>
               ((REND_SUCCESS, count t1), t1\<lparr>count := count t1 + 1\<rparr>, memset0 mem1 p (elem_size t1))))"

definition vfs_slice_table_pop_last ::
  "'ps page_slice_ops \<Rightarrow> memory \<Rightarrow> 'ps vfs_slice_table \<Rightarrow> 'ps vfs_slice_table \<times> memory" where
  "vfs_slice_table_pop_last ops mem t =
     (if count t = 0 then (t, mem)
      else (t\<lparr>count := count t - 1\<rparr>,
            (case vfs_slice_table_ptr ops t (count t - 1) of
               None \<Rightarrow> mem
             | Some p \<Rightarrow> memset0 mem p (elem_size t))))"

text \<open>
  Directory name tables hold 64-byte name slots. They are modelled on the list of names the slots
  hold; \<open>push_ok\<close> is the outcome of \<^verbatim>\<open>vfs_slice_table_push_zero\<close>, which the refinement lemma
  \<open>push_zero_refines\<close> below relates to the list.
\<close>

abbreviation VFS_DIR_NAME_SLOT :: nat where "VFS_DIR_NAME_SLOT \<equiv> 64"

text \<open>The insertion loop that moves the last slot down to its place.\<close>

fun names_bubble :: "(string \<Rightarrow> string \<Rightarrow> nat \<Rightarrow> int) \<Rightarrow> nat \<Rightarrow> string list \<Rightarrow> string list" where
  "names_bubble strcmp_s 0 names = names"
| "names_bubble strcmp_s (Suc i) names =
     (if strcmp_s (names ! i) (names ! Suc i) VFS_DIR_NAME_SLOT \<le> 0 then names
      else names_bubble strcmp_s i (names[i := names ! Suc i, Suc i := names ! i]))"

definition vfs_dir_names_insert ::
  "(string \<Rightarrow> string \<Rightarrow> nat \<Rightarrow> int) \<Rightarrow> bool \<Rightarrow> string list \<Rightarrow> string \<Rightarrow> bool \<times> string list" where
  "vfs_dir_names_insert strcmp_s push_ok names name =
     (if name = [] then (False, names)
      else if list_ex (\<lambda>p. strcmp_s p name VFS_DIR_NAME_SLOT = 0) names then (True, names)
      else if \<not> push_ok then (False, names)
      else (True, names_bubble strcmp_s (length names) (names @ [take (VFS_DIR_NAME_SLOT - 1) name])))"

section \<open>What the table relies on\<close>

definition disj_pages :: "nat \<Rightarrow> vaddr \<Rightarrow> vaddr \<Rightarrow> bool" where
  "disj_pages n a b \<longleftrightarrow> a + n \<le> b \<or> b + n \<le> a"

text \<open>A page mapping in which no two pages overlap, with pages exactly at the first \<open>n\<close> offsets.\<close>

definition mapping_ok :: "'ps page_slice_ops \<Rightarrow> (nat \<Rightarrow> vaddr option) \<Rightarrow> nat \<Rightarrow> bool" where
  "mapping_ok ops f n \<longleftrightarrow> (\<forall>g. (f g \<noteq> None) = (g < n))
     \<and> (\<forall>g h a b. g \<noteq> h \<longrightarrow> f g = Some a \<longrightarrow> f h = Some b \<longrightarrow> disj_pages (PAGE_SIZE ops) a b)"

text \<open>The allocator hands out pages that overlap neither each other nor the pages in use.\<close>

definition alloc_fresh :: "'ps page_slice_ops \<Rightarrow> (nat \<Rightarrow> vaddr option) \<Rightarrow> 'ps \<Rightarrow> bool" where
  "alloc_fresh ops m_alloc ps \<longleftrightarrow>
     (\<forall>g a. m_alloc g = Some a \<longrightarrow>
        (\<forall>h b. page_slice_lookup ops ps h = Some b \<longrightarrow> disj_pages (PAGE_SIZE ops) a b)
        \<and> (\<forall>h b. h \<noteq> g \<longrightarrow> m_alloc h = Some b \<longrightarrow> disj_pages (PAGE_SIZE ops) a b))"

definition table_ok :: "'ps page_slice_ops \<Rightarrow> 'ps vfs_slice_table \<Rightarrow> bool" where
  "table_ok ops t \<longleftrightarrow> 0 < elem_size t \<and> elem_size t \<le> PAGE_SIZE ops
     \<and> per_page t = PAGE_SIZE ops div elem_size t \<and> per_page t dvd capacity t
     \<and> count t \<le> capacity t \<and> soft_max t = VFS_SLICE_TABLE_SOFT_MAX
     \<and> (case slice t of None \<Rightarrow> False
        | Some ps \<Rightarrow> page_slice_get_size ops ps = (capacity t div per_page t) * PAGE_SIZE ops
            \<and> mapping_ok ops (page_slice_lookup ops ps) (capacity t div per_page t))"

text \<open>The list of records a table holds.\<close>

definition record_at :: "'ps page_slice_ops \<Rightarrow> memory \<Rightarrow> 'ps vfs_slice_table \<Rightarrow> nat \<Rightarrow> u8 list" where
  "record_at ops mem t i =
     (case vfs_slice_table_ptr ops t i of None \<Rightarrow> [] | Some p \<Rightarrow> map mem [p..<p + elem_size t])"

definition records :: "'ps page_slice_ops \<Rightarrow> memory \<Rightarrow> 'ps vfs_slice_table \<Rightarrow> u8 list list" where
  "records ops mem t = map (record_at ops mem t) [0..<count t]"

locale page_slice_api =
  fixes ops :: "'ps page_slice_ops"
  assumes page_pos: "0 < PAGE_SIZE ops"
    and page_count: "SIZE_TO_PAGE_COUNT ops (k * PAGE_SIZE ops) = k"
    and pgoff: "BYTE_TO_PGOFF ops off = off div PAGE_SIZE ops"
    and in_page: "IN_PAGE_OFF ops off = off mod PAGE_SIZE ops"
    and create: "page_slice_create ops n = Some ps \<Longrightarrow>
          page_slice_get_size ops ps = n \<and> (\<forall>g. page_slice_lookup ops ps g = None)"
    and insert_ok: "page_slice_insert_page ops ps g a = (REND_SUCCESS, ps') \<Longrightarrow>
          page_slice_get_size ops ps' = page_slice_get_size ops ps
          \<and> page_slice_lookup ops ps' = (page_slice_lookup ops ps)(g := Some a)"
    and insert_err: "page_slice_insert_page ops ps g a = (REND_ERR e, ps') \<Longrightarrow>
          page_slice_get_size ops ps' = page_slice_get_size ops ps
          \<and> page_slice_lookup ops ps' = page_slice_lookup ops ps"
    and set_size_ok: "page_slice_set_size ops ps n = (REND_SUCCESS, ps') \<Longrightarrow>
          page_slice_get_size ops ps' = n
          \<and> page_slice_lookup ops ps' =
              (\<lambda>g. if g < SIZE_TO_PAGE_COUNT ops n then page_slice_lookup ops ps g else None)"
    and set_size_err: "page_slice_set_size ops ps n = (REND_ERR e, ps') \<Longrightarrow>
          page_slice_get_size ops ps' = page_slice_get_size ops ps
          \<and> page_slice_lookup ops ps' = page_slice_lookup ops ps"
    and shrink_ok: "n \<le> page_slice_get_size ops ps \<Longrightarrow> fst (page_slice_set_size ops ps n) = REND_SUCCESS"
begin

lemma table_okD:
  assumes "table_ok ops t" "slice t = Some ps"
  shows "page_slice_get_size ops ps = (capacity t div per_page t) * PAGE_SIZE ops
    \<and> mapping_ok ops (page_slice_lookup ops ps) (capacity t div per_page t)"
  using assms unfolding table_ok_def by (elim conjE) (simp only: option.case)

lemma table_ok_pp: "table_ok ops t \<Longrightarrow> 0 < per_page t \<and> per_page t * elem_size t \<le> PAGE_SIZE ops"
  by (auto simp: table_ok_def div_greater_zero_iff)

lemma slot_in_page:
  assumes "table_ok ops t"
  shows "(i mod per_page t) * elem_size t + elem_size t \<le> PAGE_SIZE ops"
proof -
  have "Suc (i mod per_page t) \<le> per_page t"
    using table_ok_pp [OF assms] by (simp add: Suc_le_eq)
  then have "Suc (i mod per_page t) * elem_size t \<le> per_page t * elem_size t"
    by (rule mult_le_mono1)
  then show ?thesis using table_ok_pp [OF assms] by simp
qed

lemma byte_off_parts:
  assumes "table_ok ops t"
  shows "BYTE_TO_PGOFF ops (vfs_st_byte_off ops t i) = i div per_page t"
    and "IN_PAGE_OFF ops (vfs_st_byte_off ops t i) = (i mod per_page t) * elem_size t"
proof -
  have "(i mod per_page t) * elem_size t < PAGE_SIZE ops"
    using slot_in_page [OF assms, of i] assms by (simp add: table_ok_def)
  then show "BYTE_TO_PGOFF ops (vfs_st_byte_off ops t i) = i div per_page t"
    and "IN_PAGE_OFF ops (vfs_st_byte_off ops t i) = (i mod per_page t) * elem_size t"
    using page_pos by (simp_all add: pgoff in_page vfs_st_byte_off_def)
qed

lemma ptr_eq:
  assumes "table_ok ops t" "slice t = Some ps" "i < capacity t"
  shows "\<exists>kva. page_slice_lookup ops ps (i div per_page t) = Some kva
    \<and> vfs_slice_table_ptr ops t i = Some (kva + (i mod per_page t) * elem_size t)"
proof -
  have "i div per_page t < capacity t div per_page t"
  proof -
    have "per_page t dvd capacity t" using assms(1) unfolding table_ok_def by blast
    then obtain k where "capacity t = k * per_page t" by (metis dvd_def mult.commute)
    then show ?thesis using assms(3) table_ok_pp [OF assms(1)] by (simp add: less_mult_imp_div_less)
  qed
  then have "page_slice_lookup ops ps (i div per_page t) \<noteq> None"
    using assms by (simp add: table_ok_def mapping_ok_def)
  then show ?thesis
    using assms byte_off_parts [OF assms(1)] by (auto simp: vfs_slice_table_ptr_def Let_def)
qed

lemma slots_disjoint:
  assumes ok: "table_ok ops t" and "i \<noteq> j"
    and p: "vfs_slice_table_ptr ops t i = Some p" and q: "vfs_slice_table_ptr ops t j = Some q"
  shows "p + elem_size t \<le> q \<or> q + elem_size t \<le> p"
proof -
  obtain ps where ps: "slice t = Some ps" using p by (auto simp: vfs_slice_table_ptr_def split: option.splits)
  have ij: "i < capacity t" "j < capacity t"
    using p q ps by (auto simp: vfs_slice_table_ptr_def split: if_splits)
  obtain a where a: "page_slice_lookup ops ps (i div per_page t) = Some a"
      "p = a + (i mod per_page t) * elem_size t"
    using ptr_eq [OF ok ps ij(1)] p by auto
  obtain b where b: "page_slice_lookup ops ps (j div per_page t) = Some b"
      "q = b + (j mod per_page t) * elem_size t"
    using ptr_eq [OF ok ps ij(2)] q by auto
  show ?thesis
  proof (cases "i div per_page t = j div per_page t")
    case True
    then have ab: "a = b" using a b by simp
    from True assms(2) have "i mod per_page t \<noteq> j mod per_page t"
      by (metis div_mult_mod_eq)
    then have "Suc (i mod per_page t) \<le> j mod per_page t \<or> Suc (j mod per_page t) \<le> i mod per_page t"
      by linarith
    then show ?thesis
      using mult_le_mono1 [of "Suc (i mod per_page t)" "j mod per_page t" "elem_size t"]
        mult_le_mono1 [of "Suc (j mod per_page t)" "i mod per_page t" "elem_size t"] a b ab by auto
  next
    case False
    then have "disj_pages (PAGE_SIZE ops) a b"
      using ok ps a b by (auto simp: table_ok_def mapping_ok_def)
    then show ?thesis
      using slot_in_page [OF ok, of i] slot_in_page [OF ok, of j] a b by (auto simp: disj_pages_def)
  qed
qed

text \<open>The page loops: what they map, and which bytes they touch.\<close>

lemma ensure_pages_effect:
  assumes "ensure_pages ops m_alloc ps mem gs = (err, ps', mem')" "distinct gs"
    and "\<forall>g \<in> set gs. page_slice_lookup ops ps g = None"
  shows "page_slice_get_size ops ps' = page_slice_get_size ops ps
    \<and> (\<forall>g. g \<notin> set gs \<longrightarrow> page_slice_lookup ops ps' g = page_slice_lookup ops ps g)
    \<and> (err = REND_SUCCESS \<longrightarrow> (\<forall>g \<in> set gs. page_slice_lookup ops ps' g = m_alloc g \<and> m_alloc g \<noteq> None))
    \<and> (\<forall>x. mem' x \<noteq> mem x \<longrightarrow> (\<exists>g a. m_alloc g = Some a \<and> a \<le> x \<and> x < a + PAGE_SIZE ops))"
  using assms
proof (induction gs arbitrary: ps mem)
  case (Cons g gs)
  show ?case
  proof (cases "vfs_st_ensure_pgoff ops m_alloc ps mem g")
    case (fields e ps1 mem1)
    then have cases: "(m_alloc g = None \<and> e = REND_ERR E_REND_NO_MEM \<and> ps1 = ps \<and> mem1 = mem)
        \<or> (\<exists>a. m_alloc g = Some a \<and> mem1 = memset0 mem a (PAGE_SIZE ops)
             \<and> page_slice_insert_page ops ps g a = (e, ps1))"
      using Cons.prems(3) by (auto simp: vfs_st_ensure_pgoff_def Let_def split: option.splits prod.splits)
    show ?thesis
    proof (cases e)
      case (REND_ERR r)
      then show ?thesis using cases fields Cons.prems insert_err [of ps g _ r ps1]
        by (auto simp: memset0_def split: if_splits) blast
    next
      case REND_SUCCESS
      then obtain a where a: "m_alloc g = Some a" "mem1 = memset0 mem a (PAGE_SIZE ops)"
          "page_slice_insert_page ops ps g a = (REND_SUCCESS, ps1)"
        using cases by auto
      note ins = insert_ok [OF a(3)]
      have rest: "ensure_pages ops m_alloc ps1 mem1 gs = (err, ps', mem')"
        using Cons.prems(1) fields REND_SUCCESS by simp
      have pre: "\<forall>h \<in> set gs. page_slice_lookup ops ps1 h = None"
        using ins Cons.prems(2,3) by auto
      note ih = Cons.IH [OF rest _ pre]
      have "mem' x \<noteq> mem x \<Longrightarrow> \<exists>g a. m_alloc g = Some a \<and> a \<le> x \<and> x < a + PAGE_SIZE ops" for x
        using ih Cons.prems(2) a(1,2) by (cases "mem1 x = mem x") (auto simp: memset0_def split: if_splits)
      then show ?thesis using ih ins Cons.prems(2) a(1) by auto
    qed
  qed
qed auto

lemma round_up_cap_props:
  assumes "0 < pp" shows "pp dvd round_up_cap c pp" and "c \<le> round_up_cap c pp"
    and "round_up_cap c pp < c + pp"
proof -
  show "pp dvd round_up_cap c pp" by (simp add: round_up_cap_def)
  have "(c + pp - 1) div pp * pp + (c + pp - 1) mod pp = c + pp - 1" by (rule div_mult_mod_eq)
  moreover have "(c + pp - 1) mod pp \<le> pp - 1" using assms by (metis Suc_pred' less_Suc_eq_le mod_less_divisor)
  ultimately show "c \<le> round_up_cap c pp" "round_up_cap c pp < c + pp"
    using assms unfolding round_up_cap_def by linarith+
qed

lemma grow_cap_bounds:
  "0 < c \<Longrightarrow> need \<le> smax \<Longrightarrow> need \<le> grow_cap smax need c \<and> grow_cap smax need c \<le> max c smax"
proof (induction smax need c rule: grow_cap.induct)
  case (1 smax need c)
  show ?case
  proof (cases "need \<le> c \<or> smax div 2 < c")
    case True
    then show ?thesis using 1 by (subst (1 2) grow_cap.simps) auto
  next
    case False
    then have "grow_cap smax need c = grow_cap smax need (c * 2)"
      using 1(2) by (subst grow_cap.simps) auto
    then show ?thesis using 1 False by auto
  qed
qed

lemma target_bounds:
  assumes "table_ok ops t" "need \<le> soft_max t"
  shows "per_page t dvd ensure_cap_target t need" "ensure_cap_target t need \<le> soft_max t"
    and "need \<le> (soft_max t div per_page t) * per_page t \<Longrightarrow> need \<le> ensure_cap_target t need"
proof -
  have pp: "0 < per_page t" using table_ok_pp [OF assms(1)] by simp
  let ?c = "if capacity t \<noteq> 0 then capacity t else per_page t"
  have "need \<le> grow_cap (soft_max t) need ?c" using grow_cap_bounds [of ?c need "soft_max t"] pp assms by simp
  then have "need \<le> round_up_cap (grow_cap (soft_max t) need ?c) (per_page t)"
    using round_up_cap_props(2) [OF pp] le_trans by blast
  then show "per_page t dvd ensure_cap_target t need" "ensure_cap_target t need \<le> soft_max t"
    "need \<le> (soft_max t div per_page t) * per_page t \<Longrightarrow> need \<le> ensure_cap_target t need"
    using round_up_cap_props(1) [OF pp] by (simp_all add: ensure_cap_target_def Let_def)
qed

lemma bytes_for_cap:
  assumes "0 < per_page t" "per_page t dvd cap"
  shows "vfs_st_bytes_for_cap ops t cap = (cap div per_page t) * PAGE_SIZE ops"
proof -
  obtain k where "cap = k * per_page t" using assms(2) by (metis dvd_def mult.commute)
  then have "cap + per_page t - 1 = (per_page t - 1) + k * per_page t" using assms(1) by simp
  then have "(cap + per_page t - 1) div per_page t = k"
    using assms(1) div_mult_self1 [of "per_page t" "per_page t - 1" k] by simp
  then show ?thesis using \<open>cap = k * per_page t\<close> assms(1) by (auto simp: vfs_st_bytes_for_cap_def)
qed

text \<open>Growing the capacity keeps the table well formed, keeps every pointer, and only touches
  bytes of pages that were not in use.\<close>

definition same_records :: "'ps vfs_slice_table \<Rightarrow> memory \<Rightarrow> 'ps vfs_slice_table \<Rightarrow> memory \<Rightarrow> bool" where
  "same_records t mem t' mem' \<longleftrightarrow> elem_size t' = elem_size t \<and> count t' = count t
     \<and> (\<forall>i < capacity t. vfs_slice_table_ptr ops t' i = vfs_slice_table_ptr ops t i
           \<and> record_at ops mem' t' i = record_at ops mem t i)"

lemma ptr_same_lookup:
  assumes "table_ok ops t" "slice t = Some ps" "i < capacity t"
    and "slice t' = Some ps'" "per_page t' = per_page t" "elem_size t' = elem_size t"
    and "capacity t \<le> capacity t'"
    and "\<forall>g < capacity t div per_page t. page_slice_lookup ops ps' g = page_slice_lookup ops ps g"
  shows "vfs_slice_table_ptr ops t' i = vfs_slice_table_ptr ops t i"
proof -
  have "per_page t dvd capacity t" using assms(1) unfolding table_ok_def by blast
  then have "i div per_page t < capacity t div per_page t"
    using assms(3) table_ok_pp [OF assms(1)] by (metis dvd_div_mult_self less_mult_imp_div_less)
  then have "page_slice_lookup ops ps' (i div per_page t) = page_slice_lookup ops ps (i div per_page t)"
    using assms(8) by blast
  moreover have "vfs_st_byte_off ops t' i = vfs_st_byte_off ops t i"
    using assms(5,6) by (simp add: vfs_st_byte_off_def)
  ultimately show ?thesis
    using assms(2-7) byte_off_parts [OF assms(1), of i] by (simp add: vfs_slice_table_ptr_def Let_def)
qed

lemma record_untouched:
  assumes ok: "table_ok ops t" and ps: "slice t = Some ps" and fresh: "alloc_fresh ops m_alloc ps"
    and i: "i < capacity t"
    and touch: "\<forall>x. mem' x \<noteq> mem x \<longrightarrow> (\<exists>g a. m_alloc g = Some a \<and> a \<le> x \<and> x < a + PAGE_SIZE ops)"
  shows "record_at ops mem' t i = record_at ops mem t i"
proof -
  obtain kva where k: "page_slice_lookup ops ps (i div per_page t) = Some kva"
      "vfs_slice_table_ptr ops t i = Some (kva + (i mod per_page t) * elem_size t)"
    using ptr_eq [OF ok ps i] by blast
  have "mem' x = mem x" if "kva \<le> x" "x < kva + PAGE_SIZE ops" for x
  proof (rule ccontr)
    assume "mem' x \<noteq> mem x"
    then obtain g a where "m_alloc g = Some a" "a \<le> x" "x < a + PAGE_SIZE ops" using touch by blast
    moreover from this have "disj_pages (PAGE_SIZE ops) a kva"
      using fresh k(1) by (auto simp: alloc_fresh_def)
    ultimately show False using that by (auto simp: disj_pages_def)
  qed
  then show ?thesis
    using slot_in_page [OF ok, of i] by (auto simp: record_at_def k(2))
qed

lemma mapping_ok_extend:
  assumes f: "mapping_ok ops f n" and "n \<le> m"
    and old: "\<forall>g. g \<notin> {n..<m} \<longrightarrow> f' g = f g" and new: "\<forall>g \<in> {n..<m}. f' g = m_alloc g \<and> m_alloc g \<noteq> None"
    and fresh: "\<forall>g a. m_alloc g = Some a \<longrightarrow> (\<forall>h b. f h = Some b \<longrightarrow> disj_pages (PAGE_SIZE ops) a b)
        \<and> (\<forall>h b. h \<noteq> g \<longrightarrow> m_alloc h = Some b \<longrightarrow> disj_pages (PAGE_SIZE ops) a b)"
  shows "mapping_ok ops f' m"
proof -
  have dom: "(f' g \<noteq> None) = (g < m)" for g
    using f old new assms(2) unfolding mapping_ok_def by (cases "g \<in> {n..<m}") auto
  have "disj_pages (PAGE_SIZE ops) a b" if "g \<noteq> h" "f' g = Some a" "f' h = Some b" for g h a b
  proof -
    have "m_alloc g = Some a \<or> f g = Some a" "m_alloc h = Some b \<or> f h = Some b"
      using that old new by metis+
    then show ?thesis using that(1) fresh f unfolding mapping_ok_def disj_pages_def by metis
  qed
  with dom show ?thesis unfolding mapping_ok_def by blast
qed

lemma mapping_ok_initial:
  assumes "\<forall>g. f g = None" "\<forall>g. g \<notin> {0..<m} \<longrightarrow> f' g = f g"
    and "\<forall>g \<in> {0..<m}. f' g = m_alloc g \<and> m_alloc g \<noteq> None"
    and "\<forall>g h a b. g \<noteq> h \<longrightarrow> m_alloc g = Some a \<longrightarrow> m_alloc h = Some b \<longrightarrow> disj_pages (PAGE_SIZE ops) a b"
  shows "mapping_ok ops f' m"
proof (rule mapping_ok_extend [OF _ _ assms(2,3)])
  show "mapping_ok ops f 0" using assms(1) by (simp add: mapping_ok_def)
  show "\<forall>g a. m_alloc g = Some a \<longrightarrow> (\<forall>h b. f h = Some b \<longrightarrow> disj_pages (PAGE_SIZE ops) a b)
      \<and> (\<forall>h b. h \<noteq> g \<longrightarrow> m_alloc h = Some b \<longrightarrow> disj_pages (PAGE_SIZE ops) a b)"
    using assms(1,4) by (metis option.distinct(1))
qed simp

lemma mapping_ok_none: "mapping_ok ops f n \<Longrightarrow> n \<le> g \<Longrightarrow> f g = None"
  unfolding mapping_ok_def by (metis not_less option.exhaust)

lemma same_recordsI:
  assumes ok: "table_ok ops t" and ps: "slice t = Some ps" and fresh: "alloc_fresh ops m_alloc ps"
    and t': "t' = t\<lparr>slice := Some ps', capacity := c\<rparr>" "capacity t \<le> c"
    and look: "\<forall>g < capacity t div per_page t. page_slice_lookup ops ps' g = page_slice_lookup ops ps g"
    and touch: "\<forall>x. mem' x \<noteq> mem x \<longrightarrow> (\<exists>g a. m_alloc g = Some a \<and> a \<le> x \<and> x < a + PAGE_SIZE ops)"
  shows "same_records t mem t' mem'"
proof -
  have ptr: "vfs_slice_table_ptr ops t' i = vfs_slice_table_ptr ops t i" if "i < capacity t" for i
    using ptr_same_lookup [OF ok ps that, of t' ps'] t' look by simp
  have "record_at ops mem' t' i = record_at ops mem t i" if "i < capacity t" for i
    using ptr [OF that] record_untouched [OF ok ps fresh that touch] t'
    by (cases "vfs_slice_table_ptr ops t i") (simp_all add: record_at_def)
  with ptr t' show ?thesis by (simp add: same_records_def)
qed

lemma grow_tail:
  assumes ok: "table_ok ops t" and ps: "slice t = Some ps" and fresh: "alloc_fresh ops m_alloc ps"
    and map: "mapping_ok ops (page_slice_lookup ops ps) (capacity t div per_page t)"
    and c: "per_page t dvd c" "capacity t \<le> c" "capacity t div per_page t \<le> c div per_page t"
    and size: "page_slice_get_size ops ps2 = (c div per_page t) * PAGE_SIZE ops"
    and out: "\<forall>g. g \<notin> {capacity t div per_page t..<c div per_page t} \<longrightarrow>
        page_slice_lookup ops ps2 g = page_slice_lookup ops ps g"
    and new: "e2 = REND_SUCCESS \<longrightarrow> (\<forall>g \<in> {capacity t div per_page t..<c div per_page t}.
        page_slice_lookup ops ps2 g = m_alloc g \<and> m_alloc g \<noteq> None)"
    and touch: "\<forall>x. mem2 x \<noteq> mem x \<longrightarrow> (\<exists>g a. m_alloc g = Some a \<and> a \<le> x \<and> x < a + PAGE_SIZE ops)"
    and run: "(case (e2, ps2, mem2) of
               (REND_SUCCESS, ps2, mem2) \<Rightarrow> (REND_SUCCESS, t\<lparr>slice := Some ps2, capacity := c\<rparr>, mem2)
             | (REND_ERR e, ps2, mem2) \<Rightarrow>
                 (REND_ERR e, t\<lparr>slice := Some (snd (page_slice_set_size ops ps2
                    (capacity t div per_page t * PAGE_SIZE ops)))\<rparr>, mem2)) = (err, t', mem')"
  shows "table_ok ops t' \<and> same_records t mem t' mem' \<and> capacity t \<le> capacity t'
    \<and> (err = REND_SUCCESS \<longrightarrow> c \<le> capacity t')"
proof (cases e2)
  case REND_SUCCESS
  then have t': "err = REND_SUCCESS" "t' = t\<lparr>slice := Some ps2, capacity := c\<rparr>" "mem' = mem2"
    using run by simp_all
  have "mapping_ok ops (page_slice_lookup ops ps2) (c div per_page t)"
    by (rule mapping_ok_extend [OF map c(3) out, where m_alloc = m_alloc])
      (use new REND_SUCCESS fresh in \<open>auto simp: alloc_fresh_def\<close>)
  then have "table_ok ops t'" using ok ps c size t' by (auto simp: table_ok_def)
  moreover have "same_records t mem t' mem'"
    by (rule same_recordsI [OF ok ps fresh t'(2) c(2)]) (use out touch t' in auto)
  ultimately show ?thesis using t' c by simp
next
  case (REND_ERR e)
  let ?n = "capacity t div per_page t"
  obtain e3 ps3 where set: "page_slice_set_size ops ps2 (?n * PAGE_SIZE ops) = (e3, ps3)"
    by (cases "page_slice_set_size ops ps2 (?n * PAGE_SIZE ops)") auto
  have "?n * PAGE_SIZE ops \<le> page_slice_get_size ops ps2" using c(3) size by simp
  then have "e3 = REND_SUCCESS" using shrink_ok [of "?n * PAGE_SIZE ops" ps2] set by simp
  note so = set_size_ok [OF set [unfolded this]]
  have t': "err = REND_ERR e" "t' = t\<lparr>slice := Some ps3, capacity := capacity t\<rparr>" "mem' = mem2"
    using run REND_ERR set by (auto intro: vfs_slice_table.equality)
  have look: "page_slice_lookup ops ps3 = page_slice_lookup ops ps"
    using so out mapping_ok_none [OF map] by (auto simp: page_count fun_eq_iff)
  have "table_ok ops t'" using ok ps so t' look map by (auto simp: table_ok_def)
  moreover have "same_records t mem t' mem'"
    by (rule same_recordsI [OF ok ps fresh t'(2)]) (use look touch t' in auto)
  ultimately show ?thesis using t' by simp
qed

lemma ensure_cap_effect:
  assumes ok: "table_ok ops t" and ps: "slice t = Some ps" and fresh: "alloc_fresh ops m_alloc ps"
    and run: "vfs_slice_table_ensure_cap ops m_alloc mem t need = (err, t', mem')"
  shows "table_ok ops t' \<and> same_records t mem t' mem' \<and> capacity t \<le> capacity t'
    \<and> (err = REND_SUCCESS \<longrightarrow> need \<le> capacity t')"
proof -
  have self: "same_records t mem t mem" by (simp add: same_records_def)
  consider (keep) "t' = t" "mem' = mem" "err = REND_SUCCESS \<longrightarrow> need \<le> capacity t"
    | (grow) "capacity t < need" "need \<le> soft_max t" "need \<le> ensure_cap_target t need"
      "(case page_slice_set_size ops ps (vfs_st_bytes_for_cap ops t (ensure_cap_target t need)) of
          (REND_ERR e, ps1) \<Rightarrow> (REND_ERR e, t\<lparr>slice := Some ps1\<rparr>, mem)
        | (REND_SUCCESS, ps1) \<Rightarrow>
            (case ensure_pages ops m_alloc ps1 mem
                [SIZE_TO_PAGE_COUNT ops (page_slice_get_size ops ps)..<
                 SIZE_TO_PAGE_COUNT ops (vfs_st_bytes_for_cap ops t (ensure_cap_target t need))] of
               (REND_SUCCESS, ps2, mem2) \<Rightarrow>
                 (REND_SUCCESS, t\<lparr>slice := Some ps2, capacity := ensure_cap_target t need\<rparr>, mem2)
             | (REND_ERR e, ps2, mem2) \<Rightarrow>
                 (REND_ERR e, t\<lparr>slice := Some (snd (page_slice_set_size ops ps2 (page_slice_get_size ops ps)))\<rparr>, mem2)))
       = (err, t', mem')"
    using run ps unfolding vfs_slice_table_ensure_cap_def Let_def by (auto split: if_splits)
  then show ?thesis
  proof cases
    case keep
    then show ?thesis using ok self by simp
  next
    case grow
    let ?c = "ensure_cap_target t need" and ?n = "capacity t div per_page t"
    let ?m = "?c div per_page t"
    have pp: "0 < per_page t" "per_page t dvd ?c"
      using table_ok_pp [OF ok] target_bounds(1) [OF ok grow(2)] by simp_all
    have sizes: "page_slice_get_size ops ps = ?n * PAGE_SIZE ops"
      "vfs_st_bytes_for_cap ops t ?c = ?m * PAGE_SIZE ops" "capacity t \<le> ?c" "?n \<le> ?m"
      using ok ps bytes_for_cap [OF pp] grow by (auto simp: table_ok_def intro: div_le_mono)
    have map: "mapping_ok ops (page_slice_lookup ops ps) ?n" using table_okD [OF ok ps] by blast
    obtain e1 ps1 where set: "page_slice_set_size ops ps (?m * PAGE_SIZE ops) = (e1, ps1)"
      by (cases "page_slice_set_size ops ps (?m * PAGE_SIZE ops)") auto
    show ?thesis
    proof (cases e1)
      case (REND_ERR e)
      then have t': "err = REND_ERR e" "t' = t\<lparr>slice := Some ps1\<rparr>" "mem' = mem"
        using grow(4) set by (simp_all add: sizes)
      then have upd: "t' = t\<lparr>slice := Some ps1, capacity := capacity t\<rparr>"
        by (simp add: vfs_slice_table.equality)
      note se = set_size_err [OF set [unfolded REND_ERR]]
      have "table_ok ops t'" using ok ps se t' by (auto simp: table_ok_def)
      moreover have "same_records t mem t' mem'"
        by (rule same_recordsI [OF ok ps fresh upd]) (simp_all add: t' se)
      ultimately show ?thesis using t' by simp
    next
      case REND_SUCCESS
      note so = set_size_ok [OF set [unfolded REND_SUCCESS]]
      have look1: "page_slice_lookup ops ps1 = page_slice_lookup ops ps"
        using so mapping_ok_none [OF map] sizes(4) by (auto simp: page_count fun_eq_iff)
      obtain e2 ps2 mem2 where pages: "ensure_pages ops m_alloc ps1 mem [?n..<?m] = (e2, ps2, mem2)"
        by (cases "ensure_pages ops m_alloc ps1 mem [?n..<?m]") auto
      have none: "\<forall>g \<in> set [?n..<?m]. page_slice_lookup ops ps1 g = None"
        using mapping_ok_none [OF map] by (simp add: look1)
      note eff = ensure_pages_effect [OF pages _ none, simplified, unfolded look1]
      have run2: "(case (e2, ps2, mem2) of
               (REND_SUCCESS, ps2, mem2) \<Rightarrow> (REND_SUCCESS, t\<lparr>slice := Some ps2, capacity := ?c\<rparr>, mem2)
             | (REND_ERR e, ps2, mem2) \<Rightarrow>
                 (REND_ERR e, t\<lparr>slice := Some (snd (page_slice_set_size ops ps2 (?n * PAGE_SIZE ops)))\<rparr>, mem2))
            = (err, t', mem')"
        using grow(4) set pages REND_SUCCESS by (cases e2) (auto simp add: sizes page_count)
      have "table_ok ops t' \<and> same_records t mem t' mem' \<and> capacity t \<le> capacity t'
          \<and> (err = REND_SUCCESS \<longrightarrow> ?c \<le> capacity t')"
        by (rule grow_tail [OF ok ps fresh map pp(2) sizes(3,4) _ _ _ _ run2])
          (use eff so in \<open>auto simp: page_count\<close>)
      then show ?thesis using grow(3) by auto
    qed
  qed
qed

lemma records_eq: "same_records t mem t' mem' \<Longrightarrow> count t \<le> capacity t \<Longrightarrow> records ops mem' t' = records ops mem t"
  by (simp add: records_def same_records_def)

lemma ptr_count_irrelevant [simp]: "vfs_slice_table_ptr ops (t\<lparr>count := n\<rparr>) i = vfs_slice_table_ptr ops t i"
  by (simp add: vfs_slice_table_ptr_def vfs_st_byte_off_def split: option.split)

lemma table_ok_count: "table_ok ops t \<Longrightarrow> n \<le> capacity t \<Longrightarrow> table_ok ops (t\<lparr>count := n\<rparr>)"
  unfolding table_ok_def by (cases "slice t") auto

lemma record_at_memset:
  assumes ok: "table_ok ops t" and p: "vfs_slice_table_ptr ops t j = Some p"
  shows "record_at ops (memset0 mem p (elem_size t)) t i =
     (if i = j then replicate (elem_size t) 0 else record_at ops mem t i)"
proof (cases "vfs_slice_table_ptr ops t i")
  case (Some q)
  show ?thesis
  proof (cases "i = j")
    case True
    then show ?thesis using p by (auto simp: record_at_def memset0_def intro!: nth_equalityI)
  next
    case False
    then show ?thesis using slots_disjoint [OF ok False Some p] Some
      by (auto simp: record_at_def memset0_def)
  qed
qed (use p in \<open>auto simp: record_at_def\<close>)

lemma table_ok_count_le: "table_ok ops t \<Longrightarrow> count t \<le> capacity t"
  by (simp add: table_ok_def)

lemma push_zero_effect:
  assumes ok: "table_ok ops t" and ps: "slice t = Some ps" and fresh: "alloc_fresh ops m_alloc ps"
    and run: "vfs_slice_table_push_zero ops m_alloc mem t = ((err, idx), t', mem')"
  shows "table_ok ops t' \<and> (\<forall>i < count t. vfs_slice_table_ptr ops t' i = vfs_slice_table_ptr ops t i)
    \<and> (case err of
          REND_SUCCESS \<Rightarrow> idx = count t \<and> records ops mem' t' = records ops mem t @ [replicate (elem_size t) 0]
        | REND_ERR e \<Rightarrow> records ops mem' t' = records ops mem t)"
proof -
  obtain e1 t1 mem1 where ens: "vfs_slice_table_ensure_cap ops m_alloc mem t (count t + 1) = (e1, t1, mem1)"
    by (cases "vfs_slice_table_ensure_cap ops m_alloc mem t (count t + 1)") auto
  note eff = ensure_cap_effect [OF ok ps fresh ens]
  note le = table_ok_count_le [OF ok]
  have ptrs: "\<forall>i < count t. vfs_slice_table_ptr ops t1 i = vfs_slice_table_ptr ops t i"
    using eff le by (auto simp: same_records_def)
  have recs: "records ops mem1 t1 = records ops mem t" and cnt: "count t1 = count t" "elem_size t1 = elem_size t"
    using eff le records_eq [of t mem t1 mem1] by (auto simp: same_records_def)
  show ?thesis
  proof (cases e1)
    case (REND_ERR e)
    then show ?thesis using run ens eff ptrs recs by (auto simp: vfs_slice_table_push_zero_def)
  next
    case REND_SUCCESS
    then have room: "count t1 < capacity t1" using eff cnt by simp
    obtain ps1 where ps1: "slice t1 = Some ps1"
      using eff by (cases "slice t1") (auto simp: table_ok_def)
    obtain p where p: "vfs_slice_table_ptr ops t1 (count t1) = Some p"
      using ptr_eq [OF _ ps1 room] eff by blast
    have r: "err = REND_SUCCESS" "idx = count t" "t' = t1\<lparr>count := count t1 + 1\<rparr>"
        "mem' = memset0 mem1 p (elem_size t1)"
      using run ens REND_SUCCESS p cnt by (auto simp: vfs_slice_table_push_zero_def)
    have rec: "record_at ops mem' t' i = (if i = count t then replicate (elem_size t) 0 else record_at ops mem1 t1 i)" for i
      using record_at_memset [OF _ p, of mem1 i] eff cnt by (simp add: r record_at_def cong: option.case_cong)
    then have "records ops mem' t' = records ops mem1 t1 @ [replicate (elem_size t) 0]"
      by (simp add: records_def r(3) cnt)
    then show ?thesis
      using r eff ptrs recs table_ok_count [of t1 "count t1 + 1"] room by simp
  qed
qed

lemma push_zero_no_fail:
  assumes ok: "table_ok ops t" and room: "count t < capacity t"
  shows "fst (fst (vfs_slice_table_push_zero ops m_alloc mem t)) = REND_SUCCESS"
proof -
  obtain ps where ps: "slice t = Some ps" using ok by (cases "slice t") (auto simp: table_ok_def)
  then have "vfs_slice_table_ensure_cap ops m_alloc mem t (count t + 1) = (REND_SUCCESS, t, mem)"
    using room by (simp add: vfs_slice_table_ensure_cap_def)
  then show ?thesis using ptr_eq [OF ok ps room] by (auto simp: vfs_slice_table_push_zero_def)
qed

lemma pop_last_effect:
  assumes ok: "table_ok ops t" and run: "vfs_slice_table_pop_last ops mem t = (t', mem')"
  shows "table_ok ops t' \<and> records ops mem' t' = butlast (records ops mem t)"
proof (cases "count t = 0")
  case True
  then show ?thesis using assms by (auto simp: vfs_slice_table_pop_last_def records_def)
next
  case False
  obtain ps where ps: "slice t = Some ps" using ok by (cases "slice t") (auto simp: table_ok_def)
  have last: "count t - 1 < capacity t" using False table_ok_count_le [OF ok] by simp
  obtain p where p: "vfs_slice_table_ptr ops t (count t - 1) = Some p"
    using ptr_eq [OF ok ps last] by blast
  have r: "t' = t\<lparr>count := count t - 1\<rparr>" "mem' = memset0 mem p (elem_size t)"
    using run False p by (auto simp: vfs_slice_table_pop_last_def)
  have "record_at ops mem' t' i = record_at ops mem t i" if "i < count t - 1" for i
    using record_at_memset [OF ok p, of mem i] that by (simp add: r record_at_def cong: option.case_cong)
  then have "records ops mem' t' = map (record_at ops mem t) [0..<count t - 1]"
    by (simp add: records_def r(1))
  moreover have "butlast (records ops mem t) = map (record_at ops mem t) [0..<count t - 1]"
    using False by (cases "count t") (simp_all add: records_def map_butlast)
  ultimately show ?thesis using table_ok_count [OF ok, of "count t - 1"] last r by simp
qed

lemma init_effect:
  assumes run: "vfs_slice_table_init ops m_alloc mem esize initial_cap = (REND_SUCCESS, t, mem')"
    and fresh: "\<forall>g h a b. g \<noteq> h \<longrightarrow> m_alloc g = Some a \<longrightarrow> m_alloc h = Some b \<longrightarrow> disj_pages (PAGE_SIZE ops) a b"
  shows "table_ok ops t \<and> count t = 0 \<and> initial_cap \<le> capacity t \<and> elem_size t = esize"
proof -
  let ?pp = "PAGE_SIZE ops div esize"
  let ?cap = "round_up_cap (if initial_cap = 0 then ?pp else initial_cap) ?pp"
  let ?t = "table_zero\<lparr>elem_size := esize, per_page := ?pp, soft_max := VFS_SLICE_TABLE_SOFT_MAX\<rparr> :: 'a vfs_slice_table"
  have es: "0 < esize" "esize \<le> PAGE_SIZE ops" "0 < ?pp"
    using run by (auto simp: vfs_slice_table_init_def Let_def div_greater_zero_iff split: if_splits)
  have dvd: "?pp dvd ?cap" "initial_cap \<le> ?cap" using round_up_cap_props [OF es(3)] by auto
  have bytes: "vfs_st_bytes_for_cap ops ?t (round_up_cap c ?pp) = (round_up_cap c ?pp div ?pp) * PAGE_SIZE ops" for c
    using bytes_for_cap [of ?t "round_up_cap c ?pp"] round_up_cap_props(1) [OF es(3)] es by simp
  obtain ps ps1 where cr: "page_slice_create ops ((?cap div ?pp) * PAGE_SIZE ops) = Some ps"
      and pg: "ensure_pages ops m_alloc ps mem [0..<?cap div ?pp] = (REND_SUCCESS, ps1, mem')"
      and t: "t = ?t\<lparr>slice := Some ps1, capacity := ?cap, count := 0\<rparr>"
    using run es unfolding vfs_slice_table_init_def Let_def
    by (auto simp: bytes page_count split: if_splits option.splits prod.splits error_t.splits)
  note eff = ensure_pages_effect [OF pg _, simplified]
  have "mapping_ok ops (page_slice_lookup ops ps1) (?cap div ?pp)"
    by (rule mapping_ok_initial [of "page_slice_lookup ops ps", OF _ _ _ fresh])
      (use eff create [OF cr] in simp_all)
  then have "table_ok ops t"
    using t es dvd eff create [OF cr] by (auto simp: table_ok_def)
  then show ?thesis using t dvd by (auto simp: table_zero_def)
qed

end

section \<open>A page slice that meets the interface\<close>

text \<open>
  A reference page slice with 4096-byte pages, its size and its page map, on which the laws above
  hold; the witnesses run on it.
\<close>

definition ref_slice_ops :: "(nat \<times> (nat \<Rightarrow> vaddr option)) page_slice_ops" where
  "ref_slice_ops = \<lparr>PAGE_SIZE = 4096, SIZE_TO_PAGE_COUNT = \<lambda>n. (n + 4095) div 4096,
     BYTE_TO_PGOFF = \<lambda>off. off div 4096, IN_PAGE_OFF = \<lambda>off. off mod 4096,
     page_slice_create = \<lambda>n. Some (n, \<lambda>g. None), page_slice_lookup = snd,
     page_slice_insert_page = \<lambda>ps g a. (REND_SUCCESS, (fst ps, (snd ps)(g := Some a))),
     page_slice_get_size = fst,
     page_slice_set_size = \<lambda>ps n.
       (REND_SUCCESS, (n, \<lambda>g. if g < (n + 4095) div 4096 then snd ps g else None))\<rparr>"

interpretation ref_slice: page_slice_api ref_slice_ops
  by unfold_locales (auto simp: ref_slice_ops_def)

section \<open>Sorted name tables\<close>

context strcmp_api
begin

lemma names_bubble_split:
  "\<exists>as bs. xs = as @ bs \<and> names_bubble scmp (length xs) (xs @ y # zs) = as @ y # bs @ zs
     \<and> (\<forall>b \<in> set bs. 0 < scmp b y 64) \<and> (as \<noteq> [] \<longrightarrow> scmp (last as) y 64 \<le> 0)"
proof (induction xs arbitrary: zs rule: rev_induct)
  case (snoc x xs)
  show ?case
  proof (cases "scmp x y 64 \<le> 0")
    case True
    then show ?thesis
      by (intro exI [of _ "xs @ [x]"] exI [of _ "[]"]) (simp add: nth_append)
  next
    case False
    have "(xs @ x # y # zs)[length xs := y, Suc (length xs) := x] = xs @ y # x # zs"
      by (simp add: list_update_append)
    then have "names_bubble scmp (length (xs @ [x])) ((xs @ [x]) @ y # zs) =
        names_bubble scmp (length xs) (xs @ y # x # zs)"
      using False by (simp add: nth_append)
    moreover obtain as bs where "xs = as @ bs"
      "names_bubble scmp (length xs) (xs @ y # x # zs) = as @ y # bs @ x # zs"
      "\<forall>b \<in> set bs. 0 < scmp b y 64" "as \<noteq> [] \<longrightarrow> scmp (last as) y 64 \<le> 0"
      using snoc [of "x # zs"] by blast
    ultimately show ?thesis using False
      by (intro exI [of _ as] exI [of _ "bs @ [x]"]) auto
  qed
qed simp

lemma dir_names_insert_sorted:
  assumes sorted: "sorted_wrt (\<lambda>a b. scmp a b 64 < 0) names" and short: "\<forall>n \<in> set names. length n < 64"
    and name: "name \<noteq> []" "length name < 64"
    and run: "vfs_dir_names_insert scmp push_ok names name = (True, names')"
  shows "sorted_wrt (\<lambda>a b. scmp a b 64 < 0) names' \<and> set names' = insert name (set names)
    \<and> (\<forall>n \<in> set names'. length n < 64)"
proof (cases "name \<in> set names")
  case True
  then have "list_ex (\<lambda>p. scmp p name 64 = 0) names"
    by (auto simp: list_ex_iff intro!: bexI [of _ name])
  then show ?thesis using True run sorted short name by (auto simp: vfs_dir_names_insert_def)
next
  case False
  have zero: "scmp n name 64 = 0 \<longleftrightarrow> n = name" if "n \<in> set names" for n
    using scmp_zero_short [of n 64 name] that short name by auto
  then have "\<not> list_ex (\<lambda>p. scmp p name 64 = 0) names" using False by (auto simp: list_ex_iff)
  then have n': "names' = names_bubble scmp (length names) (names @ name # [])"
    using run name by (auto simp: vfs_dir_names_insert_def split: if_splits)
  obtain as bs where ab: "names = as @ bs" "names' = as @ name # bs"
      "\<forall>b \<in> set bs. 0 < scmp b name 64" "as \<noteq> [] \<longrightarrow> scmp (last as) name 64 \<le> 0"
    using names_bubble_split [of names name "[]", folded n'] by (metis append_Nil2)
  have low: "scmp a name 64 < 0" if "a \<in> set as" for a
  proof -
    have l: "scmp (last as) name 64 < 0"
      using that ab zero [of "last as"] False by (cases as rule: rev_cases) force+
    show ?thesis
    proof (cases "a = last as")
      case False
      then have "scmp a (last as) 64 < 0"
        using that sorted ab(1) by (cases as rule: rev_cases) (auto simp: sorted_wrt_append)
      then show ?thesis using l scmp_trans by blast
    qed (simp add: l)
  qed
  have high: "scmp name b 64 < 0" if "b \<in> set bs" for b
    using that ab(3) scmp_flip [of b name 64] by simp
  show ?thesis using sorted low high ab short name by (auto simp: sorted_wrt_append)
qed

end

section \<open>Properties\<close>

text \<open>C25. \<^verbatim>\<open>vfs_slice_table_push_zero\<close> refines appending to a list: from a well-formed table it
  either appends one zeroed record at index \<^verbatim>\<open>count\<close>, or fails and leaves all records as they were;
  in both cases the table stays well formed and every earlier record keeps its address, however
  many pages the growth adds. While there is room in the mapped pages it cannot fail.\<close>

theorem push_zero_refines:
  assumes "page_slice_api ops" "table_ok ops t" "slice t = Some ps" "alloc_fresh ops m_alloc ps"
    and "vfs_slice_table_push_zero ops m_alloc mem t = ((err, idx), t', mem')"
  shows "table_ok ops t' \<and> (\<forall>i < count t. vfs_slice_table_ptr ops t' i = vfs_slice_table_ptr ops t i)
    \<and> (case err of
          REND_SUCCESS \<Rightarrow> idx = count t \<and> records ops mem' t' = records ops mem t @ [replicate (elem_size t) 0]
        | REND_ERR e \<Rightarrow> records ops mem' t' = records ops mem t)
    \<and> (count t < capacity t \<longrightarrow> err = REND_SUCCESS)"
  using page_slice_api.push_zero_effect [OF assms] page_slice_api.push_zero_no_fail [OF assms(1,2)] assms(5)
  by (metis fst_conv)

theorem push_zero_refines_witness:
  "let t = \<lparr>slice = Some (4096, [0 \<mapsto> 8192]), elem_size = 2048, per_page = 2, count = 2,
             capacity = 2, soft_max = 1048576\<rparr>;
       r = vfs_slice_table_push_zero ref_slice_ops (\<lambda>g. Some (65536 + 4096 * g)) (\<lambda>a. 0) t in
   table_ok ref_slice_ops (fst (snd r)) \<and> fst r = (REND_SUCCESS, 2)"
proof -
  let ?t = "\<lparr>slice = Some (4096, [0 \<mapsto> 8192]), elem_size = 2048, per_page = 2, count = 2,
             capacity = 2, soft_max = 1048576\<rparr>"
  let ?m = "\<lambda>g. Some (65536 + 4096 * g)"
  let ?r = "vfs_slice_table_push_zero ref_slice_ops ?m (\<lambda>a. 0) ?t"
  have ok: "table_ok ref_slice_ops ?t"
    by (auto simp: table_ok_def ref_slice_ops_def mapping_ok_def split: if_splits)
  have fresh: "alloc_fresh ref_slice_ops ?m (4096, [0 \<mapsto> 8192])"
    by (auto simp: alloc_fresh_def ref_slice_ops_def disj_pages_def split: if_splits)
  have target: "ensure_cap_target (?t :: (nat \<times> (nat \<Rightarrow> vaddr option)) vfs_slice_table) 3 = 4"
    by (simp add: ensure_cap_target_def grow_cap.simps round_up_cap_def)
  have pages: "[Suc 0..<2] = [Suc 0]" by (simp add: upt_rec)
  have res: "fst ?r = (REND_SUCCESS, 2)"
    using target
    by (simp add: vfs_slice_table_push_zero_def vfs_slice_table_ensure_cap_def ref_slice_ops_def
        vfs_st_bytes_for_cap_def vfs_st_ensure_pgoff_def vfs_slice_table_ptr_def
        vfs_st_byte_off_def Let_def pages)
  obtain err idx t' mem' where run: "?r = ((err, idx), t', mem')" by (metis surj_pair)
  have "table_ok ref_slice_ops t'"
    using push_zero_refines [OF ref_slice.page_slice_api_axioms ok _ fresh run] by simp
  then show ?thesis using run res by (simp add: Let_def)
qed

text \<open>A table that \<^verbatim>\<open>vfs_slice_table_init\<close> sets up is well formed and empty, with room for at
  least the requested number of records, and dropping the last record of a well-formed table
  (\<^verbatim>\<open>vfs_slice_table_pop_last\<close>) removes the last element of the record list.\<close>

lemma init_and_pop:
  assumes "page_slice_api ops"
    and "\<forall>g h a b. g \<noteq> h \<longrightarrow> m_alloc g = Some a \<longrightarrow> m_alloc h = Some b \<longrightarrow> disj_pages (PAGE_SIZE ops) a b"
    and "vfs_slice_table_init ops m_alloc mem esize cap = (REND_SUCCESS, t, mem')"
    and "table_ok ops u" "vfs_slice_table_pop_last ops mem2 u = (u', mem2')"
  shows "table_ok ops t \<and> records ops mem' t = [] \<and> cap \<le> capacity t \<and> elem_size t = esize
    \<and> table_ok ops u' \<and> records ops mem2' u' = butlast (records ops mem2 u)"
  using page_slice_api.init_effect [OF assms(1,3,2)] page_slice_api.pop_last_effect [OF assms(1,4,5)]
  by (simp add: records_def)

end
