(* ===== verification/Vfs_Inode.thy ===== *)
theory Vfs_Inode
  imports Vfs_Path
begin

text \<open>
  The middle-layer inode handle (\<^verbatim>\<open>servers/fs/vfs_backend_ops.h\<close>), its stat records
  (\<^verbatim>\<open>servers/fs/vfs_kstat.c\<close>) and the permission check of a request
  (\<^verbatim>\<open>servers/fs/vfs_perm.c\<close>). The opaque \<^verbatim>\<open>storage\<close> pointer is either a slot of the ramfs entry
  table or an address in the cpio archive.
\<close>

section \<open>Inodes and stat records\<close>

datatype vfs_storage = ST_NULL | ST_RAMFS nat | ST_CPIO nat

record vfs_inode =
  i_path :: string
  backend_port :: "string option"
  backend_caps :: u32
  storage :: vfs_storage
  i_mode :: u32
  i_size :: nat
  nlink :: nat
  is_dir :: bool
  is_symlink :: bool
  writable :: bool

definition inode_zero :: vfs_inode where
  "inode_zero = \<lparr>i_path = [], backend_port = None, backend_caps = 0, storage = ST_NULL, i_mode = 0,
     i_size = 0, nlink = 0, is_dir = False, is_symlink = False, writable = False\<rparr>"

record vfs_kstat =
  st_dev :: nat
  st_ino :: u64
  st_mode :: u32
  st_nlink :: nat
  st_uid :: u32
  st_gid :: u32
  st_rdev :: nat
  st_size :: int
  st_blksize :: nat
  st_blocks :: nat
  st_atime_sec :: int
  st_atime_nsec :: int
  st_mtime_sec :: int
  st_mtime_nsec :: int
  st_ctime_sec :: int
  st_ctime_nsec :: int

text \<open>The user-visible record has the same fields in the Linux order.\<close>

type_synonym linux_user_stat = vfs_kstat

definition kstat_zero :: vfs_kstat where
  "kstat_zero = \<lparr>st_dev = 0, st_ino = 0, st_mode = 0, st_nlink = 0, st_uid = 0, st_gid = 0,
     st_rdev = 0, st_size = 0, st_blksize = 0, st_blocks = 0, st_atime_sec = 0, st_atime_nsec = 0,
     st_mtime_sec = 0, st_mtime_nsec = 0, st_ctime_sec = 0, st_ctime_nsec = 0\<rparr>"

fun fnv_step :: "u64 \<Rightarrow> string \<Rightarrow> u64" where
  "fnv_step h [] = h"
| "fnv_step h (c # cs) = fnv_step ((h XOR of_nat (of_char c)) * 1099511628211) cs"

definition vfs_path_to_ino :: "string \<Rightarrow> u64" where
  "vfs_path_to_ino path =
     (let h = fnv_step 14695981039346656037 path in if h = 0 then 1 else h)"

definition vfs_kstat_from_inode :: "vfs_inode \<Rightarrow> vfs_kstat" where
  "vfs_kstat_from_inode ino = kstat_zero
     \<lparr>st_dev := 1, st_ino := vfs_path_to_ino (i_path ino), st_mode := i_mode ino,
      st_nlink := (if nlink ino \<noteq> 0 then nlink ino else 1), st_uid := 0, st_gid := 0,
      st_size := int (i_size ino), st_blksize := 4096, st_blocks := (i_size ino + 511) div 512\<rparr>"

definition linux_user_stat_from_kstat :: "vfs_kstat \<Rightarrow> linux_user_stat" where
  "linux_user_stat_from_kstat k = kstat_zero
     \<lparr>st_dev := st_dev k, st_ino := st_ino k, st_mode := st_mode k, st_nlink := st_nlink k,
      st_uid := st_uid k, st_gid := st_gid k, st_rdev := st_rdev k, st_size := st_size k,
      st_blksize := st_blksize k, st_blocks := st_blocks k, st_atime_sec := st_atime_sec k,
      st_atime_nsec := st_atime_nsec k, st_mtime_sec := st_mtime_sec k,
      st_mtime_nsec := st_mtime_nsec k, st_ctime_sec := st_ctime_sec k,
      st_ctime_nsec := st_ctime_nsec k\<rparr>"

section \<open>Permission check\<close>

record vfs_req_cred =
  cred_uid :: u32
  cred_gid :: u32

abbreviation VFS_PERM_R :: u32 where "VFS_PERM_R \<equiv> 4"
abbreviation VFS_PERM_W :: u32 where "VFS_PERM_W \<equiv> 2"
abbreviation VFS_PERM_X :: u32 where "VFS_PERM_X \<equiv> 1"

definition vfs_perm_set_request :: "u32 \<Rightarrow> u32 \<Rightarrow> vfs_req_cred \<Rightarrow> vfs_req_cred" where
  "vfs_perm_set_request uid gid cred = cred\<lparr>cred_uid := uid, cred_gid := gid\<rparr>"

definition vfs_perm_get_request :: "vfs_req_cred \<Rightarrow> u32 \<times> u32" where
  "vfs_perm_get_request cred = (cred_uid cred, cred_gid cred)"

definition vfs_perm_check_mode :: "u32 \<Rightarrow> u32 \<Rightarrow> u32 \<Rightarrow> u32 \<Rightarrow> int" where
  "vfs_perm_check_mode mode msk uid gid =
     (if uid = 0 then 0
      else
        let perm0 = drop_bit 6 mode AND 7;
            perm = (if perm0 = 0 then 7 else perm0) in
        if msk AND VFS_PERM_R \<noteq> 0 \<and> perm AND 4 = 0 then - LINUX_EACCES
        else if msk AND VFS_PERM_W \<noteq> 0 \<and> perm AND 2 = 0 then - LINUX_EACCES
        else if msk AND VFS_PERM_X \<noteq> 0 \<and> perm AND 1 = 0 then - LINUX_EACCES
        else 0)"

definition vfs_perm_check_mode_request :: "vfs_req_cred \<Rightarrow> u32 \<Rightarrow> u32 \<Rightarrow> int" where
  "vfs_perm_check_mode_request cred mode msk =
     vfs_perm_check_mode mode msk (cred_uid cred) (cred_gid cred)"

section \<open>Lemmas\<close>

lemma vfs_path_to_ino_nonzero [simp]: "vfs_path_to_ino p \<noteq> 0"
  by (simp add: vfs_path_to_ino_def Let_def)

lemma user_stat_copy: "linux_user_stat_from_kstat k = k"
  by (simp add: linux_user_stat_from_kstat_def)

lemma and_power2_zero:
  fixes w :: u32
  shows "w AND 4 = 0 \<longleftrightarrow> \<not> bit w 2" and "w AND 2 = 0 \<longleftrightarrow> \<not> bit w 1" and "w AND 1 = 0 \<longleftrightarrow> \<not> bit w 0"
proof -
  have key: "w AND push_bit n 1 = 0 \<longleftrightarrow> \<not> bit w n" if "n < 32" for n
  proof
    assume h: "w AND push_bit n 1 = 0"
    have "bit (w AND push_bit n 1) n = bit w n" using that by (simp add: bit_simps)
    then show "\<not> bit w n" using h by simp
  next
    assume "\<not> bit w n"
    then show "w AND push_bit n 1 = 0" by (intro bit_eqI) (auto simp: bit_simps)
  qed
  show "w AND 4 = 0 \<longleftrightarrow> \<not> bit w 2" "w AND 2 = 0 \<longleftrightarrow> \<not> bit w 1" "w AND 1 = 0 \<longleftrightarrow> \<not> bit w 0"
    using key [of 2] key [of 1] key [of 0] by (simp_all add: push_bit_eq_mult)
qed

lemma owner_bits:
  fixes mode :: u32
  shows "bit (drop_bit 6 mode AND 7) n \<longleftrightarrow> n < 3 \<and> bit mode (n + 6)"
proof -
  have "(7 :: u32) = mask 3" by (simp add: mask_eq_exp_minus_1)
  then have "bit (7 :: u32) n \<longleftrightarrow> n < 3" by (simp only: bit_mask_iff) auto
  then show ?thesis by (auto simp: bit_and_iff bit_drop_bit_eq add.commute)
qed

lemma owner_bits_zero:
  fixes mode :: u32
  shows "drop_bit 6 mode AND 7 = 0 \<longleftrightarrow> \<not> bit mode 6 \<and> \<not> bit mode 7 \<and> \<not> bit mode 8"
proof -
  have "(drop_bit 6 mode AND 7 = 0) = (\<forall>n < 3. \<not> bit mode (n + 6))"
    by (auto simp: bit_eq_iff owner_bits)
  also have "\<dots> = (\<not> bit mode 6 \<and> \<not> bit mode 7 \<and> \<not> bit mode 8)"
    by (simp add: numeral_3_eq_3 All_less_Suc) (auto simp: eval_nat_numeral)
  finally show ?thesis .
qed

section \<open>Properties\<close>

text \<open>The permission check of a request grants access exactly when the caller is root, or the
  owner bits of the mode allow every requested access, or the owner bits are all clear: a file
  whose owner has no permission at all is open to every caller.\<close>

lemma perm_check_grants:
  "vfs_perm_check_mode mode msk uid gid = 0 \<longleftrightarrow>
     uid = 0 \<or> (\<not> bit mode 6 \<and> \<not> bit mode 7 \<and> \<not> bit mode 8)
     \<or> (\<forall>n < 3. bit msk n \<longrightarrow> bit mode (n + 6))"
proof -
  have all3: "(\<forall>n < 3. bit msk n \<longrightarrow> bit mode (n + 6)) \<longleftrightarrow>
      (bit msk 0 \<longrightarrow> bit mode 6) \<and> (bit msk 1 \<longrightarrow> bit mode 7) \<and> (bit msk 2 \<longrightarrow> bit mode 8)"
    by (simp add: numeral_3_eq_3 All_less_Suc) (auto simp: eval_nat_numeral)
  have seven: "bit (7 :: u32) 0" "bit (7 :: u32) 1" "bit (7 :: u32) 2" by simp_all
  show ?thesis
    unfolding vfs_perm_check_mode_def all3 Let_def
    by (simp add: and_power2_zero owner_bits owner_bits_zero seven)
qed

end
