(* ===== verification/Vfs_Handle.thy ===== *)
theory Vfs_Handle
  imports Vfs_Inode Slice_Table
begin

text \<open>
  The global open-file handle table of the VFS server (\<^verbatim>\<open>servers/fs/vfs_handle.c\<close>) and the handle
  operations of \<^verbatim>\<open>servers/fs/vfs_open.c\<close>. The table is the list of its records, as the refinement
  of \<open>Slice_Table\<close> justifies; \<open>push_ok\<close> is the outcome of a growth of the table. Handle 0 is reserved
  as invalid, so the table is initialised with one zero record.

  The locale \<open>ref_counts\<close> states what the clients of a reference-counted table rely on; it is
  interpreted on the operations of this component.
\<close>

section \<open>Definitions\<close>

record vfs_open_handle =
  in_use :: bool
  refcnt :: nat
  h_ino :: vfs_inode
  h_offset :: nat
  h_open_flags :: u32

type_synonym handle_tab = "vfs_open_handle list"

definition handle_zero :: vfs_open_handle where
  "handle_zero = \<lparr>in_use = False, refcnt = 0, h_ino = inode_zero, h_offset = 0, h_open_flags = 0\<rparr>"

definition vfs_handle_init :: "bool \<Rightarrow> bool \<Rightarrow> error_t \<times> handle_tab" where
  "vfs_handle_init init_ok push_ok =
     (if \<not> init_ok then (REND_ERR E_REND_NO_MEM, [])
      else if \<not> push_ok then (REND_ERR E_REND_NO_MEM, [])
      else (REND_SUCCESS, [handle_zero]))"

text \<open>The scan for a free record from index 1 on.\<close>

fun first_free :: "vfs_open_handle list \<Rightarrow> nat \<Rightarrow> nat option" where
  "first_free [] i = None"
| "first_free (h # hs) i = (if 1 \<le> i \<and> \<not> in_use h then Some i else first_free hs (i + 1))"

definition vfs_handle_alloc_slot :: "bool \<Rightarrow> handle_tab \<Rightarrow> nat \<times> handle_tab" where
  "vfs_handle_alloc_slot push_ok tab =
     (case first_free tab 0 of
        Some i \<Rightarrow> (i, tab)
      | None \<Rightarrow> if push_ok then (length tab, tab @ [handle_zero]) else (0, tab))"

definition vfs_handle_open :: "bool \<Rightarrow> vfs_inode \<Rightarrow> u32 \<Rightarrow> handle_tab \<Rightarrow> nat \<times> handle_tab" where
  "vfs_handle_open push_ok ino open_flags tab =
     (case vfs_handle_alloc_slot push_ok tab of
        (hid, tab1) \<Rightarrow>
          if hid = 0 then (0, tab1)
          else (hid, tab1[hid := (tab1 ! hid)\<lparr>in_use := True, refcnt := 1, h_ino := ino, h_offset := 0,
                                  h_open_flags := open_flags\<rparr>]))"

definition vfs_handle_get :: "nat \<Rightarrow> handle_tab \<Rightarrow> vfs_open_handle option" where
  "vfs_handle_get handle tab =
     (if handle = 0 then None
      else if length tab \<le> handle \<or> \<not> in_use (tab ! handle) then None
      else Some (tab ! handle))"

definition vfs_handle_retain :: "nat \<Rightarrow> handle_tab \<Rightarrow> int \<times> handle_tab" where
  "vfs_handle_retain handle tab =
     (case vfs_handle_get handle tab of
        None \<Rightarrow> (- LINUX_EBADF, tab)
      | Some h \<Rightarrow>
          if 0xffffffff \<le> refcnt h then (- LINUX_EMFILE, tab)
          else (0, tab[handle := h\<lparr>refcnt := refcnt h + 1\<rparr>]))"

definition vfs_handle_close :: "nat \<Rightarrow> handle_tab \<Rightarrow> int \<times> handle_tab" where
  "vfs_handle_close handle tab =
     (case vfs_handle_get handle tab of
        None \<Rightarrow> (- LINUX_EBADF, tab)
      | Some h \<Rightarrow>
          if refcnt h = 0 then (- LINUX_EBADF, tab)
          else let h1 = h\<lparr>refcnt := refcnt h - 1\<rparr> in
            if 0 < refcnt h1 then (0, tab[handle := h1])
            else (0, tab[handle := handle_zero]))"

definition vfs_handle_path_under_mount ::
  "(string \<Rightarrow> string \<Rightarrow> nat \<Rightarrow> int) \<Rightarrow> string \<Rightarrow> string \<Rightarrow> nat \<Rightarrow> bool" where
  "vfs_handle_path_under_mount strcmp_s handle_path mount_path mlen =
     (if strcmp_s handle_path mount_path VFS_PATH_MAX = 0 then True
      else if mlen = 0 then False
      else if strcmp_s handle_path mount_path mlen \<noteq> 0 then False
      else mlen < length handle_path \<and> handle_path ! mlen = slash)"

definition vfs_handle_busy_under_path ::
  "(string \<Rightarrow> string \<Rightarrow> nat \<Rightarrow> int) \<Rightarrow> string \<Rightarrow> handle_tab \<Rightarrow> bool" where
  "vfs_handle_busy_under_path strcmp_s path tab =
     (let norm = vfs_path_normalize path VFS_PATH_MAX in
      list_ex (\<lambda>h. in_use h \<and>
          (vfs_path_is_root norm \<or> vfs_handle_path_under_mount strcmp_s (i_path (h_ino h)) norm (length norm)))
        (drop 1 tab))"

text \<open>Open modes and the result encoding of the open request.\<close>

abbreviation VFS_O_ACCMODE :: u32 where "VFS_O_ACCMODE \<equiv> 3"
abbreviation VFS_O_RDONLY :: u32 where "VFS_O_RDONLY \<equiv> 0"
abbreviation VFS_O_WRONLY :: u32 where "VFS_O_WRONLY \<equiv> 1"
abbreviation VFS_O_RDWR :: u32 where "VFS_O_RDWR \<equiv> 2"
abbreviation VFS_O_DIRECTORY :: u32 where "VFS_O_DIRECTORY \<equiv> 0x10000"
abbreviation VFS_OPEN_RET_IS_DIR_BIT :: int where "VFS_OPEN_RET_IS_DIR_BIT \<equiv> 2147483648"

definition vfs_open_install :: "bool \<Rightarrow> vfs_inode \<Rightarrow> u32 \<Rightarrow> handle_tab \<Rightarrow> int \<times> handle_tab" where
  "vfs_open_install push_ok ino flags tab =
     (let acc = flags AND VFS_O_ACCMODE in
      if flags AND VFS_O_DIRECTORY \<noteq> 0 \<and> \<not> is_dir ino then (- LINUX_ENOTDIR, tab)
      else if flags AND VFS_O_DIRECTORY = 0 \<and> is_dir ino \<and> acc \<noteq> VFS_O_RDONLY then (- LINUX_EISDIR, tab)
      else if is_dir ino \<and> acc \<noteq> VFS_O_RDONLY \<and> (acc = VFS_O_WRONLY \<or> acc = VFS_O_RDWR)
        then (- LINUX_EISDIR, tab)
      else if \<not> is_dir ino \<and> acc \<noteq> VFS_O_RDONLY \<and> \<not> writable ino then (- LINUX_EACCES, tab)
      else case vfs_handle_open push_ok ino flags tab of
        (handle, tab1) \<Rightarrow>
          if handle = 0 then (- LINUX_EMFILE, tab1)
          else (int handle OR (if is_dir ino then VFS_OPEN_RET_IS_DIR_BIT else 0), tab1))"

definition vfs_lseek_handle :: "nat \<Rightarrow> int \<Rightarrow> int \<Rightarrow> handle_tab \<Rightarrow> int \<times> handle_tab" where
  "vfs_lseek_handle handle offset whence tab =
     (case vfs_handle_get handle tab of
        None \<Rightarrow> (- LINUX_EBADF, tab)
      | Some f \<Rightarrow>
          if is_dir (h_ino f) then (- LINUX_EISDIR, tab)
          else
            let i64 = (\<lambda>x. sint (word_of_int x :: u64));
                new_off = (if whence = 0 then Some offset
                           else if whence = 1 then Some (i64 (int (h_offset f) + offset))
                           else if whence = 2 then Some (i64 (int (i_size (h_ino f)) + offset))
                           else None) in
            case new_off of
              None \<Rightarrow> (- LINUX_EINVAL, tab)
            | Some off \<Rightarrow>
                if off < 0 then (- LINUX_EINVAL, tab)
                else (off, tab[handle := f\<lparr>h_offset := nat off\<rparr>]))"

section \<open>Reference counts as an interface\<close>

locale ref_counts =
  fixes inv :: "'s \<Rightarrow> bool" and refs :: "'s \<Rightarrow> nat \<Rightarrow> nat"
    and retain :: "nat \<Rightarrow> 's \<Rightarrow> int \<times> 's" and close :: "nat \<Rightarrow> 's \<Rightarrow> int \<times> 's"
  assumes close_ok: "inv s \<Longrightarrow> 0 < refs s h \<Longrightarrow>
      fst (close h s) = 0 \<and> refs (snd (close h s)) = (refs s)(h := refs s h - 1)"
    and close_bad: "inv s \<Longrightarrow> refs s h = 0 \<Longrightarrow> fst (close h s) < 0 \<and> snd (close h s) = s"
    and close_inv: "inv s \<Longrightarrow> inv (snd (close h s))"
    and retain_ok: "inv s \<Longrightarrow> fst (retain h s) = 0 \<Longrightarrow>
      0 < refs s h \<and> refs (snd (retain h s)) = (refs s)(h := refs s h + 1)"
    and retain_bad: "inv s \<Longrightarrow> fst (retain h s) \<noteq> 0 \<Longrightarrow> snd (retain h s) = s"
    and retain_inv: "inv s \<Longrightarrow> inv (snd (retain h s))"
begin

text \<open>Giving back every reference releases exactly this handle, and not one close earlier.\<close>

lemma close_all:
  "inv s \<Longrightarrow> k \<le> refs s h \<Longrightarrow>
   inv (((\<lambda>s. snd (close h s)) ^^ k) s) \<and> refs (((\<lambda>s. snd (close h s)) ^^ k) s) = (refs s)(h := refs s h - k)"
proof (induction k)
  case (Suc k)
  let ?t = "((\<lambda>s. snd (close h s)) ^^ k) s"
  have "inv ?t" "refs ?t = (refs s)(h := refs s h - k)" using Suc by auto
  then show ?case using Suc.prems close_ok [of ?t h] close_inv [of ?t h] by simp
qed simp

end

section \<open>The handle table keeps reference counts\<close>

definition handle_inv :: "handle_tab \<Rightarrow> bool" where
  "handle_inv tab \<longleftrightarrow> tab \<noteq> [] \<and> \<not> in_use (tab ! 0)
     \<and> (\<forall>h \<in> set tab. if in_use h then 0 < refcnt h \<and> refcnt h \<le> 0xffffffff else refcnt h = 0)"

definition handle_refs :: "handle_tab \<Rightarrow> nat \<Rightarrow> nat" where
  "handle_refs tab h = (case vfs_handle_get h tab of None \<Rightarrow> 0 | Some r \<Rightarrow> refcnt r)"

lemma handle_get_SomeD:
  "vfs_handle_get h tab = Some r \<Longrightarrow> 0 < h \<and> h < length tab \<and> r = tab ! h \<and> in_use r"
  by (auto simp: vfs_handle_get_def split: if_splits)

lemma handle_get_update:
  assumes "0 < h" "h < length tab"
  shows "vfs_handle_get k (tab[h := r]) = (if k = h then (if in_use r then Some r else None) else vfs_handle_get k tab)"
  using assms by (auto simp: vfs_handle_get_def)

lemma handle_get_inv: "handle_inv tab \<Longrightarrow> vfs_handle_get h tab = Some r \<Longrightarrow> 0 < refcnt r \<and> refcnt r \<le> 0xffffffff"
  by (auto simp: handle_inv_def dest!: handle_get_SomeD)

lemma handle_inv_update:
  assumes "handle_inv tab" "0 < h"
    and "if in_use r then 0 < refcnt r \<and> refcnt r \<le> 0xffffffff else refcnt r = 0"
  shows "handle_inv (tab[h := r])"
  using assms by (auto simp: handle_inv_def dest: set_update_subset_insert [THEN subsetD])

lemma handle_refs_pos: "handle_inv tab \<Longrightarrow> 0 < handle_refs tab h \<longleftrightarrow> vfs_handle_get h tab \<noteq> None"
  by (auto simp: handle_refs_def dest: handle_get_inv split: option.splits)

lemma handle_refs_update:
  assumes "0 < h" "h < length tab"
  shows "handle_refs (tab[h := r]) = (handle_refs tab)(h := if in_use r then refcnt r else 0)"
  using assms by (auto simp: handle_refs_def handle_get_update)

lemma handle_close_effect:
  assumes "handle_inv tab"
  shows "(case vfs_handle_get h tab of
       None \<Rightarrow> vfs_handle_close h tab = (- LINUX_EBADF, tab)
     | Some r \<Rightarrow> fst (vfs_handle_close h tab) = 0
         \<and> handle_refs (snd (vfs_handle_close h tab)) = (handle_refs tab)(h := handle_refs tab h - 1))
     \<and> handle_inv (snd (vfs_handle_close h tab))"
proof (cases "vfs_handle_get h tab")
  case None
  then show ?thesis using assms by (simp add: vfs_handle_close_def)
next
  case (Some r)
  note h = handle_get_SomeD [OF Some] handle_get_inv [OF assms Some]
  have "handle_inv (tab[h := r\<lparr>refcnt := refcnt r - 1\<rparr>])" if "1 < refcnt r"
    using h that by (intro handle_inv_update [OF assms]) auto
  moreover have "handle_inv (tab[h := handle_zero])"
    using h by (intro handle_inv_update [OF assms]) (auto simp: handle_zero_def)
  moreover have "handle_refs tab h = refcnt r" using Some by (simp add: handle_refs_def)
  ultimately show ?thesis
    using h Some by (auto simp: vfs_handle_close_def handle_refs_update Let_def handle_zero_def)
qed

lemma handle_retain_effect:
  assumes "handle_inv tab"
  shows "(if fst (vfs_handle_retain h tab) = 0
     then 0 < handle_refs tab h \<and> handle_refs (snd (vfs_handle_retain h tab)) = (handle_refs tab)(h := handle_refs tab h + 1)
     else snd (vfs_handle_retain h tab) = tab)
     \<and> handle_inv (snd (vfs_handle_retain h tab))"
proof (cases "vfs_handle_get h tab")
  case None
  then show ?thesis using assms by (simp add: vfs_handle_retain_def)
next
  case (Some r)
  note h = handle_get_SomeD [OF Some] handle_get_inv [OF assms Some]
  have "handle_inv (tab[h := r\<lparr>refcnt := refcnt r + 1\<rparr>])" if "refcnt r < 0xffffffff"
    using h that by (intro handle_inv_update [OF assms]) auto
  moreover have "handle_refs tab h = refcnt r" using Some by (simp add: handle_refs_def)
  ultimately show ?thesis
    using assms h Some by (auto simp: vfs_handle_retain_def handle_refs_update)
qed

interpretation handles: ref_counts handle_inv handle_refs vfs_handle_retain vfs_handle_close
proof unfold_locales
  fix tab h assume i: "handle_inv tab"
  show "0 < handle_refs tab h \<Longrightarrow> fst (vfs_handle_close h tab) = 0
      \<and> handle_refs (snd (vfs_handle_close h tab)) = (handle_refs tab)(h := handle_refs tab h - 1)"
    using handle_close_effect [OF i, of h] handle_refs_pos [OF i] by (auto split: option.splits)
  show "handle_refs tab h = 0 \<Longrightarrow> fst (vfs_handle_close h tab) < 0 \<and> snd (vfs_handle_close h tab) = tab"
    using handle_close_effect [OF i, of h] handle_refs_pos [OF i, of h] by (auto split: option.splits)
  show "handle_inv (snd (vfs_handle_close h tab))" using handle_close_effect [OF i, of h] by blast
  show "fst (vfs_handle_retain h tab) = 0 \<Longrightarrow> 0 < handle_refs tab h
      \<and> handle_refs (snd (vfs_handle_retain h tab)) = (handle_refs tab)(h := handle_refs tab h + 1)"
    "fst (vfs_handle_retain h tab) \<noteq> 0 \<Longrightarrow> snd (vfs_handle_retain h tab) = tab"
    "handle_inv (snd (vfs_handle_retain h tab))"
    using handle_retain_effect [OF i, of h] by (auto split: if_splits)
qed

section \<open>Opening\<close>

lemma first_free_Some: "first_free hs i = Some j \<Longrightarrow> 1 \<le> j \<and> i \<le> j \<and> j < i + length hs \<and> \<not> in_use (hs ! (j - i))"
proof (induction hs i rule: first_free.induct)
  case (2 h hs i)
  then show ?case by (cases "1 \<le> i \<and> \<not> in_use h") (auto simp: nth_Cons' Suc_diff_le)
qed simp

lemma handle_open_effect:
  assumes inv: "handle_inv tab" and run: "vfs_handle_open push_ok ino flags tab = (h, tab')"
  shows "handle_inv tab' \<and>
    (if h = 0 then tab' = tab
     else vfs_handle_get h tab = None
       \<and> vfs_handle_get h tab' = Some \<lparr>in_use = True, refcnt = 1, h_ino = ino, h_offset = 0, h_open_flags = flags\<rparr>
       \<and> (\<forall>k. k \<noteq> h \<longrightarrow> vfs_handle_get k tab' = vfs_handle_get k tab))"
proof (cases "first_free tab 0")
  case (Some j)
  then have j: "1 \<le> j" "j < length tab" "\<not> in_use (tab ! j)" using first_free_Some [OF Some] by auto
  have r: "h = j" "tab' = tab[j := (tab ! j)\<lparr>in_use := True, refcnt := 1, h_ino := ino, h_offset := 0, h_open_flags := flags\<rparr>]"
    using run Some j by (auto simp: vfs_handle_open_def vfs_handle_alloc_slot_def)
  have "handle_inv tab'" unfolding r using inv j by (intro handle_inv_update) auto
  then show ?thesis using r j by (simp add: handle_get_update) (simp add: vfs_handle_get_def)
next
  case None
  show ?thesis
  proof (cases push_ok)
    case True
    have ne: "tab \<noteq> []" using inv by (simp add: handle_inv_def)
    let ?r = "\<lparr>in_use = True, refcnt = 1, h_ino = ino, h_offset = 0, h_open_flags = flags\<rparr>"
    have r: "h = length tab" "tab' = tab @ [?r]"
      using run None True ne by (auto simp: vfs_handle_open_def vfs_handle_alloc_slot_def handle_zero_def)
    have "handle_inv tab'" using inv ne by (auto simp: r handle_inv_def nth_append)
    then show ?thesis using r ne by (auto simp: vfs_handle_get_def nth_append)
  next
    case False
    then show ?thesis using run None inv by (auto simp: vfs_handle_open_def vfs_handle_alloc_slot_def)
  qed
qed

lemma handle_inv_init: "handle_inv [handle_zero]"
  by (simp add: handle_inv_def handle_zero_def)

text \<open>Histories of requests, with the log of those that succeeded.\<close>

datatype handle_op = HOpen bool vfs_inode u32 | HRetain nat | HClose nat

datatype handle_event = Opened nat | Retained nat | Closed nat

fun handle_step :: "handle_op \<Rightarrow> handle_tab \<Rightarrow> handle_event list \<times> handle_tab" where
  "handle_step (HOpen ok ino flags) tab =
     (case vfs_handle_open ok ino flags tab of (h, tab') \<Rightarrow> (if h = 0 then [] else [Opened h], tab'))"
| "handle_step (HRetain h) tab =
     (case vfs_handle_retain h tab of (r, tab') \<Rightarrow> (if r = 0 then [Retained h] else [], tab'))"
| "handle_step (HClose h) tab =
     (case vfs_handle_close h tab of (r, tab') \<Rightarrow> (if r = 0 then [Closed h] else [], tab'))"

fun handle_run :: "handle_op list \<Rightarrow> handle_tab \<Rightarrow> handle_event list \<times> handle_tab" where
  "handle_run [] tab = ([], tab)"
| "handle_run (op # ops) tab =
     (case handle_step op tab of (ev, tab1) \<Rightarrow>
        case handle_run ops tab1 of (evs, tab2) \<Rightarrow> (ev @ evs, tab2))"

lemma handle_step_balance:
  assumes inv: "handle_inv tab" and run: "handle_step op tab = (ev, tab')"
  shows "handle_inv tab' \<and> handle_refs tab' h + count_list ev (Closed h) =
    handle_refs tab h + count_list ev (Opened h) + count_list ev (Retained h)"
proof (cases op)
  case (HOpen ok ino flags)
  obtain k where k: "vfs_handle_open ok ino flags tab = (k, tab')" "ev = (if k = 0 then [] else [Opened k])"
    using run HOpen by (auto split: prod.splits)
  show ?thesis using handle_open_effect [OF inv k(1)] k(2)
    by (cases "k = h") (auto simp: handle_refs_def split: if_splits)
next
  case (HRetain k)
  then show ?thesis using run handle_retain_effect [OF inv, of k] by (auto split: prod.splits if_splits)
next
  case (HClose k)
  then show ?thesis
    using run handle_close_effect [OF inv, of k] handle_refs_pos [OF inv, of k]
    by (cases "vfs_handle_get k tab") (auto split: prod.splits if_splits)
qed

lemma handle_run_balance:
  "handle_inv tab \<Longrightarrow> handle_run ops tab = (evs, tab') \<Longrightarrow>
   handle_inv tab' \<and> handle_refs tab' h + count_list evs (Closed h) =
     handle_refs tab h + count_list evs (Opened h) + count_list evs (Retained h)"
proof (induction ops arbitrary: tab evs)
  case (Cons op ops)
  obtain ev tab1 evs1 where s: "handle_step op tab = (ev, tab1)" "handle_run ops tab1 = (evs1, tab')"
      "evs = ev @ evs1"
    using Cons.prems(2) by (auto split: prod.splits)
  show ?case
    using handle_step_balance [OF Cons.prems(1) s(1), of h] Cons.IH [OF _ s(2)] s(3) by simp
qed simp

section \<open>Properties\<close>

text \<open>C16. Reference counting of open files is exact over every history of open, retain and close
  requests, whatever handles they name and whichever of them fail: starting from the initialised
  table, the count of a handle is the number of its successful opens and retains less that of its
  successful closes, and the handle is usable exactly while this difference is positive.\<close>

theorem handle_history_balance:
  assumes "vfs_handle_init init_ok push_ok = (REND_SUCCESS, tab0)" and "handle_run ops tab0 = (evs, tab)"
  shows "handle_refs tab h + count_list evs (Closed h) = count_list evs (Opened h) + count_list evs (Retained h)
    \<and> (vfs_handle_get h tab \<noteq> None \<longleftrightarrow>
        count_list evs (Closed h) < count_list evs (Opened h) + count_list evs (Retained h))"
proof -
  have tab0: "tab0 = [handle_zero]" using assms(1) by (auto simp: vfs_handle_init_def split: if_splits)
  have bal: "handle_inv tab \<and> handle_refs tab h + count_list evs (Closed h) =
      count_list evs (Opened h) + count_list evs (Retained h)"
    using handle_run_balance [OF handle_inv_init, of ops evs tab h] assms(2) tab0
    by (simp add: handle_refs_def vfs_handle_get_def)
  then show ?thesis using handle_refs_pos [of tab h] by linarith
qed

theorem handle_history_balance_witness:
  "vfs_handle_get 1 (snd (handle_run [HOpen True inode_zero 0, HRetain 1, HClose 1] [handle_zero])) \<noteq> None
   \<and> vfs_handle_get 1 (snd (handle_run [HOpen True inode_zero 0, HClose 1, HClose 1] [handle_zero])) = None"
proof -
  have init: "vfs_handle_init True True = (REND_SUCCESS, [handle_zero])" by (simp add: vfs_handle_init_def)
  obtain e1 t1 e2 t2 where runs:
    "handle_run [HOpen True inode_zero 0, HRetain 1, HClose 1] [handle_zero] = (e1, t1)"
    "handle_run [HOpen True inode_zero 0, HClose 1, HClose 1] [handle_zero] = (e2, t2)"
    by (metis surj_pair)
  moreover from runs(1) have "e1 = [Opened 1, Retained 1, Closed 1]"
    by (auto simp: vfs_handle_open_def vfs_handle_alloc_slot_def vfs_handle_retain_def
        vfs_handle_close_def vfs_handle_get_def handle_zero_def)
  moreover from runs(2) have "e2 = [Opened 1, Closed 1]"
    by (auto simp: vfs_handle_open_def vfs_handle_alloc_slot_def
        vfs_handle_close_def vfs_handle_get_def handle_zero_def)
  ultimately show ?thesis
    using handle_history_balance [OF init runs(1), of 1] handle_history_balance [OF init runs(2), of 1]
    by simp
qed

lemma open_ret_decode:
  assumes "h < 2 ^ 31"
  shows "(int h OR (if d then VFS_OPEN_RET_IS_DIR_BIT else 0)) AND 2147483647 = int h"
    and "bit (int h OR (if d then VFS_OPEN_RET_IS_DIR_BIT else 0)) 31 \<longleftrightarrow> d"
proof -
  have m: "(2147483647 :: int) = mask 31" "(2147483648 :: int) = 2 ^ 31" by (simp_all add: mask_eq_exp_minus_1)
  have small: "take_bit 31 (int h) = int h" using assms by (simp add: take_bit_int_eq_self)
  show "(int h OR (if d then VFS_OPEN_RET_IS_DIR_BIT else 0)) AND 2147483647 = int h"
    using small unfolding m by (simp add: take_bit_eq_mask [symmetric] take_bit_or)
  have "\<not> bit (int h) 31" using small by (metis bit_take_bit_iff less_irrefl)
  then show "bit (int h OR (if d then VFS_OPEN_RET_IS_DIR_BIT else 0)) 31 \<longleftrightarrow> d"
    unfolding m by (simp add: bit_or_iff bit_exp_iff)
qed

text \<open>The two outcomes of installing an open file.\<close>

lemma open_install_cases [consumes 3]:
  assumes inv: "handle_inv tab" and room: "length tab < 2 ^ 31"
    and run: "vfs_open_install push_ok ino flags tab = (r, tab')"
  obtains (fail) "r < 0" "tab' = tab"
  | (opened) h where "vfs_handle_open push_ok ino flags tab = (h, tab')" "h \<noteq> 0" "0 < r" "nat (r AND 2147483647) = h"
      "bit r 31 \<longleftrightarrow> is_dir ino"
      "if is_dir ino then flags AND VFS_O_ACCMODE \<noteq> VFS_O_WRONLY \<and> flags AND VFS_O_ACCMODE \<noteq> VFS_O_RDWR
        else flags AND VFS_O_ACCMODE = VFS_O_RDONLY \<or> writable ino"
proof (cases "r < 0")
  case True
  have "int k OR (if is_dir ino then VFS_OPEN_RET_IS_DIR_BIT else 0) \<ge> 0" for k by simp
  then have "tab' = tab"
    using run True handle_open_effect [OF inv, of push_ok ino flags]
    by (auto simp: vfs_open_install_def Let_def not_less split: if_splits prod.splits)
  then show ?thesis using fail True by blast
next
  case False
  obtain h where op: "vfs_handle_open push_ok ino flags tab = (h, tab')" "h \<noteq> 0"
      and r: "r = int h OR (if is_dir ino then VFS_OPEN_RET_IS_DIR_BIT else 0)"
      and acc: "if is_dir ino then flags AND VFS_O_ACCMODE \<noteq> VFS_O_WRONLY \<and> flags AND VFS_O_ACCMODE \<noteq> VFS_O_RDWR
        else flags AND VFS_O_ACCMODE = VFS_O_RDONLY \<or> writable ino"
    using run False by (auto simp: vfs_open_install_def Let_def split: if_splits prod.splits)
  have "h \<le> length tab"
    using op first_free_Some [of tab 0]
    by (fastforce simp: vfs_handle_open_def vfs_handle_alloc_slot_def split: option.splits if_splits prod.splits)
  then have small: "h < 2 ^ 31" using room by simp
  note dec = open_ret_decode [OF small, of "is_dir ino"]
  have "r \<noteq> 0" using dec(1) op(2) r by auto
  then have pos: "0 < r" using False by linarith
  have h: "nat (r AND 2147483647) = h" "bit r 31 = is_dir ino" using dec by (simp_all only: r nat_int)
  show ?thesis by (rule opened [OF op pos h acc])
qed

text \<open>\<^verbatim>\<open>vfs_open_install\<close> either fails with a negative error and an unchanged table, or returns
  a value from which the mask gives the new handle and bit 31 the directory flag; the handle was
  free before, is open on the given inode at offset 0 afterwards, and no other handle changes. It
  never opens a directory for writing only or reading and writing, nor a read-only file for writing.\<close>

lemma open_install_result:
  assumes inv: "handle_inv tab" and room: "length tab < 2 ^ 31"
    and run: "vfs_open_install push_ok ino flags tab = (r, tab')"
  shows "(r < 0 \<and> tab' = tab) \<or>
    (0 < r \<and> vfs_handle_get (nat (r AND 2147483647)) tab = None
     \<and> vfs_handle_get (nat (r AND 2147483647)) tab' =
         Some \<lparr>in_use = True, refcnt = 1, h_ino = ino, h_offset = 0, h_open_flags = flags\<rparr>
     \<and> (\<forall>k. k \<noteq> nat (r AND 2147483647) \<longrightarrow> vfs_handle_get k tab' = vfs_handle_get k tab)
     \<and> (bit r 31 \<longleftrightarrow> is_dir ino)
     \<and> (if is_dir ino then flags AND VFS_O_ACCMODE \<noteq> VFS_O_WRONLY \<and> flags AND VFS_O_ACCMODE \<noteq> VFS_O_RDWR
        else flags AND VFS_O_ACCMODE = VFS_O_RDONLY \<or> writable ino))"
  using inv room run
proof (cases rule: open_install_cases)
  case fail
  then show ?thesis by simp
next
  case (opened h)
  then show ?thesis using handle_open_effect [OF inv opened(1)] by simp
qed

end
