(* ===== verification/Ramfs.thy ===== *)
theory Ramfs
  imports Vfs_Inode Slice_Table
begin

text \<open>
  The writable in-memory file system (\<^verbatim>\<open>servers/fs/ramfs_layer.c\<close>). The entry table is the list of
  its records; an entry pointer is an index into it. File buffers live in an explicit heap, a map
  from addresses to the bytes of the allocated block, because hard links share a buffer: freeing a
  block removes it from the heap, and an access outside an allocated block is the value \<open>None\<close> of
  the operation. The allocator of the kernel core is the argument \<open>m_alloc\<close>: asked for a size it
  gives an address and the (arbitrary) initial bytes of the block, or \<open>None\<close>. \<open>push_ok\<close> is the
  outcome of a growth of the entry table.

  The lemmas give, for tables without shared buffers, the invariant every operation keeps, that no
  operation accesses memory out of bounds, the effect of read, write and truncate on file contents
  and of create, unlink and rename on the set of paths; and, for hard links, how growing a file
  through one name leaves the other name with a freed buffer.
\<close>

section \<open>Definitions\<close>

abbreviation RAMFS_MAX_FILE_SIZE :: nat where "RAMFS_MAX_FILE_SIZE \<equiv> 262144"
abbreviation RAMFS_FLAG_DIR :: u8 where "RAMFS_FLAG_DIR \<equiv> 1"
abbreviation RAMFS_S_IFMT :: u32 where "RAMFS_S_IFMT \<equiv> 0xF000"
abbreviation RAMFS_S_IFDIR :: u32 where "RAMFS_S_IFDIR \<equiv> 0x4000"
abbreviation RAMFS_S_IFREG :: u32 where "RAMFS_S_IFREG \<equiv> 0x8000"

record ramfs_entry =
  r_path :: string
  r_mode :: u32
  r_size :: nat
  r_capacity :: nat
  r_data :: "nat option"
  r_flags :: u8
  r_alive :: bool

record ramfs =
  ents :: "ramfs_entry list"
  heap :: "nat \<Rightarrow> u8 list option"

type_synonym allocator = "nat \<Rightarrow> (nat \<times> u8 list) option"

definition entry_zero :: ramfs_entry where
  "entry_zero = \<lparr>r_path = [], r_mode = 0, r_size = 0, r_capacity = 0, r_data = None, r_flags = 0,
     r_alive = False\<rparr>"

definition entry_is_dir :: "ramfs_entry \<Rightarrow> bool" where
  "entry_is_dir e \<longleftrightarrow> r_flags e AND RAMFS_FLAG_DIR \<noteq> 0"

definition set_entry :: "nat \<Rightarrow> ramfs_entry \<Rightarrow> ramfs \<Rightarrow> ramfs" where
  "set_entry i e st = st\<lparr>ents := (ents st)[i := e]\<rparr>"

definition ramfs_free_entry_data :: "nat \<Rightarrow> ramfs \<Rightarrow> ramfs" where
  "ramfs_free_entry_data i st =
     (let ent = ents st ! i in
      case r_data ent of
        None \<Rightarrow> st
      | Some a \<Rightarrow>
          let refs = length (filter (\<lambda>e. r_alive e \<and> r_data e = Some a) (ents st));
              st1 = set_entry i (ent\<lparr>r_data := None, r_size := 0, r_capacity := 0\<rparr>) st in
          if 1 < refs then st1 else st1\<lparr>heap := (heap st1)(a := None)\<rparr>)"

fun find_entry :: "(string \<Rightarrow> string \<Rightarrow> nat \<Rightarrow> int) \<Rightarrow> string \<Rightarrow> ramfs_entry list \<Rightarrow> nat \<Rightarrow> nat option" where
  "find_entry strcmp_s path [] i = None"
| "find_entry strcmp_s path (e # es) i =
     (if r_alive e \<and> vfs_path_equal strcmp_s (r_path e) path then Some i
      else find_entry strcmp_s path es (i + 1))"

definition ramfs_find_mutable :: "(string \<Rightarrow> string \<Rightarrow> nat \<Rightarrow> int) \<Rightarrow> string \<Rightarrow> ramfs \<Rightarrow> nat option" where
  "ramfs_find_mutable strcmp_s path st = find_entry strcmp_s path (ents st) 0"

definition ramfs_lookup :: "(string \<Rightarrow> string \<Rightarrow> nat \<Rightarrow> int) \<Rightarrow> string \<Rightarrow> ramfs \<Rightarrow> nat option" where
  "ramfs_lookup = ramfs_find_mutable"

fun first_dead :: "ramfs_entry list \<Rightarrow> nat \<Rightarrow> nat option" where
  "first_dead [] i = None"
| "first_dead (e # es) i = (if \<not> r_alive e then Some i else first_dead es (i + 1))"

definition ramfs_alloc_slot :: "bool \<Rightarrow> ramfs \<Rightarrow> (nat \<times> ramfs) option" where
  "ramfs_alloc_slot push_ok st =
     (case first_dead (ents st) 0 of
        Some i \<Rightarrow> Some (i, set_entry i entry_zero st)
      | None \<Rightarrow>
          if push_ok then Some (length (ents st), st\<lparr>ents := ents st @ [entry_zero]\<rparr>) else None)"

definition ramfs_insert ::
  "(string \<Rightarrow> string \<Rightarrow> nat \<Rightarrow> int) \<Rightarrow> bool \<Rightarrow> string \<Rightarrow> u32 \<Rightarrow> u8 \<Rightarrow> ramfs \<Rightarrow> (error_t \<times> nat) \<times> ramfs" where
  "ramfs_insert strcmp_s push_ok path mode flags st =
     (if ramfs_find_mutable strcmp_s path st \<noteq> None then ((REND_ERR E_RENDEZVOS, 0), st)
      else case ramfs_alloc_slot push_ok st of
        None \<Rightarrow> ((REND_ERR E_REND_NO_MEM, 0), st)
      | Some (i, st1) \<Rightarrow>
          ((REND_SUCCESS, i),
           set_entry i ((ents st1 ! i)\<lparr>r_path := vfs_path_normalize path VFS_PATH_MAX, r_mode := mode,
                          r_flags := flags, r_alive := True\<rparr>) st1))"

definition ramfs_ensure_parent_dir :: "(string \<Rightarrow> string \<Rightarrow> nat \<Rightarrow> int) \<Rightarrow> string \<Rightarrow> ramfs \<Rightarrow> error_t" where
  "ramfs_ensure_parent_dir strcmp_s path st =
     (if vfs_path_is_root path then REND_ERR E_IN_PARAM
      else case vfs_path_parent path VFS_PATH_MAX of
        None \<Rightarrow> REND_ERR E_IN_PARAM
      | Some parent \<Rightarrow>
          if vfs_path_is_root parent then REND_SUCCESS
          else case ramfs_lookup strcmp_s parent st of
            None \<Rightarrow> REND_SUCCESS
          | Some i \<Rightarrow> if entry_is_dir (ents st ! i) then REND_SUCCESS else REND_ERR E_IN_PARAM)"

text \<open>
  The doubling loop of \<^verbatim>\<open>ramfs_grow\<close>. It is entered with \<^verbatim>\<open>need_size\<close> at most the maximum and a
  positive capacity; outside these the C loop would not end, and the model returns at once.
\<close>

function grow_file_cap :: "nat \<Rightarrow> nat \<Rightarrow> nat" where
  "grow_file_cap need new_cap =
     (if new_cap = 0 \<or> RAMFS_MAX_FILE_SIZE < need then new_cap
      else if new_cap < need
        then grow_file_cap need (if RAMFS_MAX_FILE_SIZE < new_cap * 2 then RAMFS_MAX_FILE_SIZE else new_cap * 2)
      else new_cap)"
  by pat_completeness auto

termination grow_file_cap
  by (relation "measure (\<lambda>(need, c). need - c)") auto

declare grow_file_cap.simps [simp del]

text \<open>The bytes of an allocated block from an offset on; \<open>None\<close> outside it.\<close>

definition mem_read :: "(nat \<Rightarrow> u8 list option) \<Rightarrow> nat \<Rightarrow> nat \<Rightarrow> nat \<Rightarrow> u8 list option" where
  "mem_read hp a off len =
     (case hp a of
        None \<Rightarrow> None
      | Some b \<Rightarrow> if off + len \<le> length b then Some (take len (drop off b)) else None)"

definition mem_write :: "(nat \<Rightarrow> u8 list option) \<Rightarrow> nat \<Rightarrow> nat \<Rightarrow> u8 list \<Rightarrow> (nat \<Rightarrow> u8 list option) option" where
  "mem_write hp a off bytes =
     (case hp a of
        None \<Rightarrow> None
      | Some b \<Rightarrow>
          if off + length bytes \<le> length b
          then Some (hp(a := Some (take off b @ bytes @ drop (off + length bytes) b)))
          else None)"

definition ramfs_grow :: "allocator \<Rightarrow> nat \<Rightarrow> nat \<Rightarrow> ramfs \<Rightarrow> (error_t \<times> ramfs) option" where
  "ramfs_grow m_alloc i need_size st =
     (let ent = ents st ! i in
      if entry_is_dir ent then Some (REND_ERR E_IN_PARAM, st)
      else if RAMFS_MAX_FILE_SIZE < need_size then Some (REND_ERR E_RENDEZVOS, st)
      else if need_size \<le> r_capacity ent then Some (REND_SUCCESS, st)
      else
        let new_cap = grow_file_cap need_size (if r_capacity ent \<noteq> 0 then r_capacity ent else 64) in
        case m_alloc new_cap of
          None \<Rightarrow> Some (REND_ERR E_RENDEZVOS, st)
        | Some (addr, bytes) \<Rightarrow>
            let hp0 = (heap st)(addr := Some bytes);
                copied = (case r_data ent of
                    None \<Rightarrow> Some hp0
                  | Some old \<Rightarrow>
                      if 0 < r_size ent
                      then Option.bind (mem_read hp0 old 0 (r_size ent)) (\<lambda>d. mem_write hp0 addr 0 d)
                      else Some hp0) in
            map_option (\<lambda>hp1.
              let hp2 = (case r_data ent of None \<Rightarrow> hp1 | Some old \<Rightarrow> hp1(old := None)) in
              (REND_SUCCESS,
               set_entry i (ent\<lparr>r_data := Some addr, r_capacity := new_cap, r_size := r_size ent\<rparr>)
                 (st\<lparr>heap := hp2\<rparr>))) copied)"

definition ramfs_init :: "ramfs \<Rightarrow> ramfs" where
  "ramfs_init st = st\<lparr>ents := []\<rparr>"

definition ramfs_mkdir ::
  "(string \<Rightarrow> string \<Rightarrow> nat \<Rightarrow> int) \<Rightarrow> bool \<Rightarrow> string \<Rightarrow> u32 \<Rightarrow> ramfs \<Rightarrow> error_t \<times> ramfs" where
  "ramfs_mkdir strcmp_s push_ok path mode st =
     (case ramfs_ensure_parent_dir strcmp_s path st of
        REND_ERR e \<Rightarrow> (REND_ERR e, st)
      | REND_SUCCESS \<Rightarrow>
          if ramfs_lookup strcmp_s path st \<noteq> None then (REND_ERR E_RENDEZVOS, st)
          else
            let dir_mode = (mode AND NOT RAMFS_S_IFMT) OR RAMFS_S_IFDIR in
            case ramfs_insert strcmp_s push_ok path dir_mode RAMFS_FLAG_DIR st of
              ((REND_ERR e, i), st1) \<Rightarrow> (REND_ERR e, st1)
            | ((REND_SUCCESS, i), st1) \<Rightarrow>
                (REND_SUCCESS, set_entry i ((ents st1 ! i)\<lparr>r_size := 0\<rparr>) st1))"

definition ramfs_create_file ::
  "(string \<Rightarrow> string \<Rightarrow> nat \<Rightarrow> int) \<Rightarrow> bool \<Rightarrow> string \<Rightarrow> u32 \<Rightarrow> ramfs \<Rightarrow> error_t \<times> ramfs" where
  "ramfs_create_file strcmp_s push_ok path mode st =
     (case ramfs_ensure_parent_dir strcmp_s path st of
        REND_ERR e \<Rightarrow> (REND_ERR e, st)
      | REND_SUCCESS \<Rightarrow>
          if ramfs_lookup strcmp_s path st \<noteq> None then (REND_ERR E_RENDEZVOS, st)
          else
            let file_mode = (mode AND NOT RAMFS_S_IFMT) OR RAMFS_S_IFREG in
            case ramfs_insert strcmp_s push_ok path file_mode 0 st of
              ((REND_ERR e, i), st1) \<Rightarrow> (REND_ERR e, st1)
            | ((REND_SUCCESS, i), st1) \<Rightarrow>
                (REND_SUCCESS, set_entry i ((ents st1 ! i)\<lparr>r_size := 0\<rparr>) st1))"

definition ramfs_unlink :: "(string \<Rightarrow> string \<Rightarrow> nat \<Rightarrow> int) \<Rightarrow> string \<Rightarrow> ramfs \<Rightarrow> error_t \<times> ramfs" where
  "ramfs_unlink strcmp_s path st =
     (case ramfs_find_mutable strcmp_s path st of
        None \<Rightarrow> (REND_ERR E_IN_PARAM, st)
      | Some i \<Rightarrow> (REND_SUCCESS, set_entry i entry_zero (ramfs_free_entry_data i st)))"

definition ramfs_rename :: "(string \<Rightarrow> string \<Rightarrow> nat \<Rightarrow> int) \<Rightarrow> string \<Rightarrow> string \<Rightarrow> ramfs \<Rightarrow> error_t \<times> ramfs" where
  "ramfs_rename strcmp_s oldpath newpath st =
     (let norm_old = vfs_path_normalize oldpath VFS_PATH_MAX;
          norm_new = vfs_path_normalize newpath VFS_PATH_MAX in
      case ramfs_find_mutable strcmp_s norm_old st of
        None \<Rightarrow> (REND_ERR E_IN_PARAM, st)
      | Some i \<Rightarrow>
          if ramfs_lookup strcmp_s norm_new st \<noteq> None then (REND_ERR E_RENDEZVOS, st)
          else case ramfs_ensure_parent_dir strcmp_s norm_new st of
            REND_ERR e \<Rightarrow> (REND_ERR e, st)
          | REND_SUCCESS \<Rightarrow>
              (REND_SUCCESS,
               set_entry i ((ents st ! i)\<lparr>r_path := vfs_path_normalize norm_new VFS_PATH_MAX\<rparr>) st))"

definition ramfs_link ::
  "(string \<Rightarrow> string \<Rightarrow> nat \<Rightarrow> int) \<Rightarrow> bool \<Rightarrow> string \<Rightarrow> string \<Rightarrow> ramfs \<Rightarrow> error_t \<times> ramfs" where
  "ramfs_link strcmp_s push_ok oldpath newpath st =
     (case ramfs_find_mutable strcmp_s oldpath st of
        None \<Rightarrow> (REND_ERR E_IN_PARAM, st)
      | Some s \<Rightarrow>
          if entry_is_dir (ents st ! s) then (REND_ERR E_IN_PARAM, st)
          else if ramfs_lookup strcmp_s newpath st \<noteq> None then (REND_ERR E_RENDEZVOS, st)
          else case ramfs_ensure_parent_dir strcmp_s newpath st of
            REND_ERR e \<Rightarrow> (REND_ERR e, st)
          | REND_SUCCESS \<Rightarrow>
              (case ramfs_insert strcmp_s push_ok newpath (r_mode (ents st ! s)) (r_flags (ents st ! s)) st of
                 ((REND_ERR e, d), st1) \<Rightarrow> (REND_ERR e, st1)
               | ((REND_SUCCESS, d), st1) \<Rightarrow>
                   let src = ents st1 ! s in
                   (REND_SUCCESS,
                    set_entry d ((ents st1 ! d)\<lparr>r_data := r_data src, r_size := r_size src,
                                   r_capacity := r_capacity src\<rparr>) st1)))"

text \<open>
  Reading and writing. A result \<open>Inl e\<close> is the negative RendezvOS code; \<open>Inr\<close> carries the byte
  count, for a read together with the bytes stored in the caller's buffer. Offsets and lengths are
  64-bit, so their sum wraps.
\<close>

definition ramfs_read :: "nat \<Rightarrow> nat \<Rightarrow> nat \<Rightarrow> ramfs \<Rightarrow> (rend_error + nat \<times> u8 list) option" where
  "ramfs_read i offset len st =
     (if length (ents st) \<le> i \<or> \<not> r_alive (ents st ! i) \<or> entry_is_dir (ents st ! i)
      then Some (Inl E_IN_PARAM)
      else
        let ent = ents st ! i in
        if r_size ent \<le> offset then Some (Inr (0, []))
        else
          let avail = r_size ent - offset;
              n = (if avail < len then avail else len) in
          case r_data ent of
            None \<Rightarrow> Some (Inr (n, []))
          | Some a \<Rightarrow>
              if 0 < n then map_option (\<lambda>d. Inr (n, d)) (mem_read (heap st) a offset n)
              else Some (Inr (n, [])))"

definition ramfs_write ::
  "allocator \<Rightarrow> nat \<Rightarrow> nat \<Rightarrow> u8 list \<Rightarrow> ramfs \<Rightarrow> ((rend_error + nat) \<times> ramfs) option" where
  "ramfs_write m_alloc i offset buf st =
     (if length (ents st) \<le> i \<or> \<not> r_alive (ents st ! i) \<or> entry_is_dir (ents st ! i)
      then Some (Inl E_IN_PARAM, st)
      else if length buf = 0 then Some (Inr 0, st)
      else
        let e = (offset + length buf) mod 2 ^ 64 in
        if e < offset \<or> RAMFS_MAX_FILE_SIZE < e then Some (Inl E_IN_PARAM, st)
        else case ramfs_grow m_alloc i e st of
          None \<Rightarrow> None
        | Some (REND_ERR err, st1) \<Rightarrow> Some (Inl err, st1)
        | Some (REND_SUCCESS, st1) \<Rightarrow>
            let ent = ents st1 ! i in
            (case r_data ent of
               None \<Rightarrow> None
             | Some a \<Rightarrow>
                 map_option (\<lambda>hp.
                   (Inr (length buf),
                    set_entry i (if r_size ent < e then ent\<lparr>r_size := e\<rparr> else ent) (st1\<lparr>heap := hp\<rparr>)))
                   (mem_write (heap st1) a offset buf)))"

definition ramfs_truncate :: "allocator \<Rightarrow> nat \<Rightarrow> nat \<Rightarrow> ramfs \<Rightarrow> (error_t \<times> ramfs) option" where
  "ramfs_truncate m_alloc i new_size st =
     (if length (ents st) \<le> i \<or> \<not> r_alive (ents st ! i) \<or> entry_is_dir (ents st ! i)
      then Some (REND_ERR E_IN_PARAM, st)
      else if RAMFS_MAX_FILE_SIZE < new_size then Some (REND_ERR E_IN_PARAM, st)
      else if new_size < r_size (ents st ! i)
        then Some (REND_SUCCESS, set_entry i ((ents st ! i)\<lparr>r_size := new_size\<rparr>) st)
      else case ramfs_grow m_alloc i new_size st of
        None \<Rightarrow> None
      | Some (REND_ERR err, st1) \<Rightarrow> Some (REND_ERR err, st1)
      | Some (REND_SUCCESS, st1) \<Rightarrow>
          let ent = ents st1 ! i;
              hp = (case r_data ent of
                      None \<Rightarrow> Some (heap st1)
                    | Some a \<Rightarrow>
                        if r_size ent < new_size
                        then mem_write (heap st1) a (r_size ent) (replicate (new_size - r_size ent) 0)
                        else Some (heap st1)) in
          map_option (\<lambda>h. (REND_SUCCESS, set_entry i (ent\<lparr>r_size := new_size\<rparr>) (st1\<lparr>heap := h\<rparr>))) hp)"

text \<open>Directory listing.\<close>

datatype d_type = VFS_DT_UNKNOWN | VFS_DT_DIR | VFS_DT_REG | VFS_DT_LNK

record vfs_dirent =
  d_name :: string
  dt :: d_type
  d_ino :: u64

fun collect_names ::
  "(string \<Rightarrow> string \<Rightarrow> nat \<Rightarrow> int) \<Rightarrow> (nat \<Rightarrow> bool) \<Rightarrow> string \<Rightarrow> ramfs_entry list \<Rightarrow> nat \<Rightarrow> string list
     \<Rightarrow> string list option" where
  "collect_names strcmp_s push_ok norm [] i names = Some names"
| "collect_names strcmp_s push_ok norm (e # es) i names =
     (if \<not> r_alive e then collect_names strcmp_s push_ok norm es (i + 1) names
      else case vfs_path_direct_child_name norm (r_path e) VFS_DIR_NAME_SLOT of
        None \<Rightarrow> collect_names strcmp_s push_ok norm es (i + 1) names
      | Some child \<Rightarrow>
          (case vfs_dir_names_insert strcmp_s (push_ok i) names child of
             (False, names1) \<Rightarrow> None
           | (True, names1) \<Rightarrow> collect_names strcmp_s push_ok norm es (i + 1) names1))"

definition ramfs_readdir ::
  "(string \<Rightarrow> string \<Rightarrow> nat \<Rightarrow> int) \<Rightarrow> bool \<Rightarrow> (nat \<Rightarrow> bool) \<Rightarrow> string \<Rightarrow> nat \<Rightarrow> ramfs
     \<Rightarrow> int \<times> vfs_dirent option" where
  "ramfs_readdir strcmp_s init_ok push_ok dirpath index st =
     (let norm = vfs_path_normalize dirpath VFS_PATH_MAX in
      if index = 0 then
        (0, Some \<lparr>d_name = ''.'', dt = VFS_DT_DIR, d_ino = vfs_path_to_ino norm\<rparr>)
      else if index = 1 then
        (0, Some \<lparr>d_name = ''..'', dt = VFS_DT_DIR,
               d_ino = (case vfs_path_parent norm VFS_PATH_MAX of
                          Some parent \<Rightarrow> vfs_path_to_ino parent
                        | None \<Rightarrow> vfs_path_to_ino ''/'')\<rparr>)
      else if \<not> init_ok then (- LINUX_ENOMEM, None)
      else case collect_names strcmp_s push_ok norm (ents st) 0 [] of
        None \<Rightarrow> (- LINUX_ENOMEM, None)
      | Some names \<Rightarrow>
          if length names \<le> index - 2 then (1, None)
          else
            let picked = names ! (index - 2) in
            case vfs_path_join norm picked VFS_PATH_MAX of
              None \<Rightarrow> (- LINUX_EIO, None)
            | Some child_path \<Rightarrow>
                (0, Some \<lparr>d_name = take (VFS_PATH_MAX - 1) picked,
                       dt = (case ramfs_lookup strcmp_s child_path st of
                               None \<Rightarrow> VFS_DT_UNKNOWN
                             | Some i \<Rightarrow> if entry_is_dir (ents st ! i) then VFS_DT_DIR else VFS_DT_REG),
                       d_ino = vfs_path_to_ino child_path\<rparr>))"

section \<open>The invariant\<close>

text \<open>
  A live entry either has no buffer, and then no size and capacity, or an allocated buffer of
  exactly its capacity that holds its size; directories have none; no two live entries share one.
  Paths of live entries are normalised and pairwise different.
\<close>

definition entry_ok :: "(nat \<Rightarrow> u8 list option) \<Rightarrow> ramfs_entry \<Rightarrow> bool" where
  "entry_ok hp e \<longleftrightarrow>
     (case r_data e of
        None \<Rightarrow> r_size e = 0 \<and> r_capacity e = 0
      | Some a \<Rightarrow> \<not> entry_is_dir e \<and> r_size e \<le> r_capacity e \<and> r_capacity e \<le> RAMFS_MAX_FILE_SIZE
          \<and> 0 < r_capacity e \<and> (\<exists>b. hp a = Some b \<and> length b = r_capacity e))
     \<and> vfs_path_normalize (r_path e) VFS_PATH_MAX = r_path e"

definition no_sharing :: "ramfs_entry list \<Rightarrow> bool" where
  "no_sharing es \<longleftrightarrow> (\<forall>i < length es. \<forall>j < length es. i \<noteq> j \<longrightarrow> r_alive (es ! i) \<longrightarrow> r_alive (es ! j) \<longrightarrow>
      r_path (es ! i) \<noteq> r_path (es ! j) \<and> (r_data (es ! i) = None \<or> r_data (es ! i) \<noteq> r_data (es ! j)))"

definition ramfs_inv :: "ramfs \<Rightarrow> bool" where
  "ramfs_inv st \<longleftrightarrow> (\<forall>e \<in> set (ents st). r_alive e \<longrightarrow> entry_ok (heap st) e) \<and> no_sharing (ents st)"

text \<open>The contents of a file.\<close>

definition content :: "ramfs \<Rightarrow> nat \<Rightarrow> u8 list" where
  "content st i =
     (case r_data (ents st ! i) of
        None \<Rightarrow> []
      | Some a \<Rightarrow> (case heap st a of None \<Rightarrow> [] | Some b \<Rightarrow> take (r_size (ents st ! i)) b))"

text \<open>What the operations rely on from the allocator: a block of the size asked for, at a fresh
  address.\<close>

definition alloc_ok :: "allocator \<Rightarrow> ramfs \<Rightarrow> bool" where
  "alloc_ok m_alloc st \<longleftrightarrow> (\<forall>n a b. m_alloc n = Some (a, b) \<longrightarrow> length b = n \<and> heap st a = None)"

section \<open>Updating one entry\<close>

lemma set_entry_simps [simp]:
  "ents (set_entry i e st) = (ents st)[i := e]" "heap (set_entry i e st) = heap st"
  "length (ents (set_entry i e st)) = length (ents st)"
  by (simp_all add: set_entry_def)

lemma inv_entry: "ramfs_inv st \<Longrightarrow> i < length (ents st) \<Longrightarrow> r_alive (ents st ! i) \<Longrightarrow> entry_ok (heap st) (ents st ! i)"
  by (simp add: ramfs_inv_def)

lemma inv_sharing:
  "ramfs_inv st \<Longrightarrow> i < length (ents st) \<Longrightarrow> j < length (ents st) \<Longrightarrow> i \<noteq> j \<Longrightarrow>
   r_alive (ents st ! i) \<Longrightarrow> r_alive (ents st ! j) \<Longrightarrow>
   r_path (ents st ! i) \<noteq> r_path (ents st ! j) \<and>
   (r_data (ents st ! i) = None \<or> r_data (ents st ! i) \<noteq> r_data (ents st ! j))"
  by (simp add: ramfs_inv_def no_sharing_def)

text \<open>The frame condition: the buffers of all other live entries are as before.\<close>

definition others_kept :: "ramfs \<Rightarrow> nat \<Rightarrow> ramfs_entry \<Rightarrow> (nat \<Rightarrow> u8 list option) \<Rightarrow> bool" where
  "others_kept st i e hp \<longleftrightarrow> (\<forall>j < length (ents st). j \<noteq> i \<longrightarrow> r_alive (ents st ! j) \<longrightarrow>
     (r_alive e \<longrightarrow> r_path e \<noteq> r_path (ents st ! j)) \<and>
     (\<forall>b. r_data (ents st ! j) = Some b \<longrightarrow> hp b = heap st b \<and> (r_alive e \<longrightarrow> r_data e \<noteq> Some b)))"

lemma entry_ok_heap: "entry_ok hp e \<Longrightarrow> (\<And>b. r_data e = Some b \<Longrightarrow> hp' b = hp b) \<Longrightarrow> entry_ok hp' e"
  by (auto simp: entry_ok_def split: option.splits)

lemma inv_updateI:
  assumes inv: "ramfs_inv st" and i: "i < length (ents st)" and e: "r_alive e \<Longrightarrow> entry_ok hp e"
    and oth: "others_kept st i e hp"
    and st': "ents st' = (ents st)[i := e]" "heap st' = hp"
  shows "ramfs_inv st'"
proof -
  have "entry_ok hp (ents st' ! j)" if "j < length (ents st)" "r_alive (ents st' ! j)" for j
  proof (cases "j = i")
    case False
    then show ?thesis
      using that inv_entry [OF inv that(1)] oth st'
      by (auto simp: others_kept_def intro: entry_ok_heap)
  qed (use that e st' in simp)
  then have "\<forall>x \<in> set (ents st'). r_alive x \<longrightarrow> entry_ok (heap st') x"
    using st' by (auto simp: in_set_conv_nth)
  moreover have "no_sharing (ents st')"
    unfolding no_sharing_def
  proof (intro allI impI)
    fix j k assume h: "j < length (ents st')" "k < length (ents st')" "j \<noteq> k"
        "r_alive (ents st' ! j)" "r_alive (ents st' ! k)"
    show "r_path (ents st' ! j) \<noteq> r_path (ents st' ! k)
        \<and> (r_data (ents st' ! j) = None \<or> r_data (ents st' ! j) \<noteq> r_data (ents st' ! k))"
      using h oth st' inv_sharing [OF inv, of j k]
      by (cases "j = i"; cases "k = i") (auto simp: others_kept_def)
  qed
  ultimately show ?thesis by (simp add: ramfs_inv_def)
qed

lemma content_other:
  assumes "others_kept st i e hp" "ents st' = (ents st)[i := e]" "heap st' = hp"
    and "j < length (ents st)" "j \<noteq> i" "r_alive (ents st ! j)"
  shows "content st' j = content st j \<and> ents st' ! j = ents st ! j"
  using assms by (auto simp: content_def others_kept_def split: option.splits)

text \<open>An entry that keeps its path and buffer address, while only its own buffer changes.\<close>

lemma others_keptI:
  assumes inv: "ramfs_inv st" and i: "i < length (ents st)" "r_alive (ents st ! i)"
    and e: "r_path e = r_path (ents st ! i)"
    and hp: "\<And>b. hp b \<noteq> heap st b \<Longrightarrow> r_data (ents st ! i) = Some b \<or> heap st b = None"
    and d: "\<And>b. r_data e = Some b \<Longrightarrow> r_data (ents st ! i) = Some b \<or> heap st b = None"
  shows "others_kept st i e hp"
  unfolding others_kept_def
proof (intro allI impI conjI)
  fix j assume j: "j < length (ents st)" "j \<noteq> i" "r_alive (ents st ! j)"
  note sh = inv_sharing [OF inv i(1) j(1) _ i(2) j(3)]
  show "r_path e \<noteq> r_path (ents st ! j)" using sh j(2) e by auto
  fix b assume b: "r_data (ents st ! j) = Some b"
  have alloc: "heap st b \<noteq> None" using inv_entry [OF inv j(1,3)] b by (auto simp: entry_ok_def)
  show "hp b = heap st b"
  proof (rule ccontr)
    assume "hp b \<noteq> heap st b"
    from hp [OF this] show False using alloc sh j(2) b by auto
  qed
  show "r_data e \<noteq> Some b" using d [of b] alloc sh j(2) b by auto
qed

section \<open>Growing\<close>

lemma grow_file_cap_bounds:
  "0 < c \<Longrightarrow> c \<le> RAMFS_MAX_FILE_SIZE \<Longrightarrow> need \<le> RAMFS_MAX_FILE_SIZE \<Longrightarrow>
   need \<le> grow_file_cap need c \<and> grow_file_cap need c \<le> RAMFS_MAX_FILE_SIZE \<and> c \<le> grow_file_cap need c"
proof (induction need c rule: grow_file_cap.induct)
  case (1 need c)
  show ?case
  proof (cases "c < need")
    case True
    let ?d = "if RAMFS_MAX_FILE_SIZE < c * 2 then RAMFS_MAX_FILE_SIZE else c * 2"
    have "grow_file_cap need c = grow_file_cap need ?d"
      using True 1(2,4) by (subst grow_file_cap.simps) simp
    then show ?thesis using 1(1) [OF _ True] 1(2-4) True by auto
  next
    case False
    then show ?thesis using 1(2-4) by (subst (1 2 3) grow_file_cap.simps) simp
  qed
qed

text \<open>What an operation on the buffer of entry \<open>i\<close> keeps.\<close>

definition same_meta :: "nat \<Rightarrow> ramfs \<Rightarrow> ramfs \<Rightarrow> bool" where
  "same_meta i st st' \<longleftrightarrow> length (ents st') = length (ents st)
     \<and> (\<forall>j < length (ents st). j \<noteq> i \<longrightarrow> ents st' ! j = ents st ! j
         \<and> (r_alive (ents st ! j) \<longrightarrow> content st' j = content st j))
     \<and> r_path (ents st' ! i) = r_path (ents st ! i) \<and> r_mode (ents st' ! i) = r_mode (ents st ! i)
     \<and> r_flags (ents st' ! i) = r_flags (ents st ! i) \<and> r_alive (ents st' ! i) = r_alive (ents st ! i)"

lemma same_meta_refl [simp]: "same_meta i st st"
  by (simp add: same_meta_def)

lemma same_meta_trans: "same_meta i st st1 \<Longrightarrow> same_meta i st1 st2 \<Longrightarrow> same_meta i st st2"
  by (simp add: same_meta_def)

lemma same_metaI:
  assumes "others_kept st i e hp" "ents st' = (ents st)[i := e]" "heap st' = hp" "i < length (ents st)"
    and "r_path e = r_path (ents st ! i)" "r_mode e = r_mode (ents st ! i)"
    and "r_flags e = r_flags (ents st ! i)" "r_alive e = r_alive (ents st ! i)"
  shows "same_meta i st st'"
  using assms content_other [OF assms(1-3)] by (auto simp: same_meta_def)

lemma grow_effect:
  assumes inv: "ramfs_inv st" and i: "i < length (ents st)" "r_alive (ents st ! i)"
    and al: "alloc_ok m_alloc st"
  shows "\<exists>err st1. ramfs_grow m_alloc i need st = Some (err, st1) \<and> ramfs_inv st1 \<and> same_meta i st st1
    \<and> content st1 i = content st i \<and> r_size (ents st1 ! i) = r_size (ents st ! i)
    \<and> (err \<noteq> REND_SUCCESS \<longrightarrow> st1 = st)
    \<and> (err = REND_SUCCESS \<longrightarrow> need \<le> r_capacity (ents st1 ! i) \<and> \<not> entry_is_dir (ents st ! i)
         \<and> (0 < need \<longrightarrow> r_data (ents st1 ! i) \<noteq> None))"
proof -
  let ?e = "ents st ! i"
  note ok = inv_entry [OF inv i]
  let ?c0 = "if r_capacity ?e \<noteq> 0 then r_capacity ?e else 64"
  let ?nc = "grow_file_cap need ?c0"
  consider (dir) "entry_is_dir ?e" | (big) "\<not> entry_is_dir ?e" "RAMFS_MAX_FILE_SIZE < need"
    | (fits) "\<not> entry_is_dir ?e" "need \<le> RAMFS_MAX_FILE_SIZE" "need \<le> r_capacity ?e"
    | (nomem) "\<not> entry_is_dir ?e" "need \<le> RAMFS_MAX_FILE_SIZE" "r_capacity ?e < need" "m_alloc ?nc = None"
    | (new) a b where "\<not> entry_is_dir ?e" "need \<le> RAMFS_MAX_FILE_SIZE" "r_capacity ?e < need" "m_alloc ?nc = Some (a, b)"
    by (metis not_less option.exhaust surj_pair)
  then show ?thesis
  proof cases
    case dir
    then show ?thesis using inv by (simp add: ramfs_grow_def Let_def)
  next
    case big
    then show ?thesis using inv by (simp add: ramfs_grow_def Let_def)
  next
    case fits
    then have "0 < need \<longrightarrow> r_data ?e \<noteq> None" using ok by (auto simp: entry_ok_def split: option.splits)
    then show ?thesis using inv fits by (simp add: ramfs_grow_def Let_def)
  next
    case nomem
    then show ?thesis using inv by (simp add: ramfs_grow_def Let_def)
  next
    case (new a b)
    have cap: "?c0 \<le> RAMFS_MAX_FILE_SIZE" "r_capacity ?e \<le> ?nc"
      using ok grow_file_cap_bounds [of ?c0 need] new by (auto simp: entry_ok_def split: option.splits if_splits)
    have nc: "need \<le> ?nc" "?nc \<le> RAMFS_MAX_FILE_SIZE" using grow_file_cap_bounds [of ?c0 need] cap new by auto
    have fresh: "length b = ?nc" "heap st a = None" using al new(4) by (auto simp: alloc_ok_def)
    have fits_old: "r_size ?e \<le> ?nc" using ok cap(2) by (auto simp: entry_ok_def split: option.splits)
    define buf where "buf = (case r_data ?e of None \<Rightarrow> b | Some old \<Rightarrow>
        if 0 < r_size ?e then content st i @ drop (r_size ?e) b else b)"
    define hp where "hp = (case r_data ?e of None \<Rightarrow> heap st | Some old \<Rightarrow> (heap st)(old := None))(a := Some buf)"
    define e' where "e' = ?e\<lparr>r_data := Some a, r_capacity := ?nc, r_size := r_size ?e\<rparr>"
    have na: "r_data ?e \<noteq> Some a" using ok fresh(2) by (auto simp: entry_ok_def)
    have clen: "length (content st i) = r_size ?e"
      using ok by (auto simp: entry_ok_def content_def split: option.splits)
    have run: "ramfs_grow m_alloc i need st = Some (REND_SUCCESS, set_entry i e' (st\<lparr>heap := hp\<rparr>))"
      using new na ok fits_old fresh
      by (auto simp: ramfs_grow_def Let_def mem_read_def mem_write_def entry_ok_def content_def buf_def
          hp_def e'_def fun_upd_twist split: option.splits)
    have len: "length buf = ?nc" "take (r_size ?e) buf = content st i"
      using fresh(1) fits_old clen ok
      by (auto simp: buf_def entry_ok_def content_def split: option.splits)
    have oth: "others_kept st i e' hp"
      by (rule others_keptI [OF inv i]) (use fresh na in \<open>auto simp: e'_def hp_def split: option.splits if_splits\<close>)
    have eok: "entry_ok hp e'"
      using ok len nc fits_old new by (auto simp: e'_def hp_def entry_ok_def entry_is_dir_def)
    let ?st1 = "set_entry i e' (st\<lparr>heap := hp\<rparr>)"
    have "ramfs_inv ?st1" by (rule inv_updateI [OF inv i(1) _ oth]) (simp_all add: eok)
    moreover have "same_meta i st ?st1"
      by (rule same_metaI [OF oth]) (simp_all add: i e'_def)
    moreover have "content ?st1 i = content st i"
    proof -
      have "r_data e' = Some a" "r_size e' = r_size ?e" "hp a = Some buf" by (simp_all add: e'_def hp_def)
      then show ?thesis using len(2) i by (simp add: content_def [of ?st1])
    qed
    ultimately show ?thesis using run nc i new(1) by (simp add: e'_def)
  qed
qed

section \<open>Writing, truncating, reading\<close>

lemma mem_write_ok:
  assumes "hp a = Some b" "off + length d \<le> length b"
  shows "mem_write hp a off d = Some (hp(a := Some (take off b @ d @ drop (off + length d) b)))"
  using assms by (simp add: mem_write_def)

text \<open>Replacing the buffer of an entry, and its size, keeps the invariant.\<close>

lemma rewrite_buffer:
  assumes inv: "ramfs_inv st" and i: "i < length (ents st)" "r_alive (ents st ! i)"
    and a: "r_data (ents st ! i) = Some a" and b: "length b = r_capacity (ents st ! i)"
    and n: "n \<le> r_capacity (ents st ! i)"
    and st': "st' = set_entry i ((ents st ! i)\<lparr>r_size := n\<rparr>) (st\<lparr>heap := (heap st)(a := Some b)\<rparr>)"
  shows "ramfs_inv st' \<and> same_meta i st st' \<and> content st' i = take n b"
proof -
  let ?e = "(ents st ! i)\<lparr>r_size := n\<rparr>" and ?hp = "(heap st)(a := Some b)"
  have oth: "others_kept st i ?e ?hp"
    by (rule others_keptI [OF inv i]) (use a in \<open>auto split: if_splits\<close>)
  have "entry_ok ?hp ?e" using inv_entry [OF inv i] a b n by (auto simp: entry_ok_def entry_is_dir_def)
  then have "ramfs_inv st'" by (intro inv_updateI [OF inv i(1) _ oth]) (simp_all add: st')
  moreover have "same_meta i st st'" by (rule same_metaI [OF oth]) (simp_all add: st' i)
  moreover have "content st' i = take n b" using i a by (simp add: st' content_def)
  ultimately show ?thesis by blast
qed

lemma heap_of_entry:
  assumes "ramfs_inv st" "i < length (ents st)" "r_alive (ents st ! i)" "r_data (ents st ! i) = Some a"
  obtains b where "heap st a = Some b" "length b = r_capacity (ents st ! i)"
    "content st i = take (r_size (ents st ! i)) b" "length (content st i) = r_size (ents st ! i)"
  using inv_entry [OF assms(1-3)] assms(4) by (auto simp: entry_ok_def content_def)

lemma length_content:
  assumes "ramfs_inv st" "i < length (ents st)" "r_alive (ents st ! i)"
  shows "length (content st i) = r_size (ents st ! i)"
proof (cases "r_data (ents st ! i)")
  case None
  then show ?thesis using inv_entry [OF assms] by (simp add: entry_ok_def content_def)
qed (metis heap_of_entry [OF assms])

lemma write_content:
  assumes c: "c = take n b" "length c = n" and fit: "offset + length buf \<le> length b" "n \<le> length b"
    and gap: "gap = take (offset - n) (drop n b)"
  shows "length gap = offset - length c \<and>
    take (max n (offset + length buf)) (take offset b @ buf @ drop (offset + length buf) b) =
      take offset c @ gap @ buf @ drop (offset + length buf) c"
proof (cases "offset \<le> n")
  case True
  then have "gap = []" "take offset c = take offset b" using gap c by simp_all
  moreover have "take (max n (offset + length buf)) (take offset b @ buf @ drop (offset + length buf) b)
      = take offset b @ buf @ take (n - (offset + length buf)) (drop (offset + length buf) b)"
    using fit by (auto simp: max_def)
  moreover have "take (n - (offset + length buf)) (drop (offset + length buf) b) = drop (offset + length buf) c"
    by (simp add: c drop_take)
  ultimately show ?thesis using True c by simp
next
  case False
  then have "take offset b = c @ gap"
    using c gap by (metis add_diff_inverse_nat less_or_eq_imp_le not_less take_add)
  then show ?thesis using False c fit gap by (simp add: max_def)
qed

lemma write_effect:
  assumes inv: "ramfs_inv st" and i: "i < length (ents st)" "r_alive (ents st ! i)"
    and al: "alloc_ok m_alloc st" and len: "length buf < 2 ^ 64"
  shows "\<exists>r st'. ramfs_write m_alloc i offset buf st = Some (r, st') \<and> ramfs_inv st' \<and> same_meta i st st' \<and>
    (case r of Inl e \<Rightarrow> st' = st
     | Inr n \<Rightarrow> n = length buf \<and> (buf = [] \<longrightarrow> st' = st)
         \<and> (buf \<noteq> [] \<longrightarrow> offset + length buf \<le> RAMFS_MAX_FILE_SIZE
            \<and> (\<exists>gap. length gap = offset - length (content st i)
                \<and> content st' i = take offset (content st i) @ gap @ buf
                     @ drop (offset + length buf) (content st i))))"
proof -
  let ?e = "(offset + length buf) mod 2 ^ 64"
  consider (dir) "entry_is_dir (ents st ! i)" | (empty) "\<not> entry_is_dir (ents st ! i)" "buf = []"
    | (bad) "\<not> entry_is_dir (ents st ! i)" "buf \<noteq> []" "?e < offset \<or> RAMFS_MAX_FILE_SIZE < ?e"
    | (go) "\<not> entry_is_dir (ents st ! i)" "buf \<noteq> []" "offset \<le> ?e" "?e \<le> RAMFS_MAX_FILE_SIZE"
    by linarith
  then show ?thesis
  proof cases
    case dir
    then show ?thesis using i inv by (simp add: ramfs_write_def)
  next
    case empty
    then show ?thesis using i inv by (simp add: ramfs_write_def)
  next
    case bad
    then show ?thesis using i inv by (auto simp: ramfs_write_def Let_def)
  next
    case go
    have e: "?e = offset + length buf" using len go(3) by (rule no_wrap_add)
    obtain err st1 where g: "ramfs_grow m_alloc i ?e st = Some (err, st1)" "ramfs_inv st1" "same_meta i st st1"
      "content st1 i = content st i" "r_size (ents st1 ! i) = r_size (ents st ! i)"
      "err \<noteq> REND_SUCCESS \<longrightarrow> st1 = st"
      "err = REND_SUCCESS \<longrightarrow> ?e \<le> r_capacity (ents st1 ! i) \<and> \<not> entry_is_dir (ents st ! i)
         \<and> (0 < ?e \<longrightarrow> r_data (ents st1 ! i) \<noteq> None)"
      using grow_effect [OF inv i al, of ?e] by (elim exE conjE) (rule that)
    show ?thesis
    proof (cases err)
      case (REND_ERR r)
      then show ?thesis using go g i inv by (simp add: ramfs_write_def Let_def)
    next
      case REND_SUCCESS
      have i1: "i < length (ents st1)" "r_alive (ents st1 ! i)" using g(3) i by (simp_all add: same_meta_def)
      have cap: "?e \<le> r_capacity (ents st1 ! i)" using g(7) REND_SUCCESS by blast
      have "0 < ?e" using e go(2) by simp
      then obtain a where a: "r_data (ents st1 ! i) = Some a" using g(7) REND_SUCCESS by blast
      obtain b where b: "heap st1 a = Some b" "length b = r_capacity (ents st1 ! i)"
          "content st1 i = take (r_size (ents st1 ! i)) b" "length (content st1 i) = r_size (ents st1 ! i)"
        by (rule heap_of_entry [OF g(2) i1 a])
      let ?b = "take offset b @ buf @ drop (offset + length buf) b"
      let ?n = "max (r_size (ents st1 ! i)) ?e"
      let ?st' = "set_entry i ((ents st1 ! i)\<lparr>r_size := ?n\<rparr>) (st1\<lparr>heap := (heap st1)(a := Some ?b)\<rparr>)"
      have mw: "mem_write (heap st1) a offset buf = Some ((heap st1)(a := Some ?b))"
        by (rule mem_write_ok) (use b cap e in auto)
      have upd: "(if r_size (ents st1 ! i) < ?e then (ents st1 ! i)\<lparr>r_size := ?e\<rparr> else ents st1 ! i)
          = (ents st1 ! i)\<lparr>r_size := ?n\<rparr>"
        by (simp add: max_def)
      have run: "ramfs_write m_alloc i offset buf st = Some (Inr (length buf), ?st')"
        using go g(1) i a mw upd REND_SUCCESS by (simp add: ramfs_write_def Let_def)
      have "r_size (ents st1 ! i) \<le> r_capacity (ents st1 ! i)"
        using inv_entry [OF g(2) i1] a by (simp add: entry_ok_def)
      then have rb: "ramfs_inv ?st'" "same_meta i st1 ?st'" "content ?st' i = take ?n ?b"
        using rewrite_buffer [OF g(2) i1 a, of ?b ?n ?st'] b cap e by auto
      have "\<exists>gap. length gap = offset - length (content st i)
          \<and> content ?st' i = take offset (content st i) @ gap @ buf @ drop (offset + length buf) (content st i)"
        unfolding rb(3) unfolding g(4) [symmetric] e
        by (rule exI [of _ "take (offset - r_size (ents st1 ! i)) (drop (r_size (ents st1 ! i)) b)"])
          (rule write_content, use b cap e in auto)
      then show ?thesis
        using run rb same_meta_trans [OF g(3) rb(2)] go e by auto
    qed
  qed
qed

lemma truncate_effect:
  assumes inv: "ramfs_inv st" and i: "i < length (ents st)" "r_alive (ents st ! i)"
    and al: "alloc_ok m_alloc st"
  shows "\<exists>r st'. ramfs_truncate m_alloc i n st = Some (r, st') \<and> ramfs_inv st' \<and> same_meta i st st' \<and>
    (case r of REND_ERR e \<Rightarrow> st' = st
     | REND_SUCCESS \<Rightarrow> content st' i = take n (content st i) @ replicate (n - length (content st i)) 0)"
proof -
  let ?e = "ents st ! i"
  note clen = length_content [OF inv i]
  consider (bad) "entry_is_dir ?e \<or> RAMFS_MAX_FILE_SIZE < n"
    | (shrink) "\<not> entry_is_dir ?e" "n \<le> RAMFS_MAX_FILE_SIZE" "n < r_size ?e"
    | (go) "\<not> entry_is_dir ?e" "n \<le> RAMFS_MAX_FILE_SIZE" "r_size ?e \<le> n"
    by linarith
  then show ?thesis
  proof cases
    case bad
    then show ?thesis using i inv by (auto simp: ramfs_truncate_def)
  next
    case shrink
    then obtain a where a: "r_data ?e = Some a"
      using inv_entry [OF inv i] by (auto simp: entry_ok_def split: option.splits)
    obtain b where b: "heap st a = Some b" "length b = r_capacity ?e" "content st i = take (r_size ?e) b"
      by (rule heap_of_entry [OF inv i a])
    let ?st' = "set_entry i (?e\<lparr>r_size := n\<rparr>) st"
    have same: "(heap st)(a := Some b) = heap st" using b(1) by auto
    have "n \<le> r_capacity ?e" using shrink inv_entry [OF inv i] a by (simp add: entry_ok_def)
    then have "ramfs_inv ?st' \<and> same_meta i st ?st' \<and> content ?st' i = take n b"
      by (intro rewrite_buffer [OF inv i a b(2)]) (simp_all add: same)
    then show ?thesis using shrink i clen b(3) by (simp add: ramfs_truncate_def)
  next
    case go
    obtain err st1 where g: "ramfs_grow m_alloc i n st = Some (err, st1)" "ramfs_inv st1" "same_meta i st st1"
      "content st1 i = content st i" "r_size (ents st1 ! i) = r_size ?e" "err \<noteq> REND_SUCCESS \<longrightarrow> st1 = st"
      "err = REND_SUCCESS \<longrightarrow> n \<le> r_capacity (ents st1 ! i) \<and> \<not> entry_is_dir ?e
         \<and> (0 < n \<longrightarrow> r_data (ents st1 ! i) \<noteq> None)"
      using grow_effect [OF inv i al, of n] by (elim exE conjE) (rule that)
    have i1: "i < length (ents st1)" "r_alive (ents st1 ! i)" using g(3) i by (simp_all add: same_meta_def)
    show ?thesis
    proof (cases err)
      case (REND_ERR r)
      then show ?thesis using go g i inv by (simp add: ramfs_truncate_def)
    next
      case REND_SUCCESS
      have cap: "n \<le> r_capacity (ents st1 ! i)" "0 < n \<longrightarrow> r_data (ents st1 ! i) \<noteq> None"
        using g(7) REND_SUCCESS by blast+
      show ?thesis
      proof (cases "r_data (ents st1 ! i)")
        case None
        then have "n = 0" "r_size ?e = 0" using cap go by auto
        then have "(ents st1 ! i)\<lparr>r_size := n\<rparr> = ents st1 ! i"
          using g(5) by (auto intro: ramfs_entry.equality)
        then have "set_entry i ((ents st1 ! i)\<lparr>r_size := n\<rparr>) st1 = st1"
          by (simp add: set_entry_def)
        then have "ramfs_truncate m_alloc i n st = Some (REND_SUCCESS, st1)"
          using go g(1) i REND_SUCCESS None by (simp add: ramfs_truncate_def Let_def)
        then show ?thesis using g \<open>n = 0\<close> \<open>r_size ?e = 0\<close> clen by simp
      next
        case (Some a)
        obtain b where b: "heap st1 a = Some b" "length b = r_capacity (ents st1 ! i)"
            "content st1 i = take (r_size (ents st1 ! i)) b"
          by (rule heap_of_entry [OF g(2) i1 Some])
        let ?s = "r_size ?e"
        let ?b = "take ?s b @ replicate (n - ?s) 0 @ drop n b"
        have mw: "(if ?s < n then mem_write (heap st1) a ?s (replicate (n - ?s) 0) else Some (heap st1))
            = Some ((heap st1)(a := Some ?b))"
          using b cap go by (auto simp: mem_write_def fun_upd_idem)
        let ?st' = "set_entry i ((ents st1 ! i)\<lparr>r_size := n\<rparr>) (st1\<lparr>heap := (heap st1)(a := Some ?b)\<rparr>)"
        have run: "ramfs_truncate m_alloc i n st = Some (REND_SUCCESS, ?st')"
          using go g(1,5) i REND_SUCCESS Some mw
          by (cases "?s < n") (simp_all add: ramfs_truncate_def Let_def fun_upd_idem [of "heap st1", OF b(1)])
        have "ramfs_inv ?st' \<and> same_meta i st1 ?st' \<and> content ?st' i = take n ?b"
          using b cap go by (intro rewrite_buffer [OF g(2) i1 Some]) auto
        moreover have "take n ?b = take n (content st i) @ replicate (n - length (content st i)) 0"
          using b g(4,5) clen go cap by simp
        ultimately show ?thesis using run same_meta_trans [OF g(3)] by auto
      qed
    qed
  qed
qed

lemma read_effect:
  assumes inv: "ramfs_inv st" and i: "i < length (ents st)" "r_alive (ents st ! i)" "\<not> entry_is_dir (ents st ! i)"
  shows "ramfs_read i offset len st =
    Some (Inr (length (take len (drop offset (content st i))), take len (drop offset (content st i))))"
proof (cases "r_data (ents st ! i)")
  case None
  then have "r_size (ents st ! i) = 0" "content st i = []"
    using inv_entry [OF inv i(1,2)] by (simp_all add: entry_ok_def content_def)
  then show ?thesis using i None by (simp add: ramfs_read_def Let_def)
next
  case (Some a)
  obtain b where b: "heap st a = Some b" "length b = r_capacity (ents st ! i)"
      "content st i = take (r_size (ents st ! i)) b" "length (content st i) = r_size (ents st ! i)"
    by (rule heap_of_entry [OF inv i(1,2) Some])
  have cap: "r_size (ents st ! i) \<le> length b" using b(3,4) by simp
  show ?thesis
  proof (cases "r_size (ents st ! i) \<le> offset")
    case True
    then show ?thesis using i b by (simp add: ramfs_read_def)
  next
    case False
    then show ?thesis using i Some b cap
      by (auto simp: ramfs_read_def Let_def mem_read_def drop_take min_def)
  qed
qed

section \<open>The set of paths\<close>

definition view :: "ramfs \<Rightarrow> nat \<Rightarrow> u32 \<times> u8 \<times> u8 list" where
  "view st i = (r_mode (ents st ! i), r_flags (ents st ! i), content st i)"

text \<open>The file system as a map from normalised paths to mode, flags and contents.\<close>

definition file_at :: "ramfs \<Rightarrow> string \<Rightarrow> (u32 \<times> u8 \<times> u8 list) option" where
  "file_at st p =
     map_option (view st) (find (\<lambda>i. r_alive (ents st ! i) \<and> r_path (ents st ! i) = p) [0..<length (ents st)])"

lemma file_at_iff:
  assumes "ramfs_inv st"
  shows "file_at st p = Some x \<longleftrightarrow>
    (\<exists>i < length (ents st). r_alive (ents st ! i) \<and> r_path (ents st ! i) = p \<and> x = view st i)"
proof
  assume "file_at st p = Some x"
  then show "\<exists>i < length (ents st). r_alive (ents st ! i) \<and> r_path (ents st ! i) = p \<and> x = view st i"
    by (auto simp: file_at_def find_Some_iff)
next
  assume "\<exists>i < length (ents st). r_alive (ents st ! i) \<and> r_path (ents st ! i) = p \<and> x = view st i"
  then obtain i where i: "i < length (ents st)" "r_alive (ents st ! i)" "r_path (ents st ! i) = p" "x = view st i"
    by blast
  let ?P = "\<lambda>i. r_alive (ents st ! i) \<and> r_path (ents st ! i) = p"
  obtain k where k: "find ?P [0..<length (ents st)] = Some k"
    using i by (cases "find ?P [0..<length (ents st)]") (auto simp: find_None_iff)
  then have "k < length (ents st)" "?P k" by (auto simp: find_Some_iff)
  then have "k = i" using i inv_sharing [OF assms, of k i] by auto
  then show "file_at st p = Some x" using k i by (simp add: file_at_def)
qed

lemma file_at_None:
  assumes "ramfs_inv st"
  shows "file_at st p = None \<longleftrightarrow> (\<forall>i < length (ents st). r_alive (ents st ! i) \<longrightarrow> r_path (ents st ! i) \<noteq> p)"
  using file_at_iff [OF assms, of p] by (metis not_None_eq)

lemma file_at_update:
  assumes inv: "ramfs_inv st" and inv': "ramfs_inv st'" and i: "i < length (ents st)"
    and oth: "others_kept st i e hp" and st': "ents st' = (ents st)[i := e]" "heap st' = hp"
  shows "file_at st' p =
    (if r_alive e \<and> p = r_path e then Some (view st' i)
     else if r_alive (ents st ! i) \<and> p = r_path (ents st ! i) then None else file_at st p)"
proof -
  have len: "length (ents st') = length (ents st)" and ei: "ents st' ! i = e" using st' i by simp_all
  have vj: "view st' j = view st j \<and> ents st' ! j = ents st ! j"
    if "j < length (ents st)" "j \<noteq> i" "r_alive (ents st ! j)" for j
    using content_other [OF oth st' that] by (simp add: view_def)
  have ej: "ents st' ! j = ents st ! j" if "j \<noteq> i" for j using st' that by simp
  show ?thesis
  proof (cases "r_alive e \<and> p = r_path e")
    case True
    then have "file_at st' p = Some (view st' i)" using i ei len by (auto simp: file_at_iff [OF inv'])
    then show ?thesis using True by simp
  next
    case new: False
    show ?thesis
    proof (cases "r_alive (ents st ! i) \<and> p = r_path (ents st ! i)")
      case True
      have "file_at st' p = None"
        unfolding file_at_None [OF inv'] len
      proof (intro allI impI)
        fix j assume "j < length (ents st)" "r_alive (ents st' ! j)"
        then show "r_path (ents st' ! j) \<noteq> p"
          using new True ei ej [of j] inv_sharing [OF inv, of j i] i by (cases "j = i") auto
      qed
      then show ?thesis using True new by simp
    next
      case old: False
      have "file_at st' p = Some x \<longleftrightarrow> file_at st p = Some x" for x
        unfolding file_at_iff [OF inv'] file_at_iff [OF inv] len
        using new old ei ej vj by metis
      then have "file_at st' p = file_at st p" by (metis option.exhaust)
      then show ?thesis using new old by (simp only: if_False)
    qed
  qed
qed

text \<open>Looking a path up.\<close>

context strcmp_api
begin

lemma path_equal_iff: "vfs_path_equal scmp a b \<longleftrightarrow> vfs_path_normalize a 256 = vfs_path_normalize b 256"
  using length_normalize [of 256 a] length_normalize [of 256 b]
  by (simp add: vfs_path_equal_def scmp_zero)

lemma find_entry_Some:
  "find_entry scmp p es n = Some k \<Longrightarrow> n \<le> k \<and> k - n < length es \<and> r_alive (es ! (k - n)) \<and>
     vfs_path_normalize (r_path (es ! (k - n))) 256 = vfs_path_normalize p 256"
proof (induction es arbitrary: n)
  case (Cons e es)
  show ?case
  proof (cases "r_alive e \<and> vfs_path_equal scmp (r_path e) p")
    case True
    then show ?thesis using Cons.prems by (simp add: path_equal_iff)
  next
    case False
    then have "find_entry scmp p es (n + 1) = Some k" using Cons.prems by auto
    from Cons.IH [OF this] show ?thesis by (auto simp: nth_Cons' Suc_diff_le)
  qed
qed simp

lemma find_entry_None:
  "find_entry scmp p es n = None \<longleftrightarrow>
   (\<forall>e \<in> set es. r_alive e \<longrightarrow> vfs_path_normalize (r_path e) 256 \<noteq> vfs_path_normalize p 256)"
  by (induction es arbitrary: n) (auto simp: path_equal_iff)

lemma find_mutable_Some:
  assumes "ramfs_inv st" "ramfs_find_mutable scmp p st = Some i"
  shows "i < length (ents st)" "r_alive (ents st ! i)" "r_path (ents st ! i) = vfs_path_normalize p 256"
proof -
  show i: "i < length (ents st)" "r_alive (ents st ! i)"
    using find_entry_Some [of p "ents st" 0 i] assms(2) by (simp_all add: ramfs_find_mutable_def)
  show "r_path (ents st ! i) = vfs_path_normalize p 256"
    using find_entry_Some [of p "ents st" 0 i] assms(2) inv_entry [OF assms(1) i]
    by (simp add: ramfs_find_mutable_def entry_ok_def)
qed

lemma find_mutable_None:
  assumes "ramfs_inv st"
  shows "ramfs_find_mutable scmp p st = None \<longleftrightarrow> file_at st (vfs_path_normalize p 256) = None"
proof -
  have "vfs_path_normalize (r_path (ents st ! i)) 256 = r_path (ents st ! i)"
    if "i < length (ents st)" "r_alive (ents st ! i)" for i
    using inv_entry [OF assms that] by (simp add: entry_ok_def)
  then show ?thesis
    unfolding ramfs_find_mutable_def find_entry_None file_at_None [OF assms]
    by (metis in_set_conv_nth)
qed

lemma first_dead_Some: "first_dead es n = Some k \<Longrightarrow> n \<le> k \<and> k - n < length es \<and> \<not> r_alive (es ! (k - n))"
proof (induction es arbitrary: n)
  case (Cons e es)
  show ?case
  proof (cases "r_alive e")
    case True
    then have "first_dead es (n + 1) = Some k" using Cons.prems by simp
    from Cons.IH [OF this] show ?thesis by (auto simp: nth_Cons' Suc_diff_le)
  qed (use Cons.prems in simp)
qed simp

text \<open>Filling a dead slot with an entry of a new path and without a buffer.\<close>

lemma fill_slot:
  assumes inv: "ramfs_inv st" and slot: "ramfs_alloc_slot push_ok st = Some (i, st1)"
    and e: "e = entry_zero\<lparr>r_path := q, r_mode := m, r_flags := f, r_alive := True\<rparr>"
    and q: "vfs_path_normalize q 256 = q" "file_at st q = None"
  shows "ramfs_inv (set_entry i e st1) \<and> file_at (set_entry i e st1) = (file_at st)(q := Some (m, f, []))"
proof -
  let ?st' = "set_entry i e st1"
  have fresh: "r_alive (ents st ! j) \<Longrightarrow> j < length (ents st) \<Longrightarrow> r_path (ents st ! j) \<noteq> q" for j
    using q(2) file_at_None [OF inv] by blast
  have eok: "entry_ok hp e" for hp using q(1) by (simp add: e entry_ok_def entry_zero_def)
  show ?thesis
  proof (cases "first_dead (ents st) 0")
    case (Some k)
    note k = first_dead_Some [OF Some]
    have st1: "i = k" "st1 = set_entry k entry_zero st"
      using slot Some by (auto simp: ramfs_alloc_slot_def)
    have i: "i < length (ents st)" "\<not> r_alive (ents st ! i)" using k st1 by auto
    have st': "ents ?st' = (ents st)[i := e]" "heap ?st' = heap st" using st1 by simp_all
    have oth: "others_kept st i e (heap st)" using fresh by (auto simp: others_kept_def e entry_zero_def)
    have inv': "ramfs_inv ?st'" by (rule inv_updateI [OF inv i(1) _ oth st']) (simp add: eok)
    have "view ?st' i = (m, f, [])" using st' i by (simp add: view_def content_def e entry_zero_def)
    then show ?thesis
      using inv' file_at_update [OF inv inv' i(1) oth st'] i(2) by (auto simp: e entry_zero_def fun_eq_iff)
  next
    case None
    then have st1: "i = length (ents st)" "ents st1 = ents st @ [entry_zero]" "heap st1 = heap st"
      using slot by (auto simp: ramfs_alloc_slot_def split: if_splits)
    have st': "ents ?st' = ents st @ [e]" "heap ?st' = heap st" using st1 by simp_all
    have inv': "ramfs_inv ?st'"
      using inv eok fresh st' unfolding ramfs_inv_def no_sharing_def
      by (auto simp: nth_append e entry_zero_def less_Suc_eq)
    have old: "content ?st' j = content st j" if "j < length (ents st)" for j
    proof -
      have "(ents st @ [e]) ! j = ents st ! j" using that by (simp add: nth_append)
      then show ?thesis unfolding content_def st' by (simp split: option.split)
    qed
    have "file_at ?st' p = Some x \<longleftrightarrow> ((file_at st)(q := Some (m, f, []))) p = Some x" for p x
    proof (cases "p = q")
      case True
      have "view ?st' (length (ents st)) = (m, f, [])"
        using st' by (simp add: view_def content_def e entry_zero_def)
      then show ?thesis
        using fresh True st' unfolding file_at_iff [OF inv']
        by (auto simp: nth_append e entry_zero_def less_Suc_eq)
    next
      case False
      then show ?thesis
        using st' old unfolding fun_upd_other [OF False] file_at_iff [OF inv'] file_at_iff [OF inv]
        by (auto simp: nth_append view_def e less_Suc_eq)
    qed
    then have "file_at ?st' = (file_at st)(q := Some (m, f, []))" by (metis (no_types) ext option.exhaust)
    then show ?thesis using inv' by simp
  qed
qed

lemma insert_effect:
  assumes inv: "ramfs_inv st" and run: "ramfs_insert scmp push_ok path mode flags st = ((err, i), st1)"
  shows "case err of
      REND_ERR e \<Rightarrow> st1 = st
    | REND_SUCCESS \<Rightarrow> ramfs_inv st1 \<and> file_at st (vfs_path_normalize path 256) = None
        \<and> file_at st1 = (file_at st)(vfs_path_normalize path 256 := Some (mode, flags, []))
        \<and> r_size (ents st1 ! i) = 0"
proof (cases "ramfs_find_mutable scmp path st")
  case (Some k)
  then show ?thesis using run by (auto simp: ramfs_insert_def)
next
  case None
  let ?q = "vfs_path_normalize path 256"
  show ?thesis
  proof (cases "ramfs_alloc_slot push_ok st")
    case (Some r)
    obtain k st0 where r: "r = (k, st0)" by (cases r)
    have slot: "ramfs_alloc_slot push_ok st = Some (k, st0)" using Some r by simp
    have k: "ents st0 ! k = entry_zero \<and> k < length (ents st0)"
      using slot first_dead_Some [of "ents st" 0]
      by (auto simp: ramfs_alloc_slot_def split: option.splits if_splits)
    have res: "err = REND_SUCCESS" "i = k"
        "st1 = set_entry k (entry_zero\<lparr>r_path := ?q, r_mode := mode, r_flags := flags, r_alive := True\<rparr>) st0"
      using run None slot k by (auto simp: ramfs_insert_def)
    have "file_at st ?q = None" using find_mutable_None [OF inv] None by blast
    moreover have "vfs_path_normalize ?q 256 = ?q" by (simp add: normalize_256)
    ultimately show ?thesis
      using fill_slot [OF inv slot refl, where q = ?q and m = mode and f = flags] res k by (simp add: entry_zero_def)
  qed (use run None in \<open>auto simp: ramfs_insert_def\<close>)
qed

lemma set_size_id: "r_size (ents st ! i) = 0 \<Longrightarrow> set_entry i ((ents st ! i)\<lparr>r_size := 0\<rparr>) st = st"
proof -
  assume "r_size (ents st ! i) = 0"
  then have "(ents st ! i)\<lparr>r_size := 0\<rparr> = ents st ! i" by (auto intro: ramfs_entry.equality)
  then show ?thesis by (simp add: set_entry_def)
qed

lemma create_effect:
  assumes inv: "ramfs_inv st" and run: "ramfs_create_file scmp push_ok path mode st = (r, st')"
  shows "case r of REND_ERR e \<Rightarrow> st' = st
    | REND_SUCCESS \<Rightarrow> ramfs_inv st' \<and> file_at st (vfs_path_normalize path 256) = None \<and>
      file_at st' = (file_at st)(vfs_path_normalize path 256 := Some ((mode AND NOT RAMFS_S_IFMT) OR RAMFS_S_IFREG, 0, []))"
proof -
  let ?m = "(mode AND NOT RAMFS_S_IFMT) OR RAMFS_S_IFREG"
  obtain err i st1 where ins: "ramfs_insert scmp push_ok path ?m 0 st = ((err, i), st1)" by (metis surj_pair)
  show ?thesis
    using run insert_effect [OF inv ins] ins
    by (cases err) (auto simp: ramfs_create_file_def Let_def set_size_id split: error_t.splits if_splits)
qed

lemma mkdir_effect:
  assumes inv: "ramfs_inv st" and run: "ramfs_mkdir scmp push_ok path mode st = (r, st')"
  shows "case r of REND_ERR e \<Rightarrow> st' = st
    | REND_SUCCESS \<Rightarrow> ramfs_inv st' \<and> file_at st (vfs_path_normalize path 256) = None \<and>
      file_at st' = (file_at st)(vfs_path_normalize path 256 := Some ((mode AND NOT RAMFS_S_IFMT) OR RAMFS_S_IFDIR, RAMFS_FLAG_DIR, []))"
proof -
  let ?m = "(mode AND NOT RAMFS_S_IFMT) OR RAMFS_S_IFDIR"
  obtain err i st1 where ins: "ramfs_insert scmp push_ok path ?m RAMFS_FLAG_DIR st = ((err, i), st1)" by (metis surj_pair)
  show ?thesis
    using run insert_effect [OF inv ins] ins
    by (cases err) (auto simp: ramfs_mkdir_def Let_def set_size_id split: error_t.splits if_splits)
qed

lemma unlink_effect:
  assumes inv: "ramfs_inv st" and run: "ramfs_unlink scmp path st = (r, st')"
  shows "case r of REND_ERR e \<Rightarrow> st' = st \<and> file_at st (vfs_path_normalize path 256) = None
    | REND_SUCCESS \<Rightarrow> ramfs_inv st' \<and> file_at st (vfs_path_normalize path 256) \<noteq> None
        \<and> file_at st' = (file_at st)(vfs_path_normalize path 256 := None)"
proof (cases "ramfs_find_mutable scmp path st")
  case None
  then show ?thesis using run find_mutable_None [OF inv, of path] by (auto simp: ramfs_unlink_def simp del: not_None_eq)
next
  case (Some i)
  note i = find_mutable_Some [OF inv Some]
  have res: "r = REND_SUCCESS" "st' = set_entry i entry_zero (ramfs_free_entry_data i st)"
    using run Some by (auto simp: ramfs_unlink_def)
  define hp where "hp = heap st'"
  have hp: "ents st' = (ents st)[i := entry_zero]" "heap st' = hp"
    by (simp_all add: res hp_def ramfs_free_entry_data_def Let_def split: option.split)
  have changed: "r_data (ents st ! i) = Some b" if "hp b \<noteq> heap st b" for b
    using that by (auto simp: res hp_def ramfs_free_entry_data_def Let_def split: option.splits if_splits)
  have oth: "others_kept st i entry_zero hp"
    unfolding others_kept_def
  proof (intro allI impI conjI)
    fix j b assume j: "j < length (ents st)" "j \<noteq> i" "r_alive (ents st ! j)" "r_data (ents st ! j) = Some b"
    show "hp b = heap st b"
    proof (rule ccontr)
      assume "hp b \<noteq> heap st b"
      from changed [OF this] show False using inv_sharing [OF inv i(1) j(1)] i j by auto
    qed
  qed (simp_all add: entry_zero_def)
  have inv': "ramfs_inv st'" by (rule inv_updateI [OF inv i(1) _ oth hp(1,2)]) (simp add: entry_zero_def)
  have "file_at st (vfs_path_normalize path 256) = Some (view st i)" using i file_at_iff [OF inv] by blast
  moreover have "file_at st' = (file_at st)(vfs_path_normalize path 256 := None)"
    using file_at_update [OF inv inv' i(1) oth hp(1,2)] i by (simp add: entry_zero_def fun_eq_iff)
  ultimately show ?thesis using res(1) inv' by simp
qed

lemma rename_effect:
  assumes inv: "ramfs_inv st" and run: "ramfs_rename scmp old new st = (r, st')"
  shows "case r of REND_ERR e \<Rightarrow> st' = st
    | REND_SUCCESS \<Rightarrow> ramfs_inv st' \<and> file_at st (vfs_path_normalize old 256) \<noteq> None
        \<and> file_at st (vfs_path_normalize new 256) = None
        \<and> file_at st' = (file_at st)(vfs_path_normalize old 256 := None,
             vfs_path_normalize new 256 := file_at st (vfs_path_normalize old 256))"
proof (cases r)
  case (REND_ERR e)
  then show ?thesis using run by (auto simp: ramfs_rename_def Let_def split: option.splits if_splits error_t.splits)
next
  case REND_SUCCESS
  let ?o = "vfs_path_normalize old 256" and ?n = "vfs_path_normalize new 256"
  have nn: "vfs_path_normalize ?o 256 = ?o" "vfs_path_normalize ?n 256 = ?n" by (simp_all add: normalize_256)
  obtain i where f: "ramfs_find_mutable scmp ?o st = Some i" "ramfs_find_mutable scmp ?n st = None"
      and st': "st' = set_entry i ((ents st ! i)\<lparr>r_path := ?n\<rparr>) st"
    using run REND_SUCCESS nn
    by (auto simp: ramfs_rename_def ramfs_lookup_def Let_def split: option.splits if_splits error_t.splits)
  note i = find_mutable_Some [OF inv f(1), unfolded nn]
  have new: "file_at st ?n = None" using find_mutable_None [OF inv, of ?n] f(2) nn by simp
  let ?e = "(ents st ! i)\<lparr>r_path := ?n\<rparr>"
  have oth: "others_kept st i ?e (heap st)"
    unfolding others_kept_def
  proof (intro allI impI conjI)
    fix j b assume j: "j < length (ents st)" "j \<noteq> i" "r_alive (ents st ! j)"
    show "r_path ?e \<noteq> r_path (ents st ! j)" using new j by (auto simp: file_at_None [OF inv])
    assume "r_data (ents st ! j) = Some b"
    then show "r_data ?e \<noteq> Some b" using inv_sharing [OF inv i(1) j(1) _ i(2) j(3)] j by auto
  qed simp
  have eok: "entry_ok (heap st) ?e" using inv_entry [OF inv i(1,2)] nn by (simp add: entry_ok_def entry_is_dir_def cong: option.case_cong)
  have inv': "ramfs_inv st'" by (rule inv_updateI [OF inv i(1) _ oth]) (simp_all add: eok st')
  have upd: "file_at st' p = (if p = ?n then Some (view st' i) else if p = ?o then None else file_at st p)" for p
    using file_at_update [OF inv inv' i(1) oth, of p] i st' by simp
  have "file_at st ?o = Some (view st i)" using i file_at_iff [OF inv] by blast
  moreover have "view st' i = view st i" using i st' by (simp add: view_def content_def cong: option.case_cong)
  ultimately show ?thesis using REND_SUCCESS inv' new upd by (auto simp: fun_eq_iff)
qed

end

section \<open>Properties\<close>

text \<open>A one-file state used by the witnesses.\<close>

definition one_file :: ramfs where
  "one_file = \<lparr>ents = [entry_zero\<lparr>r_path := ''/a'', r_alive := True\<rparr>], heap = \<lambda>a. None\<rparr>"

lemma one_file_inv: "ramfs_inv one_file" "0 < length (ents one_file)" "r_alive (ents one_file ! 0)"
proof -
  have "vfs_path_normalize ''/a'' VFS_PATH_MAX = ''/a''" by code_simp
  then show "ramfs_inv one_file"
    by (simp add: one_file_def ramfs_inv_def entry_ok_def entry_zero_def no_sharing_def)
qed (simp_all add: one_file_def)

text \<open>C17. \<^verbatim>\<open>ramfs_write\<close> on a live file never accesses memory outside the file's buffer. It either
  fails and changes nothing, or writes all bytes: the new contents are the old ones with the bytes
  from the offset on replaced and the file extended as needed, within the 256 KiB limit. The file
  system invariant, the metadata and the contents of every other file are kept, whatever growth
  the write needs.\<close>

theorem ramfs_write_correct:
  assumes "ramfs_inv st" "i < length (ents st)" "r_alive (ents st ! i)" "alloc_ok m_alloc st"
    and "length buf < 2 ^ 64"
  shows "\<exists>r st'. ramfs_write m_alloc i offset buf st = Some (r, st') \<and> ramfs_inv st' \<and> same_meta i st st' \<and>
    (case r of Inl e \<Rightarrow> st' = st
     | Inr n \<Rightarrow> n = length buf \<and> (buf = [] \<longrightarrow> st' = st)
         \<and> (buf \<noteq> [] \<longrightarrow> offset + length buf \<le> RAMFS_MAX_FILE_SIZE
            \<and> (\<exists>gap. length gap = offset - length (content st i)
                \<and> content st' i = take offset (content st i) @ gap @ buf
                     @ drop (offset + length buf) (content st i))))"
  by (rule write_effect [OF assms])

theorem ramfs_write_correct_witness:
  "\<exists>r st'. ramfs_write (\<lambda>n. Some (7, replicate n 0)) 0 2 [1, 2] one_file = Some (r, st') \<and> ramfs_inv st'"
proof -
  have al: "alloc_ok (\<lambda>n. Some (7, replicate n 0)) one_file" by (simp add: alloc_ok_def one_file_def)
  show ?thesis using ramfs_write_correct [OF one_file_inv al, of "[1, 2]" 2] by auto
qed

text \<open>\<^verbatim>\<open>ramfs_truncate\<close> cuts a file off at the new size or extends it with zero bytes, keeps the
  invariant and every other file, and on failure changes nothing.\<close>

lemma ramfs_truncate_correct:
  assumes "ramfs_inv st" "i < length (ents st)" "r_alive (ents st ! i)" "alloc_ok m_alloc st"
  shows "\<exists>r st'. ramfs_truncate m_alloc i n st = Some (r, st') \<and> ramfs_inv st' \<and> same_meta i st st' \<and>
    (case r of REND_ERR e \<Rightarrow> st' = st
     | REND_SUCCESS \<Rightarrow> content st' i = take n (content st i) @ replicate (n - length (content st i)) 0)"
  by (rule truncate_effect [OF assms])

text \<open>Round trip: \<^verbatim>\<open>ramfs_read\<close> returns exactly the requested slice of a file's contents, so
  bytes written successfully are read back unchanged from the same offset.\<close>

lemma ramfs_write_read:
  assumes inv: "ramfs_inv st" and i: "i < length (ents st)" "r_alive (ents st ! i)" and al: "alloc_ok m_alloc st"
    and len: "length buf < 2 ^ 64" and buf: "buf \<noteq> []"
    and run: "ramfs_write m_alloc i offset buf st = Some (Inr n, st')"
  shows "ramfs_read i offset (length buf) st' = Some (Inr (length buf, buf))
    \<and> ramfs_read i 0 (length (content st' i)) st' = Some (Inr (length (content st' i), content st' i))"
proof -
  have eff: "ramfs_inv st'" "same_meta i st st'"
      "\<exists>gap. length gap = offset - length (content st i)
          \<and> content st' i = take offset (content st i) @ gap @ buf @ drop (offset + length buf) (content st i)"
    using write_effect [OF inv i al len, of offset] run buf by auto
  then obtain gap where gap: "length gap = offset - length (content st i)"
      "content st' i = take offset (content st i) @ gap @ buf @ drop (offset + length buf) (content st i)" by blast
  have nd: "\<not> entry_is_dir (ents st ! i)" using run by (auto simp: ramfs_write_def split: if_splits)
  have i': "i < length (ents st')" "r_alive (ents st' ! i)" "\<not> entry_is_dir (ents st' ! i)"
    using eff(2) i nd by (simp_all add: same_meta_def entry_is_dir_def)
  have "take (length buf) (drop offset (content st' i)) = buf"
    unfolding gap(2) using gap(1) by (cases "offset \<le> length (content st i)") simp_all
  then show ?thesis
    using read_effect [OF eff(1) i', of offset "length buf"]
      read_effect [OF eff(1) i', of 0 "length (content st' i)"] by (simp del: length_take)
qed

text \<open>C18. On the set of paths the operations refine a map from normalised paths to mode, flags and
  contents: create and mkdir add one new path, unlink removes one, rename moves one to a free path
  with its contents, each leaves the other files as they are and keeps the invariant, and a failed
  operation changes nothing.\<close>

theorem ramfs_paths_refine:
  assumes "strcmp_api scmp" "ramfs_inv st"
    and "ramfs_create_file scmp ok1 p1 m1 st = (r1, st1)" "ramfs_mkdir scmp ok2 p2 m2 st = (r2, st2)"
    and "ramfs_unlink scmp p3 st = (r3, st3)" "ramfs_rename scmp p4 p5 st = (r4, st4)"
  shows "(case r1 of REND_ERR e \<Rightarrow> st1 = st
     | REND_SUCCESS \<Rightarrow> ramfs_inv st1 \<and> file_at st (vfs_path_normalize p1 256) = None \<and>
       file_at st1 = (file_at st)(vfs_path_normalize p1 256 := Some ((m1 AND NOT RAMFS_S_IFMT) OR RAMFS_S_IFREG, 0, [])))
   \<and> (case r2 of REND_ERR e \<Rightarrow> st2 = st
     | REND_SUCCESS \<Rightarrow> ramfs_inv st2 \<and> file_at st (vfs_path_normalize p2 256) = None \<and>
       file_at st2 = (file_at st)(vfs_path_normalize p2 256 := Some ((m2 AND NOT RAMFS_S_IFMT) OR RAMFS_S_IFDIR, RAMFS_FLAG_DIR, [])))
   \<and> (case r3 of REND_ERR e \<Rightarrow> st3 = st \<and> file_at st (vfs_path_normalize p3 256) = None
     | REND_SUCCESS \<Rightarrow> ramfs_inv st3 \<and> file_at st (vfs_path_normalize p3 256) \<noteq> None
        \<and> file_at st3 = (file_at st)(vfs_path_normalize p3 256 := None))
   \<and> (case r4 of REND_ERR e \<Rightarrow> st4 = st
     | REND_SUCCESS \<Rightarrow> ramfs_inv st4 \<and> file_at st (vfs_path_normalize p4 256) \<noteq> None
        \<and> file_at st (vfs_path_normalize p5 256) = None
        \<and> file_at st4 = (file_at st)(vfs_path_normalize p4 256 := None,
             vfs_path_normalize p5 256 := file_at st (vfs_path_normalize p4 256)))"
  using strcmp_api.create_effect [OF assms(1-3)] strcmp_api.mkdir_effect [OF assms(1,2,4)]
    strcmp_api.unlink_effect [OF assms(1,2,5)] strcmp_api.rename_effect [OF assms(1,2,6)]
  by (intro conjI)

theorem ramfs_paths_refine_witness:
  "file_at (snd (ramfs_unlink strncmp ''/a'' one_file)) ''/a'' = None"
proof -
  obtain r1 st1 r2 st2 r3 st3 r4 st4 where runs:
    "ramfs_create_file strncmp True ''/b'' 0 one_file = (r1, st1)"
    "ramfs_mkdir strncmp True ''/b'' 0 one_file = (r2, st2)"
    "ramfs_unlink strncmp ''/a'' one_file = (r3, st3)"
    "ramfs_rename strncmp ''/a'' ''/b'' one_file = (r4, st4)"
    by (metis surj_pair)
  have n: "vfs_path_normalize ''/a'' 256 = ''/a''" by code_simp
  show ?thesis
    using ramfs_paths_refine [OF strncmp.strcmp_api_axioms one_file_inv(1) runs] runs(3)
    by (cases r3) (simp_all add: n)
qed

text \<open>A write that starts beyond the end of a file exposes the bytes in between as the
  allocator left them: they are not zeroed. Here a first write at an offset into a file without a
  buffer leaves the first bytes of the allocated block as its contents.\<close>

lemma write_gap_uninitialised:
  assumes inv: "ramfs_inv st" and i: "i < length (ents st)" "r_alive (ents st ! i)" "\<not> entry_is_dir (ents st ! i)"
    and empty: "r_data (ents st ! i) = None" and al: "alloc_ok m_alloc st"
    and b: "m_alloc 64 = Some (a, b)" and buf: "buf \<noteq> []" "offset + length buf \<le> 64"
  shows "\<exists>st'. ramfs_write m_alloc i offset buf st = Some (Inr (length buf), st') \<and> content st' i = take offset b @ buf"
proof -
  have sz: "r_size (ents st ! i) = 0" "r_capacity (ents st ! i) = 0"
    using inv_entry [OF inv i(1,2)] empty by (simp_all add: entry_ok_def)
  have len: "length b = 64" "heap st a = None" using al b by (auto simp: alloc_ok_def)
  have e: "(offset + length buf) mod 2 ^ 64 = offset + length buf" using buf by simp
  have cap: "grow_file_cap (offset + length buf) 64 = 64" using buf by (simp add: grow_file_cap.simps)
  have pos: "0 < offset + length buf" using buf(1) by simp
  show ?thesis
    using i sz len b e cap buf pos empty
    by (simp add: ramfs_write_def ramfs_grow_def Let_def mem_write_def content_def)
qed

definition linked_file :: ramfs where
  "linked_file = \<lparr>ents = [entry_zero\<lparr>r_path := ''/a'', r_alive := True, r_data := Some 7, r_size := 1,
       r_capacity := 64\<rparr>], heap = [7 \<mapsto> replicate 64 1]\<rparr>"

text \<open>Hard links share the buffer, but growing the file through one name frees it while the
  other entry still points to it: the next read through the other name accesses freed memory.\<close>

lemma link_grow_dangling:
  "\<exists>st1 st2 n. ramfs_inv linked_file \<and> ramfs_link strncmp True ''/a'' ''/b'' linked_file = (REND_SUCCESS, st1)
     \<and> ramfs_write (\<lambda>n. Some (8, replicate n 0)) 0 64 [5] st1 = Some (Inr n, st2)
     \<and> ramfs_find_mutable strncmp ''/b'' st2 = Some 1 \<and> ramfs_read 1 0 1 st2 = None"
proof -
  let ?b = "entry_zero\<lparr>r_path := ''/b'', r_alive := True, r_data := Some 7, r_size := 1, r_capacity := 64\<rparr>"
  have na: "vfs_path_normalize ''/a'' VFS_PATH_MAX = ''/a''" and nb: "vfs_path_normalize ''/b'' VFS_PATH_MAX = ''/b''"
    by code_simp+
  have par: "vfs_path_is_root ''/b'' = False" "vfs_path_parent ''/b'' VFS_PATH_MAX = Some ''/''" "vfs_path_is_root ''/''"
    by code_simp+
  have eq: "vfs_path_equal strncmp ''/a'' ''/a''" "\<not> vfs_path_equal strncmp ''/a'' ''/b''"
      "vfs_path_equal strncmp ''/b'' ''/b''"
    by code_simp+
  have inv: "ramfs_inv linked_file" using na
    by (simp add: linked_file_def ramfs_inv_def entry_ok_def entry_zero_def no_sharing_def entry_is_dir_def)
  have link: "ramfs_link strncmp True ''/a'' ''/b'' linked_file = (REND_SUCCESS, linked_file\<lparr>ents := ents linked_file @ [?b]\<rparr>)"
    using eq par nb
    by (simp add: ramfs_link_def ramfs_find_mutable_def ramfs_lookup_def ramfs_insert_def ramfs_alloc_slot_def
        ramfs_ensure_parent_dir_def linked_file_def entry_zero_def entry_is_dir_def set_entry_def Let_def)
  obtain st2 n where w: "ramfs_write (\<lambda>n. Some (8, replicate n 0)) 0 64 [5] (linked_file\<lparr>ents := ents linked_file @ [?b]\<rparr>)
      = Some (Inr n, st2)" and st2: "ents st2 ! 1 = ?b" "length (ents st2) = 2" "heap st2 7 = None"
      "r_path (ents st2 ! 0) = ''/a''"
    by (simp add: ramfs_write_def ramfs_grow_def linked_file_def entry_zero_def entry_is_dir_def
        grow_file_cap.simps mem_write_def mem_read_def Let_def)
  obtain e0 where "ents st2 = [e0, ?b]" "r_path e0 = ''/a''"
    using st2 by (cases "ents st2"; cases "tl (ents st2)") auto
  then have "ramfs_find_mutable strncmp ''/b'' st2 = Some 1"
    using eq by (simp add: ramfs_find_mutable_def entry_zero_def)
  moreover have "ramfs_read 1 0 1 st2 = None"
    using st2 by (simp add: ramfs_read_def mem_read_def entry_zero_def entry_is_dir_def Let_def)
  ultimately show ?thesis using inv link w by blast
qed

text \<open>The dot-dot entry of a directory listing carries an inode number different from the one the
  parent directory reports for itself, because it is the hash of the parent's path with a slash at
  the end.\<close>

lemma readdir_dotdot_ino:
  "map_option d_ino (snd (ramfs_readdir strcmp_s ok1 ok2 ''/a/b'' 1 st))
     \<noteq> map_option d_ino (snd (ramfs_readdir strcmp_s ok3 ok4 ''/a'' 0 st'))"
proof -
  have "vfs_path_normalize ''/a/b'' VFS_PATH_MAX = ''/a/b''" "vfs_path_normalize ''/a'' VFS_PATH_MAX = ''/a''"
      "vfs_path_parent ''/a/b'' VFS_PATH_MAX = Some ''/a/''"
    by code_simp+
  moreover have "vfs_path_to_ino ''/a/'' \<noteq> vfs_path_to_ino ''/a''" by code_simp
  ultimately show ?thesis by (simp add: ramfs_readdir_def)
qed

end
