(* ===== verification/Pipe.thy ===== *)
theory Pipe
  imports Prelude
begin

text \<open>
  Pipe buffers of the compatibility layer (\<^verbatim>\<open>linux_layer/fs/linux_pipe.c\<close>): 64 slots, each a ring
  of 4096 bytes with counts of its open ends. Copies to and from user memory are the arguments
  \<open>store_ok\<close> and \<open>load\<close>: whether the transfer of \<open>n\<close> bytes at an offset of the user buffer
  succeeds, and which bytes it reads. When the buffer is empty or full the C loops call
  \<^verbatim>\<open>schedule\<close>; what other threads do to the pipe meanwhile is the list \<open>envs\<close>, one update per call,
  and a loop that is still waiting when it ends is \<open>Blocked\<close>. A \<^verbatim>\<open>memcpy\<close> that leaves the data array
  is the outcome \<open>OutOfBounds\<close>.

  The lemmas show that the ring refines a byte queue, that the loops deliver bytes first in first
  out, how the counts of open ends decide the life of a slot, and exactly when the read loop leaves the
  array at its end, which the write loop handles.
\<close>

section \<open>Definitions\<close>

abbreviation LINUX_PIPE_BUF_SIZE :: nat where "LINUX_PIPE_BUF_SIZE \<equiv> 4096"
abbreviation LINUX_PIPE_MAX :: nat where "LINUX_PIPE_MAX \<equiv> 64"

record linux_pipe =
  p_data :: "u8 list"
  p_head :: nat
  p_len :: nat
  p_refcnt :: nat
  p_readers :: nat
  p_writers :: nat

type_synonym pipes = "nat \<Rightarrow> linux_pipe option"

definition new_pipe :: linux_pipe where
  "new_pipe = \<lparr>p_data = replicate LINUX_PIPE_BUF_SIZE 0, p_head = 0, p_len = 0, p_refcnt = 2,
     p_readers = 1, p_writers = 1\<rparr>"

fun pipe_scan :: "bool \<Rightarrow> pipes \<Rightarrow> nat list \<Rightarrow> nat \<times> pipes" where
  "pipe_scan alloc_ok ps [] = (LINUX_PIPE_MAX, ps)"
| "pipe_scan alloc_ok ps (i # is) =
     (if ps i = None then
        (if alloc_ok then (i, ps(i := Some new_pipe)) else (LINUX_PIPE_MAX, ps))
      else pipe_scan alloc_ok ps is)"

definition linux_pipe_alloc_slot :: "bool \<Rightarrow> pipes \<Rightarrow> nat \<times> pipes" where
  "linux_pipe_alloc_slot alloc_ok ps = pipe_scan alloc_ok ps [0..<LINUX_PIPE_MAX]"

definition linux_pipe_from_id :: "nat \<Rightarrow> pipes \<Rightarrow> linux_pipe option" where
  "linux_pipe_from_id pid ps = (if LINUX_PIPE_MAX \<le> pid then None else ps pid)"

definition linux_pipe_free_slot :: "nat \<Rightarrow> pipes \<Rightarrow> pipes" where
  "linux_pipe_free_slot pid ps =
     (case linux_pipe_from_id pid ps of None \<Rightarrow> ps | Some p \<Rightarrow> ps(pid := None))"

definition linux_pipe_release :: "nat \<Rightarrow> pipes \<Rightarrow> pipes" where
  "linux_pipe_release pid ps =
     (case linux_pipe_from_id pid ps of
        None \<Rightarrow> ps
      | Some p \<Rightarrow>
          if p_refcnt p = 0 then ps
          else let p1 = p\<lparr>p_refcnt := p_refcnt p - 1\<rparr>; ps1 = ps(pid := Some p1) in
            if 0 < p_refcnt p1 then ps1 else linux_pipe_free_slot pid ps1)"

definition linux_pipe_fork_retain :: "nat \<Rightarrow> bool \<Rightarrow> pipes \<Rightarrow> pipes" where
  "linux_pipe_fork_retain pid read_end ps =
     (case linux_pipe_from_id pid ps of
        None \<Rightarrow> ps
      | Some p \<Rightarrow>
          let p1 = p\<lparr>p_refcnt := p_refcnt p + 1\<rparr> in
          ps(pid := Some (if read_end then p1\<lparr>p_readers := p_readers p1 + 1\<rparr>
                          else p1\<lparr>p_writers := p_writers p1 + 1\<rparr>)))"

definition linux_pipe_fd_closed :: "nat \<Rightarrow> bool \<Rightarrow> pipes \<Rightarrow> pipes" where
  "linux_pipe_fd_closed pid read_end ps =
     (case linux_pipe_from_id pid ps of
        None \<Rightarrow> ps
      | Some p \<Rightarrow>
          let p1 = (if read_end
                    then (if 0 < p_readers p then p\<lparr>p_readers := p_readers p - 1\<rparr> else p)
                    else (if 0 < p_writers p then p\<lparr>p_writers := p_writers p - 1\<rparr> else p)) in
          linux_pipe_release pid (ps(pid := Some p1)))"

text \<open>The chunk copies of the two loops.\<close>

definition pipe_get :: "linux_pipe \<Rightarrow> nat \<Rightarrow> u8 list option" where
  "pipe_get p n =
     (if p_head p + n \<le> LINUX_PIPE_BUF_SIZE then Some (take n (drop (p_head p) (p_data p))) else None)"

definition pipe_advance :: "linux_pipe \<Rightarrow> nat \<Rightarrow> linux_pipe" where
  "pipe_advance p n =
     p\<lparr>p_head := (p_head p + n) mod LINUX_PIPE_BUF_SIZE, p_len := p_len p - n\<rparr>"

definition overwrite :: "u8 list \<Rightarrow> nat \<Rightarrow> u8 list \<Rightarrow> u8 list" where
  "overwrite d off bytes = take off d @ bytes @ drop (off + length bytes) d"

definition pipe_put :: "linux_pipe \<Rightarrow> u8 list \<Rightarrow> linux_pipe" where
  "pipe_put p chunk =
     (let tail = (p_head p + p_len p) mod LINUX_PIPE_BUF_SIZE; n = length chunk in
      p\<lparr>p_data :=
          (if tail + n \<le> LINUX_PIPE_BUF_SIZE then overwrite (p_data p) tail chunk
           else let first = LINUX_PIPE_BUF_SIZE - tail in
             overwrite (overwrite (p_data p) tail (take first chunk)) 0 (drop first chunk)),
        p_len := p_len p + n\<rparr>)"

datatype pipe_outcome =
  Ret int linux_pipe "u8 list"
| Blocked linux_pipe "u8 list"
| OutOfBounds

abbreviation read_chunk :: "linux_pipe \<Rightarrow> nat \<Rightarrow> nat" where
  "read_chunk p todo \<equiv> min (min todo 256) (p_len p)"

abbreviation write_chunk :: "linux_pipe \<Rightarrow> nat \<Rightarrow> nat" where
  "write_chunk p todo \<equiv> min (min todo 256) (LINUX_PIPE_BUF_SIZE - p_len p)"

text \<open>The read loop; \<open>out\<close> are the bytes stored to the user so far, \<^verbatim>\<open>total\<close> is their number.\<close>

function pipe_read_loop ::
  "(nat \<Rightarrow> nat \<Rightarrow> bool) \<Rightarrow> (linux_pipe \<Rightarrow> linux_pipe) list \<Rightarrow> nat \<Rightarrow> linux_pipe \<Rightarrow> u8 list \<Rightarrow> pipe_outcome" where
  "pipe_read_loop store_ok envs count p out =
     (let total = length out in
      if count \<le> total then Ret (int total) p out
      else if p_len p = 0 then
        (if p_writers p = 0 then Ret (int total) p out
         else case envs of
           [] \<Rightarrow> Blocked p out
         | env # envs1 \<Rightarrow> pipe_read_loop store_ok envs1 count (env p) out)
      else
        let n = read_chunk p (count - total) in
        case pipe_get p n of
          None \<Rightarrow> OutOfBounds
        | Some chunk \<Rightarrow>
            if \<not> store_ok total n then Ret (if 0 < total then int total else - LINUX_EFAULT) p out
            else if length chunk \<noteq> n then OutOfBounds
            else pipe_read_loop store_ok envs count (pipe_advance p n) (out @ chunk))"
  by pat_completeness auto

termination pipe_read_loop
  by (relation "measures [\<lambda>(s, envs, c, p, out). length envs, \<lambda>(s, envs, c, p, out). c - length out]") auto

text \<open>The write loop; \<open>sent\<close> bytes have been taken from the user so far.\<close>

function pipe_write_loop ::
  "(nat \<Rightarrow> nat \<Rightarrow> u8 list option) \<Rightarrow> (linux_pipe \<Rightarrow> linux_pipe) list \<Rightarrow> nat \<Rightarrow> linux_pipe \<Rightarrow> nat \<Rightarrow> pipe_outcome" where
  "pipe_write_loop load envs count p sent =
     (if count \<le> sent then Ret (int sent) p []
      else if LINUX_PIPE_BUF_SIZE \<le> p_len p then
        (if p_readers p = 0 then Ret (if sent = 0 then - LINUX_EPIPE else int sent) p []
         else case envs of
           [] \<Rightarrow> Blocked p []
         | env # envs1 \<Rightarrow> pipe_write_loop load envs1 count (env p) sent)
      else
        let n = write_chunk p (count - sent) in
        case load sent n of
          None \<Rightarrow> Ret (if 0 < sent then int sent else - LINUX_EFAULT) p []
        | Some chunk \<Rightarrow> pipe_write_loop load envs count (pipe_put p (take n chunk)) (sent + n))"
  by pat_completeness auto

termination pipe_write_loop
  by (relation "measures [\<lambda>(s, envs, c, p, t). length envs, \<lambda>(s, envs, c, p, t). c - t]") auto

declare pipe_read_loop.simps [simp del] pipe_write_loop.simps [simp del]

definition linux_pipe_read ::
  "(nat \<Rightarrow> nat \<Rightarrow> bool) \<Rightarrow> (linux_pipe \<Rightarrow> linux_pipe) list \<Rightarrow> nat \<Rightarrow> nat \<Rightarrow> pipes \<Rightarrow> int option \<times> pipes \<times> u8 list" where
  "linux_pipe_read store_ok envs pid count ps =
     (case linux_pipe_from_id pid ps of
        None \<Rightarrow> (Some (- LINUX_EBADF), ps, [])
      | Some p \<Rightarrow>
          if p_readers p = 0 then (Some (- LINUX_EBADF), ps, [])
          else if count = 0 then (Some 0, ps, [])
          else (case pipe_read_loop store_ok envs count p [] of
                  Ret r p1 out \<Rightarrow> (Some r, ps(pid := Some p1), out)
                | Blocked p1 out \<Rightarrow> (None, ps(pid := Some p1), out)
                | OutOfBounds \<Rightarrow> (None, ps, [])))"

definition linux_pipe_write ::
  "(nat \<Rightarrow> nat \<Rightarrow> u8 list option) \<Rightarrow> (linux_pipe \<Rightarrow> linux_pipe) list \<Rightarrow> nat \<Rightarrow> nat \<Rightarrow> pipes \<Rightarrow> int option \<times> pipes" where
  "linux_pipe_write load envs pid count ps =
     (case linux_pipe_from_id pid ps of
        None \<Rightarrow> (Some (- LINUX_EBADF), ps)
      | Some p \<Rightarrow>
          if p_writers p = 0 then (Some (- LINUX_EBADF), ps)
          else if count = 0 then (Some 0, ps)
          else (case pipe_write_loop load envs count p 0 of
                  Ret r p1 out \<Rightarrow> (Some r, ps(pid := Some p1))
                | Blocked p1 out \<Rightarrow> (None, ps(pid := Some p1))
                | OutOfBounds \<Rightarrow> (None, ps)))"

section \<open>The ring as a byte queue\<close>

definition pipe_ok :: "linux_pipe \<Rightarrow> bool" where
  "pipe_ok p \<longleftrightarrow> length (p_data p) = LINUX_PIPE_BUF_SIZE \<and> p_head p < LINUX_PIPE_BUF_SIZE
     \<and> p_len p \<le> LINUX_PIPE_BUF_SIZE"

definition contents :: "linux_pipe \<Rightarrow> u8 list" where
  "contents p = map (\<lambda>i. p_data p ! ((p_head p + i) mod LINUX_PIPE_BUF_SIZE)) [0..<p_len p]"

lemma length_contents [simp]: "length (contents p) = p_len p"
  by (simp add: contents_def)

lemma ring_mod: "x < 8192 \<Longrightarrow> x mod LINUX_PIPE_BUF_SIZE = (if x < LINUX_PIPE_BUF_SIZE then x else x - LINUX_PIPE_BUF_SIZE)"
  by (simp add: mod_if)

lemma length_overwrite [simp]: "off + length b \<le> length d \<Longrightarrow> length (overwrite d off b) = length d"
  by (simp add: overwrite_def)

lemma nth_overwrite:
  "off + length b \<le> length d \<Longrightarrow> k < length d \<Longrightarrow>
   overwrite d off b ! k = (if off \<le> k \<and> k < off + length b then b ! (k - off) else d ! k)"
  by (auto simp: overwrite_def nth_append)

text \<open>The two copies of the write loop put the chunk at the tail, around the end of the array.\<close>

lemma ring_write_nth:
  assumes d: "length d = LINUX_PIPE_BUF_SIZE" and tail: "tail < LINUX_PIPE_BUF_SIZE"
    and n: "length c \<le> LINUX_PIPE_BUF_SIZE" and k: "k < LINUX_PIPE_BUF_SIZE"
  defines "d' \<equiv> (if tail + length c \<le> LINUX_PIPE_BUF_SIZE then overwrite d tail c
      else overwrite (overwrite d tail (take (LINUX_PIPE_BUF_SIZE - tail) c)) 0 (drop (LINUX_PIPE_BUF_SIZE - tail) c))"
  shows "length d' = LINUX_PIPE_BUF_SIZE"
    and "d' ! k = (if tail \<le> k \<and> k < tail + length c then c ! (k - tail)
        else if k + LINUX_PIPE_BUF_SIZE < tail + length c then c ! (k + LINUX_PIPE_BUF_SIZE - tail) else d ! k)"
  using assms by (auto simp: d'_def nth_overwrite add.commute)

lemma pipe_put_simps [simp]:
  "p_head (pipe_put p c) = p_head p" "p_len (pipe_put p c) = p_len p + length c"
  "p_readers (pipe_put p c) = p_readers p" "p_writers (pipe_put p c) = p_writers p"
  by (simp_all add: pipe_put_def Let_def)

lemma pipe_put_ok:
  assumes ok: "pipe_ok p" and fit: "p_len p + length c \<le> LINUX_PIPE_BUF_SIZE"
  shows "pipe_ok (pipe_put p c)" and "contents (pipe_put p c) = contents p @ c"
proof -
  let ?N = LINUX_PIPE_BUF_SIZE
  let ?tail = "(p_head p + p_len p) mod ?N"
  have h: "p_head p < ?N" "length (p_data p) = ?N" "p_len p \<le> ?N" using ok by (simp_all add: pipe_ok_def)
  have t: "?tail < ?N" by simp
  have n: "length c \<le> ?N" using fit by simp
  note w = ring_write_nth [OF h(2) t n]
  have data: "p_data (pipe_put p c) = (if ?tail + length c \<le> ?N then overwrite (p_data p) ?tail c
      else overwrite (overwrite (p_data p) ?tail (take (?N - ?tail) c)) 0 (drop (?N - ?tail) c))"
    by (simp add: pipe_put_def Let_def)
  show "pipe_ok (pipe_put p c)"
    using h fit w(1) [of 0] by (simp add: pipe_ok_def data)
  have tl: "?tail = (if p_head p + p_len p < ?N then p_head p + p_len p else p_head p + p_len p - ?N)"
    using h by (intro ring_mod) simp
  have "p_data (pipe_put p c) ! ((p_head p + i) mod ?N) = (contents p @ c) ! i" if "i < p_len p + length c" for i
  proof -
    have m: "(p_head p + i) mod ?N = (if p_head p + i < ?N then p_head p + i else p_head p + i - ?N)"
      using h fit that by (intro ring_mod) simp
    show ?thesis
    proof (cases "i < p_len p")
      case True
      then have "p_data (pipe_put p c) ! ((p_head p + i) mod ?N) = p_data p ! ((p_head p + i) mod ?N)"
        unfolding data w(2) [OF mod_less_divisor [OF zero_less_numeral]] using m tl h fit by (auto split: if_splits)
      then show ?thesis using True by (simp add: nth_append contents_def)
    next
      case False
      then have "p_data (pipe_put p c) ! ((p_head p + i) mod ?N) = c ! (i - p_len p)"
        unfolding data w(2) [OF mod_less_divisor [OF zero_less_numeral]] using m tl h fit that
        by (auto split: if_splits intro!: arg_cong [where f = "(!) c"])
      then show ?thesis using False by (simp add: nth_append)
    qed
  qed
  then show "contents (pipe_put p c) = contents p @ c"
    using pipe_put_simps [of p c]
    by (intro nth_equalityI) (simp_all add: contents_def [of "pipe_put p c"])
qed

lemma pipe_get_ok:
  assumes "pipe_ok p" "n \<le> p_len p" "p_head p + n \<le> LINUX_PIPE_BUF_SIZE"
  shows "pipe_get p n = Some (take n (contents p))"
proof -
  have "take n (drop (p_head p) (p_data p)) = take n (contents p)"
    using assms by (intro nth_equalityI) (auto simp: pipe_ok_def contents_def)
  then show ?thesis using assms(3) by (simp add: pipe_get_def)
qed

lemma pipe_advance_ok:
  assumes "pipe_ok p" "n \<le> p_len p"
  shows "pipe_ok (pipe_advance p n)" and "contents (pipe_advance p n) = drop n (contents p)"
proof -
  show "pipe_ok (pipe_advance p n)" using assms by (auto simp: pipe_ok_def pipe_advance_def)
  show "contents (pipe_advance p n) = drop n (contents p)"
  proof (rule nth_equalityI)
    fix i assume "i < length (contents (pipe_advance p n))"
    then have "n + i < p_len p" "i < p_len p - n" by (simp_all add: pipe_advance_def)
    then show "contents (pipe_advance p n) ! i = drop n (contents p) ! i"
      by (simp add: contents_def pipe_advance_def mod_simps add.assoc)
  qed (simp add: pipe_advance_def)
qed

text \<open>
  The interface the transfer loops rely on: a bounded byte queue whose \<open>get\<close> is defined under a
  guard. Folding chunks over \<open>put\<close> appends their concatenation.
\<close>

locale byte_queue =
  fixes ok :: "'q \<Rightarrow> bool" and bytes :: "'q \<Rightarrow> u8 list" and cap :: nat
    and put :: "'q \<Rightarrow> u8 list \<Rightarrow> 'q" and get :: "'q \<Rightarrow> nat \<Rightarrow> u8 list option" and adv :: "'q \<Rightarrow> nat \<Rightarrow> 'q"
    and safe :: "'q \<Rightarrow> nat \<Rightarrow> bool"
  assumes put_law: "ok q \<Longrightarrow> length (bytes q) + length c \<le> cap \<Longrightarrow> ok (put q c) \<and> bytes (put q c) = bytes q @ c"
    and get_law: "ok q \<Longrightarrow> n \<le> length (bytes q) \<Longrightarrow> safe q n \<Longrightarrow> get q n = Some (take n (bytes q))"
    and adv_law: "ok q \<Longrightarrow> n \<le> length (bytes q) \<Longrightarrow> ok (adv q n) \<and> bytes (adv q n) = drop n (bytes q)"
begin

lemma put_chunks:
  "ok q \<Longrightarrow> length (bytes q) + length (concat cs) \<le> cap \<Longrightarrow>
   ok (foldl put q cs) \<and> bytes (foldl put q cs) = bytes q @ concat cs"
proof (induction cs arbitrary: q)
  case (Cons c cs)
  then show ?case using put_law [of q c] by simp
qed simp

lemma put_get_roundtrip:
  assumes "ok q" "bytes q = []" "length c \<le> cap" "safe (put q c) (length c)"
  shows "get (put q c) (length c) = Some c" and "bytes (adv (put q c) (length c)) = []"
proof -
  have "ok (put q c)" "bytes (put q c) = c" using put_law [of q c] assms by simp_all
  then show "get (put q c) (length c) = Some c" "bytes (adv (put q c) (length c)) = []"
    using get_law [of "put q c" "length c"] adv_law [of "put q c" "length c"] assms(4) by simp_all
qed

end

interpretation ring: byte_queue pipe_ok contents LINUX_PIPE_BUF_SIZE pipe_put pipe_get pipe_advance
  "\<lambda>p n. p_head p + n \<le> LINUX_PIPE_BUF_SIZE"
  by unfold_locales (simp_all add: pipe_put_ok pipe_get_ok pipe_advance_ok)

section \<open>The transfer loops\<close>

lemma pipe_advance_simps [simp]:
  "p_len (pipe_advance p n) = p_len p - n" "p_head (pipe_advance p n) = (p_head p + n) mod LINUX_PIPE_BUF_SIZE"
  "p_readers (pipe_advance p n) = p_readers p" "p_writers (pipe_advance p n) = p_writers p"
  by (simp_all add: pipe_advance_def)

text \<open>
  A read of \<open>todo\<close> bytes at \<open>head\<close> crosses the end of the array within a chunk. Chunks have 256 bytes
  but for the last one, so this is decided at the start, and one chunk does not change it.
\<close>

definition read_crosses :: "nat \<Rightarrow> nat \<Rightarrow> bool" where
  "read_crosses head todo \<longleftrightarrow> LINUX_PIPE_BUF_SIZE < head + todo \<and> (LINUX_PIPE_BUF_SIZE - head) mod 256 \<noteq> 0"

lemma read_crosses_chunk:
  fixes head todo :: nat
  assumes "head < LINUX_PIPE_BUF_SIZE" "todo \<le> LINUX_PIPE_BUF_SIZE"
  shows "LINUX_PIPE_BUF_SIZE < head + min todo 256 \<Longrightarrow> read_crosses head todo"
    and "head + min todo 256 \<le> LINUX_PIPE_BUF_SIZE \<Longrightarrow>
      read_crosses ((head + min todo 256) mod LINUX_PIPE_BUF_SIZE) (todo - min todo 256) = read_crosses head todo"
proof -
  assume "LINUX_PIPE_BUF_SIZE < head + min todo 256"
  then have "0 < LINUX_PIPE_BUF_SIZE - head" "LINUX_PIPE_BUF_SIZE - head < 256" "LINUX_PIPE_BUF_SIZE < head + todo" using assms by auto
  then show "read_crosses head todo" by (simp add: read_crosses_def)
next
  assume fits: "head + min todo 256 \<le> LINUX_PIPE_BUF_SIZE"
  consider (last) "todo \<le> 256" | (edge) "256 < todo" "head + 256 = LINUX_PIPE_BUF_SIZE" | (inner) "256 < todo" "head + 256 < LINUX_PIPE_BUF_SIZE"
    using fits by fastforce
  then show "read_crosses ((head + min todo 256) mod LINUX_PIPE_BUF_SIZE) (todo - min todo 256) = read_crosses head todo"
  proof cases
    case last
    have "(head + todo) mod LINUX_PIPE_BUF_SIZE < LINUX_PIPE_BUF_SIZE" by simp
    then show ?thesis using last fits by (simp add: read_crosses_def)
  next
    case edge
    then show ?thesis using assms by (simp add: read_crosses_def)
  next
    case inner
    have "LINUX_PIPE_BUF_SIZE - head = LINUX_PIPE_BUF_SIZE - (head + 256) + 256" using inner by linarith
    then have "(LINUX_PIPE_BUF_SIZE - head) mod 256 = (LINUX_PIPE_BUF_SIZE - (head + 256)) mod 256" by (metis mod_add_self2)
    then show ?thesis using inner by (simp add: read_crosses_def)
  qed
qed

text \<open>The outcome of a read of bytes that are there, when they can be stored.\<close>

lemma read_loop_outcome:
  "pipe_ok p \<Longrightarrow> length out \<le> count \<Longrightarrow> count - length out \<le> p_len p \<Longrightarrow> (\<And>a b. store_ok a b) \<Longrightarrow>
   if read_crosses (p_head p) (count - length out) then pipe_read_loop store_ok envs count p out = OutOfBounds
   else \<exists>p'. pipe_read_loop store_ok envs count p out = Ret (int count) p' (out @ take (count - length out) (contents p))
     \<and> pipe_ok p' \<and> contents p' = drop (count - length out) (contents p)
     \<and> p_head p' = (p_head p + (count - length out)) mod LINUX_PIPE_BUF_SIZE
     \<and> p_readers p' = p_readers p \<and> p_writers p' = p_writers p"
proof (induction "count - length out" arbitrary: p out rule: less_induct)
  case less
  let ?todo = "count - length out"
  have h: "p_head p < LINUX_PIPE_BUF_SIZE" "?todo \<le> LINUX_PIPE_BUF_SIZE" using less.prems(1,3) by (simp_all add: pipe_ok_def)
  show ?case
  proof (cases "?todo = 0")
    case True
    then have "count = length out" using less.prems(2) by simp
    moreover have "p_head p mod LINUX_PIPE_BUF_SIZE = p_head p" using h by simp
    ultimately show ?thesis
      using less.prems h by (simp add: pipe_read_loop.simps read_crosses_def)
  next
    case False
    let ?n = "read_chunk p ?todo"
    let ?p1 = "pipe_advance p ?n" and ?out1 = "out @ take ?n (contents p)"
    have n: "0 < ?n" "?n \<le> p_len p" "?n \<le> ?todo" "?n = min ?todo 256" using False less.prems by auto
    have len: "p_len p \<noteq> 0" using n(1) by auto
    show ?thesis
    proof (cases "p_head p + ?n \<le> LINUX_PIPE_BUF_SIZE")
      case over: False
      then have "pipe_read_loop store_ok envs count p out = OutOfBounds"
        using False n(1) by (subst pipe_read_loop.simps) (simp add: Let_def pipe_get_def)
      then show ?thesis using read_crosses_chunk(1) [OF h] over n(4) by simp
    next
      case fits: True
      have get: "pipe_get p ?n = Some (take ?n (contents p))" by (rule pipe_get_ok [OF less.prems(1) n(2) fits])
      have step: "pipe_read_loop store_ok envs count p out = pipe_read_loop store_ok envs count ?p1 ?out1"
        using False n(1,2) get less.prems len by (subst pipe_read_loop.simps) (simp add: Let_def)
      have todo1: "count - length ?out1 = ?todo - ?n" using n by simp
      note adv = pipe_advance_ok [OF less.prems(1) n(2)]
      have crosses: "read_crosses (p_head ?p1) (?todo - ?n) = read_crosses (p_head p) ?todo"
        using read_crosses_chunk(2) [OF h] fits unfolding pipe_advance_simps n(4) by simp
      have ih: "if read_crosses (p_head ?p1) (?todo - ?n) then pipe_read_loop store_ok envs count ?p1 ?out1 = OutOfBounds
        else \<exists>p'. pipe_read_loop store_ok envs count ?p1 ?out1 = Ret (int count) p' (?out1 @ take (?todo - ?n) (contents ?p1))
          \<and> pipe_ok p' \<and> contents p' = drop (?todo - ?n) (contents ?p1)
          \<and> p_head p' = (p_head ?p1 + (?todo - ?n)) mod LINUX_PIPE_BUF_SIZE
          \<and> p_readers p' = p_readers ?p1 \<and> p_writers p' = p_writers ?p1"
        by (rule less.hyps [of ?out1 ?p1, unfolded todo1, OF _ adv(1) _ _ less.prems(4)])
          (use n less.prems in \<open>auto simp: min_def\<close>)
      have eq1: "?out1 @ take (?todo - ?n) (contents ?p1) = out @ take ?todo (contents p)"
      proof -
        have "take ?todo (contents p) = take (?n + (?todo - ?n)) (contents p)"
          by (simp only: le_add_diff_inverse [OF n(3)])
        also have "\<dots> = take ?n (contents p) @ take (?todo - ?n) (drop ?n (contents p))" by (rule take_add)
        finally show ?thesis using adv(2) by simp
      qed
      have eq2: "drop (?todo - ?n) (contents ?p1) = drop ?todo (contents p)"
        by (simp only: adv(2) drop_drop le_add_diff_inverse2 [OF n(3)])
      have eq3: "(p_head ?p1 + (?todo - ?n)) mod LINUX_PIPE_BUF_SIZE = (p_head p + ?todo) mod LINUX_PIPE_BUF_SIZE"
        by (simp only: pipe_advance_simps mod_add_left_eq add.assoc le_add_diff_inverse [OF n(3)])
      show ?thesis using ih unfolding crosses step eq1 eq2 eq3 pipe_advance_simps(3,4) .
    qed
  qed
qed

lemma read_loop_available:
  assumes "pipe_ok p" "length out \<le> count" "count - length out \<le> p_len p"
    "p_head p + (count - length out) \<le> LINUX_PIPE_BUF_SIZE" "\<And>a b. store_ok a b"
  shows "\<exists>p'. pipe_read_loop store_ok envs count p out = Ret (int count) p' (out @ take (count - length out) (contents p))
     \<and> pipe_ok p' \<and> contents p' = drop (count - length out) (contents p)
     \<and> p_head p' = (p_head p + (count - length out)) mod LINUX_PIPE_BUF_SIZE
     \<and> p_readers p' = p_readers p \<and> p_writers p' = p_writers p"
proof -
  have "\<not> read_crosses (p_head p) (count - length out)" using assms(4) by (simp add: read_crosses_def)
  then show ?thesis using read_loop_outcome [OF assms(1-3,5), where envs = envs] by simp
qed

lemma todo_less:
  fixes n count sent :: nat
  assumes "0 < n" "n \<le> count - sent"
  shows "count - (sent + n) < count - sent \<and> sent + n \<le> count"
  using assms by linarith

lemma todo_room:
  fixes a n count sent :: nat
  assumes "a + (count - sent) \<le> LINUX_PIPE_BUF_SIZE" "n \<le> count - sent"
  shows "a + n + (count - (sent + n)) \<le> LINUX_PIPE_BUF_SIZE"
  using assms by linarith

lemma write_loop_room:
  "pipe_ok p \<Longrightarrow> sent \<le> count \<Longrightarrow> count \<le> length buf \<Longrightarrow> p_len p + (count - sent) \<le> LINUX_PIPE_BUF_SIZE \<Longrightarrow>
   (\<And>off n. load off n = Some (take n (drop off buf))) \<Longrightarrow>
   \<exists>p'. pipe_write_loop load envs count p sent = Ret (int count) p' []
     \<and> pipe_ok p' \<and> contents p' = contents p @ take (count - sent) (drop sent buf)
     \<and> p_head p' = p_head p \<and> p_readers p' = p_readers p \<and> p_writers p' = p_writers p"
proof (induction "count - sent" arbitrary: p sent rule: less_induct)
  case less
  let ?todo = "count - sent"
  show ?case
  proof (cases "?todo = 0")
    case True
    then show ?thesis
      using less.prems by (intro exI [of _ p]) (simp add: pipe_write_loop.simps)
  next
    case False
    let ?n = "write_chunk p ?todo"
    let ?c = "take ?n (drop sent buf)"
    have n: "0 < ?n" "?n \<le> ?todo" "length ?c = ?n" using False less.prems by auto
    have step: "pipe_write_loop load envs count p sent = pipe_write_loop load envs count (pipe_put p ?c) (sent + ?n)"
    proof -
      have "(LINUX_PIPE_BUF_SIZE \<le> p_len p) = False" "(count \<le> sent) = False"
        using False less.prems(4) by auto
      then show ?thesis by (subst pipe_write_loop.simps) (simp add: Let_def less.prems(5))
    qed
    note put = pipe_put_ok [OF less.prems(1), of ?c]
    have fit: "p_len p + length ?c \<le> LINUX_PIPE_BUF_SIZE"
    proof -
      have "?n \<le> LINUX_PIPE_BUF_SIZE - p_len p" by (rule min.cobounded2)
      moreover have "p_len p \<le> LINUX_PIPE_BUF_SIZE" using less.prems(1) by (simp add: pipe_ok_def)
      ultimately show ?thesis unfolding n(3) by linarith
    qed
    have smaller: "count - (sent + ?n) < count - sent" "sent + ?n \<le> count" using todo_less [OF n(1,2)] by blast+
    have room: "p_len (pipe_put p ?c) + (count - (sent + ?n)) \<le> LINUX_PIPE_BUF_SIZE"
      unfolding pipe_put_simps n(3) by (rule todo_room [OF less.prems(4) n(2)])
    have ih: "\<exists>p'. pipe_write_loop load envs count (pipe_put p ?c) (sent + ?n) = Ret (int count) p' []
        \<and> pipe_ok p' \<and> contents p' = contents (pipe_put p ?c) @ take (count - (sent + ?n)) (drop (sent + ?n) buf)
        \<and> p_head p' = p_head (pipe_put p ?c) \<and> p_readers p' = p_readers (pipe_put p ?c) \<and> p_writers p' = p_writers (pipe_put p ?c)"
      by (rule less.hyps [OF smaller(1) put(1) [OF fit] smaller(2) less.prems(3) room less.prems(5)])
    have eq: "contents (pipe_put p ?c) @ take (count - (sent + ?n)) (drop (sent + ?n) buf)
        = contents p @ take ?todo (drop sent buf)"
    proof -
      have "take ?todo (drop sent buf) = take (?n + (?todo - ?n)) (drop sent buf)"
        by (simp only: le_add_diff_inverse [OF n(2)])
      also have "\<dots> = ?c @ take (?todo - ?n) (drop ?n (drop sent buf))" by (rule take_add)
      also have "\<dots> = ?c @ take (count - (sent + ?n)) (drop (sent + ?n) buf)"
        by (simp only: drop_drop diff_diff_left add.commute [of ?n sent])
      finally show ?thesis using put(2) [OF fit] by simp
    qed
    show ?thesis using ih unfolding step eq pipe_put_simps .
  qed
qed

section \<open>Open ends\<close>

definition slot_ok :: "linux_pipe \<Rightarrow> bool" where
  "slot_ok p \<longleftrightarrow> pipe_ok p \<and> p_refcnt p = p_readers p + p_writers p \<and> 0 < p_refcnt p"

definition pipes_inv :: "pipes \<Rightarrow> bool" where
  "pipes_inv ps \<longleftrightarrow> (\<forall>i p. ps i = Some p \<longrightarrow> i < LINUX_PIPE_MAX \<and> slot_ok p)"

lemma pipes_invD: "pipes_inv ps \<Longrightarrow> ps i = Some p \<Longrightarrow> i < LINUX_PIPE_MAX \<and> slot_ok p"
  by (simp add: pipes_inv_def)

lemma pipes_inv_update:
  "pipes_inv ps \<Longrightarrow> i < LINUX_PIPE_MAX \<Longrightarrow> (\<And>p. x = Some p \<Longrightarrow> slot_ok p) \<Longrightarrow> pipes_inv (ps(i := x))"
  by (simp add: pipes_inv_def)

lemma new_pipe_ok: "slot_ok new_pipe" "contents new_pipe = []"
  by (simp_all add: new_pipe_def slot_ok_def pipe_ok_def contents_def)

lemma pipe_scan_result:
  "pipe_scan ok ps is = (i, ps') \<Longrightarrow> i \<noteq> LINUX_PIPE_MAX \<Longrightarrow> i \<in> set is \<and> ps i = None \<and> ps' = ps(i := Some new_pipe)"
  by (induction ok ps "is" rule: pipe_scan.induct) (auto split: if_splits)

lemma pipe_scan_fail: "pipe_scan ok ps is = (LINUX_PIPE_MAX, ps') \<Longrightarrow> LINUX_PIPE_MAX \<notin> set is \<Longrightarrow> ps' = ps"
  by (induction ok ps "is" rule: pipe_scan.induct) (auto split: if_splits)

lemma fd_closed_effect:
  assumes inv: "pipes_inv ps" and p: "ps i = Some p" and pos: "if read_end then 0 < p_readers p else 0 < p_writers p"
  shows "linux_pipe_fd_closed i read_end ps =
    ps(i := if p_readers p + p_writers p = 1 then None
            else Some (p\<lparr>p_refcnt := p_refcnt p - 1,
                 p_readers := (if read_end then p_readers p - 1 else p_readers p),
                 p_writers := (if read_end then p_writers p else p_writers p - 1)\<rparr>))"
proof -
  have i: "i < LINUX_PIPE_MAX" "p_refcnt p = p_readers p + p_writers p" "0 < p_refcnt p"
    using pipes_invD [OF inv p] by (auto simp: slot_ok_def)
  show ?thesis
    using i p pos
    by (auto simp: linux_pipe_fd_closed_def linux_pipe_release_def linux_pipe_free_slot_def linux_pipe_from_id_def Let_def)
qed

section \<open>Properties\<close>

text \<open>C20. The pipe ring refines a byte queue, and the loops transfer without loss, duplication or
  reordering: \<^verbatim>\<open>linux_pipe_write\<close> of bytes that fit returns their number and appends exactly them,
  also when the chunk copies wrap around the end of the array, and \<^verbatim>\<open>linux_pipe_read\<close> of available
  bytes that do not wrap returns the oldest ones, in order, and removes exactly these.\<close>

theorem pipe_write_read_fifo:
  assumes ok: "ps i = Some p" "i < LINUX_PIPE_MAX" "pipe_ok p" "0 < p_writers p" "0 < p_readers p"
    and buf: "buf \<noteq> []" "p_len p + length buf \<le> LINUX_PIPE_BUF_SIZE"
    and load: "\<And>off n. load off n = Some (take n (drop off buf))"
    and count: "0 < count" "count \<le> p_len p + length buf" "p_head p + count \<le> LINUX_PIPE_BUF_SIZE"
    and store: "\<And>a b. store_ok a b"
  shows "\<exists>ps1 p1 ps2 p2. linux_pipe_write load envs i (length buf) ps = (Some (int (length buf)), ps1)
    \<and> ps1 = ps(i := Some p1) \<and> pipe_ok p1 \<and> contents p1 = contents p @ buf
    \<and> linux_pipe_read store_ok envs' i count ps1 = (Some (int count), ps2, take count (contents p @ buf))
    \<and> ps2 = ps(i := Some p2) \<and> pipe_ok p2 \<and> contents p2 = drop count (contents p @ buf)"
proof -
  obtain p1 where w: "pipe_write_loop load envs (length buf) p 0 = Ret (int (length buf)) p1 []"
      "pipe_ok p1" "contents p1 = contents p @ buf" "p_head p1 = p_head p" "p_readers p1 = p_readers p"
    using write_loop_room [OF ok(3), of 0 "length buf" buf load envs] buf load by auto
  have len: "p_len p1 = p_len p + length buf" using arg_cong [OF w(3), of length] by simp
  obtain p2 where r: "pipe_read_loop store_ok envs' count p1 [] = Ret (int count) p2 (take count (contents p1))"
      "pipe_ok p2" "contents p2 = drop count (contents p1)"
    using read_loop_available [OF w(2), of "[]" count store_ok envs'] count store len w(4) by auto
  have "linux_pipe_write load envs i (length buf) ps = (Some (int (length buf)), ps(i := Some p1))"
    using ok w buf by (simp add: linux_pipe_write_def linux_pipe_from_id_def)
  moreover have "linux_pipe_read store_ok envs' i count (ps(i := Some p1)) =
      (Some (int count), ps(i := Some p2), take count (contents p @ buf))"
    using ok r w count by (simp add: linux_pipe_read_def linux_pipe_from_id_def)
  ultimately show ?thesis using w r by auto
qed

theorem pipe_write_read_fifo_witness:
  "snd (snd (linux_pipe_read (\<lambda>a b. True) [] 0 2
     (snd (linux_pipe_write (\<lambda>off n. Some (take n (drop off [7, 8, 9]))) [] 0 3 [0 \<mapsto> new_pipe])))) = [7, 8]"
proof -
  have np: "pipe_ok new_pipe" "p_writers new_pipe = 1" "p_readers new_pipe = 1" "p_len new_pipe = 0" "p_head new_pipe = 0"
    using new_pipe_ok by (simp_all add: slot_ok_def new_pipe_def)
  have "\<exists>ps1 p1 ps2 p2. linux_pipe_write (\<lambda>off n. Some (take n (drop off [7, 8, 9]))) [] 0 (length [7, 8, 9 :: u8]) [0 \<mapsto> new_pipe]
        = (Some (int (length [7, 8, 9 :: u8])), ps1)
    \<and> ps1 = [0 \<mapsto> new_pipe](0 := Some p1) \<and> pipe_ok p1 \<and> contents p1 = contents new_pipe @ [7, 8, 9]
    \<and> linux_pipe_read (\<lambda>a b. True) [] 0 2 ps1 = (Some (int 2), ps2, take 2 (contents new_pipe @ [7, 8, 9]))
    \<and> ps2 = [0 \<mapsto> new_pipe](0 := Some p2) \<and> pipe_ok p2 \<and> contents p2 = drop 2 (contents new_pipe @ [7, 8, 9])"
    by (rule pipe_write_read_fifo) (simp_all add: np)
  then show ?thesis by (auto simp: new_pipe_ok numeral_3_eq_3 numeral_2_eq_2)
qed

text \<open>C32. When a read of available bytes that can be stored goes wrong: the read loop does not handle the
  wrap-around, so exactly when the bytes asked for go beyond the end of the array and the distance to
  the end is not a multiple of the chunk size of 256, one of its \<^verbatim>\<open>memcpy\<close> calls reads beyond the array, after some
  chunks that do not. Every other such read returns the oldest bytes in order and removes them.\<close>

theorem pipe_read_wrap_out_of_bounds:
  assumes "pipe_ok p" "count \<le> p_len p" "\<And>a b. store_ok a b"
  shows "if LINUX_PIPE_BUF_SIZE < p_head p + count \<and> (LINUX_PIPE_BUF_SIZE - p_head p) mod 256 \<noteq> 0
    then pipe_read_loop store_ok envs count p [] = OutOfBounds
    else \<exists>p'. pipe_read_loop store_ok envs count p [] = Ret (int count) p' (take count (contents p))
      \<and> pipe_ok p' \<and> contents p' = drop count (contents p)"
  using read_loop_outcome [OF assms(1), of "[]" count store_ok envs] assms(2,3) by (auto simp: read_crosses_def)

theorem pipe_read_wrap_out_of_bounds_witness:
  "\<exists>p1 out p2 p3. pipe_write_loop (\<lambda>off n. Some (take n (drop off (replicate 4000 1)))) [] 4000 new_pipe 0 = Ret 4000 p1 []
     \<and> pipe_read_loop (\<lambda>a b. True) [] 4000 p1 [] = Ret 4000 p2 out
     \<and> pipe_write_loop (\<lambda>off n. Some (take n (drop off (replicate 1000 1)))) [] 1000 p2 0 = Ret 1000 p3 []
     \<and> pipe_read_loop (\<lambda>a b. True) [] 1000 p3 [] = OutOfBounds"
proof -
  let ?l = "\<lambda>m off n. Some (take n (drop off (replicate m (1 :: u8))))"
  have np: "pipe_ok new_pipe" "p_len new_pipe = 0" "p_head new_pipe = 0"
    using new_pipe_ok by (simp_all add: slot_ok_def new_pipe_def)
  have w: "\<exists>p'. pipe_write_loop (?l m) [] m p 0 = Ret (int m) p' [] \<and> pipe_ok p'
        \<and> p_len p' = p_len p + m \<and> p_head p' = p_head p"
    if ok: "pipe_ok p" and fit: "p_len p + m \<le> LINUX_PIPE_BUF_SIZE" for p m
  proof -
    obtain p' where "pipe_write_loop (?l m) [] m p 0 = Ret (int m) p' []" "pipe_ok p'"
        "contents p' = contents p @ take (m - 0) (drop 0 (replicate m 1))" "p_head p' = p_head p"
      using write_loop_room [OF ok, of 0 m "replicate m 1" "?l m" "[]"] fit by auto
    moreover from this(3) have "p_len p' = p_len p + m" by (metis diff_zero drop_0 length_append length_contents length_replicate order_refl take_all)
    ultimately show ?thesis by blast
  qed
  obtain p1 where p1: "pipe_write_loop (?l 4000) [] 4000 new_pipe 0 = Ret (int 4000) p1 []" "pipe_ok p1"
      "p_len p1 = 4000" "p_head p1 = 0"
    using w [OF np(1), of 4000] np by auto
  obtain p2 where p2: "pipe_read_loop (\<lambda>a b. True) [] 4000 p1 [] = Ret (int 4000) p2 ([] @ take (4000 - length []) (contents p1))"
      "pipe_ok p2" "contents p2 = drop (4000 - length []) (contents p1)" "p_head p2 = 4000"
    using read_loop_available [OF p1(2), of "[]" 4000 "\<lambda>a b. True" "[]"] p1(3,4) by auto
  have l2: "p_len p2 = 0" using arg_cong [OF p2(3), of length] p1(3) by simp
  obtain p3 where p3: "pipe_write_loop (?l 1000) [] 1000 p2 0 = Ret (int 1000) p3 []" "p_len p3 = 1000" "p_head p3 = 4000" "pipe_ok p3"
    using w [OF p2(2), of 1000] l2 p2(4) by auto
  have "pipe_read_loop (\<lambda>a b. True) [] 1000 p3 [] = OutOfBounds"
    using pipe_read_wrap_out_of_bounds [OF p3(4), of 1000 "\<lambda>a b. True" "[]"] p3(2,3) by simp
  then show ?thesis using p1(1) p2(1) p3(1) by (metis of_nat_numeral)
qed

text \<open>The counts of open ends decide the life of a pipe exactly: allocation takes a free slot with
  one reader and one writer, every duplicated descriptor adds one end, closing an open end removes
  one, and the slot is freed precisely when the last end goes; no other pipe is touched.\<close>

lemma pipe_ends_lifetime:
  assumes inv: "pipes_inv ps" and p: "ps i = Some p"
    and pos: "if read_end then 0 < p_readers p else 0 < p_writers p"
  shows "pipes_inv (linux_pipe_fd_closed i read_end ps)
    \<and> (linux_pipe_fd_closed i read_end ps i = None \<longleftrightarrow> p_readers p + p_writers p = 1)
    \<and> (\<forall>j. j \<noteq> i \<longrightarrow> linux_pipe_fd_closed i read_end ps j = ps j)
    \<and> pipes_inv (linux_pipe_fork_retain i read_end ps)
    \<and> linux_pipe_fd_closed i read_end (linux_pipe_fork_retain i read_end ps) = ps
    \<and> (case linux_pipe_alloc_slot alloc_ok ps of (k, ps') \<Rightarrow>
         if k = LINUX_PIPE_MAX then ps' = ps
         else k < LINUX_PIPE_MAX \<and> ps k = None \<and> ps' = ps(k := Some new_pipe) \<and> pipes_inv ps')"
proof -
  have i: "i < LINUX_PIPE_MAX" "slot_ok p" using pipes_invD [OF inv p] by simp_all
  let ?p1 = "if read_end then p\<lparr>p_refcnt := p_refcnt p + 1, p_readers := p_readers p + 1\<rparr>
      else p\<lparr>p_refcnt := p_refcnt p + 1, p_writers := p_writers p + 1\<rparr>"
  have ret: "linux_pipe_fork_retain i read_end ps = ps(i := Some ?p1)"
    using p i by (simp add: linux_pipe_fork_retain_def linux_pipe_from_id_def Let_def)
  have inv1: "pipes_inv (ps(i := Some ?p1))"
    by (rule pipes_inv_update [OF inv i(1)]) (use i(2) in \<open>auto simp: slot_ok_def pipe_ok_def\<close>)
  have "linux_pipe_fd_closed i read_end (ps(i := Some ?p1)) = ps"
    using fd_closed_effect [OF inv1, of i ?p1 read_end] i p by (auto simp: slot_ok_def fun_upd_idem)
  moreover have "pipes_inv (linux_pipe_fd_closed i read_end ps)"
    unfolding fd_closed_effect [OF inv p pos]
    by (rule pipes_inv_update [OF inv i(1)]) (use i(2) pos in \<open>auto simp: slot_ok_def pipe_ok_def split: if_splits\<close>)
  moreover have "case linux_pipe_alloc_slot alloc_ok ps of (k, ps') \<Rightarrow>
         if k = LINUX_PIPE_MAX then ps' = ps
         else k < LINUX_PIPE_MAX \<and> ps k = None \<and> ps' = ps(k := Some new_pipe) \<and> pipes_inv ps'"
    using inv new_pipe_ok pipe_scan_result [of alloc_ok ps "[0..<64]"] pipe_scan_fail [of alloc_ok ps "[0..<64]"]
    by (auto simp: linux_pipe_alloc_slot_def intro!: pipes_inv_update split: prod.splits)
  ultimately show ?thesis using fd_closed_effect [OF inv p pos] ret inv1 by auto
qed

end
