(* ===== verification/Signal_State.thy ===== *)
theory Signal_State
  imports Prelude
begin

text \<open>
  Signal sets and the heap-backed signal state of processes and threads
  (\<^verbatim>\<open>include/linux_compat/signal/signal_types.h\<close>, \<^verbatim>\<open>signal_state.h\<close> and
  \<^verbatim>\<open>linux_layer/signal/signal_state.c\<close>).

  A \<^verbatim>\<open>sigset_t\<close> is one 64-bit word, signal \<open>s\<close> being bit \<open>s - 1\<close>. The append structures hold
  pointers to the state, NULL until it is attached: these are the \<open>option\<close> fields. The allocator of
  the core is the Boolean argument \<open>alloc_ok\<close>, whether it hands out memory.
\<close>

section \<open>Definitions\<close>

subsection \<open>Signal numbers and sets\<close>

abbreviation SIGHUP :: int where "SIGHUP \<equiv> 1"
abbreviation SIGINT :: int where "SIGINT \<equiv> 2"
abbreviation SIGQUIT :: int where "SIGQUIT \<equiv> 3"
abbreviation SIGILL :: int where "SIGILL \<equiv> 4"
abbreviation SIGTRAP :: int where "SIGTRAP \<equiv> 5"
abbreviation SIGABRT :: int where "SIGABRT \<equiv> 6"
abbreviation SIGBUS :: int where "SIGBUS \<equiv> 7"
abbreviation SIGFPE :: int where "SIGFPE \<equiv> 8"
abbreviation SIGKILL :: int where "SIGKILL \<equiv> 9"
abbreviation SIGUSR1 :: int where "SIGUSR1 \<equiv> 10"
abbreviation SIGSEGV :: int where "SIGSEGV \<equiv> 11"
abbreviation SIGUSR2 :: int where "SIGUSR2 \<equiv> 12"
abbreviation SIGPIPE :: int where "SIGPIPE \<equiv> 13"
abbreviation SIGALRM :: int where "SIGALRM \<equiv> 14"
abbreviation SIGTERM :: int where "SIGTERM \<equiv> 15"
abbreviation SIGSTKFLT :: int where "SIGSTKFLT \<equiv> 16"
abbreviation SIGCHLD :: int where "SIGCHLD \<equiv> 17"
abbreviation SIGCONT :: int where "SIGCONT \<equiv> 18"
abbreviation SIGSTOP :: int where "SIGSTOP \<equiv> 19"
abbreviation SIGTSTP :: int where "SIGTSTP \<equiv> 20"
abbreviation SIGTTIN :: int where "SIGTTIN \<equiv> 21"
abbreviation SIGTTOU :: int where "SIGTTOU \<equiv> 22"
abbreviation SIGURG :: int where "SIGURG \<equiv> 23"
abbreviation SIGXCPU :: int where "SIGXCPU \<equiv> 24"
abbreviation SIGXFSZ :: int where "SIGXFSZ \<equiv> 25"
abbreviation SIGVTALRM :: int where "SIGVTALRM \<equiv> 26"
abbreviation SIGPROF :: int where "SIGPROF \<equiv> 27"
abbreviation SIGWINCH :: int where "SIGWINCH \<equiv> 28"
abbreviation SIGPWR :: int where "SIGPWR \<equiv> 30"
abbreviation NSIG :: int where "NSIG \<equiv> 64"

abbreviation SIG_DFL :: u64 where "SIG_DFL \<equiv> 0"
abbreviation SIG_IGN :: u64 where "SIG_IGN \<equiv> 1"

definition linux_signal_handler_is_ign :: "u64 \<Rightarrow> bool" where
  "linux_signal_handler_is_ign h \<longleftrightarrow> h = SIG_IGN"

definition linux_signal_handler_is_dfl :: "u64 \<Rightarrow> bool" where
  "linux_signal_handler_is_dfl h \<longleftrightarrow> h = SIG_DFL"

definition linux_signal_handler_is_special :: "u64 \<Rightarrow> bool" where
  "linux_signal_handler_is_special h \<longleftrightarrow> h \<le> 1"

type_synonym sigset_t = u64

definition sigemptyset :: sigset_t where
  "sigemptyset = 0"

definition sigfillset :: sigset_t where
  "sigfillset = NOT 0"

definition sigbit :: "int \<Rightarrow> u64" where
  "sigbit signo = push_bit (nat (signo - 1)) 1"

definition sigaddset :: "sigset_t \<Rightarrow> int \<Rightarrow> sigset_t" where
  "sigaddset ss signo = (if 1 \<le> signo \<and> signo \<le> 64 then ss OR sigbit signo else ss)"

definition sigdelset :: "sigset_t \<Rightarrow> int \<Rightarrow> sigset_t" where
  "sigdelset ss signo = (if 1 \<le> signo \<and> signo \<le> 64 then ss AND NOT (sigbit signo) else ss)"

definition sigismember :: "sigset_t \<Rightarrow> int \<Rightarrow> bool" where
  "sigismember ss signo = (if signo < 1 \<or> 64 < signo then False else ss AND sigbit signo \<noteq> 0)"

subsection \<open>State of processes and threads\<close>

record sigaction =
  sa_handler :: u64
  sa_flags :: u64
  sa_restorer :: u64
  sa_mask :: sigset_t

abbreviation SA_NOCLDSTOP :: u64 where "SA_NOCLDSTOP \<equiv> 0x00000001"
abbreviation SA_NOCLDWAIT :: u64 where "SA_NOCLDWAIT \<equiv> 0x00000002"
abbreviation SA_SIGINFO :: u64 where "SA_SIGINFO \<equiv> 0x00000004"
abbreviation SA_ONSTACK :: u64 where "SA_ONSTACK \<equiv> 0x08000000"
abbreviation SA_RESTART :: u64 where "SA_RESTART \<equiv> 0x10000000"
abbreviation SA_NODEFER :: u64 where "SA_NODEFER \<equiv> 0x40000000"
abbreviation SA_RESETHAND :: u64 where "SA_RESETHAND \<equiv> 0x80000000"
abbreviation SA_RESTORER :: u64 where "SA_RESTORER \<equiv> 0x04000000"

record stack_t =
  ss_sp :: u64
  ss_flags :: u32
  ss_size :: u64

abbreviation SS_ONSTACK :: u32 where "SS_ONSTACK \<equiv> 0x00000001"
abbreviation SS_DISABLE :: u32 where "SS_DISABLE \<equiv> 0x00000002"
abbreviation SS_AUTODISARM :: u32 where "SS_AUTODISARM \<equiv> 0x40000000"
abbreviation MINSIGSTKSZ :: u64 where "MINSIGSTKSZ \<equiv> 2048"

text \<open>The x86-64 registers saved for \<^verbatim>\<open>rt_sigreturn\<close>, in the order of the structure.\<close>

record restore_arch =
  ra_r15 :: u64
  ra_r14 :: u64
  ra_r13 :: u64
  ra_r12 :: u64
  ra_rbp :: u64
  ra_rbx :: u64
  ra_r11 :: u64
  ra_r10 :: u64
  ra_r9 :: u64
  ra_r8 :: u64
  ra_rdx :: u64
  ra_rsi :: u64
  ra_rdi :: u64

record signal_restore =
  active :: bool
  sig :: int
  saved_blocked :: sigset_t
  saved_syscall_ret :: u64
  saved_user_pc :: u64
  saved_user_sp :: u64
  arch :: restore_arch

record proc_state =
  dispositions :: "sigaction list"
  p_pending :: sigset_t
  sigreturn_page :: u64

record thread_state =
  blocked_signals :: sigset_t
  pending_signals :: sigset_t
  alt_stack :: stack_t
  saved_main_sp :: u64
  signal_restore :: signal_restore
  signal_inflight :: u8

definition sigaction_dfl :: sigaction where
  "sigaction_dfl = \<lparr>sa_handler = SIG_DFL, sa_flags = 0, sa_restorer = 0, sa_mask = sigemptyset\<rparr>"

definition stack_zero :: stack_t where
  "stack_zero = \<lparr>ss_sp = 0, ss_flags = 0, ss_size = 0\<rparr>"

definition restore_zero :: signal_restore where
  "restore_zero = \<lparr>active = False, sig = 0, saved_blocked = 0, saved_syscall_ret = 0, saved_user_pc = 0,
     saved_user_sp = 0, arch = \<lparr>ra_r15 = 0, ra_r14 = 0, ra_r13 = 0, ra_r12 = 0, ra_rbp = 0, ra_rbx = 0,
       ra_r11 = 0, ra_r10 = 0, ra_r9 = 0, ra_r8 = 0, ra_rdx = 0, ra_rsi = 0, ra_rdi = 0\<rparr>\<rparr>"

definition linux_signal_init_proc_state :: proc_state where
  "linux_signal_init_proc_state =
     \<lparr>dispositions = replicate (nat NSIG) sigaction_dfl, p_pending = sigemptyset, sigreturn_page = 0\<rparr>"

definition linux_signal_init_thread_state :: thread_state where
  "linux_signal_init_thread_state =
     \<lparr>blocked_signals = sigemptyset, pending_signals = sigemptyset, alt_stack = stack_zero,
      saved_main_sp = 0, signal_restore = restore_zero, signal_inflight = 0\<rparr>"

subsection \<open>Attaching, forking, executing\<close>

text \<open>The argument is the \<^verbatim>\<open>signal\<close> pointer of the append structure, the result its new value.\<close>

definition linux_signal_proc_attach :: "bool \<Rightarrow> proc_state option \<Rightarrow> error_t \<times> proc_state option" where
  "linux_signal_proc_attach alloc_ok pa =
     (case pa of
        Some ps \<Rightarrow> (REND_SUCCESS, Some linux_signal_init_proc_state)
      | None \<Rightarrow> if alloc_ok then (REND_SUCCESS, Some linux_signal_init_proc_state)
                else (REND_ERR E_RENDEZVOS, None))"

definition linux_signal_proc_destroy :: "proc_state option \<Rightarrow> proc_state option" where
  "linux_signal_proc_destroy pa = (case pa of None \<Rightarrow> None | Some ps \<Rightarrow> None)"

definition linux_signal_proc_fork ::
  "bool \<Rightarrow> proc_state option \<Rightarrow> proc_state option \<Rightarrow> error_t \<times> proc_state option" where
  "linux_signal_proc_fork alloc_ok child parent =
     (case linux_signal_proc_attach alloc_ok child of
        (REND_ERR e, c) \<Rightarrow> (REND_ERR e, c)
      | (REND_SUCCESS, c) \<Rightarrow>
          (case c of
             None \<Rightarrow> (REND_SUCCESS, None)
           | Some cps \<Rightarrow>
               let cps1 = (case parent of None \<Rightarrow> cps | Some pps \<Rightarrow> cps\<lparr>dispositions := dispositions pps\<rparr>) in
               (REND_SUCCESS, Some (cps1\<lparr>p_pending := sigemptyset, sigreturn_page := 0\<rparr>))))"

definition linux_signal_proc_state :: "bool \<Rightarrow> proc_state option \<Rightarrow> proc_state option" where
  "linux_signal_proc_state alloc_ok pa =
     (case pa of Some ps \<Rightarrow> Some ps | None \<Rightarrow> snd (linux_signal_proc_attach alloc_ok None))"

definition reset_disposition :: "sigaction \<Rightarrow> sigaction" where
  "reset_disposition d =
     (if linux_signal_handler_is_dfl (sa_handler d) \<or> linux_signal_handler_is_ign (sa_handler d) then d
      else d\<lparr>sa_handler := SIG_DFL, sa_flags := 0, sa_mask := sigemptyset, sa_restorer := 0\<rparr>)"

definition linux_signal_proc_reset :: "bool \<Rightarrow> proc_state option \<Rightarrow> proc_state option" where
  "linux_signal_proc_reset alloc_ok pa =
     (case linux_signal_proc_state alloc_ok pa of
        None \<Rightarrow> None
      | Some ps \<Rightarrow> Some (ps\<lparr>p_pending := sigemptyset, sigreturn_page := 0,
                            dispositions := map reset_disposition (dispositions ps)\<rparr>))"

definition linux_signal_thread_attach :: "bool \<Rightarrow> thread_state option \<Rightarrow> error_t \<times> thread_state option" where
  "linux_signal_thread_attach alloc_ok ta =
     (case ta of
        Some ts \<Rightarrow> (REND_SUCCESS, Some linux_signal_init_thread_state)
      | None \<Rightarrow> if alloc_ok then (REND_SUCCESS, Some linux_signal_init_thread_state)
                else (REND_ERR E_RENDEZVOS, None))"

definition linux_signal_thread_destroy :: "thread_state option \<Rightarrow> thread_state option" where
  "linux_signal_thread_destroy ta = (case ta of None \<Rightarrow> None | Some ts \<Rightarrow> None)"

definition linux_signal_thread_fork_inherit ::
  "bool \<Rightarrow> thread_state option \<Rightarrow> thread_state option \<Rightarrow> bool \<Rightarrow> error_t \<times> thread_state option" where
  "linux_signal_thread_fork_inherit alloc_ok child parent copy_blocked =
     (let blocked = (case parent of
                       Some pts \<Rightarrow> if copy_blocked then blocked_signals pts else sigemptyset
                     | None \<Rightarrow> sigemptyset) in
      case linux_signal_thread_attach alloc_ok child of
        (REND_ERR e, c) \<Rightarrow> (REND_ERR e, c)
      | (REND_SUCCESS, c) \<Rightarrow>
          (REND_SUCCESS, map_option (\<lambda>ts. if copy_blocked then ts\<lparr>blocked_signals := blocked\<rparr> else ts) c))"

definition linux_signal_thread_state :: "bool \<Rightarrow> thread_state option \<Rightarrow> thread_state option" where
  "linux_signal_thread_state alloc_ok ta =
     (case ta of Some ts \<Rightarrow> Some ts | None \<Rightarrow> snd (linux_signal_thread_attach alloc_ok None))"

section \<open>Signal sets as sets of numbers\<close>

text \<open>The interface of signal sets: what the other signal components rely on.\<close>

locale signal_set =
  fixes empty :: 's and add :: "'s \<Rightarrow> int \<Rightarrow> 's" and del :: "'s \<Rightarrow> int \<Rightarrow> 's" and mem :: "'s \<Rightarrow> int \<Rightarrow> bool"
  assumes mem_empty: "\<not> mem empty k"
    and mem_add: "mem (add s j) k \<longleftrightarrow> mem s k \<or> (k = j \<and> 1 \<le> j \<and> j \<le> NSIG)"
    and mem_del: "mem (del s j) k \<longleftrightarrow> mem s k \<and> k \<noteq> j"
    and mem_range: "mem s k \<Longrightarrow> 1 \<le> k \<and> k \<le> NSIG"
    and mem_ext: "(\<And>k. mem s k = mem t k) \<Longrightarrow> s = t"
begin

lemma del_add: "\<not> mem s k \<Longrightarrow> del (add s k) k = s"
  by (rule mem_ext) (auto simp: mem_del mem_add)

lemma add_commute: "add (add s j) k = add (add s k) j"
  by (rule mem_ext) (auto simp: mem_add)

lemma del_del: "del (del s k) k = del s k"
  by (rule mem_ext) (auto simp: mem_del)

lemma mem_fold_add:
  "mem (fold (\<lambda>j s. if P j then add s j else s) js s) k
     \<longleftrightarrow> mem s k \<or> (k \<in> set js \<and> P k \<and> 1 \<le> k \<and> k \<le> NSIG)"
  by (induction js arbitrary: s) (auto simp: mem_add)

end

lemma bit_sigbit: "1 \<le> s \<Longrightarrow> s \<le> 64 \<Longrightarrow> bit (sigbit s) n \<longleftrightarrow> n = nat (s - 1)"
  by (auto simp: sigbit_def bit_push_bit_iff bit_1_iff simp del: push_bit_of_1)

lemma sigismember_bit: "sigismember ss s \<longleftrightarrow> 1 \<le> s \<and> s \<le> 64 \<and> bit ss (nat (s - 1))"
proof (cases "1 \<le> s \<and> s \<le> 64")
  case True
  then have "ss AND sigbit s \<noteq> 0 \<longleftrightarrow> bit ss (nat (s - 1))"
    by (subst bit_eq_iff) (auto simp: bit_and_iff bit_sigbit)
  then show ?thesis using True by (simp add: sigismember_def)
qed (auto simp: sigismember_def)

lemma bit_sigmember:
  fixes ss :: sigset_t
  assumes "n < 64"
  shows "bit ss n \<longleftrightarrow> sigismember ss (int n + 1)"
  using assms by (simp add: sigismember_bit)

interpretation sset: signal_set sigemptyset sigaddset sigdelset sigismember
proof unfold_locales
  fix s t :: sigset_t and j k :: int
  show "\<not> sigismember sigemptyset k" by (simp add: sigismember_bit sigemptyset_def)
  show "sigismember (sigaddset s j) k \<longleftrightarrow> sigismember s k \<or> (k = j \<and> 1 \<le> j \<and> j \<le> NSIG)"
    by (auto simp: sigismember_bit sigaddset_def bit_or_iff bit_sigbit)
  show "sigismember (sigdelset s j) k \<longleftrightarrow> sigismember s k \<and> k \<noteq> j"
    by (auto simp: sigismember_bit sigdelset_def bit_and_iff bit_not_iff bit_sigbit)
  show "sigismember s k \<Longrightarrow> 1 \<le> k \<and> k \<le> NSIG" by (simp add: sigismember_bit)
  show "s = t" if "\<And>k. sigismember s k = sigismember t k"
    by (rule bit_word_eqI) (use that in \<open>simp add: bit_sigmember\<close>)
qed

declare sset.mem_empty [simp] sset.mem_add [simp] sset.mem_del [simp]

lemma sigismember_or [simp]: "sigismember (a OR b) k \<longleftrightarrow> sigismember a k \<or> sigismember b k"
  by (auto simp: sigismember_bit bit_or_iff)

lemma sigismember_andnot [simp]: "sigismember (a AND NOT b) k \<longleftrightarrow> sigismember a k \<and> \<not> sigismember b k"
  by (auto simp: sigismember_bit bit_and_iff bit_not_iff)

lemma sigset_zero_iff: "s = 0 \<longleftrightarrow> (\<forall>k. \<not> sigismember s k)"
  using sset.mem_ext [of s sigemptyset] by (auto simp: sigemptyset_def sigismember_bit)

section \<open>Well-formed signal state\<close>

definition proc_ok :: "proc_state \<Rightarrow> bool" where
  "proc_ok ps \<longleftrightarrow> length (dispositions ps) = 64
     \<and> sa_handler (dispositions ps ! nat (SIGKILL - 1)) = SIG_DFL
     \<and> sa_handler (dispositions ps ! nat (SIGSTOP - 1)) = SIG_DFL"

lemma init_proc_ok: "proc_ok linux_signal_init_proc_state"
  by (simp add: proc_ok_def linux_signal_init_proc_state_def sigaction_dfl_def)

lemma proc_state_ok: "(\<And>q. pa = Some q \<Longrightarrow> proc_ok q) \<Longrightarrow> linux_signal_proc_state a pa = Some ps \<Longrightarrow> proc_ok ps"
  by (auto simp: linux_signal_proc_state_def linux_signal_proc_attach_def init_proc_ok split: option.splits if_splits)

lemma fork_some:
  "linux_signal_proc_fork True child (Some pps) =
     (REND_SUCCESS, Some \<lparr>dispositions = dispositions pps, p_pending = sigemptyset, sigreturn_page = 0\<rparr>)"
  by (auto simp: linux_signal_proc_fork_def linux_signal_proc_attach_def linux_signal_init_proc_state_def Let_def
      split: option.splits)

section \<open>Properties\<close>

text \<open>Forking and executing transform the dispositions as POSIX asks. After \<^verbatim>\<open>fork\<close> the child has
  the dispositions of its parent, nothing pending and no return stub page, whatever state was attached
  to it before; its thread starts from a fresh state that keeps only the blocked set, and only when it
  is asked to. After \<^verbatim>\<open>execve\<close> a caught signal is back at its default with cleared flags, mask and
  restorer, ignored and defaulted ones are unchanged, nothing is pending, and the well-formedness of
  the state (64 dispositions, SIGKILL and SIGSTOP at the default) is kept by both; the reset twice is
  the reset once.\<close>

lemma fork_exec_dispositions:
  assumes ok: "proc_ok ps"
  shows "\<exists>cps ps' ts. linux_signal_proc_fork True child (Some ps) = (REND_SUCCESS, Some cps)
    \<and> dispositions cps = dispositions ps \<and> p_pending cps = 0 \<and> sigreturn_page cps = 0 \<and> proc_ok cps
    \<and> linux_signal_thread_fork_inherit True cts (Some pts) copy = (REND_SUCCESS, Some ts)
    \<and> ts = linux_signal_init_thread_state\<lparr>blocked_signals := if copy then blocked_signals pts else 0\<rparr>
    \<and> linux_signal_proc_reset alloc_ok (Some ps) = Some ps'
    \<and> proc_ok ps' \<and> p_pending ps' = 0 \<and> sigreturn_page ps' = 0
    \<and> (\<forall>i < 64. dispositions ps' ! i =
         (if 1 < sa_handler (dispositions ps ! i) then sigaction_dfl else dispositions ps ! i))
    \<and> linux_signal_proc_reset alloc_ok (Some ps') = Some ps'"
proof -
  have reset: "reset_disposition d = (if 1 < sa_handler d then sigaction_dfl else d)" for d
  proof -
    have "sa_handler d \<noteq> 0 \<Longrightarrow> sa_handler d \<noteq> 1 \<Longrightarrow> 1 < sa_handler d"
      by unat_arith
    moreover have "\<not> 1 < (0 :: u64)" by simp
    ultimately show ?thesis
      by (auto simp: reset_disposition_def linux_signal_handler_is_dfl_def linux_signal_handler_is_ign_def
          sigaction_dfl_def intro: sigaction.equality)
  qed
  have twice: "reset_disposition (reset_disposition d) = reset_disposition d" for d
    by (simp add: reset sigaction_dfl_def)
  let ?ps' = "ps\<lparr>p_pending := sigemptyset, sigreturn_page := 0, dispositions := map reset_disposition (dispositions ps)\<rparr>"
  have "proc_ok ?ps'"
    using ok by (simp add: proc_ok_def reset)
  moreover have "linux_signal_proc_reset alloc_ok (Some ?ps') = Some ?ps'"
    by (simp add: linux_signal_proc_reset_def linux_signal_proc_state_def comp_def twice)
  moreover have "linux_signal_thread_fork_inherit True cts (Some pts) copy =
      (REND_SUCCESS, Some (linux_signal_init_thread_state\<lparr>blocked_signals := if copy then blocked_signals pts else 0\<rparr>))"
    by (auto simp: linux_signal_thread_fork_inherit_def linux_signal_thread_attach_def
        linux_signal_init_thread_state_def sigemptyset_def split: option.splits)
  ultimately show ?thesis
    using ok by (simp add: fork_some linux_signal_proc_reset_def linux_signal_proc_state_def proc_ok_def reset
        sigemptyset_def comp_def)
qed

end
