(* ===== verification/Signal_Queue.thy ===== *)
theory Signal_Queue
  imports Signal_State
begin

text \<open>
  Sending signals and the signal system calls that do not switch the user context:
  \<^verbatim>\<open>linux_layer/signal/signal_queue.c\<close>, \<^verbatim>\<open>linux_layer/proc/sys_kill.c\<close>, \<^verbatim>\<open>sys_rt_sigaction.c\<close>,
  \<^verbatim>\<open>sys_rt_sigprocmask.c\<close> and \<^verbatim>\<open>sys_sigaltstack.c\<close>.

  A process holds its signal state and its threads in list order; a thread is found by its
  identifier. Copies from and to user memory are arguments: a NULL user pointer is \<open>None\<close>, a failed
  copy is \<open>False\<close> or an inner \<open>None\<close>. Waking a thread blocked on a port is a message sent by another component;
  here it is the returned \<open>wake\<close> value that says which message.
\<close>

section \<open>Definitions\<close>

datatype thread_status =
  thread_status_running | thread_status_ready | thread_status_block_on_send
| thread_status_block_on_receive | thread_status_other

record linux_thread =
  tid :: nat
  t_signal :: "thread_state option"
  t_status :: thread_status
  port_ptr :: "nat option"
  sleep_port :: "nat option"

record linux_proc =
  p_signal :: "proc_state option"
  threads :: "linux_thread list"

datatype wake = Wake_none | Wake_sleep | Wake_wait | Wake_recv nat

definition put_thread :: "linux_proc \<Rightarrow> linux_thread \<Rightarrow> linux_proc" where
  "put_thread p t = p\<lparr>threads := map (\<lambda>u. if tid u = tid t then t else u) (threads p)\<rparr>"

definition signal_select_thread_helper :: "nat option \<Rightarrow> linux_proc \<Rightarrow> linux_thread option" where
  "signal_select_thread_helper cur p =
     (case find (\<lambda>t. cur = Some (tid t)) (threads p) of
        Some t \<Rightarrow> Some t
      | None \<Rightarrow> (case threads p of [] \<Rightarrow> None | t # ts \<Rightarrow> Some t))"

definition flush_thread :: "bool \<Rightarrow> int \<Rightarrow> linux_thread \<Rightarrow> linux_thread" where
  "flush_thread alloc_ok s t =
     t\<lparr>t_signal := map_option (\<lambda>ts. ts\<lparr>pending_signals := sigdelset (pending_signals ts) s\<rparr>)
                     (linux_signal_thread_state alloc_ok (t_signal t))\<rparr>"

definition linux_signal_flush_pending :: "bool \<Rightarrow> linux_proc \<Rightarrow> int \<Rightarrow> linux_proc" where
  "linux_signal_flush_pending alloc_ok p s =
     (if s < 1 \<or> NSIG < s then p
      else case p_signal p of
        None \<Rightarrow> p
      | Some ps \<Rightarrow> p\<lparr>p_signal := Some (ps\<lparr>p_pending := sigdelset (p_pending ps) s\<rparr>),
                      threads := map (flush_thread alloc_ok s) (threads p)\<rparr>)"

definition signal_wake :: "nat option \<Rightarrow> linux_thread \<Rightarrow> wake \<times> linux_thread" where
  "signal_wake wait_port t =
     (case t_status t of
        thread_status_block_on_receive \<Rightarrow>
          (case port_ptr t of
             None \<Rightarrow> (Wake_none, t)
           | Some port \<Rightarrow>
               if sleep_port t = Some port then (Wake_sleep, t)
               else if wait_port = Some port then (Wake_wait, t)
               else (Wake_recv port, t))
      | thread_status_block_on_send \<Rightarrow> (Wake_none, t)
      | thread_status_running \<Rightarrow> (Wake_none, t)
      | _ \<Rightarrow> (Wake_none, t\<lparr>t_status := thread_status_ready\<rparr>))"

definition signal_queue_on_thread_helper ::
  "bool \<Rightarrow> nat option \<Rightarrow> linux_proc \<Rightarrow> linux_thread \<Rightarrow> int \<Rightarrow> int \<times> wake \<times> linux_proc" where
  "signal_queue_on_thread_helper alloc_ok wait_port p t s =
     (let pso = linux_signal_proc_state alloc_ok (p_signal p);
          tso = linux_signal_thread_state alloc_ok (t_signal t);
          p1 = put_thread (p\<lparr>p_signal := pso\<rparr>) (t\<lparr>t_signal := tso\<rparr>) in
      case (pso, tso) of
        (Some ps, Some ts) \<Rightarrow>
          let ps1 = ps\<lparr>p_pending := sigaddset (p_pending ps) s\<rparr>;
              ts1 = ts\<lparr>pending_signals := sigaddset (pending_signals ts) s\<rparr>;
              (w, t1) = signal_wake wait_port (t\<lparr>t_signal := Some ts1\<rparr>) in
          (0, w, put_thread (p1\<lparr>p_signal := Some ps1\<rparr>) t1)
      | _ \<Rightarrow> (- LINUX_ESRCH, Wake_none, p1))"

definition linux_queue_signal ::
  "bool \<Rightarrow> nat option \<Rightarrow> nat option \<Rightarrow> linux_proc \<Rightarrow> int \<Rightarrow> int \<times> wake \<times> linux_proc" where
  "linux_queue_signal alloc_ok wait_port cur p s =
     (if s < 1 \<or> NSIG < s then (- LINUX_EINVAL, Wake_none, p)
      else case linux_signal_proc_state alloc_ok (p_signal p) of
        None \<Rightarrow> (- LINUX_ESRCH, Wake_none, p)
      | Some ps \<Rightarrow>
          let p1 = p\<lparr>p_signal := Some ps\<rparr> in
          if linux_signal_handler_is_ign (sa_handler (dispositions ps ! nat (s - 1)))
          then (0, Wake_none, linux_signal_flush_pending alloc_ok p1 s)
          else case signal_select_thread_helper cur p1 of
            None \<Rightarrow> (- LINUX_ESRCH, Wake_none, p1)
          | Some t \<Rightarrow> signal_queue_on_thread_helper alloc_ok wait_port p1 t s)"

definition linux_queue_signal_thread ::
  "bool \<Rightarrow> nat option \<Rightarrow> linux_proc \<Rightarrow> linux_thread \<Rightarrow> int \<Rightarrow> int \<times> wake \<times> linux_proc" where
  "linux_queue_signal_thread alloc_ok wait_port p t s =
     (if s < 1 \<or> NSIG < s then (- LINUX_EINVAL, Wake_none, p)
      else case linux_signal_proc_state alloc_ok (p_signal p) of
        None \<Rightarrow> (- LINUX_ESRCH, Wake_none, p)
      | Some ps \<Rightarrow>
          let p1 = p\<lparr>p_signal := Some ps\<rparr> in
          if linux_signal_handler_is_ign (sa_handler (dispositions ps ! nat (s - 1)))
          then (0, Wake_none, linux_signal_flush_pending alloc_ok p1 s)
          else signal_queue_on_thread_helper alloc_ok wait_port p1 t s)"

subsection \<open>System calls\<close>

text \<open>The C conversion from \<^verbatim>\<open>i64\<close> to \<^verbatim>\<open>int\<close>.\<close>

definition c_int :: "int \<Rightarrow> int" where
  "c_int x = sint (word_of_int x :: 32 word)"

text \<open>\<open>procs\<close> is the process registry, \<open>wait_port pid\<close> the port named after the process.\<close>

definition sys_kill ::
  "bool \<Rightarrow> (int \<Rightarrow> nat option) \<Rightarrow> nat option \<Rightarrow> (int \<Rightarrow> linux_proc option) \<Rightarrow> int \<Rightarrow> int
   \<Rightarrow> int \<times> wake \<times> (int \<Rightarrow> linux_proc option)" where
  "sys_kill alloc_ok wait_port cur procs pid sig_i =
     (let s = c_int sig_i in
      if s < 0 \<or> NSIG < s then (- LINUX_EINVAL, Wake_none, procs)
      else if s = 0 then (if procs pid \<noteq> None then 0 else - LINUX_ESRCH, Wake_none, procs)
      else if pid = 1 \<and> (s = SIGKILL \<or> s = SIGSTOP) then (- LINUX_EPERM, Wake_none, procs)
      else case procs pid of
        None \<Rightarrow> (- LINUX_ESRCH, Wake_none, procs)
      | Some target \<Rightarrow>
          (case linux_queue_signal alloc_ok (wait_port pid) cur target s of
             (result, w, target1) \<Rightarrow> (if result \<noteq> 0 then result else 0, w, procs(pid \<mapsto> target1))))"

definition signal_is_valid :: "int \<Rightarrow> bool" where
  "signal_is_valid signum \<longleftrightarrow> 1 \<le> signum \<and> signum \<le> NSIG"

definition signal_can_catch_or_ignore :: "int \<Rightarrow> bool" where
  "signal_can_catch_or_ignore signum \<longleftrightarrow> signum \<noteq> SIGKILL \<and> signum \<noteq> SIGSTOP"

definition linux_sigsetsize_valid :: "u64 \<Rightarrow> bool" where
  "linux_sigsetsize_valid sz \<longleftrightarrow> sz = 8"

text \<open>The complement is taken in \<^verbatim>\<open>unsigned int\<close> and then widened to the flags' 64 bits.\<close>

definition sa_unknown_flags :: u64 where
  "sa_unknown_flags = ucast (NOT (0x00000001 OR 0x00000002 OR 0x00000004 OR 0x08000000 OR 0x10000000
     OR 0x40000000 OR 0x80000000 OR 0x04000000 :: u32))"

definition sys_rt_sigaction ::
  "bool \<Rightarrow> bool \<Rightarrow> int \<Rightarrow> sigaction option option \<Rightarrow> bool option \<Rightarrow> u64 \<Rightarrow> linux_proc
   \<Rightarrow> int \<times> sigaction option \<times> linux_proc" where
  "sys_rt_sigaction alloc_ok user_vs signum_i act oldact sigsetsize p =
     (let signum = c_int signum_i in
      case linux_signal_proc_state alloc_ok (p_signal p) of
        None \<Rightarrow> (- LINUX_ENOMEM, None, p)
      | Some ps \<Rightarrow>
          let p1 = p\<lparr>p_signal := Some ps\<rparr>; i = nat (signum - 1); old = dispositions ps ! i in
          if \<not> user_vs then (- LINUX_EFAULT, None, p1)
          else if \<not> signal_is_valid signum \<or> \<not> linux_sigsetsize_valid sigsetsize then (- LINUX_EINVAL, None, p1)
          else if act \<noteq> None \<and> \<not> signal_can_catch_or_ignore signum then (- LINUX_EINVAL, None, p1)
          else if oldact = Some False then (- LINUX_EFAULT, None, p1)
          else let out = map_option (\<lambda>_. old) oldact in
            case act of
              None \<Rightarrow> (0, out, p1)
            | Some None \<Rightarrow> (- LINUX_EFAULT, out, p1)
            | Some (Some new_action) \<Rightarrow>
                if sa_flags new_action AND sa_unknown_flags \<noteq> 0 then (- LINUX_EINVAL, out, p1)
                else let p2 = p1\<lparr>p_signal := Some (ps\<lparr>dispositions := (dispositions ps)[i := new_action]\<rparr>)\<rparr> in
                  (0, out, if linux_signal_handler_is_special (sa_handler new_action)
                           then linux_signal_flush_pending alloc_ok p2 signum else p2))"

definition signal_mask_sanitize_helper :: "sigset_t \<Rightarrow> sigset_t" where
  "signal_mask_sanitize_helper s = sigdelset (sigdelset s SIGKILL) SIGSTOP"

text \<open>\<open>set\<close> and \<open>oldset\<close>: \<open>None\<close> for a NULL pointer; then whether the copy works, and what it reads.\<close>

definition sys_rt_sigprocmask ::
  "bool \<Rightarrow> bool \<Rightarrow> int \<Rightarrow> sigset_t option option \<Rightarrow> bool option \<Rightarrow> u64 \<Rightarrow> thread_state option
   \<Rightarrow> int \<times> sigset_t option \<times> thread_state option" where
  "sys_rt_sigprocmask alloc_ok user_vs how_i new_set oldset sigsetsize ta =
     (let how = c_int how_i in
      case linux_signal_thread_state alloc_ok ta of
        None \<Rightarrow> (- LINUX_ENOMEM, None, ta)
      | Some ts \<Rightarrow>
          if \<not> user_vs then (- LINUX_EFAULT, None, Some ts)
          else if \<not> linux_sigsetsize_valid sigsetsize then (- LINUX_EINVAL, None, Some ts)
          else if oldset = Some False then (- LINUX_EFAULT, None, Some ts)
          else let out = map_option (\<lambda>_. blocked_signals ts) oldset in
            case new_set of
              None \<Rightarrow> (0, out, Some ts)
            | Some None \<Rightarrow> (- LINUX_EFAULT, out, Some ts)
            | Some (Some s) \<Rightarrow>
                if how \<noteq> 0 \<and> how \<noteq> 1 \<and> how \<noteq> 2 then (- LINUX_EINVAL, out, Some ts)
                else let b = (if how = 0 then blocked_signals ts OR s
                              else if how = 1 then blocked_signals ts AND NOT s
                              else s) in
                  (0, out, Some (ts\<lparr>blocked_signals := signal_mask_sanitize_helper b\<rparr>)))"

definition signal_validate_new_altstack :: "stack_t \<Rightarrow> int" where
  "signal_validate_new_altstack st =
     (if ss_flags st AND SS_ONSTACK \<noteq> 0 then - LINUX_EINVAL
      else if ss_flags st AND NOT (SS_DISABLE OR SS_AUTODISARM) \<noteq> 0 then - LINUX_EINVAL
      else if ss_flags st AND SS_DISABLE \<noteq> 0 then 0
      else if ss_sp st = 0 \<or> ss_size st = 0 then - LINUX_EINVAL
      else if ss_size st < MINSIGSTKSZ then - LINUX_ENOMEM
      else 0)"

definition sys_sigaltstack ::
  "bool \<Rightarrow> bool \<Rightarrow> stack_t option option \<Rightarrow> bool option \<Rightarrow> thread_state option
   \<Rightarrow> int \<times> stack_t option \<times> thread_state option" where
  "sys_sigaltstack alloc_ok user_vs new_ss old_ss ta =
     (case linux_signal_thread_state alloc_ok ta of
        None \<Rightarrow> (- LINUX_ENOMEM, None, ta)
      | Some ts \<Rightarrow>
          if \<not> user_vs then (- LINUX_EFAULT, None, Some ts)
          else
            let old = (if ss_sp (alt_stack ts) = 0 \<or> ss_flags (alt_stack ts) AND SS_DISABLE \<noteq> 0
                       then \<lparr>ss_sp = 0, ss_flags = SS_DISABLE, ss_size = 0\<rparr> else alt_stack ts) in
            if old_ss = Some False then (- LINUX_EFAULT, None, Some ts)
            else let out = map_option (\<lambda>_. old) old_ss in
              case new_ss of
                None \<Rightarrow> (0, out, Some ts)
              | Some copied \<Rightarrow>
                  if ss_flags (alt_stack ts) AND SS_ONSTACK \<noteq> 0 then (- LINUX_EPERM, out, Some ts)
                  else (case copied of
                    None \<Rightarrow> (- LINUX_EFAULT, out, Some ts)
                  | Some st \<Rightarrow>
                      let ret = signal_validate_new_altstack st in
                      if ret \<noteq> 0 then (ret, out, Some ts)
                      else if ss_flags st AND SS_DISABLE \<noteq> 0
                      then (0, out, Some (ts\<lparr>alt_stack := stack_zero\<lparr>ss_flags := SS_DISABLE\<rparr>\<rparr>))
                      else (0, out, Some (ts\<lparr>alt_stack := st\<lparr>ss_flags := ss_flags st AND NOT SS_ONSTACK\<rparr>\<rparr>))))"

section \<open>Lemmas\<close>

lemma c_int_small: "- (2 ^ 31) \<le> x \<Longrightarrow> x < 2 ^ 31 \<Longrightarrow> c_int x = x"
  by (simp add: c_int_def signed_of_int signed_take_bit_int_eq_self)

lemma handler_is_simps [simp]:
  "linux_signal_handler_is_ign h \<longleftrightarrow> h = 1" "linux_signal_handler_is_dfl h \<longleftrightarrow> h = 0"
  by (simp_all add: linux_signal_handler_is_ign_def linux_signal_handler_is_dfl_def)

lemma select_thread_some:
  assumes "threads p \<noteq> []"
  obtains t where "signal_select_thread_helper cur p = Some t" "t \<in> set (threads p)"
    "if \<exists>u \<in> set (threads p). cur = Some (tid u) then cur = Some (tid t) else t = hd (threads p)"
proof (cases "find (\<lambda>t. cur = Some (tid t)) (threads p)")
  case None
  then have no: "\<not> (\<exists>u \<in> set (threads p). cur = Some (tid u))" by (simp add: find_None_iff)
  obtain t ts where "threads p = t # ts" using assms by (cases "threads p") auto
  with None no show ?thesis
    by (intro that [of t]) (simp_all add: signal_select_thread_helper_def)
next
  case (Some t)
  then have "t \<in> set (threads p)" "cur = Some (tid t)"
    by (auto simp: find_Some_iff)
  with Some show ?thesis
    by (intro that [of t]) (auto simp: signal_select_thread_helper_def)
qed

lemma put_thread_twice: "tid t = tid t' \<Longrightarrow> put_thread (put_thread p t) t' = put_thread p t'"
  by (simp add: put_thread_def comp_def)

lemma put_thread_proc [simp]:
  "put_thread (p\<lparr>p_signal := x\<rparr>) t = (put_thread p t)\<lparr>p_signal := x\<rparr>"
  "p_signal (put_thread p t) = p_signal p"
  by (simp_all add: put_thread_def)

lemma put_thread_distinct:
  "distinct (map tid (threads p)) \<Longrightarrow> t \<in> set (threads p) \<Longrightarrow> tid t' = tid t \<Longrightarrow>
   threads (put_thread p t') = map (\<lambda>u. if u = t then t' else u) (threads p)"
  by (auto simp: put_thread_def distinct_map inj_on_def)

lemma signal_wake_spec:
  assumes "signal_wake wp t = (w, t')"
  shows "tid t' = tid t" "t_signal t' = t_signal t"
    "t_status t \<in> {thread_status_running, thread_status_block_on_send, thread_status_block_on_receive} \<Longrightarrow> t' = t"
    "t_status t = thread_status_block_on_receive \<Longrightarrow> port_ptr t \<noteq> None \<Longrightarrow> w \<noteq> Wake_none"
    "t_status t \<in> {thread_status_ready, thread_status_other} \<Longrightarrow> t_status t' = thread_status_ready"
  using assms by (auto simp: signal_wake_def split: thread_status.splits option.splits if_splits)

lemma thread_state_True: "linux_signal_thread_state True ta = Some (case ta of Some ts \<Rightarrow> ts | None \<Rightarrow> linux_signal_init_thread_state)"
  by (simp add: linux_signal_thread_state_def linux_signal_thread_attach_def split: option.splits)

lemma queue_on_thread_True:
  assumes "p_signal p = Some ps"
  shows "\<exists>w t'. signal_queue_on_thread_helper True wp p t s =
      (0, w, (put_thread p t')\<lparr>p_signal := Some (ps\<lparr>p_pending := sigaddset (p_pending ps) s\<rparr>)\<rparr>)
    \<and> signal_wake wp (t\<lparr>t_signal := Some (the (linux_signal_thread_state True (t_signal t))
         \<lparr>pending_signals := sigaddset (pending_signals (the (linux_signal_thread_state True (t_signal t)))) s\<rparr>)\<rparr>) = (w, t')"
proof -
  let ?ts = "the (linux_signal_thread_state True (t_signal t))"
  obtain w t' where w: "signal_wake wp (t\<lparr>t_signal := Some (?ts\<lparr>pending_signals := sigaddset (pending_signals ?ts) s\<rparr>)\<rparr>) = (w, t')"
    by (cases "signal_wake wp (t\<lparr>t_signal := Some (?ts\<lparr>pending_signals := sigaddset (pending_signals ?ts) s\<rparr>)\<rparr>)")
  have "tid t' = tid t" using signal_wake_spec(1) [OF w] by simp
  then show ?thesis
    using assms w
    by (simp add: signal_queue_on_thread_helper_def Let_def linux_signal_proc_state_def thread_state_True put_thread_twice)
qed

section \<open>Properties\<close>

text \<open>\<^verbatim>\<open>kill\<close> with a signal that is not ignored returns 0 and marks the signal pending in the process
  and in exactly one of its threads: the calling thread when it belongs to the process, the first
  thread otherwise. All other threads and processes are unchanged, no other signal becomes pending or
  is lost, a thread blocked on a port is never made ready directly but always gets a wake-up message,
  and a sleeping, non-running thread becomes ready.\<close>

lemma kill_queues_signal:
  assumes p: "procs pid = Some p" "distinct (map tid (threads p))" "threads p \<noteq> []" "p_signal p = Some ps"
    and s: "1 \<le> s" "s \<le> NSIG" "pid \<noteq> 1 \<or> signal_can_catch_or_ignore s"
    and caught: "sa_handler (dispositions ps ! nat (s - 1)) \<noteq> SIG_IGN"
  shows "\<exists>t t' w p'. sys_kill True wp cur procs pid s = (0, w, procs(pid \<mapsto> p'))
    \<and> t \<in> set (threads p)
    \<and> (if \<exists>u \<in> set (threads p). cur = Some (tid u) then cur = Some (tid t) else t = hd (threads p))
    \<and> p_signal p' = Some (ps\<lparr>p_pending := sigaddset (p_pending ps) s\<rparr>)
    \<and> threads p' = map (\<lambda>u. if u = t then t' else u) (threads p)
    \<and> t_signal t' = map_option (\<lambda>ts. ts\<lparr>pending_signals := sigaddset (pending_signals ts) s\<rparr>)
          (linux_signal_thread_state True (t_signal t))
    \<and> (if t_status t = thread_status_block_on_receive
       then t_status t' = thread_status_block_on_receive \<and> (port_ptr t \<noteq> None \<longrightarrow> w \<noteq> Wake_none)
       else t_status t' = (if t_status t \<in> {thread_status_running, thread_status_block_on_send} then t_status t
                           else thread_status_ready))"
proof -
  have ci: "c_int s = s" using s by (intro c_int_small) simp_all
  obtain t where t: "signal_select_thread_helper cur p = Some t" "t \<in> set (threads p)"
      "if \<exists>u \<in> set (threads p). cur = Some (tid u) then cur = Some (tid t) else t = hd (threads p)"
    by (rule select_thread_some [OF p(3)])
  let ?ts = "the (linux_signal_thread_state True (t_signal t))"
  let ?t1 = "t\<lparr>t_signal := Some (?ts\<lparr>pending_signals := sigaddset (pending_signals ?ts) s\<rparr>)\<rparr>"
  let ?ps1 = "ps\<lparr>p_pending := sigaddset (p_pending ps) s\<rparr>"
  obtain w t' where q: "signal_queue_on_thread_helper True (wp pid) p t s = (0, w, (put_thread p t')\<lparr>p_signal := Some ?ps1\<rparr>)"
      and w: "signal_wake (wp pid) ?t1 = (w, t')"
    using queue_on_thread_True [OF p(4), of "wp pid" t s] by auto
  have psid: "p\<lparr>p_signal := Some ps\<rparr> = p" using p(4) by (auto intro: linux_proc.equality)
  have "linux_queue_signal True (wp pid) cur p s = (0, w, (put_thread p t')\<lparr>p_signal := Some ?ps1\<rparr>)"
    using p(4) s caught t(1) q by (simp add: linux_queue_signal_def linux_signal_proc_state_def psid)
  then have k: "sys_kill True wp cur procs pid s = (0, w, procs(pid \<mapsto> (put_thread p t')\<lparr>p_signal := Some ?ps1\<rparr>))"
    using p(1) s by (auto simp: sys_kill_def Let_def ci signal_can_catch_or_ignore_def)
  note sp = signal_wake_spec [OF w]
  have th: "threads ((put_thread p t')\<lparr>p_signal := Some ?ps1\<rparr>) = map (\<lambda>u. if u = t then t' else u) (threads p)"
    using put_thread_distinct [OF p(2) t(2)] sp(1) by simp
  have st: "if t_status t = thread_status_block_on_receive
       then t_status t' = thread_status_block_on_receive \<and> (port_ptr t \<noteq> None \<longrightarrow> w \<noteq> Wake_none)
       else t_status t' = (if t_status t \<in> {thread_status_running, thread_status_block_on_send} then t_status t
                           else thread_status_ready)"
    using sp(3-5) by (cases "t_status t") auto
  have sg: "t_signal t' = map_option (\<lambda>ts. ts\<lparr>pending_signals := sigaddset (pending_signals ts) s\<rparr>)
          (linux_signal_thread_state True (t_signal t))"
    using sp(2) by (simp add: thread_state_True)
  show ?thesis using k t(2,3) th st sg by (intro exI conjI) (assumption | simp)+
qed

definition kill_wp :: "int \<Rightarrow> nat option" where
  "kill_wp pid = Some 3"

definition kill_proc :: linux_proc where
  "kill_proc = \<lparr>p_signal = Some linux_signal_init_proc_state,
     threads = [\<lparr>tid = 7, t_signal = None, t_status = thread_status_block_on_receive, port_ptr = Some 3, sleep_port = None\<rparr>]\<rparr>"

text \<open>C31. \<^verbatim>\<open>rt_sigaction\<close> keeps the signal state well formed: whatever the arguments, the 64 dispositions
  remain, and the handlers of SIGKILL and SIGSTOP stay at the default. It reports success only for a
  valid signal number and set size; it then hands out the previous action when asked to, installs
  exactly the new one, and when this is the default or to ignore, the signal is pending nowhere any
  more. On an error the dispositions and pending signals are unchanged.\<close>

theorem sigaction_keeps_uncatchable:
  assumes ps: "p_signal p = Some ps" "proc_ok ps"
    and call: "sys_rt_sigaction alloc_ok user_vs signum act oldact sz p = (r, out, p')"
  shows "\<exists>ps'. p_signal p' = Some ps' \<and> proc_ok ps'
    \<and> (r \<noteq> 0 \<longrightarrow> p' = p)
    \<and> (r = 0 \<longrightarrow> 1 \<le> c_int signum \<and> c_int signum \<le> NSIG \<and> sz = 8
        \<and> out = map_option (\<lambda>_. dispositions ps ! nat (c_int signum - 1)) oldact
        \<and> (case act of None \<Rightarrow> p' = p
           | Some None \<Rightarrow> False
           | Some (Some a) \<Rightarrow> signal_can_catch_or_ignore (c_int signum)
               \<and> dispositions ps' = (dispositions ps)[nat (c_int signum - 1) := a]
               \<and> (sa_handler a \<le> 1 \<longrightarrow> \<not> sigismember (p_pending ps') (c_int signum)
                   \<and> (\<forall>t \<in> set (threads p'). \<forall>ts. t_signal t = Some ts \<longrightarrow> \<not> sigismember (pending_signals ts) (c_int signum)))))"
proof -
  let ?s = "c_int signum" and ?ds = "dispositions ps"
  have id: "p\<lparr>p_signal := Some ps\<rparr> = p" using ps(1) by (auto intro: linux_proc.equality)
  have upd: "proc_ok (ps\<lparr>dispositions := ?ds[nat (?s - 1) := a]\<rparr>)"
    if "signal_can_catch_or_ignore ?s" "1 \<le> ?s" for a
  proof -
    have "nat (?s - 1) \<noteq> 8" "nat (?s - 1) \<noteq> 18"
      using that by (auto simp: signal_can_catch_or_ignore_def)
    then show ?thesis using ps(2) by (simp add: proc_ok_def)
  qed
  have flush: "\<not> sigismember (pending_signals ts) ?s"
    if "t_signal (flush_thread alloc_ok ?s t) = Some ts" for t ts
    using that by (auto simp: flush_thread_def)
  show ?thesis
    using call ps upd flush
    by (auto simp: sys_rt_sigaction_def Let_def linux_signal_proc_state_def id signal_is_valid_def
        linux_sigsetsize_valid_def linux_signal_flush_pending_def linux_signal_handler_is_special_def proc_ok_def
        split: if_splits option.splits)
qed

theorem sigaction_keeps_uncatchable_witness:
  "\<exists>ps'. p_signal (snd (snd (sys_rt_sigaction True True 15 (Some (Some (sigaction_dfl\<lparr>sa_handler := 0x4000\<rparr>))) None 8 kill_proc))) = Some ps'
     \<and> proc_ok ps' \<and> sa_handler (dispositions ps' ! 14) = 0x4000"
proof -
  let ?c = "sys_rt_sigaction True True 15 (Some (Some (sigaction_dfl\<lparr>sa_handler := 0x4000\<rparr>))) None 8 kill_proc"
  have ps: "p_signal kill_proc = Some linux_signal_init_proc_state" by (simp add: kill_proc_def)
  have c: "c_int 15 = 15" by (rule c_int_small) simp_all
  have r: "fst ?c = 0"
    by (simp add: sys_rt_sigaction_def Let_def linux_signal_proc_state_def ps c signal_is_valid_def
        linux_sigsetsize_valid_def signal_can_catch_or_ignore_def sigaction_dfl_def)
  from sigaction_keeps_uncatchable [OF ps init_proc_ok, of True True 15 "Some (Some (sigaction_dfl\<lparr>sa_handler := 0x4000\<rparr>))" None 8 0 "fst (snd ?c)" "snd (snd ?c)"]
  show ?thesis using r by (auto simp: c linux_signal_init_proc_state_def prod_eq_iff)
qed

text \<open>\<^verbatim>\<open>rt_sigprocmask\<close> computes the blocked set exactly: the union with the given set, the difference
  or the set itself, always without SIGKILL and SIGSTOP, which can therefore never be blocked through
  it; on success it hands out the previous set when asked to, and on an error the thread's signal
  state is unchanged.\<close>

lemma sigprocmask_exact:
  assumes "sys_rt_sigprocmask alloc_ok user_vs how new_set oldset sz (Some ts) = (r, out, ta')"
  shows "\<exists>ts'. ta' = Some ts' \<and> ts' = ts\<lparr>blocked_signals := blocked_signals ts'\<rparr>
    \<and> (r \<noteq> 0 \<longrightarrow> ts' = ts)
    \<and> (r = 0 \<longrightarrow> sz = 8 \<and> out = map_option (\<lambda>_. blocked_signals ts) oldset
        \<and> (case new_set of None \<Rightarrow> ts' = ts
           | Some None \<Rightarrow> False
           | Some (Some s) \<Rightarrow> c_int how \<in> {0, 1, 2}
               \<and> (\<forall>k. sigismember (blocked_signals ts') k \<longleftrightarrow> k \<noteq> SIGKILL \<and> k \<noteq> SIGSTOP
                    \<and> (if c_int how = 0 then sigismember (blocked_signals ts) k \<or> sigismember s k
                       else if c_int how = 1 then sigismember (blocked_signals ts) k \<and> \<not> sigismember s k
                       else sigismember s k))))"
  using assms
  by (auto simp: sys_rt_sigprocmask_def Let_def linux_signal_thread_state_def linux_sigsetsize_valid_def
      signal_mask_sanitize_helper_def split: if_splits option.splits)

end
