(* ===== verification/Signal_Deliver.thy ===== *)
theory Signal_Deliver
  imports Signal_Queue
begin

text \<open>
  Delivering pending signals on the way back to user mode and returning from handlers:
  \<^verbatim>\<open>linux_layer/signal/signal_deliver.c\<close>, \<^verbatim>\<open>signal_restore.c\<close>, \<^verbatim>\<open>signal_altstack.c\<close>,
  \<^verbatim>\<open>arch/signal_context_x86_64.c\<close> and \<^verbatim>\<open>linux_layer/proc/sys_rt_sigreturn.c\<close>, for x86-64.

  The trap frame is a record with the thirteen registers the code names; whatever else the core
  keeps in it is the extension of the record. The core's accessors of the user return state
  (\<^verbatim>\<open>arch_syscall_get_user_return\<close>, \<^verbatim>\<open>arch_syscall_set_user_return\<close> and
  \<^verbatim>\<open>arch_syscall_set_user_int_arg\<close>) are the record \<open>frame_ops\<close> of functions, and the memory
  operations on the user address space the record \<open>user_mm\<close>; both are arguments. \<^verbatim>\<open>sys_exit\<close> does not
  return: it is the outcome \<open>Exited\<close>.
\<close>

section \<open>Definitions\<close>

record trap_frame =
  r15 :: u64
  r14 :: u64
  r13 :: u64
  r12 :: u64
  rbp :: u64
  rbx :: u64
  r11 :: u64
  r10 :: u64
  r9 :: u64
  r8 :: u64
  rdx :: u64
  rsi :: u64
  rdi :: u64

text \<open>The user return state is program counter, stack pointer and system call result.\<close>

record ('a, 'c) frame_ops =
  get_user_return :: "'a trap_frame_scheme \<Rightarrow> 'c \<Rightarrow> u64 \<times> u64 \<times> u64"
  set_user_return :: "'a trap_frame_scheme \<Rightarrow> 'c \<Rightarrow> u64 \<Rightarrow> u64 \<Rightarrow> u64 \<Rightarrow> 'a trap_frame_scheme \<times> 'c"
  set_user_int_arg :: "'a trap_frame_scheme \<Rightarrow> nat \<Rightarrow> u64 \<Rightarrow> 'a trap_frame_scheme"

record 'm user_mm =
  um_query :: "'m \<Rightarrow> u64 \<Rightarrow> bool"
  um_map_page :: "'m \<Rightarrow> (u64 \<times> 'm) option"
  um_store :: "'m \<Rightarrow> u64 \<Rightarrow> u8 list \<Rightarrow> 'm option"
  um_protect_rx :: "'m \<Rightarrow> u64 \<Rightarrow> 'm option"
  um_unmap :: "'m \<Rightarrow> u64 \<Rightarrow> 'm"

record ('a, 'c, 'm) sig_ctx =
  x_ts :: "thread_state option"
  x_ps :: "proc_state option"
  x_tf :: "'a trap_frame_scheme"
  x_ctx :: 'c
  x_mem :: 'm

datatype ('a, 'c, 'm) sig_outcome =
  Returned bool "('a, 'c, 'm) sig_ctx"
| Exited int "('a, 'c, 'm) sig_ctx"

abbreviation PAGE_SIZE :: u64 where "PAGE_SIZE \<equiv> 4096"

definition signal_thread_has_pending :: "thread_state \<Rightarrow> bool" where
  "signal_thread_has_pending ts \<longleftrightarrow> pending_signals ts \<noteq> 0"

definition signal_select_pending :: "thread_state \<Rightarrow> int" where
  "signal_select_pending ts =
     (let deliverable = (\<lambda>s. sigismember (pending_signals ts) s \<and> \<not> sigismember (blocked_signals ts) s) in
      if sigismember (pending_signals ts) SIGKILL then SIGKILL
      else if sigismember (pending_signals ts) SIGSTOP then SIGSTOP
      else case find deliverable [1..31] of
        Some s \<Rightarrow> s
      | None \<Rightarrow> (case find deliverable [32..64] of Some s \<Rightarrow> s | None \<Rightarrow> 0))"

definition signal_apply_handler_mask :: "thread_state \<Rightarrow> sigaction \<Rightarrow> int \<Rightarrow> thread_state" where
  "signal_apply_handler_mask ts disp s =
     (let b = (if sa_flags disp AND SA_NODEFER = 0 then sigaddset (blocked_signals ts) s else blocked_signals ts) in
      ts\<lparr>blocked_signals := fold (\<lambda>k b. if sigismember (sa_mask disp) k then sigaddset b k else b) [1..NSIG] b\<rparr>)"

definition signal_clear_pending :: "thread_state \<Rightarrow> proc_state \<Rightarrow> int \<Rightarrow> thread_state \<times> proc_state" where
  "signal_clear_pending ts ps s =
     (ts\<lparr>pending_signals := sigdelset (pending_signals ts) s\<rparr>, ps\<lparr>p_pending := sigdelset (p_pending ps) s\<rparr>)"

definition regs_of :: "'a trap_frame_scheme \<Rightarrow> restore_arch" where
  "regs_of tf =
     \<lparr>ra_r15 = r15 tf, ra_r14 = r14 tf, ra_r13 = r13 tf, ra_r12 = r12 tf, ra_rbp = rbp tf,
      ra_rbx = rbx tf, ra_r11 = r11 tf, ra_r10 = r10 tf, ra_r9 = r9 tf, ra_r8 = r8 tf,
      ra_rdx = rdx tf, ra_rsi = rsi tf, ra_rdi = rdi tf\<rparr>"

definition linux_signal_arch_save_context ::
  "('a, 'c) frame_ops \<Rightarrow> 'a trap_frame_scheme \<Rightarrow> 'c \<Rightarrow> signal_restore \<Rightarrow> signal_restore" where
  "linux_signal_arch_save_context fo tf ctx rs =
     (case get_user_return fo tf ctx of (pc, sp, ret) \<Rightarrow>
        rs\<lparr>saved_user_pc := pc, saved_user_sp := sp, saved_syscall_ret := ret,
           arch := regs_of tf\<rparr>)"

definition linux_signal_arch_restore_context ::
  "('a, 'c) frame_ops \<Rightarrow> 'a trap_frame_scheme \<Rightarrow> 'c \<Rightarrow> signal_restore \<Rightarrow> u64 \<Rightarrow> 'a trap_frame_scheme \<times> 'c" where
  "linux_signal_arch_restore_context fo tf ctx rs user_sp =
     (let a = arch rs;
          tf1 = tf\<lparr>r15 := ra_r15 a, r14 := ra_r14 a, r13 := ra_r13 a, r12 := ra_r12 a, rbp := ra_rbp a,
            rbx := ra_rbx a, r11 := ra_r11 a, r10 := ra_r10 a, r9 := ra_r9 a, r8 := ra_r8 a,
            rdx := ra_rdx a, rsi := ra_rsi a, rdi := ra_rdi a\<rparr> in
      set_user_return fo tf1 ctx (saved_user_pc rs) user_sp (saved_syscall_ret rs))"

definition signal_save_handler_context ::
  "('a, 'c) frame_ops \<Rightarrow> 'a trap_frame_scheme \<Rightarrow> 'c \<Rightarrow> thread_state \<Rightarrow> thread_state option" where
  "signal_save_handler_context fo tf ctx ts =
     (let rs = signal_restore ts in
      if signal_inflight ts \<noteq> 0 \<or> active rs then None
      else Some (ts\<lparr>signal_inflight := 1,
             signal_restore := linux_signal_arch_save_context fo tf ctx
               (rs\<lparr>active := True, saved_blocked := blocked_signals ts\<rparr>)\<rparr>))"

text \<open>The x86-64 stub \<^verbatim>\<open>mov $15, %rax; syscall\<close>.\<close>

abbreviation NR_rt_sigreturn :: u32 where "NR_rt_sigreturn \<equiv> 15"

definition sigreturn_stub :: "u8 list" where
  "sigreturn_stub =
     [0x48, 0xc7, 0xc0, ucast (NR_rt_sigreturn AND 0xff), ucast (drop_bit 8 NR_rt_sigreturn AND 0xff),
      ucast (drop_bit 16 NR_rt_sigreturn AND 0xff), ucast (drop_bit 24 NR_rt_sigreturn AND 0xff), 0x0f, 0x05]"

definition signal_ensure_sigreturn_page :: "'m user_mm \<Rightarrow> 'm \<Rightarrow> proc_state \<Rightarrow> u64 \<times> 'm \<times> proc_state" where
  "signal_ensure_sigreturn_page mm m ps =
     (if sigreturn_page ps \<noteq> 0 then (sigreturn_page ps, m, ps)
      else case um_map_page mm m of
        None \<Rightarrow> (0, m, ps)
      | Some (page, m1) \<Rightarrow>
          (case um_store mm m1 page sigreturn_stub of
             None \<Rightarrow> (0, um_unmap mm m1 page, ps)
           | Some m2 \<Rightarrow>
               (case um_protect_rx mm m2 page of
                  None \<Rightarrow> (0, um_unmap mm m2 page, ps)
                | Some m3 \<Rightarrow> (page, m3, ps\<lparr>sigreturn_page := page\<rparr>))))"

definition align16 :: "u64 \<Rightarrow> u64" where
  "align16 sp = sp AND NOT 0xF"

definition signal_install_return_path ::
  "'m user_mm \<Rightarrow> 'm \<Rightarrow> u64 \<Rightarrow> sigaction \<Rightarrow> proc_state \<Rightarrow> u64 option \<times> 'm \<times> proc_state" where
  "signal_install_return_path mm m user_sp disp ps =
     (let (restorer, m1, ps1) =
        (if sa_flags disp AND SA_RESTORER \<noteq> 0 \<and> sa_restorer disp \<noteq> 0 \<and> PAGE_SIZE \<le> sa_restorer disp
         then (sa_restorer disp, m, ps) else signal_ensure_sigreturn_page mm m ps) in
      if restorer = 0 then (None, m1, ps1)
      else let sp = align16 (user_sp - 8) in
        case um_store mm m1 sp (le_bytes restorer) of
          None \<Rightarrow> (None, m1, ps1)
        | Some m2 \<Rightarrow> (Some sp, m2, ps1))"

text \<open>
  The loop visits the pages from the one of \<open>base\<close> up to the end of the region; they are listed, their
  number being fixed before the loop. (In a region that reaches into the last page of the 64-bit
  address space the loop variable would wrap; no such page is mapped for a user.)
\<close>

definition linux_signal_altstack_region_mapped :: "('m \<Rightarrow> u64 \<Rightarrow> bool) \<Rightarrow> 'm \<Rightarrow> u64 \<Rightarrow> u64 \<Rightarrow> bool" where
  "linux_signal_altstack_region_mapped query m base len =
     (if len = 0 \<or> base = 0 then False
      else let e = base + len in
        if e < base then False
        else let va = base AND NOT (PAGE_SIZE - 1);
                 pages = (unat e - unat va + 4095) div 4096 in
          list_all (\<lambda>i. query m (va + of_nat i * PAGE_SIZE)) [0..<pages])"

definition linux_signal_thread_has_deliverable_pending ::
  "bool \<Rightarrow> thread_state option \<Rightarrow> proc_state option \<Rightarrow> bool" where
  "linux_signal_thread_has_deliverable_pending alloc_ok ta pa =
     (case (linux_signal_thread_state alloc_ok ta, linux_signal_proc_state alloc_ok pa) of
        (Some ts, Some ps) \<Rightarrow> signal_select_pending ts \<noteq> 0
      | _ \<Rightarrow> False)"

definition linux_signal_wait4_should_return_eintr ::
  "bool \<Rightarrow> thread_state option \<Rightarrow> proc_state option \<Rightarrow> bool" where
  "linux_signal_wait4_should_return_eintr alloc_ok ta pa =
     (case (linux_signal_thread_state alloc_ok ta, linux_signal_proc_state alloc_ok pa) of
        (Some ts, Some ps) \<Rightarrow>
          let s = signal_select_pending ts in if s = 0 then False else if s = SIGCHLD then False else True
      | _ \<Rightarrow> False)"

definition linux_signal_has_deliverable_pending ::
  "bool \<Rightarrow> thread_state option \<Rightarrow> proc_state option \<Rightarrow> bool" where
  "linux_signal_has_deliverable_pending alloc_ok ta pa =
     (case linux_signal_thread_state alloc_ok ta of
        None \<Rightarrow> False
      | Some ts \<Rightarrow> if \<not> signal_thread_has_pending ts then False
                   else linux_signal_thread_has_deliverable_pending alloc_ok (Some ts) pa)"

subsection \<open>Delivery\<close>

abbreviation put_states :: "('a, 'c, 'm) sig_ctx \<Rightarrow> thread_state \<times> proc_state \<Rightarrow> ('a, 'c, 'm) sig_ctx" where
  "put_states x tp \<equiv> x\<lparr>x_ts := Some (fst tp), x_ps := Some (snd tp)\<rparr>"

definition exits_by_default :: "int list" where
  "exits_by_default =
     [SIGHUP, SIGINT, SIGTERM, SIGUSR1, SIGUSR2, SIGPIPE, SIGALRM, SIGPROF, SIGVTALRM, SIGSTKFLT, SIGPWR,
      SIGQUIT, SIGILL, SIGTRAP, SIGABRT, SIGBUS, SIGFPE, SIGSEGV, SIGXCPU, SIGXFSZ]"

definition deliver_default ::
  "thread_state \<Rightarrow> proc_state \<Rightarrow> int \<Rightarrow> ('a, 'c, 'm) sig_ctx \<Rightarrow> ('a, 'c, 'm) sig_outcome" where
  "deliver_default ts ps s x =
     (let x1 = put_states x (signal_clear_pending ts ps s) in
      if s \<in> set exits_by_default then Exited (128 + s) x1 else Returned False x1)"

definition altstack_usable :: "thread_state \<Rightarrow> sigaction \<Rightarrow> bool" where
  "altstack_usable ts disp \<longleftrightarrow>
     sa_flags disp AND SA_ONSTACK \<noteq> 0 \<and> ss_sp (alt_stack ts) \<noteq> 0
     \<and> ss_flags (alt_stack ts) AND SS_DISABLE = 0 \<and> MINSIGSTKSZ \<le> ss_size (alt_stack ts)"

definition enter_altstack :: "thread_state \<Rightarrow> sigaction \<Rightarrow> u64 \<Rightarrow> thread_state \<times> u64" where
  "enter_altstack ts disp user_sp =
     (if altstack_usable ts disp \<and> ss_flags (alt_stack ts) AND SS_ONSTACK = 0
      then (ts\<lparr>saved_main_sp := user_sp,
              alt_stack := (alt_stack ts)\<lparr>ss_flags := ss_flags (alt_stack ts) OR SS_ONSTACK\<rparr>\<rparr>,
            align16 (ss_sp (alt_stack ts) + ss_size (alt_stack ts)))
      else (ts, user_sp))"

definition leave_altstack :: "thread_state \<Rightarrow> thread_state" where
  "leave_altstack ts =
     (if ss_flags (alt_stack ts) AND SS_ONSTACK \<noteq> 0
      then ts\<lparr>alt_stack := (alt_stack ts)\<lparr>ss_flags := ss_flags (alt_stack ts) AND NOT SS_ONSTACK\<rparr>\<rparr>
      else ts)"

definition deliver_handler ::
  "('a, 'c) frame_ops \<Rightarrow> 'm user_mm \<Rightarrow> bool \<Rightarrow> thread_state \<Rightarrow> proc_state \<Rightarrow> int
   \<Rightarrow> ('a, 'c, 'm) sig_ctx \<Rightarrow> ('a, 'c, 'm) sig_outcome" where
  "deliver_handler fo mm has_vs ts ps s x =
     (let i = nat (s - 1); disp = dispositions ps ! i;
          (pc, sp, ret) = get_user_return fo (x_tf x) (x_ctx x) in
      if altstack_usable ts disp
         \<and> \<not> (has_vs \<and> linux_signal_altstack_region_mapped (um_query mm) (x_mem x)
                         (ss_sp (alt_stack ts)) (ss_size (alt_stack ts)))
      then Exited (128 + s) (put_states x (signal_clear_pending ts ps s))
      else
        let (ts1, user_sp) = enter_altstack ts disp sp in
        case signal_save_handler_context fo (x_tf x) (x_ctx x) ts1 of
          None \<Rightarrow> Returned False (put_states x (ts1, ps))
        | Some ts2 \<Rightarrow>
            let ts3 = ts2\<lparr>signal_restore := (signal_restore ts2)\<lparr>sig := s\<rparr>\<rparr>;
                (spo, m1, ps1) = (if has_vs then signal_install_return_path mm (x_mem x) user_sp disp ps
                                  else (None, x_mem x, ps)) in
            case spo of
              None \<Rightarrow>
                let ts4 = leave_altstack (ts3\<lparr>signal_inflight := 0,
                            signal_restore := (signal_restore ts3)\<lparr>active := False\<rparr>\<rparr>) in
                Returned False (put_states (x\<lparr>x_mem := m1\<rparr>) (signal_clear_pending ts4 ps1 s))
            | Some hsp \<Rightarrow>
                let disp1 = (if sa_flags disp AND SA_RESETHAND \<noteq> 0 then disp\<lparr>sa_handler := SIG_DFL\<rparr> else disp);
                    ps2 = ps1\<lparr>dispositions := (dispositions ps1)[i := disp1]\<rparr>;
                    ts4 = signal_apply_handler_mask ts3 disp1 s;
                    (tf1, ctx1) = set_user_return fo (x_tf x) (x_ctx x) (sa_handler disp1) hsp ret;
                    tf2 = set_user_int_arg fo tf1 0 (word_of_int s) in
                Returned True (put_states (x\<lparr>x_mem := m1, x_tf := tf2, x_ctx := ctx1\<rparr>) (signal_clear_pending ts4 ps2 s)))"

definition deliver_selected ::
  "('a, 'c) frame_ops \<Rightarrow> 'm user_mm \<Rightarrow> bool \<Rightarrow> thread_state \<Rightarrow> proc_state
   \<Rightarrow> ('a, 'c, 'm) sig_ctx \<Rightarrow> ('a, 'c, 'm) sig_outcome" where
  "deliver_selected fo mm has_vs ts ps x =
     (let s = signal_select_pending ts; h = sa_handler (dispositions ps ! nat (s - 1)) in
      if s = 0 then Returned False x
      else if linux_signal_handler_is_ign h then Returned False (put_states x (signal_clear_pending ts ps s))
      else if linux_signal_handler_is_dfl h then deliver_default ts ps s x
      else if h < PAGE_SIZE then Returned False (put_states x (signal_clear_pending ts ps s))
      else if signal_inflight ts \<noteq> 0 then Returned False x
      else deliver_handler fo mm has_vs ts ps s x)"

definition linux_deliver_pending_signals ::
  "('a, 'c) frame_ops \<Rightarrow> 'm user_mm \<Rightarrow> bool \<Rightarrow> bool \<Rightarrow> ('a, 'c, 'm) sig_ctx \<Rightarrow> ('a, 'c, 'm) sig_outcome" where
  "linux_deliver_pending_signals fo mm alloc_ok has_vs x =
     (case linux_signal_thread_state alloc_ok (x_ts x) of
        None \<Rightarrow> Returned False x
      | Some ts \<Rightarrow>
          let x1 = x\<lparr>x_ts := Some ts\<rparr> in
          if \<not> signal_thread_has_pending ts then Returned False x1
          else case linux_signal_proc_state alloc_ok (x_ps x) of
            None \<Rightarrow> Returned False x1
          | Some ps \<Rightarrow> deliver_selected fo mm has_vs ts ps (x1\<lparr>x_ps := Some ps\<rparr>))"

subsection \<open>Return from a handler\<close>

definition signal_restore_user_context ::
  "('a, 'c) frame_ops \<Rightarrow> bool \<Rightarrow> ('a, 'c, 'm) sig_ctx \<Rightarrow> bool \<times> ('a, 'c, 'm) sig_ctx" where
  "signal_restore_user_context fo alloc_ok x =
     (case linux_signal_thread_state alloc_ok (x_ts x) of
        None \<Rightarrow> (False, x)
      | Some ts \<Rightarrow>
          let rs = signal_restore ts; x1 = x\<lparr>x_ts := Some ts\<rparr> in
          if \<not> active rs \<or> signal_inflight ts \<noteq> 1 then (False, x1)
          else
            let was_onstack = (ss_flags (alt_stack ts) AND SS_ONSTACK \<noteq> 0);
                restore_sp = (if was_onstack then saved_main_sp ts else saved_user_sp rs);
                ts1 = leave_altstack (ts\<lparr>blocked_signals := saved_blocked rs\<rparr>);
                (tf1, ctx1) = linux_signal_arch_restore_context fo (x_tf x) (x_ctx x) rs restore_sp in
            (True, x1\<lparr>x_ts := Some (ts1\<lparr>signal_restore := restore_zero, signal_inflight := 0\<rparr>),
                      x_tf := tf1, x_ctx := ctx1\<rparr>))"

definition sys_rt_sigreturn ::
  "('a, 'c) frame_ops \<Rightarrow> bool \<Rightarrow> ('a, 'c, 'm) sig_ctx \<Rightarrow> ('a, 'c, 'm) sig_outcome" where
  "sys_rt_sigreturn fo alloc_ok x =
     (case linux_signal_thread_state alloc_ok (x_ts x) of
        None \<Rightarrow> Exited (128 + SIGSEGV) x
      | Some ts \<Rightarrow>
          let x1 = x\<lparr>x_ts := Some ts\<rparr> in
          if signal_inflight ts \<noteq> 1 \<or> \<not> active (signal_restore ts) then Exited (128 + SIGSEGV) x1
          else case signal_restore_user_context fo alloc_ok x1 of
            (False, x2) \<Rightarrow> Exited (128 + SIGSEGV) x2
          | (True, x2) \<Rightarrow> Returned True x2)"

section \<open>The return state of the trap frame\<close>

text \<open>What the signal code relies on in the core's accessors.\<close>

definition frame_laws :: "('a, 'c) frame_ops \<Rightarrow> bool" where
  "frame_laws fo \<longleftrightarrow>
     (\<forall>tf c pc sp ret tf' c'. set_user_return fo tf c pc sp ret = (tf', c') \<longrightarrow>
        get_user_return fo tf' c' = (pc, sp, ret) \<and> regs_of tf' = regs_of tf)
     \<and> (\<forall>tf c i v. get_user_return fo (set_user_int_arg fo tf i v) c = get_user_return fo tf c)"

lemma frame_set:
  "frame_laws fo \<Longrightarrow> set_user_return fo tf c pc sp ret = (tf', c') \<Longrightarrow>
   get_user_return fo tf' c' = (pc, sp, ret) \<and> regs_of tf' = regs_of tf"
  by (simp add: frame_laws_def)

lemma frame_arg: "frame_laws fo \<Longrightarrow> get_user_return fo (set_user_int_arg fo tf i v) c = get_user_return fo tf c"
  by (simp add: frame_laws_def)

lemma restore_context_result:
  assumes "frame_laws fo" "linux_signal_arch_restore_context fo tf c rs sp = (tf', c')"
  shows "get_user_return fo tf' c' = (saved_user_pc rs, sp, saved_syscall_ret rs)" "regs_of tf' = arch rs"
  using assms(2) frame_set [OF assms(1)]
  by (fastforce simp: linux_signal_arch_restore_context_def Let_def regs_of_def)+

lemma save_context_fields [simp]:
  "saved_blocked (linux_signal_arch_save_context fo tf c rs) = saved_blocked rs"
  "active (linux_signal_arch_save_context fo tf c rs) = active rs"
  "arch (linux_signal_arch_save_context fo tf c rs) = regs_of tf"
  "saved_user_pc (linux_signal_arch_save_context fo tf c rs) = fst (get_user_return fo tf c)"
  "saved_user_sp (linux_signal_arch_save_context fo tf c rs) = fst (snd (get_user_return fo tf c))"
  "saved_syscall_ret (linux_signal_arch_save_context fo tf c rs) = snd (snd (get_user_return fo tf c))"
  by (simp_all add: linux_signal_arch_save_context_def split: prod.splits)

section \<open>What delivery does\<close>

lemma enter_altstack_fields:
  assumes "enter_altstack ts disp sp = (ts1, usp)"
  shows "signal_restore ts1 = signal_restore ts" "signal_inflight ts1 = signal_inflight ts"
    "blocked_signals ts1 = blocked_signals ts" "pending_signals ts1 = pending_signals ts"
  using assms by (auto simp: enter_altstack_def split: if_splits)

lemma and_one_bit: "((w :: 'a::len word) AND 1 = 0) \<longleftrightarrow> \<not> bit w 0"
  by (simp add: and_one_eq bit_0 mod_2_eq_odd)

lemma or_one_set: "((w :: u32) OR 1) AND 1 \<noteq> 0"
  unfolding and_one_bit by (simp add: bit_or_iff bit_1_iff)

lemma or_one_clear: "(w :: u32) AND 1 = 0 \<Longrightarrow> (w OR 1) AND NOT 1 = w"
  unfolding and_one_bit
  by (rule bit_word_eqI) (auto simp: bit_and_iff bit_or_iff bit_not_iff bit_1_iff intro: gr0I)

text \<open>Entering the alternate stack is undone by leaving it.\<close>

lemma leave_enter_altstack:
  assumes "enter_altstack ts disp sp = (ts1, usp)" "ss_flags (alt_stack ts) AND SS_ONSTACK = 0"
    and "alt_stack ts2 = alt_stack ts1"
  shows "alt_stack (leave_altstack ts2) = alt_stack ts"
    and "(if ss_flags (alt_stack ts1) AND SS_ONSTACK \<noteq> 0 then saved_main_sp ts1 else sp) = sp"
  using assms by (auto simp: enter_altstack_def leave_altstack_def or_one_set or_one_clear [simplified]
      intro: stack_t.equality split: if_splits)

lemma leave_altstack_fields [simp]:
  "blocked_signals (leave_altstack ts) = blocked_signals ts" "pending_signals (leave_altstack ts) = pending_signals ts"
  by (simp_all add: leave_altstack_def)

lemma apply_handler_mask_fields [simp]:
  "signal_restore (signal_apply_handler_mask ts d s) = signal_restore ts"
  "signal_inflight (signal_apply_handler_mask ts d s) = signal_inflight ts"
  "alt_stack (signal_apply_handler_mask ts d s) = alt_stack ts"
  "saved_main_sp (signal_apply_handler_mask ts d s) = saved_main_sp ts"
  "pending_signals (signal_apply_handler_mask ts d s) = pending_signals ts"
  by (simp_all add: signal_apply_handler_mask_def Let_def)

lemma sigismember_apply_mask:
  "1 \<le> s \<Longrightarrow> s \<le> NSIG \<Longrightarrow> sigismember (blocked_signals (signal_apply_handler_mask ts d s)) k \<longleftrightarrow>
     sigismember (blocked_signals ts) k \<or> (k = s \<and> sa_flags d AND SA_NODEFER = 0) \<or> sigismember (sa_mask d) k"
  using sset.mem_range [of "sa_mask d" k]
  by (auto simp: signal_apply_handler_mask_def Let_def sset.mem_fold_add)

lemma install_dispositions:
  "signal_install_return_path mm m sp d ps = (spo, m1, ps1) \<Longrightarrow> dispositions ps1 = dispositions ps"
  by (auto simp: signal_install_return_path_def signal_ensure_sigreturn_page_def Let_def
      split: if_splits option.splits prod.splits)

lemma install_sp: "signal_install_return_path mm m sp d ps = (Some hsp, m1, ps1) \<Longrightarrow> hsp = align16 (sp - 8)"
  by (auto simp: signal_install_return_path_def Let_def split: if_splits option.splits prod.splits)

lemma find_upto_least:
  "find P [a..b] = Some s \<longleftrightarrow> a \<le> s \<and> s \<le> b \<and> P s \<and> (\<forall>k. a \<le> k \<and> k < s \<longrightarrow> \<not> P k)"
proof (induction "nat (b - a + 1)" arbitrary: a)
  case 0
  then show ?case by simp
next
  case (Suc n)
  then have ab: "a \<le> b" by simp
  have ih: "find P [a + 1..b] = Some s \<longleftrightarrow> a + 1 \<le> s \<and> s \<le> b \<and> P s \<and> (\<forall>k. a + 1 \<le> k \<and> k < s \<longrightarrow> \<not> P k)"
    using Suc by (intro Suc.hyps(1)) simp
  show ?case
  proof (cases "P a")
    case True
    then show ?thesis using ab by (auto simp: upto_rec1 intro: antisym)
  next
    case False
    have "(a \<le> k \<and> k < s) \<longleftrightarrow> ((a = k \<and> k < s) \<or> (a + 1 \<le> k \<and> k < s))" for k by auto
    moreover have "a = s \<or> a + 1 \<le> s" if "a \<le> s" using that by auto
    ultimately show ?thesis using False ab ih by (auto simp: upto_rec1)
  qed
qed

lemma find_upto_None: "find P [a..b] = None \<longleftrightarrow> (\<forall>k. a \<le> k \<and> k \<le> b \<longrightarrow> \<not> P k)"
  by (auto simp: find_None_iff)

abbreviation deliverable :: "thread_state \<Rightarrow> int \<Rightarrow> bool" where
  "deliverable ts s \<equiv> sigismember (pending_signals ts) s \<and> \<not> sigismember (blocked_signals ts) s"

lemma find_append_case:
  "(case find P (xs @ ys) of Some s \<Rightarrow> s | None \<Rightarrow> z) =
   (case find P xs of Some s \<Rightarrow> s | None \<Rightarrow> (case find P ys of Some s \<Rightarrow> s | None \<Rightarrow> z))"
  by (induction xs) auto

lemma find_upto_join:
  fixes a b c :: int
  assumes "a \<le> b" "b \<le> c" "d = b + 1"
  shows "(case find P [a..b] of Some s \<Rightarrow> s | None \<Rightarrow> (case find P [d..c] of Some s \<Rightarrow> s | None \<Rightarrow> z)) =
    (case find P [a..c] of Some s \<Rightarrow> s | None \<Rightarrow> z)"
proof -
  have "[a..c] = [a..b] @ [d..c]" using upto_split2 [of a b c] assms by simp
  then show ?thesis by (simp only: find_append_case)
qed

lemma select_pending_split:
  "signal_select_pending ts =
     (if sigismember (pending_signals ts) SIGKILL then SIGKILL
      else if sigismember (pending_signals ts) SIGSTOP then SIGSTOP
      else case find (deliverable ts) [1..64] of Some s \<Rightarrow> s | None \<Rightarrow> 0)"
  unfolding signal_select_pending_def Let_def
  by (subst find_upto_join) (rule refl | simp only: order_refl numeral_eq_one_iff; simp)+

lemma select_pending_cases:
  obtains "signal_select_pending ts = SIGKILL" "sigismember (pending_signals ts) SIGKILL"
  | "signal_select_pending ts = SIGSTOP" "sigismember (pending_signals ts) SIGSTOP"
    "\<not> sigismember (pending_signals ts) SIGKILL"
  | s where "signal_select_pending ts = s" "1 \<le> s" "s \<le> NSIG" "deliverable ts s"
    "\<And>k. 1 \<le> k \<Longrightarrow> k < s \<Longrightarrow> \<not> deliverable ts k"
    "\<not> sigismember (pending_signals ts) SIGKILL" "\<not> sigismember (pending_signals ts) SIGSTOP"
  | "signal_select_pending ts = 0" "\<And>k. \<not> deliverable ts k"
    "\<not> sigismember (pending_signals ts) SIGKILL" "\<not> sigismember (pending_signals ts) SIGSTOP"
proof (cases "sigismember (pending_signals ts) SIGKILL \<or> sigismember (pending_signals ts) SIGSTOP")
  case True
  then show ?thesis using that(1,2) by (auto simp only: select_pending_split if_True if_False)
next
  case False
  show ?thesis
  proof (cases "find (deliverable ts) [1..64]")
    case None
    then have "\<not> deliverable ts k" for k
      using sset.mem_range [of "pending_signals ts" k] find_upto_None [of "deliverable ts" 1 64] by blast
    then show ?thesis using that(4) False None by (simp only: select_pending_split) simp
  next
    case (Some s)
    then show ?thesis using that(3) [of s] False find_upto_least [of "deliverable ts" 1 64 s]
      by (simp only: select_pending_split) simp
  qed
qed

lemma select_pending_range: "signal_select_pending ts \<noteq> 0 \<Longrightarrow> 1 \<le> signal_select_pending ts \<and> signal_select_pending ts \<le> NSIG"
  by (cases ts rule: select_pending_cases) simp_all

text \<open>A handler is entered in exactly one way.\<close>

lemma deliver_True:
  assumes d: "linux_deliver_pending_signals fo mm a v x = Returned True x'"
    and x: "x_ts x = Some ts" "x_ps x = Some ps"
  defines "s \<equiv> signal_select_pending ts"
  defines "disp \<equiv> dispositions ps ! nat (s - 1)"
  obtains pc sp ret ts1 usp hsp m1 ps1 tf1 c1 disp1 where
    "s \<noteq> 0" "PAGE_SIZE \<le> sa_handler disp" "signal_inflight ts = 0" "\<not> active (signal_restore ts)"
    "get_user_return fo (x_tf x) (x_ctx x) = (pc, sp, ret)" "enter_altstack ts disp sp = (ts1, usp)"
    "signal_install_return_path mm (x_mem x) usp disp ps = (Some hsp, m1, ps1)"
    "disp1 = (if sa_flags disp AND SA_RESETHAND \<noteq> 0 then disp\<lparr>sa_handler := SIG_DFL\<rparr> else disp)"
    "set_user_return fo (x_tf x) (x_ctx x) (sa_handler disp1) hsp ret = (tf1, c1)"
    "x_tf x' = set_user_int_arg fo tf1 0 (word_of_int s)" "x_ctx x' = c1" "x_mem x' = m1"
    "x_ps x' = Some (snd (signal_clear_pending ts (ps1\<lparr>dispositions := (dispositions ps1)[nat (s - 1) := disp1]\<rparr>) s))"
    "x_ts x' = Some (fst (signal_clear_pending (signal_apply_handler_mask (ts1\<lparr>signal_inflight := 1,
        signal_restore := (linux_signal_arch_save_context fo (x_tf x) (x_ctx x)
          ((signal_restore ts)\<lparr>active := True, saved_blocked := blocked_signals ts\<rparr>))\<lparr>sig := s\<rparr>\<rparr>) disp1 s) ps s))"
proof -
  obtain pc sp ret where g: "get_user_return fo (x_tf x) (x_ctx x) = (pc, sp, ret)" by (metis prod_cases3)
  obtain ts1 usp where e: "enter_altstack ts disp sp = (ts1, usp)" by (metis surj_pair)
  obtain spo m1 ps1 where i: "signal_install_return_path mm (x_mem x) usp disp ps = (spo, m1, ps1)" by (metis prod_cases3)
  define disp1 where "disp1 = (if sa_flags disp AND SA_RESETHAND \<noteq> 0 then disp\<lparr>sa_handler := SIG_DFL\<rparr> else disp)"
  obtain tf1 c1 where u: "set_user_return fo (x_tf x) (x_ctx x) (sa_handler disp1) (the spo) ret = (tf1, c1)" by (metis surj_pair)
  have sel: "deliver_selected fo mm v ts ps (x\<lparr>x_ts := Some ts, x_ps := Some ps\<rparr>) = Returned True x'"
    using d x by (auto simp: linux_deliver_pending_signals_def linux_signal_thread_state_def linux_signal_proc_state_def
        Let_def split: if_splits)
  have fields: "s \<noteq> 0" "PAGE_SIZE \<le> sa_handler disp" "signal_inflight ts = 0"
    and h: "deliver_handler fo mm v ts ps s (x\<lparr>x_ts := Some ts, x_ps := Some ps\<rparr>) = Returned True x'"
    using sel by (auto simp: deliver_selected_def Let_def deliver_default_def s_def disp_def split: if_splits)
  note ef = enter_altstack_fields [OF e]
  have act: "\<not> active (signal_restore ts)"
    using h by (auto simp: deliver_handler_def Let_def g e ef disp_def [symmetric] signal_save_handler_context_def split: if_splits)
  obtain hsp where hsp: "spo = Some hsp" and v: "v"
    using h by (auto simp: deliver_handler_def Let_def g e ef i disp_def [symmetric] signal_save_handler_context_def
        split: if_splits option.splits prod.splits)
  have alt: "altstack_usable ts disp \<Longrightarrow> linux_signal_altstack_region_mapped (um_query mm) (x_mem x)
      (ss_sp (alt_stack ts)) (ss_size (alt_stack ts))"
    using h by (auto simp: deliver_handler_def Let_def g disp_def [symmetric] split: if_splits)
  let ?ts2 = "ts1\<lparr>signal_inflight := 1, signal_restore := (linux_signal_arch_save_context fo (x_tf x) (x_ctx x)
          ((signal_restore ts)\<lparr>active := True, saved_blocked := blocked_signals ts\<rparr>))\<lparr>sig := s\<rparr>\<rparr>"
  have x': "x' = put_states (x\<lparr>x_mem := m1, x_tf := set_user_int_arg fo tf1 0 (word_of_int s), x_ctx := c1\<rparr>)
      (signal_clear_pending (signal_apply_handler_mask ?ts2 disp1 s) (ps1\<lparr>dispositions := (dispositions ps1)[nat (s - 1) := disp1]\<rparr>) s)"
    using h alt u
    by (cases "altstack_usable ts disp")
      (simp_all add: deliver_handler_def Let_def g e ef i hsp v fields(3) act disp_def [symmetric]
        disp1_def [symmetric] signal_save_handler_context_def split del: if_split cong: if_cong)
  show thesis
  proof (rule that [OF fields act g e _ disp1_def])
    show "signal_install_return_path mm (x_mem x) usp disp ps = (Some hsp, m1, ps1)" using i hsp by simp
    show "set_user_return fo (x_tf x) (x_ctx x) (sa_handler disp1) hsp ret = (tf1, c1)" using u hsp by simp
  qed (use x' in \<open>simp_all add: signal_clear_pending_def\<close>)
qed

section \<open>Properties\<close>

text \<open>The signal chosen for delivery is 0 exactly when nothing can be delivered: SIGKILL and SIGSTOP are
  not pending and every pending signal is blocked. Otherwise it is a pending signal; SIGKILL has
  precedence over SIGSTOP and both over all others, whatever is blocked; among the others it is the
  lowest unblocked pending one. Hence a pending signal can be starved only by lower ones.\<close>

lemma select_pending_priority:
  "(signal_select_pending ts = 0 \<longleftrightarrow>
      (\<forall>k. sigismember (pending_signals ts) k \<longrightarrow> sigismember (blocked_signals ts) k \<and> k \<noteq> SIGKILL \<and> k \<noteq> SIGSTOP))
   \<and> (signal_select_pending ts \<noteq> 0 \<longrightarrow>
        sigismember (pending_signals ts) (signal_select_pending ts)
        \<and> (if sigismember (pending_signals ts) SIGKILL then signal_select_pending ts = SIGKILL
           else if sigismember (pending_signals ts) SIGSTOP then signal_select_pending ts = SIGSTOP
           else \<not> sigismember (blocked_signals ts) (signal_select_pending ts)
             \<and> (\<forall>k. deliverable ts k \<longrightarrow> signal_select_pending ts \<le> k)))"
proof (cases ts rule: select_pending_cases)
  case (3 s)
  have "s \<le> k" if "deliverable ts k" for k
    using 3(5) [of k] that sset.mem_range [of "pending_signals ts" k] by force
  then show ?thesis using 3 by auto
qed auto

text \<open>Entering a handler. Whenever delivery redirects the user context, the signal is the selected one,
  it was not nested in another handler, and the handler's frame is exact: the signal number is the
  first argument, the stack pointer is the (possibly alternate) stack moved down for the return
  address and aligned to 16 bytes, the system call result is kept, during the handler the blocked set
  is the old one with the action's mask and, without SA_NODEFER, the signal itself, and the signal is
  no longer pending. The entry address is the handler's address, except with SA_RESETHAND, where the
  reset happens before the address is read, so that user execution resumes at address 0.\<close>

lemma handler_entry_frame:
  assumes fo: "frame_laws fo" and x: "x_ts x = Some ts" "x_ps x = Some ps"
    and d: "linux_deliver_pending_signals fo mm a v x = Returned True x'"
    and get: "get_user_return fo (x_tf x) (x_ctx x) = (pc, sp, ret)"
  defines "s \<equiv> signal_select_pending ts"
  defines "disp \<equiv> dispositions ps ! nat (s - 1)"
  shows "\<exists>ts' tf1. s \<noteq> 0 \<and> signal_inflight ts = 0 \<and> x_ts x' = Some ts' \<and> signal_inflight ts' = 1
    \<and> get_user_return fo (x_tf x') (x_ctx x') =
        (if sa_flags disp AND SA_RESETHAND \<noteq> 0 then 0 else sa_handler disp,
         align16 (snd (enter_altstack ts disp sp) - 8), ret)
    \<and> x_tf x' = set_user_int_arg fo tf1 0 (word_of_int s)
    \<and> \<not> sigismember (pending_signals ts') s
    \<and> (\<forall>k. sigismember (blocked_signals ts') k \<longleftrightarrow> sigismember (blocked_signals ts) k
          \<or> (k = s \<and> sa_flags disp AND SA_NODEFER = 0) \<or> sigismember (sa_mask disp) k)"
proof (rule deliver_True [OF d x], fold s_def, fold disp_def)
  fix pc' sp' ret' ts1 usp hsp m1 ps1 tf1 c1 disp1
  assume s: "s \<noteq> 0" and inf: "signal_inflight ts = 0"
    and g: "get_user_return fo (x_tf x) (x_ctx x) = (pc', sp', ret')" and e: "enter_altstack ts disp sp' = (ts1, usp)"
    and i: "signal_install_return_path mm (x_mem x) usp disp ps = (Some hsp, m1, ps1)"
    and d1: "disp1 = (if sa_flags disp AND SA_RESETHAND \<noteq> 0 then disp\<lparr>sa_handler := SIG_DFL\<rparr> else disp)"
    and u: "set_user_return fo (x_tf x) (x_ctx x) (sa_handler disp1) hsp ret' = (tf1, c1)"
    and xt: "x_tf x' = set_user_int_arg fo tf1 0 (word_of_int s)" "x_ctx x' = c1"
    and xs: "x_ts x' = Some (fst (signal_clear_pending (signal_apply_handler_mask (ts1\<lparr>signal_inflight := 1,
        signal_restore := (linux_signal_arch_save_context fo (x_tf x) (x_ctx x)
          ((signal_restore ts)\<lparr>active := True, saved_blocked := blocked_signals ts\<rparr>))\<lparr>sig := s\<rparr>\<rparr>) disp1 s) ps s))"
  have r: "1 \<le> s" "s \<le> NSIG" using select_pending_range [of ts] s by (simp_all add: s_def)
  have "get_user_return fo (x_tf x') (x_ctx x') = (sa_handler disp1, hsp, ret')"
    using frame_set [OF fo u] frame_arg [OF fo] xt by simp
  moreover have "sa_mask disp1 = sa_mask disp" "sa_flags disp1 = sa_flags disp" by (simp_all add: d1)
  ultimately show ?thesis
    using s inf xs xt(1) install_sp [OF i] e g get enter_altstack_fields(3) [OF e] r
    by (auto simp: sigismember_apply_mask signal_clear_pending_def d1)
qed

text \<open>A frame that keeps its return state next to the registers, and a memory that accepts everything.\<close>

record user_frame = trap_frame +
  f_ret :: "u64 \<times> u64 \<times> u64"

definition demo_ops :: "(\<lparr>f_ret :: u64 \<times> u64 \<times> u64\<rparr>, unit) frame_ops" where
  "demo_ops = \<lparr>get_user_return = (\<lambda>tf c. f_ret tf), set_user_return = (\<lambda>tf c pc sp ret. (tf\<lparr>f_ret := (pc, sp, ret)\<rparr>, c)),
     set_user_int_arg = (\<lambda>tf i v. if i = 0 then tf\<lparr>rdi := v\<rparr> else tf)\<rparr>"

definition demo_mm :: "unit user_mm" where
  "demo_mm = \<lparr>um_query = (\<lambda>m a. True), um_map_page = (\<lambda>m. Some (0x700000000000, m)), um_store = (\<lambda>m a b. Some m),
     um_protect_rx = (\<lambda>m a. Some m), um_unmap = (\<lambda>m a. m)\<rparr>"

definition demo_frame :: user_frame where
  "demo_frame = \<lparr>r15 = 1, r14 = 2, r13 = 3, r12 = 4, rbp = 5, rbx = 6, r11 = 7, r10 = 8, r9 = 9, r8 = 10,
     rdx = 11, rsi = 12, rdi = 13, f_ret = (0x401000, 0x7ff000, 0)\<rparr>"

definition demo_ctx :: "u64 \<Rightarrow> (\<lparr>f_ret :: u64 \<times> u64 \<times> u64\<rparr>, unit, unit) sig_ctx" where
  "demo_ctx flags =
     \<lparr>x_ts = Some (linux_signal_init_thread_state\<lparr>pending_signals := sigaddset 0 10\<rparr>),
      x_ps = Some (linux_signal_init_proc_state\<lparr>dispositions :=
        (replicate 64 sigaction_dfl)[9 := \<lparr>sa_handler = 0x5000, sa_flags = flags, sa_restorer = 0, sa_mask = 0\<rparr>]\<rparr>),
      x_tf = demo_frame, x_ctx = (), x_mem = ()\<rparr>"

lemma demo_frame_laws: "frame_laws demo_ops"
  by (auto simp: frame_laws_def demo_ops_def regs_of_def)

lemma demo_select: "signal_select_pending (the (x_ts (demo_ctx f))) = 10"
proof -
  have m: "sigismember (pending_signals (the (x_ts (demo_ctx f)))) k \<longleftrightarrow> k = 10"
      "\<not> sigismember (blocked_signals (the (x_ts (demo_ctx f)))) k" for k
    using sset.mem_empty [of k] by (auto simp: sigemptyset_def demo_ctx_def linux_signal_init_thread_state_def)
  show ?thesis by (cases "the (x_ts (demo_ctx f))" rule: select_pending_cases) (auto simp: m)
qed

lemma demo_delivers: "\<exists>x'. linux_deliver_pending_signals demo_ops demo_mm True True (demo_ctx f) = Returned True x'" if "f \<in> {0, SA_RESETHAND}"
proof -
  let ?ts = "linux_signal_init_thread_state\<lparr>pending_signals := sigaddset 0 10\<rparr>"
  have s: "signal_select_pending ?ts = 10" using demo_select [of f] by (simp add: demo_ctx_def)
  have pend: "signal_thread_has_pending ?ts" by (simp add: signal_thread_has_pending_def sigaddset_def sigbit_def)
  have alt: "altstack_usable ?ts d = False" for d
    by (simp add: altstack_usable_def linux_signal_init_thread_state_def stack_zero_def)
  have "f AND SA_RESTORER = 0" using that by auto
  then show ?thesis
    using pend s alt
    by (simp add: linux_deliver_pending_signals_def demo_ctx_def linux_signal_thread_state_def linux_signal_proc_state_def
        deliver_selected_def deliver_handler_def enter_altstack_def signal_save_handler_context_def demo_ops_def demo_frame_def
        signal_install_return_path_def signal_ensure_sigreturn_page_def demo_mm_def linux_signal_init_thread_state_def
        linux_signal_init_proc_state_def restore_zero_def Let_def)
qed

text \<open>C22. Delivery and \<^verbatim>\<open>rt_sigreturn\<close> are inverse. Let a handler be entered and let it run arbitrarily:
  change all registers and memory, its blocked set and its pending signals. When it returns, the
  system call succeeds, the program counter, the stack pointer, the system call result and the
  thirteen saved registers are those of the interrupted context, the blocked set is the one before
  delivery, the alternate stack is free again, and another signal can be delivered.\<close>

theorem deliver_sigreturn_roundtrip:
  assumes fo: "frame_laws fo" and x: "x_ts x = Some ts" "x_ps x = Some ps"
    and off: "ss_flags (alt_stack ts) AND SS_ONSTACK = 0"
    and d: "linux_deliver_pending_signals fo mm a v x = Returned True x'" "x_ts x' = Some ts'"
    and y: "x_ts y = Some (ts'\<lparr>blocked_signals := b, pending_signals := p\<rparr>)"
  shows "\<exists>y' ts''. sys_rt_sigreturn fo a y = Returned True y' \<and> x_ts y' = Some ts''
    \<and> get_user_return fo (x_tf y') (x_ctx y') = get_user_return fo (x_tf x) (x_ctx x)
    \<and> regs_of (x_tf y') = regs_of (x_tf x)
    \<and> blocked_signals ts'' = blocked_signals ts \<and> pending_signals ts'' = p \<and> alt_stack ts'' = alt_stack ts
    \<and> signal_inflight ts'' = 0 \<and> \<not> active (signal_restore ts'')"
proof (rule deliver_True [OF d(1) x])
  fix pc sp ret ts1 usp hsp m1 ps1 tf1 c1 disp1
  let ?s = "signal_select_pending ts"
  let ?rs = "(linux_signal_arch_save_context fo (x_tf x) (x_ctx x)
          ((signal_restore ts)\<lparr>active := True, saved_blocked := blocked_signals ts\<rparr>))\<lparr>sig := ?s\<rparr>"
  assume g: "get_user_return fo (x_tf x) (x_ctx x) = (pc, sp, ret)"
    and e: "enter_altstack ts (dispositions ps ! nat (?s - 1)) sp = (ts1, usp)"
    and xs: "x_ts x' = Some (fst (signal_clear_pending (signal_apply_handler_mask
        (ts1\<lparr>signal_inflight := 1, signal_restore := ?rs\<rparr>) disp1 ?s) ps ?s))"
  let ?ts2 = "ts'\<lparr>blocked_signals := b, pending_signals := p\<rparr>"
  have f: "signal_inflight ?ts2 = 1" "signal_restore ?ts2 = ?rs" "alt_stack ?ts2 = alt_stack ts1" "saved_main_sp ?ts2 = saved_main_sp ts1"
    using xs d(2) by (auto simp: signal_clear_pending_def)
  have rs: "active ?rs" "saved_blocked ?rs = blocked_signals ts" "arch ?rs = regs_of (x_tf x)"
      "saved_user_pc ?rs = pc" "saved_user_sp ?rs = sp" "saved_syscall_ret ?rs = ret"
    using g by simp_all
  have f3: "alt_stack (?ts2\<lparr>blocked_signals := blocked_signals ts\<rparr>) = alt_stack ts1" using f(3) by simp
  note alt = leave_enter_altstack [OF e off f3]
  obtain tf2 c2 where r: "linux_signal_arch_restore_context fo (x_tf y) (x_ctx y) ?rs sp = (tf2, c2)" by (metis surj_pair)
  note rr = restore_context_result [OF fo r]
  have st: "linux_signal_thread_state a (x_ts y) = Some ?ts2" by (simp add: y linux_signal_thread_state_def)
  have yid: "y\<lparr>x_ts := Some ?ts2\<rparr> = y" using y by (auto intro: sig_ctx.equality)
  have "signal_restore_user_context fo a y = (True, y\<lparr>x_ts := Some ((leave_altstack (?ts2\<lparr>blocked_signals := blocked_signals ts\<rparr>))
      \<lparr>signal_restore := restore_zero, signal_inflight := 0\<rparr>), x_tf := tf2, x_ctx := c2\<rparr>)"
    using r unfolding signal_restore_user_context_def st
    by (simp only: option.case Let_def f yid rs alt(2)) simp
  then have "sys_rt_sigreturn fo a y = Returned True (y\<lparr>x_ts := Some ((leave_altstack (?ts2\<lparr>blocked_signals := blocked_signals ts\<rparr>))
      \<lparr>signal_restore := restore_zero, signal_inflight := 0\<rparr>), x_tf := tf2, x_ctx := c2\<rparr>)"
    unfolding sys_rt_sigreturn_def st by (simp only: option.case Let_def f yid rs(1)) simp
  then show ?thesis
    using rr rs g alt(1) f(3) by (auto simp: restore_zero_def)
qed

theorem deliver_sigreturn_roundtrip_witness:
  "\<exists>x' y'. linux_deliver_pending_signals demo_ops demo_mm True True (demo_ctx 0) = Returned True x'
     \<and> sys_rt_sigreturn demo_ops True (x'\<lparr>x_tf := (x_tf x')\<lparr>r15 := 99, f_ret := (7, 7, 7)\<rparr>\<rparr>) = Returned True y'
     \<and> get_user_return demo_ops (x_tf y') (x_ctx y') = (0x401000, 0x7ff000, 0) \<and> r15 (x_tf y') = 1"
proof -
  let ?x = "demo_ctx 0"
  obtain x' where x': "linux_deliver_pending_signals demo_ops demo_mm True True ?x = Returned True x'"
    using demo_delivers [of 0] by auto
  have g: "get_user_return demo_ops (x_tf ?x) (x_ctx ?x) = (0x401000, 0x7ff000, 0)" "regs_of (x_tf ?x) = regs_of demo_frame"
    by (simp_all add: demo_ops_def demo_ctx_def demo_frame_def)
  have ts: "x_ts ?x = Some (the (x_ts ?x))" "x_ps ?x = Some (the (x_ps ?x))" by (simp_all add: demo_ctx_def)
  have off: "ss_flags (alt_stack (the (x_ts ?x))) AND SS_ONSTACK = 0"
    by (simp add: demo_ctx_def linux_signal_init_thread_state_def stack_zero_def)
  obtain ts' where ts': "x_ts x' = Some ts'" using deliver_True [OF x' ts] by blast
  let ?y = "x'\<lparr>x_tf := (x_tf x')\<lparr>r15 := 99, f_ret := (7, 7, 7)\<rparr>\<rparr>"
  have y: "x_ts ?y = Some (ts'\<lparr>blocked_signals := blocked_signals ts', pending_signals := pending_signals ts'\<rparr>)"
    using ts' by simp
  obtain y' where "sys_rt_sigreturn demo_ops True ?y = Returned True y'"
      "get_user_return demo_ops (x_tf y') (x_ctx y') = (0x401000, 0x7ff000, 0)" "regs_of (x_tf y') = regs_of demo_frame"
    using deliver_sigreturn_roundtrip [OF demo_frame_laws ts off x' ts' y] g by auto
  then show ?thesis using x' by (auto simp: regs_of_def demo_frame_def)
qed

text \<open>C33. SIGKILL does not kill. The dispositions of SIGKILL and SIGSTOP are always the default (which
  \<^verbatim>\<open>rt_sigaction\<close>, fork and exec keep), and delivery of a pending SIGKILL then only clears it and
  returns to the process, whose context and mask are unchanged; the same happens for SIGSTOP, SIGSYS
  and all real-time signals, while the twenty listed signals end the process with status 128 plus
  the signal number.\<close>

theorem sigkill_default_dropped:
  assumes x: "x_ts x = Some ts" "x_ps x = Some ps" and ok: "proc_ok ps"
    and s: "signal_select_pending ts = s" "s \<noteq> 0"
      "s \<in> {SIGKILL, SIGSTOP} \<or> sa_handler (dispositions ps ! nat (s - 1)) = SIG_DFL"
  shows "linux_deliver_pending_signals fo mm a v x =
      (if s \<in> set exits_by_default then Exited (128 + s) else Returned False)
        (x\<lparr>x_ts := Some (ts\<lparr>pending_signals := sigdelset (pending_signals ts) s\<rparr>),
           x_ps := Some (ps\<lparr>p_pending := sigdelset (p_pending ps) s\<rparr>)\<rparr>)
    \<and> (sigismember (pending_signals ts) SIGKILL \<longrightarrow> s = SIGKILL \<and> s \<notin> set exits_by_default)"
proof -
  have pend: "pending_signals ts \<noteq> 0"
    using s(1,2) sset.mem_empty by (cases ts rule: select_pending_cases) (auto simp: sigset_zero_iff)
  have kill: "s = SIGKILL" if "sigismember (pending_signals ts) SIGKILL"
    using s(1) that by (cases ts rule: select_pending_cases) auto
  have dfl: "sa_handler (dispositions ps ! nat (s - 1)) = SIG_DFL" using s(3) ok by (auto simp: proc_ok_def)
  have "linux_deliver_pending_signals fo mm a v x = deliver_default ts ps s (x\<lparr>x_ts := Some ts, x_ps := Some ps\<rparr>)"
    using x s(1,2) dfl pend by (simp add: linux_deliver_pending_signals_def linux_signal_thread_state_def linux_signal_proc_state_def
        Let_def signal_thread_has_pending_def deliver_selected_def)
  then show ?thesis
    using kill by (auto simp: deliver_default_def signal_clear_pending_def exits_by_default_def)
qed

theorem sigkill_default_dropped_witness:
  "\<exists>x'. linux_deliver_pending_signals demo_ops demo_mm True True
     ((demo_ctx 0)\<lparr>x_ts := Some (linux_signal_init_thread_state\<lparr>pending_signals := sigaddset 0 SIGKILL\<rparr>)\<rparr>) = Returned False x'"
proof -
  define ts where "ts = linux_signal_init_thread_state\<lparr>pending_signals := sigaddset 0 SIGKILL\<rparr>"
  define ps where "ps = the (x_ps (demo_ctx 0))"
  have k: "sigismember (pending_signals ts) SIGKILL" by (simp add: ts_def)
  then have s: "signal_select_pending ts = SIGKILL" by (cases ts rule: select_pending_cases) auto
  have ok: "proc_ok ps" by (simp add: proc_ok_def ps_def demo_ctx_def sigaction_dfl_def)
  let ?x = "(demo_ctx 0)\<lparr>x_ts := Some ts\<rparr>"
  have x: "x_ts ?x = Some ts" "x_ps ?x = Some ps" by (simp_all add: ps_def demo_ctx_def)
  show ?thesis
    using sigkill_default_dropped [OF x ok s, of demo_ops demo_mm True True] k by (simp add: ts_def)
qed

end
