(* ===== verification/Vfs_Mount.thy ===== *)
theory Vfs_Mount
  imports Vfs_Handle "HOL-Library.Sublist"
begin

text \<open>
  The mount table (\<^verbatim>\<open>servers/fs/vfs_mount.c\<close>) and the registry of file system backends
  (\<^verbatim>\<open>servers/fs/vfs_backend.c\<close>), with which the VFS server routes a path to the port of a backend.
  Both tables are lists of their records, as the refinement of \<open>Slice_Table\<close> justifies; \<open>push_ok\<close> is
  the outcome of a growth. The call \<^verbatim>\<open>vfs_namespace_set_mount_cover\<close> of the unregister operation is
  returned as the path to uncover.

  The lemmas show that routing is by the longest mounted prefix in the sense of path components,
  and that the table behaves as a set of mounted directories.
\<close>

section \<open>Definitions\<close>

subsection \<open>Backend registry\<close>

abbreviation VFS_BACKEND_FSTYPE_MAX :: nat where "VFS_BACKEND_FSTYPE_MAX \<equiv> 16"
abbreviation VFS_BACKEND_REG_ROOT :: u32 where "VFS_BACKEND_REG_ROOT \<equiv> 1"
abbreviation VFS_BACKEND_REG_OVERLAY :: u32 where "VFS_BACKEND_REG_OVERLAY \<equiv> 2"

record vfs_backend_entry =
  b_port :: string
  b_fstype :: string
  b_caps :: u32
  b_reg_flags :: u32
  b_active :: bool

record vfs_backends =
  backend_tab :: "vfs_backend_entry list"
  root_port :: "string option"
  overlay_port :: "string option"
  online_flags :: u32
  tab_ready :: bool

definition backend_zero :: vfs_backend_entry where
  "backend_zero = \<lparr>b_port = [], b_fstype = [], b_caps = 0, b_reg_flags = 0, b_active = False\<rparr>"

definition vfs_backend_tab_ensure :: "bool \<Rightarrow> vfs_backends \<Rightarrow> vfs_backends" where
  "vfs_backend_tab_ensure init_ok b =
     (if tab_ready b then b else if init_ok then b\<lparr>backend_tab := [], tab_ready := True\<rparr> else b)"

fun first_index :: "('a \<Rightarrow> bool) \<Rightarrow> 'a list \<Rightarrow> nat option" where
  "first_index P [] = None"
| "first_index P (x # xs) = (if P x then Some 0 else map_option Suc (first_index P xs))"

definition vfs_backend_find_port :: "(string \<Rightarrow> string \<Rightarrow> nat \<Rightarrow> int) \<Rightarrow> string \<Rightarrow> vfs_backends \<Rightarrow> nat option" where
  "vfs_backend_find_port strcmp_s port b =
     first_index (\<lambda>e. b_active e \<and> strcmp_s (b_port e) port VFS_PATH_MAX = 0) (backend_tab b)"

definition vfs_backend_alloc_slot :: "bool \<Rightarrow> vfs_backends \<Rightarrow> (nat \<times> vfs_backends) option" where
  "vfs_backend_alloc_slot push_ok b =
     (if \<not> tab_ready b then None
      else case first_index (\<lambda>e. \<not> b_active e) (backend_tab b) of
        Some i \<Rightarrow> Some (i, b\<lparr>backend_tab := (backend_tab b)[i := backend_zero]\<rparr>)
      | None \<Rightarrow> if push_ok then Some (length (backend_tab b), b\<lparr>backend_tab := backend_tab b @ [backend_zero]\<rparr>)
                else None)"

definition backend_entry_for ::
  "(string \<Rightarrow> string \<Rightarrow> nat \<Rightarrow> int) \<Rightarrow> bool \<Rightarrow> string \<Rightarrow> vfs_backends \<Rightarrow> (nat \<times> vfs_backends) option" where
  "backend_entry_for strcmp_s push_ok port b =
     (case vfs_backend_find_port strcmp_s port b of
        Some i \<Rightarrow> Some (i, b)
      | None \<Rightarrow>
          (case vfs_backend_alloc_slot push_ok b of
             None \<Rightarrow> None
           | Some (i, b1) \<Rightarrow>
               Some (i, b1\<lparr>backend_tab := (backend_tab b1)[i := (backend_tab b1 ! i)\<lparr>b_port := port, b_active := True\<rparr>]\<rparr>)))"

definition claim_port :: "(string \<Rightarrow> string \<Rightarrow> nat \<Rightarrow> int) \<Rightarrow> string \<Rightarrow> string option \<Rightarrow> bool" where
  "claim_port strcmp_s port cur = (case cur of None \<Rightarrow> True | Some p \<Rightarrow> strcmp_s p port VFS_PATH_MAX = 0)"

definition vfs_backend_register ::
  "(string \<Rightarrow> string \<Rightarrow> nat \<Rightarrow> int) \<Rightarrow> bool \<Rightarrow> bool \<Rightarrow> string \<Rightarrow> string option \<Rightarrow> u32 \<Rightarrow> u32 \<Rightarrow> vfs_backends
   \<Rightarrow> int \<times> vfs_backends" where
  "vfs_backend_register strcmp_s init_ok push_ok port fstype caps reg_flags b0 =
     (if port = [] then (- LINUX_EINVAL, b0)
      else
        let b = vfs_backend_tab_ensure init_ok b0 in
        case backend_entry_for strcmp_s push_ok port b of
          None \<Rightarrow> (- LINUX_ENOMEM, b)
        | Some (i, b1) \<Rightarrow>
            let e = (backend_tab b1 ! i)\<lparr>b_fstype := (case fstype of None \<Rightarrow> [] | Some f \<Rightarrow> take (VFS_BACKEND_FSTYPE_MAX - 1) f),
                      b_caps := caps, b_reg_flags := reg_flags\<rparr>;
                b2 = b1\<lparr>backend_tab := (backend_tab b1)[i := e]\<rparr> in
            if reg_flags AND VFS_BACKEND_REG_ROOT \<noteq> 0 \<and> \<not> claim_port strcmp_s port (root_port b2) then (- LINUX_EEXIST, b2)
            else
              let b3 = (if reg_flags AND VFS_BACKEND_REG_ROOT \<noteq> 0 then b2\<lparr>root_port := Some port\<rparr> else b2) in
              if reg_flags AND VFS_BACKEND_REG_OVERLAY \<noteq> 0 \<and> \<not> claim_port strcmp_s port (overlay_port b3) then (- LINUX_EEXIST, b3)
              else (0, if reg_flags AND VFS_BACKEND_REG_OVERLAY \<noteq> 0 then b3\<lparr>overlay_port := Some port\<rparr> else b3))"

definition vfs_backend_caps_for_port :: "(string \<Rightarrow> string \<Rightarrow> nat \<Rightarrow> int) \<Rightarrow> string \<Rightarrow> vfs_backends \<Rightarrow> u32" where
  "vfs_backend_caps_for_port strcmp_s port b =
     (case vfs_backend_find_port strcmp_s port b of None \<Rightarrow> 0 | Some i \<Rightarrow> b_caps (backend_tab b ! i))"

definition vfs_backend_port_for_fstype :: "(string \<Rightarrow> string \<Rightarrow> nat \<Rightarrow> int) \<Rightarrow> string \<Rightarrow> vfs_backends \<Rightarrow> string option" where
  "vfs_backend_port_for_fstype strcmp_s fstype b =
     (if fstype = [] then None
      else map_option b_port
        (find (\<lambda>e. b_active e \<and> b_fstype e \<noteq> [] \<and> strcmp_s (b_fstype e) fstype VFS_BACKEND_FSTYPE_MAX = 0) (backend_tab b)))"

definition vfs_backend_port_known :: "(string \<Rightarrow> string \<Rightarrow> nat \<Rightarrow> int) \<Rightarrow> string \<Rightarrow> vfs_backends \<Rightarrow> bool" where
  "vfs_backend_port_known strcmp_s port b \<longleftrightarrow> vfs_backend_find_port strcmp_s port b \<noteq> None"

definition vfs_backend_mark_online :: "u32 \<Rightarrow> vfs_backends \<Rightarrow> vfs_backends" where
  "vfs_backend_mark_online reg_flags b = b\<lparr>online_flags := online_flags b OR reg_flags\<rparr>"

definition vfs_backend_boot_io_ready :: "vfs_backends \<Rightarrow> bool" where
  "vfs_backend_boot_io_ready b \<longleftrightarrow>
     online_flags b AND (VFS_BACKEND_REG_ROOT OR VFS_BACKEND_REG_OVERLAY) = VFS_BACKEND_REG_ROOT OR VFS_BACKEND_REG_OVERLAY"

subsection \<open>Mount table\<close>

abbreviation VFS_MOUNT_PORT_NAME_MAX :: nat where "VFS_MOUNT_PORT_NAME_MAX \<equiv> 32"
abbreviation LINUX_MNT_DETACH :: u64 where "LINUX_MNT_DETACH \<equiv> 2"

record vfs_mount_rec =
  m_target :: string
  m_fstype :: string
  m_port :: string
  m_flags :: u64
  m_active :: bool

definition mount_zero :: vfs_mount_rec where
  "mount_zero = \<lparr>m_target = [], m_fstype = [], m_port = [], m_flags = 0, m_active = False\<rparr>"

definition vfs_mount_reset :: "vfs_mount_rec list" where
  "vfs_mount_reset = []"

definition vfs_mount_path_under_or_equal :: "(string \<Rightarrow> string \<Rightarrow> nat \<Rightarrow> int) \<Rightarrow> string \<Rightarrow> string \<Rightarrow> bool" where
  "vfs_mount_path_under_or_equal strcmp_s path mount =
     (let norm_path = vfs_path_normalize path VFS_PATH_MAX;
          norm_mount = vfs_path_normalize mount VFS_PATH_MAX;
          mlen = length norm_mount in
      if vfs_path_equal strcmp_s norm_path norm_mount then True
      else if mlen \<le> 1 then norm_path \<noteq> [] \<and> norm_path ! 0 = slash \<and> 1 < length norm_path
      else if strcmp_s norm_path norm_mount mlen \<noteq> 0 then False
      else mlen < length norm_path \<and> norm_path ! mlen = slash)"

fun best_mount :: "(string \<Rightarrow> string \<Rightarrow> nat \<Rightarrow> int) \<Rightarrow> string \<Rightarrow> vfs_mount_rec list \<Rightarrow> nat \<Rightarrow> vfs_mount_rec option
   \<Rightarrow> vfs_mount_rec option" where
  "best_mount strcmp_s norm [] best_len best = best"
| "best_mount strcmp_s norm (m # ms) best_len best =
     (if \<not> m_active m \<or> m_port m = [] then best_mount strcmp_s norm ms best_len best
      else if \<not> vfs_mount_path_under_or_equal strcmp_s norm (m_target m) then best_mount strcmp_s norm ms best_len best
      else if best_len < length (m_target m) then best_mount strcmp_s norm ms (length (m_target m)) (Some m)
      else best_mount strcmp_s norm ms best_len best)"

definition vfs_mount_view_for_path ::
  "(string \<Rightarrow> string \<Rightarrow> nat \<Rightarrow> int) \<Rightarrow> string \<Rightarrow> vfs_mount_rec list \<Rightarrow> vfs_mount_rec option" where
  "vfs_mount_view_for_path strcmp_s path tab = best_mount strcmp_s (vfs_path_normalize path VFS_PATH_MAX) tab 0 None"

definition vfs_mount_backend_port_for_path ::
  "(string \<Rightarrow> string \<Rightarrow> nat \<Rightarrow> int) \<Rightarrow> string \<Rightarrow> vfs_mount_rec list \<Rightarrow> string option" where
  "vfs_mount_backend_port_for_path strcmp_s path tab = map_option m_port (vfs_mount_view_for_path strcmp_s path tab)"

definition vfs_backend_port_for_path ::
  "(string \<Rightarrow> string \<Rightarrow> nat \<Rightarrow> int) \<Rightarrow> string \<Rightarrow> vfs_mount_rec list \<Rightarrow> vfs_backends \<Rightarrow> string option" where
  "vfs_backend_port_for_path strcmp_s path tab b =
     (case vfs_mount_view_for_path strcmp_s path tab of Some m \<Rightarrow> Some (m_port m) | None \<Rightarrow> overlay_port b)"

text \<open>Result, the normalised target, the port for a nested mkdir (its presence is \<^verbatim>\<open>need_mkdir\<close>), table.\<close>

definition vfs_mount_register_prepare ::
  "(string \<Rightarrow> string \<Rightarrow> nat \<Rightarrow> int) \<Rightarrow> bool \<Rightarrow> string \<Rightarrow> string \<Rightarrow> u64 \<Rightarrow> nat \<Rightarrow> vfs_backends \<Rightarrow> vfs_mount_rec list
   \<Rightarrow> int \<times> string \<times> string option \<times> vfs_mount_rec list" where
  "vfs_mount_register_prepare strcmp_s push_ok target fstype flags norm_cap b tab =
     (if norm_cap = 0 then (- LINUX_EINVAL, [], None, tab)
      else case vfs_backend_port_for_fstype strcmp_s fstype b of
        None \<Rightarrow> (- LINUX_ENODEV, [], None, tab)
      | Some port \<Rightarrow>
          let norm = vfs_path_normalize target VFS_PATH_MAX in
          if \<not> vfs_path_is_root norm \<and> norm = [] then (- LINUX_EINVAL, [], None, tab)
          else if norm_cap < length norm + 1 then (- LINUX_ENAMETOOLONG, [], None, tab)
          else if list_ex (\<lambda>m. m_active m \<and> vfs_path_equal strcmp_s (m_target m) norm) tab then (0, norm, None, tab)
          else
            let rec = \<lparr>m_target = take (VFS_PATH_MAX - 1) norm, m_fstype = take 15 fstype,
                       m_port = take (VFS_MOUNT_PORT_NAME_MAX - 1) port, m_flags = flags, m_active = True\<rparr>;
                mkdir = (if strcmp_s fstype ''ramfs'' VFS_BACKEND_FSTYPE_MAX = 0 then Some port else None) in
            case first_index (\<lambda>m. \<not> m_active m) tab of
              Some i \<Rightarrow> (1, norm, mkdir, tab[i := rec])
            | None \<Rightarrow> if push_ok then (1, norm, mkdir, tab @ [rec]) else (- LINUX_ENOMEM, norm, None, tab))"

definition vfs_mount_unregister ::
  "(string \<Rightarrow> string \<Rightarrow> nat \<Rightarrow> int) \<Rightarrow> string \<Rightarrow> u64 \<Rightarrow> handle_tab \<Rightarrow> vfs_mount_rec list
   \<Rightarrow> int \<times> string option \<times> vfs_mount_rec list" where
  "vfs_mount_unregister strcmp_s target flags handles tab =
     (let norm = vfs_path_normalize target VFS_PATH_MAX in
      case first_index (\<lambda>m. m_active m \<and> vfs_path_equal strcmp_s (m_target m) norm) tab of
        None \<Rightarrow> (- LINUX_EINVAL, None, tab)
      | Some i \<Rightarrow>
          if flags AND LINUX_MNT_DETACH = 0 \<and> vfs_handle_busy_under_path strcmp_s norm handles
          then (- LINUX_EBUSY, None, tab)
          else (0, Some norm, tab[i := mount_zero]))"

definition vfs_mount_is_mountpoint :: "(string \<Rightarrow> string \<Rightarrow> nat \<Rightarrow> int) \<Rightarrow> string \<Rightarrow> vfs_mount_rec list \<Rightarrow> bool" where
  "vfs_mount_is_mountpoint strcmp_s path tab \<longleftrightarrow>
     list_ex (\<lambda>m. m_active m \<and> vfs_path_equal strcmp_s (m_target m) path) tab"

section \<open>Paths below a mount point\<close>

lemma split_slash_mid:
  "ps \<noteq> [] \<Longrightarrow> (\<forall>c \<in> set ps. slash \<notin> set c) \<Longrightarrow>
   split_slash (slash_join ps) = ps \<and> split_slash (slash_join ps @ slash # r) = ps @ split_slash r"
  by (induction ps rule: slash_join.induct) (simp_all add: split_slash_append)

lemma slash_join_append:
  "ps \<noteq> [] \<Longrightarrow> ds \<noteq> [] \<Longrightarrow> slash_join (ps @ ds) = slash_join ps @ slash # slash_join ds"
  by (induction ps rule: slash_join.induct) (auto simp: neq_Nil_conv)

lemma canon_no_slash: "canon cs \<Longrightarrow> \<forall>c \<in> set cs. slash \<notin> set c"
  by (auto simp: canon_def canon_comp_def list_all_iff)

lemma slash_boundary:
  fixes s t :: string
  shows "take (length t) s = t \<and> length t < length s \<and> s ! length t = slash \<longleftrightarrow> (\<exists>r. s = t @ slash # r)"
proof
  assume "take (length t) s = t \<and> length t < length s \<and> s ! length t = slash"
  then have "s = t @ slash # drop (Suc (length t)) s" by (metis append_take_drop_id Cons_nth_drop_Suc)
  then show "\<exists>r. s = t @ slash # r" by blast
qed auto

text \<open>A rendered path continues another one after a slash exactly when its components do.\<close>

lemma render_below:
  assumes "canon fs" "canon ps" "ps \<noteq> []"
  shows "(\<exists>r. render fs = render ps @ slash # r) \<longleftrightarrow> strict_prefix ps fs"
proof
  assume "\<exists>r. render fs = render ps @ slash # r"
  then obtain r where r: "slash_join fs = slash_join ps @ slash # r" by (auto simp: render_def)
  then have ne: "fs \<noteq> []" by auto
  have "fs = ps @ split_slash r"
    using split_slash_mid [OF ne canon_no_slash [OF assms(1)]] split_slash_mid [OF assms(3) canon_no_slash [OF assms(2)]] r
    by metis
  then show "strict_prefix ps fs" by (auto simp: strict_prefix_def prefix_def)
next
  assume "strict_prefix ps fs"
  then obtain ds where "fs = ps @ ds" "ds \<noteq> []" by (auto simp: strict_prefix_def prefix_def)
  then show "\<exists>r. render fs = render ps @ slash # r" using assms(3) by (simp add: render_def slash_join_append)
qed

lemma length_render_pos: "1 \<le> length (render cs)" "canon cs \<Longrightarrow> length (render cs) \<le> 1 \<longleftrightarrow> cs = []"
proof -
  show "1 \<le> length (render cs)" by (simp add: render_def)
  show "length (render cs) \<le> 1 \<longleftrightarrow> cs = []" if "canon cs"
    using that by (cases cs rule: slash_join.cases) (auto simp: render_def canon_def canon_comp_def)
qed

lemma length_render_prefix: "strict_prefix ps fs \<Longrightarrow> canon fs \<Longrightarrow> length (render ps) < length (render fs)"
proof (cases "ps = []")
  case True
  then show "strict_prefix ps fs \<Longrightarrow> canon fs \<Longrightarrow> length (render ps) < length (render fs)"
    using length_render_pos(2) [of fs] by (auto simp: render_def)
next
  case False
  then show "strict_prefix ps fs \<Longrightarrow> canon fs \<Longrightarrow> length (render ps) < length (render fs)"
    by (auto simp: strict_prefix_def prefix_def render_def) (metis slash_join_append length_append less_add_same_cancel1 length_greater_0_conv list.distinct(1))
qed

text \<open>The scan keeps the longest candidate seen so far.\<close>

definition candidate :: "string \<Rightarrow> vfs_mount_rec \<Rightarrow> bool" where
  "candidate p m \<longleftrightarrow> m_active m \<and> m_port m \<noteq> [] \<and> prefix (norm_comps (m_target m)) (norm_comps p)"

context strcmp_api begin

lemma path_equal_comps: "vfs_path_equal scmp p q \<longleftrightarrow> norm_comps p = norm_comps q"
  by (simp add: vfs_path_equal_def normalize_256 scmp_zero_short length_render_norm less_imp_le render_norm_inject)

lemma under_or_equal_prefix: "vfs_mount_path_under_or_equal scmp p m \<longleftrightarrow> prefix (norm_comps m) (norm_comps p)"
proof -
  let ?P = "norm_comps p" and ?M = "norm_comps m"
  have eq: "vfs_path_equal scmp (render ?P) (render ?M) \<longleftrightarrow> ?P = ?M" by (simp add: path_equal_comps)
  show ?thesis
  proof (cases "?M = []")
    case True
    then have "length (render ?M) \<le> 1" by (simp add: render_def)
    moreover have "1 < length (render ?P) \<longleftrightarrow> ?P \<noteq> []" using length_render_pos(2) [OF canon_norm_comps, of p] by auto
    ultimately show ?thesis using True eq
      by (auto simp: vfs_mount_path_under_or_equal_def Let_def normalize_256) (auto simp: render_def)
  next
    case False
    then have "(length (render ?M) \<le> 1) = False" using length_render_pos(2) [OF canon_norm_comps, of m] by simp
    moreover have "(if scmp (render ?P) (render ?M) (length (render ?M)) \<noteq> 0 then False
        else length (render ?M) < length (render ?P) \<and> render ?P ! length (render ?M) = slash) \<longleftrightarrow> strict_prefix ?M ?P"
      using slash_boundary [of "render ?M" "render ?P"] render_below [OF canon_norm_comps canon_norm_comps False, of p]
      by (auto simp: scmp_zero)
    ultimately show ?thesis using eq
      by (simp add: vfs_mount_path_under_or_equal_def Let_def normalize_256) (auto simp: strict_prefix_def)
  qed
qed

lemma best_mount_spec:
  assumes "case best of None \<Rightarrow> bl = 0 | Some b \<Rightarrow> bl = length (m_target b)"
  shows "case best_mount scmp p ms bl best of
      None \<Rightarrow> best = None \<and> (\<forall>m \<in> set ms. candidate p m \<longrightarrow> m_target m = [])
    | Some b \<Rightarrow> (best = Some b \<or> b \<in> set ms \<and> candidate p b) \<and> bl \<le> length (m_target b)
        \<and> (\<forall>m \<in> set ms. candidate p m \<longrightarrow> length (m_target m) \<le> length (m_target b))"
  using assms
proof (induction ms arbitrary: bl best)
  case Nil
  then show ?case by (simp split: option.splits)
next
  case (Cons m ms)
  show ?case
  proof (cases "candidate p m \<and> bl < length (m_target m)")
    case True
    then have "best_mount scmp p (m # ms) bl best = best_mount scmp p ms (length (m_target m)) (Some m)"
      by (simp add: candidate_def under_or_equal_prefix)
    then show ?thesis using Cons.IH [of "length (m_target m)" "Some m"] True by (auto split: option.splits)
  next
    case False
    then have "best_mount scmp p (m # ms) bl best = best_mount scmp p ms bl best"
      by (auto simp: candidate_def under_or_equal_prefix)
    then show ?thesis using Cons.IH [OF Cons.prems] Cons.prems False by (auto split: option.splits)
  qed
qed

end

section \<open>The table as a set of mounted directories\<close>

definition mounts_ok :: "vfs_mount_rec list \<Rightarrow> bool" where
  "mounts_ok tab \<longleftrightarrow>
     list_all (\<lambda>m. m_active m \<longrightarrow> m_target m = render (norm_comps (m_target m))) tab
     \<and> distinct (map m_target (filter m_active tab))"

text \<open>The abstract table: which directories, as component lists, carry a mount, and to which port.\<close>

definition mounted :: "vfs_mount_rec list \<Rightarrow> (string list \<times> string) set" where
  "mounted tab = (\<lambda>m. (norm_comps (m_target m), m_port m)) ` {m \<in> set tab. m_active m}"

lemma first_index_Some:
  "first_index P xs = Some i \<Longrightarrow> i < length xs \<and> P (xs ! i) \<and> (\<forall>j < i. \<not> P (xs ! j))"
  by (induction xs arbitrary: i) (auto simp: nth_Cons split: if_splits nat.splits)

lemma first_index_None: "first_index P xs = None \<longleftrightarrow> (\<forall>x \<in> set xs. \<not> P x)"
  by (induction xs) auto

lemma mounts_ok_target: "mounts_ok tab \<Longrightarrow> m \<in> set tab \<Longrightarrow> m_active m \<Longrightarrow> m_target m = render (norm_comps (m_target m))"
  by (simp add: mounts_ok_def list_all_iff)

lemma distinct_filter_index:
  "distinct (map f (filter P xs)) \<Longrightarrow> i < length xs \<Longrightarrow> j < length xs \<Longrightarrow> P (xs ! i) \<Longrightarrow> P (xs ! j) \<Longrightarrow>
   f (xs ! i) = f (xs ! j) \<Longrightarrow> i = j"
proof (induction xs arbitrary: i j)
  case (Cons x xs)
  show ?case
  proof (cases i; cases j)
    fix a assume "i = 0" "j = Suc a"
    then show ?thesis using Cons.prems by (auto simp: image_iff)
  next
    fix a assume "i = Suc a" "j = 0"
    then show ?thesis using Cons.prems by (auto simp: image_iff)
  next
    fix a b assume "i = Suc a" "j = Suc b"
    then show ?thesis using Cons by (auto split: if_splits)
  qed simp
qed simp

lemma mounts_ok_unique:
  assumes "mounts_ok tab" "i < length tab" "j < length tab" "m_active (tab ! i)" "m_active (tab ! j)"
    "norm_comps (m_target (tab ! i)) = norm_comps (m_target (tab ! j))"
  shows "i = j"
proof -
  have "m_target (tab ! i) = m_target (tab ! j)"
    using assms mounts_ok_target [OF assms(1), of "tab ! i"] mounts_ok_target [OF assms(1), of "tab ! j"] by auto
  then show ?thesis using assms distinct_filter_index [of m_target m_active tab i j] by (auto simp: mounts_ok_def)
qed

lemma filter_update_inactive:
  "i < length tab \<Longrightarrow> \<not> m_active x \<Longrightarrow> distinct (map m_target (filter m_active tab)) \<Longrightarrow>
   distinct (map m_target (filter m_active (tab[i := x])))"
proof (induction tab arbitrary: i)
  case (Cons m tab)
  then show ?case
    by (cases i) (auto simp: image_iff dest!: set_update_subset_insert [THEN subsetD] split: if_splits)
qed simp

text \<open>Adding a record for a new directory, in a free slot or at the end.\<close>

lemma mounts_ok_add:
  assumes ok: "mounts_ok tab" and act: "m_active x" "m_target x = render (norm_comps (m_target x))"
    and new: "\<forall>m \<in> set tab. m_active m \<longrightarrow> m_target m \<noteq> m_target x"
  shows "mounts_ok (tab @ [x])"
    and "i < length tab \<Longrightarrow> \<not> m_active (tab ! i) \<Longrightarrow> mounts_ok (tab[i := x])"
proof -
  show "mounts_ok (tab @ [x])" using assms by (auto simp: mounts_ok_def)
  show "mounts_ok (tab[i := x])" if i: "i < length tab" "\<not> m_active (tab ! i)"
  proof -
    have split: "tab = take i tab @ tab ! i # drop (Suc i) tab" using i(1) by (rule id_take_nth_drop)
    have "filter m_active tab = filter m_active (take i tab) @ filter m_active (drop (Suc i) tab)"
      using i(2) by (subst split) simp
    moreover have "filter m_active (tab[i := x]) = filter m_active (take i tab) @ x # filter m_active (drop (Suc i) tab)"
      using i(1) act(1) by (simp add: upd_conv_take_nth_drop)
    moreover have "m_target x \<notin> m_target ` set (filter m_active (take i tab)) \<union> m_target ` set (filter m_active (drop (Suc i) tab))"
      using new by (force dest: in_set_takeD in_set_dropD)
    ultimately have "distinct (map m_target (filter m_active (tab[i := x])))" using ok by (auto simp: mounts_ok_def)
    then show ?thesis
      using ok act by (auto simp: mounts_ok_def list_all_iff dest!: set_update_subset_insert [THEN subsetD])
  qed
qed

lemma mounted_update:
  assumes "i < length tab" "\<not> m_active (tab ! i)" "m_active x"
  shows "mounted (tab[i := x]) = insert (norm_comps (m_target x), m_port x) (mounted tab)"
proof -
  have "{m \<in> set (tab[i := x]). m_active m} = insert x {m \<in> set tab. m_active m}"
    using assms by (auto simp: set_update_memI in_set_conv_nth nth_list_update split: if_splits)
  then show ?thesis by (simp add: mounted_def)
qed

lemma mounted_append: "m_active x \<Longrightarrow> mounted (tab @ [x]) = insert (norm_comps (m_target x), m_port x) (mounted tab)"
  by (auto simp: mounted_def)

lemma mounted_remove:
  assumes ok: "mounts_ok tab" and i: "i < length tab" "m_active (tab ! i)"
  shows "mounted (tab[i := mount_zero]) = mounted tab - {norm_comps (m_target (tab ! i))} \<times> UNIV"
proof -
  have z: "\<not> m_active mount_zero" by (simp add: mount_zero_def)
  have "{m \<in> set (tab[i := mount_zero]). m_active m} = {m \<in> set tab. m_active m \<and> norm_comps (m_target m) \<noteq> norm_comps (m_target (tab ! i))}"
    (is "?A = ?B")
  proof
    show "?A \<subseteq> ?B"
    proof
      fix m assume "m \<in> ?A"
      then obtain j where j: "j < length tab" "j \<noteq> i" "m = tab ! j" "m_active m"
        using z i(1) by (auto simp: in_set_conv_nth) (metis nth_list_update_eq nth_list_update_neq)
      then show "m \<in> ?B" using mounts_ok_unique [OF ok j(1) i(1)] i(2) by auto
    qed
    show "?B \<subseteq> ?A" by (auto simp: in_set_conv_nth nth_list_update) (metis length_list_update nth_list_update_neq)
  qed
  then show ?thesis by (auto simp: mounted_def)
qed

section \<open>Properties\<close>

text \<open>C23. Routing is by the longest mounted prefix. The record chosen for a path is active, has a port,
  and its directory is an ancestor of the path or the path itself, component by component, so that
  \<^verbatim>\<open>/mnt\<close> does not capture \<^verbatim>\<open>/mntx\<close>; every other mount above the path is above the chosen one. No
  record is chosen exactly when no mount lies above the path, and then the overlay backend serves it.\<close>

theorem mount_longest_prefix:
  assumes api: "strcmp_api scmp" and ok: "mounts_ok tab"
  shows "case vfs_mount_view_for_path scmp path tab of
      Some m \<Rightarrow> m \<in> set tab \<and> m_active m \<and> m_port m \<noteq> []
        \<and> prefix (norm_comps (m_target m)) (norm_comps path)
        \<and> (\<forall>m' \<in> set tab. m_active m' \<and> m_port m' \<noteq> [] \<and> prefix (norm_comps (m_target m')) (norm_comps path)
             \<longrightarrow> prefix (norm_comps (m_target m')) (norm_comps (m_target m)))
        \<and> vfs_backend_port_for_path scmp path tab b = Some (m_port m)
    | None \<Rightarrow> (\<forall>m \<in> set tab. m_active m \<and> m_port m \<noteq> [] \<longrightarrow> \<not> prefix (norm_comps (m_target m)) (norm_comps path))
        \<and> vfs_backend_port_for_path scmp path tab b = overlay_port b"
proof -
  let ?p = "vfs_path_normalize path VFS_PATH_MAX"
  have cand: "candidate ?p m \<longleftrightarrow> m_active m \<and> m_port m \<noteq> [] \<and> prefix (norm_comps (m_target m)) (norm_comps path)" for m
    by (simp add: candidate_def normalize_256)
  have tgt: "m_target m \<noteq> []" if "m \<in> set tab" "m_active m" for m
    using mounts_ok_target [OF ok that] by (metis list.simps(3) render_def)
  have longer: "prefix (norm_comps (m_target m')) (norm_comps (m_target m))"
    if "m \<in> set tab" "m_active m" "m' \<in> set tab" "m_active m'" "length (m_target m') \<le> length (m_target m)"
      "prefix (norm_comps (m_target m)) q" "prefix (norm_comps (m_target m')) q" for m m' q
  proof (rule ccontr)
    assume "\<not> ?thesis"
    then have "strict_prefix (norm_comps (m_target m)) (norm_comps (m_target m'))"
      using prefix_same_cases [OF that(6,7)] by (auto simp: strict_prefix_def)
    then show False
      using length_render_prefix [OF _ canon_norm_comps] that(5) mounts_ok_target [OF ok that(1,2)] mounts_ok_target [OF ok that(3,4)]
      by (metis leD)
  qed
  show ?thesis
  proof (cases "vfs_mount_view_for_path scmp path tab")
    case None
    then show ?thesis
      using strcmp_api.best_mount_spec [OF api, where bl = 0 and best = None and p = ?p and ms = tab] tgt
      by (auto simp: vfs_mount_view_for_path_def cand vfs_backend_port_for_path_def)
  next
    case (Some m)
    then have m: "m \<in> set tab" "candidate ?p m" "\<forall>m' \<in> set tab. candidate ?p m' \<longrightarrow> length (m_target m') \<le> length (m_target m)"
      using strcmp_api.best_mount_spec [OF api, where bl = 0 and best = None and p = ?p and ms = tab] by (auto simp: vfs_mount_view_for_path_def)
    then show ?thesis using Some longer [of m] by (auto simp: cand vfs_backend_port_for_path_def)
  qed
qed

definition demo_mounts :: "vfs_mount_rec list" where
  "demo_mounts = [\<lparr>m_target = ''/'', m_fstype = ''cpio'', m_port = ''c'', m_flags = 0, m_active = True\<rparr>, mount_zero,
     \<lparr>m_target = ''/mnt'', m_fstype = ''ramfs'', m_port = ''r'', m_flags = 0, m_active = True\<rparr>]"

lemma demo_mounts_ok: "mounts_ok demo_mounts"
proof -
  have "norm_comps ''/'' = []" "norm_comps ''/mnt'' = [''mnt'']"
    by code_simp+
  then show ?thesis by (simp add: mounts_ok_def demo_mounts_def mount_zero_def render_def)
qed

theorem mount_longest_prefix_witness:
  "\<exists>m. vfs_mount_view_for_path strncmp ''/mnt/a'' demo_mounts = Some m \<and> prefix (norm_comps ''/mnt'') (norm_comps (m_target m))"
proof -
  have n: "norm_comps ''/mnt'' = [''mnt'']" "norm_comps ''/mnt/a'' = [''mnt'', ''a'']" by code_simp+
  let ?m = "\<lparr>m_target = ''/mnt'', m_fstype = ''ramfs'', m_port = ''r'', m_flags = 0, m_active = True\<rparr>"
  have "?m \<in> set demo_mounts" by (simp add: demo_mounts_def)
  moreover have "prefix (norm_comps (m_target ?m)) (norm_comps ''/mnt/a'')" using n by simp
  ultimately show ?thesis
    using mount_longest_prefix [OF strncmp.strcmp_api_axioms demo_mounts_ok, of "''/mnt/a''" undefined]
    by (cases "vfs_mount_view_for_path strncmp ''/mnt/a'' demo_mounts") (simp; fastforce)+
qed

text \<open>The mount table refines a set of mounted directories with their ports. Registering a directory
  that is not mounted adds exactly this directory with the port of its file system type, and nothing
  else is remounted; a mounted directory is left alone; an error changes nothing. Unregistering
  removes exactly the directory, unless it is not mounted or, without the detach flag, a file below it
  is open, in which case nothing changes. The invariant that targets are normalised and mounted once
  is kept by all of them.\<close>

lemma mount_table_refines:
  assumes api: "strcmp_api scmp" and ok: "mounts_ok tab"
    and reg: "vfs_mount_register_prepare scmp push_ok target fstype flags cap b tab = (r, norm, mkdir, tab1)"
    and unreg: "vfs_mount_unregister scmp target uflags handles tab = (ur, cover, tab2)"
  shows "mounts_ok tab1 \<and> mounts_ok tab2
    \<and> (r = 1 \<longrightarrow> norm_comps target \<notin> fst ` mounted tab
         \<and> (\<exists>port. vfs_backend_port_for_fstype scmp fstype b = Some port
              \<and> mounted tab1 = insert (norm_comps target, take 31 port) (mounted tab)))
    \<and> (r \<noteq> 1 \<longrightarrow> tab1 = tab) \<and> (r = 0 \<longrightarrow> norm_comps target \<in> fst ` mounted tab)
    \<and> (ur = 0 \<longrightarrow> norm_comps target \<in> fst ` mounted tab \<and> mounted tab2 = mounted tab - {norm_comps target} \<times> UNIV
         \<and> (uflags AND LINUX_MNT_DETACH = 0 \<longrightarrow> \<not> vfs_handle_busy_under_path scmp (render (norm_comps target)) handles))
    \<and> (ur \<noteq> 0 \<longrightarrow> tab2 = tab)
    \<and> (vfs_mount_is_mountpoint scmp path tab \<longleftrightarrow> norm_comps path \<in> fst ` mounted tab)"
proof -
  let ?N = "render (norm_comps target)"
  have eq: "vfs_path_equal scmp p q \<longleftrightarrow> norm_comps p = norm_comps q" for p q
    by (rule strcmp_api.path_equal_comps [OF api])
  have mem: "c \<in> fst ` mounted tab \<longleftrightarrow> (\<exists>m \<in> set tab. m_active m \<and> norm_comps (m_target m) = c)" for c
    by (force simp: mounted_def)
  have len: "take 255 ?N = ?N" using length_render_norm [of target] by simp
  have r1: "mounts_ok tab1 \<and> (r = 1 \<longrightarrow> norm_comps target \<notin> fst ` mounted tab
         \<and> (\<exists>port. vfs_backend_port_for_fstype scmp fstype b = Some port
              \<and> mounted tab1 = insert (norm_comps target, take 31 port) (mounted tab)))
    \<and> (r \<noteq> 1 \<longrightarrow> tab1 = tab) \<and> (r = 0 \<longrightarrow> norm_comps target \<in> fst ` mounted tab)"
  proof (cases "vfs_backend_port_for_fstype scmp fstype b")
    case None
    then show ?thesis using reg ok by (auto simp: vfs_mount_register_prepare_def split: if_splits)
  next
    case (Some port)
    let ?x = "\<lparr>m_target = ?N, m_fstype = take 15 fstype, m_port = take 31 port, m_flags = flags, m_active = True\<rparr>"
    have add: "mounts_ok (tab @ [?x])" "\<And>i. i < length tab \<Longrightarrow> \<not> m_active (tab ! i) \<Longrightarrow> mounts_ok (tab[i := ?x])"
      if "norm_comps target \<notin> fst ` mounted tab"
      using mounts_ok_add [OF ok, of ?x] that unfolding mem by (simp; force)+
    show ?thesis
    proof (cases "norm_comps target \<in> fst ` mounted tab")
      case True
      then show ?thesis using reg ok Some
        by (auto simp: vfs_mount_register_prepare_def Let_def normalize_256 eq mem list_ex_iff split: if_splits option.splits)
    next
      case False
      then have nex: "\<not> list_ex (\<lambda>m. m_active m \<and> vfs_path_equal scmp (m_target m) ?N) tab"
        by (auto simp: list_ex_iff eq mem)
      show ?thesis
      proof (cases "first_index (\<lambda>m. \<not> m_active m) tab")
        case None
        then show ?thesis using reg ok Some False nex add(1) [OF False] mounted_append [of ?x tab]
          by (auto simp: vfs_mount_register_prepare_def Let_def normalize_256 len split: if_splits)
      next
        case (Some i)
        note i = first_index_Some [OF Some]
        show ?thesis using reg ok \<open>vfs_backend_port_for_fstype scmp fstype b = Some port\<close> Some False nex
            add(2) [OF False, of i] mounted_update [of i tab ?x] i
          by (auto simp: vfs_mount_register_prepare_def Let_def normalize_256 len split: if_splits)
      qed
    qed
  qed
  have r2: "mounts_ok tab2 \<and> (ur = 0 \<longrightarrow> norm_comps target \<in> fst ` mounted tab \<and> mounted tab2 = mounted tab - {norm_comps target} \<times> UNIV
         \<and> (uflags AND LINUX_MNT_DETACH = 0 \<longrightarrow> \<not> vfs_handle_busy_under_path scmp ?N handles))
    \<and> (ur \<noteq> 0 \<longrightarrow> tab2 = tab)"
  proof (cases "first_index (\<lambda>m. m_active m \<and> vfs_path_equal scmp (m_target m) ?N) tab")
    case None
    then show ?thesis using unreg ok by (auto simp: vfs_mount_unregister_def Let_def normalize_256)
  next
    case (Some i)
    then have i: "i < length tab" "m_active (tab ! i)" "norm_comps (m_target (tab ! i)) = norm_comps target"
      using first_index_Some [OF Some] by (auto simp: eq)
    have "mounts_ok (tab[i := mount_zero])"
      using ok filter_update_inactive [OF i(1), of mount_zero]
      by (auto simp: mounts_ok_def list_all_iff mount_zero_def dest!: set_update_subset_insert [THEN subsetD])
    then show ?thesis using unreg ok Some mounted_remove [OF ok i(1,2)] i mem
      by (auto simp: vfs_mount_unregister_def Let_def normalize_256 split: if_splits)
  qed
  show ?thesis using r1 r2 by (auto simp: vfs_mount_is_mountpoint_def list_ex_iff eq mem)
qed

subsection \<open>Registry entries\<close>

definition ports_ok :: "vfs_backends \<Rightarrow> bool" where
  "ports_ok b \<longleftrightarrow> distinct (map b_port (filter b_active (backend_tab b)))
     \<and> (\<forall>e \<in> set (backend_tab b). length (b_port e) \<le> VFS_PATH_MAX)
     \<and> (\<forall>p. Some p \<in> {root_port b, overlay_port b} \<longrightarrow> length p \<le> VFS_PATH_MAX)"

lemma distinct_filter_update:
  assumes d: "distinct (map f (filter P xs))" and i: "i < length xs"
    and same: "\<And>j. j < length xs \<Longrightarrow> j \<noteq> i \<Longrightarrow> P (xs ! j) \<Longrightarrow> f (xs ! j) \<noteq> f x"
  shows "distinct (map f (filter P (xs[i := x])))"
proof -
  have xs: "xs = take i xs @ xs ! i # drop (Suc i) xs" using i by (rule id_take_nth_drop)
  have "distinct (map f (filter P (take i xs @ [xs ! i] @ drop (Suc i) xs)))" using d xs by (metis append_Cons append_Nil)
  then have d2: "distinct (map f (filter P (take i xs)) @ map f (filter P (drop (Suc i) xs)))"
    by (simp split: if_splits)
  have "f y \<noteq> f x" if y: "y \<in> set (take i xs) \<union> set (drop (Suc i) xs)" "P y" for y
  proof -
    from y(1) obtain j where "j < length xs" "j \<noteq> i" "y = xs ! j"
    proof
      assume "y \<in> set (take i xs)"
      then obtain j where "j < i" "y = xs ! j" using i by (auto simp: in_set_conv_nth)
      then show thesis using that [of j] i by simp
    next
      assume "y \<in> set (drop (Suc i) xs)"
      then obtain j where "j < length xs - Suc i" "y = xs ! (Suc i + j)" by (auto simp: in_set_conv_nth)
      then show thesis using that [of "Suc i + j"] by simp
    qed
    then show ?thesis using same y(2) by blast
  qed
  then have "f x \<notin> f ` set (filter P (take i xs)) \<union> f ` set (filter P (drop (Suc i) xs))" by fastforce
  then show ?thesis using d2 i by (auto simp: upd_conv_take_nth_drop)
qed

lemma first_index_hit:
  assumes "i < length xs" "P (xs ! i)" "\<And>j. j < length xs \<Longrightarrow> P (xs ! j) \<Longrightarrow> j = i"
  shows "first_index P xs = Some i"
proof (cases "first_index P xs")
  case None
  then show ?thesis using assms(1,2) nth_mem by (auto simp: first_index_None)
next
  case (Some j)
  then show ?thesis using first_index_Some [OF Some] assms(3) by simp
qed

context strcmp_api begin

lemma find_port_cases:
  assumes "ports_ok b" "length port \<le> VFS_PATH_MAX"
  shows "case vfs_backend_find_port scmp port b of
      None \<Rightarrow> \<forall>e \<in> set (backend_tab b). b_active e \<longrightarrow> b_port e \<noteq> port
    | Some i \<Rightarrow> i < length (backend_tab b) \<and> b_active (backend_tab b ! i) \<and> b_port (backend_tab b ! i) = port"
proof -
  have z: "scmp (b_port e) port VFS_PATH_MAX = 0 \<longleftrightarrow> b_port e = port" if "e \<in> set (backend_tab b)" for e
    using scmp_zero_short [OF _ assms(2)] assms(1) that by (simp add: ports_ok_def)
  show ?thesis
    using first_index_Some [of "\<lambda>e. b_active e \<and> scmp (b_port e) port VFS_PATH_MAX = 0" "backend_tab b"] z
    by (auto simp: vfs_backend_find_port_def first_index_None split: option.splits)
qed

text \<open>The entry for a port: its own one, or a fresh one in a free slot or at the end.\<close>

lemma entry_for_spec:
  assumes ok: "ports_ok b" "tab_ready b" "length port \<le> VFS_PATH_MAX"
  shows "case backend_entry_for scmp push_ok port b of
      None \<Rightarrow> \<not> push_ok
    | Some (i, b1) \<Rightarrow> \<exists>tab. b1 = b\<lparr>backend_tab := tab\<rparr> \<and> i < length tab \<and> b_active (tab ! i) \<and> b_port (tab ! i) = port
        \<and> ports_ok b1"
proof (cases "vfs_backend_find_port scmp port b")
  case (Some i)
  then show ?thesis using find_port_cases [OF ok(1,3)] ok(1)
    by (auto simp: backend_entry_for_def intro!: exI [of _ "backend_tab b"])
next
  case None
  have new: "\<forall>e \<in> set (backend_tab b). b_active e \<longrightarrow> b_port e \<noteq> port" using find_port_cases [OF ok(1,3)] None by simp
  show ?thesis
  proof (cases "first_index (\<lambda>e. \<not> b_active e) (backend_tab b)")
    case free: (Some i)
    let ?x = "backend_zero\<lparr>b_port := port, b_active := True\<rparr>"
    have i: "i < length (backend_tab b)" using first_index_Some [OF free] by simp
    have "distinct (map b_port (filter b_active ((backend_tab b)[i := ?x])))"
      using ok(1) new by (intro distinct_filter_update) (auto simp: ports_ok_def i)
    then have "ports_ok (b\<lparr>backend_tab := (backend_tab b)[i := ?x]\<rparr>)"
      using ok(1,3) by (auto simp: ports_ok_def dest!: set_update_subset_insert [THEN subsetD])
    then show ?thesis using None free i ok(2)
      by (auto simp: backend_entry_for_def vfs_backend_alloc_slot_def)
  next
    case free: None
    let ?x = "backend_zero\<lparr>b_port := port, b_active := True\<rparr>"
    have "ports_ok (b\<lparr>backend_tab := backend_tab b @ [?x]\<rparr>)"
      using ok(1,3) new by (auto simp: ports_ok_def)
    then show ?thesis using None free ok(2)
      by (auto simp: backend_entry_for_def vfs_backend_alloc_slot_def nth_append)
  qed
qed

end

text \<open>Registering a backend. The registry never holds two active entries for one port. A call is refused
  when the table cannot grow, and then nothing is registered; otherwise the port is known afterwards
  with the given capabilities. When the port claims the root or overlay role that another port has,
  the result is an error, but the entry stays registered: a failed registration is not undone.\<close>

lemma backend_register_result:
  assumes api: "strcmp_api scmp" and ok: "ports_ok b" "tab_ready b" and port: "port \<noteq> []" "length port \<le> VFS_PATH_MAX"
    and reg: "vfs_backend_register scmp init_ok push_ok port fstype caps flags b = (r, b')"
  shows "ports_ok b'
    \<and> (if r = - LINUX_ENOMEM then b' = b \<and> \<not> push_ok
       else vfs_backend_port_known scmp port b' \<and> vfs_backend_caps_for_port scmp port b' = caps
         \<and> (r = - LINUX_EEXIST \<longleftrightarrow>
              flags AND VFS_BACKEND_REG_ROOT \<noteq> 0 \<and> root_port b \<notin> {None, Some port}
              \<or> flags AND VFS_BACKEND_REG_OVERLAY \<noteq> 0 \<and> overlay_port b \<notin> {None, Some port}))"
proof (cases "backend_entry_for scmp push_ok port b")
  case None
  then show ?thesis using reg port ok strcmp_api.entry_for_spec [OF api ok port(2), of push_ok]
    by (auto simp: vfs_backend_register_def vfs_backend_tab_ensure_def)
next
  case (Some ib)
  then obtain i tab where ent: "backend_entry_for scmp push_ok port b = Some (i, b\<lparr>backend_tab := tab\<rparr>)"
      and i: "i < length tab" "b_active (tab ! i)" "b_port (tab ! i) = port" and ok1: "ports_ok (b\<lparr>backend_tab := tab\<rparr>)"
    using strcmp_api.entry_for_spec [OF api ok port(2), of push_ok] by (cases ib) auto
  define e where "e = (tab ! i)\<lparr>b_fstype := (case fstype of None \<Rightarrow> [] | Some f \<Rightarrow> take (VFS_BACKEND_FSTYPE_MAX - 1) f), b_caps := caps, b_reg_flags := flags\<rparr>"
  have e: "b_active e" "b_port e = port" "b_caps e = caps" using i by (simp_all add: e_def)
  have role: "claim_port scmp port (root_port b) \<longleftrightarrow> root_port b \<in> {None, Some port}"
      "claim_port scmp port (overlay_port b) \<longleftrightarrow> overlay_port b \<in> {None, Some port}"
    using ok(1) strcmp_api.scmp_zero_short [OF api _ port(2)] by (auto simp: claim_port_def ports_ok_def split: option.splits)
  have uniq: "j = i" if "j < length tab" "b_active (tab ! j)" "b_port (tab ! j) = port" for j
    using distinct_filter_index [of b_port b_active tab j i] that i ok1 by (simp add: ports_ok_def)
  have ok2: "ports_ok (b\<lparr>backend_tab := tab[i := e], root_port := rp, overlay_port := ov\<rparr>)"
    if "rp \<in> {root_port b, Some port}" "ov \<in> {overlay_port b, Some port}" for rp ov
  proof -
    have "distinct (map b_port (filter b_active (tab[i := e])))"
      using ok1 uniq e(2) by (intro distinct_filter_update) (auto simp: ports_ok_def i)
    then show ?thesis using ok1 e(2) port(2) that
      by (auto simp: ports_ok_def dest!: set_update_subset_insert [THEN subsetD])
  qed
  have found: "vfs_backend_port_known scmp port x \<and> vfs_backend_caps_for_port scmp port x = caps"
    if "backend_tab x = tab[i := e]" "ports_ok x" for x
  proof -
    have "j = i" if j: "vfs_backend_find_port scmp port x = Some j" for j
    proof (rule ccontr)
      assume "j \<noteq> i"
      then show False
        using strcmp_api.find_port_cases [OF api \<open>ports_ok x\<close> port(2)] uniq [of j]
        unfolding j \<open>backend_tab x = tab[i := e]\<close> by simp
    qed
    moreover have "vfs_backend_find_port scmp port x \<noteq> None"
      using strcmp_api.find_port_cases [OF api that(2) port(2)] that(1) e(1,2) set_update_memI [OF i(1), of e]
      by (cases "vfs_backend_find_port scmp port x") auto
    ultimately have "vfs_backend_find_port scmp port x = Some i" by auto
    then show ?thesis using that(1) i(1) e(3) by (simp add: vfs_backend_port_known_def vfs_backend_caps_for_port_def)
  qed
  let ?b2 = "b\<lparr>backend_tab := tab[i := e]\<rparr>"
  let ?a1 = "flags AND 1 \<noteq> 0" and ?a2 = "flags AND 2 \<noteq> 0"
    and ?k1 = "claim_port scmp port (root_port b)" and ?k2 = "claim_port scmp port (overlay_port b)"
  have ens: "vfs_backend_tab_ensure init_ok b = b" using ok(2) by (simp add: vfs_backend_tab_ensure_def)
  have run: "(r, b') = (if ?a1 \<and> \<not> ?k1 then (- LINUX_EEXIST, ?b2)
      else let b3 = (if ?a1 then ?b2\<lparr>root_port := Some port\<rparr> else ?b2) in
        if ?a2 \<and> \<not> ?k2 then (- LINUX_EEXIST, b3) else (0, if ?a2 then b3\<lparr>overlay_port := Some port\<rparr> else b3))"
    unfolding reg [symmetric] vfs_backend_register_def ens Let_def ent option.case prod.case e_def
    by (simp only: port(1) if_False vfs_backends.simps) simp
  have b': "b' = b\<lparr>backend_tab := tab[i := e], root_port := root_port b', overlay_port := overlay_port b'\<rparr>"
      and rp: "root_port b' \<in> {root_port b, Some port}" "overlay_port b' \<in> {overlay_port b, Some port}"
      and r: "r = (if ?a1 \<and> \<not> ?k1 \<or> ?a2 \<and> \<not> ?k2 then - LINUX_EEXIST else 0)"
    using run by (cases ?a1; cases ?a2; cases ?k1; cases ?k2; simp)+
  have okb: "ports_ok b'" using ok2 [OF rp] unfolding b' [symmetric] .
  have "backend_tab b' = tab[i := e]" using arg_cong [OF b', of backend_tab] by simp
  then have "vfs_backend_port_known scmp port b'" "vfs_backend_caps_for_port scmp port b' = caps" using found okb by blast+
  then show ?thesis using okb r role by simp
qed

end
