(* ===== verification/Cpio.thy ===== *)
theory Cpio
  imports Ramfs
begin

text \<open>
  The read-only file system of the embedded initramfs (\<^verbatim>\<open>servers/fs/cpio_rofs.c\<close>): a parser of
  \<^verbatim>\<open>newc\<close> cpio archives and the lookups on the table of entries it fills. Memory is a function from
  addresses to bytes. The parser exists twice: \<open>cpio_rofs_init64\<close> computes its pointer sums modulo
  \<open>2 ^ 64\<close>, as the code does, and may then not end; \<open>cpio_rofs_init\<close> has pointers that do not
  wrap. They are the same for an image that ends at least \<open>2 ^ 33\<close> bytes below the end of the address
  space, because the sizes in a header have 32 bits (\<open>init64_eq\<close>). A C string that starts in the image is read
  up to its terminator wherever that is. \<open>init_res\<close> and \<open>push_res\<close> are the results of the slice
  table's initialisation and of its pushes.

  The lemmas show that parsing ends, that every recorded file lies inside the image, that an archive
  written in the \<^verbatim>\<open>newc\<close> format is read back exactly, what a directory listing holds, and that
  the name of an entry may be read beyond the image.
\<close>

section \<open>Definitions\<close>

abbreviation CPIO_NEWC_HDR_LEN :: nat where "CPIO_NEWC_HDR_LEN \<equiv> 110"
abbreviation CPIO_S_IFMT :: u64 where "CPIO_S_IFMT \<equiv> 0xF000"
abbreviation CPIO_S_IFDIR :: u64 where "CPIO_S_IFDIR \<equiv> 0x4000"
abbreviation CPIO_S_IFLNK :: u64 where "CPIO_S_IFLNK \<equiv> 0xA000"
abbreviation CPIO_ROFS_PATH_MAX :: nat where "CPIO_ROFS_PATH_MAX \<equiv> VFS_PATH_MAX"

record cpio_rofs_entry =
  e_path :: string
  e_mode :: u32
  e_nlink :: u32
  e_filesize :: u64
  e_data :: nat
  e_is_dir :: bool
  e_is_symlink :: bool

record cpio_rofs_stat =
  c_mode :: u32
  c_size :: u64
  c_is_dir :: bool
  c_is_symlink :: bool
  c_data :: "nat option"
  c_nlink :: u32

record cpio_rofs =
  cpio_entry_tab :: "cpio_rofs_entry list"
  cpio_image :: nat
  cpio_image_len :: nat

text \<open>The bytes of a C string, at most \<open>n\<close> of them.\<close>

fun cstr :: "memory \<Rightarrow> nat \<Rightarrow> nat \<Rightarrow> string" where
  "cstr m a 0 = []"
| "cstr m a (Suc n) = (if m a = 0 then [] else char_of (unat (m a)) # cstr m (a + 1) n)"

text \<open>Offsets of the fields of \<^verbatim>\<open>cpio_newc_header_t\<close>.\<close>

abbreviation H_MODE :: nat where "H_MODE \<equiv> 14"
abbreviation H_NLINK :: nat where "H_NLINK \<equiv> 38"
abbreviation H_FILESIZE :: nat where "H_FILESIZE \<equiv> 54"
abbreviation H_NAMESIZE :: nat where "H_NAMESIZE \<equiv> 94"

definition cpio_newc_magic :: "u8 list" where
  "cpio_newc_magic = [0x30, 0x37, 0x30, 0x37, 0x30, 0x31]"

definition cpio_header_magic_ok :: "memory \<Rightarrow> nat \<Rightarrow> bool" where
  "cpio_header_magic_ok m hdr = list_all (\<lambda>i. m (hdr + i) = cpio_newc_magic ! i) [0..<6]"

definition hex_step :: "u8 \<Rightarrow> u64 \<Rightarrow> u64" where
  "hex_step c value =
     (let v = push_bit 4 value in
      if 0x30 \<le> c \<and> c \<le> 0x39 then v OR ucast (c - 0x30)
      else if 0x61 \<le> c \<and> c \<le> 0x66 then v OR ucast (c - 0x61 + 10)
      else if 0x41 \<le> c \<and> c \<le> 0x46 then v OR ucast (c - 0x41 + 10)
      else v)"

definition cpio_hex_field8 :: "memory \<Rightarrow> nat \<Rightarrow> u64" where
  "cpio_hex_field8 m field = fold (\<lambda>i. hex_step (m (field + i))) [0..<8] 0"

definition cpio_align4 :: "u64 \<Rightarrow> u64" where
  "cpio_align4 value = (value + 3) AND NOT 3"

definition cpio_name_field_len :: "u64 \<Rightarrow> u64" where
  "cpio_name_field_len namesize = cpio_align4 (110 + namesize) - 110"

definition cpio_name_skip :: "(string \<Rightarrow> string \<Rightarrow> nat \<Rightarrow> int) \<Rightarrow> string \<Rightarrow> bool" where
  "cpio_name_skip strcmp_s name \<longleftrightarrow>
     name = [] \<or> strcmp_s name ''.'' 2 = 0 \<or> strcmp_s name ''..'' 3 = 0 \<or> strcmp_s name ''TRAILER!!!'' 11 = 0"

definition cpio_normalize_path :: "string \<Rightarrow> nat \<Rightarrow> string" where
  "cpio_normalize_path name out_cap =
     (let src = (if take 2 name = ''./'' then drop 2 name else if name = ''.'' then [] else name);
          src = (if take 1 src = ''/'' then drop 1 src else src) in
      slash # take (out_cap - 2) src)"

definition cpio_rofs_add_entry ::
  "(string \<Rightarrow> string \<Rightarrow> nat \<Rightarrow> int) \<Rightarrow> (nat \<Rightarrow> error_t) \<Rightarrow> string \<Rightarrow> u32 \<Rightarrow> u32 \<Rightarrow> u64 \<Rightarrow> nat \<Rightarrow> bool \<Rightarrow> bool
     \<Rightarrow> cpio_rofs_entry list \<Rightarrow> error_t \<times> cpio_rofs_entry list" where
  "cpio_rofs_add_entry strcmp_s push_res name md nl filesize data isdir islnk es =
     (if cpio_name_skip strcmp_s name then (REND_SUCCESS, es)
      else case push_res (length es) of
        REND_ERR err \<Rightarrow> (REND_ERR err, es)
      | REND_SUCCESS \<Rightarrow>
          (REND_SUCCESS,
           es @ [\<lparr>e_path = cpio_normalize_path name CPIO_ROFS_PATH_MAX, e_mode = md, e_nlink = nl,
                   e_filesize = filesize, e_data = data, e_is_dir = isdir, e_is_symlink = islnk\<rparr>]))"

text \<open>
  One pass of the loop over the headers up to the call of \<^verbatim>\<open>cpio_rofs_add_entry\<close>: a refused header,
  the trailer, or an entry with the address of the next header. No use of a name looks at more than
  its first 257 characters (two for a leading \<^verbatim>\<open>./\<close>, one for a slash, 254 that fit the path
  buffer), so 300 are read.
\<close>

datatype cpio_item = Bad_Header | Trailer | Item string cpio_rofs_entry nat

definition cpio_next_item :: "(string \<Rightarrow> string \<Rightarrow> nat \<Rightarrow> int) \<Rightarrow> memory \<Rightarrow> nat \<Rightarrow> nat \<Rightarrow> cpio_item" where
  "cpio_next_item strcmp_s m image_end cursor =
     (if \<not> cpio_header_magic_ok m cursor then Bad_Header
      else
        let namesize = cpio_hex_field8 m (cursor + H_NAMESIZE);
            filesize = cpio_hex_field8 m (cursor + H_FILESIZE);
            md = cpio_hex_field8 m (cursor + H_MODE);
            nl = ucast (cpio_hex_field8 m (cursor + H_NLINK)) :: u32;
            name_at = cursor + CPIO_NEWC_HDR_LEN in
        if image_end < name_at + unat namesize then Bad_Header
        else
          let name = cstr m name_at 300 in
          if strcmp_s name ''TRAILER!!!'' 11 = 0 then Trailer
          else
            let data = name_at + unat (cpio_name_field_len namesize) in
            if image_end < data + unat filesize then Bad_Header
            else
              Item name
                \<lparr>e_path = [], e_mode = ucast md, e_nlink = nl, e_filesize = filesize, e_data = data,
                 e_is_dir = (md AND CPIO_S_IFMT = CPIO_S_IFDIR),
                 e_is_symlink = (md AND CPIO_S_IFMT = CPIO_S_IFLNK)\<rparr>
                (data + unat (cpio_align4 filesize)))"

lemma next_item_grows:
  "cpio_next_item strcmp_s m image_end cursor = Item name e nxt
     \<Longrightarrow> cursor + CPIO_NEWC_HDR_LEN \<le> e_data e \<and> e_data e + unat (e_filesize e) \<le> image_end \<and> e_data e \<le> nxt"
  by (auto simp: cpio_next_item_def Let_def split: if_splits)

function cpio_scan ::
  "(string \<Rightarrow> string \<Rightarrow> nat \<Rightarrow> int) \<Rightarrow> (nat \<Rightarrow> error_t) \<Rightarrow> memory \<Rightarrow> nat \<Rightarrow> nat \<Rightarrow> cpio_rofs_entry list
     \<Rightarrow> error_t \<times> cpio_rofs_entry list" where
  "cpio_scan strcmp_s push_res m image_end cursor es =
     (if \<not> cursor + CPIO_NEWC_HDR_LEN \<le> image_end then (REND_SUCCESS, es)
      else case cpio_next_item strcmp_s m image_end cursor of
        Bad_Header \<Rightarrow> (REND_ERR E_IN_PARAM, [])
      | Trailer \<Rightarrow> (REND_SUCCESS, es)
      | Item name e nxt \<Rightarrow>
          (case cpio_rofs_add_entry strcmp_s push_res name (e_mode e) (e_nlink e) (e_filesize e) (e_data e)
                  (e_is_dir e) (e_is_symlink e) es of
             (REND_ERR err, es1) \<Rightarrow> (REND_ERR err, [])
           | (REND_SUCCESS, es1) \<Rightarrow> cpio_scan strcmp_s push_res m image_end nxt es1))"
  by pat_completeness auto
termination
  by (relation "measure (\<lambda>(strcmp_s, push_res, m, image_end, cursor, es). image_end - cursor)")
    (auto dest: next_item_grows)

declare cpio_scan.simps [simp del]

definition cpio_rofs_init ::
  "(string \<Rightarrow> string \<Rightarrow> nat \<Rightarrow> int) \<Rightarrow> error_t \<Rightarrow> (nat \<Rightarrow> error_t) \<Rightarrow> memory \<Rightarrow> nat \<Rightarrow> nat \<Rightarrow> cpio_rofs
     \<Rightarrow> error_t \<times> cpio_rofs" where
  "cpio_rofs_init strcmp_s init_res push_res m img image_len st =
     (case init_res of
        REND_ERR err \<Rightarrow> (REND_ERR err, st\<lparr>cpio_entry_tab := []\<rparr>)
      | REND_SUCCESS \<Rightarrow>
          let st1 = \<lparr>cpio_entry_tab = [], cpio_image = img, cpio_image_len = image_len\<rparr> in
          if img = 0 \<or> image_len < CPIO_NEWC_HDR_LEN then (REND_ERR E_IN_PARAM, st1)
          else case cpio_scan strcmp_s push_res m (img + image_len) img [] of
            (r, es) \<Rightarrow> (r, st1\<lparr>cpio_entry_tab := es\<rparr>))"

text \<open>
  The same with pointer sums of 64 bits, which wrap around: then a bounds test may pass for a size that
  leads out of the image, and the cursor may come back into the image, so that the loop need not end.
\<close>

definition ptr_add :: "nat \<Rightarrow> nat \<Rightarrow> nat" where
  "ptr_add p n = (p + n) mod 2 ^ 64"

definition mem64 :: "memory \<Rightarrow> memory" where
  "mem64 m a = m (a mod 2 ^ 64)"

definition cpio_next_item64 :: "(string \<Rightarrow> string \<Rightarrow> nat \<Rightarrow> int) \<Rightarrow> memory \<Rightarrow> nat \<Rightarrow> nat \<Rightarrow> cpio_item" where
  "cpio_next_item64 strcmp_s m image_end cursor =
     (if \<not> cpio_header_magic_ok (mem64 m) cursor then Bad_Header
      else
        let namesize = cpio_hex_field8 (mem64 m) (cursor + H_NAMESIZE);
            filesize = cpio_hex_field8 (mem64 m) (cursor + H_FILESIZE);
            md = cpio_hex_field8 (mem64 m) (cursor + H_MODE);
            nl = ucast (cpio_hex_field8 (mem64 m) (cursor + H_NLINK)) :: u32;
            name_at = ptr_add cursor CPIO_NEWC_HDR_LEN in
        if image_end < ptr_add name_at (unat namesize) then Bad_Header
        else
          let name = cstr (mem64 m) name_at 300 in
          if strcmp_s name ''TRAILER!!!'' 11 = 0 then Trailer
          else
            let data = ptr_add name_at (unat (cpio_name_field_len namesize)) in
            if image_end < ptr_add data (unat filesize) then Bad_Header
            else
              Item name
                \<lparr>e_path = [], e_mode = ucast md, e_nlink = nl, e_filesize = filesize, e_data = data,
                 e_is_dir = (md AND CPIO_S_IFMT = CPIO_S_IFDIR),
                 e_is_symlink = (md AND CPIO_S_IFMT = CPIO_S_IFLNK)\<rparr>
                (ptr_add data (unat (cpio_align4 filesize))))"

partial_function (option) cpio_scan64 ::
  "(string \<Rightarrow> string \<Rightarrow> nat \<Rightarrow> int) \<Rightarrow> (nat \<Rightarrow> error_t) \<Rightarrow> memory \<Rightarrow> nat \<Rightarrow> nat \<Rightarrow> cpio_rofs_entry list
     \<Rightarrow> (error_t \<times> cpio_rofs_entry list) option" where
  "cpio_scan64 strcmp_s push_res m image_end cursor es =
     (if \<not> ptr_add cursor CPIO_NEWC_HDR_LEN \<le> image_end then Some (REND_SUCCESS, es)
      else case cpio_next_item64 strcmp_s m image_end cursor of
        Bad_Header \<Rightarrow> Some (REND_ERR E_IN_PARAM, [])
      | Trailer \<Rightarrow> Some (REND_SUCCESS, es)
      | Item name e nxt \<Rightarrow>
          (case cpio_rofs_add_entry strcmp_s push_res name (e_mode e) (e_nlink e) (e_filesize e) (e_data e)
                  (e_is_dir e) (e_is_symlink e) es of
             (REND_ERR err, es1) \<Rightarrow> Some (REND_ERR err, [])
           | (REND_SUCCESS, es1) \<Rightarrow> cpio_scan64 strcmp_s push_res m image_end nxt es1))"

definition cpio_rofs_init64 ::
  "(string \<Rightarrow> string \<Rightarrow> nat \<Rightarrow> int) \<Rightarrow> error_t \<Rightarrow> (nat \<Rightarrow> error_t) \<Rightarrow> memory \<Rightarrow> nat \<Rightarrow> nat \<Rightarrow> cpio_rofs
     \<Rightarrow> (error_t \<times> cpio_rofs) option" where
  "cpio_rofs_init64 strcmp_s init_res push_res m img image_len st =
     (case init_res of
        REND_ERR err \<Rightarrow> Some (REND_ERR err, st\<lparr>cpio_entry_tab := []\<rparr>)
      | REND_SUCCESS \<Rightarrow>
          let st1 = \<lparr>cpio_entry_tab = [], cpio_image = img, cpio_image_len = image_len\<rparr> in
          if img = 0 \<or> image_len < CPIO_NEWC_HDR_LEN then Some (REND_ERR E_IN_PARAM, st1)
          else map_option (\<lambda>(r, es). (r, st1\<lparr>cpio_entry_tab := es\<rparr>)) (cpio_scan64 strcmp_s push_res m (ptr_add img image_len) img []))"

definition cpio_rofs_parsed_count :: "cpio_rofs \<Rightarrow> nat" where
  "cpio_rofs_parsed_count st = length (cpio_entry_tab st)"

definition cpio_path_equal :: "(string \<Rightarrow> string \<Rightarrow> nat \<Rightarrow> int) \<Rightarrow> string \<Rightarrow> string \<Rightarrow> bool" where
  "cpio_path_equal strcmp_s a b \<longleftrightarrow>
     strcmp_s (cpio_normalize_path a CPIO_ROFS_PATH_MAX) (cpio_normalize_path b CPIO_ROFS_PATH_MAX)
       CPIO_ROFS_PATH_MAX = 0"

definition entry_stat :: "cpio_rofs_entry \<Rightarrow> cpio_rofs_stat" where
  "entry_stat e = \<lparr>c_mode = e_mode e, c_size = e_filesize e, c_is_dir = e_is_dir e,
     c_is_symlink = e_is_symlink e, c_data = Some (e_data e),
     c_nlink = (if e_nlink e \<noteq> 0 then e_nlink e else 1)\<rparr>"

fun lookup_entries ::
  "(string \<Rightarrow> string \<Rightarrow> nat \<Rightarrow> int) \<Rightarrow> string \<Rightarrow> cpio_rofs_entry list \<Rightarrow> cpio_rofs_stat option" where
  "lookup_entries strcmp_s path [] = None"
| "lookup_entries strcmp_s path (e # es) =
     (if \<not> cpio_path_equal strcmp_s (e_path e) path then lookup_entries strcmp_s path es
      else Some (entry_stat e))"

definition cpio_rofs_lookup ::
  "(string \<Rightarrow> string \<Rightarrow> nat \<Rightarrow> int) \<Rightarrow> string \<Rightarrow> cpio_rofs \<Rightarrow> cpio_rofs_stat option" where
  "cpio_rofs_lookup strcmp_s path st = lookup_entries strcmp_s path (cpio_entry_tab st)"

definition cpio_rofs_ptr_in_image :: "nat \<Rightarrow> cpio_rofs \<Rightarrow> bool" where
  "cpio_rofs_ptr_in_image p st \<longleftrightarrow>
     cpio_image st \<noteq> 0 \<and> p \<noteq> 0 \<and> cpio_image st \<le> p \<and> p < cpio_image st + cpio_image_len st"

text \<open>The result and the bytes copied into the buffer.\<close>

definition cpio_rofs_read :: "memory \<Rightarrow> cpio_rofs_stat \<Rightarrow> u64 \<Rightarrow> u64 \<Rightarrow> (rend_error + u64) \<times> u8 list" where
  "cpio_rofs_read m st offset len =
     (if c_is_dir st then (Inl E_IN_PARAM, [])
      else if c_size st \<le> offset then (Inr 0, [])
      else
        let avail = c_size st - offset;
            n = (if avail < len then avail else len) in
        (Inr n,
         case c_data st of
           Some a \<Rightarrow> map (\<lambda>i. m (a + unat offset + i)) [0..<unat n]
         | None \<Rightarrow> []))"

fun cpio_rofs_visit ::
  "(string \<Rightarrow> cpio_rofs_stat \<Rightarrow> 's \<Rightarrow> bool \<times> 's) \<Rightarrow> cpio_rofs_entry list \<Rightarrow> 's \<Rightarrow> bool \<times> 's" where
  "cpio_rofs_visit fn [] ctx = (True, ctx)"
| "cpio_rofs_visit fn (e # es) ctx =
     (case fn (e_path e) (entry_stat e) ctx of
        (False, ctx1) \<Rightarrow> (False, ctx1)
      | (True, ctx1) \<Rightarrow> cpio_rofs_visit fn es ctx1)"

definition cpio_readdir_dtype :: "(string \<Rightarrow> string \<Rightarrow> nat \<Rightarrow> int) \<Rightarrow> string \<Rightarrow> cpio_rofs \<Rightarrow> d_type" where
  "cpio_readdir_dtype strcmp_s child_path st =
     (case cpio_rofs_lookup strcmp_s child_path st of
        None \<Rightarrow> VFS_DT_UNKNOWN
      | Some s \<Rightarrow> if c_is_symlink s then VFS_DT_LNK else if c_is_dir s then VFS_DT_DIR else VFS_DT_REG)"

fun cpio_collect_names ::
  "(string \<Rightarrow> string \<Rightarrow> nat \<Rightarrow> int) \<Rightarrow> (nat \<Rightarrow> bool) \<Rightarrow> string \<Rightarrow> cpio_rofs_entry list \<Rightarrow> string list
     \<Rightarrow> string list option" where
  "cpio_collect_names strcmp_s push_ok norm [] names = Some names"
| "cpio_collect_names strcmp_s push_ok norm (e # es) names =
     (case vfs_path_direct_child_name norm (e_path e) VFS_DIR_NAME_SLOT of
        None \<Rightarrow> cpio_collect_names strcmp_s push_ok norm es names
      | Some child \<Rightarrow>
          (case vfs_dir_names_insert strcmp_s (push_ok (length names)) names child of
             (False, names1) \<Rightarrow> None
           | (True, names1) \<Rightarrow> cpio_collect_names strcmp_s push_ok norm es names1))"

definition cpio_rofs_readdir ::
  "(string \<Rightarrow> string \<Rightarrow> nat \<Rightarrow> int) \<Rightarrow> bool \<Rightarrow> (nat \<Rightarrow> bool) \<Rightarrow> string \<Rightarrow> nat \<Rightarrow> cpio_rofs
     \<Rightarrow> int \<times> vfs_dirent option" where
  "cpio_rofs_readdir strcmp_s init_ok push_ok dirpath index st =
     (let norm = vfs_path_normalize dirpath VFS_PATH_MAX in
      if index = 0 then
        (0, Some \<lparr>d_name = ''.'', dt = VFS_DT_DIR, d_ino = vfs_path_to_ino norm\<rparr>)
      else if index = 1 then
        (0, Some \<lparr>d_name = ''..'', dt = VFS_DT_DIR,
               d_ino = (case vfs_path_parent norm VFS_PATH_MAX of
                          Some parent \<Rightarrow> vfs_path_to_ino parent
                        | None \<Rightarrow> vfs_path_to_ino ''/'')\<rparr>)
      else if \<not> init_ok then (- LINUX_ENOMEM, None)
      else case cpio_collect_names strcmp_s push_ok norm (cpio_entry_tab st) [] of
        None \<Rightarrow> (- LINUX_ENOMEM, None)
      | Some names \<Rightarrow>
          if length names \<le> index - 2 then (1, None)
          else
            let picked = names ! (index - 2) in
            case vfs_path_join norm picked VFS_PATH_MAX of
              None \<Rightarrow> (- LINUX_EIO, None)
            | Some child_path \<Rightarrow>
                (0, Some \<lparr>d_name = take (VFS_PATH_MAX - 1) picked,
                       dt = cpio_readdir_dtype strcmp_s child_path st,
                       d_ino = vfs_path_to_ino child_path\<rparr>))"

section \<open>Arithmetic of the header fields\<close>

lemma and_not_3:
  fixes w :: u64
  shows "unat (w AND NOT 3) = unat w div 4 * 4"
proof -
  have mask: "(3 :: u64) = mask 2" by (simp add: mask_eq_exp_minus_1)
  have [simp]: "2 \<le> n \<Longrightarrow> Suc (Suc (n - 2)) = n" for n :: nat by simp
  have "push_bit 2 (drop_bit 2 w) = w AND NOT 3"
    unfolding mask by (rule bit_eqI) (auto simp: bit_simps not_less)
  moreover have "push_bit 2 (drop_bit 2 w) + take_bit 2 w = w" by (rule bits_ident)
  ultimately have "w AND NOT 3 = w - take_bit 2 w" by (metis add_diff_cancel_right')
  moreover have "unat (take_bit 2 w) = unat w mod 4" unfolding unsigned_take_bit_eq
    by (simp add: take_bit_eq_mod)
  ultimately show ?thesis
    by (simp add: unat_sub word_le_nat_alt minus_mod_eq_div_mult)
qed

lemma align4_nat:
  assumes "unat v + 3 < 2 ^ 64"
  shows "unat (cpio_align4 v) = (unat v + 3) div 4 * 4"
  using assms unfolding cpio_align4_def and_not_3 by (simp add: unat_word_ariths)

lemma name_field_len_nat:
  assumes "unat v + 113 < 2 ^ 64"
  shows "unat (cpio_name_field_len v) = (unat v + 113) div 4 * 4 - 110"
proof -
  have u: "unat (110 + v) = unat v + 110" using assms by (simp add: unat_word_ariths)
  then have "unat (cpio_align4 (110 + v)) = (unat v + 113) div 4 * 4"
    using align4_nat [of "110 + v"] assms by simp
  moreover have "110 \<le> (unat v + 113) div 4 * 4"
    using div_mult_mod_eq [of "unat v + 113" 4] mod_less_divisor [of 4 "unat v + 113"] by linarith
  ultimately show ?thesis by (simp add: cpio_name_field_len_def unat_sub word_le_nat_alt)
qed

lemma or_digit:
  assumes d: "d < 16"
  shows "push_bit 4 (of_nat v) OR (of_nat d :: u64) = of_nat (16 * v + d)"
proof -
  have "take_bit 4 (of_nat d :: u64) = of_nat d"
    using d by (simp add: take_bit_of_nat take_bit_nat_eq_self)
  then have "push_bit 4 (of_nat v) AND (of_nat d :: u64) = 0"
    by (metis (no_types, lifting) and_zero_eq push_bit_take_bit take_bit_and take_bit_push_bit  bit_eqI bit_and_iff bit_push_bit_iff bit_take_bit_iff not_less bit_0_eq bot_apply bot_bool_def)
  from disjunctive_add_eq_or [OF this] show ?thesis
    by (simp add: push_bit_eq_mult mult.commute)
qed

section \<open>Where the entries lie\<close>

lemma length_cpio_normalize: "length (cpio_normalize_path name cap) \<le> Suc (cap - 2)"
  by (simp add: cpio_normalize_path_def Let_def)

lemma hd_cpio_normalize [simp]: "take (Suc 0) (cpio_normalize_path name cap) = ''/''"
  by (simp add: cpio_normalize_path_def Let_def)

definition entry_inside :: "nat \<Rightarrow> nat \<Rightarrow> cpio_rofs_entry \<Rightarrow> bool" where
  "entry_inside lo hi e \<longleftrightarrow> lo + CPIO_NEWC_HDR_LEN \<le> e_data e \<and> e_data e + unat (e_filesize e) \<le> hi
     \<and> take 1 (e_path e) = ''/'' \<and> length (e_path e) < CPIO_ROFS_PATH_MAX"

lemma add_entry_cases:
  assumes "cpio_rofs_add_entry strcmp_s push_res name md nl filesize data isdir islnk es = (r, es1)"
  shows "es1 = es \<or> (\<exists>p. es1 = es @ [\<lparr>e_path = cpio_normalize_path name CPIO_ROFS_PATH_MAX, e_mode = md, e_nlink = nl,
                   e_filesize = filesize, e_data = data, e_is_dir = isdir, e_is_symlink = islnk\<rparr>])"
  using assms by (auto simp: cpio_rofs_add_entry_def split: if_splits error_t.splits)

lemma scan_inside:
  assumes "cpio_scan strcmp_s push_res m hi cursor es = (r, es')"
    and "\<forall>e \<in> set es. entry_inside lo hi e" and "lo \<le> cursor"
  shows "(\<forall>e \<in> set es'. entry_inside lo hi e) \<and> (r \<noteq> REND_SUCCESS \<longrightarrow> es' = [])"
  using assms
proof (induction strcmp_s push_res m hi cursor es arbitrary: r es' rule: cpio_scan.induct)
  case (1 strcmp_s push_res m hi cursor es)
  show ?case
  proof (cases "cursor + CPIO_NEWC_HDR_LEN \<le> hi \<and> (\<exists>name e nxt. cpio_next_item strcmp_s m hi cursor = Item name e nxt)")
    case True
    then obtain name e nxt where item: "cpio_next_item strcmp_s m hi cursor = Item name e nxt"
      and le: "cursor + CPIO_NEWC_HDR_LEN \<le> hi" by blast
    let ?add = "cpio_rofs_add_entry strcmp_s push_res name (e_mode e) (e_nlink e) (e_filesize e) (e_data e)
                  (e_is_dir e) (e_is_symlink e) es"
    obtain r1 es1 where add: "?add = (r1, es1)" by (cases ?add)
    note g = next_item_grows [OF item]
    have "\<forall>x \<in> set es1. entry_inside lo hi x"
      using add_entry_cases [OF add] 1(3,4) g length_cpio_normalize [of name 256]
      by (auto simp: entry_inside_def)
    then show ?thesis
      using 1(1) [OF _ item add [symmetric]] 1(2,4) g item add le
      by (cases r1) (auto simp: cpio_scan.simps [of _ _ _ _ cursor])
  qed (use 1 in \<open>auto simp: cpio_scan.simps [of _ _ _ _ cursor] split: cpio_item.splits if_splits\<close>)
qed

lemma init_inside:
  assumes "cpio_rofs_init strcmp_s init_res push_res m img len st = (r, st')"
  shows "(\<forall>e \<in> set (cpio_entry_tab st'). entry_inside img (img + len) e)
    \<and> (r \<noteq> REND_SUCCESS \<longrightarrow> cpio_entry_tab st' = [])
    \<and> (cpio_entry_tab st' \<noteq> [] \<longrightarrow> img \<noteq> 0 \<and> cpio_image st' = img \<and> cpio_image_len st' = len)"
  using assms scan_inside [of strcmp_s push_res m "img + len" img "[]" _ _ img]
  by (auto simp: cpio_rofs_init_def Let_def split: error_t.splits if_splits prod.splits)

lemma lookup_entriesD:
  "lookup_entries strcmp_s path es = Some s \<Longrightarrow> \<exists>e \<in> set es. s = entry_stat e \<and> cpio_path_equal strcmp_s (e_path e) path"
  by (induction es) (auto split: if_splits)

lemma read_inside:
  assumes "c_data s = Some a" "lo \<le> a" "a + unat (c_size s) \<le> hi"
    and "\<And>x. lo \<le> x \<Longrightarrow> x < hi \<Longrightarrow> m' x = m x"
  shows "cpio_rofs_read m' s off n = cpio_rofs_read m s off n"
proof -
  have "m' (a + unat off + i) = m (a + unat off + i)"
    if "off < c_size s" "i < unat k" "k \<le> c_size s - off" for i k
  proof -
    have "unat off + i < unat (c_size s)"
      using that by (simp add: word_less_nat_alt word_le_nat_alt unat_sub)
    then show ?thesis using assms by auto
  qed
  then show ?thesis
    by (auto simp: cpio_rofs_read_def Let_def assms(1) not_le not_less)
qed

section \<open>Pointers of 64 bits\<close>

lemma ptr_add_small: "p + n < 2 ^ 64 \<Longrightarrow> ptr_add p n = p + n"
  by (simp add: ptr_add_def)

lemma hex_step_le: "unat v < 2 ^ 60 \<Longrightarrow> unat (hex_step c v) \<le> 16 * unat v + 15"
proof -
  assume v: "unat v < 2 ^ 60"
  have or: "unat (push_bit 4 v OR of_nat d) \<le> 16 * unat v + 15" if "d < 16" for d :: nat
  proof -
    have "push_bit 4 v OR of_nat d = of_nat (16 * unat v + d)" using or_digit [OF that, of "unat v"] by simp
    then show ?thesis using v that by (simp add: unat_of_nat del: of_nat_add of_nat_mult)
  qed
  have digit: "unat (push_bit 4 v OR ucast (x :: u8)) \<le> 16 * unat v + 15" if "unat x < 16" for x
    using or [OF that] by (simp add: of_nat_unat)
  have zero: "unat (push_bit 4 v) \<le> 16 * unat v + 15" using or [of 0] by simp
  consider "0x30 \<le> c \<and> c \<le> 0x39" | "\<not> (0x30 \<le> c \<and> c \<le> 0x39)" "0x61 \<le> c \<and> c \<le> 0x66" | "\<not> (0x30 \<le> c \<and> c \<le> 0x39)" "\<not> (0x61 \<le> c \<and> c \<le> 0x66)" "0x41 \<le> c \<and> c \<le> 0x46"
    | "\<not> (0x30 \<le> c \<and> c \<le> 0x39)" "\<not> (0x61 \<le> c \<and> c \<le> 0x66)" "\<not> (0x41 \<le> c \<and> c \<le> 0x46)" by blast
  then show ?thesis
  proof cases
    case 1
    then have "unat (c - 0x30) < 16" using unat_sub_if_size [of c "0x30"] by (auto simp: word_le_nat_alt)
    from digit [OF this] show ?thesis using 1 by (auto simp: hex_step_def Let_def)
  next
    case 2
    then have "unat (c - 0x61 + 10) < 16" using unat_sub_if_size [of c "0x57"] by (auto simp: word_le_nat_alt)
    from digit [OF this] show ?thesis using 2 by (auto simp: hex_step_def Let_def)
  next
    case 3
    then have "unat (c - 0x41 + 10) < 16" using unat_sub_if_size [of c "0x37"] by (auto simp: word_le_nat_alt)
    from digit [OF this] show ?thesis using 3 by (auto simp: hex_step_def Let_def)
  next
    case 4
    then show ?thesis using zero by (auto simp: hex_step_def Let_def)
  qed
qed

lemma hex_field_lt: "unat (cpio_hex_field8 m a) < 2 ^ 32"
proof -
  have "k \<le> 8 \<Longrightarrow> unat (fold (\<lambda>i. hex_step (m (a + i))) [0..<k] 0) < 16 ^ k" for k
  proof (induction k)
    case (Suc k)
    have "(16 :: nat) ^ k \<le> 16 ^ 7" using Suc.prems by (intro power_increasing) simp_all
    then have "unat (fold (\<lambda>i. hex_step (m (a + i))) [0..<k] 0) < 2 ^ 60" using Suc by simp
    from hex_step_le [OF this, of "m (a + k)"] show ?case using Suc by simp
  qed simp
  from this [of 8] show ?thesis by (simp add: cpio_hex_field8_def)
qed

lemma mem64_below: "a < 2 ^ 64 \<Longrightarrow> mem64 m a = m a"
  by (simp add: mem64_def)

lemma cstr_mem64: "a + n \<le> 2 ^ 64 \<Longrightarrow> cstr (mem64 m) a n = cstr m a n"
  by (induction m a n rule: cstr.induct) (simp_all add: mem64_below)

lemma header_mem64:
  assumes "cursor + CPIO_NEWC_HDR_LEN \<le> 2 ^ 64"
  shows "cpio_header_magic_ok (mem64 m) cursor = cpio_header_magic_ok m cursor"
    and "k \<le> 102 \<Longrightarrow> cpio_hex_field8 (mem64 m) (cursor + k) = cpio_hex_field8 m (cursor + k)"
proof -
  have eq: "mem64 m (cursor + i) = m (cursor + i)" if "i < 110" for i using that assms by (intro mem64_below) simp
  show "cpio_header_magic_ok (mem64 m) cursor = cpio_header_magic_ok m cursor"
    by (auto simp: cpio_header_magic_ok_def list_all_iff eq)
  show "cpio_hex_field8 (mem64 m) (cursor + k) = cpio_hex_field8 m (cursor + k)" if "k \<le> 102"
    unfolding cpio_hex_field8_def by (rule fold_cong) (use that eq [of "k + _"] in \<open>simp_all add: add.assoc\<close>)
qed

lemma field_len_bounds:
  assumes "unat v < 2 ^ 32"
  shows "unat (cpio_name_field_len v) \<le> unat v + 3" "unat (cpio_align4 v) \<le> unat v + 3"
  using assms name_field_len_nat [of v] align4_nat [of v] by simp_all

lemma next_item_bound:
  assumes "cpio_next_item strcmp_s m image_end cursor = Item name e nxt"
  shows "nxt \<le> image_end + 3"
proof -
  let ?fs = "cpio_hex_field8 m (cursor + H_FILESIZE)"
  have "nxt = e_data e + unat (cpio_align4 ?fs) \<and> e_filesize e = ?fs \<and> e_data e + unat ?fs \<le> image_end"
    using assms by (auto simp: cpio_next_item_def Let_def split: if_splits)
  then show ?thesis using field_len_bounds(2) [OF hex_field_lt, of m "cursor + H_FILESIZE"] by simp
qed

lemma next_item64_eq:
  assumes hi: "hi + 2 ^ 33 \<le> 2 ^ 64" and cur: "cursor + CPIO_NEWC_HDR_LEN \<le> hi"
  shows "cpio_next_item64 strcmp_s m hi cursor = cpio_next_item strcmp_s m hi cursor"
proof -
  let ?ns = "cpio_hex_field8 m (cursor + H_NAMESIZE)" and ?fs = "cpio_hex_field8 m (cursor + H_FILESIZE)"
  let ?data = "cursor + 110 + unat (cpio_name_field_len ?ns)"
  have n: "unat ?ns < 2 ^ 32" and f: "unat ?fs < 2 ^ 32" by (rule hex_field_lt)+
  have head: "ptr_add cursor 110 = cursor + 110" "ptr_add (cursor + 110) (unat ?ns) = cursor + 110 + unat ?ns"
    using hi cur n by (auto intro: ptr_add_small)
  have name: "cstr (mem64 m) (cursor + 110) 300 = cstr m (cursor + 110) 300"
    using hi cur by (intro cstr_mem64) simp
  have data: "ptr_add (cursor + 110) (unat (cpio_name_field_len ?ns)) = ?data"
    using hi cur n field_len_bounds(1) [OF n] by (intro ptr_add_small) simp
  have "cursor + 110 + unat ?ns \<le> hi \<Longrightarrow> ptr_add ?data (unat ?fs) = ?data + unat ?fs"
    "cursor + 110 + unat ?ns \<le> hi \<Longrightarrow> ptr_add ?data (unat (cpio_align4 ?fs)) = ?data + unat (cpio_align4 ?fs)"
    using hi f field_len_bounds(1) [OF n] field_len_bounds(2) [OF f] by (auto intro!: ptr_add_small)
  then show ?thesis
    using cur hi unfolding cpio_next_item64_def cpio_next_item_def Let_def
    by (simp add: header_mem64 head name data)
qed

lemma scan64_eq:
  assumes "hi + 2 ^ 33 \<le> 2 ^ 64" "cursor + CPIO_NEWC_HDR_LEN < 2 ^ 64"
  shows "cpio_scan64 strcmp_s push_res m hi cursor es = Some (cpio_scan strcmp_s push_res m hi cursor es)"
  using assms
proof (induction strcmp_s push_res m hi cursor es rule: cpio_scan.induct)
  case (1 strcmp_s push_res m hi cursor es)
  show ?case
  proof (cases "cursor + CPIO_NEWC_HDR_LEN \<le> hi")
    case True
    note eq = next_item64_eq [OF 1(2) True]
    show ?thesis
    proof (cases "cpio_next_item strcmp_s m hi cursor")
      case (Item name e nxt)
      then have "nxt + CPIO_NEWC_HDR_LEN < 2 ^ 64" using next_item_bound [OF Item] 1(2) True by simp
      then show ?thesis using 1(1) [OF _ Item] 1(2,3) True Item
        by (subst cpio_scan64.simps, subst cpio_scan.simps)
          (auto simp: eq ptr_add_small split: prod.splits error_t.splits)
    qed (use True 1(3) in \<open>simp_all add: eq ptr_add_small cpio_scan64.simps [of _ _ _ _ cursor] cpio_scan.simps [of _ _ _ _ cursor]\<close>)
  next
    case False
    then show ?thesis using 1(3) by (simp add: ptr_add_small cpio_scan64.simps [of _ _ _ _ cursor] cpio_scan.simps [of _ _ _ _ cursor])
  qed
qed

lemma init64_eq:
  assumes "img + len + 2 ^ 33 \<le> 2 ^ 64"
  shows "cpio_rofs_init64 strcmp_s init_res push_res m img len st
    = Some (cpio_rofs_init strcmp_s init_res push_res m img len st)"
  using assms by (auto simp: cpio_rofs_init64_def cpio_rofs_init_def Let_def ptr_add_small scan64_eq split: error_t.split prod.split)

section \<open>A reference writer of newc archives\<close>

record newc_file =
  nf_name :: string
  nf_mode :: u32
  nf_nlink :: u32
  nf_content :: "u8 list"

definition hex_digit :: "nat \<Rightarrow> u8" where
  "hex_digit d = (if d < 10 then of_nat (0x30 + d) else of_nat (0x37 + d))"

definition hex8 :: "nat \<Rightarrow> u8 list" where
  "hex8 v = map (\<lambda>i. hex_digit (v div 16 ^ (7 - i) mod 16)) [0..<8]"

definition pad4 :: "nat \<Rightarrow> u8 list" where
  "pad4 n = replicate ((n + 3) div 4 * 4 - n) 0"

definition newc_header :: "newc_file \<Rightarrow> u8 list" where
  "newc_header f =
     cpio_newc_magic @ hex8 0 @ hex8 (unat (nf_mode f)) @ hex8 0 @ hex8 0 @ hex8 (unat (nf_nlink f)) @ hex8 0
     @ hex8 (length (nf_content f)) @ hex8 0 @ hex8 0 @ hex8 0 @ hex8 0
     @ hex8 (length (nf_name f) + 1) @ hex8 0"

definition name_bytes :: "string \<Rightarrow> u8 list" where
  "name_bytes s = map (\<lambda>c. of_nat (of_char c)) s @ [0]"

definition newc_record :: "newc_file \<Rightarrow> u8 list" where
  "newc_record f =
     newc_header f @ name_bytes (nf_name f) @ pad4 (110 + (length (nf_name f) + 1))
     @ nf_content f @ pad4 (length (nf_content f))"

definition newc_trailer :: newc_file where
  "newc_trailer = \<lparr>nf_name = ''TRAILER!!!'', nf_mode = 0, nf_nlink = 1, nf_content = []\<rparr>"

definition newc_pack :: "newc_file list \<Rightarrow> u8 list" where
  "newc_pack fs = concat (map newc_record fs) @ newc_record newc_trailer"

definition holds :: "memory \<Rightarrow> nat \<Rightarrow> u8 list \<Rightarrow> bool" where
  "holds m a bs \<longleftrightarrow> (\<forall>i < length bs. m (a + i) = bs ! i)"

definition newc_ok :: "newc_file \<Rightarrow> bool" where
  "newc_ok f \<longleftrightarrow> CHR 0x00 \<notin> set (nf_name f) \<and> length (nf_name f) < 255 \<and> length (nf_content f) < 2 ^ 32"

section \<open>Reading back what the writer wrote\<close>

lemma holds_append: "holds m a (xs @ ys) \<longleftrightarrow> holds m a xs \<and> holds m (a + length xs) ys"
proof
  assume h: "holds m a (xs @ ys)"
  have "m (a + i) = xs ! i" if "i < length xs" for i
    using h that by (auto simp: holds_def nth_append dest: spec [of _ i])
  moreover have "m (a + length xs + j) = ys ! j" if "j < length ys" for j
    using h that by (auto simp: holds_def nth_append add.assoc dest: spec [of _ "length xs + j"])
  ultimately show "holds m a xs \<and> holds m (a + length xs) ys" by (simp add: holds_def)
next
  assume h: "holds m a xs \<and> holds m (a + length xs) ys"
  have "m (a + i) = (xs @ ys) ! i" if "i < length xs + length ys" for i
  proof (cases "i < length xs")
    case False
    then obtain j where "i = length xs + j" using le_Suc_ex not_less by blast
    then show ?thesis using h that by (auto simp: holds_def add.assoc)
  qed (use h in \<open>auto simp: holds_def nth_append\<close>)
  then show "holds m a (xs @ ys)" by (simp add: holds_def)
qed

lemma holds_Cons: "holds m a (x # xs) \<longleftrightarrow> m a = x \<and> holds m (Suc a) xs"
  using holds_append [of m a "[x]" xs] by (simp add: holds_def)

lemma length_hex8 [simp]: "length (hex8 v) = 8"
  by (simp add: hex8_def)

lemma length_magic [simp]: "length cpio_newc_magic = 6"
  by (simp add: cpio_newc_magic_def)

lemma length_newc_header [simp]: "length (newc_header f) = 110"
  by (simp add: newc_header_def)

lemma hex_step_digit:
  assumes "d < 16"
  shows "hex_step (hex_digit d) (of_nat v) = of_nat (16 * v + d)"
proof -
  have "d \<in> {0..<16}" using assms by simp
  then have "hex_step (hex_digit d) x = push_bit 4 x OR of_nat d" for x
    by (auto simp: atLeastLessThan_nat_numeral hex_step_def hex_digit_def)
  then show ?thesis by (simp only: or_digit [OF assms])
qed

lemma hex_field_hex8:
  assumes "holds m a (hex8 v)" "v < 2 ^ 32"
  shows "cpio_hex_field8 m a = of_nat v"
proof -
  have "cpio_hex_field8 m a = fold (\<lambda>i. hex_step (hex_digit (v div 16 ^ (7 - i) mod 16))) [0..<8] (of_nat 0)"
    unfolding cpio_hex_field8_def
    by (rule fold_cong) (use assms in \<open>auto simp: holds_def hex8_def\<close>)
  moreover have "fold (\<lambda>i. hex_step (hex_digit (v div 16 ^ (7 - i) mod 16))) [0..<k] (of_nat 0)
      = of_nat (v div 16 ^ (8 - k))" if "k \<le> 8" for k
    using that
  proof (induction k)
    case 0
    then show ?case using assms(2) by simp
  next
    case (Suc k)
    have p: "16 ^ (8 - k) = 16 * (16 :: nat) ^ (7 - k)" "8 - Suc k = 7 - k"
      using Suc.prems by (simp_all flip: power_Suc add: Suc_diff_le)
    have "16 * (v div (16 ^ (7 - k) * 16)) + v div 16 ^ (7 - k) mod 16 = v div 16 ^ (7 - k)"
      by (simp add: div_mult2_eq)
    then show ?case
      using Suc by (simp add: hex_step_digit p mult.commute del: of_nat_add of_nat_mult)
  qed
  ultimately show ?thesis by simp
qed

lemma name_byte [simp]: "unat (of_nat (of_char c) :: u8) = of_char c"
  by (simp add: unat_of_nat)

lemma name_byte_zero [simp]: "(of_nat (of_char c) :: u8) = 0 \<longleftrightarrow> c = CHR 0x00"
proof -
  have "(of_char c :: nat) = 0 \<longleftrightarrow> (of_nat (of_char c) :: u8) = 0"
    using unat_eq_zero [of "of_nat (of_char c) :: u8"] unfolding name_byte .
  then show ?thesis using of_char_eq_iff [of c "CHR 0x00", where 'a = nat] by simp
qed

lemma cstr_name:
  assumes "holds m a (name_bytes s)" "CHR 0x00 \<notin> set s" "length s < n"
  shows "cstr m a n = s"
  using assms
proof (induction s arbitrary: a n)
  case (Cons c s)
  then show ?case by (cases n) (auto simp: name_bytes_def holds_Cons)
qed (auto simp: name_bytes_def holds_Cons gr0_conv_Suc)

definition data_offset :: "newc_file \<Rightarrow> nat" where
  "data_offset f = (length (nf_name f) + 114) div 4 * 4"

definition file_entry :: "newc_file \<Rightarrow> nat \<Rightarrow> cpio_rofs_entry" where
  "file_entry f a = \<lparr>e_path = [], e_mode = nf_mode f, e_nlink = nf_nlink f,
     e_filesize = of_nat (length (nf_content f)), e_data = a,
     e_is_dir = ((ucast (nf_mode f) :: u64) AND CPIO_S_IFMT = CPIO_S_IFDIR),
     e_is_symlink = ((ucast (nf_mode f) :: u64) AND CPIO_S_IFMT = CPIO_S_IFLNK)\<rparr>"

definition record_length :: "newc_file \<Rightarrow> nat" where
  "record_length f = data_offset f + (length (nf_content f) + 3) div 4 * 4"

lemma length_newc_record: "length (newc_record f) = record_length f"
proof -
  have a: "n \<le> (n + 3) div 4 * 4" for n :: nat
    using div_mult_mod_eq [of "n + 3" 4] mod_less_divisor [of 4 "n + 3"] by linarith
  show ?thesis
    using a [of "111 + length (nf_name f)"] a [of "length (nf_content f)"]
    by (simp add: newc_record_def name_bytes_def pad4_def data_offset_def record_length_def add.commute)
qed

lemma record_parts:
  assumes "holds m a (newc_record f)"
  shows "holds m a (newc_header f)"
    and "holds m (a + CPIO_NEWC_HDR_LEN) (name_bytes (nf_name f))"
    and "holds m (a + data_offset f) (nf_content f)"
proof -
  have off: "110 + length (name_bytes (nf_name f)) + length (pad4 (110 + (length (nf_name f) + 1))) = data_offset f"
    using length_newc_record [of "f\<lparr>nf_content := []\<rparr>"]
    by (simp add: newc_record_def data_offset_def record_length_def pad4_def)
  show "holds m (a + data_offset f) (nf_content f)"
    using assms unfolding newc_record_def off [symmetric] by (simp add: holds_append add.assoc)
qed (use assms in \<open>simp_all add: newc_record_def holds_append add.assoc\<close>)

lemma header_parts:
  assumes "holds m a (newc_header f)"
  shows "holds m a cpio_newc_magic" "holds m (a + H_MODE) (hex8 (unat (nf_mode f)))"
    and "holds m (a + H_NLINK) (hex8 (unat (nf_nlink f)))" "holds m (a + H_FILESIZE) (hex8 (length (nf_content f)))"
    and "holds m (a + H_NAMESIZE) (hex8 (length (nf_name f) + 1))"
  using assms by (simp_all add: newc_header_def holds_append add.assoc)

lemma header_fields:
  assumes "holds m a (newc_header f)" "newc_ok f"
  shows "cpio_header_magic_ok m a"
    and "cpio_hex_field8 m (a + H_NAMESIZE) = of_nat (length (nf_name f) + 1)"
    and "cpio_hex_field8 m (a + H_FILESIZE) = of_nat (length (nf_content f))"
    and "cpio_hex_field8 m (a + H_MODE) = ucast (nf_mode f)"
    and "cpio_hex_field8 m (a + H_NLINK) = ucast (nf_nlink f)"
proof -
  note parts = header_parts [OF assms(1)]
  show "cpio_header_magic_ok m a"
    using parts(1) by (auto simp: cpio_header_magic_ok_def holds_def list_all_iff)
  have small: "unat x < 2 ^ 32" for x :: u32 by (rule order_less_le_trans [OF unsigned_less]) simp
  show "cpio_hex_field8 m (a + H_MODE) = ucast (nf_mode f)"
    using hex_field_hex8 [OF parts(2) small] by simp
  show "cpio_hex_field8 m (a + H_NLINK) = ucast (nf_nlink f)"
    using hex_field_hex8 [OF parts(3) small] by simp
qed (use header_parts [OF assms(1)] assms(2) in
  \<open>auto simp: newc_ok_def simp del: of_nat_Suc of_nat_add intro!: hex_field_hex8\<close>)

lemma name_field_len_file:
  "length (nf_name f) < 255 \<Longrightarrow>
    110 + unat (cpio_name_field_len (of_nat (length (nf_name f) + 1))) = data_offset f"
proof -
  assume l: "length (nf_name f) < 255"
  then have u: "unat (of_nat (length (nf_name f) + 1) :: u64) = length (nf_name f) + 1"
    by (simp add: unat_of_nat del: of_nat_add of_nat_Suc)
  have "110 \<le> (length (nf_name f) + 114) div 4 * 4"
    using div_mult_mod_eq [of "length (nf_name f) + 114" 4] mod_less_divisor [of 4 "length (nf_name f) + 114"]
    by linarith
  then show ?thesis
    using name_field_len_nat [of "of_nat (length (nf_name f) + 1)"] l
    unfolding u data_offset_def by simp
qed

context strcmp_api
begin

lemma scmp_literal: "length lit < n \<Longrightarrow> scmp name lit n = 0 \<longleftrightarrow> name = lit"
  by (metis length_take linorder_not_le min.absorb2 min_def scmp_zero take_all_iff nat_less_le)

lemma next_item_record:
  assumes rec: "holds m a (newc_record f)" and ok: "newc_ok f" and hi: "a + length (newc_record f) \<le> hi"
  shows "cpio_next_item scmp m hi a =
    (if nf_name f = ''TRAILER!!!'' then Trailer
     else Item (nf_name f) (file_entry f (a + data_offset f)) (a + length (newc_record f)))"
proof -
  let ?n = "length (nf_name f)" and ?c = "length (nf_content f)"
  have b: "?n < 255" "?c < 2 ^ 32" using ok by (auto simp: newc_ok_def)
  then have u: "unat (of_nat (?n + 1) :: u64) = ?n + 1" "unat (of_nat ?c :: u64) = ?c"
    by (simp_all add: unat_of_nat del: of_nat_add of_nat_Suc)
  have al: "unat (cpio_align4 (of_nat ?c)) = (?c + 3) div 4 * 4"
    using align4_nat [of "of_nat ?c"] b unfolding u by simp
  note len = length_newc_record [of f, unfolded record_length_def] and nf = name_field_len_file [OF b(1)]
  have n: "110 + (?n + 1) \<le> data_offset f" and c: "?c \<le> (?c + 3) div 4 * 4"
    using div_mult_mod_eq [of "?n + 114" 4] mod_less_divisor [of 4 "?n + 114"]
      div_mult_mod_eq [of "?c + 3" 4] mod_less_divisor [of 4 "?c + 3"]
    unfolding data_offset_def by linarith+
  define ns fs where "ns = (of_nat (?n + 1) :: u64)" and "fs = (of_nat ?c :: u64)"
  note fields = header_fields [OF record_parts(1) [OF rec] ok, folded ns_def fs_def]
  have name: "cstr m (a + CPIO_NEWC_HDR_LEN) 300 = nf_name f"
    by (rule cstr_name [OF record_parts(2) [OF rec]]) (use ok in \<open>auto simp: newc_ok_def\<close>)
  have "a + 110 + unat ns \<le> hi"
    unfolding ns_def u using n hi len by linarith
  moreover have "a + 110 + unat (cpio_name_field_len ns) = a + data_offset f"
    unfolding ns_def using nf by linarith
  moreover have "a + data_offset f + unat fs \<le> hi"
    unfolding fs_def u using c hi len by linarith
  moreover have "a + length (newc_record f) = a + data_offset f + unat (cpio_align4 fs)"
    unfolding fs_def al len by simp
  moreover have "ucast (ucast x :: u64) = x" for x :: u32 by (rule bit_eqI) (auto simp: bit_simps)
  ultimately show ?thesis
    unfolding cpio_next_item_def Let_def file_entry_def fields(2-) name fs_def [symmetric]
    by (simp add: scmp_literal not_less fields(1) del: of_nat_add of_nat_Suc)
qed

end

definition archivable :: "newc_file \<Rightarrow> bool" where
  "archivable f \<longleftrightarrow> newc_ok f \<and> nf_name f \<notin> {[], ''.'', ''..'', ''TRAILER!!!''}"

abbreviation cpio_path :: "string \<Rightarrow> string" where
  "cpio_path p \<equiv> cpio_normalize_path p CPIO_ROFS_PATH_MAX"

fun pack_entries :: "nat \<Rightarrow> newc_file list \<Rightarrow> cpio_rofs_entry list" where
  "pack_entries a [] = []"
| "pack_entries a (f # fs) =
     (file_entry f (a + data_offset f))\<lparr>e_path := cpio_path (nf_name f)\<rparr> # pack_entries (a + record_length f) fs"

lemma newc_pack_Cons: "newc_pack (f # fs) = newc_record f @ newc_pack fs"
  by (simp add: newc_pack_def)

lemma pack_entries_paths [simp]: "map e_path (pack_entries a fs) = map (\<lambda>f. cpio_path (nf_name f)) fs"
  by (induction fs arbitrary: a) auto

lemma pack_entries_file:
  assumes "e \<in> set (pack_entries a fs)" "holds m a (newc_pack fs)" 
  shows "\<exists>f \<in> set fs. \<exists>b. e = (file_entry f b)\<lparr>e_path := cpio_path (nf_name f)\<rparr> \<and> holds m b (nf_content f)"
  using assms
proof (induction fs arbitrary: a)
  case (Cons f fs)
  then have h: "holds m a (newc_record f)" "holds m (a + record_length f) (newc_pack fs)"
    by (simp_all add: newc_pack_Cons holds_append length_newc_record)
  show ?case
  proof (cases "e \<in> set (pack_entries (a + record_length f) fs)")
    case True
    then show ?thesis using Cons.IH [OF True h(2)] by auto
  next
    case False
    then show ?thesis using Cons.prems(1) record_parts(3) [OF h(1)] by auto
  qed
qed simp

lemma read_file:
  assumes h: "holds m a (nf_content f)" and l: "length (nf_content f) < 2 ^ 32"
    and s: "c_data s = Some a" "c_size s = of_nat (length (nf_content f))" "\<not> c_is_dir s"
  shows "snd (cpio_rofs_read m s off n) = take (unat n) (drop (unat off) (nf_content f))"
proof -
  let ?c = "length (nf_content f)"
  have sz: "unat (c_size s) = ?c" using l by (simp add: s unat_of_nat)
  show ?thesis
  proof (cases "c_size s \<le> off")
    case True
    then have "?c \<le> unat off" by (simp add: word_le_nat_alt sz)
    then show ?thesis using True by (simp add: cpio_rofs_read_def s(3))
  next
    case False
    then have o: "unat off < ?c" and d: "unat (c_size s - off) = ?c - unat off"
      by (auto simp: word_le_nat_alt sz unat_sub)
    define k where "k = (if c_size s - off < n then c_size s - off else n)"
    have k: "unat k = min (unat n) (?c - unat off)"
      by (auto simp: k_def word_less_nat_alt d)
    have "snd (cpio_rofs_read m s off n) = map (\<lambda>i. m (a + unat off + i)) [0..<unat k]"
      using False by (simp add: cpio_rofs_read_def s(1,3) k_def Let_def)
    also have "\<dots> = take (unat n) (drop (unat off) (nf_content f))"
      using h o by (intro nth_equalityI) (auto simp: k holds_def add.assoc)
    finally show ?thesis .
  qed
qed

lemma cpio_path_idem [simp]: "cpio_path (cpio_path p) = cpio_path p"
  by (simp add: cpio_normalize_path_def Let_def min_def)

lemma cpio_path_length: "length (cpio_path p) \<le> 255"
  using length_cpio_normalize [of p 256] by simp

context strcmp_api
begin

lemma name_skip_iff: "cpio_name_skip scmp name \<longleftrightarrow> name \<in> {[], ''.'', ''..'', ''TRAILER!!!''}"
  by (auto simp: cpio_name_skip_def scmp_literal)

lemma path_equal_iff: "cpio_path_equal scmp a b \<longleftrightarrow> cpio_path a = cpio_path b"
  unfolding cpio_path_equal_def
  by (rule scmp_zero_short) (use cpio_path_length [of a] cpio_path_length [of b] in auto)

lemma scan_trailer:
  assumes "holds m a (newc_record newc_trailer)" "a + length (newc_record newc_trailer) \<le> hi"
  shows "cpio_scan scmp push_res m hi a es = (REND_SUCCESS, es)"
  using next_item_record [OF assms(1) _ assms(2)]
  by (subst cpio_scan.simps) (simp add: newc_trailer_def newc_ok_def)

lemma scan_pack:
  assumes "holds m a (newc_pack fs)" "\<forall>f \<in> set fs. archivable f" "a + length (newc_pack fs) \<le> hi"
    and "\<forall>k < length es + length fs. push_res k = REND_SUCCESS"
  shows "cpio_scan scmp push_res m hi a es = (REND_SUCCESS, es @ pack_entries a fs)"
  using assms
proof (induction fs arbitrary: a es)
  case Nil
  then show ?case using scan_trailer by (simp add: newc_pack_def)
next
  case (Cons f fs)
  let ?a = "a + length (newc_record f)"
  have h: "holds m a (newc_record f)" "holds m ?a (newc_pack fs)"
    using Cons.prems(1) by (simp_all add: newc_pack_Cons holds_append)
  have hi: "a + length (newc_record f) \<le> hi" "?a + length (newc_pack fs) \<le> hi"
    using Cons.prems(3) by (simp_all add: newc_pack_Cons)
  have f: "newc_ok f" "\<not> cpio_name_skip scmp (nf_name f)" "nf_name f \<noteq> ''TRAILER!!!''"
    using Cons.prems(2) by (auto simp: archivable_def name_skip_iff)
  have "110 \<le> length (newc_record f)" by (simp add: newc_record_def)
  then have "cpio_scan scmp push_res m hi a es
      = cpio_scan scmp push_res m hi ?a (es @ [(file_entry f (a + data_offset f))\<lparr>e_path := cpio_path (nf_name f)\<rparr>])"
    using next_item_record [OF h(1) f(1) hi(1)] f Cons.prems(4) hi(1)
    by (subst cpio_scan.simps) (simp add: cpio_rofs_add_entry_def file_entry_def)
  then show ?case using Cons.IH [OF h(2) _ hi(2)] Cons.prems(2,4) by (simp add: length_newc_record)
qed

lemma lookup_entries_distinct:
  assumes "e \<in> set es" "distinct (map e_path es)" "\<forall>x \<in> set es. cpio_path (e_path x) = e_path x"
    and "cpio_path path = e_path e"
  shows "lookup_entries scmp path es = Some (entry_stat e)"
  using assms by (induction es) (auto simp: path_equal_iff)

lemma lookup_entries_none:
  "lookup_entries scmp path es = None \<longleftrightarrow> (\<forall>e \<in> set es. cpio_path (e_path e) \<noteq> cpio_path path)"
  by (induction es) (auto simp: path_equal_iff)

end

section \<open>Directory listing\<close>

lemma direct_child_short:
  "vfs_path_direct_child_name p q VFS_DIR_NAME_SLOT = Some c \<Longrightarrow> c \<noteq> [] \<and> length c < VFS_DIR_NAME_SLOT"
  by (auto simp: vfs_path_direct_child_name_def Let_def split: if_splits)

definition child_names :: "string \<Rightarrow> cpio_rofs_entry list \<Rightarrow> string set" where
  "child_names norm es = {c. \<exists>e \<in> set es. vfs_path_direct_child_name norm (e_path e) VFS_DIR_NAME_SLOT = Some c}"

lemma dir_names_insert_room: "name \<noteq> [] \<Longrightarrow> fst (vfs_dir_names_insert scmp True names name)"
  by (simp add: vfs_dir_names_insert_def)

context strcmp_api
begin

lemma collect_names_sorted:
  assumes "sorted_wrt (\<lambda>a b. scmp a b 64 < 0) names" "\<forall>n \<in> set names. length n < 64"
  shows "\<exists>names'. cpio_collect_names scmp (\<lambda>_. True) norm es names = Some names'
    \<and> sorted_wrt (\<lambda>a b. scmp a b 64 < 0) names' \<and> set names' = set names \<union> child_names norm es
    \<and> (\<forall>n \<in> set names'. length n < 64)"
  using assms
proof (induction es arbitrary: names)
  case Nil
  then show ?case by (simp add: child_names_def)
next
  case (Cons e es)
  show ?case
  proof (cases "vfs_path_direct_child_name norm (e_path e) VFS_DIR_NAME_SLOT")
    case None
    then have "child_names norm (e # es) = child_names norm es" by (auto simp: child_names_def)
    then show ?thesis using Cons.IH [OF Cons.prems] None by simp
  next
    case (Some c)
    then have c: "c \<noteq> []" "length c < 64" "child_names norm (e # es) = insert c (child_names norm es)"
      using direct_child_short [OF Some] by (auto simp: child_names_def)
    obtain names1 where ins: "vfs_dir_names_insert scmp True names c = (True, names1)"
      using dir_names_insert_room [OF c(1), of scmp names] by (cases "vfs_dir_names_insert scmp True names c") auto
    note s = dir_names_insert_sorted [OF Cons.prems c(1,2) ins]
    show ?thesis using Cons.IH [of names1] s Some ins c(3) by auto
  qed
qed

end

section \<open>Properties\<close>

text \<open>C30. For an image that ends at least \<open>2 ^ 33\<close> bytes below the end of the 64-bit address space,
  \<^verbatim>\<open>cpio_rofs_init\<close>, whose bounds tests add sizes from the image to pointers modulo \<open>2 ^ 64\<close>, ends,
  and every entry it has recorded has an absolute path that fits its buffer and data inside the image,
  behind the first header; a failed initialisation leaves the table empty. Therefore a lookup hands
  out a data pointer that \<^verbatim>\<open>cpio_rofs_ptr_in_image\<close> accepts (unless the file is empty), and
  \<^verbatim>\<open>cpio_rofs_read\<close>, whatever the offset and length, depends on nothing but bytes of the image.\<close>

theorem cpio_files_inside_image:
  assumes "img + len + 2 ^ 33 \<le> 2 ^ 64"
  shows "\<exists>r st'. cpio_rofs_init64 strcmp_s init_res push_res m img len st = Some (r, st')
    \<and> (r \<noteq> REND_SUCCESS \<longrightarrow> cpio_entry_tab st' = [])
    \<and> (\<forall>e \<in> set (cpio_entry_tab st'). entry_inside img (img + len) e)
    \<and> (\<forall>path s. cpio_rofs_lookup strcmp_s path st' = Some s \<longrightarrow>
        (\<exists>a. c_data s = Some a \<and> (c_size s \<noteq> 0 \<longrightarrow> cpio_rofs_ptr_in_image a st')
          \<and> (\<forall>m' off n. (\<forall>x. img \<le> x \<and> x < img + len \<longrightarrow> m' x = m x)
                \<longrightarrow> cpio_rofs_read m' s off n = cpio_rofs_read m s off n)))"
proof -
  obtain r st' where run: "cpio_rofs_init strcmp_s init_res push_res m img len st = (r, st')" by fastforce
  note inside = init_inside [OF run]
  have "\<exists>a. c_data s = Some a \<and> (c_size s \<noteq> 0 \<longrightarrow> cpio_rofs_ptr_in_image a st')
        \<and> (\<forall>m' off n. (\<forall>x. img \<le> x \<and> x < img + len \<longrightarrow> m' x = m x)
              \<longrightarrow> cpio_rofs_read m' s off n = cpio_rofs_read m s off n)"
    if "cpio_rofs_lookup strcmp_s path st' = Some s" for path s
  proof -
    obtain e where e: "e \<in> set (cpio_entry_tab st')" "s = entry_stat e"
      using \<open>cpio_rofs_lookup strcmp_s path st' = Some s\<close>
      unfolding cpio_rofs_lookup_def by (blast dest: lookup_entriesD)
    then have i: "entry_inside img (img + len) e" "img \<noteq> 0" "cpio_image st' = img" "cpio_image_len st' = len"
      using inside by auto
    have "c_data s = Some (e_data e)" by (simp add: e entry_stat_def)
    moreover have "c_size s \<noteq> 0 \<longrightarrow> cpio_rofs_ptr_in_image (e_data e) st'"
      using i unat_gt_0 [of "e_filesize e"]
      by (auto simp: e entry_stat_def entry_inside_def cpio_rofs_ptr_in_image_def)
    moreover have "cpio_rofs_read m' s off n = cpio_rofs_read m s off n"
      if "\<forall>x. img \<le> x \<and> x < img + len \<longrightarrow> m' x = m x" for m' off n
      by (rule read_inside [of s "e_data e" img "img + len"])
        (use that i in \<open>simp_all add: e entry_stat_def entry_inside_def\<close>)
    ultimately show ?thesis by blast
  qed
  then show ?thesis using inside init64_eq [OF assms, of strcmp_s init_res push_res m st] run by auto
qed

text \<open>C10. An archive in the \<^verbatim>\<open>newc\<close> format is read back: if the image holds the records of \<open>fs\<close> and the
  trailer, names are NUL-free, shorter than 255 characters and pairwise different as paths, and the
  entry table can grow, then initialisation succeeds with exactly one entry per file in archive
  order; looking a file up under any spelling of its path gives its mode, link count (at least one)
  and size, and reading at any offset and length gives those bytes of its contents; every other
  path is not found.\<close>

theorem cpio_archive_read_back:
  assumes "strcmp_api scmp" "holds m img (newc_pack fs)" "length (newc_pack fs) \<le> len" "img \<noteq> 0"
    and "\<forall>f \<in> set fs. archivable f" "distinct (map (\<lambda>f. cpio_path (nf_name f)) fs)"
    and "\<forall>k < length fs. push_res k = REND_SUCCESS"
  shows "\<exists>st'. cpio_rofs_init scmp REND_SUCCESS push_res m img len st = (REND_SUCCESS, st')
    \<and> map e_path (cpio_entry_tab st') = map (\<lambda>f. cpio_path (nf_name f)) fs
    \<and> (\<forall>f \<in> set fs. \<forall>path. cpio_path path = cpio_path (nf_name f) \<longrightarrow>
          (\<exists>s. cpio_rofs_lookup scmp path st' = Some s \<and> c_mode s = nf_mode f
             \<and> c_nlink s = max 1 (nf_nlink f) \<and> unat (c_size s) = length (nf_content f)
             \<and> (\<not> c_is_dir s \<longrightarrow>
                  (\<forall>off n. snd (cpio_rofs_read m s off n) = take (unat n) (drop (unat off) (nf_content f))))))
    \<and> (\<forall>path. cpio_path path \<notin> (\<lambda>f. cpio_path (nf_name f)) ` set fs \<longrightarrow> cpio_rofs_lookup scmp path st' = None)"
proof -
  let ?es = "pack_entries img fs"
  let ?st = "\<lparr>cpio_entry_tab = ?es, cpio_image = img, cpio_image_len = len\<rparr>"
  have "110 \<le> length (newc_pack fs)" by (simp add: newc_pack_def newc_record_def)
  then have run: "cpio_rofs_init scmp REND_SUCCESS push_res m img len st = (REND_SUCCESS, ?st)"
    using strcmp_api.scan_pack [OF assms(1,2,5), where es = "[]" and hi = "img + len" and push_res = push_res] assms(3,4,7)
    by (simp add: cpio_rofs_init_def)
  have dist: "distinct (map e_path ?es)" using assms(6) by simp
  have idem: "\<forall>x \<in> set ?es. cpio_path (e_path x) = e_path x"
  proof
    fix x assume "x \<in> set ?es"
    then have "e_path x \<in> set (map e_path ?es)" by (simp only: set_map imageI)
    then show "cpio_path (e_path x) = e_path x" unfolding pack_entries_paths by auto
  qed
  have found: "\<exists>s. cpio_rofs_lookup scmp path ?st = Some s \<and> c_mode s = nf_mode f
             \<and> c_nlink s = max 1 (nf_nlink f) \<and> unat (c_size s) = length (nf_content f)
             \<and> (\<not> c_is_dir s \<longrightarrow>
                  (\<forall>off n. snd (cpio_rofs_read m s off n) = take (unat n) (drop (unat off) (nf_content f))))"
    if f: "f \<in> set fs" and path: "cpio_path path = cpio_path (nf_name f)" for f path
  proof -
    have "cpio_path (nf_name f) \<in> set (map e_path ?es)" using f unfolding pack_entries_paths by simp
    then obtain e where e: "e \<in> set ?es" "e_path e = cpio_path (nf_name f)"
      unfolding set_map by (metis imageE)
    obtain g b where g: "g \<in> set fs" "e = (file_entry g b)\<lparr>e_path := cpio_path (nf_name g)\<rparr>" "holds m b (nf_content g)"
      using pack_entries_file [OF e(1) assms(2)] by blast
    have "g = f" using assms(6) f g(1) e(2) g(2) by (auto simp: distinct_map inj_on_def)
    then have ent: "entry_stat e = entry_stat (file_entry f b)" and h: "holds m b (nf_content f)"
      using g by (auto simp: entry_stat_def)
    have ok: "newc_ok f" using assms(5) f by (auto simp: archivable_def)
    have look: "cpio_rofs_lookup scmp path ?st = Some (entry_stat e)"
      using strcmp_api.lookup_entries_distinct [OF assms(1) e(1) dist idem] path e(2)
      by (simp add: cpio_rofs_lookup_def)
    have nl: "(if nf_nlink f \<noteq> 0 then nf_nlink f else 1) = max 1 (nf_nlink f)"
      by (auto simp: max_def) (metis One_nat_def Suc_leI unat_1 unat_gt_0 word_le_nat_alt)
    show ?thesis
      using look ok read_file [OF h, of "entry_stat (file_entry f b)"] nl
      unfolding ent by (auto simp: entry_stat_def file_entry_def newc_ok_def unat_of_nat)
  qed
  have "cpio_rofs_lookup scmp path ?st = None"
    if "cpio_path path \<notin> (\<lambda>f. cpio_path (nf_name f)) ` set fs" for path
  proof -
    have "cpio_path path \<notin> set (map e_path ?es)" using that unfolding pack_entries_paths by simp
    then have "\<forall>e \<in> set ?es. e_path e \<noteq> cpio_path path" unfolding set_map by (metis imageI)
    then show ?thesis
      using idem strcmp_api.lookup_entries_none [OF assms(1), of path ?es] by (auto simp: cpio_rofs_lookup_def)
  qed
  then show ?thesis using run found by (intro exI [of _ ?st]) auto
qed

text \<open>A listing of directory \<open>dir\<close> by increasing index gives the names of exactly the direct children of the
  directory in the archive, each once and in increasing order, and then 1 for the end; an index
  whose path is too long gives \<^verbatim>\<open>-EIO\<close>.\<close>

lemma cpio_readdir_lists:
  assumes "strcmp_api scmp"
  shows "\<exists>names. sorted_wrt (\<lambda>a b. scmp a b 64 < 0) names
    \<and> set names = child_names (vfs_path_normalize dir VFS_PATH_MAX) (cpio_entry_tab st)
    \<and> (\<forall>i. cpio_rofs_readdir scmp True (\<lambda>_. True) dir (i + 2) st =
        (if length names \<le> i then (1, None)
         else case vfs_path_join (vfs_path_normalize dir VFS_PATH_MAX) (names ! i) VFS_PATH_MAX of
           None \<Rightarrow> (- LINUX_EIO, None)
         | Some p \<Rightarrow> (0, Some \<lparr>d_name = names ! i, dt = cpio_readdir_dtype scmp p st, d_ino = vfs_path_to_ino p\<rparr>)))"
proof -
  let ?norm = "vfs_path_normalize dir VFS_PATH_MAX"
  obtain names where run: "cpio_collect_names scmp (\<lambda>_. True) ?norm (cpio_entry_tab st) [] = Some names"
    and s: "sorted_wrt (\<lambda>a b. scmp a b 64 < 0) names" "set names = child_names ?norm (cpio_entry_tab st)"
      "\<forall>n \<in> set names. length n < 64"
    using strcmp_api.collect_names_sorted [OF assms, of "[]" ?norm "cpio_entry_tab st"] by auto
  have "take (VFS_PATH_MAX - 1) (names ! i) = names ! i" if "i < length names" for i
    using s(3) that nth_mem by fastforce
  then show ?thesis
    using s(1,2) by (intro exI [of _ names]) (auto simp: cpio_rofs_readdir_def run Let_def not_le split: option.splits)
qed

text \<open>The memory whose bytes from an address on are given, zero elsewhere.\<close>

definition memory_of :: "nat \<Rightarrow> u8 list \<Rightarrow> memory" where
  "memory_of a bs x = (if a \<le> x \<and> x < a + length bs then bs ! (x - a) else 0)"

lemma holds_upd: "holds m a xs \<Longrightarrow> holds (m(a + length xs := b)) a (xs @ [b])"
  by (simp add: holds_append) (simp add: holds_def)

lemma holds_memory_of: "holds (memory_of a bs) a bs"
  by (simp add: holds_def memory_of_def)

definition demo_files :: "newc_file list" where
  "demo_files = [\<lparr>nf_name = ''etc'', nf_mode = 0x41ED, nf_nlink = 2, nf_content = []\<rparr>,
     \<lparr>nf_name = ''etc/motd'', nf_mode = 0x81A4, nf_nlink = 1, nf_content = [0x68, 0x69, 0x0A]\<rparr>]"

definition demo_cpio :: cpio_rofs where
  "demo_cpio = \<lparr>cpio_entry_tab = [], cpio_image = 0, cpio_image_len = 0\<rparr>"

theorem cpio_archive_read_back_witness:
  "\<exists>st' s. cpio_rofs_init strncmp REND_SUCCESS (\<lambda>_. REND_SUCCESS) (memory_of 4096 (newc_pack demo_files)) 4096 1024 demo_cpio
       = (REND_SUCCESS, st')
     \<and> cpio_rofs_lookup strncmp ''./etc/motd'' st' = Some s
     \<and> (\<not> c_is_dir s \<longrightarrow> snd (cpio_rofs_read (memory_of 4096 (newc_pack demo_files)) s 1 9) = [0x69, 0x0A])"
proof -
  let ?m = "memory_of 4096 (newc_pack demo_files)"
  let ?f = "\<lparr>nf_name = ''etc/motd'', nf_mode = 0x81A4, nf_nlink = 1, nf_content = [0x68, 0x69, 0x0A]\<rparr>"
  have len: "length (newc_pack demo_files) \<le> 1024"
    by (simp add: demo_files_def newc_pack_def length_newc_record record_length_def data_offset_def newc_trailer_def)
  have ok: "\<forall>f \<in> set demo_files. archivable f"
    by (simp add: demo_files_def archivable_def newc_ok_def)
  have dist: "distinct (map (\<lambda>f. cpio_path (nf_name f)) demo_files)" by code_simp
  have nz: "(4096 :: nat) \<noteq> 0" by simp
  obtain st' where st': "cpio_rofs_init strncmp REND_SUCCESS (\<lambda>_. REND_SUCCESS) ?m 4096 1024 demo_cpio = (REND_SUCCESS, st')"
    and files: "\<forall>f \<in> set demo_files. \<forall>path. cpio_path path = cpio_path (nf_name f) \<longrightarrow>
      (\<exists>s. cpio_rofs_lookup strncmp path st' = Some s
        \<and> (\<not> c_is_dir s \<longrightarrow> (\<forall>off n. snd (cpio_rofs_read ?m s off n) = take (unat n) (drop (unat off) (nf_content f)))))"
    using cpio_archive_read_back [OF strncmp.strcmp_api_axioms holds_memory_of len nz ok dist,
        where push_res = "\<lambda>_. REND_SUCCESS" and st = demo_cpio] by blast
  have "?f \<in> set demo_files" "cpio_path ''./etc/motd'' = cpio_path (nf_name ?f)"
    by (simp add: demo_files_def, code_simp)
  with files obtain s where s: "cpio_rofs_lookup strncmp ''./etc/motd'' st' = Some s"
    "\<not> c_is_dir s \<longrightarrow> (\<forall>off n. snd (cpio_rofs_read ?m s off n) = take (unat n) (drop (unat off) (nf_content ?f)))"
    by blast
  have "\<not> c_is_dir s \<longrightarrow> snd (cpio_rofs_read ?m s 1 9) = [0x69, 0x0A]" using s(2) by simp
  then show ?thesis using st' s(1) by blast
qed

definition demo_entries :: "cpio_rofs_entry list" where
  "demo_entries = map (\<lambda>p. \<lparr>e_path = p, e_mode = 0x81A4, e_nlink = 1, e_filesize = 0, e_data = 4096, e_is_dir = False,
     e_is_symlink = False\<rparr>) [''/etc/motd'', ''/etc/fstab'', ''/bin/sh'']"

text \<open>A header that announces a name of four bytes. An image that ends two bytes behind those (the
  padding) is accepted, whatever the string is that starts there.\<close>

definition short_header :: newc_file where
  "short_header = \<lparr>nf_name = ''abc'', nf_mode = 0x81A4, nf_nlink = 1, nf_content = []\<rparr>"

lemma parse_short_header:
  assumes "strcmp_api scmp" "holds m img (newc_header short_header @ name_bytes nm)" "img \<noteq> 0"
    and "CHR 0x00 \<notin> set nm" "length nm < 300" "nm \<notin> {[], ''.'', ''..'', ''TRAILER!!!''}"
  shows "map e_path (cpio_entry_tab (snd (cpio_rofs_init scmp REND_SUCCESS (\<lambda>_. REND_SUCCESS) m img 116 st)))
    = [cpio_path nm]"
proof -
  note api = strcmp_api.scmp_literal [OF assms(1)] strcmp_api.name_skip_iff [OF assms(1)]
  have h: "holds m img (newc_header short_header)" and n: "holds m (img + 110) (name_bytes nm)"
    using assms(2) by (simp_all add: holds_append)
  have "newc_ok short_header" by (simp add: short_header_def newc_ok_def)
  note fields = header_fields [OF h this]
  have f: "cpio_hex_field8 m (img + H_NAMESIZE) = 4" "cpio_hex_field8 m (img + H_FILESIZE) = 0"
    unfolding fields by (simp_all add: short_header_def)
  have len: "unat (cpio_name_field_len 4) = 6" "unat (cpio_align4 0) = 0"
    using name_field_len_nat [of 4] align4_nat [of 0] by simp_all
  obtain e where e: "cpio_next_item scmp m (img + 116) img = Item nm e (img + 116)"
    using cstr_name [OF n assms(4,5)] assms(6) fields(1) f len
    by (auto simp: cpio_next_item_def api Let_def)
  have "cpio_scan scmp p m (img + 116) (img + 116) es = (REND_SUCCESS, es)" for p es
    by (subst cpio_scan.simps) simp
  then show ?thesis
    using assms(3,6) e
    by (subst cpio_rofs_init_def, subst cpio_scan.simps) (simp add: cpio_rofs_add_entry_def api Let_def)
qed

theorem cpio_files_inside_image_witness:
  "\<exists>r st' e. cpio_rofs_init64 strncmp REND_SUCCESS (\<lambda>_. REND_SUCCESS)
     (memory_of 8 (newc_header short_header @ name_bytes ''abcdef'')) 8 116
     \<lparr>cpio_entry_tab = [], cpio_image = 0, cpio_image_len = 0\<rparr> = Some (r, st')
   \<and> cpio_entry_tab st' = [e] \<and> e_path e = cpio_path ''abcdef'' \<and> entry_inside 8 124 e"
proof -
  let ?m = "memory_of 8 (newc_header short_header @ name_bytes ''abcdef'')"
  let ?st = "\<lparr>cpio_entry_tab = [], cpio_image = 0, cpio_image_len = 0\<rparr>"
  let ?run = "cpio_rofs_init strncmp REND_SUCCESS (\<lambda>_. REND_SUCCESS) ?m 8 116 ?st"
  have one: "map e_path (cpio_entry_tab (snd ?run)) = [cpio_path ''abcdef'']"
    by (rule parse_short_header [OF strncmp.strcmp_api_axioms holds_memory_of]) auto
  have small: "8 + 116 + 2 ^ 33 \<le> (2 ^ 64 :: nat)" by simp
  obtain r st' where st': "cpio_rofs_init64 strncmp REND_SUCCESS (\<lambda>_. REND_SUCCESS) ?m 8 116 ?st = Some (r, st')"
    and inside: "\<forall>e \<in> set (cpio_entry_tab st'). entry_inside 8 (8 + 116) e"
    using cpio_files_inside_image [OF small, of strncmp REND_SUCCESS "\<lambda>_. REND_SUCCESS" ?m ?st] by blast
  have "st' = snd ?run" using st' init64_eq [OF small, of strncmp REND_SUCCESS "\<lambda>_. REND_SUCCESS" ?m ?st] by simp
  then show ?thesis using st' inside one by (auto simp: map_eq_Cons_conv)
qed

text \<open>The name of an entry is not required to end inside the image: there is a memory and an
  image in it such that changing the byte right behind the image changes the recorded path.\<close>

lemma cpio_name_read_past_image:
  "\<exists>m img len b. map e_path (cpio_entry_tab (snd (cpio_rofs_init strncmp REND_SUCCESS (\<lambda>_. REND_SUCCESS) m img len st)))
     \<noteq> map e_path (cpio_entry_tab (snd (cpio_rofs_init strncmp REND_SUCCESS (\<lambda>_. REND_SUCCESS) (m(img + len := b)) img len st)))"
proof -
  let ?h = "newc_header short_header"
  let ?m = "memory_of 8 (?h @ name_bytes ''abcdefx'')"
  let ?xs = "?h @ map (\<lambda>c. of_nat (of_char c)) ''abcdef''"
  have "holds ?m 8 (?xs @ [0x78, 0])"
    using holds_memory_of [of 8 "?h @ name_bytes ''abcdefx''"] by (simp add: name_bytes_def)
  then have "holds ?m 8 ?xs" unfolding holds_append [of _ _ ?xs] by blast
  from holds_upd [OF this, of 0] have "holds (?m(8 + 116 := 0)) 8 (?h @ name_bytes ''abcdef'')"
    by (simp add: name_bytes_def)
  then have "map e_path (cpio_entry_tab (snd (cpio_rofs_init strncmp REND_SUCCESS (\<lambda>_. REND_SUCCESS) (?m(8 + 116 := 0)) 8 116 st)))
      = [cpio_path ''abcdef'']"
    by (rule parse_short_header [OF strncmp.strcmp_api_axioms]) auto
  moreover have "map e_path (cpio_entry_tab (snd (cpio_rofs_init strncmp REND_SUCCESS (\<lambda>_. REND_SUCCESS) ?m 8 116 st)))
      = [cpio_path ''abcdefx'']"
    by (rule parse_short_header [OF strncmp.strcmp_api_axioms holds_memory_of]) auto
  moreover have "cpio_path ''abcdef'' \<noteq> cpio_path ''abcdefx''" by code_simp
  ultimately show ?thesis by (metis list.inject)
qed

end
