(* ===== verification/Vfs_Namespace.thy ===== *)
theory Vfs_Namespace
  imports Vfs_Mount Cpio
begin

text \<open>
  The namespace of the VFS server (\<^verbatim>\<open>servers/fs/vfs_namespace.c\<close>): the tree of names over the read-only
  archive and the writable store. A node is a record of the node table; here the state is the list of
  nodes, with the static root at index 0 and record \<open>i\<close> of the table at index \<open>i + 1\<close>, and a pointer to a node
  is its index. The chain from \<^verbatim>\<open>first_child\<close> along \<^verbatim>\<open>next_sibling\<close> is the list \<open>n_children\<close>, and the parent
  pointer is \<open>n_parent\<close>. Outcomes of growing the table are the argument \<open>push_ok\<close>, indexed by the length of
  the list.

  An operation that changes the tree is a \<^verbatim>\<open>prepare\<close> step, a request to a backend, and a \<^verbatim>\<open>commit\<close> step; commits
  return the calls they make to the page cache and to backends as a list of effects.

  The lemmas relate lookups before and after a commit, edge by edge of the tree; the properties state
  the operations as updates of a map from component lists to attributes.
\<close>

section \<open>Definitions\<close>

record vfs_ns_node =
  n_name :: string
  n_parent :: "nat option"
  n_children :: "nat list"
  n_mode :: u32
  n_is_dir :: bool
  n_deleted :: bool
  n_in_cpio :: bool
  n_overlay :: bool
  n_is_symlink :: bool
  n_mount_covered :: bool

type_synonym ns = "vfs_ns_node list"

abbreviation VFS_NS_PATH_DEPTH_MAX :: nat where "VFS_NS_PATH_DEPTH_MAX \<equiv> 64"
abbreviation MODE_DIR :: u32 where "MODE_DIR \<equiv> 0x4000"
abbreviation MODE_REG :: u32 where "MODE_REG \<equiv> 0x8000"

datatype ns_effect = CacheDrop string | BackendUnlink string string

definition node_zero :: vfs_ns_node where
  "node_zero = \<lparr>n_name = [], n_parent = None, n_children = [], n_mode = 0, n_is_dir = False, n_deleted = False, n_in_cpio = False,
     n_overlay = False, n_is_symlink = False, n_mount_covered = False\<rparr>"

definition vfs_ns_name_cmp :: "(string \<Rightarrow> string \<Rightarrow> nat \<Rightarrow> int) \<Rightarrow> string \<Rightarrow> string \<Rightarrow> int" where
  "vfs_ns_name_cmp strcmp_s a b = strcmp_s a b 64"

definition vfs_ns_child_visible :: "vfs_ns_node \<Rightarrow> vfs_ns_node \<Rightarrow> bool \<Rightarrow> bool" where
  "vfs_ns_child_visible parent child allow_deleted =
     (if \<not> allow_deleted \<and> n_deleted child then False
      else if n_mount_covered parent \<and> n_in_cpio child \<and> \<not> n_overlay child then False
      else True)"

definition vfs_ns_alloc_node :: "(nat \<Rightarrow> bool) \<Rightarrow> nat \<Rightarrow> string \<Rightarrow> bool \<Rightarrow> ns \<Rightarrow> nat option \<times> ns" where
  "vfs_ns_alloc_node push_ok parent name dir s =
     (if name = [] \<or> \<not> push_ok (length s) then (None, s)
      else (Some (length s), s @ [node_zero\<lparr>n_name := take 63 name, n_parent := Some parent, n_is_dir := dir,
              n_mode := (if dir then 0x1ED OR MODE_DIR else 0x1A4 OR MODE_REG)\<rparr>]))"

text \<open>The names from the root down to a node; \<open>None\<close> when the chain is deeper than the array.\<close>

fun ns_chain :: "ns \<Rightarrow> nat \<Rightarrow> nat option \<Rightarrow> string list option" where
  "ns_chain s depth None = Some []"
| "ns_chain s depth (Some 0) = Some []"
| "ns_chain s 0 (Some (Suc a)) = None"
| "ns_chain s (Suc depth) (Some (Suc a)) =
     map_option (\<lambda>names. names @ [n_name (s ! Suc a)]) (ns_chain s depth (n_parent (s ! Suc a)))"

fun join_names :: "string \<Rightarrow> string list \<Rightarrow> string option" where
  "join_names cur [] = Some cur"
| "join_names cur (name # names) =
     (case vfs_path_join cur name VFS_PATH_MAX of
        None \<Rightarrow> None
      | Some nxt \<Rightarrow> join_names (take (VFS_PATH_MAX - 1) nxt) names)"

definition vfs_ns_path_of :: "nat \<Rightarrow> nat \<Rightarrow> ns \<Rightarrow> string option" where
  "vfs_ns_path_of node out_cap s =
     (if out_cap < 2 then None
      else if node = 0 then Some ''/''
      else case ns_chain s VFS_NS_PATH_DEPTH_MAX (Some node) of
        None \<Rightarrow> None
      | Some names \<Rightarrow> map_option (take (out_cap - 1)) (join_names ''/'' names))"

fun insert_child :: "(string \<Rightarrow> string \<Rightarrow> nat \<Rightarrow> int) \<Rightarrow> ns \<Rightarrow> nat \<Rightarrow> nat list \<Rightarrow> nat list" where
  "insert_child strcmp_s s child [] = [child]"
| "insert_child strcmp_s s child (c # cs) =
     (let cmp = vfs_ns_name_cmp strcmp_s (n_name (s ! c)) (n_name (s ! child)) in
      if cmp = 0 then c # cs else if 0 < cmp then child # c # cs else c # insert_child strcmp_s s child cs)"

definition vfs_ns_link_child :: "(string \<Rightarrow> string \<Rightarrow> nat \<Rightarrow> int) \<Rightarrow> nat \<Rightarrow> nat \<Rightarrow> ns \<Rightarrow> ns" where
  "vfs_ns_link_child strcmp_s parent child s =
     s[parent := (s ! parent)\<lparr>n_children := insert_child strcmp_s s child (n_children (s ! parent))\<rparr>]"

definition vfs_ns_find_child :: "(string \<Rightarrow> string \<Rightarrow> nat \<Rightarrow> int) \<Rightarrow> nat \<Rightarrow> string \<Rightarrow> bool \<Rightarrow> ns \<Rightarrow> nat option" where
  "vfs_ns_find_child strcmp_s parent name allow_deleted s =
     (case find (\<lambda>c. vfs_ns_name_cmp strcmp_s (n_name (s ! c)) name = 0) (n_children (s ! parent)) of
        None \<Rightarrow> None
      | Some c \<Rightarrow> if \<not> vfs_ns_child_visible (s ! parent) (s ! c) allow_deleted then None else Some c)"

text \<open>The next component at the cursor, cut to the buffer, and the cursor behind it.\<close>

definition ns_component :: "string \<Rightarrow> string" where
  "ns_component cursor = take 63 (takeWhile (\<lambda>c. c \<noteq> slash) cursor)"

definition ns_rest :: "string \<Rightarrow> string" where
  "ns_rest cursor = (case drop (length (ns_component cursor)) cursor of [] \<Rightarrow> [] | c # cs \<Rightarrow> if c = slash then cs else c # cs)"

lemma length_ns_rest [termination_simp]: "cursor \<noteq> [] \<Longrightarrow> length (ns_rest cursor) < length cursor"
proof (cases "ns_component cursor = []")
  case True
  assume "cursor \<noteq> []"
  then obtain cs where "cursor = slash # cs"
    using True by (cases cursor) (auto simp: ns_component_def split: if_splits)
  then show ?thesis by (simp add: ns_rest_def ns_component_def)
next
  case False
  assume "cursor \<noteq> []"
  have "length (ns_rest cursor) \<le> length cursor - length (ns_component cursor)"
    by (auto simp: ns_rest_def split: list.splits dest: arg_cong [of _ _ length])
  moreover have "0 < length cursor" "0 < length (ns_component cursor)" using False \<open>cursor \<noteq> []\<close> by simp_all
  ultimately show ?thesis by linarith
qed

function lookup_loop :: "(string \<Rightarrow> string \<Rightarrow> nat \<Rightarrow> int) \<Rightarrow> bool \<Rightarrow> ns \<Rightarrow> nat \<Rightarrow> string \<Rightarrow> nat option" where
  "lookup_loop strcmp_s allow_deleted s node cursor =
     (if cursor = [] then Some node
      else if ns_component cursor = [] then None
      else case vfs_ns_find_child strcmp_s node (ns_component cursor) allow_deleted s of
        None \<Rightarrow> None
      | Some nxt \<Rightarrow> lookup_loop strcmp_s allow_deleted s nxt (ns_rest cursor))"
  by pat_completeness auto
termination by (relation "measure (\<lambda>(_, _, _, _, c). length c)") (simp_all add: length_ns_rest)

declare lookup_loop.simps [simp del]

definition vfs_ns_lookup_node :: "(string \<Rightarrow> string \<Rightarrow> nat \<Rightarrow> int) \<Rightarrow> string \<Rightarrow> bool \<Rightarrow> ns \<Rightarrow> nat option" where
  "vfs_ns_lookup_node strcmp_s path allow_deleted s =
     (let norm = vfs_path_normalize path VFS_PATH_MAX in
      if vfs_path_is_root norm then Some 0 else lookup_loop strcmp_s allow_deleted s 0 (drop 1 norm))"

definition vfs_ns_ensure_child ::
  "(string \<Rightarrow> string \<Rightarrow> nat \<Rightarrow> int) \<Rightarrow> (nat \<Rightarrow> bool) \<Rightarrow> nat \<Rightarrow> string \<Rightarrow> bool \<Rightarrow> ns \<Rightarrow> nat option \<times> ns" where
  "vfs_ns_ensure_child strcmp_s push_ok parent name dir s =
     (case vfs_ns_find_child strcmp_s parent name True s of
        Some child \<Rightarrow>
          let n1 = (if n_deleted (s ! child) then (s ! child)\<lparr>n_deleted := False\<rparr> else s ! child);
              n2 = (if dir then n1\<lparr>n_is_dir := True\<rparr> else n1) in
          (Some child, s[child := n2])
      | None \<Rightarrow>
          (case vfs_ns_alloc_node push_ok parent name dir s of
             (None, s1) \<Rightarrow> (None, s1)
           | (Some child, s1) \<Rightarrow> (Some child, vfs_ns_link_child strcmp_s parent child s1)))"

function ensure_loop ::
  "(string \<Rightarrow> string \<Rightarrow> nat \<Rightarrow> int) \<Rightarrow> (nat \<Rightarrow> bool) \<Rightarrow> bool \<Rightarrow> nat \<Rightarrow> string \<Rightarrow> ns \<Rightarrow> nat option \<times> ns" where
  "ensure_loop strcmp_s push_ok dir node cursor s =
     (if cursor = [] then (Some node, s)
      else
        let component = ns_component cursor; last_comp = (drop (length component) cursor = []) in
        case vfs_ns_ensure_child strcmp_s push_ok node component (if last_comp then dir else True) s of
          (None, s1) \<Rightarrow> (None, s1)
        | (Some nxt, s1) \<Rightarrow> ensure_loop strcmp_s push_ok dir nxt (ns_rest cursor) s1)"
  by pat_completeness auto
termination by (relation "measure (\<lambda>(_, _, _, _, c, _). length c)") (simp_all add: length_ns_rest)

declare ensure_loop.simps [simp del]

definition vfs_ns_ensure_path_nodes ::
  "(string \<Rightarrow> string \<Rightarrow> nat \<Rightarrow> int) \<Rightarrow> (nat \<Rightarrow> bool) \<Rightarrow> string \<Rightarrow> bool \<Rightarrow> ns \<Rightarrow> nat option \<times> ns" where
  "vfs_ns_ensure_path_nodes strcmp_s push_ok path dir s =
     (let norm = vfs_path_normalize path VFS_PATH_MAX in
      if vfs_path_is_root norm then (Some 0, s) else ensure_loop strcmp_s push_ok dir 0 (drop 1 norm) s)"

definition vfs_ns_check_parent_writable ::
  "(string \<Rightarrow> string \<Rightarrow> nat \<Rightarrow> int) \<Rightarrow> vfs_req_cred \<Rightarrow> string \<Rightarrow> ns \<Rightarrow> int" where
  "vfs_ns_check_parent_writable strcmp_s cred path s =
     (case vfs_path_parent path VFS_PATH_MAX of
        None \<Rightarrow> - LINUX_EINVAL
      | Some parent \<Rightarrow>
          if vfs_path_is_root parent then vfs_perm_check_mode_request cred (n_mode (s ! 0)) VFS_PERM_W
          else case vfs_ns_lookup_node strcmp_s parent False s of
            None \<Rightarrow> - LINUX_ENOENT
          | Some a \<Rightarrow> if \<not> n_is_dir (s ! a) then - LINUX_ENOENT
                       else vfs_perm_check_mode_request cred (n_mode (s ! a)) VFS_PERM_W)"

definition vfs_ns_backend_port ::
  "(string \<Rightarrow> string \<Rightarrow> nat \<Rightarrow> int) \<Rightarrow> string \<Rightarrow> vfs_mount_rec list \<Rightarrow> vfs_backends \<Rightarrow> string option" where
  "vfs_ns_backend_port strcmp_s path mounts b =
     (case vfs_backend_port_for_path strcmp_s path mounts b of
        None \<Rightarrow> None
      | Some port \<Rightarrow> if port = [] then None else Some port)"

subsection \<open>Initialisation from the archive\<close>

definition vfs_ns_populate_cb ::
  "(string \<Rightarrow> string \<Rightarrow> nat \<Rightarrow> int) \<Rightarrow> (nat \<Rightarrow> bool) \<Rightarrow> string \<Rightarrow> cpio_rofs_stat \<Rightarrow> ns \<Rightarrow> bool \<times> ns" where
  "vfs_ns_populate_cb strcmp_s push_ok path st s =
     (if vfs_path_is_root path then (True, s)
      else case vfs_ns_ensure_path_nodes strcmp_s push_ok path (c_is_dir st) s of
        (None, s1) \<Rightarrow> (False, s1)
      | (Some a, s1) \<Rightarrow>
          (True, s1[a := (s1 ! a)\<lparr>n_in_cpio := True, n_is_symlink := c_is_symlink st, n_is_dir := c_is_dir st,
             n_mode := (if c_mode st \<noteq> 0 then c_mode st else if c_is_dir st then 0x1ED OR MODE_DIR else 0x1A4 OR MODE_REG),
             n_deleted := False\<rparr>]))"

definition vfs_namespace_reset :: ns where
  "vfs_namespace_reset = [node_zero\<lparr>n_is_dir := True, n_mode := 0x1ED OR MODE_DIR\<rparr>]"

definition vfs_namespace_init ::
  "(string \<Rightarrow> string \<Rightarrow> nat \<Rightarrow> int) \<Rightarrow> (nat \<Rightarrow> bool) \<Rightarrow> cpio_rofs_entry list \<Rightarrow> bool \<Rightarrow> ns \<Rightarrow> error_t \<times> bool \<times> ns" where
  "vfs_namespace_init strcmp_s push_ok entries initialized s =
     (if initialized then (REND_SUCCESS, True, s)
      else case cpio_rofs_visit (vfs_ns_populate_cb strcmp_s push_ok) entries vfs_namespace_reset of
        (False, s1) \<Rightarrow> (REND_ERR E_RENDEZVOS, False, s1)
      | (True, s1) \<Rightarrow> (REND_SUCCESS, True, s1))"

subsection \<open>Operations\<close>

text \<open>Lookup: 0 with the synthetic root, 1 with the port and path of a backend request, or an error.\<close>

definition vfs_namespace_lookup_prepare ::
  "(string \<Rightarrow> string \<Rightarrow> nat \<Rightarrow> int) \<Rightarrow> vfs_mount_rec list \<Rightarrow> vfs_backends \<Rightarrow> string \<Rightarrow> nat \<Rightarrow> ns \<Rightarrow> int \<times> string option \<times> string" where
  "vfs_namespace_lookup_prepare strcmp_s mounts b path be_path_cap s =
     (if be_path_cap = 0 then (- LINUX_EINVAL, None, [])
      else
        let norm = vfs_path_normalize path VFS_PATH_MAX in
        if vfs_path_is_root norm then (0, None, [])
        else case vfs_mount_view_for_path strcmp_s norm mounts of
          Some m \<Rightarrow>
            if be_path_cap < length norm + 1 then (- LINUX_ENAMETOOLONG, None, []) else (1, Some (m_port m), norm)
        | None \<Rightarrow>
            (case vfs_ns_lookup_node strcmp_s norm False s of
               None \<Rightarrow> (- LINUX_ENOENT, None, [])
             | Some a \<Rightarrow>
                 (case vfs_ns_path_of a VFS_PATH_MAX s of
                    None \<Rightarrow> (- LINUX_ENAMETOOLONG, None, [])
                  | Some path_buf \<Rightarrow>
                      if be_path_cap < length path_buf + 1 then (- LINUX_ENAMETOOLONG, None, [])
                      else if n_overlay (s ! a) then
                        (case overlay_port b of None \<Rightarrow> (- LINUX_ENXIO, None, path_buf) | Some port \<Rightarrow> (1, Some port, path_buf))
                      else if n_in_cpio (s ! a) then
                        (case root_port b of None \<Rightarrow> (- LINUX_ENXIO, None, path_buf) | Some port \<Rightarrow> (1, Some port, path_buf))
                      else (- LINUX_ENOENT, None, path_buf))))"

text \<open>The request to the backend is the argument \<open>backend_lookup\<close>; the synthetic root inode is \<open>root_ino\<close>.\<close>

definition vfs_namespace_lookup ::
  "(string \<Rightarrow> string \<Rightarrow> nat \<Rightarrow> int) \<Rightarrow> (string \<Rightarrow> string \<Rightarrow> vfs_inode option) \<Rightarrow> vfs_inode \<Rightarrow> vfs_mount_rec list \<Rightarrow> vfs_backends
   \<Rightarrow> string \<Rightarrow> ns \<Rightarrow> int + vfs_inode" where
  "vfs_namespace_lookup strcmp_s backend_lookup root_ino mounts b path s =
     (case vfs_namespace_lookup_prepare strcmp_s mounts b path VFS_PATH_MAX s of
        (prep, port, be_path) \<Rightarrow>
          if prep < 0 then Inl prep
          else if prep = 0 then Inr root_ino
          else case port of
            None \<Rightarrow> Inl (- LINUX_ENOENT)
          | Some p \<Rightarrow> (case backend_lookup p be_path of None \<Rightarrow> Inl (- LINUX_ENOENT) | Some ino \<Rightarrow> Inr ino))"

text \<open>Result of a \<^verbatim>\<open>prepare\<close>: return value, port of the backend request, normalised path, \<^verbatim>\<open>need_commit\<close>.\<close>

type_synonym prepared = "int \<times> string option \<times> string \<times> bool"

definition vfs_namespace_mkdir_prepare ::
  "(string \<Rightarrow> string \<Rightarrow> nat \<Rightarrow> int) \<Rightarrow> vfs_mount_rec list \<Rightarrow> vfs_backends \<Rightarrow> vfs_req_cred \<Rightarrow> string \<Rightarrow> nat \<Rightarrow> ns \<Rightarrow> prepared" where
  "vfs_namespace_mkdir_prepare strcmp_s mounts b cred path norm_cap s =
     (if norm_cap = 0 then (- LINUX_EINVAL, None, [], False)
      else
        let norm = vfs_path_normalize path VFS_PATH_MAX in
        if norm_cap < length norm + 1 then (- LINUX_ENAMETOOLONG, None, [], False)
        else if vfs_path_is_root norm then (- LINUX_EEXIST, None, norm, False)
        else case vfs_ns_backend_port strcmp_s norm mounts b of
          None \<Rightarrow> (- LINUX_ENXIO, None, norm, False)
        | Some port \<Rightarrow>
            if vfs_mount_view_for_path strcmp_s norm mounts \<noteq> None then (1, Some port, norm, False)
            else if (case vfs_ns_lookup_node strcmp_s norm True s of None \<Rightarrow> False | Some a \<Rightarrow> \<not> n_deleted (s ! a))
            then (- LINUX_EEXIST, None, norm, False)
            else
              let ret = vfs_ns_check_parent_writable strcmp_s cred norm s in
              if ret < 0 then (ret, None, norm, False) else (1, Some port, norm, True))"

definition vfs_namespace_mkdir_commit ::
  "(string \<Rightarrow> string \<Rightarrow> nat \<Rightarrow> int) \<Rightarrow> (nat \<Rightarrow> bool) \<Rightarrow> vfs_mount_rec list \<Rightarrow> vfs_backends \<Rightarrow> string \<Rightarrow> u32 \<Rightarrow> ns \<Rightarrow> int \<times> ns_effect list \<times> ns" where
  "vfs_namespace_mkdir_commit strcmp_s push_ok mounts b norm mode s =
     (case vfs_ns_ensure_path_nodes strcmp_s push_ok norm True s of
        (None, s1) \<Rightarrow>
          (- LINUX_ENOMEM, (case vfs_ns_backend_port strcmp_s norm mounts b of None \<Rightarrow> [] | Some port \<Rightarrow> [BackendUnlink port norm]), s1)
      | (Some a, s1) \<Rightarrow>
          (0, [], s1[a := (s1 ! a)\<lparr>n_deleted := False, n_is_dir := True, n_in_cpio := False, n_overlay := True,
             n_mode := (mode AND 0x1FF) OR MODE_DIR\<rparr>]))"

definition vfs_namespace_create_prepare ::
  "(string \<Rightarrow> string \<Rightarrow> nat \<Rightarrow> int) \<Rightarrow> vfs_mount_rec list \<Rightarrow> vfs_backends \<Rightarrow> vfs_req_cred \<Rightarrow> string \<Rightarrow> nat \<Rightarrow> ns \<Rightarrow> prepared" where
  "vfs_namespace_create_prepare strcmp_s mounts b cred path norm_cap s =
     (if norm_cap = 0 then (- LINUX_EINVAL, None, [], False)
      else
        let norm = vfs_path_normalize path VFS_PATH_MAX in
        if norm_cap < length norm + 1 then (- LINUX_ENAMETOOLONG, None, [], False)
        else case vfs_ns_backend_port strcmp_s norm mounts b of
          None \<Rightarrow> (- LINUX_ENXIO, None, norm, False)
        | Some port \<Rightarrow>
            if vfs_mount_view_for_path strcmp_s norm mounts \<noteq> None then (1, Some port, norm, False)
            else
              let fresh = (let ret = vfs_ns_check_parent_writable strcmp_s cred norm s in
                           if ret < 0 then (ret, None, norm, False) else (1, Some port, norm, True)) in
              case vfs_ns_lookup_node strcmp_s norm True s of
                None \<Rightarrow> fresh
              | Some a \<Rightarrow>
                  if n_deleted (s ! a) then fresh
                  else if n_is_dir (s ! a) then (- LINUX_EISDIR, None, norm, False)
                  else case vfs_ns_path_of a VFS_PATH_MAX s of
                    None \<Rightarrow> (- LINUX_ENAMETOOLONG, None, norm, False)
                  | Some path_buf \<Rightarrow>
                      if norm_cap < length path_buf + 1 then (- LINUX_ENAMETOOLONG, None, norm, False)
                      else if \<not> n_overlay (s ! a) \<and> \<not> n_in_cpio (s ! a) then (- LINUX_ENOENT, None, path_buf, False)
                      else case (if n_overlay (s ! a) then overlay_port b else root_port b) of
                        None \<Rightarrow> (- LINUX_ENXIO, None, path_buf, False)
                      | Some p \<Rightarrow> (2, Some p, path_buf, False))"

definition vfs_namespace_create_commit ::
  "(string \<Rightarrow> string \<Rightarrow> nat \<Rightarrow> int) \<Rightarrow> (nat \<Rightarrow> bool) \<Rightarrow> vfs_mount_rec list \<Rightarrow> vfs_backends \<Rightarrow> string \<Rightarrow> u32 \<Rightarrow> ns \<Rightarrow> int \<times> ns_effect list \<times> ns" where
  "vfs_namespace_create_commit strcmp_s push_ok mounts b norm mode s =
     (case vfs_ns_ensure_path_nodes strcmp_s push_ok norm False s of
        (None, s1) \<Rightarrow>
          (- LINUX_ENOMEM, (case vfs_ns_backend_port strcmp_s norm mounts b of None \<Rightarrow> [] | Some port \<Rightarrow> [BackendUnlink port norm]), s1)
      | (Some a, s1) \<Rightarrow>
          (0, [], s1[a := (s1 ! a)\<lparr>n_deleted := False, n_is_dir := False, n_in_cpio := False, n_overlay := True,
             n_mode := (mode AND 0x1FF) OR MODE_REG\<rparr>]))"

definition vfs_namespace_unlink_prepare ::
  "(string \<Rightarrow> string \<Rightarrow> nat \<Rightarrow> int) \<Rightarrow> vfs_mount_rec list \<Rightarrow> vfs_backends \<Rightarrow> vfs_req_cred \<Rightarrow> string \<Rightarrow> nat \<Rightarrow> ns \<Rightarrow> prepared" where
  "vfs_namespace_unlink_prepare strcmp_s mounts b cred path norm_cap s =
     (if norm_cap = 0 then (- LINUX_EINVAL, None, [], False)
      else
        let norm = vfs_path_normalize path VFS_PATH_MAX in
        if norm_cap < length norm + 1 then (- LINUX_ENAMETOOLONG, None, [], False)
        else if vfs_path_is_root norm then (- LINUX_EINVAL, None, norm, False)
        else case vfs_ns_lookup_node strcmp_s norm False s of
          None \<Rightarrow> (- LINUX_ENOENT, None, norm, False)
        | Some a \<Rightarrow>
            if n_is_dir (s ! a) then (- LINUX_EISDIR, None, norm, False)
            else
              let ret = vfs_perm_check_mode_request cred (n_mode (s ! a)) VFS_PERM_W in
              if ret < 0 then (ret, None, norm, False)
              else if n_overlay (s ! a) then
                (case vfs_ns_backend_port strcmp_s norm mounts b of
                   None \<Rightarrow> (- LINUX_ENXIO, None, norm, False)
                 | Some port \<Rightarrow> (1, Some port, norm, True))
              else (0, None, norm, True))"

definition vfs_namespace_unlink_commit :: "(string \<Rightarrow> string \<Rightarrow> nat \<Rightarrow> int) \<Rightarrow> string \<Rightarrow> ns \<Rightarrow> int \<times> ns_effect list \<times> ns" where
  "vfs_namespace_unlink_commit strcmp_s norm s =
     (case vfs_ns_lookup_node strcmp_s norm False s of
        None \<Rightarrow> (- LINUX_ENOENT, [], s)
      | Some a \<Rightarrow> (0, [CacheDrop norm], s[a := (s ! a)\<lparr>n_overlay := False, n_deleted := True\<rparr>]))"

text \<open>Reading a directory: 0 with an entry, 1 at the end, 2 with the request for a mounted backend.\<close>

definition vfs_namespace_readdir_prepare ::
  "(string \<Rightarrow> string \<Rightarrow> nat \<Rightarrow> int) \<Rightarrow> vfs_mount_rec list \<Rightarrow> string \<Rightarrow> nat \<Rightarrow> nat \<Rightarrow> ns
   \<Rightarrow> int \<times> vfs_dirent option \<times> (string \<times> string) option" where
  "vfs_namespace_readdir_prepare strcmp_s mounts dirpath index be_path_cap s =
     (if be_path_cap = 0 then (- LINUX_EINVAL, None, None)
      else
        let norm = vfs_path_normalize dirpath VFS_PATH_MAX in
        case vfs_mount_view_for_path strcmp_s norm mounts of
          Some m \<Rightarrow> if be_path_cap < length norm + 1 then (- LINUX_ENAMETOOLONG, None, None) else (2, None, Some (m_port m, norm))
        | None \<Rightarrow>
            (case vfs_ns_lookup_node strcmp_s norm False s of
               None \<Rightarrow> (- LINUX_ENOENT, None, None)
             | Some dir \<Rightarrow>
                 if \<not> n_is_dir (s ! dir) then (- LINUX_ENOTDIR, None, None)
                 else if index = 0 then
                   (case vfs_ns_path_of dir VFS_PATH_MAX s of
                      None \<Rightarrow> (- LINUX_ENAMETOOLONG, None, None)
                    | Some p \<Rightarrow> (0, Some \<lparr>d_name = ''.'', dt = VFS_DT_DIR, d_ino = vfs_path_to_ino p\<rparr>, None))
                 else if index = 1 then
                   (0, Some \<lparr>d_name = ''..'', dt = VFS_DT_DIR,
                       d_ino = vfs_path_to_ino (case vfs_path_parent norm VFS_PATH_MAX of Some parent \<Rightarrow> parent | None \<Rightarrow> ''/'')\<rparr>, None)
                 else
                   let visible = filter (\<lambda>c. vfs_ns_child_visible (s ! dir) (s ! c) False) (n_children (s ! dir)) in
                   if length visible \<le> index - 2 then (1, None, None)
                   else
                     let c = visible ! (index - 2) in
                     case vfs_ns_path_of c VFS_PATH_MAX s of
                       None \<Rightarrow> (- LINUX_ENAMETOOLONG, None, None)
                     | Some p \<Rightarrow>
                         (0, Some \<lparr>d_name = n_name (s ! c),
                             dt = (if n_is_symlink (s ! c) then VFS_DT_LNK else if n_is_dir (s ! c) then VFS_DT_DIR else VFS_DT_REG),
                             d_ino = vfs_path_to_ino p\<rparr>, None)))"

definition vfs_ns_detach :: "nat \<Rightarrow> ns \<Rightarrow> ns" where
  "vfs_ns_detach node s =
     (case n_parent (s ! node) of
        None \<Rightarrow> s
      | Some parent \<Rightarrow>
          if node \<in> set (n_children (s ! parent)) then
            let s1 = s[parent := (s ! parent)\<lparr>n_children := remove1 node (n_children (s ! parent))\<rparr>] in
            s1[node := (s1 ! node)\<lparr>n_parent := None\<rparr>]
          else s)"

definition vfs_namespace_set_mount_cover :: "(string \<Rightarrow> string \<Rightarrow> nat \<Rightarrow> int) \<Rightarrow> string \<Rightarrow> bool \<Rightarrow> ns \<Rightarrow> int \<times> ns" where
  "vfs_namespace_set_mount_cover strcmp_s target covered s =
     (let norm = vfs_path_normalize target VFS_PATH_MAX in
      case vfs_ns_lookup_node strcmp_s norm True s of
        None \<Rightarrow> (- LINUX_ENOTDIR, s)
      | Some a \<Rightarrow> if \<not> n_is_dir (s ! a) then (- LINUX_ENOTDIR, s)
                   else (0, s[a := (s ! a)\<lparr>n_mount_covered := covered\<rparr>]))"

definition dest_parent :: "(string \<Rightarrow> string \<Rightarrow> nat \<Rightarrow> int) \<Rightarrow> string \<Rightarrow> ns \<Rightarrow> int + string \<times> nat" where
  "dest_parent strcmp_s new_norm s =
     (case vfs_path_basename new_norm 64 of
        None \<Rightarrow> Inl (- LINUX_EINVAL)
      | Some new_name \<Rightarrow>
          (case vfs_path_parent new_norm VFS_PATH_MAX of
             None \<Rightarrow> Inl (- LINUX_EINVAL)
           | Some parent_path \<Rightarrow>
               (case vfs_ns_lookup_node strcmp_s parent_path False s of
                  None \<Rightarrow> Inl (- LINUX_ENOENT)
                | Some a \<Rightarrow> if n_is_dir (s ! a) then Inr (new_name, a) else Inl (- LINUX_ENOENT))))"

text \<open>Result of the two-path \<^verbatim>\<open>prepare\<close> steps: return value, port, both normalised paths, \<^verbatim>\<open>need_commit\<close>.\<close>

definition vfs_namespace_rename_prepare ::
  "(string \<Rightarrow> string \<Rightarrow> nat \<Rightarrow> int) \<Rightarrow> vfs_mount_rec list \<Rightarrow> vfs_backends \<Rightarrow> vfs_req_cred \<Rightarrow> string \<Rightarrow> string \<Rightarrow> nat \<Rightarrow> nat \<Rightarrow> ns
   \<Rightarrow> int \<times> string option \<times> string \<times> string \<times> bool" where
  "vfs_namespace_rename_prepare strcmp_s mounts b cred oldpath newpath old_cap new_cap s =
     (let old_norm = vfs_path_normalize oldpath VFS_PATH_MAX; new_norm = vfs_path_normalize newpath VFS_PATH_MAX;
          fail = (\<lambda>e. (e, None, old_norm, new_norm, False)) in
      if old_cap = 0 \<or> new_cap = 0 then fail (- LINUX_EINVAL)
      else if old_cap < length old_norm + 1 \<or> new_cap < length new_norm + 1 then fail (- LINUX_ENAMETOOLONG)
      else if vfs_path_is_root old_norm \<or> vfs_path_is_root new_norm then fail (- LINUX_EINVAL)
      else case vfs_ns_lookup_node strcmp_s old_norm False s of
        None \<Rightarrow> fail (- LINUX_ENOENT)
      | Some a \<Rightarrow>
          if vfs_ns_lookup_node strcmp_s new_norm False s \<noteq> None then fail (- LINUX_EEXIST)
          else
            let perm_err = vfs_ns_check_parent_writable strcmp_s cred new_norm s in
            if perm_err < 0 then fail perm_err
            else case dest_parent strcmp_s new_norm s of
              Inl e \<Rightarrow> fail e
            | Inr _ \<Rightarrow>
                if n_overlay (s ! a) then
                  (case vfs_ns_backend_port strcmp_s old_norm mounts b of
                     None \<Rightarrow> fail (- LINUX_ENXIO)
                   | Some port \<Rightarrow> (1, Some port, old_norm, new_norm, True))
                else if n_in_cpio (s ! a) then fail (- LINUX_EROFS)
                else fail (- LINUX_ENOENT))"

definition vfs_namespace_rename_commit ::
  "(string \<Rightarrow> string \<Rightarrow> nat \<Rightarrow> int) \<Rightarrow> string \<Rightarrow> string \<Rightarrow> ns \<Rightarrow> int \<times> ns_effect list \<times> ns" where
  "vfs_namespace_rename_commit strcmp_s old_norm new_norm s =
     (case vfs_ns_lookup_node strcmp_s old_norm False s of
        None \<Rightarrow> (- LINUX_ENOENT, [], s)
      | Some a \<Rightarrow>
          (case dest_parent strcmp_s new_norm s of
             Inl e \<Rightarrow> (e, [], s)
           | Inr (new_name, dst) \<Rightarrow>
               let s1 = vfs_ns_detach a s;
                   s2 = s1[a := (s1 ! a)\<lparr>n_name := take 63 new_name, n_parent := Some dst\<rparr>] in
               (0, [CacheDrop old_norm, CacheDrop new_norm], vfs_ns_link_child strcmp_s dst a s2)))"

definition vfs_namespace_link_prepare ::
  "(string \<Rightarrow> string \<Rightarrow> nat \<Rightarrow> int) \<Rightarrow> vfs_mount_rec list \<Rightarrow> vfs_backends \<Rightarrow> vfs_req_cred \<Rightarrow> string \<Rightarrow> string \<Rightarrow> nat \<Rightarrow> nat \<Rightarrow> ns
   \<Rightarrow> int \<times> string option \<times> string \<times> string \<times> bool" where
  "vfs_namespace_link_prepare strcmp_s mounts b cred oldpath newpath old_cap new_cap s =
     (let old_norm = vfs_path_normalize oldpath VFS_PATH_MAX; new_norm = vfs_path_normalize newpath VFS_PATH_MAX;
          fail = (\<lambda>e. (e, None, old_norm, new_norm, False)) in
      if old_cap = 0 \<or> new_cap = 0 then fail (- LINUX_EINVAL)
      else if old_cap < length old_norm + 1 \<or> new_cap < length new_norm + 1 then fail (- LINUX_ENAMETOOLONG)
      else if vfs_path_is_root old_norm \<or> vfs_path_is_root new_norm then fail (- LINUX_EINVAL)
      else case vfs_ns_lookup_node strcmp_s old_norm False s of
        None \<Rightarrow> fail (- LINUX_ENOENT)
      | Some a \<Rightarrow>
          if n_is_dir (s ! a) then fail (- LINUX_EPERM)
          else if n_in_cpio (s ! a) \<and> \<not> n_overlay (s ! a) then fail (- LINUX_EXDEV)
          else if \<not> n_overlay (s ! a) then fail (- LINUX_ENOENT)
          else if vfs_ns_lookup_node strcmp_s new_norm False s \<noteq> None then fail (- LINUX_EEXIST)
          else
            let perm_err = vfs_ns_check_parent_writable strcmp_s cred new_norm s in
            if perm_err < 0 then fail perm_err
            else case dest_parent strcmp_s new_norm s of
              Inl e \<Rightarrow> fail e
            | Inr _ \<Rightarrow>
                (case vfs_ns_backend_port strcmp_s old_norm mounts b of
                   None \<Rightarrow> fail (- LINUX_ENXIO)
                 | Some port \<Rightarrow> (1, Some port, old_norm, new_norm, True)))"

definition vfs_namespace_link_commit ::
  "(string \<Rightarrow> string \<Rightarrow> nat \<Rightarrow> int) \<Rightarrow> (nat \<Rightarrow> bool) \<Rightarrow> vfs_mount_rec list \<Rightarrow> vfs_backends \<Rightarrow> string \<Rightarrow> string \<Rightarrow> ns
   \<Rightarrow> int \<times> ns_effect list \<times> ns" where
  "vfs_namespace_link_commit strcmp_s push_ok mounts b old_norm new_norm s =
     (case vfs_ns_lookup_node strcmp_s old_norm False s of
        None \<Rightarrow> (- LINUX_ENOENT, [], s)
      | Some a \<Rightarrow>
          (case dest_parent strcmp_s new_norm s of
             Inl e \<Rightarrow> (e, [], s)
           | Inr (new_name, dst) \<Rightarrow>
               (case vfs_ns_alloc_node push_ok dst new_name False s of
                  (None, s1) \<Rightarrow>
                    (- LINUX_ENOMEM,
                     (case vfs_ns_backend_port strcmp_s old_norm mounts b of None \<Rightarrow> [] | Some port \<Rightarrow> [BackendUnlink port new_norm]), s1)
                | (Some c, s1) \<Rightarrow>
                    let s2 = s1[c := (s1 ! c)\<lparr>n_deleted := False, n_is_dir := False, n_in_cpio := n_in_cpio (s1 ! a),
                               n_overlay := True, n_mode := n_mode (s1 ! a)\<rparr>] in
                    (0, [], vfs_ns_link_child strcmp_s dst c s2))))"

section \<open>Lookups as walks\<close>

fun ns_walk :: "(string \<Rightarrow> string \<Rightarrow> nat \<Rightarrow> int) \<Rightarrow> bool \<Rightarrow> ns \<Rightarrow> nat \<Rightarrow> string list \<Rightarrow> nat option" where
  "ns_walk scmp del s x [] = Some x"
| "ns_walk scmp del s x (n # names) =
     (case vfs_ns_find_child scmp x n del s of None \<Rightarrow> None | Some y \<Rightarrow> ns_walk scmp del s y names)"

lemma component_join:
  assumes "canon_comp c" "cs \<noteq> []"
  shows "ns_component (slash_join (c # cs)) = c" "ns_rest (slash_join (c # cs)) = slash_join cs"
    "drop (length c) (slash_join (c # cs)) \<noteq> []"
proof -
  obtain d ds where cs: "cs = d # ds" using assms(2) by (cases cs) auto
  have c: "takeWhile (\<lambda>x. x \<noteq> slash) (c @ slash # r) = c" for r
    using assms(1) by (subst takeWhile_append2) (auto simp: canon_comp_def)
  show one: "ns_component (slash_join (c # cs)) = c"
    using assms(1) c by (simp add: cs ns_component_def canon_comp_def)
  show "ns_rest (slash_join (c # cs)) = slash_join cs" using one by (simp add: ns_rest_def cs)
  show "drop (length c) (slash_join (c # cs)) \<noteq> []" by (simp add: cs)
qed

lemma component_last:
  assumes "canon_comp c"
  shows "ns_component c = c" "ns_rest c = []" "c \<noteq> []"
proof -
  have tw: "takeWhile (\<lambda>x. x \<noteq> slash) c = c" using assms by (auto simp: canon_comp_def takeWhile_eq_all_conv)
  show "ns_component c = c" unfolding ns_component_def tw using assms by (simp add: canon_comp_def)
  then show "ns_rest c = []" by (simp add: ns_rest_def)
  show "c \<noteq> []" using assms by (simp add: canon_comp_def)
qed

lemma slash_join_Cons_nonempty: "canon_comp c \<Longrightarrow> slash_join (c # cs) \<noteq> []"
  by (cases cs) (auto simp: canon_comp_def)

lemma lookup_loop_walk: "list_all canon_comp cs \<Longrightarrow> lookup_loop scmp del s x (slash_join cs) = ns_walk scmp del s x cs"
proof (induction cs arbitrary: x)
  case Nil
  then show ?case by (simp add: lookup_loop.simps)
next
  case (Cons c cs)
  have c: "canon_comp c" using Cons.prems by simp
  show ?case
  proof (cases "cs = []")
    case True
    then show ?thesis using component_last [OF c] by (simp add: lookup_loop.simps split: option.splits)
  next
    case False
    note cj = component_join [OF c False]
    show ?thesis
      using Cons cj component_last(3) [OF c] slash_join_Cons_nonempty [OF c]
      by (subst lookup_loop.simps) (simp split: option.splits)
  qed
qed

lemma is_root_comps: "vfs_path_is_root p \<longleftrightarrow> norm_comps p = []"
  by (simp add: vfs_path_is_root_def normalize_256 is_root_norm_render)

lemma canon_comps_norm: "list_all canon_comp (norm_comps p)"
  using canon_norm_comps [of p] by (simp add: canon_def)

lemma lookup_node_walk: "vfs_ns_lookup_node scmp p del s = ns_walk scmp del s 0 (norm_comps p)"
  by (simp add: vfs_ns_lookup_node_def Let_def normalize_256 is_root_comps lookup_loop_walk [OF canon_comps_norm] render_def [of "norm_comps p"])
    (simp add: render_def [symmetric])

lemma walk_append: "ns_walk scmp del s x (ps @ qs) = (case ns_walk scmp del s x ps of None \<Rightarrow> None | Some y \<Rightarrow> ns_walk scmp del s y qs)"
  by (induction ps arbitrary: x) (auto split: option.splits)

lemma walk_snoc: "ns_walk scmp del s x (ps @ [n]) = (case ns_walk scmp del s x ps of None \<Rightarrow> None | Some y \<Rightarrow> vfs_ns_find_child scmp y n del s)"
  by (simp add: walk_append split: option.splits)

section \<open>Well-formed trees\<close>

definition node_ok :: "(string \<Rightarrow> string \<Rightarrow> nat \<Rightarrow> int) \<Rightarrow> ns \<Rightarrow> nat \<Rightarrow> bool" where
  "node_ok scmp s a \<longleftrightarrow>
     sorted_wrt (\<lambda>c d. scmp (n_name (s ! c)) (n_name (s ! d)) 64 < 0) (n_children (s ! a))
     \<and> (\<forall>c \<in> set (n_children (s ! a)). c < length s \<and> c \<noteq> 0 \<and> n_parent (s ! c) = Some a)
     \<and> length (n_name (s ! a)) \<le> 63 \<and> \<not> n_mount_covered (s ! a)
     \<and> (n_deleted (s ! a) \<or> \<not> n_is_dir (s ! a) \<longrightarrow> n_children (s ! a) = [])"

text \<open>
  Children are sorted by name and point back to their parent, names fit their buffer, files and
  deleted nodes have no children, and nothing is hidden by a mount.
\<close>

definition ns_inv :: "(string \<Rightarrow> string \<Rightarrow> nat \<Rightarrow> int) \<Rightarrow> ns \<Rightarrow> bool" where
  "ns_inv scmp s \<longleftrightarrow> s \<noteq> [] \<and> n_is_dir (s ! 0) \<and> \<not> n_deleted (s ! 0) \<and> (\<forall>a < length s. node_ok scmp s a)"

lemma ns_invD:
  assumes "ns_inv scmp s" "a < length s"
  shows "sorted_wrt (\<lambda>c d. scmp (n_name (s ! c)) (n_name (s ! d)) 64 < 0) (n_children (s ! a))"
    "c \<in> set (n_children (s ! a)) \<Longrightarrow> c < length s \<and> c \<noteq> 0 \<and> n_parent (s ! c) = Some a"
    "length (n_name (s ! a)) \<le> 63" "\<not> n_mount_covered (s ! a)" "n_deleted (s ! a) \<or> \<not> n_is_dir (s ! a) \<Longrightarrow> n_children (s ! a) = []"
  using assms by (auto simp: ns_inv_def node_ok_def)

lemma take_64_name: "length name \<le> 63 \<Longrightarrow> take 64 name = take 64 n \<longleftrightarrow> name = (n :: string)"
proof
  assume l: "length name \<le> 63" and e: "take 64 name = take 64 n"
  then have "name = take 64 n" by simp
  moreover have "min (length n) 64 \<le> 63" using l calculation by (metis length_take)
  ultimately show "name = n" by simp
qed simp

lemma find_unique:
  assumes "distinct (map f xs)"
  shows "find (\<lambda>c. f c = n) xs = Some c \<longleftrightarrow> c \<in> set xs \<and> f c = n"
  using assms by (induction xs) (auto simp: image_iff)

context strcmp_api begin

lemma sorted_distinct_names:
  assumes "sorted_wrt (\<lambda>c d. scmp (f c) (f d) 64 < 0) xs"
  shows "distinct (map f xs)"
  using assms by (induction xs) auto

lemma find_child_iff:
  assumes inv: "ns_inv scmp s" and a: "a < length s"
  shows "vfs_ns_find_child scmp a n del s = Some c \<longleftrightarrow> c \<in> set (n_children (s ! a)) \<and> n_name (s ! c) = n \<and> (del \<or> \<not> n_deleted (s ! c))"
proof -
  note i = ns_invD [OF inv a]
  let ?f = "find (\<lambda>c. vfs_ns_name_cmp scmp (n_name (s ! c)) n = 0) (n_children (s ! a))"
  have "?f = find (\<lambda>c. n_name (s ! c) = n) (n_children (s ! a))"
    using i(2) ns_invD(3) [OF inv] by (intro find_cong) (auto simp: vfs_ns_name_cmp_def scmp_zero take_64_name)
  then have key: "?f = Some d \<longleftrightarrow> d \<in> set (n_children (s ! a)) \<and> n_name (s ! d) = n" for d
    using find_unique [OF sorted_distinct_names [OF i(1)], of n d] by simp
  show ?thesis
  proof (cases ?f)
    case None
    then show ?thesis using key [of c] by (auto simp: vfs_ns_find_child_def)
  next
    case (Some d)
    then show ?thesis using key [of c] key [of d] i(4) by (auto simp: vfs_ns_find_child_def vfs_ns_child_visible_def)
  qed
qed

lemma find_child_None:
  assumes "ns_inv scmp s" "a < length s"
  shows "vfs_ns_find_child scmp a n del s = None \<longleftrightarrow> (\<forall>c \<in> set (n_children (s ! a)). n_name (s ! c) = n \<longrightarrow> \<not> del \<and> n_deleted (s ! c))"
  using find_child_iff [OF assms, of n del] by (cases "vfs_ns_find_child scmp a n del s") auto

lemma walk_valid: "ns_inv scmp s \<Longrightarrow> x < length s \<Longrightarrow> ns_walk scmp del s x ps = Some y \<Longrightarrow> y < length s"
  by (induction ps arbitrary: x) (auto simp: find_child_iff dest: ns_invD(2) split: option.splits)

lemma inv_root: "ns_inv scmp s \<Longrightarrow> 0 < length s"
  by (simp add: ns_inv_def)

lemma walk_last:
  assumes inv: "ns_inv scmp s" and w: "ns_walk scmp del s 0 (ps @ [n]) = Some y"
  obtains x where "ns_walk scmp del s 0 ps = Some x" "x < length s" "n_parent (s ! y) = Some x" "n_name (s ! y) = n" "y \<noteq> 0" "y < length s"
proof -
  obtain x where x: "ns_walk scmp del s 0 ps = Some x" "vfs_ns_find_child scmp x n del s = Some y"
    using w by (auto simp: walk_snoc split: option.splits)
  have xl: "x < length s" by (rule walk_valid [OF inv inv_root [OF inv] x(1)])
  then show ?thesis using that x find_child_iff [OF inv xl] ns_invD(2) [OF inv xl] by auto
qed

text \<open>A node is reached by one path only.\<close>

lemma walk_unique:
  "ns_inv scmp s \<Longrightarrow> ns_walk scmp del s 0 ps = Some a \<Longrightarrow> ns_walk scmp del' s 0 qs = Some a \<Longrightarrow> ps = qs"
proof (induction ps arbitrary: qs a rule: rev_induct)
  case Nil
  then show ?case by (cases qs rule: rev_cases) (auto elim: walk_last)
next
  case (snoc n ps)
  obtain x where x: "ns_walk scmp del s 0 ps = Some x" "n_parent (s ! a) = Some x" "n_name (s ! a) = n" "a \<noteq> 0"
    using snoc.prems walk_last by metis
  show ?case
  proof (cases qs rule: rev_cases)
    case Nil
    then show ?thesis using x snoc.prems by simp
  next
    case (snoc qs' m)
    then obtain y where y: "ns_walk scmp del' s 0 qs' = Some y" "n_parent (s ! a) = Some y" "n_name (s ! a) = m"
      using snoc.prems \<open>ns_walk scmp del' s 0 qs = Some a\<close> walk_last [OF \<open>ns_inv scmp s\<close>, of del' qs' m a] by auto
    then show ?thesis using snoc.IH [OF \<open>ns_inv scmp s\<close>] x snoc by auto
  qed
qed

end

section \<open>Updates of the tree\<close>

text \<open>Two nodes at the same place of the tree, with other attributes.\<close>

definition same_place :: "vfs_ns_node \<Rightarrow> vfs_ns_node \<Rightarrow> bool" where
  "same_place n m \<longleftrightarrow> n_name n = n_name m \<and> n_parent n = n_parent m \<and> n_children n = n_children m \<and> n_mount_covered n = n_mount_covered m"

lemma option_eqI: "(\<And>c. x = Some c \<longleftrightarrow> y = Some c) \<Longrightarrow> x = y"
  by (cases x; cases y) auto

context strcmp_api begin

text \<open>Lookup of a live child, from the lookup that also sees deleted ones.\<close>

lemma find_by_True:
  assumes "ns_inv scmp s" "x < length s"
  shows "vfs_ns_find_child scmp x n del s
    = (case vfs_ns_find_child scmp x n True s of None \<Rightarrow> None | Some d \<Rightarrow> if del \<or> \<not> n_deleted (s ! d) then Some d else None)"
proof (cases "vfs_ns_find_child scmp x n del s")
  case None
  then show ?thesis using find_child_iff [OF assms, of n True] find_child_None [OF assms, of n del] by (auto split: option.splits)
next
  case (Some d)
  then have "vfs_ns_find_child scmp x n True s = Some d" using find_child_iff [OF assms] by auto
  then show ?thesis using Some find_child_iff [OF assms, of n del] by auto
qed

lemma attr_update:
  assumes inv: "ns_inv scmp s" and b: "b < length s" and p: "same_place m (s ! b)"
    and d: "n_deleted m \<or> \<not> n_is_dir m \<Longrightarrow> n_children (s ! b) = []" and r: "b = 0 \<Longrightarrow> n_is_dir m \<and> \<not> n_deleted m"
  shows "ns_inv scmp (s[b := m])"
    and "x < length s \<Longrightarrow> vfs_ns_find_child scmp x n True (s[b := m]) = vfs_ns_find_child scmp x n True s"
proof -
  let ?s = "s[b := m]"
  have f: "n_name (?s ! x) = n_name (s ! x)" "n_parent (?s ! x) = n_parent (s ! x)" "n_children (?s ! x) = n_children (s ! x)"
      "n_mount_covered (?s ! x) = n_mount_covered (s ! x)" for x
    using p b by (cases "x = b"; simp add: same_place_def)+
  have dd: "n_deleted (?s ! x) \<or> \<not> n_is_dir (?s ! x) \<Longrightarrow> n_children (s ! x) = []" if "x < length s" for x
    using d ns_invD(5) [OF inv that] b by (cases "x = b") auto
  have "node_ok scmp ?s x" if "x < length s" for x
    using inv that dd [OF that] by (auto simp: node_ok_def f ns_inv_def)
  then show i: "ns_inv scmp ?s" using inv r b by (auto simp: ns_inv_def nth_list_update)
  assume x: "x < length s"
  show "vfs_ns_find_child scmp x n True ?s = vfs_ns_find_child scmp x n True s"
    using find_child_iff [OF i, of x n True] find_child_iff [OF inv x, of n True] x by (intro option_eqI) (simp add: f)
qed

lemma insert_child_sorted:
  assumes "sorted_wrt (\<lambda>c d. scmp (n_name (s ! c)) (n_name (s ! d)) 64 < 0) cs"
    and "\<forall>c \<in> set cs. length (n_name (s ! c)) \<le> 63 \<and> n_name (s ! c) \<noteq> n_name (s ! child)"
  shows "set (insert_child scmp s child cs) = insert child (set cs)
    \<and> sorted_wrt (\<lambda>c d. scmp (n_name (s ! c)) (n_name (s ! d)) 64 < 0) (insert_child scmp s child cs)"
  using assms
proof (induction cs)
  case (Cons c cs)
  let ?cmp = "scmp (n_name (s ! c)) (n_name (s ! child)) 64"
  have ne: "?cmp \<noteq> 0" unfolding scmp_zero by (subst take_64_name) (use Cons.prems(2) in auto)
  show ?case
  proof (cases "0 < ?cmp")
    case True
    then have lt: "scmp (n_name (s ! child)) (n_name (s ! c)) 64 < 0" by (simp add: scmp_flip)
    then show ?thesis
      using Cons.prems True by (auto simp: vfs_ns_name_cmp_def Let_def intro: scmp_trans)
  next
    case False
    then have "?cmp < 0" using ne by simp
    then show ?thesis using Cons False ne by (auto simp: vfs_ns_name_cmp_def Let_def)
  qed
qed simp

text \<open>A name that is already there is not inserted.\<close>

lemma insert_child_present:
  assumes "sorted_wrt (\<lambda>c d. scmp (n_name (s ! c)) (n_name (s ! d)) 64 < 0) cs"
    and "d \<in> set cs" "n_name (s ! d) = n_name (s ! child)"
  shows "insert_child scmp s child cs = cs"
  using assms
proof (induction cs)
  case (Cons c cs)
  show ?case
  proof (cases "d = c")
    case True
    then show ?thesis using Cons.prems by (simp add: vfs_ns_name_cmp_def Let_def)
  next
    case False
    then have "scmp (n_name (s ! c)) (n_name (s ! child)) 64 < 0" using Cons.prems by auto
    then show ?thesis using Cons False by (auto simp: vfs_ns_name_cmp_def Let_def)
  qed
qed simp

text \<open>Attaching an orphan below a directory that has no node of its name.\<close>

lemma attach_child:
  assumes inv: "ns_inv scmp s" and a: "a < length s" "n_is_dir (s ! a)" "\<not> n_deleted (s ! a)"
    and b: "b < length s" "b \<noteq> 0" "n_parent (s ! b) = Some a" and free: "vfs_ns_find_child scmp a (n_name (s ! b)) True s = None"
  shows "ns_inv scmp (vfs_ns_link_child scmp a b s)"
    and "x < length s \<Longrightarrow> vfs_ns_find_child scmp x n True (vfs_ns_link_child scmp a b s)
      = (if x = a \<and> n = n_name (s ! b) then Some b else vfs_ns_find_child scmp x n True s)"
proof -
  let ?cs = "insert_child scmp s b (n_children (s ! a))"
  let ?s = "vfs_ns_link_child scmp a b s"
  have fresh: "\<forall>c \<in> set (n_children (s ! a)). length (n_name (s ! c)) \<le> 63 \<and> n_name (s ! c) \<noteq> n_name (s ! b)"
    using find_child_None [OF inv a(1), of _ True] free ns_invD(2) [OF inv a(1)] ns_invD(3) [OF inv] by blast
  note ins = insert_child_sorted [OF ns_invD(1) [OF inv a(1)] fresh]
  have f: "n_name (?s ! y) = n_name (s ! y)" "n_parent (?s ! y) = n_parent (s ! y)" "n_deleted (?s ! y) = n_deleted (s ! y)"
      "n_is_dir (?s ! y) = n_is_dir (s ! y)" "n_mount_covered (?s ! y) = n_mount_covered (s ! y)"
      "n_children (?s ! y) = (if y = a then ?cs else n_children (s ! y))" for y
    using a by (auto simp: vfs_ns_link_child_def nth_list_update)
  have l: "length ?s = length s" by (simp add: vfs_ns_link_child_def)
  have "node_ok scmp ?s y" if "y < length s" for y
    using inv that a b ins ns_invD [OF inv that] by (cases "y = a") (auto simp: node_ok_def f l)
  moreover have "?s \<noteq> []" using inv by (simp add: vfs_ns_link_child_def ns_inv_def)
  ultimately show i: "ns_inv scmp ?s" using inv by (simp add: ns_inv_def f l)
  assume x: "x < length s"
  have uniq: "b \<in> set (n_children (s ! a)) \<Longrightarrow> False" using fresh by blast
  show "vfs_ns_find_child scmp x n True ?s = (if x = a \<and> n = n_name (s ! b) then Some b else vfs_ns_find_child scmp x n True s)"
    using find_child_iff [OF i, of x n True] find_child_iff [OF inv x, of n True] x ins fresh
    by (intro option_eqI) (auto simp: f l)
qed

text \<open>Appending a node that nothing refers to.\<close>

lemma append_node:
  assumes inv: "ns_inv scmp s" and m: "length (n_name m) \<le> 63" "n_children m = []" "\<not> n_mount_covered m"
  shows "ns_inv scmp (s @ [m])"
    and "x \<le> length s \<Longrightarrow> vfs_ns_find_child scmp x n True (s @ [m]) = (if x < length s then vfs_ns_find_child scmp x n True s else None)"
proof -
  let ?s = "s @ [m]"
  have old: "y < length s \<Longrightarrow> ?s ! y = s ! y" for y by (simp add: nth_append)
  have ok: "node_ok scmp ?s y" if "y < length ?s" for y
  proof (cases "y < length s")
    case True
    have c: "c < length s \<and> c \<noteq> 0 \<and> n_parent (s ! c) = Some y" if "c \<in> set (n_children (s ! y))" for c
      using ns_invD(2) [OF inv True that] .
    have "sorted_wrt (\<lambda>c d. scmp (n_name (?s ! c)) (n_name (?s ! d)) 64 < 0) (n_children (s ! y))"
      by (rule sorted_wrt_mono_rel [OF _ ns_invD(1) [OF inv True]]) (use c in \<open>simp add: old\<close>)
    moreover have "\<forall>c \<in> set (n_children (s ! y)). c < length ?s \<and> c \<noteq> 0 \<and> n_parent (?s ! c) = Some y" using c by (fastforce simp: old)
    ultimately show ?thesis using ns_invD(3-5) [OF inv True] by (simp add: node_ok_def old [OF True])
  next
    case False
    then have "y = length s" using that by simp
    then show ?thesis using m by (simp add: node_ok_def)
  qed
  then show i: "ns_inv scmp ?s" using inv old by (auto simp: ns_inv_def)
  assume x: "x \<le> length s"
  show "vfs_ns_find_child scmp x n True ?s = (if x < length s then vfs_ns_find_child scmp x n True s else None)"
  proof (cases "x < length s")
    case True
    then show ?thesis
      using find_child_iff [OF i, of x n True] find_child_iff [OF inv True, of n True] ns_invD(2) [OF inv True]
      by (intro option_eqI) (auto simp: old)
  next
    case False
    then show ?thesis using x m by (simp add: vfs_ns_find_child_def)
  qed
qed

text \<open>Detaching a node, and changing the name and parent of a detached one.\<close>

lemma detach_node:
  assumes inv: "ns_inv scmp s" and p: "p < length s" and b: "b \<in> set (n_children (s ! p))" and ne: "b \<noteq> p"
  defines "s1 \<equiv> vfs_ns_detach b s"
  shows "ns_inv scmp s1" "length s1 = length s"
    and "x < length s \<Longrightarrow> vfs_ns_find_child scmp x n True s1
      = (if vfs_ns_find_child scmp x n True s = Some b then None else vfs_ns_find_child scmp x n True s)"
    and "x < length s \<Longrightarrow> b \<notin> set (n_children (s1 ! x))"
    and "s1 ! x = (if x = b then (s ! b)\<lparr>n_parent := None\<rparr>
      else if x = p then (s ! p)\<lparr>n_children := remove1 b (n_children (s ! p))\<rparr> else s ! x)"
proof -
  note i = ns_invD(2) [OF inv p b]
  have only: "b \<in> set (n_children (s ! y)) \<Longrightarrow> y < length s \<Longrightarrow> y = p" for y using ns_invD(2) [OF inv, of y b] i by auto
  have dist: "distinct (n_children (s ! p))"
    using sorted_distinct_names [OF ns_invD(1) [OF inv p]] by (simp add: distinct_map)
  have s1: "s1 = (s[p := (s ! p)\<lparr>n_children := remove1 b (n_children (s ! p))\<rparr>])[b := (s ! b)\<lparr>n_parent := None\<rparr>]"
    using i b p ne by (simp add: s1_def vfs_ns_detach_def Let_def)
  show l: "length s1 = length s" by (simp add: s1)
  show at: "s1 ! x = (if x = b then (s ! b)\<lparr>n_parent := None\<rparr>
      else if x = p then (s ! p)\<lparr>n_children := remove1 b (n_children (s ! p))\<rparr> else s ! x)" for x
    using i p ne by (auto simp: s1 nth_list_update)
  have rm: "remove1 b (n_children (s ! p)) = filter (\<lambda>c. c \<noteq> b) (n_children (s ! p))"
    using dist by (auto simp: distinct_remove1_removeAll removeAll_filter_not_eq intro: filter_cong)
  have f: "n_name (s1 ! y) = n_name (s ! y)" "n_deleted (s1 ! y) = n_deleted (s ! y)" "n_is_dir (s1 ! y) = n_is_dir (s ! y)"
      "n_mount_covered (s1 ! y) = n_mount_covered (s ! y)" "n_parent (s1 ! y) = (if y = b then None else n_parent (s ! y))"
      "n_children (s1 ! y) = (if y = p then filter (\<lambda>c. c \<noteq> b) (n_children (s ! p)) else n_children (s ! y))" for y
    using ne by (auto simp: at rm)
  show nb: "b \<notin> set (n_children (s1 ! x))" if "x < length s" for x using only that by (auto simp: f)
  have "node_ok scmp s1 y" if y: "y < length s" for y
  proof -
    have "n_children (s1 ! y) = filter (\<lambda>c. c \<noteq> b) (n_children (s ! y))"
      using only y by (cases "y = p") (auto simp: f intro!: filter_True [symmetric])
    then show ?thesis using ns_invD [OF inv y] by (auto simp: node_ok_def f l sorted_wrt_filter)
  qed
  moreover have "s1 \<noteq> []" using l inv by (auto simp: ns_inv_def)
  ultimately show inv1: "ns_inv scmp s1" using inv by (simp add: ns_inv_def f l)
  assume x: "x < length s"
  show "vfs_ns_find_child scmp x n True s1
      = (if vfs_ns_find_child scmp x n True s = Some b then None else vfs_ns_find_child scmp x n True s)"
  proof (intro option_eqI)
    fix c
    have new: "vfs_ns_find_child scmp x n True s1 = Some c \<longleftrightarrow> c \<noteq> b \<and> c \<in> set (n_children (s ! x)) \<and> n_name (s ! c) = n"
      using find_child_iff [OF inv1, of x n True c] x nb [OF x] by (auto simp: f l split: if_splits)
    have old: "vfs_ns_find_child scmp x n True s = Some d \<longleftrightarrow> d \<in> set (n_children (s ! x)) \<and> n_name (s ! d) = n" for d
      using find_child_iff [OF inv x, of n True d] by simp
    show "vfs_ns_find_child scmp x n True s1 = Some c \<longleftrightarrow>
        (if vfs_ns_find_child scmp x n True s = Some b then None else vfs_ns_find_child scmp x n True s) = Some c"
      using new old [of b] old [of c] by (cases "vfs_ns_find_child scmp x n True s = Some b") auto
  qed
qed

lemma orphan_update:
  assumes inv: "ns_inv scmp s" and b: "b < length s" "b \<noteq> 0" and orphan: "\<forall>x < length s. b \<notin> set (n_children (s ! x))"
    and m: "length (n_name m) \<le> 63" "n_children m = n_children (s ! b)" "n_deleted m = n_deleted (s ! b)"
      "n_is_dir m = n_is_dir (s ! b)" "n_mount_covered m = n_mount_covered (s ! b)"
  shows "ns_inv scmp (s[b := m])"
    and "x < length s \<Longrightarrow> vfs_ns_find_child scmp x n True (s[b := m]) = vfs_ns_find_child scmp x n True s"
proof -
  let ?s = "s[b := m]"
  have f: "n_deleted (?s ! y) = n_deleted (s ! y)" "n_is_dir (?s ! y) = n_is_dir (s ! y)"
      "n_mount_covered (?s ! y) = n_mount_covered (s ! y)" "n_children (?s ! y) = n_children (s ! y)" "y \<noteq> b \<Longrightarrow> ?s ! y = s ! y" for y
    using m b by (auto simp: nth_list_update)
  have other: "c \<noteq> b \<and> ?s ! c = s ! c" if "c \<in> set (n_children (s ! y))" "y < length s" for c y using orphan that by (metis nth_list_update_neq)
  have "node_ok scmp ?s y" if y: "y < length s" for y
  proof -
    have "sorted_wrt (\<lambda>c d. scmp (n_name (?s ! c)) (n_name (?s ! d)) 64 < 0) (n_children (s ! y))"
      by (rule sorted_wrt_mono_rel [OF _ ns_invD(1) [OF inv y]]) (use other y in simp)
    moreover have "length (n_name (?s ! y)) \<le> 63" using m(1) ns_invD(3) [OF inv y] b by (cases "y = b") auto
    ultimately show ?thesis using ns_invD [OF inv y] other [OF _ y] by (auto simp: node_ok_def f)
  qed
  moreover have "?s \<noteq> []" using inv by (simp add: ns_inv_def)
  ultimately show i: "ns_inv scmp ?s" using inv by (simp add: ns_inv_def f)
  assume x: "x < length s"
  show "vfs_ns_find_child scmp x n True ?s = vfs_ns_find_child scmp x n True s"
    using find_child_iff [OF i, of x n True] find_child_iff [OF inv x, of n True] x other [OF _ x]
    by (intro option_eqI) (auto simp: f)
qed

text \<open>How one new, removed or moved edge changes the walks from the root.\<close>

lemma walk_new_edge:
  assumes inv: "ns_inv scmp s" and a: "ns_walk scmp False s 0 ds = Some a" and ab: "a \<noteq> b"
    and free: "vfs_ns_find_child scmp a c False s = None" and unused: "\<And>qs. ns_walk scmp False s 0 qs \<noteq> Some b"
    and edges: "\<And>x n. x < length s \<Longrightarrow> x \<noteq> b \<Longrightarrow> vfs_ns_find_child scmp x n False s'
        = (if x = a \<and> n = c then Some b else vfs_ns_find_child scmp x n False s)"
      "\<And>n. vfs_ns_find_child scmp b n False s' = None"
  shows "ns_walk scmp False s' 0 qs = (if qs = ds @ [c] then Some b else ns_walk scmp False s 0 qs)"
proof (induction qs rule: rev_induct)
  case (snoc n qs)
  show ?case
  proof (cases "qs = ds @ [c]")
    case True
    have "ns_walk scmp False s 0 qs = None" using a free by (simp add: True walk_snoc)
    then show ?thesis unfolding walk_snoc using snoc.IH edges(2) True by simp
  next
    case False
    show ?thesis
    proof (cases "ns_walk scmp False s 0 qs")
      case None
      then show ?thesis using snoc.IH False a by (auto simp: walk_snoc)
    next
      case (Some x)
      have x: "x < length s" "x \<noteq> b" using walk_valid [OF inv inv_root [OF inv] Some] Some unused by auto
      have "x = a \<longleftrightarrow> qs = ds" using walk_unique [OF inv Some, of False ds] a Some by auto
      then show ?thesis using snoc.IH False Some edges(1) [OF x] by (simp add: walk_snoc)
    qed
  qed
qed simp

lemma walk_removed_edge:
  assumes inv: "ns_inv scmp s" and a: "ns_walk scmp False s 0 cs = Some a" "cs \<noteq> []" and leaf: "\<And>n. vfs_ns_find_child scmp a n False s = None"
    and edges: "\<And>x n. x < length s \<Longrightarrow> vfs_ns_find_child scmp x n False s'
        = (if vfs_ns_find_child scmp x n False s = Some a then None else vfs_ns_find_child scmp x n False s)"
  shows "ns_walk scmp False s' 0 qs = (if qs = cs then None else ns_walk scmp False s 0 qs)"
proof (induction qs rule: rev_induct)
  case Nil
  then show ?case using a(2) by simp
next
  case (snoc n qs)
  show ?case
  proof (cases "ns_walk scmp False s 0 qs")
    case None
    then show ?thesis using snoc.IH by (simp add: walk_snoc)
  next
    case (Some x)
    have x: "x < length s" using walk_valid [OF inv inv_root [OF inv] Some] .
    show ?thesis
    proof (cases "qs = cs")
      case True
      then show ?thesis using snoc.IH a leaf by (simp add: walk_snoc)
    next
      case False
      have "vfs_ns_find_child scmp x n False s = Some a \<longleftrightarrow> qs @ [n] = cs"
        using walk_unique [OF inv, of False "qs @ [n]" a False cs] a Some by (auto simp: walk_snoc)
      then show ?thesis using snoc.IH False Some edges [OF x, of n] by (simp add: walk_snoc)
    qed
  qed
qed

lemma walk_prefix_live: "ns_walk scmp del s x (ps @ qs) \<noteq> None \<Longrightarrow> ns_walk scmp del s x ps \<noteq> None"
  by (auto simp: walk_append split: option.splits)

lemma walk_moved_edge:
  assumes inv: "ns_inv scmp s" and a: "ns_walk scmp False s 0 (os @ [oc]) = Some a" and src: "ns_walk scmp False s 0 os = Some p"
    and dst: "ns_walk scmp False s 0 ds = Some q" and free: "ns_walk scmp False s 0 (ds @ [dc]) = None" and out: "\<not> prefix (os @ [oc]) (ds @ [dc])"
    and edges: "\<And>x n. x < length s \<Longrightarrow> vfs_ns_find_child scmp x n False s'
        = (if x = q \<and> n = dc then Some a else if x = p \<and> n = oc then None else vfs_ns_find_child scmp x n False s)"
  shows "ns_walk scmp False s' 0 qs = (if prefix (ds @ [dc]) qs then ns_walk scmp False s 0 (os @ [oc] @ drop (Suc (length ds)) qs)
      else if prefix (os @ [oc]) qs then None else ns_walk scmp False s 0 qs)"
proof (induction qs rule: rev_induct)
  case (snoc n qs)
  have valid: "ns_walk scmp False s 0 us = Some x \<Longrightarrow> x < length s" for us x by (rule walk_valid [OF inv inv_root [OF inv]])
  have at: "ns_walk scmp False s 0 us = Some x \<Longrightarrow> (x = q \<longleftrightarrow> us = ds) \<and> (x = p \<longleftrightarrow> us = os)" for us x
    using walk_unique [OF inv] dst src by (metis option.inject)
  have step: "ns_walk scmp False s 0 us = Some x \<Longrightarrow> vfs_ns_find_child scmp x m False s'
      = (if us = ds \<and> m = dc then Some a else if us = os \<and> m = oc then None else ns_walk scmp False s 0 (us @ [m]))" for us x m
    using edges [OF valid, of us x m] at [of us x] by (simp add: walk_snoc)
  have no: "\<not> prefix (ds @ [dc]) os"
    using free src walk_prefix_live [of False s 0 "ds @ [dc]"] by (auto simp: prefix_def)
  consider (below_new) "prefix (ds @ [dc]) qs" | (new) "qs @ [n] = ds @ [dc]" | (below_old) "\<not> prefix (ds @ [dc]) (qs @ [n])" "prefix (os @ [oc]) qs"
    | (old) "\<not> prefix (ds @ [dc]) (qs @ [n])" "qs @ [n] = os @ [oc]"
    | (rest) "\<not> prefix (ds @ [dc]) (qs @ [n])" "\<not> prefix (os @ [oc]) (qs @ [n])"
    by (auto simp: prefix_snoc)
  then show ?case
  proof cases
    case below_new
    then obtain r where qs: "qs = ds @ dc # r" by (auto simp: prefix_def)
    have "os @ oc # r \<noteq> ds" using out by (auto simp: prefix_def)
    moreover have "os @ oc # r \<noteq> os" by simp
    ultimately show ?thesis
      using snoc.IH step [of "os @ oc # r"] by (auto simp: qs walk_snoc [of _ _ _ _ "ds @ dc # r", simplified] walk_snoc [of _ _ _ _ "os @ oc # r", simplified] split: option.splits)
  next
    case new
    then have qs: "qs = ds" "n = dc" by simp_all
    have "\<not> prefix (os @ [oc]) ds" "\<not> prefix (ds @ [dc]) ds" using out by (auto simp: prefix_def)
    then show ?thesis using snoc.IH step [OF dst, of dc] dst a by (simp add: qs walk_snoc)
  next
    case below_old
    then have "\<not> prefix (ds @ [dc]) qs" "prefix (os @ [oc]) (qs @ [n])" by (auto simp: prefix_snoc)
    then show ?thesis using snoc.IH below_old by (auto simp: walk_snoc)
  next
    case old
    then have qs: "qs = os" "n = oc" by simp_all
    have "\<not> (os = ds \<and> oc = dc)" using out by auto
    then show ?thesis using snoc.IH step [OF src, of oc] src no old by (auto simp: qs walk_snoc)
  next
    case rest
    then have "\<not> prefix (ds @ [dc]) qs" "\<not> prefix (os @ [oc]) qs" by (auto simp: prefix_snoc)
    moreover have "\<not> (qs = ds \<and> n = dc)" "\<not> (qs = os \<and> n = oc)" using rest by auto
    ultimately show ?thesis using snoc.IH step [of qs _ n] rest by (auto simp: walk_snoc split: option.splits)
  qed
qed simp

lemma walk_live: "ns_inv scmp s \<Longrightarrow> ns_walk scmp False s 0 qs = Some y \<Longrightarrow> \<not> n_deleted (s ! y)"
proof (cases qs rule: rev_cases)
  case Nil
  then show "ns_inv scmp s \<Longrightarrow> ns_walk scmp False s 0 qs = Some y \<Longrightarrow> \<not> n_deleted (s ! y)" by (auto simp: ns_inv_def)
next
  case (snoc ps n)
  assume inv: "ns_inv scmp s" and w: "ns_walk scmp False s 0 qs = Some y"
  then obtain x where x: "ns_walk scmp False s 0 ps = Some x" "vfs_ns_find_child scmp x n False s = Some y"
    using snoc by (auto simp: walk_snoc split: option.splits)
  have "x < length s" by (rule walk_valid [OF inv inv_root [OF inv] x(1)])
  then show ?thesis using find_child_iff [OF inv, of x n False y] x(2) by simp
qed

lemma walk_True: "ns_inv scmp s \<Longrightarrow> x < length s \<Longrightarrow> ns_walk scmp False s x qs = Some y \<Longrightarrow> ns_walk scmp True s x qs = Some y"
proof (induction qs arbitrary: x)
  case (Cons n qs)
  then obtain z where z: "vfs_ns_find_child scmp x n False s = Some z" "ns_walk scmp False s z qs = Some y"
    by (auto split: option.splits)
  have "vfs_ns_find_child scmp x n True s = Some z" "z < length s"
    using z(1) find_child_iff [OF Cons.prems(1,2)] ns_invD(2) [OF Cons.prems(1,2)] by auto
  then show ?case using Cons.IH [OF Cons.prems(1)] z(2) by simp
qed simp

text \<open>Along existing directories nothing is created.\<close>

lemma ensure_loop_dirs:
  assumes inv: "ns_inv scmp s" and c: "canon_comp c"
  shows "list_all canon_comp ds \<Longrightarrow> x < length s \<Longrightarrow> ns_walk scmp False s x ds = Some a \<Longrightarrow> n_is_dir (s ! a) \<Longrightarrow>
    ensure_loop scmp push_ok dir x (slash_join (ds @ [c])) s = vfs_ns_ensure_child scmp push_ok a c dir s"
proof (induction ds arbitrary: x)
  case Nil
  then show ?case using component_last [OF c]
    by (auto simp: ensure_loop.simps [of _ _ _ _ c] ensure_loop.simps [of _ _ _ _ "[]"] Let_def split: prod.splits option.splits)
next
  case (Cons d ds)
  obtain y where y: "vfs_ns_find_child scmp x d False s = Some y" "ns_walk scmp False s y ds = Some a"
    using Cons.prems(3) by (auto split: option.splits)
  note fy = find_child_iff [OF inv Cons.prems(2), of d]
  have yl: "y < length s" "\<not> n_deleted (s ! y)" "vfs_ns_find_child scmp x d True s = Some y"
    using y(1) fy ns_invD(2) [OF inv Cons.prems(2)] by auto
  have "n_is_dir (s ! y)"
  proof (cases ds)
    case Nil
    then show ?thesis using y(2) Cons.prems(4) by simp
  next
    case (Cons e es)
    then have "n_children (s ! y) \<noteq> []" using y(2) find_child_iff [OF inv yl(1)] by (auto split: option.splits)
    then show ?thesis using ns_invD(5) [OF inv yl(1)] by blast
  qed
  then have "(s ! y)\<lparr>n_is_dir := True\<rparr> = s ! y" by (intro vfs_ns_node.equality) auto
  then have e: "vfs_ns_ensure_child scmp push_ok x d True s = (Some y, s)" using yl by (simp add: vfs_ns_ensure_child_def Let_def)
  have d: "canon_comp d" "ds @ [c] \<noteq> []" using Cons.prems(1) by simp_all
  show ?case
    using component_join [OF d] slash_join_Cons_nonempty [OF d(1)] Cons.IH [of y] Cons.prems(1,4) yl(1) y(2) e
    by (subst ensure_loop.simps) (simp add: Let_def)
qed

end

section \<open>The abstract namespace\<close>

type_synonym ns_attr = "bool \<times> bool \<times> bool \<times> bool \<times> u32"

definition ns_attrs :: "vfs_ns_node \<Rightarrow> ns_attr" where
  "ns_attrs n = (n_is_dir n, n_overlay n, n_in_cpio n, n_is_symlink n, n_mode n)"

text \<open>What a path denotes: directory, in the writable store, in the archive, symbolic link, mode.\<close>

definition ns_view :: "(string \<Rightarrow> string \<Rightarrow> nat \<Rightarrow> int) \<Rightarrow> ns \<Rightarrow> string list \<rightharpoonup> ns_attr" where
  "ns_view scmp s cs = map_option (\<lambda>a. ns_attrs (s ! a)) (ns_walk scmp False s 0 cs)"

definition pristine :: "ns \<Rightarrow> bool" where
  "pristine s \<longleftrightarrow> (\<forall>i < length s. \<not> n_deleted (s ! i) \<and> \<not> n_overlay (s ! i))"

definition archive_attr :: "cpio_rofs_stat \<Rightarrow> ns_attr" where
  "archive_attr st = (c_is_dir st, False, True, c_is_symlink st,
     if c_mode st \<noteq> 0 then c_mode st else if c_is_dir st then 0x1ED OR MODE_DIR else 0x1A4 OR MODE_REG)"

text \<open>The namespace an archive describes, and archives that list every path once, after its parent.\<close>

fun archive_map :: "(string list \<rightharpoonup> ns_attr) \<Rightarrow> cpio_rofs_entry list \<Rightarrow> (string list \<rightharpoonup> ns_attr)" where
  "archive_map M [] = M"
| "archive_map M (e # es) =
     archive_map (if norm_comps (e_path e) = [] then M else M(norm_comps (e_path e) \<mapsto> archive_attr (entry_stat e))) es"

fun archive_order :: "(string list \<rightharpoonup> ns_attr) \<Rightarrow> cpio_rofs_entry list \<Rightarrow> bool" where
  "archive_order M [] \<longleftrightarrow> True"
| "archive_order M (e # es) \<longleftrightarrow>
     (if norm_comps (e_path e) = [] then archive_order M es
      else M (norm_comps (e_path e)) = None
        \<and> map_option fst (M (butlast (norm_comps (e_path e)))) = Some True
        \<and> archive_order (M(norm_comps (e_path e) \<mapsto> archive_attr (entry_stat e))) es)"

context strcmp_api begin

lemma view_of_walk:
  assumes inv: "ns_inv scmp s" and w: "\<And>qs. ns_walk scmp False s' 0 qs = (if qs = cs then x else ns_walk scmp False s 0 qs)"
    and at: "\<And>y. y < length s \<Longrightarrow> (\<And>qs. qs \<noteq> cs \<Longrightarrow> ns_walk scmp False s 0 qs = Some y \<Longrightarrow> ns_attrs (s' ! y) = ns_attrs (s ! y))"
  shows "ns_view scmp s' = (ns_view scmp s)(cs := map_option (\<lambda>a. ns_attrs (s' ! a)) x)"
proof
  fix qs
  show "ns_view scmp s' qs = ((ns_view scmp s)(cs := map_option (\<lambda>a. ns_attrs (s' ! a)) x)) qs"
    using walk_valid [OF inv inv_root [OF inv], of False qs] at
    by (cases "qs = cs"; cases "ns_walk scmp False s 0 qs") (auto simp: ns_view_def w)
qed

lemma insert_child_cong:
  "(\<And>x. x \<in> insert child (set cs) \<Longrightarrow> n_name (s ! x) = n_name (t ! x)) \<Longrightarrow> insert_child scmp s child cs = insert_child scmp t child cs"
  by (induction cs) (auto simp: Let_def)

lemma link_update:
  assumes inv: "ns_inv scmp s" and a: "a < length s" and n: "n_name m' = n_name m"
  shows "(vfs_ns_link_child scmp a (length s) (s @ [m]))[length s := m'] = vfs_ns_link_child scmp a (length s) (s @ [m'])"
proof -
  have "insert_child scmp (s @ [m]) (length s) (n_children (s ! a)) = insert_child scmp (s @ [m']) (length s) (n_children (s ! a))"
    using ns_invD(2) [OF inv a] n by (intro insert_child_cong) (auto simp: nth_append)
  then show ?thesis using a by (simp add: vfs_ns_link_child_def nth_append list_update_append list_update_swap)
qed

text \<open>A node created below a live directory, or brought back there from its deleted state.\<close>

lemma new_node_view:
  assumes inv: "ns_inv scmp s" and a: "ns_walk scmp False s 0 ds = Some a" "n_is_dir (s ! a)"
    and c: "c \<noteq> []" "length c \<le> 63" and free: "vfs_ns_find_child scmp a c True s = None"
    and m: "n_name m = c" "n_parent m = Some a" "n_children m = []" "\<not> n_mount_covered m" "\<not> n_deleted m"
  defines "b \<equiv> length s"
  defines "s1 \<equiv> vfs_ns_link_child scmp a b (s @ [m])"
  shows "ns_inv scmp s1" "ns_walk scmp False s1 0 qs = (if qs = ds @ [c] then Some b else ns_walk scmp False s 0 qs)"
    "s1 ! b = m" "y < length s \<Longrightarrow> ns_attrs (s1 ! y) = ns_attrs (s ! y)" "length s1 = Suc (length s)"
proof -
  have al: "a < length s" "\<not> n_deleted (s ! a)" using walk_valid [OF inv inv_root [OF inv] a(1)] walk_live [OF inv a(1)] by simp_all
  have m63: "length (n_name m) \<le> 63" using m(1) c(2) by simp
  note ap = append_node [OF inv m63 m(3,4)]
  have b: "b < length (s @ [m])" "b \<noteq> 0" "n_parent ((s @ [m]) ! b) = Some a" "n_name ((s @ [m]) ! b) = c"
    using m inv_root [OF inv] by (simp_all add: b_def)
  have aa: "a < length (s @ [m])" "n_is_dir ((s @ [m]) ! a)" "\<not> n_deleted ((s @ [m]) ! a)" using al a(2) by (simp_all add: nth_append)
  have fr: "vfs_ns_find_child scmp a (n_name ((s @ [m]) ! b)) True (s @ [m]) = None" unfolding b(4) using ap(2) [of a c] al free by simp
  note at = attach_child [OF ap(1) aa b(1-3) fr, unfolded b(4), folded s1_def]
  show inv1: "ns_inv scmp s1" by (rule at(1))
  show l1: "length s1 = Suc (length s)" by (simp add: s1_def vfs_ns_link_child_def)
  show s1b: "s1 ! b = m" using al by (simp add: s1_def vfs_ns_link_child_def b_def)
  have keep: "n_deleted (s1 ! y) = n_deleted (s ! y) \<and> ns_attrs (s1 ! y) = ns_attrs (s ! y)" if "y < length s" for y
    using that al by (cases "y = a") (simp_all add: s1_def vfs_ns_link_child_def nth_append ns_attrs_def)
  then show "y < length s \<Longrightarrow> ns_attrs (s1 ! y) = ns_attrs (s ! y)" by blast
  have T: "vfs_ns_find_child scmp x n True s1 = (if x = a \<and> n = c then Some b else if x < length s then vfs_ns_find_child scmp x n True s else None)"
    if "x \<le> length s" for x n
    using at(2) [of x n] ap(2) [OF that, of n] that by (cases "x < length s") auto
  have "vfs_ns_find_child scmp x n False s1 = (if x = a \<and> n = c then Some b else vfs_ns_find_child scmp x n False s)" if "x < length s" for x n
  proof (cases "x = a \<and> n = c")
    case True
    then show ?thesis using find_by_True [OF inv1, of x n False] T [of x n] that l1 s1b m(5) by simp
  next
    case False
    then have "vfs_ns_find_child scmp x n True s1 = vfs_ns_find_child scmp x n True s" using T [of x n] that by auto
    moreover have "d < length s" if "vfs_ns_find_child scmp x n True s = Some d" for d
      using that find_child_iff [OF inv \<open>x < length s\<close>, of n True d] ns_invD(2) [OF inv \<open>x < length s\<close>] by auto
    ultimately show ?thesis
      using find_by_True [OF inv1, of x n False] find_by_True [OF inv that, of n False] that l1 keep False
      by (cases "vfs_ns_find_child scmp x n True s") auto
  qed
  moreover have "vfs_ns_find_child scmp b n False s1 = None" for n
    using find_by_True [OF inv1, of b n False] T [of b n] l1 al by (auto simp: b_def)
  moreover have "vfs_ns_find_child scmp a c False s = None" using find_by_True [OF inv al(1), of c False] free by simp
  moreover have "ns_walk scmp False s 0 us \<noteq> Some b" for us using walk_valid [OF inv inv_root [OF inv]] by (auto simp: b_def)
  ultimately show "ns_walk scmp False s1 0 qs = (if qs = ds @ [c] then Some b else ns_walk scmp False s 0 qs)"
    using al by (intro walk_new_edge [OF inv a(1)]) (auto simp: b_def)
qed

lemma revived_node_view:
  assumes inv: "ns_inv scmp s" and a: "ns_walk scmp False s 0 ds = Some a"
    and b: "vfs_ns_find_child scmp a c True s = Some b" "n_deleted (s ! b)" and m: "same_place m (s ! b)" "\<not> n_deleted m"
  shows "ns_inv scmp (s[b := m])" "ns_walk scmp False (s[b := m]) 0 qs = (if qs = ds @ [c] then Some b else ns_walk scmp False s 0 qs)"
proof -
  have al: "a < length s" by (rule walk_valid [OF inv inv_root [OF inv] a])
  have bb: "b \<in> set (n_children (s ! a))" "n_name (s ! b) = c" using find_child_iff [OF inv al] b(1) by auto
  note bi = ns_invD(2) [OF inv al bb(1)]
  have leaf: "n_children (s ! b) = []" using ns_invD(5) [OF inv, of b] bi b(2) by simp
  have at: "ns_inv scmp (s[b := m])" "\<And>x n. x < length s \<Longrightarrow> vfs_ns_find_child scmp x n True (s[b := m]) = vfs_ns_find_child scmp x n True s"
    using attr_update [OF inv _ m(1)] leaf bi by auto
  show "ns_inv scmp (s[b := m])" by (rule at(1))
  have ab: "a \<noteq> b" using leaf bb(1) by auto
  have hit: "vfs_ns_find_child scmp x n True s = Some b \<longleftrightarrow> x = a \<and> n = c" if "x < length s" for x n
    using find_child_iff [OF inv that, of n True b] ns_invD(2) [OF inv that, of b] bi bb b(1) by auto
  have "vfs_ns_find_child scmp x n False (s[b := m]) = (if x = a \<and> n = c then Some b else vfs_ns_find_child scmp x n False s)" if "x < length s" for x n
    using find_by_True [OF at(1), of x n False] find_by_True [OF inv that, of n False] at(2) [OF that, of n] hit [OF that, of n] that m(2) bi
    by (auto simp: nth_list_update split: option.splits)
  moreover have "vfs_ns_find_child scmp b n False (s[b := m]) = None" for n
    using m(1) leaf bi by (simp add: vfs_ns_find_child_def same_place_def)
  moreover have "vfs_ns_find_child scmp a c False s = None" using find_by_True [OF inv al, of c False] b by simp
  moreover have "ns_walk scmp False s 0 us \<noteq> Some b" for us using walk_live [OF inv] b(2) by auto
  ultimately show "ns_walk scmp False (s[b := m]) 0 qs = (if qs = ds @ [c] then Some b else ns_walk scmp False s 0 qs)"
    using ab by (intro walk_new_edge [OF inv a]) auto
qed

text \<open>What a successful check of the parent says about the path.\<close>

lemma parent_checked:
  assumes inv: "ns_inv scmp s" and ret: "0 \<le> vfs_ns_check_parent_writable scmp cred p s"
  obtains ds c a where "norm_comps p = ds @ [c]" "canon_comp c" "list_all canon_comp ds" "ns_walk scmp False s 0 ds = Some a" "n_is_dir (s ! a)"
    "a < length s"
proof -
  have ne: "norm_comps p \<noteq> []" using ret parent_root by (auto simp: vfs_ns_check_parent_writable_def)
  then obtain ds c where cs: "norm_comps p = ds @ [c]" by (cases "norm_comps p" rule: rev_cases) auto
  note k = canon_norm_snoc [OF cs]
  have nd: "norm_comps (render_dir ds) = ds" using norm_comps_dir k by simp
  have "\<exists>a. ns_walk scmp False s 0 ds = Some a \<and> n_is_dir (s ! a)"
  proof (cases "ds = []")
    case True
    then show ?thesis using inv by (simp add: ns_inv_def)
  next
    case False
    then show ?thesis
      using ret by (simp add: vfs_ns_check_parent_writable_def parent_norm [OF cs] is_root_comps lookup_node_walk nd split: option.splits if_splits)
  qed
  then show ?thesis using that cs k walk_valid [OF inv inv_root [OF inv]] by (auto simp: canon_def)
qed

lemma ensure_path_below:
  assumes inv: "ns_inv scmp s" and cs: "norm_comps p = ds @ [c]" "canon_comp c" "list_all canon_comp ds"
    and a: "ns_walk scmp False s 0 ds = Some a" "n_is_dir (s ! a)"
  shows "vfs_ns_ensure_path_nodes scmp push_ok p dir s = vfs_ns_ensure_child scmp push_ok a c dir s"
  using ensure_loop_dirs [OF inv cs(2,3) inv_root [OF inv] a] norm_comps_render_norm [of p]
  unfolding vfs_ns_ensure_path_nodes_def Let_def is_root_comps normalize_256 cs(1) by (simp add: render_def)

lemma ensure_node_view:
  assumes inv: "ns_inv scmp s" and cs: "norm_comps p = ds @ [c]" "canon_comp c" "list_all canon_comp ds"
    and a: "ns_walk scmp False s 0 ds = Some a" "n_is_dir (s ! a)" and free: "vfs_ns_find_child scmp a c False s = None"
    and run: "vfs_ns_ensure_path_nodes scmp push_ok p dir s = (Some b, s1)"
    and upd: "s' = s1[b := (s1 ! b)\<lparr>n_deleted := False, n_is_dir := dir, n_in_cpio := False, n_overlay := True, n_mode := md\<rparr>]"
  shows "ns_inv scmp s' \<and> (\<exists>sym. ns_view scmp s' = (ns_view scmp s)(ds @ [c] \<mapsto> (dir, True, False, sym, md)))"
proof -
  have al: "a < length s" by (rule walk_valid [OF inv inv_root [OF inv] a(1)])
  have c: "c \<noteq> []" "length c \<le> 63" using cs(2) by (simp_all add: canon_comp_def)
  have r: "vfs_ns_ensure_child scmp push_ok a c dir s = (Some b, s1)"
    using run by (simp add: ensure_path_below [OF inv cs a])
  show ?thesis
  proof (cases "vfs_ns_find_child scmp a c True s")
    case None
    define m0 where "m0 = node_zero\<lparr>n_name := take 63 c, n_parent := Some a, n_is_dir := dir,
        n_mode := (if dir then 0x1ED OR MODE_DIR else 0x1A4 OR MODE_REG)\<rparr>"
    define m where "m = m0\<lparr>n_deleted := False, n_is_dir := dir, n_in_cpio := False, n_overlay := True, n_mode := md\<rparr>"
    have b: "b = length s" "s1 = vfs_ns_link_child scmp a (length s) (s @ [m0])"
      using r None c by (auto simp: vfs_ns_ensure_child_def vfs_ns_alloc_node_def m0_def split: if_splits)
    have "s1 ! b = m0" using al by (simp add: b vfs_ns_link_child_def)
    then have s': "s' = vfs_ns_link_child scmp a (length s) (s @ [m])"
      unfolding upd using link_update [OF inv al, of m m0] by (simp add: b m_def)
    have m: "n_name m = c" "n_parent m = Some a" "n_children m = []" "\<not> n_mount_covered m" "\<not> n_deleted m"
      using c by (simp_all add: m_def m0_def node_zero_def)
    note v = new_node_view [OF inv a c None m, folded s']
    have "ns_view scmp s' = (ns_view scmp s)(ds @ [c] := map_option (\<lambda>a. ns_attrs (s' ! a)) (Some (length s)))"
      by (rule view_of_walk [OF inv v(2)]) (rule v(4))
    moreover have "ns_attrs (s' ! length s) = (dir, True, False, False, md)" using v(3) by (simp add: ns_attrs_def m_def m0_def node_zero_def)
    ultimately show ?thesis using v(1) by auto
  next
    case (Some b1)
    have b1: "n_deleted (s ! b1)" using free find_by_True [OF inv al, of c False] Some by (simp split: if_splits)
    have bl: "b1 < length s" using find_child_iff [OF inv al, of c True b1] Some ns_invD(2) [OF inv al] by auto
    define m where "m = (s ! b1)\<lparr>n_deleted := False, n_is_dir := dir, n_in_cpio := False, n_overlay := True, n_mode := md\<rparr>"
    have b: "b = b1" using r Some by (auto simp: vfs_ns_ensure_child_def Let_def)
    have "s1 = s[b1 := (if dir then (s ! b1)\<lparr>n_deleted := False, n_is_dir := True\<rparr> else (s ! b1)\<lparr>n_deleted := False\<rparr>)]"
      using r Some b1 by (auto simp: vfs_ns_ensure_child_def Let_def)
    then have s': "s' = s[b1 := m]" unfolding upd b using bl by (cases dir) (simp_all add: m_def)
    have m: "same_place m (s ! b1)" "\<not> n_deleted m" by (simp_all add: m_def same_place_def)
    note v = revived_node_view [OF inv a(1) Some b1 m, folded s']
    have keep: "ns_walk scmp False s 0 us = Some y \<Longrightarrow> s' ! y = s ! y" for us y
      using walk_live [OF inv] b1 by (metis s' nth_list_update_neq)
    have "ns_view scmp s' = (ns_view scmp s)(ds @ [c] := map_option (\<lambda>a. ns_attrs (s' ! a)) (Some b1))"
      by (rule view_of_walk [OF inv v(2)]) (simp add: keep)
    moreover have "ns_attrs (s' ! b1) = (dir, True, False, n_is_symlink (s ! b1), md)" using bl by (simp add: s' ns_attrs_def m_def)
    ultimately show ?thesis using v(1) by auto
  qed
qed

lemma lookup_True_free:
  assumes inv: "ns_inv scmp s" and cs: "norm_comps p = ds @ [c]" and a: "ns_walk scmp False s 0 ds = Some a"
    and gone: "case vfs_ns_lookup_node scmp p True s of None \<Rightarrow> True | Some b \<Rightarrow> n_deleted (s ! b)"
  shows "vfs_ns_find_child scmp a c False s = None"
proof -
  have al: "a < length s" by (rule walk_valid [OF inv inv_root [OF inv] a])
  have "vfs_ns_lookup_node scmp p True s = vfs_ns_find_child scmp a c True s"
    using walk_True [OF inv inv_root [OF inv] a] by (simp add: lookup_node_walk cs walk_snoc)
  then show ?thesis using gone find_by_True [OF inv al, of c False] by (auto split: option.splits)
qed

lemma norm_norm: "norm_comps (vfs_path_normalize p VFS_PATH_MAX) = norm_comps p"
  by (simp add: normalize_256)

lemma create_view:
  assumes inv: "ns_inv scmp s"
    and prep: "(if dir then vfs_namespace_mkdir_prepare scmp mounts b cred path cap s
        else vfs_namespace_create_prepare scmp mounts b cred path cap s) = (1, port, norm, True)"
    and commit: "(if dir then vfs_namespace_mkdir_commit scmp push_ok mounts b norm mode s
        else vfs_namespace_create_commit scmp push_ok mounts b norm mode s) = (0, effs, s')"
  shows "ns_view scmp s (norm_comps path) = None \<and> ns_inv scmp s' \<and>
    (\<exists>sym. ns_view scmp s' = (ns_view scmp s)(norm_comps path \<mapsto>
       (dir, True, False, sym, (mode AND 0x1FF) OR (if dir then MODE_DIR else MODE_REG))))"
proof -
  define nm where "nm = vfs_path_normalize path VFS_PATH_MAX"
  have nc: "norm_comps nm = norm_comps path" by (simp add: nm_def norm_norm)
  have p: "norm = nm" "0 \<le> vfs_ns_check_parent_writable scmp cred nm s"
      "case vfs_ns_lookup_node scmp nm True s of None \<Rightarrow> True | Some a \<Rightarrow> n_deleted (s ! a)"
    using prep by (auto simp: vfs_namespace_mkdir_prepare_def vfs_namespace_create_prepare_def Let_def nm_def [symmetric] split: if_splits option.splits)
  obtain ds c a where k: "norm_comps nm = ds @ [c]" "canon_comp c" "list_all canon_comp ds" "ns_walk scmp False s 0 ds = Some a" "n_is_dir (s ! a)"
    by (rule parent_checked [OF inv p(2)])
  note free = lookup_True_free [OF inv k(1,4) p(3)]
  obtain a1 s1 where e: "vfs_ns_ensure_path_nodes scmp push_ok nm dir s = (Some a1, s1)"
      and s': "s' = s1[a1 := (s1 ! a1)\<lparr>n_deleted := False, n_is_dir := dir, n_in_cpio := False, n_overlay := True,
         n_mode := (mode AND 0x1FF) OR (if dir then MODE_DIR else MODE_REG)\<rparr>]"
    using commit by (auto simp: p(1) vfs_namespace_mkdir_commit_def vfs_namespace_create_commit_def split: if_splits prod.splits option.splits)
  show ?thesis
    using ensure_node_view [OF inv k free e s'] k(1,4) free unfolding nc [symmetric] by (simp add: ns_view_def walk_snoc)
qed

text \<open>The tree while it is filled from the archive: nothing is deleted or in the writable store.\<close>

lemma populate_view:
  assumes inv: "ns_inv scmp s" and prist: "pristine s" and cs: "norm_comps p = ds @ [c]"
    and a: "ns_walk scmp False s 0 ds = Some a" "n_is_dir (s ! a)" and free: "ns_walk scmp False s 0 (ds @ [c]) = None"
    and push: "push_ok (length s)"
  obtains s' where "vfs_ns_populate_cb scmp push_ok p st s = (True, s')" "ns_inv scmp s'" "pristine s'" "length s' = Suc (length s)"
    "ns_view scmp s' = (ns_view scmp s)(ds @ [c] \<mapsto> archive_attr st)"
proof -
  note k = canon_norm_snoc [OF cs]
  have al: "a < length s" by (rule walk_valid [OF inv inv_root [OF inv] a(1)])
  have c: "canon_comp c" "list_all canon_comp ds" "c \<noteq> []" "length c \<le> 63" using k by (auto simp: canon_def canon_comp_def)
  have none: "vfs_ns_find_child scmp a c True s = None"
  proof (cases "vfs_ns_find_child scmp a c True s")
    case (Some b)
    then have "b < length s" using find_child_iff [OF inv al, of c True b] ns_invD(2) [OF inv al] by auto
    then show ?thesis
      using Some free prist find_by_True [OF inv al, of c False] by (simp add: walk_snoc a(1) pristine_def)
  qed simp
  define m0 where "m0 = node_zero\<lparr>n_name := take 63 c, n_parent := Some a, n_is_dir := c_is_dir st,
      n_mode := (if c_is_dir st then 0x1ED OR MODE_DIR else 0x1A4 OR MODE_REG)\<rparr>"
  define m where "m = m0\<lparr>n_in_cpio := True, n_is_symlink := c_is_symlink st, n_is_dir := c_is_dir st,
      n_mode := (if c_mode st \<noteq> 0 then c_mode st else if c_is_dir st then 0x1ED OR MODE_DIR else 0x1A4 OR MODE_REG),
      n_deleted := False\<rparr>"
  define s' where "s' = vfs_ns_link_child scmp a (length s) (s @ [m])"
  have r: "vfs_ns_ensure_path_nodes scmp push_ok p (c_is_dir st) s = (Some (length s), vfs_ns_link_child scmp a (length s) (s @ [m0]))"
    unfolding ensure_path_below [OF inv cs c(1,2) a] using none push c(3)
    by (simp add: vfs_ns_ensure_child_def vfs_ns_alloc_node_def m0_def)
  have nr: "\<not> vfs_path_is_root p" by (simp add: is_root_comps cs)
  have at: "vfs_ns_link_child scmp a (length s) (s @ [m0]) ! length s = m0" using al by (simp add: vfs_ns_link_child_def)
  have run: "vfs_ns_populate_cb scmp push_ok p st s = (True, s')"
    unfolding vfs_ns_populate_cb_def r using nr link_update [OF inv al, of m m0] at by (simp add: s'_def m_def)
  have m: "n_name m = c" "n_parent m = Some a" "n_children m = []" "\<not> n_mount_covered m" "\<not> n_deleted m"
    using c(4) by (simp_all add: m_def m0_def node_zero_def)
  note v = new_node_view [OF inv a c(3,4) none m, folded s'_def]
  have "ns_view scmp s' = (ns_view scmp s)(ds @ [c] := map_option (\<lambda>a. ns_attrs (s' ! a)) (Some (length s)))"
    by (rule view_of_walk [OF inv v(2)]) (rule v(4))
  then have view: "ns_view scmp s' = (ns_view scmp s)(ds @ [c] \<mapsto> archive_attr st)"
    using v(3) by (simp add: ns_attrs_def m_def m0_def node_zero_def archive_attr_def)
  have "n_deleted (s' ! i) = n_deleted ((s @ [m]) ! i)" "n_overlay (s' ! i) = n_overlay ((s @ [m]) ! i)" if "i < length s'" for i
    using that al by (auto simp: s'_def vfs_ns_link_child_def nth_list_update)
  then have "pristine s'"
    using prist v(5) by (auto simp: pristine_def nth_append m_def m0_def node_zero_def)
  with run v(1,5) view show ?thesis using that by blast
qed

lemma init_view:
  assumes "archive_order M es" "M = ns_view scmp s" "ns_inv scmp s" "pristine s" "\<forall>k. push_ok k"
  shows "\<exists>s'. cpio_rofs_visit (vfs_ns_populate_cb scmp push_ok) es s = (True, s') \<and> ns_inv scmp s'
    \<and> ns_view scmp s' = archive_map M es"
  using assms
proof (induction es arbitrary: M s)
  case (Cons e es)
  show ?case
  proof (cases "norm_comps (e_path e) = []")
    case True
    then show ?thesis using Cons by (simp add: vfs_ns_populate_cb_def is_root_comps)
  next
    case False
    then obtain ds c where cs: "norm_comps (e_path e) = ds @ [c]" by (cases "norm_comps (e_path e)" rule: rev_cases) auto
    have o: "M (ds @ [c]) = None" "\<exists>at. M ds = Some (True, at)" using Cons.prems(1) cs by auto
    then obtain a where a: "ns_walk scmp False s 0 ds = Some a" "n_is_dir (s ! a)"
      unfolding Cons.prems(2) by (auto simp: ns_view_def ns_attrs_def)
    have "ns_walk scmp False s 0 (ds @ [c]) = None" using o(1) unfolding Cons.prems(2) by (simp add: ns_view_def)
    from populate_view [OF Cons.prems(3,4) cs a this, of push_ok "entry_stat e"] Cons.prems(5)
    obtain s1 where s1: "vfs_ns_populate_cb scmp push_ok (e_path e) (entry_stat e) s = (True, s1)" "ns_inv scmp s1" "pristine s1"
        "ns_view scmp s1 = M(ds @ [c] \<mapsto> archive_attr (entry_stat e))"
      unfolding Cons.prems(2) by blast
    have "archive_order (ns_view scmp s1) es" using Cons.prems(1) cs unfolding s1(4) by simp
    from Cons.IH [OF this refl s1(2,3) Cons.prems(5), unfolded s1(4)] show ?thesis using s1(1) cs by (simp del: fun_upd_apply)
  qed
qed simp

lemma reset_inv: "ns_inv scmp vfs_namespace_reset" and reset_pristine: "pristine vfs_namespace_reset"
  by (simp_all add: ns_inv_def node_ok_def pristine_def vfs_namespace_reset_def node_zero_def)

lemma reset_view: "ns_view scmp vfs_namespace_reset = [[] \<mapsto> (True, False, False, False, 0x1ED OR MODE_DIR)]"
proof
  fix cs
  show "ns_view scmp vfs_namespace_reset cs = [[] \<mapsto> (True, False, False, False, 0x1ED OR MODE_DIR)] cs"
    by (cases cs) (simp_all add: ns_view_def ns_attrs_def vfs_ns_find_child_def vfs_namespace_reset_def node_zero_def)
qed

lemma unlink_view:
  assumes inv: "ns_inv scmp s"
    and prep: "vfs_namespace_unlink_prepare scmp mounts b cred path cap s = (ret, port, norm, True)"
    and commit: "vfs_namespace_unlink_commit scmp norm s = (0, effs, s')"
  shows "ns_inv scmp s' \<and> effs = [CacheDrop norm] \<and> ns_view scmp s' = (ns_view scmp s)(norm_comps path := None)"
proof -
  define nm where "nm = vfs_path_normalize path VFS_PATH_MAX"
  have nc: "norm_comps nm = norm_comps path" by (simp add: nm_def norm_norm)
  obtain a where p: "norm = nm" "ns_walk scmp False s 0 (norm_comps path) = Some a" "\<not> n_is_dir (s ! a)" "norm_comps path \<noteq> []"
    using prep by (auto simp: vfs_namespace_unlink_prepare_def Let_def nm_def [symmetric] lookup_node_walk nc is_root_comps split: if_splits option.splits)
  have al: "a < length s" by (rule walk_valid [OF inv inv_root [OF inv] p(2)])
  define m where "m = (s ! a)\<lparr>n_overlay := False, n_deleted := True\<rparr>"
  have s': "s' = s[a := m]" "effs = [CacheDrop norm]"
    using commit p by (auto simp: vfs_namespace_unlink_commit_def lookup_node_walk nc m_def)
  have leaf: "n_children (s ! a) = []" using ns_invD(5) [OF inv al] p(3) by simp
  have "a \<noteq> 0" using p(3) inv unfolding ns_inv_def by metis
  then have at: "ns_inv scmp s'" "\<And>x n. x < length s \<Longrightarrow> vfs_ns_find_child scmp x n True s' = vfs_ns_find_child scmp x n True s"
    using attr_update [OF inv al, of m] leaf by (auto simp: s' m_def same_place_def)
  have ed: "vfs_ns_find_child scmp x n False s' = (if vfs_ns_find_child scmp x n False s = Some a then None else vfs_ns_find_child scmp x n False s)"
    if "x < length s" for x n
    using find_by_True [OF at(1), of x n False] find_by_True [OF inv that, of n False] at(2) [OF that, of n] that al walk_live [OF inv p(2)]
    by (auto simp: s' m_def nth_list_update split: option.splits)
  have lf: "vfs_ns_find_child scmp a n False s = None" for n using leaf by (simp add: vfs_ns_find_child_def)
  note w = walk_removed_edge [OF inv p(2,4) lf ed]
  have "ns_view scmp s' = (ns_view scmp s)(norm_comps path := map_option (\<lambda>a. ns_attrs (s' ! a)) None)"
  proof (rule view_of_walk [OF inv w])
    fix y qs
    assume "qs \<noteq> norm_comps path" "ns_walk scmp False s 0 qs = Some y"
    then have "y \<noteq> a" using walk_unique [OF inv p(2)] by metis
    then show "ns_attrs (s' ! y) = ns_attrs (s ! y)" by (simp add: s')
  qed
  then show ?thesis using at(1) s'(2) by simp
qed

lemma dest_parent_Inr:
  assumes "dest_parent scmp p s = Inr (nm, q)"
  obtains ds where "norm_comps p = ds @ [nm]" "ns_walk scmp False s 0 ds = Some q" "n_is_dir (s ! q)" "canon_comp nm"
proof -
  have "norm_comps p \<noteq> []" using assms parent_root by (auto simp: dest_parent_def split: option.splits)
  then obtain ds c where cs: "norm_comps p = ds @ [c]" by (cases "norm_comps p" rule: rev_cases) auto
  note k = canon_norm_snoc [OF cs]
  have "nm = c" "ns_walk scmp False s 0 ds = Some q" "n_is_dir (s ! q)"
    using assms k norm_comps_dir [of ds]
    by (auto simp: dest_parent_def parent_norm [OF cs] basename_norm [OF cs] lookup_node_walk canon_comp_def split: option.splits if_splits)
  then show ?thesis using that cs k by blast
qed

lemma dest_parent_Inl: "dest_parent scmp p s = Inl e \<Longrightarrow> e < 0"
  by (auto simp: dest_parent_def split: option.splits if_splits)

text \<open>The state of a rename between removing the node from its directory and linking it again.\<close>

lemma rename_steps:
  assumes inv: "ns_inv scmp s"
    and prep: "vfs_namespace_rename_prepare scmp mounts b cred oldpath newpath oc1 nc1 s = (1, port, old_norm, new_norm, True)"
    and commit: "vfs_namespace_rename_commit scmp old_norm new_norm s = (0, effs, s')"
  obtains os oc ds nm a p q s2 where
    "norm_comps oldpath = os @ [oc]" "ns_walk scmp False s 0 os = Some p" "ns_walk scmp False s 0 (os @ [oc]) = Some a"
    "norm_comps newpath = ds @ [nm]" "ns_walk scmp False s 0 ds = Some q" "n_is_dir (s ! q)" "ns_walk scmp False s 0 (ds @ [nm]) = None"
    "s' = vfs_ns_link_child scmp q a s2" "ns_inv scmp s2" "length s2 = length s"
    "\<forall>x n. x < length s \<longrightarrow> vfs_ns_find_child scmp x n True s2
        = (if x = p \<and> n = oc then None else vfs_ns_find_child scmp x n True s)"
    "n_name (s2 ! a) = nm" "n_parent (s2 ! a) = Some q"
    "\<forall>y. n_deleted (s2 ! y) = n_deleted (s ! y) \<and> ns_attrs (s2 ! y) = ns_attrs (s ! y)" "\<forall>y. y \<noteq> a \<longrightarrow> n_name (s2 ! y) = n_name (s ! y)"
proof -
  define on where "on = vfs_path_normalize oldpath VFS_PATH_MAX"
  define nn where "nn = vfs_path_normalize newpath VFS_PATH_MAX"
  have nc: "norm_comps on = norm_comps oldpath" "norm_comps nn = norm_comps newpath" by (simp_all add: on_def nn_def norm_norm)
  have pr: "old_norm = on" "new_norm = nn" "norm_comps oldpath \<noteq> []" "ns_walk scmp False s 0 (norm_comps newpath) = None"
    using prep by (auto simp: vfs_namespace_rename_prepare_def Let_def on_def [symmetric] nn_def [symmetric] lookup_node_walk nc is_root_comps
        split: if_splits option.splits sum.splits)
  obtain a nm q where cm: "ns_walk scmp False s 0 (norm_comps oldpath) = Some a" "dest_parent scmp nn s = Inr (nm, q)"
      "s' = vfs_ns_link_child scmp q a ((vfs_ns_detach a s)[a := (vfs_ns_detach a s ! a)\<lparr>n_name := take 63 nm, n_parent := Some q\<rparr>])"
    using commit by (auto simp: vfs_namespace_rename_commit_def pr lookup_node_walk nc Let_def split: option.splits sum.splits dest: dest_parent_Inl)
  obtain ds where ds: "norm_comps nn = ds @ [nm]" "ns_walk scmp False s 0 ds = Some q" "n_is_dir (s ! q)" "canon_comp nm"
    by (rule dest_parent_Inr [OF cm(2)])
  obtain os oc where os: "norm_comps oldpath = os @ [oc]" using pr(3) by (cases "norm_comps oldpath" rule: rev_cases) auto
  obtain p where p: "ns_walk scmp False s 0 os = Some p" "p < length s" "n_parent (s ! a) = Some p" "n_name (s ! a) = oc" "a \<noteq> 0" "a < length s"
    by (rule walk_last [OF inv cm(1) [unfolded os]])
  have fa: "vfs_ns_find_child scmp p oc False s = Some a" using cm(1) p(1) by (simp add: os walk_snoc)
  then have ap: "a \<in> set (n_children (s ! p))" using find_child_iff [OF inv p(2)] by auto
  have ne: "a \<noteq> p" using walk_unique [OF inv cm(1) [unfolded os], of False os] p(1) by auto
  note d = detach_node [OF inv p(2) ap ne]
  define s1 where "s1 = vfs_ns_detach a s"
  define m where "m = (s1 ! a)\<lparr>n_name := take 63 nm, n_parent := Some q\<rparr>"
  define s2 where "s2 = s1[a := m]"
  have orphan: "\<forall>x < length s1. a \<notin> set (n_children (s1 ! x))" using d(2,4) by (simp add: s1_def)
  have m: "length (n_name m) \<le> 63" "n_children m = n_children (s1 ! a)" "n_deleted m = n_deleted (s1 ! a)" "n_is_dir m = n_is_dir (s1 ! a)"
      "n_mount_covered m = n_mount_covered (s1 ! a)"
    by (simp_all add: m_def)
  have al: "a < length s1" using p(6) d(2) by (simp add: s1_def)
  note o = orphan_update [OF d(1) [folded s1_def] al p(5) orphan m, folded s2_def]
  have hit: "vfs_ns_find_child scmp x n True s = Some a \<longleftrightarrow> x = p \<and> n = oc" if "x < length s" for x n
    using find_child_iff [OF inv that, of n True a] ns_invD(2) [OF inv that, of a] p(3,4) ap by auto
  have T: "vfs_ns_find_child scmp x n True s2 = (if x = p \<and> n = oc then None else vfs_ns_find_child scmp x n True s)" if "x < length s" for x n
    using o(2) [of x n] d(2) d(3) [OF that, of n] hit [OF that, of n] that by (simp add: s1_def)
  have "nm = take 63 nm" using ds(4) by (simp add: canon_comp_def)
  then have s2a: "n_name (s2 ! a) = nm" "n_parent (s2 ! a) = Some q" using al by (simp_all add: s2_def m_def)
  have at: "s2 ! y = (if y = a then m else s1 ! y)" for y using al by (simp add: s2_def nth_list_update)
  have keep: "n_deleted (s2 ! y) = n_deleted (s ! y) \<and> ns_attrs (s2 ! y) = ns_attrs (s ! y)" "y \<noteq> a \<Longrightarrow> n_name (s2 ! y) = n_name (s ! y)" for y
    using d(5) [of y] d(5) [of a] by (auto simp: at m_def ns_attrs_def s1_def)
  show ?thesis
    by (rule that [OF os p(1) cm(1) [unfolded os] ds(1) [unfolded nc] ds(2,3) _ _ o(1) _ _ s2a])
      (use pr(4) ds(1) cm(3) d(2) T keep in \<open>simp_all add: nc s2_def m_def s1_def\<close>)
qed

lemma rename_view:
  assumes inv: "ns_inv scmp s"
    and prep: "vfs_namespace_rename_prepare scmp mounts b cred oldpath newpath oc1 nc1 s = (1, port, old_norm, new_norm, True)"
    and commit: "vfs_namespace_rename_commit scmp old_norm new_norm s = (0, effs, s')"
    and fresh: "vfs_ns_lookup_node scmp newpath True s = None" and out: "\<not> prefix (norm_comps oldpath) (norm_comps newpath)"
  shows "ns_inv scmp s' \<and> (\<forall>qs. ns_view scmp s' qs =
    (if prefix (norm_comps newpath) qs then ns_view scmp s (norm_comps oldpath @ drop (length (norm_comps newpath)) qs)
     else if prefix (norm_comps oldpath) qs then None else ns_view scmp s qs))"
proof -
  obtain os oc ds nm a p q s2 where r:
    "norm_comps oldpath = os @ [oc]" "ns_walk scmp False s 0 os = Some p" "ns_walk scmp False s 0 (os @ [oc]) = Some a"
    "norm_comps newpath = ds @ [nm]" "ns_walk scmp False s 0 ds = Some q" "n_is_dir (s ! q)" "ns_walk scmp False s 0 (ds @ [nm]) = None"
    "s' = vfs_ns_link_child scmp q a s2" "ns_inv scmp s2" "length s2 = length s"
    "\<forall>x n. x < length s \<longrightarrow> vfs_ns_find_child scmp x n True s2 = (if x = p \<and> n = oc then None else vfs_ns_find_child scmp x n True s)"
    "n_name (s2 ! a) = nm" "n_parent (s2 ! a) = Some q"
    "\<forall>y. n_deleted (s2 ! y) = n_deleted (s ! y) \<and> ns_attrs (s2 ! y) = ns_attrs (s ! y)" "\<forall>y. y \<noteq> a \<longrightarrow> n_name (s2 ! y) = n_name (s ! y)"
    by (rule rename_steps [OF inv prep commit])
  have valid: "ns_walk scmp False s 0 us = Some x \<Longrightarrow> x < length s" for us x by (rule walk_valid [OF inv inv_root [OF inv]])
  have l: "q < length s" "a < length s" using valid r(3,5) by auto
  have q: "q < length s2" "n_is_dir (s2 ! q)" "\<not> n_deleted (s2 ! q)"
    using l r(6,10) r(14) [rule_format, of q] walk_live [OF inv r(5)] by (simp_all add: ns_attrs_def)
  have a: "a < length s2" "a \<noteq> 0" using l r(10) walk_unique [OF inv r(3), of False "[]"] by auto
  have "vfs_ns_find_child scmp q nm True s = None"
    using fresh walk_True [OF inv inv_root [OF inv] r(5)] by (simp add: lookup_node_walk r(4) walk_snoc)
  then have fr: "vfs_ns_find_child scmp q (n_name (s2 ! a)) True s2 = None" using r(11) [rule_format, OF l(1)] r(12) by simp
  note at = attach_child [OF r(9) q a r(13) fr, folded r(8), unfolded r(12)]
  have del: "n_deleted (s' ! y) = n_deleted (s ! y)" "ns_attrs (s' ! y) = ns_attrs (s ! y)" for y
    using r(14) [rule_format, of y] q(1) by (auto simp: r(8) vfs_ns_link_child_def nth_list_update ns_attrs_def)
  have len: "length s' = length s" using r(8,10) by (simp add: vfs_ns_link_child_def)
  have ed: "vfs_ns_find_child scmp x n False s' = (if x = q \<and> n = nm then Some a else if x = p \<and> n = oc then None else vfs_ns_find_child scmp x n False s)"
    if "x < length s" for x n
    using find_by_True [OF at(1), of x n False] find_by_True [OF inv that, of n False] at(2) [of x n] r(11) [rule_format, OF that, of n] that len r(10) del walk_live [OF inv r(3)]
    by (cases "x = q \<and> n = nm"; cases "x = p \<and> n = oc"; cases "vfs_ns_find_child scmp x n True s") auto
  note w = walk_moved_edge [OF inv r(3,2,5,7) out [unfolded r(1,4)] ed]
  have "ns_view scmp s' qs = (if prefix (norm_comps newpath) qs then ns_view scmp s (norm_comps oldpath @ drop (length (norm_comps newpath)) qs)
     else if prefix (norm_comps oldpath) qs then None else ns_view scmp s qs)" for qs
    using w [of qs] del(2) by (simp add: ns_view_def r(1,4))
  then show ?thesis using at(1) by blast
qed

text \<open>Walks that lose a whole subtree.\<close>

lemma walk_cut_edge:
  assumes inv: "ns_inv scmp s" and src: "ns_walk scmp False s 0 os = Some p"
    and edges: "\<And>us x n. ns_walk scmp False s 0 us = Some x \<Longrightarrow> \<not> prefix (os @ [oc]) us \<Longrightarrow> vfs_ns_find_child scmp x n False s'
        = (if x = p \<and> n = oc then None else vfs_ns_find_child scmp x n False s)"
  shows "ns_walk scmp False s' 0 qs = (if prefix (os @ [oc]) qs then None else ns_walk scmp False s 0 qs)"
proof (induction qs rule: rev_induct)
  case (snoc n qs)
  show ?case
  proof (cases "prefix (os @ [oc]) qs")
    case True
    then show ?thesis using snoc.IH by (simp add: walk_snoc)
  next
    case False
    show ?thesis
    proof (cases "ns_walk scmp False s 0 qs")
      case None
      then show ?thesis using snoc.IH False by (auto simp: walk_snoc)
    next
      case (Some x)
      have "x = p \<longleftrightarrow> qs = os" using walk_unique [OF inv Some, of False os] src Some by auto
      then show ?thesis using snoc.IH False Some edges [OF Some False, of n] by (auto simp: walk_snoc prefix_snoc)
    qed
  qed
qed simp

lemma find_child_other:
  assumes "x \<noteq> q" "q < length s"
  shows "vfs_ns_find_child scmp x n del (s[q := (s ! q)\<lparr>n_children := cs\<rparr>]) = vfs_ns_find_child scmp x n del s"
proof -
  have f: "n_name (s[q := (s ! q)\<lparr>n_children := cs\<rparr>] ! c) = n_name (s ! c)" "n_deleted (s[q := (s ! q)\<lparr>n_children := cs\<rparr>] ! c) = n_deleted (s ! c)"
      "n_in_cpio (s[q := (s ! q)\<lparr>n_children := cs\<rparr>] ! c) = n_in_cpio (s ! c)" "n_overlay (s[q := (s ! q)\<lparr>n_children := cs\<rparr>] ! c) = n_overlay (s ! c)" for c
    using assms(2) by (auto simp: nth_list_update)
  show ?thesis using assms by (simp add: vfs_ns_find_child_def vfs_ns_child_visible_def f split: option.splits)
qed

lemma rename_loses:
  assumes inv: "ns_inv scmp s"
    and prep: "vfs_namespace_rename_prepare scmp mounts b cred oldpath newpath oc1 nc1 s = (1, port, old_norm, new_norm, True)"
    and commit: "vfs_namespace_rename_commit scmp old_norm new_norm s = (0, effs, s')"
    and bad: "vfs_ns_lookup_node scmp newpath True s \<noteq> None \<or> prefix (norm_comps oldpath) (norm_comps newpath)"
  shows "ns_view scmp s' qs = (if prefix (norm_comps oldpath) qs then None else ns_view scmp s qs)"
proof -
  obtain os oc ds nm a p q s2 where r:
    "norm_comps oldpath = os @ [oc]" "ns_walk scmp False s 0 os = Some p" "ns_walk scmp False s 0 (os @ [oc]) = Some a"
    "norm_comps newpath = ds @ [nm]" "ns_walk scmp False s 0 ds = Some q" "n_is_dir (s ! q)" "ns_walk scmp False s 0 (ds @ [nm]) = None"
    "s' = vfs_ns_link_child scmp q a s2" "ns_inv scmp s2" "length s2 = length s"
    "\<forall>x n. x < length s \<longrightarrow> vfs_ns_find_child scmp x n True s2 = (if x = p \<and> n = oc then None else vfs_ns_find_child scmp x n True s)"
    "n_name (s2 ! a) = nm" "n_parent (s2 ! a) = Some q"
    "\<forall>y. n_deleted (s2 ! y) = n_deleted (s ! y) \<and> ns_attrs (s2 ! y) = ns_attrs (s ! y)" "\<forall>y. y \<noteq> a \<longrightarrow> n_name (s2 ! y) = n_name (s ! y)"
    by (rule rename_steps [OF inv prep commit])
  have valid: "ns_walk scmp False s 0 us = Some x \<Longrightarrow> x < length s" for us x by (rule walk_valid [OF inv inv_root [OF inv]])
  have q: "q < length s" using valid r(5) by auto
  have two: "vfs_ns_find_child scmp x n False s2 = (if x = p \<and> n = oc then None else vfs_ns_find_child scmp x n False s)" if "x < length s" for x n
    using find_by_True [OF r(9), of x n False] find_by_True [OF inv that, of n False] r(11) [rule_format, OF that, of n] that r(10) r(14)
    by (cases "x = p \<and> n = oc"; cases "vfs_ns_find_child scmp x n True s") auto
  have same: "vfs_ns_find_child scmp x n False s' = vfs_ns_find_child scmp x n False s2"
    if us: "ns_walk scmp False s 0 us = Some x" "\<not> prefix (os @ [oc]) us" for us x n
  proof (cases "x = q")
    case False
    then show ?thesis using find_child_other [of x q s2] q r(10) by (simp add: r(8) vfs_ns_link_child_def)
  next
    case True
    then have ud: "us = ds" using walk_unique [OF inv us(1)] r(5) by blast
    have out: "\<not> prefix (norm_comps oldpath) (norm_comps newpath)"
      using us(2) r(3,7) by (auto simp: r(1,4) ud prefix_snoc)
    then have "vfs_ns_find_child scmp q nm True s \<noteq> None"
      using bad walk_True [OF inv inv_root [OF inv] r(5)] by (simp add: lookup_node_walk r(4) walk_snoc)
    moreover have "\<not> (q = p \<and> nm = oc)" using r(2,3,5,7) by (auto simp: walk_snoc)
    ultimately obtain d where "vfs_ns_find_child scmp q nm True s2 = Some d" using r(11) [rule_format, OF q, of nm] by auto
    then have "d \<in> set (n_children (s2 ! q))" "n_name (s2 ! d) = n_name (s2 ! a)" using find_child_iff [OF r(9)] q r(10,12) by auto
    then have "insert_child scmp s2 a (n_children (s2 ! q)) = n_children (s2 ! q)"
      using insert_child_present [OF ns_invD(1) [OF r(9)]] q r(10) by auto
    then have "s' = s2" by (simp add: r(8) vfs_ns_link_child_def)
    then show ?thesis by simp
  qed
  have "ns_walk scmp False s' 0 qs = (if prefix (os @ [oc]) qs then None else ns_walk scmp False s 0 qs)"
    by (rule walk_cut_edge [OF inv r(2)]) (use same two valid in auto)
  moreover have "ns_attrs (s' ! y) = ns_attrs (s ! y)" for y
    using r(14) q r(10) by (auto simp: r(8) vfs_ns_link_child_def nth_list_update ns_attrs_def)
  ultimately show ?thesis by (auto simp: ns_view_def r(1))
qed

lemma link_view:
  assumes inv: "ns_inv scmp s"
    and prep: "vfs_namespace_link_prepare scmp mounts b cred oldpath newpath oc1 nc1 s = (1, port, old_norm, new_norm, True)"
    and commit: "vfs_namespace_link_commit scmp push_ok mounts b old_norm new_norm s = (0, effs, s')"
    and fresh: "vfs_ns_lookup_node scmp newpath True s = None"
  shows "ns_inv scmp s' \<and> (\<exists>cpio sym md. ns_view scmp s (norm_comps oldpath) = Some (False, True, cpio, sym, md)
     \<and> ns_view scmp s' = (ns_view scmp s)(norm_comps newpath \<mapsto> (False, True, cpio, False, md)))"
proof -
  define on where "on = vfs_path_normalize oldpath VFS_PATH_MAX"
  define nn where "nn = vfs_path_normalize newpath VFS_PATH_MAX"
  have nc: "norm_comps on = norm_comps oldpath" "norm_comps nn = norm_comps newpath" by (simp_all add: on_def nn_def norm_norm)
  obtain a where pr: "old_norm = on" "new_norm = nn" "ns_walk scmp False s 0 (norm_comps oldpath) = Some a" "\<not> n_is_dir (s ! a)" "n_overlay (s ! a)"
    using prep by (auto simp: vfs_namespace_link_prepare_def Let_def on_def [symmetric] nn_def [symmetric] lookup_node_walk nc is_root_comps
        split: if_splits option.splits sum.splits)
  define m where "m nm q = node_zero\<lparr>n_name := take 63 nm, n_parent := Some q, n_deleted := False, n_is_dir := False,
      n_in_cpio := n_in_cpio (s ! a), n_overlay := True, n_mode := n_mode (s ! a)\<rparr>" for nm q
  have al: "a < length s" by (rule walk_valid [OF inv inv_root [OF inv] pr(3)])
  obtain nm q where cm: "dest_parent scmp nn s = Inr (nm, q)" "s' = vfs_ns_link_child scmp q (length s) (s @ [m nm q])"
    using commit al by (auto simp: vfs_namespace_link_commit_def pr lookup_node_walk nc Let_def vfs_ns_alloc_node_def m_def nth_append
        split: option.splits sum.splits if_splits dest: dest_parent_Inl)
  obtain ds where ds: "norm_comps nn = ds @ [nm]" "ns_walk scmp False s 0 ds = Some q" "n_is_dir (s ! q)" "canon_comp nm"
    by (rule dest_parent_Inr [OF cm(1)])
  have nm: "nm \<noteq> []" "length nm \<le> 63" using ds(4) by (simp_all add: canon_comp_def)
  have free: "vfs_ns_find_child scmp q nm True s = None"
    using fresh walk_True [OF inv inv_root [OF inv] ds(2)] ds(1) by (simp add: lookup_node_walk nc walk_snoc)
  have mm: "n_name (m nm q) = nm" "n_parent (m nm q) = Some q" "n_children (m nm q) = []" "\<not> n_mount_covered (m nm q)" "\<not> n_deleted (m nm q)"
    using nm by (simp_all add: m_def node_zero_def)
  note v = new_node_view [OF inv ds(2,3) nm free mm, folded cm(2)]
  have "ns_view scmp s' = (ns_view scmp s)(ds @ [nm] := map_option (\<lambda>a. ns_attrs (s' ! a)) (Some (length s)))"
    by (rule view_of_walk [OF inv v(2)]) (rule v(4))
  moreover have "ns_attrs (s' ! length s) = (False, True, n_in_cpio (s ! a), False, n_mode (s ! a))" using v(3) by (simp add: ns_attrs_def m_def node_zero_def)
  ultimately show ?thesis using v(1) ds(1) pr by (simp add: nc ns_view_def ns_attrs_def)
qed

text \<open>The path rebuilt from the parent chain is the path that leads to the node.\<close>

lemma chain_walk:
  "ns_inv scmp s \<Longrightarrow> ns_walk scmp del s 0 cs = Some a \<Longrightarrow> length cs \<le> depth \<Longrightarrow> ns_chain s depth (Some a) = Some cs"
proof (induction cs arbitrary: a depth rule: rev_induct)
  case (snoc c cs)
  obtain x where x: "ns_walk scmp del s 0 cs = Some x" "n_parent (s ! a) = Some x" "n_name (s ! a) = c" "a \<noteq> 0"
    using walk_last [OF snoc.prems(1,2)] by metis
  obtain d k where d: "depth = Suc d" "a = Suc k" using snoc.prems(3) x(4) by (cases depth; cases a) auto
  have "ns_chain s d (Some x) = Some cs" using snoc.IH [OF snoc.prems(1) x(1)] snoc.prems(3) d by simp
  then show ?case using x(2,3) by (simp add: d)
qed simp

end

lemma join_canon:
  assumes "canon (ds @ [c])" "length (render (ds @ [c])) < VFS_PATH_MAX"
  shows "vfs_path_join (render ds) c VFS_PATH_MAX = Some (render (ds @ [c]))"
proof -
  have c: "canon_comp c" and ds: "canon ds" and n: "length ds < 32" using assms(1) by (auto simp: canon_def)
  have sp: "split_slash c = [c]" using split_slash_mid [of "[c]"] c by (simp add: canon_comp_def)
  have w: "walk ds c = ds @ [c]" using c by (simp add: walk_def sp walk_comp_def canon_comp_def)
  have len: "length (render_dir ds @ c) < VFS_PATH_MAX" using assms(2) by (simp add: render_snoc)
  have "length (render ds) < VFS_PATH_MAX" using len by (auto simp: render_dir_def render_def split: if_splits)
  then have nr: "norm_comps (render ds) = ds" using ds norm_comps_render by blast
  have ns: "slash \<notin> set c" "c \<noteq> ''.''" "c \<noteq> ''..''" using c by (simp_all add: canon_comp_def)
  have t: "take 1 c \<noteq> ''/''" "take 2 c \<noteq> ''./''" "take 3 c \<noteq> ''../''"
    using ns(1) set_take_subset [of 1 c] set_take_subset [of 2 c] set_take_subset [of 3 c] by auto
  have "seg_ok (length ds) (split_slash c)" using c n by (auto simp: sp seg_ok_def canon_comp_def)
  from join_plain_walk [OF ds len this] show ?thesis
    using t ns by (simp add: vfs_path_join_def Let_def normalize_256 nr w)
qed

lemma join_names_canon:
  "canon (ds @ cs) \<Longrightarrow> length (render (ds @ cs)) < VFS_PATH_MAX \<Longrightarrow> join_names (render ds) cs = Some (render (ds @ cs))"
proof (induction cs arbitrary: ds)
  case (Cons c cs)
  have c: "canon (ds @ [c])" using canon_append [of "ds @ [c]" cs] Cons.prems(1) by simp
  have l: "length (render (ds @ [c])) < VFS_PATH_MAX" using Cons.prems(2) by (simp add: length_render weight_def)
  then have "take (VFS_PATH_MAX - 1) (render (ds @ [c])) = render (ds @ [c])" by simp
  then show ?case using join_canon [OF c l] Cons.IH [of "ds @ [c]"] Cons.prems by simp
qed simp

context strcmp_api begin

lemma path_of_walk:
  assumes inv: "ns_inv scmp s" and l: "vfs_ns_lookup_node scmp path del s = Some a"
  shows "vfs_ns_path_of a VFS_PATH_MAX s = Some (vfs_path_normalize path VFS_PATH_MAX)"
proof -
  have w: "ns_walk scmp del s 0 (norm_comps path) = Some a" using l by (simp add: lookup_node_walk)
  show ?thesis
  proof (cases "norm_comps path = []")
    case True
    then show ?thesis using w by (simp add: vfs_ns_path_of_def normalize_256 render_def)
  next
    case False
    have a0: "a \<noteq> 0" using walk_unique [OF inv w, of del "[]"] False by auto
    have "length (norm_comps path) \<le> 32" using canon_norm_comps [of path] by (simp add: canon_def)
    then have "ns_chain s VFS_NS_PATH_DEPTH_MAX (Some a) = Some (norm_comps path)" by (intro chain_walk [OF inv w]) simp
    moreover have "join_names ''/'' (norm_comps path) = Some (render (norm_comps path))"
      using join_names_canon [of "[]" "norm_comps path"] canon_norm_comps [of path] length_render_norm [of path] by (simp add: render_def)
    ultimately show ?thesis using a0 length_render_norm [of path] by (simp add: vfs_ns_path_of_def normalize_256)
  qed
qed

end

section \<open>Properties\<close>

text \<open>C24. Creating a file or a directory refines the update of a map. After \<^verbatim>\<open>mkdir\<close> or \<^verbatim>\<open>create\<close> passed its
  \<^verbatim>\<open>prepare\<close> step with a request to the backend and its \<^verbatim>\<open>commit\<close> succeeded, the tree is well-formed, the
  path, which denoted nothing before, denotes an entry of the writable store with the requested type and permission
  bits, and every other path denotes what it did, also when the name had been unlinked before.\<close>

theorem namespace_create_refines:
  assumes "strcmp_api scmp" "ns_inv scmp s"
    and "(if dir then vfs_namespace_mkdir_prepare scmp mounts b cred path cap s
        else vfs_namespace_create_prepare scmp mounts b cred path cap s) = (1, port, norm, True)"
    and "(if dir then vfs_namespace_mkdir_commit scmp push_ok mounts b norm mode s
        else vfs_namespace_create_commit scmp push_ok mounts b norm mode s) = (0, effs, s')"
  shows "ns_view scmp s (norm_comps path) = None \<and> ns_inv scmp s' \<and>
    (\<exists>sym. ns_view scmp s' = (ns_view scmp s)(norm_comps path \<mapsto>
       (dir, True, False, sym, (mode AND 0x1FF) OR (if dir then MODE_DIR else MODE_REG))))"
  by (rule strcmp_api.create_view [OF assms])

text \<open>Unlinking a file removes exactly its path from the namespace, keeps the tree well-formed and
  drops the cached pages of the file; directories are refused by the \<^verbatim>\<open>prepare\<close> step.\<close>

lemma namespace_unlink_refines:
  assumes "strcmp_api scmp" "ns_inv scmp s"
    and "vfs_namespace_unlink_prepare scmp mounts b cred path cap s = (ret, port, norm, True)"
    and "vfs_namespace_unlink_commit scmp norm s = (0, effs, s')"
  shows "ns_inv scmp s' \<and> effs = [CacheDrop norm] \<and> ns_view scmp s' = (ns_view scmp s)(norm_comps path := None)"
  by (rule strcmp_api.unlink_view [OF assms])

text \<open>C15. Renaming moves a whole subtree: when the new name has no node, not even an unlinked one, and does
  not lie below the old path, every path below the new name denotes what the corresponding path below the old one did,
  nothing is left below the old one, and all other paths are unchanged.\<close>

theorem namespace_rename_moves:
  assumes "strcmp_api scmp" "ns_inv scmp s"
    and "vfs_namespace_rename_prepare scmp mounts b cred oldpath newpath oc nc s = (1, port, old_norm, new_norm, True)"
    and "vfs_namespace_rename_commit scmp old_norm new_norm s = (0, effs, s')"
    and "vfs_ns_lookup_node scmp newpath True s = None" "\<not> prefix (norm_comps oldpath) (norm_comps newpath)"
  shows "ns_inv scmp s' \<and> (\<forall>qs. ns_view scmp s' qs =
    (if prefix (norm_comps newpath) qs then ns_view scmp s (norm_comps oldpath @ drop (length (norm_comps newpath)) qs)
     else if prefix (norm_comps oldpath) qs then None else ns_view scmp s qs))"
  by (rule strcmp_api.rename_view [OF assms])

text \<open>C35. Otherwise the rename loses the subtree, although it passed its checks and returns success: when the new name
  belongs to an unlinked node, \<^verbatim>\<open>vfs_ns_link_child\<close> finds the name and links nothing; when a
  directory is renamed into its own subtree, that subtree is cut off from the root. In both cases everything
  at or below the old path is gone and nothing appears at the new one.\<close>

theorem namespace_rename_loses:
  assumes "strcmp_api scmp" "ns_inv scmp s"
    and "vfs_namespace_rename_prepare scmp mounts b cred oldpath newpath oc nc s = (1, port, old_norm, new_norm, True)"
    and "vfs_namespace_rename_commit scmp old_norm new_norm s = (0, effs, s')"
    and "vfs_ns_lookup_node scmp newpath True s \<noteq> None \<or> prefix (norm_comps oldpath) (norm_comps newpath)"
  shows "ns_view scmp s' qs = (if prefix (norm_comps oldpath) qs then None else ns_view scmp s qs)"
  by (rule strcmp_api.rename_loses [OF assms])

text \<open>A small tree for the examples: a file, an unlinked file and a directory below the root.\<close>

definition demo_tree :: ns where
  "demo_tree =
     [node_zero\<lparr>n_is_dir := True, n_mode := 0x1ED OR MODE_DIR, n_children := [1, 2, 3]\<rparr>,
      node_zero\<lparr>n_name := ''a'', n_parent := Some 0, n_overlay := True, n_mode := 0x1A4 OR MODE_REG\<rparr>,
      node_zero\<lparr>n_name := ''b'', n_parent := Some 0, n_deleted := True, n_mode := 0x1A4 OR MODE_REG\<rparr>,
      node_zero\<lparr>n_name := ''d'', n_parent := Some 0, n_is_dir := True, n_overlay := True, n_mode := 0x1ED OR MODE_DIR\<rparr>]"

definition demo_backends :: vfs_backends where
  "demo_backends = \<lparr>backend_tab = [], root_port = Some ''cpio'', overlay_port = Some ''ramfs'', online_flags = 3, tab_ready = True\<rparr>"

definition demo_cred :: vfs_req_cred where
  "demo_cred = \<lparr>cred_uid = 0, cred_gid = 0\<rparr>"

lemma demo_tree_inv: "ns_inv strncmp demo_tree"
proof -
  have "\<forall>a \<in> set [0, 1, 2, 3]. node_ok strncmp demo_tree a" "n_is_dir (demo_tree ! 0)" "\<not> n_deleted (demo_tree ! 0)" by code_simp+
  moreover have "a < length demo_tree \<Longrightarrow> a \<in> set [0, 1, 2, 3]" for a by (auto simp: demo_tree_def)
  ultimately show ?thesis by (auto simp: ns_inv_def demo_tree_def)
qed

theorem namespace_create_refines_witness:
  "case vfs_namespace_create_commit strncmp (\<lambda>_. True) [] demo_backends ''/d/x'' 0x1A4 demo_tree of (r, effs, s') \<Rightarrow>
     r = 0 \<and> ns_inv strncmp s' \<and> map_option fst (ns_view strncmp s' [''d'', ''x'']) = Some False"
proof -
  obtain r effs s' where c: "vfs_namespace_create_commit strncmp (\<lambda>_. True) [] demo_backends ''/d/x'' 0x1A4 demo_tree = (r, effs, s')"
    by (metis prod_cases3)
  have "fst (vfs_namespace_create_commit strncmp (\<lambda>_. True) [] demo_backends ''/d/x'' 0x1A4 demo_tree) = 0" by code_simp
  then have r: "r = 0" using c by simp
  have p: "vfs_namespace_create_prepare strncmp [] demo_backends demo_cred ''/d/x'' 256 demo_tree = (1, Some ''ramfs'', ''/d/x'', True)"
    by code_simp
  have n: "norm_comps ''/d/x'' = [''d'', ''x'']" by code_simp
  from namespace_create_refines [where dir = False, unfolded if_False, OF strncmp.strcmp_api_axioms demo_tree_inv p c [unfolded r]]
  obtain sym where "ns_inv strncmp s'"
      "ns_view strncmp s' = (ns_view strncmp demo_tree)([''d'', ''x''] \<mapsto> (False, True, False, sym, (0x1A4 AND 0x1FF) OR MODE_REG))"
    unfolding n by blast
  then show ?thesis using c r by auto
qed

theorem namespace_rename_moves_witness:
  "case vfs_namespace_rename_commit strncmp ''/a'' ''/d/x'' demo_tree of (r, effs, s') \<Rightarrow>
     r = 0 \<and> ns_view strncmp s' [''d'', ''x''] = ns_view strncmp demo_tree [''a''] \<and> ns_view strncmp s' [''a''] = None"
proof -
  obtain r effs s' where c: "vfs_namespace_rename_commit strncmp ''/a'' ''/d/x'' demo_tree = (r, effs, s')" by (metis prod_cases3)
  have "fst (vfs_namespace_rename_commit strncmp ''/a'' ''/d/x'' demo_tree) = 0" by code_simp
  then have r: "r = 0" using c by simp
  have p: "vfs_namespace_rename_prepare strncmp [] demo_backends demo_cred ''/a'' ''/d/x'' 256 256 demo_tree
      = (1, Some ''ramfs'', ''/a'', ''/d/x'', True)" by code_simp
  have f: "vfs_ns_lookup_node strncmp ''/d/x'' True demo_tree = None" by code_simp
  have n: "norm_comps ''/a'' = [''a'']" "norm_comps ''/d/x'' = [''d'', ''x'']" by code_simp+
  have o: "\<not> prefix (norm_comps ''/a'') (norm_comps ''/d/x'')" unfolding n by simp
  from namespace_rename_moves [OF strncmp.strcmp_api_axioms demo_tree_inv p c [unfolded r] f o] show ?thesis
    using c r unfolding n by simp
qed

theorem namespace_rename_loses_witness:
  "case vfs_namespace_rename_commit strncmp ''/a'' ''/b'' demo_tree of (r, effs, s') \<Rightarrow>
     r = 0 \<and> ns_view strncmp demo_tree [''a''] \<noteq> None \<and> ns_view strncmp s' [''a''] = None \<and> ns_view strncmp s' [''b''] = None"
proof -
  obtain r effs s' where c: "vfs_namespace_rename_commit strncmp ''/a'' ''/b'' demo_tree = (r, effs, s')" by (metis prod_cases3)
  have "fst (vfs_namespace_rename_commit strncmp ''/a'' ''/b'' demo_tree) = 0" by code_simp
  then have r: "r = 0" using c by simp
  have p: "vfs_namespace_rename_prepare strncmp [] demo_backends demo_cred ''/a'' ''/b'' 256 256 demo_tree
      = (1, Some ''ramfs'', ''/a'', ''/b'', True)" by code_simp
  have f: "vfs_ns_lookup_node strncmp ''/b'' True demo_tree \<noteq> None" by code_simp
  have n: "norm_comps ''/a'' = [''a'']" "ns_view strncmp demo_tree [''a''] \<noteq> None" "ns_view strncmp demo_tree [''b''] = None" by code_simp+
  have "ns_view strncmp s' qs = (if prefix [''a''] qs then None else ns_view strncmp demo_tree qs)" for qs
    using namespace_rename_loses [OF strncmp.strcmp_api_axioms demo_tree_inv p c [unfolded r], of qs] f unfolding n(1) by simp
  then show ?thesis using c r n(2,3) by simp
qed

text \<open>The path that \<^verbatim>\<open>vfs_ns_path_of\<close> rebuilds from the parent pointers of a node, which backends receive, is the
  normalised path with which the node was looked up: the two walks are inverse, within the depth limit of the array.\<close>

lemma path_of_lookup:
  assumes api: "strcmp_api scmp" and inv: "ns_inv scmp s" and l: "vfs_ns_lookup_node scmp path del s = Some a"
  shows "vfs_ns_path_of a VFS_PATH_MAX s = Some (vfs_path_normalize path VFS_PATH_MAX)"
  by (rule strcmp_api.path_of_walk [OF assms])

end
