(* ===== verification/Fd_Table.thy ===== *)
theory Fd_Table
  imports Vfs_Handle Pipe
begin

text \<open>
  The per-process file descriptor table (\<^verbatim>\<open>linux_layer/fs/linux_fd_table.c\<close>), the creation of pipes
  (\<^verbatim>\<open>linux_pipe_create2\<close>), path resolution relative to a descriptor (\<^verbatim>\<open>linux_vfs_path.c\<close>) and the
  descriptor system calls of \<^verbatim>\<open>sys_fs_impl.c\<close> and \<^verbatim>\<open>sys_fcntl.c\<close>.

  The table is a header (current directory, capacity) and an array of entries, kept in a
  \<^verbatim>\<open>page_slice\<close> of the core; here it is the list of its entries, whose length is the capacity. Loads
  and stores inside the capacity succeed, as all their pages were allocated; growth takes a Boolean
  for its outcome, and new entries are zero. A process has \<^verbatim>\<open>fs == NULL\<close> (\<open>None\<close>), a state without a
  table (\<open>Some None\<close>) or a table.

  Entries refer to the two other components that count references: handles of the VFS server
  (\<open>Vfs_Handle\<close>, reached by a request that the server answers with \<^verbatim>\<open>vfs_handle_close\<close> or
  \<^verbatim>\<open>vfs_handle_retain\<close>) and pipe slots (\<open>Pipe\<close>). They form the \<open>fs_world\<close> shared by all processes.
\<close>

section \<open>Definitions\<close>

datatype linux_fd_kind =
  LINUX_FD_NONE | LINUX_FD_CONSOLE_IN | LINUX_FD_CONSOLE_OUT | LINUX_FD_CONSOLE_ERR | LINUX_FD_VFS | LINUX_FD_PIPE

record linux_fd_entry =
  kind :: linux_fd_kind
  vfs_handle :: nat
  open_flags :: u32
  fd_flags :: u32
  is_dir :: bool
  pipe_read :: bool
  vfs_abs_path :: string

record fd_table =
  cwd :: string
  fds :: "linux_fd_entry list"

type_synonym fs_ptr = "fd_table option option"

record fs_world =
  w_pipes :: pipes
  w_handles :: handle_tab

abbreviation LINUX_FS_FD_INIT_CAP :: nat where "LINUX_FS_FD_INIT_CAP \<equiv> 128"
abbreviation LINUX_FS_SLICE_FD_GROW :: nat where "LINUX_FS_SLICE_FD_GROW \<equiv> 64"
abbreviation LINUX_FD_CLOEXEC :: u32 where "LINUX_FD_CLOEXEC \<equiv> 1"
abbreviation LINUX_O_APPEND :: u32 where "LINUX_O_APPEND \<equiv> 0x400"
abbreviation LINUX_O_NONBLOCK :: u32 where "LINUX_O_NONBLOCK \<equiv> 0x800"
abbreviation LINUX_O_DIRECTORY :: u32 where "LINUX_O_DIRECTORY \<equiv> 0x10000"
abbreviation LINUX_O_CLOEXEC :: u32 where "LINUX_O_CLOEXEC \<equiv> 0x80000"
abbreviation LINUX_AT_FDCWD :: int where "LINUX_AT_FDCWD \<equiv> -100"

definition fd_zero :: linux_fd_entry where
  "fd_zero = \<lparr>kind = LINUX_FD_NONE, vfs_handle = 0, open_flags = 0, fd_flags = 0, is_dir = False, pipe_read = False, vfs_abs_path = []\<rparr>"

subsection \<open>Storage\<close>

definition linux_fs_fd_capacity :: "fd_table \<Rightarrow> nat" where
  "linux_fs_fd_capacity t = length (fds t)"

definition linux_fs_entry_load :: "fd_table \<Rightarrow> int \<Rightarrow> linux_fd_entry option" where
  "linux_fs_entry_load t fd =
     (if fd < 0 then None else if nat fd < length (fds t) then Some (fds t ! nat fd) else None)"

definition linux_fs_entry_store :: "fd_table \<Rightarrow> int \<Rightarrow> linux_fd_entry \<Rightarrow> fd_table" where
  "linux_fs_entry_store t fd ent = t\<lparr>fds := (fds t)[nat fd := ent]\<rparr>"

definition linux_fs_table_create :: "bool \<Rightarrow> nat \<Rightarrow> fd_table option" where
  "linux_fs_table_create create_ok cap =
     (if cap = 0 \<or> \<not> create_ok then None else Some \<lparr>cwd = ''/'', fds = replicate cap fd_zero\<rparr>)"

definition linux_fs_grow_fd_cap :: "bool \<Rightarrow> nat \<Rightarrow> fd_table \<Rightarrow> fd_table option" where
  "linux_fs_grow_fd_cap grow_ok new_cap t =
     (if new_cap = 0 then None
      else if new_cap \<le> length (fds t) then Some t
      else if grow_ok then Some (t\<lparr>fds := fds t @ replicate (new_cap - length (fds t)) fd_zero\<rparr>) else None)"

definition linux_fs_cwd :: "fd_table option \<Rightarrow> string" where
  "linux_fs_cwd to = (case to of None \<Rightarrow> ''/'' | Some t \<Rightarrow> take (VFS_PATH_MAX - 1) (cwd t))"

definition linux_fs_set_cwd :: "string \<Rightarrow> fd_table \<Rightarrow> fd_table" where
  "linux_fs_set_cwd path t = t\<lparr>cwd := take (VFS_PATH_MAX - 1) path\<rparr>"

definition linux_fd_set_vfs_abs_path :: "fd_table \<Rightarrow> int \<Rightarrow> string \<Rightarrow> fd_table" where
  "linux_fd_set_vfs_abs_path t fd path =
     (if fd < 0 \<or> linux_fs_fd_capacity t \<le> nat fd then t
      else case linux_fs_entry_load t fd of
        None \<Rightarrow> t
      | Some ent \<Rightarrow> linux_fs_entry_store t fd (ent\<lparr>vfs_abs_path := take (VFS_PATH_MAX - 1) path\<rparr>))"

definition linux_fd_set_is_dir :: "fd_table \<Rightarrow> int \<Rightarrow> bool \<Rightarrow> fd_table" where
  "linux_fd_set_is_dir t fd d =
     (if fd < 0 \<or> linux_fs_fd_capacity t \<le> nat fd then t
      else case linux_fs_entry_load t fd of
        None \<Rightarrow> t
      | Some ent \<Rightarrow> linux_fs_entry_store t fd (ent\<lparr>is_dir := d\<rparr>))"

definition linux_fs_dir_path_store :: "fd_table \<Rightarrow> int \<Rightarrow> string \<Rightarrow> int \<times> fd_table" where
  "linux_fs_dir_path_store t fd path =
     (if fd < 0 then (- LINUX_EINVAL, t)
      else if linux_fs_fd_capacity t \<le> nat fd then (- LINUX_EINVAL, t)
      else (0, linux_fd_set_is_dir (linux_fd_set_vfs_abs_path t fd path) fd True))"

definition linux_fs_dir_path_release :: "fd_table \<Rightarrow> int \<Rightarrow> fd_table" where
  "linux_fs_dir_path_release t fd =
     (case linux_fs_entry_load t fd of
        None \<Rightarrow> t
      | Some ent \<Rightarrow> if \<not> is_dir ent then t else linux_fs_entry_store t fd (ent\<lparr>vfs_abs_path := []\<rparr>))"

definition linux_fs_dir_path_lookup :: "fd_table \<Rightarrow> int \<Rightarrow> string option" where
  "linux_fs_dir_path_lookup t fd =
     (case linux_fs_entry_load t fd of
        None \<Rightarrow> None
      | Some ent \<Rightarrow> if \<not> is_dir ent \<or> vfs_abs_path ent = [] then None
                    else Some (take (VFS_PATH_MAX - 1) (vfs_abs_path ent)))"

definition linux_fs_dir_path_dup :: "fd_table \<Rightarrow> int \<Rightarrow> int \<Rightarrow> fd_table" where
  "linux_fs_dir_path_dup t oldfd newfd =
     (if oldfd = newfd then t
      else case linux_fs_entry_load t oldfd of
        None \<Rightarrow> linux_fs_dir_path_release t newfd
      | Some oldent \<Rightarrow>
          if \<not> is_dir oldent \<or> vfs_abs_path oldent = [] then linux_fs_dir_path_release t newfd
          else linux_fs_entry_store t newfd oldent)"

subsection \<open>References to handles and pipes\<close>

definition linux_fs_release_vfs_handle :: "nat \<Rightarrow> fs_world \<Rightarrow> fs_world" where
  "linux_fs_release_vfs_handle handle w =
     (if handle \<noteq> 0 then w\<lparr>w_handles := snd (vfs_handle_close handle (w_handles w))\<rparr> else w)"

definition linux_fs_retain_vfs_handle :: "nat \<Rightarrow> fs_world \<Rightarrow> fs_world" where
  "linux_fs_retain_vfs_handle handle w =
     (if handle \<noteq> 0 then w\<lparr>w_handles := snd (vfs_handle_retain handle (w_handles w))\<rparr> else w)"

definition pipe_closed :: "nat \<Rightarrow> bool \<Rightarrow> fs_world \<Rightarrow> fs_world" where
  "pipe_closed i r w = w\<lparr>w_pipes := linux_pipe_fd_closed i r (w_pipes w)\<rparr>"

definition pipe_retain :: "nat \<Rightarrow> bool \<Rightarrow> fs_world \<Rightarrow> fs_world" where
  "pipe_retain i r w = w\<lparr>w_pipes := linux_pipe_fork_retain i r (w_pipes w)\<rparr>"

definition release_fd :: "nat \<Rightarrow> fd_table \<times> fs_world \<Rightarrow> fd_table \<times> fs_world" where
  "release_fd i tw = (case tw of (t, w) \<Rightarrow>
     (case linux_fs_entry_load t (int i) of
        None \<Rightarrow> (t, w)
      | Some ent \<Rightarrow>
          if kind ent = LINUX_FD_PIPE then (t, pipe_closed (vfs_handle ent) (pipe_read ent) w)
          else if kind ent \<noteq> LINUX_FD_VFS \<or> vfs_handle ent = 0 then (t, w)
          else (if is_dir ent then linux_fs_dir_path_release t (int i) else t,
                linux_fs_release_vfs_handle (vfs_handle ent) w)))"

definition linux_fs_release_open_resources :: "fd_table \<Rightarrow> fs_world \<Rightarrow> fd_table \<times> fs_world" where
  "linux_fs_release_open_resources t w = fold release_fd [0..<linux_fs_fd_capacity t] (t, w)"

definition retain_fd :: "fd_table \<Rightarrow> nat \<Rightarrow> fs_world \<Rightarrow> fs_world" where
  "retain_fd t i w =
     (case linux_fs_entry_load t (int i) of
        None \<Rightarrow> w
      | Some ent \<Rightarrow>
          if kind ent = LINUX_FD_PIPE then pipe_retain (vfs_handle ent) (pipe_read ent) w
          else if kind ent \<noteq> LINUX_FD_VFS \<or> vfs_handle ent = 0 then w
          else linux_fs_retain_vfs_handle (vfs_handle ent) w)"

definition linux_fs_fork_retain_resources :: "fd_table \<Rightarrow> fs_world \<Rightarrow> fs_world" where
  "linux_fs_fork_retain_resources t w = fold (retain_fd t) [0..<linux_fs_fd_capacity t] w"

subsection \<open>Life cycle of the table\<close>

definition linux_fs_init_state :: "bool \<Rightarrow> error_t \<times> fd_table option" where
  "linux_fs_init_state create_ok =
     (case linux_fs_table_create create_ok LINUX_FS_FD_INIT_CAP of
        None \<Rightarrow> (REND_ERR E_REND_NO_MEM, None)
      | Some t \<Rightarrow>
          let t0 = linux_fs_entry_store t 0 (fd_zero\<lparr>kind := LINUX_FD_CONSOLE_IN\<rparr>);
              t1 = linux_fs_entry_store t0 1 (fd_zero\<lparr>kind := LINUX_FD_CONSOLE_OUT\<rparr>);
              t2 = linux_fs_entry_store t1 2 (fd_zero\<lparr>kind := LINUX_FD_CONSOLE_ERR\<rparr>) in
          (REND_SUCCESS, Some t2))"

definition linux_fs_proc_attach :: "bool \<Rightarrow> bool \<Rightarrow> fs_ptr \<Rightarrow> error_t \<times> fs_ptr" where
  "linux_fs_proc_attach alloc_ok create_ok pa =
     (case pa of
        Some _ \<Rightarrow> (case linux_fs_init_state create_ok of (e, t) \<Rightarrow> (e, Some t))
      | None \<Rightarrow>
          if \<not> alloc_ok then (REND_ERR E_RENDEZVOS, None)
          else case linux_fs_init_state create_ok of
            (REND_SUCCESS, t) \<Rightarrow> (REND_SUCCESS, Some t)
          | (REND_ERR e, t) \<Rightarrow> (REND_ERR e, None))"

definition linux_fs_proc_release_for_exit :: "fs_ptr \<times> fs_world \<Rightarrow> fs_ptr \<times> fs_world" where
  "linux_fs_proc_release_for_exit pw = (case pw of
     (Some (Some t), w) \<Rightarrow> (case linux_fs_release_open_resources t w of (t1, w1) \<Rightarrow> (Some (Some t1), w1))
   | _ \<Rightarrow> pw)"

definition linux_fs_proc_reset :: "bool \<Rightarrow> bool \<Rightarrow> fs_ptr \<times> fs_world \<Rightarrow> fs_ptr \<times> fs_world" where
  "linux_fs_proc_reset alloc_ok create_ok pw = (case pw of
     (None, w) \<Rightarrow> (snd (linux_fs_proc_attach alloc_ok create_ok None), w)
   | (Some None, w) \<Rightarrow> (Some None, w)
   | (Some (Some t), w) \<Rightarrow>
       (case linux_fs_release_open_resources t w of
          (t1, w1) \<Rightarrow> (Some (snd (linux_fs_init_state create_ok)), w1)))"

definition linux_fs_proc_destroy :: "fs_ptr \<times> fs_world \<Rightarrow> fs_ptr \<times> fs_world" where
  "linux_fs_proc_destroy pw = (case pw of
     (None, w) \<Rightarrow> (None, w)
   | (Some None, w) \<Rightarrow> (None, w)
   | (Some (Some t), w) \<Rightarrow> (None, snd (linux_fs_release_open_resources t w)))"

definition linux_fs_fork_copy_state :: "bool \<Rightarrow> fd_table \<Rightarrow> fs_world \<Rightarrow> error_t \<times> fd_table option \<times> fs_world" where
  "linux_fs_fork_copy_state clone_ok parent w =
     (if \<not> clone_ok then (REND_ERR E_REND_NO_MEM, None, w)
      else (REND_SUCCESS, Some parent, linux_fs_fork_retain_resources parent w))"

definition linux_fs_proc_fork :: "bool \<Rightarrow> bool \<Rightarrow> fs_ptr \<Rightarrow> fs_ptr \<Rightarrow> fs_world \<Rightarrow> error_t \<times> fs_ptr \<times> fs_world" where
  "linux_fs_proc_fork alloc_ok clone_ok child parent w =
     (if \<not> alloc_ok then (REND_ERR E_RENDEZVOS, None, w)
      else case (case parent of
                   Some (Some pt) \<Rightarrow> linux_fs_fork_copy_state clone_ok pt w
                 | _ \<Rightarrow> (case linux_fs_init_state clone_ok of (e, t) \<Rightarrow> (e, t, w))) of
        (REND_SUCCESS, t, w1) \<Rightarrow> (REND_SUCCESS, Some t, w1)
      | (REND_ERR e, t, w1) \<Rightarrow> (REND_ERR e, None, w1))"

subsection \<open>Descriptors\<close>

definition linux_fs_handle_in_use :: "fd_table \<Rightarrow> nat \<Rightarrow> bool" where
  "linux_fs_handle_in_use t handle \<longleftrightarrow>
     handle \<noteq> 0 \<and> list_ex (\<lambda>ent. kind ent = LINUX_FD_VFS \<and> vfs_handle ent = handle) (fds t)"

definition linux_fd_get :: "fd_table \<Rightarrow> int \<Rightarrow> linux_fd_entry option" where
  "linux_fd_get t fd =
     (if fd < 0 then None
      else if linux_fs_fd_capacity t \<le> nat fd then None
      else case linux_fs_entry_load t fd of
        None \<Rightarrow> None
      | Some ent \<Rightarrow> if kind ent = LINUX_FD_NONE then None else Some ent)"

fun scan_free :: "linux_fd_entry list \<Rightarrow> nat \<Rightarrow> int" where
  "scan_free [] fd = -1"
| "scan_free (ent # ents) fd = (if kind ent = LINUX_FD_NONE then int fd else scan_free ents (fd + 1))"

definition linux_fd_find_free :: "fd_table \<Rightarrow> int" where
  "linux_fd_find_free t = scan_free (fds t) 0"

definition linux_fd_alloc :: "bool \<Rightarrow> linux_fd_entry \<Rightarrow> fd_table \<Rightarrow> int \<times> fd_table" where
  "linux_fd_alloc grow_ok ent t =
     (let fd = linux_fd_find_free t in
      if 0 \<le> fd then (fd, linux_fs_entry_store t fd ent)
      else case linux_fs_grow_fd_cap grow_ok (linux_fs_fd_capacity t + LINUX_FS_SLICE_FD_GROW) t of
        None \<Rightarrow> (-1, t)
      | Some t1 \<Rightarrow>
          let fd1 = linux_fd_find_free t1 in
          if fd1 < 0 then (-1, t1) else (fd1, linux_fs_entry_store t1 fd1 ent))"

definition linux_fd_find_free_from :: "fd_table \<Rightarrow> int \<Rightarrow> int" where
  "linux_fd_find_free_from t minfd = (if minfd < 0 then -1 else scan_free (drop (nat minfd) (fds t)) (nat minfd))"

definition linux_fd_lowest_free_from :: "bool \<Rightarrow> int \<Rightarrow> fd_table \<Rightarrow> int \<times> fd_table" where
  "linux_fd_lowest_free_from grow_ok minfd t =
     (if minfd < 0 then (-1, t)
      else case (if linux_fs_fd_capacity t \<le> nat minfd then linux_fs_grow_fd_cap grow_ok (nat minfd + 1) t else Some t) of
        None \<Rightarrow> (-1, t)
      | Some t1 \<Rightarrow>
          let fd = linux_fd_find_free_from t1 minfd in
          if 0 \<le> fd then (fd, t1)
          else case linux_fs_grow_fd_cap grow_ok (linux_fs_fd_capacity t1 + LINUX_FS_SLICE_FD_GROW) t1 of
            None \<Rightarrow> (-1, t1)
          | Some t2 \<Rightarrow> (linux_fd_find_free_from t2 minfd, t2))"

definition linux_fd_store :: "fd_table \<Rightarrow> int \<Rightarrow> linux_fd_entry \<Rightarrow> fd_table option" where
  "linux_fd_store t fd ent =
     (if fd < 0 \<or> linux_fs_fd_capacity t \<le> nat fd then None else Some (linux_fs_entry_store t fd ent))"

definition clear_entry :: "linux_fd_entry \<Rightarrow> linux_fd_entry" where
  "clear_entry ent = ent\<lparr>kind := LINUX_FD_NONE, vfs_handle := 0, open_flags := 0, fd_flags := 0,
     is_dir := False, pipe_read := False, vfs_abs_path := []\<rparr>"

definition linux_fd_close :: "int \<Rightarrow> fd_table \<times> fs_world \<Rightarrow> int \<times> fd_table \<times> fs_world" where
  "linux_fd_close fd tw = (case tw of (t, w) \<Rightarrow>
     if fd < 0 then (- LINUX_EBADF, t, w)
     else if linux_fs_fd_capacity t \<le> nat fd then (- LINUX_EBADF, t, w)
     else case linux_fs_entry_load t fd of
       None \<Rightarrow> (- LINUX_EBADF, t, w)
     | Some ent \<Rightarrow>
         if kind ent = LINUX_FD_NONE then (- LINUX_EBADF, t, w)
         else let handle = vfs_handle ent in
           if kind ent = LINUX_FD_VFS then
             let t1 = (if is_dir ent then linux_fs_dir_path_release t fd else t);
                 t2 = linux_fs_entry_store t1 fd (clear_entry ent) in
             (0, t2, if handle \<noteq> 0 \<and> \<not> linux_fs_handle_in_use t2 handle then linux_fs_release_vfs_handle handle w else w)
           else
             let w1 = (if kind ent = LINUX_FD_PIPE then pipe_closed handle (pipe_read ent) w else w) in
             (0, linux_fs_entry_store t fd (clear_entry ent), w1))"

definition linux_fd_dup2 :: "bool \<Rightarrow> int \<Rightarrow> int \<Rightarrow> fd_table \<times> fs_world \<Rightarrow> int \<times> fd_table \<times> fs_world" where
  "linux_fd_dup2 grow_ok oldfd newfd tw = (case tw of (t, w) \<Rightarrow>
     if oldfd < 0 \<or> newfd < 0 then (- LINUX_EBADF, t, w)
     else if oldfd = newfd then (if linux_fd_get t oldfd = None then - LINUX_EBADF else newfd, t, w)
     else case (if linux_fs_fd_capacity t \<le> nat newfd then linux_fs_grow_fd_cap grow_ok (nat newfd + 1) t else Some t) of
       None \<Rightarrow> (- LINUX_EBADF, t, w)
     | Some t1 \<Rightarrow>
         if linux_fs_fd_capacity t1 \<le> nat oldfd then (- LINUX_EBADF, t1, w)
         else case (linux_fs_entry_load t1 oldfd, linux_fs_entry_load t1 newfd) of
           (Some oldent, Some newent) \<Rightarrow>
             if kind oldent = LINUX_FD_NONE then (- LINUX_EBADF, t1, w)
             else
               let w1 = (if kind newent = LINUX_FD_PIPE then pipe_closed (vfs_handle newent) (pipe_read newent) w else w);
                   replaced_handle = (if kind newent = LINUX_FD_VFS then vfs_handle newent else 0);
                   ent = oldent\<lparr>fd_flags := fd_flags oldent AND NOT LINUX_FD_CLOEXEC\<rparr>;
                   t2 = linux_fs_entry_store t1 newfd ent;
                   t3 = (if is_dir ent then linux_fs_dir_path_dup t2 oldfd newfd else linux_fs_dir_path_release t2 newfd);
                   w2 = (if kind ent = LINUX_FD_VFS \<and> vfs_handle ent \<noteq> 0 then linux_fs_retain_vfs_handle (vfs_handle ent) w1
                         else if kind ent = LINUX_FD_PIPE then pipe_retain (vfs_handle ent) (pipe_read ent) w1 else w1);
                   w3 = (if replaced_handle \<noteq> 0 \<and> \<not> linux_fs_handle_in_use t3 replaced_handle
                         then linux_fs_release_vfs_handle replaced_handle w2 else w2) in
               (newfd, t3, w3)
         | _ \<Rightarrow> (- LINUX_EBADF, t1, w))"

subsection \<open>Pipes, path resolution and system calls\<close>

text \<open>\<open>store_ok\<close>: whether the pair of descriptors can be copied to the user. The pair is returned.\<close>

definition linux_pipe_create2 ::
  "bool \<Rightarrow> bool \<Rightarrow> bool \<Rightarrow> u32 \<Rightarrow> fd_table \<times> fs_world \<Rightarrow> int \<times> (int \<times> int) option \<times> fd_table \<times> fs_world" where
  "linux_pipe_create2 alloc_ok grow_ok store_ok flags tw = (case tw of (t, w) \<Rightarrow>
     if flags AND NOT (LINUX_O_CLOEXEC OR LINUX_O_NONBLOCK) \<noteq> 0 then (- LINUX_EINVAL, None, t, w)
     else
       let fdf = (if flags AND LINUX_O_CLOEXEC \<noteq> 0 then LINUX_FD_CLOEXEC else 0);
           opf = (if flags AND LINUX_O_NONBLOCK \<noteq> 0 then LINUX_O_NONBLOCK else 0);
           (pipe_id, ps) = linux_pipe_alloc_slot alloc_ok (w_pipes w);
           w1 = w\<lparr>w_pipes := ps\<rparr> in
       if LINUX_PIPE_MAX \<le> pipe_id then (- LINUX_EMFILE, None, t, w1)
       else
         let read_ent = fd_zero\<lparr>kind := LINUX_FD_PIPE, vfs_handle := pipe_id, pipe_read := True, open_flags := opf, fd_flags := fdf\<rparr>;
             write_ent = read_ent\<lparr>pipe_read := False\<rparr>;
             (read_fd, t1) = linux_fd_alloc grow_ok read_ent t in
         if read_fd < 0 then (- LINUX_EMFILE, None, t1, w1\<lparr>w_pipes := linux_pipe_free_slot pipe_id (w_pipes w1)\<rparr>)
         else let (write_fd, t2) = linux_fd_alloc grow_ok write_ent t1 in
           if write_fd < 0 then
             (case linux_fd_close read_fd (t2, w1) of
                (_, t3, w2) \<Rightarrow> (- LINUX_EMFILE, None, t3, w2\<lparr>w_pipes := linux_pipe_free_slot pipe_id (w_pipes w2)\<rparr>))
           else if \<not> store_ok then
             (case linux_fd_close write_fd (t2, w1) of
                (_, t3, w2) \<Rightarrow> (case linux_fd_close read_fd (t3, w2) of (_, t4, w3) \<Rightarrow> (- LINUX_EFAULT, None, t4, w3)))
           else (0, Some (read_fd, write_fd), t2, w1))"

text \<open>The request that validates a directory is the argument \<open>validate_dir\<close>.\<close>

definition linux_vfs_resolve_path ::
  "(string \<Rightarrow> int) \<Rightarrow> int \<Rightarrow> string \<Rightarrow> nat \<Rightarrow> fs_ptr \<Rightarrow> (int + string) \<times> fs_ptr" where
  "linux_vfs_resolve_path validate_dir dirfd path out_cap pa =
     (if out_cap = 0 then (Inl (- LINUX_EINVAL), pa)
      else case pa of
        None \<Rightarrow> (Inl (- LINUX_ESRCH), pa)
      | Some to \<Rightarrow>
          if path \<noteq> [] \<and> hd path = slash then (Inr (vfs_path_normalize path out_cap), pa)
          else
            let finish = (\<lambda>base. case vfs_path_join base path VFS_PATH_MAX of
                    None \<Rightarrow> Inl (- LINUX_EINVAL)
                  | Some joined \<Rightarrow> Inr (vfs_path_normalize joined out_cap)) in
            if dirfd = LINUX_AT_FDCWD then (finish (linux_fs_cwd to), pa)
            else case Option.bind to (\<lambda>t. map_option (\<lambda>e. (t, e)) (linux_fd_get t dirfd)) of
              None \<Rightarrow> (Inl (- LINUX_EBADF), pa)
            | Some (t, dent) \<Rightarrow>
                if kind dent \<noteq> LINUX_FD_VFS then (Inl (- LINUX_ENOTDIR), pa)
                else
                  let probe = (if vfs_abs_path dent = [] then linux_fs_dir_path_lookup t dirfd else Some (vfs_abs_path dent));
                      t1 = (case probe of
                              Some pr \<Rightarrow>
                                if \<not> is_dir dent \<and> pr \<noteq> [] \<and> validate_dir pr = 0 then
                                  let ta = linux_fd_set_is_dir t dirfd True in
                                  if vfs_abs_path dent = [] then linux_fd_set_vfs_abs_path ta dirfd pr else ta
                                else t
                            | None \<Rightarrow> t) in
                  case linux_fd_get t1 dirfd of
                    None \<Rightarrow> (Inl (- LINUX_ENOTDIR), Some (Some t1))
                  | Some d1 \<Rightarrow>
                      if \<not> is_dir d1 then (Inl (- LINUX_ENOTDIR), Some (Some t1))
                      else case (if vfs_abs_path d1 \<noteq> [] then Some (vfs_abs_path d1) else linux_fs_dir_path_lookup t1 dirfd) of
                        None \<Rightarrow> (Inl (- LINUX_EBADF), Some (Some t1))
                      | Some dp \<Rightarrow> if dp = [] then (Inl (- LINUX_EBADF), Some (Some t1))
                                   else (finish (take (VFS_PATH_MAX - 1) dp), Some (Some t1)))"

definition sys_dup :: "bool \<Rightarrow> int \<Rightarrow> fd_table \<times> fs_world \<Rightarrow> int \<times> fd_table \<times> fs_world" where
  "sys_dup grow_ok fd tw = (case tw of (t, w) \<Rightarrow>
     (case linux_fd_lowest_free_from grow_ok 0 t of
        (newfd, t1) \<Rightarrow> if newfd < 0 then (- LINUX_EMFILE, t1, w) else linux_fd_dup2 grow_ok fd newfd (t1, w)))"

definition set_cloexec :: "int \<Rightarrow> int \<times> fd_table \<times> fs_world \<Rightarrow> int \<times> fd_table \<times> fs_world" where
  "set_cloexec newfd r = (case r of (ret, t, w) \<Rightarrow>
     (case linux_fd_get t newfd of
        None \<Rightarrow> (- LINUX_EBADF, t, w)
      | Some ent \<Rightarrow>
          (case linux_fd_store t newfd (ent\<lparr>fd_flags := fd_flags ent OR LINUX_FD_CLOEXEC\<rparr>) of
             None \<Rightarrow> (- LINUX_EBADF, t, w)
           | Some t1 \<Rightarrow> (ret, t1, w))))"

definition sys_dup3 :: "bool \<Rightarrow> int \<Rightarrow> int \<Rightarrow> u32 \<Rightarrow> fd_table \<times> fs_world \<Rightarrow> int \<times> fd_table \<times> fs_world" where
  "sys_dup3 grow_ok oldfd newfd flags tw =
     (if flags AND NOT LINUX_O_CLOEXEC \<noteq> 0 then (- LINUX_EINVAL, tw)
      else if oldfd = newfd then (- LINUX_EINVAL, tw)
      else let r = linux_fd_dup2 grow_ok oldfd newfd tw in
        if fst r < 0 then r
        else if flags AND LINUX_O_CLOEXEC \<noteq> 0 then set_cloexec newfd r else r)"

definition sys_fcntl :: "bool \<Rightarrow> int \<Rightarrow> int \<Rightarrow> u64 \<Rightarrow> fd_table \<times> fs_world \<Rightarrow> int \<times> fd_table \<times> fs_world" where
  "sys_fcntl grow_ok fd cmd arg tw = (case tw of (t, w) \<Rightarrow>
     (case linux_fd_get t fd of
        None \<Rightarrow> (- LINUX_EBADF, t, w)
      | Some ent \<Rightarrow>
          if cmd = 1 then (uint (fd_flags ent AND LINUX_FD_CLOEXEC), t, w)
          else if cmd = 2 then
            (case linux_fd_store t fd (ent\<lparr>fd_flags := ucast arg AND LINUX_FD_CLOEXEC\<rparr>) of
               None \<Rightarrow> (- LINUX_EBADF, t, w) | Some t1 \<Rightarrow> (0, t1, w))
          else if cmd = 3 then (uint (open_flags ent), t, w)
          else if cmd = 4 then
            (let m = LINUX_O_APPEND OR LINUX_O_NONBLOCK in
             case linux_fd_store t fd (ent\<lparr>open_flags := (open_flags ent AND NOT m) OR (ucast arg AND m)\<rparr>) of
               None \<Rightarrow> (- LINUX_EBADF, t, w) | Some t1 \<Rightarrow> (0, t1, w))
          else if cmd = 0 \<or> cmd = 1030 then
            (if sint arg < 0 \<or> 0x7fffffff < arg then (- LINUX_EINVAL, t, w)
             else case linux_fd_lowest_free_from grow_ok (uint arg) t of
               (newfd, t1) \<Rightarrow>
                 if newfd < 0 then (- LINUX_EMFILE, t1, w)
                 else let r = linux_fd_dup2 grow_ok fd newfd (t1, w) in
                   if fst r < 0 then r else if cmd = 1030 then set_cloexec newfd r else r)
          else (- LINUX_EINVAL, t, w)))"

section \<open>Counting references\<close>

text \<open>What the entries of a table refer to, and what the shared components have counted.\<close>

definition refers_pipe :: "nat \<Rightarrow> bool \<Rightarrow> linux_fd_entry \<Rightarrow> bool" where
  "refers_pipe i r e \<longleftrightarrow> kind e = LINUX_FD_PIPE \<and> vfs_handle e = i \<and> pipe_read e = r"

definition refers_handle :: "nat \<Rightarrow> linux_fd_entry \<Rightarrow> bool" where
  "refers_handle h e \<longleftrightarrow> kind e = LINUX_FD_VFS \<and> vfs_handle e = h"

definition pipe_fds :: "fd_table \<Rightarrow> nat \<Rightarrow> bool \<Rightarrow> nat" where
  "pipe_fds t i r = length (filter (refers_pipe i r) (fds t))"

definition handle_fds :: "fd_table \<Rightarrow> nat \<Rightarrow> nat" where
  "handle_fds t h = length (filter (refers_handle h) (fds t))"

definition ends :: "fs_world \<Rightarrow> nat \<Rightarrow> bool \<Rightarrow> nat" where
  "ends w i r = (case w_pipes w i of None \<Rightarrow> 0 | Some p \<Rightarrow> if r then p_readers p else p_writers p)"

abbreviation hrefs :: "fs_world \<Rightarrow> nat \<Rightarrow> nat" where
  "hrefs w \<equiv> handle_refs (w_handles w)"

definition world_ok :: "fs_world \<Rightarrow> bool" where
  "world_ok w \<longleftrightarrow> pipes_inv (w_pipes w) \<and> handle_inv (w_handles w)"

lemma length_filter_update:
  "i < length xs \<Longrightarrow> length (filter P (xs[i := x])) + of_bool (P (xs ! i)) = length (filter P xs) + of_bool (P x)"
proof (induction xs arbitrary: i)
  case (Cons y ys)
  show ?case
  proof (cases i)
    case (Suc j)
    then show ?thesis using Cons.IH [of j] Cons.prems by simp
  qed simp
qed simp

lemma pipe_fds_store:
  "nat fd < length (fds t) \<Longrightarrow>
   pipe_fds (linux_fs_entry_store t fd e) i r + of_bool (refers_pipe i r (fds t ! nat fd)) = pipe_fds t i r + of_bool (refers_pipe i r e)"
  by (simp add: pipe_fds_def linux_fs_entry_store_def length_filter_update)

lemma handle_fds_store:
  "nat fd < length (fds t) \<Longrightarrow>
   handle_fds (linux_fs_entry_store t fd e) h + of_bool (refers_handle h (fds t ! nat fd)) = handle_fds t h + of_bool (refers_handle h e)"
  by (simp add: handle_fds_def linux_fs_entry_store_def length_filter_update)

lemma fds_store_same:
  assumes "nat fd < length (fds t)" "kind e = kind (fds t ! nat fd)" "vfs_handle e = vfs_handle (fds t ! nat fd)"
    "pipe_read e = pipe_read (fds t ! nat fd)"
  shows "pipe_fds (linux_fs_entry_store t fd e) = pipe_fds t" "handle_fds (linux_fs_entry_store t fd e) = handle_fds t"
proof -
  have "refers_pipe i r e = refers_pipe i r (fds t ! nat fd)" "refers_handle h e = refers_handle h (fds t ! nat fd)" for i r h
    using assms by (simp_all add: refers_pipe_def refers_handle_def)
  then show "pipe_fds (linux_fs_entry_store t fd e) = pipe_fds t" "handle_fds (linux_fs_entry_store t fd e) = handle_fds t"
    using pipe_fds_store [OF assms(1), of e] handle_fds_store [OF assms(1), of e] by (auto simp: fun_eq_iff)
qed

lemma handle_fds_zero: "linux_fs_handle_in_use t h \<longleftrightarrow> h \<noteq> 0 \<and> 0 < handle_fds t h"
  by (auto simp: linux_fs_handle_in_use_def handle_fds_def list_ex_iff filter_empty_conv refers_handle_def)

lemma release_handle_refs:
  assumes "world_ok w" "h \<noteq> 0"
  shows "world_ok (linux_fs_release_vfs_handle h w)"
    and "hrefs (linux_fs_release_vfs_handle h w) = (hrefs w)(h := hrefs w h - 1)"
    and "w_pipes (linux_fs_release_vfs_handle h w) = w_pipes w"
proof -
  have i: "handle_inv (w_handles w)" using assms(1) by (simp add: world_ok_def)
  show "world_ok (linux_fs_release_vfs_handle h w)"
    using assms handles.close_inv [OF i] by (simp add: world_ok_def linux_fs_release_vfs_handle_def)
  show "hrefs (linux_fs_release_vfs_handle h w) = (hrefs w)(h := hrefs w h - 1)"
    using assms(2) handles.close_ok [OF i, of h] handles.close_bad [OF i, of h]
    by (cases "hrefs w h = 0") (auto simp: linux_fs_release_vfs_handle_def fun_upd_idem)
qed (simp add: linux_fs_release_vfs_handle_def)

lemma retain_handle_refs:
  assumes "world_ok w" "0 < hrefs w h" "hrefs w h < 0xffffffff"
  shows "world_ok (linux_fs_retain_vfs_handle h w)"
    and "hrefs (linux_fs_retain_vfs_handle h w) = (hrefs w)(h := hrefs w h + 1)"
    and "w_pipes (linux_fs_retain_vfs_handle h w) = w_pipes w"
proof -
  have i: "handle_inv (w_handles w)" using assms(1) by (simp add: world_ok_def)
  obtain r where r: "vfs_handle_get h (w_handles w) = Some r" using handle_refs_pos [OF i] assms(2) by auto
  have h: "h \<noteq> 0" using handle_get_SomeD [OF r] by simp
  have "fst (vfs_handle_retain h (w_handles w)) = 0"
    using r assms(3) by (simp add: vfs_handle_retain_def handle_refs_def)
  from handles.retain_ok [OF i this]
  show "hrefs (linux_fs_retain_vfs_handle h w) = (hrefs w)(h := hrefs w h + 1)"
    using h by (simp add: linux_fs_retain_vfs_handle_def)
  show "world_ok (linux_fs_retain_vfs_handle h w)"
    using assms handles.retain_inv [OF i] h by (simp add: world_ok_def linux_fs_retain_vfs_handle_def)
qed (simp add: linux_fs_retain_vfs_handle_def)

lemma ends_posE:
  assumes "0 < ends w i r"
  obtains p where "w_pipes w i = Some p" "if r then 0 < p_readers p else 0 < p_writers p"
  using assms by (auto simp: ends_def split: option.splits if_splits)

lemma pipe_closed_ends:
  assumes ok: "world_ok w" and pos: "0 < ends w i r"
  shows "world_ok (pipe_closed i r w)"
    and "ends (pipe_closed i r w) j q = ends w j q - of_bool (j = i \<and> q = r)"
    and "w_handles (pipe_closed i r w) = w_handles w"
proof -
  obtain p where p: "w_pipes w i = Some p" "if r then 0 < p_readers p else 0 < p_writers p" by (rule ends_posE [OF pos])
  have inv: "pipes_inv (w_pipes w)" using ok by (simp add: world_ok_def)
  have i: "i < LINUX_PIPE_MAX" "slot_ok p" using pipes_invD [OF inv p(1)] by simp_all
  note eff = fd_closed_effect [OF inv p]
  have "pipes_inv (linux_pipe_fd_closed i r (w_pipes w))"
    unfolding eff by (rule pipes_inv_update [OF inv i(1)]) (use i(2) p(2) in \<open>auto simp: slot_ok_def pipe_ok_def split: if_splits\<close>)
  then show "world_ok (pipe_closed i r w)" using ok by (simp add: world_ok_def pipe_closed_def)
  show "ends (pipe_closed i r w) j q = ends w j q - of_bool (j = i \<and> q = r)"
    using p by (auto simp: ends_def pipe_closed_def eff)
qed (simp add: pipe_closed_def)

lemma pipe_retain_ends:
  assumes ok: "world_ok w" and pos: "w_pipes w i \<noteq> None"
  shows "world_ok (pipe_retain i r w)"
    and "ends (pipe_retain i r w) j q = ends w j q + of_bool (j = i \<and> q = r)"
    and "w_handles (pipe_retain i r w) = w_handles w"
proof -
  obtain p where p: "w_pipes w i = Some p" using pos by blast
  have inv: "pipes_inv (w_pipes w)" using ok by (simp add: world_ok_def)
  have i: "i < LINUX_PIPE_MAX" "slot_ok p" using pipes_invD [OF inv p] by simp_all
  let ?p1 = "if r then p\<lparr>p_refcnt := p_refcnt p + 1, p_readers := p_readers p + 1\<rparr>
      else p\<lparr>p_refcnt := p_refcnt p + 1, p_writers := p_writers p + 1\<rparr>"
  have eff: "linux_pipe_fork_retain i r (w_pipes w) = (w_pipes w)(i := Some ?p1)"
    using p i by (simp add: linux_pipe_fork_retain_def linux_pipe_from_id_def Let_def)
  have "pipes_inv ((w_pipes w)(i := Some ?p1))"
    by (rule pipes_inv_update [OF inv i(1)]) (use i(2) in \<open>auto simp: slot_ok_def pipe_ok_def\<close>)
  then show "world_ok (pipe_retain i r w)" using ok by (simp add: world_ok_def pipe_retain_def eff)
  show "ends (pipe_retain i r w) j q = ends w j q + of_bool (j = i \<and> q = r)"
    using p by (auto simp: ends_def pipe_retain_def eff)
qed (simp add: pipe_retain_def)

lemma ends_pipe: "0 < ends w i r \<Longrightarrow> w_pipes w i \<noteq> None"
  by (auto simp: ends_def split: option.splits)

text \<open>A table whose references are all counted.\<close>

definition covered :: "fd_table \<Rightarrow> fs_world \<Rightarrow> bool" where
  "covered t w \<longleftrightarrow> (\<forall>i r. pipe_fds t i r \<le> ends w i r) \<and> (\<forall>h. h \<noteq> 0 \<longrightarrow> handle_fds t h \<le> hrefs w h)"

lemma entry_counted:
  assumes "covered t w" "fd < length (fds t)"
  shows "kind (fds t ! fd) = LINUX_FD_PIPE \<Longrightarrow> 0 < ends w (vfs_handle (fds t ! fd)) (pipe_read (fds t ! fd))"
    and "kind (fds t ! fd) = LINUX_FD_VFS \<Longrightarrow> vfs_handle (fds t ! fd) \<noteq> 0 \<Longrightarrow> 0 < hrefs w (vfs_handle (fds t ! fd))"
proof -
  have m: "fds t ! fd \<in> set (fds t)" using assms(2) by simp
  show "0 < ends w (vfs_handle (fds t ! fd)) (pipe_read (fds t ! fd))" if "kind (fds t ! fd) = LINUX_FD_PIPE"
  proof -
    have "0 < pipe_fds t (vfs_handle (fds t ! fd)) (pipe_read (fds t ! fd))"
      using m that by (auto simp: pipe_fds_def filter_empty_conv refers_pipe_def)
    then show ?thesis using assms(1) by (meson covered_def order_less_le_trans)
  qed
  show "0 < hrefs w (vfs_handle (fds t ! fd))" if "kind (fds t ! fd) = LINUX_FD_VFS" "vfs_handle (fds t ! fd) \<noteq> 0"
  proof -
    have "0 < handle_fds t (vfs_handle (fds t ! fd))" using m that by (auto simp: handle_fds_def filter_empty_conv refers_handle_def)
    then show ?thesis using assms(1) that by (meson covered_def order_less_le_trans)
  qed
qed

text \<open>Releasing the directory path changes no reference.\<close>

lemma dir_path_release_fds:
  "pipe_fds (linux_fs_dir_path_release t fd) = pipe_fds t" "handle_fds (linux_fs_dir_path_release t fd) = handle_fds t"
  "length (fds (linux_fs_dir_path_release t fd)) = length (fds t)"
  "k < length (fds t) \<Longrightarrow> kind (fds (linux_fs_dir_path_release t fd) ! k) = kind (fds t ! k)"
  "k < length (fds t) \<Longrightarrow> vfs_handle (fds (linux_fs_dir_path_release t fd) ! k) = vfs_handle (fds t ! k)"
  "k < length (fds t) \<Longrightarrow> pipe_read (fds (linux_fs_dir_path_release t fd) ! k) = pipe_read (fds t ! k)"
proof -
  consider "linux_fs_dir_path_release t fd = t"
    | "0 \<le> fd" "nat fd < length (fds t)" "linux_fs_dir_path_release t fd = linux_fs_entry_store t fd ((fds t ! nat fd)\<lparr>vfs_abs_path := []\<rparr>)"
    by (cases "0 \<le> fd \<and> nat fd < length (fds t) \<and> is_dir (fds t ! nat fd)")
      (auto simp: linux_fs_dir_path_release_def linux_fs_entry_load_def)
  note c = this
  show "pipe_fds (linux_fs_dir_path_release t fd) = pipe_fds t" by (rule c) (simp_all add: fds_store_same)
  show "handle_fds (linux_fs_dir_path_release t fd) = handle_fds t" by (rule c) (simp_all add: fds_store_same)
  show "length (fds (linux_fs_dir_path_release t fd)) = length (fds t)"
    by (rule c) (simp_all add: linux_fs_entry_store_def)
  show "k < length (fds t) \<Longrightarrow> kind (fds (linux_fs_dir_path_release t fd) ! k) = kind (fds t ! k)"
    "k < length (fds t) \<Longrightarrow> vfs_handle (fds (linux_fs_dir_path_release t fd) ! k) = vfs_handle (fds t ! k)"
    "k < length (fds t) \<Longrightarrow> pipe_read (fds (linux_fs_dir_path_release t fd) ! k) = pipe_read (fds t ! k)"
    by (rule c; simp add: linux_fs_entry_store_def nth_list_update)+
qed

text \<open>
  The bookkeeping law of an operation on one table: the pipe ends counted and the ends its entries
  hold change by the same amount, and handle counts never fall below what the entries hold. It is
  stated without subtraction, so that it composes and other tables are framed away.
\<close>

definition balanced :: "fd_table \<times> fs_world \<Rightarrow> fd_table \<times> fs_world \<Rightarrow> bool" where
  "balanced a b \<longleftrightarrow> (case (a, b) of ((t, w), (t', w')) \<Rightarrow> world_ok w'
     \<and> (\<forall>i r. ends w' i r + pipe_fds t i r = ends w i r + pipe_fds t' i r)
     \<and> (\<forall>h. h \<noteq> 0 \<longrightarrow> hrefs w h + handle_fds t' h \<le> hrefs w' h + handle_fds t h))"

lemma balanced_same: "world_ok w \<Longrightarrow> pipe_fds t' = pipe_fds t \<Longrightarrow> handle_fds t' = handle_fds t \<Longrightarrow> balanced (t, w) (t', w)"
  by (simp add: balanced_def)

lemma balanced_trans: "balanced a b \<Longrightarrow> balanced b c \<Longrightarrow> balanced a c"
  unfolding balanced_def by (auto split: prod.splits) (smt (verit) add.assoc add.commute add_left_imp_eq, smt (verit) add.assoc add.commute add_le_cancel_left add_le_mono)?

lemma clear_entry_kind [simp]: "kind (clear_entry e) = LINUX_FD_NONE"
  by (simp add: clear_entry_def)

lemma clear_entry_refers [simp]: "\<not> refers_pipe i r (clear_entry e)" "\<not> refers_handle h (clear_entry e)"
  by (simp_all add: refers_pipe_def refers_handle_def clear_entry_def)

lemma close_balanced:
  assumes ok: "world_ok w" and cov: "covered t w" and run: "linux_fd_close fd (t, w) = (ret, t', w')"
  shows "balanced (t, w) (t', w')"
proof (cases "0 \<le> fd \<and> nat fd < length (fds t) \<and> kind (fds t ! nat fd) \<noteq> LINUX_FD_NONE")
  case False
  then have "t' = t" "w' = w"
    using run by (auto simp: linux_fd_close_def linux_fs_fd_capacity_def linux_fs_entry_load_def not_le split: if_splits)
  then show ?thesis using ok by (simp add: balanced_same)
next
  case True
  define e where "e = fds t ! nat fd"
  have n: "nat fd < length (fds t)" and load: "linux_fs_entry_load t fd = Some e" using True by (simp_all add: linux_fs_entry_load_def e_def)
  show ?thesis
  proof (cases "kind e = LINUX_FD_VFS")
    case vfs: True
    define t1 where "t1 = (if is_dir e then linux_fs_dir_path_release t fd else t)"
    define t2 where "t2 = linux_fs_entry_store t1 fd (clear_entry e)"
    have t1: "pipe_fds t1 = pipe_fds t" "handle_fds t1 = handle_fds t" "nat fd < length (fds t1)"
        "kind (fds t1 ! nat fd) = LINUX_FD_VFS" "vfs_handle (fds t1 ! nat fd) = vfs_handle e"
      using n vfs by (simp_all add: t1_def dir_path_release_fds e_def)
    have res: "t' = t2" "w' = (if vfs_handle e \<noteq> 0 \<and> \<not> linux_fs_handle_in_use t2 (vfs_handle e)
        then linux_fs_release_vfs_handle (vfs_handle e) w else w)"
      using run True load vfs by (auto simp: linux_fd_close_def linux_fs_fd_capacity_def Let_def t1_def t2_def e_def)
    have p: "pipe_fds t2 i r = pipe_fds t i r" for i r
      using pipe_fds_store [OF t1(3), of "clear_entry e" i r] t1 by (simp add: t2_def refers_pipe_def)
    have h: "handle_fds t2 h + of_bool (h = vfs_handle e) = handle_fds t h" for h
      using handle_fds_store [OF t1(3), of "clear_entry e" h] t1 by (auto simp: t2_def refers_handle_def)
    show ?thesis
    proof (cases "vfs_handle e \<noteq> 0 \<and> \<not> linux_fs_handle_in_use t2 (vfs_handle e)")
      case rel: True
      note r = release_handle_refs [OF ok, of "vfs_handle e"]
      have ends: "ends w' = ends w" using r(3) rel res by (simp add: ends_def fun_eq_iff)
      have "hrefs w x + handle_fds t2 x \<le> hrefs w' x + handle_fds t x" for x
        using r(2) rel res h [of x] by (auto split: if_splits)
      then show ?thesis using r(1) rel res p ends by (simp add: balanced_def)
    next
      case False
      then have "w' = w" using res(2) by auto
      moreover have "handle_fds t2 x \<le> handle_fds t x" for x using h [of x] by linarith
      ultimately show ?thesis using ok p res(1) by (simp add: balanced_def)
    qed
  next
    case novfs: False
    have res: "t' = linux_fs_entry_store t fd (clear_entry e)"
        "w' = (if kind e = LINUX_FD_PIPE then pipe_closed (vfs_handle e) (pipe_read e) w else w)"
      using run True load novfs by (auto simp: linux_fd_close_def linux_fs_fd_capacity_def Let_def e_def)
    have h: "handle_fds t' h = handle_fds t h" for h
      using handle_fds_store [OF n, of "clear_entry e" h] novfs by (simp add: res refers_handle_def e_def)
    have p: "pipe_fds t' i r + of_bool (kind e = LINUX_FD_PIPE \<and> i = vfs_handle e \<and> r = pipe_read e) = pipe_fds t i r" for i r
      using pipe_fds_store [OF n, of "clear_entry e" i r] by (auto simp: res refers_pipe_def e_def)
    show ?thesis
    proof (cases "kind e = LINUX_FD_PIPE")
      case pipe: True
      have pos: "0 < ends w (vfs_handle e) (pipe_read e)" using entry_counted(1) [OF cov n] pipe by (simp add: e_def)
      note c = pipe_closed_ends [OF ok pos]
      have "ends w' i r + pipe_fds t i r = ends w i r + pipe_fds t' i r" for i r
        using c(2) [of i r] p [of i r] pipe pos by (auto simp: res split: if_splits)
      then show ?thesis using c(1,3) h pipe by (simp add: balanced_def res(2))
    next
      case False
      then show ?thesis using ok h p by (simp add: balanced_def res(2))
    qed
  qed
qed

lemma grow_fds:
  assumes "linux_fs_grow_fd_cap g n t = Some t1"
  shows "pipe_fds t1 = pipe_fds t" "handle_fds t1 = handle_fds t" "n \<le> length (fds t1)" "length (fds t) \<le> length (fds t1)"
    "k < length (fds t) \<Longrightarrow> fds t1 ! k = fds t ! k"
  using assms
  by (auto simp: linux_fs_grow_fd_cap_def pipe_fds_def handle_fds_def refers_pipe_def refers_handle_def fd_zero_def nth_append
      fun_eq_iff split: if_splits)

lemma covered_cong: "pipe_fds t' = pipe_fds t \<Longrightarrow> handle_fds t' = handle_fds t \<Longrightarrow> covered t' w = covered t w"
  by (simp add: covered_def)

text \<open>The table after a duplication: the entry at the new descriptor refers to what the old one does.\<close>

lemma dup_entry_fds:
  fixes oldfd newfd :: int and fl :: u32
  assumes fd: "0 \<le> oldfd" "0 \<le> newfd" "oldfd \<noteq> newfd" "nat newfd < length (fds t)" "nat oldfd < length (fds t)"
  defines "ent \<equiv> (fds t ! nat oldfd)\<lparr>fd_flags := fl\<rparr>"
  defines "t2 \<equiv> linux_fs_entry_store t newfd ent"
  defines "t3 \<equiv> if is_dir ent then linux_fs_dir_path_dup t2 oldfd newfd else linux_fs_dir_path_release t2 newfd"
  shows "pipe_fds t3 i r + of_bool (refers_pipe i r (fds t ! nat newfd)) = pipe_fds t i r + of_bool (refers_pipe i r (fds t ! nat oldfd))"
    and "handle_fds t3 h + of_bool (refers_handle h (fds t ! nat newfd)) = handle_fds t h + of_bool (refers_handle h (fds t ! nat oldfd))"
proof -
  have ne: "nat oldfd \<noteq> nat newfd" using fd by simp
  have old: "linux_fs_entry_load t2 oldfd = Some (fds t ! nat oldfd)"
    using fd ne by (simp add: linux_fs_entry_load_def t2_def linux_fs_entry_store_def)
  have n2: "nat newfd < length (fds t2)" "fds t2 ! nat newfd = ent"
    using fd by (simp_all add: t2_def linux_fs_entry_store_def)
  have same: "pipe_fds t3 = pipe_fds t2" "handle_fds t3 = handle_fds t2"
    using fds_store_same [OF n2(1), of "fds t ! nat oldfd"] n2(2) fd(3)
    by (auto simp: t3_def linux_fs_dir_path_dup_def old dir_path_release_fds ent_def)
  have "refers_pipe i r ent = refers_pipe i r (fds t ! nat oldfd)" "refers_handle h ent = refers_handle h (fds t ! nat oldfd)"
    by (simp_all add: ent_def refers_pipe_def refers_handle_def)
  then show "pipe_fds t3 i r + of_bool (refers_pipe i r (fds t ! nat newfd)) = pipe_fds t i r + of_bool (refers_pipe i r (fds t ! nat oldfd))"
    "handle_fds t3 h + of_bool (refers_handle h (fds t ! nat newfd)) = handle_fds t h + of_bool (refers_handle h (fds t ! nat oldfd))"
    using pipe_fds_store [OF fd(4), of ent i r] handle_fds_store [OF fd(4), of ent h] same by (simp_all add: t2_def)
qed

text \<open>The world after a duplication.\<close>

definition dup_world :: "linux_fd_entry \<Rightarrow> linux_fd_entry \<Rightarrow> fd_table \<Rightarrow> fs_world \<Rightarrow> fs_world" where
  "dup_world oldent newent tn w =
     (let w1 = (if kind newent = LINUX_FD_PIPE then pipe_closed (vfs_handle newent) (pipe_read newent) w else w);
          replaced_handle = (if kind newent = LINUX_FD_VFS then vfs_handle newent else 0);
          w2 = (if kind oldent = LINUX_FD_VFS \<and> vfs_handle oldent \<noteq> 0 then linux_fs_retain_vfs_handle (vfs_handle oldent) w1
                else if kind oldent = LINUX_FD_PIPE then pipe_retain (vfs_handle oldent) (pipe_read oldent) w1 else w1) in
      if replaced_handle \<noteq> 0 \<and> \<not> linux_fs_handle_in_use tn replaced_handle
      then linux_fs_release_vfs_handle replaced_handle w2 else w2)"

lemma dup_world_flags: "dup_world (e\<lparr>fd_flags := fl\<rparr>) = dup_world e"
  by (simp add: dup_world_def fun_eq_iff Let_def)

lemma pipe_closed_entry:
  assumes ok: "world_ok w" and pos: "kind e = LINUX_FD_PIPE \<Longrightarrow> 0 < ends w (vfs_handle e) (pipe_read e)"
  defines "w1 \<equiv> if kind e = LINUX_FD_PIPE then pipe_closed (vfs_handle e) (pipe_read e) w else w"
  shows "world_ok w1" "ends w1 i r + of_bool (refers_pipe i r e) = ends w i r" "w_handles w1 = w_handles w"
proof -
  have "world_ok w1 \<and> w_handles w1 = w_handles w \<and> ends w1 i r + of_bool (refers_pipe i r e) = ends w i r"
  proof (cases "kind e = LINUX_FD_PIPE")
    case True
    note c = pipe_closed_ends [OF ok pos [OF True]]
    have "ends (pipe_closed (vfs_handle e) (pipe_read e) w) i r + of_bool (refers_pipe i r e) = ends w i r"
      using c(2) [of i r] pos [OF True] True by (auto simp: refers_pipe_def)
    then show ?thesis using c(1,3) True by (simp add: w1_def)
  next
    case False
    then show ?thesis using ok by (simp add: w1_def refers_pipe_def)
  qed
  then show "world_ok w1" "ends w1 i r + of_bool (refers_pipe i r e) = ends w i r" "w_handles w1 = w_handles w" by simp_all
qed

lemma dup_world_effect:
  assumes ok: "world_ok w"
    and new: "kind newent = LINUX_FD_PIPE \<longrightarrow> 0 < ends w (vfs_handle newent) (pipe_read newent)"
    and old: "kind oldent = LINUX_FD_PIPE \<longrightarrow> of_bool (refers_pipe (vfs_handle oldent) (pipe_read oldent) newent) < ends w (vfs_handle oldent) (pipe_read oldent)"
      "kind oldent = LINUX_FD_VFS \<longrightarrow> vfs_handle oldent \<noteq> 0 \<longrightarrow> 0 < hrefs w (vfs_handle oldent) \<and> hrefs w (vfs_handle oldent) < 0xffffffff"
  shows "world_ok (dup_world oldent newent tn w)"
    and "ends (dup_world oldent newent tn w) i r + of_bool (refers_pipe i r newent) = ends w i r + of_bool (refers_pipe i r oldent)"
    and "h \<noteq> 0 \<Longrightarrow> hrefs (dup_world oldent newent tn w) h = hrefs w h + of_bool (refers_handle h oldent)
        - of_bool (refers_handle h newent \<and> \<not> linux_fs_handle_in_use tn h)"
proof -
  note new = new [rule_format] and old = old [rule_format]
  define w1 where "w1 = (if kind newent = LINUX_FD_PIPE then pipe_closed (vfs_handle newent) (pipe_read newent) w else w)"
  define w2 where "w2 = (if kind oldent = LINUX_FD_VFS \<and> vfs_handle oldent \<noteq> 0 then linux_fs_retain_vfs_handle (vfs_handle oldent) w1
                else if kind oldent = LINUX_FD_PIPE then pipe_retain (vfs_handle oldent) (pipe_read oldent) w1 else w1)"
  define rh where "rh = (if kind newent = LINUX_FD_VFS then vfs_handle newent else 0)"
  have w: "dup_world oldent newent tn w = (if rh \<noteq> 0 \<and> \<not> linux_fs_handle_in_use tn rh then linux_fs_release_vfs_handle rh w2 else w2)"
    by (simp add: dup_world_def w1_def w2_def rh_def Let_def)
  note c = pipe_closed_entry [OF ok new, folded w1_def]
  have p2: "w_pipes w1 (vfs_handle oldent) \<noteq> None" if "kind oldent = LINUX_FD_PIPE"
    using old(1) [OF that] c(2) [of "vfs_handle oldent" "pipe_read oldent"]
    by (intro ends_pipe [of _ _ "pipe_read oldent"]) linarith
  have h1: "0 < hrefs w1 (vfs_handle oldent)" "hrefs w1 (vfs_handle oldent) < 0xffffffff"
    if "kind oldent = LINUX_FD_VFS" "vfs_handle oldent \<noteq> 0"
    using old(2) [OF that] c(3) by simp_all
  note rt = retain_handle_refs [OF c(1) h1]
  note pr = pipe_retain_ends [OF c(1) p2]
  have w2: "world_ok w2" using rt(1) pr(1) c(1) by (simp add: w2_def)
  have e2: "ends w2 i r = ends w1 i r + of_bool (refers_pipe i r oldent)" for i r
    using rt(3) pr(2) by (auto simp: w2_def refers_pipe_def ends_def)
  have r2: "hrefs w2 h = hrefs w h + of_bool (refers_handle h oldent)" if "h \<noteq> 0" for h
    using rt(2) pr(3) c(3) that by (auto simp: w2_def refers_handle_def)
  note rel = release_handle_refs [OF w2, of rh]
  show "world_ok (dup_world oldent newent tn w)" using w2 rel(1) by (simp add: w)
  have "ends (dup_world oldent newent tn w) = ends w2" using rel(3) by (auto simp: w ends_def fun_eq_iff)
  then show "ends (dup_world oldent newent tn w) i r + of_bool (refers_pipe i r newent) = ends w i r + of_bool (refers_pipe i r oldent)"
    using c(2) [of i r] e2 [of i r] by simp
  show "hrefs (dup_world oldent newent tn w) h = hrefs w h + of_bool (refers_handle h oldent)
        - of_bool (refers_handle h newent \<and> \<not> linux_fs_handle_in_use tn h)" if "h \<noteq> 0"
    using r2 [OF that] rel(2) that by (auto simp: w rh_def refers_handle_def)
qed

text \<open>Two different descriptors of one pipe end count as two.\<close>

lemma two_pipe_fds:
  assumes "i < length (fds t)" "j < length (fds t)" "i \<noteq> j" "kind (fds t ! i) = LINUX_FD_PIPE"
  shows "of_bool (refers_pipe (vfs_handle (fds t ! i)) (pipe_read (fds t ! i)) (fds t ! j))
    < pipe_fds t (vfs_handle (fds t ! i)) (pipe_read (fds t ! i))"
proof -
  let ?P = "refers_pipe (vfs_handle (fds t ! i)) (pipe_read (fds t ! i))"
  have "fds t ! i \<in> set ((fds t)[j := fd_zero])" using assms by (metis length_list_update nth_list_update_neq nth_mem)
  moreover have "?P (fds t ! i)" using assms(4) by (simp add: refers_pipe_def)
  ultimately have "0 < length (filter ?P ((fds t)[j := fd_zero]))" by (auto simp: filter_empty_conv)
  moreover have "\<not> ?P fd_zero" by (simp add: refers_pipe_def fd_zero_def)
  ultimately show ?thesis using length_filter_update [OF assms(2), of ?P fd_zero] unfolding pipe_fds_def
    by (simp only: of_bool_eq add_0_right)
qed

definition dup2_room :: "bool \<Rightarrow> int \<Rightarrow> fd_table \<Rightarrow> fd_table option" where
  "dup2_room g newfd t = (if linux_fs_fd_capacity t \<le> nat newfd then linux_fs_grow_fd_cap g (nat newfd + 1) t else Some t)"

lemma dup2_roomD:
  assumes "dup2_room g newfd t = Some t1" "0 \<le> newfd"
  shows "pipe_fds t1 = pipe_fds t" "handle_fds t1 = handle_fds t" "nat newfd < length (fds t1)" "length (fds t) \<le> length (fds t1)"
    "k < length (fds t) \<Longrightarrow> fds t1 ! k = fds t ! k"
  using assms grow_fds [of g "nat newfd + 1" t t1] by (auto simp: dup2_room_def linux_fs_fd_capacity_def split: if_splits)

text \<open>The successful path of \<^verbatim>\<open>dup2\<close>, once the table has room.\<close>

definition dup2_table :: "int \<Rightarrow> int \<Rightarrow> fd_table \<Rightarrow> fd_table" where
  "dup2_table oldfd newfd t =
     (let ent = (fds t ! nat oldfd)\<lparr>fd_flags := fd_flags (fds t ! nat oldfd) AND NOT LINUX_FD_CLOEXEC\<rparr>;
          t2 = linux_fs_entry_store t newfd ent in
      if is_dir ent then linux_fs_dir_path_dup t2 oldfd newfd else linux_fs_dir_path_release t2 newfd)"

lemma dup2_success:
  assumes "0 \<le> oldfd" "0 \<le> newfd" "oldfd \<noteq> newfd" "dup2_room g newfd t = Some t1"
    and "nat oldfd < length (fds t1)" "kind (fds t1 ! nat oldfd) \<noteq> LINUX_FD_NONE"
  shows "linux_fd_dup2 g oldfd newfd (t, w)
    = (newfd, dup2_table oldfd newfd t1, dup_world (fds t1 ! nat oldfd) (fds t1 ! nat newfd) (dup2_table oldfd newfd t1) w)"
proof -
  have "nat newfd < length (fds t1)" by (rule dup2_roomD(3) [OF assms(4,2)])
  then have load: "linux_fs_entry_load t1 oldfd = Some (fds t1 ! nat oldfd)" "linux_fs_entry_load t1 newfd = Some (fds t1 ! nat newfd)"
      "\<not> linux_fs_fd_capacity t1 \<le> nat oldfd" "\<not> (oldfd < 0 \<or> newfd < 0)"
    using assms by (simp_all add: linux_fs_fd_capacity_def linux_fs_entry_load_def)
  show ?thesis
    unfolding dup_world_flags [where e = "fds t1 ! nat oldfd" and fl = "fd_flags (fds t1 ! nat oldfd) AND NOT LINUX_FD_CLOEXEC", symmetric]
      linux_fd_dup2_def dup2_room_def [symmetric] prod.case assms(4) option.case load if_not_P [OF load(3)] if_not_P [OF load(4)]
      if_not_P [OF assms(3)] if_not_P [OF assms(6)] dup_world_def dup2_table_def Let_def by (rule refl)
qed

lemma dup_done_balanced:
  assumes ok: "world_ok w" and cov: "covered t w" and lim: "\<forall>h. hrefs w h < 0xffffffff"
    and fd: "0 \<le> oldfd" "0 \<le> newfd" "oldfd \<noteq> newfd" and new: "nat newfd < length (fds t)" and old: "nat oldfd < length (fds t)"
  shows "balanced (t, w) (dup2_table oldfd newfd t, dup_world (fds t ! nat oldfd) (fds t ! nat newfd) (dup2_table oldfd newfd t) w)"
proof -
  let ?o = "fds t ! nat oldfd" and ?n = "fds t ! nat newfd" and ?t' = "dup2_table oldfd newfd t"
  define w' where "w' = dup_world ?o ?n ?t' w"
  note e = dup_entry_fds [OF fd new old, of "fd_flags ?o AND NOT LINUX_FD_CLOEXEC", folded dup2_table_def [unfolded Let_def]]
  have le: "pipe_fds t i r \<le> ends w i r" for i r using cov by (simp add: covered_def)
  have o1: "kind ?o = LINUX_FD_PIPE \<longrightarrow> of_bool (refers_pipe (vfs_handle ?o) (pipe_read ?o) ?n) < ends w (vfs_handle ?o) (pipe_read ?o)"
    using two_pipe_fds [OF old new _] fd le order_less_le_trans by fastforce
  have o2: "kind ?o = LINUX_FD_VFS \<longrightarrow> vfs_handle ?o \<noteq> 0 \<longrightarrow> 0 < hrefs w (vfs_handle ?o) \<and> hrefs w (vfs_handle ?o) < 0xffffffff"
    using entry_counted(2) [OF cov old] lim by simp
  have n1: "kind ?n = LINUX_FD_PIPE \<longrightarrow> 0 < ends w (vfs_handle ?n) (pipe_read ?n)"
    using entry_counted(1) [OF cov new] by simp
  note d = dup_world_effect [OF ok n1 o1 o2, where tn = ?t', folded w'_def]
  have "ends w' i r + pipe_fds t i r = ends w i r + pipe_fds ?t' i r" for i r
    using d(2) [of i r] e(1) [of i r] by linarith
  moreover have "hrefs w h + handle_fds ?t' h \<le> hrefs w' h + handle_fds t h" if "h \<noteq> 0" for h
    using d(3) [OF that] e(2) [of h] by (cases "refers_handle h ?n \<and> \<not> linux_fs_handle_in_use ?t' h") auto
  ultimately show ?thesis using d(1) by (simp add: balanced_def w'_def)
qed

lemma dup2_room_get: "dup2_room g newfd t = Some t1 \<Longrightarrow> linux_fd_get t1 k = linux_fd_get t k"
  by (auto simp: dup2_room_def linux_fs_grow_fd_cap_def linux_fd_get_def linux_fs_fd_capacity_def linux_fs_entry_load_def nth_append
      fd_zero_def split: if_splits)

lemma dup2_cases [consumes 2]:
  assumes run: "linux_fd_dup2 g oldfd newfd (t, w) = (ret, t', w')" and ne: "oldfd \<noteq> newfd"
  obtains (fail) "ret = - LINUX_EBADF" "w' = w" "t' = t \<or> 0 \<le> newfd \<and> dup2_room g newfd t = Some t'"
  | (copied) t1 where "0 \<le> oldfd" "0 \<le> newfd" "dup2_room g newfd t = Some t1" "nat oldfd < length (fds t1)"
      "kind (fds t1 ! nat oldfd) \<noteq> LINUX_FD_NONE" "ret = newfd" "t' = dup2_table oldfd newfd t1"
      "w' = dup_world (fds t1 ! nat oldfd) (fds t1 ! nat newfd) t' w"
proof (cases "oldfd < 0 \<or> newfd < 0 \<or> dup2_room g newfd t = None")
  case True
  then show ?thesis using run ne fail by (auto simp: linux_fd_dup2_def dup2_room_def [symmetric] split: if_splits)
next
  case False
  then obtain t1 where t1: "dup2_room g newfd t = Some t1" and fd: "0 \<le> oldfd" "0 \<le> newfd" by auto
  note d = run [unfolded linux_fd_dup2_def dup2_room_def [symmetric] prod.case]
  show ?thesis
  proof (cases "nat oldfd < length (fds t1) \<and> kind (fds t1 ! nat oldfd) \<noteq> LINUX_FD_NONE")
    case True
    then show ?thesis using copied [OF fd t1] dup2_success [OF fd ne t1, of w] run by simp
  next
    case False
    then have "ret = - LINUX_EBADF \<and> w' = w \<and> t' = t1" using d fd ne t1 dup2_roomD(3) [OF t1 fd(2)]
      by (cases "nat oldfd < length (fds t1)") (auto simp: linux_fs_fd_capacity_def linux_fs_entry_load_def)
    then show ?thesis using fail t1 fd by blast
  qed
qed

lemma dup2_balanced:
  assumes ok: "world_ok w" and cov: "covered t w" and lim: "\<forall>h. hrefs w h < 0xffffffff"
    and run: "linux_fd_dup2 g oldfd newfd (t, w) = (ret, t', w')"
  shows "balanced (t, w) (t', w')"
proof (cases "oldfd = newfd")
  case True
  then have "w' = w" "t' = t" using run by (auto simp: linux_fd_dup2_def split: if_splits)
  then show ?thesis using ok by (simp add: balanced_same)
next
  case False
  from run False show ?thesis
  proof (cases rule: dup2_cases)
    case fail
    then show ?thesis using ok dup2_roomD(1,2) [of g newfd t t'] by (auto simp: balanced_same)
  next
    case (copied t1)
    note g = dup2_roomD [OF copied(3,2)]
    have "balanced (t1, w) (t', w')"
      using dup_done_balanced [OF ok _ lim copied(1,2) False g(3) copied(4)] cov covered_cong [OF g(1,2), of w] copied by simp
    then show ?thesis using balanced_trans balanced_same [OF ok g(1,2)] by blast
  qed
qed

end
