(* ===== verification/Fd_System.thy ===== *)
theory Fd_System
  imports Fd_Table
begin

text \<open>
  The descriptor tables of all processes over the handles and pipes they share: what the operations of
  \<open>Fd_Table\<close> do to the counts, as a step relation on the list of the tables and the world, and the
  opening of files by \<^verbatim>\<open>sys_openat\<close>. \<^verbatim>\<open>linux_fs_proc_fork\<close>, \<^verbatim>\<open>linux_fs_proc_reset\<close> (of \<^verbatim>\<open>execve\<close>) and
  \<^verbatim>\<open>linux_fs_proc_destroy\<close> are the steps that copy, replace and remove a table, and
  \<^verbatim>\<open>linux_fs_proc_release_for_exit\<close> is the step of \<^verbatim>\<open>sys_exit\<close>.
\<close>

section \<open>Definitions\<close>

text \<open>
  The open request is an argument of \<^verbatim>\<open>sys_openat\<close>: it maps the absolute path, the flags and the mode
  to a negative error, or to the handle and the directory bit, and may change the handle table. The
  path name is what was copied from the user, or the error of the copy.
\<close>

definition sys_openat ::
  "bool \<Rightarrow> (string \<Rightarrow> int) \<Rightarrow> (string \<Rightarrow> u32 \<Rightarrow> u32 \<Rightarrow> handle_tab \<Rightarrow> int \<times> handle_tab) \<Rightarrow> int \<Rightarrow> int + string \<Rightarrow> u32 \<Rightarrow> u32
   \<Rightarrow> fd_table \<times> fs_world \<Rightarrow> int \<times> fd_table \<times> fs_world" where
  "sys_openat grow_ok validate_dir open_req dirfd user_path flags mode tw = (case tw of (t, w) \<Rightarrow>
     (case user_path of
        Inl err \<Rightarrow> (err, t, w)
      | Inr pathname \<Rightarrow>
          (case linux_vfs_resolve_path validate_dir dirfd pathname VFS_PATH_MAX (Some (Some t)) of
             (Inl err, pa) \<Rightarrow> (err, the (the pa), w)
           | (Inr apath, pa) \<Rightarrow>
               let t1 = the (the pa); (handle, tab) = open_req apath flags mode (w_handles w); w1 = w\<lparr>w_handles := tab\<rparr> in
               if handle \<le> 0 then (if handle < 0 then handle else - LINUX_EMFILE, t1, w1)
               else
                 let ent = fd_zero\<lparr>kind := LINUX_FD_VFS, vfs_handle := nat (handle AND 2147483647),
                       open_flags := flags AND NOT LINUX_O_CLOEXEC,
                       fd_flags := (if flags AND LINUX_O_CLOEXEC \<noteq> 0 then LINUX_FD_CLOEXEC else 0),
                       vfs_abs_path := take (VFS_PATH_MAX - 1) apath,
                       is_dir := (bit handle 31 \<or> flags AND LINUX_O_DIRECTORY \<noteq> 0)\<rparr>;
                     (fd, t2) = linux_fd_alloc grow_ok ent t1 in
                 if fd < 0 then (- LINUX_EMFILE, t2, w1\<lparr>w_handles := snd (vfs_handle_close (vfs_handle ent) tab)\<rparr>)
                 else (fd, t2, w1))))"

section \<open>Loops over a table\<close>

text \<open>What the reference counts see of an entry.\<close>

definition ref_view :: "fd_table \<Rightarrow> (linux_fd_kind \<times> nat \<times> bool) list" where
  "ref_view t = map (\<lambda>e. (kind e, vfs_handle e, pipe_read e)) (fds t)"

lemma ref_view_fds: "ref_view t' = ref_view t \<Longrightarrow> pipe_fds t' = pipe_fds t" "ref_view t' = ref_view t \<Longrightarrow> handle_fds t' = handle_fds t"
proof -
  have p: "pipe_fds u i r = length (filter (\<lambda>x. x = (LINUX_FD_PIPE, i, r)) (ref_view u))"
    and h: "handle_fds u i = length (filter (\<lambda>x. fst x = LINUX_FD_VFS \<and> fst (snd x) = i) (ref_view u))" for u i r
    by (simp_all add: pipe_fds_def handle_fds_def ref_view_def filter_map comp_def refers_pipe_def [abs_def] refers_handle_def [abs_def])
  show "ref_view t' = ref_view t \<Longrightarrow> pipe_fds t' = pipe_fds t" "ref_view t' = ref_view t \<Longrightarrow> handle_fds t' = handle_fds t"
    by (simp_all add: fun_eq_iff p h)
qed

lemma ref_view_nth:
  assumes "ref_view t' = ref_view t"
  shows "length (fds t') = length (fds t)"
    "k < length (fds t) \<Longrightarrow> kind (fds t' ! k) = kind (fds t ! k) \<and> vfs_handle (fds t' ! k) = vfs_handle (fds t ! k)
       \<and> pipe_read (fds t' ! k) = pipe_read (fds t ! k)"
proof -
  show l: "length (fds t') = length (fds t)" using arg_cong [OF assms, of length] by (simp add: ref_view_def)
  assume "k < length (fds t)"
  then show "kind (fds t' ! k) = kind (fds t ! k) \<and> vfs_handle (fds t' ! k) = vfs_handle (fds t ! k)
       \<and> pipe_read (fds t' ! k) = pipe_read (fds t ! k)"
    using arg_cong [OF assms, of "\<lambda>l. l ! k"] l by (simp add: ref_view_def)
qed

lemma ref_view_release: "ref_view (linux_fs_dir_path_release t fd) = ref_view t"
  by (rule nth_equalityI) (simp_all add: ref_view_def dir_path_release_fds)

text \<open>References among the first \<open>n\<close> entries.\<close>

definition pipe_pre :: "fd_table \<Rightarrow> nat \<Rightarrow> nat \<Rightarrow> bool \<Rightarrow> nat" where
  "pipe_pre t n i r = length (filter (refers_pipe i r) (take n (fds t)))"

definition handle_pre :: "fd_table \<Rightarrow> nat \<Rightarrow> nat \<Rightarrow> nat" where
  "handle_pre t n h = length (filter (refers_handle h) (take n (fds t)))"

lemma pre_Suc:
  assumes "n < length (fds t)"
  shows "pipe_pre t (Suc n) i r = pipe_pre t n i r + of_bool (refers_pipe i r (fds t ! n))"
    "handle_pre t (Suc n) h = handle_pre t n h + of_bool (refers_handle h (fds t ! n))"
  using assms by (simp_all add: pipe_pre_def handle_pre_def take_Suc_conv_app_nth)

lemma length_filter_take: "length (filter P (take n xs)) \<le> length (filter P xs)"
  by (metis append_take_drop_id filter_append le_add1 length_append)

lemma pre_le: "pipe_pre t n i r \<le> pipe_fds t i r" "handle_pre t n h \<le> handle_fds t h"
  by (simp_all add: pipe_pre_def pipe_fds_def handle_pre_def handle_fds_def length_filter_take)

lemma pre_all: "pipe_pre t (length (fds t)) = pipe_fds t" "handle_pre t (length (fds t)) = handle_fds t"
  by (simp_all add: fun_eq_iff pipe_pre_def pipe_fds_def handle_pre_def handle_fds_def)

lemma pre_zero: "pipe_pre t 0 i r = 0" "handle_pre t 0 h = 0"
  by (simp_all add: pipe_pre_def handle_pre_def)

text \<open>One turn of the release loop gives back what the entry refers to.\<close>

lemma release_fd_effect:
  assumes ok: "world_ok w" and n: "n < length (fds t)"
    and p: "kind (fds t ! n) = LINUX_FD_PIPE \<longrightarrow> 0 < ends w (vfs_handle (fds t ! n)) (pipe_read (fds t ! n))"
    and run: "release_fd n (t, w) = (t', w')"
  shows "ref_view t' = ref_view t" "world_ok w'"
    "ends w' i r + of_bool (refers_pipe i r (fds t ! n)) = ends w i r"
    "h \<noteq> 0 \<Longrightarrow> hrefs w' h = hrefs w h - of_bool (refers_handle h (fds t ! n))"
proof -
  define e where "e = fds t ! n"
  have load: "linux_fs_entry_load t (int n) = Some e" using n by (simp add: linux_fs_entry_load_def e_def)
  have "ref_view t' = ref_view t \<and> world_ok w' \<and> ends w' i r + of_bool (refers_pipe i r e) = ends w i r
      \<and> (h \<noteq> 0 \<longrightarrow> hrefs w' h = hrefs w h - of_bool (refers_handle h e))"
  proof (cases "kind e = LINUX_FD_PIPE")
    case True
    then have res: "t' = t" "w' = pipe_closed (vfs_handle e) (pipe_read e) w" using run load by (simp_all add: release_fd_def)
    have pos: "0 < ends w (vfs_handle e) (pipe_read e)" using p True by (simp add: e_def)
    note c = pipe_closed_entry [OF ok, of e, OF pos, unfolded if_P [OF True]]
    show ?thesis using c True by (simp add: res refers_handle_def)
  next
    case False
    show ?thesis
    proof (cases "kind e = LINUX_FD_VFS \<and> vfs_handle e \<noteq> 0")
      case True
      have res: "ref_view t' = ref_view t" "w' = linux_fs_release_vfs_handle (vfs_handle e) w"
        using run load True by (auto simp: release_fd_def ref_view_release)
      have "vfs_handle e \<noteq> 0" using True by simp
      note r = release_handle_refs [OF ok this]
      show ?thesis using r True by (auto simp: res refers_pipe_def refers_handle_def ends_def)
    next
      case none: False
      then have "t' = t" "w' = w" using run load False by (auto simp: release_fd_def)
      then show ?thesis using none False ok by (auto simp: refers_pipe_def refers_handle_def)
    qed
  qed
  then show "ref_view t' = ref_view t" "world_ok w'" "ends w' i r + of_bool (refers_pipe i r (fds t ! n)) = ends w i r"
    "h \<noteq> 0 \<Longrightarrow> hrefs w' h = hrefs w h - of_bool (refers_handle h (fds t ! n))"
    by (simp_all add: e_def)
qed

lemma release_loop:
  assumes ok: "world_ok w" and cov: "covered t w"
  shows "n \<le> length (fds t) \<Longrightarrow> fold release_fd [0..<n] (t, w) = (t', w') \<Longrightarrow>
    ref_view t' = ref_view t \<and> world_ok w' \<and> (\<forall>i r. ends w' i r + pipe_pre t n i r = ends w i r)
    \<and> (\<forall>h. h \<noteq> 0 \<longrightarrow> hrefs w' h + handle_pre t n h = hrefs w h)"
proof (induction n arbitrary: t' w')
  case 0
  then show ?case using ok by (simp add: pre_zero)
next
  case (Suc n)
  obtain t1 w1 where one: "fold release_fd [0..<n] (t, w) = (t1, w1)" by fastforce
  then have run: "release_fd n (t1, w1) = (t', w')" using Suc.prems(2) by simp
  have n: "n < length (fds t)" using Suc.prems(1) by simp
  have ih: "ref_view t1 = ref_view t" "world_ok w1" "\<And>i r. ends w1 i r + pipe_pre t n i r = ends w i r"
      "\<And>h. h \<noteq> 0 \<Longrightarrow> hrefs w1 h + handle_pre t n h = hrefs w h"
    using Suc.IH [OF _ one] n by simp_all
  note v = ref_view_nth [OF ih(1)]
  have same: "refers_pipe i r (fds t1 ! n) = refers_pipe i r (fds t ! n)" "refers_handle h (fds t1 ! n) = refers_handle h (fds t ! n)" for i r h
    using v(2) [OF n] by (simp_all add: refers_pipe_def refers_handle_def)
  have left: "of_bool (refers_pipe i r (fds t ! n)) \<le> ends w1 i r" for i r
  proof -
    have "pipe_fds t i r \<le> ends w i r" using cov by (simp add: covered_def)
    then show ?thesis using pre_le(1) [of t "Suc n" i r] pre_Suc(1) [OF n, of i r] ih(3) [of i r] by linarith
  qed
  have hleft: "of_bool (refers_handle h (fds t ! n)) \<le> hrefs w1 h" if "h \<noteq> 0" for h
  proof -
    have "handle_fds t h \<le> hrefs w h" using cov that by (simp add: covered_def)
    then show ?thesis using pre_le(2) [of t "Suc n" h] pre_Suc(2) [OF n, of h] ih(4) [OF that] by linarith
  qed
  have p: "kind (fds t1 ! n) = LINUX_FD_PIPE \<longrightarrow> 0 < ends w1 (vfs_handle (fds t1 ! n)) (pipe_read (fds t1 ! n))"
    using left [of "vfs_handle (fds t1 ! n)" "pipe_read (fds t1 ! n)"] v(2) [OF n] by (auto simp: refers_pipe_def)
  note e = release_fd_effect [OF ih(2) _ p run, unfolded v(1), OF n, unfolded same]
  have "ends w' i r + pipe_pre t (Suc n) i r = ends w i r" for i r
    using e(3) [of i r] ih(3) [of i r] pre_Suc(1) [OF n, of i r] by linarith
  moreover have "hrefs w' h + handle_pre t (Suc n) h = hrefs w h" if "h \<noteq> 0" for h
    using e(4) [OF that] ih(4) [OF that] pre_Suc(2) [OF n, of h] hleft [OF that] by linarith
  ultimately show ?case using e(1,2) ih(1) by simp
qed

lemma release_all:
  assumes "world_ok w" "covered t w" "linux_fs_release_open_resources t w = (t', w')"
  shows "ref_view t' = ref_view t" "world_ok w'" "ends w' i r + pipe_fds t i r = ends w i r"
    "h \<noteq> 0 \<Longrightarrow> hrefs w' h + handle_fds t h = hrefs w h"
  using release_loop [OF assms(1,2), of "length (fds t)" t' w'] assms(3)
  by (simp_all add: linux_fs_release_open_resources_def linux_fs_fd_capacity_def pre_all)

lemma retain_fd_effect:
  assumes ok: "world_ok w" and n: "n < length (fds t)"
    and p: "kind (fds t ! n) = LINUX_FD_PIPE \<longrightarrow> 0 < ends w (vfs_handle (fds t ! n)) (pipe_read (fds t ! n))"
    and h: "kind (fds t ! n) = LINUX_FD_VFS \<longrightarrow> vfs_handle (fds t ! n) \<noteq> 0 \<longrightarrow>
      0 < hrefs w (vfs_handle (fds t ! n)) \<and> hrefs w (vfs_handle (fds t ! n)) < 0xffffffff"
  shows "world_ok (retain_fd t n w)" "ends (retain_fd t n w) i r = ends w i r + of_bool (refers_pipe i r (fds t ! n))"
    "k \<noteq> 0 \<Longrightarrow> hrefs (retain_fd t n w) k = hrefs w k + of_bool (refers_handle k (fds t ! n))"
proof -
  define e where "e = fds t ! n"
  have load: "linux_fs_entry_load t (int n) = Some e" using n by (simp add: linux_fs_entry_load_def e_def)
  have "world_ok (retain_fd t n w) \<and> ends (retain_fd t n w) i r = ends w i r + of_bool (refers_pipe i r e)
    \<and> (k \<noteq> 0 \<longrightarrow> hrefs (retain_fd t n w) k = hrefs w k + of_bool (refers_handle k e))"
  proof (cases "kind e = LINUX_FD_PIPE")
    case True
    then have res: "retain_fd t n w = pipe_retain (vfs_handle e) (pipe_read e) w" using load by (simp add: retain_fd_def)
    have "w_pipes w (vfs_handle e) \<noteq> None" using p True by (intro ends_pipe [of _ _ "pipe_read e"]) (simp add: e_def)
    note c = pipe_retain_ends [OF ok this]
    show ?thesis using c(1,3) c(2) [of "pipe_read e" i r] True by (auto simp: res refers_pipe_def refers_handle_def)
  next
    case False
    show ?thesis
    proof (cases "kind e = LINUX_FD_VFS \<and> vfs_handle e \<noteq> 0")
      case True
      then have res: "retain_fd t n w = linux_fs_retain_vfs_handle (vfs_handle e) w" using load by (simp add: retain_fd_def)
      have "0 < hrefs w (vfs_handle e)" "hrefs w (vfs_handle e) < 0xffffffff" using h True by (simp_all add: e_def)
      note r = retain_handle_refs [OF ok this]
      show ?thesis using r True by (auto simp: res refers_pipe_def refers_handle_def ends_def)
    next
      case none: False
      then have "retain_fd t n w = w" using load False by (auto simp: retain_fd_def)
      then show ?thesis using none False ok by (auto simp: refers_pipe_def refers_handle_def)
    qed
  qed
  then show "world_ok (retain_fd t n w)" "ends (retain_fd t n w) i r = ends w i r + of_bool (refers_pipe i r (fds t ! n))"
    "k \<noteq> 0 \<Longrightarrow> hrefs (retain_fd t n w) k = hrefs w k + of_bool (refers_handle k (fds t ! n))"
    by (simp_all add: e_def)
qed

text \<open>No handle is retained past the range of its 32-bit count.\<close>

definition room_for :: "fd_table \<Rightarrow> fs_world \<Rightarrow> bool" where
  "room_for t w \<longleftrightarrow> (\<forall>h. hrefs w h + handle_fds t h \<le> 0xffffffff)"

lemma retain_loop:
  assumes ok: "world_ok w" and cov: "covered t w" and room: "room_for t w"
  shows "n \<le> length (fds t) \<Longrightarrow>
    world_ok (fold (retain_fd t) [0..<n] w)
    \<and> (\<forall>i r. ends (fold (retain_fd t) [0..<n] w) i r = ends w i r + pipe_pre t n i r)
    \<and> (\<forall>h. h \<noteq> 0 \<longrightarrow> hrefs (fold (retain_fd t) [0..<n] w) h = hrefs w h + handle_pre t n h)"
proof (induction n)
  case 0
  then show ?case using ok by (simp add: pre_zero)
next
  case (Suc n)
  define w1 where "w1 = fold (retain_fd t) [0..<n] w"
  have n: "n < length (fds t)" using Suc.prems by simp
  have ih: "world_ok w1" "\<And>i r. ends w1 i r = ends w i r + pipe_pre t n i r" "\<And>h. h \<noteq> 0 \<Longrightarrow> hrefs w1 h = hrefs w h + handle_pre t n h"
    using Suc.IH n by (simp_all add: w1_def)
  have p: "kind (fds t ! n) = LINUX_FD_PIPE \<longrightarrow> 0 < ends w1 (vfs_handle (fds t ! n)) (pipe_read (fds t ! n))"
    using entry_counted(1) [OF cov n] ih(2) by simp
  have h: "0 < hrefs w1 (vfs_handle (fds t ! n)) \<and> hrefs w1 (vfs_handle (fds t ! n)) < 0xffffffff"
    if "kind (fds t ! n) = LINUX_FD_VFS" "vfs_handle (fds t ! n) \<noteq> 0"
  proof -
    let ?h = "vfs_handle (fds t ! n)"
    have "handle_pre t n ?h < handle_fds t ?h"
      using pre_le(2) [of t "Suc n" ?h] pre_Suc(2) [OF n, of ?h] that by (simp add: refers_handle_def)
    moreover have "hrefs w ?h + handle_fds t ?h \<le> 0xffffffff" using room by (simp add: room_for_def)
    ultimately show ?thesis using entry_counted(2) [OF cov n that] ih(3) [OF that(2)] by linarith
  qed
  note e = retain_fd_effect [OF ih(1) n p, rule_format, OF h]
  show ?case using e(1) e(2) e(3) ih(2,3) pre_Suc [OF n] by (simp add: w1_def [symmetric])
qed

lemma retain_all:
  assumes "world_ok w" "covered t w" "room_for t w"
  shows "world_ok (linux_fs_fork_retain_resources t w)"
    "ends (linux_fs_fork_retain_resources t w) i r = ends w i r + pipe_fds t i r"
    "h \<noteq> 0 \<Longrightarrow> hrefs (linux_fs_fork_retain_resources t w) h = hrefs w h + handle_fds t h"
  using retain_loop [OF assms, of "length (fds t)"]
  by (simp_all add: linux_fs_fork_retain_resources_def linux_fs_fd_capacity_def pre_all)

section \<open>Allocation of descriptors\<close>

lemma scan_free_result:
  "if scan_free es k < 0 then (\<forall>e\<in>set es. kind e \<noteq> LINUX_FD_NONE)
   else \<exists>j < length es. scan_free es k = int (k + j) \<and> kind (es ! j) = LINUX_FD_NONE \<and> (\<forall>l<j. kind (es ! l) \<noteq> LINUX_FD_NONE)"
proof (induction es k rule: scan_free.induct)
  case (2 ent ents fd)
  show ?case
  proof (cases "kind ent = LINUX_FD_NONE \<or> scan_free ents (fd + 1) < 0")
    case True
    then show ?thesis using "2.IH" by (auto intro: exI [of _ 0])
  next
    case False
    then obtain j where "j < length ents" "scan_free ents (fd + 1) = int (fd + 1 + j)" "kind (ents ! j) = LINUX_FD_NONE"
        "\<forall>l<j. kind (ents ! l) \<noteq> LINUX_FD_NONE"
      using "2.IH" by auto
    then show ?thesis using False by (auto intro!: exI [of _ "Suc j"] simp: nth_Cons split: nat.splits)
  qed
qed simp

text \<open>An allocated descriptor is the lowest free one, and only its entry changes.\<close>

lemma fd_alloc_effect:
  assumes run: "linux_fd_alloc g ent t = (fd, t')"
  shows "fd < 0 \<Longrightarrow> pipe_fds t' = pipe_fds t \<and> handle_fds t' = handle_fds t"
    and "0 \<le> fd \<Longrightarrow> nat fd < length (fds t') \<and> fds t' ! nat fd = ent \<and> pipe_fds t' i r = pipe_fds t i r + of_bool (refers_pipe i r ent)
      \<and> handle_fds t' h = handle_fds t h + of_bool (refers_handle h ent)"
proof -
  have put: "nat f < length (fds (linux_fs_entry_store u f ent)) \<and> fds (linux_fs_entry_store u f ent) ! nat f = ent
      \<and> pipe_fds (linux_fs_entry_store u f ent) i r = pipe_fds u i r + of_bool (refers_pipe i r ent)
      \<and> handle_fds (linux_fs_entry_store u f ent) h = handle_fds u h + of_bool (refers_handle h ent)"
    if "linux_fd_find_free u = f" "0 \<le> f" for u f
  proof -
    have j: "nat f < length (fds u)" "kind (fds u ! nat f) = LINUX_FD_NONE"
      using scan_free_result [of "fds u" 0] that by (auto simp: linux_fd_find_free_def)
    show ?thesis
      using pipe_fds_store [OF j(1), of ent i r] handle_fds_store [OF j(1), of ent h] j
      by (simp add: refers_pipe_def refers_handle_def linux_fs_entry_store_def)
  qed
  show "pipe_fds t' = pipe_fds t \<and> handle_fds t' = handle_fds t" if "fd < 0"
    using run that grow_fds by (auto simp: linux_fd_alloc_def Let_def split: if_splits option.splits)
  show "nat fd < length (fds t') \<and> fds t' ! nat fd = ent \<and> pipe_fds t' i r = pipe_fds t i r + of_bool (refers_pipe i r ent)
      \<and> handle_fds t' h = handle_fds t h + of_bool (refers_handle h ent)" if "0 \<le> fd"
    using run that put [of t] put grow_fds(1,2)
    by (fastforce simp: linux_fd_alloc_def Let_def split: if_splits option.splits)
qed

section \<open>The system calls keep the balance\<close>

lemma lowest_free_from_fds:
  assumes "linux_fd_lowest_free_from g m t = (fd, t')"
  shows "pipe_fds t' = pipe_fds t" "handle_fds t' = handle_fds t"
  using assms grow_fds(1,2)
  by (auto simp: linux_fd_lowest_free_from_def Let_def split: if_splits option.splits)

lemma fd_get_SomeD: "linux_fd_get t fd = Some e \<Longrightarrow> 0 \<le> fd \<and> nat fd < length (fds t) \<and> e = fds t ! nat fd \<and> kind e \<noteq> LINUX_FD_NONE"
  by (auto simp: linux_fd_get_def linux_fs_entry_load_def linux_fs_fd_capacity_def split: if_splits option.splits)

lemma set_flags_fds:
  assumes "linux_fd_get t fd = Some e" "linux_fd_store t fd e' = Some t'"
    and "kind e' = kind e" "vfs_handle e' = vfs_handle e" "pipe_read e' = pipe_read e"
  shows "pipe_fds t' = pipe_fds t" "handle_fds t' = handle_fds t"
  using fd_get_SomeD [OF assms(1)] assms(2-)
  by (auto simp: linux_fd_store_def fds_store_same split: if_splits)

lemma set_cloexec_fds:
  assumes "set_cloexec fd (ret, t, w) = (ret', t', w')"
  shows "w' = w" "pipe_fds t' = pipe_fds t" "handle_fds t' = handle_fds t"
  using assms by (auto simp: set_cloexec_def set_flags_fds split: option.splits)

lemma balanced_world: "balanced (t, w) (t', w') \<Longrightarrow> world_ok w'"
  by (simp add: balanced_def)

lemma balanced_view:
  assumes "balanced a (t, w)" "pipe_fds t' = pipe_fds t" "handle_fds t' = handle_fds t"
  shows "balanced a (t', w)"
  by (rule balanced_trans [OF assms(1) balanced_same]) (use assms in \<open>cases a; auto dest: balanced_world\<close>)+

lemma balanced_pre:
  assumes "balanced (t', w) b" "pipe_fds t' = pipe_fds t" "handle_fds t' = handle_fds t" "world_ok w"
  shows "balanced (t, w) b"
  by (rule balanced_trans [OF balanced_same assms(1)]) (use assms in auto)

text \<open>Duplication to the lowest free descriptor, and with a new close-on-exec flag.\<close>

lemma dup_from_balanced:
  assumes ok: "world_ok w" and cov: "covered t w" and lim: "\<forall>h. hrefs w h < 0xffffffff"
    and run: "linux_fd_lowest_free_from g m t = (newfd, t1)" "linux_fd_dup2 g fd newfd (t1, w) = (ret, t', w')"
  shows "balanced (t, w) (t', w')"
proof -
  note f = lowest_free_from_fds [OF run(1)]
  have "covered t1 w" using cov covered_cong [OF f] by simp
  from balanced_pre [OF dup2_balanced [OF ok this lim run(2)] f ok] show ?thesis .
qed

lemma balanced_cloexec:
  assumes "balanced a (t1, w1)" "(if c then set_cloexec fd (ret1, t1, w1) else (ret1, t1, w1)) = (ret, t', w')"
  shows "balanced a (t', w')"
  using assms(2) balanced_view [OF assms(1)] assms(1) set_cloexec_fds [of fd ret1 t1 w1 ret t' w'] by (auto split: if_splits)

lemma sys_dup_balanced:
  assumes "world_ok w" "covered t w" "\<forall>h. hrefs w h < 0xffffffff" "sys_dup g fd (t, w) = (ret, t', w')"
  shows "balanced (t, w) (t', w')"
proof -
  obtain newfd t1 where l: "linux_fd_lowest_free_from g 0 t = (newfd, t1)" by fastforce
  show ?thesis
    using assms(4) dup_from_balanced [OF assms(1-3) l, of fd ret t' w'] balanced_same [OF assms(1) lowest_free_from_fds [OF l]]
    by (auto simp: sys_dup_def l split: if_splits)
qed

lemma sys_dup3_balanced:
  assumes "world_ok w" "covered t w" "\<forall>h. hrefs w h < 0xffffffff" "sys_dup3 g oldfd newfd flags (t, w) = (ret, t', w')"
  shows "balanced (t, w) (t', w')"
proof -
  obtain r1 t1 w1 where d: "linux_fd_dup2 g oldfd newfd (t, w) = (r1, t1, w1)" by (metis prod_cases3)
  note b = dup2_balanced [OF assms(1-3) d]
  show ?thesis
    using assms(4) b balanced_same [OF assms(1), of t t] balanced_cloexec [OF b, of True newfd r1 ret t' w']
    by (auto simp: sys_dup3_def d Let_def split: if_splits)
qed

lemma sys_fcntl_balanced:
  assumes "world_ok w" "covered t w" "\<forall>h. hrefs w h < 0xffffffff" "sys_fcntl g fd cmd arg (t, w) = (ret, t', w')"
  shows "balanced (t, w) (t', w')"
proof (cases "cmd = 0 \<or> cmd = 1030")
  case False
  then have "w' = w \<and> pipe_fds t' = pipe_fds t \<and> handle_fds t' = handle_fds t"
    using assms(4) by (auto simp: sys_fcntl_def Let_def set_flags_fds split: if_splits option.splits)
  then show ?thesis using balanced_same [OF assms(1)] by simp
next
  case True
  obtain newfd t1 where l: "linux_fd_lowest_free_from g (uint arg) t = (newfd, t1)" by fastforce
  obtain r1 t2 w2 where d: "linux_fd_dup2 g fd newfd (t1, w) = (r1, t2, w2)" by (metis prod_cases3)
  note b = dup_from_balanced [OF assms(1-3) l d]
  have "t' = t \<and> w' = w \<or> t' = t1 \<and> w' = w \<or> (ret, t', w') = (r1, t2, w2) \<or> (ret, t', w') = set_cloexec newfd (r1, t2, w2)"
    using assms(4) True by (auto simp: sys_fcntl_def l d Let_def split: if_splits option.splits)
  then show ?thesis
    using b balanced_same [OF assms(1)] lowest_free_from_fds [OF l] balanced_cloexec [OF b, of True newfd r1 ret t' w'] by auto
qed

lemma covered_balanced: "covered t w \<Longrightarrow> balanced (t, w) (t', w') \<Longrightarrow> covered t' w'"
proof -
  assume c: "covered t w" and b: "balanced (t, w) (t', w')"
  have "pipe_fds t' i r \<le> ends w' i r" for i r
  proof -
    have "pipe_fds t i r \<le> ends w i r" "ends w' i r + pipe_fds t i r = ends w i r + pipe_fds t' i r"
      using c b by (simp_all add: covered_def balanced_def)
    then show ?thesis by linarith
  qed
  moreover have "handle_fds t' h \<le> hrefs w' h" if "h \<noteq> 0" for h
  proof -
    have "handle_fds t h \<le> hrefs w h" "hrefs w h + handle_fds t' h \<le> hrefs w' h + handle_fds t h"
      using c b that by (simp_all add: covered_def balanced_def)
    then show ?thesis by linarith
  qed
  ultimately show "covered t' w'" by (simp add: covered_def)
qed

lemma fd_alloc_grows: "0 \<le> fst (linux_fd_alloc True ent t)"
proof (cases "0 \<le> linux_fd_find_free t")
  case False
  let ?t1 = "t\<lparr>fds := fds t @ replicate LINUX_FS_SLICE_FD_GROW fd_zero\<rparr>"
  have "fd_zero \<in> set (fds ?t1)" by simp
  then have "0 \<le> linux_fd_find_free ?t1"
    using scan_free_result [of "fds ?t1" 0] by (fastforce simp: linux_fd_find_free_def fd_zero_def split: if_splits)
  then show ?thesis using False by (simp add: linux_fd_alloc_def linux_fs_grow_fd_cap_def linux_fs_fd_capacity_def Let_def)
qed (simp add: linux_fd_alloc_def Let_def)

lemma fd_alloc_keeps:
  assumes "linux_fd_alloc g ent t = (fd, t')" "k < length (fds t)" "int k \<noteq> fd"
  shows "k < length (fds t') \<and> fds t' ! k = fds t ! k"
proof -
  have k: "nat fd \<noteq> k" if "0 \<le> fd" using assms(3) that by auto
  show ?thesis
    using assms(1,2) k grow_fds(4,5) [where t = t]
    by (fastforce simp: linux_fd_alloc_def linux_fs_entry_store_def Let_def split: if_splits option.splits)
qed

lemma close_pipe:
  assumes "0 \<le> fd" "nat fd < length (fds t)" "kind (fds t ! nat fd) = LINUX_FD_PIPE"
  shows "linux_fd_close fd (t, w)
    = (0, linux_fs_entry_store t fd (clear_entry (fds t ! nat fd)), pipe_closed (vfs_handle (fds t ! nat fd)) (pipe_read (fds t ! nat fd)) w)"
  using assms by (simp add: linux_fd_close_def linux_fs_fd_capacity_def linux_fs_entry_load_def Let_def)

lemma pipe_alloc_result:
  assumes "linux_pipe_alloc_slot ok ps = (i, ps')"
  shows "LINUX_PIPE_MAX \<le> i \<Longrightarrow> ps' = ps"
    "i < LINUX_PIPE_MAX \<Longrightarrow> ps i = None \<and> ps' = ps(i := Some new_pipe)"
proof -
  have s: "pipe_scan ok ps [0..<LINUX_PIPE_MAX] = (i, ps')" using assms by (simp only: linux_pipe_alloc_slot_def)
  show "i < LINUX_PIPE_MAX \<Longrightarrow> ps i = None \<and> ps' = ps(i := Some new_pipe)" using pipe_scan_result [OF s] by simp
  assume "LINUX_PIPE_MAX \<le> i"
  then have "i = LINUX_PIPE_MAX" using pipe_scan_result [OF s] by (cases "i = LINUX_PIPE_MAX") auto
  then show "ps' = ps" using pipe_scan_fail [of ok ps "[0..<LINUX_PIPE_MAX]" ps'] s by simp
qed

text \<open>A new pipe counts one reader and one writer; freeing its slot undoes that.\<close>

lemma new_pipe_world:
  assumes ok: "world_ok w" and i: "i < LINUX_PIPE_MAX" "w_pipes w i = None"
  defines "w1 \<equiv> w\<lparr>w_pipes := (w_pipes w)(i := Some new_pipe)\<rparr>"
  shows "world_ok w1" "ends w1 j r = ends w j r + of_bool (j = i)" "hrefs w1 = hrefs w" "ends w i r = 0"
    "w1\<lparr>w_pipes := linux_pipe_free_slot i (w_pipes w1)\<rparr> = w"
    "(pipe_closed i True w1)\<lparr>w_pipes := linux_pipe_free_slot i (w_pipes (pipe_closed i True w1))\<rparr> = w"
proof -
  have inv: "pipes_inv (w_pipes w)" using ok by (simp add: world_ok_def)
  have inv1: "pipes_inv ((w_pipes w)(i := Some new_pipe))" by (rule pipes_inv_update [OF inv i(1)]) (simp add: new_pipe_ok)
  then show "world_ok w1" using ok by (simp add: world_ok_def w1_def)
  show "ends w1 j r = ends w j r + of_bool (j = i)" using i by (simp add: ends_def w1_def new_pipe_def)
  show "hrefs w1 = hrefs w" "ends w i r = 0" using i by (simp_all add: w1_def ends_def)
  have none: "(w_pipes w)(i := None) = w_pipes w" using i(2) by (simp add: fun_upd_idem)
  show "w1\<lparr>w_pipes := linux_pipe_free_slot i (w_pipes w1)\<rparr> = w"
    using i none by (simp add: w1_def linux_pipe_free_slot_def linux_pipe_from_id_def)
  have "linux_pipe_fd_closed i True (w_pipes w1) = (w_pipes w)(i := Some (new_pipe\<lparr>p_refcnt := 1, p_readers := 0\<rparr>))"
    using fd_closed_effect [OF inv1, of i new_pipe True] by (simp add: w1_def new_pipe_def)
  then show "(pipe_closed i True w1)\<lparr>w_pipes := linux_pipe_free_slot i (w_pipes (pipe_closed i True w1))\<rparr> = w"
    using i none by (simp add: pipe_closed_def linux_pipe_free_slot_def linux_pipe_from_id_def w1_def)
qed

lemma pipe_create2_balanced:
  assumes ok: "world_ok w" and cov: "covered t w"
    and run: "linux_pipe_create2 aok g sok flags (t, w) = (ret, pair, t', w')"
  shows "balanced (t, w) (t', w')"
proof (cases "flags AND NOT (LINUX_O_CLOEXEC OR LINUX_O_NONBLOCK) \<noteq> 0")
  case True
  then show ?thesis using run ok by (simp add: linux_pipe_create2_def balanced_same del: bit.conj_disj_distrib)
next
  case flags: False
  define fdf where "fdf = (if flags AND LINUX_O_CLOEXEC \<noteq> 0 then LINUX_FD_CLOEXEC else 0)"
  define opf where "opf = (if flags AND LINUX_O_NONBLOCK \<noteq> 0 then LINUX_O_NONBLOCK else 0)"
  obtain i ps where al: "linux_pipe_alloc_slot aok (w_pipes w) = (i, ps)" by fastforce
  define w1 where "w1 = w\<lparr>w_pipes := ps\<rparr>"
  define re where "re = fd_zero\<lparr>kind := LINUX_FD_PIPE, vfs_handle := i, pipe_read := True, open_flags := opf, fd_flags := fdf\<rparr>"
  define we where "we = re\<lparr>pipe_read := False\<rparr>"
  obtain rfd t1 where a1: "linux_fd_alloc g re t = (rfd, t1)" by fastforce
  obtain wfd t2 where a2: "linux_fd_alloc g we t1 = (wfd, t2)" by fastforce
  note run1 = run [unfolded linux_pipe_create2_def prod.case if_not_P [OF flags] Let_def al fdf_def [symmetric] opf_def [symmetric]
      w1_def [symmetric] re_def [symmetric] we_def [symmetric] a1 a2]
  show ?thesis
  proof (cases "LINUX_PIPE_MAX \<le> i")
    case True
    then have "w1 = w" using pipe_alloc_result(1) [OF al] by (simp add: w1_def)
    then show ?thesis using run1 True ok by (simp add: balanced_same)
  next
    case False
    then have i: "i < LINUX_PIPE_MAX" "w_pipes w i = None" and ps: "ps = (w_pipes w)(i := Some new_pipe)"
      using pipe_alloc_result(2) [OF al] by simp_all
    note n = new_pipe_world [OF ok i, folded ps, folded w1_def]
    have re: "refers_pipe j r re \<longleftrightarrow> j = i \<and> r" "\<not> refers_handle h re" "refers_pipe j r we \<longleftrightarrow> j = i \<and> \<not> r" "\<not> refers_handle h we" for j r h
      by (auto simp: re_def we_def refers_pipe_def refers_handle_def)
    consider (nofd) "rfd < 0" | (one) "0 \<le> rfd" "wfd < 0" | (two) "0 \<le> rfd" "0 \<le> wfd" by linarith
    then show ?thesis
    proof cases
      case nofd
      then have "t' = t1" "w' = w" using run1 False n(5) by simp_all
      then show ?thesis using fd_alloc_effect(1) [OF a1 nofd] ok by (simp add: balanced_same)
    next
      case one
      note r = fd_alloc_effect(2) [OF a1 one(1)]
      have k: "nat rfd < length (fds t2)" "fds t2 ! nat rfd = re" using fd_alloc_keeps [OF a2, of "nat rfd"] r [of 0 True 0] one by auto
      note cl = close_pipe [OF one(1) k(1)]
      have res: "t' = linux_fs_entry_store t2 rfd (clear_entry re)" "w' = w"
        using run1 False one n(6) cl [of w1] k(2) by (simp_all add: re_def)
      have "pipe_fds t' j q = pipe_fds t j q" "handle_fds t' h = handle_fds t h" for j q h
        using pipe_fds_store [OF k(1), of "clear_entry re" j q] handle_fds_store [OF k(1), of "clear_entry re" h] r [of j q h]
          fd_alloc_effect(1) [OF a2 one(2)] k(2) by (simp_all add: res re)
      then show ?thesis using ok res(2) by (simp add: balanced_same fun_eq_iff)
    next
      case two
      note r = fd_alloc_effect(2) [OF a1 two(1)] and wr = fd_alloc_effect(2) [OF a2 two(2)]
      have "ends w1 j q + pipe_fds t j q = ends w j q + pipe_fds t2 j q" "handle_fds t2 h = handle_fds t h" for j q h
        using r [of j q h] wr [of j q h] n(2) [of j q] by (auto simp: re)
      then have b: "balanced (t, w) (t2, w1)" using n(1,3) by (simp add: balanced_def)
      show ?thesis
      proof (cases sok)
        case True
        then show ?thesis using run1 False two b by simp
      next
        case nok: False
        obtain r3 t3 w2 where c1: "linux_fd_close wfd (t2, w1) = (r3, t3, w2)" by (metis prod_cases3)
        have c2: "linux_fd_close rfd (t3, w2) = (fst (linux_fd_close rfd (t3, w2)), t', w')"
          using run1 False two nok c1 by (simp split: prod.splits)
        note cov2 = covered_balanced [OF cov b]
        note b1 = close_balanced [OF n(1) cov2 c1]
        note b2 = close_balanced [OF balanced_world [OF b1] covered_balanced [OF cov2 b1] c2]
        show ?thesis using b b1 b2 balanced_trans by blast
      qed
    qed
  qed
qed

lemma ref_view_set:
  "ref_view (linux_fd_set_is_dir t fd d) = ref_view t" "ref_view (linux_fd_set_vfs_abs_path t fd p) = ref_view t"
  by (auto simp: linux_fd_set_is_dir_def linux_fd_set_vfs_abs_path_def ref_view_def linux_fs_entry_store_def linux_fs_entry_load_def
      linux_fs_fd_capacity_def not_le map_update list_update_same_conv split: if_splits option.splits)

text \<open>Resolving a path relative to a descriptor may mark its entry as a directory, and changes nothing else.\<close>

lemma resolve_path_view:
  "\<exists>r t1. linux_vfs_resolve_path v d p cap (Some (Some t)) = (r, Some (Some t1)) \<and> ref_view t1 = ref_view t"
proof -
  obtain r pa where run: "linux_vfs_resolve_path v d p cap (Some (Some t)) = (r, pa)" by fastforce
  then have "\<exists>t1. pa = Some (Some t1) \<and> ref_view t1 = ref_view t"
    by (auto simp: linux_vfs_resolve_path_def Let_def ref_view_set split: if_splits option.splits)
  then show ?thesis using run by blast
qed

text \<open>The open request of the VFS server: a lookup, whose errors are negative, and the installation of
  a handle on the inode it found.\<close>

definition open_by :: "(string \<Rightarrow> u32 \<Rightarrow> u32 \<Rightarrow> int + vfs_inode) \<Rightarrow> bool \<Rightarrow> string \<Rightarrow> u32 \<Rightarrow> u32 \<Rightarrow> handle_tab \<Rightarrow> int \<times> handle_tab" where
  "open_by lookup push_ok path flags mode tab =
     (case lookup path flags mode of Inl e \<Rightarrow> (e, tab) | Inr ino \<Rightarrow> vfs_open_install push_ok ino flags tab)"

definition lookup_errors :: "(string \<Rightarrow> u32 \<Rightarrow> u32 \<Rightarrow> int + vfs_inode) \<Rightarrow> bool" where
  "lookup_errors lookup \<longleftrightarrow> (\<forall>p f m e. lookup p f m = Inl e \<longrightarrow> e < 0)"

lemma open_by_refs:
  assumes inv: "handle_inv tab" and room: "length tab < 2 ^ 31" and l: "lookup_errors lookup"
    and run: "open_by lookup push_ok p f m tab = (r, tab')"
  shows "handle_inv tab'"
    and "r < 0 \<and> tab' = tab \<or> 0 < r \<and> nat (r AND 2147483647) \<noteq> 0 \<and> handle_refs tab (nat (r AND 2147483647)) = 0
      \<and> handle_refs tab' = (handle_refs tab)(nat (r AND 2147483647) := 1)"
proof -
  have "handle_inv tab' \<and> (r < 0 \<and> tab' = tab \<or> 0 < r \<and> nat (r AND 2147483647) \<noteq> 0 \<and> handle_refs tab (nat (r AND 2147483647)) = 0
      \<and> handle_refs tab' = (handle_refs tab)(nat (r AND 2147483647) := 1))"
  proof (cases "lookup p f m")
    case (Inl e)
    then show ?thesis using run l inv by (auto simp: open_by_def lookup_errors_def)
  next
    case (Inr ino)
    then have inst: "vfs_open_install push_ok ino f tab = (r, tab')" using run by (simp add: open_by_def)
    from inv room inst show ?thesis
    proof (cases rule: open_install_cases)
      case fail
      then show ?thesis using inv by simp
    next
      case (opened h)
      then show ?thesis using handle_open_effect [OF inv opened(1)] by (auto simp: handle_refs_def fun_eq_iff)
    qed
  qed
  then show "handle_inv tab'" "r < 0 \<and> tab' = tab \<or> 0 < r \<and> nat (r AND 2147483647) \<noteq> 0 \<and> handle_refs tab (nat (r AND 2147483647)) = 0
      \<and> handle_refs tab' = (handle_refs tab)(nat (r AND 2147483647) := 1)" by simp_all
qed

lemma sys_openat_balanced:
  assumes ok: "world_ok w" and room: "length (w_handles w) < 2 ^ 31" and l: "lookup_errors lookup"
    and up: "\<forall>e. user_path = Inl e \<longrightarrow> e < 0"
    and run: "sys_openat g v (open_by lookup push_ok) dirfd user_path flags mode (t, w) = (ret, t', w')"
  shows "balanced (t, w) (t', w')"
proof (cases user_path)
  case (Inl e)
  then show ?thesis using run ok by (simp add: sys_openat_def balanced_same)
next
  case (Inr path)
  obtain rr t1 where res: "linux_vfs_resolve_path v dirfd path VFS_PATH_MAX (Some (Some t)) = (rr, Some (Some t1))"
      and view: "ref_view t1 = ref_view t" using resolve_path_view by blast
  note f = ref_view_fds [OF view]
  show ?thesis
  proof (cases rr)
    case (Inl e)
    then show ?thesis using run Inr res f ok by (simp add: sys_openat_def balanced_same)
  next
    case abs: (Inr apath)
    obtain r tab where op: "open_by lookup push_ok apath flags mode (w_handles w) = (r, tab)" by fastforce
    have inv: "handle_inv (w_handles w)" using ok by (simp add: world_ok_def)
    note o = open_by_refs [OF inv room l op]
    define h where "h = nat (r AND 2147483647)"
    define ent where "ent = fd_zero\<lparr>kind := LINUX_FD_VFS, vfs_handle := h, open_flags := flags AND NOT LINUX_O_CLOEXEC,
        fd_flags := (if flags AND LINUX_O_CLOEXEC \<noteq> 0 then LINUX_FD_CLOEXEC else 0), vfs_abs_path := take (VFS_PATH_MAX - 1) apath,
        is_dir := (bit r 31 \<or> flags AND LINUX_O_DIRECTORY \<noteq> 0)\<rparr>"
    obtain fd t2 where al: "linux_fd_alloc g ent t1 = (fd, t2)" by fastforce
    note run1 = run [unfolded sys_openat_def Inr prod.case sum.case res abs option.sel Let_def op h_def [symmetric] ent_def [symmetric] al]
    show ?thesis
    proof (cases "r < 0")
      case True
      then show ?thesis using run1 o(2) f ok by (simp add: balanced_same)
    next
      case False
      then have h: "0 < r" "h \<noteq> 0" "handle_refs (w_handles w) h = 0" "handle_refs tab = (handle_refs (w_handles w))(h := 1)"
        using o(2) by (auto simp: h_def)
      have eh: "vfs_handle ent = h" "\<not> refers_pipe i q ent" "refers_handle k ent \<longleftrightarrow> k = h" for i q k
        by (auto simp: ent_def refers_pipe_def refers_handle_def)
      show ?thesis
      proof (cases "fd < 0")
        case True
        then have res: "t' = t2" "w' = w\<lparr>w_handles := snd (vfs_handle_close h tab)\<rparr>" using run1 h(1) eh(1) by simp_all
        have "handle_refs (snd (vfs_handle_close h tab)) = handle_refs (w_handles w)" "handle_inv (snd (vfs_handle_close h tab))"
          using handles.close_ok [OF o(1), of h] handles.close_inv [OF o(1)] h(3,4) by (auto simp: fun_upd_idem)
        then show ?thesis using fd_alloc_effect(1) [OF al True] f ok
          by (simp add: res balanced_def world_ok_def ends_def)
      next
        case False
        then have res: "t' = t2" "w' = w\<lparr>w_handles := tab\<rparr>" using run1 h(1) by simp_all
        have nn: "0 \<le> fd" using False by simp
        have "hrefs w k + handle_fds t2 k = handle_refs tab k + handle_fds t k" "pipe_fds t2 i q = pipe_fds t i q" for k i q
          using fd_alloc_effect(2) [OF al nn, of i q k] f h(3,4) by (auto simp: eh)
        then show ?thesis using ok o(1) by (simp add: res balanced_def world_ok_def ends_def)
      qed
    qed
  qed
qed

section \<open>All processes\<close>

text \<open>
  The state of the system is the list of the tables of the processes, the list of the tables that
  processes have left behind in \<^verbatim>\<open>sys_exit\<close> and that wait to be reaped, the world, and a flag.

  A table step is one operation of one process on its table. The side conditions are the ranges of the
  C integers: a handle is not retained more than \<open>2\<^sup>3\<^sup>2 - 1\<close> times, and the handle table has less than
  \<open>2\<^sup>3\<^sup>1\<close> records. A process that fails to get a table after \<^verbatim>\<open>execve\<close> leaves the list; so does
  one that a fault has killed, when it is reaped, because \<^verbatim>\<open>linux_fatal_user_fault\<close> does not release
  the table.
\<close>

inductive table_step :: "fd_table list \<times> fs_world \<Rightarrow> fd_table list \<times> fs_world \<Rightarrow> bool" where
  close: "p < length ts \<Longrightarrow> linux_fd_close fd (ts ! p, w) = (ret, t', w') \<Longrightarrow> table_step (ts, w) (ts[p := t'], w')"
| dup: "p < length ts \<Longrightarrow> \<forall>h. hrefs w h < 0xffffffff \<Longrightarrow> sys_dup g fd (ts ! p, w) = (ret, t', w') \<Longrightarrow>
    table_step (ts, w) (ts[p := t'], w')"
| dup3: "p < length ts \<Longrightarrow> \<forall>h. hrefs w h < 0xffffffff \<Longrightarrow> sys_dup3 g oldfd newfd flags (ts ! p, w) = (ret, t', w') \<Longrightarrow>
    table_step (ts, w) (ts[p := t'], w')"
| dup2: "p < length ts \<Longrightarrow> \<forall>h. hrefs w h < 0xffffffff \<Longrightarrow> linux_fd_dup2 g oldfd newfd (ts ! p, w) = (ret, t', w') \<Longrightarrow>
    table_step (ts, w) (ts[p := t'], w')"
| fcntl: "p < length ts \<Longrightarrow> \<forall>h. hrefs w h < 0xffffffff \<Longrightarrow> sys_fcntl g fd cmd arg (ts ! p, w) = (ret, t', w') \<Longrightarrow>
    table_step (ts, w) (ts[p := t'], w')"
| pipe2: "p < length ts \<Longrightarrow> linux_pipe_create2 aok g sok flags (ts ! p, w) = (ret, pair, t', w') \<Longrightarrow>
    table_step (ts, w) (ts[p := t'], w')"
| openat: "p < length ts \<Longrightarrow> length (w_handles w) < 2 ^ 31 \<Longrightarrow> lookup_errors lookup \<Longrightarrow> \<forall>e. user_path = Inl e \<longrightarrow> e < 0 \<Longrightarrow>
    sys_openat g v (open_by lookup push_ok) dirfd user_path oflags mode (ts ! p, w) = (ret, t', w') \<Longrightarrow>
    table_step (ts, w) (ts[p := t'], w')"
| fork: "p < length ts \<Longrightarrow> room_for (ts ! p) w \<Longrightarrow>
    linux_fs_proc_fork aok cok None (Some (Some (ts ! p))) w = (REND_SUCCESS, Some (Some t'), w') \<Longrightarrow>
    table_step (ts, w) (ts @ [t'], w')"
| exec: "p < length ts \<Longrightarrow> linux_fs_proc_reset aok cok (Some (Some (ts ! p)), w) = (Some (Some t'), w') \<Longrightarrow>
    table_step (ts, w) (ts[p := t'], w')"
| exec_fail: "p < length ts \<Longrightarrow> linux_fs_proc_reset aok cok (Some (Some (ts ! p)), w) = (Some None, w') \<Longrightarrow>
    table_step (ts, w) (take p ts @ drop (Suc p) ts, w')"
| destroy: "p < length ts \<Longrightarrow> linux_fs_proc_destroy (Some (Some (ts ! p)), w) = (None, w') \<Longrightarrow>
    table_step (ts, w) (take p ts @ drop (Suc p) ts, w')"

text \<open>
  \<^verbatim>\<open>sys_exit\<close> releases the descriptors and keeps the entries: the table of a process whose last thread
  exits waits for the reap, the table of a process with other threads stays in use. The reap destroys the
  table and releases the entries again. The flag is set when that, or the exit of a thread that leaves others
  behind, has released descriptors that were released before or that are still in use.
\<close>

type_synonym fd_system = "fd_table list \<times> fd_table list \<times> fs_world \<times> bool"

definition holds_refs :: "fd_table \<Rightarrow> bool" where
  "holds_refs t \<longleftrightarrow> list_ex (\<lambda>e. kind e = LINUX_FD_PIPE \<or> kind e = LINUX_FD_VFS \<and> vfs_handle e \<noteq> 0) (fds t)"

inductive fd_step :: "fd_system \<Rightarrow> fd_system \<Rightarrow> bool" where
  operation: "table_step (ts, w) (ts', w') \<Longrightarrow> fd_step (ts, zs, w, d) (ts', zs, w', d)"
| exit: "p < length ts \<Longrightarrow> linux_fs_proc_release_for_exit (Some (Some (ts ! p)), w) = (Some (Some t'), w') \<Longrightarrow>
    fd_step (ts, zs, w, d) (take p ts @ drop (Suc p) ts, zs @ [t'], w', d)"
| thread_exit: "p < length ts \<Longrightarrow> linux_fs_proc_release_for_exit (Some (Some (ts ! p)), w) = (Some (Some t'), w') \<Longrightarrow>
    fd_step (ts, zs, w, d) (ts[p := t'], zs, w', d \<or> holds_refs (ts ! p))"
| reap: "p < length zs \<Longrightarrow> linux_fs_proc_destroy (Some (Some (zs ! p)), w) = (None, w') \<Longrightarrow>
    fd_step (ts, zs, w, d) (ts, take p zs @ drop (Suc p) zs, w', d \<or> holds_refs (zs ! p))"

definition fds_inv :: "fd_table list \<times> fs_world \<Rightarrow> bool" where
  "fds_inv s \<longleftrightarrow> (case s of (ts, w) \<Rightarrow> world_ok w
     \<and> (\<forall>i r. ends w i r = (\<Sum>t\<leftarrow>ts. pipe_fds t i r)) \<and> (\<forall>h. h \<noteq> 0 \<longrightarrow> (\<Sum>t\<leftarrow>ts. handle_fds t h) \<le> hrefs w h))"

lemma sum_list_map_update:
  fixes f :: "'a \<Rightarrow> nat"
  shows "p < length xs \<Longrightarrow> sum_list (map f (xs[p := x])) + f (xs ! p) = sum_list (map f xs) + f x"
  by (simp add: map_update sum_list_update) (metis add.commute elem_le_sum_list le_add_diff_inverse2 length_map nth_map trans_le_add2)

lemma sum_list_remove:
  fixes f :: "'a \<Rightarrow> nat"
  shows "p < length xs \<Longrightarrow> sum_list (map f (take p xs @ drop (Suc p) xs)) + f (xs ! p) = sum_list (map f xs)"
  by (subst (3) id_take_nth_drop [of p xs]) simp_all

lemma fds_inv_covered:
  assumes "fds_inv (ts, w)" "p < length ts"
  shows "covered (ts ! p) w" "world_ok w"
proof -
  have le: "f (ts ! p) \<le> (\<Sum>t\<leftarrow>ts. f t)" for f :: "fd_table \<Rightarrow> nat" using assms(2) by (intro member_le_sum_list) auto
  have "pipe_fds (ts ! p) i r \<le> ends w i r" for i r using assms(1) le [of "\<lambda>t. pipe_fds t i r"] by (simp add: fds_inv_def)
  moreover have "handle_fds (ts ! p) h \<le> hrefs w h" if "h \<noteq> 0" for h
    using assms(1) that le [of "\<lambda>t. handle_fds t h"] by (auto simp: fds_inv_def intro: order_trans)
  ultimately show "covered (ts ! p) w" by (simp add: covered_def)
  show "world_ok w" using assms(1) by (simp add: fds_inv_def)
qed

lemma fds_inv_balanced:
  assumes inv: "fds_inv (ts, w)" and p: "p < length ts" and b: "balanced (ts ! p, w) (t', w')"
  shows "fds_inv (ts[p := t'], w')"
proof -
  have "ends w' i r = (\<Sum>t\<leftarrow>ts[p := t']. pipe_fds t i r)" for i r
  proof -
    have "ends w i r = (\<Sum>t\<leftarrow>ts. pipe_fds t i r)" "ends w' i r + pipe_fds (ts ! p) i r = ends w i r + pipe_fds t' i r"
      using inv b by (simp_all add: fds_inv_def balanced_def)
    then show ?thesis using sum_list_map_update [OF p, of "\<lambda>t. pipe_fds t i r" t'] by linarith
  qed
  moreover have "(\<Sum>t\<leftarrow>ts[p := t']. handle_fds t h) \<le> hrefs w' h" if "h \<noteq> 0" for h
  proof -
    have "(\<Sum>t\<leftarrow>ts. handle_fds t h) \<le> hrefs w h" "hrefs w h + handle_fds t' h \<le> hrefs w' h + handle_fds (ts ! p) h"
      using inv b that by (simp_all add: fds_inv_def balanced_def)
    then show ?thesis using sum_list_map_update [OF p, of "\<lambda>t. handle_fds t h" t'] by linarith
  qed
  ultimately show ?thesis using b by (simp add: fds_inv_def balanced_def)
qed

text \<open>Releasing a whole table, then dropping it or replacing it by one without references.\<close>

lemma fds_inv_release:
  assumes inv: "fds_inv (ts, w)" and p: "p < length ts" and rel: "linux_fs_release_open_resources (ts ! p) w = (t1, w')"
  shows "fds_inv (take p ts @ drop (Suc p) ts, w')"
    "(\<And>i r. pipe_fds t' i r = 0) \<Longrightarrow> (\<And>h. h \<noteq> 0 \<Longrightarrow> handle_fds t' h = 0) \<Longrightarrow> fds_inv (ts[p := t'], w')"
proof -
  note c = fds_inv_covered [OF inv p]
  note r = release_all [OF c(2,1) rel]
  have e: "ends w' i q = (\<Sum>t\<leftarrow>take p ts @ drop (Suc p) ts. pipe_fds t i q)" for i q
  proof -
    have "ends w i q = (\<Sum>t\<leftarrow>ts. pipe_fds t i q)" using inv by (simp add: fds_inv_def)
    then show ?thesis using sum_list_remove [OF p, of "\<lambda>t. pipe_fds t i q"] r(3) [of i q] by linarith
  qed
  have h: "(\<Sum>t\<leftarrow>take p ts @ drop (Suc p) ts. handle_fds t k) \<le> hrefs w' k" if "k \<noteq> 0" for k
  proof -
    have "(\<Sum>t\<leftarrow>ts. handle_fds t k) \<le> hrefs w k" using inv that by (simp add: fds_inv_def)
    then show ?thesis using sum_list_remove [OF p, of "\<lambda>t. handle_fds t k"] r(4) [OF that] by linarith
  qed
  show "fds_inv (take p ts @ drop (Suc p) ts, w')" using e h r(2) by (simp add: fds_inv_def)
  assume "\<And>i r. pipe_fds t' i r = 0" "\<And>h. h \<noteq> 0 \<Longrightarrow> handle_fds t' h = 0"
  then show "fds_inv (ts[p := t'], w')"
    using e h r(2) by (simp add: fds_inv_def upd_conv_take_nth_drop [OF p])
qed

lemma init_state_fds:
  assumes "linux_fs_init_state ok = (e, Some t)"
  shows "pipe_fds t = (\<lambda>i r. 0)" "handle_fds t = (\<lambda>h. 0)"
proof -
  have "fds t = (((replicate LINUX_FS_FD_INIT_CAP fd_zero)[0 := fd_zero\<lparr>kind := LINUX_FD_CONSOLE_IN\<rparr>])
      [1 := fd_zero\<lparr>kind := LINUX_FD_CONSOLE_OUT\<rparr>])[2 := fd_zero\<lparr>kind := LINUX_FD_CONSOLE_ERR\<rparr>]"
    using assms by (auto simp: linux_fs_init_state_def linux_fs_table_create_def linux_fs_entry_store_def Let_def split: if_splits)
  then have "\<forall>e\<in>set (fds t). kind e \<noteq> LINUX_FD_PIPE \<and> kind e \<noteq> LINUX_FD_VFS"
    by (auto simp: fd_zero_def dest!: set_update_subset_insert [THEN subsetD])
  then show "pipe_fds t = (\<lambda>i r. 0)" "handle_fds t = (\<lambda>h. 0)"
    by (auto simp: pipe_fds_def handle_fds_def refers_pipe_def refers_handle_def filter_empty_conv fun_eq_iff)
qed

lemma table_step_inv:
  assumes "table_step s s'" "fds_inv s"
  shows "fds_inv s'"
  using assms
proof (induction rule: table_step.induct)
  case (close p ts fd w ret t' w')
  note c = fds_inv_covered [OF close(3,1)]
  show ?case by (rule fds_inv_balanced [OF close(3,1) close_balanced [OF c(2,1) close(2)]])
next
  case (dup p ts w g fd ret t' w')
  note c = fds_inv_covered [OF dup(4,1)]
  show ?case by (rule fds_inv_balanced [OF dup(4,1) sys_dup_balanced [OF c(2,1) dup(2,3)]])
next
  case (dup3 p ts w g oldfd newfd flags ret t' w')
  note c = fds_inv_covered [OF dup3(4,1)]
  show ?case by (rule fds_inv_balanced [OF dup3(4,1) sys_dup3_balanced [OF c(2,1) dup3(2,3)]])
next
  case (dup2 p ts w g oldfd newfd ret t' w')
  note c = fds_inv_covered [OF dup2(4,1)]
  show ?case by (rule fds_inv_balanced [OF dup2(4,1) dup2_balanced [OF c(2,1) dup2(2,3)]])
next
  case (fcntl p ts w g fd cmd arg ret t' w')
  note c = fds_inv_covered [OF fcntl(4,1)]
  show ?case by (rule fds_inv_balanced [OF fcntl(4,1) sys_fcntl_balanced [OF c(2,1) fcntl(2,3)]])
next
  case (pipe2 p ts aok g sok flags w ret pair t' w')
  note c = fds_inv_covered [OF pipe2(3,1)]
  show ?case by (rule fds_inv_balanced [OF pipe2(3,1) pipe_create2_balanced [OF c(2,1) pipe2(2)]])
next
  case (openat p ts w lookup user_path g v push_ok dirfd oflags mode ret t' w')
  note c = fds_inv_covered [OF openat(6,1)]
  show ?case by (rule fds_inv_balanced [OF openat(6,1) sys_openat_balanced [OF c(2) openat(2,3,4,5)]])
next
  case (fork p ts w aok cok t' w')
  have f: "t' = ts ! p" "w' = linux_fs_fork_retain_resources (ts ! p) w"
    using fork(3) by (auto simp: linux_fs_proc_fork_def linux_fs_fork_copy_state_def split: if_splits)
  note c = fds_inv_covered [OF fork(4,1)]
  show ?case using retain_all [OF c(2,1) fork(2)] fork(4) by (simp add: f fds_inv_def)
next
  case (exec p ts aok cok w t' w')
  obtain t1 w1 where r: "linux_fs_release_open_resources (ts ! p) w = (t1, w1)" by fastforce
  have i: "linux_fs_init_state cok = (fst (linux_fs_init_state cok), Some t')" and w: "w' = w1"
    using exec(2) by (auto simp: linux_fs_proc_reset_def r prod_eq_iff)
  show ?case unfolding w by (rule fds_inv_release(2) [OF exec(3,1) r]) (simp_all add: init_state_fds [OF i])
next
  case (exec_fail p ts aok cok w w')
  obtain t1 w1 where r: "linux_fs_release_open_resources (ts ! p) w = (t1, w1)" by fastforce
  have w: "w' = w1" using exec_fail(2) by (auto simp: linux_fs_proc_reset_def r)
  show ?case unfolding w by (rule fds_inv_release(1) [OF exec_fail(3,1) r])
next
  case (destroy p ts w w')
  obtain t1 w1 where r: "linux_fs_release_open_resources (ts ! p) w = (t1, w1)" by fastforce
  have w: "w' = w1" using destroy(2) by (auto simp: linux_fs_proc_destroy_def r)
  show ?case unfolding w by (rule fds_inv_release(1) [OF destroy(3,1) r])
qed

lemma holds_refs_counts: "\<not> holds_refs t \<Longrightarrow> pipe_fds t i r = 0" "\<not> holds_refs t \<Longrightarrow> h \<noteq> 0 \<Longrightarrow> handle_fds t h = 0"
  by (auto simp: holds_refs_def list_ex_iff pipe_fds_def handle_fds_def refers_pipe_def refers_handle_def filter_empty_conv)

text \<open>Releasing a table that refers to nothing changes no count.\<close>

lemma fds_inv_release_none:
  assumes inv: "fds_inv (ts, w)" and none: "\<not> holds_refs t" and rel: "linux_fs_release_open_resources t w = (t1, w')"
  shows "fds_inv (ts, w')"
proof -
  have "world_ok w" "covered t w" using inv holds_refs_counts [OF none] by (simp_all add: fds_inv_def covered_def)
  note r = release_all [OF this rel]
  show ?thesis using inv r(2) r(3) r(4) holds_refs_counts [OF none] by (simp add: fds_inv_def)
qed

definition system_inv :: "fd_system \<Rightarrow> bool" where
  "system_inv s \<longleftrightarrow> (case s of (ts, zs, w, d) \<Rightarrow> d \<or> fds_inv (ts, w))"

lemma fd_step_inv:
  assumes "fd_step s s'" "system_inv s"
  shows "system_inv s'"
  using assms
proof (induction rule: fd_step.induct)
  case (operation ts w ts' w' zs d)
  then show ?case using table_step_inv by (auto simp: system_inv_def)
next
  case (exit p ts w t' w' zs d)
  obtain t1 w1 where r: "linux_fs_release_open_resources (ts ! p) w = (t1, w1)" by fastforce
  then have "w' = w1" using exit(2) by (simp add: linux_fs_proc_release_for_exit_def)
  then show ?case using exit(3) fds_inv_release(1) [OF _ exit(1) r] by (auto simp: system_inv_def)
next
  case (thread_exit p ts w t' w' zs d)
  obtain t1 w1 where r: "linux_fs_release_open_resources (ts ! p) w = (t1, w1)" by fastforce
  then have t': "t' = t1" "w' = w1" using thread_exit(2) by (simp_all add: linux_fs_proc_release_for_exit_def)
  show ?case
  proof (cases "d \<or> holds_refs (ts ! p)")
    case False
    then have inv: "fds_inv (ts, w)" using thread_exit(3) by (simp add: system_inv_def)
    note c = fds_inv_covered [OF inv thread_exit(1)]
    have "pipe_fds t1 = pipe_fds (ts ! p)" "handle_fds t1 = handle_fds (ts ! p)"
      using ref_view_fds [OF release_all(1) [OF c(2,1) r]] by simp_all
    then have "fds_inv (ts[p := t1], w1)"
      using False by (intro fds_inv_release(2) [OF inv thread_exit(1) r]) (simp_all add: holds_refs_counts)
    then show ?thesis by (simp add: system_inv_def t')
  qed (simp add: system_inv_def)
next
  case (reap p zs w w' ts d)
  obtain t1 w1 where r: "linux_fs_release_open_resources (zs ! p) w = (t1, w1)" by fastforce
  then have "w' = w1" using reap(2) by (auto simp: linux_fs_proc_destroy_def)
  then show ?case using reap(3) fds_inv_release_none [OF _ _ r] by (auto simp: system_inv_def)
qed

text \<open>The entries of a table after a duplication, and after closing a file.\<close>

lemma dup2_table_entries:
  assumes "0 \<le> oldfd" "0 \<le> newfd" "oldfd \<noteq> newfd" "nat newfd < length (fds t)" "nat oldfd < length (fds t)"
  defines "e \<equiv> fds t ! nat oldfd"
  shows "fds (dup2_table oldfd newfd t) = (fds t)[nat newfd :=
    if is_dir e \<and> vfs_abs_path e \<noteq> [] then e else e\<lparr>fd_flags := fd_flags e AND NOT LINUX_FD_CLOEXEC\<rparr>]"
proof -
  have ne: "nat oldfd \<noteq> nat newfd" using assms by simp
  have idem: "x\<lparr>fd_flags := f, vfs_abs_path := []\<rparr> = x\<lparr>fd_flags := f\<rparr>" if "vfs_abs_path x = []" for x :: linux_fd_entry and f
    using that by (intro linux_fd_entry.equality) simp_all
  show ?thesis
    using assms(1-5) ne
    by (auto simp: idem dup2_table_def e_def Let_def linux_fs_entry_store_def linux_fs_dir_path_dup_def linux_fs_dir_path_release_def
        linux_fs_entry_load_def intro!: nth_equalityI)
qed

lemma close_vfs:
  assumes "0 \<le> fd" "nat fd < length (fds t)" and e: "e = fds t ! nat fd" "kind e = LINUX_FD_VFS" "vfs_handle e \<noteq> 0"
  obtains t2 where "linux_fd_close fd (t, w) =
      (0, t2, if handle_fds t (vfs_handle e) = 1 then linux_fs_release_vfs_handle (vfs_handle e) w else w)"
    "\<forall>x. handle_fds t2 x + of_bool (x = vfs_handle e) = handle_fds t x"
    "length (fds t2) = length (fds t)" "\<forall>k. k \<noteq> nat fd \<longrightarrow> fds t2 ! k = fds t ! k"
proof -
  define t1 where "t1 = (if is_dir e then linux_fs_dir_path_release t fd else t)"
  define t2 where "t2 = linux_fs_entry_store t1 fd (clear_entry e)"
  have t1: "handle_fds t1 = handle_fds t" "nat fd < length (fds t1)" "length (fds t1) = length (fds t)"
      "kind (fds t1 ! nat fd) = LINUX_FD_VFS" "vfs_handle (fds t1 ! nat fd) = vfs_handle e"
    using assms by (simp_all add: t1_def dir_path_release_fds)
  have keep: "k \<noteq> nat fd \<Longrightarrow> fds t1 ! k = fds t ! k" for k
    using assms by (auto simp: t1_def linux_fs_dir_path_release_def linux_fs_entry_store_def split: option.splits)
  have h: "handle_fds t2 x + of_bool (x = vfs_handle e) = handle_fds t x" for x
    using handle_fds_store [OF t1(2), of "clear_entry e" x] t1 by (auto simp: t2_def refers_handle_def)
  have "handle_fds t (vfs_handle e) = 1 \<longleftrightarrow> \<not> linux_fs_handle_in_use t2 (vfs_handle e)"
    using h [of "vfs_handle e"] e(3) by (auto simp: handle_fds_zero)
  then have "linux_fd_close fd (t, w) =
      (0, t2, if handle_fds t (vfs_handle e) = 1 then linux_fs_release_vfs_handle (vfs_handle e) w else w)"
    using assms by (simp add: linux_fd_close_def linux_fs_fd_capacity_def linux_fs_entry_load_def Let_def t1_def t2_def)
  then show ?thesis
    by (rule that) (use h t1 keep in \<open>auto simp: t2_def linux_fs_entry_store_def\<close>)
qed

text \<open>A table with one open file and one open directory, for the examples below.\<close>

definition file_table :: fd_table where
  "file_table = \<lparr>cwd = ''/'', fds = [fd_zero\<lparr>kind := LINUX_FD_VFS, vfs_handle := 1\<rparr>, fd_zero]\<rparr>"

definition dir_table :: fd_table where
  "dir_table = \<lparr>cwd = ''/'', fds = [fd_zero\<lparr>kind := LINUX_FD_VFS, vfs_handle := 1, fd_flags := LINUX_FD_CLOEXEC, is_dir := True,
     vfs_abs_path := ''/tmp''\<rparr>, fd_zero]\<rparr>"

definition file_world :: fs_world where
  "file_world = \<lparr>w_pipes = (\<lambda>_. None), w_handles = [handle_zero, handle_zero\<lparr>in_use := True, refcnt := 1\<rparr>]\<rparr>"

lemma file_world_ok:
  "world_ok file_world" "hrefs file_world h = of_bool (h = 1)" "ends file_world i r = 0"
  "handle_fds file_table h = of_bool (h = 1)" "pipe_fds file_table i r = 0"
  by (auto simp: world_ok_def file_world_def pipes_inv_def handle_inv_def handle_refs_def vfs_handle_get_def handle_zero_def nth_Cons'
      ends_def file_table_def handle_fds_def pipe_fds_def refers_handle_def refers_pipe_def fd_zero_def)

section \<open>Properties\<close>

definition world_init :: fs_world where
  "world_init = \<lparr>w_pipes = (\<lambda>_. None), w_handles = [handle_zero]\<rparr>"

lemma fds_inv_init:
  assumes "linux_fs_init_state True = (REND_SUCCESS, Some t0)"
  shows "fds_inv ([t0], world_init)"
  using init_state_fds [OF assms] handle_inv_init
  by (simp add: fds_inv_def world_ok_def world_init_def pipes_inv_def ends_def)

lemma sum_list_pos_iff: "(0 :: nat) < sum_list (map f xs) \<longleftrightarrow> (\<exists>x\<in>set xs. 0 < f x)"
  by (induction xs) auto

lemma handle_live:
  assumes "fds_inv (ts, w)" "t \<in> set ts" "e \<in> set (fds t)" "refers_handle h e" "h \<noteq> 0"
  shows "vfs_handle_get h (w_handles w) \<noteq> None"
proof -
  have "0 < handle_fds t h" using assms(3,4) by (auto simp: handle_fds_def filter_empty_conv)
  then have "0 < (\<Sum>t\<leftarrow>ts. handle_fds t h)" using assms(2) sum_list_pos_iff by blast
  then have "0 < hrefs w h" using assms(1,5) by (simp add: fds_inv_def) (metis order_less_le_trans)
  then show ?thesis using assms(1) handle_refs_pos by (auto simp: fds_inv_def world_ok_def)
qed

text \<open>C1. Whatever sequence of descriptor operations, forks, exits and reaps the processes run, from the
  table of the first process on, as long as no thread that leaves \<^verbatim>\<open>sys_exit\<close> has other threads of its process
  behind it while the process holds files or pipes, and no process that held some when it left \<^verbatim>\<open>sys_exit\<close>
  has been reaped (both release references twice): every pipe counts exactly the read ends and the write ends that
  descriptors of the tables in use hold, a slot that no descriptor refers to is free (so a reader sees end of
  file, and a writer the broken pipe, exactly when the other side has no descriptor left), and a
  descriptor never refers to a closed handle of the VFS server.\<close>

theorem fd_system_counted:
  assumes init: "linux_fs_init_state True = (REND_SUCCESS, Some t0)" and steps: "fd_step\<^sup>*\<^sup>* ([t0], [], world_init, False) (ts, zs, w, False)"
  shows "(case w_pipes w i of
            Some p \<Rightarrow> p_readers p = (\<Sum>t\<leftarrow>ts. pipe_fds t i True) \<and> p_writers p = (\<Sum>t\<leftarrow>ts. pipe_fds t i False)
              \<and> (\<exists>t\<in>set ts. \<exists>r. 0 < pipe_fds t i r)
          | None \<Rightarrow> \<forall>t\<in>set ts. \<forall>r. pipe_fds t i r = 0)
    \<and> (\<forall>t\<in>set ts. \<forall>e\<in>set (fds t). kind e = LINUX_FD_VFS \<and> vfs_handle e \<noteq> 0 \<longrightarrow> vfs_handle_get (vfs_handle e) (w_handles w) \<noteq> None)"
proof -
  have "system_inv (ts, zs, w, False)"
    using steps by (induction rule: rtranclp_induct) (use fds_inv_init [OF init] fd_step_inv in \<open>auto simp: system_inv_def\<close>)
  then have inv: "fds_inv (ts, w)" by (simp add: system_inv_def)
  have e: "ends w i r = (\<Sum>t\<leftarrow>ts. pipe_fds t i r)" for r using inv by (simp add: fds_inv_def)
  have "case w_pipes w i of
            Some p \<Rightarrow> p_readers p = (\<Sum>t\<leftarrow>ts. pipe_fds t i True) \<and> p_writers p = (\<Sum>t\<leftarrow>ts. pipe_fds t i False)
              \<and> (\<exists>t\<in>set ts. \<exists>r. 0 < pipe_fds t i r)
          | None \<Rightarrow> \<forall>t\<in>set ts. \<forall>r. pipe_fds t i r = 0"
  proof (cases "w_pipes w i")
    case None
    then have "\<not> 0 < (\<Sum>t\<leftarrow>ts. pipe_fds t i r)" for r using e [of r] by (simp add: ends_def)
    then show ?thesis using None by (auto simp: sum_list_pos_iff simp del: sum_list_eq_0_iff)
  next
    case (Some p)
    have rw: "p_readers p = (\<Sum>t\<leftarrow>ts. pipe_fds t i True)" "p_writers p = (\<Sum>t\<leftarrow>ts. pipe_fds t i False)"
      using e [of True] e [of False] Some by (simp_all add: ends_def)
    have "pipes_inv (w_pipes w)" using inv by (simp add: fds_inv_def world_ok_def)
    then have "0 < p_readers p \<or> 0 < p_writers p" using pipes_invD Some by (fastforce simp: slot_ok_def)
    then have "\<exists>t\<in>set ts. \<exists>r. 0 < pipe_fds t i r" unfolding rw sum_list_pos_iff by blast
    then show ?thesis using Some rw by simp
  qed
  then show ?thesis using handle_live [OF inv] by (auto simp: refers_handle_def)
qed

lemma first_pipe:
  assumes "linux_fs_init_state True = (REND_SUCCESS, Some t0)"
  obtains ret pr t w where "linux_pipe_create2 True True True 0 (t0, world_init) = (ret, pr, t, w)"
    "w_pipes w 0 = Some new_pipe" "room_for t w"
proof -
  define re where "re = fd_zero\<lparr>kind := LINUX_FD_PIPE, vfs_handle := 0, pipe_read := True, open_flags := 0, fd_flags := 0\<rparr>"
  define we where "we = re\<lparr>pipe_read := False\<rparr>"
  obtain rfd t1 where a1: "linux_fd_alloc True re t0 = (rfd, t1)" by fastforce
  obtain wfd t where a2: "linux_fd_alloc True we t1 = (wfd, t)" by fastforce
  have fd: "0 \<le> rfd" "0 \<le> wfd" using fd_alloc_grows [of re t0] fd_alloc_grows [of we t1] a1 a2 by simp_all
  have no: "\<not> refers_handle h re" "\<not> refers_handle h we" for h by (simp_all add: re_def we_def refers_handle_def)
  have "handle_fds t h = 0" for h
    using fd_alloc_effect(2) [OF a1 fd(1), of 0 True h] fd_alloc_effect(2) [OF a2 fd(2), of 0 True h] no init_state_fds(2) [OF assms] by simp
  moreover have "hrefs world_init h = 0" for h
    by (simp add: world_init_def handle_refs_def vfs_handle_get_def handle_zero_def)
  ultimately have room: "room_for t (world_init\<lparr>w_pipes := w_pipes'\<rparr>)" for w_pipes' by (simp add: room_for_def)
  have "linux_pipe_alloc_slot True (w_pipes world_init) = (0, (w_pipes world_init)(0 := Some new_pipe))"
    unfolding linux_pipe_alloc_slot_def by (subst upt_conv_Cons) (simp_all add: world_init_def)
  then have "linux_pipe_create2 True True True 0 (t0, world_init) =
      (0, Some (rfd, wfd), t, world_init\<lparr>w_pipes := (w_pipes world_init)(0 := Some new_pipe)\<rparr>)"
    using a1 a2 fd by (simp add: linux_pipe_create2_def Let_def re_def we_def)
  then show ?thesis by (rule that) (use room in simp_all)
qed

theorem fd_system_counted_witness:
  "\<exists>t0 t z w. linux_fs_init_state True = (REND_SUCCESS, Some t0)
     \<and> fd_step\<^sup>*\<^sup>* ([t0], [], world_init, False) ([t], [z], w, False)
     \<and> 0 < pipe_fds z 0 True + pipe_fds z 0 False
     \<and> map_option p_readers (w_pipes w 0) = Some (pipe_fds t 0 True)"
proof -
  obtain t0 where i: "linux_fs_init_state True = (REND_SUCCESS, Some t0)"
    by (simp add: linux_fs_init_state_def linux_fs_table_create_def Let_def)
  obtain ret pr t w where run: "linux_pipe_create2 True True True 0 (t0, world_init) = (ret, pr, t, w)"
    and p0: "w_pipes w 0 = Some new_pipe" and room: "room_for t w" using first_pipe [OF i] .
  have "table_step ([t0], world_init) ([t], w)" using table_step.pipe2 [of 0 "[t0]"] run by fastforce
  then have st: "fd_step\<^sup>*\<^sup>* ([t0], [], world_init, False) ([t], [], w, False)" by (blast intro: fd_step.operation)
  from fd_system_counted [OF i st, of 0] p0 obtain r where r: "0 < pipe_fds t 0 r" by auto
  define w1 where "w1 = linux_fs_fork_retain_resources t w"
  have "linux_fs_proc_fork True True None (Some (Some t)) w = (REND_SUCCESS, Some (Some t), w1)"
    by (simp add: linux_fs_proc_fork_def linux_fs_fork_copy_state_def w1_def)
  then have "table_step ([t], w) ([t, t], w1)" using table_step.fork [of 0 "[t]" w True True t w1] room by simp
  then have st1: "fd_step\<^sup>*\<^sup>* ([t0], [], world_init, False) ([t, t], [], w1, False)"
    using st by (blast intro: fd_step.operation rtranclp.rtrancl_into_rtrancl)
  have inv: "fds_inv ([t, t], w1)"
    using rtranclp_induct [OF st1, of system_inv] fds_inv_init [OF i] fd_step_inv by (auto simp: system_inv_def)
  obtain z w2 where rel: "linux_fs_release_open_resources t w1 = (z, w2)" by fastforce
  have z: "pipe_fds z = pipe_fds t"
    using ref_view_fds [OF release_all(1) [OF fds_inv_covered(2) [OF inv, of 0] _ rel]] fds_inv_covered(1) [OF inv, of 0] by simp
  have "fd_step ([t, t], [], w1, False) ([t], [z], w2, False)"
    using fd_step.exit [of 1 "[t, t]" w1 z w2 "[]" False] rel by (simp add: linux_fs_proc_release_for_exit_def)
  with st1 have st2: "fd_step\<^sup>*\<^sup>* ([t0], [], world_init, False) ([t], [z], w2, False)" by simp
  have "0 < pipe_fds z 0 True + pipe_fds z 0 False" using r z by (cases r) simp_all
  moreover have "map_option p_readers (w_pipes w2 0) = Some (pipe_fds t 0 True)"
    using fd_system_counted [OF i st2, of 0] r by (cases "w_pipes w2 0") auto
  ultimately show ?thesis using i st2 by blast
qed

text \<open>Closing one of two descriptors of a handle does not close the handle, but closing both leaks
  one reference: \<^verbatim>\<open>linux_fd_dup2\<close> retains the handle for every descriptor, while \<^verbatim>\<open>linux_fd_close\<close> releases
  it only with the last descriptor of the table. After \<^verbatim>\<open>dup2\<close> and both \<^verbatim>\<open>close\<close> calls the only reference of an open
  file is still counted and no descriptor holds it.\<close>

lemma dup_close_leaks:
  assumes ok: "world_ok w" and old: "linux_fd_get t oldfd = Some e" "kind e = LINUX_FD_VFS" "vfs_handle e = h" "h \<noteq> 0"
    and only: "handle_fds t h = 1" "hrefs w h = 1"
    and new: "0 \<le> newfd" "nat newfd < length (fds t)" "linux_fd_get t newfd = None"
    and run: "linux_fd_dup2 g oldfd newfd (t, w) = (r1, t1, w1)" "linux_fd_close newfd (t1, w1) = (r2, t2, w2)"
      "linux_fd_close oldfd (t2, w2) = (r3, t3, w3)"
  shows "r1 = newfd \<and> r2 = 0 \<and> r3 = 0 \<and> handle_fds t3 h = 0 \<and> hrefs w2 h = 2 \<and> hrefs w3 h = 1"
proof -
  note o = fd_get_SomeD [OF old(1)]
  have "oldfd \<noteq> newfd" using old(1) new(3) by auto
  then have fd: "0 \<le> oldfd" "0 \<le> newfd" "oldfd \<noteq> newfd" "nat oldfd < length (fds t)" "nat oldfd \<noteq> nat newfd"
    using o new(1) by (simp_all add: eq_nat_nat_iff)
  have room: "dup2_room g newfd t = Some t" using new by (simp add: dup2_room_def linux_fs_fd_capacity_def)
  have nk: "kind (fds t ! nat newfd) = LINUX_FD_NONE"
    using new by (auto simp: linux_fd_get_def linux_fs_fd_capacity_def linux_fs_entry_load_def split: if_splits)
  have eq: "e = fds t ! nat oldfd" "kind (fds t ! nat oldfd) \<noteq> LINUX_FD_NONE" using o by auto
  have d: "r1 = newfd" "t1 = dup2_table oldfd newfd t" "w1 = dup_world e (fds t ! nat newfd) t1 w"
    using dup2_success [OF fd(1-3) room fd(4) eq(2), of w] run(1) by (simp_all add: eq(1))
  note dw = dup_world_effect [OF ok, where newent = "fds t ! nat newfd" and oldent = e and tn = t1, folded d(3)]
  have "world_ok w1" and w1: "hrefs w1 h = 2"
    using dw(1) dw(3) [of h] nk old only
    by (simp_all add: refers_handle_def)
  have t1: "handle_fds t1 h = 2"
    using dup_entry_fds(2) [OF fd(1-3) new(2) fd(4), of "fd_flags (fds t ! nat oldfd) AND NOT LINUX_FD_CLOEXEC" h,
        folded dup2_table_def [unfolded Let_def], folded d(2)] old(2,3) only(1) nk
    by (simp add: eq(1) refers_handle_def)
  note f = dup2_table_entries [OF fd(1-3) new(2) fd(4), folded d(2)]
  have e1: "kind (fds t1 ! nat newfd) = LINUX_FD_VFS" "vfs_handle (fds t1 ! nat newfd) = h" "fds t1 ! nat oldfd = e" "length (fds t1) = length (fds t)"
    using f o old(2,3) new(2) fd(5) by auto
  have nl: "nat newfd < length (fds t1)" "vfs_handle (fds t1 ! nat newfd) \<noteq> 0" using new(2) e1 old(4) by simp_all
  obtain tc where tc: "linux_fd_close newfd (t1, w1) = (0, tc, w1)" "\<forall>x. handle_fds tc x + of_bool (x = h) = handle_fds t1 x"
      "length (fds tc) = length (fds t1)" "\<forall>k. k \<noteq> nat newfd \<longrightarrow> fds tc ! k = fds t1 ! k"
    by (rule close_vfs [OF new(1) nl(1) refl e1(1) nl(2), of w1]) (simp add: e1(2) t1)
  have c: "handle_fds tc h = 1" "nat oldfd < length (fds tc)" "e = fds tc ! nat oldfd" "vfs_handle e \<noteq> 0"
    using tc(2) [rule_format, of h] tc(3,4) t1 fd(4,5) e1(3,4) old(3,4) by simp_all
  obtain td where td: "linux_fd_close oldfd (tc, w1) = (0, td, linux_fs_release_vfs_handle h w1)"
      "\<forall>x. handle_fds td x + of_bool (x = h) = handle_fds tc x"
    by (rule close_vfs [OF fd(1) c(2,3) old(2) c(4), of w1]) (simp add: old(3) c(1))
  have "handle_fds td h = 0" using td(2) [rule_format, of h] c(1) by simp
  show ?thesis
    using run tc(1) td(1) d(1) w1 release_handle_refs(2) [OF \<open>world_ok w1\<close> old(4)] \<open>handle_fds td h = 0\<close> by simp
qed

text \<open>C34. A process that exits and is then reaped gives its references back twice:
  \<^verbatim>\<open>linux_fs_proc_release_for_exit\<close> releases every descriptor but leaves the entries in the table, and
  \<^verbatim>\<open>linux_fs_proc_destroy\<close> releases the same entries again. After \<^verbatim>\<open>fork\<close> and the exit of the child the counts
  are those before; after the reap the parent's own references are gone, although it holds its
  descriptors: a file it alone has open is closed, and its pipes lose their ends.\<close>

theorem exit_reap_releases_twice:
  assumes ok: "world_ok w" and cov: "covered t w" and room: "room_for t w"
    and fork: "linux_fs_proc_fork True True None (Some (Some t)) w = (e, child, w1)"
    and exit: "linux_fs_proc_release_for_exit (child, w1) = (child2, w2)"
    and reap: "linux_fs_proc_destroy (child2, w2) = (child3, w3)"
  shows "e = REND_SUCCESS \<and> ends w2 = ends w \<and> (h \<noteq> 0 \<longrightarrow> hrefs w2 h = hrefs w h)
    \<and> child3 = None \<and> ends w3 i r = ends w i r - pipe_fds t i r \<and> (h \<noteq> 0 \<longrightarrow> hrefs w3 h = hrefs w h - handle_fds t h)"
proof -
  have f: "e = REND_SUCCESS" "child = Some (Some t)" "w1 = linux_fs_fork_retain_resources t w"
    using fork by (auto simp: linux_fs_proc_fork_def linux_fs_fork_copy_state_def)
  note a = retain_all [OF ok cov room, folded f(3)]
  have cov1: "covered t w1" using cov a(2,3) by (simp add: covered_def trans_le_add1)
  obtain t2 where t2: "linux_fs_release_open_resources t w1 = (t2, w2)" "child2 = Some (Some t2)"
    using exit by (auto simp: linux_fs_proc_release_for_exit_def f(2) split: prod.splits)
  note b = release_all [OF a(1) cov1 t2(1)]
  have same: "pipe_fds t2 = pipe_fds t" "handle_fds t2 = handle_fds t" using ref_view_fds [OF b(1)] by simp_all
  have w2: "ends w2 j q = ends w j q" "k \<noteq> 0 \<Longrightarrow> hrefs w2 k = hrefs w k" for j q k
    using a(2) [of j q] b(3) [of j q] a(3) [of k] b(4) [of k] by simp_all
  have cov2: "covered t2 w2" using cov w2 same by (simp add: covered_def)
  obtain t3 where t3: "linux_fs_release_open_resources t2 w2 = (t3, w3)" "child3 = None"
    using reap by (auto simp: linux_fs_proc_destroy_def t2(2) prod_eq_iff)
  note c = release_all [OF b(2) cov2 t3(1), unfolded same]
  have "ends w3 i r = ends w i r - pipe_fds t i r" using c(3) [of i r] w2(1) [of i r] by linarith
  moreover have "hrefs w3 h = hrefs w h - handle_fds t h" if "h \<noteq> 0" using c(4) [OF that] w2(2) [OF that] by linarith
  ultimately show ?thesis using f(1) t3(2) w2 by (auto simp: fun_eq_iff)
qed

theorem exit_reap_releases_twice_witness:
  "case linux_fs_proc_fork True True None (Some (Some file_table)) file_world of (e, child, w1) \<Rightarrow>
     hrefs (snd (linux_fs_proc_destroy (linux_fs_proc_release_for_exit (child, w1)))) 1 = 0
     \<and> handle_fds file_table 1 = 1"
proof -
  obtain e child w1 where a: "linux_fs_proc_fork True True None (Some (Some file_table)) file_world = (e, child, w1)" by (metis prod_cases3)
  obtain c2 w2 where b: "linux_fs_proc_release_for_exit (child, w1) = (c2, w2)" by fastforce
  obtain c3 w3 where c: "linux_fs_proc_destroy (c2, w2) = (c3, w3)" by fastforce
  have "covered file_table file_world" "room_for file_table file_world"
    by (simp_all add: covered_def room_for_def file_world_ok)
  from exit_reap_releases_twice [OF file_world_ok(1) this a b c, of 1] show ?thesis
    using a b c by (simp add: file_world_ok)
qed

text \<open>A successful \<^verbatim>\<open>dup2\<close> to another descriptor changes exactly the entry of the new descriptor,
  growing the table when needed: it becomes the old entry with close-on-exec cleared, except
  that a directory with a known path keeps the flag, because its path is duplicated by storing the old
  entry again.\<close>

lemma dup2_entry:
  assumes run: "linux_fd_dup2 g oldfd newfd (t, w) = (ret, t', w')" and ok: "0 \<le> ret" and ne: "oldfd \<noteq> newfd"
  shows "ret = newfd \<and> (\<exists>e. linux_fd_get t oldfd = Some e
      \<and> linux_fd_get t' newfd = Some (if is_dir e \<and> vfs_abs_path e \<noteq> [] then e else e\<lparr>fd_flags := fd_flags e AND NOT LINUX_FD_CLOEXEC\<rparr>)
      \<and> (\<forall>k. k \<noteq> newfd \<longrightarrow> linux_fd_get t' k = linux_fd_get t k))"
  using run ne
proof (cases rule: dup2_cases)
  case fail
  then show ?thesis using ok by simp
next
  case (copied t1)
  note get = dup2_room_get [OF copied(3)]
  have b: "nat newfd < length (fds t1)" by (rule dup2_roomD(3) [OF copied(3,2)])
  define e where "e = fds t1 ! nat oldfd"
  have old: "linux_fd_get t oldfd = Some e"
    using copied(1,4,5) unfolding get [symmetric] by (simp add: linux_fd_get_def linux_fs_fd_capacity_def linux_fs_entry_load_def e_def)
  note f = dup2_table_entries [OF copied(1,2) ne b copied(4), folded copied(7), folded e_def]
  have "linux_fd_get t' newfd = Some (if is_dir e \<and> vfs_abs_path e \<noteq> [] then e else e\<lparr>fd_flags := fd_flags e AND NOT LINUX_FD_CLOEXEC\<rparr>)"
    using b copied(2,5) by (simp add: linux_fd_get_def linux_fs_fd_capacity_def linux_fs_entry_load_def f e_def)
  moreover have "linux_fd_get t' k = linux_fd_get t k" if "k \<noteq> newfd" for k
    using that copied(2) f unfolding get [symmetric] by (simp add: linux_fd_get_def linux_fs_fd_capacity_def linux_fs_entry_load_def)
  ultimately show ?thesis using old copied(6) by simp
qed

end
