(* ===== verification/Proc_Registry.thy ===== *)
theory Proc_Registry
  imports Prelude "HOL-Library.Monad_Syntax"
begin

text \<open>
  The registry of processes (\<^verbatim>\<open>linux_layer/proc/sys_proc_registry.c\<close>): the decimal names under which
  processes and their wait ports are registered, and the table from process identifiers to
  processes. The table is built on the \<^verbatim>\<open>name_index\<close> of the kernel core, which is a parameter: a record
  of its operations, with their documented behaviour as the locale \<open>name_index_api\<close>. A process is its
  address. The scans over process identifiers (\<^verbatim>\<open>proc_reparent_children\<close> and others) need the
  processes themselves and are in the theory of process exit.

  The lemmas show that names are injective, that the eviction loop ends, and that registration and
  unregistration refine the update of a finite map.
\<close>

section \<open>Names\<close>

text \<open>The decimal digits, least significant first, at most \<open>k\<close> of them.\<close>

fun dec_rev :: "nat \<Rightarrow> nat \<Rightarrow> string" where
  "dec_rev 0 v = []"
| "dec_rev (Suc k) v = (if v = 0 then [] else char_of (0x30 + v mod 10) # dec_rev k (v div 10))"

text \<open>The returned length and the string left in the buffer.\<close>

definition proc_format_pid :: "nat \<Rightarrow> int \<Rightarrow> nat \<times> string" where
  "proc_format_pid bufsize pid =
     (let v = nat (pid mod 2 ^ 64) in
      if bufsize = 0 then (0, [])
      else if v = 0 then (if 2 \<le> bufsize then (1, ''0'') else (0, []))
      else
        let r = dec_rev 32 v in
        if bufsize < length r + 1 then (0, []) else (length r, rev r))"

definition proc_format_wait_port_name :: "nat \<Rightarrow> int \<Rightarrow> nat \<times> string" where
  "proc_format_wait_port_name bufsize pid =
     (if bufsize < 11 then (0, [])
      else case proc_format_pid (bufsize - 10) pid of
        (pid_len, digits) \<Rightarrow> if pid_len = 0 then (0, []) else (10 + pid_len, ''wait_port_'' @ digits))"

abbreviation PROC_WAIT_PORT_NAME_MAX :: nat where "PROC_WAIT_PORT_NAME_MAX \<equiv> 32"

section \<open>The table\<close>

text \<open>
  Operations of the core's \<^verbatim>\<open>name_index\<close>: lookup of a name gives a value and its row, if the row is
  valid; registration of a value under its name may fail; unregistration takes the value, its row
  and its name.
\<close>

record 'ix name_index_ops =
  ni_lookup :: "'ix \<Rightarrow> string \<Rightarrow> (nat \<times> nat option) option"
  ni_register :: "'ix \<Rightarrow> nat \<Rightarrow> string \<Rightarrow> bool \<times> 'ix"
  ni_unregister :: "'ix \<Rightarrow> nat \<Rightarrow> nat \<Rightarrow> string \<Rightarrow> 'ix"

definition task_get_name :: "int \<Rightarrow> string" where
  "task_get_name pid = snd (proc_format_pid 16 pid)"

text \<open>The eviction loop; that it ends depends on the index, so that not returning is \<open>None\<close>.\<close>

partial_function (option) evict_loop :: "'ix name_index_ops \<Rightarrow> string \<Rightarrow> nat option \<Rightarrow> 'ix \<Rightarrow> 'ix option" where
  "evict_loop ops name only_task ix =
     (case ni_lookup ops ix name of
        None \<Rightarrow> Some ix
      | Some (existing, row) \<Rightarrow>
          (case row of
             None \<Rightarrow> Some ix
           | Some r \<Rightarrow>
               if only_task \<noteq> None \<and> only_task \<noteq> Some existing
               then evict_loop ops name only_task (ni_unregister ops ix existing r name)
               else evict_loop ops name only_task (ni_unregister ops ix existing r name)))"

declare evict_loop.simps [simp del]

definition proc_registry_evict_pid :: "'ix name_index_ops \<Rightarrow> int \<Rightarrow> nat option \<Rightarrow> 'ix \<Rightarrow> 'ix option" where
  "proc_registry_evict_pid ops pid only_task ix =
     (if pid \<le> 0 then Some ix else evict_loop ops (snd (proc_format_pid 16 pid)) only_task ix)"

text \<open>Registration of the process at address \<open>task\<close>, whose identifier is \<open>pid\<close>.\<close>

definition register_process :: "'ix name_index_ops \<Rightarrow> int \<Rightarrow> int \<Rightarrow> nat \<Rightarrow> 'ix \<Rightarrow> (int \<times> 'ix) option" where
  "register_process ops invalid_id pid task ix =
     (if pid = invalid_id \<or> pid \<le> 0 then Some (- LINUX_EINVAL, ix)
      else case proc_registry_evict_pid ops pid None ix of
        None \<Rightarrow> None
      | Some ix1 \<Rightarrow>
          (case ni_register ops ix1 task (task_get_name pid) of
             (False, ix2) \<Rightarrow> Some (- LINUX_EAGAIN, ix2)
           | (True, ix2) \<Rightarrow> Some (0, ix2)))"

definition find_proc_by_pid :: "'ix name_index_ops \<Rightarrow> int \<Rightarrow> 'ix \<Rightarrow> nat option" where
  "find_proc_by_pid ops pid ix =
     (if pid \<le> 0 then None else map_option fst (ni_lookup ops ix (snd (proc_format_pid 16 pid))))"

definition unregister_process :: "'ix name_index_ops \<Rightarrow> int \<Rightarrow> int \<Rightarrow> nat \<Rightarrow> 'ix \<Rightarrow> 'ix option" where
  "unregister_process ops invalid_id pid task ix =
     (if pid = invalid_id then Some ix else proc_registry_evict_pid ops pid (Some task) ix)"

section \<open>What the registry relies on\<close>

text \<open>
  \<open>rows\<close> is the contents of the index: rows with their name and value. Registration adds a row and
  does not replace one of the same name; a failed registration changes nothing.
\<close>

locale name_index_api =
  fixes ops :: "'ix name_index_ops" and rows :: "'ix \<Rightarrow> (nat \<times> string \<times> nat) set"
  assumes finite_rows: "finite (rows ix)"
    and lookup_none: "ni_lookup ops ix name = None \<Longrightarrow> (r, name, v) \<notin> rows ix"
    and lookup_some: "ni_lookup ops ix name = Some (v, row) \<Longrightarrow> \<exists>r. row = Some r \<and> (r, name, v) \<in> rows ix"
    and register_ok: "ni_register ops ix v name = (True, ix') \<Longrightarrow> \<exists>r. rows ix' = insert (r, name, v) (rows ix)"
    and register_fail: "ni_register ops ix v name = (False, ix') \<Longrightarrow> rows ix' = rows ix"
    and unregister: "rows (ni_unregister ops ix v r name) = rows ix - {(r, name, v)}"
begin

lemma evict_loop_removes:
  "\<exists>ix'. evict_loop ops name only ix = Some ix' \<and> rows ix' = {x \<in> rows ix. fst (snd x) \<noteq> name}"
proof (induction "card {x \<in> rows ix. fst (snd x) = name}" arbitrary: ix rule: less_induct)
  case less
  show ?case
  proof (cases "ni_lookup ops ix name")
    case None
    then have "evict_loop ops name only ix = Some ix" by (subst evict_loop.simps) simp
    moreover have "{x \<in> rows ix. fst (snd x) \<noteq> name} = rows ix" using lookup_none [OF None] by auto
    ultimately show ?thesis by auto
  next
    case (Some res)
    then obtain v r where l: "ni_lookup ops ix name = Some (v, Some r)" and m: "(r, name, v) \<in> rows ix"
      using lookup_some by (cases res) fastforce
    let ?ix = "ni_unregister ops ix v r name"
    have step: "evict_loop ops name only ix = evict_loop ops name only ?ix"
      by (subst evict_loop.simps) (simp add: l)
    have "{x \<in> rows ?ix. fst (snd x) = name} \<subseteq> {x \<in> rows ix. fst (snd x) = name}"
      unfolding unregister by blast
    moreover have "(r, name, v) \<in> {x \<in> rows ix. fst (snd x) = name} - {x \<in> rows ?ix. fst (snd x) = name}"
      unfolding unregister using m by simp
    ultimately have "{x \<in> rows ?ix. fst (snd x) = name} \<subset> {x \<in> rows ix. fst (snd x) = name}" by blast
    then have "card {x \<in> rows ?ix. fst (snd x) = name} < card {x \<in> rows ix. fst (snd x) = name}"
      using finite_rows by (intro psubset_card_mono) auto
    from less [OF this] show ?thesis unfolding step by (auto simp: unregister)
  qed
qed

text \<open>The map of names that the rows of an index describe, when no name has two values.\<close>

definition functional :: "'ix \<Rightarrow> bool" where
  "functional ix \<longleftrightarrow> (\<forall>r r' n v v'. (r, n, v) \<in> rows ix \<longrightarrow> (r', n, v') \<in> rows ix \<longrightarrow> v = v')"

lemma lookup_value:
  assumes "functional ix" "(r, n, v) \<in> rows ix"
  shows "map_option fst (ni_lookup ops ix n) = Some v"
  using assms lookup_none [of ix n r v] lookup_some [of ix n]
  by (cases "ni_lookup ops ix n") (force simp: functional_def)+

lemma lookup_value_iff:
  assumes "functional ix"
  shows "map_option fst (ni_lookup ops ix n) = Some v \<longleftrightarrow> (\<exists>r. (r, n, v) \<in> rows ix)"
  using lookup_value [OF assms] lookup_some [of ix n] by fastforce

lemma lookup_eqI:
  assumes "functional ix" "functional ix'" "\<And>v. (\<exists>r. (r, n, v) \<in> rows ix) \<longleftrightarrow> (\<exists>r. (r, n, v) \<in> rows ix')"
  shows "map_option fst (ni_lookup ops ix n) = map_option fst (ni_lookup ops ix' n)"
  using lookup_value_iff [OF assms(1), of n] lookup_value_iff [OF assms(2), of n] assms(3)
  by (metis not_None_eq)

end

section \<open>Names are injective\<close>

definition dec_value :: "string \<Rightarrow> nat" where
  "dec_value ds = foldr (\<lambda>c v. (of_char c - 0x30) + 10 * v) ds 0"

lemma dec_value_rev: "v < 10 ^ k \<Longrightarrow> dec_value (dec_rev k v) = v"
proof (induction k v rule: dec_rev.induct)
  case (2 k v)
  have "v div 10 < 10 ^ k" using 2(2) by (simp add: less_mult_imp_div_less)
  then show ?case using 2(1) by (cases "v = 0") (auto simp: dec_value_def)
qed (simp add: dec_value_def)

lemma dec_rev_length: "v < 10 ^ j \<Longrightarrow> length (dec_rev k v) \<le> j"
proof (induction k v arbitrary: j rule: dec_rev.induct)
  case (2 k v)
  show ?case
  proof (cases "v = 0")
    case False
    then obtain i where j: "j = Suc i" using 2(2) by (cases j) auto
    then have "v div 10 < 10 ^ i" using 2(2) by (simp add: less_mult_imp_div_less)
    then show ?thesis using 2(1) [OF False] j by simp
  qed simp
qed simp

lemma format_pid_digits:
  assumes "0 < pid" "pid < 10 ^ 15"
  shows "proc_format_pid 16 pid = (length (dec_rev 32 (nat pid)), rev (dec_rev 32 (nat pid)))"
    and "dec_value (dec_rev 32 (nat pid)) = nat pid"
proof -
  have m: "pid mod 2 ^ 64 = pid" using assms by (intro mod_pos_pos_trivial) auto
  have v: "nat pid < 10 ^ 15" using assms by (auto simp: nat_less_iff)
  have "length (dec_rev 32 (nat pid)) \<le> 15" by (rule dec_rev_length [OF v])
  then show "proc_format_pid 16 pid = (length (dec_rev 32 (nat pid)), rev (dec_rev 32 (nat pid)))"
    using assms(1) unfolding proc_format_pid_def m by (simp add: Let_def)
  show "dec_value (dec_rev 32 (nat pid)) = nat pid" using v by (intro dec_value_rev) simp
qed

lemma format_pid_inj:
  assumes "0 < p" "p < 10 ^ 15" "0 < q" "q < 10 ^ 15"
  shows "snd (proc_format_pid 16 p) = snd (proc_format_pid 16 q) \<longleftrightarrow> p = q"
  using format_pid_digits [OF assms(1,2)] format_pid_digits [OF assms(3,4)] assms
  by (metis eq_nat_nat_iff order_less_imp_le rev_is_rev_conv snd_conv)

lemma wait_port_name_inj:
  assumes "0 < p" "p < 10 ^ 15" "0 < q" "q < 10 ^ 15"
  shows "snd (proc_format_wait_port_name PROC_WAIT_PORT_NAME_MAX p) = snd (proc_format_wait_port_name PROC_WAIT_PORT_NAME_MAX q) \<longleftrightarrow> p = q"
proof -
  have name: "snd (proc_format_wait_port_name PROC_WAIT_PORT_NAME_MAX x) = ''wait_port_'' @ rev (dec_rev 32 (nat x))"
    and val: "dec_value (dec_rev 32 (nat x)) = nat x" if "0 < x" "x < 10 ^ 15" for x
  proof -
    have m: "x mod 2 ^ 64 = x" using that by (intro mod_pos_pos_trivial) auto
    have "nat x < 10 ^ 15" using that by (auto simp: nat_less_iff)
    then have l: "length (dec_rev 32 (nat x)) \<le> 15" by (rule dec_rev_length)
    show val: "dec_value (dec_rev 32 (nat x)) = nat x" by (rule format_pid_digits(2) [OF that])
    have "dec_rev 32 (nat x) \<noteq> []" using val that(1) by (auto simp: dec_value_def)
    then show "snd (proc_format_wait_port_name PROC_WAIT_PORT_NAME_MAX x) = ''wait_port_'' @ rev (dec_rev 32 (nat x))"
      using l that(1) unfolding proc_format_wait_port_name_def proc_format_pid_def m by (simp add: Let_def)
  qed
  show ?thesis
    using name [OF assms(1,2)] name [OF assms(3,4)] val [OF assms(1,2)] val [OF assms(3,4)] assms
    by (metis eq_nat_nat_iff order_less_imp_le rev_is_rev_conv same_append_eq)
qed

context name_index_api
begin

lemma evict_pid_effect:
  assumes f: "functional ix" and pid: "0 < pid" "pid < 10 ^ 15"
  shows "\<exists>ix'. proc_registry_evict_pid ops pid only ix = Some ix' \<and> functional ix'
    \<and> (\<forall>q. 0 < q \<longrightarrow> q < 10 ^ 15 \<longrightarrow> find_proc_by_pid ops q ix' = (if q = pid then None else find_proc_by_pid ops q ix))
    \<and> (\<forall>r v. (r, task_get_name pid, v) \<notin> rows ix')"
proof -
  let ?n = "task_get_name pid"
  obtain ix' where run: "evict_loop ops ?n only ix = Some ix'" and rows: "rows ix' = {x \<in> rows ix. fst (snd x) \<noteq> ?n}"
    using evict_loop_removes by blast
  have f': "functional ix'" using f unfolding functional_def rows by fastforce
  have "find_proc_by_pid ops q ix' = (if q = pid then None else find_proc_by_pid ops q ix)" if q: "0 < q" "q < 10 ^ 15" for q
  proof (cases "q = pid")
    case True
    have "map_option fst (ni_lookup ops ix' ?n) \<noteq> Some v" for v
      using lookup_value_iff [OF f', of ?n v] by (auto simp: rows)
    then have "map_option fst (ni_lookup ops ix' ?n) = None"
      by (cases "map_option fst (ni_lookup ops ix' ?n)") auto
    then show ?thesis using True by (simp add: find_proc_by_pid_def task_get_name_def)
  next
    case False
    have ne: "snd (proc_format_pid 16 q) \<noteq> ?n" using format_pid_inj [OF q pid] False by (simp add: task_get_name_def)
    have "map_option fst (ni_lookup ops ix' (snd (proc_format_pid 16 q))) = map_option fst (ni_lookup ops ix (snd (proc_format_pid 16 q)))"
      by (rule lookup_eqI [OF f' f]) (use ne in \<open>auto simp: rows\<close>)
    then show ?thesis using False q by (simp add: find_proc_by_pid_def)
  qed
  moreover have "proc_registry_evict_pid ops pid only ix = Some ix'"
    using run pid by (simp add: proc_registry_evict_pid_def task_get_name_def)
  ultimately show ?thesis using f' rows by auto
qed

lemma register_effect:
  assumes f: "functional ix" and pid: "0 < pid" "pid < 10 ^ 15" "pid \<noteq> invalid"
  shows "\<exists>r ix'. register_process ops invalid pid task ix = Some (r, ix') \<and> functional ix' \<and> (r = 0 \<or> r = - LINUX_EAGAIN)
    \<and> (\<forall>q. 0 < q \<longrightarrow> q < 10 ^ 15 \<longrightarrow> find_proc_by_pid ops q ix' =
          (if q = pid then (if r = 0 then Some task else None) else find_proc_by_pid ops q ix))"
proof -
  let ?n = "task_get_name pid"
  obtain ix1 where ev: "proc_registry_evict_pid ops pid None ix = Some ix1" "functional ix1"
      and find1: "\<forall>q. 0 < q \<longrightarrow> q < 10 ^ 15 \<longrightarrow> find_proc_by_pid ops q ix1 = (if q = pid then None else find_proc_by_pid ops q ix)"
      and gone: "\<forall>r v. (r, ?n, v) \<notin> rows ix1"
    using evict_pid_effect [OF f pid(1,2), of None] by blast
  obtain ok ix' where reg: "ni_register ops ix1 task ?n = (ok, ix')" by fastforce
  have run: "register_process ops invalid pid task ix = Some (if ok then 0 else - LINUX_EAGAIN, ix')"
    using ev(1) reg pid by (auto simp: register_process_def split: bool.splits)
  show ?thesis
  proof (cases ok)
    case True
    then obtain r where rows: "rows ix' = insert (r, ?n, task) (rows ix1)" using register_ok [of ix1 task ?n ix'] reg by auto
    then have f': "functional ix'" using ev(2) gone unfolding functional_def by auto
    have "find_proc_by_pid ops q ix' = (if q = pid then Some task else find_proc_by_pid ops q ix)" if q: "0 < q" "q < 10 ^ 15" for q
    proof (cases "q = pid")
      case True
      then show ?thesis using lookup_value [OF f', of r ?n task] rows q by (simp add: find_proc_by_pid_def task_get_name_def)
    next
      case False
      have "snd (proc_format_pid 16 q) \<noteq> ?n" using format_pid_inj [OF q pid(1,2)] False by (simp add: task_get_name_def)
      then have "map_option fst (ni_lookup ops ix' (snd (proc_format_pid 16 q))) = map_option fst (ni_lookup ops ix1 (snd (proc_format_pid 16 q)))"
        by (intro lookup_eqI [OF f' ev(2)]) (auto simp: rows)
      then show ?thesis using find1 False q by (simp add: find_proc_by_pid_def)
    qed
    then show ?thesis using run f' True by auto
  next
    case False
    then have rows: "rows ix' = rows ix1" using register_fail [of ix1 task ?n ix'] reg by simp
    then have f': "functional ix'" using ev(2) unfolding functional_def by simp
    have "map_option fst (ni_lookup ops ix' n) = map_option fst (ni_lookup ops ix1 n)" for n
      by (rule lookup_eqI [OF f' ev(2)]) (simp add: rows)
    then have "find_proc_by_pid ops q ix' = find_proc_by_pid ops q ix1" for q by (simp add: find_proc_by_pid_def)
    then show ?thesis using run f' False find1 by auto
  qed
qed

end

text \<open>A list of rows with increasing row numbers satisfies the interface.\<close>

type_synonym row_list = "nat \<times> (nat \<times> string \<times> nat) list"

definition list_index_ops :: "row_list name_index_ops" where
  "list_index_ops =
     \<lparr>ni_lookup = (\<lambda>(k, rs) name. map_option (\<lambda>(r, n, v). (v, Some r)) (find (\<lambda>(r, n, v). n = name) rs)),
      ni_register = (\<lambda>(k, rs) v name. (True, (Suc k, (k, name, v) # rs))),
      ni_unregister = (\<lambda>(k, rs) v r name. (k, filter (\<lambda>x. x \<noteq> (r, name, v)) rs))\<rparr>"

lemma find_SomeD: "find P xs = Some x \<Longrightarrow> x \<in> set xs \<and> P x"
  by (induction xs) (auto split: if_splits)

interpretation list_index: name_index_api list_index_ops "\<lambda>(k, rs). set rs"
proof unfold_locales
  fix ix :: row_list and name :: string and r v :: nat
  assume "ni_lookup list_index_ops ix name = None"
  then show "(r, name, v) \<notin> (case ix of (k, rs) \<Rightarrow> set rs)"
    by (auto simp: list_index_ops_def find_None_iff split: prod.splits)
next
  fix ix :: row_list and name :: string and v :: nat and row :: "nat option"
  assume "ni_lookup list_index_ops ix name = Some (v, row)"
  then show "\<exists>r. row = Some r \<and> (r, name, v) \<in> (case ix of (k, rs) \<Rightarrow> set rs)"
    by (cases ix) (auto simp: list_index_ops_def dest: find_SomeD)
qed (auto simp: list_index_ops_def split: prod.splits)

section \<open>Properties\<close>

text \<open>The eviction loop of the registry ends on every index, and it removes exactly the rows of the
  given name.\<close>

lemma evict_terminates:
  assumes "name_index_api ops rows"
  shows "\<exists>ix'. evict_loop ops name only ix = Some ix' \<and> rows ix' = {x \<in> rows ix. fst (snd x) \<noteq> name}"
  by (rule name_index_api.evict_loop_removes [OF assms])

text \<open>C26. The registry refines a finite map from process identifiers to processes. Registering a
  process with a valid identifier returns 0 or \<^verbatim>\<open>-EAGAIN\<close>; on success a lookup of the identifier gives
  the process, on failure nothing, and all other lookups are unchanged. Unregistering removes exactly
  that identifier.\<close>

theorem registry_refines_map:
  assumes "name_index_api ops rows" "name_index_api.functional rows ix" "0 < pid" "pid < 10 ^ 15" "pid \<noteq> invalid_id"
  shows "(\<exists>r ix'. register_process ops invalid_id pid task ix = Some (r, ix') \<and> name_index_api.functional rows ix'
      \<and> (r = 0 \<or> r = - LINUX_EAGAIN)
      \<and> (\<forall>q. 0 < q \<longrightarrow> q < 10 ^ 15 \<longrightarrow> find_proc_by_pid ops q ix' =
            (if q = pid then (if r = 0 then Some task else None) else find_proc_by_pid ops q ix)))
    \<and> (\<exists>ix'. unregister_process ops invalid_id pid task ix = Some ix' \<and> name_index_api.functional rows ix'
      \<and> (\<forall>q. 0 < q \<longrightarrow> q < 10 ^ 15 \<longrightarrow> find_proc_by_pid ops q ix' = (if q = pid then None else find_proc_by_pid ops q ix)))"
proof (intro conjI)
  show "\<exists>r ix'. register_process ops invalid_id pid task ix = Some (r, ix') \<and> name_index_api.functional rows ix'
      \<and> (r = 0 \<or> r = - LINUX_EAGAIN)
      \<and> (\<forall>q. 0 < q \<longrightarrow> q < 10 ^ 15 \<longrightarrow> find_proc_by_pid ops q ix' =
            (if q = pid then (if r = 0 then Some task else None) else find_proc_by_pid ops q ix))"
    by (rule name_index_api.register_effect [OF assms])
  show "\<exists>ix'. unregister_process ops invalid_id pid task ix = Some ix' \<and> name_index_api.functional rows ix'
      \<and> (\<forall>q. 0 < q \<longrightarrow> q < 10 ^ 15 \<longrightarrow> find_proc_by_pid ops q ix' = (if q = pid then None else find_proc_by_pid ops q ix))"
    using name_index_api.evict_pid_effect [OF assms(1-4), of "Some task"] assms(5) unfolding unregister_process_def by auto
qed

theorem registry_refines_map_witness:
  "\<exists>ix'. register_process list_index_ops (-1) 7 40 (0, []) = Some (0, ix') \<and> find_proc_by_pid list_index_ops 7 ix' = Some 40
     \<and> find_proc_by_pid list_index_ops 8 ix' = None"
proof -
  have f: "name_index_api.functional (\<lambda>(k, rs). set rs) ((0, []) :: row_list)"
    by (simp add: list_index.functional_def)
  obtain r ix' where r: "register_process list_index_ops (-1) 7 40 (0, []) = Some (r, ix')"
      and find: "\<forall>q. 0 < q \<longrightarrow> q < 10 ^ 15 \<longrightarrow> find_proc_by_pid list_index_ops q ix' =
            (if q = 7 then (if r = 0 then Some 40 else None) else find_proc_by_pid list_index_ops q (0, []))"
    using registry_refines_map [OF list_index.name_index_api_axioms f, of 7 "-1" 40] by auto
  have "r = 0" using r by (auto simp: register_process_def list_index_ops_def split: option.splits)
  moreover have "find_proc_by_pid list_index_ops 8 (0, []) = None" by (simp add: find_proc_by_pid_def list_index_ops_def)
  ultimately show ?thesis using r find by (intro exI [of _ ix']) auto
qed

end
