(* ===== verification/Proc_Exit.thy ===== *)
theory Proc_Exit
  imports Proc_Registry
begin

text \<open>
  Process life and death: the process objects with their reference counts
  (\<^verbatim>\<open>linux_layer/proc/linux_proc.c\<close>), fork (\<^verbatim>\<open>sys_fork.c\<close>), exit (\<^verbatim>\<open>syscall/thread_syscall.c\<close>), the
  cleaning server that reaps threads and notifies parents (\<^verbatim>\<open>servers/clean_server.c\<close>), the notification
  messages and pending lists (\<^verbatim>\<open>proc_wait_ipc.c\<close>), the scans over process identifiers
  (\<^verbatim>\<open>sys_proc_registry.c\<close>) and \<^verbatim>\<open>wait4\<close> (\<^verbatim>\<open>sys_wait.c\<close>).

  Process objects live in an explicit heap, because they are freed when their reference count drops
  to zero and messages and lists hold bare pointers to them: an access to a freed object is the value
  \<open>None\<close> of the operation. The registry is its abstract map, which the theory of the registry shows to
  be implemented. Threads are numbers; \<open>res\<close> is the process pointer of each thread. The messages on the
  wait ports of all processes are one list tagged with the process identifier, in order of delivery,
  and the jobs of the per-CPU job lists one list tagged with the CPU. The outcomes of allocations, of
  message delivery and of the operations of the kernel core are arguments.

  The theory of the invariant shows that no operation touches a freed process object, that reference counts are exact,
  that every child is reaped at most once, that the parent of an exited child gets its status, and in
  which cases a dead child is never reaped.
\<close>

section \<open>Definitions\<close>

subsection \<open>State\<close>

datatype exit_state = LINUX_EXIT_RUNNING | LINUX_EXIT_ZOMBIE | LINUX_EXIT_NOTIFIED | LINUX_EXIT_CLAIMED

text \<open>A pending exit: the child, its identifier and its exit code.\<close>

type_synonym pending_exit = "nat \<times> int \<times> int"

record linux_proc =
  p_pid :: int
  p_refs :: nat
  p_threads :: nat
  p_ppid :: int
  p_pgid :: int
  p_exit_code :: int
  p_state :: exit_state
  p_last :: bool
  p_pending :: "pending_exit list"

datatype wait_msg = EXIT_NOTIFY int nat int | WAIT_INTERRUPT | PORT_CLOSED | OTHER_MSG

record psys =
  procs :: "nat \<Rightarrow> linux_proc option"
  reg :: "int \<Rightarrow> nat option"
  res :: "nat \<Rightarrow> nat option"
  net :: "(int \<times> wait_msg) list"
  jobs :: "(nat \<times> int \<times> nat \<times> int) list"
  clean_q :: "nat list"
  exited :: "nat list"
  workers :: "nat list"

abbreviation LINUX_INIT_REAP_PPID :: int where "LINUX_INIT_REAP_PPID \<equiv> 0"
abbreviation PROC_PID_SCAN_MAX :: int where "PROC_PID_SCAN_MAX \<equiv> 4096"

definition set_proc :: "nat \<Rightarrow> linux_proc \<Rightarrow> psys \<Rightarrow> psys" where
  "set_proc p x s = s\<lparr>procs := (procs s)(p \<mapsto> x)\<rparr>"

definition find_pid :: "int \<Rightarrow> psys \<Rightarrow> nat option" where
  "find_pid pid s = (if pid \<le> 0 then None else reg s pid)"

subsection \<open>Process objects\<close>

text \<open>\<open>new_id\<close> is the first identifier of the manager that is not 0.\<close>

definition linux_proc_alloc :: "nat option \<Rightarrow> int \<Rightarrow> int \<Rightarrow> psys \<Rightarrow> nat option \<times> psys" where
  "linux_proc_alloc mem invalid_id new_id s =
     (case mem of
        None \<Rightarrow> (None, s)
      | Some p \<Rightarrow>
          if new_id = invalid_id then (None, s)
          else (Some p, set_proc p \<lparr>p_pid = new_id, p_refs = 1, p_threads = 0, p_ppid = 0, p_pgid = 0, p_exit_code = 0,
                  p_state = LINUX_EXIT_RUNNING, p_last = False, p_pending = []\<rparr> s))"

definition linux_proc_put :: "nat \<Rightarrow> psys \<Rightarrow> psys option" where
  "linux_proc_put p s =
     do { x \<leftarrow> procs s p;
          Some (if p_refs x \<le> 1 then s\<lparr>procs := (procs s)(p := None)\<rparr> else set_proc p (x\<lparr>p_refs := p_refs x - 1\<rparr>) s) }"

definition linux_proc_attach_thread :: "nat \<Rightarrow> nat \<Rightarrow> psys \<Rightarrow> (error_t \<times> psys) option" where
  "linux_proc_attach_thread p t s =
     (case res s t of
        Some q \<Rightarrow> Some (if q \<noteq> p then REND_ERR E_RENDEZVOS else REND_SUCCESS, s)
      | None \<Rightarrow>
          do { x \<leftarrow> procs s p;
               if p_refs x = 0 then Some (REND_ERR E_RENDEZVOS, s)
               else Some (REND_SUCCESS, (set_proc p (x\<lparr>p_refs := p_refs x + 1, p_threads := p_threads x + 1\<rparr>) s)\<lparr>res := (res s)(t \<mapsto> p)\<rparr>) })"

definition linux_proc_detach_thread :: "nat \<Rightarrow> psys \<Rightarrow> psys option" where
  "linux_proc_detach_thread t s =
     (case res s t of
        None \<Rightarrow> Some s
      | Some p \<Rightarrow>
          do { x \<leftarrow> procs s p;
               linux_proc_put p ((set_proc p (x\<lparr>p_threads := p_threads x - 1\<rparr>) s)\<lparr>res := (res s)(t := None)\<rparr>) })"

subsection \<open>Scans over process identifiers\<close>

fun reparent_loop :: "int list \<Rightarrow> int \<Rightarrow> int \<Rightarrow> psys \<Rightarrow> psys option" where
  "reparent_loop [] old_ppid new_ppid s = Some s"
| "reparent_loop (candidate # cs) old_ppid new_ppid s =
     (case find_pid candidate s of
        None \<Rightarrow> reparent_loop cs old_ppid new_ppid s
      | Some c \<Rightarrow>
          do { x \<leftarrow> procs s c;
               reparent_loop cs old_ppid new_ppid
                 (if p_ppid x \<noteq> old_ppid then s else set_proc c (x\<lparr>p_ppid := new_ppid\<rparr>) s) })"

definition proc_reparent_children :: "int \<Rightarrow> int \<Rightarrow> psys \<Rightarrow> psys option" where
  "proc_reparent_children old_ppid new_ppid s =
     (if old_ppid \<le> 0 then Some s else reparent_loop [1..PROC_PID_SCAN_MAX - 1] old_ppid new_ppid s)"

definition proc_has_wait_reaper :: "linux_proc \<Rightarrow> psys \<Rightarrow> bool" where
  "proc_has_wait_reaper x s \<longleftrightarrow> 0 < p_ppid x \<and> find_pid (p_ppid x) s \<noteq> None"

definition proc_child_counts_for_wait :: "linux_proc \<Rightarrow> bool" where
  "proc_child_counts_for_wait x \<longleftrightarrow>
     p_state x = LINUX_EXIT_RUNNING \<or> p_state x = LINUX_EXIT_ZOMBIE \<or> p_state x = LINUX_EXIT_NOTIFIED"

fun unreaped_loop :: "int list \<Rightarrow> int \<Rightarrow> int \<Rightarrow> bool \<Rightarrow> psys \<Rightarrow> bool option" where
  "unreaped_loop [] ppid pgid filter_by_pgid s = Some False"
| "unreaped_loop (candidate # cs) ppid pgid filter_by_pgid s =
     (case find_pid candidate s of
        None \<Rightarrow> unreaped_loop cs ppid pgid filter_by_pgid s
      | Some c \<Rightarrow>
          do { x \<leftarrow> procs s c;
               if p_ppid x \<noteq> ppid \<or> \<not> proc_child_counts_for_wait x then unreaped_loop cs ppid pgid filter_by_pgid s
               else if filter_by_pgid \<and> p_pgid x \<noteq> pgid then unreaped_loop cs ppid pgid filter_by_pgid s
               else Some True })"

definition proc_parent_has_unreaped_child :: "int \<Rightarrow> int \<Rightarrow> bool \<Rightarrow> psys \<Rightarrow> bool option" where
  "proc_parent_has_unreaped_child ppid pgid filter_by_pgid s =
     (if ppid \<le> 0 then Some False
      else if filter_by_pgid \<and> pgid \<le> 0 then Some False
      else unreaped_loop [ppid + 1..ppid + 999] ppid pgid filter_by_pgid s)"

subsection \<open>Pending exits\<close>

definition linux_proc_wait_pid_matches :: "int \<Rightarrow> int \<Rightarrow> linux_proc \<Rightarrow> psys \<Rightarrow> bool option" where
  "linux_proc_wait_pid_matches want_pid child_pid parent s =
     (if want_pid = -1 then Some True
      else if 0 < want_pid then Some (child_pid = want_pid)
      else case find_pid child_pid s of
        None \<Rightarrow> Some False
      | Some c \<Rightarrow>
          do { x \<leftarrow> procs s c;
               Some (if p_ppid x \<noteq> p_pid parent then False
                     else if want_pid = 0 then p_pgid x = p_pgid parent
                     else p_pgid x = - want_pid) })"

definition linux_proc_wait_pending_push :: "bool \<Rightarrow> nat \<Rightarrow> nat \<Rightarrow> int \<Rightarrow> psys \<Rightarrow> (bool \<times> psys) option" where
  "linux_proc_wait_pending_push alloc_ok parent child exit_code s =
     do { x \<leftarrow> procs s child;
          if p_pid x \<le> 0 \<or> \<not> alloc_ok then Some (False, s)
          else do { q \<leftarrow> procs s parent;
                    Some (True, set_proc parent (q\<lparr>p_pending := p_pending q @ [(child, p_pid x, exit_code)]\<rparr>) s) } }"

fun take_match :: "int \<Rightarrow> linux_proc \<Rightarrow> psys \<Rightarrow> pending_exit list \<Rightarrow> ((nat \<times> int) \<times> pending_exit list) option option" where
  "take_match want_pid parent s [] = Some None"
| "take_match want_pid parent s ((child, pid, exit_code) # es) =
     do { m \<leftarrow> linux_proc_wait_pid_matches want_pid pid parent s;
          if m then Some (Some ((child, exit_code), es))
          else do { r \<leftarrow> take_match want_pid parent s es;
                    Some (map_option (\<lambda>(c, rest). (c, (child, pid, exit_code) # rest)) r) } }"

definition linux_proc_wait_pending_take :: "nat \<Rightarrow> int \<Rightarrow> psys \<Rightarrow> ((nat \<times> int) option \<times> psys) option" where
  "linux_proc_wait_pending_take parent want_pid s =
     do { q \<leftarrow> procs s parent;
          r \<leftarrow> take_match want_pid q s (p_pending q);
          Some (case r of
                  None \<Rightarrow> (None, s)
                | Some (c, rest) \<Rightarrow> (Some c, set_proc parent (q\<lparr>p_pending := rest\<rparr>) s)) }"

definition linux_proc_wait_pending_drain :: "nat \<Rightarrow> psys \<Rightarrow> psys option" where
  "linux_proc_wait_pending_drain parent s =
     do { q \<leftarrow> procs s parent; Some (set_proc parent (q\<lparr>p_pending := []\<rparr>) s) }"

subsection \<open>Reaping\<close>

text \<open>
  The wait port is removed with the messages on it. The descriptor table and the signal state of
  the process are released by their own components.
\<close>

definition linux_proc_fini :: "nat \<Rightarrow> psys \<Rightarrow> psys option" where
  "linux_proc_fini p s =
     do { s1 \<leftarrow> linux_proc_wait_pending_drain p s;
          x \<leftarrow> procs s1 p;
          s2 \<leftarrow> proc_reparent_children (p_pid x) LINUX_INIT_REAP_PPID s1;
          Some (s2\<lparr>net := filter (\<lambda>m. fst m \<noteq> p_pid x) (net s2), reg := (reg s2)(p_pid x := None)\<rparr>) }"

definition linux_proc_reap :: "nat \<Rightarrow> psys \<Rightarrow> (error_t \<times> psys) option" where
  "linux_proc_reap p s =
     do { x \<leftarrow> procs s p;
          if p_threads x \<noteq> 0 then Some (REND_ERR E_RENDEZVOS, s)
          else if p_state x = LINUX_EXIT_CLAIMED then Some (REND_ERR E_RENDEZVOS, s)
          else if p_state x \<noteq> LINUX_EXIT_ZOMBIE \<and> p_state x \<noteq> LINUX_EXIT_NOTIFIED then Some (REND_ERR E_RENDEZVOS, s)
          else do { s1 \<leftarrow> linux_proc_fini p (set_proc p (x\<lparr>p_state := LINUX_EXIT_CLAIMED\<rparr>) s);
                    s2 \<leftarrow> linux_proc_put p s1;
                    Some (REND_SUCCESS, s2) } }"

subsection \<open>Exit\<close>

definition linux_proc_mark_exiting :: "nat \<Rightarrow> int \<Rightarrow> psys \<Rightarrow> (bool \<times> psys) option" where
  "linux_proc_mark_exiting p exit_code s =
     do { x \<leftarrow> procs s p;
          let s1 = set_proc p (x\<lparr>p_exit_code := exit_code AND 0xFF, p_state := LINUX_EXIT_ZOMBIE, p_last := (p_threads x = 1)\<rparr>) s in
          Some (proc_has_wait_reaper x s1, s1) }"

text \<open>The thread is handed to the cleaning server, unless sending fails.\<close>

definition linux_thread_exit_rendezvous :: "bool \<Rightarrow> nat \<Rightarrow> psys \<Rightarrow> psys" where
  "linux_thread_exit_rendezvous send_ok t s =
     s\<lparr>exited := t # exited s, clean_q := (if send_ok then clean_q s @ [t] else clean_q s)\<rparr>"

text \<open>\<^verbatim>\<open>sys_exit\<close> of thread \<open>t\<close> returns whether the parent is sent \<^verbatim>\<open>SIGCHLD\<close>.\<close>

definition sys_exit :: "bool \<Rightarrow> nat \<Rightarrow> int \<Rightarrow> psys \<Rightarrow> (bool \<times> psys) option" where
  "sys_exit send_ok t exit_code s =
     do { r \<leftarrow> (case res s t of None \<Rightarrow> Some (False, s) | Some p \<Rightarrow> linux_proc_mark_exiting p exit_code s);
          Some (fst r, linux_thread_exit_rendezvous send_ok t (snd r)) }"

text \<open>A fatal fault of thread \<open>t\<close> sends no signal.\<close>

definition linux_fatal_user_fault :: "bool \<Rightarrow> nat \<Rightarrow> int \<Rightarrow> psys \<Rightarrow> psys option" where
  "linux_fatal_user_fault send_ok t exit_code s =
     do { r \<leftarrow> (case res s t of None \<Rightarrow> Some (False, s) | Some p \<Rightarrow> linux_proc_mark_exiting p exit_code s);
          Some (linux_thread_exit_rendezvous send_ok t (snd r)) }"

subsection \<open>Notification of the parent\<close>

datatype deliver = D_OK | D_CLOSED | D_AGAIN | D_FAIL | D_NO_PORT | D_NO_MEM

datatype try_result = LINUX_PROC_TRY_DELIVERED | LINUX_PROC_TRY_AGAIN | LINUX_PROC_TRY_FAIL

definition linux_proc_try_post_exit_notify :: "deliver \<Rightarrow> int \<Rightarrow> nat \<Rightarrow> int \<Rightarrow> psys \<Rightarrow> (try_result \<times> psys) option" where
  "linux_proc_try_post_exit_notify d parent_pid child exit_code s =
     do { x \<leftarrow> procs s child;
          Some (if parent_pid \<le> 0 \<or> p_pid x \<le> 0 then (LINUX_PROC_TRY_FAIL, s)
                else case d of
                  D_OK \<Rightarrow> (LINUX_PROC_TRY_DELIVERED, s\<lparr>net := net s @ [(parent_pid, EXIT_NOTIFY (p_pid x) child exit_code)]\<rparr>)
                | D_CLOSED \<Rightarrow> (LINUX_PROC_TRY_DELIVERED, s)
                | D_AGAIN \<Rightarrow> (LINUX_PROC_TRY_AGAIN, s)
                | D_NO_MEM \<Rightarrow> (LINUX_PROC_TRY_AGAIN, s)
                | D_FAIL \<Rightarrow> (LINUX_PROC_TRY_FAIL, s)
                | D_NO_PORT \<Rightarrow> (LINUX_PROC_TRY_FAIL, s)) }"

definition linux_proc_wait_poke :: "bool \<Rightarrow> int \<Rightarrow> psys \<Rightarrow> psys" where
  "linux_proc_wait_poke ok parent_pid s =
     (if 0 < parent_pid \<and> ok then s\<lparr>net := net s @ [(parent_pid, WAIT_INTERRUPT)]\<rparr> else s)"

definition clean_exit_notify_fallback_pending :: "bool \<Rightarrow> bool \<Rightarrow> int \<Rightarrow> nat \<Rightarrow> int \<Rightarrow> psys \<Rightarrow> psys option" where
  "clean_exit_notify_fallback_pending alloc_ok poke_ok ppid child exit_code s =
     (case find_pid ppid s of
        None \<Rightarrow> Some s
      | Some parent \<Rightarrow>
          do { r \<leftarrow> linux_proc_wait_pending_push alloc_ok parent child exit_code s;
               Some (case r of (False, s1) \<Rightarrow> s1 | (True, s1) \<Rightarrow> linux_proc_wait_poke poke_ok ppid s1) })"

text \<open>The walk over the parked jobs of a CPU; the jobs that stay are appended to the new list again.\<close>

fun poll_jobs :: "(nat \<Rightarrow> deliver \<times> bool \<times> bool) \<Rightarrow> nat \<Rightarrow> (nat \<times> int \<times> nat \<times> int) list \<Rightarrow> psys \<Rightarrow> psys option" where
  "poll_jobs env cpu [] s = Some s"
| "poll_jobs env cpu ((c, ppid, child, exit_code) # js) s =
     (if c \<noteq> cpu then poll_jobs env cpu js (s\<lparr>jobs := jobs s @ [(c, ppid, child, exit_code)]\<rparr>)
      else if find_pid ppid s = None then poll_jobs env cpu js s
      else case env child of (d, alloc_ok, poke_ok) \<Rightarrow>
        do { r \<leftarrow> linux_proc_try_post_exit_notify d ppid child exit_code s;
             (case r of
                (LINUX_PROC_TRY_DELIVERED, s1) \<Rightarrow> poll_jobs env cpu js s1
              | (LINUX_PROC_TRY_FAIL, s1) \<Rightarrow>
                  do { s2 \<leftarrow> clean_exit_notify_fallback_pending alloc_ok poke_ok ppid child exit_code s1; poll_jobs env cpu js s2 }
              | (LINUX_PROC_TRY_AGAIN, s1) \<Rightarrow> poll_jobs env cpu js (s1\<lparr>jobs := jobs s1 @ [(c, ppid, child, exit_code)]\<rparr>)) })"

definition clean_poll_exit_notify_jobs :: "(nat \<Rightarrow> deliver \<times> bool \<times> bool) \<Rightarrow> nat \<Rightarrow> psys \<Rightarrow> psys option" where
  "clean_poll_exit_notify_jobs env cpu s = poll_jobs env cpu (jobs s) (s\<lparr>jobs := []\<rparr>)"

definition clean_async_exit_notify :: "(nat \<Rightarrow> deliver \<times> bool \<times> bool) \<Rightarrow> bool \<Rightarrow> nat \<Rightarrow> int \<Rightarrow> nat \<Rightarrow> int \<Rightarrow> psys \<Rightarrow> psys option" where
  "clean_async_exit_notify env job_ok cpu ppid child exit_code s =
     do { s1 \<leftarrow> clean_poll_exit_notify_jobs env cpu s;
          x \<leftarrow> procs s1 child;
          if ppid \<le> 0 \<or> p_pid x \<le> 0 then Some s1
          else case env child of (d, alloc_ok, poke_ok) \<Rightarrow>
            do { r \<leftarrow> linux_proc_try_post_exit_notify d ppid child exit_code s1;
                 (case r of
                    (LINUX_PROC_TRY_DELIVERED, s2) \<Rightarrow> Some s2
                  | (LINUX_PROC_TRY_FAIL, s2) \<Rightarrow> clean_exit_notify_fallback_pending alloc_ok poke_ok ppid child exit_code s2
                  | (LINUX_PROC_TRY_AGAIN, s2) \<Rightarrow>
                      if \<not> job_ok then clean_exit_notify_fallback_pending alloc_ok poke_ok ppid child exit_code s2
                      else Some (s2\<lparr>jobs := jobs s2 @ [(cpu, ppid, child, exit_code)]\<rparr>)) } }"

subsection \<open>The cleaning server\<close>

text \<open>
  The handler of \<^verbatim>\<open>THREAD_REAP\<close> up to the detachment of the thread. It works with a reference of its own on
  the process, which is in \<open>workers\<close> until the handler is done with it.
\<close>

definition clean_reap_begin :: "bool \<Rightarrow> nat \<Rightarrow> psys \<Rightarrow> psys option" where
  "clean_reap_begin delete_ok t s0 =
     (let s = s0\<lparr>clean_q := remove1 t (clean_q s0)\<rparr> in
      case res s t of
        None \<Rightarrow> Some s
      | Some p \<Rightarrow>
          do { x \<leftarrow> procs s p;
               if p_refs x = 0 then Some s
               else if \<not> delete_ok then linux_proc_put p (set_proc p (x\<lparr>p_refs := p_refs x + 1\<rparr>) s)
               else linux_proc_detach_thread t
                      ((set_proc p (x\<lparr>p_refs := p_refs x + 1\<rparr>) s)\<lparr>workers := p # workers s\<rparr>) })"

text \<open>
  \<^verbatim>\<open>clean_proc_bundle_detached\<close>: \<open>None\<close> while the handler waits for the other threads of an exiting process.
\<close>

definition clean_proc_bundle_detached :: "nat \<Rightarrow> linux_proc \<Rightarrow> psys \<Rightarrow> (bool \<times> psys) option" where
  "clean_proc_bundle_detached p x s =
     (if 0 < p_threads x then (if \<not> p_last x then Some (False, s) else None)
      else Some (True, set_proc p (x\<lparr>p_last := True\<rparr>) s))"

datatype reap_kind = REAP_NONE | REAP_LINK_A | REAP_LINK_B

definition reap_link :: "linux_proc \<Rightarrow> psys \<Rightarrow> reap_kind" where
  "reap_link x s =
     (if p_state x = LINUX_EXIT_CLAIMED \<or> p_state x = LINUX_EXIT_NOTIFIED then REAP_NONE
      else if \<not> proc_has_wait_reaper x s then REAP_LINK_B
      else if p_state x = LINUX_EXIT_ZOMBIE then REAP_LINK_A
      else REAP_NONE)"

text \<open>
  The rest of the handler. The state of the process is read and set under its lock and the handler
  is one step here, so the two repeated checks of \<^verbatim>\<open>REAP_LINK_A\<close> agree with the first ones.
\<close>

definition clean_reap_finish :: "(nat \<Rightarrow> deliver \<times> bool \<times> bool) \<Rightarrow> bool \<Rightarrow> nat \<Rightarrow> nat \<Rightarrow> psys \<Rightarrow> psys option" where
  "clean_reap_finish env job_ok cpu p s0 =
     do { x0 \<leftarrow> procs s0 p;
          b \<leftarrow> clean_proc_bundle_detached p x0 (s0\<lparr>workers := remove1 p (workers s0)\<rparr>);
          (case b of
             (False, s) \<Rightarrow> linux_proc_put p s
           | (True, s) \<Rightarrow>
               do { x \<leftarrow> procs s p;
                    (case reap_link x s of
                       REAP_NONE \<Rightarrow> linux_proc_put p s
                     | REAP_LINK_B \<Rightarrow> do { r \<leftarrow> linux_proc_reap p s; linux_proc_put p (snd r) }
                     | REAP_LINK_A \<Rightarrow>
                         do { s1 \<leftarrow> clean_async_exit_notify env job_ok cpu (p_ppid x) p (p_exit_code x)
                                (set_proc p (x\<lparr>p_state := LINUX_EXIT_NOTIFIED\<rparr>) s);
                              linux_proc_put p s1 }) }) }"

subsection \<open>wait4\<close>

definition wait4_encode_status :: "int \<Rightarrow> int" where
  "wait4_encode_status exit_code = push_bit 8 (exit_code AND 0xFF)"

text \<open>The result, the status stored in user memory, and the state.\<close>

definition wait4_finish_reap :: "bool \<Rightarrow> bool \<Rightarrow> nat \<Rightarrow> nat \<Rightarrow> int \<Rightarrow> psys \<Rightarrow> (int \<times> int option \<times> psys) option" where
  "wait4_finish_reap want_status store_ok parent child exit_code s =
     do { x \<leftarrow> procs s child;
          if p_pid x \<le> 0 then Some (- LINUX_ECHILD, None, s)
          else do { q \<leftarrow> procs s parent;
            if p_ppid x \<noteq> p_pid q \<or> (p_state x \<noteq> LINUX_EXIT_ZOMBIE \<and> p_state x \<noteq> LINUX_EXIT_NOTIFIED) \<or> \<not> p_last x
            then Some (- LINUX_ECHILD, None, s)
            else
              let s1 = set_proc child (x\<lparr>p_exit_code := exit_code\<rparr>) s in
              if want_status \<and> \<not> store_ok then Some (- LINUX_EFAULT, None, s1)
              else do { r \<leftarrow> linux_proc_reap child s1;
                        let st = (if want_status then Some (wait4_encode_status exit_code) else None) in
                        Some (if fst r \<noteq> REND_SUCCESS \<and> find_pid (p_pid x) (snd r) \<noteq> None
                              then (- LINUX_EAGAIN, st, snd r)
                              else (p_pid x, st, snd r)) } } }"

definition wait4_has_live_child :: "int \<Rightarrow> linux_proc \<Rightarrow> psys \<Rightarrow> bool option" where
  "wait4_has_live_child pid parent s =
     (if 0 < pid then
        (case find_pid pid s of
           None \<Rightarrow> Some False
         | Some c \<Rightarrow> do { x \<leftarrow> procs s c; Some (p_ppid x = p_pid parent \<and> proc_child_counts_for_wait x) })
      else if pid = -1 then proc_parent_has_unreaped_child (p_pid parent) 0 False s
      else if pid = 0 then proc_parent_has_unreaped_child (p_pid parent) (p_pgid parent) True s
      else proc_parent_has_unreaped_child (p_pid parent) (- pid) True s)"

definition wait4_try_pending :: "bool \<Rightarrow> bool \<Rightarrow> nat \<Rightarrow> int \<Rightarrow> psys \<Rightarrow> (int \<times> int option \<times> psys) option" where
  "wait4_try_pending want_status store_ok parent want_pid s =
     do { r \<leftarrow> linux_proc_wait_pending_take parent want_pid s;
          (case r of
             (None, s1) \<Rightarrow> Some (0, None, s1)
           | (Some (child, exit_code), s1) \<Rightarrow> wait4_finish_reap want_status store_ok parent child exit_code s1) }"

text \<open>A message taken from the wait port; \<open>eintr\<close> is \<^verbatim>\<open>linux_signal_wait4_should_return_eintr\<close>.\<close>

definition wait4_handle_port_msg ::
  "bool \<Rightarrow> bool \<Rightarrow> bool \<Rightarrow> bool \<Rightarrow> nat \<Rightarrow> int \<Rightarrow> wait_msg \<Rightarrow> psys \<Rightarrow> (int \<times> int option \<times> psys) option" where
  "wait4_handle_port_msg want_status store_ok eintr alloc_ok parent want_pid msg s =
     (case msg of
        WAIT_INTERRUPT \<Rightarrow>
          do { r \<leftarrow> wait4_try_pending want_status store_ok parent want_pid s;
               Some (if fst r \<noteq> 0 then r else if eintr then (- LINUX_EINTR, None, snd (snd r)) else (0, None, snd (snd r))) }
      | PORT_CLOSED \<Rightarrow> Some (- LINUX_EINTR, None, s)
      | OTHER_MSG \<Rightarrow> Some (0, None, s)
      | EXIT_NOTIFY child_pid child exit_code \<Rightarrow>
          do { x \<leftarrow> procs s child;
               if p_pid x \<noteq> child_pid \<or> child_pid \<le> 0 then Some (0, None, s)
               else do { q \<leftarrow> procs s parent;
                 m \<leftarrow> linux_proc_wait_pid_matches want_pid child_pid q s;
                 if \<not> m then do { r \<leftarrow> linux_proc_wait_pending_push alloc_ok parent child exit_code s; Some (0, None, snd r) }
                 else wait4_finish_reap want_status store_ok parent child exit_code s } })"

text \<open>Taking the next message of the port of process \<open>pid\<close>.\<close>

fun recv_port :: "int \<Rightarrow> (int \<times> wait_msg) list \<Rightarrow> (wait_msg \<times> (int \<times> wait_msg) list) option" where
  "recv_port pid [] = None"
| "recv_port pid ((p, msg) # ms) =
     (if p = pid then Some (msg, ms) else map_option (\<lambda>(m, rest). (m, (p, msg) # rest)) (recv_port pid ms))"

lemma recv_port_length: "recv_port pid ms = Some (m, rest) \<Longrightarrow> length ms = Suc (length rest)"
  by (induction ms arbitrary: rest) (auto split: if_splits)

lemma pending_take_net: "linux_proc_wait_pending_take parent want s = Some (r, s1) \<Longrightarrow> net s1 = net s"
  by (auto simp: linux_proc_wait_pending_take_def set_proc_def bind_eq_Some_conv split: option.splits)

lemma finish_reap_nonzero: "wait4_finish_reap ws so parent child code s = Some (ret, st, s') \<Longrightarrow> ret \<noteq> 0"
  by (auto simp: wait4_finish_reap_def Let_def bind_eq_Some_conv split: if_splits)

lemma try_pending_zero: "wait4_try_pending ws so parent want s = Some (0, st, s') \<Longrightarrow> net s' = net s \<and> st = None"
  by (auto simp: wait4_try_pending_def bind_eq_Some_conv split: option.splits prod.splits
      dest: pending_take_net finish_reap_nonzero)

lemma push_net: "linux_proc_wait_pending_push ok parent child code s = Some (b, s') \<Longrightarrow> net s' = net s"
  by (auto simp: linux_proc_wait_pending_push_def set_proc_def bind_eq_Some_conv split: if_splits)

lemma handle_msg_zero:
  "wait4_handle_port_msg ws so eintr ok parent want msg s = Some (0, st, s') \<Longrightarrow> net s' = net s"
  by (auto simp: wait4_handle_port_msg_def bind_eq_Some_conv split: wait_msg.splits if_splits
      dest: try_pending_zero push_net finish_reap_nonzero)

text \<open>
  The receive loop, run without interference from other threads: the caller returns with a result and
  the stored status, or it blocks on its empty port.
\<close>

datatype wait_outcome = Wait_Blocked | Wait_Returned int "int option"

function wait4_block_on_port ::
  "bool \<Rightarrow> bool \<Rightarrow> bool \<Rightarrow> (nat \<Rightarrow> bool) \<Rightarrow> nat \<Rightarrow> int \<Rightarrow> int \<Rightarrow> psys \<Rightarrow> (wait_outcome \<times> psys) option" where
  "wait4_block_on_port ws so eintr alloc_ok parent port want s =
     (case wait4_try_pending ws so parent want s of
        None \<Rightarrow> None
      | Some (ret, st, s1) \<Rightarrow>
          if ret \<noteq> 0 then Some (Wait_Returned ret st, s1)
          else if eintr then Some (Wait_Returned (- LINUX_EINTR) None, s1)
          else case recv_port port (net s1) of
            None \<Rightarrow> Some (Wait_Blocked, s1)
          | Some (msg, ms) \<Rightarrow>
              (case wait4_handle_port_msg ws so eintr (alloc_ok (length ms)) parent want msg (s1\<lparr>net := ms\<rparr>) of
                 None \<Rightarrow> None
               | Some (ret, st, s2) \<Rightarrow>
                   if ret \<noteq> 0 then Some (Wait_Returned ret st, s2)
                   else wait4_block_on_port ws so eintr alloc_ok parent port want s2))"
  by pat_completeness auto
termination
  by (relation "measure (\<lambda>(ws, so, eintr, alloc_ok, parent, port, want, s). length (net s))")
    (auto dest!: try_pending_zero handle_msg_zero recv_port_length)

declare wait4_block_on_port.simps [simp del]

definition sys_wait4 ::
  "bool \<Rightarrow> bool \<Rightarrow> (nat \<Rightarrow> bool) \<Rightarrow> bool \<Rightarrow> nat \<Rightarrow> int \<Rightarrow> bool \<Rightarrow> bool \<Rightarrow> psys \<Rightarrow> (wait_outcome \<times> psys) option" where
  "sys_wait4 port_ok eintr alloc_ok nohang parent pid ws so s =
     do { q \<leftarrow> procs s parent;
          r \<leftarrow> wait4_try_pending ws so parent pid s;
          (case r of (ret, st, s1) \<Rightarrow>
             if ret \<noteq> 0 then Some (Wait_Returned ret st, s1)
             else if \<not> port_ok then Some (Wait_Returned (- LINUX_EAGAIN) None, s1)
             else do { r2 \<leftarrow> (case recv_port (p_pid q) (net s1) of
                         None \<Rightarrow> Some (0, None, s1)
                       | Some (msg, ms) \<Rightarrow>
                           wait4_handle_port_msg ws so eintr (alloc_ok (length ms)) parent pid msg (s1\<lparr>net := ms\<rparr>));
                       (case r2 of (ret2, st2, s2) \<Rightarrow>
                          if ret2 \<noteq> 0 then Some (Wait_Returned ret2 st2, s2)
                          else do { q2 \<leftarrow> procs s2 parent;
                                    live \<leftarrow> wait4_has_live_child pid q2 s2;
                                    if nohang then Some (Wait_Returned (if live then 0 else - LINUX_ECHILD) None, s2)
                                    else if \<not> live then Some (Wait_Returned (- LINUX_ECHILD) None, s2)
                                    else wait4_block_on_port ws so eintr alloc_ok parent (p_pid q2) pid s2 }) }) }"

definition sys_waitid ::
  "bool \<Rightarrow> bool \<Rightarrow> (nat \<Rightarrow> bool) \<Rightarrow> bool \<Rightarrow> nat \<Rightarrow> int \<Rightarrow> int \<Rightarrow> psys \<Rightarrow> (wait_outcome \<times> psys) option" where
  "sys_waitid port_ok eintr alloc_ok nohang parent idtype ident s =
     (if idtype = 1 then sys_wait4 port_ok eintr alloc_ok nohang parent ident False True s
      else if idtype = 0 then sys_wait4 port_ok eintr alloc_ok nohang parent (-1) False True s
      else if idtype = 2 then sys_wait4 port_ok eintr alloc_ok nohang parent (- ident) False True s
      else Some (Wait_Returned (- LINUX_ENOSYS) None, s))"

subsection \<open>Fork\<close>

text \<open>Registration evicts an older entry of the identifier first.\<close>

definition register_child :: "bool \<Rightarrow> nat \<Rightarrow> int \<Rightarrow> psys \<Rightarrow> psys" where
  "register_child register_ok child pid s =
     (if 0 < pid then s\<lparr>reg := (reg s)(pid := (if register_ok then Some child else None))\<rparr> else s)"

text \<open>
  \<open>thread\<close> is the new thread of \<^verbatim>\<open>copy_thread\<close>; the remaining arguments are the outcomes of the calls that
  can fail. \<^verbatim>\<open>delete_thread\<close> of a thread that was never started detaches it.
\<close>

definition sys_fork ::
  "nat option \<Rightarrow> int \<Rightarrow> int \<Rightarrow> bool \<Rightarrow> bool \<Rightarrow> nat option \<Rightarrow> bool \<Rightarrow> bool \<Rightarrow> nat \<Rightarrow> psys \<Rightarrow> (int \<times> psys) option" where
  "sys_fork mem invalid_id new_id vspace_ok copy_ok thread add_ok register_ok parent s =
     do { q \<leftarrow> procs s parent;
          (case linux_proc_alloc mem invalid_id new_id s of
             (None, s1) \<Rightarrow> Some (- LINUX_ENOMEM, s1)
           | (Some child, s1) \<Rightarrow>
               if \<not> vspace_ok then do { s2 \<leftarrow> linux_proc_put child s1; Some (- LINUX_ENOMEM, s2) }
               else do { x \<leftarrow> procs s1 child;
                 let s2 = set_proc child (x\<lparr>p_ppid := p_pid q, p_exit_code := 0, p_state := LINUX_EXIT_RUNNING,
                            p_pgid := (if p_pgid q \<noteq> 0 then p_pgid q else p_pid q)\<rparr>) s1 in
                 if \<not> copy_ok then do { s3 \<leftarrow> linux_proc_put child s2; Some (- LINUX_ENOMEM, s3) }
                 else case thread of
                   None \<Rightarrow> do { s3 \<leftarrow> linux_proc_put child s2; Some (- LINUX_ENOMEM, s3) }
                 | Some t \<Rightarrow>
                     do { r \<leftarrow> linux_proc_attach_thread child t s2;
                          if fst r \<noteq> REND_SUCCESS then do { s3 \<leftarrow> linux_proc_put child (snd r); Some (- LINUX_ENOMEM, s3) }
                          else if \<not> add_ok then
                            do { s3 \<leftarrow> linux_proc_detach_thread t (snd r); s4 \<leftarrow> linux_proc_put child s3; Some (- LINUX_EAGAIN, s4) }
                          else Some (p_pid x, register_child register_ok child (p_pid x) (snd r)) } }) }"

subsection \<open>Clone\<close>

abbreviation CLONE_VM :: "64 word" where "CLONE_VM \<equiv> 0x100"
abbreviation CLONE_SIGHAND :: "64 word" where "CLONE_SIGHAND \<equiv> 0x800"
abbreviation CLONE_THREAD :: "64 word" where "CLONE_THREAD \<equiv> 0x10000"
abbreviation CLONE_PARENT_SETTID :: "64 word" where "CLONE_PARENT_SETTID \<equiv> 0x100000"
abbreviation CLONE_CHILD_SETTID :: "64 word" where "CLONE_CHILD_SETTID \<equiv> 0x1000000"

definition validate_clone_flags :: "64 word \<Rightarrow> int" where
  "validate_clone_flags flags =
     (if flags AND CLONE_SIGHAND \<noteq> 0 \<and> flags AND CLONE_VM = 0 then - LINUX_EINVAL
      else if flags AND CLONE_THREAD \<noteq> 0 \<and> flags AND CLONE_SIGHAND = 0 then - LINUX_EINVAL
      else if flags AND CLONE_THREAD \<noteq> 0 \<and> flags AND CLONE_VM = 0 then - LINUX_EINVAL
      else 0)"

text \<open>The process of the new thread: the caller's for a thread, otherwise a new one.\<close>

definition clone_proc :: "nat option \<Rightarrow> int \<Rightarrow> int \<Rightarrow> bool \<Rightarrow> 64 word \<Rightarrow> nat \<Rightarrow> linux_proc \<Rightarrow> psys \<Rightarrow> (nat option \<times> psys) option" where
  "clone_proc mem invalid_id new_id copy_ok flags parent q s =
     (if flags AND CLONE_THREAD \<noteq> 0 then Some (Some parent, s)
      else case linux_proc_alloc mem invalid_id new_id s of
        (None, s1) \<Rightarrow> Some (None, s1)
      | (Some child, s1) \<Rightarrow>
          do { x \<leftarrow> procs s1 child;
               let s2 = set_proc child (x\<lparr>p_pending := [], p_ppid := p_pid q, p_pgid := (if p_pgid q \<noteq> 0 then p_pgid q else p_pid q)\<rparr>) s1 in
               if copy_ok then Some (Some child, s2) else do { s3 \<leftarrow> linux_proc_put child s2; Some (None, s3) } })"

definition clone_free_proc :: "nat \<Rightarrow> nat \<Rightarrow> psys \<Rightarrow> psys option" where
  "clone_free_proc parent child s = (if child \<noteq> parent then linux_proc_put child s else Some s)"

text \<open>
  \<open>vs_ok\<close>: the address space is shared or copied; \<open>thread\<close>: the new thread and its identifier; \<open>ptid_ok\<close> and
  \<open>ctid_ok\<close>: the stores of the identifier to user memory.
\<close>

definition sys_clone ::
  "bool \<Rightarrow> nat option \<Rightarrow> int \<Rightarrow> int \<Rightarrow> bool \<Rightarrow> (nat \<times> int) option \<Rightarrow> bool \<Rightarrow> bool \<Rightarrow> bool \<Rightarrow> bool
    \<Rightarrow> 64 word \<Rightarrow> 64 word \<Rightarrow> 64 word \<Rightarrow> 64 word \<Rightarrow> nat \<Rightarrow> psys \<Rightarrow> (int \<times> psys) option" where
  "sys_clone vs_ok mem invalid_id new_id copy_ok thread add_ok register_ok ptid_ok ctid_ok flags stack parent_tid child_tid parent s =
     do { q \<leftarrow> procs s parent;
          if validate_clone_flags flags \<noteq> 0 then Some (validate_clone_flags flags, s)
          else if flags AND CLONE_VM \<noteq> 0 \<and> stack = 0 then Some (- LINUX_EINVAL, s)
          else if \<not> vs_ok then Some (- LINUX_ENOMEM, s)
          else do { cp \<leftarrow> clone_proc mem invalid_id new_id copy_ok flags parent q s;
            (case cp of
               (None, s1) \<Rightarrow> Some (- LINUX_ENOMEM, s1)
             | (Some child, s1) \<Rightarrow>
                 (case thread of
                    None \<Rightarrow> do { s2 \<leftarrow> clone_free_proc parent child s1; Some (- LINUX_ENOMEM, s2) }
                  | Some (t, tid) \<Rightarrow>
                      do { r \<leftarrow> linux_proc_attach_thread child t s1;
                           if fst r \<noteq> REND_SUCCESS then do { s2 \<leftarrow> clone_free_proc parent child (snd r); Some (- LINUX_ENOMEM, s2) }
                           else if \<not> add_ok then
                             do { s2 \<leftarrow> linux_proc_detach_thread t (snd r);
                                  s3 \<leftarrow> clone_free_proc parent child s2;
                                  Some (- LINUX_EAGAIN, s3) }
                           else do { x \<leftarrow> procs (snd r) child;
                             let s2 = (if flags AND CLONE_THREAD \<noteq> 0 then snd r else register_child register_ok child (p_pid x) (snd r)) in
                             Some (if flags AND CLONE_PARENT_SETTID \<noteq> 0 \<and> parent_tid \<noteq> 0 \<and> \<not> ptid_ok then (- LINUX_EFAULT, s2)
                                   else if flags AND CLONE_CHILD_SETTID \<noteq> 0 \<and> child_tid \<noteq> 0 \<and> \<not> ctid_ok then (- LINUX_EFAULT, s2)
                                   else if flags AND CLONE_THREAD \<noteq> 0 then (tid, s2)
                                   else (p_pid x, s2)) } })) } }"

subsection \<open>The first process\<close>

text \<open>\<^verbatim>\<open>linux_spawn_init_task\<close>; \<open>vs_e\<close> and \<open>add_e\<close> are the results of creating the address space and of starting the thread.\<close>

definition linux_spawn_init_task ::
  "nat option \<Rightarrow> int \<Rightarrow> int \<Rightarrow> error_t \<Rightarrow> nat option \<Rightarrow> error_t \<Rightarrow> psys \<Rightarrow> (error_t \<times> psys) option" where
  "linux_spawn_init_task mem invalid_id new_id vs_e thread add_e s =
     (case linux_proc_alloc mem invalid_id new_id s of
        (None, s1) \<Rightarrow> Some (REND_ERR E_RENDEZVOS, s1)
      | (Some proc, s1) \<Rightarrow>
          if vs_e \<noteq> REND_SUCCESS then do { s2 \<leftarrow> linux_proc_put proc s1; Some (vs_e, s2) }
          else case thread of
            None \<Rightarrow> do { s2 \<leftarrow> linux_proc_put proc s1; Some (REND_ERR E_RENDEZVOS, s2) }
          | Some t \<Rightarrow>
              do { r \<leftarrow> linux_proc_attach_thread proc t s1;
                   if fst r \<noteq> REND_SUCCESS then do { s2 \<leftarrow> linux_proc_put proc (snd r); Some (REND_ERR E_RENDEZVOS, s2) }
                   else if add_e \<noteq> REND_SUCCESS then
                     do { s2 \<leftarrow> linux_proc_detach_thread t (snd r); s3 \<leftarrow> linux_proc_put proc s2; Some (add_e, s3) }
                   else Some (REND_SUCCESS, snd r) })"

text \<open>The process part of \<^verbatim>\<open>linux_user_task_prepare_new\<close>; \<open>attach_ok\<close>: signal state and descriptor table are attached.\<close>

definition linux_user_task_prepare_new :: "bool \<Rightarrow> bool \<Rightarrow> nat \<Rightarrow> psys \<Rightarrow> (error_t \<times> psys) option" where
  "linux_user_task_prepare_new attach_ok register_ok p s =
     do { x \<leftarrow> procs s p;
          let s1 = set_proc p (x\<lparr>p_pending := []\<rparr>) s in
          if \<not> attach_ok then Some (REND_ERR E_RENDEZVOS, s1)
          else Some (REND_SUCCESS, register_child register_ok p (p_pid x) s1) }"

end
