(* ===== verification/Proc_Inv.thy ===== *)
theory Proc_Inv
  imports Proc_Exit
begin

text \<open>
  The invariant of the process system and its preservation by every operation, as a step relation
  over fork, thread creation, exit, the two halves of the cleaning handler, its polling of parked
  jobs, and the iterations of \<^verbatim>\<open>wait4\<close>.
\<close>

section \<open>The invariant\<close>

text \<open>
  A notification for a dead child travels as a bare pointer: in a message, in a parked job or in a
  pending list. \<open>tokens\<close> counts the places that hold a pointer.
\<close>

definition net_children :: "(int \<times> wait_msg) list \<Rightarrow> nat list" where
  "net_children ms = concat (map (\<lambda>(p, m). case m of EXIT_NOTIFY pid c e \<Rightarrow> [c] | _ \<Rightarrow> []) ms)"

definition job_children :: "(nat \<times> int \<times> nat \<times> int) list \<Rightarrow> nat list" where
  "job_children js = map (\<lambda>(c, pp, child, e). child) js"

definition pend_count :: "(nat \<Rightarrow> linux_proc option) \<Rightarrow> nat \<Rightarrow> nat" where
  "pend_count f p = (\<Sum>q \<in> dom f. count_list (map fst (p_pending (the (f q)))) p)"

definition tokens :: "psys \<Rightarrow> nat \<Rightarrow> nat" where
  "tokens s p = count_list (net_children (net s)) p + count_list (job_children (jobs s)) p + pend_count (procs s) p"

text \<open>
  \<open>e\<close> counts references and \<open>k\<close> tokens that are held in local variables of the running operation.
  Reference counts are exact; what is registered, attached or being cleaned is allocated; a token is
  unique and belongs to a notified process without threads.
\<close>

definition proc_ok :: "(nat \<Rightarrow> nat) \<Rightarrow> psys \<Rightarrow> nat \<Rightarrow> linux_proc \<Rightarrow> bool" where
  "proc_ok e s p x \<longleftrightarrow> 0 < p_pid x \<and> p_threads x = card {t. res s t = Some p}
     \<and> p_refs x = (if p_state x = LINUX_EXIT_CLAIMED then 0 else 1) + p_threads x + count_list (workers s) p + e p
     \<and> 0 < p_refs x
     \<and> (p_state x = LINUX_EXIT_NOTIFIED \<or> p_state x = LINUX_EXIT_CLAIMED \<longrightarrow> p_threads x = 0)"

definition token_ok :: "psys \<Rightarrow> nat \<Rightarrow> bool" where
  "token_ok s p \<longleftrightarrow> (\<exists>x. procs s p = Some x \<and> p_state x = LINUX_EXIT_NOTIFIED \<and> p_last x)"

definition pend_ok :: "psys \<Rightarrow> bool" where
  "pend_ok s \<longleftrightarrow> (\<forall>q y c pid e. procs s q = Some y \<longrightarrow> (c, pid, e) \<in> set (p_pending y)
     \<longrightarrow> (\<exists>x. procs s c = Some x \<and> p_pid x = pid))"

definition pinv :: "(nat \<Rightarrow> nat) \<Rightarrow> (nat \<Rightarrow> nat) \<Rightarrow> psys \<Rightarrow> bool" where
  "pinv e k s \<longleftrightarrow>
     finite (dom (procs s)) \<and> finite (dom (res s))
     \<and> (\<forall>pid p. reg s pid = Some p \<longrightarrow> (\<exists>x. procs s p = Some x \<and> p_pid x = pid \<and> p_state x \<noteq> LINUX_EXIT_CLAIMED))
     \<and> (\<forall>t p. res s t = Some p \<longrightarrow> procs s p \<noteq> None)
     \<and> (\<forall>p \<in> set (workers s). procs s p \<noteq> None)
     \<and> (\<forall>p x. procs s p = Some x \<longrightarrow> proc_ok e s p x)
     \<and> (\<forall>p. tokens s p + k p \<le> 1) \<and> (\<forall>p. 0 < tokens s p + k p \<longrightarrow> token_ok s p)
     \<and> (\<forall>p q x y. procs s p = Some x \<longrightarrow> procs s q = Some y \<longrightarrow> p_pid x = p_pid y \<longrightarrow> p = q)
     \<and> pend_ok s \<and> (\<forall>p. 0 < e p \<longrightarrow> procs s p \<noteq> None)"

abbreviation psys_inv :: "psys \<Rightarrow> bool" where
  "psys_inv \<equiv> pinv (\<lambda>_. 0) (\<lambda>_. 0)"

lemma pinvD:
  assumes "pinv e k s"
  shows "finite (dom (procs s))" "finite (dom (res s))"
    "reg s pid = Some p \<Longrightarrow> \<exists>x. procs s p = Some x \<and> p_pid x = pid \<and> p_state x \<noteq> LINUX_EXIT_CLAIMED"
    "res s t = Some p \<Longrightarrow> \<exists>x. procs s p = Some x" "p \<in> set (workers s) \<Longrightarrow> \<exists>x. procs s p = Some x"
    "procs s p = Some x \<Longrightarrow> proc_ok e s p x"
    "tokens s p + k p \<le> 1" "0 < tokens s p + k p \<Longrightarrow> token_ok s p"
    "procs s p = Some x \<Longrightarrow> procs s q = Some y \<Longrightarrow> p_pid x = p_pid y \<Longrightarrow> p = q" "pend_ok s"
    "0 < e p \<Longrightarrow> \<exists>x. procs s p = Some x"
  using assms by (auto simp: pinv_def)

lemma pinvI:
  assumes "finite (dom (procs s))" "finite (dom (res s))"
    "\<And>pid p. reg s pid = Some p \<Longrightarrow> \<exists>x. procs s p = Some x \<and> p_pid x = pid \<and> p_state x \<noteq> LINUX_EXIT_CLAIMED"
    "\<And>t p. res s t = Some p \<Longrightarrow> procs s p \<noteq> None" "\<And>p. p \<in> set (workers s) \<Longrightarrow> procs s p \<noteq> None"
    "\<And>p x. procs s p = Some x \<Longrightarrow> proc_ok e s p x"
    "\<And>p. tokens s p + k p \<le> 1" "\<And>p. 0 < tokens s p + k p \<Longrightarrow> token_ok s p"
    "\<And>p q x y. procs s p = Some x \<Longrightarrow> procs s q = Some y \<Longrightarrow> p_pid x = p_pid y \<Longrightarrow> p = q"
    "pend_ok s" "\<And>p. 0 < e p \<Longrightarrow> procs s p \<noteq> None"
  shows "pinv e k s"
  unfolding pinv_def using assms by blast

lemma pend_okD: "pend_ok s \<Longrightarrow> procs s q = Some y \<Longrightarrow> (c, pid, e) \<in> set (p_pending y) \<Longrightarrow> \<exists>x. procs s c = Some x \<and> p_pid x = pid"
  unfolding pend_ok_def by blast

lemma pend_ok_map:
  assumes "pend_ok s" "\<And>p. procs s' p = map_option (f p) (procs s p)" "\<And>p x. p_pid (f p x) = p_pid x"
    "\<And>p x. procs s p = Some x \<Longrightarrow> set (p_pending (f p x)) \<subseteq> set (p_pending x)"
  shows "pend_ok s'"
  unfolding pend_ok_def
proof (intro allI impI)
  fix q y c pid e
  assume y: "procs s' q = Some y" and e: "(c, pid, e) \<in> set (p_pending y)"
  obtain z where z: "procs s q = Some z" "y = f q z" using y assms(2) [of q] by auto
  then obtain x where "procs s c = Some x" "p_pid x = pid" using pend_okD [OF assms(1) z(1)] e assms(4) [OF z(1)] by blast
  then show "\<exists>x. procs s' c = Some x \<and> p_pid x = pid" using assms(2) [of c] assms(3) by simp
qed

lemma pend_ok_set:
  assumes "pend_ok s" "procs s p = Some x" "p_pid x' = p_pid x"
    "\<And>c i v. (c, i, v) \<in> set (p_pending x') \<Longrightarrow> \<exists>z. procs s c = Some z \<and> p_pid z = i"
    "procs s' = (procs s)(p \<mapsto> x')"
  shows "pend_ok s'"
  unfolding pend_ok_def
proof (intro allI impI)
  fix q y c i v
  assume y: "procs s' q = Some y" and e: "(c, i, v) \<in> set (p_pending y)"
  have "\<exists>z. procs s c = Some z \<and> p_pid z = i"
    using pend_okD [OF assms(1), of q y c i v] assms(4) [of c i v] y e assms(5) by (cases "q = p") auto
  then show "\<exists>z. procs s' c = Some z \<and> p_pid z = i" using assms(2,3,5) by (cases "c = p") auto
qed

subsection \<open>Counting tokens\<close>

lemma pend_count_upd:
  assumes "finite (dom f)" "f q = Some x"
  shows "pend_count (f(q \<mapsto> x')) p + count_list (map fst (p_pending x)) p = pend_count f p + count_list (map fst (p_pending x')) p"
proof -
  let ?g = "\<lambda>r. count_list (map fst (p_pending (the (f r)))) p"
  let ?g' = "\<lambda>r. count_list (map fst (p_pending (the ((f(q \<mapsto> x')) r)))) p"
  have d: "dom (f(q \<mapsto> x')) = dom f" "q \<in> dom f" using assms(2) by auto
  have "sum ?g' (dom f - {q}) = sum ?g (dom f - {q})" by (rule sum.cong) auto
  moreover have "sum ?g' (dom f) = ?g' q + sum ?g' (dom f - {q})" "sum ?g (dom f) = ?g q + sum ?g (dom f - {q})"
    by (rule sum.remove [OF assms(1) d(2)])+
  moreover have "?g' q = count_list (map fst (p_pending x')) p" "?g q = count_list (map fst (p_pending x)) p"
    using assms(2) by simp_all
  ultimately show ?thesis unfolding pend_count_def d(1) by linarith
qed

lemma pend_count_new:
  assumes "finite (dom f)" "f q = None"
  shows "pend_count (f(q \<mapsto> x)) p = pend_count f p + count_list (map fst (p_pending x)) p"
proof -
  have "(\<Sum>r \<in> dom f. count_list (map fst (p_pending (the ((f(q \<mapsto> x)) r)))) p)
      = (\<Sum>r \<in> dom f. count_list (map fst (p_pending (the (f r)))) p)"
    by (rule sum.cong) (use assms(2) in auto)
  moreover have "q \<notin> dom f" using assms(2) by auto
  ultimately show ?thesis using assms(1) by (simp add: pend_count_def)
qed

lemma pend_count_del:
  assumes "finite (dom f)" "f q = Some x"
  shows "pend_count (f(q := None)) p + count_list (map fst (p_pending x)) p = pend_count f p"
  using pend_count_new [of "f(q := None)" q x p] assms by (simp add: fun_upd_idem)

lemma pend_count_pos:
  assumes "finite (dom f)" "f q = Some x" "(p, i, v) \<in> set (p_pending x)"
  shows "0 < pend_count f p"
proof -
  have "p \<in> set (map fst (p_pending x))" using assms(3) by force
  then have "count_list (map fst (p_pending x)) p \<noteq> 0" by (simp add: count_list_0_iff)
  then show ?thesis using pend_count_del [OF assms(1,2), of p] by simp
qed

lemma pend_count_mono:
  assumes "finite (dom f)" "dom g = dom f" "\<And>q x y. f q = Some x \<Longrightarrow> g q = Some y \<Longrightarrow> p_pending y = p_pending x"
  shows "pend_count g p = pend_count f p"
  unfolding pend_count_def assms(2)
proof (rule sum.cong)
  fix q assume "q \<in> dom f"
  then obtain x y where "f q = Some x" "g q = Some y" using assms(2) by blast
  then show "count_list (map fst (p_pending (the (g q)))) p = count_list (map fst (p_pending (the (f q)))) p"
    using assms(3) by simp
qed simp

lemma count_list_filter_le: "count_list (net_children (filter P ms)) p \<le> count_list (net_children ms) p"
  by (induction ms) (auto simp: net_children_def)

lemma net_children_simps [simp]:
  "net_children [] = []" "net_children (ms @ ms') = net_children ms @ net_children ms'"
  "net_children [(p, EXIT_NOTIFY pid c e)] = [c]" "net_children [(p, WAIT_INTERRUPT)] = []"
  by (simp_all add: net_children_def)

lemma job_children_simps [simp]:
  "job_children [] = []" "job_children (js @ js') = job_children js @ job_children js'"
  "job_children ((c, pp, ch, e) # js) = ch # job_children js"
  by (simp_all add: job_children_def)

lemma recv_port_children:
  "recv_port pid ms = Some (m, rest) \<Longrightarrow>
    count_list (net_children ms) p = count_list (net_children rest) p + (case m of EXIT_NOTIFY _ c _ \<Rightarrow> of_bool (c = p) | _ \<Rightarrow> 0)"
proof (induction ms arbitrary: rest)
  case (Cons a ms)
  then show ?case by (cases a) (auto simp: net_children_def split: if_splits wait_msg.splits)
qed simp

subsection \<open>Process objects\<close>

lemma tokens_set_proc:
  assumes "finite (dom (procs s))" "procs s p = Some x"
  shows "tokens (set_proc p x' s) r + count_list (map fst (p_pending x)) r = tokens s r + count_list (map fst (p_pending x')) r"
  using pend_count_upd [OF assms, of x' r] by (simp add: tokens_def set_proc_def)

lemma set_proc_simps [simp]:
  "procs (set_proc p x s) = (procs s)(p \<mapsto> x)" "reg (set_proc p x s) = reg s" "res (set_proc p x s) = res s"
  "net (set_proc p x s) = net s" "jobs (set_proc p x s) = jobs s" "workers (set_proc p x s) = workers s"
  "clean_q (set_proc p x s) = clean_q s" "exited (set_proc p x s) = exited s"
  by (simp_all add: set_proc_def)

lemma proc_ok_cong:
  assumes "proc_ok e s p x" "res s' = res s" "workers s' = workers s" "e' p = e p"
  shows "proc_ok e' s' p x"
  using assms(1) unfolding proc_ok_def assms(2-4) .

lemma proc_ok_fields:
  assumes "proc_ok e s p x" "p_pid x' = p_pid x" "p_threads x' = p_threads x" "p_refs x' = p_refs x" "p_state x' = p_state x"
  shows "proc_ok e s p x'"
  using assms(1) unfolding proc_ok_def assms(2-5) .

lemma proc_okD:
  assumes "proc_ok e s p x"
  shows "0 < p_pid x" "p_threads x = card {t. res s t = Some p}" "0 < p_refs x"
    "p_refs x = (if p_state x = LINUX_EXIT_CLAIMED then 0 else 1) + p_threads x + count_list (workers s) p + e p"
    "p_state x = LINUX_EXIT_NOTIFIED \<Longrightarrow> p_threads x = 0" "p_state x = LINUX_EXIT_CLAIMED \<Longrightarrow> p_threads x = 0"
  using assms unfolding proc_ok_def by blast+

text \<open>Replacing a process object, together with local references and tokens.\<close>

lemma pinv_set:
  assumes inv: "pinv e k s" and x: "procs s p = Some x"
    and same: "p_pid x' = p_pid x" "p_threads x' = p_threads x" "p_state x' = LINUX_EXIT_CLAIMED \<longleftrightarrow> p_state x = LINUX_EXIT_CLAIMED"
    and refs: "p_refs x' + e p = p_refs x + e' p" "\<And>q. q \<noteq> p \<Longrightarrow> e' q = e q"
    and nt: "p_state x' = LINUX_EXIT_NOTIFIED \<Longrightarrow> p_threads x = 0"
    and tok: "\<And>r. count_list (map fst (p_pending x')) r + k' r \<le> count_list (map fst (p_pending x)) r + k r"
      "0 < tokens s p + k p \<Longrightarrow> p_state x' = LINUX_EXIT_NOTIFIED \<and> p_last x'"
    and pos: "0 < p_refs x'"
    and pend: "\<And>c i v. (c, i, v) \<in> set (p_pending x') \<Longrightarrow> \<exists>z. procs s c = Some z \<and> p_pid z = i"
  shows "pinv e' k' (set_proc p x' s)"
proof (rule pinvI)
  note D = pinvD [OF inv]
  let ?s = "set_proc p x' s"
  show "pend_ok ?s" by (rule pend_ok_set [OF D(10) x same(1) pend]) simp_all
  show "procs ?s q \<noteq> None" if "0 < e' q" for q using D(11) [of q] refs(2) [of q] that by (cases "q = p") auto
  have tk: "tokens ?s r + k' r \<le> tokens s r + k r" for r
    using tokens_set_proc [OF D(1) x, of x' r] tok(1) [of r] by linarith
  show "finite (dom (procs ?s))" "finite (dom (res ?s))" using D(1,2) by simp_all
  show "\<exists>y. procs ?s q = Some y \<and> p_pid y = pid \<and> p_state y \<noteq> LINUX_EXIT_CLAIMED" if "reg ?s pid = Some q" for pid q
    using D(3) [of pid q] that x same by (cases "q = p") auto
  show "procs ?s q \<noteq> None" if "res ?s t = Some q" for t q using D(4) [of t q] that by auto
  show "procs ?s q \<noteq> None" if "q \<in> set (workers ?s)" for q using D(5) [of q] that by auto
  show "proc_ok e' ?s q y" if "procs ?s q = Some y" for q y
  proof (cases "q = p")
    case True
    have y: "y = x'" using True that by simp
    note ok = proc_okD [OF D(6) [OF x]]
    have "p_refs x' = (if p_state x' = LINUX_EXIT_CLAIMED then 0 else 1) + p_threads x' + count_list (workers s) p + e' p"
      using ok(4) refs(1) same by (simp split: if_splits)
    then show ?thesis using True y same nt pos ok(1,2,6) unfolding proc_ok_def by simp
  next
    case False
    then have "proc_ok e s q y" using that D(6) by simp
    then show ?thesis by (rule proc_ok_cong) (use False refs(2) in simp_all)
  qed
  show "tokens ?s q + k' q \<le> 1" for q using tk [of q] D(7) [of q] by linarith
  show "token_ok ?s q" if "0 < tokens ?s q + k' q" for q
  proof -
    have "0 < tokens s q + k q" using that tk [of q] by linarith
    then show ?thesis using D(8) [of q] tok(2) by (cases "q = p") (auto simp: token_ok_def)
  qed
  show "q = r" if "procs ?s q = Some y" "procs ?s r = Some z" "p_pid y = p_pid z" for q r y z
    using that D(9) x same(1) by (auto split: if_splits)
qed

lemma pinv_fields:
  assumes inv: "pinv e k s" and x: "procs s p = Some x"
    and same: "p_pid x' = p_pid x" "p_threads x' = p_threads x" "p_state x' = p_state x" "p_refs x' = p_refs x"
      "p_pending x' = p_pending x" "p_last x \<Longrightarrow> p_last x'"
  shows "pinv e k (set_proc p x' s)"
proof (rule pinv_set [OF inv x])
  show "0 < p_refs x'" using proc_okD(3) [OF pinvD(6) [OF inv x]] same by simp
  show "p_threads x = 0" if "p_state x' = LINUX_EXIT_NOTIFIED" using proc_okD(5) [OF pinvD(6) [OF inv x]] that same by simp
  show "p_state x' = LINUX_EXIT_NOTIFIED \<and> p_last x'" if "0 < tokens s p + k p"
    using pinvD(8) [OF inv that] x same by (auto simp: token_ok_def)
  show "\<exists>z. procs s c = Some z \<and> p_pid z = i" if "(c, i, v) \<in> set (p_pending x')" for c i v
    using pend_okD [OF pinvD(10) [OF inv] x] that same by simp
qed (simp_all add: same)

lemma put_inv:
  assumes inv: "pinv e k s" and ex: "0 < e p"
  shows "\<exists>s'. linux_proc_put p s = Some s' \<and> pinv (e(p := e p - 1)) k s'"
proof -
  note D = pinvD [OF inv]
  obtain x where x: "procs s p = Some x" using D(11) [OF ex] by blast
  note ok = D(6) [OF x]
  show ?thesis
  proof (cases "p_refs x \<le> 1")
    case False
    then have "linux_proc_put p s = Some (set_proc p (x\<lparr>p_refs := p_refs x - 1\<rparr>) s)" by (simp add: linux_proc_put_def x)
    moreover have "pinv (e(p := e p - 1)) k (set_proc p (x\<lparr>p_refs := p_refs x - 1\<rparr>) s)"
    proof (rule pinv_set [OF inv x])
      show "p_threads x = 0" if "p_state (x\<lparr>p_refs := p_refs x - 1\<rparr>) = LINUX_EXIT_NOTIFIED"
        using proc_okD(5) [OF ok] that by simp
      show "p_state (x\<lparr>p_refs := p_refs x - 1\<rparr>) = LINUX_EXIT_NOTIFIED \<and> p_last (x\<lparr>p_refs := p_refs x - 1\<rparr>)" if "0 < tokens s p + k p"
        using D(8) [OF that] x by (auto simp: token_ok_def)
      show "\<exists>z. procs s c = Some z \<and> p_pid z = i" if "(c, i, v) \<in> set (p_pending (x\<lparr>p_refs := p_refs x - 1\<rparr>))" for c i v
        using pend_okD [OF D(10) x] that by simp
    qed (use False ex in auto)
    ultimately show ?thesis by blast
  next
    case True
    let ?s = "s\<lparr>procs := (procs s)(p := None)\<rparr>"
    have c: "p_state x = LINUX_EXIT_CLAIMED" "card {t. res s t = Some p} = 0" "count_list (workers s) p = 0" "e p = 1"
      using True ok ex by (auto simp: proc_ok_def split: if_splits)
    have "finite {t. res s t = Some p}" by (rule finite_subset [OF _ D(2)]) auto
    then have nores: "res s t \<noteq> Some p" for t using c(2) by auto
    have nowork: "p \<notin> set (workers s)" using c(3) by (simp add: count_list_0_iff)
    have notok: "tokens s p + k p = 0" using D(8) [of p] x c(1) by (cases "0 < tokens s p + k p") (auto simp: token_ok_def)
    have tk: "tokens ?s r \<le> tokens s r" for r
      using pend_count_del [OF D(1) x, of r] by (simp add: tokens_def)
    have nopend: "c \<noteq> p" if "procs s q = Some y" "(c, i, v) \<in> set (p_pending y)" for q y c i v
      using pend_count_pos [OF D(1) that] notok by (auto simp: tokens_def)
    have "pinv (e(p := e p - 1)) k ?s"
    proof (rule pinvI)
      show "procs ?s q \<noteq> None" if "0 < (e(p := e p - 1)) q" for q using that c(4) D(11) [of q] by (cases "q = p") auto
      show "pend_ok ?s" unfolding pend_ok_def
      proof (intro allI impI)
        fix q y c i v
        assume "procs ?s q = Some y" "(c, i, v) \<in> set (p_pending y)"
        then have q: "procs s q = Some y" "(c, i, v) \<in> set (p_pending y)" by (auto split: if_splits)
        then show "\<exists>z. procs ?s c = Some z \<and> p_pid z = i" using pend_okD [OF D(10) q] nopend [OF q] by simp
      qed
      show "finite (dom (procs ?s))" "finite (dom (res ?s))" using D(1,2) by simp_all
      show "\<exists>y. procs ?s q = Some y \<and> p_pid y = pid \<and> p_state y \<noteq> LINUX_EXIT_CLAIMED" if "reg ?s pid = Some q" for pid q
        using D(3) [of pid q] that x c(1) by auto
      show "procs ?s q \<noteq> None" if "res ?s t = Some q" for t q using D(4) [of t q] that nores [of t] by auto
      show "procs ?s q \<noteq> None" if "q \<in> set (workers ?s)" for q using D(5) [of q] that nowork by auto
      show "proc_ok (e(p := e p - 1)) ?s q y" if "procs ?s q = Some y" for q y
      proof -
        have "q \<noteq> p" "procs s q = Some y" using that by (auto split: if_splits)
        then show ?thesis by (intro proc_ok_cong [OF D(6)]) simp_all
      qed
      show "tokens ?s q + k q \<le> 1" for q using tk [of q] D(7) [of q] by linarith
      show "token_ok ?s q" if "0 < tokens ?s q + k q" for q
      proof -
        have "0 < tokens s q + k q" using that tk [of q] by linarith
        then show ?thesis using D(8) [of q] notok by (cases "q = p") (auto simp: token_ok_def)
      qed
      show "q = r" if "procs ?s q = Some y" "procs ?s r = Some z" "p_pid y = p_pid z" for q r y z
        using that D(9) by (auto split: if_splits)
    qed
    moreover have "linux_proc_put p s = Some ?s" using True by (simp add: linux_proc_put_def x)
    ultimately show ?thesis by blast
  qed
qed

lemma pinv_tok:
  assumes inv: "pinv e k s" and same: "procs s' = procs s" "reg s' = reg s" "res s' = res s" "workers s' = workers s"
    and tk: "\<And>r. tokens s' r + k' r \<le> tokens s r + k r"
  shows "pinv e k' s'"
proof (rule pinvI)
  note D = pinvD [OF inv]
  show "tokens s' p + k' p \<le> 1" for p using tk [of p] D(7) [of p] by linarith
  show "token_ok s' p" if "0 < tokens s' p + k' p" for p
  proof -
    have "0 < tokens s p + k p" using that tk [of p] by linarith
    then show ?thesis using D(8) same by (simp add: token_ok_def)
  qed
  show "proc_ok e s' p x" if "procs s' p = Some x" for p x
    by (rule proc_ok_cong [OF D(6)]) (use that same in simp_all)
  show "finite (dom (procs s'))" "finite (dom (res s'))" using D(1,2) same by simp_all
  show "\<exists>x. procs s' p = Some x \<and> p_pid x = pid \<and> p_state x \<noteq> LINUX_EXIT_CLAIMED" if "reg s' pid = Some p" for pid p
    using D(3) [of pid p] that same by simp
  show "procs s' p \<noteq> None" if "res s' t = Some p" for t p using D(4) [of t p] that same by auto
  show "procs s' p \<noteq> None" if "p \<in> set (workers s')" for p using D(5) [of p] that same by auto
  show "p = q" if "procs s' p = Some x" "procs s' q = Some y" "p_pid x = p_pid y" for p q x y
    using that D(9) same by metis
  show "pend_ok s'" using D(10) unfolding pend_ok_def same .
  show "procs s' p \<noteq> None" if "0 < e p" for p using D(11) [OF that] same by simp
qed

text \<open>Changing the holders of references to one process.\<close>

lemma pinv_holders:
  assumes inv: "pinv e k s" and x: "procs s p = Some x"
    and same: "p_pid x' = p_pid x" "p_pending x' = p_pending x" "p_state x' = p_state x" "p_last x' = p_last x"
    and s': "procs s' = (procs s)(p \<mapsto> x')" "reg s' = reg s" "net s' = net s" "jobs s' = jobs s"
    and ok: "proc_ok e' s' p x'" and fin: "finite (dom (res s'))"
    and other: "\<And>t q. q \<noteq> p \<Longrightarrow> res s' t = Some q \<longleftrightarrow> res s t = Some q"
      "\<And>q. q \<noteq> p \<Longrightarrow> count_list (workers s') q = count_list (workers s) q" "\<And>q. q \<noteq> p \<Longrightarrow> e' q = e q"
  shows "pinv e' k s'"
proof (rule pinvI)
  note D = pinvD [OF inv]
  have tk: "tokens s' r = tokens s r" for r
    using pend_count_upd [OF D(1) x, of x' r] same(2) s' by (simp add: tokens_def)
  show "tokens s' q + k q \<le> 1" for q using tk D(7) by simp
  show "token_ok s' q" if "0 < tokens s' q + k q" for q
    using that D(8) [of q] tk x same s' by (cases "q = p") (auto simp: token_ok_def)
  show "proc_ok e' s' q y" if "procs s' q = Some y" for q y
  proof (cases "q = p")
    case False
    then have "proc_ok e s q y" using D(6) that s' by simp
    then show ?thesis unfolding proc_ok_def other(1) [OF False] other(2,3) [OF False] .
  qed (use that ok s' in simp)
  show "finite (dom (procs s'))" "finite (dom (res s'))" using D(1) fin s' by simp_all
  show "\<exists>y. procs s' q = Some y \<and> p_pid y = pid \<and> p_state y \<noteq> LINUX_EXIT_CLAIMED" if "reg s' pid = Some q" for pid q
    using D(3) [of pid q] that s' x same by (cases "q = p") auto
  show "procs s' q \<noteq> None" if "res s' t = Some q" for t q
    using D(4) [of t q] that other(1) [of q t] s' by (cases "q = p") auto
  show "procs s' q \<noteq> None" if "q \<in> set (workers s')" for q
  proof (cases "q = p")
    case False
    then have "count_list (workers s) q \<noteq> 0" using that other(2) by (metis count_list_0_iff)
    then show ?thesis using D(5) [of q] False s' by (auto simp: count_list_0_iff)
  qed (use s' in simp)
  show "q = r" if "procs s' q = Some y" "procs s' r = Some z" "p_pid y = p_pid z" for q r y z
    using that D(9) s' x same(1) by (auto split: if_splits)
  show "procs s' q \<noteq> None" if "0 < e' q" for q using D(11) [of q] other(3) [of q] that s' by (cases "q = p") auto
  show "pend_ok s'"
    by (rule pend_ok_set [OF D(10) x same(1) _ s'(1)]) (use pend_okD [OF D(10) x] same(2) in simp)
qed

lemma res_set_upd:
  assumes "res s t = None"
  shows "{u. ((res s)(t \<mapsto> p)) u = Some p} = insert t {u. res s u = Some p}"
  using assms by auto

lemma card_res:
  assumes "pinv e k s"
  shows "finite {u. res s u = Some p}"
  by (rule finite_subset [OF _ pinvD(2) [OF assms]]) auto

lemma attach_inv:
  assumes inv: "pinv e k s" and al: "procs s p = Some x" "p_state x \<noteq> LINUX_EXIT_NOTIFIED" "p_state x \<noteq> LINUX_EXIT_CLAIMED"
    and t: "res s t = None"
  shows "\<exists>s'. linux_proc_attach_thread p t s = Some (REND_SUCCESS, s') \<and> pinv e k s' \<and> reg s' = reg s \<and> res s' = (res s)(t \<mapsto> p)
    \<and> procs s' = (procs s)(p \<mapsto> x\<lparr>p_refs := p_refs x + 1, p_threads := p_threads x + 1\<rparr>)"
proof -
  let ?x = "x\<lparr>p_refs := p_refs x + 1, p_threads := p_threads x + 1\<rparr>"
  let ?s = "(set_proc p ?x s)\<lparr>res := (res s)(t \<mapsto> p)\<rparr>"
  note ok = proc_okD [OF pinvD(6) [OF inv al(1)]]
  have "pinv e k ?s"
  proof (rule pinv_holders [OF inv al(1), where x' = ?x])
    have "t \<notin> {u. res s u = Some p}" using t by simp
    then have "card {u. ((res s)(t \<mapsto> p)) u = Some p} = Suc (card {u. res s u = Some p})"
      unfolding res_set_upd [of s t p, OF t] using card_res [OF inv] by simp
    then show "proc_ok e ?s p ?x" using ok al(2,3) by (simp add: proc_ok_def)
    show "finite (dom (res ?s))" using pinvD(2) [OF inv] by simp
  qed (use t in auto)
  moreover have "linux_proc_attach_thread p t s = Some (REND_SUCCESS, ?s)"
    using t ok(3) by (simp add: linux_proc_attach_thread_def al(1))
  ultimately show ?thesis by simp
qed

lemma detach_inv:
  assumes inv: "pinv e k s"
  shows "\<exists>s'. linux_proc_detach_thread t s = Some s' \<and> pinv e k s'"
proof (cases "res s t")
  case None
  then show ?thesis using inv by (simp add: linux_proc_detach_thread_def)
next
  case (Some p)
  then obtain x where x: "procs s p = Some x" using pinvD(4) [OF inv] by blast
  note ok = proc_okD [OF pinvD(6) [OF inv x]]
  let ?x = "x\<lparr>p_threads := p_threads x - 1\<rparr>"
  let ?s = "(set_proc p ?x s)\<lparr>res := (res s)(t := None)\<rparr>"
  have set: "{u. ((res s)(t := None)) u = Some p} = {u. res s u = Some p} - {t}" by auto
  have "t \<in> {u. res s u = Some p}" using Some by simp
  then have c: "card {u. ((res s)(t := None)) u = Some p} = p_threads x - 1" "0 < p_threads x"
    unfolding set ok(2) using card_res [OF inv] by (auto simp: card_gt_0_iff)
  have "pinv (e(p := Suc (e p))) k ?s"
  proof (rule pinv_holders [OF inv x, where x' = ?x])
    show "proc_ok (e(p := Suc (e p))) ?s p ?x" using ok c by (auto simp: proc_ok_def)
    show "finite (dom (res ?s))" using pinvD(2) [OF inv] by simp
  qed (use Some in auto)
  then obtain s' where "linux_proc_put p ?s = Some s'" "pinv ((e(p := Suc (e p)))(p := (e(p := Suc (e p))) p - 1)) k s'"
    using put_inv [of "e(p := Suc (e p))" k ?s p] by auto
  then show ?thesis using Some x by (simp add: linux_proc_detach_thread_def)
qed

subsection \<open>Notifications\<close>

lemma token_proc:
  assumes "pinv e k s" "0 < tokens s p + k p"
  shows "\<exists>x. procs s p = Some x \<and> p_state x = LINUX_EXIT_NOTIFIED \<and> p_last x \<and> p_threads x = 0 \<and> 0 < p_pid x"
  using pinvD(8) [OF assms] proc_okD(1,5) [OF pinvD(6) [OF assms(1)]] unfolding token_ok_def by blast

lemma pinv_pending:
  assumes inv: "pinv e k s" and q: "procs s q = Some y"
    and tok: "\<And>r. count_list (map fst ps) r + k' r \<le> count_list (map fst (p_pending y)) r + k r"
    and named: "\<And>c i v. (c, i, v) \<in> set ps \<Longrightarrow> \<exists>z. procs s c = Some z \<and> p_pid z = i"
  shows "pinv e k' (set_proc q (y\<lparr>p_pending := ps\<rparr>) s)"
proof (rule pinv_set [OF inv q])
  note ok = proc_okD [OF pinvD(6) [OF inv q]]
  show "0 < p_refs (y\<lparr>p_pending := ps\<rparr>)" using ok(3) by simp
  show "p_threads y = 0" if "p_state (y\<lparr>p_pending := ps\<rparr>) = LINUX_EXIT_NOTIFIED" using ok(5) that by simp
  show "p_state (y\<lparr>p_pending := ps\<rparr>) = LINUX_EXIT_NOTIFIED \<and> p_last (y\<lparr>p_pending := ps\<rparr>)" if "0 < tokens s q + k q"
    using pinvD(8) [OF inv that] q by (auto simp: token_ok_def)
qed (use tok named in simp_all)

lemma pinv_drop_tok: "pinv e k s \<Longrightarrow> (\<And>r. k' r \<le> k r) \<Longrightarrow> pinv e k' s"
  by (rule pinv_tok) auto

lemma push_inv:
  assumes inv: "pinv e k s" and k: "k c = 1" and q: "procs s q \<noteq> None"
  shows "\<exists>b s'. linux_proc_wait_pending_push ok q c code s = Some (b, s') \<and> pinv e (k(c := 0)) s'"
proof -
  obtain x where x: "procs s c = Some x" "0 < p_pid x" using token_proc [OF inv, of c] k by auto
  obtain y where y: "procs s q = Some y" using q by auto
  show ?thesis
  proof (cases ok)
    case True
    let ?ps = "p_pending y @ [(c, p_pid x, code)]"
    have "pinv e (k(c := 0)) (set_proc q (y\<lparr>p_pending := ?ps\<rparr>) s)"
      by (rule pinv_pending [OF inv y]) (use k x pend_okD [OF pinvD(10) [OF inv] y] in \<open>auto simp: count_list_append\<close>)
    then show ?thesis using True x y by (intro exI [of _ True]) (simp add: linux_proc_wait_pending_push_def)
  next
    case False
    have "pinv e (k(c := 0)) s" by (rule pinv_drop_tok [OF inv]) simp
    then show ?thesis using False x by (intro exI [of _ False]) (simp add: linux_proc_wait_pending_push_def)
  qed
qed

lemma find_pid_alloc: "pinv e k s \<Longrightarrow> find_pid pid s = Some p \<Longrightarrow> \<exists>x. procs s p = Some x \<and> p_pid x = pid \<and> p_state x \<noteq> LINUX_EXIT_CLAIMED"
  using pinvD(3) [of e k s pid p] by (auto simp: find_pid_def split: if_splits)

lemma matches_total: "pinv e k s \<Longrightarrow> \<exists>m. linux_proc_wait_pid_matches want pid q s = Some m"
  using find_pid_alloc [of e k s pid] by (auto simp: linux_proc_wait_pid_matches_def split: option.splits)

lemma take_match_total:
  assumes "pinv e k s"
  shows "\<exists>r. take_match want q s ps = Some r \<and>
    (\<forall>c code rest. r = Some ((c, code), rest) \<longrightarrow>
      (\<exists>pid. (c, pid, code) \<in> set ps \<and> linux_proc_wait_pid_matches want pid q s = Some True) \<and> set rest \<subseteq> set ps
      \<and> (\<forall>p. count_list (map fst ps) p = count_list (map fst rest) p + of_bool (c = p)))"
proof (induction ps)
  case (Cons a ps)
  obtain c pid code where a: "a = (c, pid, code)" by (cases a)
  obtain m where m: "linux_proc_wait_pid_matches want pid q s = Some m" using matches_total [OF assms] by blast
  obtain r where r: "take_match want q s ps = Some r" and R: "\<forall>c code rest. r = Some ((c, code), rest) \<longrightarrow>
      (\<exists>pid. (c, pid, code) \<in> set ps \<and> linux_proc_wait_pid_matches want pid q s = Some True) \<and> set rest \<subseteq> set ps
      \<and> (\<forall>p. count_list (map fst ps) p = count_list (map fst rest) p + of_bool (c = p))" using Cons by blast
  show ?case
  proof (cases m)
    case True
    then show ?thesis using a m by auto
  next
    case False
    show ?thesis
    proof (cases r)
      case (Some v)
      obtain c' code' rest where v: "v = ((c', code'), rest)" by (cases v) auto
      note R' = R [rule_format, OF Some [unfolded v]]
      have "take_match want q s (a # ps) = Some (Some ((c', code'), a # rest))" using a m False r Some v by simp
      then show ?thesis using R' a by auto
    qed (use a m False r in simp)
  qed
qed simp

lemma take_inv:
  assumes inv: "pinv e k s" and q: "procs s q \<noteq> None"
  shows "\<exists>r s'. linux_proc_wait_pending_take q want s = Some (r, s') \<and>
    (case r of None \<Rightarrow> s' = s | Some (c, code) \<Rightarrow> pinv e (k(c := k c + 1)) s')"
proof -
  obtain y where y: "procs s q = Some y" using q by auto
  obtain r where r: "take_match want y s (p_pending y) = Some r" and
    R: "\<forall>c code rest. r = Some ((c, code), rest) \<longrightarrow>
      (\<exists>pid. (c, pid, code) \<in> set (p_pending y) \<and> linux_proc_wait_pid_matches want pid y s = Some True) \<and> set rest \<subseteq> set (p_pending y)
      \<and> (\<forall>p. count_list (map fst (p_pending y)) p = count_list (map fst rest) p + of_bool (c = p))"
    using take_match_total [OF inv, of want y "p_pending y"] by blast
  show ?thesis
  proof (cases r)
    case None
    then show ?thesis using y r by (simp add: linux_proc_wait_pending_take_def)
  next
    case (Some v)
    obtain c code rest where v: "v = ((c, code), rest)" by (cases v) auto
    note R' = R [rule_format, OF Some [unfolded v]]
    have "pinv e (k(c := k c + 1)) (set_proc q (y\<lparr>p_pending := rest\<rparr>) s)"
      by (rule pinv_pending [OF inv y]) (use R' pend_okD [OF pinvD(10) [OF inv] y] in \<open>auto simp: of_bool_def\<close>)
    then show ?thesis using y r Some v by (simp add: linux_proc_wait_pending_take_def)
  qed
qed

lemma post_inv:
  assumes inv: "pinv e k s" and k: "k c = 1"
  shows "\<exists>r s'. linux_proc_try_post_exit_notify d ppid c code s = Some (r, s') \<and>
    (if r = LINUX_PROC_TRY_DELIVERED then pinv e (k(c := 0)) s' else s' = s)"
proof -
  obtain x where x: "procs s c = Some x" "0 < p_pid x" using token_proc [OF inv, of c] k by auto
  have "pinv e (k(c := 0)) (s\<lparr>net := net s @ [(ppid, EXIT_NOTIFY (p_pid x) c code)]\<rparr>)"
    by (rule pinv_tok [OF inv]) (use k in \<open>auto simp: tokens_def\<close>)
  moreover have "pinv e (k(c := 0)) s" by (rule pinv_drop_tok [OF inv]) simp
  ultimately show ?thesis using x by (cases d) (auto simp: linux_proc_try_post_exit_notify_def)
qed

lemma poke_inv: "pinv e k s \<Longrightarrow> pinv e k (linux_proc_wait_poke ok ppid s)"
  unfolding linux_proc_wait_poke_def by (auto intro: pinv_tok simp: tokens_def)

lemma fallback_inv:
  assumes inv: "pinv e k s" and k: "k c = 1"
  shows "\<exists>s'. clean_exit_notify_fallback_pending alloc_ok poke_ok ppid c code s = Some s' \<and> pinv e (k(c := 0)) s'"
proof (cases "find_pid ppid s")
  case None
  have "pinv e (k(c := 0)) s" by (rule pinv_drop_tok [OF inv]) simp
  then show ?thesis using None by (simp add: clean_exit_notify_fallback_pending_def)
next
  case (Some q)
  then have "procs s q \<noteq> None" using find_pid_alloc [OF inv] by blast
  then obtain b s' where "linux_proc_wait_pending_push alloc_ok q c code s = Some (b, s')" "pinv e (k(c := 0)) s'"
    using push_inv [of e k s c q alloc_ok code] inv k by blast
  then show ?thesis using Some poke_inv by (cases b) (auto simp: clean_exit_notify_fallback_pending_def)
qed

lemma poll_inv:
  assumes "pinv e (\<lambda>r. k r + count_list (job_children js) r) s"
  shows "\<exists>s'. poll_jobs env cpu js s = Some s' \<and> pinv e k s'"
  using assms
proof (induction js arbitrary: s)
  case (Cons j js)
  obtain c ppid ch code where j: "j = (c, ppid, ch, code)" by (cases j)
  let ?k = "\<lambda>r. k r + count_list (job_children (j # js)) r"
  have k1: "?k ch = 1" using pinvD(7) [OF Cons.prems, of ch] j by simp
  have go: "\<exists>s'. poll_jobs env cpu js s1 = Some s' \<and> pinv e k s'" if "pinv e (?k(ch := 0)) s1" for s1
  proof (rule Cons.IH)
    show "pinv e (\<lambda>r. k r + count_list (job_children js) r) s1" using that
      by (rule pinv_drop_tok) (use k1 j in auto)
  qed
  have keep: "pinv e (?k(ch := 0)) (s\<lparr>jobs := jobs s @ [j]\<rparr>)"
    by (rule pinv_tok [OF Cons.prems]) (use k1 j in \<open>auto simp: tokens_def\<close>)
  have drop: "pinv e (?k(ch := 0)) s" by (rule pinv_drop_tok [OF Cons.prems]) simp
  show ?case
  proof (cases "c \<noteq> cpu \<or> find_pid ppid s = None")
    case True
    then show ?thesis using go [OF keep] go [OF drop] j by auto
  next
    case False
    obtain d ao po where env: "env ch = (d, ao, po)" by (cases "env ch")
    obtain r s1 where r: "linux_proc_try_post_exit_notify d ppid ch code s = Some (r, s1)"
      "if r = LINUX_PROC_TRY_DELIVERED then pinv e (?k(ch := 0)) s1 else s1 = s" using post_inv [OF Cons.prems k1] by blast
    obtain s2 where s2: "clean_exit_notify_fallback_pending ao po ppid ch code s = Some s2" "pinv e (?k(ch := 0)) s2"
      using fallback_inv [OF Cons.prems k1] by blast
    show ?thesis using False env r s2(1) go [OF keep] go [OF s2(2)] go [of s1] j by (cases r) auto
  qed
qed simp

lemma poll_jobs_inv:
  assumes "pinv e k s"
  shows "\<exists>s'. clean_poll_exit_notify_jobs env cpu s = Some s' \<and> pinv e k s'"
  unfolding clean_poll_exit_notify_jobs_def
  by (rule poll_inv, rule pinv_tok [OF assms]) (auto simp: tokens_def)

lemma async_inv:
  assumes inv: "pinv e k s" and k: "k c = 1"
  shows "\<exists>s'. clean_async_exit_notify env job_ok cpu ppid c code s = Some s' \<and> pinv e (k(c := 0)) s'"
proof -
  obtain s1 where s1: "clean_poll_exit_notify_jobs env cpu s = Some s1" "pinv e k s1" using poll_jobs_inv [OF inv] by blast
  obtain x where x: "procs s1 c = Some x" "0 < p_pid x" using token_proc [OF s1(2), of c] k by auto
  obtain d ao po where env: "env c = (d, ao, po)" by (cases "env c")
  obtain r s2 where r: "linux_proc_try_post_exit_notify d ppid c code s1 = Some (r, s2)"
    "if r = LINUX_PROC_TRY_DELIVERED then pinv e (k(c := 0)) s2 else s2 = s1" using post_inv [OF s1(2) k] by blast
  obtain s3 where s3: "clean_exit_notify_fallback_pending ao po ppid c code s1 = Some s3" "pinv e (k(c := 0)) s3"
    using fallback_inv [OF s1(2) k] by blast
  have drop: "pinv e (k(c := 0)) s1" by (rule pinv_drop_tok [OF s1(2)]) simp
  have park: "pinv e (k(c := 0)) (s1\<lparr>jobs := jobs s1 @ [(cpu, ppid, c, code)]\<rparr>)"
    by (rule pinv_tok [OF s1(2)]) (use k in \<open>auto simp: tokens_def\<close>)
  show ?thesis using s1(1) x env r s3 drop park
    by (cases r) (auto simp: clean_async_exit_notify_def)
qed

subsection \<open>Reaping\<close>

definition ppid_map :: "(nat \<Rightarrow> int \<Rightarrow> int) \<Rightarrow> psys \<Rightarrow> psys" where
  "ppid_map f s = s\<lparr>procs := \<lambda>q. map_option (\<lambda>x. x\<lparr>p_ppid := f q (p_ppid x)\<rparr>) (procs s q)\<rparr>"

lemma ppid_map_simps [simp]:
  "procs (ppid_map f s) q = map_option (\<lambda>x. x\<lparr>p_ppid := f q (p_ppid x)\<rparr>) (procs s q)"
  "reg (ppid_map f s) = reg s" "res (ppid_map f s) = res s" "net (ppid_map f s) = net s" "jobs (ppid_map f s) = jobs s"
  "workers (ppid_map f s) = workers s" "clean_q (ppid_map f s) = clean_q s" "exited (ppid_map f s) = exited s"
  by (simp_all add: ppid_map_def)

lemma ppid_map_id: "ppid_map (\<lambda>q v. v) s = s"
proof -
  have "(\<lambda>q. map_option (\<lambda>x. x\<lparr>p_ppid := p_ppid x\<rparr>) (procs s q)) = procs s" by (rule ext) (simp add: option.map_ident)
  then show ?thesis by (simp add: ppid_map_def)
qed

lemma ppid_map_comp: "ppid_map g (ppid_map f s) = ppid_map (\<lambda>q v. g q (f q v)) s"
  by (simp add: ppid_map_def option.map_comp comp_def)

lemma ppid_map_one:
  assumes "procs s c = Some x"
  shows "set_proc c (x\<lparr>p_ppid := n\<rparr>) s = ppid_map (\<lambda>q v. if q = c then n else v) s"
proof -
  have "(procs s)(c \<mapsto> x\<lparr>p_ppid := n\<rparr>) = (\<lambda>q. map_option (\<lambda>x. x\<lparr>p_ppid := if q = c then n else p_ppid x\<rparr>) (procs s q))"
    by (rule ext) (use assms in \<open>auto simp: option.map_ident\<close>)
  then show ?thesis by (simp add: ppid_map_def set_proc_def)
qed

lemma reparent_loop_effect:
  assumes "\<forall>pid c. reg s pid = Some c \<longrightarrow> procs s c \<noteq> None"
  shows "\<exists>f. reparent_loop cs old_ppid n s = Some (ppid_map f s)"
  using assms
proof (induction cs arbitrary: s)
  case Nil
  then show ?case by (metis reparent_loop.simps(1) ppid_map_id)
next
  case (Cons a cs)
  show ?case
  proof (cases "find_pid a s")
    case None
    then show ?thesis using Cons by simp
  next
    case (Some c)
    then obtain x where x: "procs s c = Some x" using Cons.prems by (auto simp: find_pid_def split: if_splits)
    let ?g = "\<lambda>q v. if q = c then n else v"
    obtain f1 where "reparent_loop cs old_ppid n s = Some (ppid_map f1 s)" using Cons.IH [OF Cons.prems] by blast
    moreover have "\<forall>pid d. reg (ppid_map ?g s) pid = Some d \<longrightarrow> procs (ppid_map ?g s) d \<noteq> None" using Cons.prems by simp
    then obtain f2 where "reparent_loop cs old_ppid n (ppid_map ?g s) = Some (ppid_map f2 (ppid_map ?g s))" using Cons.IH by blast
    ultimately show ?thesis using Some x ppid_map_one [OF x, of n] ppid_map_comp [of f2 ?g s] by auto
  qed
qed

lemma reparent_effect:
  assumes "\<forall>pid c. reg s pid = Some c \<longrightarrow> procs s c \<noteq> None"
  shows "\<exists>f. proc_reparent_children old_ppid n s = Some (ppid_map f s)"
  using reparent_loop_effect [OF assms] ppid_map_id [of s] unfolding proc_reparent_children_def by metis

lemma ppid_map_inv:
  assumes inv: "pinv e k s"
  shows "pinv e k (ppid_map f s)"
proof (rule pinvI)
  note D = pinvD [OF inv]
  let ?s = "ppid_map f s"
  have dom: "dom (procs ?s) = dom (procs s)" by auto
  have "pend_count (procs ?s) r = pend_count (procs s) r" for r by (rule pend_count_mono [OF D(1) dom]) auto
  then have tk: "tokens ?s r = tokens s r" for r by (simp add: tokens_def)
  show "finite (dom (procs ?s))" "finite (dom (res ?s))" using D(1,2) dom by simp_all
  show "\<exists>y. procs ?s q = Some y \<and> p_pid y = pid \<and> p_state y \<noteq> LINUX_EXIT_CLAIMED" if "reg ?s pid = Some q" for pid q
    using D(3) [of pid q] that by auto
  show "procs ?s q \<noteq> None" if "res ?s t = Some q" for t q using D(4) [of t q] that by simp
  show "procs ?s q \<noteq> None" if "q \<in> set (workers ?s)" for q using D(5) [of q] that by simp
  show "procs ?s q \<noteq> None" if "0 < e q" for q using D(11) [of q] that by simp
  show "proc_ok e ?s q y" if y: "procs ?s q = Some y" for q y
  proof -
    obtain z where z: "procs s q = Some z" "y = z\<lparr>p_ppid := f q (p_ppid z)\<rparr>" using y by auto
    have "proc_ok e ?s q z" by (rule proc_ok_cong [OF D(6) [OF z(1)]]) simp_all
    then show ?thesis by (rule proc_ok_fields) (simp_all add: z(2))
  qed
  show "tokens ?s q + k q \<le> 1" for q using tk D(7) by simp
  show "token_ok ?s q" if "0 < tokens ?s q + k q" for q using D(8) [of q] that tk by (auto simp: token_ok_def)
  show "q = r" if "procs ?s q = Some y" "procs ?s r = Some z" "p_pid y = p_pid z" for q r y z
    using that D(9) by auto
  show "pend_ok ?s" by (rule pend_ok_map [OF D(10) ppid_map_simps(1)]) simp_all
qed

text \<open>The state between the two halves of \<^verbatim>\<open>linux_proc_reap\<close>: claimed, drained, unregistered and without a port.\<close>

definition claim :: "nat \<Rightarrow> linux_proc \<Rightarrow> psys \<Rightarrow> psys" where
  "claim p x s = (set_proc p (x\<lparr>p_state := LINUX_EXIT_CLAIMED, p_pending := []\<rparr>) s)
     \<lparr>net := filter (\<lambda>m. fst m \<noteq> p_pid x) (net s), reg := (reg s)(p_pid x := None)\<rparr>"

lemma claim_inv:
  assumes inv: "pinv e k s" and x: "procs s p = Some x" "p_threads x = 0"
    and st: "p_state x = LINUX_EXIT_ZOMBIE \<and> k p = 0 \<or> p_state x = LINUX_EXIT_NOTIFIED \<and> k p = 1"
  shows "pinv (e(p := e p + 1)) (k(p := 0)) (claim p x s)"
proof (rule pinvI)
  note D = pinvD [OF inv]
  note ok = proc_okD [OF D(6) [OF x(1)]]
  let ?x = "x\<lparr>p_state := LINUX_EXIT_CLAIMED, p_pending := []\<rparr>"
  let ?s = "claim p x s"
  have s: "procs ?s = (procs s)(p \<mapsto> ?x)" "reg ?s = (reg s)(p_pid x := None)" "res ?s = res s" "workers ?s = workers s"
    "jobs ?s = jobs s" "net ?s = filter (\<lambda>m. fst m \<noteq> p_pid x) (net s)" by (simp_all add: claim_def)
  have "p_state x = LINUX_EXIT_ZOMBIE \<Longrightarrow> tokens s p = 0" using token_proc [OF inv, of p] x(1) by (cases "tokens s p") auto
  then have tok0: "tokens s p = 0" using st D(7) [of p] by auto
  have tk: "tokens ?s r \<le> tokens s r" for r
    using pend_count_upd [OF D(1) x(1), of ?x r] count_list_filter_le [of "\<lambda>m. fst m \<noteq> p_pid x" "net s" r]
    by (simp add: tokens_def s)
  show "finite (dom (procs ?s))" "finite (dom (res ?s))" using D(1,2) s by simp_all
  show "\<exists>y. procs ?s q = Some y \<and> p_pid y = pid \<and> p_state y \<noteq> LINUX_EXIT_CLAIMED" if "reg ?s pid = Some q" for pid q
    using D(3) [of pid q] that s x by (cases "q = p") (auto split: if_splits)
  show "procs ?s q \<noteq> None" if "res ?s t = Some q" for t q using D(4) [of t q] that s by auto
  show "procs ?s q \<noteq> None" if "q \<in> set (workers ?s)" for q using D(5) [of q] that s by auto
  show "procs ?s q \<noteq> None" if "0 < (e(p := e p + 1)) q" for q using D(11) [of q] that s by (cases "q = p") auto
  show "proc_ok (e(p := e p + 1)) ?s q y" if "procs ?s q = Some y" for q y
  proof (cases "q = p")
    case True
    have "p_refs x = 1 + count_list (workers s) p + e p" using ok(4) x(2) st by auto
    then show ?thesis using True that ok(1,2,3) x(2) by (auto simp: s proc_ok_def)
  next
    case False
    then have "proc_ok e s q y" using that D(6) s by simp
    then show ?thesis by (rule proc_ok_cong) (use False s in simp_all)
  qed
  show "tokens ?s q + (k(p := 0)) q \<le> 1" for q using tk [of q] D(7) [of q] tok0 by auto
  show "token_ok ?s q" if "0 < tokens ?s q + (k(p := 0)) q" for q
    using that tk [of q] D(8) [of q] tok0 s by (cases "q = p") (auto simp: token_ok_def)
  show "q = r" if "procs ?s q = Some y" "procs ?s r = Some z" "p_pid y = p_pid z" for q r y z
    using that D(9) s x by (auto split: if_splits)
  show "pend_ok ?s" by (rule pend_ok_set [OF D(10) x(1) _ _ s(1)]) simp_all
qed

lemma reap_inv:
  assumes inv: "pinv e k s" and x: "procs s p = Some x" "p_threads x = 0"
    and st: "p_state x = LINUX_EXIT_ZOMBIE \<and> k p = 0 \<or> p_state x = LINUX_EXIT_NOTIFIED \<and> k p = 1"
  shows "\<exists>s'. linux_proc_reap p s = Some (REND_SUCCESS, s') \<and> pinv e (k(p := 0)) s' \<and> reg s' = (reg s)(p_pid x := None)
    \<and> (procs s' p = None \<or> (\<exists>y. procs s' p = Some y \<and> p_state y = LINUX_EXIT_CLAIMED))"
proof -
  let ?x1 = "x\<lparr>p_state := LINUX_EXIT_CLAIMED\<rparr>"
  let ?x2 = "x\<lparr>p_state := LINUX_EXIT_CLAIMED, p_pending := []\<rparr>"
  let ?s1 = "set_proc p ?x2 (set_proc p ?x1 s)"
  have "\<forall>pid c. reg ?s1 pid = Some c \<longrightarrow> procs ?s1 c \<noteq> None" using pinvD(3) [OF inv] by fastforce
  then obtain f where f: "proc_reparent_children (p_pid x) LINUX_INIT_REAP_PPID ?s1 = Some (ppid_map f ?s1)"
    using reparent_effect by blast
  let ?s2 = "(ppid_map f ?s1)\<lparr>net := filter (\<lambda>m. fst m \<noteq> p_pid x) (net s), reg := (reg s)(p_pid x := None)\<rparr>"
  have eq: "?s2 = ppid_map f (claim p x s)" by (simp add: ppid_map_def claim_def set_proc_def)
  have fini: "linux_proc_fini p (set_proc p ?x1 s) = Some ?s2"
    using f by (simp add: linux_proc_fini_def linux_proc_wait_pending_drain_def)
  have "pinv (e(p := e p + 1)) (k(p := 0)) ?s2"
    unfolding eq by (rule ppid_map_inv, rule claim_inv [OF inv x st])
  then obtain s3 where s3: "linux_proc_put p ?s2 = Some s3"
      "pinv ((e(p := e p + 1))(p := (e(p := e p + 1)) p - 1)) (k(p := 0)) s3"
    using put_inv [of "e(p := e p + 1)" "k(p := 0)" ?s2 p] by auto
  have run: "linux_proc_reap p s = Some (REND_SUCCESS, s3)"
    using x st fini s3(1) by (auto simp: linux_proc_reap_def)
  have "reg s3 = (reg s)(p_pid x := None) \<and> (procs s3 p = None \<or> (\<exists>y. procs s3 p = Some y \<and> p_state y = LINUX_EXIT_CLAIMED))"
    using s3(1) by (auto simp: linux_proc_put_def split: if_splits)
  then show ?thesis using run s3(2) by simp
qed

end
