(* ===== verification/Proc_Steps.thy ===== *)
theory Proc_Steps
  imports Proc_Inv
begin

text \<open>
  The steps of the process system: every system call and every half of the cleaning handler keeps the
  invariant, so that no interleaving of them touches a freed process object; a waiting parent gets the
  status of its exited child; and the cases in which a dead child is never reaped.
\<close>

section \<open>The handlers keep the invariant\<close>

subsection \<open>wait4\<close>

lemma finish_reap_inv:
  assumes inv: "pinv e k s" and k: "k c = 1" and q: "procs s parent \<noteq> None"
  shows "\<exists>ret st s'. wait4_finish_reap ws so parent c code s = Some (ret, st, s') \<and> pinv e (k(c := 0)) s'"
proof -
  obtain x where x: "procs s c = Some x" "p_state x = LINUX_EXIT_NOTIFIED" "p_last x" "p_threads x = 0" "0 < p_pid x"
    using token_proc [OF inv, of c] k by auto
  obtain y where y: "procs s parent = Some y" using q by auto
  let ?x = "x\<lparr>p_exit_code := code\<rparr>"
  have inv1: "pinv e k (set_proc c ?x s)" by (rule pinv_fields [OF inv x(1)]) simp_all
  have drop: "pinv e (k(c := 0)) s" "pinv e (k(c := 0)) (set_proc c ?x s)"
    by (rule pinv_drop_tok [OF inv], simp) (rule pinv_drop_tok [OF inv1], simp)
  obtain s' where s': "linux_proc_reap c (set_proc c ?x s) = Some (REND_SUCCESS, s')" "pinv e (k(c := 0)) s'"
    using reap_inv [OF inv1, of c ?x] x k by auto
  show ?thesis using x y s' drop by (simp add: wait4_finish_reap_def Let_def)
qed

lemma finish_reap_success:
  assumes inv: "pinv e k s" and k: "k c = 1" and x: "procs s c = Some x" and q: "procs s parent = Some y" "p_ppid x = p_pid y"
    and ok: "\<not> ws \<or> so"
  shows "\<exists>s'. wait4_finish_reap ws so parent c code s = Some (p_pid x, if ws then Some (wait4_encode_status code) else None, s')
    \<and> pinv e (k(c := 0)) s' \<and> reg s' (p_pid x) = None \<and> (\<forall>z. procs s' c = Some z \<longrightarrow> p_state z = LINUX_EXIT_CLAIMED)"
proof -
  have x': "p_state x = LINUX_EXIT_NOTIFIED" "p_last x" "p_threads x = 0" "0 < p_pid x"
    using token_proc [OF inv, of c] k x by auto
  let ?x = "x\<lparr>p_exit_code := code\<rparr>"
  have inv1: "pinv e k (set_proc c ?x s)" by (rule pinv_fields [OF inv x(1)]) simp_all
  obtain s' where s': "linux_proc_reap c (set_proc c ?x s) = Some (REND_SUCCESS, s')" "pinv e (k(c := 0)) s'"
      "reg s' = (reg s)(p_pid x := None)" "procs s' c = None \<or> (\<exists>y. procs s' c = Some y \<and> p_state y = LINUX_EXIT_CLAIMED)"
    using reap_inv [OF inv1, of c ?x] x' k by auto
  show ?thesis using x x' q ok s' by (auto simp: wait4_finish_reap_def Let_def)
qed

lemma try_pending_inv:
  assumes inv: "pinv e k s" and q: "procs s parent \<noteq> None"
  shows "\<exists>ret st s'. wait4_try_pending ws so parent want s = Some (ret, st, s') \<and> pinv e k s'"
proof -
  obtain r s1 where r: "linux_proc_wait_pending_take parent want s = Some (r, s1)"
      "case r of None \<Rightarrow> s1 = s | Some (c, code) \<Rightarrow> pinv e (k(c := k c + 1)) s1"
    using take_inv [OF inv q] by blast
  have "procs s1 parent \<noteq> None" using r(1) q by (auto simp: linux_proc_wait_pending_take_def bind_eq_Some_conv split: option.splits)
  then show ?thesis
  proof (cases r)
    case (Some v)
    obtain c code where v: "v = (c, code)" by (cases v)
    have i: "pinv e (k(c := k c + 1)) s1" using r(2) Some v by simp
    have "(k(c := k c + 1)) c = 1" using pinvD(7) [OF i, of c] by simp
    then obtain ret st s' where s': "wait4_finish_reap ws so parent c code s1 = Some (ret, st, s')" "pinv e ((k(c := k c + 1))(c := 0)) s'"
      using finish_reap_inv [OF i] \<open>procs s1 parent \<noteq> None\<close> by blast
    have "pinv e k s'" by (rule pinv_drop_tok [OF s'(2)]) (use pinvD(7) [OF i, of c] in simp)
    then show ?thesis using r(1) Some v s'(1) by (simp add: wait4_try_pending_def)
  qed (use r inv in \<open>simp add: wait4_try_pending_def\<close>)
qed

definition msg_tok :: "wait_msg \<Rightarrow> nat \<Rightarrow> nat" where
  "msg_tok m p = (case m of EXIT_NOTIFY _ c _ \<Rightarrow> of_bool (c = p) | _ \<Rightarrow> 0)"

lemma recv_inv:
  assumes inv: "pinv e k s" and m: "recv_port pid (net s) = Some (m, ms)"
  shows "pinv e (\<lambda>p. k p + msg_tok m p) (s\<lparr>net := ms\<rparr>)"
  by (rule pinv_tok [OF inv]) (use recv_port_children [OF m] in \<open>simp_all add: tokens_def msg_tok_def\<close>)

lemma handle_msg_inv:
  assumes inv: "pinv e (\<lambda>p. k p + msg_tok m p) s" and q: "procs s parent \<noteq> None"
  shows "\<exists>ret st s'. wait4_handle_port_msg ws so eintr ok parent want m s = Some (ret, st, s') \<and> pinv e k s'"
proof -
  let ?k = "\<lambda>p. k p + msg_tok m p"
  have drop: "pinv e k s" by (rule pinv_drop_tok [OF inv]) simp
  show ?thesis
  proof (cases m)
    case (EXIT_NOTIFY pid c code)
    have k1: "?k c = 1" using pinvD(7) [OF inv, of c] EXIT_NOTIFY by (simp add: msg_tok_def)
    have down: "pinv e k s'" if "pinv e (?k(c := 0)) s'" for s'
      by (rule pinv_drop_tok [OF that]) (use k1 EXIT_NOTIFY in \<open>auto simp: msg_tok_def split: if_splits\<close>)
    obtain x where x: "procs s c = Some x" using token_proc [OF inv, of c] k1 by auto
    obtain y where y: "procs s parent = Some y" using q by auto
    obtain b where b: "linux_proc_wait_pid_matches want pid y s = Some b" using matches_total [OF inv] by blast
    obtain r s1 where s1: "linux_proc_wait_pending_push ok parent c code s = Some (r, s1)" "pinv e (?k(c := 0)) s1"
      using push_inv [of e ?k s c parent ok code] inv k1 q by blast
    obtain ret st s2 where s2: "wait4_finish_reap ws so parent c code s = Some (ret, st, s2)" "pinv e (?k(c := 0)) s2"
      using finish_reap_inv [of e ?k s c parent ws so code] inv k1 q by blast
    show ?thesis using EXIT_NOTIFY x y b s1(1) s2(1) down [OF s1(2)] down [OF s2(2)] drop
      by (simp add: wait4_handle_port_msg_def)
  next
    case WAIT_INTERRUPT
    obtain ret st s' where s': "wait4_try_pending ws so parent want s = Some (ret, st, s')" "pinv e k s'"
      using try_pending_inv [OF drop q] by blast
    then show ?thesis using WAIT_INTERRUPT by (cases "ret = 0"; cases eintr) (simp_all add: wait4_handle_port_msg_def)
  qed (use drop in \<open>simp_all add: wait4_handle_port_msg_def\<close>)
qed

text \<open>One iteration of the receive loop.\<close>

definition wait_recv :: "bool \<Rightarrow> bool \<Rightarrow> bool \<Rightarrow> bool \<Rightarrow> nat \<Rightarrow> int \<Rightarrow> int \<Rightarrow> psys \<Rightarrow> (int \<times> int option \<times> psys) option" where
  "wait_recv ws so eintr ok parent port want s =
     (case recv_port port (net s) of
        None \<Rightarrow> Some (0, None, s)
      | Some (m, ms) \<Rightarrow> wait4_handle_port_msg ws so eintr ok parent want m (s\<lparr>net := ms\<rparr>))"

lemma wait_recv_inv:
  assumes inv: "pinv e k s" and q: "procs s parent \<noteq> None"
  shows "\<exists>ret st s'. wait_recv ws so eintr ok parent port want s = Some (ret, st, s') \<and> pinv e k s'"
proof (cases "recv_port port (net s)")
  case (Some v)
  obtain m ms where v: "v = (m, ms)" by (cases v)
  have "pinv e (\<lambda>p. k p + msg_tok m p) (s\<lparr>net := ms\<rparr>)" by (rule recv_inv [OF inv]) (use Some v in simp)
  from handle_msg_inv [OF this, of parent ws so eintr ok want] show ?thesis using Some v q by (simp add: wait_recv_def)
qed (use inv in \<open>simp add: wait_recv_def\<close>)

subsection \<open>Exit and the cleaning handler\<close>

lemma attached_live:
  assumes inv: "pinv e k s" and t: "res s t = Some p"
  shows "\<exists>x. procs s p = Some x \<and> 0 < p_threads x \<and> p_state x \<noteq> LINUX_EXIT_NOTIFIED \<and> p_state x \<noteq> LINUX_EXIT_CLAIMED
    \<and> tokens s p + k p = 0"
proof -
  obtain x where x: "procs s p = Some x" using pinvD(4) [OF inv t] by blast
  note ok = proc_okD [OF pinvD(6) [OF inv x]]
  have "{u. res s u = Some p} \<noteq> {}" using t by blast
  then have "0 < p_threads x" unfolding ok(2) using card_res [OF inv] by (simp add: card_gt_0_iff)
  moreover have "tokens s p + k p = 0"
    using token_proc [OF inv, of p] x calculation by (cases "tokens s p + k p = 0") auto
  ultimately show ?thesis using x ok(5,6) by auto
qed

lemma zero_upd [simp]: "(\<lambda>_. 0 :: nat)(p := 0) = (\<lambda>_. 0)" by (rule ext) simp

lemma exit_inv:
  assumes inv: "pinv e k s" and t: "res s t = Some p"
  shows "\<exists>b s'. sys_exit send_ok t code s = Some (b, s') \<and> linux_fatal_user_fault send_ok t code s = Some s' \<and> pinv e k s'"
proof -
  obtain x where x: "procs s p = Some x" "0 < p_threads x" "p_state x \<noteq> LINUX_EXIT_NOTIFIED" "p_state x \<noteq> LINUX_EXIT_CLAIMED"
      "tokens s p + k p = 0" using attached_live [OF inv t] by (elim exE conjE)
  let ?x = "x\<lparr>p_exit_code := code AND 0xFF, p_state := LINUX_EXIT_ZOMBIE, p_last := (p_threads x = 1)\<rparr>"
  have "pinv e k (set_proc p ?x s)"
  proof (rule pinv_set [OF inv x(1)])
    show "0 < p_refs ?x" using proc_okD(3) [OF pinvD(6) [OF inv x(1)]] by simp
    show "\<exists>z. procs s c = Some z \<and> p_pid z = i" if "(c, i, v) \<in> set (p_pending ?x)" for c i v
      using pend_okD [OF pinvD(10) [OF inv] x(1)] that by simp
  qed (use x(3-5) in simp_all)
  then have "pinv e k ((set_proc p ?x s)\<lparr>exited := ex, clean_q := cq\<rparr>)" for ex cq
    by (rule pinv_tok) (simp_all add: tokens_def)
  then show ?thesis using t x by (simp add: sys_exit_def linux_fatal_user_fault_def linux_thread_exit_rendezvous_def linux_proc_mark_exiting_def Let_def)
qed

lemma begin_inv:
  assumes inv: "pinv (\<lambda>_. 0) k s"
  shows "\<exists>s'. clean_reap_begin delete_ok t s = Some s' \<and> pinv (\<lambda>_. 0) k s'"
proof -
  let ?s = "s\<lparr>clean_q := remove1 t (clean_q s)\<rparr>"
  have inv0: "pinv (\<lambda>_. 0) k ?s" by (rule pinv_tok [OF inv]) (simp_all add: tokens_def)
  show ?thesis
  proof (cases "res s t")
    case None
    then show ?thesis using inv0 by (simp add: clean_reap_begin_def)
  next
    case (Some p)
    then obtain x where x: "procs s p = Some x" using pinvD(4) [OF inv] by blast
    note ok = proc_okD [OF pinvD(6) [OF inv x]]
    let ?x = "x\<lparr>p_refs := p_refs x + 1\<rparr>"
    let ?s1 = "set_proc p ?x ?s"
    have "pinv ((\<lambda>_. 0)(p := 1)) k ?s1"
      by (rule pinv_set [OF inv0])
        (use x ok token_proc [OF inv, of p] pend_okD [OF pinvD(10) [OF inv] x] in \<open>auto simp: tokens_def\<close>)
    then have put: "\<exists>s'. linux_proc_put p ?s1 = Some s' \<and> pinv (\<lambda>_. 0) k s'"
      using put_inv [of "(\<lambda>_. 0)(p := 1)" k ?s1 p] by simp
    have "proc_ok (\<lambda>_. 0) (?s1\<lparr>workers := p # workers s\<rparr>) p ?x"
      using ok by (simp add: proc_ok_def)
    then have "pinv (\<lambda>_. 0) k (?s1\<lparr>workers := p # workers s\<rparr>)"
      by (intro pinv_holders [OF inv0, where p = p and x = x and x' = ?x]) (use x pinvD(2) [OF inv] in simp_all)
    then have "\<exists>s'. linux_proc_detach_thread t (?s1\<lparr>workers := p # workers s\<rparr>) = Some s' \<and> pinv (\<lambda>_. 0) k s'"
      by (rule detach_inv)
    then show ?thesis using put Some x ok(3) by (simp add: clean_reap_begin_def Let_def)
  qed
qed

lemma mint:
  assumes inv: "pinv e k s" and x: "procs s p = Some x" "p_state x = LINUX_EXIT_NOTIFIED" "p_last x" and tok: "tokens s p = 0"
    "k' p = 1" "\<And>q. q \<noteq> p \<Longrightarrow> k' q = k q"
  shows "pinv e k' s"
proof (rule pinvI)
  note D = pinvD [OF inv]
  show "tokens s q + k' q \<le> 1" for q using D(7) [of q] tok by (cases "q = p") auto
  show "token_ok s q" if "0 < tokens s q + k' q" for q using D(8) [of q] that tok x by (cases "q = p") (auto simp: token_ok_def)
  show "procs s q \<noteq> None" if "res s t = Some q" for t q using D(4) [OF that] by simp
  show "procs s q \<noteq> None" if "q \<in> set (workers s)" for q using D(5) [OF that] by simp
  show "procs s q \<noteq> None" if "0 < e q" for q using D(11) [OF that] by simp
  show "finite (dom (procs s))" "finite (dom (res s))" "pend_ok s" by (fact D)+
  show "\<exists>y. procs s q = Some y \<and> p_pid y = pid \<and> p_state y \<noteq> LINUX_EXIT_CLAIMED" if "reg s pid = Some q" for pid q
    by (rule D(3) [OF that])
  show "proc_ok e s q y" if "procs s q = Some y" for q y by (rule D(6) [OF that])
  show "q = r" if "procs s q = Some y" "procs s r = Some z" "p_pid y = p_pid z" for q r y z by (rule D(9) [OF that])
qed

definition handler_ready :: "psys \<Rightarrow> nat \<Rightarrow> bool" where
  "handler_ready s p \<longleftrightarrow> p \<in> set (workers s) \<and> (\<exists>x. procs s p = Some x \<and> \<not> (0 < p_threads x \<and> p_last x))"

lemma worker_inv:
  assumes inv: "pinv (\<lambda>_. 0) k s" and p: "p \<in> set (workers s)" "procs s p = Some x" and s': "procs s' = procs s" "reg s' = reg s"
    "net s' = net s" "jobs s' = jobs s" "res s' = res s" "workers s' = remove1 p (workers s)"
  shows "pinv ((\<lambda>_. 0)(p := 1)) k s'"
proof (rule pinv_holders [OF inv p(2), where x' = x])
  note ok = proc_okD [OF pinvD(6) [OF inv p(2)]]
  have c: "0 < count_list (workers s) p" using p(1) count_list_0_iff [of "workers s" p] by simp
  show "proc_ok ((\<lambda>_. 0)(p := 1)) s' p x" using ok c s' by (simp add: proc_ok_def)
  show "finite (dom (res s'))" using pinvD(2) [OF inv] s' by simp
qed (use p s' in \<open>simp_all add: fun_upd_idem count_list_remove1\<close>)

lemma put_worker:
  assumes "pinv ((\<lambda>_. 0)(p := 1)) k s"
  shows "\<exists>s'. linux_proc_put p s = Some s' \<and> pinv (\<lambda>_. 0) k s'"
  using put_inv [OF assms, of p] by simp

lemma finish_inv:
  assumes inv: "pinv (\<lambda>_. 0) k s" and rdy: "handler_ready s p"
  shows "\<exists>s'. clean_reap_finish env job_ok cpu p s = Some s' \<and> pinv (\<lambda>_. 0) k s'"
proof -
  obtain x where x: "procs s p = Some x" "\<not> (0 < p_threads x \<and> p_last x)" and w: "p \<in> set (workers s)"
    using rdy by (auto simp: handler_ready_def)
  let ?e = "(\<lambda>_. 0)(p := 1) :: nat \<Rightarrow> nat"
  let ?s = "s\<lparr>workers := remove1 p (workers s)\<rparr>"
  have inv1: "pinv ?e k ?s" by (rule worker_inv [OF inv w x(1)]) simp_all
  show ?thesis
  proof (cases "0 < p_threads x")
    case True
    then have "clean_reap_finish env job_ok cpu p s = linux_proc_put p ?s"
      using x by (simp add: clean_reap_finish_def clean_proc_bundle_detached_def)
    then show ?thesis using put_worker [OF inv1] by simp
  next
    case False
    let ?x = "x\<lparr>p_last := True\<rparr>"
    let ?s1 = "set_proc p ?x ?s"
    have inv2: "pinv ?e k ?s1" by (rule pinv_fields [OF inv1]) (use x in simp_all)
    note put = put_worker [OF inv2]
    have k0: "k p = 0" "tokens ?s1 p = 0" if "p_state x = LINUX_EXIT_ZOMBIE"
      using token_proc [OF inv2, of p] that by (cases "tokens ?s1 p + k p = 0"; auto)+
    show ?thesis
    proof (cases "reap_link ?x ?s1")
      case REAP_NONE
      then show ?thesis using put x False by (simp add: clean_reap_finish_def clean_proc_bundle_detached_def)
    next
      case REAP_LINK_B
      have run: "clean_reap_finish env job_ok cpu p s = Option.bind (linux_proc_reap p ?s1) (\<lambda>r. linux_proc_put p (snd r))"
        using REAP_LINK_B x False by (simp add: clean_reap_finish_def clean_proc_bundle_detached_def)
      show ?thesis
      proof (cases "p_state x = LINUX_EXIT_ZOMBIE")
        case True
        then obtain s2 where s2: "linux_proc_reap p ?s1 = Some (REND_SUCCESS, s2)" "pinv ?e (k(p := 0)) s2"
          using reap_inv [OF inv2, of p ?x] False k0 by auto
        then show ?thesis using run put_worker [of p k s2] k0(1) [OF True] by (simp add: fun_upd_idem)
      next
        case notz: False
        have "p_state x \<noteq> LINUX_EXIT_NOTIFIED" using REAP_LINK_B by (auto simp: reap_link_def split: if_splits)
        then have "linux_proc_reap p ?s1 = Some (REND_ERR E_RENDEZVOS, ?s1)"
          using notz False by (simp add: linux_proc_reap_def)
        then show ?thesis using run put by simp
      qed
    next
      case REAP_LINK_A
      let ?y = "?x\<lparr>p_state := LINUX_EXIT_NOTIFIED\<rparr>"
      let ?s2 = "set_proc p ?y ?s1"
      have z: "p_state x = LINUX_EXIT_ZOMBIE" using REAP_LINK_A by (auto simp: reap_link_def split: if_splits)
      note tok0 = k0 [OF z]
      have inv3: "pinv ?e k ?s2"
      proof (rule pinv_set [OF inv2, of p ?x])
        show "0 < p_refs ?y" using proc_okD(3) [OF pinvD(6) [OF inv x(1)]] by simp
        show "\<exists>w. procs ?s1 c = Some w \<and> p_pid w = i" if "(c, i, v) \<in> set (p_pending ?y)" for c i v
          using pend_okD [OF pinvD(10) [OF inv2], of p ?x c i v] that by simp
      qed (use z False tok0 in simp_all)
      have "tokens ?s2 p = 0" using tokens_set_proc [OF pinvD(1) [OF inv2], of p ?x ?y p] tok0 by simp
      then have "pinv ?e (k(p := 1)) ?s2" by (intro mint [OF inv3, where p = p and x = ?y]) simp_all
      from async_inv [OF this, of p env job_ok cpu "p_ppid x" "p_exit_code x"]
      obtain s3 where s3: "clean_async_exit_notify env job_ok cpu (p_ppid x) p (p_exit_code x) ?s2 = Some s3"
        "pinv ?e (k(p := 0)) s3" by auto
      then show ?thesis using put_worker [of p k s3] REAP_LINK_A x False fun_upd_idem [of k p 0] k0(1) [OF z]
        by (simp add: clean_reap_finish_def clean_proc_bundle_detached_def)
    qed
  qed
qed

subsection \<open>Creation of processes and threads\<close>

text \<open>What the allocator, the identifier manager and the kernel core promise of a new object.\<close>

definition fresh_mem :: "nat option \<Rightarrow> int \<Rightarrow> int \<Rightarrow> psys \<Rightarrow> bool" where
  "fresh_mem mem invalid_id new_id s \<longleftrightarrow>
     (\<forall>p. mem = Some p \<longrightarrow> procs s p = None)
     \<and> (new_id \<noteq> invalid_id \<longrightarrow> 0 < new_id \<and> (\<forall>p x. procs s p = Some x \<longrightarrow> p_pid x \<noteq> new_id))"

text \<open>Memory that holds no process has no holders, by the invariant.\<close>

lemma fresh_holders:
  assumes inv: "pinv (\<lambda>_. 0) k s" and p: "procs s p = None"
  shows "p \<notin> ran (res s)" "p \<notin> set (workers s)" "tokens s p + k p = 0"
proof -
  show "p \<notin> ran (res s)" using pinvD(4) [OF inv] p by (force simp: ran_def)
  show "p \<notin> set (workers s)" using pinvD(5) [OF inv] p by force
  show "tokens s p + k p = 0" using token_proc [OF inv, of p] p by (cases "tokens s p + k p = 0") auto
qed

lemma alloc_inv:
  assumes inv: "pinv (\<lambda>_. 0) k s" and p: "procs s p = None" and x: "p_pending x = []" "p_refs x = 1" "p_threads x = 0"
    "p_state x = LINUX_EXIT_RUNNING" "0 < p_pid x" and new: "\<And>q y. procs s q = Some y \<Longrightarrow> p_pid y \<noteq> p_pid x"
  shows "pinv (\<lambda>_. 0) k (set_proc p x s)"
proof (rule pinvI)
  note D = pinvD [OF inv]
  note F = fresh_holders [OF inv p]
  let ?s = "set_proc p x s"
  have tk: "tokens ?s r = tokens s r" for r using pend_count_new [OF D(1) p, of x r] x by (simp add: tokens_def)
  show "finite (dom (procs ?s))" "finite (dom (res ?s))" using D(1,2) by simp_all
  show "\<exists>y. procs ?s q = Some y \<and> p_pid y = pid \<and> p_state y \<noteq> LINUX_EXIT_CLAIMED" if "reg ?s pid = Some q" for pid q
    using D(3) [of pid q] that p by (cases "q = p") auto
  show "procs ?s q \<noteq> None" if "res ?s t = Some q" for t q using D(4) [of t q] that by auto
  show "procs ?s q \<noteq> None" if "q \<in> set (workers ?s)" for q using D(5) [of q] that by auto
  show "proc_ok (\<lambda>_. 0) ?s q y" if "procs ?s q = Some y" for q y
  proof (cases "q = p")
    case True
    have "{t. res s t = Some p} = {}" using F(1) by (auto simp: ran_def)
    moreover have "count_list (workers s) p = 0" using F(2) by (simp add: count_list_0_iff)
    ultimately show ?thesis using True that x by (simp add: proc_ok_def)
  next
    case False
    then have "proc_ok (\<lambda>_. 0) s q y" using that D(6) by simp
    then show ?thesis by (rule proc_ok_cong) simp_all
  qed
  show "tokens ?s q + k q \<le> 1" for q using tk D(7) [of q] by simp
  show "token_ok ?s q" if "0 < tokens ?s q + k q" for q
    using that tk D(8) [of q] F(3) by (cases "q = p") (auto simp: token_ok_def)
  show "q = r" if "procs ?s q = Some y" "procs ?s r = Some z" "p_pid y = p_pid z" for q r y z
    using that D(9) [of q y r z] new [of q y] new [of r z] by (auto split: if_splits)
  show "pend_ok ?s" unfolding pend_ok_def
  proof (intro allI impI)
    fix q y c i v assume "procs ?s q = Some y" "(c, i, v) \<in> set (p_pending y)"
    then have "procs s q = Some y" "(c, i, v) \<in> set (p_pending y)" using x by (auto split: if_splits)
    then show "\<exists>z. procs ?s c = Some z \<and> p_pid z = i" using pend_okD [OF D(10)] p by fastforce
  qed
qed simp

lemma register_inv:
  assumes inv: "pinv (\<lambda>_. 0) k s" and x: "procs s p = Some x" "p_state x \<noteq> LINUX_EXIT_CLAIMED"
  shows "pinv (\<lambda>_. 0) k (register_child ok p (p_pid x) s)"
proof -
  let ?s = "register_child ok p (p_pid x) s"
  have s: "procs ?s = procs s" "res ?s = res s" "workers ?s = workers s" "net ?s = net s" "jobs ?s = jobs s"
    by (simp_all add: register_child_def)
  have tk: "tokens ?s r = tokens s r" for r by (simp add: tokens_def s)
  note D = pinvD [OF inv]
  show ?thesis
  proof (rule pinvI)
    show "finite (dom (procs ?s))" "finite (dom (res ?s))" using D(1,2) s by simp_all
    show "\<exists>y. procs ?s q = Some y \<and> p_pid y = pid \<and> p_state y \<noteq> LINUX_EXIT_CLAIMED" if "reg ?s pid = Some q" for pid q
      using D(3) [of pid q] that x s by (auto simp: register_child_def split: if_splits)
    show "procs ?s q \<noteq> None" if "res ?s t = Some q" for t q using D(4) [of t q] that s by simp
    show "procs ?s q \<noteq> None" if "q \<in> set (workers ?s)" for q using D(5) [of q] that s by simp
    show "proc_ok (\<lambda>_. 0) ?s q y" if "procs ?s q = Some y" for q y
      by (rule proc_ok_cong [OF D(6)]) (use that s in simp_all)
    show "tokens ?s q + k q \<le> 1" for q using tk D(7) [of q] by simp
    show "token_ok ?s q" if "0 < tokens ?s q + k q" for q using D(8) [of q] that tk s by (simp add: token_ok_def)
    show "q = r" if "procs ?s q = Some y" "procs ?s r = Some z" "p_pid y = p_pid z" for q r y z
      using that D(9) [of q y r z] s by simp
    show "pend_ok ?s" using D(10) unfolding pend_ok_def s .
  qed simp
qed

text \<open>A new process object: freeing it, attaching the first thread, and undoing both.\<close>

definition new_proc :: "linux_proc \<Rightarrow> psys \<Rightarrow> bool" where
  "new_proc x s \<longleftrightarrow> p_pending x = [] \<and> p_refs x = 1 \<and> p_threads x = 0 \<and> p_state x = LINUX_EXIT_RUNNING \<and> 0 < p_pid x
     \<and> (\<forall>q y. procs s q = Some y \<longrightarrow> p_pid y \<noteq> p_pid x)"

lemma put_new: "procs s p = None \<Longrightarrow> new_proc x s \<Longrightarrow> linux_proc_put p (set_proc p x s) = Some s"
  by (simp add: linux_proc_put_def new_proc_def set_proc_def fun_upd_idem)

lemma set_proc_twice [simp]: "set_proc p x (set_proc p y s) = set_proc p x s"
  by (simp add: set_proc_def)

lemma start_new:
  assumes inv: "pinv (\<lambda>_. 0) k s" and p: "procs s p = None" and x: "new_proc x s" and t: "res s t = None"
  shows "\<exists>s1. linux_proc_attach_thread p t (set_proc p x s) = Some (REND_SUCCESS, s1) \<and> pinv (\<lambda>_. 0) k s1
    \<and> procs s1 p = Some (x\<lparr>p_refs := p_refs x + 1, p_threads := p_threads x + 1\<rparr>)
    \<and> (\<exists>s2. linux_proc_detach_thread t s1 = Some s2 \<and> linux_proc_put p s2 = Some s)"
proof -
  have i: "pinv (\<lambda>_. 0) k (set_proc p x s)" using x by (intro alloc_inv [OF inv p]) (auto simp: new_proc_def)
  let ?x = "x\<lparr>p_refs := p_refs x + 1, p_threads := p_threads x + 1\<rparr>"
  let ?s1 = "(set_proc p ?x s)\<lparr>res := (res s)(t \<mapsto> p)\<rparr>"
  have run: "linux_proc_attach_thread p t (set_proc p x s) = Some (REND_SUCCESS, ?s1)"
    using t x by (simp add: linux_proc_attach_thread_def new_proc_def)
  obtain s' where "linux_proc_attach_thread p t (set_proc p x s) = Some (REND_SUCCESS, s')" "pinv (\<lambda>_. 0) k s'"
    using attach_inv [OF i, of p x t] x t by (auto simp: new_proc_def)
  then have "pinv (\<lambda>_. 0) k ?s1" using run by simp
  moreover have "\<exists>s2. linux_proc_detach_thread t ?s1 = Some s2 \<and> linux_proc_put p s2 = Some s"
    using x p t by (simp add: linux_proc_detach_thread_def linux_proc_put_def new_proc_def set_proc_def fun_upd_idem)
  ultimately show ?thesis using run by simp
qed

lemma alloc_cases:
  assumes "fresh_mem mem invalid_id new_id s"
  shows "linux_proc_alloc mem invalid_id new_id s = (None, s)
    \<or> (\<exists>p x. linux_proc_alloc mem invalid_id new_id s = (Some p, set_proc p x s) \<and> procs s p = None \<and> new_proc x s
        \<and> (\<forall>pp pg. new_proc (x\<lparr>p_ppid := pp, p_exit_code := 0, p_state := LINUX_EXIT_RUNNING, p_pgid := pg\<rparr>) s
            \<and> new_proc (x\<lparr>p_pending := [], p_ppid := pp, p_pgid := pg\<rparr>) s))"
  using assms by (cases mem) (auto simp: linux_proc_alloc_def fresh_mem_def new_proc_def)

lemma fork_inv:
  assumes inv: "pinv (\<lambda>_. 0) k s" and q: "procs s parent = Some q" and m: "fresh_mem mem invalid_id new_id s"
    and t: "\<And>t. thread = Some t \<Longrightarrow> res s t = None"
  shows "\<exists>ret s'. sys_fork mem invalid_id new_id vspace_ok copy_ok thread add_ok register_ok parent s = Some (ret, s') \<and> pinv (\<lambda>_. 0) k s'"
  using alloc_cases [OF m]
proof (elim disjE exE conjE)
  assume "linux_proc_alloc mem invalid_id new_id s = (None, s)"
  then show ?thesis using inv q by (simp add: sys_fork_def)
next
  fix p x
  assume a: "linux_proc_alloc mem invalid_id new_id s = (Some p, set_proc p x s)" "procs s p = None" "new_proc x s"
    "\<forall>pp pg. new_proc (x\<lparr>p_ppid := pp, p_exit_code := 0, p_state := LINUX_EXIT_RUNNING, p_pgid := pg\<rparr>) s
            \<and> new_proc (x\<lparr>p_pending := [], p_ppid := pp, p_pgid := pg\<rparr>) s"
  let ?x = "x\<lparr>p_ppid := p_pid q, p_exit_code := 0, p_state := LINUX_EXIT_RUNNING, p_pgid := (if p_pgid q \<noteq> 0 then p_pgid q else p_pid q)\<rparr>"
  have n: "new_proc ?x s" using a(4) by blast
  note puts = put_new [OF a(2,3)] put_new [OF a(2) n]
  show ?thesis
  proof (cases "vspace_ok \<and> copy_ok")
    case True
    show ?thesis
    proof (cases thread)
      case None
      then show ?thesis using True q a(1) inv puts by (simp add: sys_fork_def Let_def)
    next
      case (Some t')
      from start_new [OF inv a(2) n t [OF Some]]
      obtain s1 s2 where s1: "linux_proc_attach_thread p t' (set_proc p ?x s) = Some (REND_SUCCESS, s1)" "pinv (\<lambda>_. 0) k s1"
        "procs s1 p = Some (?x\<lparr>p_refs := p_refs ?x + 1, p_threads := p_threads ?x + 1\<rparr>)"
        "linux_proc_detach_thread t' s1 = Some s2" "linux_proc_put p s2 = Some s" by blast
      have "pinv (\<lambda>_. 0) k (register_child register_ok p (p_pid x) s1)"
        using register_inv [OF s1(2,3), of register_ok] by simp
      then show ?thesis using True Some q a(1) inv s1(1,4,5) by (cases add_ok) (simp_all add: sys_fork_def Let_def)
    qed
  next
    case False
    then show ?thesis using q a(1) inv puts by (cases vspace_ok) (simp_all add: sys_fork_def Let_def)
  qed
qed

lemma clone_thread_inv:
  assumes inv: "pinv (\<lambda>_. 0) k s" and q: "res s u = Some parent" and fl: "flags AND CLONE_THREAD \<noteq> 0"
    and t: "\<And>t tid. thread = Some (t, tid) \<Longrightarrow> res s t = None"
  shows "\<exists>ret s'. sys_clone vs_ok mem invalid_id new_id copy_ok thread add_ok register_ok ptid_ok ctid_ok flags stack parent_tid child_tid parent s
    = Some (ret, s') \<and> pinv (\<lambda>_. 0) k s'"
proof -
  obtain y where y: "procs s parent = Some y" "p_state y \<noteq> LINUX_EXIT_NOTIFIED" "p_state y \<noteq> LINUX_EXIT_CLAIMED"
    using attached_live [OF inv q] by (elim exE conjE)
  show ?thesis
  proof (cases thread)
    case None
    then show ?thesis using inv y fl by (simp add: sys_clone_def clone_proc_def clone_free_proc_def)
  next
    case (Some v)
    obtain t' tid where v: "v = (t', tid)" by (cases v)
    have "res s t' = None" using t Some v by blast
    from attach_inv [OF inv y this] obtain s1
      where s1: "linux_proc_attach_thread parent t' s = Some (REND_SUCCESS, s1)" "pinv (\<lambda>_. 0) k s1"
        "procs s1 = (procs s)(parent \<mapsto> y\<lparr>p_refs := p_refs y + 1, p_threads := p_threads y + 1\<rparr>)" by blast
    obtain s2 where s2: "linux_proc_detach_thread t' s1 = Some s2" "pinv (\<lambda>_. 0) k s2" using detach_inv [OF s1(2)] by blast
    show ?thesis using inv y(1) fl Some v s1 s2
      by (simp add: sys_clone_def clone_proc_def clone_free_proc_def Let_def)
  qed
qed

lemma clone_process_inv:
  assumes inv: "pinv (\<lambda>_. 0) k s" and q: "procs s parent = Some q" and fl: "flags AND CLONE_THREAD = 0" and m: "fresh_mem mem invalid_id new_id s"
    and t: "\<And>t tid. thread = Some (t, tid) \<Longrightarrow> res s t = None"
  shows "\<exists>ret s'. sys_clone vs_ok mem invalid_id new_id copy_ok thread add_ok register_ok ptid_ok ctid_ok flags stack parent_tid child_tid parent s
    = Some (ret, s') \<and> pinv (\<lambda>_. 0) k s'"
  using alloc_cases [OF m]
proof (elim disjE exE conjE)
  assume "linux_proc_alloc mem invalid_id new_id s = (None, s)"
  then show ?thesis using inv q fl by (simp add: sys_clone_def clone_proc_def)
next
  fix p x
  assume a: "linux_proc_alloc mem invalid_id new_id s = (Some p, set_proc p x s)" "procs s p = None" "new_proc x s"
    "\<forall>pp pg. new_proc (x\<lparr>p_ppid := pp, p_exit_code := 0, p_state := LINUX_EXIT_RUNNING, p_pgid := pg\<rparr>) s
            \<and> new_proc (x\<lparr>p_pending := [], p_ppid := pp, p_pgid := pg\<rparr>) s"
  let ?x = "x\<lparr>p_pending := [], p_ppid := p_pid q, p_pgid := (if p_pgid q \<noteq> 0 then p_pgid q else p_pid q)\<rparr>"
  have n: "new_proc ?x s" using a(4) by blast
  have ne: "p \<noteq> parent" using a(2) q by auto
  note put = put_new [OF a(2) n]
  have cp: "clone_proc mem invalid_id new_id copy_ok flags parent q s = (if copy_ok then Some (Some p, set_proc p ?x s) else Some (None, s))"
    using fl a(1) put by (simp add: clone_proc_def Let_def)
  show ?thesis
  proof (cases thread)
    case None
    then show ?thesis using q fl inv cp put ne by (simp add: sys_clone_def clone_free_proc_def)
  next
    case (Some v)
    obtain t' tid where v: "v = (t', tid)" by (cases v)
    have "res s t' = None" using t Some v by blast
    from start_new [OF inv a(2) n this]
    obtain s1 s2 where s1: "linux_proc_attach_thread p t' (set_proc p ?x s) = Some (REND_SUCCESS, s1)" "pinv (\<lambda>_. 0) k s1"
      "procs s1 p = Some (?x\<lparr>p_refs := p_refs ?x + 1, p_threads := p_threads ?x + 1\<rparr>)"
      "linux_proc_detach_thread t' s1 = Some s2" "linux_proc_put p s2 = Some s" by blast
    have "pinv (\<lambda>_. 0) k (register_child register_ok p (p_pid x) s1)"
      using register_inv [OF s1(2,3), of register_ok] n by (simp add: new_proc_def)
    then show ?thesis using Some v q fl inv cp s1 ne by (simp add: sys_clone_def clone_free_proc_def Let_def)
  qed
qed

lemma spawn_inv:
  assumes inv: "pinv (\<lambda>_. 0) k s" and m: "fresh_mem mem invalid_id new_id s" and t: "\<And>t. thread = Some t \<Longrightarrow> res s t = None"
  shows "\<exists>r s'. linux_spawn_init_task mem invalid_id new_id vs_e thread add_e s = Some (r, s') \<and> pinv (\<lambda>_. 0) k s'"
  using alloc_cases [OF m]
proof (elim disjE exE conjE)
  assume "linux_proc_alloc mem invalid_id new_id s = (None, s)"
  then show ?thesis using inv by (simp add: linux_spawn_init_task_def)
next
  fix p x
  assume a: "linux_proc_alloc mem invalid_id new_id s = (Some p, set_proc p x s)" "procs s p = None" "new_proc x s"
  show ?thesis
  proof (cases thread)
    case None
    then show ?thesis using inv a(1) put_new [OF a(2,3)] by (simp add: linux_spawn_init_task_def)
  next
    case (Some t')
    from start_new [OF inv a(2,3) t [OF Some]]
    obtain s1 s2 where "linux_proc_attach_thread p t' (set_proc p x s) = Some (REND_SUCCESS, s1)" "pinv (\<lambda>_. 0) k s1"
      "linux_proc_detach_thread t' s1 = Some s2" "linux_proc_put p s2 = Some s" by blast
    then show ?thesis using inv a(1) put_new [OF a(2,3)] Some by (simp add: linux_spawn_init_task_def)
  qed
qed

lemma prepare_inv:
  assumes inv: "pinv (\<lambda>_. 0) k s" and p: "res s t = Some p"
  shows "\<exists>r s'. linux_user_task_prepare_new attach_ok register_ok p s = Some (r, s') \<and> pinv (\<lambda>_. 0) k s'"
proof -
  obtain x where x: "procs s p = Some x" "p_state x \<noteq> LINUX_EXIT_CLAIMED" using attached_live [OF inv p] by (elim exE conjE)
  have i: "pinv (\<lambda>_. 0) k (set_proc p (x\<lparr>p_pending := []\<rparr>) s)" by (rule pinv_pending [OF inv x(1)]) simp_all
  have "pinv (\<lambda>_. 0) k (register_child register_ok p (p_pid x) (set_proc p (x\<lparr>p_pending := []\<rparr>) s))"
    using register_inv [OF i, of p "x\<lparr>p_pending := []\<rparr>" register_ok] x by simp
  then show ?thesis using x i by (simp add: linux_user_task_prepare_new_def Let_def)
qed

section \<open>Steps and reachable states\<close>

text \<open>
  The steps of the system, with the outcome \<open>None\<close> for an access to a freed process object. A system call is
  made by a thread that is attached to its process and has not exited. \<^verbatim>\<open>wait4\<close> takes one step for each
  look at the pending list and for each message, so that other threads run in between.
\<close>

inductive pstep :: "psys \<Rightarrow> psys option \<Rightarrow> bool" where
  spawn: "fresh_mem mem invalid_id new_id s \<Longrightarrow> (\<forall>t. thread = Some t \<longrightarrow> res s t = None) \<Longrightarrow>
    pstep s (map_option snd (linux_spawn_init_task mem invalid_id new_id vs_e thread add_e s))"
| prepare: "res s t = Some p \<Longrightarrow> t \<notin> set (exited s) \<Longrightarrow> pstep s (map_option snd (linux_user_task_prepare_new attach_ok register_ok p s))"
| fork: "res s u = Some p \<Longrightarrow> u \<notin> set (exited s) \<Longrightarrow> fresh_mem mem invalid_id new_id s \<Longrightarrow>
    (\<forall>t. thread = Some t \<longrightarrow> res s t = None) \<Longrightarrow>
    pstep s (map_option snd (sys_fork mem invalid_id new_id vspace_ok copy_ok thread add_ok register_ok p s))"
| clone: "res s u = Some p \<Longrightarrow> u \<notin> set (exited s) \<Longrightarrow> fresh_mem mem invalid_id new_id s \<Longrightarrow>
    (\<forall>t tid. thread = Some (t, tid) \<longrightarrow> res s t = None) \<Longrightarrow>
    pstep s (map_option snd (sys_clone vs_ok mem invalid_id new_id copy_ok thread add_ok register_ok ptid_ok ctid_ok
      flags stack parent_tid child_tid p s))"
| exit: "res s t = Some p \<Longrightarrow> t \<notin> set (exited s) \<Longrightarrow> pstep s (map_option snd (sys_exit send_ok t code s))"
| fault: "res s t = Some p \<Longrightarrow> t \<notin> set (exited s) \<Longrightarrow> pstep s (linux_fatal_user_fault send_ok t code s)"
| reap_begin: "t \<in> set (clean_q s) \<Longrightarrow> pstep s (clean_reap_begin delete_ok t s)"
| reap_finish: "handler_ready s p \<Longrightarrow> pstep s (clean_reap_finish env job_ok cpu p s)"
| poll: "pstep s (clean_poll_exit_notify_jobs env cpu s)"
| wait_pending: "res s t = Some p \<Longrightarrow> t \<notin> set (exited s) \<Longrightarrow>
    pstep s (map_option (\<lambda>(ret, st, s'). s') (wait4_try_pending ws so p want s))"
| wait_message: "res s t = Some p \<Longrightarrow> procs s p = Some x \<Longrightarrow> t \<notin> set (exited s) \<Longrightarrow>
    pstep s (map_option (\<lambda>(ret, st, s'). s') (wait_recv ws so eintr ok p (p_pid x) want s))"
| poke: "pstep s (Some (linux_proc_wait_poke ok pid s))"

inductive_cases pstep_elim: "pstep s r"

inductive reach :: "psys \<Rightarrow> bool" where
  reach_init: "reach \<lparr>procs = (\<lambda>_. None), reg = (\<lambda>_. None), res = (\<lambda>_. None), net = [], jobs = [], clean_q = [], exited = [], workers = []\<rparr>"
| reach_step: "reach s \<Longrightarrow> pstep s (Some s') \<Longrightarrow> reach s'"

lemma step_inv:
  assumes "pstep s r" "pinv (\<lambda>_. 0) k s"
  shows "\<exists>s'. r = Some s' \<and> pinv (\<lambda>_. 0) k s'"
  using assms
proof (induction rule: pstep.induct)
  case (spawn mem invalid_id new_id s thread vs_e add_e)
  then show ?case using spawn_inv [of k s mem invalid_id new_id thread vs_e add_e] by auto
next
  case (prepare s t p attach_ok register_ok)
  then show ?case using prepare_inv [of k s t p attach_ok register_ok] by auto
next
  case (fork s u p mem invalid_id new_id thread vspace_ok copy_ok add_ok register_ok)
  obtain x where "procs s p = Some x" using pinvD(4) [OF fork(5,1)] by blast
  then show ?case using fork fork_inv [of k s p x mem invalid_id new_id thread vspace_ok copy_ok add_ok register_ok] by auto
next
  case (clone s u p mem invalid_id new_id thread vs_ok copy_ok add_ok register_ok ptid_ok ctid_ok flags stack parent_tid child_tid)
  obtain x where x: "procs s p = Some x" using pinvD(4) [OF clone(5,1)] by blast
  have th: "\<And>t tid. thread = Some (t, tid) \<Longrightarrow> res s t = None" using clone(4) by blast
  have "\<exists>ret s'. sys_clone vs_ok mem invalid_id new_id copy_ok thread add_ok register_ok ptid_ok ctid_ok flags stack parent_tid child_tid p s
    = Some (ret, s') \<and> pinv (\<lambda>_. 0) k s'"
  proof (cases "flags AND CLONE_THREAD = 0")
    case True
    show ?thesis by (rule clone_process_inv [OF clone(5) x True clone(3) th])
  next
    case False
    show ?thesis by (rule clone_thread_inv [OF clone(5,1) False th])
  qed
  then show ?case by auto
next
  case (exit s t p send_ok code)
  then show ?case using exit_inv [of "\<lambda>_. 0" k s t p send_ok code] by auto
next
  case (fault s t p send_ok code)
  then show ?case using exit_inv [of "\<lambda>_. 0" k s t p send_ok code] by auto
next
  case (reap_begin t s delete_ok)
  then show ?case using begin_inv by blast
next
  case (reap_finish s p env job_ok cpu)
  then show ?case using finish_inv by blast
next
  case (poll s env cpu)
  then show ?case using poll_jobs_inv by blast
next
  case (wait_pending s t p ws so want)
  then have "procs s p \<noteq> None" using pinvD(4) [of "\<lambda>_. 0" k s t p] by blast
  then show ?case using wait_pending try_pending_inv [of "\<lambda>_. 0" k s p ws so want] by auto
next
  case (wait_message s t p x ws so eintr ok want)
  then show ?case using wait_recv_inv [of "\<lambda>_. 0" k s p ws so eintr ok "p_pid x" want] by auto
next
  case (poke s ok pid)
  then show ?case using poke_inv by blast
qed

lemma reach_inv: "reach s \<Longrightarrow> psys_inv s"
proof (induction rule: reach.induct)
  case reach_init
  show ?case by (simp add: pinv_def tokens_def pend_count_def pend_ok_def)
next
  case (reach_step s s')
  then show ?case using step_inv by blast
qed

end
