(* ===== verification/Proc_Wait.thy ===== *)
theory Proc_Wait
  imports Proc_Steps
begin

text \<open>
  The exit protocol end to end: a parent that waits for a child gets the status the child exited
  with, whatever else is queued on its port and in its pending list, and the child is reaped once.
\<close>

section \<open>A notified child\<close>

text \<open>
  Child \<open>c\<close> has exited and its notification, with exit code \<open>code\<close>, is in the pending list of the parent \<open>q\<close> or
  queued on the parent's port; the port is open.
\<close>

definition awaits :: "nat \<Rightarrow> int \<Rightarrow> nat \<Rightarrow> int \<Rightarrow> int \<Rightarrow> psys \<Rightarrow> bool" where
  "awaits q pp c pid code s \<longleftrightarrow> q \<noteq> c \<and> reg s pid = Some c \<and> 0 < pid
     \<and> (\<exists>y x. procs s q = Some y \<and> p_pid y = pp \<and> procs s c = Some x \<and> p_pid x = pid \<and> p_ppid x = p_pid y
          \<and> ((c, pid, code) \<in> set (p_pending y) \<or> (p_pid y, EXIT_NOTIFY pid c code) \<in> set (net s))
          \<and> (p_pid y, PORT_CLOSED) \<notin> set (net s))"

definition reaped :: "nat \<Rightarrow> int \<Rightarrow> psys \<Rightarrow> bool" where
  "reaped c pid s \<longleftrightarrow> psys_inv s \<and> reg s pid = None \<and> (\<forall>z. procs s c = Some z \<longrightarrow> p_state z = LINUX_EXIT_CLAIMED)"

lemma awaitsE:
  assumes "awaits q pp c pid code s"
  obtains y x where "q \<noteq> c" "reg s pid = Some c" "0 < pid" "procs s q = Some y" "procs s c = Some x" "p_pid x = pid"
    "p_ppid x = p_pid y" "(p_pid y, PORT_CLOSED) \<notin> set (net s)"
    "(c, pid, code) \<in> set (p_pending y) \<or> (p_pid y, EXIT_NOTIFY pid c code) \<in> set (net s)"
    "p_pid y = pp"
  using assms unfolding awaits_def by blast

lemma matches_pid: "0 < want \<Longrightarrow> linux_proc_wait_pid_matches want pid q s = Some (pid = want)"
  by (simp add: linux_proc_wait_pid_matches_def)

lemma take_match_none: "0 < want \<Longrightarrow> take_match want q s ps = Some None \<Longrightarrow> (c, want, e) \<notin> set ps"
proof (induction ps)
  case (Cons a ps)
  then show ?case by (cases a) (auto simp: matches_pid bind_eq_Some_conv split: if_splits)
qed simp

lemma count_unique:
  assumes "count_list (map fst ps) c \<le> 1" "(c, a) \<in> set ps" "(c, b) \<in> set ps"
  shows "a = b"
  using assms
proof (induction ps)
  case (Cons p ps)
  have "count_list (map fst ps) c \<noteq> 0" if "(c, v) \<in> set ps" for v
    using image_eqI [of c fst "(c, v)", OF _ that] by (simp add: count_list_0_iff)
  then show ?case using Cons by (cases p; cases "fst p = c") auto
qed simp

lemma pend_count_le:
  assumes "pinv e k s" "procs s q = Some y"
  shows "count_list (map fst (p_pending y)) c \<le> pend_count (procs s) c"
  using pend_count_del [OF pinvD(1) [OF assms(1)] assms(2), of c] by linarith

lemma finish_awaits:
  assumes inv: "pinv (\<lambda>_. 0) k s" and k: "k c = 1" "\<And>p. p \<noteq> c \<Longrightarrow> k p = 0"
    and x: "procs s c = Some x" "p_pid x = pid" and q: "procs s q = Some y" "p_ppid x = p_pid y" and ok: "\<not> ws \<or> so"
  shows "\<exists>s'. wait4_finish_reap ws so q c code s = Some (pid, if ws then Some (wait4_encode_status code) else None, s') \<and> reaped c pid s'"
proof -
  have "k(c := 0) = (\<lambda>_. 0)" using k by auto
  then show ?thesis using finish_reap_success [OF inv k(1) x(1) q ok, of code] x(2) by (simp add: reaped_def)
qed

lemma net_child: "(p, EXIT_NOTIFY pid c e) \<in> set ms \<Longrightarrow> 0 < count_list (net_children ms) c"
  using count_list_0_iff [of "net_children ms" c] by (force simp: net_children_def)

lemma take_awaits:
  assumes inv: "psys_inv s" and y: "procs s q = Some y" and e: "(c, pid, code) \<in> set (p_pending y)" and pid: "0 < pid"
  shows "\<exists>rest. linux_proc_wait_pending_take q pid s = Some (Some (c, code), set_proc q (y\<lparr>p_pending := rest\<rparr>) s)
    \<and> pinv (\<lambda>_. 0) ((\<lambda>_. 0)(c := 1)) (set_proc q (y\<lparr>p_pending := rest\<rparr>) s)"
proof -
  obtain r where r: "take_match pid y s (p_pending y) = Some r" and
    R: "\<forall>d v rest. r = Some ((d, v), rest) \<longrightarrow>
      (\<exists>i. (d, i, v) \<in> set (p_pending y) \<and> linux_proc_wait_pid_matches pid i y s = Some True) \<and> set rest \<subseteq> set (p_pending y)
      \<and> (\<forall>p. count_list (map fst (p_pending y)) p = count_list (map fst rest) p + of_bool (d = p))"
    using take_match_total [OF inv, of pid y "p_pending y"] by blast
  have "r \<noteq> None" using take_match_none [OF pid, of y s "p_pending y" c code] r e by (cases r) auto
  then obtain d v rest where v: "r = Some ((d, v), rest)" by auto
  then obtain i where i: "(d, i, v) \<in> set (p_pending y)" "linux_proc_wait_pid_matches pid i y s = Some True" using R by blast
  have e1: "(d, pid, v) \<in> set (p_pending y)" using i pid by (simp add: matches_pid)
  have "d = c" using pend_okD [OF pinvD(10) [OF inv] y e1] pend_okD [OF pinvD(10) [OF inv] y e] pinvD(9) [OF inv] by blast
  moreover have "count_list (map fst (p_pending y)) c \<le> 1"
    using pend_count_le [OF inv y, of c] pinvD(7) [OF inv, of c] by (simp add: tokens_def)
  ultimately have dv: "d = c" "v = code" using count_unique [of "p_pending y" c "(pid, v)" "(pid, code)"] e1 e by simp_all
  have take: "linux_proc_wait_pending_take q pid s = Some (Some (c, code), set_proc q (y\<lparr>p_pending := rest\<rparr>) s)"
    using y r v dv by (simp add: linux_proc_wait_pending_take_def)
  then show ?thesis using take_inv [OF inv, of q pid] y by auto
qed

lemma try_pending_awaits:
  assumes inv: "psys_inv s" and aw: "awaits q pp c pid code s" and ok: "\<not> ws \<or> so"
  shows "(\<exists>s'. wait4_try_pending ws so q pid s = Some (pid, if ws then Some (wait4_encode_status code) else None, s') \<and> reaped c pid s')
    \<or> (wait4_try_pending ws so q pid s = Some (0, None, s) \<and> (\<forall>y. procs s q = Some y \<longrightarrow> (c, pid, code) \<notin> set (p_pending y)))"
proof (rule awaitsE [OF aw])
  fix y x
  assume A: "q \<noteq> c" "reg s pid = Some c" "0 < pid" "procs s q = Some y" "procs s c = Some x" "p_pid x = pid" "p_ppid x = p_pid y"
    and "p_pid y = pp" and tok: "(c, pid, code) \<in> set (p_pending y) \<or> (p_pid y, EXIT_NOTIFY pid c code) \<in> set (net s)"
  show ?thesis
  proof (cases "(c, pid, code) \<in> set (p_pending y)")
    case True
    obtain rest where take: "linux_proc_wait_pending_take q pid s = Some (Some (c, code), set_proc q (y\<lparr>p_pending := rest\<rparr>) s)"
      "pinv (\<lambda>_. 0) ((\<lambda>_. 0)(c := 1)) (set_proc q (y\<lparr>p_pending := rest\<rparr>) s)" using take_awaits [OF inv A(4) True A(3)] by blast
    have "\<exists>s'. wait4_finish_reap ws so q c code (set_proc q (y\<lparr>p_pending := rest\<rparr>) s)
        = Some (pid, if ws then Some (wait4_encode_status code) else None, s') \<and> reaped c pid s'"
      by (rule finish_awaits [OF take(2), where x = x and y = "y\<lparr>p_pending := rest\<rparr>"]) (use A ok in simp_all)
    then show ?thesis using take(1) by (simp add: wait4_try_pending_def)
  next
    case False
    obtain r where r: "take_match pid y s (p_pending y) = Some r" using take_match_total [OF inv] by blast
    have "r = None"
    proof (rule ccontr)
      assume "r \<noteq> None"
      then obtain d v rest where v: "r = Some ((d, v), rest)" by auto
      then have e: "(d, pid, v) \<in> set (p_pending y)"
        using take_match_total [OF inv, of pid y "p_pending y"] r A(3) by (auto simp: matches_pid)
      have dc: "d = c" using pend_okD [OF pinvD(10) [OF inv] A(4) e] A(5,6) pinvD(9) [OF inv] by blast
      have "0 < pend_count (procs s) c" by (rule pend_count_pos [OF pinvD(1) [OF inv] A(4)]) (use e dc in simp)
      then show False using tok False net_child [of "p_pid y" pid c code "net s"] pinvD(7) [OF inv, of c] by (auto simp: tokens_def)
    qed
    then have "wait4_try_pending ws so q pid s = Some (0, None, s)"
      using r A(4) by (simp add: wait4_try_pending_def linux_proc_wait_pending_take_def)
    then show ?thesis using False A(4) by auto
  qed
qed

section \<open>One message\<close>

lemma recv_port_some:
  assumes "(pid, m) \<in> set ms"
  shows "\<exists>m' rest. recv_port pid ms = Some (m', rest)"
  using assms by (induction ms) auto

lemma recv_port_set: "recv_port pid ms = Some (m, rest) \<Longrightarrow> set ms = insert (pid, m) (set rest)"
proof (induction ms arbitrary: rest)
  case (Cons a ms)
  then show ?case by (cases a) (auto split: if_splits)
qed simp

text \<open>What a look at the port does when it does not return the child: the notification is still there.\<close>

lemma awaits_push:
  assumes aw: "awaits q pp c pid code s" and p: "linux_proc_wait_pending_push ok q d e s = Some (b, s')"
  shows "awaits q pp c pid code s'"
proof (rule awaitsE [OF aw])
  fix y x
  assume A: "q \<noteq> c" "reg s pid = Some c" "0 < pid" "procs s q = Some y" "procs s c = Some x" "p_pid x = pid" "p_ppid x = p_pid y"
    "(p_pid y, PORT_CLOSED) \<notin> set (net s)" "(c, pid, code) \<in> set (p_pending y) \<or> (p_pid y, EXIT_NOTIFY pid c code) \<in> set (net s)" "p_pid y = pp"
  show ?thesis using p A unfolding awaits_def
    by (auto simp: linux_proc_wait_pending_push_def bind_eq_Some_conv split: if_splits)
qed

lemma awaits_tokens:
  assumes inv: "psys_inv s" and aw: "awaits q pp c pid code s" and y: "procs s q = Some y" and m: "recv_port (p_pid y) (net s) = Some (m, ms)"
  shows "m = EXIT_NOTIFY pid c code \<or> (\<forall>i e. m \<noteq> EXIT_NOTIFY i c e) \<and> awaits q pp c pid code (s\<lparr>net := ms\<rparr>)"
proof (rule awaitsE [OF aw])
  fix y' x
  assume A: "q \<noteq> c" "reg s pid = Some c" "0 < pid" "procs s q = Some y'" "procs s c = Some x" "p_pid x = pid" "p_ppid x = p_pid y'"
    "(p_pid y', PORT_CLOSED) \<notin> set (net s)" "(c, pid, code) \<in> set (p_pending y') \<or> (p_pid y', EXIT_NOTIFY pid c code) \<in> set (net s)" "p_pid y' = pp"
  have yy: "y' = y" using A(4) y by simp
  note st = recv_port_set [OF m]
  show ?thesis
  proof (cases "\<exists>i e. m = EXIT_NOTIFY i c e")
    case True
    then have "0 < msg_tok m c" by (auto simp: msg_tok_def)
    then have "tokens (s\<lparr>net := ms\<rparr>) c = 0" using pinvD(7) [OF recv_inv [OF inv m], of c] by simp
    then have "(c, pid, code) \<notin> set (p_pending y)" "(p_pid y, EXIT_NOTIFY pid c code) \<notin> set ms"
      using pend_count_pos [OF pinvD(1) [OF inv] y, of c pid code] net_child [of "p_pid y" pid c code ms] by (auto simp: tokens_def)
    then show ?thesis using A(9) st yy by auto
  next
    case False
    then have "awaits q pp c pid code (s\<lparr>net := ms\<rparr>)" unfolding awaits_def using A st yy by auto
    then show ?thesis using False by blast
  qed
qed

lemma recv_awaits:
  assumes inv: "psys_inv s" and aw: "awaits q pp c pid code s" and y: "procs s q = Some y" and ok: "\<not> ws \<or> so"
    and m: "recv_port (p_pid y) (net s) = Some (m, ms)"
  shows "(\<exists>s'. wait4_handle_port_msg ws so False ao q pid m (s\<lparr>net := ms\<rparr>)
        = Some (pid, if ws then Some (wait4_encode_status code) else None, s') \<and> reaped c pid s')
    \<or> (\<exists>s'. wait4_handle_port_msg ws so False ao q pid m (s\<lparr>net := ms\<rparr>) = Some (0, None, s') \<and> psys_inv s'
        \<and> awaits q pp c pid code s')"
proof (rule awaitsE [OF aw])
  fix y' x
  assume A: "q \<noteq> c" "reg s pid = Some c" "0 < pid" "procs s q = Some y'" "procs s c = Some x" "p_pid x = pid" "p_ppid x = p_pid y'"
    "(p_pid y', PORT_CLOSED) \<notin> set (net s)"
  have yy: "y' = y" using A(4) y by simp
  let ?s = "s\<lparr>net := ms\<rparr>"
  let ?r = "wait4_handle_port_msg ws so False ao q pid m ?s"
  note inv1 = recv_inv [OF inv m]
  have invd: "psys_inv ?s" by (rule pinv_drop_tok [OF inv1]) simp
  from awaits_tokens [OF inv aw y m] show ?thesis
  proof (elim disjE conjE)
    assume me: "m = EXIT_NOTIFY pid c code"
    have "\<exists>s'. wait4_finish_reap ws so q c code ?s = Some (pid, if ws then Some (wait4_encode_status code) else None, s') \<and> reaped c pid s'"
      by (rule finish_awaits [OF inv1, where x = x and y = y]) (use A yy ok me in \<open>simp_all add: msg_tok_def\<close>)
    then show ?thesis using A yy me by (simp add: wait4_handle_port_msg_def matches_pid)
  next
    assume nm: "\<forall>i e. m \<noteq> EXIT_NOTIFY i c e" and aw1: "awaits q pp c pid code ?s"
    show ?thesis
    proof (cases m)
      case (EXIT_NOTIFY i d e)
      have dc: "d \<noteq> c" using nm EXIT_NOTIFY by auto
      have k1: "0 + msg_tok m d = 1" using EXIT_NOTIFY by (simp add: msg_tok_def)
      obtain z where z: "procs s d = Some z" using token_proc [OF inv1, of d] k1 by auto
      obtain b s1 where s1: "linux_proc_wait_pending_push ao q d e ?s = Some (b, s1)" "pinv (\<lambda>_. 0) ((\<lambda>p. 0 + msg_tok m p)(d := 0)) s1"
        using push_inv [OF inv1, of d q ao e] k1 y by auto
      have i1: "psys_inv s1" by (rule pinv_drop_tok [OF s1(2)]) simp
      have ne: "i \<noteq> pid" if "p_pid z = i" using pinvD(9) [OF inv z A(5)] that dc A(6) by auto
      show ?thesis using EXIT_NOTIFY z y ne A(3) s1(1) i1 invd aw1 awaits_push [OF aw1 s1(1)]
        by (simp add: wait4_handle_port_msg_def matches_pid)
    next
      case WAIT_INTERRUPT
      then show ?thesis using try_pending_awaits [OF invd aw1 ok] invd aw1 A(3) by (auto simp: wait4_handle_port_msg_def)
    next
      case PORT_CLOSED
      then show ?thesis using A(8) recv_port_set [OF m] yy by auto
    next
      case OTHER_MSG
      then show ?thesis using invd aw1 by (simp add: wait4_handle_port_msg_def)
    qed
  qed
qed

lemma block_on_port_returns:
  assumes "psys_inv s" "awaits q pp c pid code s" "procs s q = Some y" "\<not> ws \<or> so"
  shows "\<exists>s'. wait4_block_on_port ws so False ao q (p_pid y) pid s
      = Some (Wait_Returned pid (if ws then Some (wait4_encode_status code) else None), s') \<and> reaped c pid s'"
  using assms
proof (induction "length (net s)" arbitrary: s y rule: less_induct)
  case less
  have pos: "0 < pid" using less.prems(2) by (simp add: awaits_def)
  from try_pending_awaits [OF less.prems(1,2,4)] show ?case
  proof (elim disjE exE conjE)
    fix s'
    assume "wait4_try_pending ws so q pid s = Some (pid, if ws then Some (wait4_encode_status code) else None, s')" "reaped c pid s'"
    then show ?thesis using pos by (subst wait4_block_on_port.simps) simp
  next
    assume t: "wait4_try_pending ws so q pid s = Some (0, None, s)" "\<forall>y. procs s q = Some y \<longrightarrow> (c, pid, code) \<notin> set (p_pending y)"
    then have "(p_pid y, EXIT_NOTIFY pid c code) \<in> set (net s)" using less.prems(2,3) by (auto simp: awaits_def)
    then obtain m ms where m: "recv_port (p_pid y) (net s) = Some (m, ms)" using recv_port_some by blast
    from recv_awaits [OF less.prems(1,2,3,4) m, of "ao (length ms)"] show ?thesis
    proof (elim disjE exE conjE)
      fix s'
      assume "wait4_handle_port_msg ws so False (ao (length ms)) q pid m (s\<lparr>net := ms\<rparr>)
        = Some (pid, if ws then Some (wait4_encode_status code) else None, s')" "reaped c pid s'"
      then show ?thesis using pos t m by (subst wait4_block_on_port.simps) simp
    next
      fix s'
      assume s': "wait4_handle_port_msg ws so False (ao (length ms)) q pid m (s\<lparr>net := ms\<rparr>) = Some (0, None, s')" "psys_inv s'"
        "awaits q pp c pid code s'"
      have len: "length (net s') < length (net s)" using handle_msg_zero [OF s'(1)] recv_port_length [OF m] by simp
      obtain y' where y': "procs s' q = Some y'" using s'(3) by (auto simp: awaits_def)
      have "p_pid y' = p_pid y" using s'(3) y' less.prems(2,3) by (auto simp: awaits_def)
      then show ?thesis using less.hyps [OF len s'(2,3) y' less.prems(4)] pos t m s'(1) by (subst wait4_block_on_port.simps) simp
    qed
  qed
qed

section \<open>The handler delivers\<close>

text \<open>What the polling of parked jobs leaves alone: everything but pending lists, and ports only grow.\<close>

definition core :: "linux_proc \<Rightarrow> linux_proc" where
  "core x = x\<lparr>p_pending := []\<rparr>"

definition grows :: "psys \<Rightarrow> psys \<Rightarrow> bool" where
  "grows s s' \<longleftrightarrow> reg s' = reg s \<and> res s' = res s \<and> (\<forall>p. map_option core (procs s' p) = map_option core (procs s p))
     \<and> (\<exists>ms. net s' = net s @ ms \<and> (\<forall>m \<in> set ms. snd m \<noteq> PORT_CLOSED))"

lemma grows_refl [simp]: "grows s s" "grows s (s\<lparr>jobs := js\<rparr>)"
  by (auto simp: grows_def)

lemma grows_trans: "grows s s1 \<Longrightarrow> grows s1 s2 \<Longrightarrow> grows s s2"
  by (auto simp: grows_def)

lemma post_grows: "linux_proc_try_post_exit_notify d pp c code s = Some (r, s') \<Longrightarrow> grows s s'"
  by (auto simp: linux_proc_try_post_exit_notify_def grows_def bind_eq_Some_conv split: if_splits deliver.splits)

lemma fallback_grows:
  assumes "clean_exit_notify_fallback_pending ao po pp c code s = Some s'"
  shows "grows s s'"
proof (cases "find_pid pp s")
  case (Some q)
  obtain b s1 where p: "linux_proc_wait_pending_push ao q c code s = Some (b, s1)"
    using assms Some by (auto simp: clean_exit_notify_fallback_pending_def bind_eq_Some_conv)
  have s': "s' = (if b then linux_proc_wait_poke po pp s1 else s1)"
    using assms Some p by (cases b) (simp_all add: clean_exit_notify_fallback_pending_def)
  have "grows s s1" using p by (auto simp: linux_proc_wait_pending_push_def grows_def core_def bind_eq_Some_conv split: if_splits)
  moreover have "grows s1 s'" unfolding s' by (auto simp: linux_proc_wait_poke_def grows_def)
  ultimately show ?thesis by (rule grows_trans)
qed (use assms in \<open>simp add: clean_exit_notify_fallback_pending_def\<close>)

lemma poll_grows: "poll_jobs env cpu js s = Some s' \<Longrightarrow> grows s s'"
proof (induction js arbitrary: s)
  case (Cons j js)
  obtain c pp ch code where j: "j = (c, pp, ch, code)" by (cases j)
  obtain d ao po where env: "env ch = (d, ao, po)" by (cases "env ch")
  show ?case
  proof (cases "c \<noteq> cpu \<or> find_pid pp s = None")
    case True
    then show ?thesis using Cons j grows_trans [OF grows_refl(2)] by (auto split: if_splits)
  next
    case False
    obtain r s1 where r: "linux_proc_try_post_exit_notify d pp ch code s = Some (r, s1)"
      using Cons.prems j env False by (auto simp: bind_eq_Some_conv)
    obtain s2 where s2: "poll_jobs env cpu js s2 = Some s'" "grows s1 s2"
      using Cons.prems j env False r fallback_grows [of ao po pp ch code s1]
      by (cases r) (auto simp: bind_eq_Some_conv)
    show ?thesis by (rule grows_trans [OF post_grows [OF r] grows_trans [OF s2(2) Cons.IH [OF s2(1)]]])
  qed
qed simp

lemma poll_jobs_grows: "clean_poll_exit_notify_jobs env cpu s = Some s' \<Longrightarrow> grows s s'"
  unfolding clean_poll_exit_notify_jobs_def using poll_grows grows_trans [OF grows_refl(2)] by blast

lemma grows_core: "grows s s' \<Longrightarrow> procs s p = Some x \<Longrightarrow> \<exists>x'. procs s' p = Some x' \<and> core x' = core x"
  unfolding grows_def by (metis map_option_eq_Some)

lemma core_fields: "core x' = core x \<Longrightarrow> p_pid x' = p_pid x \<and> p_ppid x' = p_ppid x \<and> p_state x' = p_state x \<and> p_last x' = p_last x
    \<and> p_refs x' = p_refs x \<and> p_threads x' = p_threads x"
  by (cases x; cases x') (simp add: core_def)

text \<open>The second half of the handler for a process without threads whose parent is registered.\<close>

lemma finish_delivers:
  assumes inv: "psys_inv s" and w: "c \<in> set (workers s)" and x: "procs s c = Some x" "p_threads x = 0" "p_state x = LINUX_EXIT_ZOMBIE"
    and q: "q \<noteq> c" "procs s q = Some y" "reg s (p_pid y) = Some q" "p_ppid x = p_pid y" "reg s (p_pid x) = Some c"
    and net: "(p_pid y, PORT_CLOSED) \<notin> set (net s)" and env: "fst (env c) = D_OK"
  shows "\<exists>s'. clean_reap_finish env job_ok cpu c s = Some s' \<and> psys_inv s' \<and> awaits q (p_pid y) c (p_pid x) (p_exit_code x) s'"
proof -
  have pos: "0 < p_pid y" "0 < p_pid x" using proc_okD(1) [OF pinvD(6) [OF inv]] q(2) x(1) by auto
  let ?x = "x\<lparr>p_last := True\<rparr>"
  let ?s1 = "set_proc c ?x (s\<lparr>workers := remove1 c (workers s)\<rparr>)"
  let ?y = "?x\<lparr>p_state := LINUX_EXIT_NOTIFIED\<rparr>"
  let ?s2 = "set_proc c ?y ?s1"
  have "handler_ready s c" using w x by (simp add: handler_ready_def)
  then obtain s' where run: "clean_reap_finish env job_ok cpu c s = Some s'" and inv': "psys_inv s'"
    using finish_inv [OF inv] by blast
  have link: "reap_link ?x ?s1 = REAP_LINK_A"
    using x q pos by (simp add: reap_link_def proc_has_wait_reaper_def find_pid_def)
  obtain s3 where s3: "clean_async_exit_notify env job_ok cpu (p_ppid x) c (p_exit_code x) ?s2 = Some s3" "linux_proc_put c s3 = Some s'"
    using run x link by (auto simp: clean_reap_finish_def clean_proc_bundle_detached_def bind_eq_Some_conv)
  obtain s4 where s4: "clean_poll_exit_notify_jobs env cpu ?s2 = Some s4"
    using s3(1) by (auto simp: clean_async_exit_notify_def bind_eq_Some_conv)
  note g = poll_jobs_grows [OF s4]
  obtain z where z: "procs s4 c = Some z" "core z = core ?y" using grows_core [OF g, of c ?y] by auto
  obtain v where v: "procs s4 q = Some v" "core v = core y" using grows_core [OF g, of q y] q(1,2) by auto
  obtain ms where ms: "net s4 = net s @ ms" "\<forall>m \<in> set ms. snd m \<noteq> PORT_CLOSED" using g by (auto simp: grows_def)
  have r4: "reg s4 = reg s" using g by (simp add: grows_def)
  note zf = core_fields [OF z(2)] and vf = core_fields [OF v(2)]
  have e3: "s3 = s4\<lparr>net := net s4 @ [(p_pid y, EXIT_NOTIFY (p_pid x) c (p_exit_code x))]\<rparr>"
    using s3(1) s4 z zf pos q(4) env
    by (cases "env c") (auto simp: clean_async_exit_notify_def linux_proc_try_post_exit_notify_def)
  have n': "net s' = net s3" "reg s' = reg s3" and o: "\<And>p. p \<noteq> c \<Longrightarrow> procs s' p = procs s3 p"
    and c': "procs s' c = None \<or> procs s' c = Some (z\<lparr>p_refs := p_refs z - 1\<rparr>)"
    using s3(2) e3 z by (auto simp: linux_proc_put_def split: if_splits)
  have "0 < tokens s' c" using net_child [of "p_pid y" "p_pid x" c "p_exit_code x" "net s'"] n' e3 by (simp add: tokens_def)
  then have "procs s' c = Some (z\<lparr>p_refs := p_refs z - 1\<rparr>)" using token_proc [OF inv', of c] c' by auto
  then have "awaits q (p_pid y) c (p_pid x) (p_exit_code x) s'"
    unfolding awaits_def using n' e3 r4 q pos zf vf v o [of q] ms net by auto
  then show ?thesis using run inv' by blast
qed

text \<open>The first half of the handler for the only thread of an exited process.\<close>

lemma exit_begin:
  assumes inv: "psys_inv s" and t: "res s t = Some c" and x: "procs s c = Some x" "p_threads x = 1"
  shows "\<exists>b s1 s2. sys_exit True t code s = Some (b, s1) \<and> clean_reap_begin True t s1 = Some s2 \<and> psys_inv s2 \<and> c \<in> set (workers s2)
    \<and> (\<exists>x2. procs s2 c = Some x2 \<and> p_threads x2 = 0 \<and> p_state x2 = LINUX_EXIT_ZOMBIE \<and> p_exit_code x2 = code AND 0xFF
        \<and> p_pid x2 = p_pid x \<and> p_ppid x2 = p_ppid x)
    \<and> (\<forall>p. p \<noteq> c \<longrightarrow> procs s2 p = procs s p) \<and> reg s2 = reg s \<and> net s2 = net s"
proof -
  obtain b s1 where e: "sys_exit True t code s = Some (b, s1)" "psys_inv s1" using exit_inv [OF inv t] by blast
  obtain s2 where b: "clean_reap_begin True t s1 = Some s2" "psys_inv s2" using begin_inv [OF e(2)] by blast
  let ?x = "x\<lparr>p_exit_code := code AND 0xFF, p_state := LINUX_EXIT_ZOMBIE, p_last := True\<rparr>"
  have s1: "s1 = (set_proc c ?x s)\<lparr>exited := t # exited s, clean_q := clean_q s @ [t]\<rparr>"
    using e(1) t x by (auto simp: sys_exit_def linux_thread_exit_rendezvous_def linux_proc_mark_exiting_def Let_def)
  have refs: "2 \<le> p_refs x" using proc_okD(4) [OF pinvD(6) [OF inv x(1)]] x(2) attached_live [OF inv t] x(1) by auto
  have "procs s2 c = Some (?x\<lparr>p_refs := p_refs x, p_threads := 0\<rparr>) \<and> c \<in> set (workers s2) \<and> reg s2 = reg s \<and> net s2 = net s
      \<and> (\<forall>p. p \<noteq> c \<longrightarrow> procs s2 p = procs s p)"
    using b(1) t x refs by (auto simp: s1 clean_reap_begin_def Let_def linux_proc_detach_thread_def linux_proc_put_def)
  then show ?thesis using e(1) b by simp
qed

lemma awaits_live:
  assumes inv: "psys_inv s" and aw: "awaits q pp c pid code s" and y: "procs s q = Some y"
  shows "p_pid y = pp" "wait4_has_live_child pid y s = Some True"
proof -
  have "0 < tokens s c"
    using aw pend_count_pos [OF pinvD(1) [OF inv] y, of c pid code] net_child [of pp pid c code "net s"] y
    by (auto simp: awaits_def tokens_def)
  then show "p_pid y = pp" "wait4_has_live_child pid y s = Some True"
    using token_proc [OF inv, of c] aw y
    by (auto simp: awaits_def wait4_has_live_child_def find_pid_def proc_child_counts_for_wait_def)
qed

lemma wait4_returns:
  assumes inv: "psys_inv s" and aw: "awaits q pp c pid code s" and ok: "\<not> ws \<or> so"
  shows "\<exists>s'. sys_wait4 True False ao False q pid ws so s
      = Some (Wait_Returned pid (if ws then Some (wait4_encode_status code) else None), s') \<and> reaped c pid s'"
proof -
  obtain y where y: "procs s q = Some y" and pos: "0 < pid" using aw by (auto simp: awaits_def)
  have block: ?thesis if s2: "(case recv_port (p_pid y) (net s) of None \<Rightarrow> Some (0, None, s)
        | Some (msg, ms) \<Rightarrow> wait4_handle_port_msg ws so False (ao (length ms)) q pid msg (s\<lparr>net := ms\<rparr>)) = Some (0, None, s2)"
      and i2: "psys_inv s2" "awaits q pp c pid code s2" and t: "wait4_try_pending ws so q pid s = Some (0, None, s)" for s2
  proof -
    obtain y2 where y2: "procs s2 q = Some y2" using i2(2) by (auto simp: awaits_def)
    note l = awaits_live [OF i2 y2]
    show ?thesis using block_on_port_returns [OF i2 y2 ok, of ao] y t s2 y2 l by (simp add: sys_wait4_def)
  qed
  from try_pending_awaits [OF inv aw ok] show ?thesis
  proof (elim disjE exE conjE)
    fix s'
    assume "wait4_try_pending ws so q pid s = Some (pid, if ws then Some (wait4_encode_status code) else None, s')" "reaped c pid s'"
    then show ?thesis using pos y by (simp add: sys_wait4_def)
  next
    assume t: "wait4_try_pending ws so q pid s = Some (0, None, s)"
    show ?thesis
    proof (cases "recv_port (p_pid y) (net s)")
      case None
      then show ?thesis using block [OF _ inv aw t] by simp
    next
      case (Some v)
      obtain m ms where v: "v = (m, ms)" by (cases v)
      from recv_awaits [OF inv aw y ok Some [unfolded v], of "ao (length ms)"] show ?thesis
      proof (elim disjE exE conjE)
        fix s'
        assume "wait4_handle_port_msg ws so False (ao (length ms)) q pid m (s\<lparr>net := ms\<rparr>)
          = Some (pid, if ws then Some (wait4_encode_status code) else None, s')" "reaped c pid s'"
        then show ?thesis using Some v pos y t by (simp add: sys_wait4_def)
      next
        fix s'
        assume "wait4_handle_port_msg ws so False (ao (length ms)) q pid m (s\<lparr>net := ms\<rparr>) = Some (0, None, s')" "psys_inv s'"
          "awaits q pp c pid code s'"
        then show ?thesis using block [of s'] Some v t by simp
      qed
    qed
  qed
qed

text \<open>Once the last notification of a dead child is gone, no step reaps it.\<close>

lemma lost_stays:
  assumes s: "pinv (\<lambda>_. 0) k s" "k c = 1" and r: "(\<lambda>a b. pstep a (Some b))\<^sup>*\<^sup>* s s'"
  shows "\<exists>z. procs s' c = Some z \<and> p_state z = LINUX_EXIT_NOTIFIED"
proof -
  have "pinv (\<lambda>_. 0) k s'" using r s(1) by (induction rule: rtranclp_induct) (auto dest: step_inv)
  then show ?thesis using token_proc [of "\<lambda>_. 0" k s' c] s(2) by auto
qed

section \<open>A running system\<close>

text \<open>The state after booting the first process and one fork: process 1 with thread 10, its child 2 with thread 20.\<close>

definition demo :: psys where
  "demo = \<lparr>procs = [1 \<mapsto> \<lparr>p_pid = 1, p_refs = 2, p_threads = 1, p_ppid = 0, p_pgid = 0, p_exit_code = 0,
                            p_state = LINUX_EXIT_RUNNING, p_last = False, p_pending = []\<rparr>,
                       2 \<mapsto> \<lparr>p_pid = 2, p_refs = 2, p_threads = 1, p_ppid = 1, p_pgid = 1, p_exit_code = 0,
                            p_state = LINUX_EXIT_RUNNING, p_last = False, p_pending = []\<rparr>],
             reg = [1 \<mapsto> 1, 2 \<mapsto> 2], res = [10 \<mapsto> 1, 20 \<mapsto> 2], net = [], jobs = [], clean_q = [], exited = [], workers = []\<rparr>"

lemma reach_via: "reach s \<Longrightarrow> pstep s r \<Longrightarrow> r = Some s' \<Longrightarrow> reach s'"
  by (auto intro: reach_step)

lemma demo_reach: "reach demo"
proof -
  let ?s0 = "\<lparr>procs = (\<lambda>_. None), reg = (\<lambda>_. None), res = (\<lambda>_. None), net = [], jobs = [], clean_q = [], exited = [], workers = []\<rparr> :: psys"
  let ?p1 = "\<lparr>p_pid = 1, p_refs = 2, p_threads = 1, p_ppid = 0, p_pgid = 0, p_exit_code = 0,
               p_state = LINUX_EXIT_RUNNING, p_last = False, p_pending = []\<rparr>"
  let ?s1 = "?s0\<lparr>procs := [1 \<mapsto> ?p1], res := [10 \<mapsto> 1]\<rparr>"
  let ?s2 = "?s1\<lparr>reg := [1 \<mapsto> 1]\<rparr>"
  have "pstep ?s0 (map_option snd (linux_spawn_init_task (Some 1) 0 1 REND_SUCCESS (Some 10) REND_SUCCESS ?s0))"
    by (rule spawn) (simp_all add: fresh_mem_def)
  moreover have "map_option snd (linux_spawn_init_task (Some 1) 0 1 REND_SUCCESS (Some 10) REND_SUCCESS ?s0) = Some ?s1"
    by (simp add: linux_spawn_init_task_def linux_proc_alloc_def linux_proc_attach_thread_def set_proc_def numeral_2_eq_2)
  ultimately have r1: "reach ?s1" by (rule reach_via [OF reach_init])
  have "pstep ?s1 (map_option snd (linux_user_task_prepare_new True True 1 ?s1))" by (rule prepare [where t = 10]) simp_all
  moreover have "map_option snd (linux_user_task_prepare_new True True 1 ?s1) = Some ?s2"
    by (simp add: linux_user_task_prepare_new_def set_proc_def register_child_def)
  ultimately have r2: "reach ?s2" by (rule reach_via [OF r1])
  have "pstep ?s2 (map_option snd (sys_fork (Some 2) 0 2 True True (Some 20) True True 1 ?s2))"
    by (rule fork [where u = 10]) (simp_all add: fresh_mem_def)
  moreover have "map_option snd (sys_fork (Some 2) 0 2 True True (Some 20) True True 1 ?s2) = Some demo"
    by (simp add: sys_fork_def linux_proc_alloc_def linux_proc_attach_thread_def set_proc_def register_child_def demo_def numeral_2_eq_2)
  ultimately show ?thesis by (rule reach_via [OF r2])
qed

text \<open>The same system when the child has exited with code 7 and its notification is pending.\<close>

definition demo_dead :: psys where
  "demo_dead = demo\<lparr>procs := [1 \<mapsto> (the (procs demo 1))\<lparr>p_pending := [(2, 2, 7)]\<rparr>,
                             2 \<mapsto> (the (procs demo 2))\<lparr>p_refs := 1, p_threads := 0, p_exit_code := 7, p_state := LINUX_EXIT_NOTIFIED, p_last := True\<rparr>],
                    res := [10 \<mapsto> 1], exited := [20]\<rparr>"

lemma demo_dead_inv: "psys_inv demo_dead"
proof (rule pinvI)
  have tok: "tokens demo_dead p = of_bool (p = 2)" for p
    by (simp add: tokens_def pend_count_def demo_dead_def demo_def)
  show "tokens demo_dead p + 0 \<le> 1" for p by (simp add: tok)
  show "token_ok demo_dead p" if "0 < tokens demo_dead p + 0" for p
    using that [unfolded tok] by (simp add: token_ok_def demo_dead_def split: if_splits)
  have t: "{t. [10 \<mapsto> 1 :: nat] t = Some 1} = {10 :: nat}" "{t. [10 \<mapsto> 1 :: nat] t = Some 2} = ({} :: nat set)" by (auto split: if_splits)
  show "proc_ok (\<lambda>_. 0) demo_dead p x" if "procs demo_dead p = Some x" for p x
    using that t by (auto simp: proc_ok_def demo_dead_def demo_def split: if_splits)
qed (auto simp: demo_dead_def demo_def pend_ok_def split: if_splits)

section \<open>Properties\<close>

text \<open>C2. No use after free of a process object. In every reachable state of the process system, under any
  interleaving of boot, fork, clone, exit, both halves of the cleaning handler, its polling, wait4 and wake-ups
  and any outcome of allocation and delivery, no step touches a freed process; reference counts and thread counts are
  exact; and the registry only holds live, unclaimed processes under their own identifiers.\<close>

theorem proc_lifetime:
  assumes "reach s"
  shows "(\<forall>r. pstep s r \<longrightarrow> r \<noteq> None)
    \<and> (\<forall>p x. procs s p = Some x \<longrightarrow> p_threads x = card {t. res s t = Some p}
          \<and> p_refs x = (if p_state x = LINUX_EXIT_CLAIMED then 0 else 1) + p_threads x + count_list (workers s) p \<and> 0 < p_refs x)
    \<and> (\<forall>pid p. reg s pid = Some p \<longrightarrow> (\<exists>x. procs s p = Some x \<and> p_pid x = pid \<and> p_state x \<noteq> LINUX_EXIT_CLAIMED))"
proof (intro conjI allI impI)
  note inv = reach_inv [OF assms]
  show "r \<noteq> None" if "pstep s r" for r using step_inv [OF that inv] by auto
  show "\<exists>x. procs s p = Some x \<and> p_pid x = pid \<and> p_state x \<noteq> LINUX_EXIT_CLAIMED" if "reg s pid = Some p" for pid p
    by (rule pinvD(3) [OF inv that])
  fix p x
  assume "procs s p = Some x"
  note ok = proc_okD [OF pinvD(6) [OF inv this]]
  show "p_threads x = card {t. res s t = Some p}" "0 < p_refs x" by (fact ok)+
  show "p_refs x = (if p_state x = LINUX_EXIT_CLAIMED then 0 else 1) + p_threads x + count_list (workers s) p" using ok(4) by simp
qed

theorem proc_lifetime_witness: "clean_poll_exit_notify_jobs (\<lambda>_. (D_OK, True, True)) 0 demo \<noteq> None"
  using proc_lifetime [OF demo_reach] poll by blast

text \<open>C3. A child's exit status reaches its parent. When the only thread of a child exits with a code, the cleaning
  server reaps it and its notification is delivered to the open port of the parent, then a blocking wait4
  of the parent for that child returns the child's identifier and the low byte of the code as its exit status, whatever
  else is queued for the parent; the child is then unregistered and its object freed or claimed.\<close>

theorem exit_wait_status:
  assumes "psys_inv s" "res s t = Some c" "procs s c = Some x" "p_threads x = 1" "reg s (p_pid x) = Some c"
    "q \<noteq> c" "procs s q = Some y" "reg s (p_pid y) = Some q" "p_ppid x = p_pid y" "(p_pid y, PORT_CLOSED) \<notin> set (net s)"
    "fst (env c) = D_OK"
  shows "\<exists>chld s1 s2 s3 s4. sys_exit True t code s = Some (chld, s1) \<and> clean_reap_begin True t s1 = Some s2
    \<and> clean_reap_finish env job_ok cpu c s2 = Some s3
    \<and> sys_wait4 True False ao False q (p_pid x) True True s3 = Some (Wait_Returned (p_pid x) (Some (push_bit 8 (code AND 0xFF))), s4)
    \<and> reg s4 (p_pid x) = None \<and> (\<forall>z. procs s4 c = Some z \<longrightarrow> p_state z = LINUX_EXIT_CLAIMED)"
proof -
  obtain b s1 s2 x2 where e: "sys_exit True t code s = Some (b, s1)" "clean_reap_begin True t s1 = Some s2" "psys_inv s2"
      "c \<in> set (workers s2)" "procs s2 c = Some x2" "p_threads x2 = 0" "p_state x2 = LINUX_EXIT_ZOMBIE" "p_exit_code x2 = code AND 0xFF"
      "p_pid x2 = p_pid x" "p_ppid x2 = p_ppid x" "\<forall>p. p \<noteq> c \<longrightarrow> procs s2 p = procs s p" "reg s2 = reg s" "net s2 = net s"
    using exit_begin [OF assms(1-4), of code] by blast
  obtain s3 where s3: "clean_reap_finish env job_ok cpu c s2 = Some s3" "psys_inv s3"
      "awaits q (p_pid y) c (p_pid x2) (p_exit_code x2) s3"
    using finish_delivers [OF e(3-7) assms(6), of y env job_ok cpu] e assms(5-11) by auto
  have "wait4_encode_status (code AND 0xFF) = push_bit 8 (code AND 0xFF)" by (simp add: wait4_encode_status_def and.assoc)
  then show ?thesis using wait4_returns [OF s3(2,3), of True True ao] e s3(1) by (auto simp: reaped_def)
qed

theorem exit_wait_status_witness:
  "\<exists>chld s1 s2 s3 s4. sys_exit True 20 7 demo = Some (chld, s1) \<and> clean_reap_begin True 20 s1 = Some s2
    \<and> clean_reap_finish (\<lambda>_. (D_OK, True, True)) True 0 2 s2 = Some s3
    \<and> sys_wait4 True False (\<lambda>_. True) False 1 2 True True s3 = Some (Wait_Returned 2 (Some 0x700), s4) \<and> reg s4 2 = None"
proof -
  have e: "push_bit 8 ((7 :: int) AND 0xFF) = 0x700" by (simp add: push_bit_eq_mult)
  define x where "x = the (procs demo 2)"
  define y where "y = the (procs demo 1)"
  have st: "res demo 20 = Some 2" "procs demo 2 = Some x" "p_threads x = 1" "reg demo (p_pid x) = Some 2" "(1 :: nat) \<noteq> 2"
    "procs demo 1 = Some y" "reg demo (p_pid y) = Some 1" "p_ppid x = p_pid y" "(p_pid y, PORT_CLOSED) \<notin> set (net demo)" "p_pid x = 2"
    by (simp_all add: demo_def x_def y_def)
  have d: "fst ((\<lambda>_. (D_OK, True, True)) (2 :: nat)) = D_OK" by simp
  show ?thesis
    using exit_wait_status [OF reach_inv [OF demo_reach] st(1-9) d, of 7 True 0 "\<lambda>_. True"] unfolding e st(10) by blast
qed

text \<open>C36. A wait4 that cannot store the status loses the child. When the notification of a child is pending and the
  status pointer is bad, wait4 returns \<^verbatim>\<open>-EFAULT\<close> and has already consumed the notification: after that
  no sequence of steps reaps the child, whose object stays allocated as a notified zombie.\<close>

theorem wait4_fault_leaks_child:
  assumes "psys_inv s" "procs s q = Some y" "(c, pid, code) \<in> set (p_pending y)" "0 < pid" "procs s c = Some x" "p_ppid x = p_pid y" "q \<noteq> c"
  shows "\<exists>s'. sys_wait4 port_ok eintr ao nohang q pid True False s = Some (Wait_Returned (- LINUX_EFAULT) None, s')
    \<and> (\<forall>s''. (\<lambda>a b. pstep a (Some b))\<^sup>*\<^sup>* s' s'' \<longrightarrow> (\<exists>z. procs s'' c = Some z \<and> p_state z = LINUX_EXIT_NOTIFIED))"
proof -
  obtain rest where take: "linux_proc_wait_pending_take q pid s = Some (Some (c, code), set_proc q (y\<lparr>p_pending := rest\<rparr>) s)"
    and inv: "pinv (\<lambda>_. 0) ((\<lambda>_. 0)(c := 1)) (set_proc q (y\<lparr>p_pending := rest\<rparr>) s)" using take_awaits [OF assms(1-4)] by blast
  let ?s1 = "set_proc q (y\<lparr>p_pending := rest\<rparr>) s"
  let ?s2 = "set_proc c (x\<lparr>p_exit_code := code\<rparr>) ?s1"
  have x: "procs ?s1 c = Some x" using assms(5,7) by simp
  have xs: "p_state x = LINUX_EXIT_NOTIFIED" "p_last x" "0 < p_pid x" using token_proc [OF inv, of c] x by auto
  have inv2: "pinv (\<lambda>_. 0) ((\<lambda>_. 0)(c := 1)) ?s2" by (rule pinv_fields [OF inv x]) simp_all
  have "sys_wait4 port_ok eintr ao nohang q pid True False s = Some (Wait_Returned (- LINUX_EFAULT) None, ?s2)"
    using assms(2,6,7) take x xs by (simp add: sys_wait4_def wait4_try_pending_def wait4_finish_reap_def Let_def)
  then show ?thesis using lost_stays [OF inv2, of c] by auto
qed

theorem wait4_fault_leaks_child_witness:
  "\<exists>s'. sys_wait4 True False (\<lambda>_. True) False 1 2 True False demo_dead = Some (Wait_Returned (- LINUX_EFAULT) None, s')
    \<and> (\<exists>z. procs s' 2 = Some z \<and> p_state z = LINUX_EXIT_NOTIFIED)"
proof -
  define x where "x = the (procs demo_dead 2)"
  define y where "y = the (procs demo_dead 1)"
  have st: "procs demo_dead 1 = Some y" "(2, 2, 7) \<in> set (p_pending y)" "(0 :: int) < 2" "procs demo_dead 2 = Some x" "p_ppid x = p_pid y"
    "(1 :: nat) \<noteq> 2"
    by (simp_all add: demo_dead_def demo_def x_def y_def)
  show ?thesis using wait4_fault_leaks_child [OF demo_dead_inv st, of True False "\<lambda>_. True" False] by blast
qed

text \<open>wait4 for any child misses children with distant identifiers. When nothing is pending or queued and no
  identifier among the 999 that follow the caller's is registered, wait4(-1) returns \<^verbatim>\<open>-ECHILD\<close>, even when the
  caller has a live child.\<close>

lemma wait_any_misses_far_child:
  assumes "procs s q = Some y" "p_pending y = []" "recv_port (p_pid y) (net s) = None" "0 < p_pid y"
    "\<forall>i. p_pid y < i \<longrightarrow> i < p_pid y + 1000 \<longrightarrow> reg s i = None"
  shows "sys_wait4 True eintr ao nohang q (-1) ws so s = Some (Wait_Returned (- LINUX_ECHILD) None, s)"
proof -
  have "unreaped_loop cs (p_pid y) 0 False s = Some False" if "\<forall>i \<in> set cs. reg s i = None" for cs
    using that by (induction cs) (simp_all add: find_pid_def)
  then have "proc_parent_has_unreaped_child (p_pid y) 0 False s = Some False"
    using assms(4,5) by (simp add: proc_parent_has_unreaped_child_def)
  then show ?thesis using assms(1-3)
    by (simp add: sys_wait4_def wait4_try_pending_def linux_proc_wait_pending_take_def wait4_has_live_child_def)
qed

end
