(* ===== verification/Page_Cache.thy ===== *)
theory Page_Cache
  imports Vfs_Mount Cpio "HOL-Library.Monad_Syntax"
begin

text \<open>
  The page cache of the file server (\<^verbatim>\<open>servers/fs/vfs_page_cache.c\<close>): cached copies of whole files, keyed by
  path, with their dirty flag, the two lists of files and the two lists of pages of each file.

  The entry table is the list of its records and an entry pointer an index into it. A page slice
  belongs to the kernel core and is the argument \<open>ops\<close>: its pages are reachable only through the
  slice, so they are part of its value, and a memory copy into a page is \<open>pg_store\<close>. The locale
  \<open>page_slice_bytes\<close> states what the cache relies on. The lists are in the order of the C lists, with
  \<^verbatim>\<open>list_add_tail\<close> appending. The outcomes of allocations are the record \<open>pc_env\<close>. \<open>None\<close> is undefined
  behaviour: an access outside an allocated buffer, a storage pointer of the wrong kind, or a walk over the
  page lists of an entry whose slice has been destroyed. The flag \<^verbatim>\<open>VFS_PCACHE_PAGE_DIRTY\<close> of a page is
  never read by the program and left out.
\<close>

section \<open>Definitions\<close>

abbreviation VFS_PCACHE_SOFT_MAX :: nat where "VFS_PCACHE_SOFT_MAX \<equiv> 64"
abbreviation VFS_PCACHE_MAX_CACHED :: nat where "VFS_PCACHE_MAX_CACHED \<equiv> 262144"
abbreviation VFS_BACKEND_CAP_READ_SOURCE :: u32 where "VFS_BACKEND_CAP_READ_SOURCE \<equiv> 1"
abbreviation VFS_BACKEND_CAP_WRITE_SOURCE :: u32 where "VFS_BACKEND_CAP_WRITE_SOURCE \<equiv> 2"
abbreviation VFS_BACKEND_CAP_WRITE_CACHE :: u32 where "VFS_BACKEND_CAP_WRITE_CACHE \<equiv> 4"
abbreviation VFS_BACKEND_CAP_FLUSH_DROP :: u32 where "VFS_BACKEND_CAP_FLUSH_DROP \<equiv> 8"

text \<open>Page slices, with \<^verbatim>\<open>PAGE_SIZE\<close> and the macros on sizes and offsets.\<close>

record 's page_ops =
  pg_size :: nat
  pg_count :: "nat \<Rightarrow> nat"
  pg_off :: "nat \<Rightarrow> nat"
  pg_in :: "nat \<Rightarrow> nat"
  pg_len :: "'s \<Rightarrow> nat"
  pg_create :: "nat \<Rightarrow> 's option"
  pg_insert :: "'s \<Rightarrow> nat \<Rightarrow> u8 list \<Rightarrow> bool \<times> 's"
  pg_lookup :: "'s \<Rightarrow> nat \<Rightarrow> u8 list option"
  pg_store :: "'s \<Rightarrow> nat \<Rightarrow> u8 list \<Rightarrow> 's"
  pg_copy :: "'s \<Rightarrow> nat \<Rightarrow> nat \<Rightarrow> u8 list option"
  pg_clone :: "'s \<Rightarrow> 's option"

record 's vfs_pcache_entry =
  pc_path :: string
  pc_slice :: "'s option"
  pc_size :: nat
  pc_caps :: u32
  pc_storage :: vfs_storage
  pc_dirty :: bool
  pc_valid :: bool
  pages_active :: "nat list"
  pages_inactive :: "nat list"

record 's vfs_pcache =
  pcache_tab :: "'s vfs_pcache_entry list"
  pcache_ready :: bool
  pcache_active :: "nat list"
  pcache_inactive :: "nat list"

record pc_env =
  pe_init :: bool
  pe_push :: bool
  pe_page :: "nat \<Rightarrow> bool"

definition pc_entry_zero :: "'s vfs_pcache_entry" where
  "pc_entry_zero = \<lparr>pc_path = [], pc_slice = None, pc_size = 0, pc_caps = 0, pc_storage = ST_NULL, pc_dirty = False,
     pc_valid = False, pages_active = [], pages_inactive = []\<rparr>"

definition set_pc :: "nat \<Rightarrow> 's vfs_pcache_entry \<Rightarrow> 's vfs_pcache \<Rightarrow> 's vfs_pcache" where
  "set_pc i e pc = pc\<lparr>pcache_tab := (pcache_tab pc)[i := e]\<rparr>"

definition vfs_pcache_tab_ensure :: "pc_env \<Rightarrow> 's vfs_pcache \<Rightarrow> 's vfs_pcache" where
  "vfs_pcache_tab_ensure env pc =
     (if pcache_ready pc then pc
      else if pe_init env then pc\<lparr>pcache_tab := [], pcache_ready := True\<rparr> else pc)"

subsection \<open>Sources\<close>

text \<open>The address of the bytes of a file: a ramfs buffer or an address in the archive.\<close>

datatype kva = K_NULL | K_HEAP nat | K_IMAGE nat

definition vfs_inode_source_kva :: "ramfs \<Rightarrow> vfs_inode \<Rightarrow> kva option" where
  "vfs_inode_source_kva ram ino =
     (case storage ino of
        ST_NULL \<Rightarrow> Some K_NULL
      | ST_RAMFS i \<Rightarrow>
          if backend_caps ino AND VFS_BACKEND_CAP_WRITE_SOURCE \<noteq> 0 \<and> i < length (ents ram)
          then Some (case r_data (ents ram ! i) of None \<Rightarrow> K_NULL | Some a \<Rightarrow> K_HEAP a) else None
      | ST_CPIO a \<Rightarrow>
          if backend_caps ino AND VFS_BACKEND_CAP_WRITE_SOURCE \<noteq> 0 then None else Some (if a = 0 then K_NULL else K_IMAGE a))"

definition kva_read :: "ramfs \<Rightarrow> memory \<Rightarrow> kva \<Rightarrow> nat \<Rightarrow> nat \<Rightarrow> u8 list option" where
  "kva_read ram m k off n =
     (case k of
        K_NULL \<Rightarrow> None
      | K_HEAP a \<Rightarrow> mem_read (heap ram) a off n
      | K_IMAGE a \<Rightarrow> Some (map (\<lambda>j. m (a + off + j)) [0..<n]))"

definition vfs_inode_ramfs_storage :: "vfs_inode \<Rightarrow> nat option" where
  "vfs_inode_ramfs_storage ino =
     (if backend_caps ino AND VFS_BACKEND_CAP_WRITE_SOURCE = 0 then None
      else case storage ino of ST_RAMFS i \<Rightarrow> Some i | _ \<Rightarrow> None)"

subsection \<open>Lookup and lists\<close>

definition vfs_pcache_find :: "(string \<Rightarrow> string \<Rightarrow> nat \<Rightarrow> int) \<Rightarrow> string \<Rightarrow> 's vfs_pcache \<Rightarrow> nat option" where
  "vfs_pcache_find strcmp_s path pc =
     find (\<lambda>i. pc_valid (pcache_tab pc ! i) \<and> strcmp_s (pc_path (pcache_tab pc ! i)) path VFS_PATH_MAX = 0) [0..<length (pcache_tab pc)]"

text \<open>The page lists link nodes of the slice's own entries.\<close>

definition vfs_pcache_clear_page_lru :: "'s page_ops \<Rightarrow> 's vfs_pcache_entry \<Rightarrow> 's vfs_pcache_entry option" where
  "vfs_pcache_clear_page_lru ops e =
     (if (\<forall>g \<in> set (pages_active e) \<union> set (pages_inactive e). \<exists>s. pc_slice e = Some s \<and> pg_lookup ops s g \<noteq> None)
      then Some (e\<lparr>pages_active := [], pages_inactive := []\<rparr>) else None)"

definition vfs_pcache_touch_file :: "nat \<Rightarrow> 's vfs_pcache \<Rightarrow> 's vfs_pcache" where
  "vfs_pcache_touch_file i pc =
     (if \<not> pc_valid (pcache_tab pc ! i) then pc
      else pc\<lparr>pcache_inactive := removeAll i (pcache_inactive pc), pcache_active := removeAll i (pcache_active pc) @ [i]\<rparr>)"

definition vfs_pcache_page_link_inactive :: "nat \<Rightarrow> 's vfs_pcache_entry \<Rightarrow> 's vfs_pcache_entry" where
  "vfs_pcache_page_link_inactive g e =
     (if g \<in> set (pages_active e) \<union> set (pages_inactive e) then e else e\<lparr>pages_inactive := pages_inactive e @ [g]\<rparr>)"

definition vfs_pcache_touch_page :: "nat \<Rightarrow> 's vfs_pcache_entry \<Rightarrow> 's vfs_pcache_entry" where
  "vfs_pcache_touch_page g e =
     e\<lparr>pages_inactive := removeAll g (pages_inactive e), pages_active := removeAll g (pages_active e) @ [g]\<rparr>"

text \<open>
  The chunks of the byte range from \<open>off\<close> on: the loops over pages stop at the first page that is
  missing, and \<open>n\<close> bounds the number of iterations (every chunk has at least one byte).
\<close>

fun touch_loop :: "'s page_ops \<Rightarrow> 's \<Rightarrow> nat \<Rightarrow> nat \<Rightarrow> nat \<Rightarrow> 's vfs_pcache_entry \<Rightarrow> 's vfs_pcache_entry" where
  "touch_loop ops s 0 off len e = e"
| "touch_loop ops s (Suc n) off len e =
     (if len = 0 then e
      else case pg_lookup ops s (pg_off ops off) of
        None \<Rightarrow> e
      | Some b \<Rightarrow>
          let chunk = min (pg_size ops - pg_in ops off) len in
          touch_loop ops s n (off + chunk) (len - chunk) (vfs_pcache_touch_page (pg_off ops off) e))"

definition vfs_pcache_touch_pages :: "'s page_ops \<Rightarrow> nat \<Rightarrow> nat \<Rightarrow> 's vfs_pcache_entry \<Rightarrow> 's vfs_pcache_entry" where
  "vfs_pcache_touch_pages ops offset len e =
     (case pc_slice e of None \<Rightarrow> e | Some s \<Rightarrow> touch_loop ops s len offset len e)"

subsection \<open>Writing back and freeing\<close>

definition vfs_pcache_flush_entry ::
  "'s page_ops \<Rightarrow> ramfs \<Rightarrow> 's vfs_pcache_entry \<Rightarrow> (bool \<times> ramfs \<times> 's vfs_pcache_entry) option" where
  "vfs_pcache_flush_entry ops ram e =
     (case pc_slice e of
        None \<Rightarrow> Some (True, ram, e)
      | Some s \<Rightarrow>
          if \<not> pc_valid e \<or> \<not> pc_dirty e then Some (True, ram, e)
          else if pc_caps e AND VFS_BACKEND_CAP_FLUSH_DROP \<noteq> 0 then Some (True, ram, e\<lparr>pc_dirty := False\<rparr>)
          else if pc_caps e AND VFS_BACKEND_CAP_WRITE_SOURCE = 0 \<or> pc_storage e = ST_NULL then Some (True, ram, e\<lparr>pc_dirty := False\<rparr>)
          else case pc_storage e of
            ST_RAMFS i \<Rightarrow>
              if length (ents ram) \<le> i then None
              else (case r_data (ents ram ! i) of
                None \<Rightarrow> Some (True, ram, e\<lparr>pc_dirty := False\<rparr>)
              | Some a \<Rightarrow>
                  (case pg_copy ops s 0 (pc_size e) of
                     None \<Rightarrow> Some (False, ram, e)
                   | Some d \<Rightarrow>
                       map_option (\<lambda>hp. (True, set_entry i ((ents ram ! i)\<lparr>r_size := pc_size e\<rparr>) (ram\<lparr>heap := hp\<rparr>), e\<lparr>pc_dirty := False\<rparr>))
                         (mem_write (heap ram) a 0 d)))
          | _ \<Rightarrow> None)"

definition vfs_pcache_destroy_entry :: "'s page_ops \<Rightarrow> nat \<Rightarrow> 's vfs_pcache \<Rightarrow> 's vfs_pcache option" where
  "vfs_pcache_destroy_entry ops i pc =
     map_option (\<lambda>e. (set_pc i (e\<lparr>pc_slice := None, pc_size := 0, pc_storage := ST_NULL, pc_caps := 0, pc_dirty := False,
                                  pc_valid := False, pc_path := []\<rparr>) pc)
                       \<lparr>pcache_active := removeAll i (pcache_active pc), pcache_inactive := removeAll i (pcache_inactive pc)\<rparr>)
       (vfs_pcache_clear_page_lru ops (pcache_tab pc ! i))"

definition vfs_pcache_free_entry :: "'s page_ops \<Rightarrow> nat \<Rightarrow> ramfs \<Rightarrow> 's vfs_pcache \<Rightarrow> (ramfs \<times> 's vfs_pcache) option" where
  "vfs_pcache_free_entry ops i ram pc =
     do { r \<leftarrow> vfs_pcache_flush_entry ops ram (pcache_tab pc ! i);
          (case r of (ok, ram1, e) \<Rightarrow> map_option (Pair ram1) (vfs_pcache_destroy_entry ops i (set_pc i e pc))) }"

text \<open>The victim is the tail of the inactive list, or else of the active list.\<close>

definition evict_victim :: "'s vfs_pcache \<Rightarrow> (nat \<times> 's vfs_pcache) option" where
  "evict_victim pc =
     (if pcache_inactive pc \<noteq> [] then Some (last (pcache_inactive pc), pc)
      else if pcache_active pc \<noteq> [] then
        let i = last (pcache_active pc) in
        Some (i, pc\<lparr>pcache_active := butlast (pcache_active pc), pcache_inactive := [i]\<rparr>)
      else None)"

definition vfs_pcache_evict_one :: "'s page_ops \<Rightarrow> ramfs \<Rightarrow> 's vfs_pcache \<Rightarrow> (ramfs \<times> 's vfs_pcache) option" where
  "vfs_pcache_evict_one ops ram pc =
     (case evict_victim pc of
        None \<Rightarrow> Some (ram, pc)
      | Some (i, pc1) \<Rightarrow>
          if pc_dirty (pcache_tab pc1 ! i) then
            do { r \<leftarrow> vfs_pcache_flush_entry ops ram (pcache_tab pc1 ! i);
                 (case r of
                    (False, ram1, e) \<Rightarrow>
                      Some (ram1, (set_pc i e pc1)\<lparr>pcache_inactive := removeAll i (pcache_inactive pc1),
                                                  pcache_active := i # removeAll i (pcache_active pc1)\<rparr>)
                  | (True, ram1, e) \<Rightarrow> map_option (Pair ram1) (vfs_pcache_destroy_entry ops i (set_pc i e pc1))) }
          else map_option (Pair ram) (vfs_pcache_destroy_entry ops i pc1))"

fun reset_loop :: "'s page_ops \<Rightarrow> nat list \<Rightarrow> ramfs \<Rightarrow> 's vfs_pcache \<Rightarrow> (ramfs \<times> 's vfs_pcache) option" where
  "reset_loop ops [] ram pc = Some (ram, pc)"
| "reset_loop ops (i # is) ram pc =
     (if pc_valid (pcache_tab pc ! i)
      then do { r \<leftarrow> vfs_pcache_free_entry ops i ram pc; reset_loop ops is (fst r) (snd r) }
      else reset_loop ops is ram pc)"

definition vfs_page_cache_reset :: "'s page_ops \<Rightarrow> pc_env \<Rightarrow> ramfs \<Rightarrow> 's vfs_pcache \<Rightarrow> (ramfs \<times> 's vfs_pcache) option" where
  "vfs_page_cache_reset ops env ram pc0 =
     (let pc = vfs_pcache_tab_ensure env pc0 in
      do { r \<leftarrow> reset_loop ops [0..<length (pcache_tab pc)] ram pc;
           Some (fst r, vfs_pcache_tab_ensure env
             \<lparr>pcache_tab = [], pcache_ready = False, pcache_active = [], pcache_inactive = []\<rparr>) })"

definition vfs_page_cache_drop ::
  "(string \<Rightarrow> string \<Rightarrow> nat \<Rightarrow> int) \<Rightarrow> 's page_ops \<Rightarrow> pc_env \<Rightarrow> string \<Rightarrow> ramfs \<Rightarrow> 's vfs_pcache \<Rightarrow> (ramfs \<times> 's vfs_pcache) option" where
  "vfs_page_cache_drop strcmp_s ops env path ram pc0 =
     (let pc = vfs_pcache_tab_ensure env pc0 in
      case vfs_pcache_find strcmp_s (vfs_path_normalize path VFS_PATH_MAX) pc of
        None \<Rightarrow> Some (ram, pc)
      | Some i \<Rightarrow> vfs_pcache_free_entry ops i ram pc)"

subsection \<open>Filling\<close>

text \<open>The pages of a new slice; also returns the pages linked so far. \<open>Inl\<close> when a page cannot be allocated or inserted.\<close>

fun fill_pages ::
  "'s page_ops \<Rightarrow> pc_env \<Rightarrow> (nat \<Rightarrow> nat \<Rightarrow> u8 list option) \<Rightarrow> nat \<Rightarrow> nat list \<Rightarrow> 's \<Rightarrow> nat list \<Rightarrow> ((unit + 's) \<times> nat list) option" where
  "fill_pages ops env src n [] s linked = Some (Inr s, linked)"
| "fill_pages ops env src n (g # gs) s linked =
     (if \<not> pe_page env g then Some (Inl (), linked)
      else
        let off = g * pg_size ops;
            copy_len = (if n < off + pg_size ops then n - off else pg_size ops) in
        do { d \<leftarrow> src off copy_len;
             (case pg_insert ops s g (d @ replicate (pg_size ops - copy_len) 0) of
                (False, s1) \<Rightarrow> Some (Inl (), linked)
              | (True, s1) \<Rightarrow>
                  fill_pages ops env src n gs s1 (if pg_lookup ops s1 g \<noteq> None then linked @ [g] else linked)) })"

definition vfs_pcache_fill_slice_from_kva ::
  "'s page_ops \<Rightarrow> pc_env \<Rightarrow> (nat \<Rightarrow> nat \<Rightarrow> u8 list option) \<Rightarrow> nat \<Rightarrow> ((unit + 's) \<times> nat list) option" where
  "vfs_pcache_fill_slice_from_kva ops env src n =
     (if n = 0 then Some (Inl (), [])
      else case pg_create ops n of
        None \<Rightarrow> Some (Inl (), [])
      | Some s \<Rightarrow> fill_pages ops env src n [0..<pg_count ops n] s [])"

definition vfs_pcache_fill_from_inode ::
  "'s page_ops \<Rightarrow> pc_env \<Rightarrow> ramfs \<Rightarrow> memory \<Rightarrow> 's vfs_pcache_entry \<Rightarrow> vfs_inode \<Rightarrow> (bool \<times> 's vfs_pcache_entry) option" where
  "vfs_pcache_fill_from_inode ops env ram m e ino =
     (if is_dir ino \<or> i_size ino = 0 then Some (False, e)
      else do { e1 \<leftarrow> vfs_pcache_clear_page_lru ops e;
        let e2 = e1\<lparr>pc_slice := None, pc_size := i_size ino, pc_caps := backend_caps ino, pc_storage := storage ino, pc_dirty := False\<rparr> in
        do { k \<leftarrow> vfs_inode_source_kva ram ino;
             if k = K_NULL then Some (False, e2)
             else do { r \<leftarrow> vfs_pcache_fill_slice_from_kva ops env (kva_read ram m k) (i_size ino);
                       let e3 = foldl (\<lambda>x g. vfs_pcache_page_link_inactive g x) e2 (snd r) in
                       Some (case fst r of Inl u \<Rightarrow> (False, e3) | Inr s \<Rightarrow> (True, e3\<lparr>pc_slice := Some s\<rparr>)) } } })"

definition free_slot :: "'s vfs_pcache \<Rightarrow> nat option" where
  "free_slot pc = find (\<lambda>i. \<not> pc_valid (pcache_tab pc ! i)) [0..<length (pcache_tab pc)]"

definition init_slot :: "string \<Rightarrow> nat \<Rightarrow> 's vfs_pcache \<Rightarrow> 's vfs_pcache" where
  "init_slot path i pc =
     (set_pc i \<lparr>pc_path = take (VFS_PATH_MAX - 1) path, pc_slice = None, pc_size = 0, pc_caps = 0, pc_storage = ST_NULL,
                pc_dirty = False, pc_valid = True, pages_active = [], pages_inactive = []\<rparr> pc)
       \<lparr>pcache_inactive := pcache_inactive pc @ [i]\<rparr>"

definition vfs_pcache_alloc_slot ::
  "'s page_ops \<Rightarrow> pc_env \<Rightarrow> string \<Rightarrow> ramfs \<Rightarrow> 's vfs_pcache \<Rightarrow> (nat option \<times> ramfs \<times> 's vfs_pcache) option" where
  "vfs_pcache_alloc_slot ops env path ram pc0 =
     (let pc = vfs_pcache_tab_ensure env pc0 in
      if \<not> pcache_ready pc then Some (None, ram, pc)
      else case free_slot pc of
        Some i \<Rightarrow> Some (Some i, ram, init_slot path i pc)
      | None \<Rightarrow>
          if length (pcache_tab pc) < VFS_PCACHE_SOFT_MAX \<and> pe_push env
          then Some (Some (length (pcache_tab pc)), ram,
                     init_slot path (length (pcache_tab pc)) (pc\<lparr>pcache_tab := pcache_tab pc @ [pc_entry_zero]\<rparr>))
          else do { r \<leftarrow> vfs_pcache_evict_one ops ram pc;
                    Some (case free_slot (snd r) of
                            Some i \<Rightarrow> (Some i, fst r, init_slot path i (snd r))
                          | None \<Rightarrow> (None, fst r, snd r)) })"

definition vfs_pcache_ensure ::
  "(string \<Rightarrow> string \<Rightarrow> nat \<Rightarrow> int) \<Rightarrow> 's page_ops \<Rightarrow> pc_env \<Rightarrow> memory \<Rightarrow> vfs_inode \<Rightarrow> ramfs \<Rightarrow> 's vfs_pcache
    \<Rightarrow> (nat option \<times> ramfs \<times> 's vfs_pcache) option" where
  "vfs_pcache_ensure strcmp_s ops env m ino ram pc0 =
     (if is_dir ino \<or> i_size ino = 0 \<or> VFS_PCACHE_MAX_CACHED < i_size ino then Some (None, ram, pc0)
      else
        let norm = vfs_path_normalize (i_path ino) VFS_PATH_MAX;
            pc = vfs_pcache_tab_ensure env pc0 in
        case vfs_pcache_find strcmp_s norm pc of
          Some i \<Rightarrow> Some (Some i, ram, pc)
        | None \<Rightarrow>
            do { r \<leftarrow> vfs_pcache_alloc_slot ops env norm ram pc;
                 (case r of
                    (None, ram1, pc1) \<Rightarrow> Some (None, ram1, pc1)
                  | (Some i, ram1, pc1) \<Rightarrow>
                      do { f \<leftarrow> vfs_pcache_fill_from_inode ops env ram1 m (pcache_tab pc1 ! i) ino;
                           (case f of
                              (True, e) \<Rightarrow> Some (Some i, ram1, set_pc i e pc1)
                            | (False, e) \<Rightarrow> map_option (\<lambda>(ram2, pc2). (None, ram2, pc2)) (vfs_pcache_free_entry ops i ram1 (set_pc i e pc1))) }) })"

subsection \<open>Reading\<close>

text \<open>The result is a Linux error or the bytes stored in the caller's buffer.\<close>

definition vfs_pcache_read_direct :: "memory \<Rightarrow> vfs_inode \<Rightarrow> nat \<Rightarrow> nat \<Rightarrow> ramfs \<Rightarrow> (int + u8 list) option" where
  "vfs_pcache_read_direct m ino offset len0 ram =
     (if i_size ino \<le> offset then Some (Inr [])
      else
        let len = min len0 (i_size ino - offset) in
        if backend_caps ino AND VFS_BACKEND_CAP_WRITE_SOURCE \<noteq> 0 then
          (case vfs_inode_ramfs_storage ino of
             None \<Rightarrow> Some (Inl (- LINUX_EINVAL))
           | Some i \<Rightarrow> map_option (\<lambda>r. case r of Inl e \<Rightarrow> Inl (- LINUX_EINVAL) | Inr (n, d) \<Rightarrow> Inr d) (ramfs_read i offset len ram))
        else case cpio_rofs_read m \<lparr>c_mode = i_mode ino, c_size = of_nat (i_size ino), c_is_dir = is_dir ino, c_is_symlink = False,
                    c_data = (case storage ino of ST_CPIO a \<Rightarrow> Some a | _ \<Rightarrow> None), c_nlink = 0\<rparr> (of_nat offset) (of_nat len) of
            (Inl e, d) \<Rightarrow> Some (Inl (- LINUX_EINVAL))
          | (Inr n, d) \<Rightarrow> Some (Inr d))"

text \<open>The difference of two 64-bit numbers.\<close>

definition cached_avail :: "nat \<Rightarrow> nat \<Rightarrow> nat" where
  "cached_avail n offset = (2 ^ 64 + n - offset) mod 2 ^ 64"

definition vfs_page_cache_read_inode ::
  "(string \<Rightarrow> string \<Rightarrow> nat \<Rightarrow> int) \<Rightarrow> 's page_ops \<Rightarrow> pc_env \<Rightarrow> memory \<Rightarrow> vfs_inode \<Rightarrow> nat \<Rightarrow> nat \<Rightarrow> ramfs \<Rightarrow> 's vfs_pcache
    \<Rightarrow> ((int + u8 list) \<times> ramfs \<times> 's vfs_pcache) option" where
  "vfs_page_cache_read_inode strcmp_s ops env m ino offset len0 ram pc =
     (if is_dir ino then Some (Inl (- LINUX_EISDIR), ram, pc)
      else if i_size ino \<le> offset then Some (Inr [], ram, pc)
      else
        let len = min len0 (i_size ino - offset) in
        do { r \<leftarrow> vfs_pcache_ensure strcmp_s ops env m ino ram pc;
             (case r of
                (None, ram1, pc1) \<Rightarrow> map_option (\<lambda>d. (d, ram1, pc1)) (vfs_pcache_read_direct m ino offset len ram1)
              | (Some i, ram1, pc1) \<Rightarrow>
                  (case pc_slice (pcache_tab pc1 ! i) of
                     None \<Rightarrow> map_option (\<lambda>d. (d, ram1, pc1)) (vfs_pcache_read_direct m ino offset len ram1)
                   | Some s \<Rightarrow>
                       let pc2 = vfs_pcache_touch_file i pc1;
                           avail = cached_avail (pc_size (pcache_tab pc1 ! i)) offset;
                           n = (if avail < len then avail else len);
                           pc3 = set_pc i (vfs_pcache_touch_pages ops offset n (pcache_tab pc2 ! i)) pc2 in
                       (case pg_copy ops s offset n of
                          None \<Rightarrow> map_option (\<lambda>d. (d, ram1, pc3)) (vfs_pcache_read_direct m ino offset n ram1)
                        | Some d \<Rightarrow> Some (Inr d, ram1, pc3)))) })"

definition vfs_pcache_fill_owned_slice ::
  "'s page_ops \<Rightarrow> pc_env \<Rightarrow> memory \<Rightarrow> vfs_inode \<Rightarrow> ramfs \<Rightarrow> (unit + 's) option" where
  "vfs_pcache_fill_owned_slice ops env m ino ram =
     (if is_dir ino \<or> i_size ino = 0 then Some (Inl ())
      else do { k \<leftarrow> vfs_inode_source_kva ram ino;
                if k = K_NULL then Some (Inl ())
                else map_option fst (vfs_pcache_fill_slice_from_kva ops env (kva_read ram m k) (i_size ino)) })"

definition vfs_page_cache_clone_inode ::
  "(string \<Rightarrow> string \<Rightarrow> nat \<Rightarrow> int) \<Rightarrow> 's page_ops \<Rightarrow> pc_env \<Rightarrow> memory \<Rightarrow> vfs_inode \<Rightarrow> ramfs \<Rightarrow> 's vfs_pcache
    \<Rightarrow> ((int + 's) \<times> ramfs \<times> 's vfs_pcache) option" where
  "vfs_page_cache_clone_inode strcmp_s ops env m ino ram pc =
     (if is_dir ino then Some (Inl (- LINUX_EISDIR), ram, pc)
      else if i_size ino = 0 then Some (Inl (- LINUX_EINVAL), ram, pc)
      else
        let owned = (\<lambda>ram1 pc1. map_option (\<lambda>f. (case f of Inl u \<Rightarrow> Inl (- LINUX_ENOMEM) | Inr s \<Rightarrow> Inr s, ram1, pc1))
                       (vfs_pcache_fill_owned_slice ops env m ino ram1)) in
        if VFS_PCACHE_MAX_CACHED < i_size ino then owned ram pc
        else do { r \<leftarrow> vfs_pcache_ensure strcmp_s ops env m ino ram pc;
                  (case r of
                     (None, ram1, pc1) \<Rightarrow> owned ram1 pc1
                   | (Some i, ram1, pc1) \<Rightarrow>
                       (case pc_slice (pcache_tab pc1 ! i) of
                          None \<Rightarrow> owned ram1 pc1
                        | Some s \<Rightarrow> Some (case pg_clone ops s of None \<Rightarrow> Inl (- LINUX_ENOMEM) | Some s1 \<Rightarrow> Inr s1,
                                         ram1, vfs_pcache_touch_file i pc1))) })"

subsection \<open>Writing\<close>

fun write_loop :: "'s page_ops \<Rightarrow> nat \<Rightarrow> nat \<Rightarrow> u8 list \<Rightarrow> nat \<Rightarrow> 's vfs_pcache_entry \<Rightarrow> nat \<times> 's vfs_pcache_entry" where
  "write_loop ops 0 off buf cnt e = (cnt, e)"
| "write_loop ops (Suc n) off buf cnt e =
     (if buf = [] then (cnt, e)
      else case pc_slice e of
        None \<Rightarrow> (cnt, e)
      | Some s \<Rightarrow>
          (case pg_lookup ops s (pg_off ops off) of
             None \<Rightarrow> (cnt, e)
           | Some b \<Rightarrow>
               let inp = pg_in ops off;
                   chunk = min (pg_size ops - inp) (length buf);
                   e1 = e\<lparr>pc_slice := Some (pg_store ops s (pg_off ops off) (take inp b @ take chunk buf @ drop (inp + chunk) b))\<rparr> in
               write_loop ops n (off + chunk) (drop chunk buf) (cnt + chunk) (vfs_pcache_touch_page (pg_off ops off) e1)))"

definition vfs_pcache_write_entry :: "'s page_ops \<Rightarrow> nat \<Rightarrow> nat \<Rightarrow> u8 list \<Rightarrow> 's vfs_pcache \<Rightarrow> int \<times> 's vfs_pcache" where
  "vfs_pcache_write_entry ops i offset buf pc =
     (if pc_slice (pcache_tab pc ! i) = None \<or> buf = [] then (- LINUX_EINVAL, pc)
      else
        let pc1 = vfs_pcache_touch_file i pc;
            e = pcache_tab pc1 ! i in
        if pc_size e \<le> offset then (0, pc1)
        else
          let buf1 = (if pc_size e < (offset + length buf) mod 2 ^ 64 then take (pc_size e - offset) buf else buf);
              r = write_loop ops (length buf1) offset buf1 0 e in
          (int (fst r), set_pc i ((snd r)\<lparr>pc_dirty := True\<rparr>) pc1))"

definition vfs_page_cache_write_inode ::
  "(string \<Rightarrow> string \<Rightarrow> nat \<Rightarrow> int) \<Rightarrow> 's page_ops \<Rightarrow> pc_env \<Rightarrow> memory \<Rightarrow> vfs_inode \<Rightarrow> nat \<Rightarrow> u8 list \<Rightarrow> ramfs \<Rightarrow> 's vfs_pcache
    \<Rightarrow> (int \<times> ramfs \<times> 's vfs_pcache) option" where
  "vfs_page_cache_write_inode strcmp_s ops env m ino offset buf ram pc =
     (if is_dir ino then Some (- LINUX_EISDIR, ram, pc)
      else if buf = [] then Some (0, ram, pc)
      else do { r \<leftarrow> vfs_pcache_ensure strcmp_s ops env m ino ram pc;
                Some (case r of
                  (None, ram1, pc1) \<Rightarrow> (- LINUX_ENOMEM, ram1, pc1)
                | (Some i, ram1, pc1) \<Rightarrow>
                    if pc_slice (pcache_tab pc1 ! i) = None then (- LINUX_ENOMEM, ram1, pc1)
                    else (case vfs_pcache_write_entry ops i offset buf pc1 of (ret, pc2) \<Rightarrow> (ret, ram1, pc2))) })"

definition vfs_page_cache_sync_write ::
  "(string \<Rightarrow> string \<Rightarrow> nat \<Rightarrow> int) \<Rightarrow> 's page_ops \<Rightarrow> pc_env \<Rightarrow> vfs_inode \<Rightarrow> nat \<Rightarrow> u8 list \<Rightarrow> 's vfs_pcache \<Rightarrow> 's vfs_pcache" where
  "vfs_page_cache_sync_write strcmp_s ops env ino offset buf pc0 =
     (if buf = [] then pc0
      else
        let pc = vfs_pcache_tab_ensure env pc0 in
        case vfs_pcache_find strcmp_s (vfs_path_normalize (i_path ino) VFS_PATH_MAX) pc of
          None \<Rightarrow> pc
        | Some i \<Rightarrow> if pc_slice (pcache_tab pc ! i) = None then pc else snd (vfs_pcache_write_entry ops i offset buf pc))"

definition vfs_page_cache_flush_backing ::
  "(string \<Rightarrow> string \<Rightarrow> nat \<Rightarrow> int) \<Rightarrow> 's page_ops \<Rightarrow> pc_env \<Rightarrow> vfs_inode \<Rightarrow> ramfs \<Rightarrow> 's vfs_pcache \<Rightarrow> (ramfs \<times> 's vfs_pcache) option" where
  "vfs_page_cache_flush_backing strcmp_s ops env ino ram pc0 =
     (let pc = vfs_pcache_tab_ensure env pc0 in
      case vfs_pcache_find strcmp_s (vfs_path_normalize (i_path ino) VFS_PATH_MAX) pc of
        None \<Rightarrow> Some (ram, pc)
      | Some i \<Rightarrow>
          if backend_caps ino AND VFS_BACKEND_CAP_FLUSH_DROP \<noteq> 0 then vfs_pcache_free_entry ops i ram pc
          else map_option (\<lambda>(ok, ram1, e). (ram1, set_pc i e pc)) (vfs_pcache_flush_entry ops ram (pcache_tab pc ! i)))"

definition vfs_page_cache_drop_backing ::
  "(string \<Rightarrow> string \<Rightarrow> nat \<Rightarrow> int) \<Rightarrow> 's page_ops \<Rightarrow> pc_env \<Rightarrow> vfs_inode \<Rightarrow> ramfs \<Rightarrow> 's vfs_pcache \<Rightarrow> (ramfs \<times> 's vfs_pcache) option" where
  "vfs_page_cache_drop_backing strcmp_s ops env ino = vfs_page_cache_drop strcmp_s ops env (i_path ino)"

end
