(* ===== verification/Page_Cache_Inv.thy ===== *)
theory Page_Cache_Inv
  imports Page_Cache
begin

text \<open>
  What a page slice promises, and the invariant of the page cache: the lists hold exactly the valid
  entries, every cached slice is complete, and the cached bytes of a ramfs file are its contents.
\<close>

section \<open>The contents of a slice\<close>

definition slice_byte :: "'s page_ops \<Rightarrow> 's \<Rightarrow> nat \<Rightarrow> u8" where
  "slice_byte ops s k = the (pg_lookup ops s (k div pg_size ops)) ! (k mod pg_size ops)"

definition slice_data :: "'s page_ops \<Rightarrow> 's \<Rightarrow> nat \<Rightarrow> u8 list" where
  "slice_data ops s n = map (slice_byte ops s) [0..<n]"

text \<open>A slice of \<open>n\<close> bytes all of whose pages are present.\<close>

definition slice_ok :: "'s page_ops \<Rightarrow> 's \<Rightarrow> nat \<Rightarrow> bool" where
  "slice_ok ops s n \<longleftrightarrow> pg_len ops s = n
     \<and> (\<forall>g. g * pg_size ops < n \<longrightarrow> (\<exists>b. pg_lookup ops s g = Some b \<and> length b = pg_size ops))"

definition replaced :: "nat \<Rightarrow> u8 list \<Rightarrow> u8 list \<Rightarrow> u8 list" where
  "replaced off d D = take off D @ d @ drop (off + length d) D"

definition pages_ok :: "'s page_ops \<Rightarrow> 's vfs_pcache_entry \<Rightarrow> bool" where
  "pages_ok ops e \<longleftrightarrow> (\<forall>g \<in> set (pages_active e) \<union> set (pages_inactive e). \<exists>s. pc_slice e = Some s \<and> pg_lookup ops s g \<noteq> None)"

definition same_file :: "'s vfs_pcache_entry \<Rightarrow> 's vfs_pcache_entry \<Rightarrow> bool" where
  "same_file e e' \<longleftrightarrow> pc_path e' = pc_path e \<and> pc_size e' = pc_size e \<and> pc_caps e' = pc_caps e \<and> pc_storage e' = pc_storage e
     \<and> pc_valid e' = pc_valid e"

text \<open>The cached bytes of a ramfs file are its contents; the entries of a backend that drops its cache are free.\<close>

definition entry_coherent :: "'s page_ops \<Rightarrow> ramfs \<Rightarrow> 's vfs_pcache_entry \<Rightarrow> bool" where
  "entry_coherent ops ram e \<longleftrightarrow> (\<forall>s. pc_slice e = Some s \<longrightarrow> slice_ok ops s (pc_size e)
     \<and> (pc_caps e AND VFS_BACKEND_CAP_FLUSH_DROP \<noteq> 0
        \<or> pc_caps e AND VFS_BACKEND_CAP_WRITE_SOURCE \<noteq> 0
          \<and> (\<exists>j. pc_storage e = ST_RAMFS j \<and> j < length (ents ram) \<and> r_alive (ents ram ! j) \<and> r_path (ents ram ! j) = pc_path e
               \<and> pc_size e = r_size (ents ram ! j) \<and> 0 < pc_size e \<and> slice_data ops s (pc_size e) = content ram j)))"

definition lru_ok :: "'s vfs_pcache \<Rightarrow> bool" where
  "lru_ok pc \<longleftrightarrow> distinct (pcache_active pc @ pcache_inactive pc)
     \<and> set (pcache_active pc @ pcache_inactive pc) = {i. i < length (pcache_tab pc) \<and> pc_valid (pcache_tab pc ! i)}"

definition pc_entry_ok :: "'s page_ops \<Rightarrow> ramfs \<Rightarrow> 's vfs_pcache_entry \<Rightarrow> bool" where
  "pc_entry_ok ops ram e \<longleftrightarrow> pages_ok ops e \<and> entry_coherent ops ram e \<and> vfs_path_normalize (pc_path e) VFS_PATH_MAX = pc_path e"

definition pc_inv :: "'s page_ops \<Rightarrow> ramfs \<Rightarrow> 's vfs_pcache \<Rightarrow> bool" where
  "pc_inv ops ram pc \<longleftrightarrow> lru_ok pc \<and> length (pcache_tab pc) \<le> VFS_PCACHE_SOFT_MAX \<and> (\<not> pcache_ready pc \<longrightarrow> pcache_tab pc = [])
     \<and> (\<forall>i < length (pcache_tab pc). pc_valid (pcache_tab pc ! i) \<longrightarrow> pc_entry_ok ops ram (pcache_tab pc ! i))
     \<and> (\<forall>i < length (pcache_tab pc). \<forall>j < length (pcache_tab pc). pc_valid (pcache_tab pc ! i) \<longrightarrow> pc_valid (pcache_tab pc ! j)
          \<longrightarrow> pc_path (pcache_tab pc ! i) = pc_path (pcache_tab pc ! j) \<longrightarrow> i = j)"

locale page_slice_bytes =
  fixes ops :: "'s page_ops"
  assumes size_pos: "0 < pg_size ops"
    and count_def: "pg_count ops n = (n + pg_size ops - 1) div pg_size ops"
    and off_def: "pg_off ops k = k div pg_size ops" and in_def: "pg_in ops k = k mod pg_size ops"
    and create: "pg_create ops n = Some s \<Longrightarrow> pg_len ops s = n \<and> pg_lookup ops s g = None"
    and insert: "pg_insert ops s g b = (True, s') \<Longrightarrow> pg_len ops s' = pg_len ops s \<and> pg_lookup ops s' = (pg_lookup ops s)(g \<mapsto> b)"
    and store: "pg_lookup ops s g \<noteq> None \<Longrightarrow>
      pg_len ops (pg_store ops s g b) = pg_len ops s \<and> pg_lookup ops (pg_store ops s g b) = (pg_lookup ops s)(g \<mapsto> b)"
    and copy: "slice_ok ops s n \<Longrightarrow> off + len \<le> n \<Longrightarrow> pg_copy ops s off len = Some (map (slice_byte ops s) [off..<off + len])"
begin

lemma page_of: "k < n \<Longrightarrow> (k div pg_size ops) * pg_size ops < n"
  by (meson div_times_less_eq_dividend le_less_trans)

lemma length_slice_data [simp]: "length (slice_data ops s n) = n"
  by (simp add: slice_data_def)

lemma copy_data: "slice_ok ops s n \<Longrightarrow> off + len \<le> n \<Longrightarrow> pg_copy ops s off len = Some (take len (drop off (slice_data ops s n)))"
  by (simp add: copy slice_data_def take_map drop_map)

lemma count_iff: "g < pg_count ops n \<longleftrightarrow> g * pg_size ops < n"
proof -
  have "Suc g \<le> (n + pg_size ops - 1) div pg_size ops \<longleftrightarrow> Suc g * pg_size ops \<le> n + pg_size ops - 1"
    by (rule less_eq_div_iff_mult_less_eq [OF size_pos])
  then show ?thesis unfolding count_def Suc_le_eq using size_pos by auto
qed

lemma slice_dataI:
  assumes "\<And>g. g * pg_size ops < length D \<Longrightarrow> \<exists>b. pg_lookup ops s g = Some b
    \<and> (\<forall>j < pg_size ops. g * pg_size ops + j < length D \<longrightarrow> b ! j = D ! (g * pg_size ops + j))"
  shows "slice_data ops s (length D) = D"
proof (rule nth_equalityI)
  fix k assume "k < length (slice_data ops s (length D))"
  then have k: "k < length D" by simp
  obtain b where b: "pg_lookup ops s (k div pg_size ops) = Some b"
    "\<forall>j < pg_size ops. (k div pg_size ops) * pg_size ops + j < length D \<longrightarrow> b ! j = D ! ((k div pg_size ops) * pg_size ops + j)"
    using assms [OF page_of [OF k]] by blast
  have "b ! (k mod pg_size ops) = D ! k" using b(2) [rule_format, of "k mod pg_size ops"] size_pos k by simp
  then show "slice_data ops s (length D) ! k = D ! k" using k b(1) by (simp add: slice_data_def slice_byte_def)
qed simp

text \<open>Filling copies the source.\<close>

lemma fill_pages_ok:
  assumes env: "\<forall>g. pe_page env g" and ins: "\<forall>s g b. fst (pg_insert ops s g b)"
    and src: "\<And>off len. off + len \<le> length D \<Longrightarrow> src off len = Some (take len (drop off D))"
    and gs: "gs = [k..<pg_count ops (length D)]" and s: "pg_len ops s = length D"
    and before: "\<forall>g < k. \<exists>b. pg_lookup ops s g = Some b \<and> length b = pg_size ops
          \<and> (\<forall>j < pg_size ops. g * pg_size ops + j < length D \<longrightarrow> b ! j = D ! (g * pg_size ops + j))"
  shows "\<exists>s'. fill_pages ops env src (length D) gs s linked = Some (Inr s', linked @ gs) \<and> slice_ok ops s' (length D)
    \<and> slice_data ops s' (length D) = D"
  using gs s before
proof (induction gs arbitrary: k s linked)
  case Nil
  have le: "pg_count ops (length D) \<le> k" using Nil.prems(1) [symmetric] by auto
  have below: "g < k" if "g * pg_size ops < length D" for g using that le by (simp add: count_iff [symmetric])
  have "slice_ok ops s (length D)" using Nil.prems(2,3) below unfolding slice_ok_def by blast
  moreover have "slice_data ops s (length D) = D" by (rule slice_dataI) (use Nil.prems(3) below in blast)
  ultimately show ?case by simp
next
  case (Cons g gs)
  have k: "g = k" "k < pg_count ops (length D)" "gs = [Suc k..<pg_count ops (length D)]"
    using Cons.prems(1) [symmetric] by (auto simp: upt_eq_Cons_conv)
  let ?off = "g * pg_size ops"
  let ?n = "if length D < ?off + pg_size ops then length D - ?off else pg_size ops"
  have off: "?off < length D" using k by (simp add: count_iff)
  then have le: "?off + ?n \<le> length D" by simp
  let ?b = "take ?n (drop ?off D) @ replicate (pg_size ops - ?n) 0"
  have lb: "length ?b = pg_size ops" using off by auto
  have "fst (pg_insert ops s g ?b)" using ins by blast
  then obtain s1 where s1: "pg_insert ops s g ?b = (True, s1)" by (cases "pg_insert ops s g ?b") auto
  note I = insert [OF s1]
  have bytes: "?b ! j = D ! (?off + j)" if "j < pg_size ops" "?off + j < length D" for j
    using that by (auto simp: nth_append)
  have before': "\<exists>b. pg_lookup ops s1 h = Some b \<and> length b = pg_size ops
      \<and> (\<forall>j < pg_size ops. h * pg_size ops + j < length D \<longrightarrow> b ! j = D ! (h * pg_size ops + j))" if "h < Suc k" for h
    using that Cons.prems(3) k(1) I lb bytes by (cases "h = k") auto
  obtain s' where s': "fill_pages ops env src (length D) gs s1 (linked @ [g]) = Some (Inr s', (linked @ [g]) @ gs)"
      "slice_ok ops s' (length D)" "slice_data ops s' (length D) = D"
    using Cons.IH [OF k(3), of s1 "linked @ [g]"] I Cons.prems(2) before' by auto
  have "fill_pages ops env src (length D) (g # gs) s linked = fill_pages ops env src (length D) gs s1 (linked @ [g])"
    using env src [OF le] s1 I by (simp add: Let_def)
  then show ?case using s' by simp
qed

lemma fill_slice_ok:
  assumes env: "\<forall>g. pe_page env g" and ins: "\<forall>s g b. fst (pg_insert ops s g b)" and cr: "\<forall>n. pg_create ops n \<noteq> None"
    and src: "\<And>off len. off + len \<le> length D \<Longrightarrow> src off len = Some (take len (drop off D))" and D: "D \<noteq> []"
  shows "\<exists>s'. vfs_pcache_fill_slice_from_kva ops env src (length D) = Some (Inr s', [0..<pg_count ops (length D)])
    \<and> slice_ok ops s' (length D) \<and> slice_data ops s' (length D) = D"
proof -
  obtain s where s: "pg_create ops (length D) = Some s" using cr by blast
  have "\<exists>s'. fill_pages ops env src (length D) [0..<pg_count ops (length D)] s [] = Some (Inr s', [] @ [0..<pg_count ops (length D)])
    \<and> slice_ok ops s' (length D) \<and> slice_data ops s' (length D) = D"
    by (rule fill_pages_ok [OF env ins src refl]) (use create [OF s] in simp_all)
  then show ?thesis using s D by (simp add: vfs_pcache_fill_slice_from_kva_def)
qed

text \<open>Storing a chunk that lies in one page.\<close>

lemma store_byte:
  assumes b: "pg_lookup ops s (off div pg_size ops) = Some b" "length b = pg_size ops"
    and c: "off mod pg_size ops + length d \<le> pg_size ops"
    and s': "s' = pg_store ops s (off div pg_size ops)
      (take (off mod pg_size ops) b @ d @ drop (off mod pg_size ops + length d) b)"
  shows "slice_byte ops s' k = (if off \<le> k \<and> k < off + length d then d ! (k - off) else slice_byte ops s k)"
proof -
  let ?P = "pg_size ops" and ?g = "off div pg_size ops" and ?i = "off mod pg_size ops"
  have L: "pg_lookup ops s' = (pg_lookup ops s)(?g \<mapsto> take ?i b @ d @ drop (?i + length d) b)"
    using store [of s ?g] b(1) s' by simp
  have off: "off = ?g * ?P + ?i" and kk: "k = (k div ?P) * ?P + k mod ?P" by simp_all
  show ?thesis
  proof (cases "k div ?P = ?g")
    case True
    have kk': "k = ?g * ?P + k mod ?P" using kk True by simp
    have arith: "(A + m) - (A + i) = m - i \<and> (A + i \<le> A + m \<longleftrightarrow> i \<le> m) \<and> (A + m < A + i + l \<longleftrightarrow> m < i + l)" for A m i l :: nat
      by auto
    have sub: "k - off = k mod ?P - ?i" and le: "off \<le> k \<longleftrightarrow> ?i \<le> k mod ?P" and lt: "k < off + length d \<longleftrightarrow> k mod ?P < ?i + length d"
      using arith [of "?g * ?P" "k mod ?P" ?i "length d"] off kk' by metis+
    have km: "k mod ?P < ?P" by (rule mod_less_divisor [OF size_pos])
    have ib: "?i \<le> length b" using b(2) size_pos by (simp add: less_imp_le)
    show ?thesis unfolding slice_byte_def L True le lt sub
      using b km ib c by (auto simp: nth_append min_def not_less)
  next
    case False
    have "\<not> (off \<le> k \<and> k < off + length d)"
    proof
      assume a: "off \<le> k \<and> k < off + length d"
      then have "?g * ?P \<le> k" "k < ?g * ?P + ?P" using off c by linarith+
      then have "k div ?P = ?g" by (metis add.commute div_nat_eqI mult.commute mult_Suc_right)
      then show False using False by simp
    qed
    then show ?thesis unfolding slice_byte_def L using False by auto
  qed
qed

lemma replaced_nth:
  assumes "off + length d \<le> length D" "k < length D"
  shows "replaced off d D ! k = (if off \<le> k \<and> k < off + length d then d ! (k - off) else D ! k)"
  using assms by (auto simp: replaced_def nth_append min_def)

lemma length_replaced [simp]: "off + length d \<le> length D \<Longrightarrow> length (replaced off d D) = length D"
  by (simp add: replaced_def)

lemma replaced_replaced:
  assumes "off + length d + length d' \<le> length D"
  shows "replaced (off + length d) d' (replaced off d D) = replaced off (d @ d') D"
  using assms by (simp add: replaced_def ac_simps)

lemma store_chunk:
  assumes ok: "slice_ok ops s N" and d: "d \<noteq> []" "off + length d \<le> N" and b: "pg_lookup ops s (off div pg_size ops) = Some b"
    and c: "off mod pg_size ops + length d \<le> pg_size ops"
    and s': "s' = pg_store ops s (off div pg_size ops)
      (take (off mod pg_size ops) b @ d @ drop (off mod pg_size ops + length d) b)"
  shows "slice_ok ops s' N \<and> slice_data ops s' N = replaced off d (slice_data ops s N)
    \<and> (\<forall>g. pg_lookup ops s' g = None \<longleftrightarrow> pg_lookup ops s g = None)"
proof -
  have "off < N" using d by (cases d) auto
  then have lb: "length b = pg_size ops" using ok b page_of [of off N] by (auto simp: slice_ok_def)
  note L = store [of s "off div pg_size ops"]
  have "length (take (off mod pg_size ops) b @ d @ drop (off mod pg_size ops + length d) b) = pg_size ops"
    using lb c by simp
  then have "slice_ok ops s' N" using ok L b s' unfolding slice_ok_def by auto
  moreover have "slice_data ops s' N = replaced off d (slice_data ops s N)"
  proof (rule nth_equalityI)
    show "length (slice_data ops s' N) = length (replaced off d (slice_data ops s N))" using d by simp
    fix k assume "k < length (slice_data ops s' N)"
    then have "k < N" by simp
    then show "slice_data ops s' N ! k = replaced off d (slice_data ops s N) ! k"
      using d store_byte [OF b lb c s', of k] by (simp add: replaced_nth slice_data_def)
  qed
  moreover have "\<forall>g. pg_lookup ops s' g = None \<longleftrightarrow> pg_lookup ops s g = None" using L b s' by auto
  ultimately show ?thesis by blast
qed

lemma touch_page_simps [simp]:
  "pc_slice (vfs_pcache_touch_page g e) = pc_slice e" "same_file e0 (vfs_pcache_touch_page g e) \<longleftrightarrow> same_file e0 e"
  "pc_dirty (vfs_pcache_touch_page g e) = pc_dirty e"
  "pages_ok ops e \<Longrightarrow> (\<exists>s. pc_slice e = Some s \<and> pg_lookup ops s g \<noteq> None) \<Longrightarrow> pages_ok ops (vfs_pcache_touch_page g e)"
  by (auto simp: vfs_pcache_touch_page_def pages_ok_def same_file_def)

lemma write_loop_ok:
  assumes "pc_slice e = Some s" "slice_ok ops s N" "off + length buf \<le> N" "length buf \<le> n" "pages_ok ops e"
  shows "\<exists>e' s'. write_loop ops n off buf cnt e = (cnt + length buf, e') \<and> pc_slice e' = Some s' \<and> slice_ok ops s' N
    \<and> slice_data ops s' N = replaced off buf (slice_data ops s N) \<and> pages_ok ops e' \<and> same_file e e'"
  using assms
proof (induction n arbitrary: off buf cnt e s)
  case 0
  then show ?case by (auto simp: replaced_def same_file_def)
next
  case (Suc n)
  show ?case
  proof (cases "buf = []")
    case True
    then show ?thesis using Suc.prems by (auto simp: replaced_def same_file_def)
  next
    case False
    let ?P = "pg_size ops" and ?g = "off div pg_size ops" and ?i = "off mod pg_size ops"
    define c where "c = min (?P - ?i) (length buf)"
    define d where "d = take c buf"
    have "off < N" using Suc.prems(3) False by (cases buf) auto
    then obtain b where b: "pg_lookup ops s ?g = Some b" using Suc.prems(2) page_of [of off N] by (auto simp: slice_ok_def)
    have "?i < ?P" by (rule mod_less_divisor [OF size_pos])
    then have c: "0 < c" "c \<le> length buf" "?i + c \<le> ?P" using False by (auto simp: c_def)
    have d: "d \<noteq> []" "length d = c" "d @ drop c buf = buf" using c False by (auto simp: d_def)
    define s1 where "s1 = pg_store ops s ?g (take ?i b @ d @ drop (?i + length d) b)"
    define e1 where "e1 = e\<lparr>pc_slice := Some s1\<rparr>"
    define e2 where "e2 = vfs_pcache_touch_page ?g e1"
    have S: "slice_ok ops s1 N" "slice_data ops s1 N = replaced off d (slice_data ops s N)"
        "\<And>g. pg_lookup ops s1 g = None \<longleftrightarrow> pg_lookup ops s g = None"
      using store_chunk [OF Suc.prems(2) d(1) _ b _ s1_def] d(2) c Suc.prems(3) by auto
    have "pages_ok ops e1" using Suc.prems(1,5) S(3) by (simp add: e1_def pages_ok_def del: not_None_eq)
    moreover have "\<exists>s. pc_slice e1 = Some s \<and> pg_lookup ops s ?g \<noteq> None" using S(3) b by (simp add: e1_def del: not_None_eq)
    ultimately have p2: "pages_ok ops e2" unfolding e2_def by (rule touch_page_simps(4))
    have h: "pc_slice e2 = Some s1" "off + c + length (drop c buf) \<le> N" "length (drop c buf) \<le> n"
      using c Suc.prems(3,4) by (simp_all add: e2_def e1_def)
    obtain e' s' where ih: "write_loop ops n (off + c) (drop c buf) (cnt + c) e2 = (cnt + c + length (drop c buf), e')"
        "pc_slice e' = Some s'" "slice_ok ops s' N"
        "slice_data ops s' N = replaced (off + c) (drop c buf) (slice_data ops s1 N)" "pages_ok ops e'" "same_file e2 e'"
      using Suc.IH [OF h(1) S(1) h(2,3) p2, of "cnt + c"] by blast
    have "write_loop ops (Suc n) off buf cnt e = write_loop ops n (off + c) (drop c buf) (cnt + c) e2"
      using Suc.prems(1) False b d(2) by (simp add: off_def in_def Let_def e2_def e1_def s1_def c_def d_def)
    moreover have "slice_data ops s' N = replaced off buf (slice_data ops s N)"
      unfolding ih(4) S(2) using replaced_replaced [of off d "drop c buf" "slice_data ops s N"] c d Suc.prems(3) by simp
    moreover have "same_file e e'" using ih(6) by (simp add: same_file_def vfs_pcache_touch_page_def e2_def e1_def)
    ultimately show ?thesis using ih c by auto
  qed
qed

lemma touch_loop_ok: "pages_ok ops e \<Longrightarrow> pc_slice e = Some s \<Longrightarrow>
    pages_ok ops (touch_loop ops s n off len e) \<and> same_file e (touch_loop ops s n off len e)
    \<and> pc_slice (touch_loop ops s n off len e) = Some s \<and> pc_dirty (touch_loop ops s n off len e) = pc_dirty e"
proof (induction n arbitrary: off len e)
  case (Suc n)
  show ?case
  proof (cases "len = 0 \<or> pg_lookup ops s (pg_off ops off) = None")
    case False
    then show ?thesis
      using Suc.IH [of "vfs_pcache_touch_page (pg_off ops off) e"] Suc.prems touch_page_simps(4) [of e "pg_off ops off"]
      by (auto simp: Let_def same_file_def vfs_pcache_touch_page_def)
  qed (use Suc.prems in \<open>auto simp: same_file_def split: option.splits\<close>)
qed (simp add: same_file_def)

end

section \<open>The cache keeps its invariant\<close>

locale cached_fs = page_slice_bytes ops + strcmp_api scmp
  for ops :: "'s page_ops" and scmp
begin

lemma pc_invD:
  assumes "pc_inv ops ram pc"
  shows "lru_ok pc" "length (pcache_tab pc) \<le> VFS_PCACHE_SOFT_MAX" "\<not> pcache_ready pc \<Longrightarrow> pcache_tab pc = []"
    "i < length (pcache_tab pc) \<Longrightarrow> pc_valid (pcache_tab pc ! i) \<Longrightarrow> pc_entry_ok ops ram (pcache_tab pc ! i)"
    "i < length (pcache_tab pc) \<Longrightarrow> j < length (pcache_tab pc) \<Longrightarrow> pc_valid (pcache_tab pc ! i) \<Longrightarrow> pc_valid (pcache_tab pc ! j)
       \<Longrightarrow> pc_path (pcache_tab pc ! i) = pc_path (pcache_tab pc ! j) \<Longrightarrow> i = j"
  using assms unfolding pc_inv_def by blast+

lemma pc_invI:
  assumes "lru_ok pc" "length (pcache_tab pc) \<le> VFS_PCACHE_SOFT_MAX" "\<not> pcache_ready pc \<Longrightarrow> pcache_tab pc = []"
    "\<And>i. i < length (pcache_tab pc) \<Longrightarrow> pc_valid (pcache_tab pc ! i) \<Longrightarrow> pc_entry_ok ops ram (pcache_tab pc ! i)"
    "\<And>i j. i < length (pcache_tab pc) \<Longrightarrow> j < length (pcache_tab pc) \<Longrightarrow> pc_valid (pcache_tab pc ! i) \<Longrightarrow> pc_valid (pcache_tab pc ! j)
       \<Longrightarrow> pc_path (pcache_tab pc ! i) = pc_path (pcache_tab pc ! j) \<Longrightarrow> i = j"
  shows "pc_inv ops ram pc"
  unfolding pc_inv_def using assms by blast

lemma tab_ensure_inv:
  assumes "pc_inv ops ram pc"
  shows "pc_inv ops ram (vfs_pcache_tab_ensure env pc)"
    and "pcache_tab (vfs_pcache_tab_ensure env pc) = pcache_tab pc"
  using pc_invD(1-3) [OF assms] assms by (auto simp: vfs_pcache_tab_ensure_def pc_inv_def lru_ok_def)

lemma find_eq:
  assumes inv: "pc_inv ops ram pc" and i: "i < length (pcache_tab pc)" "pc_valid (pcache_tab pc ! i)"
  shows "scmp (pc_path (pcache_tab pc ! i)) (vfs_path_normalize p VFS_PATH_MAX) VFS_PATH_MAX = 0
      \<longleftrightarrow> pc_path (pcache_tab pc ! i) = vfs_path_normalize p VFS_PATH_MAX"
proof -
  have "vfs_path_normalize (pc_path (pcache_tab pc ! i)) VFS_PATH_MAX = pc_path (pcache_tab pc ! i)"
    using pc_invD(4) [OF inv i] by (simp add: pc_entry_ok_def)
  then have "length (pc_path (pcache_tab pc ! i)) \<le> 256" using length_normalize [of 256 "pc_path (pcache_tab pc ! i)"] by simp
  then show ?thesis using length_normalize [of 256 p] by (intro scmp_zero_short) simp_all
qed

lemma find_None:
  assumes inv: "pc_inv ops ram pc" and f: "vfs_pcache_find scmp (vfs_path_normalize p VFS_PATH_MAX) pc = None"
    and i: "i < length (pcache_tab pc)" "pc_valid (pcache_tab pc ! i)"
  shows "pc_path (pcache_tab pc ! i) \<noteq> vfs_path_normalize p VFS_PATH_MAX"
  using f i find_eq [OF inv i, of p] by (auto simp: vfs_pcache_find_def find_None_iff)

lemma find_Some:
  assumes inv: "pc_inv ops ram pc" and f: "vfs_pcache_find scmp (vfs_path_normalize p VFS_PATH_MAX) pc = Some i"
  shows "i < length (pcache_tab pc)" "pc_valid (pcache_tab pc ! i)" "pc_path (pcache_tab pc ! i) = vfs_path_normalize p VFS_PATH_MAX"
proof -
  show i: "i < length (pcache_tab pc)" "pc_valid (pcache_tab pc ! i)"
    using f by (auto simp: vfs_pcache_find_def find_Some_iff)
  show "pc_path (pcache_tab pc ! i) = vfs_path_normalize p VFS_PATH_MAX"
    using f find_eq [OF inv i, of p] by (auto simp: vfs_pcache_find_def find_Some_iff)
qed

lemma set_pc_simps [simp]:
  "pcache_tab (set_pc i e pc) = (pcache_tab pc)[i := e]" "pcache_ready (set_pc i e pc) = pcache_ready pc"
  "pcache_active (set_pc i e pc) = pcache_active pc" "pcache_inactive (set_pc i e pc) = pcache_inactive pc"
  by (simp_all add: set_pc_def)

lemma set_pc_inv:
  assumes inv: "pc_inv ops ram pc" and i: "i < length (pcache_tab pc)" "pc_valid (pcache_tab pc ! i)"
    and e: "pc_valid e" "pc_path e = pc_path (pcache_tab pc ! i)" "pc_entry_ok ops ram e"
  shows "pc_inv ops ram (set_pc i e pc)"
proof (rule pc_invI)
  note D = pc_invD [OF inv]
  show "lru_ok (set_pc i e pc)" using D(1) i e(1) by (auto simp: lru_ok_def nth_list_update)
  show "length (pcache_tab (set_pc i e pc)) \<le> VFS_PCACHE_SOFT_MAX" using D(2) by simp
  show "pcache_tab (set_pc i e pc) = []" if "\<not> pcache_ready (set_pc i e pc)" using D(3) that by simp
  show "pc_entry_ok ops ram (pcache_tab (set_pc i e pc) ! k)"
    if "k < length (pcache_tab (set_pc i e pc))" "pc_valid (pcache_tab (set_pc i e pc) ! k)" for k
    using that D(4) [of k] e i by (cases "k = i") (auto simp: nth_list_update)
  show "k = l" if "k < length (pcache_tab (set_pc i e pc))" "l < length (pcache_tab (set_pc i e pc))"
    "pc_valid (pcache_tab (set_pc i e pc) ! k)" "pc_valid (pcache_tab (set_pc i e pc) ! l)"
    "pc_path (pcache_tab (set_pc i e pc) ! k) = pc_path (pcache_tab (set_pc i e pc) ! l)" for k l
    using that D(5) [of k l] e i by (cases "k = i"; cases "l = i") simp_all
qed

text \<open>Moving entries between the lists.\<close>

lemma relist_inv:
  assumes inv: "pc_inv ops ram pc" and s: "pcache_tab pc' = pcache_tab pc" "pcache_ready pc' = pcache_ready pc"
    "distinct (pcache_active pc' @ pcache_inactive pc')"
    "set (pcache_active pc' @ pcache_inactive pc') = set (pcache_active pc @ pcache_inactive pc)"
  shows "pc_inv ops ram pc'"
proof -
  have "lru_ok pc'" using pc_invD(1) [OF inv] s(3,4) unfolding lru_ok_def s(1) by simp
  then show ?thesis using inv unfolding pc_inv_def s(1,2) by blast
qed

lemma touch_file_inv:
  assumes "pc_inv ops ram pc" "i < length (pcache_tab pc)" "pc_valid (pcache_tab pc ! i)"
  shows "pc_inv ops ram (vfs_pcache_touch_file i pc)" "pcache_tab (vfs_pcache_touch_file i pc) = pcache_tab pc"
proof -
  have l: "distinct (pcache_active pc @ pcache_inactive pc)" "i \<in> set (pcache_active pc @ pcache_inactive pc)"
    using pc_invD(1) [OF assms(1)] assms(2,3) by (auto simp: lru_ok_def)
  show "pc_inv ops ram (vfs_pcache_touch_file i pc)"
    by (rule relist_inv [OF assms(1)]) (use assms(3) l in \<open>auto simp: vfs_pcache_touch_file_def distinct_removeAll\<close>)
  show "pcache_tab (vfs_pcache_touch_file i pc) = pcache_tab pc" by (simp add: vfs_pcache_touch_file_def)
qed

text \<open>Writing back a coherent entry changes nothing but its dirty flag.\<close>

lemma rewrite_same:
  assumes inv: "ramfs_inv ram" and j: "j < length (ents ram)" "r_alive (ents ram ! j)" and a: "r_data (ents ram ! j) = Some a"
    and n: "n = r_size (ents ram ! j)"
  shows "mem_write (heap ram) a 0 (content ram j) = Some (heap ram)"
    and "set_entry j ((ents ram ! j)\<lparr>r_size := n\<rparr>) (ram\<lparr>heap := heap ram\<rparr>) = ram"
proof -
  obtain b where b: "heap ram a = Some b" "r_size (ents ram ! j) \<le> length b"
    using inv_entry [OF inv j] a by (auto simp: entry_ok_def)
  show "mem_write (heap ram) a 0 (content ram j) = Some (heap ram)"
    using a b by (simp add: mem_write_def content_def min_def fun_upd_idem)
  have "(ents ram ! j)\<lparr>r_size := n\<rparr> = ents ram ! j" using n by simp
  then have "(ents ram)[j := (ents ram ! j)\<lparr>r_size := n\<rparr>] = ents ram" by simp
  then show "set_entry j ((ents ram ! j)\<lparr>r_size := n\<rparr>) (ram\<lparr>heap := heap ram\<rparr>) = ram" by (simp add: set_entry_def)
qed

lemma content_data: "0 < r_size (ents ram ! j) \<Longrightarrow> ramfs_inv ram \<Longrightarrow> j < length (ents ram) \<Longrightarrow> r_alive (ents ram ! j) \<Longrightarrow>
    \<exists>a. r_data (ents ram ! j) = Some a"
  using inv_entry [of ram j] by (auto simp: entry_ok_def split: option.splits)

lemma flush_same:
  assumes inv: "ramfs_inv ram" and ok: "pc_entry_ok ops ram e"
  shows "\<exists>b. vfs_pcache_flush_entry ops ram e = Some (True, ram, e\<lparr>pc_dirty := b\<rparr>)"
proof -
  have id: "e = e\<lparr>pc_dirty := pc_dirty e\<rparr>" by simp
  show ?thesis
  proof (cases "pc_slice e")
    case None
    then show ?thesis using id unfolding vfs_pcache_flush_entry_def by (intro exI [of _ "pc_dirty e"]) simp
  next
    case (Some s)
    have coh: "slice_ok ops s (pc_size e)" "pc_caps e AND VFS_BACKEND_CAP_FLUSH_DROP \<noteq> 0
        \<or> pc_caps e AND VFS_BACKEND_CAP_WRITE_SOURCE \<noteq> 0
          \<and> (\<exists>j. pc_storage e = ST_RAMFS j \<and> j < length (ents ram) \<and> r_alive (ents ram ! j) \<and> r_path (ents ram ! j) = pc_path e
               \<and> pc_size e = r_size (ents ram ! j) \<and> 0 < pc_size e \<and> slice_data ops s (pc_size e) = content ram j)"
      using ok Some unfolding pc_entry_ok_def entry_coherent_def by blast+
    consider (clean) "\<not> pc_valid e \<or> \<not> pc_dirty e" | (drop) "pc_valid e" "pc_dirty e" "pc_caps e AND VFS_BACKEND_CAP_FLUSH_DROP \<noteq> 0"
      | (wb) "pc_valid e" "pc_dirty e" "pc_caps e AND VFS_BACKEND_CAP_FLUSH_DROP = 0" by blast
    then show ?thesis
    proof cases
      case clean
      then show ?thesis using id Some unfolding vfs_pcache_flush_entry_def by (intro exI [of _ "pc_dirty e"]) simp
    next
      case drop
      then show ?thesis using Some unfolding vfs_pcache_flush_entry_def by (intro exI [of _ False]) simp
    next
      case wb
      then obtain j where w: "pc_caps e AND VFS_BACKEND_CAP_WRITE_SOURCE \<noteq> 0" and j: "pc_storage e = ST_RAMFS j" "j < length (ents ram)"
          "r_alive (ents ram ! j)" "pc_size e = r_size (ents ram ! j)" "0 < pc_size e" "slice_data ops s (pc_size e) = content ram j"
        using coh(2) by blast
      obtain a where a: "r_data (ents ram ! j) = Some a" using content_data [of ram j] inv j by auto
      have cp: "pg_copy ops s 0 (pc_size e) = Some (content ram j)"
        using copy_data [OF coh(1), of 0 "pc_size e"] j(6) length_slice_data [of s "pc_size e"] by simp
      show ?thesis using Some wb w j(1,2) a cp rewrite_same [OF inv j(2,3) a j(4)]
        unfolding vfs_pcache_flush_entry_def by (intro exI [of _ False]) simp
    qed
  qed
qed

lemma dirty_ok [simp]: "pc_entry_ok ops ram (e\<lparr>pc_dirty := b\<rparr>) \<longleftrightarrow> pc_entry_ok ops ram e"
  by (simp add: pc_entry_ok_def pages_ok_def entry_coherent_def)

lemma destroy_inv:
  assumes inv: "pc_inv ops ram pc" and i: "i < length (pcache_tab pc)" "pc_valid (pcache_tab pc ! i)"
  shows "\<exists>pc' z. vfs_pcache_destroy_entry ops i pc = Some pc' \<and> pc_inv ops ram pc' \<and> pcache_tab pc' = (pcache_tab pc)[i := z]
    \<and> \<not> pc_valid z \<and> pcache_ready pc' = pcache_ready pc"
proof -
  note D = pc_invD [OF inv]
  let ?e = "pcache_tab pc ! i"
  let ?z = "?e\<lparr>pages_active := [], pages_inactive := [], pc_slice := None, pc_size := 0, pc_storage := ST_NULL, pc_caps := 0,
      pc_dirty := False, pc_valid := False, pc_path := []\<rparr>"
  let ?pc = "(set_pc i ?z pc)\<lparr>pcache_active := removeAll i (pcache_active pc), pcache_inactive := removeAll i (pcache_inactive pc)\<rparr>"
  have "vfs_pcache_clear_page_lru ops ?e = Some (?e\<lparr>pages_active := [], pages_inactive := []\<rparr>)"
    using D(4) [OF i] by (simp add: vfs_pcache_clear_page_lru_def pc_entry_ok_def pages_ok_def)
  then have run: "vfs_pcache_destroy_entry ops i pc = Some ?pc" by (simp add: vfs_pcache_destroy_entry_def)
  have "pc_inv ops ram ?pc"
  proof (rule pc_invI)
    show "lru_ok ?pc" using D(1) i by (auto simp: lru_ok_def distinct_removeAll nth_list_update)
    show "length (pcache_tab ?pc) \<le> VFS_PCACHE_SOFT_MAX" using D(2) by simp
    show "pcache_tab ?pc = []" if "\<not> pcache_ready ?pc" using D(3) that by simp
    show "pc_entry_ok ops ram (pcache_tab ?pc ! k)" if "k < length (pcache_tab ?pc)" "pc_valid (pcache_tab ?pc ! k)" for k
      using that D(4) [of k] i by (cases "k = i") simp_all
    show "k = l" if "k < length (pcache_tab ?pc)" "l < length (pcache_tab ?pc)" "pc_valid (pcache_tab ?pc ! k)" "pc_valid (pcache_tab ?pc ! l)"
      "pc_path (pcache_tab ?pc ! k) = pc_path (pcache_tab ?pc ! l)" for k l
      using that D(5) [of k l] i by (cases "k = i"; cases "l = i") simp_all
  qed
  then show ?thesis using run by (intro exI [of _ ?pc] exI [of _ ?z]) simp
qed

lemma set_dirty_inv:
  assumes inv: "pc_inv ops ram pc" and i: "i < length (pcache_tab pc)" "pc_valid (pcache_tab pc ! i)"
  shows "pc_inv ops ram (set_pc i ((pcache_tab pc ! i)\<lparr>pc_dirty := b\<rparr>) pc)"
  by (rule set_pc_inv [OF inv i]) (use i pc_invD(4) [OF inv i] in simp_all)

lemma free_inv:
  assumes ram: "ramfs_inv ram" and inv: "pc_inv ops ram pc" and i: "i < length (pcache_tab pc)" "pc_valid (pcache_tab pc ! i)"
  shows "\<exists>pc' z. vfs_pcache_free_entry ops i ram pc = Some (ram, pc') \<and> pc_inv ops ram pc' \<and> pcache_tab pc' = (pcache_tab pc)[i := z]
    \<and> \<not> pc_valid z \<and> pcache_ready pc' = pcache_ready pc"
proof -
  obtain b where b: "vfs_pcache_flush_entry ops ram (pcache_tab pc ! i) = Some (True, ram, (pcache_tab pc ! i)\<lparr>pc_dirty := b\<rparr>)"
    using flush_same [OF ram pc_invD(4) [OF inv i]] by blast
  let ?pc = "set_pc i ((pcache_tab pc ! i)\<lparr>pc_dirty := b\<rparr>) pc"
  obtain pc' z where "vfs_pcache_destroy_entry ops i ?pc = Some pc'" "pc_inv ops ram pc'" "pcache_tab pc' = (pcache_tab ?pc)[i := z]"
      "\<not> pc_valid z" "pcache_ready pc' = pcache_ready ?pc"
    using destroy_inv [OF set_dirty_inv [OF inv i, of b], of i] i by auto
  then show ?thesis using b by (intro exI [of _ pc'] exI [of _ z]) (simp add: vfs_pcache_free_entry_def)
qed

lemma victim_inv:
  assumes inv: "pc_inv ops ram pc" and v: "evict_victim pc = Some (i, pc1)"
  shows "pc_inv ops ram pc1" "i < length (pcache_tab pc)" "pc_valid (pcache_tab pc ! i)" "pcache_tab pc1 = pcache_tab pc"
    "pcache_ready pc1 = pcache_ready pc"
proof -
  have l: "set (pcache_active pc @ pcache_inactive pc) = {i. i < length (pcache_tab pc) \<and> pc_valid (pcache_tab pc ! i)}"
      "distinct (pcache_active pc @ pcache_inactive pc)"
    using pc_invD(1) [OF inv] by (simp_all add: lru_ok_def)
  show t: "pcache_tab pc1 = pcache_tab pc" "pcache_ready pc1 = pcache_ready pc"
    using v by (auto simp: evict_victim_def Let_def split: if_splits)
  have "i \<in> set (pcache_active pc @ pcache_inactive pc)"
    using v by (auto simp: evict_victim_def Let_def split: if_splits)
  then show "i < length (pcache_tab pc)" "pc_valid (pcache_tab pc ! i)" using l(1) by auto
  show "pc_inv ops ram pc1"
  proof (cases "pcache_inactive pc = []")
    case True
    then have a: "pcache_active pc \<noteq> []" "i = last (pcache_active pc)" "pcache_active pc1 = butlast (pcache_active pc)" "pcache_inactive pc1 = [i]"
      using v by (auto simp: evict_victim_def Let_def split: if_splits)
    have e: "butlast (pcache_active pc) @ [i] = pcache_active pc" using a by simp
    show ?thesis by (rule relist_inv [OF inv t]) (use True l(2) in \<open>simp_all only: a(3,4) e append_Nil2\<close>)
  next
    case False
    then show ?thesis using v inv by (simp add: evict_victim_def)
  qed
qed

lemma evict_inv:
  assumes ram: "ramfs_inv ram" and inv: "pc_inv ops ram pc"
  shows "\<exists>pc'. vfs_pcache_evict_one ops ram pc = Some (ram, pc') \<and> pc_inv ops ram pc' \<and> pcache_ready pc' = pcache_ready pc
    \<and> length (pcache_tab pc') = length (pcache_tab pc)
    \<and> (\<forall>k < length (pcache_tab pc). pc_valid (pcache_tab pc' ! k) \<longrightarrow> pcache_tab pc' ! k = pcache_tab pc ! k)"
proof (cases "evict_victim pc")
  case None
  then show ?thesis using inv by (simp add: vfs_pcache_evict_one_def)
next
  case (Some v)
  obtain i pc1 where v: "v = (i, pc1)" by (cases v)
  note V = victim_inv [OF inv Some [unfolded v]]
  have i1: "i < length (pcache_tab pc1)" "pc_valid (pcache_tab pc1 ! i)" using V by simp_all
  obtain p1 z1 where d: "vfs_pcache_destroy_entry ops i pc1 = Some p1" "pc_inv ops ram p1" "pcache_tab p1 = (pcache_tab pc1)[i := z1]"
      "\<not> pc_valid z1" "pcache_ready p1 = pcache_ready pc1" using destroy_inv [OF V(1) i1] by blast
  obtain p2 z2 where f: "vfs_pcache_free_entry ops i ram pc1 = Some (ram, p2)" "pc_inv ops ram p2" "pcache_tab p2 = (pcache_tab pc1)[i := z2]"
      "\<not> pc_valid z2" "pcache_ready p2 = pcache_ready pc1" using free_inv [OF ram V(1) i1] by blast
  obtain b where b: "vfs_pcache_flush_entry ops ram (pcache_tab pc1 ! i) = Some (True, ram, (pcache_tab pc1 ! i)\<lparr>pc_dirty := b\<rparr>)"
    using flush_same [OF ram pc_invD(4) [OF V(1) i1]] by blast
  have run: "vfs_pcache_evict_one ops ram pc = Some (ram, if pc_dirty (pcache_tab pc1 ! i) then p2 else p1)"
    using Some v b d(1) f(1) by (simp add: vfs_pcache_evict_one_def vfs_pcache_free_entry_def)
  have kept: "\<forall>k < length (pcache_tab pc). pc_valid ((pcache_tab pc1)[i := z] ! k) \<longrightarrow> (pcache_tab pc1)[i := z] ! k = pcache_tab pc ! k"
    if "\<not> pc_valid z" for z using that V(4) i1(1) by (auto simp: nth_list_update)
  show ?thesis using run d f V(4,5) kept [OF d(4)] kept [OF f(4)] by (cases "pc_dirty (pcache_tab pc1 ! i)") auto
qed

end

end
