(* ===== verification/Vfs_Backends.thy ===== *)
theory Vfs_Backends
  imports Page_Cache_Inv
begin

text \<open>
  The two file system backends as the file server sees them
  (\<^verbatim>\<open>servers/fs/vfs_backend_ramfs.c\<close>, \<^verbatim>\<open>servers/fs/vfs_backend_cpio.c\<close>, \<^verbatim>\<open>servers/fs/vfs_backend_ops.c\<close>): requests are
  served from ramfs or from the archive, through the page cache. The transport of requests and replies
  is not part of the model; null arguments do not occur. \<open>be_env\<close> holds the outcomes of allocations.

  The lemmas show that reads through the cache return the contents of the file, that writes in place keep
  the cache coherent, and what goes wrong when a file with a dirty cache entry is resized.
\<close>

section \<open>Definitions\<close>

record be_env =
  be_pc :: pc_env
  be_alloc :: allocator
  be_push :: bool
  be_names :: bool
  be_name_push :: "nat \<Rightarrow> bool"

datatype vfs_backend_req =
    OP_LOOKUP string | OP_READ vfs_inode nat nat | OP_WRITE vfs_inode nat "u8 list" | OP_TRUNCATE vfs_inode nat | OP_FLUSH vfs_inode
  | OP_READDIR string nat | OP_READLINK string nat | OP_MKDIR string u32 | OP_CREATE string u32 | OP_UNLINK string
  | OP_RENAME string string | OP_LINK string string

text \<open>What a request stores through its output pointers.\<close>

datatype backend_out = O_NONE | O_INO vfs_inode | O_BYTES "u8 list" | O_DIRENT "vfs_dirent option"

subsection \<open>Inodes\<close>

definition vfs_inode_fill_path :: "string \<Rightarrow> vfs_inode \<Rightarrow> vfs_inode" where
  "vfs_inode_fill_path path ino = ino\<lparr>i_path := take (VFS_PATH_MAX - 1) path\<rparr>"

definition vfs_inode_init_synthetic_root :: vfs_inode where
  "vfs_inode_init_synthetic_root = inode_zero\<lparr>i_path := ''/'', i_mode := 0x4000 OR 0x1ED, nlink := 2, is_dir := True\<rparr>"

subsection \<open>The ramfs backend\<close>

abbreviation VFS_BACKEND_PORT_RAMFS :: string where "VFS_BACKEND_PORT_RAMFS \<equiv> ''vfs_ramfs_backend_port''"
abbreviation VFS_BACKEND_PORT_CPIO :: string where "VFS_BACKEND_PORT_CPIO \<equiv> ''vfs_cpio_backend_port''"

definition vfs_backend_ramfs_lookup ::
  "(string \<Rightarrow> string \<Rightarrow> nat \<Rightarrow> int) \<Rightarrow> vfs_backends \<Rightarrow> string \<Rightarrow> ramfs \<Rightarrow> int \<times> backend_out" where
  "vfs_backend_ramfs_lookup strcmp_s b path ram =
     (case ramfs_lookup strcmp_s path ram of
        None \<Rightarrow> (- LINUX_ENOENT, O_NONE)
      | Some i \<Rightarrow>
          let ent = ents ram ! i in
          (0, O_INO ((vfs_inode_fill_path path inode_zero)
                \<lparr>backend_port := Some VFS_BACKEND_PORT_RAMFS, backend_caps := vfs_backend_caps_for_port strcmp_s VFS_BACKEND_PORT_RAMFS b,
                 storage := ST_RAMFS i, i_mode := r_mode ent, i_size := r_size ent, nlink := 1, is_dir := entry_is_dir ent, writable := True\<rparr>)))"

definition vfs_backend_ramfs_read ::
  "(string \<Rightarrow> string \<Rightarrow> nat \<Rightarrow> int) \<Rightarrow> 's page_ops \<Rightarrow> be_env \<Rightarrow> memory \<Rightarrow> vfs_inode \<Rightarrow> nat \<Rightarrow> nat \<Rightarrow> ramfs \<Rightarrow> 's vfs_pcache
    \<Rightarrow> ((int + u8 list) \<times> ramfs \<times> 's vfs_pcache) option" where
  "vfs_backend_ramfs_read strcmp_s ops be m ino offset len ram pc =
     (if storage ino = ST_NULL then Some (Inl (- LINUX_EINVAL), ram, pc)
      else if is_dir ino then Some (Inl (- LINUX_EISDIR), ram, pc)
      else vfs_page_cache_read_inode strcmp_s ops (be_pc be) m ino offset len ram pc)"

text \<open>The size in the caller's inode is updated.\<close>

definition vfs_backend_ramfs_write ::
  "(string \<Rightarrow> string \<Rightarrow> nat \<Rightarrow> int) \<Rightarrow> 's page_ops \<Rightarrow> be_env \<Rightarrow> vfs_inode \<Rightarrow> nat \<Rightarrow> u8 list \<Rightarrow> ramfs \<Rightarrow> 's vfs_pcache
    \<Rightarrow> (int \<times> vfs_inode \<times> ramfs \<times> 's vfs_pcache) option" where
  "vfs_backend_ramfs_write strcmp_s ops be ino offset buf ram pc =
     (if is_dir ino \<and> storage ino \<noteq> ST_NULL then Some (- LINUX_EISDIR, ino, ram, pc)
      else case storage ino of
        ST_NULL \<Rightarrow> Some (- LINUX_EINVAL, ino, ram, pc)
      | ST_CPIO a \<Rightarrow> None
      | ST_RAMFS j \<Rightarrow>
          do { w \<leftarrow> ramfs_write (be_alloc be) j offset buf ram;
               (case w of
                  (Inl E_IN_PARAM, ram1) \<Rightarrow> Some (- LINUX_EINVAL, ino, ram1, pc)
                | (Inl e, ram1) \<Rightarrow> Some (- LINUX_ENOMEM, ino, ram1, pc)
                | (Inr n, ram1) \<Rightarrow>
                    let ino1 = ino\<lparr>i_size := r_size (ents ram1 ! j)\<rparr> in
                    if i_size ino < i_size ino1
                    then map_option (\<lambda>(ram2, pc2). (int n, ino1, ram2, pc2)) (vfs_page_cache_drop strcmp_s ops (be_pc be) (i_path ino) ram1 pc)
                    else if 0 < n then Some (int n, ino1, ram1, vfs_page_cache_sync_write strcmp_s ops (be_pc be) ino1 offset (take n buf) pc)
                    else Some (int n, ino1, ram1, pc)) })"

definition vfs_backend_ramfs_truncate ::
  "(string \<Rightarrow> string \<Rightarrow> nat \<Rightarrow> int) \<Rightarrow> 's page_ops \<Rightarrow> be_env \<Rightarrow> vfs_inode \<Rightarrow> nat \<Rightarrow> ramfs \<Rightarrow> 's vfs_pcache
    \<Rightarrow> (int \<times> vfs_inode \<times> ramfs \<times> 's vfs_pcache) option" where
  "vfs_backend_ramfs_truncate strcmp_s ops be ino n ram pc =
     (if is_dir ino \<and> storage ino \<noteq> ST_NULL then Some (- LINUX_EISDIR, ino, ram, pc)
      else case storage ino of
        ST_NULL \<Rightarrow> Some (- LINUX_EINVAL, ino, ram, pc)
      | ST_CPIO a \<Rightarrow> None
      | ST_RAMFS j \<Rightarrow>
          do { w \<leftarrow> ramfs_truncate (be_alloc be) j n ram;
               (case w of
                  (REND_ERR e, ram1) \<Rightarrow> Some (- LINUX_ENOMEM, ino, ram1, pc)
                | (REND_SUCCESS, ram1) \<Rightarrow>
                    do { d \<leftarrow> vfs_page_cache_drop strcmp_s ops (be_pc be) (i_path ino) ram1 pc;
                         Some (0, ino\<lparr>i_size := r_size (ents (fst d) ! j)\<rparr>, fst d, snd d) }) })"

definition vfs_backend_ramfs_flush ::
  "(string \<Rightarrow> string \<Rightarrow> nat \<Rightarrow> int) \<Rightarrow> 's page_ops \<Rightarrow> be_env \<Rightarrow> vfs_inode \<Rightarrow> ramfs \<Rightarrow> 's vfs_pcache \<Rightarrow> (ramfs \<times> 's vfs_pcache) option" where
  "vfs_backend_ramfs_flush strcmp_s ops be ino = vfs_page_cache_flush_backing strcmp_s ops (be_pc be) ino"

definition vfs_backend_ramfs_err_from_rend :: "error_t \<Rightarrow> int" where
  "vfs_backend_ramfs_err_from_rend err =
     (case err of
        REND_SUCCESS \<Rightarrow> 0
      | REND_ERR E_RENDEZVOS \<Rightarrow> - LINUX_EEXIST
      | REND_ERR E_IN_PARAM \<Rightarrow> - LINUX_ENOTDIR
      | REND_ERR E_REND_NO_MEM \<Rightarrow> - LINUX_ENOMEM)"

definition vfs_backend_ramfs_unlink :: "(string \<Rightarrow> string \<Rightarrow> nat \<Rightarrow> int) \<Rightarrow> string \<Rightarrow> ramfs \<Rightarrow> int \<times> ramfs" where
  "vfs_backend_ramfs_unlink strcmp_s path ram =
     (case ramfs_unlink strcmp_s path ram of
        (REND_SUCCESS, ram1) \<Rightarrow> (0, ram1)
      | (REND_ERR E_IN_PARAM, ram1) \<Rightarrow> (- LINUX_EINVAL, ram1)
      | (REND_ERR e, ram1) \<Rightarrow> (- LINUX_EIO, ram1))"

definition ram_result :: "error_t \<times> ramfs \<Rightarrow> 's vfs_pcache \<Rightarrow> int \<times> backend_out \<times> ramfs \<times> 's vfs_pcache" where
  "ram_result r pc = (vfs_backend_ramfs_err_from_rend (fst r), O_NONE, snd r, pc)"

definition vfs_backend_ramfs_service ::
  "(string \<Rightarrow> string \<Rightarrow> nat \<Rightarrow> int) \<Rightarrow> 's page_ops \<Rightarrow> be_env \<Rightarrow> vfs_backends \<Rightarrow> memory \<Rightarrow> vfs_backend_req \<Rightarrow> ramfs \<Rightarrow> 's vfs_pcache
    \<Rightarrow> (int \<times> backend_out \<times> ramfs \<times> 's vfs_pcache) option" where
  "vfs_backend_ramfs_service strcmp_s ops be b m req ram pc =
     (case req of
        OP_LOOKUP path \<Rightarrow> Some (case vfs_backend_ramfs_lookup strcmp_s b path ram of (r, out) \<Rightarrow> (r, out, ram, pc))
      | OP_READ ino offset len \<Rightarrow>
          map_option (\<lambda>(r, ram1, pc1). case r of Inl e \<Rightarrow> (e, O_NONE, ram1, pc1) | Inr d \<Rightarrow> (int (length d), O_BYTES d, ram1, pc1))
            (vfs_backend_ramfs_read strcmp_s ops be m ino offset len ram pc)
      | OP_WRITE ino offset buf \<Rightarrow>
          map_option (\<lambda>(r, ino1, ram1, pc1). (r, O_INO ino1, ram1, pc1)) (vfs_backend_ramfs_write strcmp_s ops be ino offset buf ram pc)
      | OP_TRUNCATE ino n \<Rightarrow>
          map_option (\<lambda>(r, ino1, ram1, pc1). (r, O_INO ino1, ram1, pc1)) (vfs_backend_ramfs_truncate strcmp_s ops be ino n ram pc)
      | OP_FLUSH ino \<Rightarrow> map_option (\<lambda>(ram1, pc1). (0, O_NONE, ram1, pc1)) (vfs_backend_ramfs_flush strcmp_s ops be ino ram pc)
      | OP_READDIR path i \<Rightarrow>
          Some (case ramfs_readdir strcmp_s (be_names be) (be_name_push be) path i ram of (r, d) \<Rightarrow> (r, O_DIRENT d, ram, pc))
      | OP_READLINK path cap \<Rightarrow> Some (- LINUX_EINVAL, O_NONE, ram, pc)
      | OP_MKDIR path mode \<Rightarrow> Some (ram_result (ramfs_mkdir strcmp_s (be_push be) path mode ram) pc)
      | OP_CREATE path mode \<Rightarrow> Some (ram_result (ramfs_create_file strcmp_s (be_push be) path mode ram) pc)
      | OP_UNLINK path \<Rightarrow> Some (case vfs_backend_ramfs_unlink strcmp_s path ram of (r, ram1) \<Rightarrow> (r, O_NONE, ram1, pc))
      | OP_RENAME path path2 \<Rightarrow> Some (ram_result (ramfs_rename strcmp_s path path2 ram) pc)
      | OP_LINK path path2 \<Rightarrow> Some (ram_result (ramfs_link strcmp_s (be_push be) path path2 ram) pc))"

subsection \<open>The archive backend\<close>

definition vfs_backend_cpio_lookup ::
  "(string \<Rightarrow> string \<Rightarrow> nat \<Rightarrow> int) \<Rightarrow> vfs_backends \<Rightarrow> string \<Rightarrow> cpio_rofs \<Rightarrow> int \<times> backend_out" where
  "vfs_backend_cpio_lookup strcmp_s b path fs =
     (case cpio_rofs_lookup strcmp_s path fs of
        None \<Rightarrow> (- LINUX_ENOENT, O_NONE)
      | Some st \<Rightarrow>
          (0, O_INO ((vfs_inode_fill_path path inode_zero)
                \<lparr>backend_port := Some VFS_BACKEND_PORT_CPIO, backend_caps := vfs_backend_caps_for_port strcmp_s VFS_BACKEND_PORT_CPIO b,
                 storage := (case c_data st of Some a \<Rightarrow> ST_CPIO a | None \<Rightarrow> ST_NULL), i_mode := c_mode st, i_size := unat (c_size st),
                 nlink := (if c_nlink st \<noteq> 0 then unat (c_nlink st) else 1), is_dir := c_is_dir st, is_symlink := c_is_symlink st,
                 writable := False\<rparr>)))"

definition vfs_backend_cpio_readlink ::
  "(string \<Rightarrow> string \<Rightarrow> nat \<Rightarrow> int) \<Rightarrow> memory \<Rightarrow> string \<Rightarrow> nat \<Rightarrow> cpio_rofs \<Rightarrow> int \<times> backend_out" where
  "vfs_backend_cpio_readlink strcmp_s m path cap fs =
     (if cap = 0 then (- LINUX_EINVAL, O_NONE)
      else case cpio_rofs_lookup strcmp_s path fs of
        None \<Rightarrow> (- LINUX_EINVAL, O_NONE)
      | Some st \<Rightarrow>
          if \<not> c_is_symlink st then (- LINUX_EINVAL, O_NONE)
          else case c_data st of
            None \<Rightarrow> (- LINUX_EINVAL, O_NONE)
          | Some a \<Rightarrow>
              let len = (if cap \<le> unat (c_size st) then cap - 1 else unat (c_size st)) in
              (int len, O_BYTES (map (\<lambda>k. m (a + k)) [0..<len] @ [0])))"

definition vfs_backend_cpio_read :: "memory \<Rightarrow> vfs_inode \<Rightarrow> nat \<Rightarrow> nat \<Rightarrow> int \<times> backend_out" where
  "vfs_backend_cpio_read m ino offset len =
     (if is_dir ino then (- LINUX_EISDIR, O_NONE)
      else if i_size ino \<le> offset then (0, O_NONE)
      else case cpio_rofs_read m \<lparr>c_mode = i_mode ino, c_size = of_nat (i_size ino), c_is_dir = is_dir ino, c_is_symlink = is_symlink ino,
                  c_data = (case storage ino of ST_CPIO a \<Rightarrow> Some a | _ \<Rightarrow> None), c_nlink = of_nat (nlink ino)\<rparr> (of_nat offset) (of_nat len) of
          (Inl e, d) \<Rightarrow> (- LINUX_EINVAL, O_NONE)
        | (Inr n, d) \<Rightarrow> (int (unat n), O_BYTES d))"

definition vfs_backend_cpio_write ::
  "(string \<Rightarrow> string \<Rightarrow> nat \<Rightarrow> int) \<Rightarrow> 's page_ops \<Rightarrow> be_env \<Rightarrow> memory \<Rightarrow> vfs_inode \<Rightarrow> nat \<Rightarrow> u8 list \<Rightarrow> ramfs \<Rightarrow> 's vfs_pcache
    \<Rightarrow> (int \<times> ramfs \<times> 's vfs_pcache) option" where
  "vfs_backend_cpio_write strcmp_s ops be m ino offset buf ram pc =
     (if is_dir ino then Some (- LINUX_EISDIR, ram, pc)
      else vfs_page_cache_write_inode strcmp_s ops (be_pc be) m ino offset buf ram pc)"

definition vfs_backend_cpio_flush ::
  "(string \<Rightarrow> string \<Rightarrow> nat \<Rightarrow> int) \<Rightarrow> 's page_ops \<Rightarrow> be_env \<Rightarrow> vfs_inode \<Rightarrow> ramfs \<Rightarrow> 's vfs_pcache \<Rightarrow> (ramfs \<times> 's vfs_pcache) option" where
  "vfs_backend_cpio_flush strcmp_s ops be ino = vfs_page_cache_drop_backing strcmp_s ops (be_pc be) ino"

definition vfs_backend_cpio_service ::
  "(string \<Rightarrow> string \<Rightarrow> nat \<Rightarrow> int) \<Rightarrow> 's page_ops \<Rightarrow> be_env \<Rightarrow> vfs_backends \<Rightarrow> memory \<Rightarrow> cpio_rofs \<Rightarrow> vfs_backend_req \<Rightarrow> ramfs \<Rightarrow> 's vfs_pcache
    \<Rightarrow> (int \<times> backend_out \<times> ramfs \<times> 's vfs_pcache) option" where
  "vfs_backend_cpio_service strcmp_s ops be b m fs req ram pc =
     (case req of
        OP_LOOKUP path \<Rightarrow> Some (case vfs_backend_cpio_lookup strcmp_s b path fs of (r, out) \<Rightarrow> (r, out, ram, pc))
      | OP_READ ino offset len \<Rightarrow> Some (case vfs_backend_cpio_read m ino offset len of (r, out) \<Rightarrow> (r, out, ram, pc))
      | OP_WRITE ino offset buf \<Rightarrow>
          map_option (\<lambda>(r, ram1, pc1). (r, O_NONE, ram1, pc1)) (vfs_backend_cpio_write strcmp_s ops be m ino offset buf ram pc)
      | OP_TRUNCATE ino n \<Rightarrow> Some (- LINUX_EROFS, O_NONE, ram, pc)
      | OP_FLUSH ino \<Rightarrow> map_option (\<lambda>(ram1, pc1). (0, O_NONE, ram1, pc1)) (vfs_backend_cpio_flush strcmp_s ops be ino ram pc)
      | OP_READDIR path i \<Rightarrow>
          Some (case cpio_rofs_readdir strcmp_s (be_names be) (be_name_push be) path i fs of (r, d) \<Rightarrow> (r, O_DIRENT d, ram, pc))
      | OP_READLINK path cap \<Rightarrow> Some (case vfs_backend_cpio_readlink strcmp_s m path cap fs of (r, out) \<Rightarrow> (r, out, ram, pc))
      | _ \<Rightarrow> Some (- LINUX_EROFS, O_NONE, ram, pc))"

section \<open>Filling and finding cached files\<close>

text \<open>An inode of a live ramfs file, up to date.\<close>

definition ram_inode :: "ramfs \<Rightarrow> nat \<Rightarrow> vfs_inode \<Rightarrow> bool" where
  "ram_inode ram j ino \<longleftrightarrow> storage ino = ST_RAMFS j \<and> backend_caps ino AND VFS_BACKEND_CAP_WRITE_SOURCE \<noteq> 0
     \<and> backend_caps ino AND VFS_BACKEND_CAP_FLUSH_DROP = 0 \<and> \<not> is_dir ino \<and> j < length (ents ram) \<and> r_alive (ents ram ! j)
     \<and> \<not> entry_is_dir (ents ram ! j) \<and> vfs_path_normalize (i_path ino) VFS_PATH_MAX = r_path (ents ram ! j)
     \<and> i_size ino = r_size (ents ram ! j)"

text \<open>The path is not cached for a backend that drops its cache.\<close>

definition own_cache :: "string \<Rightarrow> 's vfs_pcache \<Rightarrow> bool" where
  "own_cache path pc \<longleftrightarrow> (\<forall>i < length (pcache_tab pc). pc_valid (pcache_tab pc ! i) \<longrightarrow> pc_path (pcache_tab pc ! i) = path
     \<longrightarrow> pc_caps (pcache_tab pc ! i) AND VFS_BACKEND_CAP_FLUSH_DROP = 0)"

text \<open>The file has a cached copy with writes that are not in its backing store yet.\<close>

definition cached_dirty :: "string \<Rightarrow> 's vfs_pcache \<Rightarrow> bool" where
  "cached_dirty path pc \<longleftrightarrow> (\<exists>i < length (pcache_tab pc). pc_valid (pcache_tab pc ! i) \<and> pc_path (pcache_tab pc ! i) = path
     \<and> pc_dirty (pcache_tab pc ! i) \<and> pc_slice (pcache_tab pc ! i) \<noteq> None)"

definition no_oom :: "'s page_ops \<Rightarrow> pc_env \<Rightarrow> bool" where
  "no_oom ops env \<longleftrightarrow> (\<forall>g. pe_page env g) \<and> (\<forall>s g b. fst (pg_insert ops s g b)) \<and> (\<forall>n. pg_create ops n \<noteq> None)"

definition fresh_slot :: "string \<Rightarrow> 's vfs_pcache_entry" where
  "fresh_slot path = \<lparr>pc_path = path, pc_slice = None, pc_size = 0, pc_caps = 0, pc_storage = ST_NULL,
     pc_dirty = False, pc_valid = True, pages_active = [], pages_inactive = []\<rparr>"

context cached_fs
begin

lemma fresh_ok: "vfs_path_normalize path VFS_PATH_MAX = path \<Longrightarrow> pc_entry_ok ops ram (fresh_slot path)"
  by (simp add: pc_entry_ok_def pages_ok_def entry_coherent_def fresh_slot_def)

lemma init_slot_inv:
  assumes inv: "pc_inv ops ram pc" and i: "i < length (pcache_tab pc)" "\<not> pc_valid (pcache_tab pc ! i)"
    and path: "vfs_path_normalize path VFS_PATH_MAX = path"
    and new: "\<And>k. k < length (pcache_tab pc) \<Longrightarrow> pc_valid (pcache_tab pc ! k) \<Longrightarrow> pc_path (pcache_tab pc ! k) \<noteq> path"
  shows "pc_inv ops ram (init_slot path i pc)" "pcache_tab (init_slot path i pc) = (pcache_tab pc)[i := fresh_slot path]"
proof -
  note D = pc_invD [OF inv]
  have "length path < 256" using length_normalize [of 256 path] path by simp
  then have tk: "take (VFS_PATH_MAX - 1) path = path" by simp
  show t: "pcache_tab (init_slot path i pc) = (pcache_tab pc)[i := fresh_slot path]"
    using tk by (simp add: init_slot_def fresh_slot_def)
  have v: "pc_valid (fresh_slot path :: 's vfs_pcache_entry)" "pc_path (fresh_slot path :: 's vfs_pcache_entry) = path" by (simp_all add: fresh_slot_def)
  show "pc_inv ops ram (init_slot path i pc)"
  proof (rule pc_invI)
    show "lru_ok (init_slot path i pc)"
      using D(1) i v by (auto simp: lru_ok_def t nth_list_update init_slot_def)
    show "length (pcache_tab (init_slot path i pc)) \<le> VFS_PCACHE_SOFT_MAX" using D(2) t by simp
    show "pcache_tab (init_slot path i pc) = []" if "\<not> pcache_ready (init_slot path i pc)"
      using D(3) that i by (simp add: init_slot_def)
    show "pc_entry_ok ops ram (pcache_tab (init_slot path i pc) ! k)"
      if "k < length (pcache_tab (init_slot path i pc))" "pc_valid (pcache_tab (init_slot path i pc) ! k)" for k
      using that D(4) [of k] fresh_ok [OF path] unfolding t by (cases "k = i") simp_all
    show "k = l" if "k < length (pcache_tab (init_slot path i pc))" "l < length (pcache_tab (init_slot path i pc))"
      "pc_valid (pcache_tab (init_slot path i pc) ! k)" "pc_valid (pcache_tab (init_slot path i pc) ! l)"
      "pc_path (pcache_tab (init_slot path i pc) ! k) = pc_path (pcache_tab (init_slot path i pc) ! l)" for k l
      using that D(5) [of k l] new [of k] new [of l] v unfolding t by (cases "k = i"; cases "l = i") auto
  qed
qed

lemma push_slot_inv:
  assumes inv: "pc_inv ops ram pc" "pcache_ready pc" and n: "length (pcache_tab pc) < VFS_PCACHE_SOFT_MAX"
  shows "pc_inv ops ram (pc\<lparr>pcache_tab := pcache_tab pc @ [pc_entry_zero]\<rparr>)"
proof (rule pc_invI)
  note D = pc_invD [OF inv(1)]
  let ?pc = "pc\<lparr>pcache_tab := pcache_tab pc @ [pc_entry_zero]\<rparr>"
  have z: "\<not> pc_valid (pc_entry_zero :: 's vfs_pcache_entry)" by (simp add: pc_entry_zero_def)
  have at: "pcache_tab ?pc ! k = pcache_tab pc ! k \<and> k < length (pcache_tab pc)"
    if "k < length (pcache_tab ?pc)" "pc_valid (pcache_tab ?pc ! k)" for k
    using that z by (auto simp: nth_append split: if_splits)
  have "{i. i < length (pcache_tab ?pc) \<and> pc_valid (pcache_tab ?pc ! i)} = {i. i < length (pcache_tab pc) \<and> pc_valid (pcache_tab pc ! i)}"
    using z by (auto simp: nth_append split: if_splits)
  then show "lru_ok ?pc" using D(1) unfolding lru_ok_def by simp
  show "length (pcache_tab ?pc) \<le> VFS_PCACHE_SOFT_MAX" using n by simp
  show "pcache_tab ?pc = []" if "\<not> pcache_ready ?pc" using that inv(2) by simp
  show "pc_entry_ok ops ram (pcache_tab ?pc ! k)" if "k < length (pcache_tab ?pc)" "pc_valid (pcache_tab ?pc ! k)" for k
    using at [OF that] D(4) [of k] that(2) by simp
  show "k = l" if "k < length (pcache_tab ?pc)" "l < length (pcache_tab ?pc)" "pc_valid (pcache_tab ?pc ! k)" "pc_valid (pcache_tab ?pc ! l)"
    "pc_path (pcache_tab ?pc ! k) = pc_path (pcache_tab ?pc ! l)" for k l
    using at [OF that(1,3)] at [OF that(2,4)] that(3-5) D(5) [of k l] by simp
qed

lemma free_slot_Some: "free_slot pc = Some i \<Longrightarrow> i < length (pcache_tab pc) \<and> \<not> pc_valid (pcache_tab pc ! i)"
  by (auto simp: free_slot_def find_Some_iff)

lemma alloc_slot_inv:
  assumes ram: "ramfs_inv ram" and inv: "pc_inv ops ram pc" and path: "vfs_path_normalize path VFS_PATH_MAX = path"
    and new: "\<And>k. k < length (pcache_tab pc) \<Longrightarrow> pc_valid (pcache_tab pc ! k) \<Longrightarrow> pc_path (pcache_tab pc ! k) \<noteq> path"
  shows "\<exists>r pc'. vfs_pcache_alloc_slot ops env path ram pc = Some (r, ram, pc') \<and> pc_inv ops ram pc'
    \<and> (case r of Some i \<Rightarrow> i < length (pcache_tab pc') \<and> pcache_tab pc' ! i = fresh_slot path
       | None \<Rightarrow> \<forall>k < length (pcache_tab pc'). pc_valid (pcache_tab pc' ! k) \<longrightarrow> pc_path (pcache_tab pc' ! k) \<noteq> path)"
proof -
  let ?pc = "vfs_pcache_tab_ensure env pc"
  note E = tab_ensure_inv [OF inv, of env]
  have new': "pc_path (pcache_tab ?pc ! k) \<noteq> path" if "k < length (pcache_tab ?pc)" "pc_valid (pcache_tab ?pc ! k)" for k
    using new that E(2) by simp
  show ?thesis
  proof (cases "pcache_ready ?pc")
    case False
    then show ?thesis using E new by (simp add: vfs_pcache_alloc_slot_def Let_def)
  next
    case rdy: True
    show ?thesis
    proof (cases "free_slot ?pc")
      case (Some i)
      note F = free_slot_Some [OF Some]
      note I = init_slot_inv [OF E(1), of i path] F path new'
      show ?thesis using Some rdy I by (simp add: vfs_pcache_alloc_slot_def Let_def)
    next
      case None
      show ?thesis
      proof (cases "length (pcache_tab ?pc) < VFS_PCACHE_SOFT_MAX \<and> pe_push env")
        case True
        let ?p = "?pc\<lparr>pcache_tab := pcache_tab ?pc @ [pc_entry_zero]\<rparr>"
        have i1: "pc_inv ops ram ?p" using push_slot_inv [OF E(1) rdy] True by blast
        have nw: "pc_path (pcache_tab ?p ! k) \<noteq> path" if "k < length (pcache_tab ?p)" "pc_valid (pcache_tab ?p ! k)" for k
          using that new' [of k] by (auto simp: nth_append pc_entry_zero_def split: if_splits)
        note I = init_slot_inv [OF i1, of "length (pcache_tab ?pc)" path, OF _ _ path nw]
        show ?thesis using None rdy True I by (simp add: vfs_pcache_alloc_slot_def Let_def pc_entry_zero_def)
      next
        case False
        obtain pc1 where ev: "vfs_pcache_evict_one ops ram ?pc = Some (ram, pc1)" "pc_inv ops ram pc1" "length (pcache_tab pc1) = length (pcache_tab ?pc)"
            "\<forall>k < length (pcache_tab ?pc). pc_valid (pcache_tab pc1 ! k) \<longrightarrow> pcache_tab pc1 ! k = pcache_tab ?pc ! k"
          using evict_inv [OF ram E(1)] by blast
        have nw: "pc_path (pcache_tab pc1 ! k) \<noteq> path" if "k < length (pcache_tab pc1)" "pc_valid (pcache_tab pc1 ! k)" for k
          using that ev(3,4) new' [of k] by auto
        show ?thesis
        proof (cases "free_slot pc1")
          case None': None
          then show ?thesis using None rdy ev(1,2) nw by (simp add: vfs_pcache_alloc_slot_def Let_def if_not_P [OF False])
        next
          case (Some i)
          note F = free_slot_Some [OF Some]
          note I = init_slot_inv [OF ev(2), of i path, OF _ _ path nw] F
          show ?thesis using None rdy ev(1) Some I by (simp add: vfs_pcache_alloc_slot_def Let_def if_not_P [OF False])
        qed
      qed
    qed
  qed
qed

lemma link_fold:
  "pc_slice (foldl (\<lambda>x g. vfs_pcache_page_link_inactive g x) e gs) = pc_slice e \<and> same_file e (foldl (\<lambda>x g. vfs_pcache_page_link_inactive g x) e gs)
    \<and> pc_dirty (foldl (\<lambda>x g. vfs_pcache_page_link_inactive g x) e gs) = pc_dirty e
    \<and> set (pages_active (foldl (\<lambda>x g. vfs_pcache_page_link_inactive g x) e gs)) \<union> set (pages_inactive (foldl (\<lambda>x g. vfs_pcache_page_link_inactive g x) e gs))
      \<subseteq> set (pages_active e) \<union> set (pages_inactive e) \<union> set gs"
proof (induction gs arbitrary: e)
  case (Cons g gs)
  show ?case using Cons [of "vfs_pcache_page_link_inactive g e"]
    by (auto simp: vfs_pcache_page_link_inactive_def same_file_def)
qed (simp add: same_file_def)

lemma fill_inv:
  assumes ram: "ramfs_inv ram" and ino: "ram_inode ram j ino" "0 < i_size ino" and oom: "no_oom ops env"
    and path: "path = r_path (ents ram ! j)"
  shows "\<exists>e s. vfs_pcache_fill_from_inode ops env ram m (fresh_slot path) ino = Some (True, e) \<and> pc_entry_ok ops ram e
    \<and> pc_valid e \<and> pc_path e = path \<and> pc_slice e = Some s \<and> pc_caps e = backend_caps ino"
proof -
  have J: "storage ino = ST_RAMFS j" "j < length (ents ram)" "r_alive (ents ram ! j)" "backend_caps ino AND VFS_BACKEND_CAP_WRITE_SOURCE \<noteq> 0"
      "\<not> is_dir ino" "i_size ino = r_size (ents ram ! j)" using ino by (simp_all add: ram_inode_def)
  obtain a where a: "r_data (ents ram ! j) = Some a" using content_data [of ram j] ram J ino(2) by auto
  have eok: "entry_ok (heap ram) (ents ram ! j)" by (rule inv_entry [OF ram J(2,3)])
  then obtain b where b: "heap ram a = Some b" "r_size (ents ram ! j) \<le> length b" using a by (auto simp: entry_ok_def)
  have norm: "vfs_path_normalize path VFS_PATH_MAX = path" using eok path by (simp add: entry_ok_def)
  let ?D = "content ram j"
  have D: "?D = take (i_size ino) b" "length ?D = i_size ino" using a b J(6) by (simp_all add: content_def)
  have ne: "?D \<noteq> []" using D(2) ino(2) by auto
  have src: "kva_read ram m (K_HEAP a) off len = Some (take len (drop off ?D))" if "off + len \<le> length ?D" for off len
    using that b D J(6) by (simp add: kva_read_def mem_read_def take_drop)
  obtain s where s: "vfs_pcache_fill_slice_from_kva ops env (kva_read ram m (K_HEAP a)) (length ?D) = Some (Inr s, [0..<pg_count ops (length ?D)])"
      "slice_ok ops s (length ?D)" "slice_data ops s (length ?D) = ?D"
    using fill_slice_ok [of env ?D "kva_read ram m (K_HEAP a)"] oom src ne by (auto simp: no_oom_def)
  let ?e2 = "(fresh_slot path)\<lparr>pc_slice := None, pc_size := i_size ino, pc_caps := backend_caps ino, pc_storage := storage ino, pc_dirty := False\<rparr>
      :: 's vfs_pcache_entry"
  let ?e3 = "foldl (\<lambda>x g. vfs_pcache_page_link_inactive g x) ?e2 [0..<pg_count ops (length ?D)]"
  have clr: "vfs_pcache_clear_page_lru ops (fresh_slot path) = Some (fresh_slot path)"
    by (simp add: vfs_pcache_clear_page_lru_def fresh_slot_def)
  have kva: "vfs_inode_source_kva ram ino = Some (K_HEAP a)" using J a by (simp add: vfs_inode_source_kva_def)
  have run: "vfs_pcache_fill_from_inode ops env ram m (fresh_slot path) ino = Some (True, ?e3\<lparr>pc_slice := Some s\<rparr>)"
    using J(5) ino(2) clr kva s(1) D(2) by (simp add: vfs_pcache_fill_from_inode_def Let_def)
  note F = link_fold [of ?e2 "[0..<pg_count ops (length ?D)]"]
  have sub: "g < pg_count ops (length ?D)" if "g \<in> set (pages_active ?e3) \<union> set (pages_inactive ?e3)" for g
    using F that by (auto simp: fresh_slot_def)
  have f: "pc_path ?e3 = path" "pc_size ?e3 = i_size ino" "pc_caps ?e3 = backend_caps ino" "pc_storage ?e3 = storage ino" "pc_valid ?e3"
    using F by (simp_all add: same_file_def fresh_slot_def)
  have "pages_ok ops (?e3\<lparr>pc_slice := Some s\<rparr>)"
    using sub s(2) unfolding pages_ok_def slice_ok_def count_iff by fastforce
  moreover have "entry_coherent ops ram (?e3\<lparr>pc_slice := Some s\<rparr>)"
    using s(2,3) D(2) f J path ino(2) by (simp add: entry_coherent_def)
  ultimately show ?thesis using run f norm by (intro exI [of _ "?e3\<lparr>pc_slice := Some s\<rparr>"] exI [of _ s]) (simp add: pc_entry_ok_def)
qed

text \<open>A file that is found or filled is cached with its contents.\<close>

lemma entry_of_path:
  assumes ram: "ramfs_inv ram" and inv: "pc_inv ops ram pc" and own: "own_cache (r_path (ents ram ! j)) pc"
    and i: "i < length (pcache_tab pc)" "pc_valid (pcache_tab pc ! i)" "pc_path (pcache_tab pc ! i) = r_path (ents ram ! j)"
    and j: "j < length (ents ram)" "r_alive (ents ram ! j)" and s: "pc_slice (pcache_tab pc ! i) = Some s"
  shows "pc_storage (pcache_tab pc ! i) = ST_RAMFS j" "pc_size (pcache_tab pc ! i) = r_size (ents ram ! j)"
    "slice_ok ops s (r_size (ents ram ! j))" "slice_data ops s (r_size (ents ram ! j)) = content ram j"
    "pc_caps (pcache_tab pc ! i) AND VFS_BACKEND_CAP_WRITE_SOURCE \<noteq> 0" "0 < r_size (ents ram ! j)"
proof -
  have c: "slice_ok ops s (pc_size (pcache_tab pc ! i))" "pc_caps (pcache_tab pc ! i) AND VFS_BACKEND_CAP_FLUSH_DROP \<noteq> 0
        \<or> pc_caps (pcache_tab pc ! i) AND VFS_BACKEND_CAP_WRITE_SOURCE \<noteq> 0
          \<and> (\<exists>j. pc_storage (pcache_tab pc ! i) = ST_RAMFS j \<and> j < length (ents ram) \<and> r_alive (ents ram ! j)
               \<and> r_path (ents ram ! j) = pc_path (pcache_tab pc ! i)
               \<and> pc_size (pcache_tab pc ! i) = r_size (ents ram ! j) \<and> 0 < pc_size (pcache_tab pc ! i)
               \<and> slice_data ops s (pc_size (pcache_tab pc ! i)) = content ram j)"
    using pc_invD(4) [OF inv i(1,2)] s unfolding pc_entry_ok_def entry_coherent_def by blast+
  moreover have "pc_caps (pcache_tab pc ! i) AND VFS_BACKEND_CAP_FLUSH_DROP = 0" using own i unfolding own_cache_def by blast
  ultimately obtain k where k: "pc_storage (pcache_tab pc ! i) = ST_RAMFS k" "k < length (ents ram)" "r_alive (ents ram ! k)"
      "r_path (ents ram ! k) = pc_path (pcache_tab pc ! i)" "pc_size (pcache_tab pc ! i) = r_size (ents ram ! k)" "0 < pc_size (pcache_tab pc ! i)"
      "slice_data ops s (pc_size (pcache_tab pc ! i)) = content ram k" "pc_caps (pcache_tab pc ! i) AND VFS_BACKEND_CAP_WRITE_SOURCE \<noteq> 0" by blast
  have "k = j" using inv_sharing [OF ram k(2) j(1)] k(3,4) j(2) i(3) by metis
  then show "pc_storage (pcache_tab pc ! i) = ST_RAMFS j" "pc_size (pcache_tab pc ! i) = r_size (ents ram ! j)"
    "slice_ok ops s (r_size (ents ram ! j))" "slice_data ops s (r_size (ents ram ! j)) = content ram j"
    "pc_caps (pcache_tab pc ! i) AND VFS_BACKEND_CAP_WRITE_SOURCE \<noteq> 0" "0 < r_size (ents ram ! j)"
    using k c(1) by simp_all
qed

lemma ensure_inv:
  assumes ram: "ramfs_inv ram" and inv: "pc_inv ops ram pc" and ino: "ram_inode ram j ino" and oom: "no_oom ops env"
    and own: "own_cache (r_path (ents ram ! j)) pc"
  shows "\<exists>r pc'. vfs_pcache_ensure scmp ops env m ino ram pc = Some (r, ram, pc') \<and> pc_inv ops ram pc'
    \<and> own_cache (r_path (ents ram ! j)) pc'
    \<and> (\<forall>i. r = Some i \<longrightarrow> i < length (pcache_tab pc') \<and> pc_valid (pcache_tab pc' ! i) \<and> pc_path (pcache_tab pc' ! i) = r_path (ents ram ! j))"
proof (cases "i_size ino = 0 \<or> VFS_PCACHE_MAX_CACHED < i_size ino")
  case True
  then show ?thesis using inv own by (auto simp: vfs_pcache_ensure_def)
next
  case False
  have path: "vfs_path_normalize (i_path ino) VFS_PATH_MAX = r_path (ents ram ! j)" "\<not> is_dir ino"
    and fd: "backend_caps ino AND VFS_BACKEND_CAP_FLUSH_DROP = 0" using ino by (simp_all add: ram_inode_def)
  have norm: "vfs_path_normalize (r_path (ents ram ! j)) VFS_PATH_MAX = r_path (ents ram ! j)"
    using inv_entry [OF ram, of j] ino by (simp add: ram_inode_def entry_ok_def)
  let ?p = "r_path (ents ram ! j)"
  let ?pc = "vfs_pcache_tab_ensure env pc"
  note E = tab_ensure_inv [OF inv, of env]
  have own1: "own_cache ?p ?pc" using own E(2) by (simp add: own_cache_def)
  show ?thesis
  proof (cases "vfs_pcache_find scmp ?p ?pc")
    case (Some i)
    then have "vfs_pcache_ensure scmp ops env m ino ram pc = Some (Some i, ram, ?pc)"
      using False path by (simp add: vfs_pcache_ensure_def Let_def)
    then show ?thesis using find_Some [OF E(1), of "i_path ino" i] Some path E(1) own1 by simp
  next
    case None
    have nw: "pc_path (pcache_tab ?pc ! k) \<noteq> ?p" if "k < length (pcache_tab ?pc)" "pc_valid (pcache_tab ?pc ! k)" for k
      using find_None [OF E(1) _ that, of "i_path ino"] None path by simp
    obtain r pc1 where r: "vfs_pcache_alloc_slot ops env ?p ram ?pc = Some (r, ram, pc1)" "pc_inv ops ram pc1"
        "case r of Some i \<Rightarrow> i < length (pcache_tab pc1) \<and> pcache_tab pc1 ! i = fresh_slot ?p
         | None \<Rightarrow> \<forall>k < length (pcache_tab pc1). pc_valid (pcache_tab pc1 ! k) \<longrightarrow> pc_path (pcache_tab pc1 ! k) \<noteq> ?p"
      using alloc_slot_inv [OF ram E(1) norm nw] by blast
    show ?thesis
    proof (cases r)
      case None': None
      then have "vfs_pcache_ensure scmp ops env m ino ram pc = Some (None, ram, pc1)"
        using False path None r(1) by (simp add: vfs_pcache_ensure_def Let_def)
      then show ?thesis using None' r(2,3) by (simp add: own_cache_def)
    next
      case (Some i)
      have i: "i < length (pcache_tab pc1)" "pcache_tab pc1 ! i = fresh_slot ?p" using r(3) Some by simp_all
      obtain e s where e: "vfs_pcache_fill_from_inode ops env ram m (fresh_slot ?p) ino = Some (True, e)" "pc_entry_ok ops ram e" "pc_valid e"
          "pc_path e = ?p" "pc_caps e = backend_caps ino"
        using fill_inv [OF ram ino _ oom refl, of m] False by auto
      have run: "vfs_pcache_ensure scmp ops env m ino ram pc = Some (Some i, ram, set_pc i e pc1)"
        using False path None r(1) Some i e(1) by (simp add: vfs_pcache_ensure_def Let_def)
      have v: "pc_valid (pcache_tab pc1 ! i)" "pc_path (pcache_tab pc1 ! i) = ?p" using i by (simp_all add: fresh_slot_def)
      have inv2: "pc_inv ops ram (set_pc i e pc1)" by (rule set_pc_inv [OF r(2) i(1) v(1)]) (use e v in simp_all)
      have own2: "own_cache ?p (set_pc i e pc1)" unfolding own_cache_def
      proof (intro allI impI)
        fix k assume k: "k < length (pcache_tab (set_pc i e pc1))" "pc_valid (pcache_tab (set_pc i e pc1) ! k)"
          "pc_path (pcache_tab (set_pc i e pc1) ! k) = ?p"
        have "k = i" using pc_invD(5) [OF inv2 k(1), of i] k i(1) e by simp
        then show "pc_caps (pcache_tab (set_pc i e pc1) ! k) AND VFS_BACKEND_CAP_FLUSH_DROP = 0" using i(1) e(5) fd by simp
      qed
      show ?thesis using run inv2 own2 i(1) e by simp
    qed
  qed
qed

text \<open>Reading through the cache.\<close>

lemma read_cached:
  assumes ram: "ramfs_inv ram" and inv: "pc_inv ops ram pc" and ino: "ram_inode ram j ino" and oom: "no_oom ops (be_pc be)"
    and own: "own_cache (r_path (ents ram ! j)) pc"
  shows "\<exists>pc'. vfs_backend_ramfs_read scmp ops be m ino offset len ram pc = Some (Inr (take len (drop offset (content ram j))), ram, pc')
    \<and> pc_inv ops ram pc' \<and> own_cache (r_path (ents ram ! j)) pc'"
proof -
  have J: "storage ino = ST_RAMFS j" "j < length (ents ram)" "r_alive (ents ram ! j)" "\<not> entry_is_dir (ents ram ! j)" "\<not> is_dir ino"
      "i_size ino = r_size (ents ram ! j)" "backend_caps ino AND VFS_BACKEND_CAP_WRITE_SOURCE \<noteq> 0"
    using ino by (simp_all add: ram_inode_def)
  have clen: "length (content ram j) = i_size ino" using length_content [OF ram J(2,3)] J(6) by simp
  show ?thesis
  proof (cases "i_size ino \<le> offset")
    case True
    then show ?thesis using J inv own clen by (simp add: vfs_backend_ramfs_read_def vfs_page_cache_read_inode_def)
  next
    case False
    let ?n = "min len (i_size ino - offset)"
    have tk: "take ?n (drop offset (content ram j)) = take len (drop offset (content ram j))" using clen by (simp add: min_def)
    have direct: "vfs_pcache_read_direct m ino offset ?n ram = Some (Inr (take len (drop offset (content ram j))))"
      using False J read_effect [OF ram J(2,3,4), of offset ?n] tk
      by (simp add: vfs_pcache_read_direct_def vfs_inode_ramfs_storage_def Let_def)
    obtain r pc1 where r: "vfs_pcache_ensure scmp ops (be_pc be) m ino ram pc = Some (r, ram, pc1)" "pc_inv ops ram pc1"
        "own_cache (r_path (ents ram ! j)) pc1"
        "\<forall>i. r = Some i \<longrightarrow> i < length (pcache_tab pc1) \<and> pc_valid (pcache_tab pc1 ! i) \<and> pc_path (pcache_tab pc1 ! i) = r_path (ents ram ! j)"
      using ensure_inv [OF ram inv ino oom own, of m] by blast
    show ?thesis
    proof (cases "r = None \<or> (\<exists>i. r = Some i \<and> pc_slice (pcache_tab pc1 ! i) = None)")
      case True
      then have "vfs_backend_ramfs_read scmp ops be m ino offset len ram pc = Some (Inr (take len (drop offset (content ram j))), ram, pc1)"
        using False J r(1) direct by (auto simp: vfs_backend_ramfs_read_def vfs_page_cache_read_inode_def Let_def)
      then show ?thesis using r(2,3) by blast
    next
      case nc: False
      then obtain i s where i: "r = Some i" "pc_slice (pcache_tab pc1 ! i) = Some s" by (cases r) auto
      have v: "i < length (pcache_tab pc1)" "pc_valid (pcache_tab pc1 ! i)" "pc_path (pcache_tab pc1 ! i) = r_path (ents ram ! j)"
        using r(4) i(1) by blast+
      note C = entry_of_path [OF ram r(2,3) v J(2,3) i(2)]
      note T = touch_file_inv [OF r(2) v(1,2)]
      let ?pc2 = "vfs_pcache_touch_file i pc1"
      let ?e = "vfs_pcache_touch_pages ops offset ?n (pcache_tab ?pc2 ! i)"
      have le: "i_size ino \<le> 262144" using inv_entry [OF ram J(2,3)] J(6) by (auto simp: entry_ok_def split: option.splits)
      have av: "cached_avail (pc_size (pcache_tab pc1 ! i)) offset = i_size ino - offset"
      proof -
        have "2 ^ 64 + pc_size (pcache_tab pc1 ! i) - offset = (i_size ino - offset) + 2 ^ 64" using C(2) J(6) False by simp
        then show ?thesis unfolding cached_avail_def using le by simp
      qed
      have cp: "pg_copy ops s offset ?n = Some (take len (drop offset (content ram j)))"
        using copy_data [OF C(3), of offset ?n] C(4) J(6) False tk by simp
      have ok: "pc_entry_ok ops ram (pcache_tab pc1 ! i)" by (rule pc_invD(4) [OF r(2) v(1,2)])
      have tl: "pages_ok ops ?e \<and> same_file (pcache_tab pc1 ! i) ?e \<and> pc_slice ?e = Some s"
        using touch_loop_ok [of "pcache_tab pc1 ! i" s ?n offset ?n] ok i(2) T(2) by (simp add: vfs_pcache_touch_pages_def pc_entry_ok_def)
      then have eok: "pc_entry_ok ops ram ?e" "pc_valid ?e" "pc_path ?e = pc_path (pcache_tab pc1 ! i)" "pc_caps ?e = pc_caps (pcache_tab pc1 ! i)"
        using ok v(2) i(2) by (auto simp: pc_entry_ok_def entry_coherent_def same_file_def)
      have inv3: "pc_inv ops ram (set_pc i ?e ?pc2)"
        by (rule set_pc_inv [OF T(1)]) (use v T(2) eok in simp_all)
      have own3: "own_cache (r_path (ents ram ! j)) (set_pc i ?e ?pc2)"
        using r(3) eok(3,4) v(1) T(2) unfolding own_cache_def by (auto simp: nth_list_update eok(2) v(2))
      have "vfs_backend_ramfs_read scmp ops be m ino offset len ram pc = Some (Inr (take len (drop offset (content ram j))), ram, set_pc i ?e ?pc2)"
        using False J r(1) i cp by (simp add: vfs_backend_ramfs_read_def vfs_page_cache_read_inode_def Let_def av)
      then show ?thesis using inv3 own3 by blast
    qed
  qed
qed

text \<open>What a change of file \<open>j\<close> means for the entries of the cache.\<close>

lemma other_entry:
  assumes ok: "pc_entry_ok ops ram e" and meta: "same_meta j ram ram'"
    and o: "pc_slice e = None \<or> pc_path e \<noteq> r_path (ents ram ! j)"
  shows "pc_entry_ok ops ram' e"
proof -
  have "entry_coherent ops ram' e" unfolding entry_coherent_def
  proof (intro allI impI)
    fix s assume s: "pc_slice e = Some s"
    have "slice_ok ops s (pc_size e)" "pc_caps e AND VFS_BACKEND_CAP_FLUSH_DROP \<noteq> 0
        \<or> pc_caps e AND VFS_BACKEND_CAP_WRITE_SOURCE \<noteq> 0
          \<and> (\<exists>k. pc_storage e = ST_RAMFS k \<and> k < length (ents ram) \<and> r_alive (ents ram ! k) \<and> r_path (ents ram ! k) = pc_path e
               \<and> pc_size e = r_size (ents ram ! k) \<and> 0 < pc_size e \<and> slice_data ops s (pc_size e) = content ram k)"
      using ok s unfolding pc_entry_ok_def entry_coherent_def by blast+
    then show "slice_ok ops s (pc_size e) \<and> (pc_caps e AND VFS_BACKEND_CAP_FLUSH_DROP \<noteq> 0
        \<or> pc_caps e AND VFS_BACKEND_CAP_WRITE_SOURCE \<noteq> 0
          \<and> (\<exists>k. pc_storage e = ST_RAMFS k \<and> k < length (ents ram') \<and> r_alive (ents ram' ! k) \<and> r_path (ents ram' ! k) = pc_path e
               \<and> pc_size e = r_size (ents ram' ! k) \<and> 0 < pc_size e \<and> slice_data ops s (pc_size e) = content ram' k))"
    proof (elim disjE exE conjE)
      fix k assume w: "pc_caps e AND VFS_BACKEND_CAP_WRITE_SOURCE \<noteq> 0" and so: "slice_ok ops s (pc_size e)"
        and k: "pc_storage e = ST_RAMFS k" "k < length (ents ram)" "r_alive (ents ram ! k)" "r_path (ents ram ! k) = pc_path e"
          "pc_size e = r_size (ents ram ! k)" "0 < pc_size e" "slice_data ops s (pc_size e) = content ram k"
      have "k \<noteq> j" using o s k(4) by auto
      then have "ents ram' ! k = ents ram ! k" "content ram' k = content ram k" "k < length (ents ram')"
        using meta k(2,3) unfolding same_meta_def by simp_all
      then show ?thesis using w so k by simp
    qed simp
  qed
  then show ?thesis using ok by (simp add: pc_entry_ok_def)
qed

lemma pc_inv_none:
  assumes inv: "pc_inv ops ram pc" and meta: "same_meta j ram ram'"
    and no: "\<And>k. k < length (pcache_tab pc) \<Longrightarrow> pc_valid (pcache_tab pc ! k) \<Longrightarrow>
      pc_slice (pcache_tab pc ! k) = None \<or> pc_path (pcache_tab pc ! k) \<noteq> r_path (ents ram ! j)"
  shows "pc_inv ops ram' pc"
proof (rule pc_invI)
  show "pc_entry_ok ops ram' (pcache_tab pc ! k)" if "k < length (pcache_tab pc)" "pc_valid (pcache_tab pc ! k)" for k
    by (rule other_entry [OF pc_invD(4) [OF inv that] meta no [OF that]])
qed (use pc_invD [OF inv] in blast)+

lemma pc_inv_upd:
  assumes inv: "pc_inv ops ram pc" and meta: "same_meta j ram ram'" and i: "i < length (pcache_tab pc)" "pc_valid (pcache_tab pc ! i)"
    "pc_path (pcache_tab pc ! i) = r_path (ents ram ! j)"
    and e: "pc_valid e" "pc_path e = pc_path (pcache_tab pc ! i)" "pc_entry_ok ops ram' e"
  shows "pc_inv ops ram' (set_pc i e pc)"
proof (rule pc_invI)
  note D = pc_invD [OF inv]
  let ?pc = "set_pc i e pc"
  show "lru_ok ?pc" using D(1) i e(1) by (auto simp: lru_ok_def nth_list_update)
  show "length (pcache_tab ?pc) \<le> VFS_PCACHE_SOFT_MAX" using D(2) by simp
  show "pcache_tab ?pc = []" if "\<not> pcache_ready ?pc" using D(3) that by simp
  show "pc_entry_ok ops ram' (pcache_tab ?pc ! k)" if "k < length (pcache_tab ?pc)" "pc_valid (pcache_tab ?pc ! k)" for k
  proof (cases "k = i")
    case False
    then have k: "k < length (pcache_tab pc)" "pc_valid (pcache_tab pc ! k)" "pcache_tab ?pc ! k = pcache_tab pc ! k" using that by simp_all
    have "pc_path (pcache_tab pc ! k) \<noteq> r_path (ents ram ! j)" using D(5) [OF k(1) i(1) k(2) i(2)] i(3) False by auto
    then show ?thesis using other_entry [OF D(4) [OF k(1,2)] meta] k(3) by simp
  qed (use e i that in simp)
  show "k = l" if "k < length (pcache_tab ?pc)" "l < length (pcache_tab ?pc)" "pc_valid (pcache_tab ?pc ! k)" "pc_valid (pcache_tab ?pc ! l)"
    "pc_path (pcache_tab ?pc ! k) = pc_path (pcache_tab ?pc ! l)" for k l
    using that D(5) [of k l] e i by (cases "k = i"; cases "l = i") simp_all
qed

lemma own_cache_mono:
  assumes "own_cache p pc" "length (pcache_tab pc') = length (pcache_tab pc)"
    "\<And>k. k < length (pcache_tab pc) \<Longrightarrow> pc_valid (pcache_tab pc' ! k) \<Longrightarrow> pc_valid (pcache_tab pc ! k)
       \<and> pc_path (pcache_tab pc' ! k) = pc_path (pcache_tab pc ! k) \<and> pc_caps (pcache_tab pc' ! k) = pc_caps (pcache_tab pc ! k)"
  shows "own_cache p pc'"
  unfolding own_cache_def
proof (intro allI impI)
  fix k assume k: "k < length (pcache_tab pc')" "pc_valid (pcache_tab pc' ! k)" "pc_path (pcache_tab pc' ! k) = p"
  have "k < length (pcache_tab pc)" using k(1) assms(2) by simp
  from assms(3) [OF this k(2)] this assms(1) k(3) show "pc_caps (pcache_tab pc' ! k) AND VFS_BACKEND_CAP_FLUSH_DROP = 0"
    unfolding own_cache_def by metis
qed

lemma sync_write_ok:
  assumes ram: "ramfs_inv ram" "ramfs_inv ram'" and inv: "pc_inv ops ram pc" and ino: "ram_inode ram j ino" and own: "own_cache (r_path (ents ram ! j)) pc"
    and meta: "same_meta j ram ram'" and c: "content ram' j = replaced offset buf (content ram j)"
    and buf: "buf \<noteq> []" "offset + length buf \<le> i_size ino"
  shows "pc_inv ops ram' (vfs_page_cache_sync_write scmp ops env ino offset buf pc)
    \<and> own_cache (r_path (ents ram ! j)) (vfs_page_cache_sync_write scmp ops env ino offset buf pc)"
proof -
  have J: "j < length (ents ram)" "r_alive (ents ram ! j)" "vfs_path_normalize (i_path ino) VFS_PATH_MAX = r_path (ents ram ! j)"
      "i_size ino = r_size (ents ram ! j)" using ino by (simp_all add: ram_inode_def)
  have J': "j < length (ents ram')" "r_alive (ents ram' ! j)" using J meta by (simp_all add: same_meta_def)
  have sz: "r_size (ents ram' ! j) = r_size (ents ram ! j)"
    using length_content [OF ram(1) J(1,2)] length_content [OF ram(2) J'] c buf J(4) by simp
  let ?pc = "vfs_pcache_tab_ensure env pc"
  note E = tab_ensure_inv [OF inv, of env]
  have own1: "own_cache (r_path (ents ram ! j)) ?pc" using own E(2) by (simp add: own_cache_def)
  show ?thesis
  proof (cases "vfs_pcache_find scmp (r_path (ents ram ! j)) ?pc")
    case None
    have "pc_inv ops ram' ?pc"
      by (rule pc_inv_none [OF E(1) meta]) (use find_None [OF E(1), of "i_path ino"] None J(3) in simp)
    then show ?thesis using None J(3) buf(1) own1 by (simp add: vfs_page_cache_sync_write_def Let_def)
  next
    case (Some i)
    have v: "i < length (pcache_tab ?pc)" "pc_valid (pcache_tab ?pc ! i)" "pc_path (pcache_tab ?pc ! i) = r_path (ents ram ! j)"
      using find_Some [OF E(1), of "i_path ino" i] Some J(3) by simp_all
    note ok = pc_invD(4) [OF E(1) v(1,2)]
    show ?thesis
    proof (cases "pc_slice (pcache_tab ?pc ! i)")
      case None
      have "pc_inv ops ram' (set_pc i (pcache_tab ?pc ! i) ?pc)"
        by (rule pc_inv_upd [OF E(1) meta v]) (use v other_entry [OF ok meta] None in simp_all)
      then have "pc_inv ops ram' ?pc" by (simp add: set_pc_def)
      then show ?thesis using None Some J(3) buf(1) own1 by (simp add: vfs_page_cache_sync_write_def Let_def)
    next
      case (Some s)
      note C = entry_of_path [OF ram(1) E(1) own1 v J(1,2) Some]
      note T = touch_file_inv [OF E(1) v(1,2)]
      let ?t = "vfs_pcache_touch_file i ?pc"
      let ?e = "pcache_tab ?pc ! i"
      have lim: "\<not> pc_size ?e < (offset + length buf) mod 2 ^ 64"
        using buf(2) C(2) J(4) inv_entry [OF ram(1) J(1,2)] by (auto simp: entry_ok_def split: option.splits)
      obtain e1 s1 where w: "write_loop ops (length buf) offset buf 0 ?e = (0 + length buf, e1)" "pc_slice e1 = Some s1"
          "slice_ok ops s1 (r_size (ents ram ! j))" "slice_data ops s1 (r_size (ents ram ! j)) = replaced offset buf (slice_data ops s (r_size (ents ram ! j)))"
          "pages_ok ops e1" "same_file ?e e1"
        using write_loop_ok [OF Some C(3), of offset buf "length buf" 0] buf(2) J(4) ok by (auto simp: pc_entry_ok_def)
      let ?e2 = "e1\<lparr>pc_dirty := True\<rparr>"
      have run: "vfs_page_cache_sync_write scmp ops env ino offset buf pc = set_pc i ?e2 ?t"
      proof -
        have "\<not> pc_size ?e \<le> offset" using buf C(2) J(4) by (cases buf) auto
        then have "vfs_pcache_write_entry ops i offset buf ?pc = (int (length buf), set_pc i ?e2 ?t)"
          unfolding vfs_pcache_write_entry_def Let_def T(2) if_not_P [OF lim] using Some buf(1) w(1) by simp
        then show ?thesis using \<open>vfs_pcache_find scmp (r_path (ents ram ! j)) ?pc = Some i\<close> Some J(3) buf(1)
          by (simp add: vfs_page_cache_sync_write_def Let_def)
      qed
      have f: "pc_path e1 = pc_path ?e" "pc_size e1 = r_size (ents ram ! j)" "pc_caps e1 = pc_caps ?e" "pc_storage e1 = ST_RAMFS j" "pc_valid e1"
        using w(6) C v by (simp_all add: same_file_def)
      have coh: "entry_coherent ops ram' e1"
        using w(2-4) f C J' meta sz c v(3) by (simp add: entry_coherent_def same_meta_def)
      have "pc_entry_ok ops ram' e1" using coh w(5) ok f(1) by (simp add: pc_entry_ok_def)
      then have ok2: "pc_entry_ok ops ram' ?e2" by simp
      have "pc_inv ops ram' (set_pc i ?e2 ?t)"
        by (rule pc_inv_upd [OF T(1) meta]) (use T(2) v f ok2 in simp_all)
      moreover have "own_cache (r_path (ents ram ! j)) (set_pc i ?e2 ?t)"
        by (rule own_cache_mono [OF own1]) (use T(2) v f in \<open>auto simp: nth_list_update\<close>)
      ultimately show ?thesis using run by simp
    qed
  qed
qed

text \<open>Dropping the cached copy of a file whose backing has become \<open>ram'\<close>.\<close>

lemma drop_entry:
  assumes inv: "pc_inv ops ram pc" and own: "own_cache p pc" and p: "p = r_path (ents ram ! j)" and i: "i < length (pcache_tab pc)" "pc_valid (pcache_tab pc ! i)"
    "pc_path (pcache_tab pc ! i) = p"
    and fl: "vfs_pcache_flush_entry ops ram' (pcache_tab pc ! i) = Some (True, ram2, (pcache_tab pc ! i)\<lparr>pc_dirty := b\<rparr>)"
    and meta: "same_meta j ram ram2"
  shows "\<exists>pc'. vfs_pcache_free_entry ops i ram' pc = Some (ram2, pc') \<and> pc_inv ops ram2 pc' \<and> own_cache p pc'"
proof -
  let ?pc = "set_pc i ((pcache_tab pc ! i)\<lparr>pc_dirty := b\<rparr>) pc"
  obtain pc' z where d: "vfs_pcache_destroy_entry ops i ?pc = Some pc'" "pc_inv ops ram pc'" "pcache_tab pc' = (pcache_tab ?pc)[i := z]" "\<not> pc_valid z"
    using destroy_inv [OF set_dirty_inv [OF inv i(1,2), of b], of i] i(1,2) by auto
  have t: "pcache_tab pc' = (pcache_tab pc)[i := z]" using d(3) by simp
  have no: "pc_valid (pcache_tab pc ! k) \<and> pcache_tab pc' ! k = pcache_tab pc ! k \<and> pc_path (pcache_tab pc ! k) \<noteq> p"
    if "k < length (pcache_tab pc)" "pc_valid (pcache_tab pc' ! k)" for k
  proof -
    have "k \<noteq> i" using that d(4) i(1) by (auto simp: t)
    then have "pcache_tab pc' ! k = pcache_tab pc ! k" by (simp add: t)
    then show ?thesis using pc_invD(5) [OF inv that(1) i(1) _ i(2)] i(3) that(2) \<open>k \<noteq> i\<close> by auto
  qed
  have lt: "length (pcache_tab pc') = length (pcache_tab pc)" by (simp add: t)
  have "pc_inv ops ram2 pc'" by (rule pc_inv_none [OF d(2) meta]) (metis no p lt)
  moreover have "own_cache p pc'" by (rule own_cache_mono [OF own lt]) (metis no)
  moreover have "vfs_pcache_free_entry ops i ram' pc = Some (ram2, pc')" using fl d(1) by (simp add: vfs_pcache_free_entry_def)
  ultimately show ?thesis by blast
qed

lemma drop_clean:
  assumes inv: "pc_inv ops ram pc" and ino: "ram_inode ram j ino" and own: "own_cache (r_path (ents ram ! j)) pc"
    and meta: "same_meta j ram ram'" and clean: "\<not> cached_dirty (r_path (ents ram ! j)) pc"
  shows "\<exists>pc'. vfs_page_cache_drop scmp ops env (i_path ino) ram' pc = Some (ram', pc') \<and> pc_inv ops ram' pc'
    \<and> own_cache (r_path (ents ram ! j)) pc'"
proof -
  let ?pc = "vfs_pcache_tab_ensure env pc" and ?p = "r_path (ents ram ! j)"
  note E = tab_ensure_inv [OF inv, of env]
  have path: "vfs_path_normalize (i_path ino) VFS_PATH_MAX = ?p" using ino by (simp add: ram_inode_def)
  have own1: "own_cache ?p ?pc" using own E(2) by (simp add: own_cache_def)
  show ?thesis
  proof (cases "vfs_pcache_find scmp ?p ?pc")
    case None
    have "pc_inv ops ram' ?pc"
      by (rule pc_inv_none [OF E(1) meta]) (use find_None [OF E(1), of "i_path ino"] None path in simp)
    then show ?thesis using None path own1 by (simp add: vfs_page_cache_drop_def Let_def)
  next
    case (Some i)
    have v: "i < length (pcache_tab ?pc)" "pc_valid (pcache_tab ?pc ! i)" "pc_path (pcache_tab ?pc ! i) = ?p"
      using find_Some [OF E(1), of "i_path ino" i] Some path by simp_all
    have "\<not> pc_dirty (pcache_tab ?pc ! i) \<or> pc_slice (pcache_tab ?pc ! i) = None" using clean v E(2) by (auto simp: cached_dirty_def)
    then have fl: "vfs_pcache_flush_entry ops ram' (pcache_tab ?pc ! i)
        = Some (True, ram', (pcache_tab ?pc ! i)\<lparr>pc_dirty := pc_dirty (pcache_tab ?pc ! i)\<rparr>)"
      by (auto simp: vfs_pcache_flush_entry_def split: option.splits)
    show ?thesis using drop_entry [OF E(1) own1 refl v fl meta] Some path by (simp add: vfs_page_cache_drop_def Let_def)
  qed
qed

text \<open>A dirty copy is written back first, over whatever the file has become.\<close>

lemma drop_reverts:
  assumes ram: "ramfs_inv ram" "ramfs_inv ram'" and inv: "pc_inv ops ram pc" and ino: "ram_inode ram j ino"
    and own: "own_cache (r_path (ents ram ! j)) pc" and meta: "same_meta j ram ram'" and dirty: "cached_dirty (r_path (ents ram ! j)) pc"
    and a: "r_data (ents ram' ! j) = Some a" "r_size (ents ram ! j) \<le> r_capacity (ents ram' ! j)"
  shows "\<exists>ram2 pc'. vfs_page_cache_drop scmp ops env (i_path ino) ram' pc = Some (ram2, pc') \<and> ramfs_inv ram2 \<and> pc_inv ops ram2 pc'
    \<and> own_cache (r_path (ents ram ! j)) pc' \<and> content ram2 j = content ram j \<and> same_meta j ram ram2"
proof -
  let ?pc = "vfs_pcache_tab_ensure env pc" and ?p = "r_path (ents ram ! j)"
  note E = tab_ensure_inv [OF inv, of env]
  have J: "j < length (ents ram)" "r_alive (ents ram ! j)" "vfs_path_normalize (i_path ino) VFS_PATH_MAX = ?p" using ino by (simp_all add: ram_inode_def)
  have J': "j < length (ents ram')" "r_alive (ents ram' ! j)" using J meta by (simp_all add: same_meta_def)
  have own1: "own_cache ?p ?pc" using own E(2) by (simp add: own_cache_def)
  obtain i where i: "i < length (pcache_tab ?pc)" "pc_valid (pcache_tab ?pc ! i)" "pc_path (pcache_tab ?pc ! i) = ?p" "pc_dirty (pcache_tab ?pc ! i)"
      "pc_slice (pcache_tab ?pc ! i) \<noteq> None" using dirty E(2) by (auto simp: cached_dirty_def)
  obtain s where s: "pc_slice (pcache_tab ?pc ! i) = Some s" using i(5) by blast
  note C = entry_of_path [OF ram(1) E(1) own1 i(1-3) J(1,2) s]
  have fd: "pc_caps (pcache_tab ?pc ! i) AND VFS_BACKEND_CAP_FLUSH_DROP = 0" using own1 i unfolding own_cache_def by blast
  have found: "vfs_pcache_find scmp ?p ?pc = Some i"
  proof (cases "vfs_pcache_find scmp ?p ?pc")
    case None
    then show ?thesis using find_None [OF E(1), of "i_path ino" i] i J(3) by simp
  next
    case (Some k)
    then show ?thesis using find_Some [OF E(1), of "i_path ino" k] J(3) pc_invD(5) [OF E(1), of k i] i by simp
  qed
  obtain b where b: "heap ram' a = Some b" "length b = r_capacity (ents ram' ! j)" by (rule heap_of_entry [OF ram(2) J' a(1)])
  have len: "length (content ram j) = r_size (ents ram ! j)" by (rule length_content [OF ram(1) J(1,2)])
  let ?b = "content ram j @ drop (r_size (ents ram ! j)) b"
  define ram2 where "ram2 = set_entry j ((ents ram' ! j)\<lparr>r_size := r_size (ents ram ! j)\<rparr>) (ram'\<lparr>heap := (heap ram')(a := Some ?b)\<rparr>)"
  have R: "ramfs_inv ram2 \<and> same_meta j ram' ram2 \<and> content ram2 j = take (r_size (ents ram ! j)) ?b"
    by (rule rewrite_buffer [OF ram(2) J' a(1) _ a(2) ram2_def]) (use b len a(2) in simp)
  have cp: "pg_copy ops s 0 (pc_size (pcache_tab ?pc ! i)) = Some (content ram j)"
    using copy_data [OF C(3), of 0 "r_size (ents ram ! j)"] C(2,4) len by simp
  have "mem_write (heap ram') a 0 (content ram j) = Some ((heap ram')(a := Some ?b))"
    using mem_write_ok [of "heap ram'" a b 0 "content ram j"] b a(2) len by simp
  then have fl: "vfs_pcache_flush_entry ops ram' (pcache_tab ?pc ! i) = Some (True, ram2, (pcache_tab ?pc ! i)\<lparr>pc_dirty := False\<rparr>)"
    using s i fd C(1,2,5) J'(1) a(1) cp by (simp add: vfs_pcache_flush_entry_def ram2_def)
  have m2: "same_meta j ram ram2" using same_meta_trans [OF meta] R by blast
  show ?thesis using drop_entry [OF E(1) own1 refl i(1-3) fl m2] found J(3) R len m2 by (auto simp: vfs_page_cache_drop_def Let_def)
qed

lemma ram_inode_resize:
  assumes ino: "ram_inode ram j ino" and meta: "same_meta j ram ram'"
  shows "ram_inode ram' j (ino\<lparr>i_size := r_size (ents ram' ! j)\<rparr>)"
  using assms by (simp add: ram_inode_def same_meta_def entry_is_dir_def)

lemma write_cached:
  assumes ram: "ramfs_inv ram" and inv: "pc_inv ops ram pc" and ino: "ram_inode ram j ino" and own: "own_cache (r_path (ents ram ! j)) pc"
    and al: "alloc_ok (be_alloc be) ram" and len: "length buf < 2 ^ 64"
    and safe: "offset + length buf \<le> i_size ino \<or> \<not> cached_dirty (r_path (ents ram ! j)) pc"
  shows "\<exists>r ino' ram' pc'. vfs_backend_ramfs_write scmp ops be ino offset buf ram pc = Some (r, ino', ram', pc')
    \<and> ramfs_inv ram' \<and> pc_inv ops ram' pc' \<and> own_cache (r_path (ents ram ! j)) pc' \<and> ram_inode ram' j ino' \<and> same_meta j ram ram'
    \<and> (r < 0 \<and> ram' = ram \<or> r = int (length buf)
        \<and> (buf = [] \<and> ram' = ram
          \<or> (\<exists>gap. length gap = offset - length (content ram j)
              \<and> content ram' j = take offset (content ram j) @ gap @ buf @ drop (offset + length buf) (content ram j))))"
proof -
  let ?p = "r_path (ents ram ! j)"
  have J: "storage ino = ST_RAMFS j" "j < length (ents ram)" "r_alive (ents ram ! j)" "\<not> is_dir ino" "i_size ino = r_size (ents ram ! j)"
    using ino by (simp_all add: ram_inode_def)
  have clen: "length (content ram j) = i_size ino" using length_content [OF ram J(2,3)] J(5) by simp
  have same: "ino\<lparr>i_size := r_size (ents ram ! j)\<rparr> = ino" using J(5) by simp
  obtain w ram1 where w: "ramfs_write (be_alloc be) j offset buf ram = Some (w, ram1)" and inv1: "ramfs_inv ram1" and meta: "same_meta j ram ram1"
    and eff: "case w of Inl e \<Rightarrow> ram1 = ram
     | Inr n \<Rightarrow> n = length buf \<and> (buf = [] \<longrightarrow> ram1 = ram)
         \<and> (buf \<noteq> [] \<longrightarrow> offset + length buf \<le> RAMFS_MAX_FILE_SIZE
            \<and> (\<exists>gap. length gap = offset - length (content ram j)
                \<and> content ram1 j = take offset (content ram j) @ gap @ buf @ drop (offset + length buf) (content ram j)))"
    using write_effect [OF ram J(2,3) al len, of offset] by blast
  let ?ino = "ino\<lparr>i_size := r_size (ents ram1 ! j)\<rparr>"
  have ino1: "ram_inode ram1 j ?ino" by (rule ram_inode_resize [OF ino meta])
  consider (err) e where "w = Inl e" | (empty) "w = Inr 0" "buf = []" | (data) "w = Inr (length buf)" "buf \<noteq> []"
    using eff by (cases w; cases buf) auto
  then show ?thesis
  proof cases
    case err
    have "\<exists>r < 0. vfs_backend_ramfs_write scmp ops be ino offset buf ram pc = Some (r, ino, ram, pc)"
      using J err w eff by (cases e) (simp_all add: vfs_backend_ramfs_write_def)
    then show ?thesis using ram inv own ino by auto
  next
    case empty
    have "vfs_backend_ramfs_write scmp ops be ino offset buf ram pc = Some (0, ino, ram, pc)"
      using J empty w eff same by (simp add: vfs_backend_ramfs_write_def Let_def)
    then show ?thesis using ram inv own ino empty by auto
  next
    case data
    then obtain gap where gap: "length gap = offset - length (content ram j)"
        "content ram1 j = take offset (content ram j) @ gap @ buf @ drop (offset + length buf) (content ram j)" using eff by auto
    have sz: "r_size (ents ram1 ! j) = max (i_size ino) (offset + length buf)"
      using length_content [OF inv1, of j] J meta gap clen by (auto simp: same_meta_def max_def)
    show ?thesis
    proof (cases "offset + length buf \<le> i_size ino")
      case True
      have id: "?ino = ino" using sz True J(5) by (simp add: max_def)
      have g: "gap = []" using gap(1) clen True by simp
      have rep: "content ram1 j = replaced offset buf (content ram j)" using gap(2) g by (simp add: replaced_def)
      let ?pc = "vfs_page_cache_sync_write scmp ops (be_pc be) ino offset buf pc"
      have run: "vfs_backend_ramfs_write scmp ops be ino offset buf ram pc = Some (int (length buf), ino, ram1, ?pc)"
        using J(1,4) data w id sz True by (simp add: vfs_backend_ramfs_write_def Let_def)
      note S = sync_write_ok [OF ram inv1 inv ino own meta rep data(2) True, of "be_pc be"]
      show ?thesis
        by (rule exI [of _ "int (length buf)"], rule exI [of _ ino], rule exI [of _ ram1], rule exI [of _ ?pc])
          (use run S inv1 meta ino1 id gap in simp)
    next
      case False
      then obtain pc1 where d: "vfs_page_cache_drop scmp ops (be_pc be) (i_path ino) ram1 pc = Some (ram1, pc1)" "pc_inv ops ram1 pc1" "own_cache ?p pc1"
        using drop_clean [OF inv ino own meta] safe by blast
      have run: "vfs_backend_ramfs_write scmp ops be ino offset buf ram pc = Some (int (length buf), ?ino, ram1, pc1)"
        using J(1,4) data w d(1) sz False by (simp add: vfs_backend_ramfs_write_def Let_def)
      show ?thesis
        by (rule exI [of _ "int (length buf)"], rule exI [of _ ?ino], rule exI [of _ ram1], rule exI [of _ pc1])
          (use run d inv1 meta ino1 gap in simp)
    qed
  qed
qed

lemma truncate_cached:
  assumes ram: "ramfs_inv ram" and inv: "pc_inv ops ram pc" and ino: "ram_inode ram j ino" and own: "own_cache (r_path (ents ram ! j)) pc"
    and al: "alloc_ok (be_alloc be) ram"
  shows "\<exists>r ino' ram' pc'. vfs_backend_ramfs_truncate scmp ops be ino n ram pc = Some (r, ino', ram', pc')
    \<and> ramfs_inv ram' \<and> pc_inv ops ram' pc' \<and> own_cache (r_path (ents ram ! j)) pc' \<and> ram_inode ram' j ino' \<and> same_meta j ram ram'
    \<and> (r < 0 \<and> ram' = ram \<or> r = 0 \<and> content ram' j =
          (if cached_dirty (r_path (ents ram ! j)) pc then content ram j
           else take n (content ram j) @ replicate (n - length (content ram j)) 0)) \<and> (n < i_size ino \<longrightarrow> r = 0)"
proof -
  let ?p = "r_path (ents ram ! j)"
  have J: "storage ino = ST_RAMFS j" "j < length (ents ram)" "r_alive (ents ram ! j)" "\<not> is_dir ino" "i_size ino = r_size (ents ram ! j)"
    and nd: "\<not> entry_is_dir (ents ram ! j)" using ino by (simp_all add: ram_inode_def)
  have clen: "length (content ram j) = i_size ino" using length_content [OF ram J(2,3)] J(5) by simp
  obtain w ram1 where w: "ramfs_truncate (be_alloc be) j n ram = Some (w, ram1)" and inv1: "ramfs_inv ram1" and meta: "same_meta j ram ram1"
    and eff: "case w of REND_ERR e \<Rightarrow> ram1 = ram | REND_SUCCESS \<Rightarrow> content ram1 j = take n (content ram j) @ replicate (n - length (content ram j)) 0"
    using truncate_effect [OF ram J(2,3) al, of n] by blast
  have J1: "j < length (ents ram1)" "r_alive (ents ram1 ! j)" using J meta by (simp_all add: same_meta_def)
  show ?thesis
  proof (cases w)
    case (REND_ERR e)
    then have "vfs_backend_ramfs_truncate scmp ops be ino n ram pc = Some (- LINUX_ENOMEM, ino, ram, pc)"
      using J w eff by (simp add: vfs_backend_ramfs_truncate_def)
    moreover have "\<not> n < i_size ino"
    proof
      assume n: "n < i_size ino"
      have "r_size (ents ram ! j) \<le> RAMFS_MAX_FILE_SIZE" using inv_entry [OF ram J(2,3)] by (auto simp: entry_ok_def split: option.splits)
      then have "w = REND_SUCCESS" using n w J(2,3,5) nd by (auto simp: ramfs_truncate_def split: if_splits)
      then show False using REND_ERR by simp
    qed
    ultimately show ?thesis using ram inv own ino by auto
  next
    case REND_SUCCESS
    have c1: "content ram1 j = take n (content ram j) @ replicate (n - length (content ram j)) 0" using eff REND_SUCCESS by simp
    have "\<exists>ram2 pc2. vfs_page_cache_drop scmp ops (be_pc be) (i_path ino) ram1 pc = Some (ram2, pc2) \<and> ramfs_inv ram2 \<and> pc_inv ops ram2 pc2
        \<and> own_cache ?p pc2 \<and> same_meta j ram ram2 \<and> content ram2 j = (if cached_dirty ?p pc then content ram j else content ram1 j)"
    proof (cases "cached_dirty ?p pc")
      case False
      then show ?thesis using drop_clean [OF inv ino own meta False, of "be_pc be"] inv1 meta by (simp only: if_False) blast
    next
      case dirty: True
      obtain i s where "i < length (pcache_tab pc)" "pc_valid (pcache_tab pc ! i)" "pc_path (pcache_tab pc ! i) = ?p" "pc_slice (pcache_tab pc ! i) = Some s"
        using dirty by (auto simp: cached_dirty_def)
      then have pos: "0 < r_size (ents ram ! j)" using entry_of_path(6) [OF ram inv own _ _ _ J(2,3)] by blast
      have "\<exists>a. r_data (ents ram1 ! j) = Some a \<and> r_size (ents ram ! j) \<le> r_capacity (ents ram1 ! j)"
      proof (cases "n < r_size (ents ram ! j)")
        case True
        then have e1: "ents ram1 ! j = (ents ram ! j)\<lparr>r_size := n\<rparr>"
          using w J REND_SUCCESS by (auto simp: ramfs_truncate_def split: if_splits)
        obtain a where "r_data (ents ram ! j) = Some a" using content_data [OF pos ram J(2,3)] by blast
        then show ?thesis using e1 inv_entry [OF ram J(2,3)] by (auto simp: entry_ok_def)
      next
        case False
        have s1: "r_size (ents ram1 ! j) = n" using length_content [OF inv1 J1] c1 clen J(5) False by simp
        then obtain a where "r_data (ents ram1 ! j) = Some a" using content_data [OF _ inv1 J1] pos False by auto
        then show ?thesis using s1 False inv_entry [OF inv1 J1] by (auto simp: entry_ok_def)
      qed
      then obtain a where a: "r_data (ents ram1 ! j) = Some a" "r_size (ents ram ! j) \<le> r_capacity (ents ram1 ! j)" by blast
      show ?thesis using drop_reverts [OF ram inv1 inv ino own meta dirty a, of "be_pc be"] dirty by (simp only: if_True) blast
    qed
    then obtain ram2 pc2 where d: "vfs_page_cache_drop scmp ops (be_pc be) (i_path ino) ram1 pc = Some (ram2, pc2)" "ramfs_inv ram2" "pc_inv ops ram2 pc2"
        "own_cache ?p pc2" "same_meta j ram ram2" "content ram2 j = (if cached_dirty ?p pc then content ram j else content ram1 j)" by blast
    have "vfs_backend_ramfs_truncate scmp ops be ino n ram pc = Some (0, ino\<lparr>i_size := r_size (ents ram2 ! j)\<rparr>, ram2, pc2)"
      using J(1,4) w REND_SUCCESS d(1) by (simp add: vfs_backend_ramfs_truncate_def)
    then show ?thesis using d ram_inode_resize [OF ino d(5)] c1 by auto
  qed
qed

text \<open>Growing a file with a dirty copy.\<close>

lemma write_lost:
  assumes ram: "ramfs_inv ram" and inv: "pc_inv ops ram pc" and ino: "ram_inode ram j ino" and own: "own_cache (r_path (ents ram ! j)) pc"
    and al: "alloc_ok (be_alloc be) ram" and len: "length buf < 2 ^ 64" and dirty: "cached_dirty (r_path (ents ram ! j)) pc"
    and grow: "i_size ino < offset + length buf" "buf \<noteq> []"
  shows "\<exists>r ino' ram' pc'. vfs_backend_ramfs_write scmp ops be ino offset buf ram pc = Some (r, ino', ram', pc') \<and> content ram' j = content ram j
    \<and> (r < 0 \<or> r = int (length buf) \<and> i_size ino' = offset + length buf)"
proof -
  have J: "storage ino = ST_RAMFS j" "j < length (ents ram)" "r_alive (ents ram ! j)" "\<not> is_dir ino" "i_size ino = r_size (ents ram ! j)"
    using ino by (simp_all add: ram_inode_def)
  have clen: "length (content ram j) = i_size ino" using length_content [OF ram J(2,3)] J(5) by simp
  obtain w ram1 where w: "ramfs_write (be_alloc be) j offset buf ram = Some (w, ram1)" and inv1: "ramfs_inv ram1" and meta: "same_meta j ram ram1"
    and eff: "case w of Inl e \<Rightarrow> ram1 = ram
     | Inr n \<Rightarrow> n = length buf \<and> (buf = [] \<longrightarrow> ram1 = ram)
         \<and> (buf \<noteq> [] \<longrightarrow> offset + length buf \<le> RAMFS_MAX_FILE_SIZE
            \<and> (\<exists>gap. length gap = offset - length (content ram j)
                \<and> content ram1 j = take offset (content ram j) @ gap @ buf @ drop (offset + length buf) (content ram j)))"
    using write_effect [OF ram J(2,3) al len, of offset] by blast
  have J1: "j < length (ents ram1)" "r_alive (ents ram1 ! j)" using J meta by (simp_all add: same_meta_def)
  show ?thesis
  proof (cases w)
    case (Inl e)
    have "\<exists>r < 0. vfs_backend_ramfs_write scmp ops be ino offset buf ram pc = Some (r, ino, ram, pc)"
      using J Inl w eff by (cases e) (simp_all add: vfs_backend_ramfs_write_def)
    then show ?thesis by auto
  next
    case (Inr k)
    then obtain gap where gap: "k = length buf" "length gap = offset - length (content ram j)"
        "content ram1 j = take offset (content ram j) @ gap @ buf @ drop (offset + length buf) (content ram j)" using eff grow(2) by auto
    have sz: "r_size (ents ram1 ! j) = offset + length buf"
      using length_content [OF inv1 J1] gap clen grow(1) by auto
    obtain a where "r_data (ents ram1 ! j) = Some a" using content_data [OF _ inv1 J1] sz grow(2) by auto
    moreover have "r_size (ents ram ! j) \<le> r_capacity (ents ram1 ! j)"
      using sz grow(1) J(5) inv_entry [OF inv1 J1] calculation by (auto simp: entry_ok_def)
    ultimately obtain ram2 pc2 where "vfs_page_cache_drop scmp ops (be_pc be) (i_path ino) ram1 pc = Some (ram2, pc2)" "content ram2 j = content ram j"
      using drop_reverts [OF ram inv1 inv ino own meta dirty, of a "be_pc be"] by blast
    then show ?thesis using J(1,4) w Inr sz gap(1) grow(1) by (simp add: vfs_backend_ramfs_write_def Let_def)
  qed
qed

end

lemma evict_newest:
  assumes "pc_valid (pcache_tab pc ! i)" "set (pcache_inactive pc) \<subseteq> {i}"
  shows "\<exists>pc1. evict_victim (vfs_pcache_touch_file i pc) = Some (i, pc1)"
proof -
  have "removeAll i (pcache_inactive pc) = []" using assms(2) by (cases "pcache_inactive pc") (auto simp: filter_empty_conv removeAll_filter_not_eq)
  then show ?thesis using assms(1) by (simp add: vfs_pcache_touch_file_def evict_victim_def Let_def)
qed

section \<open>A concrete page slice\<close>

text \<open>The file length and its pages by number, with the page size of the kernel core.\<close>

type_synonym flat_slice = "nat \<times> (nat \<Rightarrow> u8 list option)"

definition flat_ops :: "flat_slice page_ops" where
  "flat_ops = \<lparr>pg_size = 4096, pg_count = (\<lambda>n. (n + 4095) div 4096), pg_off = (\<lambda>k. k div 4096), pg_in = (\<lambda>k. k mod 4096),
     pg_len = fst, pg_create = (\<lambda>n. Some (n, \<lambda>g. None)), pg_insert = (\<lambda>s g b. (True, fst s, (snd s)(g \<mapsto> b))),
     pg_lookup = snd, pg_store = (\<lambda>s g b. (fst s, (snd s)(g \<mapsto> b))),
     pg_copy = (\<lambda>s off len. if \<forall>k \<in> {off..<off + len}. snd s (k div 4096) \<noteq> None
                  then Some (map (\<lambda>k. the (snd s (k div 4096)) ! (k mod 4096)) [off..<off + len]) else None),
     pg_clone = Some\<rparr>"

lemma flat_page: "k < n \<Longrightarrow> (k div 4096) * 4096 < (n::nat)"
  by (meson div_times_less_eq_dividend le_less_trans)

interpretation flat: page_slice_bytes flat_ops
proof unfold_locales
  fix s :: flat_slice and n off len assume s: "slice_ok flat_ops s n" and le: "off + len \<le> n"
  have "snd s (k div 4096) \<noteq> None" if "k < n" for k
    using s flat_page [OF that] unfolding slice_ok_def by (auto simp: flat_ops_def)
  then have "\<forall>k \<in> {off..<off + len}. snd s (k div 4096) \<noteq> None" using le by simp
  then show "pg_copy flat_ops s off len = Some (map (slice_byte flat_ops s) [off..<off + len])"
    by (auto simp: flat_ops_def slice_byte_def)
qed (auto simp: flat_ops_def)

interpretation flat_fs: cached_fs flat_ops strncmp ..

section \<open>Properties\<close>

lemma cached_fsI: "page_slice_bytes ops \<Longrightarrow> strcmp_api scmp \<Longrightarrow> cached_fs ops scmp"
  by (rule cached_fs.intro)

text \<open>A file of three bytes, without and with a modified cached copy.\<close>

definition three_bytes :: ramfs where
  "three_bytes = \<lparr>ents = [entry_zero\<lparr>r_path := ''/a'', r_alive := True, r_data := Some 7, r_size := 3, r_capacity := 4\<rparr>],
     heap = (\<lambda>a. None)(7 := Some [1, 2, 3, 0])\<rparr>"

definition three_ino :: vfs_inode where
  "three_ino = inode_zero\<lparr>i_path := ''/a'', storage := ST_RAMFS 0, backend_caps := 7, i_size := 3\<rparr>"

definition no_cache :: "flat_slice vfs_pcache" where
  "no_cache = \<lparr>pcache_tab = [], pcache_ready = True, pcache_active = [], pcache_inactive = []\<rparr>"

definition dirty_cache :: "flat_slice vfs_pcache" where
  "dirty_cache = \<lparr>pcache_tab = [\<lparr>pc_path = ''/a'', pc_slice = Some (3, [0 \<mapsto> [1, 2, 3] @ replicate 4093 0]), pc_size = 3, pc_caps = 7,
       pc_storage = ST_RAMFS 0, pc_dirty = True, pc_valid = True, pages_active = [], pages_inactive = []\<rparr>],
     pcache_ready = True, pcache_active = [0], pcache_inactive = []\<rparr>"

definition calm_env :: be_env where
  "calm_env = \<lparr>be_pc = \<lparr>pe_init = True, pe_push = True, pe_page = \<lambda>g. True\<rparr>, be_alloc = (\<lambda>n. Some (8, replicate n 0)),
     be_push = True, be_names = True, be_name_push = \<lambda>k. True\<rparr>"

lemma path_a: "vfs_path_normalize ''/a'' VFS_PATH_MAX = ''/a''"
  by code_simp

lemma three_ok: "ramfs_inv three_bytes" "ram_inode three_bytes 0 three_ino" "alloc_ok (be_alloc calm_env) three_bytes" "no_oom flat_ops (be_pc calm_env)"
  "content three_bytes 0 = [1, 2, 3]"
  using path_a by (simp_all add: ramfs_inv_def three_bytes_def entry_ok_def entry_zero_def no_sharing_def ram_inode_def three_ino_def inode_zero_def
      entry_is_dir_def alloc_ok_def calm_env_def no_oom_def flat_ops_def content_def)

lemma no_cache_ok: "pc_inv flat_ops three_bytes no_cache" "own_cache p no_cache" "\<not> cached_dirty p no_cache"
  by (simp_all add: pc_inv_def lru_ok_def no_cache_def own_cache_def cached_dirty_def)

lemma dirty_slice: "slice_ok flat_ops (3, [0 \<mapsto> [1, 2, 3] @ replicate 4093 0]) 3"
  "slice_data flat_ops (3, [0 \<mapsto> [1, 2, 3] @ replicate 4093 0]) 3 = [1, 2, 3]"
  by (auto simp: slice_ok_def slice_data_def slice_byte_def flat_ops_def upt_rec)

lemma dirty_cache_ok: "pc_inv flat_ops three_bytes dirty_cache" "own_cache (r_path (ents three_bytes ! 0)) dirty_cache"
  "cached_dirty (r_path (ents three_bytes ! 0)) dirty_cache"
proof -
  let ?e = "pcache_tab dirty_cache ! 0"
  have "entry_coherent flat_ops three_bytes ?e"
    using dirty_slice three_ok(5) unfolding entry_coherent_def by (simp add: dirty_cache_def three_bytes_def)
  then have "pc_entry_ok flat_ops three_bytes ?e" using path_a by (simp add: pc_entry_ok_def dirty_cache_def pages_ok_def)
  then show "pc_inv flat_ops three_bytes dirty_cache" unfolding pc_inv_def by (auto simp: lru_ok_def dirty_cache_def)
  show "own_cache (r_path (ents three_bytes ! 0)) dirty_cache" "cached_dirty (r_path (ents three_bytes ! 0)) dirty_cache"
    by (simp_all add: own_cache_def cached_dirty_def dirty_cache_def three_bytes_def)
qed

text \<open>C9. Reading a ramfs file through the page cache returns exactly the requested range of the file's contents, whether the
  file was cached, is filled into the cache, evicts another file or is too large to be cached, and keeps the cache coherent with the
  file system: the lists hold the valid entries and every cached copy equals the file's contents.\<close>

theorem cached_read_correct:
  assumes "page_slice_bytes ops" "strcmp_api scmp" "ramfs_inv ram" "pc_inv ops ram pc" "ram_inode ram j ino" "no_oom ops (be_pc be)"
    and "own_cache (r_path (ents ram ! j)) pc"
  shows "\<exists>pc'. vfs_backend_ramfs_read scmp ops be m ino offset len ram pc = Some (Inr (take len (drop offset (content ram j))), ram, pc')
    \<and> pc_inv ops ram pc' \<and> own_cache (r_path (ents ram ! j)) pc'"
  by (rule cached_fs.read_cached [OF cached_fsI [OF assms(1,2)] assms(3-7)])

theorem cached_read_correct_witness:
  "\<exists>pc'. vfs_backend_ramfs_read strncmp flat_ops calm_env (\<lambda>a. 0) three_ino 1 9 three_bytes no_cache = Some (Inr [2, 3], three_bytes, pc')
    \<and> pc_inv flat_ops three_bytes pc'"
  using cached_read_correct [OF flat.page_slice_bytes_axioms strncmp.strcmp_api_axioms three_ok(1) no_cache_ok(1) three_ok(2,4) no_cache_ok(2),
      of "\<lambda>a. 0" 1 9] three_ok(5) by auto

text \<open>C8. A write to a ramfs file that stays within the file, or finds no modified cached copy, behaves as the write to the file
  alone: it fails and changes nothing, or replaces the bytes from the offset on; the metadata and every other file are kept, the caller's
  inode is up to date, and the cached copies agree with the files again.\<close>

theorem cached_write_correct:
  assumes "page_slice_bytes ops" "strcmp_api scmp" "ramfs_inv ram" "pc_inv ops ram pc" "ram_inode ram j ino"
    and "own_cache (r_path (ents ram ! j)) pc" "alloc_ok (be_alloc be) ram" "length buf < 2 ^ 64"
    and "offset + length buf \<le> i_size ino \<or> \<not> cached_dirty (r_path (ents ram ! j)) pc"
  shows "\<exists>r ino' ram' pc'. vfs_backend_ramfs_write scmp ops be ino offset buf ram pc = Some (r, ino', ram', pc')
    \<and> ramfs_inv ram' \<and> pc_inv ops ram' pc' \<and> own_cache (r_path (ents ram ! j)) pc' \<and> ram_inode ram' j ino' \<and> same_meta j ram ram'
    \<and> (r < 0 \<and> ram' = ram \<or> r = int (length buf)
        \<and> (buf = [] \<and> ram' = ram
          \<or> (\<exists>gap. length gap = offset - length (content ram j)
              \<and> content ram' j = take offset (content ram j) @ gap @ buf @ drop (offset + length buf) (content ram j))))"
  by (rule cached_fs.write_cached [OF cached_fsI [OF assms(1,2)] assms(3-9)])

theorem cached_write_correct_witness:
  "\<exists>r ino' ram' pc'. vfs_backend_ramfs_write strncmp flat_ops calm_env three_ino 1 [9] three_bytes dirty_cache = Some (r, ino', ram', pc')
    \<and> pc_inv flat_ops ram' pc'"
proof -
  have "1 + length [9::u8] \<le> i_size three_ino" by (simp add: three_ino_def)
  then show ?thesis
    using cached_write_correct [OF flat.page_slice_bytes_axioms strncmp.strcmp_api_axioms three_ok(1) dirty_cache_ok(1) three_ok(2)
        dirty_cache_ok(2) three_ok(3), of "[9]" 1] by auto
qed

text \<open>C37. Resizing a file that has a modified cached copy loses the change: a truncate to a smaller size reports success and leaves
  the contents as they were, and a write that grows the file fails or reports all its bytes as written, and in both cases leaves them too, because dropping the cached copy first
  writes the old bytes and the old size back over the resized file.\<close>

theorem dirty_resize_lost:
  assumes "page_slice_bytes ops" "strcmp_api scmp" "ramfs_inv ram" "pc_inv ops ram pc" "ram_inode ram j ino"
    and "own_cache (r_path (ents ram ! j)) pc" "alloc_ok (be_alloc be) ram" "cached_dirty (r_path (ents ram ! j)) pc"
    and "length buf < 2 ^ 64" "i_size ino < offset + length buf" "buf \<noteq> []" "n < i_size ino"
  shows "(\<exists>ino' ram' pc'. vfs_backend_ramfs_truncate scmp ops be ino n ram pc = Some (0, ino', ram', pc')
      \<and> content ram' j = content ram j)
    \<and> (\<exists>r ino' ram' pc'. vfs_backend_ramfs_write scmp ops be ino offset buf ram pc = Some (r, ino', ram', pc')
      \<and> (r < 0 \<or> r = int (length buf) \<and> i_size ino' = offset + length buf) \<and> content ram' j = content ram j)"
proof -
  note C = cached_fsI [OF assms(1,2)]
  have "\<exists>ino' ram' pc'. vfs_backend_ramfs_truncate scmp ops be ino n ram pc = Some (0, ino', ram', pc') \<and> content ram' j = content ram j"
    using cached_fs.truncate_cached [OF C assms(3-7), of n] assms(8,12) by auto
  moreover have "\<exists>r ino' ram' pc'. vfs_backend_ramfs_write scmp ops be ino offset buf ram pc = Some (r, ino', ram', pc')
      \<and> (r < 0 \<or> r = int (length buf) \<and> i_size ino' = offset + length buf) \<and> content ram' j = content ram j"
    using cached_fs.write_lost [OF C assms(3-7,9,8,10,11)] by blast
  ultimately show ?thesis by blast
qed

theorem dirty_resize_lost_witness:
  "\<exists>ino' ram' pc'. vfs_backend_ramfs_truncate strncmp flat_ops calm_env three_ino 1 three_bytes dirty_cache = Some (0, ino', ram', pc')
    \<and> content ram' 0 = [1, 2, 3]"
proof -
  have "i_size three_ino < 3 + length [9::u8]" "1 < i_size three_ino" by (simp_all add: three_ino_def)
  then show ?thesis
    using dirty_resize_lost [OF flat.page_slice_bytes_axioms strncmp.strcmp_api_axioms three_ok(1) dirty_cache_ok(1) three_ok(2)
        dirty_cache_ok(2) three_ok(3) dirty_cache_ok(3), of "[9]" 3 1] three_ok(5) by auto
qed

end
