(* ===== verification/User_Mm.thy ===== *)
theory User_Mm
  imports Prelude
begin

text \<open>
  User memory (\<^verbatim>\<open>linux_layer/mm/linux_mm_radix.c\<close>): ranges of user pages are mapped, unmapped, searched, copied
  and protected through the page tables, the radix tree of reservations and the physical memory manager of
  the kernel core.

  The core is the record \<open>mm_core\<close> of the functions that are called, over an abstract state \<open>'v\<close>: the address space with its page
  tables, its radix tree, the frames and the range locks. Virtual addresses are 64-bit words with the
  arithmetic of C; frame and page numbers are natural numbers. A page has 4096 bytes, and \<^verbatim>\<open>ROUND_UP\<close> wraps around as
  the usual mask formula does. The per-CPU map handler always exists.
\<close>

section \<open>The kernel core\<close>

abbreviation PAGE_SIZE :: nat where "PAGE_SIZE \<equiv> 4096"

datatype mm_ret = MM_OK | MM_IN_PARAM | MM_RENDEZVOS | MM_NOFOUND | MM_OTHER

text \<open>A leaf of the radix tree: its page, its flags, and the list of reverse mappings it is linked in, empty when it is detached.
  An element of the list is a frame, or another leaf (\<open>None\<close>).\<close>

record rdx_leaf =
  lf_va :: u64
  lf_flags :: u64
  lf_ring :: "nat option list"

record mm_consts =
  PAGE_ENTRY_VALID :: u64
  PAGE_ENTRY_WRITE :: u64
  PAGE_ENTRY_READ :: u64
  PAGE_ENTRY_EXEC :: u64
  PAGE_ENTRY_USER :: u64
  PAGE_ENTRY_COW :: u64
  PAGE_ENTRY_LAZY :: u64
  PAGE_ENTRY_REMAP :: u64
  entry_flags_rm_sw_flags :: "u64 \<Rightarrow> u64"
  BUDDY_MAXORDER :: nat
  USER_SPACE_TOP :: u64
  KERNEL_VIRT_OFFSET :: u64

record 'v mm_core = mm_consts +
  user_table :: "'v \<Rightarrow> bool"
  have_mapped :: "'v \<Rightarrow> nat \<Rightarrow> mm_ret + nat \<times> u64 \<times> nat"
  have_mapped_pin :: "'v \<Rightarrow> nat \<Rightarrow> (mm_ret + nat \<times> u64 \<times> nat) \<times> 'v"
  calculate_end_check :: "u64 \<Rightarrow> nat \<Rightarrow> u64 option"
  lock_range_big :: "u64 \<Rightarrow> u64 \<Rightarrow> 'v \<Rightarrow> mm_ret \<times> 'v"
  unlock_range_big :: "u64 \<Rightarrow> u64 \<Rightarrow> 'v \<Rightarrow> 'v"
  query_range :: "'v \<Rightarrow> u64 \<Rightarrow> u64 \<Rightarrow> mm_ret + u64"
  find_first_occupied_interval :: "'v \<Rightarrow> u64 \<Rightarrow> u64 \<Rightarrow> (u64 \<times> u64 \<times> u64) option"
  find_first_occupied_leaf :: "'v \<Rightarrow> u64 \<Rightarrow> u64 \<Rightarrow> rdx_leaf option"
  map_pte :: "nat \<Rightarrow> nat \<Rightarrow> u64 \<Rightarrow> 'v \<Rightarrow> mm_ret \<times> 'v"
  set_range_and_fill :: "u64 \<Rightarrow> nat \<Rightarrow> u64 \<Rightarrow> 'v \<Rightarrow> bool \<times> 'v"
  clean_range_and_unfill :: "u64 \<Rightarrow> nat \<Rightarrow> nat \<Rightarrow> 'v \<Rightarrow> mm_ret \<times> 'v"
  remap_page :: "u64 \<Rightarrow> nat \<Rightarrow> u64 \<Rightarrow> nat \<Rightarrow> 'v \<Rightarrow> mm_ret \<times> 'v"
  set_range_flags :: "u64 \<Rightarrow> u64 \<Rightarrow> u64 \<Rightarrow> 'v \<Rightarrow> mm_ret \<times> 'v"
  fill_page_with_exist_range :: "u64 \<Rightarrow> u64 \<Rightarrow> 'v \<Rightarrow> mm_ret \<times> 'v"
  pmm_alloc1 :: "'v \<Rightarrow> (nat \<times> nat) option \<times> 'v"
  pmm_free1 :: "nat \<Rightarrow> 'v \<Rightarrow> 'v"
  copy_page :: "nat \<Rightarrow> nat \<Rightarrow> 'v \<Rightarrow> mm_ret \<times> 'v"
  copy_data_range :: "nat \<times> nat \<Rightarrow> nat \<times> nat \<Rightarrow> nat \<Rightarrow> 'v \<Rightarrow> mm_ret \<times> 'v"
  user_load :: "'v \<Rightarrow> u64 \<Rightarrow> nat \<Rightarrow> mm_ret + u8 list"
  user_store :: "u64 \<Rightarrow> u8 list \<Rightarrow> 'v \<Rightarrow> mm_ret \<times> 'v"

definition VPN :: "u64 \<Rightarrow> nat" where
  "VPN a = unat a div 4096"

definition round_down :: "u64 \<Rightarrow> u64" where
  "round_down a = push_bit 12 (drop_bit 12 a)"

definition round_up :: "u64 \<Rightarrow> u64" where
  "round_up a = round_down (a + 4095)"

text \<open>A loop whose position grows ends.\<close>

lemma advance: "a < b \<Longrightarrow> 18446744073709551616 - unat (b::u64) < 18446744073709551616 - unat a"
proof -
  assume ab: "a < b"
  have "unat b < 2 ^ LENGTH(64)" by (rule unsigned_less)
  then show ?thesis using ab by (simp add: word_less_nat_alt diff_less_mono2)
qed

lemma chunk_less: "d < n \<Longrightarrow> a < (P::nat) \<Longrightarrow> n - (d + min (P - a) (n - d)) < n - d"
  by linarith

lemma chunk_less': "d < n - Suc 0 \<Longrightarrow> a < (P::nat) \<Longrightarrow> n - Suc (d + min (P - a) (n - Suc d)) < n - Suc d"
  by linarith

definition page_at :: "u64 \<Rightarrow> nat \<Rightarrow> u64" where
  "page_at start k = start + of_nat k * 4096"

section \<open>Definitions\<close>

definition linux_mm_l0_lock_lo :: "u64 \<Rightarrow> u64" where
  "linux_mm_l0_lock_lo a = push_bit 21 (drop_bit 21 a)"

function buddy_loop :: "nat \<Rightarrow> nat \<Rightarrow> nat" where
  "buddy_loop chunk remaining = (if remaining < chunk then buddy_loop (chunk div 2) remaining else chunk)"
  by pat_completeness auto
termination by (relation "measure fst") auto

declare buddy_loop.simps [simp del]

definition linux_mm_buddy_chunk_pages :: "'v mm_core \<Rightarrow> nat \<Rightarrow> nat" where
  "linux_mm_buddy_chunk_pages core remaining = buddy_loop (2 ^ BUDDY_MAXORDER core) remaining"

function span_loop :: "'v mm_core \<Rightarrow> u64 \<Rightarrow> nat \<Rightarrow> u64 \<Rightarrow> 'v \<Rightarrow> nat \<times> 'v" where
  "span_loop core va chunk flags vs =
     (if chunk = 0 then (0, vs)
      else case set_range_and_fill core va chunk flags vs of
        (True, vs1) \<Rightarrow> (chunk, vs1)
      | (False, vs1) \<Rightarrow> if chunk = 1 then (0, vs1) else span_loop core va (chunk div 2) flags vs1)"
  by pat_completeness auto
termination by (relation "measure (\<lambda>(core, va, chunk, flags, vs). chunk)") auto

declare span_loop.simps [simp del]

definition linux_mm_fill_one_span :: "'v mm_core \<Rightarrow> u64 \<Rightarrow> nat \<Rightarrow> u64 \<Rightarrow> 'v \<Rightarrow> nat \<times> 'v" where
  "linux_mm_fill_one_span core va remaining flags = span_loop core va (linux_mm_buddy_chunk_pages core remaining) flags"

fun unmap_pages :: "'v mm_core \<Rightarrow> u64 \<Rightarrow> nat list \<Rightarrow> 'v \<Rightarrow> 'v" where
  "unmap_pages core hint [] vs = vs"
| "unmap_pages core hint (k # ks) vs =
     (case have_mapped core vs (VPN (page_at hint k)) of
        Inl e \<Rightarrow> unmap_pages core hint ks vs
      | Inr (ppn, fl, lv) \<Rightarrow> unmap_pages core hint ks (snd (clean_range_and_unfill core (page_at hint k) 1 ppn vs)))"

definition linux_mm_unmap_prefix_pages :: "'v mm_core \<Rightarrow> u64 \<Rightarrow> nat \<Rightarrow> 'v \<Rightarrow> 'v" where
  "linux_mm_unmap_prefix_pages core hint mapped_pages = unmap_pages core hint [0..<mapped_pages]"

definition linux_mm_page_is_reserved :: "'v mm_core \<Rightarrow> 'v \<Rightarrow> u64 \<Rightarrow> bool" where
  "linux_mm_page_is_reserved core vs va \<longleftrightarrow>
     (case have_mapped core vs (VPN va) of Inl e \<Rightarrow> False | Inr (ppn, fl, lv) \<Rightarrow> fl AND PAGE_ENTRY_VALID core \<noteq> 0)
     \<or> (case calculate_end_check core va 1 of
          None \<Rightarrow> True
        | Some page_end \<Rightarrow>
            (case query_range core vs va page_end of
               Inl e \<Rightarrow> False
             | Inr fl \<Rightarrow> fl AND (PAGE_ENTRY_VALID core OR PAGE_ENTRY_LAZY core) \<noteq> 0))"

definition linux_mm_range_is_free :: "'v mm_core \<Rightarrow> 'v \<Rightarrow> u64 \<Rightarrow> nat \<Rightarrow> bool" where
  "linux_mm_range_is_free core vs hint page_num \<longleftrightarrow>
     user_table core vs \<and> page_num \<noteq> 0 \<and> round_down hint = hint
     \<and> (case calculate_end_check core hint page_num of
          None \<Rightarrow> False
        | Some range_end \<Rightarrow> list_all (\<lambda>k. \<not> linux_mm_page_is_reserved core vs (page_at hint k)) [0..<page_num])"

definition linux_mm_leaf_pte_flags :: "'v mm_core \<Rightarrow> u64 \<Rightarrow> u64" where
  "linux_mm_leaf_pte_flags core leaf_flags =
     (let pte0 = entry_flags_rm_sw_flags core leaf_flags
                   AND NOT (PAGE_ENTRY_COW core OR PAGE_ENTRY_LAZY core OR PAGE_ENTRY_REMAP core);
          pte1 = (if pte0 AND PAGE_ENTRY_VALID core = 0 then pte0 OR PAGE_ENTRY_VALID core else pte0) in
      if leaf_flags AND PAGE_ENTRY_COW core \<noteq> 0 then pte1 AND NOT (PAGE_ENTRY_WRITE core) else pte1)"

definition linux_mm_page_from_leaf_rmap :: "rdx_leaf \<Rightarrow> nat option" where
  "linux_mm_page_from_leaf_rmap leaf =
     (case dropWhile (\<lambda>x. x = None) (lf_ring leaf) of [] \<Rightarrow> None | x # xs \<Rightarrow> x)"

text \<open>The part of \<^verbatim>\<open>linux_mm_reinstall_user_pte\<close> that runs with the range locked.\<close>

definition reinstall_locked :: "'v mm_core \<Rightarrow> u64 \<Rightarrow> u64 \<Rightarrow> 'v \<Rightarrow> mm_ret \<times> 'v" where
  "reinstall_locked core page_va page_end vs =
     (case find_first_occupied_leaf core vs page_va page_end of
        None \<Rightarrow> (MM_NOFOUND, vs)
      | Some leaf \<Rightarrow>
          if lf_va leaf \<noteq> page_va \<or> lf_flags leaf AND PAGE_ENTRY_VALID core = 0 \<or> lf_ring leaf = [] then (MM_NOFOUND, vs)
          else
            let old = (case have_mapped core vs (VPN page_va) of
                         Inl e \<Rightarrow> None
                       | Inr (ppn, fl, lv) \<Rightarrow> if fl AND PAGE_ENTRY_VALID core = 0 then None else Some ppn) in
            (case (case old of Some ppn \<Rightarrow> Some ppn | None \<Rightarrow> linux_mm_page_from_leaf_rmap leaf) of
               None \<Rightarrow> (MM_NOFOUND, vs)
             | Some ppn \<Rightarrow> map_pte core ppn (VPN page_va) (linux_mm_leaf_pte_flags core (lf_flags leaf)) vs))"

definition linux_mm_reinstall_user_pte :: "'v mm_core \<Rightarrow> u64 \<Rightarrow> 'v \<Rightarrow> mm_ret \<times> 'v" where
  "linux_mm_reinstall_user_pte core page_va0 vs =
     (if \<not> user_table core vs then (MM_IN_PARAM, vs)
      else
        let page_va = round_down page_va0 in
        case calculate_end_check core page_va 1 of
          None \<Rightarrow> (MM_IN_PARAM, vs)
        | Some page_end \<Rightarrow>
            let l0_lo = linux_mm_l0_lock_lo page_va in
            (case lock_range_big core l0_lo page_end vs of
               (MM_OK, vs1) \<Rightarrow>
                 (case reinstall_locked core page_va page_end vs1 of (err, vs2) \<Rightarrow> (err, unlock_range_big core l0_lo page_end vs2))
             | (e, vs1) \<Rightarrow> (MM_RENDEZVOS, vs1)))"

definition linux_mm_store_to_user :: "'v mm_core \<Rightarrow> u64 \<Rightarrow> u8 list \<Rightarrow> 'v \<Rightarrow> mm_ret \<times> 'v" where
  "linux_mm_store_to_user core user_va src = user_store core user_va src"

definition linux_mm_load_from_user :: "'v mm_core \<Rightarrow> 'v \<Rightarrow> u64 \<Rightarrow> nat \<Rightarrow> mm_ret + u8 list" where
  "linux_mm_load_from_user core vs user_va len = user_load core vs user_va len"

text \<open>The string copy returns the code and what it has stored in the buffer.\<close>

function cstring_loop :: "'v mm_core \<Rightarrow> 'v \<Rightarrow> u64 \<Rightarrow> nat \<Rightarrow> nat \<Rightarrow> u8 list \<Rightarrow> mm_ret \<times> u8 list" where
  "cstring_loop core vs user_va cap filled dst =
     (if filled < cap - 1 then
        let cur = user_va + of_nat filled;
            chunk = min (4096 - unat cur mod 4096) (cap - 1 - filled) in
        case linux_mm_load_from_user core vs cur chunk of
          Inl e \<Rightarrow> (e, dst)
        | Inr d \<Rightarrow> if 0 \<in> set d then (MM_OK, dst @ d) else cstring_loop core vs user_va cap (filled + chunk) (dst @ d)
      else (MM_IN_PARAM, dst @ [0]))"
  by pat_completeness auto
termination
  by (relation "measure (\<lambda>(core, vs, user_va, cap, filled, dst). cap - 1 - filled)") (simp_all add: Let_def chunk_less chunk_less')

declare cstring_loop.simps [simp del]

definition linux_mm_load_cstring_from_user :: "'v mm_core \<Rightarrow> 'v \<Rightarrow> u64 \<Rightarrow> nat \<Rightarrow> mm_ret \<times> u8 list" where
  "linux_mm_load_cstring_from_user core vs user_va cap =
     (if cap < 2 \<or> \<not> user_table core vs then (MM_IN_PARAM, []) else cstring_loop core vs user_va cap 0 [])"

text \<open>One chunk of a copy between user addresses: both pages are pinned while their frames are copied.\<close>

definition copy_chunk :: "'v mm_core \<Rightarrow> u64 \<Rightarrow> u64 \<Rightarrow> nat \<Rightarrow> 'v \<Rightarrow> mm_ret \<times> 'v" where
  "copy_chunk core dva sva chunk vs =
     (case have_mapped_pin core vs (VPN sva) of
        (Inl e, vs1) \<Rightarrow> (MM_RENDEZVOS, vs1)
      | (Inr (sppn, sf, sl), vs1) \<Rightarrow>
          if sl \<noteq> 3 then (MM_RENDEZVOS, vs1)
          else
            (case have_mapped_pin core vs1 (VPN dva) of
               (Inl e, vs2) \<Rightarrow> (MM_RENDEZVOS, pmm_free1 core sppn vs2)
             | (Inr (dppn, df, dl), vs2) \<Rightarrow>
                 if dl \<noteq> 3 then (MM_RENDEZVOS, pmm_free1 core sppn vs2)
                 else
                   (case copy_data_range core (dppn, unat dva mod 4096) (sppn, unat sva mod 4096) chunk vs2 of
                      (e, vs3) \<Rightarrow> (e, pmm_free1 core sppn (pmm_free1 core dppn vs3)))))"

function copy_user_loop :: "'v mm_core \<Rightarrow> u64 \<Rightarrow> u64 \<Rightarrow> nat \<Rightarrow> nat \<Rightarrow> 'v \<Rightarrow> mm_ret \<times> 'v" where
  "copy_user_loop core dst src len done vs =
     (if done < len then
        let sva = src + of_nat done;
            dva = dst + of_nat done;
            chunk = min (4096 - max (unat sva mod 4096) (unat dva mod 4096)) (len - done) in
        case copy_chunk core dva sva chunk vs of
          (MM_OK, vs1) \<Rightarrow> copy_user_loop core dst src len (done + chunk) vs1
        | (e, vs1) \<Rightarrow> (e, vs1)
      else (MM_OK, vs))"
  by pat_completeness auto
termination
  by (relation "measure (\<lambda>(core, dst, src, len, done, vs). len - done)")
    (rule wf_measure, simp only: in_measure prod.case, rule chunk_less, assumption, simp only: max_less_iff_conj, simp)

declare copy_user_loop.simps [simp del]

definition linux_mm_copy_user_range :: "'v mm_core \<Rightarrow> u64 \<Rightarrow> u64 \<Rightarrow> nat \<Rightarrow> 'v \<Rightarrow> mm_ret \<times> 'v" where
  "linux_mm_copy_user_range core dst src len vs =
     (if len = 0 then (MM_OK, vs)
      else if \<not> user_table core vs then (MM_IN_PARAM, vs)
      else copy_user_loop core dst src len 0 vs)"

subsection \<open>Mapping and unmapping ranges\<close>

text \<open>Returns whether all pages have been mapped, and how many.\<close>

function map_loop :: "'v mm_core \<Rightarrow> u64 \<Rightarrow> nat \<Rightarrow> nat \<Rightarrow> u64 \<Rightarrow> 'v \<Rightarrow> bool \<times> nat \<times> 'v" where
  "map_loop core hint mapped page_num flags vs =
     (if mapped < page_num then
        (case linux_mm_fill_one_span core (page_at hint mapped) (page_num - mapped) flags vs of
           (got, vs1) \<Rightarrow> if got = 0 then (False, mapped, vs1) else map_loop core hint (mapped + got) page_num flags vs1)
      else (True, mapped, vs))"
  by pat_completeness auto
termination
  by (relation "measure (\<lambda>(core, hint, mapped, page_num, flags, vs). page_num - mapped)") auto

declare map_loop.simps [simp del]

definition linux_mm_map_user_range :: "'v mm_core \<Rightarrow> u64 \<Rightarrow> nat \<Rightarrow> u64 \<Rightarrow> 'v \<Rightarrow> u64 option \<times> 'v" where
  "linux_mm_map_user_range core hint page_num flags vs =
     (if \<not> user_table core vs \<or> page_num = 0 \<or> hint = 0 \<or> round_down hint \<noteq> hint then (None, vs)
      else case calculate_end_check core hint page_num of
        None \<Rightarrow> (None, vs)
      | Some range_end \<Rightarrow>
          let l0_lo = linux_mm_l0_lock_lo hint in
          (case lock_range_big core l0_lo range_end vs of
             (MM_OK, vs1) \<Rightarrow>
               (case map_loop core hint 0 page_num flags vs1 of
                  (True, n, vs2) \<Rightarrow> (Some hint, unlock_range_big core l0_lo range_end vs2)
                | (False, n, vs2) \<Rightarrow> (None, unlock_range_big core l0_lo range_end (linux_mm_unmap_prefix_pages core hint n vs2)))
           | (e, vs1) \<Rightarrow> (None, vs1)))"

fun search_loop :: "'v mm_core \<Rightarrow> u64 \<Rightarrow> nat \<Rightarrow> u64 \<Rightarrow> nat \<Rightarrow> 'v \<Rightarrow> u64 option \<times> 'v" where
  "search_loop core hint page_num flags 0 vs = (None, vs)"
| "search_loop core hint page_num flags (Suc n) vs =
     (if linux_mm_range_is_free core vs hint page_num
      then (case linux_mm_map_user_range core hint page_num flags vs of
              (Some p, vs1) \<Rightarrow> (Some p, vs1)
            | (None, vs1) \<Rightarrow> search_loop core (hint + 4096) page_num flags n vs1)
      else search_loop core (hint + 4096) page_num flags n vs)"

definition linux_mm_map_user_range_search :: "'v mm_core \<Rightarrow> u64 \<Rightarrow> nat \<Rightarrow> u64 \<Rightarrow> nat \<Rightarrow> 'v \<Rightarrow> u64 option \<times> 'v" where
  "linux_mm_map_user_range_search core search_start page_num flags max_probes =
     search_loop core (round_down search_start) page_num flags max_probes"

text \<open>The length of the run of consecutive frames that starts with \<open>run\<close> pages at page \<open>done\<close>; \<open>n\<close> pages are left.\<close>

fun run_loop :: "'v mm_core \<Rightarrow> 'v \<Rightarrow> u64 \<Rightarrow> nat \<Rightarrow> nat \<Rightarrow> nat \<Rightarrow> nat \<Rightarrow> nat" where
  "run_loop core vs start done ppn run 0 = run"
| "run_loop core vs start done ppn run (Suc n) =
     (case have_mapped core vs (VPN (page_at start (done + run))) of
        Inl e \<Rightarrow> run
      | Inr (next_ppn, fl, lv) \<Rightarrow> if next_ppn \<noteq> ppn + run then run else run_loop core vs start done ppn (run + 1) n)"

lemma run_loop_bounds: "run \<le> run_loop core vs start d ppn run n \<and> run_loop core vs start d ppn run n \<le> run + n"
proof (induction n arbitrary: run)
  case (Suc n)
  show ?case using Suc [of "run + 1"] by (simp add: prod.case_eq_if split: sum.splits)
qed simp

function unmap_loop :: "'v mm_core \<Rightarrow> u64 \<Rightarrow> nat \<Rightarrow> nat \<Rightarrow> 'v \<Rightarrow> mm_ret \<times> 'v" where
  "unmap_loop core start done page_num vs =
     (if done < page_num then
        (case have_mapped core vs (VPN (page_at start done)) of
           Inl e \<Rightarrow> (e, vs)
         | Inr (ppn, fl, lv) \<Rightarrow>
             let run = run_loop core vs start done ppn 1 (page_num - done - 1) in
             (case clean_range_and_unfill core (page_at start done) run ppn vs of
                (MM_OK, vs1) \<Rightarrow> unmap_loop core start (done + run) page_num vs1
              | (e, vs1) \<Rightarrow> (e, vs1)))
      else (MM_OK, vs))"
  by pat_completeness auto
termination
proof (relation "measure (\<lambda>(core, start, done, page_num, vs). page_num - done)"; clarsimp)
  fix core :: "'v mm_core" and start :: u64 and "done" page_num ppn :: nat and vs :: 'v
  assume "done < page_num"
  then show "page_num - (done + run_loop core vs start done ppn (Suc 0) (page_num - Suc done)) < page_num - done"
    using run_loop_bounds [of "Suc 0" core vs start "done" ppn "page_num - Suc done"] by linarith
qed

declare unmap_loop.simps [simp del]

definition linux_mm_unmap_user_range :: "'v mm_core \<Rightarrow> u64 \<Rightarrow> nat \<Rightarrow> 'v \<Rightarrow> mm_ret \<times> 'v" where
  "linux_mm_unmap_user_range core start page_num vs =
     (if \<not> user_table core vs \<or> page_num = 0 \<or> round_down start \<noteq> start then (MM_IN_PARAM, vs)
      else case calculate_end_check core start page_num of
        None \<Rightarrow> (MM_IN_PARAM, vs)
      | Some range_end \<Rightarrow>
          let l0_lo = linux_mm_l0_lock_lo start in
          (case lock_range_big core l0_lo range_end vs of
             (MM_OK, vs1) \<Rightarrow> (case unmap_loop core start 0 page_num vs1 of (e, vs2) \<Rightarrow> (e, unlock_range_big core l0_lo range_end vs2))
           | (e, vs1) \<Rightarrow> (MM_RENDEZVOS, vs1)))"

definition linux_mm_query_vaddr :: "'v mm_core \<Rightarrow> 'v \<Rightarrow> u64 \<Rightarrow> mm_ret + u64 \<times> u64" where
  "linux_mm_query_vaddr core vs va =
     (if \<not> user_table core vs then Inl MM_IN_PARAM
      else
        let page_va = round_down va in
        case calculate_end_check core page_va 1 of
          None \<Rightarrow> Inl MM_IN_PARAM
        | Some page_end \<Rightarrow> (case query_range core vs page_va page_end of Inl e \<Rightarrow> Inl e | Inr fl \<Rightarrow> Inr (page_va, fl)))"

subsection \<open>Copy on write\<close>

definition linux_mm_remap_user_leaf :: "'v mm_core \<Rightarrow> u64 \<Rightarrow> nat \<Rightarrow> u64 \<Rightarrow> nat \<Rightarrow> 'v \<Rightarrow> mm_ret \<times> 'v" where
  "linux_mm_remap_user_leaf core page_va0 new_ppn new_flags expect_old_ppn vs =
     (if \<not> user_table core vs then (MM_IN_PARAM, vs)
      else
        let page_va = round_down page_va0 in
        case calculate_end_check core page_va 1 of
          None \<Rightarrow> (MM_IN_PARAM, vs)
        | Some page_end \<Rightarrow>
            let l0_lo = linux_mm_l0_lock_lo page_va in
            (case lock_range_big core l0_lo page_end vs of
               (MM_OK, vs1) \<Rightarrow>
                 (case remap_page core page_va new_ppn new_flags expect_old_ppn vs1 of (e, vs2) \<Rightarrow> (e, unlock_range_big core l0_lo page_end vs2))
             | (e, vs1) \<Rightarrow> (MM_RENDEZVOS, vs1)))"

text \<open>The page is pinned as frame \<open>old_ppn\<close>; a new frame is filled and put in its place.\<close>

definition cow_replace :: "'v mm_core \<Rightarrow> u64 \<Rightarrow> nat \<Rightarrow> u64 \<Rightarrow> 'v \<Rightarrow> mm_ret \<times> 'v" where
  "cow_replace core page_va old_ppn radix_flags vs =
     (case pmm_alloc1 core vs of
        (None, vs1) \<Rightarrow> (MM_RENDEZVOS, pmm_free1 core old_ppn vs1)
      | (Some (new_ppn, alloced), vs1) \<Rightarrow>
          if alloced \<noteq> 1 then (MM_RENDEZVOS, pmm_free1 core old_ppn vs1)
          else
            (case copy_page core new_ppn old_ppn vs1 of
               (MM_OK, vs2) \<Rightarrow>
                 let new_flags = entry_flags_rm_sw_flags core radix_flags OR PAGE_ENTRY_VALID core OR PAGE_ENTRY_WRITE core
                                   OR PAGE_ENTRY_READ core in
                 (case linux_mm_remap_user_leaf core page_va new_ppn new_flags old_ppn vs2 of
                    (MM_OK, vs3) \<Rightarrow> (MM_OK, pmm_free1 core old_ppn vs3)
                  | (e, vs3) \<Rightarrow> (e, pmm_free1 core new_ppn (pmm_free1 core old_ppn vs3)))
             | (e, vs2) \<Rightarrow> (e, pmm_free1 core old_ppn (pmm_free1 core new_ppn vs2))))"

definition linux_mm_cow_split_page :: "'v mm_core \<Rightarrow> u64 \<Rightarrow> 'v \<Rightarrow> mm_ret \<times> 'v" where
  "linux_mm_cow_split_page core page_va0 vs =
     (if \<not> user_table core vs then (MM_IN_PARAM, vs)
      else
        let page_va = round_down page_va0 in
        case have_mapped_pin core vs (VPN page_va) of
          (Inl e, vs1) \<Rightarrow> (MM_OK, vs1)
        | (Inr (old_ppn, pt_flags, lv), vs1) \<Rightarrow>
            if pt_flags AND PAGE_ENTRY_VALID core = 0 then (MM_OK, vs1)
            else if pt_flags AND PAGE_ENTRY_WRITE core \<noteq> 0 then (MM_OK, pmm_free1 core old_ppn vs1)
            else
              (case linux_mm_query_vaddr core vs1 page_va of
                 Inl e \<Rightarrow> (e, pmm_free1 core old_ppn vs1)
               | Inr (nstart, radix_flags) \<Rightarrow>
                   if radix_flags AND PAGE_ENTRY_WRITE core = 0 then (MM_IN_PARAM, pmm_free1 core old_ppn vs1)
                   else cow_replace core page_va old_ppn radix_flags vs1))"

fun reinstall_pages :: "'v mm_core \<Rightarrow> u64 list \<Rightarrow> 'v \<Rightarrow> mm_ret \<times> 'v" where
  "reinstall_pages core [] vs = (MM_OK, vs)"
| "reinstall_pages core (va # vas) vs =
     (case linux_mm_reinstall_user_pte core va vs of
        (e, vs1) \<Rightarrow> if e \<noteq> MM_OK \<and> e \<noteq> MM_NOFOUND then (e, vs1) else reinstall_pages core vas vs1)"

definition pages_between :: "u64 \<Rightarrow> u64 \<Rightarrow> u64 list" where
  "pages_between a b = map (page_at a) [0..<(unat b - unat a + 4095) div 4096]"

function sync_loop :: "'v mm_core \<Rightarrow> u64 \<Rightarrow> u64 \<Rightarrow> 'v \<Rightarrow> mm_ret \<times> 'v" where
  "sync_loop core it end_va vs =
     (if it < end_va then
        (case find_first_occupied_interval core vs it end_va of
           None \<Rightarrow> (MM_OK, vs)
         | Some (range_start, range_end, range_flags) \<Rightarrow>
             if range_end \<le> range_start \<or> range_start < it then (MM_OK, vs)
             else if range_flags AND PAGE_ENTRY_VALID core \<noteq> 0 \<and> range_flags AND PAGE_ENTRY_COW core \<noteq> 0 then
               (case reinstall_pages core (pages_between range_start range_end) vs of
                  (MM_OK, vs1) \<Rightarrow> sync_loop core range_end end_va vs1
                | (e, vs1) \<Rightarrow> (e, vs1))
             else sync_loop core range_end end_va vs)
      else (MM_OK, vs))"
  by pat_completeness auto
termination
  by (relation "measure (\<lambda>(core, it, end_va, vs). 2 ^ 64 - unat it)")
    (auto simp: not_le not_less intro!: advance)

declare sync_loop.simps [simp del]

definition linux_mm_sync_cow_ptes :: "'v mm_core \<Rightarrow> 'v \<Rightarrow> mm_ret \<times> 'v" where
  "linux_mm_sync_cow_ptes core vs =
     (if \<not> user_table core vs then (MM_IN_PARAM, vs) else sync_loop core 4096 (USER_SPACE_TOP core + 1) vs)"

text \<open>\<open>scratch\<close> is the stack pointer saved at the system call on x86-64, 0 elsewhere.\<close>

fun break_loop :: "'v mm_core \<Rightarrow> u64 \<Rightarrow> nat \<Rightarrow> 'v \<Rightarrow> 'v" where
  "break_loop core page 0 vs = vs"
| "break_loop core page (Suc n) vs =
     (if page < 4096 then vs else break_loop core (page - 4096) n (snd (linux_mm_cow_split_page core page vs)))"

definition linux_mm_cow_break_user_stack :: "'v mm_core \<Rightarrow> u64 \<Rightarrow> u64 \<Rightarrow> 'v \<Rightarrow> 'v" where
  "linux_mm_cow_break_user_stack core scratch user_sp vs =
     (if \<not> user_table core vs \<or> user_sp < 4096 then vs
      else break_loop core (round_down (if 4096 \<le> scratch then scratch else user_sp)) 4 vs)"

subsection \<open>Protection\<close>

text \<open>\<open>None\<close> when the search yields an interval that does not let the loop advance.\<close>

function flags_loop :: "'v mm_core \<Rightarrow> u64 \<Rightarrow> u64 \<Rightarrow> u64 \<Rightarrow> 'v \<Rightarrow> (mm_ret \<times> 'v) option" where
  "flags_loop core it end_va new_flags vs =
     (if it < end_va then
        (case find_first_occupied_interval core vs it end_va of
           None \<Rightarrow> Some (MM_IN_PARAM, vs)
         | Some (sub_start, sub_end0, sub_flags) \<Rightarrow>
             let sub_end = (if end_va < sub_end0 then end_va else sub_end0) in
             if it < sub_start \<or> sub_end \<le> sub_start then Some (MM_IN_PARAM, vs)
             else
               (case set_range_flags core sub_start (sub_end - sub_start) new_flags vs of
                  (MM_OK, vs1) \<Rightarrow> if sub_end \<le> it then None else flags_loop core sub_end end_va new_flags vs1
                | (e, vs1) \<Rightarrow> Some (e, vs1)))
      else Some (MM_OK, vs))"
  by pat_completeness auto
termination
  by (relation "measure (\<lambda>(core, it, end_va, new_flags, vs). 2 ^ 64 - unat it)")
    (auto simp: not_le not_less intro!: advance split: if_splits)

declare flags_loop.simps [simp del]

definition linux_mm_update_range_flags :: "'v mm_core \<Rightarrow> u64 \<Rightarrow> u64 \<Rightarrow> u64 \<Rightarrow> 'v \<Rightarrow> (mm_ret \<times> 'v) option" where
  "linux_mm_update_range_flags core start0 length_bytes new_flags vs =
     (if \<not> user_table core vs \<or> length_bytes = 0 then Some (MM_IN_PARAM, vs)
      else
        let start = round_down start0;
            end_va = start + round_up length_bytes in
        if end_va \<le> start then Some (MM_IN_PARAM, vs)
        else
          let l0_lo = linux_mm_l0_lock_lo start in
          (case lock_range_big core l0_lo end_va vs of
             (MM_OK, vs1) \<Rightarrow>
               map_option (\<lambda>(e, vs2). (e, unlock_range_big core l0_lo end_va vs2)) (flags_loop core start end_va new_flags vs1)
           | (e, vs1) \<Rightarrow> Some (MM_RENDEZVOS, vs1)))"

end
