(* ===== verification/Mm_Syscalls.thy ===== *)
theory Mm_Syscalls
  imports User_Mm
begin

text \<open>
  The memory system calls and the page fault handler (\<^verbatim>\<open>linux_layer/mm/sys_mmap.c\<close>, \<^verbatim>\<open>sys_munmap.c\<close>, \<^verbatim>\<open>sys_mprotect.c\<close>,
  \<^verbatim>\<open>sys_mremap.c\<close>, \<^verbatim>\<open>sys_brk.c\<close>, \<^verbatim>\<open>linux_page_fault_irq.c\<close>). The record \<open>mm_proc\<close> holds the fields of the process that they keep. There is
  a current process and it has a user address space. System calls that return \<^verbatim>\<open>u64\<close> return words, with an error as the word of
  its negative number.
\<close>

section \<open>Definitions\<close>

record mm_proc =
  start_brk :: u64
  brk :: u64
  mmap_hint :: u64

abbreviation LINUX_MAP_FIXED :: u64 where "LINUX_MAP_FIXED \<equiv> 0x10"
abbreviation LINUX_MAP_ANONYMOUS :: u64 where "LINUX_MAP_ANONYMOUS \<equiv> 0x20"
abbreviation LINUX_MREMAP_MAYMOVE :: u64 where "LINUX_MREMAP_MAYMOVE \<equiv> 1"

definition err64 :: "int \<Rightarrow> u64" where
  "err64 e = word_of_int (- e)"

definition linux_prot_to_page_flags :: "'v mm_core \<Rightarrow> u64 \<Rightarrow> u64" where
  "linux_prot_to_page_flags core prot =
     PAGE_ENTRY_USER core OR PAGE_ENTRY_VALID core
       OR (if prot AND 1 \<noteq> 0 then PAGE_ENTRY_READ core else 0)
       OR (if prot AND 2 \<noteq> 0 then PAGE_ENTRY_WRITE core else 0)
       OR (if prot AND 4 \<noteq> 0 then PAGE_ENTRY_EXEC core else 0)"

definition rw_flags :: "'v mm_core \<Rightarrow> u64" where
  "rw_flags core = PAGE_ENTRY_USER core OR PAGE_ENTRY_VALID core OR PAGE_ENTRY_WRITE core OR PAGE_ENTRY_READ core"

subsection \<open>mmap\<close>

definition linux_mmap_default_hint :: "mm_proc \<Rightarrow> u64" where
  "linux_mmap_default_hint pa = round_up (brk pa) + 4096"

definition raise_hint :: "u64 \<Rightarrow> mm_proc \<Rightarrow> mm_proc" where
  "raise_hint e pa = (if mmap_hint pa < e then pa\<lparr>mmap_hint := e\<rparr> else pa)"

fun probe_loop :: "'v mm_core \<Rightarrow> u64 \<Rightarrow> u64 \<Rightarrow> nat \<Rightarrow> u64 \<Rightarrow> nat \<Rightarrow> mm_proc \<Rightarrow> 'v \<Rightarrow> u64 \<times> mm_proc \<times> 'v" where
  "probe_loop core hint len_aligned page_num flags 0 pa vs = (err64 LINUX_ENOMEM, pa, vs)"
| "probe_loop core hint len_aligned page_num flags (Suc n) pa vs =
     (if USER_SPACE_TOP core \<le> hint \<or> hint + len_aligned < hint \<or> USER_SPACE_TOP core < hint + len_aligned
      then (err64 LINUX_ENOMEM, pa, vs)
      else if linux_mm_range_is_free core vs hint page_num then
        (case linux_mm_map_user_range core hint page_num flags vs of
           (Some p, vs1) \<Rightarrow> (p, raise_hint (p + len_aligned) pa, vs1)
         | (None, vs1) \<Rightarrow> probe_loop core (hint + 4096) len_aligned page_num flags n pa vs1)
      else probe_loop core (hint + 4096) len_aligned page_num flags n pa vs)"

definition linux_mmap_map_range ::
  "'v mm_core \<Rightarrow> u64 \<Rightarrow> u64 \<Rightarrow> nat \<Rightarrow> u64 \<Rightarrow> bool \<Rightarrow> mm_proc \<Rightarrow> 'v \<Rightarrow> u64 \<times> mm_proc \<times> 'v" where
  "linux_mmap_map_range core hint len_aligned page_num flags fixed pa vs =
     (if fixed then
        if hint AND 4095 \<noteq> 0 then (err64 LINUX_EINVAL, pa, vs)
        else (case linux_mm_map_user_range core hint page_num flags vs of
                (None, vs1) \<Rightarrow> (err64 LINUX_ENOMEM, pa, vs1)
              | (Some p, vs1) \<Rightarrow> (p, raise_hint (p + len_aligned) pa, vs1))
      else probe_loop core hint len_aligned page_num flags 256 pa vs)"

definition linux_mmap_pick_hint :: "mm_proc \<Rightarrow> u64 \<Rightarrow> u64" where
  "linux_mmap_pick_hint pa addr =
     (if addr \<noteq> 0 then round_down addr
      else if mmap_hint pa \<noteq> 0 then round_down (mmap_hint pa)
      else linux_mmap_default_hint pa)"

text \<open>
  The answers of the file server to a mapping of a file: whether the descriptor is an open regular file of the server,
  the results of the two seeks, and the read that stores into user memory.
\<close>

record 'v mmap_io =
  mi_file :: bool
  mi_size :: int
  mi_seek :: int
  mi_read :: "u64 \<Rightarrow> nat \<Rightarrow> 'v \<Rightarrow> int \<times> 'v"

definition linux_mmap_file ::
  "'v mm_core \<Rightarrow> 'v mmap_io \<Rightarrow> u64 \<Rightarrow> u64 \<Rightarrow> nat \<Rightarrow> u64 \<Rightarrow> u64 \<Rightarrow> u64 \<Rightarrow> mm_proc \<Rightarrow> 'v \<Rightarrow> u64 \<times> mm_proc \<times> 'v" where
  "linux_mmap_file core io addr len_aligned page_num page_flags offset flags pa vs =
     (let fixed = (flags AND LINUX_MAP_FIXED \<noteq> 0) in
      if \<not> mi_file io then (err64 LINUX_EBADF, pa, vs)
      else if offset AND 4095 \<noteq> 0 then (err64 LINUX_EINVAL, pa, vs)
      else if mi_size io < 0 then (word_of_int (mi_size io), pa, vs)
      else
        let file_size = word_of_int (mi_size io) :: u64 in
        if file_size < offset then (err64 LINUX_EINVAL, pa, vs)
        else
          (case linux_mmap_map_range core (if fixed then addr else linux_mmap_pick_hint pa addr) len_aligned page_num page_flags fixed pa vs of
             (map_addr, pa1, vs1) \<Rightarrow>
               if sint map_addr < 0 then (map_addr, pa1, vs1)
               else if file_size \<le> offset then (map_addr, pa1, vs1)
               else
                 let read_len = (if file_size < offset + len_aligned then file_size - offset else len_aligned) in
                 if sint read_len \<le> 0 then (map_addr, pa1, vs1)
                 else if mi_seek io < 0
                 then (word_of_int (mi_seek io), pa1, snd (linux_mm_unmap_user_range core map_addr page_num vs1))
                 else
                   (case mi_read io map_addr (unat read_len) vs1 of
                      (n, vs2) \<Rightarrow>
                        if n < 0 then (word_of_int n, pa1, snd (linux_mm_unmap_user_range core map_addr page_num vs2))
                        else (map_addr, pa1, vs2))))"

definition sys_mmap ::
  "'v mm_core \<Rightarrow> 'v mmap_io \<Rightarrow> u64 \<Rightarrow> u64 \<Rightarrow> u64 \<Rightarrow> u64 \<Rightarrow> int \<Rightarrow> u64 \<Rightarrow> mm_proc \<Rightarrow> 'v \<Rightarrow> u64 \<times> mm_proc \<times> 'v" where
  "sys_mmap core io addr len prot flags fd offset pa vs =
     (let len_aligned = round_up len;
          page_num = unat len_aligned div 4096;
          page_flags = linux_prot_to_page_flags core prot;
          fixed = (flags AND LINUX_MAP_FIXED \<noteq> 0) in
      if len = 0 \<or> page_num = 0 then (err64 LINUX_EINVAL, pa, vs)
      else if \<not> user_table core vs then (err64 LINUX_ESRCH, pa, vs)
      else if flags AND LINUX_MAP_ANONYMOUS = 0 then
        if fd < 0 then (err64 LINUX_EBADF, pa, vs)
        else linux_mmap_file core io addr len_aligned page_num page_flags offset flags pa vs
      else if fd \<noteq> - 1 then (err64 LINUX_EBADF, pa, vs)
      else if offset \<noteq> 0 then (err64 LINUX_EINVAL, pa, vs)
      else if (fixed \<or> addr \<noteq> 0) \<and> addr AND 4095 \<noteq> 0 then (err64 LINUX_EINVAL, pa, vs)
      else linux_mmap_map_range core (if fixed \<or> addr \<noteq> 0 then addr else linux_mmap_pick_hint pa 0) len_aligned page_num page_flags fixed pa vs)"

subsection \<open>munmap, mprotect and brk\<close>

text \<open>The number of pages is an \<^verbatim>\<open>int\<close>.\<close>

definition sys_munmap :: "'v mm_core \<Rightarrow> u64 \<Rightarrow> u64 \<Rightarrow> 'v \<Rightarrow> int \<times> 'v" where
  "sys_munmap core addr len vs =
     (let page_num = sint (ucast (drop_bit 12 (round_up len)) :: 32 word) in
      if len = 0 \<or> addr AND 4095 \<noteq> 0 \<or> page_num \<le> 0 then (- LINUX_EINVAL, vs)
      else if \<not> user_table core vs then (- LINUX_ESRCH, vs)
      else case linux_mm_unmap_user_range core addr (nat page_num) vs of
        (e, vs1) \<Rightarrow> (if e \<noteq> MM_OK then - LINUX_EINVAL else 0, vs1))"

definition sys_mprotect :: "'v mm_core \<Rightarrow> u64 \<Rightarrow> u64 \<Rightarrow> u64 \<Rightarrow> 'v \<Rightarrow> (int \<times> 'v) option" where
  "sys_mprotect core addr len prot vs =
     (let len_aligned = round_up len in
      if len = 0 then Some (0, vs)
      else if addr AND 4095 \<noteq> 0 \<or> addr + len_aligned < addr then Some (- LINUX_EINVAL, vs)
      else if \<not> user_table core vs then Some (- LINUX_ESRCH, vs)
      else map_option (\<lambda>(e, vs1). (if e \<noteq> MM_OK then - LINUX_EINVAL else 0, vs1))
             (linux_mm_update_range_flags core addr len_aligned (linux_prot_to_page_flags core prot) vs))"

definition sys_brk :: "'v mm_core \<Rightarrow> u64 \<Rightarrow> mm_proc \<Rightarrow> 'v \<Rightarrow> u64 \<times> mm_proc \<times> 'v" where
  "sys_brk core new_brk pa0 vs =
     (let pa = (if start_brk pa0 = 0 then pa0\<lparr>start_brk := brk pa0\<rparr> else pa0);
          old_aligned = round_up (brk pa);
          new_aligned = round_up new_brk in
      if new_brk = 0 then (brk pa, pa, vs)
      else if old_aligned < new_aligned then
        (case linux_mm_map_user_range core old_aligned (unat (new_aligned - old_aligned) div 4096) (rw_flags core) vs of
           (None, vs1) \<Rightarrow> (brk pa, pa, vs1)
         | (Some p, vs1) \<Rightarrow> (new_brk, pa\<lparr>brk := new_brk\<rparr>, vs1))
      else if new_aligned < old_aligned then
        (case linux_mm_unmap_user_range core new_aligned (unat (old_aligned - new_aligned) div 4096) vs of
           (e, vs1) \<Rightarrow> (new_brk, pa\<lparr>brk := new_brk\<rparr>, vs1))
      else (new_brk, pa\<lparr>brk := new_brk\<rparr>, vs))"

subsection \<open>mremap\<close>

definition linux_user_va_range_ok :: "'v mm_core \<Rightarrow> u64 \<Rightarrow> u64 \<Rightarrow> bool" where
  "linux_user_va_range_ok core addr len \<longleftrightarrow>
     (if len = 0 then addr < KERNEL_VIRT_OFFSET core
      else addr < KERNEL_VIRT_OFFSET core \<and> \<not> addr + len < addr \<and> \<not> KERNEL_VIRT_OFFSET core < addr + len)"

definition linux_mm_range_mapped :: "'v mm_core \<Rightarrow> 'v \<Rightarrow> u64 \<Rightarrow> u64 \<Rightarrow> bool" where
  "linux_mm_range_mapped core vs addr len \<longleftrightarrow> len \<noteq> 0
     \<and> list_all (\<lambda>va. \<exists>r. linux_mm_query_vaddr core vs va = Inr r) (pages_between (round_down addr) (addr + len))"

definition linux_mremap_copy_mapped :: "'v mm_core \<Rightarrow> u64 \<Rightarrow> u64 \<Rightarrow> nat \<Rightarrow> 'v \<Rightarrow> mm_ret \<times> 'v" where
  "linux_mremap_copy_mapped core src dst len = linux_mm_copy_user_range core dst src len"

text \<open>Moving a mapping to a place that has room for the new size.\<close>

definition mremap_move :: "'v mm_core \<Rightarrow> u64 \<Rightarrow> u64 \<Rightarrow> u64 \<Rightarrow> u64 \<Rightarrow> mm_proc \<Rightarrow> 'v \<Rightarrow> int \<times> 'v" where
  "mremap_move core old_address old_size old_aligned new_aligned pa vs =
     (case linux_mm_map_user_range_search core (round_up (brk pa) + 4096) (unat new_aligned div 4096) (rw_flags core) 64 vs of
        (None, vs1) \<Rightarrow> (- LINUX_ENOMEM, vs1)
      | (Some new_mapping, vs1) \<Rightarrow>
          (case linux_mremap_copy_mapped core old_address new_mapping (unat old_size) vs1 of
             (MM_OK, vs2) \<Rightarrow> (sint new_mapping, snd (linux_mm_unmap_user_range core old_address (unat old_aligned div 4096) vs2))
           | (e, vs2) \<Rightarrow> (- LINUX_EFAULT, snd (linux_mm_unmap_user_range core new_mapping (unat new_aligned div 4096) vs2))))"

definition sys_mremap :: "'v mm_core \<Rightarrow> u64 \<Rightarrow> u64 \<Rightarrow> u64 \<Rightarrow> u64 \<Rightarrow> mm_proc \<Rightarrow> 'v \<Rightarrow> int \<times> 'v" where
  "sys_mremap core old_address old_size new_size flags pa vs =
     (let old_aligned = round_up old_size;
          new_aligned = round_up new_size in
      if old_size = 0 \<or> new_size = 0 \<or> old_address AND 4095 \<noteq> 0 \<or> flags AND NOT LINUX_MREMAP_MAYMOVE \<noteq> 0
         \<or> \<not> linux_user_va_range_ok core old_address old_aligned then (- LINUX_EINVAL, vs)
      else if \<not> user_table core vs then (- LINUX_ESRCH, vs)
      else if \<not> linux_mm_range_mapped core vs old_address old_aligned then (- LINUX_EINVAL, vs)
      else if new_aligned < old_aligned then
        (case linux_mm_unmap_user_range core (old_address + new_aligned) (unat (old_aligned - new_aligned) div 4096) vs of
           (e, vs1) \<Rightarrow> (if e \<noteq> MM_OK then - LINUX_EINVAL else sint old_address, vs1))
      else if new_aligned = old_aligned then (sint old_address, vs)
      else
        (case linux_mm_map_user_range core (old_address + old_aligned) (unat (new_aligned - old_aligned) div 4096) (rw_flags core) vs of
           (Some p, vs1) \<Rightarrow> (sint old_address, vs1)
         | (None, vs1) \<Rightarrow>
             if flags AND LINUX_MREMAP_MAYMOVE = 0 then (- LINUX_ENOMEM, vs1)
             else mremap_move core old_address old_size old_aligned new_aligned pa vs1))"

subsection \<open>The page fault handler\<close>

text \<open>
  What the trap reports, and what becomes of it: execution resumes, the process gets a segmentation fault (\<^verbatim>\<open>linux_compat_deliver_segv_or_fatal\<close>), or
  the kernel panics.
\<close>

record pf_info =
  pf_addr :: u64
  pf_write :: bool
  pf_present :: bool
  pf_execute :: bool
  pf_kernel :: bool

datatype pf_outcome = PF_RESUME | PF_SEGV | PF_PANIC

definition linux_handle_cow_fault :: "'v mm_core \<Rightarrow> u64 \<Rightarrow> bool \<Rightarrow> bool \<Rightarrow> 'v \<Rightarrow> mm_ret \<times> 'v" where
  "linux_handle_cow_fault core fault_addr is_write is_present vs =
     (if \<not> is_write \<or> \<not> is_present then (MM_RENDEZVOS, vs) else linux_mm_cow_split_page core fault_addr vs)"

definition pf_unhandled :: "pf_info \<Rightarrow> pf_outcome" where
  "pf_unhandled info = (if pf_kernel info then PF_PANIC else PF_SEGV)"

text \<open>A page that is reserved and has no frame: the page table entry is restored or the page is filled.\<close>

definition pf_lazy :: "'v mm_core \<Rightarrow> pf_info \<Rightarrow> u64 \<Rightarrow> u64 \<Rightarrow> 'v \<Rightarrow> pf_outcome \<times> 'v" where
  "pf_lazy core info aligned nflags vs =
     (if nflags AND PAGE_ENTRY_VALID core \<noteq> 0 then
        (case linux_mm_reinstall_user_pte core aligned vs of
           (e, vs1) \<Rightarrow> (if e = MM_OK then PF_RESUME else pf_unhandled info, vs1))
      else case calculate_end_check core aligned 1 of
        None \<Rightarrow> (pf_unhandled info, vs)
      | Some page_end \<Rightarrow>
          let l0_lo = linux_mm_l0_lock_lo aligned in
          (case lock_range_big core l0_lo page_end vs of
             (MM_OK, vs1) \<Rightarrow>
               (case fill_page_with_exist_range core aligned nflags vs1 of
                  (e, vs2) \<Rightarrow> (if e = MM_OK then PF_RESUME else pf_unhandled info, unlock_range_big core l0_lo page_end vs2))
           | (e, vs1) \<Rightarrow> (pf_unhandled info, vs1)))"

definition linux_trap_pf_handler :: "'v mm_core \<Rightarrow> pf_info \<Rightarrow> 'v \<Rightarrow> pf_outcome \<times> 'v" where
  "linux_trap_pf_handler core info vs =
     (let fault_addr = pf_addr info;
          aligned = round_down fault_addr in
      if fault_addr < 4096 then (pf_unhandled info, vs)
      else
        let pt_flags = (case have_mapped core vs (VPN aligned) of Inl e \<Rightarrow> 0 | Inr (ppn, fl, lv) \<Rightarrow> fl);
            page_mapped = (case have_mapped core vs (VPN aligned) of Inl e \<Rightarrow> False | Inr (ppn, fl, lv) \<Rightarrow> fl AND PAGE_ENTRY_VALID core \<noteq> 0);
            q = linux_mm_query_vaddr core vs aligned;
            in_radix = (\<exists>r. q = Inr r);
            nflags = (case q of Inl e \<Rightarrow> 0 | Inr (nstart, fl) \<Rightarrow> fl);
            radix_is_write = (nflags AND PAGE_ENTRY_WRITE core \<noteq> 0) in
        if \<not> page_mapped \<and> in_radix then pf_lazy core info aligned nflags vs
        else if page_mapped \<and> pf_write info \<and> pf_present info \<and> radix_is_write \<and> pt_flags AND PAGE_ENTRY_WRITE core = 0 \<and> in_radix then
          (case linux_handle_cow_fault core fault_addr (pf_write info) (pf_present info) vs of
             (e, vs1) \<Rightarrow> (if e = MM_OK then PF_RESUME else pf_unhandled info, vs1))
        else (pf_unhandled info, vs))"

end
