(* ===== verification/Exec_Image.thy ===== *)
theory Exec_Image
  imports Mm_Syscalls Fd_Table Signal_State
begin

text \<open>
  Starting a program: the initial user stack (\<^verbatim>\<open>linux_layer/proc/linux_exec_stack.c\<close>), the copy of the argument vector and \<^verbatim>\<open>sys_execve\<close>
  (\<^verbatim>\<open>sys_execve.c\<close>), the replacement of the process image (\<^verbatim>\<open>linux_exec.c\<close>, \<^verbatim>\<open>linux_exec_proc.c\<close>) and the arguments of the first process
  (\<^verbatim>\<open>init/linux_boot.c\<close>).

  User memory is reached through \<open>mm_core\<close>. Argument strings are byte lists without the terminator. The ELF headers are read by macros of
  the core; what they read of a file is the record \<open>elf_view\<close>. Waiting for other processors (\<^verbatim>\<open>linux_exec_wait_remote_tlb_quiesce\<close>) is not modelled.
\<close>

section \<open>The initial stack\<close>

record elf_phdr =
  p_load :: bool
  p_vaddr :: u64
  p_offset :: u64
  p_filesz :: u64

record elf_view =
  elf64_header :: bool
  e_phoff :: u64
  e_phentsize :: u64
  e_phnum :: u64
  e_entry :: u64
  e_phdrs :: "elf_phdr list"

record linux_exec_elf_auxv =
  have_elf :: bool
  av_phdr :: u64
  av_phent :: u64
  av_phnum :: u64
  av_entry :: u64

text \<open>The architecture and the values that the random bytes are mixed from; \<open>xe_rand64\<close> is the generator of the core.\<close>

record exec_env =
  xe_x86 :: bool
  xe_rand64 :: "u64 \<Rightarrow> u64"
  xe_pid :: u64
  xe_tid :: u64
  xe_cpu :: u64

definition exec_store_u64 :: "'v mm_core \<Rightarrow> u64 \<Rightarrow> u64 \<Rightarrow> 'v \<Rightarrow> bool \<times> 'v" where
  "exec_store_u64 core user_va value v = (case linux_mm_store_to_user core user_va (le_bytes value) v of (e, v1) \<Rightarrow> (e = MM_OK, v1))"

fun phdr_scan :: "u64 \<Rightarrow> u64 \<Rightarrow> elf_phdr list \<Rightarrow> u64" where
  "phdr_scan phoff first_load [] = (if first_load \<noteq> 0 then first_load + phoff else 0)"
| "phdr_scan phoff first_load (p # ps) =
     (if \<not> p_load p then phdr_scan phoff first_load ps
      else if p_offset p \<le> phoff \<and> phoff < p_offset p + p_filesz p then p_vaddr p + (phoff - p_offset p)
      else phdr_scan phoff (if first_load = 0 then p_vaddr p else first_load) ps)"

definition linux_exec_elf_user_phdr_va :: "elf_view \<Rightarrow> u64 \<Rightarrow> u64" where
  "linux_exec_elf_user_phdr_va elf phoff = phdr_scan phoff 0 (e_phdrs elf)"

definition linux_exec_elf_auxv_from_kva :: "elf_view \<Rightarrow> linux_exec_elf_auxv" where
  "linux_exec_elf_auxv_from_kva elf =
     (if \<not> elf64_header elf then \<lparr>have_elf = False, av_phdr = 0, av_phent = 0, av_phnum = 0, av_entry = 0\<rparr>
      else
        let phdr = linux_exec_elf_user_phdr_va elf (e_phoff elf) in
        \<lparr>have_elf = (phdr \<noteq> 0 \<and> 0 < e_phnum elf \<and> e_phentsize elf \<noteq> 0 \<and> e_entry elf \<noteq> 0),
         av_phdr = phdr, av_phent = e_phentsize elf, av_phnum = e_phnum elf, av_entry = e_entry elf\<rparr>)"

definition linux_exec_fill_random16 :: "exec_env \<Rightarrow> u64 \<Rightarrow> u64 \<Rightarrow> u8 list \<times> u64" where
  "linux_exec_fill_random16 env mix rng =
     (let s0 = rng XOR mix XOR push_bit 32 (xe_pid env) XOR xe_tid env XOR push_bit 48 (xe_cpu env);
          s = (if s0 = 0 then 1 else s0);
          lo = xe_rand64 env s;
          hi = xe_rand64 env lo in
      (le_bytes lo @ le_bytes hi, hi))"

abbreviation LINUX_EXEC_AUXV_MAX_PAIRS :: nat where "LINUX_EXEC_AUXV_MAX_PAIRS \<equiv> 24"

definition auxv_push :: "nat \<Rightarrow> (u64 \<times> u64) list \<Rightarrow> u64 \<times> u64 \<Rightarrow> (u64 \<times> u64) list" where
  "auxv_push cap pairs x = (if length pairs < cap then pairs @ [x] else pairs)"

definition linux_exec_auxv_fill_pairs :: "exec_env \<Rightarrow> linux_exec_elf_auxv \<Rightarrow> u64 \<Rightarrow> u64 \<Rightarrow> nat \<Rightarrow> (u64 \<times> u64) list" where
  "linux_exec_auxv_fill_pairs env auxv random_va execfn_va cap =
     (let pairs = (if have_elf auxv
        then foldl (auxv_push cap) []
               ([(3, av_phdr auxv), (4, av_phent auxv), (5, av_phnum auxv), (6, 4096), (9, av_entry auxv), (11, 0), (12, 0), (13, 0), (14, 0),
                 (23, 0), (17, 100), (16, if xe_x86 env then 0 else 7), (25, random_va)] @ (if execfn_va \<noteq> 0 then [(31, execfn_va)] else []))
        else foldl (auxv_push cap) [] [(6, 4096)]) in
      auxv_push cap pairs (0, 0))"

text \<open>The loops that store strings, pairs and pointers; they stop at the first store that fails.\<close>

fun store_strings :: "'v mm_core \<Rightarrow> u64 \<Rightarrow> u8 list list \<Rightarrow> 'v \<Rightarrow> bool \<times> 'v" where
  "store_strings core string_va [] v = (True, v)"
| "store_strings core string_va (s # ss) v =
     (case linux_mm_store_to_user core string_va (s @ [0]) v of
        (e, v1) \<Rightarrow> if e \<noteq> MM_OK then (False, v1) else store_strings core (string_va + of_nat (length s + 1)) ss v1)"

fun store_pairs :: "'v mm_core \<Rightarrow> u64 \<Rightarrow> nat \<Rightarrow> (u64 \<times> u64) list \<Rightarrow> 'v \<Rightarrow> bool \<times> 'v" where
  "store_pairs core sp j [] v = (True, v)"
| "store_pairs core sp j ((tag, val) # ps) v =
     (case exec_store_u64 core (sp + of_nat (j * 2 * 8)) tag v of
        (False, v1) \<Rightarrow> (False, v1)
      | (True, v1) \<Rightarrow>
          (case exec_store_u64 core (sp + of_nat ((j * 2 + 1) * 8)) val v1 of
             (False, v2) \<Rightarrow> (False, v2)
           | (True, v2) \<Rightarrow> store_pairs core sp (j + 1) ps v2))"

fun store_argv :: "'v mm_core \<Rightarrow> u64 \<Rightarrow> nat \<Rightarrow> u64 \<Rightarrow> u8 list list \<Rightarrow> 'v \<Rightarrow> bool \<times> 'v" where
  "store_argv core area i string_va [] v = (True, v)"
| "store_argv core area i string_va (s # ss) v =
     (case exec_store_u64 core (area + of_nat (i * 8)) string_va v of
        (False, v1) \<Rightarrow> (False, v1)
      | (True, v1) \<Rightarrow> store_argv core area (i + 1) (string_va + of_nat (length s + 1)) ss v1)"

definition strings_size :: "u8 list list \<Rightarrow> nat" where
  "strings_size ss = sum_list (map (\<lambda>s. length s + 1) ss)"

definition align_entry_sp :: "exec_env \<Rightarrow> u64 \<Rightarrow> u64" where
  "align_entry_sp env entry_sp =
     (let a = entry_sp AND NOT 0xF in
      if xe_x86 env then (if entry_sp < a OR 8 then (a OR 8) - 0x10 else a OR 8) else a)"

text \<open>The part below the strings and the random bytes: the auxiliary vector, the empty environment, the argument pointers and their number.\<close>

definition store_vectors ::
  "'v mm_core \<Rightarrow> exec_env \<Rightarrow> u64 \<Rightarrow> (u64 \<times> u64) list \<Rightarrow> u64 \<Rightarrow> u8 list list \<Rightarrow> 'v \<Rightarrow> (u64 \<times> u64) option \<times> 'v" where
  "store_vectors core env sp0 pairs strings_base kargv v =
     (let auxv_bytes = of_nat (length pairs * 2 * 8) :: u64;
          vector_bytes = 8 + of_nat ((length kargv + 1) * 8) + 8 :: u64;
          entry_sp = sp0 - (auxv_bytes + vector_bytes);
          aligned = align_entry_sp env entry_sp;
          sp1 = (if aligned < entry_sp then sp0 - (entry_sp - aligned) else sp0);
          sp2 = sp1 - auxv_bytes;
          sp3 = sp2 - 8;
          area = sp3 - of_nat ((length kargv + 1) * 8);
          sp4 = area - 8 in
      case store_pairs core sp2 0 pairs v of
        (False, v1) \<Rightarrow> (None, v1)
      | (True, v1) \<Rightarrow>
          (case exec_store_u64 core sp3 0 v1 of
             (False, v2) \<Rightarrow> (None, v2)
           | (True, v2) \<Rightarrow>
               (case store_argv core area 0 strings_base kargv v2 of
                  (False, v3) \<Rightarrow> (None, v3)
                | (True, v3) \<Rightarrow>
                    (case exec_store_u64 core (area + of_nat (length kargv * 8)) 0 v3 of
                       (False, v4) \<Rightarrow> (None, v4)
                     | (True, v4) \<Rightarrow>
                         (case exec_store_u64 core sp4 (of_nat (length kargv)) v4 of
                            (False, v5) \<Rightarrow> (None, v5)
                          | (True, v5) \<Rightarrow> (Some (sp4, area), v5))))))"

text \<open>
  Returns the stack pointer and the address of the argument vector, or nothing on failure (the code returns 0), with the state of the
  generator.
\<close>

definition linux_exec_build_initial_stack ::
  "'v mm_core \<Rightarrow> exec_env \<Rightarrow> u64 \<Rightarrow> u8 list list \<Rightarrow> u8 list option \<Rightarrow> linux_exec_elf_auxv \<Rightarrow> u64 \<Rightarrow> 'v \<Rightarrow> (u64 \<times> u64) option \<times> u64 \<times> 'v" where
  "linux_exec_build_initial_stack core env stack_top kargv execfn auxv rng v =
     (let all = kargv @ (case execfn of None \<Rightarrow> [] | Some s \<Rightarrow> [s]);
          strings_base = (stack_top - of_nat (strings_size all)) AND NOT 0xF;
          execfn_va = (case execfn of None \<Rightarrow> 0 | Some s \<Rightarrow> strings_base + of_nat (strings_size kargv)) in
      case store_strings core strings_base all v of
        (False, v1) \<Rightarrow> (None, rng, v1)
      | (True, v1) \<Rightarrow>
          if have_elf auxv then
            let random_va = (strings_base - 16) AND NOT 0xF in
            (case linux_exec_fill_random16 env random_va rng of
               (bytes, rng1) \<Rightarrow>
                 (case linux_mm_store_to_user core random_va bytes v1 of
                    (e, v2) \<Rightarrow>
                      if e \<noteq> MM_OK then (None, rng1, v2)
                      else (case store_vectors core env random_va
                                   (linux_exec_auxv_fill_pairs env auxv random_va execfn_va LINUX_EXEC_AUXV_MAX_PAIRS) strings_base kargv v2 of
                              (r, v3) \<Rightarrow> (r, rng1, v3))))
          else
            (case store_vectors core env strings_base (linux_exec_auxv_fill_pairs env auxv 0 execfn_va LINUX_EXEC_AUXV_MAX_PAIRS) strings_base kargv v1 of
               (r, v2) \<Rightarrow> (r, rng, v2)))"

section \<open>Replacing the image\<close>

definition linux_proc_set_heap_from_elf_load :: "'v mm_core \<Rightarrow> u64 \<Rightarrow> mm_proc \<Rightarrow> mm_proc" where
  "linux_proc_set_heap_from_elf_load core max_load_end pa =
     (let brk0 = (if max_load_end = 0 \<or> KERNEL_VIRT_OFFSET core \<le> max_load_end then 0x40000000 else max_load_end) in
      pa\<lparr>brk := brk0, start_brk := brk0, mmap_hint := round_up brk0 + 4096\<rparr>)"

text \<open>The state of the process that an exec replaces: its heap, its signal dispositions, the handler state of the thread and its files.\<close>

record exec_proc =
  xp_mm :: mm_proc
  xp_sig :: "proc_state option"
  xp_thread :: "thread_state option"
  xp_fs :: "fs_ptr \<times> fs_world"

definition linux_signal_reset_thread_handler_state :: "thread_state option \<Rightarrow> thread_state option" where
  "linux_signal_reset_thread_handler_state ta = map_option (\<lambda>ts. linux_signal_init_thread_state) ta"

definition linux_exec_reset_proc_state :: "'v mm_core \<Rightarrow> bool \<Rightarrow> u64 \<Rightarrow> exec_proc \<Rightarrow> exec_proc" where
  "linux_exec_reset_proc_state core alloc_ok max_load_end p =
     p\<lparr>xp_sig := linux_signal_proc_reset alloc_ok (xp_sig p),
       xp_mm := linux_proc_set_heap_from_elf_load core max_load_end (xp_mm p),
       xp_fs := linux_fs_proc_reset alloc_ok alloc_ok (xp_fs p)\<rparr>"

text \<open>
  What the kernel core and the file server do for an exec: loading a file as a page slice \<open>'s\<close>, clearing the user mappings, loading the segments, the
  headers of the file when its first page is present, and a new user stack.
\<close>

datatype exec_clear = CLEAR_OK | CLEAR_RC_UNEQUAL | CLEAR_FAILED

record ('v, 's) exec_core =
  load_elf_slice :: "u8 list \<Rightarrow> 'v \<Rightarrow> (int + 's) \<times> 'v"
  elf_slice_view :: "'s \<Rightarrow> elf_view option"
  vspace_clear_user_mappings :: "'v \<Rightarrow> exec_clear \<times> 'v"
  load_elf_to_vs :: "'s \<Rightarrow> 'v \<Rightarrow> u64 option \<times> 'v"
  generate_user_stack :: "'v \<Rightarrow> u64 \<times> 'v"

definition linux_exec_elf_slice_valid :: "('v, 's) exec_core \<Rightarrow> 's \<Rightarrow> bool" where
  "linux_exec_elf_slice_valid xc sl = (case elf_slice_view xc sl of None \<Rightarrow> False | Some elf \<Rightarrow> elf64_header elf)"

text \<open>The call returns an error, starts the program at an entry point with a stack pointer, or ends the process.\<close>

datatype exec_result = EX_RET int | EX_START u64 u64 | EX_FATAL

definition exec_abort :: "bool \<Rightarrow> int \<Rightarrow> exec_result" where
  "exec_abort may_abort err = (if may_abort then EX_FATAL else EX_RET err)"

text \<open>The part behind the point where the old image has been cleared.\<close>

definition exec_new_image ::
  "'v mm_core \<Rightarrow> ('v, 's) exec_core \<Rightarrow> exec_env \<Rightarrow> bool \<Rightarrow> u8 list \<Rightarrow> u8 list list \<Rightarrow> bool \<Rightarrow> 's \<Rightarrow>
    exec_proc \<Rightarrow> u64 \<Rightarrow> 'v \<Rightarrow> exec_result \<times> exec_proc \<times> u64 \<times> 'v" where
  "exec_new_image core xc env alloc_ok filename kargv may_abort sl p rng v =
     (case load_elf_to_vs xc sl v of
        (None, v1) \<Rightarrow> (exec_abort may_abort (- LINUX_ENOEXEC), p, rng, v1)
      | (Some max_load_end, v1) \<Rightarrow>
          (case elf_slice_view xc sl of
             None \<Rightarrow> (exec_abort may_abort (- LINUX_ENOEXEC), p, rng, v1)
           | Some elf \<Rightarrow>
               (case generate_user_stack xc v1 of
                  (user_sp, v2) \<Rightarrow>
                    if user_sp = 0 then (exec_abort may_abort (- LINUX_ENOMEM), p, rng, v2)
                    else
                      (case linux_exec_build_initial_stack core env user_sp kargv (Some filename) (linux_exec_elf_auxv_from_kva elf) rng v2 of
                         (None, rng1, v3) \<Rightarrow> (exec_abort may_abort (- LINUX_EFAULT), p, rng1, v3)
                       | (Some (sp, area), rng1, v3) \<Rightarrow>
                           if sp = 0 then (exec_abort may_abort (- LINUX_EFAULT), p, rng1, v3)
                           else
                             let p1 = linux_exec_reset_proc_state core alloc_ok max_load_end p in
                             (EX_START (e_entry elf) sp, p1\<lparr>xp_thread := linux_signal_reset_thread_handler_state (xp_thread p1)\<rparr>, rng1, v3)))))"

definition linux_exec_replace_image ::
  "'v mm_core \<Rightarrow> ('v, 's) exec_core \<Rightarrow> exec_env \<Rightarrow> bool \<Rightarrow> u8 list \<Rightarrow> u8 list list \<Rightarrow> bool \<Rightarrow>
    exec_proc \<Rightarrow> u64 \<Rightarrow> 'v \<Rightarrow> exec_result \<times> exec_proc \<times> u64 \<times> 'v" where
  "linux_exec_replace_image core xc env alloc_ok filename kargv may_abort p rng v =
     (if 128 < length kargv then (EX_RET (- LINUX_E2BIG), p, rng, v)
      else if \<not> user_table core v then (EX_RET (- LINUX_EFAULT), p, rng, v)
      else
        (case load_elf_slice xc filename v of
           (Inl ret, v1) \<Rightarrow> (EX_RET ret, p, rng, v1)
         | (Inr sl, v1) \<Rightarrow>
             if \<not> linux_exec_elf_slice_valid xc sl then (EX_RET (- LINUX_ENOEXEC), p, rng, v1)
             else
               (case vspace_clear_user_mappings xc v1 of
                  (CLEAR_RC_UNEQUAL, v2) \<Rightarrow> (EX_RET (- LINUX_EAGAIN), p, rng, v2)
                | (CLEAR_FAILED, v2) \<Rightarrow> (exec_abort may_abort (- LINUX_EFAULT), p, rng, v2)
                | (CLEAR_OK, v2) \<Rightarrow> exec_new_image core xc env alloc_ok filename kargv may_abort sl p rng v2)))"

section \<open>The system call\<close>

fun le_word :: "u8 list \<Rightarrow> u64" where
  "le_word [] = 0"
| "le_word (b # bs) = ucast b OR push_bit 8 (le_word bs)"

definition exec_arg_string_valid :: "u8 list \<Rightarrow> bool" where
  "exec_arg_string_valid buf = list_ex (\<lambda>b. b = 0) buf"

text \<open>\<open>n\<close> arguments may still be read, starting with entry \<open>i\<close> of the user's vector.\<close>

fun copy_argv_loop :: "'v mm_core \<Rightarrow> 'v \<Rightarrow> u64 \<Rightarrow> nat \<Rightarrow> nat \<Rightarrow> u8 list list \<Rightarrow> int + u8 list list" where
  "copy_argv_loop core v user_argv i 0 kargv = Inr kargv"
| "copy_argv_loop core v user_argv i (Suc n) kargv =
     (case linux_mm_load_from_user core v (user_argv + of_nat (i * 8)) 8 of
        Inl e \<Rightarrow> Inl (- LINUX_EFAULT)
      | Inr ptr \<Rightarrow>
          if le_word ptr = 0 then Inr kargv
          else
            (case linux_mm_load_from_user core v (le_word ptr) 256 of
               Inl e \<Rightarrow> Inl (- LINUX_EFAULT)
             | Inr buf \<Rightarrow>
                 let dst = buf[255 := 0] in
                 if \<not> exec_arg_string_valid dst then Inl (- LINUX_E2BIG)
                 else copy_argv_loop core v user_argv (i + 1) n (kargv @ [takeWhile (\<lambda>b. b \<noteq> 0) dst])))"

definition linux_exec_copy_argv_from_user :: "'v mm_core \<Rightarrow> 'v \<Rightarrow> u64 \<Rightarrow> int + u8 list list" where
  "linux_exec_copy_argv_from_user core v user_argv =
     (if user_argv = 0 then Inr []
      else
        (case copy_argv_loop core v user_argv 0 128 [] of
           Inl e \<Rightarrow> Inl e
         | Inr kargv \<Rightarrow>
             if 128 \<le> length kargv then
               (case linux_mm_load_from_user core v (user_argv + of_nat (128 * 8)) 8 of
                  Inl e \<Rightarrow> Inl (- LINUX_EFAULT)
                | Inr extra \<Rightarrow> if le_word extra \<noteq> 0 then Inl (- LINUX_E2BIG) else Inr kargv)
             else Inr kargv))"

definition sys_execve ::
  "'v mm_core \<Rightarrow> ('v, 's) exec_core \<Rightarrow> exec_env \<Rightarrow> bool \<Rightarrow> u64 \<Rightarrow> u64 \<Rightarrow>
    exec_proc \<Rightarrow> u64 \<Rightarrow> 'v \<Rightarrow> exec_result \<times> exec_proc \<times> u64 \<times> 'v" where
  "sys_execve core xc env alloc_ok user_filename user_argv p rng v =
     (if \<not> user_table core v then (EX_RET (- LINUX_EFAULT), p, rng, v)
      else
        (case linux_mm_load_cstring_from_user core v user_filename 256 of
           (MM_OK, buf) \<Rightarrow>
             if \<not> alloc_ok then (EX_RET (- LINUX_ENOMEM), p, rng, v)
             else
               (case linux_exec_copy_argv_from_user core v user_argv of
                  Inl e \<Rightarrow> (EX_RET e, p, rng, v)
                | Inr kargv \<Rightarrow>
                    linux_exec_replace_image core xc env alloc_ok (takeWhile (\<lambda>b. b \<noteq> 0) buf) kargv True p rng v)
         | (e, buf) \<Rightarrow> (EX_RET (if e = MM_IN_PARAM then - LINUX_EINVAL else - LINUX_EFAULT), p, rng, v)))"

section \<open>The arguments of the first process\<close>

definition cmdline_space :: "char \<Rightarrow> bool" where
  "cmdline_space c \<longleftrightarrow> c = CHR 0x00 \<or> c = CHR '' '' \<or> c = CHR 0x09 \<or> c = CHR 0x0A \<or> c = CHR 0x0D"

text \<open>The scan of the buffer: position \<open>i\<close> of \<open>n\<close>, the pointers found so far, and the start of the current token.\<close>

fun argv_scan :: "nat \<Rightarrow> nat \<Rightarrow> string \<Rightarrow> nat list \<Rightarrow> nat option \<Rightarrow> string \<times> nat list" where
  "argv_scan i 0 buf ptrs tok = (buf, ptrs)"
| "argv_scan i (Suc k) buf ptrs tok =
     (if cmdline_space (buf ! i) then
        (case tok of
           Some p \<Rightarrow> argv_scan (i + 1) k (buf[i := CHR 0x00]) (if length ptrs < 128 then ptrs @ [p] else ptrs) None
         | None \<Rightarrow> argv_scan (i + 1) k buf ptrs None)
      else argv_scan (i + 1) k buf ptrs (case tok of Some p \<Rightarrow> Some p | None \<Rightarrow> Some i))"

definition linux_boot_resolve_argv :: "string \<Rightarrow> string list" where
  "linux_boot_resolve_argv cmdline =
     (if cmdline = [] then [''sh'', ''/tests/run_all.sh'']
      else
        let n = (if 4096 \<le> length cmdline then 4095 else length cmdline) in
        (case argv_scan 0 (n + 1) (take n cmdline @ [CHR 0x00]) [] None of
           (buf, ptrs) \<Rightarrow>
             if ptrs = [] then [''sh'', ''/tests/run_all.sh'']
             else map (\<lambda>p. takeWhile (\<lambda>c. c \<noteq> CHR 0x00) (drop p buf)) ptrs))"

end
