(* ===== verification/User_Mm_Inv.thy ===== *)
theory User_Mm_Inv
  imports Mm_Syscalls
begin

text \<open>
  What the memory layer relies on (the locale \<open>user_mm\<close>): the page tables, the radix tree, the frames with their
  reference counts and the range locks as a view of the core's state, and the effect of every function of the core on it. The lemmas
  show that ranges are mapped completely or not at all, that unmapping, protecting and copying on write change exactly their pages, that the
  locks are released and that no frame is lost or freed twice.
\<close>

section \<open>The view of memory\<close>

record mem_view =
  utab :: bool
  pte :: "nat \<Rightarrow> (nat \<times> u64) option"
  rdx :: "nat \<Rightarrow> u64 option"
  refs :: "nat \<Rightarrow> nat"
  frames :: "nat \<Rightarrow> nat \<Rightarrow> u8"
  held :: "(u64 \<times> u64) list"

definition put :: "nat \<Rightarrow> nat \<Rightarrow> (nat \<Rightarrow> 'a) \<Rightarrow> (nat \<Rightarrow> 'a) \<Rightarrow> nat \<Rightarrow> 'a" where
  "put s n g m = (\<lambda>k. if s \<le> k \<and> k < s + n then g (k - s) else m k)"

text \<open>The page table entries that map a frame.\<close>

definition mappers :: "mem_view \<Rightarrow> nat \<Rightarrow> nat set" where
  "mappers m p = {k. \<exists>f. pte m k = Some (p, f)}"

text \<open>No reference is lost and none is dropped twice: references and mappings change together.\<close>

definition counts_kept :: "mem_view \<Rightarrow> mem_view \<Rightarrow> bool" where
  "counts_kept m m' \<longleftrightarrow> (\<forall>p. refs m' p + card (mappers m p) = refs m p + card (mappers m' p))"

definition mm_ok :: "'v mm_core \<Rightarrow> mem_view \<Rightarrow> bool" where
  "mm_ok core m \<longleftrightarrow> finite (dom (pte m))
     \<and> (\<forall>k p f. pte m k = Some (p, f) \<longrightarrow> f AND PAGE_ENTRY_VALID core \<noteq> 0 \<and> rdx m k \<noteq> None)
     \<and> (\<forall>k f. rdx m k = Some f \<longrightarrow> f AND (PAGE_ENTRY_VALID core OR PAGE_ENTRY_LAZY core) \<noteq> 0)
     \<and> (\<forall>p. card (mappers m p) \<le> refs m p)"

text \<open>The byte at a virtual address.\<close>

definition vbyte :: "mem_view \<Rightarrow> u64 \<Rightarrow> u8 option" where
  "vbyte m a = map_option (\<lambda>(p, f). frames m p (unat a mod 4096)) (pte m (VPN a))"

text \<open>The pages of \<open>S\<close> have been mapped afresh, or unmapped; everything else is as before.\<close>

definition grown :: "'v mm_core \<Rightarrow> nat set \<Rightarrow> u64 \<Rightarrow> mem_view \<Rightarrow> mem_view \<Rightarrow> bool" where
  "grown core S f m m' \<longleftrightarrow> utab m' = utab m \<and> held m' = held m \<and> mm_ok core m' \<and> counts_kept m m'
     \<and> (\<forall>k \<in> S. pte m k = None \<and> rdx m k = None \<and> (\<exists>p. pte m' k = Some (p, f)) \<and> rdx m' k = Some f)
     \<and> (\<forall>k. k \<notin> S \<longrightarrow> pte m' k = pte m k \<and> rdx m' k = rdx m k) \<and> (\<forall>p. 0 < refs m p \<longrightarrow> frames m' p = frames m p)"

definition shrunk :: "'v mm_core \<Rightarrow> nat set \<Rightarrow> mem_view \<Rightarrow> mem_view \<Rightarrow> bool" where
  "shrunk core S m m' \<longleftrightarrow> utab m' = utab m \<and> held m' = held m \<and> mm_ok core m' \<and> counts_kept m m'
     \<and> (\<forall>k \<in> S. pte m' k = None \<and> rdx m' k = None)
     \<and> (\<forall>k. k \<notin> S \<longrightarrow> pte m' k = pte m k \<and> rdx m' k = rdx m k) \<and> frames m' = frames m"

text \<open>The same address space: only frames that nobody uses may differ.\<close>

definition same_space :: "mem_view \<Rightarrow> mem_view \<Rightarrow> bool" where
  "same_space m m' \<longleftrightarrow> pte m' = pte m \<and> rdx m' = rdx m \<and> refs m' = refs m \<and> held m' = held m \<and> utab m' = utab m
     \<and> (\<forall>p. 0 < refs m p \<longrightarrow> frames m' p = frames m p)"

text \<open>The pages of \<open>S\<close> have got new flags.\<close>

definition recoloured :: "nat set \<Rightarrow> u64 \<Rightarrow> mem_view \<Rightarrow> mem_view \<Rightarrow> bool" where
  "recoloured S f m m' \<longleftrightarrow> utab m' = utab m \<and> held m' = held m \<and> refs m' = refs m \<and> frames m' = frames m
     \<and> (\<forall>k \<in> S. rdx m k \<noteq> None \<and> rdx m' k = Some f \<and> pte m' k = map_option (\<lambda>(p, g). (p, f)) (pte m k))
     \<and> (\<forall>k. k \<notin> S \<longrightarrow> pte m' k = pte m k \<and> rdx m' k = rdx m k)"

text \<open>Page \<open>k\<close> has moved from frame \<open>q\<close> to a fresh frame with the same contents.\<close>

definition privatised :: "'v mm_core \<Rightarrow> nat \<Rightarrow> nat \<Rightarrow> mem_view \<Rightarrow> mem_view \<Rightarrow> bool" where
  "privatised core k q m m' \<longleftrightarrow> (\<exists>p f. refs m p = 0 \<and> f AND PAGE_ENTRY_WRITE core \<noteq> 0 \<and> f AND PAGE_ENTRY_VALID core \<noteq> 0
     \<and> pte m' = (pte m)(k \<mapsto> (p, f)) \<and> rdx m' = (rdx m)(k \<mapsto> f) \<and> refs m' = (refs m)(p := 1, q := refs m q - 1)
     \<and> frames m' = (frames m)(p := frames m q) \<and> held m' = held m \<and> utab m' = utab m)"

lemma page_at_unat: "unat a + k * 4096 < 2 ^ 64 \<Longrightarrow> unat (page_at a k) = unat a + k * 4096"
proof -
  assume a: "unat a + k * 4096 < 2 ^ 64"
  have lt: "k * 4096 < 2 ^ LENGTH(64)" using a by simp
  have "unat (of_nat (k * 4096) :: u64) = k * 4096" by (simp only: unsigned_of_nat take_bit_nat_eq_self [OF lt] of_nat_id)
  then have "unat (of_nat k * 4096 :: u64) = k * 4096" by simp
  then show ?thesis using a by (simp add: page_at_def unat_word_ariths)
qed

lemma VPN_page_at: "unat a + k * 4096 < 2 ^ 64 \<Longrightarrow> VPN (page_at a k) = VPN a + k"
  using page_at_unat [of a k] by (simp add: VPN_def)

lemma unat_round_down: "unat (round_down a) = VPN a * 4096"
proof -
  have "unat a < 2 ^ LENGTH(64)" by (rule unsigned_less)
  then have "unat a div 4096 * 4096 < 2 ^ LENGTH(64)" by (meson div_times_less_eq_dividend le_less_trans)
  then have "take_bit LENGTH(64) (push_bit 12 (drop_bit 12 (unat a))) = unat a div 4096 * 4096"
    by (simp add: drop_bit_eq_div push_bit_eq_mult take_bit_nat_eq_self)
  moreover have "take_bit 64 (unat a) = unat a" using \<open>unat a < 2 ^ LENGTH(64)\<close> by (intro take_bit_nat_eq_self) simp
  ultimately show ?thesis
    unfolding round_down_def VPN_def unsigned_push_bit_eq unsigned_drop_bit_eq by (simp add: drop_bit_eq_div)
qed

lemma aligned: "round_down a = a \<Longrightarrow> unat a = VPN a * 4096"
  using unat_round_down [of a] by simp

lemma VPN_mono: "a \<le> b \<Longrightarrow> VPN a \<le> VPN b"
  by (simp add: VPN_def word_le_nat_alt div_le_mono)

lemma VPN_less: "round_down a = a \<Longrightarrow> round_down b = b \<Longrightarrow> a < b \<longleftrightarrow> VPN a < VPN b"
  using aligned [of a] aligned [of b] by (simp add: word_less_nat_alt)

lemma unat_add_small: "unat a + i < 2 ^ 64 \<Longrightarrow> unat (a + of_nat i :: u64) = unat a + i"
proof -
  assume a: "unat a + i < 2 ^ 64"
  have lt: "i < 2 ^ LENGTH(64)" using a by simp
  have "unat (of_nat i :: u64) = i" by (simp only: unsigned_of_nat take_bit_nat_eq_self [OF lt] of_nat_id)
  then show ?thesis using a by (simp add: unat_word_ariths)
qed

lemma page_room: "i < 4096 - unat a mod 4096 \<Longrightarrow> VPN (a + of_nat i) = VPN a"
proof -
  assume i: "i < 4096 - unat a mod 4096"
  have "unat a < 2 ^ LENGTH(64)" by (rule unsigned_less)
  then have "unat a div 4096 < 4503599627370496" by (simp add: less_mult_imp_div_less)
  moreover have split: "unat a = unat a div 4096 * 4096 + unat a mod 4096" by simp
  ultimately have "unat a + i < 18446744073709551616" using i by linarith
  then have "unat a + i < 2 ^ 64" by simp
  then have "unat (a + of_nat i) = (unat a mod 4096 + i) + unat a div 4096 * 4096" using unat_add_small split by simp
  moreover have "(unat a mod 4096 + i + unat a div 4096 * 4096) div 4096 = unat a div 4096"
    using i by (subst div_mult_self1) simp_all
  ultimately show ?thesis unfolding VPN_def by (simp only:)
qed

lemma round_down_idem [simp]: "round_down (round_down a) = round_down a"
proof -
  have "unat (round_down (round_down a)) = unat (round_down a)" unfolding unat_round_down VPN_def by simp
  then show ?thesis by (simp only: unsigned_word_eqI)
qed

lemma VPN_eq: "unat a = k * 4096 + j \<Longrightarrow> j < 4096 \<Longrightarrow> VPN a = k"
  by (simp add: VPN_def)

lemma aligned_eq: "unat a = k * 4096 \<Longrightarrow> round_down a = a"
proof -
  assume a: "unat a = k * 4096"
  then have "unat (round_down a) = unat a" using VPN_eq [of a k 0] unat_round_down [of a] by simp
  then show ?thesis by (simp only: unsigned_word_eqI)
qed

lemma round_up_aligned: "round_down a = a \<Longrightarrow> round_up a = a"
proof -
  assume al: "round_down a = a"
  define k where "k = VPN a"
  have m: "unat a = k * 4096" using aligned [OF al] by (simp add: k_def)
  have "unat a < 2 ^ LENGTH(64)" by (rule unsigned_less)
  then have "k < 4503599627370496" using m by simp
  then have "unat a + 4095 < 2 ^ 64" using m by simp
  then have "unat (a + 4095) = k * 4096 + 4095" using unat_add_small [of a 4095] m by simp
  then have "VPN (a + 4095) = k" by (rule VPN_eq) simp
  then have "unat (round_down (a + 4095)) = unat a" using m unat_round_down [of "a + 4095"] by simp
  then show ?thesis by (simp only: round_up_def unsigned_word_eqI)
qed

lemma counts_kept_refl [simp]: "counts_kept m m"
  by (simp add: counts_kept_def)

lemma counts_kept_trans: "counts_kept m m1 \<Longrightarrow> counts_kept m1 m2 \<Longrightarrow> counts_kept m m2"
  unfolding counts_kept_def
proof
  fix p assume "\<forall>p. refs m1 p + card (mappers m p) = refs m p + card (mappers m1 p)"
    "\<forall>p. refs m2 p + card (mappers m1 p) = refs m1 p + card (mappers m2 p)"
  from spec [OF this(1), of p] spec [OF this(2), of p]
  show "refs m2 p + card (mappers m p) = refs m p + card (mappers m2 p)" by linarith
qed

section \<open>The interface of the kernel core\<close>

locale user_mm =
  fixes core :: "'v mm_core" and mv :: "'v \<Rightarrow> mem_view"
  assumes write_bit: "PAGE_ENTRY_WRITE core \<noteq> 0" and valid_bit: "PAGE_ENTRY_VALID core \<noteq> 0"
    and table: "user_table core v = utab (mv v)"
    and mapped: "pte (mv v) k = Some (p, f) \<Longrightarrow> have_mapped core v k = Inr (p, f, 3)"
    and unmapped: "pte (mv v) k = None \<Longrightarrow> \<exists>e. have_mapped core v k = Inl e \<and> e \<noteq> MM_OK"
    and pin: "pte (mv v) k = Some (p, f) \<Longrightarrow>
      \<exists>v'. have_mapped_pin core v k = (Inr (p, f, 3), v') \<and> mv v' = (mv v)\<lparr>refs := (refs (mv v))(p := Suc (refs (mv v) p))\<rparr>"
    and pin_none: "pte (mv v) k = None \<Longrightarrow> \<exists>e v'. have_mapped_pin core v k = (Inl e, v') \<and> mv v' = mv v"
    and end_check: "calculate_end_check core a n = Some e \<Longrightarrow> unat e = unat a + n * 4096"
    and lock: "lock_range_big core a b v = (r, v') \<Longrightarrow> mv v' = (if r = MM_OK then (mv v)\<lparr>held := (a, b) # held (mv v)\<rparr> else mv v)"
    and unlock: "mv (unlock_range_big core a b v) = (mv v)\<lparr>held := remove1 (a, b) (held (mv v))\<rparr>"
    and query: "unat e = unat a + 4096 \<Longrightarrow>
      (case rdx (mv v) (VPN a) of Some f \<Rightarrow> query_range core v a e = Inr f | None \<Rightarrow> \<exists>r. query_range core v a e = Inl r \<and> r \<noteq> MM_OK)"
    and fill: "set_range_and_fill core a n f v = (True, v') \<Longrightarrow> \<exists>p z. (\<forall>i < n. rdx (mv v) (VPN a + i) = None \<and> refs (mv v) (p + i) = 0)
      \<and> mv v' = (mv v)\<lparr>pte := put (VPN a) n (\<lambda>i. Some (p + i, f)) (pte (mv v)), rdx := put (VPN a) n (\<lambda>i. Some f) (rdx (mv v)),
                       refs := put p n (\<lambda>i. 1) (refs (mv v)), frames := put p n z (frames (mv v))\<rparr>"
    and fill_fails: "set_range_and_fill core a n f v = (False, v') \<Longrightarrow> mv v' = mv v"
    and unfill: "(\<forall>i < n. \<exists>f. pte (mv v) (VPN a + i) = Some (p + i, f)) \<Longrightarrow> \<exists>v'. clean_range_and_unfill core a n p v = (MM_OK, v')
      \<and> mv v' = (mv v)\<lparr>pte := put (VPN a) n (\<lambda>i. None) (pte (mv v)), rdx := put (VPN a) n (\<lambda>i. None) (rdx (mv v)),
                       refs := put p n (\<lambda>i. refs (mv v) (p + i) - 1) (refs (mv v))\<rparr>"
    and interval: "find_first_occupied_interval core v a b = Some (s, e, f) \<Longrightarrow> round_down a = a \<Longrightarrow> round_down b = b \<Longrightarrow>
      a \<le> s \<and> s < b \<and> s < e \<and> round_down s = s \<and> round_down e = e \<and> (\<forall>k. VPN s \<le> k \<and> k < VPN e \<longrightarrow> rdx (mv v) k = Some f)
      \<and> (\<forall>k. VPN a \<le> k \<and> k < VPN s \<longrightarrow> rdx (mv v) k = None)"
    and no_interval: "find_first_occupied_interval core v a b = None \<Longrightarrow> VPN a \<le> k \<Longrightarrow> k < VPN b \<Longrightarrow> rdx (mv v) k = None"
    and set_flags: "set_range_flags core a len f v = (r, v') \<Longrightarrow> (\<forall>i < unat len div 4096. rdx (mv v) (VPN a + i) \<noteq> None) \<Longrightarrow>
      mv v' = (if r = MM_OK then (mv v)\<lparr>pte := put (VPN a) (unat len div 4096) (\<lambda>i. map_option (\<lambda>(p, g). (p, f)) (pte (mv v) (VPN a + i))) (pte (mv v)),
                 rdx := put (VPN a) (unat len div 4096) (\<lambda>i. Some f) (rdx (mv v))\<rparr> else mv v)"
    and alloc: "pmm_alloc1 core v = (Some (p, n), v') \<Longrightarrow> n = 1 \<and> refs (mv v) p = 0
      \<and> (\<exists>z. mv v' = (mv v)\<lparr>refs := (refs (mv v))(p := 1), frames := (frames (mv v))(p := z)\<rparr>)"
    and no_alloc: "pmm_alloc1 core v = (None, v') \<Longrightarrow> mv v' = mv v"
    and free: "mv (pmm_free1 core p v) = (mv v)\<lparr>refs := (refs (mv v))(p := refs (mv v) p - 1)\<rparr>"
    and copy: "copy_page core p q v = (r, v') \<Longrightarrow> \<exists>z. mv v' = (mv v)\<lparr>frames := (frames (mv v))(p := z)\<rparr> \<and> (r = MM_OK \<longrightarrow> z = frames (mv v) q)"
    and copy_range: "copy_data_range core (p, x) (q, y) n v = (r, v') \<Longrightarrow> \<exists>z. mv v' = (mv v)\<lparr>frames := (frames (mv v))(p := z)\<rparr>"
    and remap: "remap_page core a p f q v = (r, v') \<Longrightarrow> pte (mv v) (VPN a) = Some (q, g) \<Longrightarrow>
      mv v' = (if r = MM_OK then (mv v)\<lparr>pte := (pte (mv v))(VPN a \<mapsto> (p, f)), rdx := (rdx (mv v))(VPN a \<mapsto> f),
                 refs := (refs (mv v))(q := refs (mv v) q - 1)\<rparr> else mv v)"
    and load: "user_load core v a n = Inr d \<Longrightarrow> length d = n \<and> (\<forall>i < n. vbyte (mv v) (a + of_nat i) = Some (d ! i))"
    and no_load: "user_load core v a n = Inl r \<Longrightarrow> r \<noteq> MM_OK \<and> (\<exists>i < n. vbyte (mv v) (a + of_nat i) = None)"
begin

text \<open>Mapping fresh frames, and unmapping a run of frames.\<close>

lemma mappers_put:
  assumes "\<forall>i < n. pte m (s + i) = None"
  shows "mappers (m\<lparr>pte := put s n (\<lambda>i. Some (p + i, f)) (pte m)\<rparr>) q = mappers m q \<union> (if p \<le> q \<and> q < p + n then {s + (q - p)} else {})"
proof (rule set_eqI)
  fix k
  have none: "pte m k = None" if "s \<le> k" "k < s + n" for k using assms that by (metis le_add_diff_inverse nat_add_left_cancel_less)
  show "k \<in> mappers (m\<lparr>pte := put s n (\<lambda>i. Some (p + i, f)) (pte m)\<rparr>) q \<longleftrightarrow>
      k \<in> mappers m q \<union> (if p \<le> q \<and> q < p + n then {s + (q - p)} else {})"
    using none [of k] by (auto simp: mappers_def put_def)
qed

lemma finite_mappers: "finite (dom (pte m)) \<Longrightarrow> finite (mappers m p)"
  by (rule finite_subset [of _ "dom (pte m)"]) (auto simp: mappers_def)

lemma mappers_simps [simp]:
  "mappers (m\<lparr>rdx := a\<rparr>) = mappers m" "mappers (m\<lparr>refs := b\<rparr>) = mappers m" "mappers (m\<lparr>frames := c\<rparr>) = mappers m"
  "mappers (m\<lparr>held := d\<rparr>) = mappers m"
  by (simp_all add: mappers_def fun_eq_iff)

lemma fill_grown:
  assumes ok: "mm_ok core (mv v)" and f: "f AND PAGE_ENTRY_VALID core \<noteq> 0" and run: "set_range_and_fill core a n f v = (True, v')"
  shows "grown core {VPN a..<VPN a + n} f (mv v) (mv v')"
proof -
  define m where "m = mv v"
  define s where "s = VPN a"
  obtain p z where R: "\<forall>i < n. rdx m (s + i) = None \<and> refs m (p + i) = 0"
    and m': "mv v' = m\<lparr>pte := put s n (\<lambda>i. Some (p + i, f)) (pte m), rdx := put s n (\<lambda>i. Some f) (rdx m),
        refs := put p n (\<lambda>i. 1) (refs m), frames := put p n z (frames m)\<rparr>"
    using fill [OF run] unfolding m_def s_def by blast
  have fin: "finite (dom (pte m))" and reg: "\<And>k p f. pte m k = Some (p, f) \<Longrightarrow> f AND PAGE_ENTRY_VALID core \<noteq> 0 \<and> rdx m k \<noteq> None"
    and live: "\<And>k f. rdx m k = Some f \<Longrightarrow> f AND (PAGE_ENTRY_VALID core OR PAGE_ENTRY_LAZY core) \<noteq> 0"
    and cnt: "\<And>p. card (mappers m p) \<le> refs m p"
    using ok unfolding mm_ok_def m_def by blast+
  have none: "pte m (s + i) = None" if "i < n" for i using R that reg by (metis option.exhaust surj_pair)
  have fresh: "mappers m (p + i) = {}" if "i < n" for i
  proof -
    have "card (mappers m (p + i)) = 0" using cnt [of "p + i"] R that by simp
    then show ?thesis using finite_mappers [OF fin] by simp
  qed
  have map': "mappers (mv v') q = (if p \<le> q \<and> q < p + n then {s + (q - p)} else mappers m q)" for q
  proof -
    have "mappers (mv v') q = mappers (m\<lparr>pte := put s n (\<lambda>i. Some (p + i, f)) (pte m)\<rparr>) q" by (simp add: m' mappers_def)
    also have "\<dots> = mappers m q \<union> (if p \<le> q \<and> q < p + n then {s + (q - p)} else {})" using none by (intro mappers_put) blast
    finally show ?thesis using fresh [of "q - p"] by auto
  qed
  have refs': "refs (mv v') q = (if p \<le> q \<and> q < p + n then 1 else refs m q)" for q by (simp add: m' put_def)
  have zero: "refs m q = 0 \<and> mappers m q = {}" if "p \<le> q" "q < p + n" for q
    using R fresh [of "q - p"] that by (auto dest!: spec [of _ "q - p"])
  have bal: "counts_kept m (mv v')" unfolding counts_kept_def using zero by (simp add: refs' map')
  have lv: "f AND (PAGE_ENTRY_VALID core OR PAGE_ENTRY_LAZY core) \<noteq> 0"
    using f by (metis bit.conj_disj_distrib or_eq_0_iff)
  have "dom (pte (mv v')) \<subseteq> dom (pte m) \<union> {s..<s + n}" by (auto simp: m' put_def split: if_splits)
  then have fin': "finite (dom (pte (mv v')))" by (rule finite_subset) (use fin in simp)
  have cnt': "card (mappers (mv v') q) \<le> refs (mv v') q" for q using cnt [of q] by (simp add: map' refs')
  have "mm_ok core (mv v')" unfolding mm_ok_def
    using fin' cnt' reg live f lv by (auto simp: m' put_def split: if_splits)
  moreover have "pte m k = None \<and> rdx m k = None \<and> (\<exists>p. pte (mv v') k = Some (p, f)) \<and> rdx (mv v') k = Some f" if "k \<in> {s..<s + n}" for k
    using that R none [of "k - s"] by (auto simp: m' put_def dest!: spec [of _ "k - s"])
  moreover have "frames (mv v') q = frames m q" if "0 < refs m q" for q
    using that R by (auto simp: m' put_def dest!: spec [of _ "q - p"])
  ultimately show ?thesis using bal unfolding grown_def m_def [symmetric] s_def [symmetric] by (auto simp: m' put_def)
qed

lemma grown_refl: "mm_ok core m \<Longrightarrow> grown core {} f m m"
  by (simp add: grown_def)

lemma grownD:
  assumes "grown core S f m m'"
  shows "utab m' = utab m" "held m' = held m" "mm_ok core m'" "counts_kept m m'"
    "k \<in> S \<Longrightarrow> pte m k = None" "k \<in> S \<Longrightarrow> rdx m k = None" "k \<in> S \<Longrightarrow> \<exists>p. pte m' k = Some (p, f)" "k \<in> S \<Longrightarrow> rdx m' k = Some f"
    "k \<notin> S \<Longrightarrow> pte m' k = pte m k" "k \<notin> S \<Longrightarrow> rdx m' k = rdx m k" "0 < refs m p \<Longrightarrow> frames m' p = frames m p"
  using assms unfolding grown_def by blast+

lemma grown_refs:
  assumes g: "grown core S f m m1" and p: "0 < refs m p"
  shows "0 < refs m1 p"
proof -
  note G = grownD [OF g]
  have "mappers m p \<subseteq> mappers m1 p"
  proof
    fix k assume "k \<in> mappers m p"
    then show "k \<in> mappers m1 p" using G(5,9) [of k] by (cases "k \<in> S") (auto simp: mappers_def)
  qed
  moreover have "finite (mappers m1 p)" using G(3) finite_mappers by (simp add: mm_ok_def)
  ultimately have "card (mappers m p) \<le> card (mappers m1 p)" by (rule card_mono [rotated])
  then show ?thesis using p spec [OF G(4) [unfolded counts_kept_def], of p] by linarith
qed

lemma grown_union:
  assumes g1: "grown core S f m m1" and g2: "grown core T f m1 m2" and d: "S \<inter> T = {}"
  shows "grown core (S \<union> T) f m m2"
  unfolding grown_def
proof (intro conjI ballI allI impI)
  note G1 = grownD [OF g1] and G2 = grownD [OF g2]
  show "utab m2 = utab m" "held m2 = held m" "mm_ok core m2" using G1(1,2) G2(1-3) by simp_all
  show "counts_kept m m2" by (rule counts_kept_trans [OF G1(4) G2(4)])
  show "frames m2 p = frames m p" if "0 < refs m p" for p using G1(11) G2(11) grown_refs [OF g1] that by simp
  fix k
  show "pte m k = None" "rdx m k = None" "\<exists>p. pte m2 k = Some (p, f)" "rdx m2 k = Some f" if k: "k \<in> S \<union> T"
  proof -
    have "k \<in> S \<and> k \<notin> T \<or> k \<notin> S \<and> k \<in> T" using k d by blast
    then show "pte m k = None" "rdx m k = None" "\<exists>p. pte m2 k = Some (p, f)" "rdx m2 k = Some f"
      using G1(5-10) [of k] G2(5-10) [of k] by auto
  qed
  show "pte m2 k = pte m k" "rdx m2 k = rdx m k" if "k \<notin> S \<union> T" using that G1(9,10) G2(9,10) by simp_all
qed

text \<open>Unmapping a run of consecutive frames.\<close>

lemma unfill_shrunk:
  assumes ok: "mm_ok core (mv v)" and run: "\<forall>i < n. \<exists>f. pte (mv v) (VPN a + i) = Some (p + i, f)"
  shows "\<exists>v'. clean_range_and_unfill core a n p v = (MM_OK, v') \<and> shrunk core {VPN a..<VPN a + n} (mv v) (mv v')"
proof -
  define m where "m = mv v"
  define s where "s = VPN a"
  obtain v' where c: "clean_range_and_unfill core a n p v = (MM_OK, v')"
    and m': "mv v' = m\<lparr>pte := put s n (\<lambda>i. None) (pte m), rdx := put s n (\<lambda>i. None) (rdx m),
        refs := put p n (\<lambda>i. refs m (p + i) - 1) (refs m)\<rparr>"
    using unfill [OF run] unfolding m_def s_def by blast
  have fin: "finite (dom (pte m))" and reg: "\<And>k p f. pte m k = Some (p, f) \<Longrightarrow> f AND PAGE_ENTRY_VALID core \<noteq> 0 \<and> rdx m k \<noteq> None"
    and live: "\<And>k f. rdx m k = Some f \<Longrightarrow> f AND (PAGE_ENTRY_VALID core OR PAGE_ENTRY_LAZY core) \<noteq> 0"
    and cnt: "\<And>p. card (mappers m p) \<le> refs m p"
    using ok unfolding mm_ok_def m_def by blast+
  have old: "\<exists>f. pte m k = Some (p + (k - s), f)" if "s \<le> k" "k < s + n" for k
    using run that unfolding m_def [symmetric] s_def [symmetric] by (auto dest!: spec [of _ "k - s"])
  have map': "mappers (mv v') q = mappers m q - (if p \<le> q \<and> q < p + n then {s + (q - p)} else {})" for q
  proof (rule set_eqI)
    fix k show "k \<in> mappers (mv v') q \<longleftrightarrow> k \<in> mappers m q - (if p \<le> q \<and> q < p + n then {s + (q - p)} else {})"
      using old [of k] by (auto simp: m' mappers_def put_def)
  qed
  have mem: "s + (q - p) \<in> mappers m q" if "p \<le> q" "q < p + n" for q using old [of "s + (q - p)"] that by (simp add: mappers_def)
  have pos: "0 < card (mappers m q)" if "p \<le> q" "q < p + n" for q using mem [OF that] finite_mappers [OF fin] by (auto simp: card_gt_0_iff)
  have crd: "card (mappers (mv v') q) = (if p \<le> q \<and> q < p + n then card (mappers m q) - 1 else card (mappers m q))" for q
    using mem [of q] finite_mappers [OF fin, of q] by (auto simp: map' card_Diff_singleton)
  have refs': "refs (mv v') q = (if p \<le> q \<and> q < p + n then refs m q - 1 else refs m q)" for q by (simp add: m' put_def)
  have bal: "counts_kept m (mv v')" unfolding counts_kept_def
  proof
    fix q show "refs (mv v') q + card (mappers m q) = refs m q + card (mappers (mv v') q)"
      using pos [of q] cnt [of q] by (auto simp: refs' crd)
  qed
  have "dom (pte (mv v')) \<subseteq> dom (pte m)" by (auto simp: m' put_def split: if_splits)
  then have fin': "finite (dom (pte (mv v')))" by (rule finite_subset) (rule fin)
  have cnt': "card (mappers (mv v') q) \<le> refs (mv v') q" for q using cnt [of q] by (simp add: refs' crd diff_le_mono)
  have "mm_ok core (mv v')" unfolding mm_ok_def
    using fin' cnt' reg live by (auto simp: m' put_def split: if_splits)
  then have "shrunk core {s..<s + n} m (mv v')" using bal unfolding shrunk_def by (auto simp: m' put_def)
  then show ?thesis using c unfolding m_def s_def by blast
qed

lemma shrunk_refl: "mm_ok core m \<Longrightarrow> shrunk core {} m m"
  by (simp add: shrunk_def)

lemma shrunkD:
  assumes "shrunk core S m m'"
  shows "utab m' = utab m" "held m' = held m" "mm_ok core m'" "counts_kept m m'" "k \<in> S \<Longrightarrow> pte m' k = None" "k \<in> S \<Longrightarrow> rdx m' k = None"
    "k \<notin> S \<Longrightarrow> pte m' k = pte m k" "k \<notin> S \<Longrightarrow> rdx m' k = rdx m k" "frames m' = frames m"
  using assms unfolding shrunk_def by blast+

lemma shrunk_union:
  assumes s1: "shrunk core S m m1" and s2: "shrunk core T m1 m2"
  shows "shrunk core (S \<union> T) m m2"
  unfolding shrunk_def
proof (intro conjI ballI allI impI)
  note S1 = shrunkD [OF s1] and S2 = shrunkD [OF s2]
  show "utab m2 = utab m" "held m2 = held m" "mm_ok core m2" "frames m2 = frames m" using S1(1,2,9) S2(1-3,9) by simp_all
  show "counts_kept m m2" by (rule counts_kept_trans [OF S1(4) S2(4)])
  fix k
  show "pte m2 k = None" "rdx m2 k = None" if "k \<in> S \<union> T" using that S1(5,6) [of k] S2(5-8) [of k] by (cases "k \<in> T"; simp)+
  show "pte m2 k = pte m k" "rdx m2 k = rdx m k" if "k \<notin> S \<union> T" using that S1(7,8) S2(7,8) by simp_all
qed

text \<open>Unmapping what has been mapped restores the address space.\<close>

lemma grown_shrunk:
  assumes g: "grown core S f m m1" and s: "shrunk core S m1 m2"
  shows "pte m2 = pte m" "rdx m2 = rdx m" "held m2 = held m" "utab m2 = utab m" "refs m2 = refs m" "mm_ok core m2"
    "\<And>p. 0 < refs m p \<Longrightarrow> frames m2 p = frames m p"
proof -
  note G = grownD [OF g] and H = shrunkD [OF s]
  show p: "pte m2 = pte m" by (rule ext) (metis G(5,9) H(5,7))
  show "rdx m2 = rdx m" by (rule ext) (metis G(6,10) H(6,8))
  have "counts_kept m m2" by (rule counts_kept_trans [OF G(4) H(4)])
  moreover have "mappers m2 = mappers m" using p by (simp add: mappers_def fun_eq_iff)
  ultimately show "refs m2 = refs m" by (auto simp: counts_kept_def)
  show "held m2 = held m" "utab m2 = utab m" "mm_ok core m2" "\<And>p. 0 < refs m p \<Longrightarrow> frames m2 p = frames m p"
    using G(1,2,11) H(1-3,9) by simp_all
qed

section \<open>Mapping a range\<close>

lemma buddy_loop_bounds: "buddy_loop c r \<le> r \<and> buddy_loop c r \<le> c"
proof (induction c r rule: buddy_loop.induct)
  case (1 c r)
  then show ?case by (subst (1 2) buddy_loop.simps) (auto intro: le_trans [OF _ div_le_dividend])
qed

lemma span_loop_ok:
  assumes "mm_ok core (mv v)" "f AND PAGE_ENTRY_VALID core \<noteq> 0" "span_loop core a c f v = (n, v')"
  shows "n \<le> c \<and> (if n = 0 then mv v' = mv v else grown core {VPN a..<VPN a + n} f (mv v) (mv v'))"
  using assms
proof (induction c arbitrary: v rule: less_induct)
  case (less c)
  obtain r v1 where fl: "set_range_and_fill core a c f v = (r, v1)" by fastforce
  consider "c = 0" | "c > 0" r | "c = 1" "\<not> r" | "c > 1" "\<not> r" by linarith
  then show ?case
  proof cases
    case 1
    then show ?thesis using less.prems(3) by (subst (asm) span_loop.simps) simp
  next
    case 2
    then have "n = c" "v' = v1" using less.prems(3) fl by (subst (asm) span_loop.simps; simp)+
    then show ?thesis using fill_grown [OF less.prems(1,2)] fl 2 by simp
  next
    case 3
    then show ?thesis using less.prems(3) fl fill_fails [of a c f v v1] by (subst (asm) span_loop.simps) simp
  next
    case 4
    then have "span_loop core a (c div 2) f v1 = (n, v')" using less.prems(3) fl by (subst (asm) span_loop.simps) simp
    moreover have "mv v1 = mv v" using fill_fails fl 4 by simp
    ultimately show ?thesis using less.IH [of "c div 2" v1] less.prems 4 by (auto intro: le_trans [OF _ div_le_dividend])
  qed
qed

lemma fill_one_span_ok:
  assumes "mm_ok core (mv v)" "f AND PAGE_ENTRY_VALID core \<noteq> 0" "linux_mm_fill_one_span core a r f v = (n, v')"
  shows "n \<le> r \<and> (if n = 0 then mv v' = mv v else grown core {VPN a..<VPN a + n} f (mv v) (mv v'))"
  using span_loop_ok [OF assms(1,2), of a "linux_mm_buddy_chunk_pages core r" n v'] buddy_loop_bounds [of "2 ^ BUDDY_MAXORDER core" r] assms(3)
  by (auto simp: linux_mm_fill_one_span_def linux_mm_buddy_chunk_pages_def)

lemma map_loop_ok:
  assumes "mm_ok core (mv v)" "f AND PAGE_ENTRY_VALID core \<noteq> 0" "unat a + n * 4096 < 2 ^ 64" "d \<le> n"
    "map_loop core a d n f v = (ok, k, v')"
  shows "d \<le> k \<and> k \<le> n \<and> (ok \<longrightarrow> k = n) \<and> grown core {VPN a + d..<VPN a + k} f (mv v) (mv v')"
  using assms
proof (induction "n - d" arbitrary: d v rule: less_induct)
  case less
  show ?case
  proof (cases "d < n")
    case False
    then have "ok" "k = d" "v' = v" "d = n" using less.prems(4,5) by (subst (asm) map_loop.simps; simp)+
    then show ?thesis using grown_refl [OF less.prems(1)] by simp
  next
    case True
    obtain g v1 where g: "linux_mm_fill_one_span core (page_at a d) (n - d) f v = (g, v1)" by fastforce
    have vpn: "VPN (page_at a d) = VPN a + d" using less.prems(3) True by (intro VPN_page_at) (auto intro: le_less_trans [rotated])
    note F = fill_one_span_ok [OF less.prems(1,2) g, unfolded vpn]
    show ?thesis
    proof (cases "g = 0")
      case zero: True
      then have "\<not> ok" "k = d" "v' = v1" using less.prems(5) True g by (subst (asm) map_loop.simps; simp)+
      then show ?thesis using F zero grown_refl [OF less.prems(1)] True by simp
    next
      case False
      then have run: "map_loop core a (d + g) n f v1 = (ok, k, v')" using less.prems(5) True g by (subst (asm) map_loop.simps) simp
      have G: "grown core {VPN a + d..<VPN a + d + g} f (mv v) (mv v1)" "g \<le> n - d" using F False by simp_all
      have I: "d + g \<le> k \<and> k \<le> n \<and> (ok \<longrightarrow> k = n) \<and> grown core {VPN a + (d + g)..<VPN a + k} f (mv v1) (mv v')"
        using less.hyps [OF _ _ less.prems(2,3) _ run] G(2) False True grownD(3) [OF G(1)] by simp
      have "{VPN a + d..<VPN a + d + g} \<union> {VPN a + (d + g)..<VPN a + k} = {VPN a + d..<VPN a + k}" using I by (simp add: ivl_disj_un add.assoc)
      moreover have "grown core ({VPN a + d..<VPN a + d + g} \<union> {VPN a + (d + g)..<VPN a + k}) f (mv v) (mv v')"
        by (rule grown_union [OF G(1)]) (use I in auto)
      ultimately show ?thesis using I by simp
    qed
  qed
qed

lemma unmap_pages_ok:
  assumes "mm_ok core (mv v)" "unat a + n * 4096 < 2 ^ 64" "\<forall>k \<in> set ks. k < n \<and> pte (mv v) (VPN a + k) \<noteq> None" "distinct ks"
  shows "shrunk core ((+) (VPN a) ` set ks) (mv v) (mv (unmap_pages core a ks v))"
  using assms
proof (induction ks arbitrary: v)
  case (Cons k ks)
  have vpn: "VPN (page_at a k) = VPN a + k"
    using Cons.prems(2,3) by (intro VPN_page_at) (auto intro: le_less_trans [rotated])
  obtain p f where p: "pte (mv v) (VPN a + k) = Some (p, f)" using Cons.prems(3) by auto
  then have run: "\<forall>i < 1. \<exists>f. pte (mv v) (VPN (page_at a k) + i) = Some (p + i, f)" by (simp add: vpn)
  obtain v1 where v1: "clean_range_and_unfill core (page_at a k) 1 p v = (MM_OK, v1)" "shrunk core {VPN a + k} (mv v) (mv v1)"
    using unfill_shrunk [OF Cons.prems(1) run] by (auto simp: vpn)
  note H = shrunkD [OF v1(2)]
  have "unmap_pages core a (k # ks) v = unmap_pages core a ks v1" using mapped [OF p] v1(1) by (simp add: vpn)
  moreover have "pte (mv v1) (VPN a + j) = pte (mv v) (VPN a + j)" if "j \<in> set ks" for j
    using H(7) [of "VPN a + j"] Cons.prems(4) that by auto
  then have "shrunk core ((+) (VPN a) ` set ks) (mv v1) (mv (unmap_pages core a ks v1))"
    by (intro Cons.IH [OF H(3) Cons.prems(2)]) (use Cons.prems(3,4) in simp_all)
  ultimately show ?case using shrunk_union [OF v1(2)] by simp
qed (simp add: shrunk_refl)

lemma lock_view: "lock_range_big core a b v = (MM_OK, v') \<Longrightarrow> mv v' = (mv v)\<lparr>held := (a, b) # held (mv v)\<rparr>"
  using lock by fastforce

lemma lock_fails: "lock_range_big core a b v = (r, v') \<Longrightarrow> r \<noteq> MM_OK \<Longrightarrow> mv v' = mv v"
  using lock by fastforce

lemma mm_ok_held [simp]: "mm_ok core (m\<lparr>held := h\<rparr>) = mm_ok core m"
  by (simp add: mm_ok_def)

lemma counts_kept_held [simp]: "counts_kept (m\<lparr>held := h\<rparr>) m' = counts_kept m m'" "counts_kept m (m'\<lparr>held := h\<rparr>) = counts_kept m m'"
  by (simp_all add: counts_kept_def)

lemma grown_held: "grown core S f (m\<lparr>held := h # t\<rparr>) m' \<Longrightarrow> held m = t \<Longrightarrow> grown core S f m (m'\<lparr>held := remove1 h (held m')\<rparr>)"
  by (simp add: grown_def)

lemma shrunk_held: "shrunk core S (m\<lparr>held := h # t\<rparr>) m' \<Longrightarrow> held m = t \<Longrightarrow> shrunk core S m (m'\<lparr>held := remove1 h (held m')\<rparr>)"
  by (simp add: shrunk_def)

lemma end_lt: "calculate_end_check core a n = Some e \<Longrightarrow> unat a + n * 4096 < 2 ^ 64"
proof -
  assume "calculate_end_check core a n = Some e"
  moreover have "unat e < 2 ^ LENGTH(64)" by (rule unsigned_less)
  ultimately show ?thesis using end_check by simp
qed

lemma map_range_ok:
  assumes ok: "mm_ok core (mv v)" and f: "f AND PAGE_ENTRY_VALID core \<noteq> 0" and run: "linux_mm_map_user_range core a n f v = (r, v')"
  shows "(r = None \<and> same_space (mv v) (mv v') \<or> r = Some a \<and> grown core {VPN a..<VPN a + n} f (mv v) (mv v')) \<and> mm_ok core (mv v')"
proof (cases "\<not> user_table core v \<or> n = 0 \<or> a = 0 \<or> round_down a \<noteq> a \<or> calculate_end_check core a n = None")
  case True
  then have "r = None" "v' = v" using run by (auto simp: linux_mm_map_user_range_def split: if_splits)
  then show ?thesis using ok by (simp add: same_space_def)
next
  case False
  then obtain e where e: "calculate_end_check core a n = Some e" by blast
  note lt = end_lt [OF e]
  let ?l = "linux_mm_l0_lock_lo a"
  obtain lr v1 where l: "lock_range_big core ?l e v = (lr, v1)" by fastforce
  show ?thesis
  proof (cases "lr = MM_OK")
    case no: False
    then have "r = None" "v' = v1" using run False e l by (auto simp: linux_mm_map_user_range_def Let_def split: mm_ret.splits)
    then show ?thesis using ok lock_fails [OF l no] by (simp add: same_space_def)
  next
    case True
    have m1: "mv v1 = (mv v)\<lparr>held := (?l, e) # held (mv v)\<rparr>" using lock_view l True by simp
    obtain b k v2 where ml: "map_loop core a 0 n f v1 = (b, k, v2)" by (metis surj_pair)
    have G: "k \<le> n \<and> (b \<longrightarrow> k = n) \<and> grown core {VPN a..<VPN a + k} f (mv v1) (mv v2)"
      using map_loop_ok [OF _ f lt _ ml] ok by (simp add: m1)
    show ?thesis
    proof (cases b)
      case True
      then have "r = Some a" "v' = unlock_range_big core ?l e v2"
        using run False e l \<open>lr = MM_OK\<close> ml by (auto simp: linux_mm_map_user_range_def Let_def)
      have g: "grown core {VPN a..<VPN a + n} f ((mv v)\<lparr>held := (?l, e) # held (mv v)\<rparr>) (mv v2)" using G True by (auto simp: m1)
      show ?thesis using grown_held [OF g refl] grownD(3) [OF g] \<open>r = Some a\<close> \<open>v' = _\<close> by (simp add: unlock)
    next
      case nb: False
      let ?v3 = "linux_mm_unmap_prefix_pages core a k v2"
      have rv: "r = None" "v' = unlock_range_big core ?l e ?v3"
        using run False e l \<open>lr = MM_OK\<close> ml nb by (auto simp: linux_mm_map_user_range_def Let_def)
      have g: "grown core {VPN a..<VPN a + k} f (mv v1) (mv v2)" "k \<le> n" using G by simp_all
      have mp: "pte (mv v2) (VPN a + j) \<noteq> None" if "j < k" for j using grownD(7) [OF g(1), of "VPN a + j"] that by auto
      have "shrunk core ((+) (VPN a) ` set [0..<k]) (mv v2) (mv ?v3)" unfolding linux_mm_unmap_prefix_pages_def
        by (rule unmap_pages_ok [OF grownD(3) [OF g(1)] lt]) (use mp g(2) in auto)
      moreover have "(+) (VPN a) ` set [0..<k] = {VPN a..<VPN a + k}" by (simp add: image_add_atLeastLessThan [of "VPN a" 0 k, simplified] add.commute)
      ultimately have "shrunk core {VPN a..<VPN a + k} (mv v2) (mv ?v3)" by simp
      note B = grown_shrunk [OF g(1) this]
      show ?thesis using rv B by (simp add: same_space_def unlock m1 mm_ok_held)
    qed
  qed
qed

section \<open>Unmapping a range\<close>

lemma run_loop_ok:
  assumes "unat a + n * 4096 < 2 ^ 64" "d + run + m \<le> n" "\<forall>i < run. \<exists>f. pte (mv v) (VPN a + d + i) = Some (p + i, f)"
  shows "\<forall>i < run_loop core v a d p run m. \<exists>f. pte (mv v) (VPN a + d + i) = Some (p + i, f)"
  using assms
proof (induction m arbitrary: run)
  case (Suc m)
  have vpn: "VPN (page_at a (d + run)) = VPN a + d + run"
    using VPN_page_at [of a "d + run"] Suc.prems(1,2) by (simp add: add.assoc)
  show ?case
  proof (cases "pte (mv v) (VPN a + d + run)")
    case None
    then show ?thesis using unmapped [OF None] Suc.prems(3) by (auto simp: vpn)
  next
    case (Some x)
    obtain q g where x: "x = (q, g)" by (cases x)
    have m: "have_mapped core v (VPN a + d + run) = Inr (q, g, 3)" using mapped Some x by simp
    show ?thesis
    proof (cases "q = p + run")
      case True
      have "\<forall>i < run + 1. \<exists>f. pte (mv v) (VPN a + d + i) = Some (p + i, f)" using Suc.prems(3) Some x True by (auto simp: less_Suc_eq)
      then show ?thesis using Suc.IH [of "run + 1"] Suc.prems(1,2) m True by (simp add: vpn)
    qed (use m Suc.prems(3) in \<open>simp add: vpn\<close>)
  qed
qed simp

text \<open>Exactly the mapped pages before the first hole are unmapped.\<close>

lemma unmap_loop_ok:
  assumes "mm_ok core (mv v)" "unat a + n * 4096 < 2 ^ 64" "d \<le> n" "unmap_loop core a d n v = (r, v')"
  shows "\<exists>d'. d \<le> d' \<and> d' \<le> n \<and> shrunk core {VPN a + d..<VPN a + d'} (mv v) (mv v') \<and> (r = MM_OK \<longleftrightarrow> d' = n)
    \<and> (r \<noteq> MM_OK \<longrightarrow> pte (mv v) (VPN a + d') = None) \<and> (\<forall>k. d \<le> k \<and> k < d' \<longrightarrow> pte (mv v) (VPN a + k) \<noteq> None)"
  using assms
proof (induction "n - d" arbitrary: d v rule: less_induct)
  case less
  show ?case
  proof (cases "d < n")
    case False
    then have "r = MM_OK" "v' = v" "d = n" using less.prems(3,4) by (subst (asm) unmap_loop.simps; simp)+
    then show ?thesis using shrunk_refl [OF less.prems(1)] by (intro exI [of _ n]) auto
  next
    case True
    have vpn: "VPN (page_at a d) = VPN a + d" using less.prems(2) True by (intro VPN_page_at) (auto intro: le_less_trans [rotated])
    show ?thesis
    proof (cases "pte (mv v) (VPN a + d)")
      case None
      then have "r \<noteq> MM_OK \<and> v' = v" using less.prems(4) True unmapped [OF None] by (subst (asm) unmap_loop.simps) (auto simp: vpn)
      then show ?thesis using shrunk_refl [OF less.prems(1)] None True by (intro exI [of _ d]) auto
    next
      case (Some x)
      obtain p g where x: "x = (p, g)" by (cases x)
      define t where "t = run_loop core v a d p 1 (n - d - 1)"
      have tb: "1 \<le> t" "d + t \<le> n" using run_loop_bounds [of 1 core v a d p "n - d - 1"] True by (auto simp: t_def)
      have T: "\<forall>i < t. \<exists>f. pte (mv v) (VPN a + d + i) = Some (p + i, f)" unfolding t_def
        by (rule run_loop_ok [OF less.prems(2)]) (use True Some x in simp_all)
      obtain v1 where v1: "clean_range_and_unfill core (page_at a d) t p v = (MM_OK, v1)" "shrunk core {VPN a + d..<VPN a + d + t} (mv v) (mv v1)"
        using unfill_shrunk [OF less.prems(1), of t "page_at a d" p] T by (auto simp: vpn)
      have run: "unmap_loop core a (d + t) n v1 = (r, v')"
        using less.prems(4) True mapped [of v "VPN a + d" p g] Some x v1(1) by (subst (asm) unmap_loop.simps) (simp add: vpn t_def)
      note H = shrunkD [OF v1(2)]
      have fewer: "n - (d + t) < n - d" using tb True by linarith
      obtain d' where I: "d + t \<le> d'" "d' \<le> n" "shrunk core {VPN a + (d + t)..<VPN a + d'} (mv v1) (mv v')" "r = MM_OK \<longleftrightarrow> d' = n"
          "r \<noteq> MM_OK \<longrightarrow> pte (mv v1) (VPN a + d') = None" "\<forall>k. d + t \<le> k \<and> k < d' \<longrightarrow> pte (mv v1) (VPN a + k) \<noteq> None"
        using less.hyps [OF fewer H(3) less.prems(2) tb(2) run] by blast
      have un: "{VPN a + d..<VPN a + d + t} \<union> {VPN a + (d + t)..<VPN a + d'} = {VPN a + d..<VPN a + d'}" using I(1) by (simp add: ivl_disj_un add.assoc)
      have keep: "pte (mv v1) (VPN a + k) = pte (mv v) (VPN a + k)" if "d + t \<le> k" for k using H(7) [of "VPN a + k"] that by simp
      have before: "pte (mv v) (VPN a + k) \<noteq> None" if "d \<le> k" "k < d'" for k
      proof (cases "k < d + t")
        case True
        then have "k - d < t" "VPN a + d + (k - d) = VPN a + k" using that tb by linarith+
        then show ?thesis using T [rule_format, of "k - d"] by auto
      next
        case False
        then show ?thesis using that spec [OF I(6), of k] keep [of k] by simp
      qed
      show ?thesis using shrunk_union [OF v1(2) I(3)] un I tb keep [of d'] before by (intro exI [of _ d']) auto
    qed
  qed
qed

lemma unmap_range_ok:
  assumes ok: "mm_ok core (mv v)" and t: "utab (mv v)" "0 < n" "round_down a = a" "calculate_end_check core a n = Some e"
    and run: "linux_mm_unmap_user_range core a n v = (r, v')"
  shows "(fst (lock_range_big core (linux_mm_l0_lock_lo a) e v) \<noteq> MM_OK \<and> r = MM_RENDEZVOS \<and> same_space (mv v) (mv v'))
    \<or> (fst (lock_range_big core (linux_mm_l0_lock_lo a) e v) = MM_OK
      \<and> (\<exists>d \<le> n. shrunk core {VPN a..<VPN a + d} (mv v) (mv v') \<and> (r = MM_OK \<longleftrightarrow> d = n)
        \<and> (r \<noteq> MM_OK \<longrightarrow> pte (mv v) (VPN a + d) = None) \<and> (\<forall>k < d. pte (mv v) (VPN a + k) \<noteq> None)))"
proof -
  let ?l = "linux_mm_l0_lock_lo a"
  obtain lr v1 where l: "lock_range_big core ?l e v = (lr, v1)" by fastforce
  show ?thesis
  proof (cases "lr = MM_OK")
    case False
    then have "r = MM_RENDEZVOS" "v' = v1" using run t l table [of v] by (auto simp: linux_mm_unmap_user_range_def Let_def split: mm_ret.splits)
    then show ?thesis using lock_fails [OF l False] False l by (simp add: same_space_def)
  next
    case True
    have m1: "mv v1 = (mv v)\<lparr>held := (?l, e) # held (mv v)\<rparr>" using lock_view l True by simp
    obtain r2 v2 where u: "unmap_loop core a 0 n v1 = (r2, v2)" by fastforce
    have "r = r2" "v' = unlock_range_big core ?l e v2"
      using run t l True u table [of v] by (auto simp: linux_mm_unmap_user_range_def Let_def)
    moreover obtain d where d: "d \<le> n" "shrunk core {VPN a..<VPN a + d} (mv v1) (mv v2)" "r2 = MM_OK \<longleftrightarrow> d = n"
        "r2 \<noteq> MM_OK \<longrightarrow> pte (mv v) (VPN a + d) = None" "\<forall>k < d. pte (mv v) (VPN a + k) \<noteq> None"
      using unmap_loop_ok [OF _ end_lt [OF t(4)] _ u] ok by (auto simp: m1)
    ultimately show ?thesis using shrunk_held [OF d(2) [unfolded m1] refl] True l by (auto simp: unlock)
  qed
qed

section \<open>Protection\<close>

lemma recoloured_refl: "recoloured {} f m m"
  by (simp add: recoloured_def)

lemma recoloured_union:
  assumes "recoloured S f m m1" "recoloured T f m1 m2" "S \<inter> T = {}"
  shows "recoloured (S \<union> T) f m m2"
  unfolding recoloured_def
proof (intro conjI ballI allI impI)
  note R1 = assms(1) [unfolded recoloured_def] and R2 = assms(2) [unfolded recoloured_def]
  show "utab m2 = utab m" "held m2 = held m" "refs m2 = refs m" "frames m2 = frames m" using R1 R2 by simp_all
  fix k
  show "rdx m k \<noteq> None" "rdx m2 k = Some f" "pte m2 k = map_option (\<lambda>(p, g). (p, f)) (pte m k)" if k: "k \<in> S \<union> T"
  proof -
    have "k \<in> S \<and> k \<notin> T \<or> k \<notin> S \<and> k \<in> T" using k assms(3) by blast
    then show "rdx m k \<noteq> None" "rdx m2 k = Some f" "pte m2 k = map_option (\<lambda>(p, g). (p, f)) (pte m k)" using R1 R2 by force+
  qed
  show "pte m2 k = pte m k" "rdx m2 k = rdx m k" if "k \<notin> S \<union> T" using that R1 R2 by simp_all
qed

lemma recoloured_ok:
  assumes ok: "mm_ok core m" and f: "f AND PAGE_ENTRY_VALID core \<noteq> 0" and r: "recoloured S f m m'"
  shows "mm_ok core m'" "counts_kept m m'"
proof -
  have in': "k \<in> S \<Longrightarrow> rdx m' k = Some f \<and> pte m' k = map_option (\<lambda>(p, g). (p, f)) (pte m k)"
    and out: "k \<notin> S \<Longrightarrow> pte m' k = pte m k \<and> rdx m' k = rdx m k" and rf: "refs m' = refs m" for k
    using r unfolding recoloured_def by blast+
  have mp: "mappers m' = mappers m"
  proof (intro ext set_eqI)
    fix p k show "k \<in> mappers m' p \<longleftrightarrow> k \<in> mappers m p" using in' [of k] out [of k] by (cases "k \<in> S") (auto simp: mappers_def)
  qed
  then show "counts_kept m m'" by (simp add: counts_kept_def rf)
  have dm: "dom (pte m') = dom (pte m)"
  proof (rule set_eqI)
    fix k show "k \<in> dom (pte m') \<longleftrightarrow> k \<in> dom (pte m)" using in' [of k] out [of k] by (cases "k \<in> S") (auto simp: dom_def)
  qed
  have lv: "f AND (PAGE_ENTRY_VALID core OR PAGE_ENTRY_LAZY core) \<noteq> 0" using f by (metis bit.conj_disj_distrib or_eq_0_iff)
  have "g AND PAGE_ENTRY_VALID core \<noteq> 0 \<and> rdx m' k \<noteq> None" if "pte m' k = Some (p, g)" for k p g
    using that in' [of k] out [of k] ok f unfolding mm_ok_def by (cases "k \<in> S") auto
  moreover have "g AND (PAGE_ENTRY_VALID core OR PAGE_ENTRY_LAZY core) \<noteq> 0" if "rdx m' k = Some g" for k g
    using that in' [of k] out [of k] ok lv unfolding mm_ok_def by (cases "k \<in> S") auto
  moreover have "finite (dom (pte m'))" "\<forall>p. card (mappers m' p) \<le> refs m' p" using ok unfolding mm_ok_def dm mp rf by blast+
  ultimately show "mm_ok core m'" unfolding mm_ok_def by blast
qed

lemma flags_loop_ok:
  assumes al: "round_down a = a" "round_down e = e" and le: "a \<le> e"
  shows "\<exists>r v' d. flags_loop core a e f v = Some (r, v') \<and> VPN a \<le> d \<and> d \<le> VPN e \<and> recoloured {VPN a..<d} f (mv v) (mv v')
    \<and> (r = MM_OK \<longrightarrow> d = VPN e)"
  using assms
proof (induction "unat e - unat a" arbitrary: a v rule: less_induct)
  case less
  show ?case
  proof (cases "a < e")
    case False
    then show ?thesis using less.prems recoloured_refl by (subst flags_loop.simps) (auto simp: not_less intro: antisym)
  next
    case True
    show ?thesis
    proof (cases "find_first_occupied_interval core v a e")
      case None
      then show ?thesis using True recoloured_refl VPN_mono [OF less.prems(3)]
        by (subst flags_loop.simps) (auto intro!: exI [of _ "VPN a"])
    next
      case (Some x)
      obtain s t g where x: "x = (s, t, g)" by (cases x)
      note I = interval [OF Some [unfolded x] less.prems(1,2)]
      define t' where "t' = (if e < t then e else t)"
      have t': "round_down t' = t'" "t' \<le> e" "s < t'" "t' \<le> t" using I less.prems(2) by (auto simp: t'_def not_less)
      show ?thesis
      proof (cases "a < s")
        case gap: True
        then show ?thesis using True Some x recoloured_refl VPN_mono [OF less.prems(3)]
          by (subst flags_loop.simps) (auto simp: Let_def intro!: exI [of _ "VPN a"])
      next
        case False
        then have sa: "s = a" using I by auto
        let ?n = "unat (t' - s) div 4096"
        have ts: "unat (t' - s) = unat t' - unat s" using t'(3) by (simp add: unat_sub_if_size word_less_nat_alt)
        have n: "VPN s + ?n = VPN t'" using aligned [OF t'(1)] aligned [of s] I VPN_less [of s t'] t'(1,3)
          by (simp add: ts flip: diff_mult_distrib)
        obtain r v1 where sf: "set_range_flags core s (t' - s) f v = (r, v1)" by fastforce
        have occ: "\<forall>i < ?n. rdx (mv v) (VPN s + i) \<noteq> None"
        proof (intro allI impI)
          fix i assume "i < ?n"
          then have "VPN s + i < VPN t" using n VPN_mono [OF t'(4)] by linarith
          then show "rdx (mv v) (VPN s + i) \<noteq> None" using I by simp
        qed
        note V = set_flags [OF sf occ]
        show ?thesis
        proof (cases "r = MM_OK")
          case bad: False
          then have "flags_loop core a e f v = Some (r, v1)" using True Some x sa sf t'(3)
            by (subst flags_loop.simps) (auto simp: Let_def t'_def [symmetric] split: mm_ret.splits)
          then show ?thesis using bad V recoloured_refl VPN_mono [OF less.prems(3)] by (intro exI [of _ r] exI [of _ v1] exI [of _ "VPN a"]) simp
        next
          case good: True
          have rc: "recoloured {VPN a..<VPN t'} f (mv v) (mv v1)"
            unfolding recoloured_def
          proof (intro conjI ballI allI impI)
            show "utab (mv v1) = utab (mv v)" "held (mv v1) = held (mv v)" "refs (mv v1) = refs (mv v)" "frames (mv v1) = frames (mv v)"
              using V good by simp_all
            fix k
            show "rdx (mv v) k \<noteq> None" "rdx (mv v1) k = Some f" "pte (mv v1) k = map_option (\<lambda>(p, g). (p, f)) (pte (mv v) k)"
              if "k \<in> {VPN a..<VPN t'}"
              using that V good n occ [rule_format, of "k - VPN s"] by (auto simp: put_def sa)
            show "pte (mv v1) k = pte (mv v) k" "rdx (mv v1) k = rdx (mv v) k" if "k \<notin> {VPN a..<VPN t'}"
              using that V good n by (auto simp: put_def sa)
          qed
          have adv: "a < t'" using t'(3) sa by simp
          have "unat e - unat t' < unat e - unat a" using adv True by (simp add: word_less_nat_alt)
          from less.hyps [OF this t'(1) less.prems(2) t'(2), of v1]
          obtain r2 v2 d where R: "flags_loop core t' e f v1 = Some (r2, v2)" "VPN t' \<le> d" "d \<le> VPN e"
              "recoloured {VPN t'..<d} f (mv v1) (mv v2)" "r2 = MM_OK \<longrightarrow> d = VPN e" by blast
          have na: "(t' \<le> a) = False" using adv by (simp add: not_le)
          have run: "flags_loop core a e f v = Some (r2, v2)" using True Some x sa sf t'(3) good R(1) adv
            by (subst flags_loop.simps) (simp add: Let_def t'_def [symmetric] na)
          have ta: "VPN a \<le> VPN t'" using VPN_mono adv by simp
          have "{VPN a..<VPN t'} \<union> {VPN t'..<d} = {VPN a..<d}" using ta R(2) by (simp add: ivl_disj_un)
          then have "recoloured {VPN a..<d} f (mv v) (mv v2)" using recoloured_union [OF rc R(4)] by auto
          then show ?thesis using run R ta by (intro exI [of _ r2] exI [of _ v2] exI [of _ d]) simp
        qed
      qed
    qed
  qed
qed

section \<open>Copy on write\<close>

lemma mapped_refs: "mm_ok core m \<Longrightarrow> pte m k = Some (q, g) \<Longrightarrow> 0 < refs m q"
proof -
  assume ok: "mm_ok core m" and q: "pte m k = Some (q, g)"
  have "finite (mappers m q)" using ok finite_mappers by (simp add: mm_ok_def)
  then have "0 < card (mappers m q)" using q by (auto simp: card_gt_0_iff mappers_def)
  then show ?thesis using ok unfolding mm_ok_def by (meson less_le_trans)
qed

lemma privatised_ok:
  assumes ok: "mm_ok core m" and k: "pte m k = Some (q, g)" and pr: "privatised core k q m m'"
  shows "mm_ok core m'" "counts_kept m m'"
proof -
  obtain p f where P: "refs m p = 0" "f AND PAGE_ENTRY_VALID core \<noteq> 0" "pte m' = (pte m)(k \<mapsto> (p, f))" "rdx m' = (rdx m)(k \<mapsto> f)"
      "refs m' = (refs m)(p := 1, q := refs m q - 1)" using pr unfolding privatised_def by blast
  have fin: "finite (dom (pte m))" and cnt: "\<And>p. card (mappers m p) \<le> refs m p" using ok by (simp_all add: mm_ok_def)
  have "card (mappers m p) = 0" using cnt [of p] P(1) by simp
  then have p0: "mappers m p = {}" using finite_mappers [OF fin] by simp
  have pq: "p \<noteq> q" using P(1) mapped_refs [OF ok k] by auto
  have mp: "mappers m' x = (if x = p then {k} else mappers m x - {k})" for x
    using p0 by (auto simp: mappers_def P(3))
  have kx: "x = q" if "k \<in> mappers m x" for x using that k by (simp add: mappers_def)
  have kq: "k \<in> mappers m q" using k by (simp add: mappers_def)
  have crd: "card (mappers m' x) = (if x = p then 1 else if x = q then card (mappers m q) - 1 else card (mappers m x))" for x
  proof (cases "x = q")
    case True
    then show ?thesis using mp [of q] pq card_Diff_singleton [OF kq] by simp
  next
    case False
    then have "mappers m x - {k} = mappers m x" using kx [of x] by blast
    then show ?thesis using mp [of x] False by simp
  qed
  have pos: "0 < card (mappers m q)" using kq finite_mappers [OF fin, of q] by (auto simp: card_gt_0_iff)
  show "counts_kept m m'" unfolding counts_kept_def
  proof
    fix x show "refs m' x + card (mappers m x) = refs m x + card (mappers m' x)"
      using cnt [of q] pos pq P(1) p0 by (auto simp: crd P(5))
  qed
  have lv: "f AND (PAGE_ENTRY_VALID core OR PAGE_ENTRY_LAZY core) \<noteq> 0" using P(2) by (metis bit.conj_disj_distrib or_eq_0_iff)
  have "card (mappers m' x) \<le> refs m' x" for x using cnt [of x] cnt [of q] pos pq by (cases "x = q") (auto simp: crd P(5))
  moreover have "finite (dom (pte m'))" using fin by (simp add: P(3))
  ultimately show "mm_ok core m'" using ok P(2) lv unfolding mm_ok_def by (auto simp: P(3,4) split: if_splits)
qed

lemma remap_leaf_view:
  assumes run: "linux_mm_remap_user_leaf core a p f q v = (r, v')" and a: "round_down a = a" and k: "pte (mv v) (VPN a) = Some (q, g)"
  shows "mv v' = (if r = MM_OK then (mv v)\<lparr>pte := (pte (mv v))(VPN a \<mapsto> (p, f)), rdx := (rdx (mv v))(VPN a \<mapsto> f),
                 refs := (refs (mv v))(q := refs (mv v) q - 1)\<rparr> else mv v)"
proof (cases "user_table core v \<and> calculate_end_check core a 1 \<noteq> None")
  case False
  then have "r \<noteq> MM_OK" "v' = v" using run a by (auto simp: linux_mm_remap_user_leaf_def Let_def split: if_splits)
  then show ?thesis by simp
next
  case True
  then obtain e where e: "calculate_end_check core a 1 = Some e" by blast
  let ?l = "linux_mm_l0_lock_lo a"
  obtain lr v1 where l: "lock_range_big core ?l e v = (lr, v1)" by fastforce
  show ?thesis
  proof (cases "lr = MM_OK")
    case no: False
    then have "r = MM_RENDEZVOS" "v' = v1" using run True e l a by (auto simp: linux_mm_remap_user_leaf_def Let_def split: mm_ret.splits)
    then show ?thesis using lock_fails [OF l no] by simp
  next
    case yes: True
    have m1: "mv v1 = (mv v)\<lparr>held := (?l, e) # held (mv v)\<rparr>" using lock_view l yes by simp
    obtain r2 v2 where rm: "remap_page core a p f q v1 = (r2, v2)" by fastforce
    have rv: "r = r2" "v' = unlock_range_big core ?l e v2" using run True e l yes a rm by (auto simp: linux_mm_remap_user_leaf_def Let_def)
    show ?thesis using remap [OF rm, of g] k by (simp add: m1 rv unlock)
  qed
qed

lemma cow_replace_ok:
  assumes ok: "mm_ok core m" and k: "pte m (VPN a) = Some (q, g)" and a: "round_down a = a"
    and pin: "mv v = m\<lparr>refs := (refs m)(q := Suc (refs m q))\<rparr>" and run: "cow_replace core a q rf v = (r, v')"
  shows "if r = MM_OK then privatised core (VPN a) q m (mv v') else same_space m (mv v')"
proof (cases "pmm_alloc1 core v")
  case (Pair x v1)
  show ?thesis
  proof (cases x)
    case None
    then have "r = MM_RENDEZVOS" "v' = pmm_free1 core q v1" using run Pair by (auto simp: cow_replace_def)
    then show ?thesis using no_alloc Pair None by (simp add: same_space_def free pin)
  next
    case (Some y)
    obtain p n where y: "y = (p, n)" by (cases y)
    obtain z where A: "n = 1" "refs (mv v) p = 0" "mv v1 = (mv v)\<lparr>refs := (refs (mv v))(p := 1), frames := (frames (mv v))(p := z)\<rparr>"
      using alloc [of v p n v1] Pair Some y by auto
    have pq: "p \<noteq> q" using A(2) pin by auto
    have p0: "refs m p = 0" using A(2) pin pq by simp
    obtain rc v2 where c: "copy_page core p q v1 = (rc, v2)" by fastforce
    obtain z2 where C: "mv v2 = (mv v1)\<lparr>frames := (frames (mv v1))(p := z2)\<rparr>" "rc = MM_OK \<longrightarrow> z2 = frames (mv v1) q" using copy [OF c] by blast
    have m2: "mv v2 = m\<lparr>refs := (refs m)(q := Suc (refs m q), p := 1), frames := (frames m)(p := z2)\<rparr>" by (simp add: C(1) A(3) pin)
    show ?thesis
    proof (cases "rc = MM_OK")
      case False
      then have rv: "r = rc" "v' = pmm_free1 core q (pmm_free1 core p v2)" using run Pair Some y A(1) c by (auto simp: cow_replace_def split: mm_ret.splits)
      show ?thesis using False pq p0 by (simp add: rv same_space_def free m2 fun_eq_iff)
    next
      case True
      let ?f = "entry_flags_rm_sw_flags core rf OR PAGE_ENTRY_VALID core OR PAGE_ENTRY_WRITE core OR PAGE_ENTRY_READ core"
      obtain re v3 where rl: "linux_mm_remap_user_leaf core a p ?f q v2 = (re, v3)" by fastforce
      have k2: "pte (mv v2) (VPN a) = Some (q, g)" using k by (simp add: m2)
      note V = remap_leaf_view [OF rl a k2]
      show ?thesis
      proof (cases "re = MM_OK")
        case False
        then have rv: "r = re" "v' = pmm_free1 core p (pmm_free1 core q v3)"
          using run Pair Some y A(1) c True rl by (auto simp: cow_replace_def Let_def split: mm_ret.splits)
        show ?thesis using False pq p0 V by (simp add: rv same_space_def free m2 fun_eq_iff)
      next
        case fin: True
        then have rv: "r = MM_OK" "v' = pmm_free1 core q v3" using run Pair Some y A(1) c True rl by (auto simp: cow_replace_def Let_def)
        have fl: "?f AND PAGE_ENTRY_WRITE core \<noteq> 0" "?f AND PAGE_ENTRY_VALID core \<noteq> 0"
          using write_bit valid_bit by (auto simp: bit.conj_disj_distrib2 or_eq_0_iff)
        have z2: "z2 = frames m q" using C(2) True A(3) pin pq by simp
        show ?thesis unfolding privatised_def rv using fin V pq p0 fl z2
          by (intro if_P [THEN iffD2] exI [of _ p] exI [of _ ?f]) (auto simp: free m2 fun_eq_iff)
      qed
    qed
  qed
qed

lemma query_page:
  assumes "utab (mv v)" "calculate_end_check core (round_down a) 1 = Some e"
  shows "case rdx (mv v) (VPN (round_down a)) of Some f \<Rightarrow> linux_mm_query_vaddr core v a = Inr (round_down a, f)
    | None \<Rightarrow> \<exists>r. linux_mm_query_vaddr core v a = Inl r \<and> r \<noteq> MM_OK"
proof -
  have "unat e = unat (round_down a) + 4096" using end_check [OF assms(2)] by simp
  from query [OF this, of v] show ?thesis using assms table [of v]
    by (auto simp: linux_mm_query_vaddr_def Let_def split: option.splits)
qed

lemma query_fails: "linux_mm_query_vaddr core v a = Inl r \<Longrightarrow> r \<noteq> MM_OK"
proof (cases "utab (mv v) \<and> calculate_end_check core (round_down a) 1 \<noteq> None")
  case True
  assume r: "linux_mm_query_vaddr core v a = Inl r"
  obtain e where "calculate_end_check core (round_down a) 1 = Some e" using True by blast
  from query_page [OF conjunct1 [OF True] this] r show ?thesis by (auto split: option.splits)
qed (use table [of v] in \<open>auto simp: linux_mm_query_vaddr_def Let_def\<close>)

lemma cow_split_ok:
  assumes ok: "mm_ok core (mv v)" and t: "utab (mv v)" and run: "linux_mm_cow_split_page core a v = (r, v')"
  shows "same_space (mv v) (mv v')
    \<or> (\<exists>q g. pte (mv v) (VPN (round_down a)) = Some (q, g) \<and> g AND PAGE_ENTRY_WRITE core = 0 \<and> r = MM_OK
        \<and> privatised core (VPN (round_down a)) q (mv v) (mv v'))"
    and "pte (mv v) (VPN (round_down a)) = Some (q, g) \<Longrightarrow> g AND PAGE_ENTRY_WRITE core = 0 \<Longrightarrow> r = MM_OK \<Longrightarrow>
      privatised core (VPN (round_down a)) q (mv v) (mv v')"
proof -
  define b where "b = round_down a"
  have tb: "user_table core v" using t table by simp
  have "(same_space (mv v) (mv v') \<or> (\<exists>q g. pte (mv v) (VPN b) = Some (q, g) \<and> g AND PAGE_ENTRY_WRITE core = 0 \<and> r = MM_OK
        \<and> privatised core (VPN b) q (mv v) (mv v')))
    \<and> (\<forall>q g. pte (mv v) (VPN b) = Some (q, g) \<and> g AND PAGE_ENTRY_WRITE core = 0 \<and> r = MM_OK \<longrightarrow> privatised core (VPN b) q (mv v) (mv v'))"
  proof (cases "pte (mv v) (VPN b)")
    case None
    then have "r = MM_OK \<and> mv v' = mv v" using run tb pin_none [OF None] by (auto simp: linux_mm_cow_split_page_def b_def [symmetric] Let_def)
    then show ?thesis using None by (simp add: same_space_def)
  next
    case (Some x)
    obtain q g where x: "x = (q, g)" by (cases x)
    obtain v1 where v1: "have_mapped_pin core v (VPN b) = (Inr (q, g, 3), v1)" "mv v1 = (mv v)\<lparr>refs := (refs (mv v))(q := Suc (refs (mv v) q))\<rparr>"
      using pin Some x by blast
    have gv: "g AND PAGE_ENTRY_VALID core \<noteq> 0" using ok Some x by (simp add: mm_ok_def)
    have drop: "same_space (mv v) (mv (pmm_free1 core q v1))" by (simp add: same_space_def free v1(2))
    show ?thesis
    proof (cases "g AND PAGE_ENTRY_WRITE core = 0")
      case False
      then have "v' = pmm_free1 core q v1" using run tb v1(1) gv by (auto simp: linux_mm_cow_split_page_def b_def [symmetric] Let_def)
      then show ?thesis using drop Some x False by simp
    next
      case True
      show ?thesis
      proof (cases "linux_mm_query_vaddr core v1 b")
        case (Inl e)
        then have "r = e" "v' = pmm_free1 core q v1" using run tb v1(1) gv True by (auto simp: linux_mm_cow_split_page_def b_def [symmetric] Let_def)
        then show ?thesis using drop query_fails [OF Inl] by simp
      next
        case (Inr y)
        obtain ns rf where y: "y = (ns, rf)" by (cases y)
        show ?thesis
        proof (cases "rf AND PAGE_ENTRY_WRITE core = 0")
          case ro: True
          then have "r = MM_IN_PARAM" "v' = pmm_free1 core q v1"
            using run tb v1(1) gv True Inr y by (auto simp: linux_mm_cow_split_page_def b_def [symmetric] Let_def)
          then show ?thesis using drop by simp
        next
          case rw: False
          then have cr: "cow_replace core b q rf v1 = (r, v')"
            using run tb v1(1) gv True Inr y by (auto simp: linux_mm_cow_split_page_def b_def [symmetric] Let_def)
          have "if r = MM_OK then privatised core (VPN b) q (mv v) (mv v') else same_space (mv v) (mv v')"
            by (rule cow_replace_ok [OF ok _ _ v1(2) cr]) (use Some x b_def in simp_all)
          then show ?thesis using Some x True by (auto split: if_splits)
        qed
      qed
    qed
  qed
  then show "same_space (mv v) (mv v')
      \<or> (\<exists>q g. pte (mv v) (VPN (round_down a)) = Some (q, g) \<and> g AND PAGE_ENTRY_WRITE core = 0 \<and> r = MM_OK
          \<and> privatised core (VPN (round_down a)) q (mv v) (mv v'))"
    "pte (mv v) (VPN (round_down a)) = Some (q, g) \<Longrightarrow> g AND PAGE_ENTRY_WRITE core = 0 \<Longrightarrow> r = MM_OK \<Longrightarrow>
      privatised core (VPN (round_down a)) q (mv v) (mv v')"
    unfolding b_def by blast+
qed

section \<open>Strings and copies\<close>

lemma load_in_page:
  assumes b: "vbyte (mv v) a \<noteq> None" and c: "c \<le> 4096 - unat a mod 4096"
  shows "\<exists>d. user_load core v a c = Inr d \<and> length d = c \<and> (\<forall>i < c. vbyte (mv v) (a + of_nat i) = Some (d ! i))"
proof (cases "user_load core v a c")
  case (Inl r)
  then obtain i where "i < c" "vbyte (mv v) (a + of_nat i) = None" using no_load by blast
  then show ?thesis using b c page_room [of i a] by (auto simp: vbyte_def)
qed (use load in blast)

lemma cstring_loop_ok:
  assumes s: "\<forall>i < length s. vbyte (mv v) (a + of_nat i) = Some (s ! i) \<and> s ! i \<noteq> 0" "vbyte (mv v) (a + of_nat (length s)) = Some 0"
    and cap: "length s < cap - 1" and n: "n \<le> length s"
  shows "\<exists>d. cstring_loop core v a cap n (take n s) = (MM_OK, d) \<and> takeWhile (\<lambda>b. b \<noteq> 0) d = s"
  using n
proof (induction "cap - n" arbitrary: n rule: less_induct)
  case less
  let ?cur = "a + of_nat n"
  define c where "c = min (4096 - unat ?cur mod 4096) (cap - 1 - n)"
  have n: "n < cap - 1" using less.prems cap by simp
  have nz: "vbyte (mv v) ?cur \<noteq> None" using s less.prems by (cases "n = length s") auto
  have room: "unat ?cur mod 4096 < 4096" "c \<le> 4096 - unat ?cur mod 4096" by (simp_all add: c_def)
  obtain d where d: "user_load core v ?cur c = Inr d" "length d = c" "\<forall>i < c. vbyte (mv v) (?cur + of_nat i) = Some (d ! i)"
    using load_in_page [OF nz room(2)] by blast
  have at: "d ! i = s ! (n + i)" if "i < c" "n + i < length s" for i
    using d(3) [rule_format, OF that(1)] s(1) [rule_format, OF that(2)] by (simp add: add.assoc)
  have end0: "d ! (length s - n) = 0" if "length s - n < c"
    using d(3) [rule_format, OF that] s(2) less.prems by (simp add: add.assoc flip: of_nat_add)
  show ?case
  proof (cases "length s - n < c")
    case True
    have pre: "take (length s - n) d = drop n s"
      by (rule nth_equalityI) (use True d(2) less.prems at in auto)
    have "d = drop n s @ 0 # drop (Suc (length s - n)) d"
      using id_take_nth_drop [of "length s - n" d] True d(2) pre end0 by simp
    moreover have "\<forall>b \<in> set s. b \<noteq> 0" using s(1) by (metis in_set_conv_nth)
    ultimately have "0 \<in> set d" "takeWhile (\<lambda>b. b \<noteq> 0) (take n s @ d) = s"
      using takeWhile_append_stop [of s "\<lambda>b. b \<noteq> 0" 0] by (metis in_set_conv_decomp, metis append.assoc append_take_drop_id)
    then show ?thesis using n d(1) by (subst cstring_loop.simps) (auto simp: Let_def linux_mm_load_from_user_def c_def)
  next
    case False
    have "0 \<notin> set d"
    proof
      assume "0 \<in> set d"
      then obtain i where "i < c" "d ! i = 0" using d(2) by (metis in_set_conv_nth)
      then show False using at [of i] s(1) False by auto
    qed
    moreover have "take n s @ d = take (n + c) s"
    proof -
      have "d = take c (drop n s)" by (rule nth_equalityI) (use False d(2) at less.prems in auto)
      then show ?thesis by (simp add: take_add)
    qed
    ultimately have "cstring_loop core v a cap n (take n s) = cstring_loop core v a cap (n + c) (take (n + c) s)"
      using n d(1) by (subst cstring_loop.simps) (simp add: Let_def linux_mm_load_from_user_def c_def)
    moreover have "cap - (n + c) < cap - n" using n room(1) by (simp add: c_def)
    moreover have "n + c \<le> length s" using False less.prems by linarith
    ultimately show ?thesis using less.hyps [of "n + c"] by simp
  qed
qed

end

end
