(* ===== verification/Mm_Correct.thy ===== *)
theory Mm_Correct
  imports User_Mm_Inv
begin

text \<open>
  Correctness of the memory system calls and of the page fault handler, on top of the lemmas of the locale \<open>user_mm\<close>, and an instance of the
  locale.
\<close>

section \<open>System calls\<close>

context user_mm
begin

lemma same_space_refl [simp]: "same_space m m"
  by (simp add: same_space_def)

lemma same_space_trans: "same_space m m1 \<Longrightarrow> same_space m1 m2 \<Longrightarrow> same_space m m2"
  by (simp add: same_space_def)

lemma same_space_grown: "same_space m m1 \<Longrightarrow> grown core S f m1 m2 \<Longrightarrow> grown core S f m m2"
  by (simp add: same_space_def grown_def counts_kept_def mappers_def)

lemma prot_valid: "linux_prot_to_page_flags core prot AND PAGE_ENTRY_VALID core \<noteq> 0" "rw_flags core AND PAGE_ENTRY_VALID core \<noteq> 0"
  using valid_bit by (simp_all add: linux_prot_to_page_flags_def rw_flags_def bit.conj_disj_distrib2 or_eq_0_iff)

lemma probe_ok:
  assumes "mm_ok core (mv v)" "f AND PAGE_ENTRY_VALID core \<noteq> 0" "probe_loop core h len n f c pa v = (r, pa', v')"
  shows "r = err64 LINUX_ENOMEM \<and> pa' = pa \<and> same_space (mv v) (mv v')
    \<or> grown core {VPN r..<VPN r + n} f (mv v) (mv v') \<and> pa' = raise_hint (r + len) pa \<and> r < USER_SPACE_TOP core \<and> r \<le> r + len
      \<and> r + len \<le> USER_SPACE_TOP core"
  using assms
proof (induction c arbitrary: h v)
  case (Suc c)
  note P = Suc.prems
  define out where "out \<longleftrightarrow> USER_SPACE_TOP core \<le> h \<or> h + len < h \<or> USER_SPACE_TOP core < h + len"
  show ?case
  proof (cases out)
    case True
    then have "r = err64 LINUX_ENOMEM" "pa' = pa" "v' = v" using P(3) by (simp_all add: out_def)
    then show ?thesis by simp
  next
    case inside: False
    show ?thesis
    proof (cases "linux_mm_range_is_free core v h n")
      case False
      then have "probe_loop core (h + 4096) len n f c pa v = (r, pa', v')" using P(3) inside by (simp add: out_def)
      then show ?thesis by (rule Suc.IH [OF P(1,2)])
    next
      case True
      obtain x v1 where m: "linux_mm_map_user_range core h n f v = (x, v1)" by fastforce
      note M = map_range_ok [OF P(1,2) m]
      show ?thesis
      proof (cases x)
        case None
        then have "probe_loop core (h + 4096) len n f c pa v1 = (r, pa', v')" using P(3) inside True m by (simp add: out_def)
        from Suc.IH [OF _ P(2) this] M None same_space_trans same_space_grown show ?thesis by blast
      next
        case (Some p)
        then have "p = h" "grown core {VPN h..<VPN h + n} f (mv v) (mv v1)" using M by simp_all
        moreover have "r = p" "pa' = raise_hint (p + len) pa" "v' = v1" using P(3) inside True m Some by (auto simp: out_def)
        ultimately show ?thesis using inside by (simp add: out_def not_le not_less)
      qed
    qed
  qed
qed simp

lemma mmap_ok:
  assumes ok: "mm_ok core (mv v)" and fl: "flags AND LINUX_MAP_ANONYMOUS \<noteq> 0"
    and run: "sys_mmap core io addr len prot flags fd off pa v = (r, pa', v')"
  shows "(\<exists>e \<in> {LINUX_EINVAL, LINUX_ESRCH, LINUX_EBADF, LINUX_ENOMEM}. r = err64 e) \<and> pa' = pa \<and> same_space (mv v) (mv v')
    \<or> grown core {VPN r..<VPN r + unat (round_up len) div 4096} (linux_prot_to_page_flags core prot) (mv v) (mv v')
      \<and> pa' = raise_hint (r + round_up len) pa \<and> (flags AND LINUX_MAP_FIXED \<noteq> 0 \<longrightarrow> r = addr)
      \<and> (flags AND LINUX_MAP_FIXED = 0 \<longrightarrow> r < USER_SPACE_TOP core \<and> r \<le> r + round_up len \<and> r + round_up len \<le> USER_SPACE_TOP core)"
proof -
  define n where "n = unat (round_up len) div 4096"
  define f where "f = linux_prot_to_page_flags core prot"
  define fixed where "fixed \<longleftrightarrow> flags AND LINUX_MAP_FIXED \<noteq> 0"
  have fv: "f AND PAGE_ENTRY_VALID core \<noteq> 0" by (simp add: f_def prot_valid)
  define h where "h = (if fixed \<or> addr \<noteq> 0 then addr else linux_mmap_pick_hint pa 0)"
  define bad where "bad \<longleftrightarrow> len = 0 \<or> n = 0 \<or> \<not> user_table core v \<or> fd \<noteq> - 1 \<or> off \<noteq> 0 \<or> (fixed \<or> addr \<noteq> 0) \<and> addr AND 4095 \<noteq> 0"
  show ?thesis
  proof (cases bad)
    case True
    then have "(\<exists>e \<in> {LINUX_EINVAL, LINUX_ESRCH, LINUX_EBADF, LINUX_ENOMEM}. r = err64 e) \<and> pa' = pa \<and> v' = v"
      using run fl by (auto simp: sys_mmap_def Let_def bad_def n_def [symmetric] fixed_def [symmetric] split: if_splits)
    then show ?thesis by simp
  next
    case False
    then have go: "linux_mmap_map_range core h (round_up len) n f fixed pa v = (r, pa', v')"
      using run fl by (auto simp: sys_mmap_def Let_def bad_def n_def f_def fixed_def [symmetric] h_def split: if_splits)
    show ?thesis
    proof (cases fixed)
      case True
      have al: "h AND 4095 = 0" "h = addr" using False True by (simp_all add: bad_def h_def)
      obtain x v1 where m: "linux_mm_map_user_range core h n f v = (x, v1)" by fastforce
      note M = map_range_ok [OF ok fv m]
      show ?thesis
      proof (cases x)
        case None
        then have "r = err64 LINUX_ENOMEM" "pa' = pa" "v' = v1" using go True al m by (simp_all add: linux_mmap_map_range_def)
        then show ?thesis using M None by simp
      next
        case (Some p)
        then have "r = p" "pa' = raise_hint (p + round_up len) pa" "v' = v1" using go True al m by (auto simp: linux_mmap_map_range_def)
        then show ?thesis using M Some al True by (simp add: fixed_def n_def f_def)
      qed
    next
      case nf: False
      then have "probe_loop core h (round_up len) n f 256 pa v = (r, pa', v')" using go by (simp add: linux_mmap_map_range_def)
      from probe_ok [OF ok fv this] show ?thesis using nf by (auto simp: fixed_def n_def f_def)
    qed
  qed
qed

lemma mprotect_ok:
  assumes ok: "mm_ok core (mv v)" and ad: "round_down addr = addr"
  shows "\<exists>r v' d. sys_mprotect core addr len prot v = Some (r, v') \<and> mm_ok core (mv v') \<and> counts_kept (mv v) (mv v')
    \<and> d \<le> unat (round_up len) div 4096
    \<and> recoloured {VPN addr..<VPN addr + d} (linux_prot_to_page_flags core prot) (mv v) (mv v')
    \<and> (r = 0 \<longrightarrow> d = unat (round_up len) div 4096 \<or> len = 0)"
proof -
  define L where "L = round_up len"
  define f where "f = linux_prot_to_page_flags core prot"
  have fv: "f AND PAGE_ENTRY_VALID core \<noteq> 0" by (simp add: f_def prot_valid)
  have aL: "round_down L = L" by (simp add: L_def round_up_def)
  have up: "round_up L = L" by (rule round_up_aligned [OF aL])
  have same: "\<exists>r v' d. Some (x, v) = Some (r, v') \<and> mm_ok core (mv v') \<and> counts_kept (mv v) (mv v') \<and> d \<le> unat L div 4096
      \<and> recoloured {VPN addr..<VPN addr + d} f (mv v) (mv v') \<and> (r = 0 \<longrightarrow> d = unat L div 4096 \<or> len = 0)" if "x = 0 \<longrightarrow> len = 0" for x
    using that ok by (intro exI [of _ x] exI [of _ v] exI [of _ 0]) (simp add: recoloured_refl)
  define e where "e = addr + L"
  show ?thesis
  proof (cases "len = 0 \<or> addr AND 4095 \<noteq> 0 \<or> e < addr \<or> \<not> user_table core v \<or> L = 0 \<or> e \<le> addr")
    case True
    have inval: "linux_mm_update_range_flags core addr L f v = Some (MM_IN_PARAM, v)" if "L = 0 \<or> e \<le> addr"
      using that unfolding linux_mm_update_range_flags_def Let_def up ad e_def [symmetric] by (simp only: if_True split: if_split) blast
    have sys: "sys_mprotect core addr len prot v = (if len = 0 then Some (0, v) else if addr AND 4095 \<noteq> 0 \<or> e < addr then Some (- LINUX_EINVAL, v)
        else if \<not> user_table core v then Some (- LINUX_ESRCH, v)
        else map_option (\<lambda>(e, vs1). (if e \<noteq> MM_OK then - LINUX_EINVAL else 0, vs1)) (linux_mm_update_range_flags core addr L f v))"
      unfolding sys_mprotect_def Let_def L_def e_def f_def by (rule refl)
    have "\<exists>x. sys_mprotect core addr len prot v = Some (x, v) \<and> (x = 0 \<longrightarrow> len = 0)"
    proof (cases "len = 0 \<or> addr AND 4095 \<noteq> 0 \<or> e < addr \<or> \<not> user_table core v")
      case c: True
      show ?thesis unfolding sys using c by (cases "len = 0"; cases "addr AND 4095 \<noteq> 0 \<or> e < addr"; cases "user_table core v") simp_all
    next
      case c: False
      then have "linux_mm_update_range_flags core addr L f v = Some (MM_IN_PARAM, v)" using True inval by blast
      then show ?thesis unfolding sys using c by (intro exI [of _ "- LINUX_EINVAL"]) simp
    qed
    then show ?thesis using same unfolding L_def [symmetric] f_def [symmetric] by metis
  next
    case False
    let ?l = "linux_mm_l0_lock_lo addr"
    obtain lr v1 where l: "lock_range_big core ?l e v = (lr, v1)" by fastforce
    have upd: "linux_mm_update_range_flags core addr L f v = (if lr = MM_OK
        then map_option (\<lambda>(r, v2). (r, unlock_range_big core ?l e v2)) (flags_loop core addr e f v1) else Some (MM_RENDEZVOS, v1))"
      using False up ad l by (cases lr) (auto simp: linux_mm_update_range_flags_def Let_def e_def)
    have sys: "sys_mprotect core addr len prot v = map_option (\<lambda>(r, v1). (if r \<noteq> MM_OK then - LINUX_EINVAL else 0, v1))
        (linux_mm_update_range_flags core addr L f v)"
      using False by (simp add: sys_mprotect_def Let_def L_def [symmetric] e_def [symmetric] f_def)
    show ?thesis
    proof (cases "lr = MM_OK")
      case no: False
      then have "sys_mprotect core addr len prot v = Some (- LINUX_EINVAL, v1)" using sys upd by simp
      then show ?thesis using lock_fails [OF l no] ok recoloured_refl
        by (intro exI [of _ "- LINUX_EINVAL"] exI [of _ v1] exI [of _ 0]) simp
    next
      case yes: True
      have m1: "mv v1 = (mv v)\<lparr>held := (?l, e) # held (mv v)\<rparr>" using lock_view l yes by simp
      have ue: "unat e = unat addr + unat L"
      proof -
        have "unat e = (unat addr + unat L) mod 2 ^ LENGTH(64)" unfolding e_def by (rule unat_word_ariths)
        moreover have "unat L < 2 ^ LENGTH(64)" by (rule unsigned_less)
        moreover have "unat addr \<le> unat e" using False by (simp add: not_less word_le_nat_alt)
        ultimately show ?thesis using no_wrap_add [of "unat L" "2 ^ LENGTH(64)" "unat addr"] by simp
      qed
      have uk: "unat e = (VPN addr + VPN L) * 4096" using ue aligned [OF ad] aligned [OF aL] by (simp only: distrib_right)
      have ae: "round_down e = e" by (rule aligned_eq [OF uk])
      have ve: "VPN e = VPN addr + unat L div 4096" using VPN_eq [of e _ 0] uk by (simp add: VPN_def [of L])
      obtain r v2 d where F: "flags_loop core addr e f v1 = Some (r, v2)" "VPN addr \<le> d" "d \<le> VPN e" "recoloured {VPN addr..<d} f (mv v1) (mv v2)"
          "r = MM_OK \<longrightarrow> d = VPN e" using flags_loop_ok [OF ad ae, of f v1] False by (meson not_less)
      let ?v3 = "unlock_range_big core ?l e v2"
      have rc: "recoloured {VPN addr..<VPN addr + (d - VPN addr)} f (mv v) (mv ?v3)" using F(2,4) by (simp add: recoloured_def m1 unlock)
      show ?thesis using sys upd yes F recoloured_ok [OF ok fv rc] rc ve
        by (intro exI [of _ "if r \<noteq> MM_OK then - LINUX_EINVAL else 0"] exI [of _ ?v3] exI [of _ "d - VPN addr"])
          (auto simp: L_def [symmetric] f_def [symmetric])
    qed
  qed
qed

lemma brk_shrinks:
  assumes ok: "mm_ok core (mv v)" and t: "utab (mv v)" and nb: "nb \<noteq> 0" "round_up nb < round_up (brk pa)"
    and ec: "calculate_end_check core (round_up nb) (unat (round_up (brk pa) - round_up nb) div 4096) \<noteq> None"
    and mp: "\<forall>k. VPN (round_up nb) \<le> k \<and> k < VPN (round_up (brk pa)) \<longrightarrow> pte (mv v) k \<noteq> None"
    and run: "sys_brk core nb pa v = (r, pa', v')"
  shows "r = nb \<and> brk pa' = nb \<and> (shrunk core {VPN (round_up nb)..<VPN (round_up (brk pa))} (mv v) (mv v') \<or> same_space (mv v) (mv v'))"
proof -
  define a where "a = round_up nb"
  define b where "b = round_up (brk pa)"
  define n where "n = unat (b - a) div 4096"
  have al: "round_down a = a" "round_down b = b" by (simp_all add: a_def b_def round_up_def)
  have lt: "a < b" using nb(2) by (simp add: a_def b_def)
  have ub: "unat (b - a) = unat b - unat a" using lt by (simp add: unat_sub_if_size word_less_nat_alt)
  have n: "VPN a + n = VPN b" "0 < n" using ub aligned [OF al(1)] aligned [OF al(2)] lt VPN_less [OF al] by (simp_all add: n_def flip: diff_mult_distrib)
  obtain e where e: "calculate_end_check core a n = Some e" using ec by (auto simp: a_def b_def n_def)
  obtain r2 v2 where u: "linux_mm_unmap_user_range core a n v = (r2, v2)" by fastforce
  have out: "r = nb" "brk pa' = nb" "v' = v2"
    using run u nb(1) lt by (auto simp: sys_brk_def Let_def a_def [symmetric] b_def [symmetric] n_def split: if_splits)
  consider "same_space (mv v) (mv v2)" | d where "d \<le> n" "shrunk core {VPN a..<VPN a + d} (mv v) (mv v2)" "r2 = MM_OK \<longleftrightarrow> d = n"
      "r2 \<noteq> MM_OK \<longrightarrow> pte (mv v) (VPN a + d) = None"
    using unmap_range_ok [OF ok t n(2) al(1) e u] by blast
  then have "shrunk core {VPN a..<VPN b} (mv v) (mv v2) \<or> same_space (mv v) (mv v2)"
  proof cases
    case 2
    have "d = n"
    proof (rule ccontr)
      assume "d \<noteq> n"
      then have "pte (mv v) (VPN a + d) = None" "VPN a + d < VPN b" using 2 n(1) by auto
      then show False using mp [rule_format, of "VPN a + d"] by (simp add: a_def b_def)
    qed
    then show ?thesis using 2(2) n(1) by simp
  qed simp
  then show ?thesis using out by (simp add: a_def b_def)
qed

text \<open>The page fault handler.\<close>

lemma pf_cow:
  assumes ok: "mm_ok core (mv v)" and t: "utab (mv v)" and a: "4096 \<le> pf_addr info" "calculate_end_check core (round_down (pf_addr info)) 1 \<noteq> None"
    and k: "pte (mv v) (VPN (round_down (pf_addr info))) = Some (q, g)" "g AND PAGE_ENTRY_WRITE core = 0"
    and w: "rdx (mv v) (VPN (round_down (pf_addr info))) = Some fl" "fl AND PAGE_ENTRY_WRITE core \<noteq> 0"
    and hw: "pf_write info" "pf_present info" and run: "linux_trap_pf_handler core info v = (x, v')"
  shows "x = PF_RESUME \<and> privatised core (VPN (round_down (pf_addr info))) q (mv v) (mv v')
    \<or> x = pf_unhandled info \<and> same_space (mv v) (mv v')"
proof -
  let ?a = "round_down (pf_addr info)"
  obtain e where e: "calculate_end_check core ?a 1 = Some e" using a(2) by blast
  have m: "have_mapped core v (VPN ?a) = Inr (q, g, 3)" by (rule mapped [OF k(1)])
  have gv: "g AND PAGE_ENTRY_VALID core \<noteq> 0" using ok k(1) by (simp add: mm_ok_def)
  have qy: "linux_mm_query_vaddr core v ?a = Inr (?a, fl)" using query_page [of v ?a e] t e w(1) by simp
  obtain r v1 where c: "linux_mm_cow_split_page core (pf_addr info) v = (r, v1)" by fastforce
  have h: "linux_trap_pf_handler core info v = (if r = MM_OK then PF_RESUME else pf_unhandled info, v1)"
    using a(1) m gv qy k(2) w(2) hw c by (simp add: linux_trap_pf_handler_def linux_handle_cow_fault_def Let_def not_less [symmetric])
  note C = cow_split_ok [OF ok t c]
  show ?thesis using h run C(1) C(2) [OF k] by (cases "r = MM_OK") auto
qed

end

section \<open>An instance of the core\<close>

text \<open>The state is the view itself; frames are taken from the first 64.\<close>

definition occupied_from :: "mem_view \<Rightarrow> nat \<Rightarrow> nat \<Rightarrow> nat option" where
  "occupied_from m a b = find (\<lambda>k. rdx m k \<noteq> None) [a..<b]"

primrec put_bytes :: "u64 \<Rightarrow> u8 list \<Rightarrow> mem_view \<Rightarrow> mem_view" where
  "put_bytes a [] m = m"
| "put_bytes a (b # bs) m =
     (let p = fst (the (pte m (VPN a))) in
      put_bytes (a + 1) bs (m\<lparr>frames := (frames m)(p := (frames m p)(unat a mod 4096 := b))\<rparr>))"

definition flat_core :: "mem_view mm_core" where
  "flat_core = \<lparr>PAGE_ENTRY_VALID = 1, PAGE_ENTRY_WRITE = 2, PAGE_ENTRY_READ = 4, PAGE_ENTRY_EXEC = 8, PAGE_ENTRY_USER = 16,
     PAGE_ENTRY_COW = 32, PAGE_ENTRY_LAZY = 64, PAGE_ENTRY_REMAP = 128, entry_flags_rm_sw_flags = (\<lambda>f. f AND 31), BUDDY_MAXORDER = 4,
     USER_SPACE_TOP = 0x7FFFFFFFF000, KERNEL_VIRT_OFFSET = 0xFFFF800000000000,
     user_table = utab,
     have_mapped = (\<lambda>m k. case pte m k of None \<Rightarrow> Inl MM_NOFOUND | Some (p, f) \<Rightarrow> Inr (p, f, 3)),
     have_mapped_pin = (\<lambda>m k. case pte m k of None \<Rightarrow> (Inl MM_NOFOUND, m)
        | Some (p, f) \<Rightarrow> (Inr (p, f, 3), m\<lparr>refs := (refs m)(p := Suc (refs m p))\<rparr>)),
     calculate_end_check = (\<lambda>a n. if unat a + n * 4096 < 2 ^ 64 then Some (page_at a n) else None),
     lock_range_big = (\<lambda>a b m. (MM_OK, m\<lparr>held := (a, b) # held m\<rparr>)),
     unlock_range_big = (\<lambda>a b m. m\<lparr>held := remove1 (a, b) (held m)\<rparr>),
     query_range = (\<lambda>m a b. case rdx m (VPN a) of None \<Rightarrow> Inl MM_NOFOUND | Some f \<Rightarrow> Inr f),
     find_first_occupied_interval = (\<lambda>m a b. map_option (\<lambda>k. (of_nat (k * 4096), of_nat (Suc k * 4096), the (rdx m k))) (occupied_from m (VPN a) (VPN b))),
     find_first_occupied_leaf = (\<lambda>m a b. None),
     map_pte = (\<lambda>p k f m. (MM_OTHER, m)),
     set_range_and_fill = (\<lambda>a n f m. case find (\<lambda>p. \<forall>i < n. refs m (p + i) = 0) [0..<64] of
          Some p \<Rightarrow> if \<forall>i < n. rdx m (VPN a + i) = None
            then (True, m\<lparr>pte := put (VPN a) n (\<lambda>i. Some (p + i, f)) (pte m), rdx := put (VPN a) n (\<lambda>i. Some f) (rdx m),
                          refs := put p n (\<lambda>i. 1) (refs m), frames := put p n (\<lambda>i j. 0) (frames m)\<rparr>) else (False, m)
        | None \<Rightarrow> (False, m)),
     clean_range_and_unfill = (\<lambda>a n p m. if \<forall>i < n. \<exists>f. pte m (VPN a + i) = Some (p + i, f)
          then (MM_OK, m\<lparr>pte := put (VPN a) n (\<lambda>i. None) (pte m), rdx := put (VPN a) n (\<lambda>i. None) (rdx m),
                         refs := put p n (\<lambda>i. refs m (p + i) - 1) (refs m)\<rparr>) else (MM_RENDEZVOS, m)),
     remap_page = (\<lambda>a p f q m. if \<exists>g. pte m (VPN a) = Some (q, g)
          then (MM_OK, m\<lparr>pte := (pte m)(VPN a \<mapsto> (p, f)), rdx := (rdx m)(VPN a \<mapsto> f), refs := (refs m)(q := refs m q - 1)\<rparr>)
          else (MM_RENDEZVOS, m)),
     set_range_flags = (\<lambda>a len f m. (MM_OK, m\<lparr>pte := put (VPN a) (unat len div 4096) (\<lambda>i. map_option (\<lambda>(p, g). (p, f)) (pte m (VPN a + i))) (pte m),
          rdx := put (VPN a) (unat len div 4096) (\<lambda>i. Some f) (rdx m)\<rparr>)),
     fill_page_with_exist_range = (\<lambda>a f m. (MM_OTHER, m)),
     pmm_alloc1 = (\<lambda>m. case find (\<lambda>p. refs m p = 0) [0..<64] of None \<Rightarrow> (None, m) | Some p \<Rightarrow> (Some (p, 1), m\<lparr>refs := (refs m)(p := 1)\<rparr>)),
     pmm_free1 = (\<lambda>p m. m\<lparr>refs := (refs m)(p := refs m p - 1)\<rparr>),
     copy_page = (\<lambda>p q m. (MM_OK, m\<lparr>frames := (frames m)(p := frames m q)\<rparr>)),
     copy_data_range = (\<lambda>d s n m. (MM_OK, m\<lparr>frames := (frames m)(fst d := \<lambda>k. if snd d \<le> k \<and> k < snd d + n
          then frames m (fst s) (snd s + (k - snd d)) else frames m (fst d) k)\<rparr>)),
     user_load = (\<lambda>m a n. if \<forall>i < n. vbyte m (a + of_nat i) \<noteq> None then Inr (map (\<lambda>i. the (vbyte m (a + of_nat i))) [0..<n]) else Inl MM_RENDEZVOS),
     user_store = (\<lambda>a d m. if \<forall>i < length d. vbyte m (a + of_nat i) \<noteq> None then (MM_OK, put_bytes a d m) else (MM_RENDEZVOS, m))\<rparr>"

lemma unat_of_page: "k * 4096 < 2 ^ 64 \<Longrightarrow> unat (of_nat (k * 4096) :: u64) = k * 4096"
  by (simp only: unsigned_of_nat take_bit_nat_eq_self of_nat_id) (rule take_bit_nat_eq_self, simp)

lemma occupied_interval:
  assumes o: "occupied_from m (VPN a) (VPN b) = Some k" and al: "round_down a = a" "round_down b = b"
    and s: "s = of_nat (k * 4096)" and e: "e = of_nat (Suc k * 4096)"
  shows "a \<le> s \<and> s < b \<and> s < e \<and> round_down s = s \<and> round_down e = e \<and> (\<forall>j. VPN s \<le> j \<and> j < VPN e \<longrightarrow> rdx m j = Some (the (rdx m k)))
    \<and> (\<forall>j. VPN a \<le> j \<and> j < VPN s \<longrightarrow> rdx m j = None)"
proof -
  obtain i where i: "i < VPN b - VPN a" "k = VPN a + i" "rdx m k \<noteq> None" "\<forall>j < i. rdx m (VPN a + j) = None"
    using o by (auto simp: occupied_from_def find_Some_iff)
  have kb: "VPN a \<le> k" "k < VPN b" using i(1,2) by auto
  have "Suc k * 4096 \<le> VPN b * 4096" using kb by simp
  then have le: "Suc k * 4096 \<le> unat b" using aligned [OF al(2)] by simp
  have "unat b < 2 ^ LENGTH(64)" by (rule unsigned_less)
  then have lt: "Suc k * 4096 < 2 ^ 64" "k * 4096 < 2 ^ 64" using le by simp_all
  have u: "unat s = k * 4096" "unat e = Suc k * 4096" using unat_of_page lt s e by blast+
  have v: "VPN s = k" "VPN e = Suc k" using VPN_eq [of s k 0] VPN_eq [of e "Suc k" 0] u by simp_all
  have "round_down s = s" "round_down e = e" using aligned_eq u by blast+
  moreover have "a \<le> s" using aligned [OF al(1)] u(1) kb(1) by (simp add: word_le_nat_alt)
  moreover have "s < b" "s < e" using u le by (simp_all add: word_less_nat_alt)
  moreover have "rdx m j = Some (the (rdx m k))" if "VPN s \<le> j" "j < VPN e" for j using that v i(3) by (simp add: le_Suc_eq less_Suc_eq_le)
  moreover have "rdx m j = None" if "VPN a \<le> j" "j < VPN s" for j using that v i(2) spec [OF i(4), of "j - VPN a"] by simp
  ultimately show ?thesis by blast
qed

lemma not_occupied: "occupied_from m a b = None \<Longrightarrow> a \<le> k \<Longrightarrow> k < b \<Longrightarrow> rdx m k = None"
  by (simp add: occupied_from_def find_None_iff)

interpretation flat_mm: user_mm flat_core "\<lambda>m. m"
proof (unfold_locales, goal_cases)
  case (8 a n e)
  then show ?case using page_at_unat [of a n] by (auto simp: flat_core_def split: if_splits)
next
  case (11 e a v)
  then show ?case by (auto simp: flat_core_def split: option.splits)
next
  case (12 a n f v v')
  then show ?case by (auto simp: flat_core_def find_Some_iff split: option.splits if_splits)
next
  case (13 a n f v v')
  then show ?case by (auto simp: flat_core_def split: option.splits if_splits)
next
  case (15 v a b s e f)
  then obtain k where "occupied_from v (VPN a) (VPN b) = Some k" "s = of_nat (k * 4096)" "e = of_nat (Suc k * 4096)" "f = the (rdx v k)"
    by (auto simp: flat_core_def)
  then show ?case using occupied_interval [OF _ 15(2,3)] by blast
next
  case (16 v a b k)
  then show ?case using not_occupied [of v "VPN a" "VPN b" k] by (simp add: flat_core_def)
next
  case (18 v p n v')
  then show ?case by (auto simp: flat_core_def find_Some_iff split: option.splits intro!: exI [of _ "frames v p"])
next
  case (19 v v')
  then show ?case by (auto simp: flat_core_def split: option.splits)
next
  case (22 p x q y n v r v')
  then show ?case by (auto simp: flat_core_def)
next
  case (24 v a n d)
  then show ?case by (auto simp: flat_core_def split: if_splits)
next
  case (25 v a n r)
  then show ?case by (auto simp: flat_core_def split: if_splits)
qed (auto simp: flat_core_def)

section \<open>Properties\<close>

lemma low_bits: "a AND 4095 = 0 \<longleftrightarrow> round_down a = (a::u64)"
proof -
  have "(4095::u64) = mask 12" by (simp add: mask_eq_exp_minus_1)
  then have "a AND 4095 = take_bit 12 a" by (simp only: take_bit_eq_mask)
  moreover have "round_down a + take_bit 12 a = a" unfolding round_down_def by (rule bits_ident)
  ultimately show ?thesis by (metis add.right_neutral add_left_cancel)
qed

lemma pages32:
  assumes "k * 4096 < 2 ^ 64"
  shows "round_up (of_nat (k * 4096) :: u64) = of_nat (k * 4096)" "(ucast (drop_bit 12 (of_nat (k * 4096) :: u64)) :: 32 word) = of_nat k"
proof -
  let ?x = "of_nat (k * 4096) :: u64"
  have u: "unat ?x = k * 4096" by (rule unat_of_page [OF assms])
  show "round_up ?x = ?x" by (rule round_up_aligned [OF aligned_eq [OF u]])
  have tb: "take_bit LENGTH(64) (k * 4096) = k * 4096" using assms by (intro take_bit_nat_eq_self) simp
  have "unat (drop_bit 12 ?x) = drop_bit 12 (k * 4096)" unfolding unsigned_drop_bit_eq u tb by (rule refl)
  then have "unat (drop_bit 12 ?x) = k" by (simp add: drop_bit_eq_div)
  then show "(ucast (drop_bit 12 ?x) :: 32 word) = of_nat k" by (metis of_nat_unat)
qed

lemma sint_small: "k < 2147483648 \<Longrightarrow> sint (of_nat k :: 32 word) = int k"
  by (simp add: signed_of_nat signed_take_bit_int_eq_self)

lemma munmap_run:
  assumes "n * 4096 < 2 ^ 64" "0 < n" "n < 2147483648"
  shows "sys_munmap core addr (of_nat (n * 4096)) vs =
    (if addr AND 4095 \<noteq> 0 then (- LINUX_EINVAL, vs) else if \<not> user_table core vs then (- LINUX_ESRCH, vs)
     else case linux_mm_unmap_user_range core addr n vs of (e, vs1) \<Rightarrow> (if e \<noteq> MM_OK then - LINUX_EINVAL else 0, vs1))"
proof -
  have "unat (of_nat (n * 4096) :: u64) \<noteq> 0" using unat_of_page [OF assms(1)] assms(2) by simp
  then have "(of_nat (n * 4096) :: u64) \<noteq> 0" by auto
  then show ?thesis unfolding sys_munmap_def pages32 [OF assms(1)] Let_def sint_small [OF assms(3)] using assms(2) by simp
qed

text \<open>A small address space: page 1 is shared, read-only in the page table and writable in the radix tree; page 3 is private.\<close>

definition small_space :: mem_view where
  "small_space = \<lparr>utab = True, pte = [1 \<mapsto> (0, 21), 3 \<mapsto> (5, 23)], rdx = [1 \<mapsto> 55, 3 \<mapsto> 23], refs = (\<lambda>p. 0)(0 := 2, 5 := 1),
     frames = (\<lambda>p i. if p = 5 \<and> i < 2 then 65 else 0), held = []\<rparr>"

lemma small_space_ok: "mm_ok flat_core small_space" "utab small_space"
proof -
  have "mappers small_space p = (if p = 0 then {1} else if p = 5 then {3} else {})" for p
    by (auto simp: mappers_def small_space_def)
  then show "mm_ok flat_core small_space" by (auto simp: mm_ok_def small_space_def flat_core_def split: if_splits)
  show "utab small_space" by (simp add: small_space_def)
qed

text \<open>C12. An anonymous \<^verbatim>\<open>mmap\<close> fails with an error and leaves the address space and all reference counts as they were, whatever had
  been mapped of the range before the failure, or it maps exactly the requested number of pages with the requested protection at
  pages that were neither mapped nor reserved (at the given address when \<^verbatim>\<open>MAP_FIXED\<close> is set and else below the top of user space), keeps every other
  page, and releases its range lock.\<close>

theorem mmap_fresh:
  assumes "user_mm core mv" "mm_ok core (mv v)" "flags AND LINUX_MAP_ANONYMOUS \<noteq> 0"
    and "sys_mmap core io addr len prot flags fd off pa v = (r, pa', v')"
  shows "(\<exists>e \<in> {LINUX_EINVAL, LINUX_ESRCH, LINUX_EBADF, LINUX_ENOMEM}. r = err64 e) \<and> pa' = pa \<and> same_space (mv v) (mv v')
    \<or> grown core {VPN r..<VPN r + unat (round_up len) div 4096} (linux_prot_to_page_flags core prot) (mv v) (mv v')
      \<and> pa' = raise_hint (r + round_up len) pa \<and> (flags AND LINUX_MAP_FIXED \<noteq> 0 \<longrightarrow> r = addr)
      \<and> (flags AND LINUX_MAP_FIXED = 0 \<longrightarrow> r < USER_SPACE_TOP core \<and> r \<le> r + round_up len \<and> r + round_up len \<le> USER_SPACE_TOP core)"
  by (rule user_mm.mmap_ok [OF assms])

theorem mmap_fresh_witness:
  "\<exists>r pa' v'. sys_mmap flat_core (undefined :: mem_view mmap_io) 0 8192 3 32 (- 1) 0 \<lparr>start_brk = 0x5000, brk = 0x5000, mmap_hint = 0\<rparr> small_space = (r, pa', v')
    \<and> mm_ok flat_core small_space
    \<and> (same_space small_space v' \<or> grown flat_core {VPN r..<VPN r + unat (round_up 8192) div 4096} (linux_prot_to_page_flags flat_core 3) small_space v')"
proof -
  have f: "(32::u64) AND LINUX_MAP_ANONYMOUS \<noteq> 0" by simp
  obtain r pa' v' where run: "sys_mmap flat_core (undefined :: mem_view mmap_io) 0 8192 3 32 (- 1) 0 \<lparr>start_brk = 0x5000, brk = 0x5000, mmap_hint = 0\<rparr> small_space = (r, pa', v')"
    by (metis surj_pair)
  show ?thesis using mmap_fresh [OF flat_mm.user_mm_axioms small_space_ok(1) f run] run small_space_ok(1) by blast
qed

text \<open>C19. \<^verbatim>\<open>munmap\<close> of mapped and unmapped pages. When the core does not give the range lock the call fails and nothing changes. Otherwise
  the pages before the first one that is not mapped are unmapped and their frames released, the call succeeds exactly when that is the whole range, every other page
  is kept and the lock is released.\<close>

theorem munmap_prefix:
  assumes "user_mm core mv" "mm_ok core (mv v)" "utab (mv v)" "addr AND 4095 = 0" "0 < n" "n < 2147483648"
    and "calculate_end_check core addr n = Some e" "sys_munmap core addr (of_nat (n * 4096)) v = (r, v')"
  shows "if fst (lock_range_big core (linux_mm_l0_lock_lo addr) e v) \<noteq> MM_OK then r = - LINUX_EINVAL \<and> same_space (mv v) (mv v')
    else \<exists>d \<le> n. shrunk core {VPN addr..<VPN addr + d} (mv v) (mv v') \<and> (r = 0 \<longleftrightarrow> d = n) \<and> r \<in> {0, - LINUX_EINVAL}
        \<and> (r \<noteq> 0 \<longrightarrow> pte (mv v) (VPN addr + d) = None) \<and> (\<forall>k < d. pte (mv v) (VPN addr + k) \<noteq> None)"
proof -
  note e = assms(7)
  have lt: "n * 4096 < 2 ^ 64" using user_mm.end_lt [OF assms(1) e] by simp
  obtain r2 v2 where u: "linux_mm_unmap_user_range core addr n v = (r2, v2)" by fastforce
  have tb: "user_table core v" using user_mm.table [OF assms(1)] assms(3) by simp
  have "r = (if r2 \<noteq> MM_OK then - LINUX_EINVAL else 0)" "v' = v2"
    using assms(4,8) tb u unfolding munmap_run [OF lt assms(5,6)] by simp_all
  moreover have "round_down addr = addr" using assms(4) low_bits by simp
  note U = user_mm.unmap_range_ok [OF assms(1-3,5) this e u]
  ultimately show ?thesis by (cases "r2 = MM_OK") auto
qed

theorem munmap_prefix_witness:
  "\<exists>r v'. sys_munmap flat_core 0x1000 (of_nat (3 * 4096)) small_space = (r, v')
    \<and> r = - LINUX_EINVAL \<and> pte v' 1 = None \<and> pte v' 3 = Some (5, 23)"
proof -
  obtain r v' where run: "sys_munmap flat_core 0x1000 (of_nat (3 * 4096)) small_space = (r, v')" by fastforce
  obtain e where e: "calculate_end_check flat_core 0x1000 3 = Some e" by (simp add: flat_core_def)
  have "(0x1000::u64) AND 4095 = 0" "0 < (3::nat)" "(3::nat) < 2147483648" by simp_all
  note T = munmap_prefix [OF flat_mm.user_mm_axioms small_space_ok this e run]
  have vpn: "VPN 0x1000 = 1" by (simp add: VPN_def)
  have "fst (lock_range_big flat_core (linux_mm_l0_lock_lo 0x1000) e small_space) = MM_OK" by (simp add: flat_core_def)
  with T obtain d where d: "d \<le> 3" "shrunk flat_core {1..<1 + d} small_space v'" "r = 0 \<longleftrightarrow> d = 3" "r \<in> {0, - LINUX_EINVAL}"
      "r \<noteq> 0 \<longrightarrow> pte small_space (1 + d) = None" "\<forall>k < d. pte small_space (1 + k) \<noteq> None" unfolding vpn by auto
  have "\<not> 1 < d" using spec [OF d(6), of 1] by (auto simp: small_space_def)
  moreover have "d \<noteq> 0" using d(3,5) by (cases d) (auto simp: small_space_def)
  ultimately have "d = 1" by linarith
  then have "r = - LINUX_EINVAL" "pte v' 1 = None" "pte v' 3 = Some (5, 23)" using d(2,3,4) by (auto simp: shrunk_def small_space_def)
  then show ?thesis using run by blast
qed

text \<open>\<^verbatim>\<open>munmap\<close> counts pages in a 32-bit \<^verbatim>\<open>int\<close>: a length of 16 TiB and \<open>n\<close> pages unmaps only \<open>n\<close> pages and returns what the
  call with \<open>n\<close> pages returns.\<close>

lemma munmap_truncates:
  assumes "0 < n" "n < 2147483648"
  shows "sys_munmap core addr (of_nat ((4294967296 + n) * 4096)) vs = sys_munmap core addr (of_nat (n * 4096)) vs"
proof -
  have lt: "(4294967296 + n) * 4096 < 2 ^ 64" "n * 4096 < 2 ^ 64" using assms(2) by simp_all
  have same: "(of_nat (4294967296 + n) :: 32 word) = of_nat n" by (simp add: of_nat_add) 
  have nz: "(of_nat ((4294967296 + n) * 4096) :: u64) \<noteq> 0" "(of_nat (n * 4096) :: u64) \<noteq> 0"
    using unat_of_page [OF lt(1)] unat_of_page [OF lt(2)] assms(1) by (metis mult_is_0 unat_0 add_is_0 less_not_refl3 zero_neq_numeral)+
  show ?thesis unfolding sys_munmap_def Let_def pages32 [OF lt(1)] pages32 [OF lt(2)] same using nz by (simp only: if_False)
qed

text \<open>C27. \<^verbatim>\<open>mprotect\<close> always returns. It gives the new protection to a prefix of the range whose pages are all mapped or
  reserved, in the radix tree and in the page tables alike, and to nothing else; success means that this is the whole range. Frames,
  reference counts and locks are as before. A failing call may have changed a part of the range.\<close>

theorem mprotect_prefix:
  assumes "user_mm core mv" "mm_ok core (mv v)" "round_down addr = addr"
  shows "\<exists>r v' d. sys_mprotect core addr len prot v = Some (r, v') \<and> mm_ok core (mv v') \<and> counts_kept (mv v) (mv v')
    \<and> d \<le> unat (round_up len) div 4096
    \<and> recoloured {VPN addr..<VPN addr + d} (linux_prot_to_page_flags core prot) (mv v) (mv v')
    \<and> (r = 0 \<longrightarrow> d = unat (round_up len) div 4096 \<or> len = 0)"
  by (rule user_mm.mprotect_ok [OF assms])

theorem mprotect_prefix_witness:
  "\<exists>r v' d. sys_mprotect flat_core 0x3000 100 1 small_space = Some (r, v') \<and> d \<le> unat (round_up 100) div 4096
    \<and> recoloured {VPN 0x3000..<VPN 0x3000 + d} (linux_prot_to_page_flags flat_core 1) small_space v'"
proof -
  have "round_down 0x3000 = 0x3000" by (simp add: low_bits [symmetric])
  from mprotect_prefix [OF flat_mm.user_mm_axioms small_space_ok(1) this, of 100 1] show ?thesis by blast
qed

text \<open>C13. A write fault on a page that is mapped read-only while the radix tree says writable (after \<^verbatim>\<open>fork\<close>) is resolved by moving
  the page to a fresh writable frame with the same contents, dropping one reference of the shared frame and touching nothing
  else; or, when memory or the lock cannot be had, the process gets a segmentation fault and the address space and every reference count are as
  before.\<close>

theorem cow_fault_private:
  assumes "user_mm core mv" "mm_ok core (mv v)" "utab (mv v)" "4096 \<le> pf_addr info"
    and "calculate_end_check core (round_down (pf_addr info)) 1 \<noteq> None"
    and "pte (mv v) (VPN (round_down (pf_addr info))) = Some (q, g)" "g AND PAGE_ENTRY_WRITE core = 0"
    and "rdx (mv v) (VPN (round_down (pf_addr info))) = Some fl" "fl AND PAGE_ENTRY_WRITE core \<noteq> 0"
    and "pf_write info" "pf_present info" "linux_trap_pf_handler core info v = (x, v')"
  shows "x = PF_RESUME \<and> privatised core (VPN (round_down (pf_addr info))) q (mv v) (mv v')
    \<or> x = pf_unhandled info \<and> same_space (mv v) (mv v')"
  by (rule user_mm.pf_cow [OF assms])

theorem cow_fault_private_witness:
  "\<exists>x v'. linux_trap_pf_handler flat_core \<lparr>pf_addr = 0x1008, pf_write = True, pf_present = True, pf_execute = False, pf_kernel = False\<rparr> small_space = (x, v')
    \<and> (x = PF_RESUME \<and> privatised flat_core 1 0 small_space v' \<or> x = PF_SEGV \<and> same_space small_space v')"
proof -
  let ?i = "\<lparr>pf_addr = 0x1008, pf_write = True, pf_present = True, pf_execute = False, pf_kernel = False\<rparr> :: pf_info"
  have vpn: "VPN (round_down 0x1008) = 1" by code_simp
  have c: "calculate_end_check flat_core (round_down (pf_addr ?i)) 1 \<noteq> None" using unat_round_down [of "0x1008"] by (simp add: flat_core_def VPN_def)
  obtain x v' where run: "linux_trap_pf_handler flat_core ?i small_space = (x, v')" by fastforce
  have p: "pte small_space (VPN (round_down (pf_addr ?i))) = Some (0, 21)" "(21::u64) AND PAGE_ENTRY_WRITE flat_core = 0"
    "rdx small_space (VPN (round_down (pf_addr ?i))) = Some 55" "(55::u64) AND PAGE_ENTRY_WRITE flat_core \<noteq> 0"
    using vpn by (simp_all add: small_space_def flat_core_def)
  have h: "4096 \<le> pf_addr ?i" "pf_write ?i" "pf_present ?i" by simp_all
  from cow_fault_private [OF flat_mm.user_mm_axioms small_space_ok h(1) c p h(2,3) run] run vpn show ?thesis by (auto simp: pf_unhandled_def)
qed

text \<open>C29. Copying a string from user memory returns exactly the string when its terminator lies within the capacity of the buffer; only the
  bytes of the string and its terminator need to be mapped, so a string that ends at the last byte before an unmapped page is read.\<close>

theorem user_string_read:
  assumes "user_mm core mv" "utab (mv v)" "\<forall>i < length s. vbyte (mv v) (a + of_nat i) = Some (s ! i) \<and> s ! i \<noteq> 0"
    and "vbyte (mv v) (a + of_nat (length s)) = Some 0" "length s < cap - 1"
  shows "\<exists>d. linux_mm_load_cstring_from_user core v a cap = (MM_OK, d) \<and> takeWhile (\<lambda>b. b \<noteq> 0) d = s"
proof -
  have "user_table core v" using user_mm.table [OF assms(1)] assms(2) by simp
  then show ?thesis using user_mm.cstring_loop_ok [OF assms(1,3-5), of 0] assms(5) by (simp add: linux_mm_load_cstring_from_user_def)
qed

theorem user_string_read_witness:
  "\<exists>d. linux_mm_load_cstring_from_user flat_core small_space 0x3000 16 = (MM_OK, d) \<and> takeWhile (\<lambda>b. b \<noteq> 0) d = [65, 65]"
proof -
  have s: "\<forall>i < length [65, 65 :: u8]. vbyte small_space (0x3000 + of_nat i) = Some ([65, 65] ! i) \<and> [65, 65 :: u8] ! i \<noteq> 0"
    by (auto simp: less_Suc_eq vbyte_def small_space_def VPN_def)
  have z: "vbyte small_space (0x3000 + of_nat (length [65, 65 :: u8])) = Some 0" by (simp add: vbyte_def small_space_def VPN_def)
  show ?thesis by (rule user_string_read [OF flat_mm.user_mm_axioms small_space_ok(2) s z]) simp
qed

text \<open>\<^verbatim>\<open>brk\<close> does not compare its argument with the start of the heap: a break below it unmaps every page between, those of the
  program included, and reports success.\<close>

lemma brk_below_start:
  assumes "user_mm core mv" "mm_ok core (mv v)" "utab (mv v)" "nb \<noteq> 0" "nb < start_brk pa" "round_up nb < round_up (brk pa)"
    and "calculate_end_check core (round_up nb) (unat (round_up (brk pa) - round_up nb) div 4096) \<noteq> None"
    and "\<forall>k. VPN (round_up nb) \<le> k \<and> k < VPN (round_up (brk pa)) \<longrightarrow> pte (mv v) k \<noteq> None"
    and "sys_brk core nb pa v = (r, pa', v')"
  shows "r = nb \<and> brk pa' = nb \<and> (shrunk core {VPN (round_up nb)..<VPN (round_up (brk pa))} (mv v) (mv v') \<or> same_space (mv v) (mv v'))"
  by (rule user_mm.brk_shrinks [OF assms(1-4,6-9)])

end
