(* ===== verification/User_Bytes.thy ===== *)
theory User_Bytes
  imports Mm_Correct
begin

text \<open>
  User memory as bytes (the locale \<open>user_bytes\<close>): what the code that builds stacks and copies arguments relies on. It holds for address spaces
  in which no frame is mapped twice, as after an exec; \<open>plain\<close> says so. A store of mapped bytes succeeds and changes these bytes only; a load returns the
  bytes, and fails when one of them is not mapped.
\<close>

text \<open>Memory holds given bytes at an address.\<close>

definition holds_bytes :: "(u64 \<Rightarrow> u8) \<Rightarrow> nat \<Rightarrow> u8 list \<Rightarrow> bool" where
  "holds_bytes m a bs \<longleftrightarrow> (\<forall>i < length bs. m (of_nat (a + i)) = bs ! i)"

locale user_bytes =
  fixes core :: "'v mm_core" and plain :: "'v \<Rightarrow> bool" and um :: "'v \<Rightarrow> u64 \<Rightarrow> u8" and ok :: "'v \<Rightarrow> u64 \<Rightarrow> bool"
  assumes store_ok: "plain v \<Longrightarrow> (\<forall>i < length s. ok v (a + of_nat i)) \<Longrightarrow> \<exists>v'. user_store core a s v = (MM_OK, v')"
    and stored: "plain v \<Longrightarrow> length s < 18446744073709551616 \<Longrightarrow> user_store core a s v = (MM_OK, v') \<Longrightarrow>
      plain v' \<and> ok v' = ok v \<and> um v' x = (if unat (x - a) < length s then s ! unat (x - a) else um v x)"
    and load_ok: "plain v \<Longrightarrow> (\<forall>i < n. ok v (a + of_nat i)) \<Longrightarrow> user_load core v a n = Inr (map (\<lambda>i. um v (a + of_nat i)) [0..<n])"
    and load_fails: "plain v \<Longrightarrow> i < n \<Longrightarrow> \<not> ok v (a + of_nat i) \<Longrightarrow> \<exists>e. user_load core v a n = Inl e \<and> e \<noteq> MM_OK"

section \<open>An instance\<close>

definition unshared :: "mem_view \<Rightarrow> bool" where
  "unshared m \<longleftrightarrow> (\<forall>j k p f g. pte m j = Some (p, f) \<and> pte m k = Some (p, g) \<longrightarrow> j = k)"

definition flat_byte :: "mem_view \<Rightarrow> u64 \<Rightarrow> u8" where
  "flat_byte m a = the (vbyte m a)"

lemma put_byte_view:
  assumes "unshared m" "vbyte m a \<noteq> None" and m': "m' = m\<lparr>frames := (frames m)(fst (the (pte m (VPN a))) := (frames m (fst (the (pte m (VPN a)))))(unat a mod 4096 := b))\<rparr>"
  shows "vbyte m' x = (if x = a then Some b else vbyte m x)"
proof -
  obtain p f where p: "pte m (VPN a) = Some (p, f)" using assms(2) by (auto simp: vbyte_def)
  have eq: "x = a" if "VPN x = VPN a" "unat x mod 4096 = unat a mod 4096"
    using that unfolding VPN_def by (metis div_mult_mod_eq word_unat_eq_iff)
  show ?thesis
  proof (cases "pte m (VPN x)")
    case None
    then show ?thesis using p by (auto simp: vbyte_def m')
  next
    case (Some q)
    obtain r g where q: "q = (r, g)" by fastforce
    have "r = p \<Longrightarrow> VPN x = VPN a" using assms(1) p Some q unfolding unshared_def by blast
    then show ?thesis using p Some q eq by (auto simp: vbyte_def m')
  qed
qed

lemma put_bytes_view:
  assumes "unshared m" "\<forall>i < length d. vbyte m (a + of_nat i) \<noteq> None" "length d < 18446744073709551616"
  shows "unshared (put_bytes a d m) \<and> vbyte (put_bytes a d m) x = (if unat (x - a) < length d then Some (d ! unat (x - a)) else vbyte m x)"
  using assms
proof (induction d arbitrary: a m)
  case (Cons b d)
  define m1 where "m1 = m\<lparr>frames := (frames m)(fst (the (pte m (VPN a))) := (frames m (fst (the (pte m (VPN a)))))(unat a mod 4096 := b))\<rparr>"
  have va: "vbyte m a \<noteq> None" using spec [OF Cons.prems(2), of 0] by simp
  have u: "unshared m1" using Cons.prems(1) by (simp add: unshared_def m1_def)
  note V = put_byte_view [OF Cons.prems(1) va m1_def]
  have m: "\<forall>i < length d. vbyte m1 (a + 1 + of_nat i) \<noteq> None"
  proof (intro allI impI)
    fix i assume "i < length d"
    then have "Suc i < length (b # d)" by simp
    with Cons.prems(2) have "vbyte m (a + of_nat (Suc i)) \<noteq> None" by blast
    moreover have "a + of_nat (Suc i) = a + 1 + of_nat i" by simp
    ultimately show "vbyte m1 (a + 1 + of_nat i) \<noteq> None" by (simp only: V [of "a + 1 + of_nat i"] split: if_split) blast
  qed
  have len: "length d < 18446744073709551616" using Cons.prems(3) by simp
  note IH = Cons.IH [OF u m len]
  have P: "put_bytes a (b # d) m = put_bytes (a + 1) d m1" by (simp add: m1_def Let_def)
  have at: "unat (x - a) = Suc (unat (x - (a + 1)))" if "x \<noteq> a"
  proof -
    have "x - a \<noteq> 0" using that by simp
    then have "unat (x - a - 1) = unat (x - a) - 1" "0 < unat (x - a)" by (rule unat_minus_one, simp add: unat_gt_0)
    then show ?thesis by (simp add: diff_diff_eq)
  qed
  have wrap: "unat (a - (a + 1)) = 18446744073709551615" by (simp add: unsigned_minus_1_eq_mask mask_eq_exp_minus_1)
  show ?case
  proof (cases "x = a")
    case True
    then show ?thesis using IH P V wrap len by (simp add: not_less)
  next
    case False
    then show ?thesis using IH P V at by simp
  qed
qed simp

lemma put_bytes_fields: "pte (put_bytes a d m) = pte m"
  by (induction d arbitrary: a m) (simp_all add: Let_def)

interpretation flat_bytes: user_bytes flat_core unshared flat_byte "\<lambda>m a. vbyte m a \<noteq> None"
proof (unfold_locales, goal_cases)
  case (1 v s a)
  then show ?case by (simp add: flat_core_def)
next
  case (2 v s a v' x)
  then have d: "\<forall>i < length s. vbyte v (a + of_nat i) \<noteq> None" "v' = put_bytes a s v" by (auto simp: flat_core_def split: if_splits)
  note V = put_bytes_view [OF 2(1) d(1) 2(2)]
  have "(vbyte v' y \<noteq> None) = (vbyte v y \<noteq> None)" for y by (simp add: vbyte_def d(2) put_bytes_fields)
  then show ?case using V [of x] d(2) by (auto simp: flat_byte_def)
next
  case (3 v n a)
  then show ?case by (simp add: flat_core_def flat_byte_def)
next
  case (4 v i n a)
  then show ?case by (auto simp: flat_core_def)
qed

end
