(* ===== verification/Exec_Correct.thy ===== *)
theory Exec_Correct
  imports Exec_Image User_Bytes
begin

text \<open>
  Correctness of program start: the layout of the initial stack, reading the argument vector back, what an exec keeps when it fails, and the
  splitting of the command line.
\<close>

section \<open>Bytes of words\<close>

lemma bit_le_word: "bit (le_word bs) n \<longleftrightarrow> n < 64 \<and> n div 8 < length bs \<and> bit (bs ! (n div 8)) (n mod 8)"
proof (induction bs arbitrary: n)
  case (Cons b bs)
  show ?case
  proof (cases "n < 8")
    case True
    then show ?thesis by (simp add: bit_simps)
  next
    case False
    then obtain m where n: "n = m + 8" using that [of "n - 8"] by simp
    have nb: "\<not> bit (ucast b :: u64) n" using False bit_imp_le_length [of b n] by (auto simp: bit_unsigned_iff)
    have d: "n div 8 = Suc (m div 8)" "n mod 8 = m mod 8" by (simp_all add: n)
    have "bit (push_bit 8 (le_word bs)) n \<longleftrightarrow> n < 64 \<and> bit (le_word bs) m" by (auto simp: n bit_push_bit_iff)
    also have "\<dots> \<longleftrightarrow> n < 64 \<and> m div 8 < length bs \<and> bit (bs ! (m div 8)) (m mod 8)" unfolding Cons.IH by (auto simp: n)
    finally show ?thesis using nb by (simp add: bit_or_iff d)
  qed
qed simp

lemma length_le_bytes [simp]: "length (le_bytes w) = 8"
  by (simp add: le_bytes_def)

lemma le_word_bytes [simp]: "le_word (le_bytes w) = w"
proof (rule bit_word_eqI)
  fix n assume "n < LENGTH(64)"
  then have "n < 64" "n div 8 < 8" by simp_all
  then show "bit (le_word (le_bytes w)) n = bit w n"
    by (simp add: bit_le_word le_bytes_def bit_simps)
qed

lemma and_not_15: "unat ((w::u64) AND NOT 0xF) = unat w div 16 * 16"
proof -
  have mask: "(0xF :: u64) = mask 4" by (simp add: mask_eq_exp_minus_1)
  have eq: "w AND NOT 0xF = push_bit 4 (drop_bit 4 w)"
    unfolding mask by (rule bit_word_eqI) (simp add: bit_simps not_less, auto)
  have u: "unat w < 2 ^ LENGTH(64)" by (rule unsigned_less)
  have lt: "unat w div 16 * 16 < 2 ^ LENGTH(64)" using u by (meson div_times_less_eq_dividend le_less_trans)
  have t: "take_bit 64 (unat w) = unat w" using u by (intro take_bit_nat_eq_self) simp
  have "take_bit LENGTH(64) (push_bit 4 (drop_bit 4 (unat w))) = unat w div 16 * 16"
    using lt by (simp add: drop_bit_eq_div push_bit_eq_mult take_bit_nat_eq_self)
  then show ?thesis unfolding eq unsigned_push_bit_eq unsigned_drop_bit_eq using t by (simp add: drop_bit_eq_div)
qed

section \<open>Writing consecutive bytes\<close>

abbreviation space_size :: nat where "space_size \<equiv> 18446744073709551616"

text \<open>The memory \<open>m'\<close> is \<open>m\<close> with \<open>bs\<close> at address \<open>a\<close>.\<close>

definition written :: "nat \<Rightarrow> u8 list \<Rightarrow> (u64 \<Rightarrow> u8) \<Rightarrow> (u64 \<Rightarrow> u8) \<Rightarrow> bool" where
  "written a bs m m' \<longleftrightarrow> (\<forall>n < space_size. m' (of_nat n) = (if a \<le> n \<and> n < a + length bs then bs ! (n - a) else m (of_nat n)))"

lemma written_Nil [simp]: "written a [] m m"
  by (auto simp: written_def)

lemma written_at: "written a bs m m' \<Longrightarrow> n < space_size \<Longrightarrow> m' (of_nat n) = (if a \<le> n \<and> n < a + length bs then bs ! (n - a) else m (of_nat n))"
  by (simp add: written_def)

lemma written_append:
  assumes "written a xs m m1" "written (a + length xs) ys m1 m2"
  shows "written a (xs @ ys) m m2"
  using assms unfolding written_def by (auto simp: nth_append)

lemma written_prepend:
  assumes "written (a + length xs) ys m m1" "written a xs m1 m2"
  shows "written a (xs @ ys) m m2"
  using assms unfolding written_def by (auto simp: nth_append)

lemma written_holds: "written a bs m m' \<Longrightarrow> a + length bs \<le> space_size \<Longrightarrow> holds_bytes m' a bs"
  unfolding holds_bytes_def using written_at [of a bs m m'] by (simp del: of_nat_add)

lemma written_keeps:
  assumes "holds_bytes m b cs" "written a bs m m'" "b + length cs \<le> space_size" "b + length cs \<le> a \<or> a + length bs \<le> b"
  shows "holds_bytes m' b cs"
  using assms(1,3,4) written_at [OF assms(2)] unfolding holds_bytes_def by (auto simp del: of_nat_add)

lemma unat_nat [simp]: "n < space_size \<Longrightarrow> unat (of_nat n :: u64) = n"
  by (simp add: unsigned_of_nat take_bit_nat_eq_self)

lemma nat_distance:
  assumes "n < space_size" "a < space_size"
  shows "unat ((of_nat n :: u64) - of_nat a) = (if a \<le> n then n - a else space_size + n - a)"
proof (cases "a \<le> n")
  case True
  then have "(of_nat n :: u64) - of_nat a = of_nat (n - a)" by (simp add: of_nat_diff)
  moreover have "n - a < space_size" using assms by simp
  ultimately show ?thesis using True by (simp only: unat_nat if_True)
next
  case False
  have "(of_nat (space_size + n - a) :: u64) = of_nat (space_size + n) - of_nat a" using False assms by (intro of_nat_diff) simp
  also have "\<dots> = of_nat n - of_nat a" by simp
  finally have "(of_nat n :: u64) - of_nat a = of_nat (space_size + n - a)" by simp
  moreover have "space_size + n - a < space_size" using False assms by simp
  ultimately show ?thesis using False by (simp only: unat_nat if_False)
qed

abbreviation pair_bytes :: "u64 \<times> u64 \<Rightarrow> u8 list" where
  "pair_bytes x \<equiv> le_bytes (fst x) @ le_bytes (snd x)"

context user_bytes
begin

lemma store_bytes:
  assumes p: "plain v" and fit: "a + length s \<le> space_size" "a < space_size" and o: "\<forall>n. a \<le> n \<and> n < a + length s \<longrightarrow> ok v (of_nat n)"
    and len: "length s < space_size"
  shows "\<exists>v'. user_store core (of_nat a) s v = (MM_OK, v') \<and> plain v' \<and> ok v' = ok v \<and> written a s (um v) (um v')"
proof -
  have "\<forall>i < length s. ok v (of_nat a + of_nat i)" using o by (metis le_add1 nat_add_left_cancel_less of_nat_add)
  then obtain v' where v': "user_store core (of_nat a) s v = (MM_OK, v')" using store_ok [OF p] by blast
  note S = stored [OF p len v']
  have "um v' (of_nat n) = (if a \<le> n \<and> n < a + length s then s ! (n - a) else um v (of_nat n))" if "n < space_size" for n
    using S [of "of_nat n"] nat_distance [OF that fit(2)] fit(1) that by auto
  then show ?thesis using v' S unfolding written_def by blast
qed

lemma store_word:
  assumes "plain v" "a + 8 \<le> space_size" "\<forall>n. a \<le> n \<and> n < a + 8 \<longrightarrow> ok v (of_nat n)"
  shows "\<exists>v'. exec_store_u64 core (of_nat a) w v = (True, v') \<and> plain v' \<and> ok v' = ok v \<and> written a (le_bytes w) (um v) (um v')"
  using store_bytes [of v a "le_bytes w"] assms by (auto simp: exec_store_u64_def linux_mm_store_to_user_def)

lemma store_strings_ok:
  assumes "plain v" "a + strings_size ss < space_size" "\<forall>n. a \<le> n \<and> n < a + strings_size ss \<longrightarrow> ok v (of_nat n)"
  shows "\<exists>v'. store_strings core (of_nat a) ss v = (True, v') \<and> plain v' \<and> ok v' = ok v
    \<and> written a (concat (map (\<lambda>s. s @ [0]) ss)) (um v) (um v')"
  using assms
proof (induction ss arbitrary: a v)
  case (Cons s ss)
  have size: "strings_size (s # ss) = length s + 1 + strings_size ss" by (simp add: strings_size_def)
  obtain v1 where v1: "user_store core (of_nat a) (s @ [0]) v = (MM_OK, v1)" "plain v1" "ok v1 = ok v" "written a (s @ [0]) (um v) (um v1)"
    using store_bytes [of v a "s @ [0]"] Cons.prems size by auto
  obtain v2 where v2: "store_strings core (of_nat (a + (length s + 1))) ss v1 = (True, v2)" "plain v2" "ok v2 = ok v1"
    "written (a + (length s + 1)) (concat (map (\<lambda>s. s @ [0]) ss)) (um v1) (um v2)"
    using Cons.IH [of v1 "a + (length s + 1)"] v1(2,3) Cons.prems size by auto
  have "written a ((s @ [0]) @ concat (map (\<lambda>s. s @ [0]) ss)) (um v) (um v2)"
    by (rule written_append [OF v1(4)]) (use v2(4) in simp)
  moreover have "store_strings core (of_nat a) (s # ss) v = (True, v2)"
    using v1(1) v2(1) by (simp add: linux_mm_store_to_user_def ac_simps)
  ultimately show ?case using v1(3) v2(2,3) by auto
qed simp

lemma store_pairs_ok:
  assumes "plain v" "a + 16 * (j + length ps) < space_size" "\<forall>n. a + 16 * j \<le> n \<and> n < a + 16 * (j + length ps) \<longrightarrow> ok v (of_nat n)"
  shows "\<exists>v'. store_pairs core (of_nat a) j ps v = (True, v') \<and> plain v' \<and> ok v' = ok v
    \<and> written (a + 16 * j) (concat (map pair_bytes ps)) (um v) (um v')"
  using assms
proof (induction ps arbitrary: j v)
  case (Cons x ps)
  obtain t w where x: "x = (t, w)" by fastforce
  have at: "(of_nat a :: u64) + of_nat (j * 2 * 8) = of_nat (a + 16 * j)" "(of_nat a :: u64) + of_nat ((j * 2 + 1) * 8) = of_nat (a + 16 * j + 8)"
    by simp_all
  obtain v1 where v1: "exec_store_u64 core (of_nat (a + 16 * j)) t v = (True, v1)" "plain v1" "ok v1 = ok v"
    "written (a + 16 * j) (le_bytes t) (um v) (um v1)"
    using store_word [of v "a + 16 * j" t] Cons.prems by auto
  obtain v2 where v2: "exec_store_u64 core (of_nat (a + 16 * j + 8)) w v1 = (True, v2)" "plain v2" "ok v2 = ok v1"
    "written (a + 16 * j + 8) (le_bytes w) (um v1) (um v2)"
    using store_word [of v1 "a + 16 * j + 8" w] v1(2,3) Cons.prems by auto
  obtain v3 where v3: "store_pairs core (of_nat a) (j + 1) ps v2 = (True, v3)" "plain v3" "ok v3 = ok v2"
    "written (a + 16 * (j + 1)) (concat (map pair_bytes ps)) (um v2) (um v3)"
    using Cons.IH [of v2 "j + 1"] v1(3) v2(2,3) Cons.prems by auto
  have "written (a + 16 * j) (le_bytes t @ le_bytes w) (um v) (um v2)"
    by (rule written_append [OF v1(4)]) (use v2(4) in simp)
  then have "written (a + 16 * j) ((le_bytes t @ le_bytes w) @ concat (map pair_bytes ps)) (um v) (um v3)"
    by (rule written_append) (use v3(4) in \<open>simp add: algebra_simps\<close>)
  moreover have "store_pairs core (of_nat a) j (x # ps) v = (True, v3)"
    unfolding x store_pairs.simps at using v1(1) v2(1) v3(1) by simp
  ultimately show ?case using v1(3) v2(3) v3(2,3) by (auto simp: x)
qed simp

end

primrec string_ptrs :: "nat \<Rightarrow> u8 list list \<Rightarrow> u64 list" where
  "string_ptrs a [] = []"
| "string_ptrs a (s # ss) = of_nat a # string_ptrs (a + (length s + 1)) ss"

lemma length_string_ptrs [simp]: "length (string_ptrs a ss) = length ss"
  by (induction ss arbitrary: a) simp_all

lemma length_words [simp]: "length (concat (map le_bytes ws)) = 8 * length ws"
  by (induction ws) simp_all

context user_bytes
begin

lemma store_argv_ok:
  assumes "plain v" "a + 8 * (i + length ss) < space_size" "\<forall>n. a + 8 * i \<le> n \<and> n < a + 8 * (i + length ss) \<longrightarrow> ok v (of_nat n)"
  shows "\<exists>v'. store_argv core (of_nat a) i (of_nat b) ss v = (True, v') \<and> plain v' \<and> ok v' = ok v
    \<and> written (a + 8 * i) (concat (map le_bytes (string_ptrs b ss))) (um v) (um v')"
  using assms
proof (induction ss arbitrary: i b v)
  case (Cons s ss)
  have at: "(of_nat a :: u64) + of_nat (i * 8) = of_nat (a + 8 * i)" "(of_nat b :: u64) + of_nat (length s + 1) = of_nat (b + (length s + 1))" by simp_all
  obtain v1 where v1: "exec_store_u64 core (of_nat (a + 8 * i)) (of_nat b) v = (True, v1)" "plain v1" "ok v1 = ok v"
    "written (a + 8 * i) (le_bytes (of_nat b)) (um v) (um v1)"
    using store_word [of v "a + 8 * i" "of_nat b"] Cons.prems by auto
  obtain v2 where v2: "store_argv core (of_nat a) (i + 1) (of_nat (b + (length s + 1))) ss v1 = (True, v2)" "plain v2" "ok v2 = ok v1"
    "written (a + 8 * (i + 1)) (concat (map le_bytes (string_ptrs (b + (length s + 1)) ss))) (um v1) (um v2)"
    using Cons.IH [of v1 "i + 1" "b + (length s + 1)"] v1(2,3) Cons.prems by auto
  have "written (a + 8 * i) (le_bytes (of_nat b) @ concat (map le_bytes (string_ptrs (b + (length s + 1)) ss))) (um v) (um v2)"
    by (rule written_append [OF v1(4)]) (use v2(4) in \<open>simp add: algebra_simps\<close>)
  moreover have "store_argv core (of_nat a) i (of_nat b) (s # ss) v = (True, v2)"
    unfolding store_argv.simps at using v1(1) v2(1) by simp
  ultimately show ?case using v1(3) v2(2,3) by auto
qed simp

end

section \<open>The layout of the stack\<close>

text \<open>The stack pointer at entry: 16-byte aligned, or 8 beyond that on x86-64.\<close>

definition entry_at :: "bool \<Rightarrow> nat \<Rightarrow> nat" where
  "entry_at x86 e = (if (e mod 16 = 8) = x86 then e else e - 8)"

lemma align_entry:
  assumes "e mod 8 = 0" "8 \<le> e" "e < space_size"
  shows "align_entry_sp env (of_nat e) = of_nat (entry_at (xe_x86 env) e)"
proof -
  define a where "a = e div 16 * 16"
  have al: "a \<le> e" unfolding a_def by simp
  have m: "e = a + e mod 16" unfolding a_def by simp
  have m2: "e mod 16 = 0 \<or> e mod 16 = 8" using assms(1) by presburger
  have w: "(of_nat e :: u64) AND NOT 0xF = of_nat a"
  proof -
    have "unat ((of_nat e :: u64) AND NOT 0xF) = a" using and_not_15 [of "of_nat e"] unat_nat [OF assms(3)] by (simp only: a_def)
    moreover have "unat (of_nat a :: u64) = a" using al assms(3) by (intro unat_nat) simp
    ultimately show ?thesis by (simp only: word_unat_eq_iff)
  qed
  have z: "(of_nat e AND NOT 0xF) AND 8 = (0 :: u64)" by (simp add: and.assoc)
  have "(of_nat a :: u64) OR 8 = of_nat a + 8" using word_plus_and_or [of "of_nat a :: u64" 8] unfolding w [symmetric] z by (simp only: add_0)
  then have o: "(of_nat a :: u64) OR 8 = of_nat (a + 8)" by simp
  have "e div 16 < 1152921504606846976" using assms(3) by (simp add: div_less_iff_less_mult)
  then have lt: "a + 8 < space_size" unfolding a_def by linarith
  have cmp: "(of_nat e :: u64) < of_nat (a + 8) \<longleftrightarrow> e < a + 8" using assms(3) lt by (simp add: word_less_nat_alt del: of_nat_add)
  have s: "(of_nat (a + 8) :: u64) - 0x10 = of_nat (a - 8)" if "8 \<le> a"
    using that by (simp add: of_nat_diff)
  have ge: "8 \<le> a" if "e mod 16 = 0" using that m assms(2) by linarith
  show ?thesis
    unfolding align_entry_sp_def Let_def w o cmp entry_at_def using m2 m ge s by auto
qed

lemma entry_mod:
  assumes "e mod 8 = 0" "8 \<le> e"
  shows "entry_at x86 e mod 16 = (if x86 then 8 else 0)"
proof -
  have "e mod 16 = 0 \<or> e mod 16 = 8" using assms(1) by presburger
  moreover obtain d where d: "e = d + 8" using assms(2) by (metis le_add_diff_inverse2)
  have "(d + 8) mod 16 = 0 \<Longrightarrow> d mod 16 = 8" "(d + 8) mod 16 = 8 \<Longrightarrow> d mod 16 = 0" by presburger+
  ultimately show ?thesis by (auto simp: entry_at_def d)
qed

lemma length_pairs [simp]: "length (concat (map pair_bytes ps)) = 16 * length ps"
  by (induction ps) simp_all

context user_bytes
begin

lemma store_vectors_ok:
  assumes e_def: "e = entry_at (xe_x86 env) (b - (16 * length ps + 8 * (length ss + 3)))" and p: "plain v" and b: "b mod 16 = 0" "16 * length ps + 8 * (length ss + 3) + 8 \<le> b" "b < space_size"
    and o: "\<forall>n. e \<le> n \<and> n < b \<longrightarrow> ok v (of_nat n)"
  shows "\<exists>v'. store_vectors core env (of_nat b) ps (of_nat s) ss v = (Some (of_nat e, of_nat (e + 8)), v') \<and> plain v' \<and> ok v' = ok v
    \<and> written e (concat (map le_bytes (of_nat (length ss) # string_ptrs s ss @ [0, 0])) @ concat (map pair_bytes ps)) (um v) (um v')"
proof -
  define E where "E = b - (16 * length ps + 8 * (length ss + 3))"
  define n where "n = length ss"
  have E: "b = E + 16 * length ps + 8 * (n + 3)" "8 \<le> E" "E < space_size" using b by (simp_all add: E_def n_def)
  have E8: "E mod 8 = 0" using b(1) E(1) by presburger
  have eE: "e = entry_at (xe_x86 env) E" by (simp add: e_def E_def)
  have ee: "e = E \<or> e = E - 8" by (simp add: eE entry_at_def)
  have le: "e \<le> E" using ee by auto
  have entry: "(of_nat b :: u64) - (of_nat (length ps * 2 * 8) + (8 + of_nat ((n + 1) * 8) + 8)) = of_nat E"
    by (simp add: E(1))
  note A = align_entry [OF E8 E(2,3), of env, folded eE]
  have sp1: "(if (of_nat e :: u64) < of_nat E then (of_nat b :: u64) - (of_nat E - of_nat e) else of_nat b) = of_nat (e + 16 * length ps + 8 * (n + 3))"
  proof (cases "e = E")
    case True
    then show ?thesis by (simp add: E(1))
  next
    case False
    then have "e < E" using le by simp
    then have "(of_nat e :: u64) < of_nat E" using E(3) by (simp add: word_less_nat_alt)
    then show ?thesis by (simp add: E(1))
  qed
  have sub: "(of_nat (e + 16 * length ps + 8 * (n + 3)) :: u64) - of_nat (length ps * 2 * 8) = of_nat (e + 8 * (n + 3))"
    "(of_nat (e + 8 * (n + 3)) :: u64) - 8 = of_nat (e + 8 * (n + 2))"
    "(of_nat (e + 8 * (n + 2)) :: u64) - of_nat ((n + 1) * 8) = of_nat (e + 8)" "(of_nat (e + 8) :: u64) - 8 = of_nat e"
    "(of_nat (e + 8) :: u64) + of_nat (n * 8) = of_nat (e + 8 * (n + 1))"
    by simp_all
  have top: "e + 16 * length ps + 8 * (n + 3) \<le> b" using le E(1) by simp
  have o': "ok v (of_nat k)" if "e \<le> k" "k < e + 16 * length ps + 8 * (n + 3)" for k using o that top by simp
  obtain v1 where v1: "store_pairs core (of_nat (e + 8 * (n + 3))) 0 ps v = (True, v1)" "plain v1" "ok v1 = ok v"
    "written (e + 8 * (n + 3)) (concat (map pair_bytes ps)) (um v) (um v1)"
    using store_pairs_ok [OF p, of "e + 8 * (n + 3)" 0 ps] top b(3) o' by auto
  obtain v2 where v2: "exec_store_u64 core (of_nat (e + 8 * (n + 2))) 0 v1 = (True, v2)" "plain v2" "ok v2 = ok v"
    "written (e + 8 * (n + 2)) (le_bytes 0) (um v1) (um v2)"
    using store_word [OF v1(2), of "e + 8 * (n + 2)" 0] v1(3) top b(3) o' by auto
  obtain v3 where v3: "store_argv core (of_nat (e + 8)) 0 (of_nat s) ss v2 = (True, v3)" "plain v3" "ok v3 = ok v"
    "written (e + 8) (concat (map le_bytes (string_ptrs s ss))) (um v2) (um v3)"
    using store_argv_ok [OF v2(2), of "e + 8" 0 ss s] v2(3) top b(3) o' by (auto simp: n_def)
  obtain v4 where v4: "exec_store_u64 core (of_nat (e + 8 * (n + 1))) 0 v3 = (True, v4)" "plain v4" "ok v4 = ok v"
    "written (e + 8 * (n + 1)) (le_bytes 0) (um v3) (um v4)"
    using store_word [OF v3(2), of "e + 8 * (n + 1)" 0] v3(3) top b(3) o' by auto
  obtain v5 where v5: "exec_store_u64 core (of_nat e) (of_nat n) v4 = (True, v5)" "plain v5" "ok v5 = ok v"
    "written e (le_bytes (of_nat n)) (um v4) (um v5)"
    using store_word [OF v4(2), of e "of_nat n"] v4(3) top b(3) o' by auto
  have run: "store_vectors core env (of_nat b) ps (of_nat s) ss v = (Some (of_nat e, of_nat (e + 8)), v5)"
    unfolding store_vectors_def Let_def n_def [symmetric] entry A sp1 sub using v1(1) v2(1) v3(1) v4(1) v5(1) by simp
  have w1: "written (e + 8 * (n + 2)) (le_bytes 0 @ concat (map pair_bytes ps)) (um v) (um v2)"
    by (rule written_prepend [OF _ v2(4)]) (use v1(4) in \<open>simp add: algebra_simps\<close>)
  have w2: "written (e + 8) (concat (map le_bytes (string_ptrs s ss)) @ le_bytes 0) (um v2) (um v4)"
    by (rule written_append [OF v3(4)]) (use v4(4) in \<open>simp add: n_def algebra_simps\<close>)
  have w3: "written (e + 8) ((concat (map le_bytes (string_ptrs s ss)) @ le_bytes 0) @ le_bytes 0 @ concat (map pair_bytes ps)) (um v) (um v4)"
    by (rule written_prepend [OF _ w2]) (use w1 in \<open>simp add: n_def algebra_simps\<close>)
  have "written e (le_bytes (of_nat n) @ (concat (map le_bytes (string_ptrs s ss)) @ le_bytes 0) @ le_bytes 0 @ concat (map pair_bytes ps)) (um v) (um v5)"
    by (rule written_prepend [OF _ v5(4)]) (use w3 in simp)
  then show ?thesis using run v5(2,3) by (auto simp: n_def)
qed

end

subsection \<open>The whole stack\<close>

lemma holds_bytes_append: "holds_bytes m a (xs @ ys) \<longleftrightarrow> holds_bytes m a xs \<and> holds_bytes m (a + length xs) ys"
proof
  assume h: "holds_bytes m a (xs @ ys)"
  have "m (of_nat (a + length xs + i)) = ys ! i" if "i < length ys" for i
    using h that unfolding holds_bytes_def by (auto simp: add.assoc nth_append dest!: spec [of _ "length xs + i"] simp del: of_nat_add)
  then show "holds_bytes m a xs \<and> holds_bytes m (a + length xs) ys"
    using h unfolding holds_bytes_def by (auto simp: nth_append dest!: spec simp del: of_nat_add)
next
  assume h: "holds_bytes m a xs \<and> holds_bytes m (a + length xs) ys"
  have "m (of_nat (a + i)) = (xs @ ys) ! i" if "i < length (xs @ ys)" for i
  proof (cases "i < length xs")
    case True
    then show ?thesis using h unfolding holds_bytes_def by (simp add: nth_append del: of_nat_add)
  next
    case False
    then have "i - length xs < length ys" using that by simp
    with h have "m (of_nat (a + length xs + (i - length xs))) = ys ! (i - length xs)" unfolding holds_bytes_def by blast
    moreover have "a + length xs + (i - length xs) = a + i" using False by simp
    ultimately show ?thesis using False by (simp only: nth_append if_False)
  qed
  then show "holds_bytes m a (xs @ ys)" unfolding holds_bytes_def by blast
qed

lemma strings_size_simps [simp]:
  "strings_size [] = 0" "strings_size (s # ss) = length s + 1 + strings_size ss" "strings_size (ss @ tt) = strings_size ss + strings_size tt"
  by (simp_all add: strings_size_def)

lemma length_strings [simp]: "length (concat (map (\<lambda>s. s @ [0]) ss)) = strings_size ss"
  by (induction ss) simp_all

lemma holds_strings:
  assumes "holds_bytes m a (concat (map (\<lambda>s. s @ [0]) (ss @ tt)))" "a + strings_size (ss @ tt) \<le> space_size" "i < length ss"
  shows "holds_bytes m (unat (string_ptrs a ss ! i)) (ss ! i @ [0])"
  using assms
proof (induction ss arbitrary: a i)
  case (Cons s ss)
  have "holds_bytes m a ((s @ [0]) @ concat (map (\<lambda>s. s @ [0]) (ss @ tt)))" using Cons.prems(1) by simp
  from this [unfolded holds_bytes_append [of m a "s @ [0]"]]
  have h: "holds_bytes m a (s @ [0])" "holds_bytes m (a + (length s + 1)) (concat (map (\<lambda>s. s @ [0]) (ss @ tt)))" by simp_all
  show ?case
  proof (cases i)
    case 0
    have "a < space_size" using Cons.prems(2) by simp
    then show ?thesis using 0 h(1) by simp
  next
    case (Suc j)
    have "holds_bytes m (unat (string_ptrs (a + (length s + 1)) ss ! j)) (ss ! j @ [0])"
      by (rule Cons.IH [OF h(2)]) (use Cons.prems(2,3) Suc in simp_all)
    then show ?thesis using Suc by simp
  qed
qed simp

lemma string_ptrs_range:
  assumes "a + strings_size ss \<le> space_size" "i < length ss"
  shows "a \<le> unat (string_ptrs a ss ! i) \<and> unat (string_ptrs a ss ! i) + length (ss ! i) < a + strings_size ss"
  using assms
proof (induction ss arbitrary: a i)
  case (Cons s ss)
  show ?case
  proof (cases i)
    case 0
    have "a < space_size" using Cons.prems(1) by simp
    then show ?thesis using 0 by simp
  next
    case (Suc j)
    then show ?thesis using Cons.IH [of "a + (length s + 1)" j] Cons.prems by simp
  qed
qed simp

lemma length_auxv: "length (linux_exec_auxv_fill_pairs env auxv r x LINUX_EXEC_AUXV_MAX_PAIRS) \<le> 15"
  by (simp add: linux_exec_auxv_fill_pairs_def Let_def auxv_push_def)

lemma nat_align:
  assumes "k \<le> t" "t < space_size"
  shows "((of_nat t :: u64) - of_nat k) AND NOT 0xF = of_nat ((t - k) div 16 * 16)"
proof -
  have lt: "t - k < space_size" "(t - k) div 16 * 16 < space_size" using assms(2) by simp_all
  have "(of_nat t :: u64) - of_nat k = of_nat (t - k)" using assms(1) by (simp add: of_nat_diff)
  then have "unat (((of_nat t :: u64) - of_nat k) AND NOT 0xF) = (t - k) div 16 * 16"
    using and_not_15 [of "(of_nat t :: u64) - of_nat k"] unat_nat [OF lt(1)] by (simp only:)
  then show ?thesis using unat_nat [OF lt(2)] by (simp only: word_unat_eq_iff)
qed

lemma length_random [simp]: "length (fst (linux_exec_fill_random16 env r rng)) = 16"
  by (simp add: linux_exec_fill_random16_def Let_def)

text \<open>What a program finds: its stack pointer, the vectors above it, the strings, the random bytes.\<close>

definition initial_stack :: "exec_env \<Rightarrow> u8 list list \<Rightarrow> u8 list option \<Rightarrow> linux_exec_elf_auxv \<Rightarrow> u64 \<Rightarrow> nat \<Rightarrow> (u64 \<Rightarrow> u8) \<Rightarrow> nat \<Rightarrow> bool" where
  "initial_stack env kargv execfn auxv rng t m sp \<longleftrightarrow>
     sp mod 16 = (if xe_x86 env then 8 else 0) \<and> sp + 8 * (length kargv + 3) \<le> t
     \<and> (\<exists>ptrs r x. length ptrs = length kargv
         \<and> holds_bytes m sp (concat (map le_bytes (of_nat (length kargv) # ptrs @ [0, 0]))
             @ concat (map pair_bytes (linux_exec_auxv_fill_pairs env auxv r x LINUX_EXEC_AUXV_MAX_PAIRS)))
         \<and> (\<forall>i < length kargv. holds_bytes m (unat (ptrs ! i)) (kargv ! i @ [0]) \<and> sp < unat (ptrs ! i) \<and> unat (ptrs ! i) + length (kargv ! i) < t)
         \<and> (kargv \<noteq> [] \<longrightarrow> t < unat (ptrs ! 0) + strings_size (kargv @ (case execfn of None \<Rightarrow> [] | Some s \<Rightarrow> [s])) + 16)
         \<and> (case execfn of None \<Rightarrow> x = 0 | Some s \<Rightarrow> holds_bytes m (unat x) (s @ [0]))
         \<and> (have_elf auxv \<longrightarrow> holds_bytes m (unat r) (fst (linux_exec_fill_random16 env r rng))))"

context user_bytes
begin

lemma build_ok:
  assumes p: "plain v" and room: "strings_size (kargv @ (case execfn of None \<Rightarrow> [] | Some s \<Rightarrow> [s])) + 8 * length kargv + 400 \<le> t" "t < space_size"
    and o: "\<forall>n. t - (strings_size (kargv @ (case execfn of None \<Rightarrow> [] | Some s \<Rightarrow> [s])) + 8 * length kargv + 400) \<le> n \<and> n < t \<longrightarrow> ok v (of_nat n)"
  shows "\<exists>sp rng' v'. linux_exec_build_initial_stack core env (of_nat t) kargv execfn auxv rng v = (Some (of_nat sp, of_nat (sp + 8)), rng', v')
    \<and> plain v' \<and> ok v' = ok v \<and> initial_stack env kargv execfn auxv rng t (um v') sp \<and> 8 \<le> sp
    \<and> t \<le> sp + strings_size (kargv @ (case execfn of None \<Rightarrow> [] | Some s \<Rightarrow> [s])) + 8 * length kargv + 400
    \<and> (\<forall>n < space_size. n < sp \<or> t \<le> n \<longrightarrow> um v' (of_nat n) = um v (of_nat n))"
proof -
  define rest where "rest = (case execfn of None \<Rightarrow> [] | Some s \<Rightarrow> [s])"
  define z where "z = strings_size (kargv @ rest)"
  define s where "s = (t - z) div 16 * 16"
  define b where "b = (if have_elf auxv then s - 16 else s)"
  define x where "x = (case execfn of None \<Rightarrow> 0 | Some f \<Rightarrow> (of_nat s + of_nat (strings_size kargv) :: u64))"
  define r where "r = (if have_elf auxv then of_nat b else (0 :: u64))"
  define ps where "ps = linux_exec_auxv_fill_pairs env auxv r x LINUX_EXEC_AUXV_MAX_PAIRS"
  define e where "e = entry_at (xe_x86 env) (b - (16 * length ps + 8 * (length kargv + 3)))"
  note room = room [folded rest_def z_def] and o = o [folded rest_def z_def]
  have zt: "z \<le> t" using room(1) by simp
  have lp: "length ps \<le> 15" by (simp add: ps_def length_auxv)
  have s_lo: "t < s + z + 16" "s + z \<le> t" using zt by (simp_all add: s_def)
  have s16: "s mod 16 = 0" by (simp add: s_def)
  have b16: "b mod 16 = 0" "b \<le> s" "s \<le> b + 16" using s16 s_lo room(1) unfolding b_def by (auto simp: mod_diff_right_eq)
  have d: "8 * (length kargv + 3) = 8 * length kargv + 24" by simp
  have b_room: "16 * length ps + 8 * (length kargv + 3) + 8 \<le> b" using lp b16(3) s_lo(1) room(1) unfolding d by linarith
  have e_lo: "b \<le> e + 16 * length ps + 8 * (length kargv + 3) + 8" "e + 16 * length ps + 8 * (length kargv + 3) \<le> b"
    using b_room unfolding e_def entry_at_def by auto
  have e8: "8 \<le> e" using e_lo lp b16(3) s_lo(1) room(1) unfolding d by linarith
  have e_t: "t \<le> e + z + 8 * length kargv + 400" using e_lo(1) lp b16(3) s_lo(1) unfolding d by linarith
  have ok': "ok v (of_nat n)" if "e \<le> n" "n < t" for n using o that e_t by auto
  have str: "((of_nat t :: u64) - of_nat z) AND NOT 0xF = of_nat s" using nat_align [OF zt room(2)] by (simp only: s_def)
  obtain v1 where v1: "store_strings core (of_nat s) (kargv @ rest) v = (True, v1)" "plain v1" "ok v1 = ok v"
    "written s (concat (map (\<lambda>s. s @ [0]) (kargv @ rest))) (um v) (um v1)"
    using store_strings_ok [OF p, of s "kargv @ rest"] ok' s_lo(2) room(2) b16(2) e_lo(2) unfolding z_def by auto
  define rb where "rb = (if have_elf auxv then fst (linux_exec_fill_random16 env r rng) else [])"
  define rng' where "rng' = (if have_elf auxv then snd (linux_exec_fill_random16 env r rng) else rng)"
  have lrb: "b + length rb = s" using s16 s_lo room(1) by (auto simp: rb_def b_def)
  obtain v2 where v2: "if have_elf auxv then user_store core (of_nat b) rb v1 = (MM_OK, v2) else v2 = v1" "plain v2" "ok v2 = ok v" "written b rb (um v1) (um v2)"
  proof (cases "have_elf auxv")
    case True
    then have "b < space_size" "length rb < space_size" using lrb s_lo(2) room(2) by (simp_all add: rb_def)
    then show ?thesis using that store_bytes [OF v1(2), of b rb] v1(3) lrb s_lo(2) room(2) ok' e_lo(2) True by auto
  next
    case False
    then show ?thesis using that [of v1] v1(2,3) by (simp add: rb_def)
  qed
  have eok: "\<forall>n. e \<le> n \<and> n < b \<longrightarrow> ok v2 (of_nat n)" using ok' v2(3) b16(2) s_lo(2) by auto
  have bt: "b < space_size" using b16(2) s_lo(2) room(2) by linarith
  obtain v3 where v3: "store_vectors core env (of_nat b) ps (of_nat s) kargv v2 = (Some (of_nat e, of_nat (e + 8)), v3)" "plain v3" "ok v3 = ok v2"
    "written e (concat (map le_bytes (of_nat (length kargv) # string_ptrs s kargv @ [0, 0])) @ concat (map pair_bytes ps)) (um v2) (um v3)"
    using store_vectors_ok [OF e_def v2(2) b16(1) b_room bt eok, of s] by blast
  have run: "linux_exec_build_initial_stack core env (of_nat t) kargv execfn auxv rng v = (Some (of_nat e, of_nat (e + 8)), rng', v3)"
  proof (cases "have_elf auxv")
    case True
    have ra: "((of_nat s :: u64) - 16) AND NOT 0xF = of_nat b"
    proof -
      have "16 \<le> s" "s < space_size" using s_lo room by linarith+
      note A = nat_align [OF this]
      have "(s - 16) div 16 * 16 = b" using b16(1) True by (simp add: b_def mod_0_imp_dvd)
      then show ?thesis using A by (simp only: of_nat_numeral)
    qed
    show ?thesis
      unfolding linux_exec_build_initial_stack_def Let_def rest_def [symmetric] z_def [symmetric] str x_def [symmetric] ra
      using v1(1) True v2(1) v3(1) lrb b16 by (auto simp: ps_def rb_def r_def rng'_def linux_mm_store_to_user_def split: prod.split)
  next
    case False
    then have "b = s" "r = 0" "v2 = v1" "rng' = rng" using v2(1) by (simp_all add: b_def r_def rng'_def)
    then show ?thesis
      unfolding linux_exec_build_initial_stack_def Let_def rest_def [symmetric] z_def [symmetric] str x_def [symmetric]
      using v1(1) False v3(1) by (simp add: ps_def)
  qed
  have aligned: "e mod 16 = (if xe_x86 env then 8 else 0)"
  proof -
    have "(b - (16 * length ps + 8 * (length kargv + 3))) mod 8 = 0" using b16(1) b_room by presburger
    then show ?thesis unfolding e_def by (rule entry_mod) (use b_room in linarith)
  qed
  define top where "top = concat (map le_bytes (of_nat (length kargv) # string_ptrs s kargv @ [0, 0])) @ concat (map pair_bytes ps)"
  have ltop: "length top = 16 * length ps + 8 * (length kargv + 3)" by (simp add: top_def)
  have below: "e + length top \<le> b" using e_lo(2) ltop by simp
  have h1: "holds_bytes (um v1) s (concat (map (\<lambda>s. s @ [0]) (kargv @ rest)))"
    by (rule written_holds [OF v1(4)]) (use s_lo(2) room(2) in \<open>simp add: z_def\<close>)
  have "holds_bytes (um v2) s (concat (map (\<lambda>s. s @ [0]) (kargv @ rest)))"
    by (rule written_keeps [OF h1 v2(4)]) (use lrb s_lo(2) room(2) in \<open>simp_all add: z_def\<close>)
  then have h: "holds_bytes (um v3) s (concat (map (\<lambda>s. s @ [0]) (kargv @ rest)))"
    by (rule written_keeps [OF _ v3(4) [folded top_def]]) (use below b16(2) s_lo(2) room(2) in \<open>simp_all add: z_def\<close>)
  have hr: "holds_bytes (um v3) b rb"
    by (rule written_keeps [OF written_holds [OF v2(4)] v3(4) [folded top_def]]) (use below lrb s_lo(2) room(2) in simp_all)
  have hv: "holds_bytes (um v3) e top"
    by (rule written_holds [OF v3(4) [folded top_def]]) (use below bt in simp)
  have size: "s + strings_size (kargv @ rest) \<le> space_size" using s_lo(2) room(2) by (simp add: z_def)
  have inside: "e + 8 * (length kargv + 3) \<le> t" using e_lo(2) b16(2) s_lo(2) by linarith
  have "initial_stack env kargv execfn auxv rng t (um v3) e"
    unfolding initial_stack_def
  proof (rule conjI, rule aligned, rule conjI, rule inside, rule exI [of _ "string_ptrs s kargv"], rule exI [of _ r], rule exI [of _ x], intro conjI allI impI)
    fix i assume i: "i < length kargv"
    then show "holds_bytes (um v3) (unat (string_ptrs s kargv ! i)) (kargv ! i @ [0])" by (rule holds_strings [OF h size])
    have "s \<le> unat (string_ptrs s kargv ! i)" "unat (string_ptrs s kargv ! i) + length (kargv ! i) < s + strings_size kargv"
      using string_ptrs_range [OF _ i, of s] size by simp_all
    then show "e < unat (string_ptrs s kargv ! i)" "unat (string_ptrs s kargv ! i) + length (kargv ! i) < t"
      using e_lo(2) b16(2) s_lo(2) unfolding z_def by simp_all
  next
    assume "kargv \<noteq> []"
    then have "unat (string_ptrs s kargv ! 0) = s" using size by (cases kargv) simp_all
    then show "t < unat (string_ptrs s kargv ! 0) + strings_size (kargv @ (case execfn of None \<Rightarrow> [] | Some s \<Rightarrow> [s])) + 16"
      using s_lo(1) unfolding z_def rest_def by simp
  next
    show "case execfn of None \<Rightarrow> x = 0 | Some s \<Rightarrow> holds_bytes (um v3) (unat x) (s @ [0])"
    proof (cases execfn)
      case (Some f)
      have rest: "rest = [f]" by (simp add: rest_def Some)
      have "holds_bytes (um v3) s (concat (map (\<lambda>s. s @ [0]) kargv) @ (f @ [0]))" using h by (simp add: rest)
      then have "holds_bytes (um v3) (s + strings_size kargv) (f @ [0])" unfolding holds_bytes_append by simp
      moreover have "unat x = s + strings_size kargv"
        using size unat_nat [of "s + strings_size kargv"] by (simp add: x_def Some rest)
      ultimately show ?thesis by (simp add: Some)
    qed (simp add: x_def)
  next
    assume "have_elf auxv"
    then show "holds_bytes (um v3) (unat r) (fst (linux_exec_fill_random16 env r rng))" using hr bt by (simp add: rb_def r_def)
  qed (use hv in \<open>simp_all add: top_def ps_def\<close>)
  moreover have "um v3 (of_nat n) = um v (of_nat n)" if "n < space_size" "n < e \<or> t \<le> n" for n
    using written_at [OF v3(4) [folded top_def] that(1)] written_at [OF v2(4) that(1)] written_at [OF v1(4) that(1)] that(2) below lrb s_lo(2)
    by (auto simp: z_def)
  ultimately show ?thesis using run v3(2,3) v2(3) e8 e_t unfolding rest_def z_def
    by (intro exI [of _ e] exI [of _ rng'] exI [of _ v3] conjI allI impI) simp_all
qed

end

section \<open>Reading the arguments of an exec\<close>

context user_bytes
begin

lemma load_nat:
  assumes "plain v" "\<forall>k. a \<le> k \<and> k < a + n \<longrightarrow> ok v (of_nat k)"
  shows "user_load core v (of_nat a) n = Inr (map (\<lambda>i. um v (of_nat (a + i))) [0..<n])"
  using load_ok [OF assms(1), of n "of_nat a"] assms(2) by (simp add: of_nat_add [symmetric] del: of_nat_add)

lemma load_holds:
  assumes "plain v" "\<forall>k. a \<le> k \<and> k < a + length bs \<longrightarrow> ok v (of_nat k)" "holds_bytes (um v) a bs"
  shows "user_load core v (of_nat a) (length bs) = Inr bs"
proof -
  have "map (\<lambda>i. um v (of_nat (a + i))) [0..<length bs] = bs"
    using assms(3) by (intro nth_equalityI) (simp_all add: holds_bytes_def del: of_nat_add)
  then show ?thesis using load_nat [OF assms(1,2)] by simp
qed

lemma load_arg:
  assumes p: "plain v" and o: "\<forall>k. a \<le> k \<and> k < a + 256 \<longrightarrow> ok v (of_nat k)" and h: "holds_bytes (um v) a (s @ [0])"
    and s: "length s < 255" "0 \<notin> set s"
  shows "\<exists>buf. user_load core v (of_nat a) 256 = Inr buf \<and> exec_arg_string_valid (buf[255 := 0]) \<and> takeWhile (\<lambda>b. b \<noteq> 0) (buf[255 := 0]) = s"
proof -
  define buf where "buf = map (\<lambda>i. um v (of_nat (a + i))) [0..<256]"
  have b: "buf ! i = (s @ [0]) ! i" if "i \<le> length s" for i
    using h s(1) that unfolding holds_bytes_def buf_def by (simp del: of_nat_add)
  have len: "length buf = 256" by (simp add: buf_def)
  have lt: "length s < length (buf[255 := 0])" using s(1) len by simp
  have zero: "buf[255 := 0] ! length s = 0" using b [of "length s"] s(1) len by (simp add: nth_list_update)
  have "take (length s) (buf[255 := 0]) = s"
    by (rule nth_equalityI) (use b s(1) len in \<open>simp_all add: nth_list_update nth_append\<close>)
  then have split: "buf[255 := 0] = s @ drop (length s) (buf[255 := 0])" by (metis append_take_drop_id)
  have d: "drop (length s) (buf[255 := 0]) = 0 # drop (Suc (length s)) (buf[255 := 0])"
    using Cons_nth_drop_Suc [OF lt] zero by simp
  have "takeWhile (\<lambda>b. b \<noteq> 0) (s @ 0 # drop (Suc (length s)) (buf[255 := 0])) = s"
    by (rule takeWhile_append_stop) (use s(2) in auto)
  then have "takeWhile (\<lambda>b. b \<noteq> 0) (buf[255 := 0]) = s" using split d by simp
  moreover have "exec_arg_string_valid (buf[255 := 0])" unfolding exec_arg_string_valid_def
    using zero lt unfolding list_ex_length by blast
  ultimately show ?thesis using load_nat [OF p o] by (simp add: buf_def)
qed

lemma copy_loop_ok:
  assumes p: "plain v" and h: "holds_bytes (um v) a (concat (map le_bytes (ptrs @ [0])))"
    and o: "\<forall>k. a \<le> k \<and> k < a + 8 * (length ptrs + 1) \<longrightarrow> ok v (of_nat k)"
    and args: "\<forall>i < length ptrs. ptrs ! i \<noteq> 0 \<and> holds_bytes (um v) (unat (ptrs ! i)) (ss ! i @ [0]) \<and> length (ss ! i) < 255 \<and> 0 \<notin> set (ss ! i)
      \<and> (\<forall>k. unat (ptrs ! i) \<le> k \<and> k < unat (ptrs ! i) + 256 \<longrightarrow> ok v (of_nat k))"
    and len: "length ss = length ptrs" "i \<le> length ptrs" "length ptrs \<le> i + n"
  shows "copy_argv_loop core v (of_nat a) i n (take i ss) = Inr ss"
  using len(2,3)
proof (induction n arbitrary: i)
  case 0
  then show ?case using len(1) by simp
next
  case (Suc n)
  have entry: "user_load core v (of_nat a + of_nat (i * 8)) 8 = Inr (le_bytes ((ptrs @ [0]) ! i))"
  proof -
    have "concat (map le_bytes (ptrs @ [0])) = concat (map le_bytes (take i (ptrs @ [0]))) @ le_bytes ((ptrs @ [0]) ! i) @ concat (map le_bytes (drop (Suc i) (ptrs @ [0])))"
      (is "_ = ?r")
    proof -
      have lt: "i < length (ptrs @ [0])" using Suc.prems(1) by simp
      have "concat (map le_bytes (ptrs @ [0])) = concat (map le_bytes (take i (ptrs @ [0]) @ (ptrs @ [0]) ! i # drop (Suc i) (ptrs @ [0])))"
        by (simp only: id_take_nth_drop [OF lt, symmetric])
      also have "\<dots> = ?r" by (simp only: map_append list.map concat_append concat.simps)
      finally show ?thesis .
    qed
    then have "holds_bytes (um v) (a + 8 * i) (le_bytes ((ptrs @ [0]) ! i))"
      using h Suc.prems(1) by (simp add: holds_bytes_append min_def split: if_splits)
    moreover have "\<forall>k. a + 8 * i \<le> k \<and> k < a + 8 * i + length (le_bytes ((ptrs @ [0]) ! i)) \<longrightarrow> ok v (of_nat k)" using o Suc.prems(1) by simp
    ultimately have "user_load core v (of_nat (a + 8 * i)) 8 = Inr (le_bytes ((ptrs @ [0]) ! i))" using load_holds [OF p] by fastforce
    then show ?thesis by (simp add: mult.commute)
  qed
  show ?case
  proof (cases "i = length ptrs")
    case True
    then show ?thesis using entry len(1) by (simp add: linux_mm_load_from_user_def)
  next
    case False
    then have i: "i < length ptrs" using Suc.prems(1) by simp
    then have A: "ptrs ! i \<noteq> 0" "holds_bytes (um v) (unat (ptrs ! i)) (ss ! i @ [0])" "length (ss ! i) < 255" "0 \<notin> set (ss ! i)"
      "\<forall>k. unat (ptrs ! i) \<le> k \<and> k < unat (ptrs ! i) + 256 \<longrightarrow> ok v (of_nat k)" using args by auto
    obtain buf where b: "user_load core v (ptrs ! i) 256 = Inr buf" "exec_arg_string_valid (buf[255 := 0])" "takeWhile (\<lambda>b. b \<noteq> 0) (buf[255 := 0]) = ss ! i"
      using load_arg [OF p A(5,2,3,4)] by auto
    have "take i ss @ [ss ! i] = take (i + 1) ss" using i len(1) by (simp add: take_Suc_conv_app_nth)
    then show ?thesis using entry b A(1) i Suc.IH [of "i + 1"] Suc.prems by (simp add: linux_mm_load_from_user_def nth_append)
  qed
qed

end

context user_bytes
begin

text \<open>The argument vector of a fresh stack.\<close>

lemma stack_argv:
  assumes "initial_stack env kargv execfn auxv rng t m sp"
  shows "\<exists>ptrs. length ptrs = length kargv \<and> holds_bytes m (sp + 8) (concat (map le_bytes (ptrs @ [0])))
    \<and> (\<forall>i < length kargv. holds_bytes m (unat (ptrs ! i)) (kargv ! i @ [0]) \<and> sp < unat (ptrs ! i) \<and> unat (ptrs ! i) + length (kargv ! i) < t)
    \<and> (kargv \<noteq> [] \<longrightarrow> t < unat (ptrs ! 0) + strings_size (kargv @ (case execfn of None \<Rightarrow> [] | Some s \<Rightarrow> [s])) + 16)"
proof -
  obtain ptrs ps where P: "length ptrs = length kargv" "holds_bytes m sp (concat (map le_bytes (of_nat (length kargv) # ptrs @ [0, 0])) @ ps)"
    "\<forall>i < length kargv. holds_bytes m (unat (ptrs ! i)) (kargv ! i @ [0]) \<and> sp < unat (ptrs ! i) \<and> unat (ptrs ! i) + length (kargv ! i) < t"
    "kargv \<noteq> [] \<longrightarrow> t < unat (ptrs ! 0) + strings_size (kargv @ (case execfn of None \<Rightarrow> [] | Some s \<Rightarrow> [s])) + 16"
    using assms unfolding initial_stack_def by blast
  have "holds_bytes m sp (le_bytes (of_nat (length kargv)) @ concat (map le_bytes (ptrs @ [0])) @ le_bytes 0 @ ps)" using P(2) by simp
  then have "holds_bytes m (sp + 8) (concat (map le_bytes (ptrs @ [0])))" unfolding holds_bytes_append by simp
  then show ?thesis using P by blast
qed

lemma argv_roundtrip:
  assumes p: "plain v" and room: "strings_size (kargv @ (case execfn of None \<Rightarrow> [] | Some s \<Rightarrow> [s])) + 8 * length kargv + 400 \<le> t" "t + 256 < space_size"
    and o: "\<forall>n. t - (strings_size (kargv @ (case execfn of None \<Rightarrow> [] | Some s \<Rightarrow> [s])) + 8 * length kargv + 400) \<le> n \<and> n < t + 256 \<longrightarrow> ok v (of_nat n)"
    and args: "\<forall>s \<in> set kargv. length s < 255 \<and> 0 \<notin> set s" "length kargv \<le> 128"
    and run: "linux_exec_build_initial_stack core env (of_nat t) kargv execfn auxv rng v = (Some (sp, area), rng', v')"
  shows "linux_exec_copy_argv_from_user core v' area = Inr kargv"
proof -
  have t: "t < space_size" using room(2) by simp
  have "\<forall>n. t - (strings_size (kargv @ (case execfn of None \<Rightarrow> [] | Some s \<Rightarrow> [s])) + 8 * length kargv + 400) \<le> n \<and> n < t \<longrightarrow> ok v (of_nat n)"
    using o by simp
  from build_ok [OF p room(1) t this, of env auxv rng] run
  obtain q where q: "area = of_nat (q + 8)" "plain v'" "ok v' = ok v" "initial_stack env kargv execfn auxv rng t (um v') q" "8 \<le> q"
    "t \<le> q + strings_size (kargv @ (case execfn of None \<Rightarrow> [] | Some s \<Rightarrow> [s])) + 8 * length kargv + 400"
    by auto
  obtain ptrs where P: "length ptrs = length kargv" "holds_bytes (um v') (q + 8) (concat (map le_bytes (ptrs @ [0])))"
    "\<forall>i < length kargv. holds_bytes (um v') (unat (ptrs ! i)) (kargv ! i @ [0]) \<and> q < unat (ptrs ! i) \<and> unat (ptrs ! i) + length (kargv ! i) < t"
    using stack_argv [OF q(4)] by blast
  have ok': "ok v' (of_nat n)" if "q \<le> n" "n < t + 256" for n using o q(3,6) that by simp
  have vec: "q + 8 + 8 * (length ptrs + 1) \<le> t" using q(4) P(1) unfolding initial_stack_def by simp
  have ptr: "\<forall>i < length ptrs. ptrs ! i \<noteq> 0 \<and> holds_bytes (um v') (unat (ptrs ! i)) (kargv ! i @ [0]) \<and> length (kargv ! i) < 255 \<and> 0 \<notin> set (kargv ! i)
      \<and> (\<forall>k. unat (ptrs ! i) \<le> k \<and> k < unat (ptrs ! i) + 256 \<longrightarrow> ok v' (of_nat k))"
  proof (intro allI impI)
    fix i assume i: "i < length ptrs"
    have I: "holds_bytes (um v') (unat (ptrs ! i)) (kargv ! i @ [0])" "q < unat (ptrs ! i)" "unat (ptrs ! i) + length (kargv ! i) < t"
      using P(3) i P(1) by auto
    have "ptrs ! i \<noteq> 0" using I(2) by auto
    moreover have "length (kargv ! i) < 255 \<and> 0 \<notin> set (kargv ! i)" using args(1) i P(1) by simp
    moreover have "\<forall>k. unat (ptrs ! i) \<le> k \<and> k < unat (ptrs ! i) + 256 \<longrightarrow> ok v' (of_nat k)" using ok' I(2,3) by simp
    ultimately show "ptrs ! i \<noteq> 0 \<and> holds_bytes (um v') (unat (ptrs ! i)) (kargv ! i @ [0]) \<and> length (kargv ! i) < 255 \<and> 0 \<notin> set (kargv ! i)
      \<and> (\<forall>k. unat (ptrs ! i) \<le> k \<and> k < unat (ptrs ! i) + 256 \<longrightarrow> ok v' (of_nat k))" using I(1) by blast
  qed
  have vok: "\<forall>k. q + 8 \<le> k \<and> k < q + 8 + 8 * (length ptrs + 1) \<longrightarrow> ok v' (of_nat k)" using ok' vec by simp
  have loop: "copy_argv_loop core v' (of_nat (q + 8)) 0 128 [] = Inr kargv"
    using copy_loop_ok [OF q(2) P(2) vok ptr, of 0 128] P(1) args(2) by simp
  have extra: "user_load core v' (of_nat (q + 8) + of_nat (128 * 8)) 8 = Inr (le_bytes 0)" if "length kargv = 128"
  proof -
    have "holds_bytes (um v') (q + 8 + 8 * 128) (le_bytes 0)" using P(1,2) that by (simp add: holds_bytes_append)
    moreover have "\<forall>k. q + 8 + 8 * 128 \<le> k \<and> k < q + 8 + 8 * 128 + length (le_bytes 0) \<longrightarrow> ok v' (of_nat k)"
      using vok P(1) that by simp
    ultimately have "user_load core v' (of_nat (q + 8 + 8 * 128)) (length (le_bytes 0)) = Inr (le_bytes 0)" using load_holds [OF q(2)] by blast
    then show ?thesis by simp
  qed
  have nz: "(of_nat (q + 8) :: u64) \<noteq> 0"
  proof -
    have "unat (of_nat (q + 8) :: u64) = q + 8" using vec room(2) by (intro unat_nat) simp
    then show ?thesis by (metis add_is_0 unat_0 zero_neq_numeral)
  qed
  show ?thesis unfolding q(1) linux_exec_copy_argv_from_user_def if_not_P [OF nz] loop
    using extra args(2) by (simp add: linux_mm_load_from_user_def)
qed

end

context user_bytes
begin

lemma argv_fault:
  assumes p: "plain v" and room: "strings_size (kargv @ (case execfn of None \<Rightarrow> [] | Some s \<Rightarrow> [s])) + 8 * length kargv + 400 \<le> t" "t < space_size"
    and o: "\<forall>n. t - (strings_size (kargv @ (case execfn of None \<Rightarrow> [] | Some s \<Rightarrow> [s])) + 8 * length kargv + 400) \<le> n \<and> n < t \<longrightarrow> ok v (of_nat n)"
    and top: "\<not> ok v (of_nat t)" and few: "kargv \<noteq> []" "strings_size (kargv @ (case execfn of None \<Rightarrow> [] | Some s \<Rightarrow> [s])) + 16 \<le> 256"
    and run: "linux_exec_build_initial_stack core env (of_nat t) kargv execfn auxv rng v = (Some (sp, area), rng', v')"
  shows "linux_exec_copy_argv_from_user core v' area = Inl (- LINUX_EFAULT)"
proof -
  from build_ok [OF p room o, of env auxv rng] run
  obtain q where q: "area = of_nat (q + 8)" "plain v'" "ok v' = ok v" "initial_stack env kargv execfn auxv rng t (um v') q"
    "t \<le> q + strings_size (kargv @ (case execfn of None \<Rightarrow> [] | Some s \<Rightarrow> [s])) + 8 * length kargv + 400"
    by auto
  obtain ptrs where P: "length ptrs = length kargv" "holds_bytes (um v') (q + 8) (concat (map le_bytes (ptrs @ [0])))"
    "\<forall>i < length kargv. q < unat (ptrs ! i) \<and> unat (ptrs ! i) + length (kargv ! i) < t" "t < unat (ptrs ! 0) + strings_size (kargv @ (case execfn of None \<Rightarrow> [] | Some s \<Rightarrow> [s])) + 16"
    using stack_argv [OF q(4)] few(1) by blast
  obtain w ws where w: "ptrs = w # ws" using P(1) few(1) by (cases ptrs) auto
  have W: "q < unat w" "unat w < t" "t < unat w + 256" using P(3,4) few w by (auto dest!: spec [of _ 0])
  have inside: "q + 8 * (length kargv + 3) \<le> t" using q(4) unfolding initial_stack_def by blast
  have okq: "ok v' (of_nat n)" if "q \<le> n" "n < t" for n using o q(3,5) that by simp
  have "holds_bytes (um v') (q + 8) (le_bytes w)" using P(2) w by (simp add: holds_bytes_append)
  moreover have "\<forall>k. q + 8 \<le> k \<and> k < q + 8 + length (le_bytes w) \<longrightarrow> ok v' (of_nat k)" using okq inside by simp
  ultimately have l1: "user_load core v' (of_nat (q + 8)) 8 = Inr (le_bytes w)" using load_holds [OF q(2)] by fastforce
  define i where "i = t - unat w"
  have "i < 256" "unat w + i = t" using W by (simp_all add: i_def)
  then have "w + of_nat i = of_nat t" using W(2) room(2) by (simp add: i_def of_nat_diff)
  then have "\<not> ok v' (w + of_nat i)" using top q(3) by simp
  from load_fails [OF q(2) \<open>i < 256\<close> this] obtain e where l2: "user_load core v' w 256 = Inl e" by blast
  have nz: "(of_nat (q + 8) :: u64) \<noteq> 0" "w \<noteq> 0"
  proof -
    have "unat (of_nat (q + 8) :: u64) = q + 8" using inside room(2) by (intro unat_nat) simp
    then show "(of_nat (q + 8) :: u64) \<noteq> 0" by (metis add_is_0 unat_0 zero_neq_numeral)
    show "w \<noteq> 0" using W(1) by auto
  qed
  have "copy_argv_loop core v' (of_nat (q + 8)) 0 (Suc n) [] = Inl (- LINUX_EFAULT)" for n
    using l1 l2 nz(2) by (simp add: linux_mm_load_from_user_def)
  from this [of 127] have loop: "copy_argv_loop core v' (of_nat (q + 8)) 0 128 [] = Inl (- LINUX_EFAULT)" by simp
  show ?thesis unfolding q(1) linux_exec_copy_argv_from_user_def if_not_P [OF nz(1)] loop by simp
qed

end

section \<open>The command line\<close>

text \<open>The words of a text: the maximal runs of characters that are not spaces.\<close>

function words :: "string \<Rightarrow> string list" where
  "words cs = (let rest = dropWhile cmdline_space cs in
     if rest = [] then [] else takeWhile (\<lambda>c. \<not> cmdline_space c) rest # words (dropWhile (\<lambda>c. \<not> cmdline_space c) rest))"
  by pat_completeness auto
termination
proof (relation "measure length", simp)
  fix cs rest :: string
  assume r: "rest = dropWhile cmdline_space cs" "rest \<noteq> []"
  then have "\<not> cmdline_space (hd rest)" by (metis hd_dropWhile)
  then have "length (dropWhile (\<lambda>c. \<not> cmdline_space c) rest) < length rest"
    using r(2) by (cases rest) (simp_all add: length_dropWhile_le less_Suc_eq_le)
  also have "\<dots> \<le> length cs" unfolding r(1) by (rule length_dropWhile_le)
  finally show "(dropWhile (\<lambda>c. \<not> cmdline_space c) rest, cs) \<in> measure length" by simp
qed

declare words.simps [simp del]

lemma words_Nil [simp]: "words [] = []"
  by (subst words.simps) simp

lemma words_space [simp]: "cmdline_space c \<Longrightarrow> words (c # cs) = words cs"
  by (subst (1 2) words.simps) simp

lemma words_word:
  assumes "w \<noteq> []" "\<forall>c \<in> set w. \<not> cmdline_space c" "cmdline_space c"
  shows "words (w @ c # cs) = w # words (c # cs)"
proof -
  have d: "dropWhile cmdline_space (w @ c # cs) = w @ c # cs" using assms(1,2) by (cases w) simp_all
  have t: "takeWhile (\<lambda>c. \<not> cmdline_space c) (w @ c # cs) = w" using assms(2,3) by (intro takeWhile_append_stop) simp_all
  have r: "dropWhile (\<lambda>c. \<not> cmdline_space c) (w @ c # cs) = c # cs" using assms(2,3) by (induction w) simp_all
  show ?thesis by (subst words.simps) (simp add: Let_def d t r del: words_space)
qed

abbreviation cstr :: "string \<Rightarrow> nat \<Rightarrow> string" where
  "cstr buf p \<equiv> takeWhile (\<lambda>c. c \<noteq> CHR 0x00) (drop p buf)"

lemma cut_at: "p \<le> e \<Longrightarrow> e < length b \<Longrightarrow> drop p b = take (e - p) (drop p b) @ b ! e # drop (Suc e) b"
  by (metis Cons_nth_drop_Suc append_take_drop_id drop_drop le_add_diff_inverse2)

lemma takeWhile_stop: "\<not> P c \<Longrightarrow> takeWhile P (xs @ c # ys) = takeWhile P xs"
  by (induction xs) simp_all

lemma cstr_update:
  assumes "p \<le> e" "e < i" "e < length buf" "buf ! e = CHR 0x00"
  shows "cstr (buf[i := c]) p = cstr buf p"
proof -
  have cut: "cstr b p = takeWhile (\<lambda>c. c \<noteq> CHR 0x00) (take (e - p) (drop p b))" if "length b = length buf" "b ! e = CHR 0x00" for b :: string
    using cut_at [of p e b] assms(1,3) that by (metis (mono_tags, lifting) takeWhile_stop)
  have "take (e - p) (drop p (buf[i := c])) = take (e - p) (drop p buf)"
    using assms(1,2) by (simp add: drop_update_swap take_update_cancel)
  then show ?thesis using cut [of buf] cut [of "buf[i := c]"] assms by simp
qed

lemma argv_scan_words:
  assumes "length buf = i + k" "buf \<noteq> []" "last buf = CHR 0x00" "length ptrs \<le> 128"
    and "\<forall>p \<in> set ptrs. \<exists>e. p \<le> e \<and> e < i \<and> buf ! e = CHR 0x00"
    and "case tok of None \<Rightarrow> True | Some p \<Rightarrow> p < i \<and> (\<forall>j. p \<le> j \<and> j < i \<longrightarrow> \<not> cmdline_space (buf ! j))"
    and "argv_scan i k buf ptrs tok = (buf', ptrs')"
  shows "map (cstr buf') ptrs' = take 128 (map (cstr buf) ptrs @ words (drop (case tok of None \<Rightarrow> i | Some p \<Rightarrow> p) buf))"
  using assms
proof (induction k arbitrary: i buf ptrs tok)
  case 0
  have sp: "cmdline_space (buf ! (i - 1))" using "0.prems"(1-3) by (simp add: last_conv_nth cmdline_space_def)
  have "tok = None"
  proof (cases tok)
    case (Some p)
    then have "p \<le> i - 1 \<and> i - 1 < i \<longrightarrow> \<not> cmdline_space (buf ! (i - 1))" "p < i" using "0.prems"(6) by simp_all
    then show ?thesis using sp by linarith
  qed
  then show ?case using "0.prems" by simp
next
  case (Suc k)
  note P = Suc.prems
  have i: "i < length buf" using P(1) by simp
  have len1: "length buf = i + 1 + k" using P(1) by simp
  have here: "drop i buf = buf ! i # drop (i + 1) buf" using i by (simp add: Cons_nth_drop_Suc)
  have keep: "\<forall>p \<in> set ptrs. \<exists>e. p \<le> e \<and> e < i + 1 \<and> buf ! e = CHR 0x00" using P(5) by (meson less_SucI less_Suc_eq Suc_eq_plus1 trans_less_add1)
  show ?case
  proof (cases "cmdline_space (buf ! i)")
    case sp: True
    show ?thesis
    proof (cases tok)
      case None
      have "argv_scan (i + 1) k buf ptrs None = (buf', ptrs')" using P(7) sp None by simp
      from Suc.IH [OF len1 P(2-4) keep _ this] show ?thesis using here sp None by simp
    next
      case (Some p)
      define b where "b = buf[i := CHR 0x00]"
      define ps where "ps = (if length ptrs < 128 then ptrs @ [p] else ptrs)"
      define w where "w = take (i - p) (drop p buf)"
      have tk: "p < i" "\<forall>j. p \<le> j \<and> j < i \<longrightarrow> \<not> cmdline_space (buf ! j)" using P(6) Some by simp_all
      have wn: "w \<noteq> []" using tk(1) i by (simp add: w_def)
      have wc: "\<forall>c \<in> set w. \<not> cmdline_space c" unfolding w_def using tk i by (auto simp: in_set_conv_nth)
      have cut: "drop p buf = w @ buf ! i # drop (i + 1) buf"
        using cut_at [of p i buf] tk(1) i by (simp add: w_def)
      have len: "length b = i + 1 + k" "b \<noteq> []" "last b = CHR 0x00" "b ! i = CHR 0x00" "i < length b" "length ps \<le> 128"
        using P(1-4) i by (auto simp: b_def ps_def last_conv_nth nth_list_update)
      have "take (i - p) (drop p b) = w" using tk(1) by (simp add: w_def b_def drop_update_swap take_update_cancel)
      then have cb: "drop p b = w @ CHR 0x00 # drop (i + 1) b" using cut_at [of p i b] tk(1) len(4,5) by simp
      have cw: "cstr b p = w" unfolding cb using wc by (intro takeWhile_append_stop) (auto simp: cmdline_space_def)
      have old: "cstr b q = cstr buf q" if q: "q \<in> set ptrs" for q
      proof -
        obtain e where "q \<le> e" "e < i" "buf ! e = CHR 0x00" using P(5) q by blast
        then show ?thesis unfolding b_def using i by (intro cstr_update) auto
      qed
      have "\<exists>e. q \<le> e \<and> e < i + 1 \<and> b ! e = CHR 0x00" if q: "q \<in> set ps" for q
      proof (cases "q \<in> set ptrs")
        case True
        then obtain e where "q \<le> e" "e < i" "buf ! e = CHR 0x00" using P(5) by blast
        then show ?thesis by (intro exI [of _ e]) (simp add: b_def nth_list_update)
      next
        case False
        then show ?thesis using q tk(1) len(4) by (intro exI [of _ i]) (auto simp: ps_def split: if_splits)
      qed
      then have ends: "\<forall>q \<in> set ps. \<exists>e. q \<le> e \<and> e < i + 1 \<and> b ! e = CHR 0x00" by blast
      have "argv_scan (i + 1) k b ps None = (buf', ptrs')" using P(7) sp Some by (simp add: b_def ps_def)
      from Suc.IH [OF len(1-3,6) ends _ this]
      have R: "map (cstr buf') ptrs' = take 128 (map (cstr b) ps @ words (drop (i + 1) buf))" by (simp add: b_def)
      have W: "words (drop p buf) = w # words (drop (i + 1) buf)" unfolding cut using words_word [OF wn wc sp] sp by simp
      have M: "map (cstr b) ptrs = map (cstr buf) ptrs" using old by simp
      show ?thesis
      proof (cases "length ptrs < 128")
        case True
        then show ?thesis using R W M cw Some by (simp add: ps_def)
      next
        case False
        then show ?thesis using R W M Some P(4) by (simp add: ps_def)
      qed
    qed
  next
    case nsp: False
    define tok' where "tok' = (case tok of Some p \<Rightarrow> Some p | None \<Rightarrow> Some i)"
    have "argv_scan (i + 1) k buf ptrs tok' = (buf', ptrs')" using P(7) nsp by (simp add: tok'_def)
    moreover have "case tok' of None \<Rightarrow> True | Some p \<Rightarrow> p < i + 1 \<and> (\<forall>j. p \<le> j \<and> j < i + 1 \<longrightarrow> \<not> cmdline_space (buf ! j))"
      using P(6) nsp by (auto simp: tok'_def less_Suc_eq split: option.splits)
    ultimately show ?thesis using Suc.IH [OF len1 P(2-4) keep, of tok'] by (simp add: tok'_def split: option.splits)
  qed
qed

lemma words_snoc: "words (cs @ [CHR 0x00]) = words cs"
proof (induction cs rule: words.induct)
  case (1 cs)
  define rest where "rest = dropWhile cmdline_space cs"
  have z: "cmdline_space (CHR 0x00)" by (simp add: cmdline_space_def)
  show ?case
  proof (cases "rest = []")
    case True
    then have "\<forall>c \<in> set cs. cmdline_space c" by (simp add: rest_def)
    then have "words cs = []" "words (cs @ [CHR 0x00]) = []" using z by (induction cs) simp_all
    then show ?thesis by simp
  next
    case False
    define w where "w = takeWhile (\<lambda>c. \<not> cmdline_space c) rest"
    define r where "r = dropWhile (\<lambda>c. \<not> cmdline_space c) rest"
    have IH: "words (r @ [CHR 0x00]) = words r" using 1 [OF rest_def False] by (simp add: r_def)
    have d: "dropWhile cmdline_space (cs @ [CHR 0x00]) = rest @ [CHR 0x00]"
      using False by (simp add: rest_def dropWhile_append3 dropWhile_eq_Nil_conv dropWhile_append)
    have t: "takeWhile (\<lambda>c. \<not> cmdline_space c) (rest @ [CHR 0x00]) = w"
      unfolding w_def using z by (simp add: takeWhile_stop)
    have e: "dropWhile (\<lambda>c. \<not> cmdline_space c) (rest @ [CHR 0x00]) = r @ [CHR 0x00]"
      unfolding r_def using z by (simp add: dropWhile_append)
    show ?thesis by (subst (1 2) words.simps) (simp add: Let_def d t e IH False rest_def [symmetric] w_def [symmetric] r_def [symmetric])
  qed
qed

section \<open>Replacing the image\<close>

lemma fresh_proc:
  assumes "0x40000000 < KERNEL_VIRT_OFFSET core" "p' = (linux_exec_reset_proc_state core a m p)\<lparr>xp_thread := linux_signal_reset_thread_handler_state t\<rparr>"
  shows "start_brk (xp_mm p') = (if m = 0 \<or> KERNEL_VIRT_OFFSET core \<le> m then 0x40000000 else m)
    \<and> brk (xp_mm p') = start_brk (xp_mm p') \<and> brk (xp_mm p') < KERNEL_VIRT_OFFSET core
    \<and> (\<forall>ps. xp_sig p' = Some ps \<longrightarrow> p_pending ps = 0 \<and> (\<forall>d \<in> set (dispositions ps). linux_signal_handler_is_dfl (sa_handler d) \<or> linux_signal_handler_is_ign (sa_handler d)))
    \<and> (\<forall>ts. xp_thread p' = Some ts \<longrightarrow> ts = linux_signal_init_thread_state)"
proof -
  have "linux_signal_handler_is_dfl (sa_handler (reset_disposition d)) \<or> linux_signal_handler_is_ign (sa_handler (reset_disposition d))" for d
    by (simp add: reset_disposition_def linux_signal_handler_is_dfl_def)
  then have all: "\<forall>d \<in> set (map reset_disposition ds). linux_signal_handler_is_dfl (sa_handler d) \<or> linux_signal_handler_is_ign (sa_handler d)" for ds by simp
  have sig: "p_pending ps = 0 \<and> (\<forall>d \<in> set (dispositions ps). linux_signal_handler_is_dfl (sa_handler d) \<or> linux_signal_handler_is_ign (sa_handler d))"
    if r: "linux_signal_proc_reset a (xp_sig p) = Some ps" for ps
  proof -
    obtain q where "ps = q\<lparr>p_pending := sigemptyset, sigreturn_page := 0, dispositions := map reset_disposition (dispositions q)\<rparr>"
      using r by (auto simp: linux_signal_proc_reset_def split: option.splits)
    then show ?thesis using all [of "dispositions q"] by (simp add: sigemptyset_def del: set_map)
  qed
  have f: "xp_sig p' = linux_signal_proc_reset a (xp_sig p)" "xp_thread p' = linux_signal_reset_thread_handler_state t"
    "xp_mm p' = linux_proc_set_heap_from_elf_load core m (xp_mm p)"
    using assms(2) by (simp_all add: linux_exec_reset_proc_state_def)
  have "start_brk (xp_mm p') = (if m = 0 \<or> KERNEL_VIRT_OFFSET core \<le> m then 0x40000000 else m)"
    "brk (xp_mm p') = start_brk (xp_mm p')" "brk (xp_mm p') < KERNEL_VIRT_OFFSET core"
    unfolding f using assms(1) by (auto simp: linux_proc_set_heap_from_elf_load_def Let_def not_le)
  moreover have "ts = linux_signal_init_thread_state" if "xp_thread p' = Some ts" for ts
    using that unfolding f by (auto simp: linux_signal_reset_thread_handler_state_def)
  ultimately show ?thesis using sig f(1) by simp
qed

text \<open>How a started program has come about, from the address space that the clearing left on.\<close>

definition exec_started ::
  "'v mm_core \<Rightarrow> ('v, 's) exec_core \<Rightarrow> exec_env \<Rightarrow> bool \<Rightarrow> u8 list \<Rightarrow> u8 list list \<Rightarrow> 's \<Rightarrow> exec_proc \<Rightarrow> u64 \<Rightarrow> 'v \<Rightarrow>
    u64 \<Rightarrow> u64 \<Rightarrow> exec_proc \<Rightarrow> u64 \<Rightarrow> 'v \<Rightarrow> bool" where
  "exec_started core xc env a fn ka sl p rng v entry sp p' rng' v' \<longleftrightarrow> (\<exists>m v1 elf usp v2 area.
     load_elf_to_vs xc sl v = (Some m, v1) \<and> elf_slice_view xc sl = Some elf \<and> entry = e_entry elf
     \<and> generate_user_stack xc v1 = (usp, v2)
     \<and> linux_exec_build_initial_stack core env usp ka (Some fn) (linux_exec_elf_auxv_from_kva elf) rng v2 = (Some (sp, area), rng', v') \<and> sp \<noteq> 0
     \<and> p' = (linux_exec_reset_proc_state core a m p)\<lparr>xp_thread := linux_signal_reset_thread_handler_state (xp_thread p)\<rparr>)"

lemma new_image_ok:
  assumes run: "exec_new_image core xc env a fn ka True sl p rng v = (r, p', rng', v')"
  shows "r = EX_FATAL \<and> p' = p \<or> (\<exists>entry sp. r = EX_START entry sp \<and> exec_started core xc env a fn ka sl p rng v entry sp p' rng' v')"
proof -
  have "xp_thread (linux_exec_reset_proc_state core a m p) = xp_thread p" for m by (simp add: linux_exec_reset_proc_state_def)
  then show ?thesis
    using run by (auto simp: exec_new_image_def exec_started_def exec_abort_def Let_def split: option.splits prod.splits if_splits)
qed

text \<open>What an exec of the file \<open>fn\<close> with the arguments \<open>ka\<close> may do.\<close>

definition exec_outcome ::
  "'v mm_core \<Rightarrow> ('v, 's) exec_core \<Rightarrow> exec_env \<Rightarrow> bool \<Rightarrow> u8 list \<Rightarrow> u8 list list \<Rightarrow> exec_proc \<Rightarrow> u64 \<Rightarrow> 'v \<Rightarrow>
    exec_result \<Rightarrow> exec_proc \<Rightarrow> u64 \<Rightarrow> 'v \<Rightarrow> bool" where
  "exec_outcome core xc env a fn ka p rng v r p' rng' v' \<longleftrightarrow> (case r of
     EX_RET e \<Rightarrow> p' = p \<and> rng' = rng \<and> (v' = v \<or> v' = snd (load_elf_slice xc fn v)
       \<or> vspace_clear_user_mappings xc (snd (load_elf_slice xc fn v)) = (CLEAR_RC_UNEQUAL, v'))
   | EX_FATAL \<Rightarrow> p' = p \<and> (\<exists>sl v1. load_elf_slice xc fn v = (Inr sl, v1) \<and> linux_exec_elf_slice_valid xc sl
       \<and> fst (vspace_clear_user_mappings xc v1) \<noteq> CLEAR_RC_UNEQUAL)
   | EX_START entry sp \<Rightarrow> (\<exists>sl v1 v2. load_elf_slice xc fn v = (Inr sl, v1) \<and> linux_exec_elf_slice_valid xc sl
       \<and> vspace_clear_user_mappings xc v1 = (CLEAR_OK, v2) \<and> exec_started core xc env a fn ka sl p rng v2 entry sp p' rng' v'))"

lemma replace_image_ok:
  assumes run: "linux_exec_replace_image core xc env a fn ka True p rng v = (r, p', rng', v')"
  shows "exec_outcome core xc env a fn ka p rng v r p' rng' v'"
proof (cases "128 < length ka \<or> \<not> user_table core v")
  case True
  then show ?thesis using run by (auto simp: linux_exec_replace_image_def exec_outcome_def split: if_splits)
next
  case False
  obtain s v1 where l: "load_elf_slice xc fn v = (s, v1)" by fastforce
  show ?thesis
  proof (cases "\<exists>sl. s = Inr sl \<and> linux_exec_elf_slice_valid xc sl")
    case invalid: False
    then obtain e where "r = EX_RET e" "p' = p" "rng' = rng" "v' = v1" using run False l by (cases s) (auto simp: linux_exec_replace_image_def)
    then show ?thesis using l by (simp add: exec_outcome_def)
  next
    case True
    then obtain sl where sl: "s = Inr sl" "linux_exec_elf_slice_valid xc sl" by blast
    obtain c v2 where c: "vspace_clear_user_mappings xc v1 = (c, v2)" by fastforce
    have R: "(case c of CLEAR_RC_UNEQUAL \<Rightarrow> (EX_RET (- LINUX_EAGAIN), p, rng, v2) | CLEAR_FAILED \<Rightarrow> (EX_FATAL, p, rng, v2)
        | CLEAR_OK \<Rightarrow> exec_new_image core xc env a fn ka True sl p rng v2) = (r, p', rng', v')"
      using run False l sl c by (cases c) (simp_all add: linux_exec_replace_image_def exec_abort_def)
    show ?thesis
    proof (cases c)
      case CLEAR_OK
      then have "exec_new_image core xc env a fn ka True sl p rng v2 = (r, p', rng', v')" using R by simp
      from new_image_ok [OF this] show ?thesis
        by (elim disjE exE conjE) (simp_all add: exec_outcome_def l sl c CLEAR_OK)
    next
      case CLEAR_RC_UNEQUAL
      then show ?thesis using R c l by (auto simp: exec_outcome_def)
    next
      case CLEAR_FAILED
      then show ?thesis using R c l sl by (auto simp: exec_outcome_def)
    qed
  qed
qed

section \<open>Properties\<close>

definition one_page :: mem_view where
  "one_page = \<lparr>utab = True, pte = [3 \<mapsto> (5, 23)], rdx = [3 \<mapsto> 23], refs = (\<lambda>p. 0)(5 := 1), frames = (\<lambda>p i. 0), held = []\<rparr>"

definition two_pages :: mem_view where
  "two_pages = \<lparr>utab = True, pte = [3 \<mapsto> (5, 23), 4 \<mapsto> (6, 23)], rdx = [3 \<mapsto> 23, 4 \<mapsto> 23], refs = (\<lambda>p. 0)(5 := 1, 6 := 1), frames = (\<lambda>p i. 0), held = []\<rparr>"

definition demo_env :: exec_env where
  "demo_env = \<lparr>xe_x86 = True, xe_rand64 = (\<lambda>s. s + 7), xe_pid = 1, xe_tid = 2, xe_cpu = 0\<rparr>"

definition demo_auxv :: linux_exec_elf_auxv where
  "demo_auxv = \<lparr>have_elf = True, av_phdr = 0x400040, av_phent = 56, av_phnum = 3, av_entry = 0x401000\<rparr>"

lemma VPN_nat: "n < space_size \<Longrightarrow> VPN (of_nat n) = n div 4096"
  by (simp add: VPN_def)

lemma one_page_ok: "unshared one_page" "12288 \<le> n \<Longrightarrow> n < 16384 \<Longrightarrow> vbyte one_page (of_nat n) \<noteq> None" "vbyte one_page (of_nat 16384) = None"
proof -
  show "vbyte one_page (of_nat n) \<noteq> None" if "12288 \<le> n" "n < 16384"
  proof -
    have "n div 4096 = 3" using that by (intro div_nat_eqI) simp_all
    then have "VPN (of_nat n) = 3" using VPN_nat [of n] that by simp
    then show ?thesis by (simp add: vbyte_def one_page_def)
  qed
qed (simp_all add: unshared_def one_page_def vbyte_def VPN_def)

lemma two_pages_ok: "unshared two_pages" "12288 \<le> n \<Longrightarrow> n < 20480 \<Longrightarrow> vbyte two_pages (of_nat n) \<noteq> None"
proof -
  show "vbyte two_pages (of_nat n) \<noteq> None" if "12288 \<le> n" "n < 20480"
  proof -
    have "n div 4096 = 3 \<or> n div 4096 = 4"
    proof (cases "n < 16384")
      case True
      then show ?thesis using that by (intro disjI1 div_nat_eqI) simp_all
    next
      case False
      then show ?thesis using that by (intro disjI2 div_nat_eqI) simp_all
    qed
    then have "VPN (of_nat n) = 3 \<or> VPN (of_nat n) = 4" using VPN_nat [of n] that by simp
    then show ?thesis by (auto simp: vbyte_def two_pages_def)
  qed
qed (auto simp: unshared_def two_pages_def)

text \<open>C11. The initial stack: when the memory below the stack top is mapped (400 bytes more than the strings and the argument pointers need), building
  it succeeds. The stack pointer is aligned as the architecture wants; the words at it are the number of arguments, a pointer to each
  argument, a null, the empty environment and the auxiliary vector with the program headers, the entry point, the random bytes and the file name; each
  pointer leads to its string, and no byte below the stack pointer or above the stack top is changed.\<close>

theorem init_stack_layout:
  assumes "user_bytes core plain um ok" "plain v"
    and "strings_size (kargv @ (case execfn of None \<Rightarrow> [] | Some s \<Rightarrow> [s])) + 8 * length kargv + 400 \<le> t" "t < space_size"
    and "\<forall>n. t - (strings_size (kargv @ (case execfn of None \<Rightarrow> [] | Some s \<Rightarrow> [s])) + 8 * length kargv + 400) \<le> n \<and> n < t \<longrightarrow> ok v (of_nat n)"
  shows "\<exists>sp rng' v'. linux_exec_build_initial_stack core env (of_nat t) kargv execfn auxv rng v = (Some (of_nat sp, of_nat (sp + 8)), rng', v')
    \<and> plain v' \<and> ok v' = ok v \<and> initial_stack env kargv execfn auxv rng t (um v') sp \<and> 8 \<le> sp
    \<and> t \<le> sp + strings_size (kargv @ (case execfn of None \<Rightarrow> [] | Some s \<Rightarrow> [s])) + 8 * length kargv + 400
    \<and> (\<forall>n < space_size. n < sp \<or> t \<le> n \<longrightarrow> um v' (of_nat n) = um v (of_nat n))"
  by (rule user_bytes.build_ok [OF assms])

theorem init_stack_layout_witness:
  "\<exists>sp rng' v'. linux_exec_build_initial_stack flat_core demo_env (of_nat 16384) [[115, 104]] (Some [47, 115, 104]) demo_auxv 1 one_page
      = (Some (of_nat sp, of_nat (sp + 8)), rng', v')
    \<and> initial_stack demo_env [[115, 104]] (Some [47, 115, 104]) demo_auxv 1 16384 (flat_byte v') sp"
proof -
  have r: "strings_size ([[115, 104]] @ (case Some [47, 115, 104 :: u8] of None \<Rightarrow> [] | Some s \<Rightarrow> [s])) + 8 * length [[115, 104 :: u8]] + 400 \<le> 16384"
    "(16384::nat) < space_size"
    "\<forall>n. 16384 - (strings_size ([[115, 104]] @ (case Some [47, 115, 104 :: u8] of None \<Rightarrow> [] | Some s \<Rightarrow> [s])) + 8 * length [[115, 104 :: u8]] + 400) \<le> n \<and> n < 16384
      \<longrightarrow> vbyte one_page (of_nat n) \<noteq> None"
    using one_page_ok(2) by simp_all
  show ?thesis using init_stack_layout [OF flat_bytes.user_bytes_axioms one_page_ok(1) r, of demo_env demo_auxv 1] by blast
qed

text \<open>C28. The arguments a program was started with can be handed on: \<^verbatim>\<open>execve\<close> with the argument vector of the initial stack copies exactly these arguments (at
  most 128, each shorter than 255 bytes), provided 256 bytes above the stack top are mapped as well.\<close>

theorem execve_args_roundtrip:
  assumes "user_bytes core plain um ok" "plain v"
    and "strings_size (kargv @ (case execfn of None \<Rightarrow> [] | Some s \<Rightarrow> [s])) + 8 * length kargv + 400 \<le> t" "t + 256 < space_size"
    and "\<forall>n. t - (strings_size (kargv @ (case execfn of None \<Rightarrow> [] | Some s \<Rightarrow> [s])) + 8 * length kargv + 400) \<le> n \<and> n < t + 256 \<longrightarrow> ok v (of_nat n)"
    and "\<forall>s \<in> set kargv. length s < 255 \<and> 0 \<notin> set s" "length kargv \<le> 128"
    and "linux_exec_build_initial_stack core env (of_nat t) kargv execfn auxv rng v = (Some (sp, area), rng', v')"
  shows "linux_exec_copy_argv_from_user core v' area = Inr kargv"
  by (rule user_bytes.argv_roundtrip [OF assms])

theorem execve_args_roundtrip_witness:
  "\<exists>sp area rng' v'. linux_exec_build_initial_stack flat_core demo_env (of_nat 16384) [[115, 104]] None demo_auxv 1 two_pages = (Some (sp, area), rng', v')
    \<and> linux_exec_copy_argv_from_user flat_core v' area = Inr [[115, 104]]"
proof -
  have r: "strings_size ([[115, 104]] @ (case None of None \<Rightarrow> [] | Some s \<Rightarrow> [s])) + 8 * length [[115, 104 :: u8]] + 400 \<le> 16384"
    "(16384::nat) + 256 < space_size" "(16384::nat) < space_size"
    "\<forall>n. 16384 - (strings_size ([[115, 104]] @ (case None of None \<Rightarrow> [] | Some s \<Rightarrow> [s])) + 8 * length [[115, 104 :: u8]] + 400) \<le> n \<and> n < 16384 + 256
      \<longrightarrow> vbyte two_pages (of_nat n) \<noteq> None"
    using two_pages_ok(2) by simp_all
  have a: "\<forall>s \<in> set [[115, 104 :: u8]]. length s < 255 \<and> 0 \<notin> set s" "length [[115, 104 :: u8]] \<le> 128" by simp_all
  have "\<forall>n. 16384 - (strings_size ([[115, 104]] @ (case None of None \<Rightarrow> [] | Some s \<Rightarrow> [s])) + 8 * length [[115, 104 :: u8]] + 400) \<le> n \<and> n < 16384
      \<longrightarrow> vbyte two_pages (of_nat n) \<noteq> None" using r(4) by simp
  from flat_bytes.build_ok [OF two_pages_ok(1) r(1,3) this, of demo_env demo_auxv 1]
  obtain sp area rng' v' where run: "linux_exec_build_initial_stack flat_core demo_env (of_nat 16384) [[115, 104]] None demo_auxv 1 two_pages = (Some (sp, area), rng', v')"
    by blast
  show ?thesis using execve_args_roundtrip [OF flat_bytes.user_bytes_axioms two_pages_ok(1) r(1,2,4) a run] run by blast
qed

text \<open>Each argument of \<^verbatim>\<open>execve\<close> is copied as a block of 256 bytes. The arguments of a process lie at the very top of its stack, so a
  program whose argument strings take less than 240 bytes and that calls \<^verbatim>\<open>execve\<close> with its own argument vector gets \<^verbatim>\<open>EFAULT\<close> when nothing is
  mapped above the stack.\<close>

lemma execve_own_args_fault:
  assumes "user_bytes core plain um ok" "plain v"
    and "strings_size (kargv @ (case execfn of None \<Rightarrow> [] | Some s \<Rightarrow> [s])) + 8 * length kargv + 400 \<le> t" "t < space_size"
    and "\<forall>n. t - (strings_size (kargv @ (case execfn of None \<Rightarrow> [] | Some s \<Rightarrow> [s])) + 8 * length kargv + 400) \<le> n \<and> n < t \<longrightarrow> ok v (of_nat n)"
    and "\<not> ok v (of_nat t)" "kargv \<noteq> []" "strings_size (kargv @ (case execfn of None \<Rightarrow> [] | Some s \<Rightarrow> [s])) + 16 \<le> 256"
    and "linux_exec_build_initial_stack core env (of_nat t) kargv execfn auxv rng v = (Some (sp, area), rng', v')"
  shows "linux_exec_copy_argv_from_user core v' area = Inl (- LINUX_EFAULT)"
  by (rule user_bytes.argv_fault [OF assms])

text \<open>The command line of the kernel is split into the arguments of the first process: they are the words of its first 4095 characters, at
  most 128 of them; without any word the default arguments are used.\<close>

lemma boot_argv_words:
  "linux_boot_resolve_argv cmdline = (let ws = take 128 (words (take 4095 cmdline)) in if ws = [] then [''sh'', ''/tests/run_all.sh''] else ws)"
proof (cases "cmdline = []")
  case True
  then show ?thesis by (simp add: linux_boot_resolve_argv_def)
next
  case False
  define n where "n = (if 4096 \<le> length cmdline then 4095 else length cmdline)"
  define b where "b = take n cmdline @ [CHR 0x00]"
  have tk: "take n cmdline = take 4095 cmdline" by (simp add: n_def)
  have ln: "length b = 0 + (n + 1)" by (simp add: b_def n_def)
  obtain buf ptrs where run: "argv_scan 0 (n + 1) b [] None = (buf, ptrs)" by fastforce
  have "map (cstr buf) ptrs = take 128 (map (cstr b) [] @ words (drop (case None of None \<Rightarrow> 0 | Some p \<Rightarrow> p) b))"
    by (rule argv_scan_words [OF ln _ _ _ _ _ run]) (simp_all add: b_def)
  then have R: "map (cstr buf) ptrs = take 128 (words (take 4095 cmdline))" by (simp add: b_def words_snoc tk)
  show ?thesis
    unfolding linux_boot_resolve_argv_def Let_def n_def [symmetric] b_def [symmetric] run R [symmetric] using False by simp
qed

text \<open>C14. \<^verbatim>\<open>execve\<close> of the file name and the arguments that it read from the user returns an error only while the old program is
  intact: the process state is as before, and the address space is unchanged, or as the loading of that file into kernel memory left it, or as the refusal of the core to
  clear it (\<^verbatim>\<open>E_REND_RC_UNEQUAL\<close>) left that. It ends the process only when a valid file was loaded and the clearing was not refused. Otherwise it starts the new
  program: the file was loaded, the old mappings were cleared, the segments were loaded, and the result is the entry point of the file with the stack that was built
  below the new stack top for these arguments; the heap begins at the end of the segments (at \<^verbatim>\<open>0x40000000\<close> when that is no user
  address), no signal is pending, every signal is at its default or ignored, and the signal state of the thread is fresh.\<close>

theorem execve_no_return:
  assumes "0x40000000 < KERNEL_VIRT_OFFSET core" "sys_execve core xc env alloc_ok fname argv p rng v = (r, p', rng', v')"
    and "name = takeWhile (\<lambda>b. b \<noteq> 0) (snd (linux_mm_load_cstring_from_user core v fname 256))"
  shows "case r of
      EX_RET e \<Rightarrow> p' = p \<and> rng' = rng \<and> (v' = v \<or> v' = snd (load_elf_slice xc name v)
        \<or> vspace_clear_user_mappings xc (snd (load_elf_slice xc name v)) = (CLEAR_RC_UNEQUAL, v'))
    | EX_FATAL \<Rightarrow> p' = p \<and> (\<exists>sl v1. load_elf_slice xc name v = (Inr sl, v1) \<and> linux_exec_elf_slice_valid xc sl
        \<and> fst (vspace_clear_user_mappings xc v1) \<noteq> CLEAR_RC_UNEQUAL)
    | EX_START entry sp \<Rightarrow> (\<exists>sl v1 v2 m v3 elf top v4 kargv area.
          load_elf_slice xc name v = (Inr sl, v1) \<and> vspace_clear_user_mappings xc v1 = (CLEAR_OK, v2) \<and> load_elf_to_vs xc sl v2 = (Some m, v3)
        \<and> elf_slice_view xc sl = Some elf \<and> elf64_header elf \<and> entry = e_entry elf
        \<and> generate_user_stack xc v3 = (top, v4) \<and> linux_exec_copy_argv_from_user core v argv = Inr kargv
        \<and> linux_exec_build_initial_stack core env top kargv (Some name) (linux_exec_elf_auxv_from_kva elf) rng v4 = (Some (sp, area), rng', v') \<and> sp \<noteq> 0
        \<and> start_brk (xp_mm p') = (if m = 0 \<or> KERNEL_VIRT_OFFSET core \<le> m then 0x40000000 else m)
        \<and> brk (xp_mm p') = start_brk (xp_mm p') \<and> brk (xp_mm p') < KERNEL_VIRT_OFFSET core)
        \<and> (\<forall>ps. xp_sig p' = Some ps \<longrightarrow> p_pending ps = 0 \<and> (\<forall>d \<in> set (dispositions ps). linux_signal_handler_is_dfl (sa_handler d) \<or> linux_signal_handler_is_ign (sa_handler d)))
        \<and> (\<forall>ts. xp_thread p' = Some ts \<longrightarrow> ts = linux_signal_init_thread_state)"
proof -
  obtain e buf where c: "linux_mm_load_cstring_from_user core v fname 256 = (e, buf)" by fastforce
  have name: "name = takeWhile (\<lambda>b. b \<noteq> 0) buf" using assms(3) c by simp
  show ?thesis
  proof (cases "user_table core v \<and> e = MM_OK \<and> alloc_ok \<and> (\<exists>ka. linux_exec_copy_argv_from_user core v argv = Inr ka)")
    case True
    then obtain ka where ka: "linux_exec_copy_argv_from_user core v argv = Inr ka" by blast
    have "linux_exec_replace_image core xc env alloc_ok name ka True p rng v = (r, p', rng', v')"
      using True assms(2) c ka by (simp add: sys_execve_def name)
    note o = replace_image_ok [OF this, unfolded exec_outcome_def]
    show ?thesis
    proof (cases r)
      case (EX_START entry sp)
      from o obtain sl v1 v2 where l: "load_elf_slice xc name v = (Inr sl, v1)" "linux_exec_elf_slice_valid xc sl"
          "vspace_clear_user_mappings xc v1 = (CLEAR_OK, v2)" "exec_started core xc env alloc_ok name ka sl p rng v2 entry sp p' rng' v'"
        unfolding EX_START exec_result.case by blast
      from l(4) obtain m v3 elf top v4 area where st: "load_elf_to_vs xc sl v2 = (Some m, v3)" "elf_slice_view xc sl = Some elf" "entry = e_entry elf"
          "generate_user_stack xc v3 = (top, v4)"
          "linux_exec_build_initial_stack core env top ka (Some name) (linux_exec_elf_auxv_from_kva elf) rng v4 = (Some (sp, area), rng', v')" "sp \<noteq> 0"
        and p': "p' = (linux_exec_reset_proc_state core alloc_ok m p)\<lparr>xp_thread := linux_signal_reset_thread_handler_state (xp_thread p)\<rparr>"
        unfolding exec_started_def by blast
      have "elf64_header elf" using l(2) st(2) by (simp add: linux_exec_elf_slice_valid_def)
      then show ?thesis using fresh_proc [OF assms(1) p'] l(1,3) st ka unfolding EX_START exec_result.case by blast
    qed (use o in simp_all)
  next
    case False
    then have "(\<exists>e. r = EX_RET e) \<and> p' = p \<and> rng' = rng \<and> v' = v"
      using assms(2) c by (cases e) (auto simp: sys_execve_def split: if_splits sum.splits)
    then show ?thesis by auto
  qed
qed

definition idle_proc :: exec_proc where
  "idle_proc = \<lparr>xp_mm = \<lparr>start_brk = 0, brk = 0, mmap_hint = 0\<rparr>, xp_sig = None, xp_thread = None, xp_fs = (None, undefined)\<rparr>"

definition demo_elf :: elf_view where
  "demo_elf = \<lparr>elf64_header = True, e_phoff = 64, e_phentsize = 56, e_phnum = 0, e_entry = 0x401000, e_phdrs = []\<rparr>"

definition demo_exec_core :: "(mem_view, nat) exec_core" where
  "demo_exec_core = \<lparr>load_elf_slice = (\<lambda>name v. (Inr 0, v)), elf_slice_view = (\<lambda>s. Some demo_elf),
     vspace_clear_user_mappings = (\<lambda>v. (CLEAR_OK, v\<lparr>pte := Map.empty, rdx := Map.empty, refs := (\<lambda>p. 0)\<rparr>)),
     load_elf_to_vs = (\<lambda>s v. (Some 0x402000, v)), generate_user_stack = (\<lambda>v. (of_nat 16384, one_page))\<rparr>"

text \<open>The file name at \<open>0x3000\<close> is empty, there are no arguments, and the new program starts.\<close>

lemma demo_cstring:
  obtains d where "linux_mm_load_cstring_from_user flat_core one_page 0x3000 256 = (MM_OK, d)" "takeWhile (\<lambda>b. b \<noteq> 0) d = []"
proof -
  have "vbyte one_page (0x3000 + of_nat (length [])) = Some 0" by (simp add: vbyte_def one_page_def VPN_def)
  from flat_mm.cstring_loop_ok [OF _ this, of 256 0] obtain d
    where "cstring_loop flat_core one_page 0x3000 256 0 [] = (MM_OK, d)" "takeWhile (\<lambda>b. b \<noteq> 0) d = []" by auto
  then show ?thesis by (intro that [of d]) (simp_all add: linux_mm_load_cstring_from_user_def flat_core_def one_page_def)
qed

lemma demo_exec_starts:
  "\<exists>sp p' rng' v'. sys_execve flat_core demo_exec_core demo_env True 0x3000 0 idle_proc 1 one_page = (EX_START 0x401000 sp, p', rng', v')"
proof -
  obtain d where d: "linux_mm_load_cstring_from_user flat_core one_page 0x3000 256 = (MM_OK, d)" "takeWhile (\<lambda>b. b \<noteq> 0) d = []" by (rule demo_cstring)
  have r: "strings_size ([] @ (case Some [] of None \<Rightarrow> [] | Some s \<Rightarrow> [s])) + 8 * length ([] :: u8 list list) + 400 \<le> 16384" "(16384::nat) < space_size"
    "\<forall>n. 16384 - (strings_size ([] @ (case Some [] of None \<Rightarrow> [] | Some s \<Rightarrow> [s])) + 8 * length ([] :: u8 list list) + 400) \<le> n \<and> n < 16384
      \<longrightarrow> vbyte one_page (of_nat n) \<noteq> None"
    using one_page_ok(2) by simp_all
  obtain sp rng' v' where b: "linux_exec_build_initial_stack flat_core demo_env (of_nat 16384) [] (Some []) (linux_exec_elf_auxv_from_kva demo_elf) 1 one_page
      = (Some (of_nat sp, of_nat (sp + 8)), rng', v')" "8 \<le> sp" "initial_stack demo_env [] (Some []) (linux_exec_elf_auxv_from_kva demo_elf) 1 16384 (flat_byte v') sp"
    using flat_bytes.build_ok [OF one_page_ok(1) r, of demo_env "linux_exec_elf_auxv_from_kva demo_elf" 1] by blast
  have "sp < space_size" using b(3) by (auto simp: initial_stack_def)
  then have "(of_nat sp :: u64) \<noteq> 0" using b(2) unat_nat [of sp] by (metis not_numeral_le_zero unat_0)
  then show ?thesis
    using d b(1) by (simp add: sys_execve_def linux_exec_copy_argv_from_user_def linux_exec_replace_image_def exec_new_image_def demo_exec_core_def
        linux_exec_elf_slice_valid_def demo_elf_def flat_core_def one_page_def Let_def)
qed

theorem execve_no_return_witness:
  "\<exists>sp p' rng' v'. sys_execve flat_core demo_exec_core demo_env True 0x3000 0 idle_proc 1 one_page = (EX_START 0x401000 sp, p', rng', v')
    \<and> sp \<noteq> 0 \<and> start_brk (xp_mm p') = 0x402000 \<and> brk (xp_mm p') = 0x402000"
proof -
  obtain sp p' rng' v' where run: "sys_execve flat_core demo_exec_core demo_env True 0x3000 0 idle_proc 1 one_page = (EX_START 0x401000 sp, p', rng', v')"
    using demo_exec_starts by blast
  have k: "0x40000000 < KERNEL_VIRT_OFFSET flat_core" by (simp add: flat_core_def)
  from execve_no_return [OF k run refl, unfolded exec_result.case]
  have "sp \<noteq> 0 \<and> start_brk (xp_mm p') = 0x402000 \<and> brk (xp_mm p') = 0x402000"
    by (elim conjE exE) (simp add: demo_exec_core_def flat_core_def)
  then show ?thesis using run by blast
qed

end
