(* ===== verification/Rpc_Wire.thy ===== *)
theory Rpc_Wire
  imports Proc_Registry
begin

text \<open>
  The wire side of the RPC layer (\<^verbatim>\<open>linux_layer/ipc/rpc.c\<close>): names of ports, the reply port that is appended to a request and found again by the
  server, and the tokens that stand for a reply port in nested calls.

  A payload is a byte list: the number of parameters (4 bytes), then for each one a tag, its length (4 bytes) and its bytes. Lengths and
  offsets are 32-bit words.
\<close>

section \<open>Port names\<close>

definition ipc_port_name_copy_service :: "nat \<Rightarrow> string \<Rightarrow> string option" where
  "ipc_port_name_copy_service bufsize service =
     (if bufsize = 0 \<or> service = [] \<or> bufsize \<le> length service then None else Some service)"

text \<open>Appends the characters of \<open>mid\<close> one by one while there is room.\<close>

fun append_mid :: "nat \<Rightarrow> string \<Rightarrow> string \<Rightarrow> string option" where
  "append_mid bufsize buf [] = Some buf"
| "append_mid bufsize buf (c # cs) = (if bufsize \<le> length buf + 1 then None else append_mid bufsize (buf @ [c]) cs)"

definition port_name_with :: "string \<Rightarrow> nat \<Rightarrow> string \<Rightarrow> int \<Rightarrow> string option" where
  "port_name_with mid bufsize service caller_id =
     (case ipc_port_name_copy_service bufsize service of
        None \<Rightarrow> None
      | Some s \<Rightarrow>
          (case append_mid bufsize s mid of
             None \<Rightarrow> None
           | Some t \<Rightarrow>
               (case proc_format_pid (bufsize - length t) caller_id of
                  (n, digits) \<Rightarrow> if n = 0 then None else Some (t @ digits))))"

definition ipc_port_name_cli :: "nat \<Rightarrow> string \<Rightarrow> int \<Rightarrow> string option" where
  "ipc_port_name_cli = port_name_with ''_cli_''"

definition ipc_port_name_listen_cpu :: "nat \<Rightarrow> string \<Rightarrow> int \<Rightarrow> string option" where
  "ipc_port_name_listen_cpu = port_name_with ''_c''"

definition ipc_rpc_format_port_name :: "nat \<Rightarrow> string \<Rightarrow> int \<Rightarrow> string option" where
  "ipc_rpc_format_port_name bufsize prefix pid =
     (if bufsize = 0 \<or> bufsize \<le> length prefix then None
      else case proc_format_pid (bufsize - length prefix) pid of
        (n, digits) \<Rightarrow> if n = 0 then None else Some (prefix @ digits))"

section \<open>The reply port of a request\<close>

definition le4 :: "u32 \<Rightarrow> u8 list" where
  "le4 w = map (\<lambda>i. ucast (drop_bit (8 * i) w)) [0..<4]"

definition get4 :: "u8 list \<Rightarrow> nat \<Rightarrow> u32" where
  "get4 p off = ucast (p ! off) OR push_bit 8 (ucast (p ! (off + 1))) OR push_bit 16 (ucast (p ! (off + 2))) OR push_bit 24 (ucast (p ! (off + 3)))"

abbreviation TAG_T :: u8 where "TAG_T \<equiv> 0x74"

text \<open>The scan returns the offset of the last parameter with tag \<^verbatim>\<open>t\<close>; \<open>n\<close> parameters are left.\<close>

fun tlv_scan :: "u8 list \<Rightarrow> u32 \<Rightarrow> nat \<Rightarrow> u32 \<Rightarrow> u32 option \<Rightarrow> u32 option" where
  "tlv_scan payload len 0 off found = found"
| "tlv_scan payload len (Suc n) off found =
     (if len < off + 1 + 4 then found
      else
        let tag = payload ! unat off;
            vlen = get4 payload (unat (off + 1));
            off1 = off + 1 + 4 in
        if len < off1 + vlen then found
        else tlv_scan payload len n (off1 + vlen) (if tag = TAG_T \<and> 0 < vlen then Some off1 else found))"

definition ipc_serial_payload_reply_port :: "u8 list \<Rightarrow> u32 \<Rightarrow> u32 option" where
  "ipc_serial_payload_reply_port payload len = (if len < 4 then None else tlv_scan payload len (unat (get4 payload 0)) 4 None)"

text \<open>Appends the parameter to a payload of which \<open>len\<close> of \<open>cap\<close> bytes are used; a name is a byte list without its terminator.\<close>

definition ipc_payload_append_reply_port :: "u8 list \<Rightarrow> u32 \<Rightarrow> u32 \<Rightarrow> u8 list \<Rightarrow> (u8 list \<times> u32) option" where
  "ipc_payload_append_reply_port payload cap len reply_port =
     (let slen = of_nat (length reply_port) + 1 :: u32 in
      if cap < len + 1 + 4 + slen then None
      else
        let p1 = le4 (get4 payload 0 + 1) @ drop 4 payload in
        Some (take (unat len) p1 @ TAG_T # le4 slen @ reply_port @ [0] @ drop (unat (len + 1 + 4 + slen)) p1, len + 1 + 4 + slen))"

section \<open>Tokens of nested calls\<close>

definition digit :: "u8 \<Rightarrow> bool" where
  "digit c \<longleftrightarrow> 0x30 \<le> c \<and> c \<le> 0x39"

definition ipc_rpc_is_nest_token :: "u8 list \<Rightarrow> bool" where
  "ipc_rpc_is_nest_token name \<longleftrightarrow> (case name of a # b # c # cs \<Rightarrow> a = 0x40 \<and> b = 0x6E \<and> list_all digit (c # cs) | _ \<Rightarrow> False)"

definition ipc_rpc_nest_token_cookie :: "u8 list \<Rightarrow> u64" where
  "ipc_rpc_nest_token_cookie name =
     (if \<not> ipc_rpc_is_nest_token name then 0 else foldl (\<lambda>v c. v * 10 + (ucast c - 0x30)) 0 (drop 2 name))"

definition ipc_rpc_format_nest_token :: "nat \<Rightarrow> u64 \<Rightarrow> u8 list option" where
  "ipc_rpc_format_nest_token bufsize cookie =
     (let digits = (if cookie = 0 then [0x30] else map of_char (dec_rev 24 (unat cookie))) in
      if bufsize < 4 \<or> bufsize \<le> 2 + length digits then None else Some ([0x40, 0x6E] @ rev digits))"

section \<open>Reading back\<close>

text \<open>The parameters of a payload, and its layout.\<close>

type_synonym param = "u8 \<times> u8 list"

definition tlv :: "param \<Rightarrow> u8 list" where
  "tlv p = fst p # le4 (of_nat (length (snd p))) @ snd p"

definition pack :: "param list \<Rightarrow> u8 list" where
  "pack ps = le4 (of_nat (length ps)) @ concat (map tlv ps)"

lemma length_le4 [simp]: "length (le4 w) = 4"
  by (simp add: le4_def)

lemma length_tlv [simp]: "length (tlv p) = 5 + length (snd p)"
  by (simp add: tlv_def)

lemma le4_nth: "i < 4 \<Longrightarrow> le4 w ! i = ucast (drop_bit (8 * i) w)"
  by (simp add: le4_def)

lemma join4: "(ucast (ucast w :: u8) :: u32) OR push_bit 8 (ucast (ucast (drop_bit 8 w) :: u8)) OR push_bit 16 (ucast (ucast (drop_bit 16 w) :: u8))
    OR push_bit 24 (ucast (ucast (drop_bit 24 w) :: u8)) = w" for w :: u32
proof (rule bit_word_eqI)
  fix n
  assume "n < LENGTH(32)"
  then have "n < 8 \<or> 8 \<le> n \<and> n < 16 \<or> 16 \<le> n \<and> n < 24 \<or> 24 \<le> n \<and> n < 32" by auto
  then show "bit ((ucast (ucast w :: u8) :: u32) OR push_bit 8 (ucast (ucast (drop_bit 8 w) :: u8)) OR push_bit 16 (ucast (ucast (drop_bit 16 w) :: u8))
    OR push_bit 24 (ucast (ucast (drop_bit 24 w) :: u8))) n = bit w n"
    by (auto simp: bit_simps)
qed

lemma get4_le4: "get4 (pre @ le4 w @ post) (length pre) = w"
  using join4 [of w] by (simp add: get4_def nth_append le4_nth)

text \<open>One step of the scan.\<close>

lemma unat_of_nat_le: "n \<le> unat (len :: u32) \<Longrightarrow> unat (of_nat n :: u32) = n"
proof -
  assume "n \<le> unat len"
  moreover have "unat len < 2 ^ LENGTH(32)" by (rule unsigned_less)
  ultimately show ?thesis by (simp add: unat_of_nat)
qed

lemma scan_step:
  assumes "payload = pre @ tlv p @ post" "length pre + length (tlv p) \<le> unat len"
  shows "tlv_scan payload len (Suc n) (of_nat (length pre)) found
    = tlv_scan payload len n (of_nat (length pre + length (tlv p))) (if fst p = TAG_T \<and> snd p \<noteq> [] then Some (of_nat (length pre + 5)) else found)"
proof -
  define k where "k = length pre"
  define v where "v = length (snd p)"
  have bound: "k + 5 + v \<le> unat len" using assms(2) by (simp add: k_def v_def)
  have w: "(of_nat k :: u32) + 1 = of_nat (k + 1)" "(of_nat k :: u32) + 1 + 4 = of_nat (k + 5)" "(of_nat (k + 5) :: u32) + of_nat v = of_nat (k + 5 + v)"
    by simp_all
  have u: "unat (of_nat k :: u32) = k" "unat (of_nat (k + 1) :: u32) = k + 1" "unat (of_nat (k + 5) :: u32) = k + 5" "unat (of_nat (k + 5 + v) :: u32) = k + 5 + v"
    "unat (of_nat v :: u32) = v"
    using bound by (intro unat_of_nat_le [of _ len]; simp)+
  have tag: "payload ! k = fst p" using assms(1) by (simp add: k_def tlv_def nth_append)
  have "payload = (pre @ [fst p]) @ le4 (of_nat v) @ (snd p @ post)" using assms(1) by (simp add: tlv_def v_def)
  then have vlen: "get4 payload (k + 1) = of_nat v" using get4_le4 [of "pre @ [fst p]"] by (simp add: k_def)
  have "\<not> len < (of_nat (k + 5) :: u32)" "\<not> len < (of_nat (k + 5 + v) :: u32)" using bound u by (simp_all add: word_less_nat_alt del: of_nat_add)
  moreover have "(0 :: u32) < of_nat v \<longleftrightarrow> snd p \<noteq> []" using u(5) by (simp add: word_less_nat_alt v_def)
  ultimately show ?thesis using tag vlen u(1,2)
    unfolding tlv_scan.simps k_def [symmetric] w(1) w(2) Let_def by (simp add: w(3) v_def [symmetric] del: of_nat_add) (simp add: ac_simps)
qed

text \<open>The scan runs through all parameters and ends with the last one, the reply port.\<close>

lemma scan_last:
  assumes "payload = pre @ concat (map tlv (ps @ [(TAG_T, v)])) @ post" "v \<noteq> []"
    and "length pre + length (concat (map tlv (ps @ [(TAG_T, v)]))) \<le> unat len"
  shows "tlv_scan payload len (Suc (length ps)) (of_nat (length pre)) found = Some (of_nat (length pre + length (concat (map tlv ps)) + 5))"
  using assms(1,3)
proof (induction ps arbitrary: pre found)
  case Nil
  then show ?case using scan_step [of payload pre "(TAG_T, v)" post len 0 found] assms(2) by simp
next
  case (Cons p ps)
  have "payload = (pre @ tlv p) @ concat (map tlv (ps @ [(TAG_T, v)])) @ post" using Cons.prems(1) by simp
  then have "tlv_scan payload len (Suc (length ps)) (of_nat (length (pre @ tlv p))) f = Some (of_nat (length (pre @ tlv p) + length (concat (map tlv ps)) + 5))" for f
    using Cons.prems(2) by (intro Cons.IH) simp_all
  then show ?case
    using scan_step [of payload pre p "concat (map tlv (ps @ [(TAG_T, v)])) @ post" len "Suc (length ps)" found] Cons.prems by (simp add: ac_simps)
qed

text \<open>The token of a nested call gives its number back.\<close>

lemma of_char_digit: "d < 10 \<Longrightarrow> (of_char (char_of (0x30 + d :: nat)) :: 'a :: len word) = of_nat (0x30 + d)"
  by (subst of_nat_of_char [symmetric]) simp

lemma digit_of_nat: "d < 10 \<Longrightarrow> digit (of_nat (0x30 + d))"
  unfolding digit_def word_le_nat_alt by (simp add: unat_of_nat del: of_nat_add)

lemma dec_rev_digits: "list_all digit (map of_char (dec_rev k v))"
  by (induction k v rule: dec_rev.induct) (simp_all add: digit_of_nat of_char_digit del: of_nat_add)

definition digits_value :: "u8 list \<Rightarrow> u64" where
  "digits_value = foldl (\<lambda>v c. v * 10 + (ucast c - 0x30)) 0"

lemma digits_value_snoc: "digits_value (ds @ [c]) = digits_value ds * 10 + (ucast c - 0x30)"
  by (simp add: digits_value_def)

lemma digits_value_rev: "v < 10 ^ k \<Longrightarrow> digits_value (rev (map of_char (dec_rev k v))) = of_nat v"
proof (induction k v rule: dec_rev.induct)
  case (1 v)
  then show ?case by (simp add: digits_value_def)
next
  case (2 k v)
  show ?case
  proof (cases "v = 0")
    case True
    then show ?thesis by (simp add: digits_value_def)
  next
    case False
    have "v div 10 < 10 ^ k" using 2(2) by (simp add: less_mult_imp_div_less)
    then have ih: "digits_value (rev (map of_char (dec_rev k (v div 10)))) = of_nat (v div 10)" using 2(1) False by simp
    have "(ucast (of_nat (0x30 + v mod 10) :: u8) :: u64) = of_nat (0x30 + v mod 10)"
      by (simp add: word_unat_eq_iff unat_of_nat unsigned_ucast_eq take_bit_nat_eq_self del: of_nat_add)
    then have "(ucast (of_char (char_of (0x30 + v mod 10)) :: u8) :: u64) - 0x30 = of_nat (v mod 10)" by (simp add: of_char_digit)
    moreover have "(of_nat v :: u64) = of_nat (v div 10) * 10 + of_nat (v mod 10)"
      by (metis div_mult_mod_eq of_nat_add of_nat_mult of_nat_numeral)
    ultimately show ?thesis using False ih by (simp add: digits_value_snoc)
  qed
qed

lemma format_nest_token:
  assumes "23 \<le> bufsize"
  obtains ds where "ipc_rpc_format_nest_token bufsize c = Some ([0x40, 0x6E] @ ds)" "ds \<noteq> []" "list_all digit ds" "digits_value ds = c"
proof (cases "c = 0")
  case True
  then show thesis using that [of "[0x30]"] assms by (simp add: ipc_rpc_format_nest_token_def digit_def digits_value_def)
next
  case False
  define ds :: "u8 list" where "ds = map of_char (dec_rev 24 (unat c))"
  have "unat c < 2 ^ LENGTH(64)" by (rule unsigned_less)
  then have small: "unat c < 10 ^ 20" by simp
  then have "length ds \<le> 20" using dec_rev_length [of "unat c" 20 24] by (simp add: ds_def)
  then have "ipc_rpc_format_nest_token bufsize c = Some ([0x40, 0x6E] @ rev ds)"
    using assms False by (simp add: ipc_rpc_format_nest_token_def ds_def)
  moreover have "dec_rev (Suc 23) (unat c) \<noteq> []" using False by (simp only: dec_rev.simps) (simp add: unat_eq_zero)
  then have "rev ds \<noteq> []" by (simp add: ds_def)
  moreover have "list_all digit (rev ds)" using dec_rev_digits [of 24 "unat c"] by (simp add: ds_def list_all_iff)
  moreover have "digits_value (rev ds) = c" using digits_value_rev [OF order_less_trans [OF small, of "10 ^ 24"]] by (simp add: ds_def)
  ultimately show thesis by (rule that)
qed

lemma token_cookie:
  assumes "ds \<noteq> []" "list_all digit ds"
  shows "ipc_rpc_nest_token_cookie ([0x40, 0x6E] @ ds) = digits_value ds" "0 \<notin> set ([0x40, 0x6E] @ ds)"
  using assms by (auto simp: ipc_rpc_nest_token_cookie_def ipc_rpc_is_nest_token_def digits_value_def list_all_iff digit_def neq_Nil_conv)

lemma append_reply_port:
  assumes "unat len = length (pack ps)" "length (pack ps) + 6 + length port \<le> unat cap"
  shows "ipc_payload_append_reply_port (pack ps @ room) cap len port
    = Some (pack (ps @ [(TAG_T, port @ [0])]) @ drop (6 + length port) room, of_nat (length (pack (ps @ [(TAG_T, port @ [0])]))))"
proof -
  define n where "n = length (pack ps)"
  have len: "len = of_nat n" by (simp add: n_def flip: assms(1))
  have new: "len + 1 + 4 + (of_nat (length port) + 1) = of_nat (n + 6 + length port)" unfolding len by simp
  have u: "unat (of_nat (n + 6 + length port) :: u32) = n + 6 + length port" using assms(2) unfolding n_def by (rule unat_of_nat_le)
  have fits: "\<not> cap < of_nat (n + 6 + length port)" using assms(2) u by (simp add: word_less_nat_alt n_def del: of_nat_add)
  have count: "get4 (pack ps @ room) 0 = of_nat (length ps)" using get4_le4 [of "[]" "of_nat (length ps)" "concat (map tlv ps) @ room"] by (simp add: pack_def)
  have split: "le4 (of_nat (length ps) + 1) @ drop 4 (pack ps @ room) = le4 (of_nat (length ps) + 1) @ concat (map tlv ps) @ room"
    by (simp add: pack_def)
  have n: "n = 4 + length (concat (map tlv ps))" by (simp add: n_def pack_def)
  have "length (pack (ps @ [(TAG_T, port @ [0])])) = n + 6 + length port" by (simp add: pack_def n)
  moreover have "unat len = n" using assms(1) n_def by simp
  ultimately show ?thesis
    unfolding ipc_payload_append_reply_port_def Let_def new count split u using fits
    by (simp add: pack_def tlv_def n ac_simps)
qed

lemma reply_port_found:
  assumes "v \<noteq> []" "length (pack (ps @ [(TAG_T, v)])) \<le> unat len"
  shows "ipc_serial_payload_reply_port (pack (ps @ [(TAG_T, v)]) @ room) len = Some (of_nat (length (pack ps) + 5))"
proof -
  define payload where "payload = pack (ps @ [(TAG_T, v)]) @ room"
  have p: "payload = le4 (of_nat (length ps + 1)) @ concat (map tlv (ps @ [(TAG_T, v)])) @ room" by (simp add: payload_def pack_def)
  have count: "get4 payload 0 = of_nat (length ps + 1)" using get4_le4 [of "[]" "of_nat (length ps + 1)"] unfolding p by simp
  have "length ps \<le> length (concat (map tlv ps))" by (induction ps) simp_all
  then have "length ps + 1 \<le> unat len" using assms(2) by (simp add: pack_def)
  then have "unat (of_nat (length ps + 1) :: u32) = length ps + 1" by (rule unat_of_nat_le)
  moreover have "\<not> len < 4" using assms(2) by (simp add: pack_def word_less_nat_alt)
  moreover have "tlv_scan payload len (Suc (length ps)) 4 None = Some (of_nat (4 + length (concat (map tlv ps)) + 5))"
    using scan_last [OF p assms(1), of len None] assms(2) by (simp add: pack_def)
  ultimately show ?thesis
    unfolding ipc_serial_payload_reply_port_def payload_def [symmetric] count by (simp add: pack_def)
qed

text \<open>The way of a nested call back to its job: the token that is made for the number of a call is appended to the request as its reply port; the server that scans
  the request finds exactly this string, and the number that it reads from it is the one of the call.\<close>

lemma nest_token_roundtrip:
  assumes "23 \<le> name_max" "unat len = length (pack ps)" "length (pack ps) + 6 + name_max \<le> unat cap"
  shows "\<exists>tok payload len' off. ipc_rpc_format_nest_token name_max c = Some tok
    \<and> ipc_payload_append_reply_port (pack ps @ room) cap len tok = Some (payload, len')
    \<and> ipc_serial_payload_reply_port payload len' = Some off
    \<and> takeWhile (\<lambda>b. b \<noteq> 0) (drop (unat off) payload) = tok \<and> ipc_rpc_nest_token_cookie tok = c"
proof -
  obtain ds where ds: "ipc_rpc_format_nest_token name_max c = Some ([0x40, 0x6E] @ ds)" "ds \<noteq> []" "list_all digit ds" "digits_value ds = c"
    by (rule format_nest_token [OF assms(1)])
  define tok where "tok = [0x40, 0x6E] @ ds"
  have "length tok \<le> name_max" using ds(1) by (auto simp: ipc_rpc_format_nest_token_def tok_def split: if_splits)
  then have fits: "length (pack ps) + 6 + length tok \<le> unat cap" using assms(3) by simp
  define payload where "payload = pack (ps @ [(TAG_T, tok @ [0])]) @ drop (6 + length tok) room"
  define n where "n = length (pack (ps @ [(TAG_T, tok @ [0])]))"
  have n: "n = length (pack ps) + 6 + length tok" by (simp add: n_def pack_def)
  have app: "ipc_payload_append_reply_port (pack ps @ room) cap len tok = Some (payload, of_nat n)"
    unfolding payload_def n_def by (rule append_reply_port [OF assms(2) fits])
  have "unat (of_nat n :: u32) = n" using fits n by (intro unat_of_nat_le [of _ cap]) simp
  then have found: "ipc_serial_payload_reply_port payload (of_nat n) = Some (of_nat (length (pack ps) + 5))"
    unfolding payload_def by (intro reply_port_found) (simp_all add: n_def)
  have "unat (of_nat (length (pack ps) + 5) :: u32) = length (pack ps) + 5" using fits by (intro unat_of_nat_le [of _ cap]) simp
  moreover define pre where "pre = le4 (of_nat (length ps + 1)) @ concat (map tlv ps) @ TAG_T # le4 (of_nat (length tok + 1))"
  have "payload = pre @ tok @ 0 # drop (6 + length tok) room" by (simp add: payload_def pre_def pack_def tlv_def)
  then have "drop (length (pack ps) + 5) payload = tok @ 0 # drop (6 + length tok) room"
    by (simp add: pre_def pack_def)
  moreover have "0 \<notin> set tok" using token_cookie(2) [OF ds(2,3)] by (simp add: tok_def)
  then have "takeWhile (\<lambda>b. b \<noteq> 0) (tok @ 0 # drop (6 + length tok) room) = tok" by (subst takeWhile_append2) auto
  ultimately show ?thesis using ds(1,4) app found token_cookie(1) [OF ds(2,3)] by (auto simp: tok_def)
qed

end
