(* ===== verification/Rpc_Coop.thy ===== *)
theory Rpc_Coop
  imports Rpc_Wire
begin

text \<open>
  The cooperative request-reply server (second half of \<^verbatim>\<open>linux_layer/ipc/rpc.c\<close>): jobs for the requests that wait for a nested call or for their reply to
  be sent, and the single send queue of the server thread that they share.

  Requests are numbered in the order of their arrival (\<open>next_job\<close>), and a job is known by the number of its request, which stands for its address. The send
  queue of the thread (\<open>send_queue\<close>) is a list of messages; a send always takes the first one, whatever the destination
  (\<^verbatim>\<open>linux_compat/ipc/rpc.h\<close>). A message of the model also carries the number of its request, which the code does not store, and \<open>delivered\<close>
  records which message was handed to which port. Ports and the transfer of messages belong to the kernel core: its answers to the calls made for
  a job are the arguments \<open>job_io\<close> and \<open>attempt\<close>. Names are not cut off: the callers pass names that fit into the buffers.
\<close>

section \<open>Definitions\<close>

datatype coop_state = IPC_RPC_COOP_ST_NONE | IPC_RPC_COOP_ST_NEED_REPLY | IPC_RPC_COOP_ST_NESTED_SEND | IPC_RPC_COOP_ST_NESTED_RECV

datatype 'q coop_msg = M_REPLY nat int | M_REQUEST nat 'q u64

record ipc_rpc_coop_job =
  job_id :: nat
  job_state :: coop_state
  reply_port :: "u8 list"
  job_result :: int
  nested_server :: "u8 list"
  nest_cookie :: u64
  nest_token :: "u8 list"
  nested_result :: int
  reply_payload_queued :: bool

record ('q, 's) coop =
  jobs :: "ipc_rpc_coop_job list"
  send_owner :: "nat option"
  send_queue :: "'q coop_msg list"
  nest_cookie_seq :: u64
  next_job :: nat
  delivered :: "(u8 list \<times> 'q coop_msg) list"
  server :: 's

datatype send_out = S_OK | S_PORT_CLOSED | S_AGAIN | S_NO_MSG | S_OTHER

text \<open>
  The two lookups of a port, whether the message can be made and queued, the outcome of the send, and whether a send that failed has consumed the
  message.
\<close>

record job_io =
  io_port1 :: bool
  io_port2 :: bool
  io_create :: bool
  io_enqueue :: bool
  io_send :: send_out
  io_dropped :: bool

definition job_of :: "('q, 's) coop \<Rightarrow> nat \<Rightarrow> ipc_rpc_coop_job option" where
  "job_of q j = find (\<lambda>x. job_id x = j) (jobs q)"

definition put_job :: "ipc_rpc_coop_job \<Rightarrow> ('q, 's) coop \<Rightarrow> ('q, 's) coop" where
  "put_job x q = q\<lparr>jobs := map (\<lambda>y. if job_id y = job_id x then x else y) (jobs q)\<rparr>"

text \<open>The effect of a send to \<open>port\<close> with a given outcome on the send queue of the thread.\<close>

definition core_send :: "u8 list \<Rightarrow> send_out \<Rightarrow> bool \<Rightarrow> ('q, 's) coop \<Rightarrow> send_out \<times> ('q, 's) coop" where
  "core_send port out dropped q =
     (case send_queue q of
        [] \<Rightarrow> (if out = S_OK then S_NO_MSG else out, q)
      | m # ms \<Rightarrow>
          if out = S_OK then (S_OK, q\<lparr>send_queue := ms, delivered := delivered q @ [(port, m)]\<rparr>)
          else (out, if dropped then q\<lparr>send_queue := ms\<rparr> else q))"

text \<open>
  What the code relies on: a send that is to be tried again keeps the message, and a send to a closed port does not (``core dropped the orphan'').
\<close>

definition io_law :: "job_io \<Rightarrow> bool" where
  "io_law io \<longleftrightarrow> (io_send io = S_AGAIN \<longrightarrow> \<not> io_dropped io) \<and> (io_send io = S_PORT_CLOSED \<longrightarrow> io_dropped io)"

definition ipc_rpc_abandon_current_send_payload :: "('q, 's) coop \<Rightarrow> ('q, 's) coop" where
  "ipc_rpc_abandon_current_send_payload q = q\<lparr>send_queue := tl (send_queue q)\<rparr>"

definition ipc_rpc_coop_clear_send_owner :: "ipc_rpc_coop_job \<Rightarrow> ('q, 's) coop \<Rightarrow> ipc_rpc_coop_job \<times> ('q, 's) coop" where
  "ipc_rpc_coop_clear_send_owner x q =
     (if send_owner q = Some (job_id x) then
        if reply_payload_queued x
        then (x\<lparr>reply_payload_queued := False\<rparr>,
              put_job (x\<lparr>reply_payload_queued := False\<rparr>) (ipc_rpc_abandon_current_send_payload (q\<lparr>send_owner := None\<rparr>)))
        else (x, q\<lparr>send_owner := None\<rparr>)
      else (x, q))"

definition ipc_rpc_coop_nested_clear :: "ipc_rpc_coop_job \<Rightarrow> ipc_rpc_coop_job" where
  "ipc_rpc_coop_nested_clear x = x\<lparr>nest_cookie := 0, nest_token := [], nested_server := []\<rparr>"

definition ipc_rpc_coop_queue_init :: "('q, 's) coop \<Rightarrow> ('q, 's) coop" where
  "ipc_rpc_coop_queue_init q = q\<lparr>jobs := [], send_owner := None\<rparr>"

definition ipc_rpc_coop_job_create :: "bool \<Rightarrow> u8 list \<Rightarrow> ('q, 's) coop \<Rightarrow> nat option \<times> ('q, 's) coop" where
  "ipc_rpc_coop_job_create alloc_ok port q =
     (if port = [] \<or> \<not> alloc_ok then (None, q)
      else (Some (next_job q),
            q\<lparr>next_job := next_job q + 1,
              jobs := jobs q @ [\<lparr>job_id = next_job q, job_state = IPC_RPC_COOP_ST_NONE, reply_port = port, job_result = 0, nested_server = [], nest_cookie = 0,
                                  nest_token = [], nested_result = 0, reply_payload_queued = False\<rparr>]\<rparr>))"

definition ipc_rpc_coop_job_set_result :: "nat \<Rightarrow> int \<Rightarrow> ('q, 's) coop \<Rightarrow> ('q, 's) coop" where
  "ipc_rpc_coop_job_set_result j result q =
     (case job_of q j of
        None \<Rightarrow> q
      | Some x \<Rightarrow>
          (case ipc_rpc_coop_clear_send_owner x q of
             (x1, q1) \<Rightarrow> put_job ((ipc_rpc_coop_nested_clear x1)\<lparr>job_result := result, job_state := IPC_RPC_COOP_ST_NEED_REPLY\<rparr>) q1))"

definition ipc_rpc_coop_job_release :: "nat \<Rightarrow> ('q, 's) coop \<Rightarrow> ('q, 's) coop" where
  "ipc_rpc_coop_job_release j q =
     (case job_of q j of
        None \<Rightarrow> q
      | Some x \<Rightarrow>
          (case ipc_rpc_coop_clear_send_owner x q of
             (x1, q1) \<Rightarrow> q1\<lparr>jobs := filter (\<lambda>y. job_id y \<noteq> j) (jobs q1)\<rparr>))"

datatype coop_err = C_OK | C_AGAIN | C_RENDEZVOS | C_NO_MSG | C_OTHER

definition send_err :: "send_out \<Rightarrow> coop_err" where
  "send_err out = (case out of S_OK \<Rightarrow> C_OK | S_AGAIN \<Rightarrow> C_AGAIN | S_NO_MSG \<Rightarrow> C_NO_MSG | _ \<Rightarrow> C_OTHER)"

text \<open>A nested call: the message of an earlier attempt is sent again, or a new message with a fresh token is queued and sent.\<close>

definition nested_resend :: "job_io \<Rightarrow> ipc_rpc_coop_job \<Rightarrow> ('q, 's) coop \<Rightarrow> coop_err \<times> ('q, 's) coop" where
  "nested_resend io x q =
     (if \<not> io_port1 io then (C_RENDEZVOS, q)
      else
        (case core_send (nested_server x) (io_send io) (io_dropped io) q of
           (out, q1) \<Rightarrow>
             if out = S_OK
             then (C_OK, put_job (x\<lparr>reply_payload_queued := False, job_state := IPC_RPC_COOP_ST_NESTED_RECV\<rparr>) (q1\<lparr>send_owner := None\<rparr>))
             else if out = S_AGAIN then (C_AGAIN, q1)
             else (send_err out, snd (ipc_rpc_coop_clear_send_owner x q1))))"

definition nested_first_send :: "job_io \<Rightarrow> ipc_rpc_coop_job \<Rightarrow> 'q \<Rightarrow> ('q, 's) coop \<Rightarrow> coop_err \<times> ('q, 's) coop" where
  "nested_first_send io x req q =
     (let q1 = put_job x (q\<lparr>send_queue := send_queue q @ [M_REQUEST (job_id x) req (nest_cookie x)], send_owner := Some (job_id x)\<rparr>) in
      (case core_send (nested_server x) (io_send io) (io_dropped io) q1 of
         (out, q2) \<Rightarrow>
           if out = S_OK
           then (C_OK, put_job (x\<lparr>reply_payload_queued := False, job_state := IPC_RPC_COOP_ST_NESTED_RECV\<rparr>) (q2\<lparr>send_owner := None\<rparr>))
           else if out = S_AGAIN then (C_AGAIN, q2)
           else
             (case ipc_rpc_coop_clear_send_owner x q2 of
                (x3, q3) \<Rightarrow> (send_err out, put_job ((ipc_rpc_coop_nested_clear x3)\<lparr>job_state := IPC_RPC_COOP_ST_NONE\<rparr>) q3))))"

definition nested_new :: "nat \<Rightarrow> job_io \<Rightarrow> ipc_rpc_coop_job \<Rightarrow> u8 list \<Rightarrow> 'q \<Rightarrow> ('q, 's) coop \<Rightarrow> coop_err \<times> ('q, 's) coop" where
  "nested_new name_max io x server_name req q =
     (let c1 = nest_cookie_seq q + 1;
          c = (if c1 = 0 then c1 + 1 else c1);
          q1 = q\<lparr>nest_cookie_seq := c\<rparr> in
      (case ipc_rpc_format_nest_token name_max c of
         None \<Rightarrow> (C_RENDEZVOS, put_job (ipc_rpc_coop_nested_clear x) q1)
       | Some tok \<Rightarrow>
           if \<not> io_port1 io \<or> \<not> io_create io then (C_RENDEZVOS, put_job (ipc_rpc_coop_nested_clear x) q1)
           else if \<not> io_enqueue io then (C_OTHER, put_job (ipc_rpc_coop_nested_clear x) q1)
           else nested_first_send io
                  (x\<lparr>nest_cookie := c, nest_token := tok, nested_server := server_name, reply_payload_queued := True, job_state := IPC_RPC_COOP_ST_NESTED_SEND\<rparr>)
                  req q1))"

definition ipc_rpc_coop_nested_call :: "nat \<Rightarrow> job_io \<Rightarrow> nat \<Rightarrow> u8 list \<Rightarrow> 'q \<Rightarrow> ('q, 's) coop \<Rightarrow> coop_err \<times> ('q, 's) coop" where
  "ipc_rpc_coop_nested_call name_max io j server_name req q =
     (case job_of q j of
        None \<Rightarrow> (C_OTHER, q)
      | Some x \<Rightarrow>
          if send_owner q \<noteq> None \<and> send_owner q \<noteq> Some j then (C_AGAIN, q)
          else if job_state x = IPC_RPC_COOP_ST_NESTED_SEND \<and> reply_payload_queued x \<and> send_owner q = Some j then nested_resend io x q
          else if job_state x \<noteq> IPC_RPC_COOP_ST_NONE then (C_AGAIN, q)
          else nested_new name_max io x server_name req q)"

text \<open>Sending a reply. The code returns success when the job is done with, also when the client is gone.\<close>

definition client_send :: "job_io \<Rightarrow> ipc_rpc_coop_job \<Rightarrow> ('q, 's) coop \<Rightarrow> coop_err \<times> ('q, 's) coop" where
  "client_send io x q =
     (if \<not> io_port2 io then (C_OK, snd (ipc_rpc_coop_clear_send_owner x q))
      else
        (case core_send (reply_port x) (io_send io) (io_dropped io) q of
           (out, q1) \<Rightarrow>
             if out = S_OK \<or> out = S_PORT_CLOSED
             then (C_OK, put_job (x\<lparr>reply_payload_queued := False\<rparr>) (q1\<lparr>send_owner := None\<rparr>))
             else if out = S_AGAIN then (C_AGAIN, q1)
             else (send_err out, snd (ipc_rpc_coop_clear_send_owner x q1))))"

definition ipc_rpc_coop_try_client_reply :: "job_io \<Rightarrow> nat \<Rightarrow> ('q, 's) coop \<Rightarrow> coop_err \<times> ('q, 's) coop" where
  "ipc_rpc_coop_try_client_reply io j q =
     (case job_of q j of
        None \<Rightarrow> (C_OTHER, q)
      | Some x \<Rightarrow>
          if job_state x \<noteq> IPC_RPC_COOP_ST_NEED_REPLY then (C_OTHER, q)
          else if send_owner q \<noteq> None \<and> send_owner q \<noteq> Some j then (C_AGAIN, q)
          else if reply_payload_queued x then client_send io x q
          else if \<not> io_port1 io then (C_OK, q)
          else if \<not> io_create io then (C_RENDEZVOS, q)
          else if \<not> io_enqueue io then (C_OTHER, q)
          else
            let x1 = x\<lparr>reply_payload_queued := True\<rparr> in
            client_send io x1 (put_job x1 (q\<lparr>send_queue := send_queue q @ [M_REPLY j (job_result x)], send_owner := Some j\<rparr>)))"

text \<open>A reply to a nested call; \<open>resume\<close> is the function that the server has set, if any.\<close>

definition ipc_rpc_coop_try_apply_nest_resp :: "(nat \<Rightarrow> int \<Rightarrow> ('q, 's) coop \<Rightarrow> ('q, 's) coop) option \<Rightarrow> u64 \<Rightarrow> int \<Rightarrow> ('q, 's) coop \<Rightarrow> ('q, 's) coop" where
  "ipc_rpc_coop_try_apply_nest_resp resume cookie res q =
     (case find (\<lambda>x. job_state x = IPC_RPC_COOP_ST_NESTED_RECV \<and> nest_cookie x = cookie) (jobs q) of
        None \<Rightarrow> q
      | Some x \<Rightarrow>
          let q1 = put_job ((ipc_rpc_coop_nested_clear x)\<lparr>nested_result := res, job_state := IPC_RPC_COOP_ST_NONE\<rparr>) q in
          (case resume of
             None \<Rightarrow> ipc_rpc_coop_job_set_result (job_id x) res q1
           | Some f \<Rightarrow> f (job_id x) res q1))"

text \<open>The end of a nested call whose message cannot be sent.\<close>

definition nested_send_failed :: "nat \<Rightarrow> ipc_rpc_coop_job \<Rightarrow> ('q, 's) coop \<Rightarrow> ('q, 's) coop" where
  "nested_send_failed j x q =
     (case ipc_rpc_coop_clear_send_owner x q of
        (x1, q1) \<Rightarrow> ipc_rpc_coop_job_set_result j (- LINUX_EIO) (put_job ((ipc_rpc_coop_nested_clear x1)\<lparr>job_state := IPC_RPC_COOP_ST_NONE\<rparr>) q1))"

text \<open>One job of a poll.\<close>

definition poll_job :: "job_io \<Rightarrow> nat \<Rightarrow> ('q, 's) coop \<Rightarrow> ('q, 's) coop" where
  "poll_job io j q =
     (case job_of q j of
        None \<Rightarrow> q
      | Some x \<Rightarrow>
          (case job_state x of
             IPC_RPC_COOP_ST_NESTED_SEND \<Rightarrow>
               if send_owner q \<noteq> Some j then q
               else if \<not> io_port1 io then nested_send_failed j x q
               else
                 (case core_send (nested_server x) (io_send io) (io_dropped io) q of
                    (out, q1) \<Rightarrow>
                      if out = S_OK
                      then put_job (x\<lparr>reply_payload_queued := False, job_state := IPC_RPC_COOP_ST_NESTED_RECV\<rparr>) (q1\<lparr>send_owner := None\<rparr>)
                      else if out = S_AGAIN then q1
                      else nested_send_failed j x q1)
           | IPC_RPC_COOP_ST_NEED_REPLY \<Rightarrow>
               (case ipc_rpc_coop_try_client_reply io j q of
                  (e, q1) \<Rightarrow> if e = C_OK then ipc_rpc_coop_job_release j q1 else q1)
           | _ \<Rightarrow> q))"

fun poll_jobs_loop :: "(nat \<Rightarrow> job_io) \<Rightarrow> nat list \<Rightarrow> ('q, 's) coop \<Rightarrow> ('q, 's) coop" where
  "poll_jobs_loop io [] q = q"
| "poll_jobs_loop io (j # js) q = poll_jobs_loop io js (poll_job (io j) j q)"

definition ipc_rpc_coop_queue_poll :: "(nat \<Rightarrow> job_io) \<Rightarrow> ('q, 's) coop \<Rightarrow> ('q, 's) coop" where
  "ipc_rpc_coop_queue_poll io q = poll_jobs_loop io (map job_id (jobs q)) q"

subsection \<open>Accepting a request\<close>

datatype coop_disp = IPC_RPC_COOP_HANDLED int | IPC_RPC_COOP_PARKED | IPC_RPC_COOP_REPLIED

text \<open>The blocking reply: each attempt finds the port or not, and sends the first message of the queue. No attempt left means that the thread still waits.\<close>

record attempt =
  at_port :: bool
  at_create :: bool
  at_enqueue :: bool
  at_send :: send_out
  at_dropped :: bool

text \<open>
  What the code documents of the blocking send: to a closed port it drops the message. Whether another failure, which makes the code build the message again or give up,
  leaves the message in the queue is not said.
\<close>

definition attempt_law :: "attempt \<Rightarrow> bool" where
  "attempt_law a \<longleftrightarrow> (at_send a = S_PORT_CLOSED \<longrightarrow> at_dropped a)"

fun ipc_rpc_send_reply :: "u8 list \<Rightarrow> nat \<Rightarrow> int \<Rightarrow> attempt list \<Rightarrow> ('q, 's) coop \<Rightarrow> (bool \<times> ('q, 's) coop) option" where
  "ipc_rpc_send_reply port j result [] q = None"
| "ipc_rpc_send_reply port j result (a # as) q =
     (if \<not> at_port a then Some (True, q)
      else if \<not> at_create a \<or> \<not> at_enqueue a then ipc_rpc_send_reply port j result as q
      else
        (case core_send port (at_send a) (at_dropped a) (q\<lparr>send_queue := send_queue q @ [M_REPLY j result]\<rparr>) of
           (out, q1) \<Rightarrow>
             if out = S_OK \<or> out = S_PORT_CLOSED then Some (True, q1)
             else if out = S_NO_MSG \<or> out = S_AGAIN then ipc_rpc_send_reply port j result as q1
             else Some (False, q1)))"

definition ipc_rpc_reply :: "u8 list \<Rightarrow> nat \<Rightarrow> int \<Rightarrow> attempt list \<Rightarrow> ('q, 's) coop \<Rightarrow> ('q, 's) coop option" where
  "ipc_rpc_reply port j result as q = (if port = [] then Some q else map_option snd (ipc_rpc_send_reply port j result as q))"

text \<open>
  A message that the listening thread has received: the reply to a nested call (which may not be readable), the notice that the port is closed, or
  a request with its reply port and its contents, whose module is the one of the server or not.
\<close>

datatype 'm coop_recv = R_NEST u64 int | R_BAD_NEST | R_CLOSED | R_REQUEST bool "u8 list" 'm

text \<open>What the kernel core answers while a message is handled.\<close>

record recv_env =
  env_io :: "nat \<Rightarrow> job_io"
  env_attempts :: "attempt list"
  env_alloc :: bool

type_synonym ('m, 'q, 's) coop_handler = "nat \<Rightarrow> 'm \<Rightarrow> ('q, 's) coop \<Rightarrow> coop_disp \<times> ('q, 's) coop"
type_synonym ('q, 's) coop_resume = "(nat \<Rightarrow> int \<Rightarrow> ('q, 's) coop \<Rightarrow> ('q, 's) coop) option"

text \<open>A request that gets no job is answered at once with the blocking reply.\<close>

definition error_reply :: "u8 list \<Rightarrow> int \<Rightarrow> attempt list \<Rightarrow> ('q, 's) coop \<Rightarrow> ('q, 's) coop option" where
  "error_reply port result as q = ipc_rpc_reply port (next_job q) result as (q\<lparr>next_job := next_job q + 1\<rparr>)"

definition ipc_rpc_coop_accept_one ::
  "('m, 'q, 's) coop_handler \<Rightarrow> recv_env \<Rightarrow> bool \<Rightarrow> u8 list \<Rightarrow> 'm \<Rightarrow> ('q, 's) coop \<Rightarrow> ('q, 's) coop option" where
  "ipc_rpc_coop_accept_one handler env module_ok port m q =
     (if \<not> module_ok then error_reply port (- LINUX_EIO) (env_attempts env) q
      else
        (case ipc_rpc_coop_job_create (env_alloc env) port q of
           (None, q1) \<Rightarrow> error_reply port (- LINUX_ENOMEM) (env_attempts env) q1
         | (Some j, q1) \<Rightarrow>
             (case handler j m q1 of
                (IPC_RPC_COOP_REPLIED, q2) \<Rightarrow> Some (ipc_rpc_coop_job_release j q2)
              | (IPC_RPC_COOP_PARKED, q2) \<Rightarrow> Some q2
              | (IPC_RPC_COOP_HANDLED result, q2) \<Rightarrow>
                  Some (ipc_rpc_coop_queue_poll (env_io env)
                    (if map_option job_state (job_of q2 j) \<noteq> Some IPC_RPC_COOP_ST_NEED_REPLY then ipc_rpc_coop_job_set_result j result q2 else q2)))))"

text \<open>The messages are taken until there are no more, or until the port was closed; what is left is handled in the next turn.\<close>

fun ipc_rpc_coop_drain_recv ::
  "('m, 'q, 's) coop_handler \<Rightarrow> ('q, 's) coop_resume \<Rightarrow> (recv_env \<times> 'm coop_recv) list \<Rightarrow> ('q, 's) coop \<Rightarrow> ((recv_env \<times> 'm coop_recv) list \<times> ('q, 's) coop) option" where
  "ipc_rpc_coop_drain_recv handler resume [] q = Some ([], q)"
| "ipc_rpc_coop_drain_recv handler resume ((env, msg) # ms) q =
     (case msg of
        R_NEST cookie res \<Rightarrow> ipc_rpc_coop_drain_recv handler resume ms (ipc_rpc_coop_try_apply_nest_resp resume cookie res q)
      | R_BAD_NEST \<Rightarrow> ipc_rpc_coop_drain_recv handler resume ms q
      | R_CLOSED \<Rightarrow> Some (ms, q)
      | R_REQUEST module_ok port m \<Rightarrow>
          (case ipc_rpc_coop_accept_one handler env module_ok port m q of
             None \<Rightarrow> None
           | Some q1 \<Rightarrow> ipc_rpc_coop_drain_recv handler resume ms q1))"

text \<open>
  One turn of the server loop: a poll, the messages that are there (\<open>ms1\<close>, which may be replies to nested calls), a second poll, and the messages that the
  receive of this turn brings (\<open>ms2\<close>, empty when nothing came or the port was closed).
\<close>

definition ipc_rpc_coop_server_turn ::
  "('m, 'q, 's) coop_handler \<Rightarrow> ('q, 's) coop_resume \<Rightarrow> (nat \<Rightarrow> job_io) \<Rightarrow> (recv_env \<times> 'm coop_recv) list \<Rightarrow> (nat \<Rightarrow> job_io) \<Rightarrow> (recv_env \<times> 'm coop_recv) list
   \<Rightarrow> ('q, 's) coop \<Rightarrow> ((recv_env \<times> 'm coop_recv) list \<times> ('q, 's) coop) option" where
  "ipc_rpc_coop_server_turn handler resume io1 ms1 io2 ms2 q =
     (case ipc_rpc_coop_drain_recv handler resume ms1 (ipc_rpc_coop_queue_poll io1 q) of
        None \<Rightarrow> None
      | Some (left, q1) \<Rightarrow> ipc_rpc_coop_drain_recv handler resume (left @ ms2) (ipc_rpc_coop_queue_poll io2 q1))"

end
