(* ===== verification/Rpc_Coop_Inv.thy ===== *)
theory Rpc_Coop_Inv
  imports Rpc_Coop
begin

text \<open>
  The cooperative server keeps its promises: the send queue of the thread holds at most the message of the job that owns it, every reply goes to the port
  that its request named, no request is answered twice, and two polls answer all requests that have a result. This holds for every history in which the error replies of the
  framework itself find the send queue free and leave no message behind; otherwise replies are swapped. The framework and the server proper meet in
  the locale \<open>coop_server\<close>.
\<close>

section \<open>Well-formed queues\<close>

definition msg_of :: "ipc_rpc_coop_job \<Rightarrow> 'q coop_msg \<Rightarrow> bool" where
  "msg_of x m \<longleftrightarrow> (job_state x = IPC_RPC_COOP_ST_NEED_REPLY \<and> m = M_REPLY (job_id x) (job_result x))
     \<or> (job_state x = IPC_RPC_COOP_ST_NESTED_SEND \<and> (\<exists>r. m = M_REQUEST (job_id x) r (nest_cookie x)))"

definition slot_ok :: "('q, 's) coop \<Rightarrow> bool" where
  "slot_ok q \<longleftrightarrow>
     (case send_owner q of
        None \<Rightarrow> send_queue q = [] \<and> (\<forall>x \<in> set (jobs q). \<not> reply_payload_queued x)
      | Some j \<Rightarrow> (\<exists>x \<in> set (jobs q). \<exists>m. job_id x = j \<and> reply_payload_queued x \<and> send_queue q = [m] \<and> msg_of x m)
          \<and> (\<forall>y \<in> set (jobs q). reply_payload_queued y \<longrightarrow> job_id y = j))"

fun replies :: "(u8 list \<times> 'q coop_msg) list \<Rightarrow> nat list" where
  "replies [] = []"
| "replies ((p, M_REPLY j r) # d) = j # replies d"
| "replies ((p, M_REQUEST j r c) # d) = replies d"

definition replied :: "('q, 's) coop \<Rightarrow> nat list" where
  "replied q = replies (delivered q)"

text \<open>\<open>h\<close> is the history of the server: the reply port of each request.\<close>

definition coop_ok :: "(nat \<rightharpoonup> u8 list) \<Rightarrow> ('q, 's) coop \<Rightarrow> bool" where
  "coop_ok h q \<longleftrightarrow> slot_ok q
     \<and> distinct (replied q @ map job_id (jobs q)) \<and> (\<forall>j \<in> set (replied q) \<union> job_id ` set (jobs q). j < next_job q)
     \<and> (\<forall>x \<in> set (jobs q). h (job_id x) = Some (reply_port x))
     \<and> (\<forall>p j r. (p, M_REPLY j r) \<in> set (delivered q) \<longrightarrow> h j = Some p)"

lemma find_distinct: "distinct (map f xs) \<Longrightarrow> find (\<lambda>x. f x = k) xs = Some x \<longleftrightarrow> x \<in> set xs \<and> f x = k"
  by (induction xs) (auto split: if_splits)

lemma coop_ok_distinct: "coop_ok h q \<Longrightarrow> distinct (map job_id (jobs q))"
  by (simp add: coop_ok_def)

lemma job_of_Some: "coop_ok h q \<Longrightarrow> job_of q j = Some x \<longleftrightarrow> x \<in> set (jobs q) \<and> job_id x = j"
  unfolding job_of_def by (rule find_distinct [OF coop_ok_distinct])

lemma job_unique: "coop_ok h q \<Longrightarrow> x \<in> set (jobs q) \<Longrightarrow> y \<in> set (jobs q) \<Longrightarrow> job_id x = job_id y \<Longrightarrow> x = y"
  by (meson coop_ok_distinct distinct_map inj_onD)

lemma put_job_simps [simp]:
  "send_owner (put_job x q) = send_owner q" "send_queue (put_job x q) = send_queue q" "delivered (put_job x q) = delivered q"
  "next_job (put_job x q) = next_job q" "nest_cookie_seq (put_job x q) = nest_cookie_seq q"
  "map job_id (jobs (put_job x q)) = map job_id (jobs q)" "replied (put_job x q) = replied q"
  by (simp_all add: put_job_def replied_def)

lemma put_job_ids [simp]: "job_id ` set (jobs (put_job x q)) = job_id ` set (jobs q)"
  by (metis list.set_map put_job_simps(6))

lemma put_job_twice [simp]: "job_id y = job_id x \<Longrightarrow> put_job y (put_job x q) = put_job y q"
  by (simp add: put_job_def)

lemma set_put_job: "y \<in> set (jobs (put_job x q)) \<Longrightarrow> y = x \<or> y \<in> set (jobs q) \<and> job_id y \<noteq> job_id x"
  by (auto simp: put_job_def)

lemma put_job_mem: "x \<in> set (jobs q) \<Longrightarrow> job_id x' = job_id x \<Longrightarrow> x' \<in> set (jobs (put_job x' q))"
  by (force simp: put_job_def)

lemma replies_app [simp]: "replies (d @ e) = replies d @ replies e"
  by (induction d rule: replies.induct) simp_all

lemma coop_ok_own:
  assumes "coop_ok h q" "x \<in> set (jobs q)" "send_owner q = Some (job_id x)"
  obtains m where "send_queue q = [m]" "msg_of x m" "reply_payload_queued x"
proof -
  obtain y m where y: "y \<in> set (jobs q)" "job_id y = job_id x" "reply_payload_queued y" "send_queue q = [m]" "msg_of y m"
    using assms(1,3) by (auto simp: coop_ok_def slot_ok_def)
  then show thesis using that job_unique [OF assms(1) y(1) assms(2) y(2)] by simp
qed

lemma coop_ok_queued:
  assumes "coop_ok h q" "x \<in> set (jobs q)"
  shows "reply_payload_queued x \<longleftrightarrow> send_owner q = Some (job_id x)"
proof
  show "reply_payload_queued x \<Longrightarrow> send_owner q = Some (job_id x)"
    using assms by (auto simp: coop_ok_def slot_ok_def split: option.splits)
  show "send_owner q = Some (job_id x) \<Longrightarrow> reply_payload_queued x"
    using coop_ok_own [OF assms] by blast
qed

lemma coop_ok_delivered: "coop_ok h q \<Longrightarrow> (p, M_REPLY j r) \<in> set (delivered q) \<Longrightarrow> h j = Some p"
  unfolding coop_ok_def by blast

lemma coop_ok_port: "coop_ok h q \<Longrightarrow> x \<in> set (jobs q) \<Longrightarrow> h (job_id x) = Some (reply_port x)"
  unfolding coop_ok_def by blast

lemma coop_ok_free: "coop_ok h q \<Longrightarrow> send_owner q = None \<Longrightarrow> send_queue q = []"
  by (simp add: coop_ok_def slot_ok_def)

text \<open>The kinds of change of a queue: a job changes, a job takes the send queue, a job gives it up, and a job is removed.\<close>

definition same_job :: "ipc_rpc_coop_job \<Rightarrow> ipc_rpc_coop_job \<Rightarrow> bool" where
  "same_job x y \<longleftrightarrow> job_id x = job_id y \<and> reply_port x = reply_port y"

definition slot_freed :: "('q, 's) coop \<Rightarrow> ('q, 's) coop" where
  "slot_freed q = q\<lparr>send_queue := [], send_owner := None\<rparr>"

lemma coop_ok_put:
  assumes "coop_ok h q" "x \<in> set (jobs q)" "same_job x' x"
    and "jobs q1 = jobs q" "delivered q1 = delivered q" "next_job q1 = next_job q" "slot_ok (put_job x' q1)"
  shows "coop_ok h (put_job x' q1)"
proof -
  have "h (job_id y) = Some (reply_port y)" if "y \<in> set (jobs (put_job x' q1))" for y
    using set_put_job [OF that] assms(1-4) by (auto simp: coop_ok_def same_job_def)
  moreover have "replied q1 = replied q" using assms(5) by (simp add: replied_def)
  ultimately show ?thesis using assms(1,4-7) by (simp add: coop_ok_def)
qed

lemma coop_ok_touch:
  assumes "coop_ok h q" "x \<in> set (jobs q)" "same_job x' x" "send_owner q \<noteq> Some (job_id x)" "\<not> reply_payload_queued x'"
  shows "coop_ok h (put_job x' q)"
proof (rule coop_ok_put [OF assms(1-3) refl refl refl])
  show "slot_ok (put_job x' q)"
  proof (cases "send_owner q")
    case None
    then show ?thesis using assms set_put_job [of _ x' q] by (auto simp: slot_ok_def coop_ok_def)
  next
    case (Some j)
    then obtain y m where y: "y \<in> set (jobs q)" "job_id y = j" "reply_payload_queued y" "send_queue q = [m]" "msg_of y m"
      using assms(1) by (auto simp: coop_ok_def slot_ok_def)
    have "y \<in> set (jobs (put_job x' q))" using y assms(3,4) Some by (force simp: put_job_def same_job_def)
    moreover have "reply_payload_queued z \<Longrightarrow> job_id z = j" if "z \<in> set (jobs (put_job x' q))" for z
      using set_put_job [OF that] assms(1,5) Some by (auto simp: coop_ok_def slot_ok_def)
    ultimately show ?thesis using Some y by (auto simp: slot_ok_def)
  qed
qed

lemma coop_ok_claim:
  assumes "coop_ok h q" "x \<in> set (jobs q)" "same_job x' x" "send_owner q = None" "reply_payload_queued x'" "msg_of x' m"
  shows "coop_ok h (put_job x' (q\<lparr>send_queue := [m], send_owner := Some (job_id x)\<rparr>))" (is "coop_ok h (put_job x' ?q)")
proof -
  have "slot_ok (put_job x' ?q)"
  proof -
    have "x' \<in> set (jobs (put_job x' ?q))" using assms(2,3) put_job_mem [of x ?q x'] by (simp add: same_job_def)
    moreover have "job_id z = job_id x" if "z \<in> set (jobs (put_job x' ?q))" "reply_payload_queued z" for z
      using set_put_job [OF that(1)] that(2) assms(3,4) coop_ok_queued [OF assms(1), of z] by (auto simp: same_job_def)
    ultimately show ?thesis using assms(3,5,6) by (auto simp: slot_ok_def same_job_def)
  qed
  then show ?thesis by (intro coop_ok_put [OF assms(1-3)]) simp_all
qed

lemma coop_ok_settle:
  assumes "coop_ok h q" "x \<in> set (jobs q)" "same_job x' x" "send_owner q \<in> {None, Some (job_id x)}" "\<not> reply_payload_queued x'"
  shows "coop_ok h (put_job x' (slot_freed q))"
proof -
  have "\<not> reply_payload_queued y" if "y \<in> set (jobs (put_job x' (slot_freed q)))" for y
    using set_put_job [OF that] assms coop_ok_queued [OF assms(1), of y] by (auto simp: slot_freed_def same_job_def)
  then have "slot_ok (put_job x' (slot_freed q))" by (simp add: slot_ok_def slot_freed_def)
  then show ?thesis by (intro coop_ok_put [OF assms(1-3)]) (simp_all add: slot_freed_def)
qed

lemma coop_ok_sent:
  assumes "coop_ok h q" "send_owner q = None"
  shows "coop_ok h (q\<lparr>delivered := delivered q @ [(p, M_REQUEST j r c)]\<rparr>)"
  using assms by (auto simp: coop_ok_def slot_ok_def replied_def)

lemma coop_ok_remove:
  assumes "coop_ok h q" "x \<in> set (jobs q)" "send_owner q \<in> {None, Some (job_id x)}" "d \<in> {[], [(reply_port x, M_REPLY (job_id x) r)]}"
  shows "coop_ok h ((slot_freed q)\<lparr>jobs := filter (\<lambda>y. job_id y \<noteq> job_id x) (jobs q), delivered := delivered q @ d\<rparr>)" (is "coop_ok h ?q")
proof -
  have ids: "map job_id (filter (\<lambda>y. job_id y \<noteq> job_id x) (jobs q)) = filter (\<lambda>i. i \<noteq> job_id x) (map job_id (jobs q))"
    by (simp add: filter_map comp_def)
  have "slot_ok ?q" using assms coop_ok_queued [OF assms(1)] by (auto simp: slot_ok_def slot_freed_def)
  moreover have "distinct (replied ?q @ map job_id (jobs ?q))" using assms by (auto simp: coop_ok_def replied_def ids slot_freed_def distinct_map)
  moreover have "h (job_id x) = Some (reply_port x)" "job_id x < next_job q" using assms by (auto simp: coop_ok_def)
  moreover have "set (replied ?q) \<subseteq> insert (job_id x) (set (replied q))" using assms(4) by (auto simp: replied_def)
  moreover have "(p, M_REPLY j r') \<in> set (delivered ?q) \<Longrightarrow> h j = Some p" for p j r'
    using coop_ok_delivered [OF assms(1)] coop_ok_port [OF assms(1,2)] assms(4) by auto
  ultimately show ?thesis using assms(1) unfolding coop_ok_def by (auto simp: slot_freed_def)
qed

lemma coop_ok_server [simp]: "coop_ok h (q\<lparr>server := s\<rparr>) = coop_ok h q"
  by (simp add: coop_ok_def slot_ok_def replied_def split: option.split)

lemma coop_ok_seq [simp]: "coop_ok h (q\<lparr>nest_cookie_seq := c\<rparr>) = coop_ok h q"
  by (simp add: coop_ok_def slot_ok_def replied_def split: option.split)

section \<open>Every operation keeps the queue well-formed\<close>

lemma same_job_simps [simp]:
  "same_job x x" "same_job (y\<lparr>job_state := s\<rparr>) x = same_job y x" "same_job (y\<lparr>job_result := r\<rparr>) x = same_job y x"
  "same_job (y\<lparr>reply_payload_queued := b\<rparr>) x = same_job y x" "same_job (y\<lparr>nested_server := p\<rparr>) x = same_job y x"
  "same_job (y\<lparr>nest_cookie := c\<rparr>) x = same_job y x" "same_job (y\<lparr>nest_token := p\<rparr>) x = same_job y x"
  "same_job (y\<lparr>nested_result := r\<rparr>) x = same_job y x" "same_job (ipc_rpc_coop_nested_clear y) x = same_job y x"
  by (simp_all add: same_job_def ipc_rpc_coop_nested_clear_def)

lemma nested_clear_simps [simp]:
  "job_id (ipc_rpc_coop_nested_clear x) = job_id x" "reply_payload_queued (ipc_rpc_coop_nested_clear x) = reply_payload_queued x"
  by (simp_all add: ipc_rpc_coop_nested_clear_def)

lemma clear_owner_own:
  assumes "coop_ok h q" "x \<in> set (jobs q)" "send_owner q = Some (job_id x)" "q1 \<in> {q, q\<lparr>send_queue := []\<rparr>}"
  shows "ipc_rpc_coop_clear_send_owner x q1 = (x\<lparr>reply_payload_queued := False\<rparr>, put_job (x\<lparr>reply_payload_queued := False\<rparr>) (slot_freed q))"
proof -
  obtain m where "send_queue q = [m]" "reply_payload_queued x" by (rule coop_ok_own [OF assms(1-3)])
  then show ?thesis using assms(3,4)
    by (auto simp: ipc_rpc_coop_clear_send_owner_def ipc_rpc_abandon_current_send_payload_def slot_freed_def put_job_def)
qed

lemma clear_owner_other: "send_owner q \<noteq> Some (job_id x) \<Longrightarrow> ipc_rpc_coop_clear_send_owner x q = (x, q)"
  by (simp add: ipc_rpc_coop_clear_send_owner_def)

lemma set_result_eq:
  assumes "coop_ok h q" "x \<in> set (jobs q)"
  shows "ipc_rpc_coop_job_set_result (job_id x) r q =
    put_job ((ipc_rpc_coop_nested_clear x)\<lparr>job_result := r, job_state := IPC_RPC_COOP_ST_NEED_REPLY, reply_payload_queued := False\<rparr>)
      (if send_owner q = Some (job_id x) then slot_freed q else q)"
proof -
  have x: "job_of q (job_id x) = Some x" using job_of_Some [OF assms(1)] assms(2) by blast
  show ?thesis
  proof (cases "send_owner q = Some (job_id x)")
    case True
    then show ?thesis using x clear_owner_own [OF assms True, of q]
      by (cases x) (simp add: ipc_rpc_coop_job_set_result_def ipc_rpc_coop_nested_clear_def)
  next
    case False
    then have "\<not> reply_payload_queued x" using coop_ok_queued [OF assms] by simp
    then show ?thesis using x False
      by (cases x) (simp add: ipc_rpc_coop_job_set_result_def clear_owner_other ipc_rpc_coop_nested_clear_def)
  qed
qed

lemma set_result_none: "job_of q j = None \<Longrightarrow> ipc_rpc_coop_job_set_result j r q = q"
  by (simp add: ipc_rpc_coop_job_set_result_def)

lemma set_result_ok:
  assumes "coop_ok h q"
  shows "coop_ok h (ipc_rpc_coop_job_set_result j r q)"
proof (cases "job_of q j")
  case None
  then show ?thesis using assms by (simp add: set_result_none)
next
  case (Some x)
  then have x: "x \<in> set (jobs q)" "job_id x = j" using job_of_Some [OF assms] by simp_all
  show ?thesis
    using set_result_eq [OF assms x(1), of r] coop_ok_settle [OF assms x(1)] coop_ok_touch [OF assms x(1)] x(2)
    by (simp split: if_splits)
qed

text \<open>The send of the message in the slot: it is handed over, kept, or dropped.\<close>

lemma core_send_own:
  assumes "coop_ok h q" "x \<in> set (jobs q)" "send_owner q = Some (job_id x)" "io_law io"
  obtains m where "msg_of x m" "reply_payload_queued x" "send_queue q = [m]"
    "core_send p (io_send io) (io_dropped io) q
      = (io_send io, if io_send io = S_OK then q\<lparr>send_queue := [], delivered := delivered q @ [(p, m)]\<rparr>
                     else if io_dropped io then q\<lparr>send_queue := []\<rparr> else q)"
proof -
  obtain m where "send_queue q = [m]" "msg_of x m" "reply_payload_queued x" by (rule coop_ok_own [OF assms(1-3)])
  then show thesis using that by (simp add: core_send_def)
qed

lemma slot_ok_send: "coop_ok h q \<Longrightarrow> jobs q1 = jobs q \<Longrightarrow> delivered q1 = delivered q \<Longrightarrow> next_job q1 = next_job q \<Longrightarrow> slot_ok q1 \<Longrightarrow> coop_ok h q1"
  by (simp add: coop_ok_def replied_def)

lemma put_job_delivered: "put_job x (q\<lparr>delivered := d\<rparr>) = (put_job x q)\<lparr>delivered := d\<rparr>"
  by (simp add: put_job_def)

lemma nested_sent_ok:
  assumes "coop_ok h q" "x \<in> set (jobs q)" "send_owner q = Some (job_id x)" "io_law io" "job_state x = IPC_RPC_COOP_ST_NESTED_SEND"
    and "core_send p (io_send io) (io_dropped io) q = (S_OK, q1)" "same_job x' x" "\<not> reply_payload_queued x'"
  shows "coop_ok h (put_job x' (q1\<lparr>send_owner := None\<rparr>))"
proof -
  obtain m where m: "msg_of x m" "core_send p (io_send io) (io_dropped io) q
      = (io_send io, if io_send io = S_OK then q\<lparr>send_queue := [], delivered := delivered q @ [(p, m)]\<rparr>
                     else if io_dropped io then q\<lparr>send_queue := []\<rparr> else q)"
    by (rule core_send_own [OF assms(1-4), of p])
  obtain r where r: "m = M_REQUEST (job_id x) r (nest_cookie x)" using m(1) assms(5) by (auto simp: msg_of_def)
  have "q1 = q\<lparr>send_queue := [], delivered := delivered q @ [(p, m)]\<rparr>" using m(2) assms(6) by auto
  then have "put_job x' (q1\<lparr>send_owner := None\<rparr>)
      = (put_job x' (slot_freed q))\<lparr>delivered := delivered (put_job x' (slot_freed q)) @ [(p, m)]\<rparr>"
    by (simp add: put_job_def slot_freed_def)
  then show ?thesis
    using coop_ok_sent [OF coop_ok_settle [OF assms(1,2,7) _ assms(8)], of p] assms(3) r by (simp add: slot_freed_def)
qed

lemma nested_failed_ok:
  assumes "coop_ok h q" "x \<in> set (jobs q)" "send_owner q = Some (job_id x)" "io_law io"
    and "core_send p (io_send io) (io_dropped io) q = (out, q1)" "out \<noteq> S_OK"
  shows "ipc_rpc_coop_clear_send_owner x q1 = (x\<lparr>reply_payload_queued := False\<rparr>, put_job (x\<lparr>reply_payload_queued := False\<rparr>) (slot_freed q))"
proof -
  obtain m where "core_send p (io_send io) (io_dropped io) q
      = (io_send io, if io_send io = S_OK then q\<lparr>send_queue := [], delivered := delivered q @ [(p, m)]\<rparr>
                     else if io_dropped io then q\<lparr>send_queue := []\<rparr> else q)"
    by (rule core_send_own [OF assms(1-4), of p])
  then have "q1 \<in> {q, q\<lparr>send_queue := []\<rparr>}" using assms(5,6) by (auto split: if_splits)
  then show ?thesis by (rule clear_owner_own [OF assms(1-3)])
qed

lemma send_again:
  assumes "coop_ok h q" "x \<in> set (jobs q)" "send_owner q = Some (job_id x)" "io_law io" "core_send p (io_send io) (io_dropped io) q = (S_AGAIN, q1)"
  shows "q1 = q"
proof -
  obtain m where "core_send p (io_send io) (io_dropped io) q
      = (io_send io, if io_send io = S_OK then q\<lparr>send_queue := [], delivered := delivered q @ [(p, m)]\<rparr>
                     else if io_dropped io then q\<lparr>send_queue := []\<rparr> else q)"
    by (rule core_send_own [OF assms(1-4), of p])
  then show ?thesis using assms(4,5) by (auto simp: io_law_def)
qed

lemma nested_first_send_ok:
  assumes "coop_ok h q" "x \<in> set (jobs q)" "send_owner q = None" "io_law io"
    and x2: "same_job x2 x" "reply_payload_queued x2" "job_state x2 = IPC_RPC_COOP_ST_NESTED_SEND"
  shows "coop_ok h (snd (nested_first_send io x2 req q))"
proof -
  have id: "job_id x2 = job_id x" using x2(1) by (simp add: same_job_def)
  define q1 where "q1 = put_job x2 (q\<lparr>send_queue := [M_REQUEST (job_id x) req (nest_cookie x2)], send_owner := Some (job_id x)\<rparr>)"
  have "msg_of x2 (M_REQUEST (job_id x) req (nest_cookie x2))" using x2 id by (simp add: msg_of_def)
  then have ok: "coop_ok h q1" unfolding q1_def by (intro coop_ok_claim [OF assms(1,2) x2(1) assms(3) x2(2)])
  have mem: "x2 \<in> set (jobs q1)" unfolding q1_def using assms(2) id by (intro put_job_mem) simp_all
  have own: "send_owner q1 = Some (job_id x2)" unfolding q1_def using id by simp
  obtain out q2 where send: "core_send (nested_server x2) (io_send io) (io_dropped io) q1 = (out, q2)"
    by (cases "core_send (nested_server x2) (io_send io) (io_dropped io) q1")
  have eq: "nested_first_send io x2 req q =
      (if out = S_OK then (C_OK, put_job (x2\<lparr>reply_payload_queued := False, job_state := IPC_RPC_COOP_ST_NESTED_RECV\<rparr>) (q2\<lparr>send_owner := None\<rparr>))
       else if out = S_AGAIN then (C_AGAIN, q2)
       else (case ipc_rpc_coop_clear_send_owner x2 q2 of
              (x3, q3) \<Rightarrow> (send_err out, put_job ((ipc_rpc_coop_nested_clear x3)\<lparr>job_state := IPC_RPC_COOP_ST_NONE\<rparr>) q3)))"
    using send coop_ok_free [OF assms(1,3)] id by (simp add: nested_first_send_def q1_def)
  consider "out = S_OK" | "out = S_AGAIN" | "out \<noteq> S_OK" "out \<noteq> S_AGAIN" by blast
  then show ?thesis
  proof cases
    case 1
    then show ?thesis using eq nested_sent_ok [OF ok mem own assms(4) x2(3), of "nested_server x2" q2] send by simp
  next
    case 2
    then show ?thesis using eq send_again [OF ok mem own assms(4), of "nested_server x2" q2] send ok by simp
  next
    case 3
    then show ?thesis using eq nested_failed_ok [OF ok mem own assms(4) send 3(1)] coop_ok_settle [OF ok mem] own by simp
  qed
qed

lemma nested_resend_ok:
  assumes "coop_ok h q" "x \<in> set (jobs q)" "send_owner q = Some (job_id x)" "io_law io" "job_state x = IPC_RPC_COOP_ST_NESTED_SEND"
  shows "coop_ok h (snd (nested_resend io x q))"
proof -
  obtain out q1 where send: "core_send (nested_server x) (io_send io) (io_dropped io) q = (out, q1)"
    by (cases "core_send (nested_server x) (io_send io) (io_dropped io) q")
  have "coop_ok h (put_job (x\<lparr>reply_payload_queued := False\<rparr>) (slot_freed q))"
    using assms(3) by (intro coop_ok_settle [OF assms(1,2)]) simp_all
  then show ?thesis
    using send assms(1) nested_sent_ok [OF assms(1-5), of "nested_server x" q1] send_again [OF assms(1-4), of "nested_server x" q1]
      nested_failed_ok [OF assms(1-4) send]
    by (simp add: nested_resend_def)
qed

lemma nested_new_ok:
  assumes "coop_ok h q" "x \<in> set (jobs q)" "send_owner q = None" "io_law io"
  shows "coop_ok h (snd (nested_new name_max io x server_name req q))"
proof -
  define c where "c = (let c1 = nest_cookie_seq q + 1 in if c1 = 0 then c1 + 1 else c1)"
  have eq: "nested_new name_max io x server_name req q =
      (case ipc_rpc_format_nest_token name_max c of
         None \<Rightarrow> (C_RENDEZVOS, put_job (ipc_rpc_coop_nested_clear x) (q\<lparr>nest_cookie_seq := c\<rparr>))
       | Some tok \<Rightarrow>
           if \<not> io_port1 io \<or> \<not> io_create io then (C_RENDEZVOS, put_job (ipc_rpc_coop_nested_clear x) (q\<lparr>nest_cookie_seq := c\<rparr>))
           else if \<not> io_enqueue io then (C_OTHER, put_job (ipc_rpc_coop_nested_clear x) (q\<lparr>nest_cookie_seq := c\<rparr>))
           else nested_first_send io
                  (x\<lparr>nest_cookie := c, nest_token := tok, nested_server := server_name, reply_payload_queued := True, job_state := IPC_RPC_COOP_ST_NESTED_SEND\<rparr>)
                  req (q\<lparr>nest_cookie_seq := c\<rparr>))"
    unfolding nested_new_def Let_def c_def ..
  have base: "coop_ok h (q\<lparr>nest_cookie_seq := c\<rparr>)" "x \<in> set (jobs (q\<lparr>nest_cookie_seq := c\<rparr>))" "send_owner (q\<lparr>nest_cookie_seq := c\<rparr>) = None"
    using assms by simp_all
  have "\<not> reply_payload_queued x" using coop_ok_queued [OF assms(1,2)] assms(3) by simp
  then have "coop_ok h (put_job (ipc_rpc_coop_nested_clear x) (q\<lparr>nest_cookie_seq := c\<rparr>))"
    using base(3) by (intro coop_ok_touch [OF base(1,2)]) simp_all
  then show ?thesis
    using nested_first_send_ok [OF base assms(4)] by (simp add: eq split: option.split)
qed

lemma nested_call_ok:
  assumes "coop_ok h q" "io_law io"
  shows "coop_ok h (snd (ipc_rpc_coop_nested_call name_max io j server_name req q))"
proof (cases "job_of q j")
  case None
  then show ?thesis using assms by (simp add: ipc_rpc_coop_nested_call_def)
next
  case (Some x)
  then have x: "x \<in> set (jobs q)" "job_id x = j" using job_of_Some [OF assms(1)] by simp_all
  have none: "send_owner q = None" if "\<not> (send_owner q \<noteq> None \<and> send_owner q \<noteq> Some j)" "job_state x = IPC_RPC_COOP_ST_NONE"
  proof (rule ccontr)
    assume "send_owner q \<noteq> None"
    then have "send_owner q = Some (job_id x)" using that(1) x(2) by simp
    then obtain m where "send_queue q = [m]" "msg_of x m" "reply_payload_queued x" by (rule coop_ok_own [OF assms(1) x(1)])
    then show False using that(2) by (simp add: msg_of_def)
  qed
  define other where "other \<longleftrightarrow> send_owner q \<noteq> None \<and> send_owner q \<noteq> Some j"
  define again where "again \<longleftrightarrow> job_state x = IPC_RPC_COOP_ST_NESTED_SEND \<and> reply_payload_queued x \<and> send_owner q = Some j"
  have "coop_ok h (snd (nested_resend io x q))" if again
    using nested_resend_ok [OF assms(1) x(1) _ assms(2)] that x(2) by (simp add: again_def)
  moreover have "coop_ok h (snd (nested_new name_max io x server_name req q))" if "\<not> other" "job_state x = IPC_RPC_COOP_ST_NONE"
    using nested_new_ok [OF assms(1) x(1) none assms(2)] that by (simp add: other_def)
  moreover have "ipc_rpc_coop_nested_call name_max io j server_name req q =
      (if other then (C_AGAIN, q) else if again then nested_resend io x q
       else if job_state x \<noteq> IPC_RPC_COOP_ST_NONE then (C_AGAIN, q) else nested_new name_max io x server_name req q)"
    unfolding ipc_rpc_coop_nested_call_def Some other_def again_def by simp
  ultimately show ?thesis using assms(1) by simp
qed

lemma release_eq:
  assumes "coop_ok h q" "x \<in> set (jobs q)"
  shows "ipc_rpc_coop_job_release (job_id x) q =
    (if send_owner q = Some (job_id x) then slot_freed q else q)\<lparr>jobs := filter (\<lambda>y. job_id y \<noteq> job_id x) (jobs q)\<rparr>"
proof -
  have x: "job_of q (job_id x) = Some x" using job_of_Some [OF assms(1)] assms(2) by blast
  have filter_put: "job_id y = job_id x \<Longrightarrow> filter (\<lambda>y. job_id y \<noteq> job_id x) (jobs (put_job y p)) = filter (\<lambda>y. job_id y \<noteq> job_id x) (jobs p)" for y p
    by (auto simp: put_job_def filter_map comp_def intro!: map_idI cong: filter_cong)
  show ?thesis
  proof (cases "send_owner q = Some (job_id x)")
    case True
    then show ?thesis using x clear_owner_own [OF assms True, of q] filter_put [of "x\<lparr>reply_payload_queued := False\<rparr>" "slot_freed q"]
      by (simp add: ipc_rpc_coop_job_release_def slot_freed_def put_job_def)
  next
    case False
    then show ?thesis using x by (simp add: ipc_rpc_coop_job_release_def clear_owner_other)
  qed
qed

lemma remove_ok:
  assumes "coop_ok h q" "x \<in> set (jobs q)" "send_owner q \<in> {None, Some (job_id x)}"
    and "jobs q1 = filter (\<lambda>y. job_id y \<noteq> job_id x) (jobs q)" "send_queue q1 = []" "send_owner q1 = None" "next_job q1 = next_job q"
    and "delivered q1 \<in> {delivered q, delivered q @ [(reply_port x, M_REPLY (job_id x) r)]}"
  shows "coop_ok h q1"
proof -
  obtain d where d: "d \<in> {[], [(reply_port x, M_REPLY (job_id x) r)]}" "delivered q1 = delivered q @ d" using assms(8) by auto
  have "coop_ok h ((slot_freed q)\<lparr>jobs := filter (\<lambda>y. job_id y \<noteq> job_id x) (jobs q), delivered := delivered q @ d\<rparr>)"
    by (rule coop_ok_remove [OF assms(1-3) d(1)])
  then show ?thesis using assms(4-7) d(2) by (simp add: coop_ok_def slot_ok_def replied_def slot_freed_def)
qed

text \<open>What becomes of a job whose reply is in the send queue: it is answered or given up and removed, or it stays.\<close>

definition finish_reply :: "nat \<Rightarrow> coop_err \<times> ('q, 's) coop \<Rightarrow> ('q, 's) coop" where
  "finish_reply j r = (if fst r = C_OK then ipc_rpc_coop_job_release j (snd r) else snd r)"

lemma finish_reply_kept [simp]: "e \<noteq> C_OK \<Longrightarrow> finish_reply j (e, q) = q"
  by (simp add: finish_reply_def)

lemma filter_put [simp]:
  "job_id y = job_id x \<Longrightarrow> filter (\<lambda>y. job_id y \<noteq> job_id x) (jobs (put_job y p)) = filter (\<lambda>y. job_id y \<noteq> job_id x) (jobs p)"
  by (auto simp: put_job_def filter_map comp_def intro!: map_idI cong: filter_cong)

lemma release_put:
  assumes "distinct (map job_id (jobs q))" "x \<in> set (jobs q)" "send_owner q = None" "job_id y = job_id x"
  shows "ipc_rpc_coop_job_release (job_id x) (put_job y q) = q\<lparr>jobs := filter (\<lambda>y. job_id y \<noteq> job_id x) (jobs q)\<rparr>"
proof -
  have "job_of (put_job y q) (job_id x) = Some y"
    unfolding job_of_def using find_distinct [of job_id "jobs (put_job y q)" "job_id x" y] assms put_job_mem [OF assms(2,4)] by simp
  then show ?thesis using assms(3,4) filter_put [OF assms(4), of q]
    by (simp add: ipc_rpc_coop_job_release_def clear_owner_other put_job_def)
qed

lemma client_send_result:
  assumes "coop_ok h q" "x \<in> set (jobs q)" "send_owner q = Some (job_id x)" "io_law io" "job_state x = IPC_RPC_COOP_ST_NEED_REPLY"
  shows "finish_reply (job_id x) (client_send io x q)
    \<in> {q, put_job (x\<lparr>reply_payload_queued := False\<rparr>) (slot_freed q), (slot_freed q)\<lparr>jobs := filter (\<lambda>y. job_id y \<noteq> job_id x) (jobs q)\<rparr>,
       (slot_freed q)\<lparr>jobs := filter (\<lambda>y. job_id y \<noteq> job_id x) (jobs q), delivered := delivered q @ [(reply_port x, M_REPLY (job_id x) (job_result x))]\<rparr>}"
proof -
  note rel = release_put [where x = x and y = "x\<lparr>reply_payload_queued := False\<rparr>"]
  have dist: "distinct (map job_id (jobs q))" by (rule coop_ok_distinct [OF assms(1)])
  obtain m where m: "msg_of x m" "reply_payload_queued x" "send_queue q = [m]" "core_send (reply_port x) (io_send io) (io_dropped io) q
      = (io_send io, if io_send io = S_OK then q\<lparr>send_queue := [], delivered := delivered q @ [(reply_port x, m)]\<rparr>
                     else if io_dropped io then q\<lparr>send_queue := []\<rparr> else q)"
    by (rule core_send_own [OF assms(1-4), of "reply_port x"])
  have m': "m = M_REPLY (job_id x) (job_result x)" using m(1) assms(5) by (simp add: msg_of_def)
  show ?thesis
  proof (cases "io_port2 io")
    case False
    have "snd (ipc_rpc_coop_clear_send_owner x q) = put_job (x\<lparr>reply_payload_queued := False\<rparr>) (slot_freed q)"
      using clear_owner_own [OF assms(1-3), of q] by simp
    then show ?thesis using False rel [of "slot_freed q"] dist assms(2) by (simp add: client_send_def finish_reply_def slot_freed_def)
  next
    case True
    consider "io_send io = S_OK" | "io_send io = S_PORT_CLOSED" | "io_send io = S_AGAIN" | "io_send io \<in> {S_NO_MSG, S_OTHER}" by (cases "io_send io") auto
    then show ?thesis
    proof cases
      case 1
      have "ipc_rpc_coop_job_release (job_id x)
          (put_job (x\<lparr>reply_payload_queued := False\<rparr>) (q\<lparr>send_queue := [], delivered := delivered q @ [(reply_port x, m)], send_owner := None\<rparr>))
        = (slot_freed q)\<lparr>jobs := filter (\<lambda>y. job_id y \<noteq> job_id x) (jobs q), delivered := delivered q @ [(reply_port x, m)]\<rparr>"
        using rel [of "q\<lparr>send_queue := [], delivered := delivered q @ [(reply_port x, m)], send_owner := None\<rparr>"] dist assms(2)
        by (simp add: slot_freed_def)
      then show ?thesis using 1 True m(4) m' by (simp add: client_send_def finish_reply_def)
    next
      case 2
      then have "io_dropped io" using assms(4) by (simp add: io_law_def)
      then show ?thesis using 2 True m(4) rel [of "slot_freed q"] dist assms(2)
        by (simp add: client_send_def finish_reply_def slot_freed_def)
    next
      case 3
      then have "\<not> io_dropped io" using assms(4) by (simp add: io_law_def)
      then show ?thesis using 3 True m(4) by (simp add: client_send_def finish_reply_def)
    next
      case 4
      then show ?thesis using True m(4) nested_failed_ok [OF assms(1-4) m(4)]
        by (auto simp: client_send_def finish_reply_def send_err_def split: if_splits)
    qed
  qed
qed

lemma client_send_ok:
  assumes "coop_ok h q" "x \<in> set (jobs q)" "send_owner q = Some (job_id x)" "io_law io" "job_state x = IPC_RPC_COOP_ST_NEED_REPLY"
  shows "coop_ok h (finish_reply (job_id x) (client_send io x q))"
proof -
  have "coop_ok h (put_job (x\<lparr>reply_payload_queued := False\<rparr>) (slot_freed q))"
    using assms(3) by (intro coop_ok_settle [OF assms(1,2)]) simp_all
  moreover have "coop_ok h ((slot_freed q)\<lparr>jobs := filter (\<lambda>y. job_id y \<noteq> job_id x) (jobs q)\<rparr>)"
    using assms(3) by (intro remove_ok [OF assms(1,2)]) (simp_all add: slot_freed_def)
  moreover have "coop_ok h ((slot_freed q)\<lparr>jobs := filter (\<lambda>y. job_id y \<noteq> job_id x) (jobs q), delivered := delivered q @ [(reply_port x, M_REPLY (job_id x) (job_result x))]\<rparr>)"
    using assms(3) by (intro remove_ok [OF assms(1,2)]) (simp_all add: slot_freed_def)
  ultimately show ?thesis using client_send_result [OF assms] assms(1) by auto
qed

lemma try_reply_eq:
  assumes "coop_ok h q" "x \<in> set (jobs q)" "job_state x = IPC_RPC_COOP_ST_NEED_REPLY"
  shows "ipc_rpc_coop_try_client_reply io (job_id x) q =
    (if send_owner q = Some (job_id x) then client_send io x q
     else if send_owner q \<noteq> None then (C_AGAIN, q)
     else if \<not> io_port1 io then (C_OK, q)
     else if \<not> io_create io then (C_RENDEZVOS, q)
     else if \<not> io_enqueue io then (C_OTHER, q)
     else client_send io (x\<lparr>reply_payload_queued := True\<rparr>)
            (put_job (x\<lparr>reply_payload_queued := True\<rparr>) (q\<lparr>send_queue := [M_REPLY (job_id x) (job_result x)], send_owner := Some (job_id x)\<rparr>)))"
proof -
  have "job_of q (job_id x) = Some x" using job_of_Some [OF assms(1)] assms(2) by blast
  then show ?thesis using assms(3) coop_ok_queued [OF assms(1,2)] coop_ok_free [OF assms(1)]
    by (simp add: ipc_rpc_coop_try_client_reply_def Let_def)
qed

lemma reply_claim:
  assumes "coop_ok h q" "x \<in> set (jobs q)" "job_state x = IPC_RPC_COOP_ST_NEED_REPLY" "send_owner q = None"
    and "q1 = put_job (x\<lparr>reply_payload_queued := True\<rparr>) (q\<lparr>send_queue := [M_REPLY (job_id x) (job_result x)], send_owner := Some (job_id x)\<rparr>)"
  shows "coop_ok h q1" "x\<lparr>reply_payload_queued := True\<rparr> \<in> set (jobs q1)" "send_owner q1 = Some (job_id (x\<lparr>reply_payload_queued := True\<rparr>))"
proof -
  show "coop_ok h q1" unfolding assms(5)
    by (rule coop_ok_claim [OF assms(1,2) _ assms(4)]) (simp_all add: msg_of_def assms(3))
  show "x\<lparr>reply_payload_queued := True\<rparr> \<in> set (jobs q1)" unfolding assms(5) by (rule put_job_mem [of x]) (simp_all add: assms(2))
  show "send_owner q1 = Some (job_id (x\<lparr>reply_payload_queued := True\<rparr>))" unfolding assms(5) by simp
qed

lemma finish_try_reply_ok:
  assumes "coop_ok h q" "x \<in> set (jobs q)" "job_state x = IPC_RPC_COOP_ST_NEED_REPLY" "io_law io"
  shows "coop_ok h (finish_reply (job_id x) (ipc_rpc_coop_try_client_reply io (job_id x) q))"
proof (cases "send_owner q")
  case None
  have "coop_ok h (q\<lparr>jobs := filter (\<lambda>y. job_id y \<noteq> job_id x) (jobs q)\<rparr>)"
    using None coop_ok_free [OF assms(1) None] by (intro remove_ok [OF assms(1,2)]) simp_all
  then have "coop_ok h (finish_reply (job_id x) (C_OK, q))"
    using release_eq [OF assms(1,2)] None by (simp add: finish_reply_def)
  moreover have "coop_ok h (finish_reply (job_id x) (client_send io (x\<lparr>reply_payload_queued := True\<rparr>)
      (put_job (x\<lparr>reply_payload_queued := True\<rparr>) (q\<lparr>send_queue := [M_REPLY (job_id x) (job_result x)], send_owner := Some (job_id x)\<rparr>))))"
    using client_send_ok [OF reply_claim [OF assms(1-3) None refl] assms(4)] assms(3) by simp
  ultimately show ?thesis using try_reply_eq [OF assms(1-3), of io] None assms(1) by simp
next
  case (Some k)
  then show ?thesis
    using try_reply_eq [OF assms(1-3), of io] client_send_ok [OF assms(1,2) _ assms(4,3)] assms(1) by simp
qed

lemma nested_send_failed_ok:
  assumes "coop_ok h q" "x \<in> set (jobs q)" "send_owner q = Some (job_id x)"
    and "ipc_rpc_coop_clear_send_owner x q1 = (x\<lparr>reply_payload_queued := False\<rparr>, put_job (x\<lparr>reply_payload_queued := False\<rparr>) (slot_freed q))"
  shows "coop_ok h (nested_send_failed (job_id x) x q1)"
proof -
  have "coop_ok h (put_job ((ipc_rpc_coop_nested_clear (x\<lparr>reply_payload_queued := False\<rparr>))\<lparr>job_state := IPC_RPC_COOP_ST_NONE\<rparr>) (slot_freed q))"
    using assms(3) by (intro coop_ok_settle [OF assms(1,2)]) simp_all
  then show ?thesis using set_result_ok assms(4) by (simp add: nested_send_failed_def)
qed

lemma poll_job_ok:
  assumes "coop_ok h q" "io_law io"
  shows "coop_ok h (poll_job io j q)"
proof (cases "job_of q j")
  case None
  then show ?thesis using assms(1) by (simp add: poll_job_def)
next
  case (Some x)
  then have x: "x \<in> set (jobs q)" "job_id x = j" using job_of_Some [OF assms(1)] by simp_all
  show ?thesis
  proof (cases "job_state x")
    case IPC_RPC_COOP_ST_NEED_REPLY
    have "poll_job io j q = finish_reply j (ipc_rpc_coop_try_client_reply io j q)"
      using Some IPC_RPC_COOP_ST_NEED_REPLY by (simp add: poll_job_def finish_reply_def split: prod.split)
    then show ?thesis using finish_try_reply_ok [OF assms(1) x(1) IPC_RPC_COOP_ST_NEED_REPLY assms(2)] x(2) by simp
  next
    case IPC_RPC_COOP_ST_NESTED_SEND
    show ?thesis
    proof (cases "send_owner q = Some (job_id x)")
      case False
      then show ?thesis using Some IPC_RPC_COOP_ST_NESTED_SEND x(2) assms(1) by (simp add: poll_job_def)
    next
      case True
      obtain out q1 where send: "core_send (nested_server x) (io_send io) (io_dropped io) q = (out, q1)"
        by (cases "core_send (nested_server x) (io_send io) (io_dropped io) q")
      show ?thesis
        using Some IPC_RPC_COOP_ST_NESTED_SEND x(2) assms(1) True send
          nested_send_failed_ok [OF assms(1) x(1) True clear_owner_own [OF assms(1) x(1) True, of q]]
          nested_send_failed_ok [OF assms(1) x(1) True nested_failed_ok [OF assms(1) x(1) True assms(2) send]]
          nested_sent_ok [OF assms(1) x(1) True assms(2) IPC_RPC_COOP_ST_NESTED_SEND, of "nested_server x" q1]
          send_again [OF assms(1) x(1) True assms(2), of "nested_server x" q1]
        by (simp add: poll_job_def)
    qed
  qed (use Some assms(1) in \<open>simp_all add: poll_job_def\<close>)
qed

lemma queue_poll_ok:
  assumes "coop_ok h q" "\<forall>j. io_law (io j)"
  shows "coop_ok h (ipc_rpc_coop_queue_poll io q)"
proof -
  have "coop_ok h q \<Longrightarrow> coop_ok h (poll_jobs_loop io js q)" for js
    by (induction js arbitrary: q) (simp_all add: poll_job_ok assms(2))
  then show ?thesis using assms(1) by (simp add: ipc_rpc_coop_queue_poll_def)
qed

lemma replies_mem: "(p, M_REPLY i r) \<in> set d \<Longrightarrow> i \<in> set (replies d)"
  by (induction d rule: replies.induct) auto

lemma coop_ok_lt:
  assumes "coop_ok h q"
  shows "x \<in> set (jobs q) \<Longrightarrow> job_id x < next_job q" "i \<in> set (replied q) \<Longrightarrow> i < next_job q"
  using assms unfolding coop_ok_def by blast+

lemma slot_ok_cong: "jobs p = jobs q \<Longrightarrow> send_owner p = send_owner q \<Longrightarrow> send_queue p = send_queue q \<Longrightarrow> slot_ok p = slot_ok q"
  by (simp add: slot_ok_def split: option.split)

lemma bump_ok:
  assumes "coop_ok h q"
  shows "coop_ok (h(next_job q \<mapsto> port)) (q\<lparr>next_job := next_job q + 1\<rparr>)" (is "coop_ok _ ?q")
proof -
  have "slot_ok ?q" using slot_ok_cong [of ?q q] assms by (simp add: coop_ok_def)
  moreover have "(h(next_job q \<mapsto> port)) (job_id x) = Some (reply_port x)" if "x \<in> set (jobs q)" for x
    using coop_ok_port [OF assms that] coop_ok_lt(1) [OF assms that] by simp
  moreover have "(h(next_job q \<mapsto> port)) i = Some p" if "(p, M_REPLY i r) \<in> set (delivered q)" for p i r
    using coop_ok_delivered [OF assms that] coop_ok_lt(2) [OF assms, of i] replies_mem [OF that] by (simp add: replied_def)
  moreover have "\<forall>j \<in> set (replied q) \<union> job_id ` set (jobs q). j < next_job q + 1" using coop_ok_lt [OF assms] by fastforce
  ultimately show ?thesis using assms by (simp add: coop_ok_def replied_def)
qed

lemma add_job_ok:
  assumes "coop_ok h q" "job_id x \<notin> set (replied q) \<union> job_id ` set (jobs q)" "job_id x < next_job q" "\<not> reply_payload_queued x"
    and "h (job_id x) = Some (reply_port x)"
  shows "coop_ok h (q\<lparr>jobs := jobs q @ [x]\<rparr>)" (is "coop_ok _ ?q")
proof -
  have "slot_ok q" using assms(1) by (simp add: coop_ok_def)
  then have "slot_ok ?q" using assms(4) by (auto simp: slot_ok_def split: option.splits)
  moreover have "distinct (replied ?q @ map job_id (jobs ?q))" using assms(1,2) by (auto simp: coop_ok_def replied_def)
  ultimately show ?thesis using assms by (simp add: coop_ok_def replied_def)
qed

lemma add_reply_ok:
  assumes "coop_ok h q" "j \<notin> set (replied q) \<union> job_id ` set (jobs q)" "j < next_job q" "h j = Some p"
  shows "coop_ok h (q\<lparr>delivered := delivered q @ [(p, M_REPLY j r)]\<rparr>)" (is "coop_ok _ ?q")
proof -
  have "slot_ok ?q" using slot_ok_cong [of ?q q] assms(1) by (simp add: coop_ok_def)
  moreover have "distinct (replied ?q @ map job_id (jobs ?q))" using assms(1,2) by (auto simp: coop_ok_def replied_def)
  moreover have "h i = Some p'" if "(p', M_REPLY i r') \<in> set (delivered ?q)" for p' i r'
    using that coop_ok_delivered [OF assms(1)] assms(4) by auto
  ultimately show ?thesis using assms(1,3) by (simp add: coop_ok_def replied_def)
qed

lemma create_ok:
  assumes "coop_ok h q" "ipc_rpc_coop_job_create alloc_ok port q = (Some j, q1)"
  shows "coop_ok (h(next_job q \<mapsto> port)) q1" "j = next_job q"
proof -
  define x where "x = \<lparr>job_id = next_job q, job_state = IPC_RPC_COOP_ST_NONE, reply_port = port, job_result = 0, nested_server = [], nest_cookie = 0,
      nest_token = [], nested_result = 0, reply_payload_queued = False\<rparr>"
  have q1: "j = next_job q" "q1 = q\<lparr>next_job := next_job q + 1, jobs := jobs q @ [x]\<rparr>"
    using assms(2) by (auto simp: ipc_rpc_coop_job_create_def x_def split: if_splits)
  show "j = next_job q" by (rule q1)
  have "job_id x \<notin> set (replied q) \<union> job_id ` set (jobs q)" using coop_ok_lt [OF assms(1)] by (force simp: x_def)
  then show "coop_ok (h(next_job q \<mapsto> port)) q1"
    using add_job_ok [OF bump_ok [OF assms(1), of port], of x] q1(2) by (simp add: x_def replied_def)
qed

text \<open>A request that is answered at once: with a free send queue, and when no failed send leaves its message behind, the reply goes to its sender or nowhere.\<close>

definition attempt_clean :: "attempt \<Rightarrow> bool" where
  "attempt_clean a \<longleftrightarrow> (at_send a \<noteq> S_OK \<longrightarrow> at_dropped a)"

lemma send_reply_free:
  assumes "send_queue q = []" "\<forall>a \<in> set as. attempt_clean a" "ipc_rpc_send_reply port j result as q = Some (b, q1)"
  shows "q1 = q \<or> q1 = q\<lparr>delivered := delivered q @ [(port, M_REPLY j result)]\<rparr>"
  using assms(2,3)
proof (induction as)
  case Nil
  then show ?case by simp
next
  case (Cons a as)
  have "core_send port (at_send a) (at_dropped a) (q\<lparr>send_queue := [M_REPLY j result]\<rparr>)
      = (at_send a, if at_send a = S_OK then q\<lparr>delivered := delivered q @ [(port, M_REPLY j result)]\<rparr> else q)"
    using Cons.prems(1) assms(1) by (auto simp: core_send_def attempt_clean_def)
  then show ?case using Cons assms(1) by (simp split: if_splits)
qed

lemma error_reply_ok:
  assumes "coop_ok h q" "port = [] \<or> send_owner q = None \<and> (\<forall>a \<in> set as. attempt_clean a)" "error_reply port result as q = Some q1"
  shows "coop_ok (h(next_job q \<mapsto> port)) q1"
proof -
  define q0 where "q0 = q\<lparr>next_job := next_job q + 1\<rparr>"
  have ok: "coop_ok (h(next_job q \<mapsto> port)) q0" unfolding q0_def by (rule bump_ok [OF assms(1)])
  have "next_job q \<notin> set (replied q0) \<union> job_id ` set (jobs q0)" using coop_ok_lt [OF assms(1)] by (force simp: q0_def replied_def)
  then have reply: "coop_ok (h(next_job q \<mapsto> port)) (q0\<lparr>delivered := delivered q0 @ [(port, M_REPLY (next_job q) result)]\<rparr>)"
    by (intro add_reply_ok [OF ok]) (simp_all add: q0_def)
  show ?thesis
  proof (cases "port = []")
    case True
    then show ?thesis using assms(3) ok by (simp add: error_reply_def ipc_rpc_reply_def q0_def)
  next
    case False
    then have clean: "\<forall>a \<in> set as. attempt_clean a" using assms(2) by simp
    have "send_queue q0 = []" using False assms(1,2) coop_ok_free [OF assms(1)] by (simp add: q0_def)
    moreover obtain b where "ipc_rpc_send_reply port (next_job q) result as q0 = Some (b, q1)"
      using assms(3) False by (auto simp: error_reply_def ipc_rpc_reply_def q0_def)
    ultimately show ?thesis using send_reply_free [OF _ clean] ok reply by blast
  qed
qed

section \<open>Servers\<close>

text \<open>What a handler does on behalf of its job: it sets the result, makes a nested call, or changes the server's own data.\<close>

inductive job_step :: "nat \<Rightarrow> ('q, 's) coop \<Rightarrow> ('q, 's) coop \<Rightarrow> bool" where
  step_result: "job_step j q (ipc_rpc_coop_job_set_result j r q)"
| step_server: "job_step j q (q\<lparr>server := s\<rparr>)"
| step_nested: "io_law io \<Longrightarrow> job_step j q (snd (ipc_rpc_coop_nested_call name_max io j server_name req q))"

inductive_cases job_stepE: "job_step j q q'"

text \<open>
  The contract between the framework and a server that leaves its replies to it: the handler and the resume function touch the queue only by such steps, and the
  handler does not answer by itself.
\<close>

locale coop_server =
  fixes handler :: "('m, 'q, 's) coop_handler" and resume :: "('q, 's) coop_resume"
  assumes handler_steps: "(job_step j)\<^sup>*\<^sup>* q (snd (handler j m q))"
    and handler_disp: "fst (handler j m q) \<noteq> IPC_RPC_COOP_REPLIED"
    and resume_steps: "resume = Some f \<Longrightarrow> (job_step j)\<^sup>*\<^sup>* q (f j res q)"

definition env_law :: "recv_env \<Rightarrow> bool" where
  "env_law env \<longleftrightarrow> (\<forall>j. io_law (env_io env j)) \<and> (\<forall>a \<in> set (env_attempts env). attempt_law a)"

text \<open>
  A message that does no harm to the send queue: the framework makes a job for it, or it names no reply port, or the error reply of the framework (for a wrong
  module, or when there is no memory for a job) finds the send queue free and leaves no message behind.
\<close>

fun msg_safe :: "recv_env \<Rightarrow> ('q, 's) coop \<Rightarrow> 'm coop_recv \<Rightarrow> bool" where
  "msg_safe env q (R_REQUEST module_ok port m) \<longleftrightarrow>
     module_ok \<and> env_alloc env \<or> port = [] \<or> send_owner q = None \<and> (\<forall>a \<in> set (env_attempts env). attempt_clean a)"
| "msg_safe env q _ \<longleftrightarrow> True"

fun msg_hist :: "('q, 's) coop \<Rightarrow> 'm coop_recv \<Rightarrow> (nat \<rightharpoonup> u8 list) \<Rightarrow> (nat \<rightharpoonup> u8 list)" where
  "msg_hist q (R_REQUEST module_ok port m) h = h(next_job q \<mapsto> port)"
| "msg_hist q _ h = h"

text \<open>
  The histories of a server. Handlers and resume functions are taken from sets, because the outcomes of allocations and sends that they see differ from call to call;
  the data of the server may be changed at any time by others, through the pointers in its requests. The flag says that some message so far was not safe.
\<close>

inductive serves :: "('m, 'q, 's) coop_handler set \<Rightarrow> ('q, 's) coop_resume set \<Rightarrow> (nat \<rightharpoonup> u8 list) \<Rightarrow> bool \<Rightarrow> ('q, 's) coop \<Rightarrow> bool"
  for handlers resumes where
  serve_init: "serves handlers resumes Map.empty False
    (ipc_rpc_coop_queue_init \<lparr>jobs = [], send_owner = None, send_queue = [], nest_cookie_seq = c, next_job = 0, delivered = [], server = s\<rparr>)"
| serve_poll: "serves handlers resumes h d q \<Longrightarrow> \<forall>j. io_law (io j) \<Longrightarrow> serves handlers resumes h d (ipc_rpc_coop_queue_poll io q)"
| serve_recv: "serves handlers resumes h d q \<Longrightarrow> handler \<in> handlers \<Longrightarrow> resume \<in> resumes \<Longrightarrow> env_law env
    \<Longrightarrow> ipc_rpc_coop_drain_recv handler resume [(env, msg)] q = Some (left, q')
    \<Longrightarrow> serves handlers resumes (msg_hist q msg h) (d \<or> \<not> msg_safe env q msg) q'"
| serve_data: "serves handlers resumes h d q \<Longrightarrow> serves handlers resumes h d (q\<lparr>server := s\<rparr>)"

lemma job_steps_ok:
  assumes "(job_step j)\<^sup>*\<^sup>* q q'" "coop_ok h q"
  shows "coop_ok h q'"
  using assms by induction (auto elim: job_stepE intro: set_result_ok nested_call_ok)

context coop_server
begin

lemma handler_ok: "coop_ok h q \<Longrightarrow> coop_ok h (snd (handler j m q))"
  using job_steps_ok [OF handler_steps] .

lemma accept_ok:
  assumes "coop_ok h q" "env_law env" "msg_safe env q (R_REQUEST module_ok port m)" "ipc_rpc_coop_accept_one handler env module_ok port m q = Some q'"
  shows "coop_ok (h(next_job q \<mapsto> port)) q'"
proof (cases "module_ok \<and> env_alloc env \<and> port \<noteq> []")
  case True
  then obtain j q1 where c: "ipc_rpc_coop_job_create (env_alloc env) port q = (Some j, q1)" by (simp add: ipc_rpc_coop_job_create_def)
  obtain d q2 where hd: "handler j m q1 = (d, q2)" by (cases "handler j m q1")
  have ok: "coop_ok (h(next_job q \<mapsto> port)) q2" using handler_ok [OF create_ok(1) [OF assms(1) c], of j m] hd by simp
  then show ?thesis
    using assms(2,4) True c hd handler_disp [of j m q1] set_result_ok [OF ok] queue_poll_ok [of "h(next_job q \<mapsto> port)"]
    by (auto simp: ipc_rpc_coop_accept_one_def env_law_def split: coop_disp.splits if_splits)
next
  case False
  have "port = [] \<or> send_owner q = None \<and> (\<forall>a \<in> set (env_attempts env). attempt_clean a)" using False assms(3) by auto
  moreover obtain r where "error_reply port r (env_attempts env) q = Some q'"
    using False assms(4) by (auto simp: ipc_rpc_coop_accept_one_def ipc_rpc_coop_job_create_def split: if_splits)
  ultimately show ?thesis using error_reply_ok [OF assms(1)] by blast
qed

lemma nest_resp_ok:
  assumes "coop_ok h q"
  shows "coop_ok h (ipc_rpc_coop_try_apply_nest_resp resume cookie res q)"
proof (cases "find (\<lambda>x. job_state x = IPC_RPC_COOP_ST_NESTED_RECV \<and> nest_cookie x = cookie) (jobs q)")
  case None
  then show ?thesis using assms by (simp add: ipc_rpc_coop_try_apply_nest_resp_def)
next
  case (Some x)
  then have x: "x \<in> set (jobs q)" "job_state x = IPC_RPC_COOP_ST_NESTED_RECV" by (auto simp: find_Some_iff)
  have other: "send_owner q \<noteq> Some (job_id x)"
  proof
    assume "send_owner q = Some (job_id x)"
    then obtain m where "send_queue q = [m]" "msg_of x m" "reply_payload_queued x" by (rule coop_ok_own [OF assms x(1)])
    then show False using x(2) by (simp add: msg_of_def)
  qed
  then have "\<not> reply_payload_queued x" using coop_ok_queued [OF assms x(1)] by simp
  then have "coop_ok h (put_job ((ipc_rpc_coop_nested_clear x)\<lparr>nested_result := res, job_state := IPC_RPC_COOP_ST_NONE\<rparr>) q)"
    using other by (intro coop_ok_touch [OF assms x(1)]) simp_all
  then show ?thesis
    using Some job_steps_ok [OF resume_steps]
    by (simp add: ipc_rpc_coop_try_apply_nest_resp_def Let_def set_result_ok split: option.split)
qed

end

lemma serves_not_disturbed:
  assumes "serves handlers resumes h d q" "\<forall>handler \<in> handlers. \<forall>resume \<in> resumes. coop_server handler resume"
  shows "\<not> d \<Longrightarrow> coop_ok h q"
  using assms(1)
proof (induction rule: serves.induct)
  case (serve_init c s)
  then show ?case by (simp add: ipc_rpc_coop_queue_init_def coop_ok_def slot_ok_def replied_def)
next
  case (serve_poll h d q io)
  then show ?case by (simp add: queue_poll_ok)
next
  case (serve_recv h d q handler resume env msg left q')
  then have contract: "coop_server handler resume" using assms(2) by blast
  show ?case
  proof (cases msg)
    case (R_REQUEST module_ok port m)
    then have "ipc_rpc_coop_accept_one handler env module_ok port m q = Some q'" using serve_recv.hyps by (simp split: option.splits)
    then show ?thesis
      using coop_server.accept_ok [OF contract, of h q env module_ok port m q'] serve_recv.IH serve_recv.hyps(4) serve_recv.prems R_REQUEST
      by (simp del: fun_upd_apply msg_safe.simps)
  qed (use serve_recv coop_server.nest_resp_ok [OF contract] in auto)
next
  case (serve_data h d q s)
  then show ?case by simp
qed

lemma serves_ok:
  assumes "serves handlers resumes h False q" "\<forall>handler \<in> handlers. \<forall>resume \<in> resumes. coop_server handler resume"
  shows "coop_ok h q"
  using serves_not_disturbed [OF assms] by simp

section \<open>Answering\<close>

definition io_works :: "job_io \<Rightarrow> bool" where
  "io_works io \<longleftrightarrow> io_port1 io \<and> io_port2 io \<and> io_create io \<and> io_enqueue io \<and> io_send io = S_OK"

lemma io_works_law: "io_works io \<Longrightarrow> io_law io"
  by (simp add: io_works_def io_law_def)

definition answered :: "ipc_rpc_coop_job \<Rightarrow> ('q, 's) coop \<Rightarrow> bool" where
  "answered x q \<longleftrightarrow> (reply_port x, M_REPLY (job_id x) (job_result x)) \<in> set (delivered q) \<and> job_id x \<notin> job_id ` set (jobs q)"

lemma client_send_works:
  assumes "coop_ok h q" "x \<in> set (jobs q)" "send_owner q = Some (job_id x)" "io_works io" "job_state x = IPC_RPC_COOP_ST_NEED_REPLY"
  shows "finish_reply (job_id x) (client_send io x q)
    = (slot_freed q)\<lparr>jobs := filter (\<lambda>y. job_id y \<noteq> job_id x) (jobs q), delivered := delivered q @ [(reply_port x, M_REPLY (job_id x) (job_result x))]\<rparr>"
proof -
  obtain m where m: "msg_of x m" "reply_payload_queued x" "send_queue q = [m]" "core_send (reply_port x) (io_send io) (io_dropped io) q
      = (io_send io, if io_send io = S_OK then q\<lparr>send_queue := [], delivered := delivered q @ [(reply_port x, m)]\<rparr>
                     else if io_dropped io then q\<lparr>send_queue := []\<rparr> else q)"
    by (rule core_send_own [OF assms(1-3) io_works_law [OF assms(4)], of "reply_port x"])
  have m': "m = M_REPLY (job_id x) (job_result x)" using m(1) assms(5) by (simp add: msg_of_def)
  have "ipc_rpc_coop_job_release (job_id x)
      (put_job (x\<lparr>reply_payload_queued := False\<rparr>) (q\<lparr>send_queue := [], delivered := delivered q @ [(reply_port x, m)], send_owner := None\<rparr>))
    = (slot_freed q)\<lparr>jobs := filter (\<lambda>y. job_id y \<noteq> job_id x) (jobs q), delivered := delivered q @ [(reply_port x, m)]\<rparr>"
    using release_put [of "q\<lparr>send_queue := [], delivered := delivered q @ [(reply_port x, m)], send_owner := None\<rparr>" x "x\<lparr>reply_payload_queued := False\<rparr>"]
      coop_ok_distinct [OF assms(1)] assms(2)
    by (simp add: slot_freed_def)
  then show ?thesis using assms(4) m(4) m' by (simp add: client_send_def finish_reply_def io_works_def)
qed

lemma finish_works:
  assumes "coop_ok h q" "x \<in> set (jobs q)" "send_owner q \<in> {None, Some (job_id x)}" "io_works io" "job_state x = IPC_RPC_COOP_ST_NEED_REPLY"
  shows "finish_reply (job_id x) (ipc_rpc_coop_try_client_reply io (job_id x) q)
    = (slot_freed q)\<lparr>jobs := filter (\<lambda>y. job_id y \<noteq> job_id x) (jobs q), delivered := delivered q @ [(reply_port x, M_REPLY (job_id x) (job_result x))]\<rparr>"
proof (cases "send_owner q")
  case None
  define x1 where "x1 = x\<lparr>reply_payload_queued := True\<rparr>"
  define q1 where "q1 = put_job x1 (q\<lparr>send_queue := [M_REPLY (job_id x) (job_result x)], send_owner := Some (job_id x)\<rparr>)"
  have "finish_reply (job_id x1) (client_send io x1 q1)
      = (slot_freed q1)\<lparr>jobs := filter (\<lambda>y. job_id y \<noteq> job_id x1) (jobs q1), delivered := delivered q1 @ [(reply_port x1, M_REPLY (job_id x1) (job_result x1))]\<rparr>"
    using assms(5) client_send_works [OF reply_claim [OF assms(1,2,5) None, of q1] assms(4)] by (simp add: x1_def q1_def)
  moreover have "filter (\<lambda>y. job_id y \<noteq> job_id x) (jobs q1) = filter (\<lambda>y. job_id y \<noteq> job_id x) (jobs q)"
    unfolding q1_def by (subst filter_put) (simp_all add: x1_def)
  ultimately show ?thesis
    using try_reply_eq [OF assms(1,2,5), of io] None assms(4)
    by (simp add: io_works_def x1_def [symmetric] q1_def [symmetric]) (simp add: x1_def q1_def slot_freed_def put_job_def)
next
  case (Some k)
  then show ?thesis using try_reply_eq [OF assms(1,2,5), of io] client_send_works [OF assms(1,2) _ assms(4,5)] assms(3) by simp
qed

lemma poll_job_works:
  assumes "coop_ok h q" "io_works io"
  shows "send_owner (poll_job io j q) = (if send_owner q = Some j then None else send_owner q)"
    and "\<exists>d. delivered (poll_job io j q) = delivered q @ d"
    and "job_id ` set (jobs (poll_job io j q)) \<subseteq> job_id ` set (jobs q)"
    and "y \<in> set (jobs q) \<Longrightarrow> job_id y \<noteq> j \<Longrightarrow> y \<in> set (jobs (poll_job io j q))"
    and "y \<in> set (jobs q) \<Longrightarrow> job_id y = j \<Longrightarrow> job_state y = IPC_RPC_COOP_ST_NEED_REPLY \<Longrightarrow>
      (if send_owner q \<in> {None, Some j} then answered y (poll_job io j q) else poll_job io j q = q)"
proof -
  have "send_owner (poll_job io j q) = (if send_owner q = Some j then None else send_owner q)
    \<and> (\<exists>d. delivered (poll_job io j q) = delivered q @ d)
    \<and> job_id ` set (jobs (poll_job io j q)) \<subseteq> job_id ` set (jobs q)
    \<and> (\<forall>y \<in> set (jobs q). job_id y \<noteq> j \<longrightarrow> y \<in> set (jobs (poll_job io j q)))
    \<and> (\<forall>y \<in> set (jobs q). job_id y = j \<longrightarrow> job_state y = IPC_RPC_COOP_ST_NEED_REPLY \<longrightarrow>
      (if send_owner q \<in> {None, Some j} then answered y (poll_job io j q) else poll_job io j q = q))" (is "?P (poll_job io j q)")
  proof (cases "job_of q j")
    case None
    then have "\<forall>y \<in> set (jobs q). job_id y \<noteq> j" unfolding job_of_def by (auto simp: find_None_iff)
    moreover from this have "send_owner q \<noteq> Some j" using assms(1) by (auto simp: coop_ok_def slot_ok_def)
    ultimately show ?thesis using None by (auto simp: poll_job_def)
  next
    case (Some x)
    then have x: "x \<in> set (jobs q)" "job_id x = j" using job_of_Some [OF assms(1)] by simp_all
    have owns: "job_state x \<in> {IPC_RPC_COOP_ST_NEED_REPLY, IPC_RPC_COOP_ST_NESTED_SEND}" if own: "send_owner q = Some j"
    proof -
      obtain m where "send_queue q = [m]" "msg_of x m" "reply_payload_queued x" using coop_ok_own [OF assms(1) x(1)] own x(2) by metis
      then show ?thesis by (auto simp: msg_of_def)
    qed
    have only: "\<forall>y \<in> set (jobs q). job_id y = j \<longrightarrow> y = x" using job_unique [OF assms(1) _ x(1)] x(2) by metis
    show ?thesis
    proof (cases "job_state x")
      case IPC_RPC_COOP_ST_NEED_REPLY
      have eq: "poll_job io j q = finish_reply j (ipc_rpc_coop_try_client_reply io j q)"
        using Some IPC_RPC_COOP_ST_NEED_REPLY by (simp add: poll_job_def finish_reply_def split: prod.split)
      show ?thesis
      proof (cases "send_owner q \<in> {None, Some j}")
        case True
        then have "send_owner q \<in> {None, Some (job_id x)}" using x(2) by blast
        then have p: "poll_job io j q = (slot_freed q)\<lparr>jobs := filter (\<lambda>y. job_id y \<noteq> j) (jobs q),
            delivered := delivered q @ [(reply_port x, M_REPLY j (job_result x))]\<rparr>"
          using eq finish_works [OF assms(1) x(1) _ assms(2) IPC_RPC_COOP_ST_NEED_REPLY] x(2) by simp
        have "answered x (poll_job io j q)" unfolding p answered_def using x(2) by auto
        then show ?thesis using True only by (auto simp: p slot_freed_def)
      next
        case False
        then have "poll_job io j q = q" using eq try_reply_eq [OF assms(1) x(1) IPC_RPC_COOP_ST_NEED_REPLY, of io] x(2) by auto
        then show ?thesis using False by auto
      qed
    next
      case IPC_RPC_COOP_ST_NESTED_SEND
      show ?thesis
      proof (cases "send_owner q = Some j")
        case False
        then have "poll_job io j q = q" using Some IPC_RPC_COOP_ST_NESTED_SEND by (simp add: poll_job_def)
        then show ?thesis using False only IPC_RPC_COOP_ST_NESTED_SEND by auto
      next
        case True
        obtain m where "send_queue q = [m]" "msg_of x m" "reply_payload_queued x" using coop_ok_own [OF assms(1) x(1)] True x(2) by metis
        then have "poll_job io j q = put_job (x\<lparr>reply_payload_queued := False, job_state := IPC_RPC_COOP_ST_NESTED_RECV\<rparr>)
            (q\<lparr>send_queue := [], delivered := delivered q @ [(nested_server x, m)], send_owner := None\<rparr>)"
          using Some IPC_RPC_COOP_ST_NESTED_SEND True assms(2) by (simp add: poll_job_def core_send_def io_works_def)
        then show ?thesis using True only IPC_RPC_COOP_ST_NESTED_SEND x(2) by (force simp: put_job_def)
      qed
    qed (use Some only assms in \<open>auto simp: poll_job_def dest: owns\<close>)
  qed
  then show "send_owner (poll_job io j q) = (if send_owner q = Some j then None else send_owner q)"
    and "\<exists>d. delivered (poll_job io j q) = delivered q @ d"
    and "job_id ` set (jobs (poll_job io j q)) \<subseteq> job_id ` set (jobs q)"
    and "y \<in> set (jobs q) \<Longrightarrow> job_id y \<noteq> j \<Longrightarrow> y \<in> set (jobs (poll_job io j q))"
    and "y \<in> set (jobs q) \<Longrightarrow> job_id y = j \<Longrightarrow> job_state y = IPC_RPC_COOP_ST_NEED_REPLY \<Longrightarrow>
      (if send_owner q \<in> {None, Some j} then answered y (poll_job io j q) else poll_job io j q = q)"
    by blast+
qed

lemma loop_works:
  assumes "coop_ok h q" "\<forall>j. io_works (io j)"
  shows "coop_ok h (poll_jobs_loop io js q)"
    and "send_owner (poll_jobs_loop io js q) = (if send_owner q \<in> Some ` set js then None else send_owner q)"
    and "answered x q \<Longrightarrow> answered x (poll_jobs_loop io js q)"
    and "x \<in> set (jobs q) \<Longrightarrow> job_state x = IPC_RPC_COOP_ST_NEED_REPLY \<Longrightarrow> answered x (poll_jobs_loop io js q) \<or> x \<in> set (jobs (poll_jobs_loop io js q))"
    and "x \<in> set (jobs q) \<Longrightarrow> job_state x = IPC_RPC_COOP_ST_NEED_REPLY \<Longrightarrow> job_id x \<in> set js \<Longrightarrow> send_owner q = None \<Longrightarrow> answered x (poll_jobs_loop io js q)"
  using assms(1)
proof (induction js arbitrary: q)
  case Nil
  {
    case 1 then show ?case by simp
  next
    case 2 then show ?case by simp
  next
    case 3 then show ?case by simp
  next
    case 4 then show ?case by simp
  next
    case 5 then show ?case by simp
  }
next
  case (Cons j js)
  have works: "io_works (io j)" using assms(2) by blast
  note step = poll_job_works [OF _ works, of h]
  have ok: "coop_ok h p \<Longrightarrow> coop_ok h (poll_job (io j) j p)" for p :: "('a, 'b) coop"
    using poll_job_ok [OF _ io_works_law [OF works]] .
  have keep: "answered x (poll_job (io j) j q)" if "answered x q" "coop_ok h q" for q :: "('a, 'b) coop"
    using step(2,3) [OF that(2), of j] that(1) unfolding answered_def by fastforce
  {
    case 1
    then show ?case using Cons.IH(1) ok by simp
  next
    case 2
    then show ?case using Cons.IH(2) [OF ok [OF 2]] step(1) [OF 2, of j] by auto
  next
    case 3
    then show ?case using Cons.IH(3) keep ok by simp
  next
    case 4
    then show ?case using Cons.IH(3,4) [of "poll_job (io j) j q"] ok [of q] step(4,5) [of q x j] by (cases "job_id x = j") (auto split: if_splits)
  next
    case 5
    then show ?case using Cons.IH(3,5) [of "poll_job (io j) j q"] ok [of q] step(1,4,5) [of q] by (cases "job_id x = j") auto
  }
qed

lemma poll_works:
  assumes "coop_ok h q" "\<forall>j. io_works (io1 j)" "\<forall>j. io_works (io2 j)" "x \<in> set (jobs q)" "job_state x = IPC_RPC_COOP_ST_NEED_REPLY"
  shows "answered x (ipc_rpc_coop_queue_poll io2 (ipc_rpc_coop_queue_poll io1 q))"
proof -
  define q1 where "q1 = ipc_rpc_coop_queue_poll io1 q"
  have ok: "coop_ok h q1" unfolding q1_def ipc_rpc_coop_queue_poll_def by (rule loop_works(1) [OF assms(1,2)])
  have "send_owner q = None \<or> (\<exists>k. send_owner q = Some k \<and> k \<in> job_id ` set (jobs q))"
    using assms(1) by (auto simp: coop_ok_def slot_ok_def split: option.splits)
  then have owner: "send_owner q1 = None"
    using loop_works(2) [OF assms(1,2), of "map job_id (jobs q)"] by (auto simp: q1_def ipc_rpc_coop_queue_poll_def)
  have "answered x q1 \<or> x \<in> set (jobs q1)"
    using loop_works(4) [OF assms(1,2,4,5)] by (simp add: q1_def ipc_rpc_coop_queue_poll_def)
  then show ?thesis
  proof
    assume "answered x q1"
    then show ?thesis using loop_works(3) [OF ok assms(3)] by (simp add: q1_def [symmetric] ipc_rpc_coop_queue_poll_def [of io2])
  next
    assume "x \<in> set (jobs q1)"
    then show ?thesis using loop_works(5) [OF ok assms(3) _ assms(5) _ owner] by (simp add: q1_def [symmetric] ipc_rpc_coop_queue_poll_def [of io2])
  qed
qed

section \<open>Properties\<close>

text \<open>Whatever a server that keeps to the contract does, and in whatever order requests, replies to nested calls and polls come, as long as the error replies of
  the framework find the send queue free and leave nothing there, every reply that has
  been handed over went to the port that its request named, no request has been answered twice, a request that has been answered has no job any more, and
  the send queue of the thread is empty or holds exactly the message of the job that owns it.\<close>

lemma coop_replies_routed:
  assumes "serves handlers resumes h False q" "\<forall>handler \<in> handlers. \<forall>resume \<in> resumes. coop_server handler resume"
  shows "(\<forall>p j r. (p, M_REPLY j r) \<in> set (delivered q) \<longrightarrow> h j = Some p) \<and> distinct (replied q) \<and> set (replied q) \<inter> job_id ` set (jobs q) = {}
    \<and> (send_queue q = [] \<or> (\<exists>x \<in> set (jobs q). \<exists>m. send_owner q = Some (job_id x) \<and> send_queue q = [m] \<and> msg_of x m))"
proof -
  have ok: "coop_ok h q" by (rule serves_ok [OF assms])
  then have "distinct (replied q)" "set (replied q) \<inter> job_id ` set (jobs q) = {}" by (simp_all add: coop_ok_def)
  moreover have "send_queue q = [] \<or> (\<exists>x \<in> set (jobs q). \<exists>m. send_owner q = Some (job_id x) \<and> send_queue q = [m] \<and> msg_of x m)"
    using ok by (auto simp: coop_ok_def slot_ok_def split: option.splits)
  ultimately show ?thesis using coop_ok_delivered [OF ok] by blast
qed

definition one_job_io :: job_io where
  "one_job_io = \<lparr>io_port1 = True, io_port2 = True, io_create = True, io_enqueue = True, io_send = S_OK, io_dropped = False\<rparr>"

definition one_job_env :: recv_env where
  "one_job_env = \<lparr>env_io = (\<lambda>_. one_job_io), env_attempts = [], env_alloc = True\<rparr>"

definition one_job_handler :: "(unit, unit, unit) coop_handler" where
  "one_job_handler j m q = (IPC_RPC_COOP_HANDLED 7, q)"

definition one_job_start :: "(unit, unit) coop" where
  "one_job_start = ipc_rpc_coop_queue_init \<lparr>jobs = [], send_owner = None, send_queue = [], nest_cookie_seq = 0, next_job = 0, delivered = [], server = ()\<rparr>"

lemma one_job_server: "\<forall>handler \<in> {one_job_handler}. \<forall>resume \<in> {None}. coop_server handler resume"
  by (simp, unfold_locales) (simp_all add: one_job_handler_def)

lemma one_job_laws: "io_works one_job_io" "env_law one_job_env"
  by (simp_all add: io_works_def env_law_def one_job_env_def one_job_io_def io_law_def)

lemma one_job_recv:
  "ipc_rpc_coop_drain_recv one_job_handler None [(one_job_env, R_REQUEST True [0x61] ())] one_job_start
   = Some ([], one_job_start\<lparr>next_job := 1, delivered := [([0x61], M_REPLY 0 7)]\<rparr>)"
proof -
  have "ipc_rpc_coop_accept_one one_job_handler one_job_env True [0x61] () one_job_start = Some (one_job_start\<lparr>next_job := 1, delivered := [([0x61], M_REPLY 0 7)]\<rparr>)"
    by code_simp
  then show ?thesis by simp
qed

text \<open>C6. No request waits for ever: after any history in which the error replies of the framework found the send queue free and left nothing there, when the kernel core
  makes and sends the messages, two polls hand the result of every request that has one to the
  port that the request named, and remove its job.\<close>

theorem coop_polls_answer:
  assumes "serves handlers resumes h False q" "\<forall>handler \<in> handlers. \<forall>resume \<in> resumes. coop_server handler resume" "\<forall>j. io_works (io1 j)" "\<forall>j. io_works (io2 j)"
    and "x \<in> set (jobs q)" "job_state x = IPC_RPC_COOP_ST_NEED_REPLY"
  shows "\<exists>p. h (job_id x) = Some p
    \<and> (p, M_REPLY (job_id x) (job_result x)) \<in> set (delivered (ipc_rpc_coop_queue_poll io2 (ipc_rpc_coop_queue_poll io1 q)))
    \<and> job_id x \<notin> job_id ` set (jobs (ipc_rpc_coop_queue_poll io2 (ipc_rpc_coop_queue_poll io1 q)))"
  using poll_works [OF serves_ok [OF assms(1,2)] assms(3-6)] coop_ok_port [OF serves_ok [OF assms(1,2)] assms(5)]
  by (simp add: answered_def)

definition one_job_slow_env :: recv_env where
  "one_job_slow_env = one_job_env\<lparr>env_io := \<lambda>_. one_job_io\<lparr>io_send := S_AGAIN\<rparr>\<rparr>"

definition one_job_waiting :: "(unit, unit) coop" where
  "one_job_waiting = the (ipc_rpc_coop_accept_one one_job_handler one_job_slow_env True [0x61] () one_job_start)"

lemma one_job_waiting_serves: "serves {one_job_handler} {None} [0 \<mapsto> [0x61]] False one_job_waiting"
proof -
  have "ipc_rpc_coop_accept_one one_job_handler one_job_slow_env True [0x61] () one_job_start = Some one_job_waiting" by code_simp
  then have drain: "ipc_rpc_coop_drain_recv one_job_handler None [(one_job_slow_env, R_REQUEST True [0x61] ())] one_job_start = Some ([], one_job_waiting)"
    by simp
  have start: "serves {one_job_handler} {None} Map.empty False one_job_start" unfolding one_job_start_def by (rule serve_init)
  have law: "env_law one_job_slow_env" by (simp add: one_job_slow_env_def env_law_def one_job_env_def io_law_def one_job_io_def)
  have "serves {one_job_handler} {None} (msg_hist one_job_start (R_REQUEST True [0x61] ()) Map.empty)
      (False \<or> \<not> msg_safe one_job_slow_env one_job_start (R_REQUEST True [0x61] ())) one_job_waiting"
    by (rule serve_recv [OF start _ _ law drain]) simp_all
  then show ?thesis by (simp add: one_job_start_def ipc_rpc_coop_queue_init_def one_job_slow_env_def one_job_env_def)
qed

lemma one_job_waiting_job:
  "\<exists>x \<in> set (jobs one_job_waiting). job_state x = IPC_RPC_COOP_ST_NEED_REPLY \<and> job_id x = 0 \<and> job_result x = 7 \<and> reply_port x = [0x61]
     \<and> send_owner one_job_waiting = Some (job_id x) \<and> next_job one_job_waiting = 1 \<and> delivered one_job_waiting = []"
  by code_simp

theorem coop_polls_answer_witness:
  "([0x61], M_REPLY 0 7) \<in> set (delivered (ipc_rpc_coop_queue_poll (\<lambda>_. one_job_io) (ipc_rpc_coop_queue_poll (\<lambda>_. one_job_io) one_job_waiting)))"
proof -
  obtain x where x: "x \<in> set (jobs one_job_waiting)" "job_state x = IPC_RPC_COOP_ST_NEED_REPLY" "job_id x = 0" "job_result x = 7"
    using one_job_waiting_job by blast
  have io: "\<forall>j :: nat. io_works ((\<lambda>_. one_job_io) j)" using one_job_laws by simp
  show ?thesis using coop_polls_answer [OF one_job_waiting_serves one_job_server io io x(1,2)] x(3,4) by simp
qed

text \<open>C38. An error reply of the framework does not respect the owner of the send queue: when the reply of a job \<open>x\<close> waits there and a request comes for which there
  is no memory, the blocking reply sends the first message of the queue, which is the result of \<open>x\<close>, to the new client, and the next
  poll sends the error of the new client to the client of \<open>x\<close>.\<close>

theorem error_reply_swapped:
  assumes "coop_ok h q" "x \<in> set (jobs q)" "send_owner q = Some (job_id x)" "job_state x = IPC_RPC_COOP_ST_NEED_REPLY"
    and "port \<noteq> []" "\<not> env_alloc env" "env_attempts env = [\<lparr>at_port = True, at_create = True, at_enqueue = True, at_send = S_OK, at_dropped = False\<rparr>]"
    and "io_works io"
  shows "\<exists>q'. ipc_rpc_coop_accept_one handler env True port m q = Some q'
    \<and> delivered (poll_job io (job_id x) q')
      = delivered q @ [(port, M_REPLY (job_id x) (job_result x)), (reply_port x, M_REPLY (next_job q) (- LINUX_ENOMEM))]"
proof -
  define r :: "'a coop_msg" where "r = M_REPLY (next_job q) (- LINUX_ENOMEM)"
  define q' where "q' = q\<lparr>next_job := next_job q + 1, send_queue := [r], delivered := delivered q @ [(port, M_REPLY (job_id x) (job_result x))]\<rparr>"
  obtain m where "send_queue q = [m]" "msg_of x m" and queued: "reply_payload_queued x" by (rule coop_ok_own [OF assms(1-3)])
  then have queue: "send_queue q = [M_REPLY (job_id x) (job_result x)]" using assms(4) by (simp add: msg_of_def)
  have "ipc_rpc_coop_accept_one handler env True port m q = Some q'" for m
    using assms(5-7) queue
    by (simp add: ipc_rpc_coop_accept_one_def ipc_rpc_coop_job_create_def error_reply_def ipc_rpc_reply_def core_send_def q'_def r_def)
  moreover have x: "job_of q' (job_id x) = Some x"
    using job_of_Some [OF assms(1), of "job_id x" x] assms(2) by (simp add: job_of_def q'_def)
  moreover have "ipc_rpc_coop_try_client_reply io (job_id x) q'
      = (C_OK, put_job (x\<lparr>reply_payload_queued := False\<rparr>) (q'\<lparr>send_queue := [], delivered := delivered q' @ [(reply_port x, r)], send_owner := None\<rparr>))"
    using assms(3,4,8) queued x
    by (simp add: ipc_rpc_coop_try_client_reply_def client_send_def core_send_def io_works_def q'_def)
  moreover have "delivered (ipc_rpc_coop_job_release j p) = delivered p" for j and p :: "('a, 'b) coop"
    by (simp add: ipc_rpc_coop_job_release_def ipc_rpc_coop_clear_send_owner_def ipc_rpc_abandon_current_send_payload_def
        split: option.split prod.split)
  ultimately show ?thesis using assms(4) by (simp add: poll_job_def q'_def r_def)
qed

definition one_job_no_memory :: recv_env where
  "one_job_no_memory = \<lparr>env_io = \<lambda>_. one_job_io, env_attempts = [\<lparr>at_port = True, at_create = True, at_enqueue = True, at_send = S_OK, at_dropped = False\<rparr>],
     env_alloc = False\<rparr>"

theorem error_reply_swapped_witness:
  "\<exists>q'. ipc_rpc_coop_accept_one one_job_handler one_job_no_memory True [0x62] () one_job_waiting = Some q'
    \<and> delivered (poll_job one_job_io 0 q') = [([0x62], M_REPLY 0 7), ([0x61], M_REPLY 1 (- LINUX_ENOMEM))]"
proof -
  obtain x where x: "x \<in> set (jobs one_job_waiting)" "send_owner one_job_waiting = Some (job_id x)" "job_state x = IPC_RPC_COOP_ST_NEED_REPLY"
      "job_id x = 0" "job_result x = 7" "reply_port x = [0x61]" "next_job one_job_waiting = 1" "delivered one_job_waiting = []"
    using one_job_waiting_job by blast
  show ?thesis
    using error_reply_swapped [OF serves_ok [OF one_job_waiting_serves one_job_server] x(1-3), of "[0x62]" one_job_no_memory one_job_io one_job_handler "()"]
      x one_job_laws by (simp add: one_job_no_memory_def)
qed

end
