(* ===== verification/Vfs_Server.thy ===== *)
theory Vfs_Server
  imports Rpc_Coop_Inv Vfs_Namespace Vfs_Backends User_Bytes
begin

text \<open>
  The file server on top of the cooperative queue (\<^verbatim>\<open>servers/fs/vfs_coop.c\<close>, \<^verbatim>\<open>servers/fs/vfs_coop_path.c\<close>, and the parts of
  \<^verbatim>\<open>servers/fs/vfs_open.c\<close>, \<^verbatim>\<open>vfs_kstat.c\<close> and \<^verbatim>\<open>vfs_rpc.c\<close> that they call). A request is a small machine: it runs until it is finished or needs a
  backend, parks its context, and goes on when the backend has answered.

  The functions of the machine return what to do next (\<open>srv_act\<close>): finish with a result, or send a request to a backend and answer with the given
  error if that fails. \<open>perform\<close> does it on the queue. The context of a job (\<^verbatim>\<open>job->cookie\<close>) is an entry of \<open>ctxs\<close>; what a backend
  stores through the pointers of its request is \<open>store_out\<close>. The calls of commits to the page cache and to backends are collected in \<open>srv_effects\<close>. Address
  spaces and credentials of tasks are the maps \<open>spaces\<close> and \<open>creds\<close>.
\<close>

section \<open>State\<close>

datatype vfs_coop_kind =
    VFS_COOP_KIND_NONE | VFS_COOP_KIND_READ | VFS_COOP_KIND_WRITE | VFS_COOP_KIND_OPEN | VFS_COOP_KIND_MKDIR | VFS_COOP_KIND_UNLINK
  | VFS_COOP_KIND_STAT | VFS_COOP_KIND_CHDIR | VFS_COOP_KIND_FACCESSAT | VFS_COOP_KIND_RENAME | VFS_COOP_KIND_LINK
  | VFS_COOP_KIND_GETDENTS | VFS_COOP_KIND_READLINK | VFS_COOP_KIND_MOUNT

datatype vfs_coop_step =
    VFS_COOP_STEP_NONE | VFS_COOP_STEP_LOOKUP | VFS_COOP_STEP_CREATE | VFS_COOP_STEP_CREATE_EXISTING | VFS_COOP_STEP_POST_CREATE_LOOKUP
  | VFS_COOP_STEP_MKDIR_BE | VFS_COOP_STEP_TRUNC | VFS_COOP_STEP_UNLINK_BE | VFS_COOP_STEP_RENAME_BE | VFS_COOP_STEP_LINK_BE
  | VFS_COOP_STEP_READDIR | VFS_COOP_STEP_READLINK

record vfs_coop_ctx =
  cx_kind :: vfs_coop_kind
  cx_step :: vfs_coop_step
  cx_pid :: int
  cx_uid :: u32
  cx_gid :: u32
  cx_handle :: nat
  cx_user_buf :: u64
  cx_count :: u64
  cx_total :: u64
  cx_remaining :: u64
  cx_chunk_len :: u64
  cx_chunk :: "u8 list option"
  cx_dir_index :: nat
  cx_dent :: vfs_dirent
  cx_path :: string
  cx_path2 :: string
  cx_port :: string
  cx_flags :: u32
  cx_mode :: u32
  cx_at_flags :: u32
  cx_follow_symlink :: bool
  cx_need_commit :: bool
  cx_ino :: vfs_inode

record 'v vfs_srv =
  srv_handles :: handle_tab
  ctxs :: "nat \<rightharpoonup> vfs_coop_ctx"
  srv_ns :: ns
  srv_mounts :: "vfs_mount_rec list"
  srv_backends :: vfs_backends
  srv_cred :: vfs_req_cred
  spaces :: "int \<rightharpoonup> 'v"
  creds :: "int \<rightharpoonup> u32 \<times> u32"
  srv_effects :: "ns_effect list"

text \<open>
  The outcomes that one run of a handler sees, and the functions of the kernel core that it calls. \<open>sv_stale\<close> is what an uninitialised buffer holds, and \<open>sv_stat_bytes\<close>
  the layout that the compiler gives to \<^verbatim>\<open>linux_user_stat_t\<close>.
\<close>

record 'v srv_env =
  sv_strcmp :: "string \<Rightarrow> string \<Rightarrow> nat \<Rightarrow> int"
  sv_core :: "'v mm_core"
  sv_mem :: memory
  sv_push :: bool
  sv_ns_push :: "nat \<Rightarrow> bool"
  sv_ctx_alloc :: bool
  sv_chunk_alloc :: bool
  sv_name_max :: nat
  sv_tries :: "nat \<Rightarrow> job_io"
  sv_stale :: string
  sv_stat_bytes :: "linux_user_stat \<Rightarrow> u8 list"

datatype srv_act = FIN int | PARK string vfs_backend_req int

type_synonym 'v srv_step = "srv_act \<times> vfs_coop_ctx \<times> 'v vfs_srv"
type_synonym 'v vfs_coop_queue = "(vfs_backend_req, 'v vfs_srv) coop"

abbreviation VFS_O_CREAT :: u32 where "VFS_O_CREAT \<equiv> 0x40"
abbreviation VFS_O_EXCL :: u32 where "VFS_O_EXCL \<equiv> 0x80"
abbreviation VFS_O_TRUNC :: u32 where "VFS_O_TRUNC \<equiv> 0x200"
abbreviation VFS_O_APPEND :: u32 where "VFS_O_APPEND \<equiv> 0x400"
abbreviation VFS_COOP_IO_CHUNK :: u64 where "VFS_COOP_IO_CHUNK \<equiv> 4096"
abbreviation VFS_AT_SYMLINK_NOFOLLOW :: u32 where "VFS_AT_SYMLINK_NOFOLLOW \<equiv> 0x100"

definition clip :: "string \<Rightarrow> string" where
  "clip s = take (VFS_PATH_MAX - 1) s"

definition vfs_coop_apply_cred :: "vfs_coop_ctx \<Rightarrow> 'v vfs_srv \<Rightarrow> 'v vfs_srv" where
  "vfs_coop_apply_cred cx s = s\<lparr>srv_cred := vfs_perm_set_request (cx_uid cx) (cx_gid cx) (srv_cred s)\<rparr>"

text \<open>What a backend stores through the pointers of its request: the bytes of a chunk or of the target of a link, an inode, an entry of a directory.\<close>

fun store_out :: "backend_out \<Rightarrow> vfs_coop_ctx \<Rightarrow> vfs_coop_ctx" where
  "store_out O_NONE cx = cx"
| "store_out (O_INO ino) cx = cx\<lparr>cx_ino := ino\<rparr>"
| "store_out (O_BYTES d) cx =
     (if cx_kind cx = VFS_COOP_KIND_READ then cx\<lparr>cx_chunk := map_option (\<lambda>c. d @ drop (length d) c) (cx_chunk cx)\<rparr>
      else cx\<lparr>cx_path2 := map (\<lambda>b. char_of (unat b)) (takeWhile (\<lambda>b. b \<noteq> 0) d)\<rparr>)"
| "store_out (O_DIRENT d) cx = (case d of None \<Rightarrow> cx | Some x \<Rightarrow> cx\<lparr>cx_dent := x\<rparr>)"

section \<open>Reading and writing\<close>

definition set_handle :: "nat \<Rightarrow> vfs_open_handle \<Rightarrow> 'v vfs_srv \<Rightarrow> 'v vfs_srv" where
  "set_handle h f s = s\<lparr>srv_handles := (srv_handles s)[h := f]\<rparr>"

definition set_space :: "int \<Rightarrow> 'v \<Rightarrow> 'v vfs_srv \<Rightarrow> 'v vfs_srv" where
  "set_space pid v s = s\<lparr>spaces := (spaces s)(pid \<mapsto> v)\<rparr>"

definition chunk_request :: "vfs_coop_ctx \<Rightarrow> vfs_open_handle \<Rightarrow> vfs_backend_req" where
  "chunk_request cx f =
     (if cx_kind cx = VFS_COOP_KIND_READ then OP_READ (h_ino f) (h_offset f) (unat (cx_chunk_len cx))
      else OP_WRITE (h_ino f) (h_offset f) (take (unat (cx_chunk_len cx)) (the (cx_chunk cx))))"

text \<open>A file without a backend refuses the request at once (\<^verbatim>\<open>vfs_backend_ipc_coop_nested\<close>).\<close>

definition vfs_coop_issue_rw_nested :: "vfs_open_handle \<Rightarrow> int \<Rightarrow> vfs_coop_ctx \<Rightarrow> 'v vfs_srv \<Rightarrow> 'v srv_step" where
  "vfs_coop_issue_rw_nested f fail cx s =
     (case backend_port (h_ino f) of
        None \<Rightarrow> (FIN fail, cx, s)
      | Some port \<Rightarrow> (PARK port (chunk_request cx f) fail, cx, s))"

definition chunk_size :: "u64 \<Rightarrow> u64" where
  "chunk_size remaining = (if VFS_COOP_IO_CHUNK < remaining then VFS_COOP_IO_CHUNK else remaining)"

definition vfs_coop_start_rw :: "'v srv_env \<Rightarrow> vfs_coop_ctx \<Rightarrow> 'v vfs_srv \<Rightarrow> 'v srv_step" where
  "vfs_coop_start_rw e cx s =
     (case spaces s (cx_pid cx) of
        None \<Rightarrow> (FIN (- LINUX_ESRCH), cx, s)
      | Some v \<Rightarrow>
          (case vfs_handle_get (cx_handle cx) (srv_handles s) of
             None \<Rightarrow> (FIN (- LINUX_EBADF), cx, s)
           | Some f \<Rightarrow>
               if is_dir (h_ino f) then (FIN (- LINUX_EISDIR), cx, s)
               else if cx_kind cx = VFS_COOP_KIND_READ \<and> h_open_flags f AND VFS_O_ACCMODE = VFS_O_WRONLY then (FIN (- LINUX_EBADF), cx, s)
               else if cx_kind cx \<noteq> VFS_COOP_KIND_READ \<and> h_open_flags f AND VFS_O_ACCMODE = VFS_O_RDONLY then (FIN (- LINUX_EBADF), cx, s)
               else
                 let f1 = (if cx_kind cx \<noteq> VFS_COOP_KIND_READ \<and> h_open_flags f AND VFS_O_APPEND \<noteq> 0 then f\<lparr>h_offset := i_size (h_ino f)\<rparr> else f);
                     s1 = set_handle (cx_handle cx) f1 s in
                 (case backend_port (h_ino f1) of
                    None \<Rightarrow> (FIN 0, cx, s1)
                  | Some _ \<Rightarrow>
                      if \<not> sv_chunk_alloc e then (FIN (- LINUX_ENOMEM), cx, s1)
                      else
                        let cx1 = cx\<lparr>cx_chunk := Some (replicate 4096 0), cx_remaining := cx_count cx, cx_total := 0\<rparr> in
                        if cx_remaining cx1 = 0 then (FIN 0, cx1, s1)
                        else
                          let cx2 = cx1\<lparr>cx_chunk_len := chunk_size (cx_remaining cx1)\<rparr> in
                          if cx_kind cx = VFS_COOP_KIND_WRITE then
                            (case linux_mm_load_from_user (sv_core e) v (cx_user_buf cx2) (unat (cx_chunk_len cx2)) of
                               Inl _ \<Rightarrow> (FIN (- LINUX_EFAULT), cx2, s1)
                             | Inr d \<Rightarrow>
                                 let cx3 = cx2\<lparr>cx_chunk := Some (d @ drop (length d) (the (cx_chunk cx2)))\<rparr> in
                                 vfs_coop_issue_rw_nested f1 (- LINUX_EIO) cx3 s1)
                          else vfs_coop_issue_rw_nested f1 (- LINUX_EIO) cx2 s1)))"

text \<open>The result when something has been transferred already is its number of bytes.\<close>

definition partial_or :: "vfs_coop_ctx \<Rightarrow> int \<Rightarrow> int" where
  "partial_or cx err = (if 0 < cx_total cx then sint (cx_total cx) else err)"

text \<open>The rest of a resume: the chunk has been transferred; the next one is requested unless this was the last.\<close>

definition rw_advance :: "'v srv_env \<Rightarrow> int \<Rightarrow> vfs_open_handle \<Rightarrow> 'v \<Rightarrow> vfs_coop_ctx \<Rightarrow> 'v vfs_srv \<Rightarrow> 'v srv_step" where
  "rw_advance e n f v cx s =
     (let n' = word_of_int n :: u64;
          f1 = f\<lparr>h_offset := h_offset f + nat n\<rparr>;
          s1 = set_handle (cx_handle cx) f1 s;
          cx1 = cx\<lparr>cx_total := cx_total cx + n', cx_remaining := (if n' \<le> cx_remaining cx then cx_remaining cx - n' else 0)\<rparr> in
      if cx_remaining cx1 = 0 \<or> n' < cx_chunk_len cx1 then (FIN (sint (cx_total cx1)), cx1, s1)
      else
        let cx2 = cx1\<lparr>cx_chunk_len := chunk_size (cx_remaining cx1)\<rparr> in
        if cx_kind cx = VFS_COOP_KIND_WRITE then
          (case linux_mm_load_from_user (sv_core e) v (cx_user_buf cx2 + cx_total cx2) (unat (cx_chunk_len cx2)) of
             Inl _ \<Rightarrow> (FIN (sint (cx_total cx2)), cx2, s1)
           | Inr d \<Rightarrow>
               let cx3 = cx2\<lparr>cx_chunk := Some (d @ drop (length d) (the (cx_chunk cx2)))\<rparr> in
               vfs_coop_issue_rw_nested f1 (partial_or cx3 (- LINUX_EIO)) cx3 s1)
        else vfs_coop_issue_rw_nested f1 (partial_or cx2 (- LINUX_EIO)) cx2 s1)"

definition vfs_coop_resume_rw :: "'v srv_env \<Rightarrow> int \<Rightarrow> vfs_coop_ctx \<Rightarrow> 'v vfs_srv \<Rightarrow> 'v srv_step" where
  "vfs_coop_resume_rw e n cx s0 =
     (let s = vfs_coop_apply_cred cx s0 in
      case (spaces s (cx_pid cx), vfs_handle_get (cx_handle cx) (srv_handles s)) of
        (Some v, Some f) \<Rightarrow>
          if n < 0 then (FIN (partial_or cx n), cx, s)
          else if n = 0 then (FIN (sint (cx_total cx)), cx, s)
          else if cx_kind cx = VFS_COOP_KIND_READ then
            (case linux_mm_store_to_user (sv_core e) (cx_user_buf cx + cx_total cx) (take (nat n) (the (cx_chunk cx))) v of
               (MM_OK, v1) \<Rightarrow> rw_advance e n f v1 cx (set_space (cx_pid cx) v1 s)
             | (_, v1) \<Rightarrow> (FIN (partial_or cx (- LINUX_EFAULT)), cx, set_space (cx_pid cx) v1 s))
          else rw_advance e n f v cx s
      | _ \<Rightarrow> (FIN (partial_or cx (- LINUX_EBADF)), cx, s))"

section \<open>Paths\<close>

text \<open>The target of a symbolic link is stored in the archive; ramfs has no symbolic links.\<close>

definition vfs_inode_symlink_target :: "memory \<Rightarrow> vfs_inode \<Rightarrow> nat \<Rightarrow> string option" where
  "vfs_inode_symlink_target m ino cap =
     (if \<not> is_symlink ino \<or> cap = 0 then None
      else case storage ino of
        ST_CPIO a \<Rightarrow> Some (cstr m a (if cap \<le> i_size ino then cap - 1 else i_size ino))
      | _ \<Rightarrow> None)"

text \<open>A join that fails leaves the output buffer as it was.\<close>

definition vfs_join_symlink_target :: "string \<Rightarrow> string \<Rightarrow> string \<Rightarrow> nat \<Rightarrow> string" where
  "vfs_join_symlink_target out base target cap =
     (if take 1 target = ''/'' then vfs_path_normalize target cap
      else
        let parent = (case vfs_path_parent base VFS_PATH_MAX of Some p \<Rightarrow> p | None \<Rightarrow> ''/'') in
        case vfs_path_join parent target cap of Some r \<Rightarrow> r | None \<Rightarrow> out)"

definition vfs_store_inode_stat :: "'v srv_env \<Rightarrow> int \<Rightarrow> 'v \<Rightarrow> u64 \<Rightarrow> vfs_inode \<Rightarrow> 'v vfs_srv \<Rightarrow> int \<times> 'v vfs_srv" where
  "vfs_store_inode_stat e pid v user_statbuf ino s =
     (case linux_mm_store_to_user (sv_core e) user_statbuf (sv_stat_bytes e (linux_user_stat_from_kstat (vfs_kstat_from_inode ino))) v of
        (MM_OK, v1) \<Rightarrow> (0, set_space pid v1 s)
      | (_, v1) \<Rightarrow> (- LINUX_EFAULT, set_space pid v1 s))"

definition vfs_fstat_handle :: "'v srv_env \<Rightarrow> int \<Rightarrow> nat \<Rightarrow> u64 \<Rightarrow> 'v vfs_srv \<Rightarrow> int \<times> 'v vfs_srv" where
  "vfs_fstat_handle e pid handle user_statbuf s =
     (case spaces s pid of
        None \<Rightarrow> (- LINUX_ESRCH, s)
      | Some v \<Rightarrow>
          (case vfs_handle_get handle (srv_handles s) of
             None \<Rightarrow> (- LINUX_EBADF, s)
           | Some f \<Rightarrow> vfs_store_inode_stat e pid v user_statbuf (h_ino f) s))"

definition vfs_coop_set_port :: "string option \<Rightarrow> vfs_coop_ctx \<Rightarrow> vfs_coop_ctx" where
  "vfs_coop_set_port port cx = (case port of None \<Rightarrow> cx | Some p \<Rightarrow> cx\<lparr>cx_port := p\<rparr>)"

definition vfs_coop_adopt_path2 :: "vfs_coop_ctx \<Rightarrow> vfs_coop_ctx" where
  "vfs_coop_adopt_path2 cx = cx\<lparr>cx_path := clip (cx_path2 cx)\<rparr>"

datatype vfs_backend_op =
    VFS_BACKEND_OP_LOOKUP | VFS_BACKEND_OP_TRUNCATE | VFS_BACKEND_OP_READDIR | VFS_BACKEND_OP_READLINK | VFS_BACKEND_OP_MKDIR
  | VFS_BACKEND_OP_CREATE | VFS_BACKEND_OP_UNLINK | VFS_BACKEND_OP_RENAME | VFS_BACKEND_OP_LINK

definition be_path :: "vfs_coop_ctx \<Rightarrow> string" where
  "be_path cx = (if cx_path2 cx \<noteq> [] then cx_path2 cx else cx_path cx)"

definition vfs_coop_park :: "vfs_backend_op \<Rightarrow> vfs_coop_step \<Rightarrow> vfs_coop_ctx \<Rightarrow> 'v vfs_srv \<Rightarrow> 'v srv_step" where
  "vfs_coop_park op step cx s =
     (PARK (cx_port cx)
        (case op of
           VFS_BACKEND_OP_LOOKUP \<Rightarrow> OP_LOOKUP (be_path cx)
         | VFS_BACKEND_OP_RENAME \<Rightarrow> OP_RENAME (cx_path cx) (cx_path2 cx)
         | VFS_BACKEND_OP_LINK \<Rightarrow> OP_LINK (cx_path cx) (cx_path2 cx)
         | VFS_BACKEND_OP_READDIR \<Rightarrow> OP_READDIR (be_path cx) (cx_dir_index cx)
         | VFS_BACKEND_OP_TRUNCATE \<Rightarrow> OP_TRUNCATE (cx_ino cx) 0
         | VFS_BACKEND_OP_READLINK \<Rightarrow> OP_READLINK (cx_path cx) VFS_PATH_MAX
         | VFS_BACKEND_OP_MKDIR \<Rightarrow> OP_MKDIR (cx_path cx) (cx_mode cx)
         | VFS_BACKEND_OP_CREATE \<Rightarrow> OP_CREATE (cx_path cx) (cx_mode cx)
         | VFS_BACKEND_OP_UNLINK \<Rightarrow> OP_UNLINK (cx_path cx))
        (- LINUX_EIO),
      cx\<lparr>cx_step := step\<rparr>, s)"

definition ns_commit :: "int \<times> ns_effect list \<times> ns \<Rightarrow> 'v vfs_srv \<Rightarrow> int \<times> 'v vfs_srv" where
  "ns_commit r s = (fst r, s\<lparr>srv_ns := snd (snd r), srv_effects := srv_effects s @ fst (snd r)\<rparr>)"

text \<open>The answer of a request with two paths; \<open>prep\<close> is the result of the \<^verbatim>\<open>prepare\<close> function.\<close>

definition vfs_coop_start_twopath ::
  "int \<times> string option \<times> string \<times> string \<times> bool \<Rightarrow> vfs_backend_op \<Rightarrow> vfs_coop_step \<Rightarrow> vfs_coop_ctx \<Rightarrow> 'v vfs_srv \<Rightarrow> 'v srv_step" where
  "vfs_coop_start_twopath prep op step cx s =
     (case prep of
        (r, port, old, new, need_commit) \<Rightarrow>
          if r < 0 then (FIN r, cx, s)
          else vfs_coop_park op step (vfs_coop_set_port port (cx\<lparr>cx_path := old, cx_path2 := new, cx_need_commit := need_commit\<rparr>)) s)"

definition vfs_coop_finish_after_be :: "int \<Rightarrow> int \<times> ns_effect list \<times> ns \<Rightarrow> vfs_coop_ctx \<Rightarrow> 'v vfs_srv \<Rightarrow> 'v srv_step" where
  "vfs_coop_finish_after_be nres commit cx s =
     (if nres < 0 then (FIN nres, cx, s)
      else if cx_need_commit cx then (case ns_commit commit s of (r, s1) \<Rightarrow> (FIN r, cx, s1))
      else (FIN 0, cx, s))"

definition vfs_coop_try_follow_symlink :: "'v srv_env \<Rightarrow> vfs_coop_ctx \<Rightarrow> int \<times> vfs_coop_ctx" where
  "vfs_coop_try_follow_symlink e cx =
     (if \<not> cx_follow_symlink cx \<or> \<not> is_symlink (cx_ino cx) then (1, cx)
      else case vfs_inode_symlink_target (sv_mem e) (cx_ino cx) VFS_PATH_MAX of
        None \<Rightarrow> (- LINUX_EINVAL, cx)
      | Some target \<Rightarrow>
          let resolved = vfs_join_symlink_target (sv_stale e) (be_path cx) target VFS_PATH_MAX in
          if resolved = [] then (- LINUX_EINVAL, cx)
          else (0, cx\<lparr>cx_path := clip resolved, cx_path2 := [], cx_follow_symlink := False\<rparr>))"

definition vfs_coop_finish_lookup_op :: "'v srv_env \<Rightarrow> vfs_coop_ctx \<Rightarrow> 'v vfs_srv \<Rightarrow> int \<times> 'v vfs_srv" where
  "vfs_coop_finish_lookup_op e cx s =
     (case cx_kind cx of
        VFS_COOP_KIND_STAT \<Rightarrow>
          (case spaces s (cx_pid cx) of
             None \<Rightarrow> (- LINUX_ESRCH, s)
           | Some v \<Rightarrow> vfs_store_inode_stat e (cx_pid cx) v (cx_user_buf cx) (cx_ino cx) s)
      | VFS_COOP_KIND_CHDIR \<Rightarrow> (if is_dir (cx_ino cx) then 0 else - LINUX_ENOTDIR, s)
      | VFS_COOP_KIND_FACCESSAT \<Rightarrow>
          if cx_mode cx = 0 then (0, s)
          else
            let check = (if cx_mode cx AND 4 \<noteq> 0 then VFS_PERM_R else 0) OR (if cx_mode cx AND 2 \<noteq> 0 then VFS_PERM_W else 0)
                  OR (if cx_mode cx AND 1 \<noteq> 0 then VFS_PERM_X else 0) in
            (vfs_perm_check_mode_request (srv_cred s) (i_mode (cx_ino cx)) check, s)
      | _ \<Rightarrow> (- LINUX_EINVAL, s))"

definition vfs_coop_store_readlink :: "'v srv_env \<Rightarrow> vfs_coop_ctx \<Rightarrow> string \<Rightarrow> int \<Rightarrow> 'v vfs_srv \<Rightarrow> int \<times> 'v vfs_srv" where
  "vfs_coop_store_readlink e cx buf len s =
     (if len < 0 then (len, s)
      else case spaces s (cx_pid cx) of
        None \<Rightarrow> (- LINUX_ESRCH, s)
      | Some v \<Rightarrow>
          let copy_len = (if cx_count cx \<le> word_of_int len then cx_count cx - 1 else word_of_int len) in
          (case linux_mm_store_to_user (sv_core e) (cx_user_buf cx) (take (unat copy_len + 1) (map of_char buf @ [0])) v of
             (MM_OK, v1) \<Rightarrow> (len, set_space (cx_pid cx) v1 s)
           | (_, v1) \<Rightarrow> (- LINUX_EFAULT, set_space (cx_pid cx) v1 s)))"

definition vfs_coop_after_readlink_inode :: "'v srv_env \<Rightarrow> vfs_coop_ctx \<Rightarrow> 'v vfs_srv \<Rightarrow> 'v srv_step" where
  "vfs_coop_after_readlink_inode e cx s =
     (if \<not> is_symlink (cx_ino cx) then (FIN (- LINUX_EINVAL), cx, s)
      else case vfs_inode_symlink_target (sv_mem e) (cx_ino cx) VFS_PATH_MAX of
        Some target \<Rightarrow>
          (case vfs_coop_store_readlink e cx target (int (length target)) s of (r, s1) \<Rightarrow> (FIN r, cx\<lparr>cx_path2 := target\<rparr>, s1))
      | None \<Rightarrow>
          (case (case vfs_mount_view_for_path (sv_strcmp e) (cx_path cx) (srv_mounts s) of
                   Some m \<Rightarrow> Some (m_port m) | None \<Rightarrow> backend_port (cx_ino cx)) of
             None \<Rightarrow> (FIN (- LINUX_EINVAL), cx, s)
           | Some port \<Rightarrow> vfs_coop_park VFS_BACKEND_OP_READLINK VFS_COOP_STEP_READLINK ((vfs_coop_set_port (Some port) cx)\<lparr>cx_path2 := []\<rparr>) s))"

definition install_handle :: "'v srv_env \<Rightarrow> vfs_coop_ctx \<Rightarrow> 'v vfs_srv \<Rightarrow> 'v srv_step" where
  "install_handle e cx s =
     (case vfs_open_install (sv_push e) (cx_ino cx) (cx_flags cx) (srv_handles s) of (r, tab) \<Rightarrow> (FIN r, cx, s\<lparr>srv_handles := tab\<rparr>))"

definition vfs_coop_after_inode :: "'v srv_env \<Rightarrow> vfs_coop_ctx \<Rightarrow> 'v vfs_srv \<Rightarrow> 'v srv_step" where
  "vfs_coop_after_inode e cx s =
     (if cx_kind cx = VFS_COOP_KIND_READLINK then vfs_coop_after_readlink_inode e cx s
      else if cx_kind cx \<noteq> VFS_COOP_KIND_OPEN then (case vfs_coop_finish_lookup_op e cx s of (r, s1) \<Rightarrow> (FIN r, cx, s1))
      else if cx_flags cx AND (VFS_O_CREAT OR VFS_O_EXCL) = VFS_O_CREAT OR VFS_O_EXCL then (FIN (- LINUX_EEXIST), cx, s)
      else
        let acc = cx_flags cx AND VFS_O_ACCMODE in
        if cx_flags cx AND VFS_O_TRUNC \<noteq> 0 \<and> \<not> is_dir (cx_ino cx) \<and> (acc = VFS_O_WRONLY \<or> acc = VFS_O_RDWR) then
          if \<not> writable (cx_ino cx) then (FIN (- LINUX_EROFS), cx, s)
          else if backend_port (cx_ino cx) = None then (FIN (- LINUX_ENXIO), cx, s)
          else vfs_coop_park VFS_BACKEND_OP_TRUNCATE VFS_COOP_STEP_TRUNC (vfs_coop_set_port (backend_port (cx_ino cx)) cx) s
        else install_handle e cx s)"

definition vfs_coop_open_on_enoent :: "'v srv_env \<Rightarrow> vfs_coop_ctx \<Rightarrow> 'v vfs_srv \<Rightarrow> 'v srv_step" where
  "vfs_coop_open_on_enoent e cx s =
     (if cx_flags cx AND VFS_O_CREAT = 0 then (FIN (- LINUX_ENOENT), cx, s)
      else if cx_flags cx AND VFS_O_DIRECTORY \<noteq> 0 then
        (case vfs_namespace_mkdir_prepare (sv_strcmp e) (srv_mounts s) (srv_backends s) (srv_cred s) (cx_path cx) VFS_PATH_MAX (srv_ns s) of
           (prep, port, norm, need_commit) \<Rightarrow>
             if prep < 0 then (FIN prep, cx, s)
             else vfs_coop_park VFS_BACKEND_OP_MKDIR VFS_COOP_STEP_MKDIR_BE
                    (vfs_coop_adopt_path2 (vfs_coop_set_port port (cx\<lparr>cx_path2 := norm, cx_need_commit := need_commit\<rparr>))) s)
      else
        (case vfs_namespace_create_prepare (sv_strcmp e) (srv_mounts s) (srv_backends s) (srv_cred s) (cx_path cx) VFS_PATH_MAX (srv_ns s) of
           (prep, port, norm, need_commit) \<Rightarrow>
             if prep < 0 then (FIN prep, cx, s)
             else
               let cx1 = (vfs_coop_adopt_path2 (vfs_coop_set_port port (cx\<lparr>cx_path2 := norm, cx_mode := (cx_mode cx AND 0x1FF) OR MODE_REG\<rparr>)))
                           \<lparr>cx_path2 := []\<rparr> in
               if prep = 2 then vfs_coop_park VFS_BACKEND_OP_LOOKUP VFS_COOP_STEP_CREATE_EXISTING (cx1\<lparr>cx_need_commit := False\<rparr>) s
               else vfs_coop_park VFS_BACKEND_OP_CREATE VFS_COOP_STEP_CREATE (cx1\<lparr>cx_need_commit := need_commit\<rparr>) s))"

text \<open>A symbolic link is followed once, so the lookup runs at most twice; \<open>vfs_coop_try_follow_symlink\<close> clears the flag.\<close>

function vfs_coop_start_lookup :: "'v srv_env \<Rightarrow> vfs_coop_ctx \<Rightarrow> 'v vfs_srv \<Rightarrow> 'v srv_step" where
  "vfs_coop_start_lookup e cx s =
     (case vfs_namespace_lookup_prepare (sv_strcmp e) (srv_mounts s) (srv_backends s) (cx_path cx) VFS_PATH_MAX (srv_ns s) of
        (prep, port, path2) \<Rightarrow>
          let cx1 = cx\<lparr>cx_path2 := path2, cx_ino := (if prep = 0 then vfs_inode_init_synthetic_root else inode_zero)\<rparr> in
          if prep < 0 then
            if cx_kind cx = VFS_COOP_KIND_OPEN \<and> prep = - LINUX_ENOENT then vfs_coop_open_on_enoent e cx1 s else (FIN prep, cx1, s)
          else if prep = 0 then
            (case vfs_coop_try_follow_symlink e cx1 of
               (follow, cx2) \<Rightarrow>
                 if follow < 0 then (FIN follow, cx2, s)
                 else if follow = 0 then vfs_coop_start_lookup e cx2 s
                 else vfs_coop_after_inode e cx2 s)
          else vfs_coop_park VFS_BACKEND_OP_LOOKUP VFS_COOP_STEP_LOOKUP (vfs_coop_set_port port cx1) s)"
  by pat_completeness auto
termination
  by (relation "measure (\<lambda>(e, cx, s). if cx_follow_symlink cx then 1 else 0)")
    (auto simp: vfs_coop_try_follow_symlink_def Let_def split: if_splits option.splits)

declare vfs_coop_start_lookup.simps [simp del]

definition vfs_coop_start_path :: "'v srv_env \<Rightarrow> vfs_coop_ctx \<Rightarrow> 'v vfs_srv \<Rightarrow> 'v srv_step" where
  "vfs_coop_start_path e cx s0 =
     (let s = vfs_coop_apply_cred cx s0; sc = sv_strcmp e; mounts = srv_mounts s; b = srv_backends s; cred = srv_cred s in
      if cx_kind cx = VFS_COOP_KIND_READLINK \<and> cx_count cx = 0 then (FIN (- LINUX_EINVAL), cx, s)
      else case cx_kind cx of
        VFS_COOP_KIND_MKDIR \<Rightarrow>
          (case vfs_namespace_mkdir_prepare sc mounts b cred (cx_path cx) VFS_PATH_MAX (srv_ns s) of
             (prep, port, norm, need_commit) \<Rightarrow>
               if prep < 0 then (FIN prep, cx, s)
               else vfs_coop_park VFS_BACKEND_OP_MKDIR VFS_COOP_STEP_MKDIR_BE
                      (vfs_coop_adopt_path2 (vfs_coop_set_port port (cx\<lparr>cx_path2 := norm, cx_need_commit := need_commit\<rparr>))) s)
      | VFS_COOP_KIND_UNLINK \<Rightarrow>
          if cx_flags cx AND 0x200 \<noteq> 0 then (FIN (- LINUX_ENOSYS), cx, s)
          else
            (case vfs_namespace_unlink_prepare sc mounts b cred (cx_path cx) VFS_PATH_MAX (srv_ns s) of
               (prep, port, norm, need_commit) \<Rightarrow>
                 if prep < 0 then (FIN prep, cx, s)
                 else
                   let cx1 = (vfs_coop_adopt_path2 (cx\<lparr>cx_path2 := norm\<rparr>))\<lparr>cx_need_commit := need_commit\<rparr> in
                   if prep = 0 then
                     if need_commit
                     then (case ns_commit (vfs_namespace_unlink_commit sc (cx_path cx1) (srv_ns s)) s of (r, s1) \<Rightarrow> (FIN r, cx1, s1))
                     else (FIN 0, cx1, s)
                   else vfs_coop_park VFS_BACKEND_OP_UNLINK VFS_COOP_STEP_UNLINK_BE (vfs_coop_set_port port cx1) s)
      | VFS_COOP_KIND_RENAME \<Rightarrow>
          vfs_coop_start_twopath (vfs_namespace_rename_prepare sc mounts b cred (cx_path cx) (cx_path2 cx) VFS_PATH_MAX VFS_PATH_MAX (srv_ns s))
            VFS_BACKEND_OP_RENAME VFS_COOP_STEP_RENAME_BE cx s
      | VFS_COOP_KIND_LINK \<Rightarrow>
          vfs_coop_start_twopath (vfs_namespace_link_prepare sc mounts b cred (cx_path cx) (cx_path2 cx) VFS_PATH_MAX VFS_PATH_MAX (srv_ns s))
            VFS_BACKEND_OP_LINK VFS_COOP_STEP_LINK_BE cx s
      | VFS_COOP_KIND_MOUNT \<Rightarrow>
          (case vfs_mount_register_prepare sc (sv_push e) (cx_path cx) (cx_path2 cx) (cx_count cx) VFS_PATH_MAX b mounts of
             (prep, norm, mkdir_port, mounts1) \<Rightarrow>
               let s1 = s\<lparr>srv_mounts := mounts1\<rparr>; cx1 = cx\<lparr>cx_path := norm\<rparr> in
               if prep < 0 then (FIN prep, cx1, s1)
               else if prep = 0 then (FIN 0, cx1, s1)
               else if mkdir_port = None
               then (FIN 0, cx1, s1\<lparr>srv_ns := snd (vfs_namespace_set_mount_cover sc (cx_path cx1) True (srv_ns s1))\<rparr>)
               else vfs_coop_park VFS_BACKEND_OP_MKDIR VFS_COOP_STEP_MKDIR_BE (vfs_coop_set_port mkdir_port (cx1\<lparr>cx_mode := 0x1ED OR MODE_DIR\<rparr>)) s1)
      | _ \<Rightarrow> vfs_coop_start_lookup e cx s)"

text \<open>The answer of the backend to a path request.\<close>

definition after_mkdir :: "'v srv_env \<Rightarrow> int \<Rightarrow> vfs_coop_ctx \<Rightarrow> 'v vfs_srv \<Rightarrow> 'v srv_step" where
  "after_mkdir e nres cx s =
     (if cx_kind cx = VFS_COOP_KIND_MOUNT
      then (FIN 0, cx, s\<lparr>srv_ns := snd (vfs_namespace_set_mount_cover (sv_strcmp e) (cx_path cx) True (srv_ns s))\<rparr>)
      else if nres < 0 then (FIN nres, cx, s)
      else
        (case (if cx_need_commit cx
               then ns_commit (vfs_namespace_mkdir_commit (sv_strcmp e) (sv_ns_push e) (srv_mounts s) (srv_backends s) (cx_path cx) (cx_mode cx) (srv_ns s)) s
               else (0, s)) of
           (r, s1) \<Rightarrow>
             if r < 0 then (FIN r, cx, s1)
             else if cx_kind cx = VFS_COOP_KIND_OPEN then vfs_coop_start_lookup e (cx\<lparr>cx_path2 := [], cx_follow_symlink := False\<rparr>) s1
             else (FIN 0, cx, s1)))"

definition after_create :: "'v srv_env \<Rightarrow> int \<Rightarrow> vfs_coop_ctx \<Rightarrow> 'v vfs_srv \<Rightarrow> 'v srv_step" where
  "after_create e nres cx s =
     (if nres < 0 then (FIN nres, cx, s)
      else
        (case (if cx_need_commit cx
               then ns_commit (vfs_namespace_create_commit (sv_strcmp e) (sv_ns_push e) (srv_mounts s) (srv_backends s) (cx_path cx) (cx_mode cx) (srv_ns s)) s
               else (0, s)) of
           (r, s1) \<Rightarrow>
             if r < 0 then (FIN r, cx, s1)
             else vfs_coop_park VFS_BACKEND_OP_LOOKUP VFS_COOP_STEP_POST_CREATE_LOOKUP (cx\<lparr>cx_path2 := []\<rparr>) s1))"

definition after_lookup :: "'v srv_env \<Rightarrow> int \<Rightarrow> vfs_coop_ctx \<Rightarrow> 'v vfs_srv \<Rightarrow> 'v srv_step" where
  "after_lookup e nres cx s =
     (if nres \<noteq> 0 then
        if cx_kind cx = VFS_COOP_KIND_OPEN \<and> nres = - LINUX_ENOENT then vfs_coop_open_on_enoent e cx s else (FIN nres, cx, s)
      else
        (case vfs_coop_try_follow_symlink e cx of
           (follow, cx1) \<Rightarrow>
             if follow < 0 then (FIN follow, cx1, s)
             else if follow = 0 then vfs_coop_start_lookup e cx1 s
             else vfs_coop_after_inode e cx1 s))"

definition vfs_coop_resume_path :: "'v srv_env \<Rightarrow> int \<Rightarrow> vfs_coop_ctx \<Rightarrow> 'v vfs_srv \<Rightarrow> 'v srv_step" where
  "vfs_coop_resume_path e nres cx s0 =
     (let s = vfs_coop_apply_cred cx s0 in
      case cx_step cx of
        VFS_COOP_STEP_LOOKUP \<Rightarrow> after_lookup e nres cx s
      | VFS_COOP_STEP_CREATE_EXISTING \<Rightarrow>
          if nres \<noteq> 0 then (FIN nres, cx, s)
          else if \<not> writable (cx_ino cx) then (FIN (- LINUX_EEXIST), cx, s)
          else vfs_coop_after_inode e cx s
      | VFS_COOP_STEP_CREATE \<Rightarrow> after_create e nres cx s
      | VFS_COOP_STEP_POST_CREATE_LOOKUP \<Rightarrow> if nres \<noteq> 0 then (FIN (- LINUX_EIO), cx, s) else vfs_coop_after_inode e cx s
      | VFS_COOP_STEP_MKDIR_BE \<Rightarrow> after_mkdir e nres cx s
      | VFS_COOP_STEP_TRUNC \<Rightarrow> if nres < 0 then (FIN nres, cx, s) else install_handle e (cx\<lparr>cx_ino := (cx_ino cx)\<lparr>i_size := 0\<rparr>\<rparr>) s
      | VFS_COOP_STEP_UNLINK_BE \<Rightarrow> vfs_coop_finish_after_be nres (vfs_namespace_unlink_commit (sv_strcmp e) (cx_path cx) (srv_ns s)) cx s
      | VFS_COOP_STEP_RENAME_BE \<Rightarrow> vfs_coop_finish_after_be nres (vfs_namespace_rename_commit (sv_strcmp e) (cx_path cx) (cx_path2 cx) (srv_ns s)) cx s
      | VFS_COOP_STEP_LINK_BE \<Rightarrow>
          vfs_coop_finish_after_be nres
            (vfs_namespace_link_commit (sv_strcmp e) (sv_ns_push e) (srv_mounts s) (srv_backends s) (cx_path cx) (cx_path2 cx) (srv_ns s)) cx s
      | VFS_COOP_STEP_READLINK \<Rightarrow>
          if nres < 0 then (FIN nres, cx, s)
          else (case vfs_coop_store_readlink e cx (cx_path2 cx) nres s of (r, s1) \<Rightarrow> (FIN r, cx, s1))
      | _ \<Rightarrow> (FIN (- LINUX_EIO), cx, s))"

section \<open>Directories\<close>

abbreviation VFS_DIRENT64_HDR :: nat where "VFS_DIRENT64_HDR \<equiv> 19"

definition vfs_dirent64_reclen :: "nat \<Rightarrow> u16" where
  "vfs_dirent64_reclen name_len = (of_nat (VFS_DIRENT64_HDR + name_len + 1) + 7) AND NOT 7"

fun dt_code :: "d_type \<Rightarrow> u8" where
  "dt_code VFS_DT_UNKNOWN = 0"
| "dt_code VFS_DT_DIR = 4"
| "dt_code VFS_DT_REG = 8"
| "dt_code VFS_DT_LNK = 10"

text \<open>The record of an entry: inode, index of the next entry, length, type, name, and zeros up to the length.\<close>

definition dirent_bytes :: "vfs_dirent \<Rightarrow> nat \<Rightarrow> u16 \<Rightarrow> u8 list" where
  "dirent_bytes d next_index reclen =
     (let bytes = le_bytes (d_ino d) @ le_bytes (of_nat next_index) @ [ucast reclen, ucast (drop_bit 8 reclen), dt_code (dt d)]
            @ map of_char (d_name d) in
      bytes @ replicate (unat reclen - length bytes) 0)"

definition vfs_coop_getdents_pack_one :: "'v srv_env \<Rightarrow> vfs_coop_ctx \<Rightarrow> 'v vfs_srv \<Rightarrow> int \<times> 'v vfs_srv" where
  "vfs_coop_getdents_pack_one e cx s =
     (case spaces s (cx_pid cx) of
        None \<Rightarrow> (- LINUX_ESRCH, s)
      | Some v \<Rightarrow>
          let reclen = vfs_dirent64_reclen (length (d_name (cx_dent cx))) in
          if cx_count cx < cx_total cx + ucast reclen then (0, s)
          else if 512 < reclen then (- LINUX_EINVAL, s)
          else
            (case linux_mm_store_to_user (sv_core e) (cx_user_buf cx + cx_total cx) (dirent_bytes (cx_dent cx) (cx_dir_index cx + 1) reclen) v of
               (MM_OK, v1) \<Rightarrow> (int (unat reclen), set_space (cx_pid cx) v1 s)
             | (_, v1) \<Rightarrow> (if 0 < cx_total cx then 0 else - LINUX_EFAULT, set_space (cx_pid cx) v1 s)))"

definition vfs_coop_getdents_commit_offset :: "vfs_coop_ctx \<Rightarrow> 'v vfs_srv \<Rightarrow> 'v vfs_srv" where
  "vfs_coop_getdents_commit_offset cx s =
     (case vfs_handle_get (cx_handle cx) (srv_handles s) of
        None \<Rightarrow> s
      | Some f \<Rightarrow> set_handle (cx_handle cx) (f\<lparr>h_offset := cx_dir_index cx\<rparr>) s)"

definition getdents_end :: "int \<Rightarrow> vfs_coop_ctx \<Rightarrow> 'v vfs_srv \<Rightarrow> 'v srv_step" where
  "getdents_end r cx s = (FIN r, cx, vfs_coop_getdents_commit_offset cx s)"

text \<open>One packed entry: an error or a full buffer ends the request; otherwise the context goes to the next entry.\<close>

definition getdents_packed :: "int \<Rightarrow> vfs_coop_ctx \<Rightarrow> 'v vfs_srv \<Rightarrow> 'v srv_step + vfs_coop_ctx \<times> 'v vfs_srv" where
  "getdents_packed packed cx s =
     (if packed < 0 then Inl (getdents_end packed cx s)
      else if packed = 0 then Inl (if cx_total cx = 0 then (FIN (- LINUX_EINVAL), cx, s) else getdents_end (sint (cx_total cx)) cx s)
      else Inr (cx\<lparr>cx_total := cx_total cx + word_of_int packed, cx_dir_index := cx_dir_index cx + 1\<rparr>, s))"

text \<open>
  The loop over the entries. An entry that is stored takes at least 8 bytes of the buffer, so a bound of one more iteration than there are words in the buffer is
  never reached (\<open>getdents_fuel\<close>).
\<close>

fun getdents_loop :: "nat \<Rightarrow> 'v srv_env \<Rightarrow> vfs_coop_ctx \<Rightarrow> 'v vfs_srv \<Rightarrow> 'v srv_step" where
  "getdents_loop 0 e cx s = getdents_end (sint (cx_total cx)) cx s"
| "getdents_loop (Suc n) e cx s =
     (if cx_count cx \<le> cx_total cx then getdents_end (sint (cx_total cx)) cx s
      else
        (case vfs_namespace_readdir_prepare (sv_strcmp e) (srv_mounts s) (cx_path cx) (cx_dir_index cx) VFS_PATH_MAX (srv_ns s) of
           (prep, dent, be) \<Rightarrow>
             let cx1 = cx\<lparr>cx_path2 := (case be of Some (_, p) \<Rightarrow> p | None \<Rightarrow> []), cx_dent := (case dent of Some d \<Rightarrow> d | None \<Rightarrow> cx_dent cx)\<rparr> in
             if prep < 0 then getdents_end prep cx1 s
             else if prep = 1 then getdents_end (sint (cx_total cx1)) cx1 s
             else if prep = 2 then vfs_coop_park VFS_BACKEND_OP_READDIR VFS_COOP_STEP_READDIR (vfs_coop_set_port (map_option fst be) cx1) s
             else
               (case vfs_coop_getdents_pack_one e cx1 s of
                  (packed, s1) \<Rightarrow>
                    (case getdents_packed packed cx1 s1 of
                       Inl r \<Rightarrow> r
                     | Inr (cx2, s2) \<Rightarrow> getdents_loop n e cx2 s2))))"

definition vfs_coop_getdents_fill :: "'v srv_env \<Rightarrow> vfs_coop_ctx \<Rightarrow> 'v vfs_srv \<Rightarrow> 'v srv_step" where
  "vfs_coop_getdents_fill e cx s = getdents_loop (unat (cx_count cx) div 8 + 1) e cx s"

definition vfs_coop_start_getdents :: "'v srv_env \<Rightarrow> vfs_coop_ctx \<Rightarrow> 'v vfs_srv \<Rightarrow> 'v srv_step" where
  "vfs_coop_start_getdents e cx s0 =
     (let s = vfs_coop_apply_cred cx s0 in
      if cx_count cx = 0 then (FIN 0, cx, s)
      else case vfs_handle_get (cx_handle cx) (srv_handles s) of
        None \<Rightarrow> (FIN (- LINUX_EBADF), cx, s)
      | Some f \<Rightarrow>
          if \<not> is_dir (h_ino f) then (FIN (- LINUX_ENOTDIR), cx, s)
          else vfs_coop_getdents_fill e (cx\<lparr>cx_path := clip (i_path (h_ino f)), cx_dir_index := h_offset f, cx_total := 0\<rparr>) s)"

definition vfs_coop_resume_getdents :: "'v srv_env \<Rightarrow> int \<Rightarrow> vfs_coop_ctx \<Rightarrow> 'v vfs_srv \<Rightarrow> 'v srv_step" where
  "vfs_coop_resume_getdents e nres cx s0 =
     (let s = vfs_coop_apply_cred cx s0 in
      if cx_step cx \<noteq> VFS_COOP_STEP_READDIR then (FIN (- LINUX_EIO), cx, s)
      else if nres < 0 then getdents_end nres cx s
      else if 0 < nres then getdents_end (sint (cx_total cx)) cx s
      else
        (case vfs_coop_getdents_pack_one e cx s of
           (packed, s1) \<Rightarrow> (case getdents_packed packed cx s1 of Inl r \<Rightarrow> r | Inr (cx1, s2) \<Rightarrow> vfs_coop_getdents_fill e cx1 s2)))"

section \<open>The server\<close>

subsection \<open>Nested calls and results\<close>

definition vfs_coop_finish :: "nat \<Rightarrow> int \<Rightarrow> 'v vfs_coop_queue \<Rightarrow> 'v vfs_coop_queue" where
  "vfs_coop_finish j r q = ipc_rpc_coop_job_set_result j r (q\<lparr>server := (server q)\<lparr>ctxs := (ctxs (server q))(j := None)\<rparr>\<rparr>)"

text \<open>The request is tried again while the send queue belongs to another job, without a poll in between; \<open>n\<close> tries are left.\<close>

fun issue_loop :: "nat \<Rightarrow> 'v srv_env \<Rightarrow> nat \<Rightarrow> string \<Rightarrow> vfs_backend_req \<Rightarrow> 'v vfs_coop_queue \<Rightarrow> coop_err \<times> 'v vfs_coop_queue" where
  "issue_loop 0 e j port req q = (C_RENDEZVOS, q)"
| "issue_loop (Suc n) e j port req q =
     (case ipc_rpc_coop_nested_call (sv_name_max e) (sv_tries e n) j (map of_char port) req q of
        (err, q1) \<Rightarrow>
          if err = C_OK then (C_OK, q1)
          else if err = C_AGAIN \<and> map_option job_state (job_of q1 j) \<in> {Some IPC_RPC_COOP_ST_NESTED_SEND, Some IPC_RPC_COOP_ST_NESTED_RECV} then (C_AGAIN, q1)
          else if err \<noteq> C_AGAIN then (err, q1)
          else issue_loop n e j port req q1)"

definition vfs_coop_issue_nested :: "'v srv_env \<Rightarrow> nat \<Rightarrow> string \<Rightarrow> vfs_backend_req \<Rightarrow> 'v vfs_coop_queue \<Rightarrow> coop_err \<times> 'v vfs_coop_queue" where
  "vfs_coop_issue_nested = issue_loop 64"

text \<open>What a step of the machine has decided is done on the queue.\<close>

definition perform :: "'v srv_env \<Rightarrow> nat \<Rightarrow> 'v srv_step \<Rightarrow> 'v vfs_coop_queue \<Rightarrow> coop_disp \<times> 'v vfs_coop_queue" where
  "perform e j st q =
     (case st of
        (act, cx, s) \<Rightarrow>
          let q1 = q\<lparr>server := s\<lparr>ctxs := (ctxs s)(j \<mapsto> cx)\<rparr>\<rparr> in
          (case act of
             FIN r \<Rightarrow> (IPC_RPC_COOP_HANDLED 0, vfs_coop_finish j r q1)
           | PARK port req fail \<Rightarrow>
               (case vfs_coop_issue_nested e j port req q1 of
                  (err, q2) \<Rightarrow> if err = C_OK \<or> err = C_AGAIN then (IPC_RPC_COOP_PARKED, q2) else (IPC_RPC_COOP_HANDLED 0, vfs_coop_finish j fail q2))))"

subsection \<open>Requests\<close>

text \<open>
  The decoded messages (\<^verbatim>\<open>ipc_serial_decode\<close> is part of the kernel core): \<open>V_BAD\<close> is one that does not decode, \<open>V_UNSUPPORTED\<close> one with an opcode that the server
  does not serve. Numbers are 64-bit values, as on the wire.
\<close>

datatype vfs_msg =
    V_BAD | V_UNSUPPORTED
  | V_OPEN string u64 u64 | V_MKDIRAT string u64 | V_UNLINKAT string u64 | V_NEWFSTATAT string u64 u64 | V_CHDIR string | V_FACCESSAT string u64 u64
  | V_RENAMEAT string string u64 | V_LINKAT string string u64 | V_READLINKAT string u64 u64 | V_MOUNT string string u64
  | V_GETDENTS64 u64 u64 u64 | V_READ u64 u64 u64 | V_WRITE u64 u64 u64
  | V_CLOSE u64 | V_HANDLE_RETAIN u64 | V_FSTAT u64 u64 | V_LSEEK u64 u64 u64 | V_UMOUNT string u64 | V_BACKEND_REGISTER string string u64 u64

definition VFS_CLIENT_PORT_PREFIX :: "u8 list" where
  "VFS_CLIENT_PORT_PREFIX = map of_char ''vfs_cli_''"

text \<open>The number of the client process is part of the name of its reply port; it is computed in a \<^verbatim>\<open>pid_t\<close> of 32 bits, which wraps around.\<close>

definition vfs_rpc_client_pid :: "u8 list \<Rightarrow> int option" where
  "vfs_rpc_client_pid name =
     (let n = length VFS_CLIENT_PORT_PREFIX; ds = drop n name; pid = sint (foldl (\<lambda>p c. p * 10 + (ucast c - 0x30)) (0 :: u32) ds) in
      if take n name \<noteq> VFS_CLIENT_PORT_PREFIX \<or> \<not> list_all digit ds \<or> pid \<le> 0 then None else Some pid)"

definition ctx_zero :: vfs_coop_ctx where
  "ctx_zero = \<lparr>cx_kind = VFS_COOP_KIND_NONE, cx_step = VFS_COOP_STEP_NONE, cx_pid = 0, cx_uid = 0, cx_gid = 0, cx_handle = 0, cx_user_buf = 0, cx_count = 0,
     cx_total = 0, cx_remaining = 0, cx_chunk_len = 0, cx_chunk = None, cx_dir_index = 0, cx_dent = \<lparr>d_name = [], dt = VFS_DT_UNKNOWN, d_ino = 0\<rparr>, cx_path = [],
     cx_path2 = [], cx_port = [], cx_flags = 0, cx_mode = 0, cx_at_flags = 0, cx_follow_symlink = False, cx_need_commit = False, cx_ino = inode_zero\<rparr>"

definition task_cred :: "int \<Rightarrow> 'v vfs_srv \<Rightarrow> u32 \<times> u32" where
  "task_cred pid s = (case creds s pid of Some c \<Rightarrow> c | None \<Rightarrow> (0, 0))"

definition vfs_coop_fill_cred :: "int \<Rightarrow> vfs_coop_ctx \<Rightarrow> 'v vfs_srv \<Rightarrow> vfs_coop_ctx \<times> 'v vfs_srv" where
  "vfs_coop_fill_cred pid cx s =
     (let cx1 = cx\<lparr>cx_pid := pid, cx_uid := fst (task_cred pid s), cx_gid := snd (task_cred pid s)\<rparr> in (cx1, vfs_coop_apply_cred cx1 s))"

text \<open>The context of a request that may need a backend, and the function that starts it; no other request has one.\<close>

fun request_ctx :: "vfs_msg \<Rightarrow> vfs_coop_ctx \<Rightarrow> vfs_coop_ctx option" where
  "request_ctx (V_OPEN p flags mode) cx = Some (cx\<lparr>cx_path := clip p, cx_kind := VFS_COOP_KIND_OPEN, cx_flags := ucast flags, cx_mode := ucast mode, cx_follow_symlink := True\<rparr>)"
| "request_ctx (V_MKDIRAT p mode) cx = Some (cx\<lparr>cx_path := clip p, cx_kind := VFS_COOP_KIND_MKDIR, cx_mode := ucast mode\<rparr>)"
| "request_ctx (V_UNLINKAT p flags) cx = Some (cx\<lparr>cx_path := clip p, cx_kind := VFS_COOP_KIND_UNLINK, cx_flags := ucast flags\<rparr>)"
| "request_ctx (V_NEWFSTATAT p buf at) cx =
     Some (cx\<lparr>cx_path := clip p, cx_kind := VFS_COOP_KIND_STAT, cx_user_buf := buf, cx_at_flags := ucast at, cx_follow_symlink := (ucast at AND VFS_AT_SYMLINK_NOFOLLOW = 0)\<rparr>)"
| "request_ctx (V_CHDIR p) cx = Some (cx\<lparr>cx_path := clip p, cx_kind := VFS_COOP_KIND_CHDIR, cx_follow_symlink := True\<rparr>)"
| "request_ctx (V_FACCESSAT p mode at) cx =
     Some (cx\<lparr>cx_path := clip p, cx_kind := VFS_COOP_KIND_FACCESSAT, cx_mode := ucast mode, cx_at_flags := ucast at,
       cx_follow_symlink := (ucast at AND VFS_AT_SYMLINK_NOFOLLOW = 0)\<rparr>)"
| "request_ctx (V_RENAMEAT p p2 flags) cx = Some (cx\<lparr>cx_path := clip p, cx_path2 := clip p2, cx_kind := VFS_COOP_KIND_RENAME, cx_flags := ucast flags\<rparr>)"
| "request_ctx (V_LINKAT p p2 flags) cx = Some (cx\<lparr>cx_path := clip p, cx_path2 := clip p2, cx_kind := VFS_COOP_KIND_LINK, cx_flags := ucast flags\<rparr>)"
| "request_ctx (V_READLINKAT p buf n) cx = Some (cx\<lparr>cx_path := clip p, cx_kind := VFS_COOP_KIND_READLINK, cx_user_buf := buf, cx_count := n, cx_follow_symlink := False\<rparr>)"
| "request_ctx (V_MOUNT p p2 flags) cx = Some (cx\<lparr>cx_path := clip p, cx_path2 := clip p2, cx_kind := VFS_COOP_KIND_MOUNT, cx_count := flags\<rparr>)"
| "request_ctx (V_GETDENTS64 h buf n) cx =
     Some (cx\<lparr>cx_kind := VFS_COOP_KIND_GETDENTS, cx_handle := unat (ucast h :: u32), cx_user_buf := buf, cx_count := n\<rparr>)"
| "request_ctx (V_READ h buf n) cx = Some (cx\<lparr>cx_kind := VFS_COOP_KIND_READ, cx_handle := unat (ucast h :: u32), cx_user_buf := buf, cx_count := n\<rparr>)"
| "request_ctx (V_WRITE h buf n) cx = Some (cx\<lparr>cx_kind := VFS_COOP_KIND_WRITE, cx_handle := unat (ucast h :: u32), cx_user_buf := buf, cx_count := n\<rparr>)"
| "request_ctx _ cx = None"

definition start_request :: "'v srv_env \<Rightarrow> vfs_coop_ctx \<Rightarrow> 'v vfs_srv \<Rightarrow> 'v srv_step" where
  "start_request e cx s =
     (if cx_kind cx \<in> {VFS_COOP_KIND_READ, VFS_COOP_KIND_WRITE} then vfs_coop_start_rw e cx s
      else if cx_kind cx = VFS_COOP_KIND_GETDENTS then vfs_coop_start_getdents e cx s
      else vfs_coop_start_path e cx s)"

definition local_request :: "'v srv_env \<Rightarrow> int \<Rightarrow> vfs_msg \<Rightarrow> 'v vfs_srv \<Rightarrow> int \<times> 'v vfs_srv" where
  "local_request e pid m s =
     (case m of
        V_CLOSE h \<Rightarrow> (case vfs_handle_close (unat (ucast h :: u32)) (srv_handles s) of (r, tab) \<Rightarrow> (r, s\<lparr>srv_handles := tab\<rparr>))
      | V_HANDLE_RETAIN h \<Rightarrow> (case vfs_handle_retain (unat (ucast h :: u32)) (srv_handles s) of (r, tab) \<Rightarrow> (r, s\<lparr>srv_handles := tab\<rparr>))
      | V_FSTAT h buf \<Rightarrow> vfs_fstat_handle e pid (unat (ucast h :: u32)) buf s
      | V_LSEEK h off whence \<Rightarrow>
          (case vfs_lseek_handle (unat (ucast h :: u32)) (sint off) (sint (ucast whence :: u32)) (srv_handles s) of (r, tab) \<Rightarrow> (r, s\<lparr>srv_handles := tab\<rparr>))
      | V_UMOUNT target flags \<Rightarrow>
          (case vfs_mount_unregister (sv_strcmp e) target flags (srv_handles s) (srv_mounts s) of
             (r, covered, mounts) \<Rightarrow>
               (r, s\<lparr>srv_mounts := mounts,
                     srv_ns := (case covered of Some p \<Rightarrow> snd (vfs_namespace_set_mount_cover (sv_strcmp e) p False (srv_ns s)) | None \<Rightarrow> srv_ns s)\<rparr>))
      | _ \<Rightarrow> (- LINUX_ENOSYS, s))"

text \<open>
  A request of a client process. The reply port of the job and the one that decoding the message gives are read from the same place of the payload, so the
  second is not tried.
\<close>

definition client_request :: "'v srv_env \<Rightarrow> nat \<Rightarrow> vfs_msg \<Rightarrow> 'v vfs_coop_queue \<Rightarrow> coop_disp \<times> 'v vfs_coop_queue" where
  "client_request e j m q =
     (case (case job_of q j of None \<Rightarrow> None | Some x \<Rightarrow> vfs_rpc_client_pid (reply_port x)) of
        None \<Rightarrow> (IPC_RPC_COOP_HANDLED (- LINUX_EINVAL), q)
      | Some pid \<Rightarrow>
          let s = server q in
          (case request_ctx m ctx_zero of
             None \<Rightarrow>
               (case local_request e pid m (s\<lparr>srv_cred := vfs_perm_set_request (fst (task_cred pid s)) (snd (task_cred pid s)) (srv_cred s)\<rparr>) of
                  (r, s1) \<Rightarrow> (IPC_RPC_COOP_HANDLED r, q\<lparr>server := s1\<rparr>))
           | Some cx \<Rightarrow>
               if \<not> sv_ctx_alloc e then (IPC_RPC_COOP_HANDLED (- LINUX_ENOMEM), q)
               else (case vfs_coop_fill_cred pid cx s of (cx1, s1) \<Rightarrow> perform e j (start_request e cx1 s1) q)))"

definition vfs_coop_handler :: "'v srv_env \<Rightarrow> (vfs_msg, vfs_backend_req, 'v vfs_srv) coop_handler" where
  "vfs_coop_handler e j m q =
     (case m of
        V_BAD \<Rightarrow> (IPC_RPC_COOP_HANDLED (- LINUX_EINVAL), q)
      | V_UNSUPPORTED \<Rightarrow> (IPC_RPC_COOP_HANDLED (- LINUX_ENOSYS), q)
      | V_BACKEND_REGISTER port fstype caps flags \<Rightarrow>
          (case vfs_backend_register (sv_strcmp e) (sv_push e) (sv_push e) port (Some fstype) (ucast caps) (ucast flags) (srv_backends (server q)) of
             (r, b) \<Rightarrow> (IPC_RPC_COOP_HANDLED r, q\<lparr>server := (server q)\<lparr>srv_backends := b\<rparr>\<rparr>))
      | _ \<Rightarrow> client_request e j m q)"

definition vfs_coop_resume :: "'v srv_env \<Rightarrow> nat \<Rightarrow> int \<Rightarrow> 'v vfs_coop_queue \<Rightarrow> 'v vfs_coop_queue" where
  "vfs_coop_resume e j nres q =
     (case ctxs (server q) j of
        None \<Rightarrow> ipc_rpc_coop_job_set_result j nres q
      | Some cx \<Rightarrow>
          snd (perform e j
            (if cx_kind cx \<in> {VFS_COOP_KIND_READ, VFS_COOP_KIND_WRITE} then vfs_coop_resume_rw e nres cx (server q)
             else if cx_kind cx = VFS_COOP_KIND_GETDENTS then vfs_coop_resume_getdents e nres cx (server q)
             else vfs_coop_resume_path e nres cx (server q)) q))"

section \<open>The contract with the framework\<close>

lemma finish_steps: "(job_step j)\<^sup>*\<^sup>* q (vfs_coop_finish j r q)"
  unfolding vfs_coop_finish_def by (rule converse_rtranclp_into_rtranclp [OF step_server r_into_rtranclp [of "job_step j", OF step_result]])

lemma issue_steps:
  assumes "\<forall>k. io_law (sv_tries e k)"
  shows "(job_step j)\<^sup>*\<^sup>* q (snd (issue_loop n e j port req q))"
proof (induction n arbitrary: q)
  case 0
  then show ?case by simp
next
  case (Suc n)
  let ?c = "ipc_rpc_coop_nested_call (sv_name_max e) (sv_tries e n) j (map of_char port) req q"
  have step: "job_step j q (snd ?c)" using assms by (intro step_nested) simp
  then have one: "(job_step j)\<^sup>*\<^sup>* q (snd ?c)" by (rule r_into_rtranclp [of "job_step j"])
  show ?case using one converse_rtranclp_into_rtranclp [of "job_step j", OF step Suc.IH] by (auto split: prod.split)
qed

lemma perform_steps:
  assumes "\<forall>k. io_law (sv_tries e k)"
  shows "(job_step j)\<^sup>*\<^sup>* q (snd (perform e j st q))" "fst (perform e j st q) \<noteq> IPC_RPC_COOP_REPLIED"
proof -
  obtain act cx s where st: "st = (act, cx, s)" by (cases st)
  let ?q = "q\<lparr>server := s\<lparr>ctxs := (ctxs s)(j \<mapsto> cx)\<rparr>\<rparr>"
  have data: "(job_step j)\<^sup>*\<^sup>* q ?q" by (rule r_into_rtranclp [of "job_step j", OF step_server])
  have "(job_step j)\<^sup>*\<^sup>* ?q (snd (vfs_coop_issue_nested e j port req ?q))" for port req
    unfolding vfs_coop_issue_nested_def by (rule issue_steps [OF assms])
  then have nested: "(job_step j)\<^sup>*\<^sup>* q (snd (vfs_coop_issue_nested e j port req ?q))" for port req
    using rtranclp_trans [of "job_step j", OF data] by blast
  have done1: "(job_step j)\<^sup>*\<^sup>* q p \<Longrightarrow> (job_step j)\<^sup>*\<^sup>* q (vfs_coop_finish j r p)" for p r
    using rtranclp_trans [of "job_step j", OF _ finish_steps] by blast
  have eq: "perform e j st q =
      (case act of
         FIN r \<Rightarrow> (IPC_RPC_COOP_HANDLED 0, vfs_coop_finish j r ?q)
       | PARK port req fail \<Rightarrow>
           (let w = vfs_coop_issue_nested e j port req ?q in
            if fst w = C_OK \<or> fst w = C_AGAIN then (IPC_RPC_COOP_PARKED, snd w) else (IPC_RPC_COOP_HANDLED 0, vfs_coop_finish j fail (snd w))))"
    by (cases act) (simp_all add: perform_def st Let_def case_prod_beta)
  show "(job_step j)\<^sup>*\<^sup>* q (snd (perform e j st q))" unfolding eq
    using done1 [OF data] nested done1 [OF nested] by (simp add: Let_def split: srv_act.split)
  show "fst (perform e j st q) \<noteq> IPC_RPC_COOP_REPLIED" unfolding eq
    by (simp add: Let_def split: srv_act.split)
qed

lemma client_request_steps:
  assumes "\<forall>k. io_law (sv_tries e k)"
  shows "(job_step j)\<^sup>*\<^sup>* q (snd (client_request e j m q)) \<and> fst (client_request e j m q) \<noteq> IPC_RPC_COOP_REPLIED"
  using perform_steps [where j = j and q = q, OF assms] r_into_rtranclp [of "job_step j", OF step_server [of j q]]
  by (simp add: client_request_def Let_def case_prod_beta split: option.split)

lemma vfs_contract:
  assumes "\<forall>k. io_law (sv_tries e k)" "\<forall>k. io_law (sv_tries e' k)"
  shows "coop_server (vfs_coop_handler e) (Some (vfs_coop_resume e'))"
proof
  fix j m and q :: "'a vfs_coop_queue"
  show "(job_step j)\<^sup>*\<^sup>* q (snd (vfs_coop_handler e j m q))" "fst (vfs_coop_handler e j m q) \<noteq> IPC_RPC_COOP_REPLIED"
    using client_request_steps [OF assms(1), of j q m] r_into_rtranclp [of "job_step j", OF step_server [of j q]]
    by (cases m; simp add: vfs_coop_handler_def case_prod_beta)+
next
  fix f j res and q :: "'a vfs_coop_queue"
  assume "Some (vfs_coop_resume e') = Some f"
  then have f: "f = vfs_coop_resume e'" by simp
  show "(job_step j)\<^sup>*\<^sup>* q (f j res q)"
    using perform_steps(1) [where j = j and q = q, OF assms(2)] r_into_rtranclp [of "job_step j", OF step_result [of j q]]
    by (simp add: f vfs_coop_resume_def split: option.split)
qed

text \<open>An environment whose sends keep the laws of the kernel core; one that keeps them already is its own.\<close>

definition lawful_io :: "job_io \<Rightarrow> job_io" where
  "lawful_io io = io\<lparr>io_dropped := (if io_send io = S_AGAIN then False else if io_send io = S_PORT_CLOSED then True else io_dropped io)\<rparr>"

definition lawful :: "'v srv_env \<Rightarrow> 'v srv_env" where
  "lawful e = e\<lparr>sv_tries := lawful_io \<circ> sv_tries e\<rparr>"

lemma lawful_law: "\<forall>k. io_law (sv_tries (lawful e) k)"
  by (simp add: lawful_def lawful_io_def io_law_def)

lemma lawful_id: "\<forall>k. io_law (sv_tries e k) \<Longrightarrow> lawful e = e"
proof -
  assume "\<forall>k. io_law (sv_tries e k)"
  then have "lawful_io (sv_tries e k) = sv_tries e k" for k
    by (cases "sv_tries e k") (auto simp: lawful_io_def io_law_def dest: spec [of _ k])
  then show ?thesis by (cases e) (simp add: lawful_def fun_eq_iff)
qed

interpretation vfs: coop_server "vfs_coop_handler (lawful e)" "Some (vfs_coop_resume (lawful e'))" for e e'
  by (rule vfs_contract [OF lawful_law lawful_law])

end
