(* ===== verification/Vfs_Server_Correct.thy ===== *)
theory Vfs_Server_Correct
  imports Vfs_Server
begin

text \<open>
  What a client of the file server gets: a read delivers the bytes of the file, in chunks and across any number of answers of the backend; replies go to
  the clients that asked for them; and two places where the server does not do what it means to.
\<close>

section \<open>Reading a file in chunks\<close>

text \<open>
  The server and a backend that serves reads of a file with the bytes \<open>file\<close> (what \<open>cached_read_correct\<close> shows of the backends): the request that a step
  parks is answered, its bytes are stored in the context, and the request goes on. \<open>n\<close> bounds the number of answers.
\<close>

fun run_read :: "nat \<Rightarrow> u8 list \<Rightarrow> 'v srv_env \<Rightarrow> 'v srv_step \<Rightarrow> 'v srv_step" where
  "run_read 0 file e st = st"
| "run_read (Suc n) file e (PARK port (OP_READ ino offset len) fail, cx, s) =
     (let d = take len (drop offset file) in run_read n file e (vfs_coop_resume_rw e (int (length d)) (store_out (O_BYTES d) cx) s))"
| "run_read (Suc n) file e st = st"

lemma run_read_fin [simp]: "run_read k file e (FIN r, cx, s) = (FIN r, cx, s)"
  by (cases k) simp_all

text \<open>The first \<open>t\<close> bytes of the request have been copied: memory has changed there only.\<close>

definition copied :: "('v \<Rightarrow> bool) \<Rightarrow> ('v \<Rightarrow> u64 \<Rightarrow> u8) \<Rightarrow> ('v \<Rightarrow> u64 \<Rightarrow> bool) \<Rightarrow> u8 list \<Rightarrow> u64 \<Rightarrow> nat \<Rightarrow> 'v \<Rightarrow> 'v \<Rightarrow> bool" where
  "copied plain um ok bytes buf t v v' \<longleftrightarrow>
     plain v' \<and> ok v' = ok v \<and> (\<forall>x. um v' x = (if unat (x - buf) < t then bytes ! unat (x - buf) else um v x))"

definition reading :: "('v \<Rightarrow> bool) \<Rightarrow> ('v \<Rightarrow> u64 \<Rightarrow> u8) \<Rightarrow> ('v \<Rightarrow> u64 \<Rightarrow> bool) \<Rightarrow> u8 list \<Rightarrow> vfs_open_handle \<Rightarrow> 'v \<Rightarrow> vfs_coop_ctx \<Rightarrow> nat \<Rightarrow> 'v vfs_srv \<Rightarrow> bool" where
  "reading plain um ok file f v rq t s \<longleftrightarrow>
     vfs_handle_get (cx_handle rq) (srv_handles s) = Some (f\<lparr>h_offset := h_offset f + t\<rparr>)
     \<and> (\<exists>v'. spaces s (cx_pid rq) = Some v' \<and> copied plain um ok (drop (h_offset f) file) (cx_user_buf rq) t v v')"

text \<open>The context while the server waits for the next chunk.\<close>

definition waiting :: "vfs_coop_ctx \<Rightarrow> nat \<Rightarrow> vfs_coop_ctx \<Rightarrow> bool" where
  "waiting rq t cx \<longleftrightarrow> t < unat (cx_count rq) \<and> cx_kind cx = VFS_COOP_KIND_READ \<and> cx_pid cx = cx_pid rq \<and> cx_handle cx = cx_handle rq
     \<and> cx_user_buf cx = cx_user_buf rq \<and> cx_total cx = of_nat t \<and> cx_remaining cx = cx_count rq - of_nat t \<and> cx_chunk_len cx = chunk_size (cx_remaining cx)
     \<and> cx_chunk cx \<noteq> None"

lemma unat_shift:
  assumes "t + n < 18446744073709551616"
  shows "unat ((x :: u64) - of_nat t) < n \<longleftrightarrow> t \<le> unat x \<and> unat x < t + n" "t \<le> unat x \<Longrightarrow> unat (x - of_nat t) = unat x - t"
proof -
  have t: "unat (of_nat t :: u64) = t" using assms by (simp add: unat_of_nat)
  have x: "unat x < 18446744073709551616" using unsigned_less [of x] by simp
  have s: "unat (x - of_nat t) = (if t \<le> unat x then unat x - t else unat x + 18446744073709551616 - t)"
    by (simp add: unat_sub_if_size t word_size)
  show "unat (x - of_nat t) < n \<longleftrightarrow> t \<le> unat x \<and> unat x < t + n" using assms x unfolding s by auto
  show "t \<le> unat x \<Longrightarrow> unat (x - of_nat t) = unat x - t" unfolding s by simp
qed

lemma sint_of_count: "t < 9223372036854775808 \<Longrightarrow> sint (of_nat t :: u64) = int t"
  by (simp add: signed_of_nat signed_take_bit_int_eq_self)

lemma take_length_take: "take (length (take n xs)) xs = take n xs"
  by (simp add: min_def)

lemma chunk_size_unat: "unat (chunk_size r) = min 4096 (unat r)"
  by (auto simp: chunk_size_def word_less_nat_alt)

lemma handle_get_set: "vfs_handle_get h (srv_handles s) = Some f \<Longrightarrow> in_use f' \<Longrightarrow> vfs_handle_get h (srv_handles (set_handle h f' s)) = Some f'"
  by (auto simp: vfs_handle_get_def set_handle_def split: if_splits)

lemma waiting_unat:
  assumes "waiting rq t cx"
  shows "unat (cx_remaining cx) = unat (cx_count rq) - t" "unat (cx_chunk_len cx) = min 4096 (unat (cx_count rq) - t)"
proof -
  have t: "t < unat (cx_count rq)" "cx_remaining cx = cx_count rq - of_nat t" using assms by (simp_all add: waiting_def)
  have "unat (cx_count rq) < 18446744073709551616" using unsigned_less [of "cx_count rq"] by simp
  then have "unat (of_nat t :: u64) = t" using t(1) by (simp add: unat_of_nat)
  then show r: "unat (cx_remaining cx) = unat (cx_count rq) - t" using t by (simp add: unat_sub_if_size)
  show "unat (cx_chunk_len cx) = min 4096 (unat (cx_count rq) - t)" using assms r by (simp add: waiting_def chunk_size_unat)
qed

text \<open>The next chunk: \<open>n\<close> bytes have come.\<close>

lemma rw_advance_read:
  assumes w: "waiting rq t cx" and n: "0 < n" "n \<le> unat (cx_chunk_len cx)" and c: "unat (cx_count rq) < 9223372036854775808"
    and port: "backend_port ino = Some port" and g: "ino = h_ino g" "o' = h_offset g + n" "s' = set_handle (cx_handle cx) (g\<lparr>h_offset := o'\<rparr>) s"
  shows "\<exists>cx' fail. rw_advance e (int n) g v cx s
      = (if t + n = unat (cx_count rq) \<or> n < unat (cx_chunk_len cx) then (FIN (int (t + n)), cx', s')
         else (PARK port (OP_READ ino o' (unat (cx_chunk_len cx'))) fail, cx', s'))
      \<and> (t + n \<noteq> unat (cx_count rq) \<and> \<not> n < unat (cx_chunk_len cx) \<longrightarrow> waiting rq (t + n) cx')"
proof -
  note u = waiting_unat [OF w]
  have t: "t < unat (cx_count rq)" using w by (simp add: waiting_def)
  have tn: "t + n \<le> unat (cx_count rq)" using n(2) u(2) t by linarith
  have un: "unat (of_nat n :: u64) = n" using tn c by (simp add: unat_of_nat)
  have le: "(of_nat n :: u64) \<le> cx_remaining cx" using tn by (simp add: word_le_nat_alt un u(1))
  define r where "r = cx_remaining cx - of_nat n"
  have r: "unat r = unat (cx_count rq) - (t + n)" using le by (simp add: r_def unat_sub un u(1))
  have zero: "r = 0 \<longleftrightarrow> t + n = unat (cx_count rq)" using r tn by (auto simp: unat_eq_0 [symmetric])
  have less: "(of_nat n :: u64) < cx_chunk_len cx \<longleftrightarrow> n < unat (cx_chunk_len cx)" by (simp add: word_less_nat_alt un)
  have total: "cx_total cx = of_nat t" "cx_kind cx = VFS_COOP_KIND_READ" using w by (simp_all add: waiting_def)
  have fin: "sint (cx_total cx + of_nat n) = int (t + n)" using sint_of_count [of "t + n"] tn c by (simp add: total)
  define cx1 where "cx1 = cx\<lparr>cx_total := cx_total cx + of_nat n, cx_remaining := r\<rparr>"
  define cx2 where "cx2 = cx1\<lparr>cx_chunk_len := chunk_size r\<rparr>"
  have eq: "rw_advance e (int n) g v cx s
      = (if t + n = unat (cx_count rq) \<or> n < unat (cx_chunk_len cx) then (FIN (int (t + n)), cx1, s')
         else (PARK port (OP_READ ino o' (unat (cx_chunk_len cx2))) (partial_or cx2 (- LINUX_EIO)), cx2, s'))"
    using le port total(2) g
    by (simp add: rw_advance_def Let_def zero [symmetric] less [symmetric] r_def [symmetric] cx1_def cx2_def fin vfs_coop_issue_rw_nested_def chunk_request_def)
  have "waiting rq (t + n) cx2" if "t + n \<noteq> unat (cx_count rq)"
    using w tn that by (auto simp: waiting_def cx2_def cx1_def r_def)
  then show ?thesis using eq by (cases "t + n = unat (cx_count rq) \<or> n < unat (cx_chunk_len cx)") auto
qed

context user_bytes
begin

lemma copied_store:
  assumes "copied plain um ok bytes buf t v v'" "t + n \<le> c" "c < 18446744073709551616" "\<forall>i < c. ok v (buf + of_nat i)" "t + n \<le> length bytes"
  shows "\<exists>v''. user_store core (buf + of_nat t) (take n (drop t bytes)) v' = (MM_OK, v'') \<and> copied plain um ok bytes buf (t + n) v v''"
proof -
  let ?d = "take n (drop t bytes)"
  have len: "length ?d = n" using assms(5) by simp
  have v': "plain v'" "ok v' = ok v" "um v' x = (if unat (x - buf) < t then bytes ! unat (x - buf) else um v x)" for x
    using assms(1) by (simp_all add: copied_def)
  have "ok v' (buf + of_nat t + of_nat i)" if "i < length ?d" for i
  proof -
    have "t + i < c" using that len assms(2) by linarith
    then have "ok v (buf + of_nat (t + i))" using assms(4) by blast
    then show ?thesis by (simp add: v'(2) add.assoc)
  qed
  then obtain v'' where st: "user_store core (buf + of_nat t) ?d v' = (MM_OK, v'')" using store_ok [OF v'(1)] by blast
  have small: "length ?d < 18446744073709551616" "t + n < 18446744073709551616" using assms(2,3) len by linarith+
  have eq: "x - (buf + of_nat t) = (x - buf) - of_nat t" for x :: u64 by simp
  have "um v'' x = (if unat (x - buf) < t + n then bytes ! unat (x - buf) else um v x)" for x
    using stored [OF v'(1) small(1) st, of x] unat_shift [OF small(2), of "x - buf"] v'(3) [of x] assms(5)
    by (auto simp: len eq)
  then show ?thesis using st stored [OF v'(1) small(1) st] v'(2) by (auto simp: copied_def)
qed

text \<open>One answer: the request is finished with all that there is to read, or waits for the next chunk.\<close>

lemma resume_read:
  assumes "reading plain um ok file f v rq t s" "waiting rq t cx" "core = sv_core e" "unat (cx_count rq) < 9223372036854775808"
    and "\<forall>i < unat (cx_count rq). ok v (cx_user_buf rq + of_nat i)" "backend_port (h_ino f) = Some port"
    and d: "d = take (unat (cx_chunk_len cx)) (drop (h_offset f + t) file)" and "t + h_offset f \<le> length file \<or> t = 0"
  shows "(\<exists>cx' s'. vfs_coop_resume_rw e (int (length d)) (store_out (O_BYTES d) cx) s = (FIN (int (t + length d)), cx', s')
             \<and> t + length d = min (unat (cx_count rq)) (length file - h_offset f) \<and> reading plain um ok file f v rq (t + length d) s')
       \<or> (\<exists>cx' s' fail. vfs_coop_resume_rw e (int (length d)) (store_out (O_BYTES d) cx) s
               = (PARK port (OP_READ (h_ino f) (h_offset f + (t + length d)) (unat (cx_chunk_len cx'))) fail, cx', s')
             \<and> d \<noteq> [] \<and> t + length d + h_offset f \<le> length file
             \<and> reading plain um ok file f v rq (t + length d) s' \<and> waiting rq (t + length d) cx')"
proof -
  let ?c = "unat (cx_count rq)"
  let ?n = "length d"
  obtain v' where h: "vfs_handle_get (cx_handle rq) (srv_handles s) = Some (f\<lparr>h_offset := h_offset f + t\<rparr>)" and v': "spaces s (cx_pid rq) = Some v'"
    and cp: "copied plain um ok (drop (h_offset f) file) (cx_user_buf rq) t v v'" using assms(1) by (auto simp: reading_def)
  have use: "in_use f" using h by (auto simp: vfs_handle_get_def split: if_splits)
  note u = waiting_unat [OF assms(2)]
  obtain chunk where w: "t < ?c" "cx_kind cx = VFS_COOP_KIND_READ" "cx_pid cx = cx_pid rq" "cx_handle cx = cx_handle rq" "cx_user_buf cx = cx_user_buf rq"
      "cx_total cx = of_nat t" "cx_chunk cx = Some chunk" using assms(2) by (auto simp: waiting_def)
  define cx1 where "cx1 = cx\<lparr>cx_chunk := Some (d @ drop ?n chunk)\<rparr>"
  have cx1: "store_out (O_BYTES d) cx = cx1" "waiting rq t cx1" "cx_chunk_len cx1 = cx_chunk_len cx"
    using assms(2) w by (simp_all add: cx1_def waiting_def)
  have req: "cx_kind cx1 = VFS_COOP_KIND_READ" "cx_pid cx1 = cx_pid rq" "cx_handle cx1 = cx_handle rq" "cx_user_buf cx1 = cx_user_buf rq"
      "cx_total cx1 = of_nat t" "cx_chunk cx1 = Some (d @ drop ?n chunk)" using w by (simp_all add: cx1_def)
  define s1 where "s1 = vfs_coop_apply_cred cx1 s"
  have s1: "srv_handles s1 = srv_handles s" "spaces s1 = spaces s" by (simp_all add: s1_def vfs_coop_apply_cred_def)
  have n: "?n = min (unat (cx_chunk_len cx)) (length file - (h_offset f + t))" by (simp add: d min.commute)
  show ?thesis
  proof (cases "d = []")
    case True
    then have "length file \<le> h_offset f + t" using n u(2) w(1) by (simp add: min_def split: if_splits)
    then have "t = min ?c (length file - h_offset f)" using assms(8) w(1) by auto
    moreover have "vfs_coop_resume_rw e 0 cx1 s = (FIN (int t), cx1, s1)"
      using h v' w s1 sint_of_count [of t] assms(4) by (simp add: vfs_coop_resume_rw_def Let_def s1_def cx1_def)
    ultimately show ?thesis using True cx1(1) assms(1) by (auto simp: reading_def s1)
  next
    case False
    then have "0 < ?n" by simp
    moreover have le: "?n \<le> unat (cx_chunk_len cx)" "?n \<le> length file - (h_offset f + t)" using n by linarith+
    moreover have "unat (cx_chunk_len cx) \<le> ?c - t" using u(2) by linarith
    ultimately have pos: "0 < ?n" "t + ?n \<le> ?c" "?n \<le> unat (cx_chunk_len cx1)" "t + ?n + h_offset f \<le> length file"
      using w(1) unfolding cx1(3) by linarith+
    have dd: "take ?n (drop t (drop (h_offset f) file)) = d"
      unfolding d using take_length_take [of "unat (cx_chunk_len cx)" "drop (h_offset f + t) file"] by (simp only: drop_drop add.commute)
    have fits: "t + ?n \<le> length (drop (h_offset f) file)" using pos(4) by simp
    obtain v'' where st: "user_store core (cx_user_buf rq + of_nat t) d v' = (MM_OK, v'')"
      and cp': "copied plain um ok (drop (h_offset f) file) (cx_user_buf rq) (t + ?n) v v''"
      using copied_store [OF cp pos(2) _ assms(5)] assms(4) fits dd by auto
    define s2 where "s2 = set_space (cx_pid rq) v'' s1"
    have run: "vfs_coop_resume_rw e (int ?n) cx1 s = rw_advance e (int ?n) (f\<lparr>h_offset := h_offset f + t\<rparr>) v'' cx1 s2"
      using h v' req s1 st pos(1) assms(3) by (simp add: vfs_coop_resume_rw_def Let_def s1_def [symmetric] s2_def linux_mm_store_to_user_def)
    define s3 where "s3 = set_handle (cx_handle rq) (f\<lparr>h_offset := h_offset f + t + ?n\<rparr>) s2"
    obtain cx' fail where adv: "rw_advance e (int ?n) (f\<lparr>h_offset := h_offset f + t\<rparr>) v'' cx1 s2
        = (if t + ?n = ?c \<or> ?n < unat (cx_chunk_len cx1) then (FIN (int (t + ?n)), cx', s3)
           else (PARK port (OP_READ (h_ino f) (h_offset f + t + ?n) (unat (cx_chunk_len cx'))) fail, cx', s3))"
      "t + ?n \<noteq> ?c \<and> \<not> ?n < unat (cx_chunk_len cx1) \<longrightarrow> waiting rq (t + ?n) cx'"
      using rw_advance_read [OF cx1(2) pos(1,3) assms(4,6), of "f\<lparr>h_offset := h_offset f + t\<rparr>" "h_offset f + t + ?n" s3 s2 e v''] by (auto simp: s3_def req)
    have g: "vfs_handle_get (cx_handle rq) (srv_handles s2) = Some (f\<lparr>h_offset := h_offset f + t\<rparr>)" using h s1 by (simp add: s2_def set_space_def)
    have rd: "reading plain um ok file f v rq (t + ?n) s3"
      using handle_get_set [OF g, of "f\<lparr>h_offset := h_offset f + t + ?n\<rparr>"] use cp'
      by (simp add: reading_def s3_def [symmetric] add.assoc) (simp add: s3_def s2_def set_handle_def set_space_def add.assoc)
    have all: "t + ?n = ?c \<or> ?n < unat (cx_chunk_len cx1) \<Longrightarrow> t + ?n = min ?c (length file - h_offset f)"
      using n pos u(2) cx1(3) by (auto simp: min_def split: if_splits)
    show ?thesis
    proof (cases "t + ?n = ?c \<or> ?n < unat (cx_chunk_len cx1)")
      case True
      then show ?thesis using run adv(1) rd all cx1(1) by auto
    next
      case no: False
      then show ?thesis using run adv rd pos(4) cx1(1) False by (auto simp: add.assoc)
    qed
  qed
qed

lemma run_read_waits:
  assumes "core = sv_core e" "unat (cx_count rq) < 9223372036854775808"
    and "\<forall>i < unat (cx_count rq). ok v (cx_user_buf rq + of_nat i)" "backend_port (h_ino f) = Some port"
  shows "reading plain um ok file f v rq t s \<Longrightarrow> waiting rq t cx \<Longrightarrow> t + h_offset f \<le> length file \<or> t = 0 \<Longrightarrow> unat (cx_count rq) - t < k
    \<Longrightarrow> \<exists>cx' s'. run_read k file e (PARK port (OP_READ (h_ino f) (h_offset f + t) (unat (cx_chunk_len cx))) fail, cx, s)
          = (FIN (int (min (unat (cx_count rq)) (length file - h_offset f))), cx', s')
        \<and> reading plain um ok file f v rq (min (unat (cx_count rq)) (length file - h_offset f)) s'"
proof (induction k arbitrary: t cx s fail)
  case (Suc k)
  define d where "d = take (unat (cx_chunk_len cx)) (drop (h_offset f + t) file)"
  have run: "run_read (Suc k) file e (PARK port (OP_READ (h_ino f) (h_offset f + t) (unat (cx_chunk_len cx))) fail, cx, s)
      = run_read k file e (vfs_coop_resume_rw e (int (length d)) (store_out (O_BYTES d) cx) s)" by (simp only: run_read.simps Let_def d_def)
  from resume_read [OF Suc.prems(1,2) assms d_def Suc.prems(3)] show ?case
  proof (elim disjE exE conjE, goal_cases)
    case (1 cx' s')
    then show ?case using run by auto
  next
    case (2 cx' s' fail')
    have "unat (cx_count rq) - (t + length d) < k" using 2(2) Suc.prems(2,4) by (cases d) (auto simp: waiting_def)
    then show ?case using Suc.IH [OF 2(4,5) disjI1 [OF 2(3)], of fail'] run 2(1) by simp
  qed
qed simp

end

section \<open>Listing a directory\<close>

lemma reclen_step: "vfs_dirent64_reclen n \<noteq> 0 \<Longrightarrow> 8 \<le> unat (vfs_dirent64_reclen n)"
proof (rule ccontr)
  define r where "r = vfs_dirent64_reclen n"
  assume nz: "vfs_dirent64_reclen n \<noteq> 0" and "\<not> 8 \<le> unat (vfs_dirent64_reclen n)"
  then have "take_bit 3 (unat r) = unat r" by (simp add: r_def take_bit_nat_eq_self)
  then have "r = take_bit 3 r" by (metis unsigned_take_bit_eq word_unat_eq_iff)
  also have "\<dots> = r AND 7" by (simp add: take_bit_eq_mask mask_eq_exp_minus_1)
  also have "\<dots> = 0" by (simp add: r_def vfs_dirent64_reclen_def and.assoc)
  finally show False using nz by (simp add: r_def)
qed

lemma unat_word_of_int: "k < 18446744073709551616 \<Longrightarrow> unat (word_of_int (int k) :: u64) = k"
  by (simp add: unat_of_nat)

lemma pack_one_step:
  assumes "vfs_coop_getdents_pack_one e cx s = (packed, s')" "0 < packed" "unat (cx_count cx) < 9223372036854775808" "cx_total cx < cx_count cx"
  shows "8 \<le> packed" "unat (cx_total cx + word_of_int packed) = unat (cx_total cx) + nat packed"
proof -
  let ?r = "vfs_dirent64_reclen (length (d_name (cx_dent cx)))"
  have p: "packed = int (unat ?r)" using assms(1,2) by (auto simp: vfs_coop_getdents_pack_one_def Let_def split: option.splits if_splits prod.splits mm_ret.splits)
  then have "?r \<noteq> 0" using assms(2) by auto
  then show "8 \<le> packed" using reclen_step [of "length (d_name (cx_dent cx))"] p by linarith
  have "unat ?r < 65536" using unsigned_less [of ?r] by simp
  moreover have "unat (cx_total cx) < unat (cx_count cx)" using assms(4) by (simp add: word_less_nat_alt)
  ultimately have "unat (cx_total cx) + unat ?r < 18446744073709551616" using assms(3) by linarith
  then show "unat (cx_total cx + word_of_int packed) = unat (cx_total cx) + nat packed"
    using unat_word_of_int [of "unat ?r"] by (simp add: p unat_word_ariths)
qed

text \<open>The bound of the loop is never reached: a larger one gives the same result.\<close>

lemma getdents_fuel:
  "unat (cx_count cx) < 9223372036854775808 \<Longrightarrow> unat (cx_count cx) < unat (cx_total cx) + 8 * n \<Longrightarrow> unat (cx_count cx) < unat (cx_total cx) + 8 * m
    \<Longrightarrow> getdents_loop n e cx s = getdents_loop m e cx s"
proof (induction n arbitrary: m cx s)
  case 0
  then have le: "cx_count cx \<le> cx_total cx" by (simp add: word_le_nat_alt)
  then show ?case by (cases m) simp_all
next
  case (Suc n)
  show ?case
  proof (cases "cx_count cx \<le> cx_total cx \<or> m = 0")
    case True
    then have "cx_count cx \<le> cx_total cx" using Suc.prems by (auto simp: word_le_nat_alt)
    then show ?thesis by (cases m) simp_all
  next
    case False
    then obtain m' where m: "m = Suc m'" by (cases m) auto
    have lt: "cx_total cx < cx_count cx" using False by (simp add: not_le)
    have step: "getdents_loop n e cx2 s2 = getdents_loop m' e cx2 s2"
      if "vfs_coop_getdents_pack_one e cx1 s = (packed, s1)" "getdents_packed packed cx1 s1 = Inr (cx2, s2)"
        "cx_total cx1 = cx_total cx" "cx_count cx1 = cx_count cx" for cx1 packed s1 cx2 s2
    proof -
      have pos: "0 < packed" and cx2: "cx2 = cx1\<lparr>cx_total := cx_total cx1 + word_of_int packed, cx_dir_index := cx_dir_index cx1 + 1\<rparr>"
        using that(2) by (auto simp: getdents_packed_def split: if_splits)
      have "8 \<le> packed" "unat (cx_total cx2) = unat (cx_total cx) + nat packed"
        using pack_one_step [OF that(1) pos] that(3,4) lt Suc.prems(1) by (simp_all add: cx2)
      then show ?thesis using Suc.prems that(4) m by (intro Suc.IH) (simp_all add: cx2)
    qed
    show ?thesis using False by (auto simp: m Let_def step split: prod.split sum.split)
  qed
qed

section \<open>Exclusive creation\<close>

text \<open>An open and the answers of the backends to its requests, in order.\<close>

fun run_path :: "'v srv_env \<Rightarrow> (int \<times> backend_out) list \<Rightarrow> 'v srv_step \<Rightarrow> 'v srv_step" where
  "run_path e [] st = st"
| "run_path e ((n, out) # as) (PARK port req fail, cx, s) = run_path e as (vfs_coop_resume_path e n (store_out out cx) s)"
| "run_path e (a # as) (FIN r, cx, s) = (FIN r, cx, s)"

definition excl :: "vfs_coop_ctx \<Rightarrow> bool" where
  "excl cx \<longleftrightarrow> cx_kind cx = VFS_COOP_KIND_OPEN \<and> cx_flags cx AND (VFS_O_CREAT OR VFS_O_EXCL) = VFS_O_CREAT OR VFS_O_EXCL"

fun hopeless :: "'v srv_step \<Rightarrow> bool" where
  "hopeless (FIN r, cx, s) \<longleftrightarrow> r < 0"
| "hopeless (PARK port req fail, cx, s) \<longleftrightarrow> fail < 0 \<and> excl cx
     \<and> cx_step cx \<in> {VFS_COOP_STEP_LOOKUP, VFS_COOP_STEP_CREATE_EXISTING, VFS_COOP_STEP_CREATE, VFS_COOP_STEP_POST_CREATE_LOOKUP, VFS_COOP_STEP_MKDIR_BE}"

lemma excl_upd [simp]:
  "excl (cx\<lparr>cx_path := p\<rparr>) = excl cx" "excl (cx\<lparr>cx_path2 := p\<rparr>) = excl cx" "excl (cx\<lparr>cx_need_commit := b\<rparr>) = excl cx" "excl (cx\<lparr>cx_ino := i\<rparr>) = excl cx"
  "excl (cx\<lparr>cx_mode := m\<rparr>) = excl cx" "excl (cx\<lparr>cx_follow_symlink := b\<rparr>) = excl cx" "excl (cx\<lparr>cx_port := p\<rparr>) = excl cx" "excl (cx\<lparr>cx_step := st\<rparr>) = excl cx"
  "excl (cx\<lparr>cx_dent := d\<rparr>) = excl cx" "excl (cx\<lparr>cx_chunk := c\<rparr>) = excl cx" "excl (vfs_coop_set_port q cx) = excl cx" "excl (vfs_coop_adopt_path2 cx) = excl cx"
  "excl (store_out out cx) = excl cx" "cx_step (store_out out cx) = cx_step cx"
  by (cases out; simp add: excl_def vfs_coop_set_port_def vfs_coop_adopt_path2_def split: option.split)+

lemma park_hopeless [simp]:
  "hopeless (vfs_coop_park op step cx s) \<longleftrightarrow>
     excl cx \<and> step \<in> {VFS_COOP_STEP_LOOKUP, VFS_COOP_STEP_CREATE_EXISTING, VFS_COOP_STEP_CREATE, VFS_COOP_STEP_POST_CREATE_LOOKUP, VFS_COOP_STEP_MKDIR_BE}"
  by (simp add: vfs_coop_park_def)

lemma after_inode_hopeless: "excl cx \<Longrightarrow> hopeless (vfs_coop_after_inode e cx s)"
  by (simp add: excl_def vfs_coop_after_inode_def)

lemma on_enoent_hopeless: "excl cx \<Longrightarrow> hopeless (vfs_coop_open_on_enoent e cx s)"
  by (simp add: vfs_coop_open_on_enoent_def Let_def split: prod.split)

lemma follow_excl: "vfs_coop_try_follow_symlink e cx = (r, cx') \<Longrightarrow> excl cx' = excl cx"
  by (auto simp: vfs_coop_try_follow_symlink_def Let_def split: if_splits option.splits)

lemma start_lookup_hopeless: "excl cx \<Longrightarrow> hopeless (vfs_coop_start_lookup e cx s)"
proof (induction e cx s rule: vfs_coop_start_lookup.induct)
  case (1 e cx s)
  obtain prep port path2 where prep: "vfs_namespace_lookup_prepare (sv_strcmp e) (srv_mounts s) (srv_backends s) (cx_path cx) VFS_PATH_MAX (srv_ns s) = (prep, port, path2)"
    by (metis prod_cases3)
  define cx1 where "cx1 = cx\<lparr>cx_path2 := path2, cx_ino := (if prep = 0 then vfs_inode_init_synthetic_root else inode_zero)\<rparr>"
  obtain follow cx2 where follow: "vfs_coop_try_follow_symlink e cx1 = (follow, cx2)" by fastforce
  have ex: "excl cx1" "excl cx2" using 1(2) follow_excl [OF follow] by (simp_all add: cx1_def)
  have IH: "prep = 0 \<Longrightarrow> \<not> follow < 0 \<Longrightarrow> follow = 0 \<Longrightarrow> hopeless (vfs_coop_start_lookup e cx2 s)"
    using 1(1) [OF prep [symmetric] refl cx1_def _ _ follow [symmetric]] ex(2) by simp
  have "vfs_coop_start_lookup e cx s =
      (if prep < 0 then if cx_kind cx = VFS_COOP_KIND_OPEN \<and> prep = - LINUX_ENOENT then vfs_coop_open_on_enoent e cx1 s else (FIN prep, cx1, s)
       else if prep = 0 then
         if follow < 0 then (FIN follow, cx2, s) else if follow = 0 then vfs_coop_start_lookup e cx2 s else vfs_coop_after_inode e cx2 s
       else vfs_coop_park VFS_BACKEND_OP_LOOKUP VFS_COOP_STEP_LOOKUP (vfs_coop_set_port port cx1) s)"
    by (subst vfs_coop_start_lookup.simps) (simp only: prep prod.case Let_def cx1_def [symmetric] follow)
  then show ?case using ex IH by (simp add: on_enoent_hopeless after_inode_hopeless)
qed

lemma answer_hopeless:
  assumes "excl cx" "n \<le> 0"
  shows "hopeless (after_lookup e n cx s)" "hopeless (after_create e n cx s)" "hopeless (after_mkdir e n cx s)"
proof -
  have kind: "cx_kind cx = VFS_COOP_KIND_OPEN" using assms(1) by (simp add: excl_def)
  obtain follow cx1 where follow: "vfs_coop_try_follow_symlink e cx = (follow, cx1)" by fastforce
  show "hopeless (after_lookup e n cx s)"
    using assms follow_excl [OF follow] by (simp add: after_lookup_def follow on_enoent_hopeless start_lookup_hopeless after_inode_hopeless)
  show "hopeless (after_create e n cx s)" using assms(1) by (simp add: after_create_def split: prod.split)
  show "hopeless (after_mkdir e n cx s)" using assms(1) kind by (simp add: after_mkdir_def start_lookup_hopeless split: prod.split)
qed

lemma resume_hopeless:
  assumes "hopeless (PARK port req fail, cx, s)" "n \<le> 0"
  shows "hopeless (vfs_coop_resume_path e n (store_out out cx) s')"
proof -
  have ex: "excl (store_out out cx)" using assms(1) by simp
  show ?thesis
    using assms(1,2) answer_hopeless [OF ex assms(2)] after_inode_hopeless [OF ex] by (auto simp: vfs_coop_resume_path_def Let_def)
qed

lemma run_hopeless: "hopeless st \<Longrightarrow> \<forall>a \<in> set answers. fst a \<le> 0 \<Longrightarrow> hopeless (run_path e answers st)"
proof (induction e answers st rule: run_path.induct)
  case (2 e n out as port req fail cx s)
  then show ?case using resume_hopeless [OF 2(2), of n e out s] by simp
qed simp_all

section \<open>Properties\<close>

text \<open>C5. A read request for \<open>count\<close> bytes of an open file delivers the bytes of the file from the offset of the handle on: however many chunks it takes,
  it ends (no more than \<open>count\<close> + 1 answers of the backend are needed), its result is the number of bytes that there are, at most \<open>count\<close>; the buffer holds
  exactly these bytes, no other byte of the memory of the client has changed, and the offset of the handle has moved by the result.\<close>

theorem vfs_read_correct:
  assumes "user_bytes (sv_core e) plain um ok" "plain v" "sv_chunk_alloc e"
    and "cx_kind rq = VFS_COOP_KIND_READ" "spaces s (cx_pid rq) = Some v" "vfs_handle_get (cx_handle rq) (srv_handles s) = Some f"
    and "\<not> is_dir (h_ino f)" "h_open_flags f AND VFS_O_ACCMODE \<noteq> VFS_O_WRONLY" "backend_port (h_ino f) \<noteq> None"
    and "unat (cx_count rq) < 9223372036854775808" "\<forall>i < unat (cx_count rq). ok v (cx_user_buf rq + of_nat i)" "unat (cx_count rq) < k"
  shows "\<exists>cx' s' v' n. run_read k file e (vfs_coop_start_rw e rq s) = (FIN (int n), cx', s')
    \<and> n = min (unat (cx_count rq)) (length file - h_offset f)
    \<and> vfs_handle_get (cx_handle rq) (srv_handles s') = Some (f\<lparr>h_offset := h_offset f + n\<rparr>) \<and> spaces s' (cx_pid rq) = Some v'
    \<and> (\<forall>x. um v' x = (if unat (x - cx_user_buf rq) < n then file ! (h_offset f + unat (x - cx_user_buf rq)) else um v x))"
proof -
  obtain port where port: "backend_port (h_ino f) = Some port" using assms(9) by blast
  have use: "in_use f" using assms(6) by (auto simp: vfs_handle_get_def split: if_splits)
  define s1 where "s1 = set_handle (cx_handle rq) f s"
  have rd: "reading plain um ok file f v rq 0 s1"
    using handle_get_set [OF assms(6) use] assms(2,5) by (simp add: reading_def copied_def s1_def) (simp add: set_handle_def)
  have "\<exists>cx' s'. run_read k file e (vfs_coop_start_rw e rq s) = (FIN (int (min (unat (cx_count rq)) (length file - h_offset f))), cx', s')
        \<and> reading plain um ok file f v rq (min (unat (cx_count rq)) (length file - h_offset f)) s'"
  proof (cases "cx_count rq = 0")
    case True
    then have "vfs_coop_start_rw e rq s = (FIN 0, rq\<lparr>cx_chunk := Some (replicate 4096 0), cx_remaining := 0, cx_total := 0\<rparr>, s1)"
      using assms port by (simp add: vfs_coop_start_rw_def Let_def s1_def)
    then show ?thesis using True rd by simp
  next
    case False
    define cx where "cx = rq\<lparr>cx_chunk := Some (replicate 4096 0), cx_remaining := cx_count rq, cx_total := 0, cx_chunk_len := chunk_size (cx_count rq)\<rparr>"
    have start: "vfs_coop_start_rw e rq s = (PARK port (OP_READ (h_ino f) (h_offset f + 0) (unat (cx_chunk_len cx))) (- LINUX_EIO), cx, s1)"
      using assms port False by (simp add: vfs_coop_start_rw_def Let_def s1_def cx_def vfs_coop_issue_rw_nested_def chunk_request_def)
    have "waiting rq 0 cx" using False assms(4) by (simp add: waiting_def cx_def unat_gt_0)
    then show ?thesis
      unfolding start using user_bytes.run_read_waits [OF assms(1) refl assms(10,11) port rd] assms(12) by simp
  qed
  then show ?thesis by (auto simp: reading_def copied_def nth_drop)
qed

text \<open>The server of the examples: one open file of three bytes, read from its second byte into a mapped page.\<close>

definition demo_srv_env :: "mem_view srv_env" where
  "demo_srv_env = \<lparr>sv_strcmp = strncmp, sv_core = flat_core, sv_mem = (\<lambda>_. 0), sv_push = True, sv_ns_push = (\<lambda>_. True), sv_ctx_alloc = True, sv_chunk_alloc = True,
     sv_name_max = 64, sv_tries = (\<lambda>_. one_job_io), sv_stale = [], sv_stat_bytes = (\<lambda>_. [])\<rparr>"

definition demo_file :: vfs_open_handle where
  "demo_file = \<lparr>in_use = True, refcnt = 1, h_ino = inode_zero\<lparr>backend_port := Some ''ramfs'', i_size := 3\<rparr>, h_offset = 1, h_open_flags = 0\<rparr>"

definition demo_srv :: "'v \<Rightarrow> 'v vfs_srv" where
  "demo_srv v = \<lparr>srv_handles = [demo_file\<lparr>in_use := False\<rparr>, demo_file], ctxs = Map.empty, srv_ns = demo_tree, srv_mounts = [], srv_backends = demo_backends,
     srv_cred = demo_cred, spaces = [7 \<mapsto> v], creds = Map.empty, srv_effects = []\<rparr>"

definition demo_request :: vfs_coop_ctx where
  "demo_request = ctx_zero\<lparr>cx_kind := VFS_COOP_KIND_READ, cx_pid := 7, cx_handle := 1, cx_user_buf := 0x3000, cx_count := 16\<rparr>"

lemma small_space_bytes: "unshared small_space" "i < 16 \<Longrightarrow> vbyte small_space (0x3000 + of_nat i) \<noteq> None"
proof -
  show "unshared small_space" by (auto simp: unshared_def small_space_def split: if_splits)
  have "\<forall>k \<in> set [0..<16]. vbyte small_space (0x3000 + of_nat k) \<noteq> None" by (simp add: upt_rec vbyte_def small_space_def VPN_def)
  then show "i < 16 \<Longrightarrow> vbyte small_space (0x3000 + of_nat i) \<noteq> None" by simp
qed

theorem vfs_read_correct_witness:
  "\<exists>cx' s' v'. run_read 17 [10, 20, 30] demo_srv_env (vfs_coop_start_rw demo_srv_env demo_request (demo_srv small_space)) = (FIN 2, cx', s')
    \<and> spaces s' 7 = Some v' \<and> flat_byte v' 0x3000 = 20 \<and> flat_byte v' 0x3001 = 30 \<and> flat_byte v' 0x3002 = flat_byte small_space 0x3002"
proof -
  have ub: "user_bytes (sv_core demo_srv_env) unshared flat_byte (\<lambda>m a. vbyte m a \<noteq> None)"
    using flat_bytes.user_bytes_axioms by (simp add: demo_srv_env_def)
  have h: "vfs_handle_get (cx_handle demo_request) (srv_handles (demo_srv small_space)) = Some demo_file"
    by (simp add: demo_srv_def demo_request_def demo_file_def vfs_handle_get_def)
  have facts: "sv_chunk_alloc demo_srv_env" "cx_kind demo_request = VFS_COOP_KIND_READ" "spaces (demo_srv small_space) (cx_pid demo_request) = Some small_space"
    "\<not> is_dir (h_ino demo_file)" "h_open_flags demo_file AND VFS_O_ACCMODE \<noteq> VFS_O_WRONLY" "backend_port (h_ino demo_file) \<noteq> None"
    "unat (cx_count demo_request) < 9223372036854775808" "unat (cx_count demo_request) < 17" "h_offset demo_file = 1"
    "cx_user_buf demo_request = 0x3000" "cx_count demo_request = 16" "cx_pid demo_request = 7"
    by (simp_all add: demo_srv_env_def demo_request_def demo_srv_def demo_file_def inode_zero_def)
  have ok: "\<forall>i < unat (cx_count demo_request). vbyte small_space (cx_user_buf demo_request + of_nat i) \<noteq> None" using small_space_bytes(2) facts by simp
  from vfs_read_correct [OF ub small_space_bytes(1) facts(1-3) h facts(4-7) ok facts(8), of "[10, 20, 30]"]
  obtain cx' s' v' where r: "run_read 17 [10, 20, 30] demo_srv_env (vfs_coop_start_rw demo_srv_env demo_request (demo_srv small_space)) = (FIN 2, cx', s')"
      "spaces s' 7 = Some v'"
      "\<forall>x. flat_byte v' x = (if unat (x - 0x3000) < 2 then [10, 20, 30] ! (1 + unat (x - 0x3000)) else flat_byte small_space x)"
    by (auto simp: facts)
  then show ?thesis by (intro exI [of _ cx'] exI [of _ s'] exI [of _ v']) simp
qed


definition demo_unit_env :: "unit srv_env" where
  "demo_unit_env = \<lparr>sv_strcmp = strncmp, sv_core = undefined, sv_mem = (\<lambda>_. 0), sv_push = True, sv_ns_push = (\<lambda>_. True), sv_ctx_alloc = True, sv_chunk_alloc = True,
     sv_name_max = 64, sv_tries = (\<lambda>_. one_job_io), sv_stale = [], sv_stat_bytes = (\<lambda>_. [])\<rparr>"

definition demo_queue :: "unit vfs_coop_queue" where
  "demo_queue = ipc_rpc_coop_queue_init \<lparr>jobs = [], send_owner = None, send_queue = [], nest_cookie_seq = 0, next_job = 0, delivered = [], server = demo_srv ()\<rparr>"



text \<open>C39. An exclusive creation never succeeds: whatever the backends answer, an open with \<^verbatim>\<open>O_CREAT|O_EXCL\<close> ends with an error. That holds also when the
  file did not exist and the server has created it: the lookup that follows the creation goes through the test for an existing file.\<close>

theorem excl_open_fails:
  assumes "cx_kind cx = VFS_COOP_KIND_OPEN" "cx_flags cx AND (VFS_O_CREAT OR VFS_O_EXCL) = VFS_O_CREAT OR VFS_O_EXCL" "\<forall>a \<in> set answers. fst a \<le> 0"
  shows "case fst (run_path e answers (vfs_coop_start_path e cx s)) of FIN r \<Rightarrow> r < 0 | PARK port req fail \<Rightarrow> fail < 0"
proof -
  have "hopeless (vfs_coop_start_path e cx s)"
    using assms start_lookup_hopeless [of cx] by (simp add: vfs_coop_start_path_def Let_def excl_def)
  from run_hopeless [OF this assms(3), of e] show ?thesis
    by (cases "run_path e answers (vfs_coop_start_path e cx s)" rule: hopeless.cases) simp_all
qed

definition demo_open :: vfs_coop_ctx where
  "demo_open = ctx_zero\<lparr>cx_kind := VFS_COOP_KIND_OPEN, cx_pid := 7, cx_path := ''/d/x'', cx_flags := VFS_O_CREAT OR VFS_O_EXCL OR 1, cx_mode := 0x1A4\<rparr>"

text \<open>A new file is created in the backend, found there, and the open is refused.\<close>

theorem excl_open_fails_witness:
  "fst (vfs_coop_start_path demo_unit_env demo_open (demo_srv ())) = PARK ''ramfs'' (OP_CREATE ''/d/x'' 0x81A4) (- LINUX_EIO)
   \<and> (case fst (run_path demo_unit_env [(0, O_NONE), (0, O_INO inode_zero)] (vfs_coop_start_path demo_unit_env demo_open (demo_srv ()))) of
        FIN r \<Rightarrow> r < 0 | PARK port req fail \<Rightarrow> fail < 0)
   \<and> fst (run_path demo_unit_env [(0, O_NONE), (0, O_INO inode_zero)] (vfs_coop_start_path demo_unit_env demo_open (demo_srv ()))) = FIN (- LINUX_EEXIST)"
proof (intro conjI)
  have o: "cx_kind demo_open = VFS_COOP_KIND_OPEN" "cx_flags demo_open AND (VFS_O_CREAT OR VFS_O_EXCL) = VFS_O_CREAT OR VFS_O_EXCL" by (simp_all add: demo_open_def)
  have a: "\<forall>a \<in> set [(0, O_NONE), (0, O_INO inode_zero)]. fst a \<le> (0 :: int)" by simp
  show "case fst (run_path demo_unit_env [(0, O_NONE), (0, O_INO inode_zero)] (vfs_coop_start_path demo_unit_env demo_open (demo_srv ()))) of
        FIN r \<Rightarrow> r < 0 | PARK port req fail \<Rightarrow> fail < 0" by (rule excl_open_fails [OF o a])
  show "fst (vfs_coop_start_path demo_unit_env demo_open (demo_srv ())) = PARK ''ramfs'' (OP_CREATE ''/d/x'' 0x81A4) (- LINUX_EIO)" by code_simp
  show "fst (run_path demo_unit_env [(0, O_NONE), (0, O_INO inode_zero)] (vfs_coop_start_path demo_unit_env demo_open (demo_srv ()))) = FIN (- LINUX_EEXIST)" by code_simp
qed

text \<open>The request that a new context sends to a backend fails with \<^verbatim>\<open>EIO\<close> when it cannot be sent.\<close>

definition fails_eio :: "'v srv_step \<Rightarrow> bool" where
  "fails_eio st \<longleftrightarrow> (case fst st of FIN r \<Rightarrow> True | PARK port req fail \<Rightarrow> fail = - LINUX_EIO)"

lemma fails_eio_simps [simp]:
  "fails_eio (FIN r, cx, s)" "fails_eio (PARK port req fail, cx, s) \<longleftrightarrow> fail = - LINUX_EIO" "fails_eio (vfs_coop_park op step cx s)"
  "fails_eio (getdents_end r cx s)" "fails_eio (install_handle e cx s)" "fails_eio (vfs_coop_issue_rw_nested f (- LINUX_EIO) cx s)"
  "fails_eio (vfs_coop_start_twopath prep op step cx s)"
  by (simp_all add: fails_eio_def vfs_coop_park_def getdents_end_def install_handle_def vfs_coop_issue_rw_nested_def vfs_coop_start_twopath_def
      split: option.split prod.split)

lemma fails_eio_if [simp]: "fails_eio (if b then st else st') \<longleftrightarrow> (if b then fails_eio st else fails_eio st')" by simp

lemma after_inode_eio: "fails_eio (vfs_coop_after_inode e cx s)"
  by (simp add: vfs_coop_after_inode_def vfs_coop_after_readlink_inode_def Let_def split: prod.split option.split)

lemma on_enoent_eio: "fails_eio (vfs_coop_open_on_enoent e cx s)"
  by (simp add: vfs_coop_open_on_enoent_def Let_def split: prod.split)

lemma start_lookup_eio: "fails_eio (vfs_coop_start_lookup e cx s)"
proof (induction e cx s rule: vfs_coop_start_lookup.induct)
  case (1 e cx s)
  show ?case
    by (subst vfs_coop_start_lookup.simps) (auto simp: Let_def after_inode_eio on_enoent_eio intro: 1 split: prod.split)
qed

lemma start_path_eio: "fails_eio (vfs_coop_start_path e cx s)"
  by (simp add: vfs_coop_start_path_def Let_def start_lookup_eio split: prod.split vfs_coop_kind.split)

lemma start_rw_eio: "fails_eio (vfs_coop_start_rw e cx s)"
  by (simp add: vfs_coop_start_rw_def Let_def split: option.split sum.split)

lemma getdents_loop_eio: "fails_eio (getdents_loop n e cx s)"
proof (induction n arbitrary: cx s)
  case (Suc n)
  then show ?case by (auto simp: getdents_packed_def Let_def split: prod.split option.split sum.split)
qed simp

lemma fill_eio: "fails_eio (vfs_coop_getdents_fill e cx s)"
  unfolding vfs_coop_getdents_fill_def by (rule getdents_loop_eio)

lemma start_request_eio: "fails_eio (start_request e cx s)"
  by (simp add: start_request_def start_rw_eio start_path_eio vfs_coop_start_getdents_def fill_eio Let_def split: option.split)

lemma busy_issue:
  assumes "send_owner q = Some i" "i \<noteq> j" "job_of q j = Some x" "job_state x = IPC_RPC_COOP_ST_NONE"
  shows "issue_loop n e j port req q = (C_RENDEZVOS, q)"
proof -
  have "ipc_rpc_coop_nested_call nm io j srv req q = (C_AGAIN, q)" for nm io srv using assms by (simp add: ipc_rpc_coop_nested_call_def)
  then show ?thesis using assms by (induction n) simp_all
qed

lemma finish_other:
  assumes "job_of q j = Some x" "send_owner q \<noteq> Some j"
  shows "vfs_coop_finish j r q = put_job ((ipc_rpc_coop_nested_clear x)\<lparr>job_result := r, job_state := IPC_RPC_COOP_ST_NEED_REPLY\<rparr>)
    (q\<lparr>server := (server q)\<lparr>ctxs := (ctxs (server q))(j := None)\<rparr>\<rparr>)"
proof -
  have "job_id x = j" using assms(1) by (auto simp: job_of_def find_Some_iff)
  then show ?thesis using assms by (simp add: vfs_coop_finish_def ipc_rpc_coop_job_set_result_def job_of_def clear_owner_other)
qed

lemma put_job_of:
  assumes "job_of q j = Some x" "job_id y = j"
  shows "job_of (put_job y q) j = Some y"
proof -
  have "find (\<lambda>z. job_id z = j) (map (\<lambda>z. if job_id z = job_id y then y else z) xs) = Some y"
    if "find (\<lambda>z. job_id z = j) xs = Some x" for xs
    using that assms(2) by (induction xs) (auto split: if_splits)
  then show ?thesis using assms(1) by (simp add: job_of_def put_job_def)
qed

text \<open>C40. A request that goes to a backend is refused while the message of any other job waits in the send queue: the handler of a request that has just come, whose client
  is known and whose start wants to ask a backend, tries 64 times to send that request, which cannot succeed, because only the poll of the same thread sends the
  waiting message, and gives the job the result \<^verbatim>\<open>EIO\<close>. The backend has not seen the request, and the send queue is as before.\<close>

theorem busy_request_fails:
  assumes "send_owner q = Some i" "i \<noteq> j" "job_of q j = Some x" "job_state x = IPC_RPC_COOP_ST_NONE"
    and "vfs_rpc_client_pid (reply_port x) = Some pid" "request_ctx m ctx_zero = Some cx" "sv_ctx_alloc e"
    and "fst (start_request e (fst (vfs_coop_fill_cred pid cx (server q))) (snd (vfs_coop_fill_cred pid cx (server q)))) = PARK port req fail"
  shows "\<exists>q'. vfs_coop_handler e j m q = (IPC_RPC_COOP_HANDLED 0, q')
    \<and> map_option (\<lambda>y. (job_state y, job_result y, reply_port y)) (job_of q' j) = Some (IPC_RPC_COOP_ST_NEED_REPLY, - LINUX_EIO, reply_port x)
    \<and> delivered q' = delivered q \<and> send_queue q' = send_queue q \<and> send_owner q' = Some i"
proof -
  define c where "c = vfs_coop_fill_cred pid cx (server q)"
  obtain cx1 s1 where st: "start_request e (fst c) (snd c) = (PARK port req fail, cx1, s1)"
    using assms(8) unfolding c_def by (metis fst_conv prod_cases3)
  have fail: "fail = - LINUX_EIO" using start_request_eio [of e "fst c" "snd c"] by (simp add: st)
  define q1 where "q1 = q\<lparr>server := s1\<lparr>ctxs := (ctxs s1)(j \<mapsto> cx1)\<rparr>\<rparr>"
  have q1: "job_of q1 j = Some x" "send_owner q1 = Some i" using assms(1,3) by (simp_all add: q1_def job_of_def)
  have "vfs_coop_handler e j m q = client_request e j m q" using assms(6) by (cases m) (simp_all add: vfs_coop_handler_def)
  also have "\<dots> = perform e j (PARK port req fail, cx1, s1) q"
    using assms(3,5-7) st by (simp add: client_request_def Let_def c_def case_prod_beta)
  also have "\<dots> = (IPC_RPC_COOP_HANDLED 0, vfs_coop_finish j fail q1)"
    using busy_issue [OF q1(2) assms(2) q1(1) assms(4), of 64] by (simp add: perform_def q1_def vfs_coop_issue_nested_def)
  finally have run: "vfs_coop_handler e j m q = (IPC_RPC_COOP_HANDLED 0, vfs_coop_finish j fail q1)" .
  have jx: "job_id x = j" using q1(1) by (auto simp: job_of_def find_Some_iff)
  have fin: "vfs_coop_finish j fail q1 = put_job ((ipc_rpc_coop_nested_clear x)\<lparr>job_result := fail, job_state := IPC_RPC_COOP_ST_NEED_REPLY\<rparr>)
      (q1\<lparr>server := (server q1)\<lparr>ctxs := (ctxs (server q1))(j := None)\<rparr>\<rparr>)"
    using finish_other [OF q1(1)] q1(2) assms(2) by simp
  have "job_of (q1\<lparr>server := (server q1)\<lparr>ctxs := (ctxs (server q1))(j := None)\<rparr>\<rparr>) j = Some x" using q1(1) by (simp add: job_of_def)
  from put_job_of [OF this, of "(ipc_rpc_coop_nested_clear x)\<lparr>job_result := fail, job_state := IPC_RPC_COOP_ST_NEED_REPLY\<rparr>"] jx
  have "job_of (vfs_coop_finish j fail q1) j = Some ((ipc_rpc_coop_nested_clear x)\<lparr>job_result := fail, job_state := IPC_RPC_COOP_ST_NEED_REPLY\<rparr>)"
    by (simp add: fin)
  moreover have "delivered (vfs_coop_finish j fail q1) = delivered q" "send_queue (vfs_coop_finish j fail q1) = send_queue q"
    "send_owner (vfs_coop_finish j fail q1) = Some i"
    unfolding fin using assms(1) by (simp_all add: q1_def)
  ultimately show ?thesis using run fail by (simp add: ipc_rpc_coop_nested_clear_def)
qed

text \<open>The reply of one client waits; process 7 wants to create a file.\<close>

definition demo_busy :: "unit vfs_coop_queue" where
  "demo_busy = snd (ipc_rpc_coop_job_create True (VFS_CLIENT_PORT_PREFIX @ [0x37])
     (the (ipc_rpc_coop_accept_one (vfs_coop_handler (lawful demo_unit_env)) one_job_slow_env True [0x61] V_UNSUPPORTED demo_queue)))"

theorem busy_request_fails_witness:
  "\<exists>q'. vfs_coop_handler demo_unit_env 1 (V_OPEN ''/d/x'' 0x41 0x1A4) demo_busy = (IPC_RPC_COOP_HANDLED 0, q')
    \<and> map_option job_result (job_of q' 1) = Some (- LINUX_EIO) \<and> delivered q' = []"
proof -
  define cx where "cx = ctx_zero\<lparr>cx_path := clip ''/d/x'', cx_kind := VFS_COOP_KIND_OPEN, cx_flags := 0x41, cx_mode := 0x1A4, cx_follow_symlink := True\<rparr>"
  have b: "send_owner demo_busy = Some 0" "(0::nat) \<noteq> 1" by code_simp+
  have "map_option (\<lambda>x. (job_state x, vfs_rpc_client_pid (reply_port x))) (job_of demo_busy 1) = Some (IPC_RPC_COOP_ST_NONE, Some 7)" by code_simp
  then obtain x where x: "job_of demo_busy 1 = Some x" "job_state x = IPC_RPC_COOP_ST_NONE" "vfs_rpc_client_pid (reply_port x) = Some 7" by blast
  have c: "request_ctx (V_OPEN ''/d/x'' 0x41 0x1A4) ctx_zero = Some cx" "sv_ctx_alloc demo_unit_env" by (simp_all add: cx_def demo_unit_env_def)
  have p: "fst (start_request demo_unit_env (fst (vfs_coop_fill_cred 7 cx (server demo_busy))) (snd (vfs_coop_fill_cred 7 cx (server demo_busy))))
      = PARK ''ramfs'' (OP_CREATE ''/d/x'' 0x81A4) (- LINUX_EIO)" unfolding cx_def by code_simp
  have d: "delivered demo_busy = []" by code_simp
  show ?thesis using busy_request_fails [OF b x c p] d by auto
qed

end
