(* ===== verification/Spec2Isabelle.thy ===== *)
theory Spec2Isabelle
  imports Vfs_Path Slice_Table Vfs_Handle Ramfs Pipe Signal_Deliver Vfs_Mount Cpio Vfs_Namespace Fd_System Proc_Wait Vfs_Backends Exec_Correct Vfs_Server_Correct
begin

text \<open>
  A verification library of the Linux compatibility layer of RendezvOS: the kernel-side code under \<^verbatim>\<open>src/linux_layer\<close> that serves system calls, and the
  server threads under \<^verbatim>\<open>src/servers\<close>. The microkernel core (\<^verbatim>\<open>core/\<close>, a submodule) is not part of the repository; what the code uses of it is
  an argument of the model.

  \<^bold>\<open>The program.\<close> A system call enters the compatibility layer on the thread of the process. File system calls resolve descriptors and
  paths (\<^verbatim>\<open>linux_layer/fs\<close>) and send a request to the file server; the server keeps the open-file handles, the mounts and the namespace
  (\<^verbatim>\<open>servers/fs\<close>) and reaches its files through two backends, the in-memory file system \<^verbatim>\<open>ramfs\<close> and the read-only \<^verbatim>\<open>cpio\<close> image, over a page cache. Process calls create,
  end and await processes (\<^verbatim>\<open>linux_layer/proc\<close>); the clean server (\<^verbatim>\<open>servers/clean_server.c\<close>) reaps exited threads and tells the parents. Memory calls and page faults
  work on the user address space (\<^verbatim>\<open>linux_layer/mm\<close>), signals (\<^verbatim>\<open>linux_layer/signal\<close>) are queued and delivered on the way back to user mode, and exec builds
  the image and the initial stack of a program.

  \<^bold>\<open>Theories, sources, and what the lemmas show.\<close>

  \<^item> \<open>Prelude\<close>: word types, error codes, the locale \<open>strcmp_api\<close> (the core's \<^verbatim>\<open>strcmp_s\<close>) with the instance \<open>strncmp\<close>, shared lemmas.
  \<^item> \<open>Vfs_Path\<close> (\<^verbatim>\<open>linux_layer/fs/vfs_path.c\<close>): paths as strings; normalisation computes the component list of a reference resolver.
  \<^item> \<open>Slice_Table\<close> (\<^verbatim>\<open>servers/fs/vfs_slice_table.c\<close>): the growable record table over byte memory refines a list of records; the page slice is the locale
    \<open>page_slice_api\<close>. Later theories use lists for tables.
  \<^item> \<open>Vfs_Inode\<close>, \<open>Vfs_Handle\<close> (\<^verbatim>\<open>vfs_kstat.c\<close>, \<^verbatim>\<open>vfs_perm.c\<close>, \<^verbatim>\<open>vfs_handle.c\<close>, \<^verbatim>\<open>vfs_open.c\<close>): inodes, permissions, and the reference-counted handle table (locale
    \<open>ref_counts\<close>): a handle lives exactly while references remain.
  \<^item> \<open>Ramfs\<close> (\<^verbatim>\<open>ramfs_layer.c\<close>): files in an explicit heap of buffers; reads return what was written, paths refine a map, and an aliasing bug of hard links.
  \<^item> \<open>Cpio\<close> (\<^verbatim>\<open>cpio_rofs.c\<close>): the parser of \<^verbatim>\<open>newc\<close> images over explicit memory reads back every packed archive; with pointers of 64 bits, and an image that ends
    at least \<open>2 ^ 33\<close> bytes below the end of the address space, no recorded file lies outside the image.
  \<^item> \<open>Vfs_Mount\<close>, \<open>Vfs_Namespace\<close> (\<^verbatim>\<open>vfs_mount.c\<close>, \<^verbatim>\<open>vfs_backend.c\<close>, \<^verbatim>\<open>vfs_namespace.c\<close>): longest-prefix routing; the tree of names with its invariant \<open>ns_inv\<close> denotes
    a map from component lists to attributes, which create, rename, unlink and the population from the archive update as expected.
  \<^item> \<open>Page_Cache\<close>, \<open>Page_Cache_Inv\<close>, \<open>Vfs_Backends\<close> (\<^verbatim>\<open>vfs_page_cache.c\<close>, \<^verbatim>\<open>vfs_backend_ramfs.c\<close>, \<^verbatim>\<open>vfs_backend_cpio.c\<close>): the cache with its lists and eviction (locale
    \<open>page_slice_bytes\<close> for the core's page slices) stays coherent with the files; reads and writes through it act on the file.
  \<^item> \<open>Pipe\<close>, \<open>Fd_Table\<close>, \<open>Fd_System\<close> (\<^verbatim>\<open>linux_pipe.c\<close>, \<^verbatim>\<open>linux_fd_table.c\<close>, \<^verbatim>\<open>sys_fs_impl.c\<close>, \<^verbatim>\<open>sys_fcntl.c\<close>, \<^verbatim>\<open>linux_vfs_path.c\<close>): a pipe is a byte queue as long as reads
    do not cross the end of its ring; in every history of processes that open, duplicate, fork, close, exit and are reaped, the ends of the pipes are counted by the descriptors in use,
    until the first reap of a process that left \<^verbatim>\<open>sys_exit\<close> with open files or pipes, or the first exit of one of several threads of such a process, which release references twice.
  \<^item> \<open>Signal_State\<close>, \<open>Signal_Queue\<close>, \<open>Signal_Deliver\<close> (\<^verbatim>\<open>linux_layer/signal\<close> and the signal system calls): masks, dispositions, queues, default actions; a handler
    frame and \<^verbatim>\<open>rt_sigreturn\<close> restore the interrupted context.
  \<^item> \<open>Proc_Registry\<close>, \<open>Proc_Steps\<close>, \<open>Proc_Exit\<close>, \<open>Proc_Inv\<close>, \<open>Proc_Wait\<close> (\<^verbatim>\<open>sys_proc_registry.c\<close>, \<^verbatim>\<open>linux_proc.c\<close>, \<^verbatim>\<open>sys_fork.c\<close>, \<^verbatim>\<open>sys_clone.c\<close>, \<^verbatim>\<open>sys_wait.c\<close>,
    \<^verbatim>\<open>proc_wait_ipc.c\<close>, \<^verbatim>\<open>thread_syscall.c\<close>, \<^verbatim>\<open>clean_server.c\<close>): the registry over the core's name index (locale \<open>name_index_api\<close>); process objects on an explicit heap with reference
    counts, as a step relation; no object is used after it is freed, and the parent of an exited process gets its status.
  \<^item> \<open>User_Mm\<close>, \<open>User_Mm_Inv\<close>, \<open>Mm_Syscalls\<close>, \<open>Mm_Correct\<close> (\<^verbatim>\<open>linux_layer/mm\<close>): mapping, unmapping, protection, copy-on-write, user copies and the page fault decision over the
    record \<open>mm_core\<close> with the laws of the locale \<open>user_mm\<close> (page tables, frames, range locks), instantiated by the flat memory \<open>flat_core\<close>.
  \<^item> \<open>Exec_Image\<close>, \<open>User_Bytes\<close>, \<open>Exec_Correct\<close> (\<^verbatim>\<open>linux_exec_stack.c\<close>, \<^verbatim>\<open>linux_exec.c\<close>, \<^verbatim>\<open>sys_execve.c\<close> and others): argument copies, the layout of the initial stack, and the
    replacement of the image, over byte-wise user memory (locale \<open>user_bytes\<close>).
  \<^item> \<open>Rpc_Wire\<close>, \<open>Rpc_Coop\<close>, \<open>Rpc_Coop_Inv\<close> (\<^verbatim>\<open>linux_layer/ipc/rpc.c\<close>): port names, reply ports and tokens in messages; the cooperative server with its jobs and
    the one send queue that they share. The contract of a server with this framework is the locale \<open>coop_server\<close>: under it replies are routed to their requests,
    unless an error reply of the framework itself meets a waiting message (which swaps two replies).
  \<^item> \<open>Vfs_Server\<close>, \<open>Vfs_Server_Correct\<close> (\<^verbatim>\<open>vfs_coop.c\<close>, \<^verbatim>\<open>vfs_coop_path.c\<close>, \<^verbatim>\<open>vfs_rpc.c\<close>): the requests of the file server as machines that wait for backends; the server
    keeps the contract, a read delivers the bytes of the file over any number of chunks, and two behaviours that are not intended.
  \<^item> this theory: the boot image and the namespace together.

  \<^bold>\<open>Conventions.\<close> Structures are records, enumerations datatypes; pointers to table records are indices, and heaps are maps from addresses. 64- and 32-bit
  arithmetic is on words where it can wrap; sizes that the code bounds are natural numbers. Errors are values: negative
  \<open>int\<close> results for errno codes, \<open>REND_ERR\<close> for codes of the core, \<open>option\<close> or sum types for pointers that may be null. Outcomes of allocations, of growing a table and of
  sends are arguments (\<open>push_ok\<close>, \<open>alloc_ok\<close>, \<open>be_env\<close>, \<open>pc_env\<close> and the like), so every error branch of the code is a branch of the model.

  \<^bold>\<open>Bounds and fuel.\<close> Path lookup is bounded by the depth 64 that the code checks (\<^verbatim>\<open>VFS_NS_PATH_DEPTH_MAX\<close>), strings of archives by the 300 characters that \<open>cstr\<close> reads,
  which exceeds \<^verbatim>\<open>VFS_PATH_MAX\<close>; decimal conversion by the size of the digit buffers, which exceeds the digits of a 64-bit value. Loops that need a progress argument have termination proofs
  (\<open>cpio_scan\<close>, \<open>lookup_loop\<close>, \<open>run_loop\<close>); the eviction of a registry entry may not end in the code, is a \<open>partial_function\<close> and is proved to return; so is the scan of
  the archive with wrapping pointers (\<open>cpio_scan64\<close>), for images away from the end of the address space. A blocking loop takes the list of what its
  attempts meet and returns nothing when the list ends. The loop over directory entries has one iteration more than the buffer has words, which is never reached (\<open>getdents_fuel\<close>).

  \<^bold>\<open>Granularity.\<close> A system call is one step of the histories, except \<^verbatim>\<open>wait4\<close>, which takes one step per message, and the reaping of a thread, which takes two;
  the threads of one process and the data races between processors are not modelled.

  \<^bold>\<open>Not modelled.\<close> Code whose effect is only on hardware, the scheduler or the console (trap entry, timers, \<^verbatim>\<open>syscall_entry.c\<close>, \<^verbatim>\<open>linux_ktime.c\<close>), creation of ports and server
  threads, calls that only forward their arguments (\<^verbatim>\<open>fs_ipc.c\<close>, \<^verbatim>\<open>sys_mount.c\<close>, most of \<^verbatim>\<open>sys_fs_impl.c\<close>), the ELF loader, which is in the core, and the aarch64 variants of register copies. The
  manifest lists each of these parts with its reason.
\<close>

section \<open>From the boot image to the namespace\<close>

definition archive_root :: "string list \<rightharpoonup> ns_attr" where
  "archive_root = [[] \<mapsto> (True, False, False, False, 0x1ED OR MODE_DIR)]"

text \<open>C7. Booting from an image: when the memory at the image address holds the \<^verbatim>\<open>newc\<close> records of \<open>fs\<close>
  and the archive lists every path once and after its parent directory, then
  \<^verbatim>\<open>cpio_rofs_init\<close> followed by \<^verbatim>\<open>vfs_namespace_init\<close> succeeds and builds a well-formed tree that
  denotes exactly the root and the files of the archive, with their type and mode.\<close>

theorem boot_namespace:
  assumes "strcmp_api scmp" "holds m img (newc_pack fs)" "length (newc_pack fs) \<le> len" "img \<noteq> 0"
    and "\<forall>f \<in> set fs. archivable f" "archive_order archive_root (pack_entries img fs)"
    and "\<forall>k. push_res k = REND_SUCCESS" "\<forall>k. push_ok k"
  shows "\<exists>st' s'. cpio_rofs_init scmp REND_SUCCESS push_res m img len st = (REND_SUCCESS, st')
    \<and> vfs_namespace_init scmp push_ok (cpio_entry_tab st') False s = (REND_SUCCESS, True, s')
    \<and> ns_inv scmp s' \<and> ns_view scmp s' = archive_map archive_root (pack_entries img fs)"
proof -
  have "110 \<le> length (newc_pack fs)" by (simp add: newc_pack_def newc_record_def)
  then have "cpio_rofs_init scmp REND_SUCCESS push_res m img len st
      = (REND_SUCCESS, \<lparr>cpio_entry_tab = pack_entries img fs, cpio_image = img, cpio_image_len = len\<rparr>)"
    using strcmp_api.scan_pack [OF assms(1,2,5), where es = "[]" and hi = "img + len" and push_res = push_res] assms(3,4,7)
    by (simp add: cpio_rofs_init_def)
  moreover obtain s' where "cpio_rofs_visit (vfs_ns_populate_cb scmp push_ok) (pack_entries img fs) vfs_namespace_reset = (True, s')"
      "ns_inv scmp s'" "ns_view scmp s' = archive_map archive_root (pack_entries img fs)"
    using strcmp_api.init_view [OF assms(1,6) _ strcmp_api.reset_inv [OF assms(1)] strcmp_api.reset_pristine [OF assms(1)] assms(8)]
      strcmp_api.reset_view [OF assms(1)] by (auto simp: archive_root_def)
  ultimately show ?thesis by (simp add: vfs_namespace_init_def)
qed

theorem boot_namespace_witness:
  "\<exists>(st' :: cpio_rofs) s'. vfs_namespace_init strncmp (\<lambda>_. True) (cpio_entry_tab st') False [] = (REND_SUCCESS, True, s')
     \<and> ns_view strncmp s' [''etc'', ''motd''] = Some (False, False, True, False, 0x81A4)
     \<and> ns_view strncmp s' [''bin''] = None"
proof -
  have len: "length (newc_pack demo_files) \<le> 1024"
    by (simp add: demo_files_def newc_pack_def length_newc_record record_length_def data_offset_def newc_trailer_def)
  have ok: "\<forall>f \<in> set demo_files. archivable f"
    by (simp add: demo_files_def archivable_def newc_ok_def)
  have order: "archive_order archive_root (pack_entries 8 demo_files)" by code_simp
  have "archive_map archive_root (pack_entries 8 demo_files) [''etc'', ''motd''] = Some (False, False, True, False, 0x81A4)"
      "archive_map archive_root (pack_entries 8 demo_files) [''bin''] = None"
    by code_simp+
  moreover have nz: "(8 :: nat) \<noteq> 0" and grow: "\<forall>k :: nat. REND_SUCCESS = REND_SUCCESS" "\<forall>k :: nat. True" by simp_all
  obtain st' :: cpio_rofs and s' where "vfs_namespace_init strncmp (\<lambda>_. True) (cpio_entry_tab st') False [] = (REND_SUCCESS, True, s')"
      "ns_view strncmp s' = archive_map archive_root (pack_entries 8 demo_files)"
    using boot_namespace [OF strncmp.strcmp_api_axioms holds_memory_of len nz ok order grow,
        of "\<lparr>cpio_entry_tab = [], cpio_image = 0, cpio_image_len = 0\<rparr>" "[]"]
    by blast
  ultimately show ?thesis by metis
qed

end
